(* ===== verification/Prelude.thy ===== *)
theory Prelude
  imports Main "HOL-Library.Word" "HOL-Library.Monad_Syntax"
begin

text \<open>
  Shared vocabulary of the development: the integer types of core/include/dtype.h as machine
  words, addresses and pointers, and the generic facts on the option monad, words and lists
  that the component theories use.

  A C function that reads memory, blocks on a lock or asserts is a function into
  \<^typ>\<open>('r \<times> 's) option\<close>: \<open>Some (r, s')\<close> is the returned value and the new state, \<open>None\<close>
  stands for every way of not returning normally (waiting forever on a lock that is held,
  an access to memory that is not allocated, a failed assertion). Such functions are
  composed with the bind of the option type.
\<close>

unbundle bit_operations_syntax

section \<open>Machine types\<close>

type_synonym u8 = "8 word"
type_synonym u16 = "16 word"
type_synonym u32 = "32 word"
type_synonym u64 = "64 word"
type_synonym s32 = "32 word"

text \<open>Addresses of live memory blocks; a pointer is \<open>None\<close> for NULL.\<close>

type_synonym addr = nat
type_synonym ptr = "addr option"

section \<open>Collections used by the component proofs\<close>

named_theorems lock_simps \<open>laws of the lock operations on the states the components keep\<close>
named_theorems heap_simps \<open>reads and writes of linked memory\<close>
named_theorems spec_simps \<open>abstract behaviour of the operations of a component\<close>

section \<open>The option monad\<close>

lemma bind_Some_iff: "(Option.bind x f = Some y) = (\<exists>z. x = Some z \<and> f z = Some y)"
  by (cases x) auto

section \<open>Words\<close>

lemma unat_add_one_less: "unat (w :: 'a :: len word) + 1 < 2 ^ LENGTH('a) \<Longrightarrow> unat (w + 1) = unat w + 1"
  by (simp add: unat_word_ariths)

lemma unat_eq_Suc_0_iff: "(unat w = Suc 0) = (w = (1 :: 'a :: len word))"
  by (simp add: word_unat_eq_iff)

lemma unat_sub_one: "w \<noteq> 0 \<Longrightarrow> unat (w - 1 :: 'a :: len word) = unat w - 1"
  by (simp add: unat_minus_one)

lemma unat_of_nat_small: "n < 2 ^ LENGTH('a) \<Longrightarrow> unat (of_nat n :: 'a :: len word) = n"
  by (simp add: unat_of_nat take_bit_nat_eq_self)

lemma of_nat_word_neq_0: "0 < n \<Longrightarrow> n < 2 ^ LENGTH('a) \<Longrightarrow> (of_nat n :: 'a :: len word) \<noteq> 0"
proof
  assume n: "0 < n" "n < 2 ^ LENGTH('a)" and "(of_nat n :: 'a word) = 0"
  then have "unat (of_nat n :: 'a word) = 0" by simp
  with n show False by (simp add: unat_of_nat_small)
qed

lemma of_nat_word_eq_0_iff:
  "n < 2 ^ LENGTH('a) \<Longrightarrow> ((of_nat n :: 'a :: len word) = 0) = (n = 0)"
  using of_nat_word_neq_0 [of n, where 'a = 'a] by auto

section \<open>Lists\<close>

lemma hd_opt_append: "xs \<noteq> [] \<Longrightarrow> hd (xs @ ys) = hd xs"
  by simp

lemma distinct_split:
  "distinct (xs @ x # ys) \<Longrightarrow> x \<notin> set xs \<and> x \<notin> set ys \<and> set xs \<inter> set ys = {}"
  by auto

lemma unat_ucast_u64: "unat (ucast (w :: u32) :: u64) = unat w"
proof -
  have "unat w < 2 ^ 32" using unsigned_less [of w, where ?'a = nat] by simp
  then show ?thesis by (simp add: unsigned_ucast_eq take_bit_nat_eq_self)
qed

lemma unat_ucast_u32: "unat (x :: u64) < 2 ^ 32 \<Longrightarrow> unat (ucast x :: u32) = unat x"
  by (simp add: unsigned_ucast_eq take_bit_nat_eq_self)

end
