(* ===== verification/Mutex.thy ===== *)
theory Mutex
  imports Prelude
begin

text \<open>
  The re-entrant locks of the system. \<open>mutex\<close> is the struct of core/repository-2/private.h and
  mutex.cpp, built on \<open>std::mutex\<close>; \<open>cMutex\<close> is the class of core/sync/mutex.cpp (in its
  \<open>USE_SPINLOCK\<close> build), built on the spin lock of core/include/spinlock.h. Both hand out
  a handle made of a counter and the object's address and let a caller re-enter when it
  passes the current handle back. The interface both provide is the locale
  \<open>reentrant_lock\<close>, stated over the abstract owner of a lock. \<open>cEvent\<close> is the event
  object of core/sync/event.cpp.

  A call that would wait for the underlying lock is \<open>None\<close>. So is releasing a
  \<open>std::mutex\<close> that is not locked, which the C++ library leaves undefined.
\<close>

section \<open>The struct mutex of the repository\<close>

record mutex =
  m_self :: u64    \<comment> \<open>the object's address, \<open>this\<close>\<close>
  m_mutex :: bool  \<comment> \<open>whether the \<open>std::mutex\<close> is locked\<close>
  m_lcount :: u32  \<comment> \<open>lock count\<close>
  m_hcount :: u32  \<comment> \<open>handle count\<close>

definition make_handle :: "u32 \<Rightarrow> u64 \<Rightarrow> u64" where
  "make_handle hcount this =
     (push_bit 32 (ucast hcount :: u64)) OR (ucast (ucast this :: u32) :: u64)"

definition get_handle :: "mutex \<Rightarrow> u64" where
  "get_handle m = make_handle (m_hcount m) (m_self m)"

definition mutex_new :: "u64 \<Rightarrow> mutex" where
  "mutex_new this = \<lparr>m_self = this, m_mutex = False, m_lcount = 0, m_hcount = 0\<rparr>"

definition mutex_lock :: "mutex \<Rightarrow> u64 \<Rightarrow> (u64 \<times> mutex) option" where
  "mutex_lock m h =
     (if h \<noteq> get_handle m then
        (if m_mutex m then None
         else let m' = m\<lparr>m_mutex := True, m_lcount := 1, m_hcount := m_hcount m + 1\<rparr>
              in Some (get_handle m', m'))
      else Some (h, m\<lparr>m_lcount := m_lcount m + 1\<rparr>))"

definition mutex_try_lock :: "mutex \<Rightarrow> u64 \<Rightarrow> u64 \<times> mutex" where
  "mutex_try_lock m h =
     (if h \<noteq> get_handle m then
        (if m_mutex m then (0, m)
         else let m' = m\<lparr>m_mutex := True, m_lcount := 1, m_hcount := m_hcount m + 1\<rparr>
              in (get_handle m', m'))
      else (h, m\<lparr>m_lcount := m_lcount m + 1\<rparr>))"

definition mutex_unlock :: "mutex \<Rightarrow> u64 \<Rightarrow> mutex option" where
  "mutex_unlock m h =
     (if h = get_handle m then
        (let m1 = (if m_lcount m \<noteq> 0 then m\<lparr>m_lcount := m_lcount m - 1\<rparr> else m)
         in if m_lcount m1 = 0
            then (if m_mutex m1 then Some (m1\<lparr>m_mutex := False\<rparr>) else None)
            else Some m1)
      else Some m)"

section \<open>The spin lock and the class cMutex\<close>

record spinlock =
  status :: bool  \<comment> \<open>the atomic flag\<close>

definition spinlock_lock :: "spinlock \<Rightarrow> spinlock option" where
  "spinlock_lock s = (if status s then None else Some (s\<lparr>status := True\<rparr>))"

definition spinlock_unlock :: "spinlock \<Rightarrow> spinlock" where
  "spinlock_unlock s = s\<lparr>status := False\<rparr>"

definition spinlock_try_lock :: "spinlock \<Rightarrow> bool \<times> spinlock" where
  "spinlock_try_lock s = (\<not> status s, s\<lparr>status := True\<rparr>)"

record cMutex =
  cm_self :: u64
  m_spinlock :: spinlock
  cm_lcount :: u32
  cm_hcount :: u32

definition GET_HANDLE :: "cMutex \<Rightarrow> u64" where
  "GET_HANDLE m = make_handle (cm_hcount m) (cm_self m)"

text \<open>\<open>object_ctl\<close>: \<open>OCTL_INIT\<close> resets the counters (and leaves the flag as it is),
  \<open>OCTL_UNINIT\<close> does nothing; every other command is refused.\<close>

datatype octl = OCTL_INIT | OCTL_UNINIT | OCTL_START | OCTL_STOP

definition cMutex_object_ctl :: "octl \<Rightarrow> cMutex \<Rightarrow> bool \<times> cMutex" where
  "cMutex_object_ctl cmd m =
     (case cmd of
        OCTL_INIT \<Rightarrow> (True, m\<lparr>cm_lcount := 0, cm_hcount := 0\<rparr>)
      | OCTL_UNINIT \<Rightarrow> (True, m)
      | _ \<Rightarrow> (False, m))"

definition cMutex_lock :: "cMutex \<Rightarrow> u64 \<Rightarrow> (u64 \<times> cMutex) option" where
  "cMutex_lock m h =
     (if h \<noteq> GET_HANDLE m then
        do {
          s \<leftarrow> spinlock_lock (m_spinlock m);
          let m' = m\<lparr>m_spinlock := s, cm_lcount := 1, cm_hcount := cm_hcount m + 1\<rparr>;
          Some (GET_HANDLE m', m')
        }
      else Some (h, m\<lparr>cm_lcount := cm_lcount m + 1\<rparr>))"

definition cMutex_try_lock :: "cMutex \<Rightarrow> u64 \<Rightarrow> u64 \<times> cMutex" where
  "cMutex_try_lock m h =
     (if h \<noteq> GET_HANDLE m then
        (case spinlock_try_lock (m_spinlock m) of
           (ok, s) \<Rightarrow>
             if ok then
               (let m' = m\<lparr>m_spinlock := s, cm_lcount := 1, cm_hcount := cm_hcount m + 1\<rparr>
                in (GET_HANDLE m', m'))
             else (0, m\<lparr>m_spinlock := s\<rparr>))
      else (h, m\<lparr>cm_lcount := cm_lcount m + 1\<rparr>))"

definition cMutex_unlock :: "cMutex \<Rightarrow> u64 \<Rightarrow> cMutex option" where
  "cMutex_unlock m h =
     (if h = GET_HANDLE m then
        (let m1 = (if cm_lcount m \<noteq> 0 then m\<lparr>cm_lcount := cm_lcount m - 1\<rparr> else m)
         in Some (if cm_lcount m1 = 0
                  then m1\<lparr>m_spinlock := spinlock_unlock (m_spinlock m1)\<rparr> else m1))
      else Some m)"

section \<open>The event object\<close>

record cEvent =
  m_state :: u64

definition cEvent_object_ctl :: "octl \<Rightarrow> cEvent \<Rightarrow> bool \<times> cEvent" where
  "cEvent_object_ctl cmd e =
     (case cmd of
        OCTL_INIT \<Rightarrow> (True, e\<lparr>m_state := 0\<rparr>)
      | OCTL_UNINIT \<Rightarrow> (True, e)
      | _ \<Rightarrow> (False, e))"

definition cEvent_check :: "cEvent \<Rightarrow> u64 \<Rightarrow> u64 \<times> cEvent" where
  "cEvent_check e msk =
     (let r = m_state e AND NOT msk; old = m_state e; e' = e\<lparr>m_state := r\<rparr>
      in (if msk \<noteq> 0 then old AND msk else old, e'))"

text \<open>\<open>wait\<close> polls \<open>check\<close>; when nobody sets the state in between, every poll sees the same
  state, so the loop leaves at the first poll or never.\<close>

definition cEvent_wait :: "cEvent \<Rightarrow> u64 \<Rightarrow> (u64 \<times> cEvent) option" where
  "cEvent_wait e msk =
     (case cEvent_check e msk of (r, e') \<Rightarrow> if r \<noteq> 0 then Some (r, e') else None)"

definition cEvent_set :: "cEvent \<Rightarrow> u64 \<Rightarrow> cEvent" where
  "cEvent_set e msk = e\<lparr>m_state := msk OR m_state e\<rparr>"

section \<open>The interface of a re-entrant lock\<close>

text \<open>
  What the holders of a lock rely on, over the abstract owner of a lock state: \<open>None\<close> when
  nobody holds it, \<open>Some (h, n)\<close> when it is held under handle \<open>h\<close>, entered \<open>n\<close> times.
\<close>

locale reentrant_lock =
  fixes lock :: "'l \<Rightarrow> u64 \<Rightarrow> (u64 \<times> 'l) option"
    and unlock :: "'l \<Rightarrow> u64 \<Rightarrow> 'l option"
    and owner :: "'l \<Rightarrow> (u64 \<times> nat) option"
    and ok :: "'l \<Rightarrow> bool"
  assumes lock_free: "ok l \<Longrightarrow> owner l = None \<Longrightarrow>
      \<exists>h l'. lock l 0 = Some (h, l') \<and> ok l' \<and> owner l' = Some (h, 1)"
    and lock_again: "ok l \<Longrightarrow> owner l = Some (h, n) \<Longrightarrow> n + 1 < 2 ^ 32 \<Longrightarrow>
      \<exists>l'. lock l h = Some (h, l') \<and> ok l' \<and> owner l' = Some (h, n + 1)"
    and lock_waits: "ok l \<Longrightarrow> owner l = Some (h, n) \<Longrightarrow> h' \<noteq> h \<Longrightarrow> lock l h' = None"
    and unlock_owner: "ok l \<Longrightarrow> owner l = Some (h, n) \<Longrightarrow>
      \<exists>l'. unlock l h = Some l' \<and> ok l' \<and> owner l' = (if n = 1 then None else Some (h, n - 1))"
    and unlock_other: "ok l \<Longrightarrow> owner l = Some (h, n) \<Longrightarrow> h' \<noteq> h \<Longrightarrow> unlock l h' = Some l"
    and owner_pos: "ok l \<Longrightarrow> owner l = Some (h, n) \<Longrightarrow> 0 < n \<and> h \<noteq> 0"
begin

text \<open>A caller may enter with handle \<open>h\<close>: the default 0 on a free lock, or the owner's
  handle while the nesting counter has room for one more level.\<close>

definition ready :: "'l \<Rightarrow> u64 \<Rightarrow> bool" where
  "ready l h \<longleftrightarrow> ok l \<and>
     ((h = 0 \<and> owner l = None) \<or> (\<exists>n. owner l = Some (h, n) \<and> n + 1 < 2 ^ 32))"

lemma enter:
  assumes "ready l h"
  obtains hm l' where "lock l h = Some (hm, l')" and "ok l'"
    and "owner l' = (case owner l of None \<Rightarrow> Some (hm, 1) | Some (h, n) \<Rightarrow> Some (hm, n + 1))"
    and "owner l = None \<or> hm = h"
proof (cases "owner l")
  case None
  with assms have "ok l" "h = 0" by (auto simp: ready_def)
  with None lock_free [of l] show ?thesis using that by auto
next
  case (Some p)
  with assms obtain n where "ok l" "owner l = Some (h, n)" "n + 1 < 2 ^ 32"
    by (auto simp: ready_def)
  with lock_again [of l h n] show ?thesis using that by auto
qed

text \<open>A bracket of lock and unlock around code that leaves the lock alone restores the owner.\<close>

lemma bracket:
  assumes "ready l h"
  obtains hm l1 l2 where "lock l h = Some (hm, l1)" and "unlock l1 hm = Some l2"
    and "owner l2 = owner l" and "ready l2 h" and "ok l1"
    and "owner l = None \<longrightarrow> owner l1 = Some (hm, 1)"
    and "\<And>n. owner l = Some (h, n) \<Longrightarrow> hm = h \<and> owner l1 = Some (h, n + 1)"
proof -
  obtain hm l1 where 1: "lock l h = Some (hm, l1)" "ok l1" "owner l = None \<or> hm = h"
    "owner l1 = (case owner l of None \<Rightarrow> Some (hm, 1) | Some (h, n) \<Rightarrow> Some (hm, n + 1))"
    using enter [OF assms] by metis
  obtain n where n: "owner l1 = Some (hm, n)" "0 < n" "n = 1 \<longleftrightarrow> owner l = None"
    using 1 assms owner_pos [of l h] by (cases "owner l") (auto simp: ready_def)
  obtain l2 where 2: "unlock l1 hm = Some l2" "ok l2"
      "owner l2 = (if n = 1 then None else Some (hm, n - 1))"
    using unlock_owner [OF 1(2) n(1)] by auto
  have "owner l2 = owner l"
    using 1 2 n assms by (cases "owner l") (auto simp: ready_def)
  moreover from this have "ready l2 h" using assms 2(2) by (simp add: ready_def)
  ultimately show ?thesis using that 1 2 assms by (auto simp: ready_def)
qed

end

section \<open>The two lock classes implement it\<close>

lemma make_handle_low: "ucast (make_handle n this) = (ucast this :: u32)"
  unfolding make_handle_def
  by (rule bit_word_eqI) (auto simp: bit_simps)

lemma make_handle_nonzero: "ucast this \<noteq> (0 :: u32) \<Longrightarrow> make_handle n this \<noteq> 0"
  by (metis make_handle_low unsigned_0)

lemma unat_u32_inc: "unat (w :: u32) + 1 < 2 ^ 32 \<Longrightarrow> unat (w + 1) = unat w + 1"
  using unat_add_one_less [of w] by simp

definition mutex_owner :: "mutex \<Rightarrow> (u64 \<times> nat) option" where
  "mutex_owner m = (if m_mutex m then Some (get_handle m, unat (m_lcount m)) else None)"

definition mutex_ok :: "mutex \<Rightarrow> bool" where
  "mutex_ok m \<longleftrightarrow> (ucast (m_self m) :: u32) \<noteq> 0 \<and> (m_mutex m \<longrightarrow> m_lcount m \<noteq> 0)"

definition cMutex_owner :: "cMutex \<Rightarrow> (u64 \<times> nat) option" where
  "cMutex_owner m =
     (if status (m_spinlock m) then Some (GET_HANDLE m, unat (cm_lcount m)) else None)"

definition cMutex_ok :: "cMutex \<Rightarrow> bool" where
  "cMutex_ok m \<longleftrightarrow>
     (ucast (cm_self m) :: u32) \<noteq> 0 \<and> (status (m_spinlock m) \<longrightarrow> cm_lcount m \<noteq> 0)"

lemmas mutex_defs = mutex_lock_def mutex_unlock_def mutex_owner_def mutex_ok_def get_handle_def
lemmas cMutex_defs = cMutex_lock_def cMutex_unlock_def cMutex_owner_def cMutex_ok_def
  GET_HANDLE_def spinlock_lock_def spinlock_unlock_def

lemma lcount_room: "unat (w :: u32) + 1 < 2 ^ 32 \<Longrightarrow> w + 1 \<noteq> 0"
  by (metis unat_u32_inc Suc_eq_plus1 nat.distinct(1) unat_0)

interpretation mutex: reentrant_lock mutex_lock mutex_unlock mutex_owner mutex_ok
proof (unfold_locales, goal_cases)
  case (1 l)
  then show ?case by (auto simp: mutex_defs Let_def make_handle_nonzero)
next
  case (2 l h n)
  then show ?case by (auto simp: mutex_defs unat_u32_inc lcount_room split: if_splits)
next
  case (3 l h n h')
  then show ?case by (auto simp: mutex_defs split: if_splits)
next
  case (4 l h n)
  then show ?case
    by (auto simp: mutex_defs Let_def unat_eq_Suc_0_iff unat_sub_one split: if_splits)
next
  case (5 l h n h')
  then show ?case by (auto simp: mutex_defs split: if_splits)
next
  case (6 l h n)
  then show ?case by (auto simp: mutex_defs make_handle_nonzero unat_gt_0 split: if_splits)
qed

interpretation cmutex: reentrant_lock cMutex_lock cMutex_unlock cMutex_owner cMutex_ok
proof (unfold_locales, goal_cases)
  case (1 l)
  then show ?case by (auto simp: cMutex_defs Let_def make_handle_nonzero)
next
  case (2 l h n)
  then show ?case by (auto simp: cMutex_defs unat_u32_inc lcount_room split: if_splits)
next
  case (3 l h n h')
  then show ?case by (auto simp: cMutex_defs split: if_splits)
next
  case (4 l h n)
  then show ?case
    by (auto simp: cMutex_defs Let_def unat_eq_Suc_0_iff unat_sub_one split: if_splits)
next
  case (5 l h n h')
  then show ?case by (auto simp: cMutex_defs split: if_splits)
next
  case (6 l h n)
  then show ?case by (auto simp: cMutex_defs make_handle_nonzero unat_gt_0 split: if_splits)
qed

section \<open>Threads sharing one mutex\<close>

text \<open>
  Any number of threads use one \<open>mutex\<close> by the discipline of the code: \<open>lock\<close> is called with
  the default handle 0 or with a handle the thread currently holds, \<open>unlock\<close> with a handle
  the thread holds. \<open>holds t\<close> counts how many times thread \<open>t\<close> entered and under which handle.
\<close>

record mutex_sys =
  mtx :: mutex
  holds :: "nat \<Rightarrow> (u64 \<times> nat) option"

inductive mutex_step :: "mutex_sys \<Rightarrow> mutex_sys \<Rightarrow> bool" where
  acquire: "\<lbrakk>holds s t = None; mutex_lock (mtx s) 0 = Some (h, m)\<rbrakk> \<Longrightarrow>
     mutex_step s \<lparr>mtx = m, holds = (holds s)(t := Some (h, 1))\<rparr>"
| reenter: "\<lbrakk>holds s t = Some (h, n); n + 1 < 2 ^ 32; mutex_lock (mtx s) h = Some (h', m)\<rbrakk> \<Longrightarrow>
     mutex_step s \<lparr>mtx = m, holds = (holds s)(t := Some (h', n + 1))\<rparr>"
| leave: "\<lbrakk>holds s t = Some (h, n); mutex_unlock (mtx s) h = Some m\<rbrakk> \<Longrightarrow>
     mutex_step s \<lparr>mtx = m, holds = (holds s)(t := if n = 1 then None else Some (h, n - 1))\<rparr>"
| try_acquire: "\<lbrakk>holds s t = None; mutex_try_lock (mtx s) 0 = (h, m); h \<noteq> 0\<rbrakk> \<Longrightarrow>
     mutex_step s \<lparr>mtx = m, holds = (holds s)(t := Some (h, 1))\<rparr>"
| try_fail: "\<lbrakk>holds s t = None; mutex_try_lock (mtx s) 0 = (0, m)\<rbrakk> \<Longrightarrow>
     mutex_step s (s\<lparr>mtx := m\<rparr>)"

inductive mutex_reach :: "u64 \<Rightarrow> mutex_sys \<Rightarrow> bool" for this where
  init: "mutex_reach this \<lparr>mtx = mutex_new this, holds = (\<lambda>_. None)\<rparr>"
| step: "\<lbrakk>mutex_reach this s; mutex_step s s'\<rbrakk> \<Longrightarrow> mutex_reach this s'"

definition mutex_sys_inv :: "mutex_sys \<Rightarrow> bool" where
  "mutex_sys_inv s \<longleftrightarrow> mutex_ok (mtx s) \<and>
     (case mutex_owner (mtx s) of
        None \<Rightarrow> (\<forall>t. holds s t = None)
      | Some (h, n) \<Rightarrow> (\<exists>t. holds s t = Some (h, n) \<and> (\<forall>t'. t' \<noteq> t \<longrightarrow> holds s t' = None)))"

lemma mutex_try_lock_lock:
  "mutex_try_lock m h = (case mutex_lock m h of Some r \<Rightarrow> r | None \<Rightarrow> (0, m))"
  by (simp add: mutex_try_lock_def mutex_lock_def Let_def)

lemma mutex_sys_inv_free:
  "mutex_sys_inv s \<Longrightarrow> holds s t = None \<Longrightarrow> mutex_lock (mtx s) 0 = Some (h, m) \<Longrightarrow>
     mutex_owner (mtx s) = None"
  using mutex.lock_waits mutex.owner_pos
  by (fastforce simp: mutex_sys_inv_def split: option.splits prod.splits)

lemma mutex_sys_inv_acquire:
  assumes "mutex_sys_inv s" "holds s t = None" "mutex_lock (mtx s) 0 = Some (h, m)"
  shows "mutex_sys_inv \<lparr>mtx = m, holds = (holds s)(t := Some (h, 1))\<rparr>"
proof -
  have "mutex_owner (mtx s) = None" using mutex_sys_inv_free [OF assms] .
  with assms mutex.lock_free [of "mtx s"] show ?thesis
    by (auto simp: mutex_sys_inv_def)
qed

lemma mutex_sys_inv_holder:
  "mutex_sys_inv s \<Longrightarrow> holds s t = Some (h, n) \<Longrightarrow>
     mutex_ok (mtx s) \<and> mutex_owner (mtx s) = Some (h, n) \<and> (\<forall>t'. t' \<noteq> t \<longrightarrow> holds s t' = None)"
  by (auto simp: mutex_sys_inv_def split: option.splits) (metis option.discI option.inject prod.inject)+

lemma mutex_step_inv: "mutex_step s s' \<Longrightarrow> mutex_sys_inv s \<Longrightarrow> mutex_sys_inv s'"
proof (induction rule: mutex_step.induct)
  case (acquire s t h m)
  then show ?case using mutex_sys_inv_acquire by blast
next
  case (reenter s t h n h' m)
  with mutex_sys_inv_holder [of s t h n] mutex.lock_again [of "mtx s" h n]
  show ?case by (auto simp: mutex_sys_inv_def)
next
  case (leave s t h n m)
  with mutex_sys_inv_holder [of s t h n] mutex.unlock_owner [of "mtx s" h n]
  show ?case by (auto simp: mutex_sys_inv_def)
next
  case (try_acquire s t h m)
  then have "mutex_lock (mtx s) 0 = Some (h, m)"
    by (auto simp: mutex_try_lock_lock split: option.splits)
  with try_acquire show ?case using mutex_sys_inv_acquire by blast
next
  case (try_fail s t m)
  have "mutex_lock (mtx s) 0 \<noteq> Some (0, m)"
    using try_fail mutex_sys_inv_free [of s t 0 m] mutex.lock_free [of "mtx s"] mutex.owner_pos
    by (fastforce simp: mutex_sys_inv_def)
  with try_fail show ?case by (auto simp: mutex_try_lock_lock split: option.splits)
qed

lemma mutex_reach_inv:
  assumes "(ucast this :: u32) \<noteq> 0" and "mutex_reach this s"
  shows "mutex_sys_inv s"
  using assms(2)
proof induction
  case init
  then show ?case using assms(1)
    by (simp add: mutex_sys_inv_def mutex_ok_def mutex_owner_def mutex_new_def)
next
  case (step s s')
  then show ?case using mutex_step_inv by blast
qed

section \<open>Properties\<close>

text \<open>C24: Mutual exclusion. In every state that any number of threads can reach on one mutex
  object (whose address has a non-zero low half), by locking with the default handle,
  re-entering with a handle they hold, trying, and releasing what they hold, at most one
  thread is inside; it is the owner the mutex records, and nobody inside means the
  underlying \<open>std::mutex\<close> is free.\<close>

theorem mutex_mutual_exclusion:
  assumes "(ucast this :: u32) \<noteq> 0" and "mutex_reach this s"
  shows "(holds s t = Some (h, n) \<longrightarrow> mutex_owner (mtx s) = Some (h, n) \<and>
            (\<forall>t'. t' \<noteq> t \<longrightarrow> holds s t' = None)) \<and>
         ((\<forall>t. holds s t = None) \<longrightarrow> \<not> m_mutex (mtx s))"
proof -
  have inv: "mutex_sys_inv s" using mutex_reach_inv [OF assms] .
  then have "(\<forall>t. holds s t = None) \<Longrightarrow> mutex_owner (mtx s) = None"
    by (cases "mutex_owner (mtx s)") (auto simp: mutex_sys_inv_def)
  then have "(\<forall>t. holds s t = None) \<longrightarrow> \<not> m_mutex (mtx s)"
    by (auto simp: mutex_owner_def)
  with mutex_sys_inv_holder [OF inv, of t h n] show ?thesis by blast
qed

theorem mutex_mutual_exclusion_witness:
  "\<exists>s. mutex_reach 4096 s \<and> holds s 7 \<noteq> None \<and> holds s 8 = None"
proof -
  have low: "(ucast (4096 :: u64) :: u32) \<noteq> 0" by simp
  let ?m = "(mutex_new 4096)\<lparr>m_mutex := True, m_lcount := 1, m_hcount := 1\<rparr>"
  let ?h = "get_handle ?m"
  let ?s = "\<lparr>mtx = ?m, holds = (\<lambda>_. None)(7 := Some (?h, 1))\<rparr>"
  have "mutex_lock (mutex_new 4096) 0 = Some (?h, ?m)"
    by (simp add: mutex_lock_def mutex_new_def get_handle_def make_handle_def)
  then have "mutex_step \<lparr>mtx = mutex_new 4096, holds = (\<lambda>_. None)\<rparr> ?s"
    using mutex_step.acquire [of "\<lparr>mtx = mutex_new 4096, holds = (\<lambda>_. None)\<rparr>" 7] by simp
  then have "mutex_reach 4096 ?s" by (rule mutex_reach.step [OF mutex_reach.init])
  with mutex_mutual_exclusion [OF low this, of 7 ?h 1] show ?thesis by fastforce
qed

text \<open>A released handle is not revoked. After a hold has been released completely, a call
  of \<open>lock\<close> that passes the handle of that hold returns at once without taking the
  \<open>std::mutex\<close>, and the next thread that locks with the default handle gets in as well.\<close>

theorem mutex_stale_handle:
  assumes "mutex_ok m" and "mutex_owner m = None"
  shows "\<exists>h m1 m2 m3 h' m4. mutex_lock m 0 = Some (h, m1) \<and> mutex_unlock m1 h = Some m2 \<and>
           mutex_lock m2 h = Some (h, m3) \<and> \<not> m_mutex m3 \<and> mutex_lock m3 0 = Some (h', m4)"
  using assms by (auto simp: mutex_defs Let_def make_handle_nonzero split: if_splits)

theorem mutex_stale_handle_witness:
  "mutex_ok (mutex_new 4096) \<and> mutex_owner (mutex_new 4096) = None \<and>
   (\<exists>h m1 m2 m3 h' m4. mutex_lock (mutex_new 4096) 0 = Some (h, m1) \<and> mutex_unlock m1 h = Some m2 \<and>
      mutex_lock m2 h = Some (h, m3) \<and> \<not> m_mutex m3 \<and> mutex_lock m3 0 = Some (h', m4))"
proof -
  have a: "mutex_ok (mutex_new 4096)" and b: "mutex_owner (mutex_new 4096) = None"
    by (simp_all add: mutex_ok_def mutex_owner_def mutex_new_def)
  show ?thesis using a b mutex_stale_handle [OF a b] by blast
qed

text \<open>An event is delivered once. After \<open>set\<close> of some events, \<open>wait\<close> on a non-empty
  subset of them returns without blocking with exactly that subset, clears it, and keeps
  every other pending event, so a second \<open>wait\<close> on the same events blocks.\<close>

theorem cEvent_set_wait:
  assumes "msk \<noteq> 0" and "msk AND evts = msk"
  shows "\<exists>e'. cEvent_wait (cEvent_set e evts) msk = Some (msk, e') \<and>
           m_state e' = (evts OR m_state e) AND NOT msk \<and> cEvent_wait e' msk = None"
proof -
  have "bit msk n \<Longrightarrow> bit evts n" for n
    using assms(2) by (metis bit_and_iff)
  then have "(evts OR m_state e) AND msk = msk"
    by (intro bit_word_eqI) (auto simp: bit_simps)
  moreover have "((evts OR m_state e) AND NOT msk) AND msk = 0"
    by (simp add: and.assoc)
  ultimately show ?thesis using assms(1)
    by (simp add: cEvent_wait_def cEvent_check_def cEvent_set_def)
qed

theorem cEvent_set_wait_witness:
  "\<exists>e'. cEvent_wait (cEvent_set \<lparr>m_state = 8\<rparr> 3) 1 = Some (1, e') \<and>
      m_state e' = (3 OR 8) AND NOT 1 \<and> cEvent_wait e' 1 = None"
  using cEvent_set_wait [of 1 3 "\<lparr>m_state = 8\<rparr>"] by simp

end
