(* ===== verification/LlAlg.thy ===== *)
theory LlAlg
  imports Mutex
begin

text \<open>
  The linked list of core/mem/ll_alg.c and ll_alg.h: a container of doubly linked records
  kept in a number of columns, each with its first, last and current record and a count. The
  model keeps the memory of the record headers explicitly (\<open>heap\<close>), so that every pointer
  the C code follows is a lookup and a dangling or NULL pointer is \<open>None\<close>.

  A pointer \<open>p + 1\<close> to the user area of a record is represented by the address \<open>p\<close> of its
  header, and the \<open>size\<close> bytes of the user area by one value of a type the client chooses.
  The callbacks of the context (\<open>p_alloc\<close>, \<open>p_free\<close>, \<open>p_lock\<close>, \<open>p_unlock\<close>) are functions on
  the state behind \<open>p_udata\<close>, absent when the C pointer is NULL.
\<close>

section \<open>Data\<close>

record 'a ll_item_hdr =
  it_cxt :: ptr    \<comment> \<open>the context the record belongs to\<close>
  it_size :: u32   \<comment> \<open>data size\<close>
  it_col :: u8
  it_prev :: ptr
  it_next :: ptr
  it_data :: 'a    \<comment> \<open>the user area behind the header\<close>

record ll_state =
  p_first :: ptr
  p_last :: ptr
  p_current :: ptr
  st_count :: u32
  st_current :: u32

record ('a, 'u) ll_context =
  self :: addr     \<comment> \<open>address of the context itself\<close>
  mode :: u8
  p_alloc :: "(u32 \<Rightarrow> u64 \<Rightarrow> 'u \<Rightarrow> (ptr \<times> 'u) option) option"
  p_free :: "(addr \<Rightarrow> u32 \<Rightarrow> 'u \<Rightarrow> 'u option) option"
  p_lock :: "(u64 \<Rightarrow> 'u \<Rightarrow> (u64 \<times> 'u) option) option"
  p_unlock :: "(u64 \<Rightarrow> 'u \<Rightarrow> 'u option) option"
  p_udata :: 'u
  addr_limit :: u64
  ccol :: u8
  ncol :: u8
  state :: "(addr \<times> ll_state list) option"  \<comment> \<open>the array of column states and its address\<close>
  heap :: "addr \<rightharpoonup> 'a ll_item_hdr"          \<comment> \<open>memory of the records\<close>

definition LL_MODE_VECTOR :: u8 where "LL_MODE_VECTOR = 1"
definition LL_MODE_RING :: u8 where "LL_MODE_RING = 2"

text \<open>Sizes of the packed header and of a column state on the 64-bit target.\<close>

definition sizeof_ll_item_hdr :: u32 where "sizeof_ll_item_hdr = 29"
definition sizeof_ll_state :: u32 where "sizeof_ll_state = 32"

definition zero_state :: ll_state where
  "zero_state = \<lparr>p_first = None, p_last = None, p_current = None, st_count = 0, st_current = 0\<rparr>"

section \<open>Memory accesses\<close>

definition get_next :: "('a, 'u) ll_context \<Rightarrow> addr \<Rightarrow> ptr option" where
  "get_next c a = map_option it_next (heap c a)"

definition get_prev :: "('a, 'u) ll_context \<Rightarrow> addr \<Rightarrow> ptr option" where
  "get_prev c a = map_option it_prev (heap c a)"

definition set_next :: "('a, 'u) ll_context \<Rightarrow> addr \<Rightarrow> ptr \<Rightarrow> ('a, 'u) ll_context option" where
  "set_next c a v = do { it \<leftarrow> heap c a; Some (c\<lparr>heap := (heap c)(a \<mapsto> it\<lparr>it_next := v\<rparr>)\<rparr>) }"

definition set_prev :: "('a, 'u) ll_context \<Rightarrow> addr \<Rightarrow> ptr \<Rightarrow> ('a, 'u) ll_context option" where
  "set_prev c a v = do { it \<leftarrow> heap c a; Some (c\<lparr>heap := (heap c)(a \<mapsto> it\<lparr>it_prev := v\<rparr>)\<rparr>) }"

text \<open>\<open>state[k]\<close>, read and written; \<open>state[ccol]\<close> is the common case.\<close>

definition get_st :: "('a, 'u) ll_context \<Rightarrow> u8 \<Rightarrow> ll_state option" where
  "get_st c k = do {
     (p, ss) \<leftarrow> state c;
     if unat k < length ss then Some (ss ! unat k) else None }"

definition put_st :: "('a, 'u) ll_context \<Rightarrow> u8 \<Rightarrow> ll_state \<Rightarrow> ('a, 'u) ll_context" where
  "put_st c k s = c\<lparr>state := map_option (\<lambda>(p, ss). (p, ss[unat k := s])) (state c)\<rparr>"

definition free_item :: "('a, 'u) ll_context \<Rightarrow> addr \<Rightarrow> u32 \<Rightarrow> ('a, 'u) ll_context option" where
  "free_item c a sz = do {
     fr \<leftarrow> p_free c;
     u \<leftarrow> fr a sz (p_udata c);
     Some (c\<lparr>p_udata := u, heap := (heap c)(a := None)\<rparr>) }"

definition ll_lock :: "('a, 'u) ll_context \<Rightarrow> u64 \<Rightarrow> (u64 \<times> ('a, 'u) ll_context) option" where
  "ll_lock c h =
     (case p_lock c of
        None \<Rightarrow> Some (0, c)
      | Some f \<Rightarrow> do { (r, u) \<leftarrow> f h (p_udata c); Some (r, c\<lparr>p_udata := u\<rparr>) })"

definition ll_unlock :: "('a, 'u) ll_context \<Rightarrow> u64 \<Rightarrow> ('a, 'u) ll_context option" where
  "ll_unlock c h =
     (case p_unlock c of
        None \<Rightarrow> Some c
      | Some f \<Rightarrow> do { u \<leftarrow> f h (p_udata c); Some (c\<lparr>p_udata := u\<rparr>) })"

text \<open>Enter, run the body, leave: the shape of every operation.\<close>

definition ll_locked :: "('a, 'u) ll_context \<Rightarrow> u64 \<Rightarrow>
    (('a, 'u) ll_context \<Rightarrow> ('r \<times> ('a, 'u) ll_context) option) \<Rightarrow>
    ('r \<times> ('a, 'u) ll_context) option" where
  "ll_locked c hlock body = do {
     (hm, c) \<leftarrow> ll_lock c hlock;
     (r, c) \<leftarrow> body c;
     c \<leftarrow> ll_unlock c hm;
     Some (r, c) }"

section \<open>Records by index\<close>

text \<open>The loop of \<open>_get\<close>: from record \<open>p\<close> with index \<open>i\<close> towards \<open>index\<close>.\<close>

function ll_seek :: "(addr \<rightharpoonup> 'a ll_item_hdr) \<Rightarrow> u32 \<Rightarrow> u32 \<Rightarrow> ptr \<Rightarrow> u32 \<Rightarrow> (ptr \<times> u32) option" where
  "ll_seek h index n p i =
     (if i \<noteq> index \<and> i < n then
        (if i > index then do {
           a \<leftarrow> p; it \<leftarrow> h a;
           if i - 1 = 0 then Some (it_prev it, i - 1) else ll_seek h index n (it_prev it) (i - 1) }
         else do { a \<leftarrow> p; it \<leftarrow> h a; ll_seek h index n (it_next it) (i + 1) })
      else Some (p, i))"
  by pat_completeness auto
termination
proof (relation "measure (\<lambda>(h, index, n, p, i). (unat i - unat index) + (unat index - unat i))", goal_cases)
  case (2 h index n p i x y)
  then have "i \<noteq> 0" "unat index < unat i" by (auto simp: word_less_nat_alt)
  then show ?case by (simp add: unat_minus_one)
next
  case (3 h index n p i x y)
  then have less: "unat i < unat index"
    by (metis linorder_neqE word_less_nat_alt)
  then have "unat i + 1 < 2 ^ 32" using unsigned_less [of index, where ?'a = nat] by simp
  with less show ?case using unat_add_one_less [of i] by simp
qed simp

declare ll_seek.simps [simp del]

definition ll__get :: "('a, 'u) ll_context \<Rightarrow> u32 \<Rightarrow> (ptr \<times> ('a, 'u) ll_context) option" where
  "ll__get c index = do {
     s \<leftarrow> get_st c (ccol c);
     if index < st_count s then
       (case p_current s of
          None \<Rightarrow> Some (None, c)
        | Some cur \<Rightarrow> do {
            (p, i) \<leftarrow> ll_seek (heap c) index (st_count s) (Some cur) (st_current s);
            Some (p, if i = index
                     then put_st c (ccol c) (s\<lparr>st_current := i, p_current := p\<rparr>) else c) })
     else Some (None, c) }"

text \<open>The getters return the record and its size, or \<open>None\<close> when the C code returns NULL and
  leaves \<open>*p_size\<close> alone.\<close>

definition with_size :: "('a, 'u) ll_context \<Rightarrow> ptr \<Rightarrow> (addr \<times> u32) option option" where
  "with_size c p =
     (case p of None \<Rightarrow> Some None | Some a \<Rightarrow> do { it \<leftarrow> heap c a; Some (Some (a, it_size it)) })"

definition ll_get :: "('a, 'u) ll_context \<Rightarrow> u32 \<Rightarrow> u64 \<Rightarrow>
    ((addr \<times> u32) option \<times> ('a, 'u) ll_context) option" where
  "ll_get c index hlock = ll_locked c hlock (\<lambda>c. do {
     (p, c) \<leftarrow> ll__get c index;
     r \<leftarrow> with_size c p;
     Some (r, c) })"

definition ll_cnt :: "('a, 'u) ll_context \<Rightarrow> u64 \<Rightarrow> (u32 \<times> ('a, 'u) ll_context) option" where
  "ll_cnt c hlock = ll_locked c hlock (\<lambda>c. do {
     s \<leftarrow> get_st c (ccol c);
     Some (st_count s, c) })"

section \<open>Adding and inserting\<close>

text \<open>Allocation and clearing of a record, common to \<open>ll_new\<close>, \<open>ll_add\<close> and \<open>ll_ins\<close>; the user
  area holds \<open>d\<close>.\<close>

definition alloc_item :: "('a, 'u) ll_context \<Rightarrow> 'a \<Rightarrow> u32 \<Rightarrow> (ptr \<times> ('a, 'u) ll_context) option" where
  "alloc_item c d sz =
     (case p_alloc c of
        None \<Rightarrow> Some (None, c)
      | Some al \<Rightarrow> do {
          (q, u) \<leftarrow> al (sz + sizeof_ll_item_hdr) (addr_limit c) (p_udata c);
          Some (q, case q of
             None \<Rightarrow> c\<lparr>p_udata := u\<rparr>
           | Some p \<Rightarrow> c\<lparr>p_udata := u, heap := (heap c)(p \<mapsto>
                  \<lparr>it_cxt = Some (self c), it_size = sz, it_col = ccol c,
                   it_prev = None, it_next = None, it_data = d\<rparr>)\<rparr>) })"

definition ll_append :: "('a, 'u) ll_context \<Rightarrow> 'a \<Rightarrow> u32 \<Rightarrow> u64 \<Rightarrow>
    (ptr \<times> ('a, 'u) ll_context) option" where
  "ll_append c d sz hlock = do {
     (q, c) \<leftarrow> alloc_item c d sz;
     (case q of
        None \<Rightarrow> Some (None, c)
      | Some p \<Rightarrow> ll_locked c hlock (\<lambda>c. do {
          s \<leftarrow> get_st c (ccol c);
          c \<leftarrow> (case p_last s of None \<Rightarrow> Some c | Some l \<Rightarrow> set_next c l (Some p));
          c \<leftarrow> set_prev c p (p_last s);
          c \<leftarrow> set_next c p (if mode c = LL_MODE_RING then p_first s else None);
          Some (Some p, put_st c (ccol c) (s\<lparr>
            p_last := Some p, p_current := Some p,
            p_first := (if p_first s = None then Some p else p_first s),
            st_current := st_count s, st_count := st_count s + 1\<rparr>)) })) }"

text \<open>\<open>ll_new\<close> leaves the user area zeroed (\<open>z\<close> is the value whose bytes are all zero),
  \<open>ll_add\<close> copies the caller's record into it.\<close>

definition ll_new :: "'a \<Rightarrow> ('a, 'u) ll_context \<Rightarrow> u32 \<Rightarrow> u64 \<Rightarrow>
    (ptr \<times> ('a, 'u) ll_context) option" where
  "ll_new z c sz hlock = ll_append c z sz hlock"

definition ll_add :: "('a, 'u) ll_context \<Rightarrow> 'a \<Rightarrow> u32 \<Rightarrow> u64 \<Rightarrow>
    (ptr \<times> ('a, 'u) ll_context) option" where
  "ll_add c p_data sz hlock = ll_append c p_data sz hlock"

definition ll_ins :: "('a, 'u) ll_context \<Rightarrow> u32 \<Rightarrow> 'a \<Rightarrow> u32 \<Rightarrow> u64 \<Rightarrow>
    (ptr \<times> ('a, 'u) ll_context) option" where
  "ll_ins c index p_data sz hlock = do {
     s \<leftarrow> get_st c (ccol c);
     if index < st_count s then do {
       (q, c) \<leftarrow> alloc_item c p_data sz;
       (case q of
          None \<Rightarrow> Some (None, c)
        | Some p_new \<Rightarrow> ll_locked c hlock (\<lambda>c. do {
            (p_cur, c) \<leftarrow> ll__get c index;
            (case p_cur of
                Some cur \<Rightarrow> do {
                  (p_prev, c) \<leftarrow>
                    (if index > 0 then do {
                       (p_prev, c) \<leftarrow> ll__get c (index - 1);
                       c \<leftarrow> (case p_prev of None \<Rightarrow> Some c | Some q \<Rightarrow> set_next c q (Some p_new));
                       Some (p_prev, c) }
                     else do {
                       s \<leftarrow> get_st c (ccol c);
                       Some (None, put_st c (ccol c) (s\<lparr>p_first := Some p_new\<rparr>)) });
                  c \<leftarrow> set_prev c p_new p_prev;
                  c \<leftarrow> set_next c p_new (Some cur);
                  c \<leftarrow> set_prev c cur (Some p_new);
                  s \<leftarrow> get_st c (ccol c);
                  Some (Some p_new, put_st c (ccol c) (s\<lparr>
                    p_current := Some p_new, st_current := index, st_count := st_count s + 1\<rparr>)) }
              | None \<Rightarrow> do {
                  c \<leftarrow> (if p_free c = None then Some c
                       else free_item c p_new (sz + sizeof_ll_item_hdr));
                  Some (None, c) }) })) }
     else Some (None, c) }"

section \<open>Removing\<close>

definition ll_rem :: "('a, 'u) ll_context \<Rightarrow> u32 \<Rightarrow> u64 \<Rightarrow> (unit \<times> ('a, 'u) ll_context) option" where
  "ll_rem c index hlock = ll_locked c hlock (\<lambda>c. do {
     (p_cur, c) \<leftarrow> ll__get c index;
     c \<leftarrow> (case p_cur of
         Some cur \<Rightarrow>
           (if p_free c \<noteq> None then do {
              prv \<leftarrow> get_prev c cur;
              c \<leftarrow> (case prv of None \<Rightarrow> Some c
                   | Some q \<Rightarrow> do { n \<leftarrow> get_next c cur; set_next c q n });
              nxt \<leftarrow> get_next c cur;
              c \<leftarrow> (case nxt of None \<Rightarrow> Some c
                   | Some q \<Rightarrow> do {
                       s \<leftarrow> get_st c (ccol c);
                       let c = put_st c (ccol c) (s\<lparr>p_current := Some q\<rparr>);
                       v \<leftarrow> get_prev c cur;
                       set_prev c q v });
              s \<leftarrow> get_st c (ccol c);
              c \<leftarrow> (if Some cur = p_first s then do {
                     n \<leftarrow> get_next c cur;
                     let c = put_st c (ccol c) (s\<lparr>p_current := n, p_first := n\<rparr>);
                     if mode c = LL_MODE_RING then do { l \<leftarrow> p_last s; set_next c l n } else Some c }
                   else Some c);
              s \<leftarrow> get_st c (ccol c);
              c \<leftarrow> (if Some cur = p_last s then do {
                     q \<leftarrow> get_prev c cur;
                     let s' = s\<lparr>p_current := q, p_last := q\<rparr>;
                     let c = put_st c (ccol c) s';
                     c \<leftarrow> (if mode c = LL_MODE_RING
                          then do { l \<leftarrow> q; set_next c l (p_first s') } else Some c);
                     Some (put_st c (ccol c) (s'\<lparr>st_current := st_current s' - 1\<rparr>)) }
                   else Some c);
              s \<leftarrow> get_st c (ccol c);
              let c = put_st c (ccol c) (s\<lparr>st_count := st_count s - 1\<rparr>);
              it \<leftarrow> heap c cur;
              free_item c cur (it_size it + sizeof_ll_item_hdr) }
            else Some c)
       | None \<Rightarrow> Some c);
     Some ((), c) })"

definition ll_del_body :: "('a, 'u) ll_context \<Rightarrow> (unit \<times> ('a, 'u) ll_context) option" where
  "ll_del_body c = do {
     s \<leftarrow> get_st c (ccol c);
     c \<leftarrow> (case p_current s of
         Some cur \<Rightarrow>
           (if p_free c \<noteq> None then do {
              prv \<leftarrow> get_prev c cur;
              nxt \<leftarrow> get_next c cur;
              c \<leftarrow> (case prv of None \<Rightarrow> Some c
                   | Some q \<Rightarrow> do { n \<leftarrow> get_next c cur; set_next c q n });
              c \<leftarrow> (case nxt of
                     None \<Rightarrow> Some (put_st c (ccol c) (s\<lparr>p_current := prv\<rparr>))
                   | Some q \<Rightarrow> do {
                       v \<leftarrow> get_prev c cur;
                       c \<leftarrow> set_prev c q v;
                       Some (put_st c (ccol c) (s\<lparr>p_current := Some q\<rparr>)) });
              s \<leftarrow> get_st c (ccol c);
              c \<leftarrow> (if Some cur = p_first s then do {
                     let c = put_st c (ccol c) (s\<lparr>p_current := nxt, p_first := nxt\<rparr>);
                     if mode c = LL_MODE_RING then do { l \<leftarrow> p_last s; set_next c l nxt } else Some c }
                   else Some c);
              s \<leftarrow> get_st c (ccol c);
              c \<leftarrow> (if Some cur = p_last s then do {
                     let s' = s\<lparr>p_current := prv, p_last := prv\<rparr>;
                     let c = put_st c (ccol c) s';
                     c \<leftarrow> (if mode c = LL_MODE_RING
                          then do { l \<leftarrow> prv; set_next c l (p_first s') } else Some c);
                     Some (put_st c (ccol c) (s'\<lparr>st_current := st_current s' - 1\<rparr>)) }
                   else Some c);
              it \<leftarrow> heap c cur;
              let c = c\<lparr>heap := (heap c)(cur \<mapsto> it\<lparr>it_cxt := None\<rparr>)\<rparr>;
              s \<leftarrow> get_st c (ccol c);
              let c = put_st c (ccol c) (s\<lparr>st_count := st_count s - 1\<rparr>);
              free_item c cur (it_size it + sizeof_ll_item_hdr) }
            else Some c)
       | None \<Rightarrow> Some c);
     Some ((), c) }"

definition ll_del :: "('a, 'u) ll_context \<Rightarrow> u64 \<Rightarrow> (unit \<times> ('a, 'u) ll_context) option" where
  "ll_del c hlock = ll_locked c hlock ll_del_body"

text \<open>The loop of \<open>ll_clr\<close>, at most \<open>count\<close> rounds.\<close>

fun ll_clr_loop :: "nat \<Rightarrow> ('a, 'u) ll_context \<Rightarrow> ptr \<Rightarrow> ('a, 'u) ll_context option" where
  "ll_clr_loop 0 c p = Some c"
| "ll_clr_loop (Suc n) c None = Some c"
| "ll_clr_loop (Suc n) c (Some a) = do {
     it \<leftarrow> heap c a;
     c \<leftarrow> free_item c a (it_size it + sizeof_ll_item_hdr);
     s \<leftarrow> get_st c (ccol c);
     ll_clr_loop n (put_st c (ccol c) (s\<lparr>p_first := it_next it\<rparr>)) (it_next it) }"

definition ll_clr :: "('a, 'u) ll_context \<Rightarrow> u64 \<Rightarrow> (unit \<times> ('a, 'u) ll_context) option" where
  "ll_clr c hlock = do {
     s0 \<leftarrow> get_st c (ccol c);
     ll_locked c hlock (\<lambda>c. do {
       s \<leftarrow> get_st c (ccol c);
       c \<leftarrow> ll_clr_loop (unat (st_count s)) c (p_first s0);
       Some ((), put_st c (ccol c) zero_state) }) }"

section \<open>Columns, selecting and moving\<close>

definition ll_col :: "('a, 'u) ll_context \<Rightarrow> u8 \<Rightarrow> u64 \<Rightarrow> (unit \<times> ('a, 'u) ll_context) option" where
  "ll_col c k hlock =
     (if k < ncol c then ll_locked c hlock (\<lambda>c. Some ((), c\<lparr>ccol := k\<rparr>))
      else Some ((), c))"

definition ll_sel :: "('a, 'u) ll_context \<Rightarrow> addr \<Rightarrow> u64 \<Rightarrow> (bool \<times> ('a, 'u) ll_context) option" where
  "ll_sel c p_data hlock = do {
     hdr \<leftarrow> heap c p_data;
     if it_cxt hdr = Some (self c) \<and> it_col hdr = ccol c then
       ll_locked c hlock (\<lambda>c. do {
         s \<leftarrow> get_st c (it_col hdr);
         Some (True, put_st c (it_col hdr) (s\<lparr>p_current := Some p_data\<rparr>)) })
     else Some (False, c) }"

text \<open>The two halves of \<open>ll_mov\<close>: unlinking the record from its column and linking it at the
  end of column \<open>k\<close>; \<open>None\<close> in the second component is the panic branch.\<close>

definition ll_mov_unlink :: "('a, 'u) ll_context \<Rightarrow> addr \<Rightarrow> 'a ll_item_hdr \<Rightarrow>
    ('a, 'u) ll_context option" where
  "ll_mov_unlink c a hdr = do {
     c \<leftarrow> (case it_prev hdr of None \<Rightarrow> Some c | Some q \<Rightarrow> set_next c q (it_next hdr));
     c \<leftarrow> (case it_next hdr of None \<Rightarrow> Some c | Some q \<Rightarrow> set_prev c q (it_prev hdr));
     ss \<leftarrow> get_st c (it_col hdr);
     let ss = (if p_first ss = Some a then ss\<lparr>p_first := it_next hdr\<rparr> else ss);
     let ss = (if p_last ss = Some a then ss\<lparr>p_last := it_prev hdr\<rparr> else ss);
     let ss = (if p_current ss = Some a then
                 (if it_next hdr \<noteq> None then ss\<lparr>p_current := it_next hdr\<rparr>
                  else if it_prev hdr \<noteq> None then ss\<lparr>p_current := it_prev hdr\<rparr>
                  else ss\<lparr>p_current := p_first ss\<rparr>)
               else ss);
     Some (put_st c (it_col hdr) (ss\<lparr>st_count := st_count ss - 1\<rparr>)) }"

definition ll_mov_link :: "('a, 'u) ll_context \<Rightarrow> addr \<Rightarrow> u8 \<Rightarrow>
    (bool \<times> ('a, 'u) ll_context) option" where
  "ll_mov_link c a k = do {
     ds \<leftarrow> get_st c k;
     (go, c, ds) \<leftarrow>
       (if st_count ds \<noteq> 0 then
          (case p_last ds of
             Some l \<Rightarrow> do {
               c \<leftarrow> set_next c l (Some a);
               c \<leftarrow> set_prev c a (Some l);
               c \<leftarrow> set_next c a (if mode c = LL_MODE_RING then p_first ds else None);
               Some (True, c, ds\<lparr>p_last := Some a\<rparr>) }
           | None \<Rightarrow>
               (case p_first ds of
                  Some f \<Rightarrow> do {
                    c \<leftarrow> set_prev c f (Some a);
                    c \<leftarrow> set_next c a (Some f);
                    c \<leftarrow> set_prev c a (if mode c = LL_MODE_RING then p_last ds else None);
                    Some (True, c, ds\<lparr>p_first := Some a\<rparr>) }
                | None \<Rightarrow> Some (False, c, ds)))
        else do {
          let ds = ds\<lparr>p_first := Some a, p_last := Some a, p_current := Some a\<rparr>;
          c \<leftarrow> (if mode c = LL_MODE_RING then set_next c a (p_first ds)
               else do { c \<leftarrow> set_next c a None; set_prev c a None });
          Some (True, c, ds) });
     if go then do {
       it \<leftarrow> heap c a;
       let c = c\<lparr>heap := (heap c)(a \<mapsto> it\<lparr>it_col := k\<rparr>)\<rparr>;
       Some (True, put_st c k (ds\<lparr>st_count := st_count ds + 1\<rparr>)) }
     else Some (False, put_st c k ds) }"

definition ll_mov :: "('a, 'u) ll_context \<Rightarrow> addr \<Rightarrow> u8 \<Rightarrow> u64 \<Rightarrow>
    (bool \<times> ('a, 'u) ll_context) option" where
  "ll_mov c p_data k hlock = ll_locked c hlock (\<lambda>c. do {
     hdr \<leftarrow> heap c p_data;
     if it_cxt hdr = Some (self c) \<and> k \<noteq> it_col hdr \<and> k < ncol c then do {
       c \<leftarrow> ll_mov_unlink c p_data hdr;
       ll_mov_link c p_data k }
     else Some (False, c) })"

definition ll_roll :: "('a, 'u) ll_context \<Rightarrow> u64 \<Rightarrow> (unit \<times> ('a, 'u) ll_context) option" where
  "ll_roll c hlock =
     (if mode c = LL_MODE_RING then ll_locked c hlock (\<lambda>c. do {
        s \<leftarrow> get_st c (ccol c);
        pf \<leftarrow> p_first s;
        pc \<leftarrow> get_next c pf;
        if p_first s \<noteq> p_last s then do {
               pl \<leftarrow> p_last s;
               pcn \<leftarrow> pc;
               c \<leftarrow> set_next c pl (Some pf);
               c \<leftarrow> set_prev c pf (p_last s);
               c \<leftarrow> set_next c pf pc;
               c \<leftarrow> set_prev c pcn (Some pl);
               Some ((), put_st c (ccol c) (s\<lparr>p_current := pc, p_first := pc, p_last := Some pf\<rparr>)) }
             else Some ((), c) })
      else Some ((), c))"

section \<open>Walking\<close>

definition ll_next :: "('a, 'u) ll_context \<Rightarrow> u64 \<Rightarrow>
    ((addr \<times> u32) option \<times> ('a, 'u) ll_context) option" where
  "ll_next c hlock = ll_locked c hlock (\<lambda>c. do {
     s \<leftarrow> get_st c (ccol c);
     (r, c) \<leftarrow> (case p_current s of
         None \<Rightarrow> Some (None, c)
       | Some p \<Rightarrow> do {
           n \<leftarrow> get_next c p;
           if n = None then Some (None, c)
           else do {
             r \<leftarrow> with_size c n;
             Some (r, put_st c (ccol c) (s\<lparr>p_current := n, st_current := st_current s + 1\<rparr>)) } });
     Some (r, c) })"

definition ll_current :: "('a, 'u) ll_context \<Rightarrow> u64 \<Rightarrow>
    ((addr \<times> u32) option \<times> ('a, 'u) ll_context) option" where
  "ll_current c hlock = ll_locked c hlock (\<lambda>c. do {
     s \<leftarrow> get_st c (ccol c);
     r \<leftarrow> with_size c (p_current s);
     Some (r, c) })"

definition ll_first :: "('a, 'u) ll_context \<Rightarrow> u64 \<Rightarrow>
    ((addr \<times> u32) option \<times> ('a, 'u) ll_context) option" where
  "ll_first c hlock = ll_locked c hlock (\<lambda>c. do {
     s \<leftarrow> get_st c (ccol c);
     r \<leftarrow> with_size c (p_first s);
     let c = (if p_first s = None then c
              else put_st c (ccol c) (s\<lparr>p_current := p_first s, st_current := 0\<rparr>));
     Some (r, c) })"

definition ll_last :: "('a, 'u) ll_context \<Rightarrow> u64 \<Rightarrow>
    ((addr \<times> u32) option \<times> ('a, 'u) ll_context) option" where
  "ll_last c hlock = ll_locked c hlock (\<lambda>c. do {
     s \<leftarrow> get_st c (ccol c);
     r \<leftarrow> with_size c (p_last s);
     let c = (if p_last s = None then c
              else put_st c (ccol c) (s\<lparr>p_current := p_last s, st_current := st_count s - 1\<rparr>));
     Some (r, c) })"

definition ll_prev :: "('a, 'u) ll_context \<Rightarrow> u64 \<Rightarrow>
    ((addr \<times> u32) option \<times> ('a, 'u) ll_context) option" where
  "ll_prev c hlock = ll_locked c hlock (\<lambda>c. do {
     s \<leftarrow> get_st c (ccol c);
     (r, c) \<leftarrow> (case p_current s of
         None \<Rightarrow> Some (None, c)
       | Some p \<Rightarrow> do {
           n \<leftarrow> get_prev c p;
           if n = None then Some (None, c)
           else do {
             r \<leftarrow> with_size c n;
             Some (r, put_st c (ccol c) (s\<lparr>p_current := n, st_current := st_current s - 1\<rparr>)) } });
     Some (r, c) })"

section \<open>Initialisation and destruction\<close>

definition ll_init :: "('a, 'u) ll_context \<Rightarrow> u8 \<Rightarrow> u8 \<Rightarrow> u64 \<Rightarrow>
    (bool \<times> ('a, 'u) ll_context) option" where
  "ll_init c md nc limit =
     (if state c = None then ll_locked c 0 (\<lambda>c. do {
        let c = c\<lparr>mode := md, ncol := nc, addr_limit := limit, ccol := 0\<rparr>;
        al \<leftarrow> p_alloc c;
        (p, u) \<leftarrow> al (ucast nc * sizeof_ll_state) limit (p_udata c);
        let c = c\<lparr>p_udata := u,
                  state := map_option (\<lambda>a. (a, replicate (unat nc) zero_state)) p\<rparr>;
        Some (p \<noteq> None, c) })
      else Some (False, c))"

fun ll_uninit_cols :: "nat \<Rightarrow> nat \<Rightarrow> u64 \<Rightarrow> ('a, 'u) ll_context \<Rightarrow> (unit \<times> ('a, 'u) ll_context) option" where
  "ll_uninit_cols 0 i hlock c = Some ((), c)"
| "ll_uninit_cols (Suc n) i hlock c = do {
     (_, c) \<leftarrow> ll_col c (of_nat i) hlock;
     (_, c) \<leftarrow> ll_clr c hlock;
     ll_uninit_cols n (Suc i) hlock c }"

definition ll_uninit :: "('a, 'u) ll_context \<Rightarrow> (unit \<times> ('a, 'u) ll_context) option" where
  "ll_uninit c =
     (case state c of
        None \<Rightarrow> Some ((), c)
      | Some _ \<Rightarrow> do {
          (lk, c) \<leftarrow> ll_lock c 0;
          (_, c) \<leftarrow> ll_uninit_cols (unat (ncol c)) 0 lk c;
          fr \<leftarrow> p_free c;
          (a, _) \<leftarrow> state c;
          u \<leftarrow> fr a (ucast (ncol c) * sizeof_ll_state) (p_udata c);
          c \<leftarrow> ll_unlock (c\<lparr>p_udata := u, state := None, ncol := 0, ccol := 0\<rparr>) lk;
          Some ((), c) })"

end
