(* ===== verification/LlSpec.thy ===== *)
theory LlSpec
  imports LlAlg
begin

text \<open>
  What the linked list promises, and the proof that core/mem/ll_alg.c keeps it in vector mode
  (the mode every client of the repository uses). The abstract state of a list
  (\<open>ll_abs\<close>) is a sequence of record addresses per column, the current record of each column,
  the selected column and the contents of the records; \<open>ll_rel\<close> relates a context and its
  memory to it. The callbacks of the context are an interface, the locale \<open>ll_callbacks\<close>:
  a re-entrant lock and an allocator that returns fresh blocks and takes them back at the
  size they were requested with.
\<close>

section \<open>Doubly linked segments\<close>

definition hdp :: "addr list \<Rightarrow> ptr \<Rightarrow> ptr" where
  "hdp xs n = (case xs of [] \<Rightarrow> n | x # _ \<Rightarrow> Some x)"

definition lastp :: "ptr \<Rightarrow> addr list \<Rightarrow> ptr" where
  "lastp p xs = (if xs = [] then p else Some (last xs))"

lemma hdp_simps [simp]: "hdp [] n = n" "hdp (x # xs) n = Some x"
    "hdp (xs @ ys) n = hdp xs (hdp ys n)"
  by (auto simp: hdp_def split: list.splits)

lemma lastp_simps [simp]: "lastp p [] = p" "lastp p (xs @ [x]) = Some x"
    "lastp p (x # xs) = lastp (Some x) xs" "lastp p (xs @ ys) = lastp (lastp p xs) ys"
  by (auto simp: lastp_def)

lemma hdp_eq_None [simp]: "hdp xs None = None \<longleftrightarrow> xs = []"
  by (cases xs) auto

lemma lastp_eq_None [simp]: "lastp None xs = None \<longleftrightarrow> xs = []"
  by (simp add: lastp_def)

lemma hdp_eq_Some: "hdp xs None = Some a \<Longrightarrow> \<exists>ys. xs = a # ys"
  by (cases xs) auto

lemma lastp_eq_Some: "lastp None xs = Some a \<Longrightarrow> \<exists>ys. xs = ys @ [a]"
  by (metis lastp_def append_butlast_last_id option.discI option.inject)

fun dseg :: "(addr \<rightharpoonup> 'a ll_item_hdr) \<Rightarrow> ptr \<Rightarrow> addr list \<Rightarrow> ptr \<Rightarrow> bool" where
  "dseg h p [] n \<longleftrightarrow> True"
| "dseg h p (a # as) n \<longleftrightarrow>
     (\<exists>it. h a = Some it \<and> it_prev it = p \<and> it_next it = hdp as n) \<and> dseg h (Some a) as n"

lemma dseg_append [simp]:
  "dseg h p (xs @ ys) n \<longleftrightarrow> dseg h p xs (hdp ys n) \<and> dseg h (lastp p xs) ys n"
  by (induction xs arbitrary: p) auto

lemma dseg_frame [simp]: "a \<notin> set xs \<Longrightarrow> dseg (h(a := v)) p xs n = dseg h p xs n"
  by (induction xs arbitrary: p) auto

lemma dseg_in_heap: "dseg h p xs n \<Longrightarrow> a \<in> set xs \<Longrightarrow> \<exists>it. h a = Some it"
  by (induction xs arbitrary: p) auto

text \<open>Changing the successor of the last record, or the predecessor of the first one.\<close>

lemma dseg_relink_last:
  "dseg h p xs n \<Longrightarrow> distinct xs \<Longrightarrow> xs \<noteq> [] \<Longrightarrow> h (last xs) = Some it \<Longrightarrow>
     dseg (h(last xs \<mapsto> it\<lparr>it_next := n'\<rparr>)) p xs n'"
  by (induction xs rule: rev_induct) auto

lemma dseg_relink_first:
  "dseg h p (x # xs) n \<Longrightarrow> distinct (x # xs) \<Longrightarrow> h x = Some it \<Longrightarrow>
     dseg (h(x \<mapsto> it\<lparr>it_prev := p'\<rparr>)) p' (x # xs) n"
  by auto

text \<open>Changes that keep the links keep the segment.\<close>

lemma dseg_same_links:
  "h a = Some it \<Longrightarrow> it_prev it' = it_prev it \<Longrightarrow> it_next it' = it_next it \<Longrightarrow>
     dseg (h(a \<mapsto> it')) p xs n = dseg h p xs n"
  by (induction xs arbitrary: p) auto

text \<open>The links of the record at a split point.\<close>

lemma dseg_split_links:
  "dseg h None (xs @ a # ys) None \<Longrightarrow>
     \<exists>it. h a = Some it \<and> it_prev it = lastp None xs \<and> it_next it = hdp ys None"
  by auto

section \<open>Field algebra of the context\<close>

lemma get_st_put_st [simp]:
  "get_st (put_st c k s) j =
     (if j = k then (if get_st c k = None then None else Some s) else get_st c j)"
  by (cases "state c") (auto simp: get_st_def put_st_def word_unat_eq_iff split: prod.splits)

lemma put_st_fields [simp]:
  "heap (put_st c k s) = heap c" "ccol (put_st c k s) = ccol c" "ncol (put_st c k s) = ncol c"
  "mode (put_st c k s) = mode c" "self (put_st c k s) = self c" "p_udata (put_st c k s) = p_udata c"
  "p_alloc (put_st c k s) = p_alloc c" "p_free (put_st c k s) = p_free c"
  "p_lock (put_st c k s) = p_lock c" "p_unlock (put_st c k s) = p_unlock c"
  "addr_limit (put_st c k s) = addr_limit c"
  by (simp_all add: put_st_def)

lemma put_st_put_st [simp]: "put_st (put_st c k s) k s' = put_st c k s'"
  by (cases "state c") (auto simp: put_st_def)

lemma get_st_fields [simp]:
  "get_st (c\<lparr>heap := h\<rparr>) k = get_st c k" "get_st (c\<lparr>p_udata := u\<rparr>) k = get_st c k"
  "get_st (c\<lparr>ccol := i\<rparr>) k = get_st c k"
  by (simp_all add: get_st_def)

definition state_addr :: "('a, 'u) ll_context \<Rightarrow> ptr" where
  "state_addr c = map_option fst (state c)"

lemma state_addr_fields [simp]:
  "state_addr (put_st c k s) = state_addr c" "state_addr (c\<lparr>heap := h\<rparr>) = state_addr c"
  "state_addr (c\<lparr>p_udata := u\<rparr>) = state_addr c" "state_addr (c\<lparr>ccol := i\<rparr>) = state_addr c"
  by (cases "state c"; auto simp: state_addr_def put_st_def)+

lemma set_next_Some [simp]:
  "heap c a = Some it \<Longrightarrow> set_next c a v = Some (c\<lparr>heap := (heap c)(a \<mapsto> it\<lparr>it_next := v\<rparr>)\<rparr>)"
  by (simp add: set_next_def)

lemma set_prev_Some [simp]:
  "heap c a = Some it \<Longrightarrow> set_prev c a v = Some (c\<lparr>heap := (heap c)(a \<mapsto> it\<lparr>it_prev := v\<rparr>)\<rparr>)"
  by (simp add: set_prev_def)

lemma get_links_Some [simp]:
  "heap c a = Some it \<Longrightarrow> get_next c a = Some (it_next it)"
  "heap c a = Some it \<Longrightarrow> get_prev c a = Some (it_prev it)"
  by (simp_all add: get_next_def get_prev_def)

section \<open>The abstract list\<close>

record 'a ll_abs =
  cols :: "nat \<Rightarrow> addr list"       \<comment> \<open>records of each column, first to last\<close>
  cur :: "nat \<Rightarrow> ptr"             \<comment> \<open>current record of each column\<close>
  sel :: nat                       \<comment> \<open>selected column\<close>
  width :: nat                     \<comment> \<open>number of columns\<close>
  dat :: "addr \<rightharpoonup> u32 \<times> 'a"       \<comment> \<open>size and contents of the records\<close>

definition col_ok :: "ll_state \<Rightarrow> addr list \<Rightarrow> ptr \<Rightarrow> bool" where
  "col_ok s xs cu \<longleftrightarrow> p_first s = hdp xs None \<and> p_last s = lastp None xs \<and> p_current s = cu \<and>
     (case cu of None \<Rightarrow> xs = [] | Some a \<Rightarrow> a \<in> set xs) \<and>
     st_count s = of_nat (length xs) \<and> length xs < 2 ^ 32"

text \<open>Each record of the abstract list is in memory, belongs to this context and its column,
  carries its contents, and is a live block of the size it will be released with.\<close>

definition items_ok :: "(u32 \<Rightarrow> u32) \<Rightarrow> ('a, 'u) ll_context \<Rightarrow> (addr \<rightharpoonup> u32) \<Rightarrow> 'a ll_abs \<Rightarrow> nat \<Rightarrow> bool" where
  "items_ok rnd c lv A k \<longleftrightarrow> (\<forall>a \<in> set (cols A k). \<exists>it. heap c a = Some it \<and> it_cxt it = Some (self c) \<and>
     it_col it = of_nat k \<and> dat A a = Some (it_size it, it_data it) \<and>
     lv a = Some (rnd (it_size it + sizeof_ll_item_hdr)) \<and> state_addr c \<noteq> Some a)"

definition ll_shape :: "'a ll_abs \<Rightarrow> bool" where
  "ll_shape A \<longleftrightarrow> sel A < width A \<and> width A < 2 ^ 8 \<and> (\<forall>k < width A. distinct (cols A k)) \<and>
     (\<forall>j < width A. \<forall>k < width A. j \<noteq> k \<longrightarrow> set (cols A j) \<inter> set (cols A k) = {})"

definition ll_inv :: "(u32 \<Rightarrow> u32) \<Rightarrow> ('a, 'u) ll_context \<Rightarrow> (addr \<rightharpoonup> u32) \<Rightarrow> 'a ll_abs \<Rightarrow> bool" where
  "ll_inv rnd c lv A \<longleftrightarrow> ll_shape A \<and> mode c = LL_MODE_VECTOR \<and>
     ccol c = of_nat (sel A) \<and> ncol c = of_nat (width A) \<and>
     (\<exists>sa. state_addr c = Some sa \<and> lv sa = Some (rnd (ucast (of_nat (width A) :: u8) * sizeof_ll_state))) \<and>
     (\<forall>k < width A. \<exists>s. get_st c (of_nat k) = Some s \<and> col_ok s (cols A k) (cur A k)) \<and>
     (\<forall>k < width A. dseg (heap c) None (cols A k) None) \<and>
     (\<forall>k < width A. items_ok rnd c lv A k)"

lemma u8_of_nat_eq_iff:
  "i < 2 ^ 8 \<Longrightarrow> j < 2 ^ 8 \<Longrightarrow> (of_nat i = (of_nat j :: u8)) = (i = j)"
proof -
  assume "i < 2 ^ 8" "j < 2 ^ 8"
  then have "unat (of_nat i :: u8) = i" "unat (of_nat j :: u8) = j"
    by (simp_all add: unat_of_nat_small)
  then show ?thesis by metis
qed

lemma ll_inv_cong_udata [simp]: "ll_inv rnd (c\<lparr>p_udata := u\<rparr>) lv A = ll_inv rnd c lv A"
  by (simp add: ll_inv_def items_ok_def)

section \<open>The interface of the callbacks\<close>

text \<open>The lock is re-entrant; the allocator hands out blocks that were not live, rounding the
  requested size with \<open>rnd\<close>, returns for the sizes in \<open>fits\<close>, and releases a live block under
  any size with the same rounding.\<close>

locale ll_callbacks = reentrant_lock "\<lambda>u h. lock h u" "\<lambda>u h. unlock h u" owner ok
  for lock :: "u64 \<Rightarrow> 'u \<Rightarrow> (u64 \<times> 'u) option" and unlock :: "u64 \<Rightarrow> 'u \<Rightarrow> 'u option"
    and owner :: "'u \<Rightarrow> (u64 \<times> nat) option" and ok :: "'u \<Rightarrow> bool" +
  fixes alloc :: "u32 \<Rightarrow> u64 \<Rightarrow> 'u \<Rightarrow> (ptr \<times> 'u) option"
    and free :: "addr \<Rightarrow> u32 \<Rightarrow> 'u \<Rightarrow> 'u option"
    and live :: "'u \<Rightarrow> addr \<rightharpoonup> u32"
    and rnd :: "u32 \<Rightarrow> u32"
    and fits :: "u32 \<Rightarrow> bool"
  assumes alloc_returns: "ok u \<Longrightarrow> fits sz \<Longrightarrow> \<exists>p u'. alloc sz lim u = Some (p, u')"
    and alloc_Some: "ok u \<Longrightarrow> alloc sz lim u = Some (Some a, u') \<Longrightarrow>
      live u a = None \<and> live u' = (live u)(a \<mapsto> rnd sz) \<and> ok u' \<and> owner u' = owner u"
    and alloc_None: "ok u \<Longrightarrow> alloc sz lim u = Some (None, u') \<Longrightarrow>
      live u' = live u \<and> ok u' \<and> owner u' = owner u"
    and free_live: "ok u \<Longrightarrow> live u a = Some (rnd sz) \<Longrightarrow>
      \<exists>u'. free a sz u = Some u' \<and> live u' = (live u)(a := None) \<and> ok u' \<and> owner u' = owner u"
    and lock_live: "lock h u = Some (r, u') \<Longrightarrow> live u' = live u"
    and unlock_live: "unlock h u = Some u' \<Longrightarrow> live u' = live u"
begin

definition wired :: "('a, 'u) ll_context \<Rightarrow> bool" where
  "wired c \<longleftrightarrow> p_alloc c = Some alloc \<and> p_free c = Some free \<and>
     p_lock c = Some lock \<and> p_unlock c = Some unlock"

definition ll_rel :: "('a, 'u) ll_context \<Rightarrow> 'a ll_abs \<Rightarrow> bool" where
  "ll_rel c A \<longleftrightarrow> wired c \<and> ok (p_udata c) \<and> ll_inv rnd c (live (p_udata c)) A"

text \<open>The state inside a bracket opened on \<open>u\<close>, under handle \<open>hm\<close>.\<close>

definition inside :: "'u \<Rightarrow> u64 \<Rightarrow> 'u \<Rightarrow> bool" where
  "inside u hm u1 \<longleftrightarrow> ok u1 \<and>
     owner u1 = (case owner u of None \<Rightarrow> Some (hm, 1) | Some (h, n) \<Rightarrow> Some (hm, n + 1)) \<and>
     (\<forall>h n. owner u = Some (h, n) \<longrightarrow> h = hm \<and> 0 < n)"

lemma lock_in:
  assumes "ready u h" "p_lock c = Some lock" "p_udata c = u"
  obtains hm u1 where "ll_lock c h = Some (hm, c\<lparr>p_udata := u1\<rparr>)" "inside u hm u1" "live u1 = live u"
proof -
  obtain hm u1 where 1: "lock h u = Some (hm, u1)" "ok u1" "owner u = None \<or> hm = h"
    "owner u1 = (case owner u of None \<Rightarrow> Some (hm, 1) | Some (h, n) \<Rightarrow> Some (hm, n + 1))"
    using enter [OF assms(1)] by metis
  have "h' = hm \<and> 0 < n" if "owner u = Some (h', n)" for h' n
  proof -
    have "ok u" "h' = h" using that assms(1) by (simp_all add: ready_def)
    then show ?thesis using that owner_pos [of u h' n] 1(3) by simp
  qed
  with 1 have "inside u hm u1" by (simp add: inside_def)
  moreover have "ll_lock c h = Some (hm, c\<lparr>p_udata := u1\<rparr>)"
    using 1(1) assms by (simp add: ll_lock_def)
  ultimately show ?thesis using that lock_live [OF 1(1)] by blast
qed

lemma unlock_out:
  assumes "inside u hm u1" "p_unlock c = Some unlock" "p_udata c = u1"
  obtains u2 where "ll_unlock c hm = Some (c\<lparr>p_udata := u2\<rparr>)" "ok u2" "owner u2 = owner u"
    "live u2 = live u1"
proof -
  have "\<exists>n. owner u1 = Some (hm, n) \<and> owner u = (if n = 1 then None else Some (hm, n - 1))"
  proof (cases "owner u")
    case None
    then show ?thesis using assms(1) by (simp add: inside_def)
  next
    case (Some hn)
    then show ?thesis using assms(1) by (cases hn) (simp add: inside_def)
  qed
  moreover have "ok u1" using assms(1) by (simp add: inside_def)
  ultimately obtain n where n: "owner u1 = Some (hm, n)" "ok u1"
      "owner u = (if n = 1 then None else Some (hm, n - 1))"
    by blast
  obtain u2 where "unlock hm u1 = Some u2" "ok u2" "owner u2 = owner u"
    using unlock_owner [OF n(2,1)] n(3) by metis
  then show ?thesis
    using that assms unlock_live [of hm u1 u2] by (auto simp: ll_unlock_def)
qed

text \<open>Nothing of the lock or the context's identity changes between two points.\<close>

definition same_cxt :: "('a, 'u) ll_context \<Rightarrow> ('a, 'u) ll_context \<Rightarrow> bool" where
  "same_cxt c c' \<longleftrightarrow> owner (p_udata c') = owner (p_udata c) \<and> self c' = self c \<and>
     state_addr c' = state_addr c"

lemma same_cxt_refl [simp]: "same_cxt c c"
  by (simp add: same_cxt_def)

lemma same_cxt_trans: "same_cxt a b \<Longrightarrow> same_cxt b c \<Longrightarrow> same_cxt a c"
  by (simp add: same_cxt_def)

lemma ready_same: "same_cxt c c' \<Longrightarrow> ll_rel c' A \<Longrightarrow> ready (p_udata c) h \<Longrightarrow> ready (p_udata c') h"
  by (simp add: same_cxt_def ready_def ll_rel_def)

text \<open>The bracket of every operation, for a body that establishes \<open>Q\<close> of its result, the
  context and the live blocks; \<open>Q\<close> does not look at the user data itself.\<close>

lemma locked_gen:
  assumes w: "wired c" "ready (p_udata c) h"
    and body: "\<And>u1. ok u1 \<Longrightarrow> live u1 = live (p_udata c) \<Longrightarrow>
      \<exists>r c'. body (c\<lparr>p_udata := u1\<rparr>) = Some (r, c') \<and> wired c' \<and> ok (p_udata c') \<and>
        owner (p_udata c') = owner u1 \<and> Q r c' (live (p_udata c'))"
    and Q: "\<And>r c' lv u. Q r c' lv \<Longrightarrow> Q r (c'\<lparr>p_udata := u\<rparr>) lv"
  shows "\<exists>r c'. ll_locked c h body = Some (r, c') \<and> wired c' \<and> ok (p_udata c') \<and>
    owner (p_udata c') = owner (p_udata c) \<and>
    Q r c' (live (p_udata c'))"
proof -
  obtain hm u1 where 1: "ll_lock c h = Some (hm, c\<lparr>p_udata := u1\<rparr>)" "inside (p_udata c) hm u1"
      "live u1 = live (p_udata c)"
    using lock_in [OF w(2) _ refl] w(1) by (auto simp: wired_def)
  then obtain r c' where 2: "body (c\<lparr>p_udata := u1\<rparr>) = Some (r, c')" "wired c'" "ok (p_udata c')"
      "owner (p_udata c') = owner u1" "Q r c' (live (p_udata c'))"
    using body [of u1] by (auto simp: inside_def)
  have in': "inside (p_udata c) hm (p_udata c')"
    using 1(2) 2 by (simp add: inside_def)
  obtain u2 where 3: "ll_unlock c' hm = Some (c'\<lparr>p_udata := u2\<rparr>)" "ok u2"
      "owner u2 = owner (p_udata c)" "live u2 = live (p_udata c')"
    using unlock_out [OF in' _ refl] 2(2) by (auto simp: wired_def)
  have "ll_locked c h body = Some (r, c'\<lparr>p_udata := u2\<rparr>)"
    using 1 2 3 by (simp add: ll_locked_def)
  moreover have "wired (c'\<lparr>p_udata := u2\<rparr>)" using 2(2) by (simp add: wired_def)
  moreover have "Q r (c'\<lparr>p_udata := u2\<rparr>) (live u2)" using Q [OF 2(5)] 3(4) by simp
  ultimately show ?thesis using 3(2,3) by auto
qed

lemma locked_live:
  assumes "ll_rel c A" and "ready (p_udata c) h"
    and body: "\<And>u1. ll_rel (c\<lparr>p_udata := u1\<rparr>) A \<Longrightarrow> live u1 = live (p_udata c) \<Longrightarrow>
      \<exists>c'. body (c\<lparr>p_udata := u1\<rparr>) = Some (r, c') \<and> ll_rel c' A' \<and>
        same_cxt (c\<lparr>p_udata := u1\<rparr>) c' \<and> live (p_udata c') = lv"
  shows "\<exists>c'. ll_locked c h body = Some (r, c') \<and> ll_rel c' A' \<and> same_cxt c c' \<and>
    live (p_udata c') = lv"
proof -
  let ?Q = "\<lambda>r' c' lv'. r' = r \<and> self c' = self c \<and> state_addr c' = state_addr c \<and> ll_inv rnd c' lv' A' \<and> lv' = lv"
  have w: "wired c" "ok (p_udata c)" "ll_inv rnd c (live (p_udata c)) A"
    using assms(1) by (auto simp: ll_rel_def)
  have "\<exists>r' c'. ll_locked c h body = Some (r', c') \<and> wired c' \<and> ok (p_udata c') \<and>
      owner (p_udata c') = owner (p_udata c) \<and> ?Q r' c' (live (p_udata c'))"
  proof (rule locked_gen [OF w(1) assms(2)], goal_cases)
    case (1 u1)
    then have "ll_rel (c\<lparr>p_udata := u1\<rparr>) A" using w by (simp add: ll_rel_def wired_def)
    from body [OF this 1(2)] show ?case by (auto simp: ll_rel_def same_cxt_def)
  qed simp
  then show ?thesis by (auto simp: ll_rel_def same_cxt_def)
qed

lemma locked_rel:
  assumes "ll_rel c A" and "ready (p_udata c) h"
    and body: "\<And>u1. ll_rel (c\<lparr>p_udata := u1\<rparr>) A \<Longrightarrow> live u1 = live (p_udata c) \<Longrightarrow>
      \<exists>c'. body (c\<lparr>p_udata := u1\<rparr>) = Some (r, c') \<and> ll_rel c' A' \<and> same_cxt (c\<lparr>p_udata := u1\<rparr>) c'"
  shows "\<exists>c'. ll_locked c h body = Some (r, c') \<and> ll_rel c' A' \<and> same_cxt c c'"
proof -
  let ?Q = "\<lambda>r' c' lv'. r' = r \<and> self c' = self c \<and> state_addr c' = state_addr c \<and> ll_inv rnd c' lv' A'"
  have w: "wired c" "ok (p_udata c)" "ll_inv rnd c (live (p_udata c)) A"
    using assms(1) by (auto simp: ll_rel_def)
  have "\<exists>r' c'. ll_locked c h body = Some (r', c') \<and> wired c' \<and> ok (p_udata c') \<and>
      owner (p_udata c') = owner (p_udata c) \<and> ?Q r' c' (live (p_udata c'))"
  proof (rule locked_gen [OF w(1) assms(2)], goal_cases)
    case (1 u1)
    then have "ll_rel (c\<lparr>p_udata := u1\<rparr>) A" using w by (simp add: ll_rel_def wired_def)
    from body [OF this 1(2)] show ?case by (auto simp: ll_rel_def same_cxt_def)
  qed simp
  then show ?thesis by (auto simp: ll_rel_def same_cxt_def)
qed

end

section \<open>Changing one column\<close>

lemma put_st_commute [simp]:
  "(put_st c k s)\<lparr>heap := h\<rparr> = put_st (c\<lparr>heap := h\<rparr>) k s"
  "(put_st c k s)\<lparr>p_udata := u\<rparr> = put_st (c\<lparr>p_udata := u\<rparr>) k s"
  "(put_st c k s)\<lparr>ccol := i\<rparr> = put_st (c\<lparr>ccol := i\<rparr>) k s"
  by (simp_all add: put_st_def)

lemma dseg_cong: "(\<And>a. a \<in> set xs \<Longrightarrow> h' a = h a) \<Longrightarrow> dseg h' p xs n = dseg h p xs n"
  by (induction xs arbitrary: p) auto

lemma ll_invD:
  assumes "ll_inv rnd c lv A"
  shows "sel A < width A" "width A < 2 ^ 8" "ccol c = of_nat (sel A)" "ncol c = of_nat (width A)"
    "mode c \<noteq> LL_MODE_RING"
  using assms by (auto simp: ll_inv_def ll_shape_def LL_MODE_VECTOR_def LL_MODE_RING_def)

lemma ll_inv_col:
  assumes "ll_inv rnd c lv A" "k < width A"
  obtains s where "get_st c (of_nat k) = Some s" "col_ok s (cols A k) (cur A k)"
    "dseg (heap c) None (cols A k) None" "distinct (cols A k)" "items_ok rnd c lv A k"
  using assms by (auto simp: ll_inv_def ll_shape_def)

text \<open>The general step: column \<open>k\<close> gets the records \<open>xs\<close> and the column state \<open>s\<close>, memory,
  live blocks and contents change only at records outside the other columns.\<close>

lemma ll_inv_change:
  assumes inv: "ll_inv rnd c lv A" and k: "k < width A" "j = of_nat k"
    and seg: "dseg h None xs None" "distinct xs" "col_ok s xs cu"
    and disj: "\<And>i. i < width A \<Longrightarrow> i \<noteq> k \<Longrightarrow> set xs \<inter> set (cols A i) = {}"
    and frame: "\<And>i a. i < width A \<Longrightarrow> i \<noteq> k \<Longrightarrow> a \<in> set (cols A i) \<Longrightarrow>
        h a = heap c a \<and> lv' a = lv a \<and> d a = dat A a"
    and items: "\<And>a. a \<in> set xs \<Longrightarrow> \<exists>it. h a = Some it \<and> it_cxt it = Some (self c) \<and>
        it_col it = of_nat k \<and> d a = Some (it_size it, it_data it) \<and>
        lv' a = Some (rnd (it_size it + sizeof_ll_item_hdr)) \<and> state_addr c \<noteq> Some a"
    and sa: "\<And>a. state_addr c = Some a \<Longrightarrow> lv' a = lv a"
    and A': "A' = A\<lparr>cols := (cols A)(k := xs), cur := (cur A)(k := cu), dat := d\<rparr>"
  shows "ll_inv rnd (put_st (c\<lparr>heap := h\<rparr>) j s) lv' A'"
proof -
  have w: "width A < 2 ^ 8" and shape: "ll_shape A'"
    using inv k disj seg(2) by (auto simp: A' ll_inv_def ll_shape_def)
  obtain s0 where s0: "get_st c j = Some s0" using ll_inv_col [OF inv k(1)] k(2) by blast
  have col: "\<exists>s'. get_st (put_st (c\<lparr>heap := h\<rparr>) j s) (of_nat i) = Some s' \<and>
      col_ok s' (cols A' i) (cur A' i)" if "i < width A'" for i
  proof (cases "i = k")
    case True
    then show ?thesis using s0 k(2) seg(3) by (simp add: A')
  next
    case False
    have "i < width A" using that by (simp add: A')
    from ll_inv_col [OF inv this]
    obtain s1 where "get_st c (of_nat i) = Some s1" "col_ok s1 (cols A i) (cur A i)" by blast
    moreover have "(of_nat i :: u8) \<noteq> j"
      using False that w k by (simp add: A' u8_of_nat_eq_iff)
    ultimately show ?thesis using False by (simp add: A')
  qed
  have seg': "dseg h None (cols A' i) None" if "i < width A'" for i
  proof (cases "i = k")
    case False
    have "i < width A" using that by (simp add: A')
    from ll_inv_col [OF inv this] have "dseg (heap c) None (cols A i) None" by blast
    then have "dseg h None (cols A i) None"
      using frame [of i] that False dseg_cong [of "cols A i" h "heap c" None None] by (simp add: A')
    then show ?thesis using False by (simp add: A')
  qed (simp add: A' seg(1))
  have items': "items_ok rnd (put_st (c\<lparr>heap := h\<rparr>) j s) lv' A' i" if "i < width A'" for i
  proof (cases "i = k")
    case True
    then show ?thesis using items by (simp add: A' items_ok_def)
  next
    case False
    have iw: "i < width A" using that by (simp add: A')
    from ll_inv_col [OF inv iw] have "items_ok rnd c lv A i" by blast
    then show ?thesis using False frame [OF iw False] by (simp add: A' items_ok_def)
  qed
  show ?thesis using inv shape sa col seg' items' unfolding ll_inv_def
    by (simp add: A') metis
qed

text \<open>Moving the cursor of a column.\<close>

lemma ll_inv_cursor:
  assumes inv: "ll_inv rnd c lv A" and k: "k < width A" "j = of_nat k"
    and s: "get_st c j = Some s" "s' = s\<lparr>p_current := cu, st_current := i\<rparr>"
    and cu: "case cu of None \<Rightarrow> cols A k = [] | Some a \<Rightarrow> a \<in> set (cols A k)"
  shows "ll_inv rnd (put_st c j s') lv (A\<lparr>cur := (cur A)(k := cu)\<rparr>)"
proof -
  obtain s0 where 0: "get_st c (of_nat k) = Some s0" "col_ok s0 (cols A k) (cur A k)"
    "dseg (heap c) None (cols A k) None" "distinct (cols A k)" "items_ok rnd c lv A k"
    using ll_inv_col [OF inv k(1)] by blast
  have "ll_inv rnd (put_st (c\<lparr>heap := heap c\<rparr>) j s') lv
      (A\<lparr>cols := (cols A)(k := cols A k), cur := (cur A)(k := cu), dat := dat A\<rparr>)"
  proof (rule ll_inv_change [OF inv k 0(3,4)])
    show "col_ok s' (cols A k) cu" using 0 s cu k by (simp add: col_ok_def)
    show "\<And>i. i < width A \<Longrightarrow> i \<noteq> k \<Longrightarrow> set (cols A k) \<inter> set (cols A i) = {}"
      using inv k by (auto simp: ll_inv_def ll_shape_def)
    show "\<And>a. a \<in> set (cols A k) \<Longrightarrow> \<exists>it. heap c a = Some it \<and> it_cxt it = Some (self c) \<and>
        it_col it = of_nat k \<and> dat A a = Some (it_size it, it_data it) \<and>
        lv a = Some (rnd (it_size it + sizeof_ll_item_hdr)) \<and> state_addr c \<noteq> Some a"
      using 0(5) by (auto simp: items_ok_def)
  qed simp_all
  then show ?thesis by simp
qed

section \<open>The abstract operations\<close>

definition after :: "addr list \<Rightarrow> addr \<Rightarrow> ptr" where
  "after xs a = hdp (tl (dropWhile (\<lambda>x. x \<noteq> a) xs)) None"

definition before :: "addr list \<Rightarrow> addr \<Rightarrow> ptr" where
  "before xs a = lastp None (takeWhile (\<lambda>x. x \<noteq> a) xs)"

lemma after_before_split [simp]:
  assumes "a \<notin> set xs"
  shows "after (xs @ a # ys) a = hdp ys None" "before (xs @ a # ys) a = lastp None xs"
    "remove1 a (xs @ a # ys) = xs @ ys"
proof -
  have "dropWhile (\<lambda>x. x \<noteq> a) (xs @ a # ys) = a # ys" "takeWhile (\<lambda>x. x \<noteq> a) (xs @ a # ys) = xs"
    using assms by (induction xs) auto
  then show "after (xs @ a # ys) a = hdp ys None" "before (xs @ a # ys) a = lastp None xs"
    by (simp_all add: after_def before_def)
  show "remove1 a (xs @ a # ys) = xs @ ys" using assms by (simp add: remove1_append)
qed

definition scol :: "'a ll_abs \<Rightarrow> addr list" where
  "scol A = cols A (sel A)"

definition cursor :: "'a ll_abs \<Rightarrow> ptr \<Rightarrow> 'a ll_abs" where
  "cursor A p = A\<lparr>cur := (cur A)(sel A := p)\<rparr>"

definition sized :: "'a ll_abs \<Rightarrow> ptr \<Rightarrow> (addr \<times> u32) option" where
  "sized A p = map_option (\<lambda>a. (a, fst (the (dat A a)))) p"

definition a_first :: "'a ll_abs \<Rightarrow> 'a ll_abs" where
  "a_first A = (if scol A = [] then A else cursor A (hdp (scol A) None))"

definition a_last :: "'a ll_abs \<Rightarrow> 'a ll_abs" where
  "a_last A = (if scol A = [] then A else cursor A (lastp None (scol A)))"

definition a_step :: "(addr list \<Rightarrow> addr \<Rightarrow> ptr) \<Rightarrow> 'a ll_abs \<Rightarrow> ptr" where
  "a_step f A = (case cur A (sel A) of None \<Rightarrow> None | Some a \<Rightarrow> f (scol A) a)"

definition a_move :: "(addr list \<Rightarrow> addr \<Rightarrow> ptr) \<Rightarrow> 'a ll_abs \<Rightarrow> 'a ll_abs" where
  "a_move f A = (if a_step f A = None then A else cursor A (a_step f A))"

definition a_append :: "'a ll_abs \<Rightarrow> addr \<Rightarrow> u32 \<Rightarrow> 'a \<Rightarrow> 'a ll_abs" where
  "a_append A a sz d = A\<lparr>cols := (cols A)(sel A := scol A @ [a]), cur := (cur A)(sel A := Some a),
     dat := (dat A)(a \<mapsto> (sz, d))\<rparr>"

text \<open>The record that becomes current when \<open>a\<close> leaves its column.\<close>

definition neighbour :: "addr list \<Rightarrow> addr \<Rightarrow> ptr" where
  "neighbour xs a = (if after xs a = None then before xs a else after xs a)"

definition a_del :: "'a ll_abs \<Rightarrow> 'a ll_abs" where
  "a_del A = (case cur A (sel A) of None \<Rightarrow> A
     | Some a \<Rightarrow> A\<lparr>cols := (cols A)(sel A := remove1 a (scol A)),
                   cur := (cur A)(sel A := neighbour (scol A) a), dat := (dat A)(a := None)\<rparr>)"

definition a_clr :: "'a ll_abs \<Rightarrow> 'a ll_abs" where
  "a_clr A = A\<lparr>cols := (cols A)(sel A := []), cur := (cur A)(sel A := None),
     dat := (dat A) |` (- set (scol A))\<rparr>"

definition a_unlink :: "'a ll_abs \<Rightarrow> addr \<Rightarrow> nat \<Rightarrow> 'a ll_abs" where
  "a_unlink A a j = A\<lparr>cols := (cols A)(j := remove1 a (cols A j)),
     cur := (cur A)(j := if cur A j = Some a then neighbour (cols A j) a else cur A j)\<rparr>"

definition a_mov :: "'a ll_abs \<Rightarrow> addr \<Rightarrow> nat \<Rightarrow> nat \<Rightarrow> 'a ll_abs" where
  "a_mov A a j k = (a_unlink A a j)\<lparr>
     cols := (cols (a_unlink A a j))(k := cols A k @ [a]),
     cur := (cur (a_unlink A a j))(k := if cols A k = [] then Some a else cur A k)\<rparr>"

lemma ll_inv_selected:
  assumes "ll_inv rnd c lv A"
  obtains s where "get_st c (ccol c) = Some s" "p_first s = hdp (scol A) None"
    "p_last s = lastp None (scol A)" "p_current s = cur A (sel A)"
    "case cur A (sel A) of None \<Rightarrow> scol A = [] | Some a \<Rightarrow> a \<in> set (scol A)"
    "st_count s = of_nat (length (scol A))" "length (scol A) < 2 ^ 32"
proof -
  from ll_inv_col [OF assms ll_invD(1) [OF assms]]
  obtain s where "get_st c (of_nat (sel A)) = Some s" "col_ok s (cols A (sel A)) (cur A (sel A))"
    by blast
  then show ?thesis using that [of s] ll_invD(3) [OF assms] unfolding col_ok_def scol_def by simp
qed

lemma with_size_item:
  assumes "ll_inv rnd c lv A" "p = None \<or> (\<exists>a. p = Some a \<and> a \<in> set (scol A))"
  shows "with_size c p = Some (sized A p)"
proof (cases p)
  case (Some a)
  from ll_inv_col [OF assms(1) ll_invD(1) [OF assms(1)]] have "items_ok rnd c lv A (sel A)" by blast
  then show ?thesis
    using assms(2) Some by (auto simp: with_size_def sized_def items_ok_def scol_def)
qed (simp add: with_size_def sized_def)

lemma ll_inv_cursor_sel:
  assumes "ll_inv rnd c lv A" "get_st c (ccol c) = Some s"
    and "case p of None \<Rightarrow> scol A = [] | Some a \<Rightarrow> a \<in> set (scol A)"
  shows "ll_inv rnd (put_st c (ccol c) (s\<lparr>p_current := p, st_current := i\<rparr>)) lv (cursor A p)"
  unfolding cursor_def
  by (rule ll_inv_cursor [OF assms(1) ll_invD(1,3) [OF assms(1)] assms(2) refl])
     (use assms(3) in \<open>simp only: scol_def\<close>)

lemma hdp_in: "xs \<noteq> [] \<Longrightarrow> hdp xs n = Some (hd xs)"
  by (cases xs) auto

lemma lastp_in: "xs \<noteq> [] \<Longrightarrow> lastp None xs = Some (last xs)"
  by (simp add: lastp_def)

text \<open>The links of the current record lead to its neighbours in the column.\<close>

lemma item_links:
  assumes "ll_inv rnd c lv A" "a \<in> set (cols A k)" "k < width A"
  shows "get_next c a = Some (after (cols A k) a)" "get_prev c a = Some (before (cols A k) a)"
proof -
  obtain xs ys where xs: "cols A k = xs @ a # ys" "a \<notin> set xs"
    using split_list_first [OF assms(2)] by blast
  have "dseg (heap c) None (cols A k) None" using ll_inv_col [OF assms(1,3)] by blast
  then show "get_next c a = Some (after (cols A k) a)" "get_prev c a = Some (before (cols A k) a)"
    using xs by auto
qed

lemma after_in: "after xs a = Some b \<Longrightarrow> b \<in> set xs"
  unfolding after_def
  by (metis hdp_eq_Some set_dropWhileD list.set_intros(1) list.set_sel(2) list.sel(2))

lemma before_in: "before xs a = Some b \<Longrightarrow> b \<in> set xs"
  unfolding before_def by (metis lastp_eq_Some in_set_conv_decomp set_takeWhileD)

context ll_callbacks
begin

lemma ll_relI: "wired c \<Longrightarrow> ok (p_udata c) \<Longrightarrow> ll_inv rnd c (live (p_udata c)) A \<Longrightarrow> ll_rel c A"
  by (simp add: ll_rel_def)

lemma ll_first_rel:
  assumes "ll_rel c A" "ready (p_udata c) h"
  shows "\<exists>c'. ll_first c h = Some (sized A (hdp (scol A) None), c') \<and> ll_rel c' (a_first A) \<and> same_cxt c c'"
  unfolding ll_first_def
proof (rule locked_rel [OF assms], goal_cases)
  case (1 u1)
  let ?c = "c\<lparr>p_udata := u1\<rparr>"
  from 1 have inv: "ll_inv rnd ?c (live u1) A" by (simp add: ll_rel_def)
  from ll_inv_selected [OF this] obtain s where s: "get_st ?c (ccol ?c) = Some s"
    "p_first s = hdp (scol A) None" by metis
  have ws: "with_size ?c (p_first s) = Some (sized A (hdp (scol A) None))"
    using with_size_item [OF inv, of "p_first s"] s(2) by (cases "scol A") auto
  show ?case
  proof (cases "scol A = []")
    case True
    then show ?thesis using 1 s ws by (simp add: a_first_def)
  next
    case False
    then have "ll_rel (put_st ?c (ccol ?c) (s\<lparr>p_current := p_first s, st_current := 0\<rparr>)) (a_first A)"
      using 1 ll_inv_cursor_sel [OF inv s(1), of "p_first s" 0] s(2)
      by (simp add: a_first_def ll_rel_def wired_def hdp_in)
    then show ?thesis using s ws False by (simp add: same_cxt_def)
  qed
qed

lemma ll_last_rel:
  assumes "ll_rel c A" "ready (p_udata c) h"
  shows "\<exists>c'. ll_last c h = Some (sized A (lastp None (scol A)), c') \<and> ll_rel c' (a_last A) \<and> same_cxt c c'"
  unfolding ll_last_def
proof (rule locked_rel [OF assms], goal_cases)
  case (1 u1)
  let ?c = "c\<lparr>p_udata := u1\<rparr>"
  from 1 have inv: "ll_inv rnd ?c (live u1) A" by (simp add: ll_rel_def)
  from ll_inv_selected [OF this] obtain s where s: "get_st ?c (ccol ?c) = Some s"
    "p_last s = lastp None (scol A)" by metis
  have ws: "with_size ?c (p_last s) = Some (sized A (lastp None (scol A)))"
    using with_size_item [OF inv, of "p_last s"] s(2) by (cases "scol A = []") (auto simp: lastp_in)
  show ?case
  proof (cases "scol A = []")
    case True
    then show ?thesis using 1 s ws by (simp add: a_last_def)
  next
    case False
    then have "ll_rel (put_st ?c (ccol ?c) (s\<lparr>p_current := p_last s, st_current := st_count s - 1\<rparr>)) (a_last A)"
      using 1 ll_inv_cursor_sel [OF inv s(1), of "p_last s"] s(2)
      by (simp add: a_last_def ll_rel_def wired_def lastp_in)
    then show ?thesis using s ws False by (simp add: same_cxt_def)
  qed
qed

lemma ll_current_rel:
  assumes "ll_rel c A" "ready (p_udata c) h"
  shows "\<exists>c'. ll_current c h = Some (sized A (cur A (sel A)), c') \<and> ll_rel c' A \<and> same_cxt c c'"
  unfolding ll_current_def
proof (rule locked_rel [OF assms], goal_cases)
  case (1 u1)
  let ?c = "c\<lparr>p_udata := u1\<rparr>"
  from 1 have inv: "ll_inv rnd ?c (live u1) A" by (simp add: ll_rel_def)
  from ll_inv_selected [OF this] obtain s where s: "get_st ?c (ccol ?c) = Some s"
    "p_current s = cur A (sel A)"
    "case cur A (sel A) of None \<Rightarrow> scol A = [] | Some a \<Rightarrow> a \<in> set (scol A)" by metis
  then have "with_size ?c (p_current s) = Some (sized A (cur A (sel A)))"
    using with_size_item [OF inv, of "p_current s"] by (auto split: option.splits)
  with s 1 show ?case by simp
qed

lemma ll_cnt_rel:
  assumes "ll_rel c A" "ready (p_udata c) h"
  shows "\<exists>c'. ll_cnt c h = Some (of_nat (length (scol A)), c') \<and> ll_rel c' A \<and> same_cxt c c'"
  unfolding ll_cnt_def
proof (rule locked_rel [OF assms], goal_cases)
  case (1 u1)
  let ?c = "c\<lparr>p_udata := u1\<rparr>"
  from 1 have inv: "ll_inv rnd ?c (live u1) A" by (simp add: ll_rel_def)
  from ll_inv_selected [OF this] obtain s where s: "get_st ?c (ccol ?c) = Some s"
    "st_count s = of_nat (length (scol A))" by metis
  with 1 show ?case by simp
qed

lemma ll_next_rel:
  assumes "ll_rel c A" "ready (p_udata c) h"
  shows "\<exists>c'. ll_next c h = Some (sized A (a_step after A), c') \<and> ll_rel c' (a_move after A) \<and> same_cxt c c'"
  unfolding ll_next_def
proof (rule locked_rel [OF assms], goal_cases)
  case (1 u1)
  let ?c = "c\<lparr>p_udata := u1\<rparr>"
  from 1 have inv: "ll_inv rnd ?c (live u1) A" by (simp add: ll_rel_def)
  from ll_inv_selected [OF this] obtain s where s: "get_st ?c (ccol ?c) = Some s"
    "p_current s = cur A (sel A)"
    "case cur A (sel A) of None \<Rightarrow> scol A = [] | Some a \<Rightarrow> a \<in> set (scol A)" by metis
  show ?case
  proof (cases "cur A (sel A)")
    case None
    then show ?thesis using 1 s by (simp add: a_step_def a_move_def sized_def)
  next
    case (Some a)
    then have a: "a \<in> set (scol A)" and st: "a_step after A = after (scol A) a"
      using s(3) by (auto simp: a_step_def)
    have g: "get_next ?c a = Some (after (scol A) a)"
      using item_links(1) [OF inv, of a "sel A"] a ll_invD(1) [OF inv] by (simp add: scol_def)
    show ?thesis
    proof (cases "after (scol A) a")
      case None
      then show ?thesis using 1 s g Some st by (simp add: a_move_def sized_def)
    next
      case (Some b)
      then have b: "b \<in> set (scol A)" by (rule after_in)
      have "ll_rel (put_st ?c (ccol ?c) (s\<lparr>p_current := Some b, st_current := st_current s + 1\<rparr>)) (a_move after A)"
        using 1 ll_inv_cursor_sel [OF inv s(1), of "Some b"] b st Some
        by (simp add: a_move_def ll_rel_def wired_def)
      moreover have "with_size ?c (Some b) = Some (sized A (Some b))"
        using with_size_item [OF inv, of "Some b"] b by simp
      ultimately show ?thesis using s g \<open>cur A (sel A) = Some a\<close> st Some by (simp add: same_cxt_def)
    qed
  qed
qed

lemma ll_prev_rel:
  assumes "ll_rel c A" "ready (p_udata c) h"
  shows "\<exists>c'. ll_prev c h = Some (sized A (a_step before A), c') \<and> ll_rel c' (a_move before A) \<and> same_cxt c c'"
  unfolding ll_prev_def
proof (rule locked_rel [OF assms], goal_cases)
  case (1 u1)
  let ?c = "c\<lparr>p_udata := u1\<rparr>"
  from 1 have inv: "ll_inv rnd ?c (live u1) A" by (simp add: ll_rel_def)
  from ll_inv_selected [OF this] obtain s where s: "get_st ?c (ccol ?c) = Some s"
    "p_current s = cur A (sel A)"
    "case cur A (sel A) of None \<Rightarrow> scol A = [] | Some a \<Rightarrow> a \<in> set (scol A)" by metis
  show ?case
  proof (cases "cur A (sel A)")
    case None
    then show ?thesis using 1 s by (simp add: a_step_def a_move_def sized_def)
  next
    case (Some a)
    then have a: "a \<in> set (scol A)" and st: "a_step before A = before (scol A) a"
      using s(3) by (auto simp: a_step_def)
    have g: "get_prev ?c a = Some (before (scol A) a)"
      using item_links(2) [OF inv, of a "sel A"] a ll_invD(1) [OF inv] by (simp add: scol_def)
    show ?thesis
    proof (cases "before (scol A) a")
      case None
      then show ?thesis using 1 s g Some st by (simp add: a_move_def sized_def)
    next
      case (Some b)
      then have b: "b \<in> set (scol A)" by (rule before_in)
      have "ll_rel (put_st ?c (ccol ?c) (s\<lparr>p_current := Some b, st_current := st_current s - 1\<rparr>)) (a_move before A)"
        using 1 ll_inv_cursor_sel [OF inv s(1), of "Some b"] b st Some
        by (simp add: a_move_def ll_rel_def wired_def)
      moreover have "with_size ?c (Some b) = Some (sized A (Some b))"
        using with_size_item [OF inv, of "Some b"] b by simp
      ultimately show ?thesis using s g \<open>cur A (sel A) = Some a\<close> st Some by (simp add: same_cxt_def)
    qed
  qed
qed

lemma ll_col_rel:
  assumes "ll_rel c A" "ready (p_udata c) h" "k < width A"
  shows "\<exists>c'. ll_col c (of_nat k) h = Some ((), c') \<and> ll_rel c' (A\<lparr>sel := k\<rparr>) \<and> same_cxt c c' \<and>
     live (p_udata c') = live (p_udata c)"
proof -
  have inv: "ll_inv rnd c (live (p_udata c)) A" using assms(1) by (simp add: ll_rel_def)
  have lt: "(of_nat k :: u8) < ncol c"
    using ll_invD(2,4) [OF inv] assms(3) by (simp add: word_less_nat_alt unat_of_nat_small)
  have "ll_inv rnd (c\<lparr>p_udata := u1, ccol := of_nat k\<rparr>) lv (A\<lparr>sel := k\<rparr>)" if "ll_inv rnd c lv A" for u1 lv
    using that assms(3) unfolding ll_inv_def ll_shape_def items_ok_def by simp
  then have "\<exists>c'. ll_locked c h (\<lambda>c. Some ((), c\<lparr>ccol := of_nat k\<rparr>)) = Some ((), c') \<and>
      ll_rel c' (A\<lparr>sel := k\<rparr>) \<and> same_cxt c c' \<and>
     live (p_udata c') = live (p_udata c)"
    by (intro locked_live [OF assms(1,2)]) (simp add: ll_rel_def wired_def same_cxt_def)
  with lt show ?thesis by (simp add: ll_col_def)
qed

lemma ll_sel_rel:
  assumes "ll_rel c A" "ready (p_udata c) h" "k < width A" "a \<in> set (cols A k)"
  shows "\<exists>c'. ll_sel c a h = Some (k = sel A, c') \<and>
     ll_rel c' (if k = sel A then cursor A (Some a) else A) \<and> same_cxt c c'"
proof -
  have inv: "ll_inv rnd c (live (p_udata c)) A" using assms(1) by (simp add: ll_rel_def)
  from ll_inv_col [OF inv assms(3)] assms(4) obtain it where it: "heap c a = Some it"
    "it_cxt it = Some (self c)" "it_col it = of_nat k" unfolding items_ok_def by metis
  have eq: "(of_nat k = ccol c) = (k = sel A)"
    using ll_invD [OF inv] assms(3) by (simp add: u8_of_nat_eq_iff)
  show ?thesis
  proof (cases "k = sel A")
    case False
    then show ?thesis using it eq assms(1) by (simp add: ll_sel_def)
  next
    case True
    have "\<exists>c'. ll_locked c h (\<lambda>c. do { s \<leftarrow> get_st c (of_nat k);
         Some (True, put_st c (of_nat k) (s\<lparr>p_current := Some a\<rparr>)) }) = Some (True, c') \<and>
         ll_rel c' (cursor A (Some a)) \<and> same_cxt c c'"
    proof (rule locked_rel [OF assms(1,2)], goal_cases)
      case (1 u1)
      let ?c = "c\<lparr>p_udata := u1\<rparr>"
      from 1 have inv: "ll_inv rnd ?c (live u1) A" by (simp add: ll_rel_def)
      from ll_inv_selected [OF this] obtain s where s: "get_st ?c (ccol ?c) = Some s" by metis
      have "ll_rel (put_st ?c (ccol ?c) (s\<lparr>p_current := Some a, st_current := st_current s\<rparr>)) (cursor A (Some a))"
        using 1 ll_inv_cursor_sel [OF inv s(1), of "Some a" "st_current s"] True assms(4)
        by (simp add: ll_rel_def wired_def scol_def)
      then show ?case using s True ll_invD(3) [OF inv] by (simp add: same_cxt_def)
    qed
    then show ?thesis using it eq True by (simp add: ll_sel_def)
  qed
qed

end

end
