(* ===== verification/LlOps.thy ===== *)
theory LlOps
  imports LlSpec
begin

text \<open>
  The operations of the linked list that change its records: appending, deleting the current
  record, clearing a column, moving a record between columns, initialising and destroying.
  Each is shown to implement its abstract counterpart of LlSpec for every context whose
  callbacks satisfy \<open>ll_callbacks\<close>.
\<close>

section \<open>Unlinking a record from its segment\<close>

text \<open>The memory after the neighbours of \<open>a\<close> have been linked to each other.\<close>

definition unlink_heap :: "(addr \<rightharpoonup> 'a ll_item_hdr) \<Rightarrow> ptr \<Rightarrow> ptr \<Rightarrow> (addr \<rightharpoonup> 'a ll_item_hdr)" where
  "unlink_heap h p n =
     (let h1 = (case p of None \<Rightarrow> h | Some q \<Rightarrow> h(q \<mapsto> (the (h q))\<lparr>it_next := n\<rparr>))
      in case n of None \<Rightarrow> h1 | Some q \<Rightarrow> h1(q \<mapsto> (the (h1 q))\<lparr>it_prev := p\<rparr>))"

lemma unlink_heap_dseg:
  assumes "dseg h None (xs @ a # ys) None" "distinct (xs @ a # ys)"
  shows "dseg (unlink_heap h (lastp None xs) (hdp ys None)) None (xs @ ys) None"
proof (cases xs rule: rev_cases)
  case Nil
  then show ?thesis using assms by (cases ys) (auto simp: unlink_heap_def)
next
  case (snoc zs q)
  then show ?thesis using assms by (cases ys) (auto simp: unlink_heap_def)
qed

lemma unlink_heap_item:
  assumes "dseg h None (xs @ a # ys) None" "distinct (xs @ a # ys)" "h b = Some it"
  shows "\<exists>it'. unlink_heap h (lastp None xs) (hdp ys None) b = Some it' \<and> it_cxt it' = it_cxt it \<and>
     it_col it' = it_col it \<and> it_size it' = it_size it \<and> it_data it' = it_data it"
  using assms by (cases ys; cases xs rule: rev_cases) (auto simp: unlink_heap_def)

lemma unlink_heap_other:
  "b \<notin> set xs \<Longrightarrow> b \<notin> set ys \<Longrightarrow> unlink_heap h (lastp None xs) (hdp ys None) b = h b"
  by (cases ys; cases xs rule: rev_cases) (auto simp: unlink_heap_def)

text \<open>The column state after \<open>a\<close> has left: what the three cases of the code amount to.\<close>

definition unlink_st :: "ll_state \<Rightarrow> addr \<Rightarrow> ptr \<Rightarrow> ptr \<Rightarrow> ptr \<Rightarrow> u32 \<Rightarrow> ll_state" where
  "unlink_st s a p n cu i = s\<lparr>
     p_first := (if p_first s = Some a then n else p_first s),
     p_last := (if p_last s = Some a then p else p_last s),
     p_current := cu, st_count := st_count s - 1, st_current := i\<rparr>"

lemma lastp_not [simp]: "a \<notin> set xs \<Longrightarrow> p \<noteq> Some a \<Longrightarrow> lastp p xs \<noteq> Some a"
    "a \<notin> set xs \<Longrightarrow> p \<noteq> Some a \<Longrightarrow> Some a \<noteq> lastp p xs"
  by (auto simp: lastp_def)

lemma hdp_not [simp]: "a \<notin> set xs \<Longrightarrow> p \<noteq> Some a \<Longrightarrow> hdp xs p \<noteq> Some a"
    "a \<notin> set xs \<Longrightarrow> p \<noteq> Some a \<Longrightarrow> Some a \<noteq> hdp xs p"
  by (cases xs; auto)+

lemma hdp_split: "a \<notin> set xs \<Longrightarrow> (if hdp (xs @ a # ys) None = Some a then hdp ys None
    else hdp (xs @ a # ys) None) = hdp (xs @ ys) None"
  by (cases xs) auto

lemma lastp_split: "a \<notin> set ys \<Longrightarrow> (if lastp None (xs @ a # ys) = Some a then lastp None xs
    else lastp None (xs @ a # ys)) = lastp None (xs @ ys)"
  by (cases ys rule: rev_cases) auto

lemma of_nat_minus_one: "(of_nat (Suc n) :: u32) - 1 = of_nat n"
  by simp

lemma col_ok_unlink:
  assumes "col_ok s (xs @ a # ys) cu0" "distinct (xs @ a # ys)"
    and "case cu of None \<Rightarrow> xs @ ys = [] | Some b \<Rightarrow> b \<in> set (xs @ ys)"
  shows "col_ok (unlink_st s a (lastp None xs) (hdp ys None) cu i) (xs @ ys) cu"
  using assms hdp_split [of a xs ys] lastp_split [of a ys xs]
  unfolding col_ok_def unlink_st_def by (auto simp: of_nat_minus_one)

lemma neighbour_split:
  "a \<notin> set xs \<Longrightarrow> neighbour (xs @ a # ys) a = (if ys = [] then lastp None xs else hdp ys None)"
  by (simp add: neighbour_def)

lemma neighbour_valid:
  "a \<notin> set xs \<Longrightarrow>
     (case neighbour (xs @ a # ys) a of None \<Rightarrow> xs @ ys = [] | Some b \<Rightarrow> b \<in> set (xs @ ys))"
  unfolding neighbour_split by (cases ys; cases xs rule: rev_cases) simp_all

lemma ll_inv_disjoint:
  "ll_inv rnd c lv A \<Longrightarrow> j < width A \<Longrightarrow> k < width A \<Longrightarrow> j \<noteq> k \<Longrightarrow> set (cols A j) \<inter> set (cols A k) = {}"
  by (simp add: ll_inv_def ll_shape_def)

text \<open>Unlinking \<open>a\<close> from column \<open>k\<close> and, as \<open>d\<close> and \<open>lv'\<close> say, possibly releasing it.\<close>

lemma ll_inv_unlink:
  assumes inv: "ll_inv rnd c lv A" and k: "k < width A" "j = of_nat k"
    and xs: "cols A k = xs @ a # ys" and s: "get_st c j = Some s"
    and h: "\<And>b. b \<noteq> a \<Longrightarrow> h b = unlink_heap (heap c) (lastp None xs) (hdp ys None) b"
    and lv: "\<And>b. b \<noteq> a \<Longrightarrow> lv' b = lv b" and d: "\<And>b. b \<noteq> a \<Longrightarrow> d b = dat A b"
    and cu: "case cu of None \<Rightarrow> xs @ ys = [] | Some b \<Rightarrow> b \<in> set (xs @ ys)"
  shows "ll_inv rnd (put_st (c\<lparr>heap := h\<rparr>) j (unlink_st s a (lastp None xs) (hdp ys None) cu i)) lv'
     (A\<lparr>cols := (cols A)(k := xs @ ys), cur := (cur A)(k := cu), dat := d\<rparr>)"
proof -
  from ll_inv_col [OF inv k(1)] s k(2) xs
  have 0: "col_ok s (xs @ a # ys) (cur A k)" "dseg (heap c) None (xs @ a # ys) None"
    "distinct (xs @ a # ys)" "items_ok rnd c lv A k" by (metis option.inject)+
  have na: "a \<notin> set xs" "a \<notin> set ys" using 0(3) by auto
  have it: "state_addr c \<noteq> Some a" using 0(4) xs by (auto simp: items_ok_def)
  show ?thesis
  proof (rule ll_inv_change [OF inv k])
    show "dseg h None (xs @ ys) None"
      using unlink_heap_dseg [OF 0(2,3)] h na
        dseg_cong [of "xs @ ys" h "unlink_heap (heap c) (lastp None xs) (hdp ys None)" None None]
      by (metis Un_iff set_append)
    show "distinct (xs @ ys)" using 0(3) by simp
    show "col_ok (unlink_st s a (lastp None xs) (hdp ys None) cu i) (xs @ ys) cu"
      using col_ok_unlink [OF 0(1,3) cu] .
    show "set (xs @ ys) \<inter> set (cols A j) = {}" if "j < width A" "j \<noteq> k" for j
      using ll_inv_disjoint [OF inv that(1) k(1) that(2)] xs by auto
    show "h b = heap c b \<and> lv' b = lv b \<and> d b = dat A b"
      if "j < width A" "j \<noteq> k" "b \<in> set (cols A j)" for j b
    proof -
      have "b \<noteq> a" "b \<notin> set xs" "b \<notin> set ys"
        using ll_inv_disjoint [OF inv that(1) k(1) that(2)] xs that(3) by auto
      then show ?thesis using h lv d unlink_heap_other by metis
    qed
    show "\<exists>it. h b = Some it \<and> it_cxt it = Some (self c) \<and> it_col it = of_nat k \<and>
        d b = Some (it_size it, it_data it) \<and> lv' b = Some (rnd (it_size it + sizeof_ll_item_hdr)) \<and>
        state_addr c \<noteq> Some b" if b: "b \<in> set (xs @ ys)" for b
    proof -
      have "b \<noteq> a" using b na by auto
      moreover obtain it where "heap c b = Some it" "it_cxt it = Some (self c)" "it_col it = of_nat k"
        "dat A b = Some (it_size it, it_data it)" "lv b = Some (rnd (it_size it + sizeof_ll_item_hdr))"
        "state_addr c \<noteq> Some b"
        using 0(4) b xs unfolding items_ok_def by (metis Un_iff set_append list.set_intros(2))
      ultimately show ?thesis
        using unlink_heap_item [OF 0(2,3)] h [of b] lv [of b] d [of b] by metis
    qed
    show "lv' b = lv b" if "state_addr c = Some b" for b using it lv [of b] that by auto
  qed simp
qed

lemma ll_inv_put_udata [simp]:
  "ll_inv rnd (put_st (c\<lparr>p_udata := u, heap := h\<rparr>) k s) lv A = ll_inv rnd (put_st (c\<lparr>heap := h\<rparr>) k s) lv A"
  "ll_inv rnd (put_st (c\<lparr>p_udata := u\<rparr>) k s) lv A = ll_inv rnd (put_st c k s) lv A"
proof -
  have "put_st (c\<lparr>p_udata := u, heap := h\<rparr>) k s = (put_st (c\<lparr>heap := h\<rparr>) k s)\<lparr>p_udata := u\<rparr>"
    by (simp add: put_st_def)
  then show "ll_inv rnd (put_st (c\<lparr>p_udata := u, heap := h\<rparr>) k s) lv A =
      ll_inv rnd (put_st (c\<lparr>heap := h\<rparr>) k s) lv A"
    by (simp only: ll_inv_cong_udata)
  show "ll_inv rnd (put_st (c\<lparr>p_udata := u\<rparr>) k s) lv A = ll_inv rnd (put_st c k s) lv A"
    using ll_inv_cong_udata [where c = "put_st c k s" and u = u] by simp
qed

lemma ll_inv_heap_udata [simp]:
  "ll_inv rnd (c\<lparr>p_udata := u, heap := h\<rparr>) lv A = ll_inv rnd (c\<lparr>heap := h\<rparr>) lv A"
proof -
  have "c\<lparr>p_udata := u, heap := h\<rparr> = c\<lparr>heap := h, p_udata := u\<rparr>" by simp
  then show ?thesis by (simp only: ll_inv_cong_udata)
qed

section \<open>Deleting the current record\<close>

text \<open>The body of \<open>ll_del\<close> computed on a column split at its current record.\<close>

lemma put_st_get_ccol [simp]: "get_st c (ccol c) = Some s \<Longrightarrow> put_st c (ccol c) s = c"
  by (cases "state c") (auto simp: put_st_def get_st_def split: if_splits)

lemma ll_del_compute:
  assumes "get_st c (ccol c) = Some s" "p_current s = Some a" "p_free c = Some fr"
    and "p_first s = hdp (xs @ a # ys) None" "p_last s = lastp None (xs @ a # ys)"
    and "dseg (heap c) None (xs @ a # ys) None" "distinct (xs @ a # ys)" "heap c a = Some it"
    and "mode c \<noteq> LL_MODE_RING" "fr a (it_size it + sizeof_ll_item_hdr) (p_udata c) = Some u"
  shows "ll_del_body c = Some ((), put_st
     (c\<lparr>p_udata := u,
        heap := (unlink_heap (heap c) (lastp None xs) (hdp ys None))(a := None)\<rparr>) (ccol c)
     (unlink_st s a (lastp None xs) (hdp ys None) (neighbour (xs @ a # ys) a)
        (if ys = [] then st_current s - 1 else st_current s)))"
proof -
  note defs = ll_del_body_def unlink_heap_def unlink_st_def free_item_def neighbour_def
    after_def before_def
  have it: "it_prev it = lastp None xs" "it_next it = hdp ys None"
    using assms(6,8) by auto
  have nxt: "\<exists>itr. heap c r = Some itr" if "ys = r # zs" for r zs using assms(6) that by auto
  show ?thesis
  proof (cases xs rule: rev_cases)
    case Nil
    then show ?thesis
    proof (cases ys)
      case Nil
      with \<open>xs = []\<close> assms it show ?thesis by (cases s) (simp add: defs)
    next
      case (Cons r zs)
      then obtain itr where "heap c r = Some itr" using nxt by blast
      with \<open>xs = []\<close> Cons assms(1-5,7-10) it show ?thesis by (cases s) (simp add: defs)
    qed
  next
    case (snoc ws q)
    have nb: "neighbour (xs @ a # ys) a = (if ys = [] then lastp None xs else hdp ys None)"
      using assms(7) by (intro neighbour_split) simp
    obtain itq where q: "heap c q = Some itq" "q \<noteq> a" using assms(6,7) snoc by auto
    have f: "p_first s \<noteq> Some a" "Some a \<noteq> p_first s" using assms(4,7) snoc by (cases ws; auto)+
    show ?thesis
    proof (cases ys)
      case Nil
      with snoc assms(1-3,5,8-10) it q f nb show ?thesis by (cases s) (simp add: defs(1-4))
    next
      case (Cons r zs)
      then obtain itr where "heap c r = Some itr" using nxt by blast
      with Cons snoc assms(1-3,5,7-10) it q f nb show ?thesis by (cases s) (simp add: defs(1-4))
    qed
  qed
qed

context ll_callbacks
begin

lemma ll_del_rel:
  assumes "ll_rel c A" "ready (p_udata c) h"
  shows "\<exists>c'. ll_del c h = Some ((), c') \<and> ll_rel c' (a_del A) \<and> same_cxt c c'"
  unfolding ll_del_def
proof (rule locked_rel [OF assms], goal_cases)
  case (1 u1)
  let ?c = "c\<lparr>p_udata := u1\<rparr>"
  from 1 have inv: "ll_inv rnd ?c (live u1) A" and w: "wired ?c" "ok u1" by (simp_all add: ll_rel_def)
  from ll_inv_selected [OF inv] obtain s where s: "get_st ?c (ccol ?c) = Some s"
    "p_first s = hdp (scol A) None" "p_last s = lastp None (scol A)" "p_current s = cur A (sel A)"
    "case cur A (sel A) of None \<Rightarrow> scol A = [] | Some a \<Rightarrow> a \<in> set (scol A)"
    by metis
  show ?case
  proof (cases "cur A (sel A)")
    case None
    then show ?thesis using 1 s by (simp add: a_del_def ll_del_body_def)
  next
    case (Some a)
    then have "a \<in> set (scol A)" using s(5) by simp
    then obtain xs ys where xs: "scol A = xs @ a # ys" "a \<notin> set xs"
      using split_list_first by metis
    note k = ll_invD(1,3) [OF inv]
    from ll_inv_col [OF inv k(1)] xs
    have seg: "dseg (heap c) None (xs @ a # ys) None" "distinct (xs @ a # ys)"
      "items_ok rnd ?c (live u1) A (sel A)" by (auto simp: scol_def)
    then obtain it where it: "heap c a = Some it" "it_prev it = lastp None xs"
      "it_next it = hdp ys None" "live u1 a = Some (rnd (it_size it + sizeof_ll_item_hdr))"
      using xs by (auto simp: items_ok_def scol_def)
    obtain u where fr: "free a (it_size it + sizeof_ll_item_hdr) u1 = Some u"
        "live u = (live u1)(a := None)" "ok u" "owner u = owner u1"
      using free_live [OF w(2) it(4)] by auto
    let ?h = "(unlink_heap (heap c) (lastp None xs) (hdp ys None))(a := None)"
    let ?i = "if ys = [] then st_current s - 1 else st_current s"
    let ?s = "unlink_st s a (lastp None xs) (hdp ys None) (neighbour (scol A) a) ?i"
    let ?c' = "put_st (?c\<lparr>p_udata := u, heap := ?h\<rparr>) (ccol c) ?s"
    have "ll_inv rnd (put_st (?c\<lparr>heap := ?h\<rparr>) (ccol ?c) ?s) (live u)
        (A\<lparr>cols := (cols A)(sel A := xs @ ys), cur := (cur A)(sel A := neighbour (scol A) a),
          dat := (dat A)(a := None)\<rparr>)"
      by (rule ll_inv_unlink [OF inv k _ s(1)])
         (use xs neighbour_valid [of a xs ys] in \<open>simp_all add: scol_def fr\<close>)
    then have "ll_rel ?c' (a_del A)"
      using w fr xs Some by (simp add: ll_rel_def wired_def a_del_def split del: if_split)
    moreover have "same_cxt ?c ?c'" using fr by (simp add: same_cxt_def)
    moreover have "ll_del_body ?c = Some ((), ?c')"
      using ll_del_compute [of ?c s a free xs ys it u] s w seg it xs fr Some ll_invD(5) [OF inv]
      by (simp add: wired_def)
    ultimately show ?thesis by blast
  qed
qed

end

section \<open>Appending a record\<close>

lemma ll_inv_fresh:
  assumes inv: "ll_inv rnd c lv A" and a: "lv a = None"
  shows "state_addr c \<noteq> Some a" "k < width A \<Longrightarrow> a \<notin> set (cols A k)"
proof -
  show "state_addr c \<noteq> Some a" using inv a by (auto simp: ll_inv_def)
  show "a \<notin> set (cols A k)" if "k < width A"
  proof -
    from ll_inv_col [OF inv that] have "items_ok rnd c lv A k" by blast
    then show ?thesis using a unfolding items_ok_def by auto
  qed
qed

text \<open>A fresh block may appear in memory beside the records.\<close>

lemma ll_inv_extend:
  assumes inv: "ll_inv rnd c lv A" and a: "lv a = None"
  shows "ll_inv rnd (c\<lparr>heap := (heap c)(a := v)\<rparr>) (lv(a := w)) A"
proof -
  note fr = ll_inv_fresh [OF assms]
  have "items_ok rnd (c\<lparr>heap := (heap c)(a := v)\<rparr>) (lv(a := w)) A k \<and>
      dseg ((heap c)(a := v)) None (cols A k) None" if "k < width A" for k
  proof -
    from ll_inv_col [OF inv that] have "items_ok rnd c lv A k" "dseg (heap c) None (cols A k) None" by blast+
    then show ?thesis using fr(2) [OF that] unfolding items_ok_def by auto
  qed
  with inv fr(1) show ?thesis unfolding ll_inv_def by auto
qed

definition new_item :: "('a, 'u) ll_context \<Rightarrow> u32 \<Rightarrow> 'a \<Rightarrow> ptr \<Rightarrow> 'a ll_item_hdr" where
  "new_item c sz d p = \<lparr>it_cxt = Some (self c), it_size = sz, it_col = ccol c,
     it_prev = p, it_next = None, it_data = d\<rparr>"

definition append_heap :: "(addr \<rightharpoonup> 'a ll_item_hdr) \<Rightarrow> ptr \<Rightarrow> addr \<Rightarrow> 'a ll_item_hdr \<Rightarrow>
    (addr \<rightharpoonup> 'a ll_item_hdr)" where
  "append_heap h l a it =
     (case l of None \<Rightarrow> h | Some q \<Rightarrow> h(q \<mapsto> (the (h q))\<lparr>it_next := Some a\<rparr>))(a \<mapsto> it)"

lemma append_heap_dseg:
  assumes "dseg h None xs None" "distinct (xs @ [a])" "it_prev it = lastp None xs" "it_next it = None"
  shows "dseg (append_heap h (lastp None xs) a it) None (xs @ [a]) None"
  using assms by (cases xs rule: rev_cases) (auto simp: append_heap_def)

lemma append_heap_item:
  assumes "dseg h None xs None" "h b = Some it0" "b \<noteq> a"
  shows "\<exists>it'. append_heap h (lastp None xs) a it b = Some it' \<and> it_cxt it' = it_cxt it0 \<and>
     it_col it' = it_col it0 \<and> it_size it' = it_size it0 \<and> it_data it' = it_data it0"
  using assms by (cases xs rule: rev_cases) (auto simp: append_heap_def)

lemma append_heap_other:
  "b \<notin> set xs \<Longrightarrow> b \<noteq> a \<Longrightarrow> append_heap h (lastp None xs) a it b = h b"
  by (cases xs rule: rev_cases) (auto simp: append_heap_def)

text \<open>Linking a record \<open>a\<close> of no column at the end of column \<open>k\<close>.\<close>

lemma ll_inv_link:
  assumes inv: "ll_inv rnd c lv A" and k: "k < width A" "j = of_nat k" and s: "get_st c j = Some s"
    and room: "length (cols A k) + 1 < 2 ^ 32"
    and a: "\<And>i. i < width A \<Longrightarrow> a \<notin> set (cols A i)"
    and it: "it_prev it = lastp None (cols A k)" "it_next it = None" "it_cxt it = Some (self c)"
      "it_col it = of_nat k" "lv a = Some (rnd (it_size it + sizeof_ll_item_hdr))" "state_addr c \<noteq> Some a"
    and d: "d a = Some (it_size it, it_data it)" "\<And>b. b \<noteq> a \<Longrightarrow> d b = dat A b"
    and s': "p_first s' = hdp (cols A k @ [a]) None" "p_last s' = Some a" "p_current s' = Some cu"
      "st_count s' = st_count s + 1" and cu: "cu \<in> set (cols A k @ [a])"
  shows "ll_inv rnd (put_st (c\<lparr>heap := append_heap (heap c) (lastp None (cols A k)) a it\<rparr>) j s') lv
     (A\<lparr>cols := (cols A)(k := cols A k @ [a]), cur := (cur A)(k := Some cu), dat := d\<rparr>)"
proof -
  from ll_inv_col [OF inv k(1)] s k(2)
  have 0: "col_ok s (cols A k) (cur A k)" "dseg (heap c) None (cols A k) None"
    "distinct (cols A k)" "items_ok rnd c lv A k" by (metis option.inject)+
  note na = a [OF k(1)]
  let ?h = "append_heap (heap c) (lastp None (cols A k)) a it"
  show ?thesis
  proof (rule ll_inv_change [OF inv k])
    show "dseg ?h None (cols A k @ [a]) None"
      using append_heap_dseg [OF 0(2) _ it(1,2)] 0(3) na by simp
    show "distinct (cols A k @ [a])" using 0(3) na by simp
    show "col_ok s' (cols A k @ [a]) (Some cu)"
      using 0(1) s' room cu unfolding col_ok_def by simp
    show "set (cols A k @ [a]) \<inter> set (cols A i) = {}" if "i < width A" "i \<noteq> k" for i
      using ll_inv_disjoint [OF inv that(1) k(1) that(2)] a [OF that(1)] by auto
    show "?h b = heap c b \<and> lv b = lv b \<and> d b = dat A b"
      if "i < width A" "i \<noteq> k" "b \<in> set (cols A i)" for i b
    proof -
      have "b \<noteq> a" "b \<notin> set (cols A k)"
        using a [OF that(1)] that(3) ll_inv_disjoint [OF inv that(1) k(1) that(2)] by auto
      then show ?thesis using append_heap_other d(2) by metis
    qed
    show "\<exists>it. ?h b = Some it \<and> it_cxt it = Some (self c) \<and> it_col it = of_nat k \<and>
        d b = Some (it_size it, it_data it) \<and> lv b = Some (rnd (it_size it + sizeof_ll_item_hdr)) \<and>
        state_addr c \<noteq> Some b" if b: "b \<in> set (cols A k @ [a])" for b
    proof (cases "b = a")
      case True
      then show ?thesis using it d(1) by (simp add: append_heap_def)
    next
      case False
      then obtain it0 where "heap c b = Some it0" "it_cxt it0 = Some (self c)" "it_col it0 = of_nat k"
        "dat A b = Some (it_size it0, it_data it0)" "lv b = Some (rnd (it_size it0 + sizeof_ll_item_hdr))"
        "state_addr c \<noteq> Some b"
        using 0(4) b unfolding items_ok_def by auto
      then show ?thesis
        using append_heap_item [OF 0(2) _ False] d(2) [OF False] by metis
    qed
  qed simp_all
qed

context ll_callbacks
begin

lemma ll_append_rel:
  assumes rel: "ll_rel c A" and rdy: "ready (p_udata c) h" and room: "length (scol A) + 1 < 2 ^ 32"
    and ft: "fits (sz + sizeof_ll_item_hdr)"
  shows "(\<exists>c'. ll_append c d sz h = Some (None, c') \<and> ll_rel c' A \<and> same_cxt c c') \<or>
    (\<exists>a c'. ll_append c d sz h = Some (Some a, c') \<and> live (p_udata c) a = None \<and>
       ll_rel c' (a_append A a sz d) \<and> same_cxt c c')"
proof -
  have w: "wired c" "ok (p_udata c)" and inv: "ll_inv rnd c (live (p_udata c)) A"
    using rel by (auto simp: ll_rel_def)
  obtain p u where pu: "alloc (sz + sizeof_ll_item_hdr) (addr_limit c) (p_udata c) = Some (p, u)"
    using alloc_returns [OF w(2) ft] by metis
  show ?thesis
  proof (cases p)
    case None
    with pu w alloc_None [OF w(2)] have "ll_append c d sz h = Some (None, c\<lparr>p_udata := u\<rparr>)"
      "live u = live (p_udata c)" "ok u" "owner u = owner (p_udata c)"
      by (simp_all add: ll_append_def alloc_item_def wired_def)
    moreover from this inv w have "ll_rel (c\<lparr>p_udata := u\<rparr>) A" by (simp add: ll_rel_def wired_def)
    ultimately show ?thesis by (simp add: same_cxt_def)
  next
    case (Some a)
    with pu have al: "live (p_udata c) a = None" "live u = (live (p_udata c))(a \<mapsto> rnd (sz + sizeof_ll_item_hdr))"
      "ok u" "owner u = owner (p_udata c)" using alloc_Some [OF w(2)] by blast+
    let ?c = "c\<lparr>p_udata := u, heap := (heap c)(a \<mapsto> new_item c sz d None)\<rparr>"
    have ai: "alloc_item c d sz = Some (Some a, ?c)"
      using pu Some w by (simp add: alloc_item_def wired_def new_item_def)
    have "ll_inv rnd (c\<lparr>heap := (heap c)(a := Some (new_item c sz d None))\<rparr>) (live u) A"
      using ll_inv_extend [OF inv al(1)] al(2) by simp
    then have rel': "ll_rel ?c A" using w al by (simp add: ll_rel_def wired_def)
    have rdy': "ready (p_udata ?c) h" using rdy al by (simp add: ready_def)
    have "\<exists>c'. ll_append c d sz h = Some (Some a, c') \<and> ll_rel c' (a_append A a sz d) \<and> same_cxt ?c c'"
      unfolding ll_append_def ai Option.bind.simps prod.case option.case
    proof (rule locked_rel [OF rel' rdy'], goal_cases)
      case (1 u1)
      let ?c1 = "?c\<lparr>p_udata := u1\<rparr>"
      from 1 have inv1: "ll_inv rnd ?c1 (live u1) A" and w1: "wired ?c1" "ok u1"
        by (auto simp: ll_rel_def)
      from ll_inv_selected [OF inv1] obtain s where s: "get_st ?c1 (ccol ?c1) = Some s"
        "p_first s = hdp (scol A) None" "p_last s = lastp None (scol A)" by metis
      note k = ll_invD(1,3) [OF inv1]
      have na: "a \<notin> set (cols A i)" if "i < width A" for i
        using ll_inv_fresh(2) [OF inv al(1) that] .
      let ?s = "s\<lparr>p_last := Some a, p_current := Some a,
            p_first := (if p_first s = None then Some a else p_first s),
            st_current := st_count s, st_count := st_count s + 1\<rparr>"
      let ?h = "append_heap (heap ?c1) (lastp None (cols A (sel A))) a (new_item c sz d (lastp None (scol A)))"
      let ?c' = "put_st (?c1\<lparr>heap := ?h\<rparr>) (ccol ?c1) ?s"
      have "ll_inv rnd ?c' (live u1) (A\<lparr>cols := (cols A)(sel A := cols A (sel A) @ [a]),
          cur := (cur A)(sel A := Some a), dat := (dat A)(a \<mapsto> (sz, d))\<rparr>)"
        by (rule ll_inv_link [OF inv1 k s(1)])
           (use room na al 1 s k ll_inv_fresh(1) [OF inv al(1)] in
             \<open>simp_all add: new_item_def scol_def hdp_in\<close>)
      then have "ll_rel ?c' (a_append A a sz d)"
        using w1 by (simp add: ll_rel_def wired_def a_append_def scol_def)
      moreover have "same_cxt ?c1 ?c'" by (simp add: same_cxt_def)
      moreover have "(case p_last s of None \<Rightarrow> Some ?c1 | Some l \<Rightarrow> set_next ?c1 l (Some a)) =
          Some (?c1\<lparr>heap := append_heap (heap ?c1) (lastp None (scol A)) a (new_item c sz d None)\<rparr>)"
      proof (cases "scol A" rule: rev_cases)
        case (snoc ws l)
        then have "\<exists>itl. heap c l = Some itl" "l \<noteq> a"
          using ll_inv_col [OF inv k(1)] na [OF k(1)] by (auto simp: scol_def)
        then show ?thesis using s snoc by (auto simp: append_heap_def fun_upd_twist)
      qed (use s in \<open>simp add: append_heap_def\<close>)
      ultimately show ?case
        using s ll_invD(5) [OF inv1]
        by (simp add: append_heap_def new_item_def scol_def)
    qed
    then show ?thesis using al by (auto simp: same_cxt_def)
  qed
qed

end

section \<open>Moving a record between columns\<close>

lemma ll_mov_unlink_compute:
  assumes "get_st c (it_col it) = Some s" "heap c a = Some it"
    and "p_first s = hdp (xs @ a # ys) None" "p_last s = lastp None (xs @ a # ys)"
    and "dseg (heap c) None (xs @ a # ys) None" "distinct (xs @ a # ys)"
  shows "ll_mov_unlink c a it = Some (put_st
     (c\<lparr>heap := unlink_heap (heap c) (lastp None xs) (hdp ys None)\<rparr>) (it_col it)
     (unlink_st s a (lastp None xs) (hdp ys None)
       (if p_current s = Some a then neighbour (xs @ a # ys) a else p_current s) (st_current s)))"
proof -
  note defs = ll_mov_unlink_def unlink_heap_def unlink_st_def
  have it: "it_prev it = lastp None xs" "it_next it = hdp ys None" using assms(2,5) by auto
  have nb: "neighbour (xs @ a # ys) a = (if ys = [] then lastp None xs else hdp ys None)"
    using assms(6) by (intro neighbour_split) simp
  have nxt: "\<exists>itr. heap c r = Some itr" if "ys = r # zs" for r zs using assms(5) that by auto
  show ?thesis
  proof (cases xs rule: rev_cases)
    case Nil
    then show ?thesis
    proof (cases ys)
      case Nil
      with \<open>xs = []\<close> assms it nb show ?thesis by (cases s; cases "p_current s = Some a") (simp_all add: defs)
    next
      case (Cons r zs)
      then obtain itr where "heap c r = Some itr" using nxt by blast
      with \<open>xs = []\<close> Cons assms(1-4,6) it nb show ?thesis by (cases s; cases "p_current s = Some a") (simp_all add: defs)
    qed
  next
    case (snoc ws q)
    obtain itq where q: "heap c q = Some itq" "q \<noteq> a" using assms(5,6) snoc by auto
    have f: "p_first s \<noteq> Some a" using assms(3,6) snoc by (cases ws) auto
    show ?thesis
    proof (cases ys)
      case Nil
      with snoc assms(1,2,4) it q f nb show ?thesis by (cases s; cases "p_current s = Some a") (simp_all add: defs)
    next
      case (Cons r zs)
      then obtain itr where "heap c r = Some itr" using nxt by blast
      with Cons snoc assms(1,2,4,6) it q f nb show ?thesis by (cases s; cases "p_current s = Some a") (simp_all add: defs)
    qed
  qed
qed

lemma ll_mov_link_compute:
  assumes "get_st c k = Some s" "heap c a = Some it" "mode c \<noteq> LL_MODE_RING"
    and "p_first s = hdp xs None" "p_last s = lastp None xs" "st_count s = of_nat (length xs)"
    and "length xs < 2 ^ 32" "dseg (heap c) None xs None" "a \<notin> set xs"
  shows "ll_mov_link c a k = Some (True, put_st
     (c\<lparr>heap := append_heap (heap c) (lastp None xs) a
        (it\<lparr>it_prev := lastp None xs, it_next := None, it_col := k\<rparr>)\<rparr>) k
     (s\<lparr>p_first := hdp (xs @ [a]) None, p_last := Some a,
        p_current := (if xs = [] then Some a else p_current s), st_count := st_count s + 1\<rparr>))"
proof (cases xs rule: rev_cases)
  case Nil
  then have "st_count s = 0" using assms(6) by simp
  then show ?thesis using Nil assms(1-3)
    by (cases it) (simp add: ll_mov_link_def append_heap_def)
next
  case (snoc ws l)
  then have "st_count s \<noteq> 0" using assms(6,7) of_nat_word_eq_0_iff [of "length xs", where 'a = 32] by simp
  moreover obtain itl where "heap c l = Some itl" "l \<noteq> a" using assms(8,9) snoc by auto
  moreover have "hdp (ws @ l # [a]) None = p_first s" using assms(4) snoc by (cases ws) auto
  moreover have "p_last s = Some l" using assms(5) snoc by simp
  ultimately show ?thesis using assms(1-3) snoc
    by (simp add: ll_mov_link_def append_heap_def fun_upd_twist)
qed

context ll_callbacks
begin

lemma ll_mov_rel:
  assumes rel: "ll_rel c A" and rdy: "ready (p_udata c) h" and j: "j < width A" "a \<in> set (cols A j)"
    and k: "k < width A" "k \<noteq> j" "length (cols A k) + 1 < 2 ^ 32"
  shows "\<exists>c'. ll_mov c a (of_nat k) h = Some (True, c') \<and> ll_rel c' (a_mov A a j k) \<and> same_cxt c c'"
  unfolding ll_mov_def
proof (rule locked_rel [OF rel rdy], goal_cases)
  case (1 u1)
  let ?c = "c\<lparr>p_udata := u1\<rparr>"
  from 1 have inv: "ll_inv rnd ?c (live u1) A" and w: "wired ?c" "ok u1" by (simp_all add: ll_rel_def)
  obtain xs ys where xs: "cols A j = xs @ a # ys" "a \<notin> set xs"
    using split_list_first [OF j(2)] by blast
  from ll_inv_col [OF inv j(1)] obtain s where s: "get_st ?c (of_nat j) = Some s"
    "col_ok s (cols A j) (cur A j)" "dseg (heap ?c) None (cols A j) None" "distinct (cols A j)"
    "items_ok rnd ?c (live u1) A j" by metis
  then obtain it where it: "heap ?c a = Some it" "it_cxt it = Some (self c)" "it_col it = of_nat j"
      "dat A a = Some (it_size it, it_data it)" "live u1 a = Some (rnd (it_size it + sizeof_ll_item_hdr))"
      "state_addr c \<noteq> Some a" using j(2) by (auto simp: items_ok_def)
  let ?cu = "if cur A j = Some a then neighbour (cols A j) a else cur A j"
  let ?h = "unlink_heap (heap ?c) (lastp None xs) (hdp ys None)"
  let ?c1 = "put_st (?c\<lparr>heap := ?h\<rparr>) (of_nat j)
      (unlink_st s a (lastp None xs) (hdp ys None) ?cu (st_current s))"
  let ?A1 = "A\<lparr>cols := (cols A)(j := xs @ ys), cur := (cur A)(j := ?cu), dat := dat A\<rparr>"
  have cu: "case ?cu of None \<Rightarrow> xs @ ys = [] | Some b \<Rightarrow> b \<in> set (xs @ ys)"
    using neighbour_valid [OF xs(2), of ys] s(2) xs(1)
    by (cases "cur A j") (auto simp: col_ok_def)
  have mv1: "ll_mov_unlink ?c a it = Some ?c1"
    using ll_mov_unlink_compute [of ?c it s a xs ys] s it(1,3) xs by (simp add: col_ok_def)
  have inv1: "ll_inv rnd ?c1 (live u1) ?A1"
    by (rule ll_inv_unlink [OF inv j(1) refl xs(1) s(1) _ _ _ cu]) simp_all
  have k1: "k < width ?A1" "cols ?A1 k = cols A k" "cur ?A1 k = cur A k" using k by simp_all
  from ll_inv_col [OF inv1 k1(1)] obtain ds where ds: "get_st ?c1 (of_nat k) = Some ds"
    "col_ok ds (cols A k) (cur A k)" "dseg (heap ?c1) None (cols A k) None" unfolding k1 by metis
  have ak: "a \<notin> set (cols ?A1 i)" if "i < width ?A1" for i
    using ll_inv_disjoint [OF inv _ j(1), of i] that j(2) xs s(4) by (cases "i = j") auto
  have ha: "heap ?c1 a = Some it"
    using unlink_heap_other [of a xs ys "heap ?c"] xs s(4) it(1) by simp
  let ?it = "it\<lparr>it_prev := lastp None (cols A k), it_next := None, it_col := of_nat k\<rparr>"
  let ?cu2 = "if cols A k = [] then a else the (cur A k)"
  let ?ds = "ds\<lparr>p_first := hdp (cols A k @ [a]) None, p_last := Some a,
        p_current := (if cols A k = [] then Some a else p_current ds), st_count := st_count ds + 1\<rparr>"
  let ?c2 = "put_st (?c1\<lparr>heap := append_heap (heap ?c1) (lastp None (cols A k)) a ?it\<rparr>) (of_nat k) ?ds"
  have mv2: "ll_mov_link ?c1 a (of_nat k) = Some (True, ?c2)"
    using ll_mov_link_compute [OF ds(1) ha, of "cols A k"] ds ak [OF k1(1)] ll_invD(5) [OF inv1] k1(2)
    by (simp add: col_ok_def)
  have dscur: "cols A k \<noteq> [] \<Longrightarrow> p_current ds = Some (the (cur A k)) \<and> the (cur A k) \<in> set (cols A k)"
    using ds(2) by (cases "cur A k") (auto simp: col_ok_def)
  have "ll_inv rnd ?c2 (live u1) (?A1\<lparr>cols := (cols ?A1)(k := cols ?A1 k @ [a]),
      cur := (cur ?A1)(k := Some ?cu2), dat := dat A\<rparr>)"
    unfolding k1(2) [symmetric]
  proof (rule ll_inv_link [OF inv1 k1(1) refl ds(1)], goal_cases)
    case 2 then show ?case by (rule ak)
  qed (use k it dscur k1 in auto)
  then have "ll_rel ?c2 (a_mov A a j k)"
    using w dscur xs k ds(2) by (auto simp: ll_rel_def wired_def a_mov_def a_unlink_def col_ok_def)
  moreover have "same_cxt ?c ?c2" by (simp add: same_cxt_def)
  moreover have "(of_nat k :: u8) \<noteq> of_nat j" "(of_nat k :: u8) < ncol c"
    using u8_of_nat_eq_iff [of k j] k j ll_invD(2,4) [OF inv]
    by (simp_all add: word_less_nat_alt unat_of_nat_small)
  ultimately show ?case using it mv1 mv2 by simp
qed

text \<open>Moving a record to the column it is in, or out of range, changes nothing.\<close>

lemma ll_mov_refused:
  assumes rel: "ll_rel c A" and rdy: "ready (p_udata c) h" and j: "j < width A" "a \<in> set (cols A j)"
    and k: "k = of_nat j \<or> \<not> k < ncol c"
  shows "\<exists>c'. ll_mov c a k h = Some (False, c') \<and> ll_rel c' A \<and> same_cxt c c'"
  unfolding ll_mov_def
proof (rule locked_rel [OF rel rdy], goal_cases)
  case (1 u1)
  then have inv: "ll_inv rnd (c\<lparr>p_udata := u1\<rparr>) (live u1) A" by (simp add: ll_rel_def)
  from ll_inv_col [OF inv j(1)] have "items_ok rnd (c\<lparr>p_udata := u1\<rparr>) (live u1) A j" by blast
  then obtain it where "heap c a = Some it" "it_col it = of_nat j"
    using j(2) by (auto simp: items_ok_def)
  then show ?case using 1 k by auto
qed

end

section \<open>Clearing a column\<close>

context ll_callbacks
begin

lemma ll_clr_loop_frees:
  assumes "wired c" "ok (p_udata c)" "get_st c (ccol c) = Some s"
    and "dseg (heap c) p xs None" "distinct xs" "length xs \<le> n"
    and "\<And>a. a \<in> set xs \<Longrightarrow>
      \<exists>it. heap c a = Some it \<and> live (p_udata c) a = Some (rnd (it_size it + sizeof_ll_item_hdr))"
  shows "\<exists>u s'. ll_clr_loop n c (hdp xs None) =
      Some (put_st (c\<lparr>p_udata := u, heap := heap c |` (- set xs)\<rparr>) (ccol c) s') \<and>
    live u = live (p_udata c) |` (- set xs) \<and> ok u \<and> owner u = owner (p_udata c)"
  using assms
proof (induction xs arbitrary: c s p n)
  case Nil
  then have "ll_clr_loop n c None = Some (put_st c (ccol c) s)" by (cases n) simp_all
  with Nil.prems(2,3) show ?case by (intro exI [of _ "p_udata c"] exI [of _ s]) simp
next
  case (Cons a xs)
  obtain m where n: "n = Suc m" "length xs \<le> m" using Cons.prems(6) by (cases n) auto
  obtain it where it: "heap c a = Some it" "it_next it = hdp xs None"
      "live (p_udata c) a = Some (rnd (it_size it + sizeof_ll_item_hdr))"
    using Cons.prems(4) Cons.prems(7) [of a] by auto
  obtain u where u: "free a (it_size it + sizeof_ll_item_hdr) (p_udata c) = Some u"
      "live u = (live (p_udata c))(a := None)" "ok u" "owner u = owner (p_udata c)"
    using free_live [OF Cons.prems(2) it(3)] by auto
  let ?c = "put_st (c\<lparr>p_udata := u, heap := (heap c)(a := None)\<rparr>) (ccol c) (s\<lparr>p_first := it_next it\<rparr>)"
  have step: "ll_clr_loop n c (hdp (a # xs) None) = ll_clr_loop m ?c (hdp xs None)"
    using it u n Cons.prems(1,3) by (simp add: free_item_def wired_def)
  have "\<exists>u' s'. ll_clr_loop m ?c (hdp xs None) =
      Some (put_st (?c\<lparr>p_udata := u', heap := heap ?c |` (- set xs)\<rparr>) (ccol ?c) s') \<and>
    live u' = live (p_udata ?c) |` (- set xs) \<and> ok u' \<and> owner u' = owner (p_udata ?c)"
  proof (rule Cons.IH)
    show "get_st ?c (ccol ?c) = Some (s\<lparr>p_first := it_next it\<rparr>)" using Cons.prems(3) by simp
    show "dseg (heap ?c) (Some a) xs None" using Cons.prems(4,5) by auto
    show "\<exists>it. heap ?c b = Some it \<and> live (p_udata ?c) b = Some (rnd (it_size it + sizeof_ll_item_hdr))"
      if "b \<in> set xs" for b using Cons.prems(5) Cons.prems(7) [of b] that u(2) by auto
  qed (use Cons.prems u n in \<open>simp_all add: wired_def\<close>)
  then obtain u' s' where r: "ll_clr_loop m ?c (hdp xs None) =
      Some (put_st (c\<lparr>p_udata := u', heap := (heap c)(a := None) |` (- set xs)\<rparr>) (ccol c) s')"
    "live u' = (live (p_udata c))(a := None) |` (- set xs)" "ok u'" "owner u' = owner (p_udata c)"
    using u by auto
  have restr: "(m :: addr \<rightharpoonup> 'z)(a := None) |` (- set xs) = m |` (- set (a # xs))" for m
    by (auto simp: restrict_map_def)
  have "ll_clr_loop n c (hdp (a # xs) None) =
      Some (put_st (c\<lparr>p_udata := u', heap := heap c |` (- set (a # xs))\<rparr>) (ccol c) s')"
    using step r(1) unfolding restr by simp
  with r(2-4) show ?case unfolding restr by metis
qed

lemma ll_clr_rel:
  assumes "ll_rel c A" "ready (p_udata c) h"
  shows "\<exists>c'. ll_clr c h = Some ((), c') \<and> ll_rel c' (a_clr A) \<and> same_cxt c c' \<and>
      live (p_udata c') = live (p_udata c) |` (- set (scol A))"
proof -
  have inv0: "ll_inv rnd c (live (p_udata c)) A" using assms(1) by (simp add: ll_rel_def)
  from ll_inv_selected [OF inv0] obtain s where s: "get_st c (ccol c) = Some s"
    "p_first s = hdp (scol A) None" "st_count s = of_nat (length (scol A))" "length (scol A) < 2 ^ 32"
    by metis
  have cnt: "unat (st_count s) = length (scol A)" using s(3,4) by (simp add: unat_of_nat_small)
  have "\<exists>c'. ll_locked c h (\<lambda>c. do { s' \<leftarrow> get_st c (ccol c);
       c \<leftarrow> ll_clr_loop (unat (st_count s')) c (p_first s);
       Some ((), put_st c (ccol c) zero_state) }) = Some ((), c') \<and> ll_rel c' (a_clr A) \<and> same_cxt c c' \<and>
      live (p_udata c') = live (p_udata c) |` (- set (scol A))"
  proof (rule locked_live [OF assms], goal_cases)
    case (1 u1)
    let ?c = "c\<lparr>p_udata := u1\<rparr>"
    from 1 have inv: "ll_inv rnd ?c (live u1) A" and w: "wired ?c" "ok u1" by (simp_all add: ll_rel_def)
    note k = ll_invD(1,3) [OF inv]
    from ll_inv_col [OF inv k(1)] have col: "dseg (heap c) None (scol A) None" "distinct (scol A)"
      "items_ok rnd ?c (live u1) A (sel A)" by (auto simp: scol_def)
    then have items: "\<exists>it. heap c a = Some it \<and> live u1 a = Some (rnd (it_size it + sizeof_ll_item_hdr))"
      "state_addr c \<noteq> Some a" if "a \<in> set (scol A)" for a
      using that by (auto simp: items_ok_def scol_def)
    obtain u s' where r: "ll_clr_loop (length (scol A)) ?c (hdp (scol A) None) =
        Some (put_st (?c\<lparr>p_udata := u, heap := heap c |` (- set (scol A))\<rparr>) (ccol c) s')"
      "live u = live u1 |` (- set (scol A))" "ok u" "owner u = owner u1"
      using ll_clr_loop_frees [of ?c s None "scol A" "length (scol A)"] w s col items(1) by auto
    let ?c' = "put_st (?c\<lparr>heap := heap c |` (- set (scol A))\<rparr>) (ccol ?c) zero_state"
    have "ll_inv rnd ?c' (live u) (a_clr A)"
      unfolding a_clr_def
    proof (rule ll_inv_change [OF inv k])
      show "(heap c |` (- set (scol A))) a = heap ?c a \<and> live u a = live u1 a \<and>
          (dat A |` (- set (scol A))) a = dat A a"
        if "i < width A" "i \<noteq> sel A" "a \<in> set (cols A i)" for i a
      proof -
        have "a \<notin> set (scol A)"
          using ll_inv_disjoint [OF inv that(1) k(1) that(2)] that(3) by (auto simp: scol_def)
        then show ?thesis by (simp add: r(2))
      qed
      show "live u a = live u1 a" if "state_addr ?c = Some a" for a
        using items(2) [of a] that by (auto simp: r(2) restrict_map_def)
    qed (simp_all add: col_ok_def zero_state_def)
    then have "ll_rel (put_st (?c\<lparr>p_udata := u, heap := heap c |` (- set (scol A))\<rparr>) (ccol c) zero_state) (a_clr A)"
      using w r by (simp add: ll_rel_def wired_def)
    then show ?case using s r cnt 1(2) by (simp add: same_cxt_def)
  qed
  then show ?thesis using s(1) by (simp add: ll_clr_def)
qed

end

section \<open>Initialising and destroying\<close>

definition ll_empty :: "nat \<Rightarrow> 'a ll_abs" where
  "ll_empty n = \<lparr>cols = (\<lambda>_. []), cur = (\<lambda>_. None), sel = 0, width = n, dat = Map.empty\<rparr>"

lemma ll_inv_initial:
  assumes "0 < n" "n < 2 ^ 8" "lv a = Some (rnd (ucast (of_nat n :: u8) * sizeof_ll_state))"
  shows "ll_inv rnd (c\<lparr>mode := LL_MODE_VECTOR, ncol := of_nat n, addr_limit := l, ccol := 0,
     p_udata := u, state := Some (a, replicate n zero_state)\<rparr>) lv (ll_empty n)"
  using assms by (auto simp: ll_inv_def ll_shape_def ll_empty_def get_st_def state_addr_def items_ok_def
    col_ok_def zero_state_def unat_of_nat_small)

context ll_callbacks
begin

lemma ll_init_rel:
  assumes w: "wired c" "ready (p_udata c) 0" "state c = None" and n: "0 < n" "n < 2 ^ 8"
    and ft: "fits (ucast (of_nat n :: u8) * sizeof_ll_state)"
  shows "\<exists>r c'. ll_init c LL_MODE_VECTOR (of_nat n) l = Some (r, c') \<and> wired c' \<and> ok (p_udata c') \<and>
    owner (p_udata c') = owner (p_udata c) \<and> self c' = self c \<and> (if r then ll_inv rnd c' (live (p_udata c')) (ll_empty n)
                     else state c' = None \<and> live (p_udata c') = live (p_udata c))"
proof -
  let ?sz = "ucast (of_nat n :: u8) * sizeof_ll_state"
  let ?c = "\<lambda>u. c\<lparr>p_udata := u, mode := LL_MODE_VECTOR, ncol := of_nat n, addr_limit := l, ccol := 0\<rparr>"
  have "unat (of_nat n :: u8) = n" using n by (simp add: unat_of_nat_small)
  then have init: "ll_init c LL_MODE_VECTOR (of_nat n) l = ll_locked c 0 (\<lambda>c. do {
        let c = c\<lparr>mode := LL_MODE_VECTOR, ncol := of_nat n, addr_limit := l, ccol := 0\<rparr>;
        al \<leftarrow> p_alloc c;
        (p, u) \<leftarrow> al ?sz l (p_udata c);
        let c = c\<lparr>p_udata := u, state := map_option (\<lambda>a. (a, replicate n zero_state)) p\<rparr>;
        Some (p \<noteq> None, c) })"
    using w(3) by (simp add: ll_init_def)
  let ?Q = "\<lambda>r c' lv. self c' = self c \<and> (if r then ll_inv rnd c' lv (ll_empty n)
      else state c' = None \<and> lv = live (p_udata c))"
  show ?thesis unfolding init
  proof (rule locked_gen [where Q = ?Q, OF w(1,2)], goal_cases)
    case (1 u1)
    obtain p u where pu: "alloc ?sz l u1 = Some (p, u)" using alloc_returns [OF 1(1) ft] by blast
    let ?c' = "(?c u1)\<lparr>p_udata := u, state := map_option (\<lambda>a. (a, replicate n zero_state)) p\<rparr>"
    have ok: "ok u" "owner u = owner u1"
      using alloc_Some [OF 1(1)] alloc_None [OF 1(1)] pu by (cases p; blast)+
    have lv: "if p \<noteq> None then ll_inv rnd ?c' (live u) (ll_empty n)
        else state ?c' = None \<and> live u = live (p_udata c)"
    proof (cases p)
      case None
      then show ?thesis using alloc_None [OF 1(1)] pu 1(2) by simp
    next
      case (Some a)
      then have "live u a = Some (rnd ?sz)" using alloc_Some [OF 1(1)] pu by simp
      with Some ll_inv_initial [OF n, where lv = "live u" and a = a and rnd = rnd and c = "?c u1" and l = l and u = u]
      show ?thesis by simp
    qed
    show ?case using pu w(1) ok lv by (auto simp: wired_def same_cxt_def)
  qed simp
qed

lemma ll_uninit_cols_rel:
  assumes "ll_rel c A" "ready (p_udata c) h" "i + n = width A" "\<And>k. k < i \<Longrightarrow> cols A k = []"
  shows "\<exists>c' A'. ll_uninit_cols n i h c = Some ((), c') \<and> ll_rel c' A' \<and> same_cxt c c' \<and> (\<forall>k < width A. cols A' k = []) \<and> width A' = width A \<and>
    live (p_udata c') = live (p_udata c) |` (- (\<Union>k < width A. set (cols A k)))"
  using assms
proof (induction n arbitrary: i c A)
  case 0
  then have "live (p_udata c) = live (p_udata c) |` (- (\<Union>k < width A. set (cols A k)))" by auto
  with 0 show ?case by (auto intro!: exI [of _ A])
next
  case (Suc n)
  let ?A = "a_clr (A\<lparr>sel := i\<rparr>)"
  obtain c1 where 1: "ll_col c (of_nat i) h = Some ((), c1)" "ll_rel c1 (A\<lparr>sel := i\<rparr>)" "same_cxt c c1"
      "live (p_udata c1) = live (p_udata c)"
    using ll_col_rel [OF Suc.prems(1,2), of i] Suc.prems(3) by auto
  have r1: "ready (p_udata c1) h" using ready_same [OF 1(3,2) Suc.prems(2)] .
  obtain c2 where 2: "ll_clr c1 h = Some ((), c2)" "ll_rel c2 ?A" "same_cxt c1 c2"
      "live (p_udata c2) = live (p_udata c1) |` (- set (cols A i))"
    using ll_clr_rel [OF 1(2) r1] by (auto simp: scol_def)
  have r2: "ready (p_udata c2) h" using ready_same [OF 2(3,2) r1] .
  have clr: "Suc i + n = width ?A" "\<And>k. k < Suc i \<Longrightarrow> cols ?A k = []"
    using Suc.prems(3,4) by (auto simp: a_clr_def less_Suc_eq)
  obtain c3 A3 where 3: "ll_uninit_cols n (Suc i) h c2 = Some ((), c3)" "ll_rel c3 A3" "same_cxt c2 c3"
      "\<forall>k < width ?A. cols A3 k = []" "width A3 = width ?A"
      "live (p_udata c3) = live (p_udata c2) |` (- (\<Union>k < width ?A. set (cols ?A k)))"
    using Suc.IH [OF 2(2) r2 clr] by blast
  have "(\<Union>k < width A. set (cols A k)) = set (cols A i) \<union> (\<Union>k < width ?A. set (cols ?A k))"
    using Suc.prems(3) by (auto simp: a_clr_def scol_def split: if_splits intro!: bexI [of _ i])
  then have "live (p_udata c3) = live (p_udata c) |` (- (\<Union>k < width A. set (cols A k)))"
    using 3(6) 2(4) 1(4) by (simp add: Int_commute)
  moreover have "same_cxt c c3" using 1(3) 2(3) 3(3) same_cxt_trans by blast
  ultimately show ?case using 1 2 3 by (auto simp: a_clr_def)
qed

text \<open>Destroying the list releases every record of every column and the column states, and
  nothing else.\<close>

lemma ll_uninit_rel:
  assumes "ll_rel c A" "ready (p_udata c) 0" "state_addr c = Some sa"
  shows "\<exists>c'. ll_uninit c = Some ((), c') \<and> state c' = None \<and> wired c' \<and> ok (p_udata c') \<and>
    owner (p_udata c') = owner (p_udata c) \<and>
    live (p_udata c') = live (p_udata c) |` (- insert sa (\<Union>k < width A. set (cols A k)))"
proof -
  have inv: "ll_inv rnd c (live (p_udata c)) A" and w: "wired c" using assms(1) by (simp_all add: ll_rel_def)
  obtain hm u1 where 1: "ll_lock c 0 = Some (hm, c\<lparr>p_udata := u1\<rparr>)" "inside (p_udata c) hm u1"
      "live u1 = live (p_udata c)"
    using lock_in [OF assms(2) _ refl] w by (auto simp: wired_def)
  let ?c1 = "c\<lparr>p_udata := u1\<rparr>"
  have rel1: "ll_rel ?c1 A" using 1 w inv by (simp add: ll_rel_def wired_def inside_def)
  have "owner (p_udata c) = None" using assms(2) owner_pos by (auto simp: ready_def)
  then have rdy1: "ready (p_udata ?c1) hm" using 1(2) by (auto simp: ready_def inside_def)
  obtain c2 A2 where 2: "ll_uninit_cols (width A) 0 hm ?c1 = Some ((), c2)" "ll_rel c2 A2"
      "same_cxt ?c1 c2" "width A2 = width A"
      "live (p_udata c2) = live (p_udata c) |` (- (\<Union>k < width A. set (cols A k)))"
    using ll_uninit_cols_rel [OF rel1 rdy1, of 0 "width A"] 1(3) by auto
  have inv2: "ll_inv rnd c2 (live (p_udata c2)) A2" and w2: "wired c2" "ok (p_udata c2)"
    using 2(2) by (simp_all add: ll_rel_def)
  have sa: "state_addr c2 = Some sa" using 2(3) assms(3) by (simp add: same_cxt_def)
  then obtain ss where ss: "state c2 = Some (sa, ss)" by (auto simp: state_addr_def)
  have "live (p_udata c2) sa = Some (rnd (ucast (ncol c2) * sizeof_ll_state))"
    using inv2 sa by (auto simp: ll_inv_def)
  then obtain u3 where 3: "free sa (ucast (ncol c2) * sizeof_ll_state) (p_udata c2) = Some u3"
      "live u3 = (live (p_udata c2))(sa := None)" "ok u3" "owner u3 = owner (p_udata c2)"
    using free_live [OF w2(2)] by blast
  let ?c3 = "c2\<lparr>p_udata := u3, state := None, ncol := 0, ccol := 0\<rparr>"
  have "inside (p_udata c) hm u3" using 1(2) 2(3) 3 by (simp add: inside_def same_cxt_def)
  then obtain u4 where 4: "ll_unlock ?c3 hm = Some (?c3\<lparr>p_udata := u4\<rparr>)" "ok u4"
      "owner u4 = owner (p_udata c)" "live u4 = live u3"
    using unlock_out [of "p_udata c" hm u3 ?c3] w2 by (auto simp: wired_def)
  have "unat (ncol c) = width A" using ll_invD(2,4) [OF inv] by (simp add: unat_of_nat_small)
  then have "ll_uninit c = Some ((), ?c3\<lparr>p_udata := u4\<rparr>)"
    using assms(3) 1 2 3 4(1) w2 ss by (auto simp: ll_uninit_def state_addr_def wired_def)
  moreover have "live u4 = live (p_udata c) |` (- insert sa (\<Union>k < width A. set (cols A k)))"
    using 4(4) 3(2) 2(5) by (auto simp: restrict_map_def)
  ultimately show ?thesis using 4(2,3) w2 by (simp add: wired_def)
qed

end

section \<open>Walking a column\<close>

text \<open>The loop of the clients, \<open>p = first(); while(p) { ...; p = next(); }\<close>, collecting the records
  it visits; \<open>n\<close> bounds the number of rounds.\<close>

fun ll_walk :: "nat \<Rightarrow> (addr \<times> u32) option \<Rightarrow> u64 \<Rightarrow> ('a, 'u) ll_context \<Rightarrow>
    (addr list \<times> ('a, 'u) ll_context) option" where
  "ll_walk 0 p h c = None"
| "ll_walk (Suc n) None h c = Some ([], c)"
| "ll_walk (Suc n) (Some (a, sz)) h c = do {
     (p, c) \<leftarrow> ll_next c h;
     (as, c) \<leftarrow> ll_walk n p h c;
     Some (a # as, c) }"

definition ll_enum :: "nat \<Rightarrow> u64 \<Rightarrow> ('a, 'u) ll_context \<Rightarrow> (addr list \<times> ('a, 'u) ll_context) option" where
  "ll_enum n h c = do { (p, c) \<leftarrow> ll_first c h; ll_walk n p h c }"

context ll_callbacks
begin

lemma ll_rel_distinct: "ll_rel c A \<Longrightarrow> distinct (scol A)"
  by (simp add: ll_rel_def ll_inv_def ll_shape_def scol_def)

lemma ll_walk_rel:
  assumes "ll_rel c A" "ready (p_udata c) h" "scol A = xs @ a # ys" "cur A (sel A) = Some a" "length ys + 1 < n"
  shows "\<exists>c'. ll_walk n (sized A (Some a)) h c = Some (a # ys, c') \<and>
    ll_rel c' (cursor A (Some (last (a # ys)))) \<and> same_cxt c c'"
  using assms
proof (induction ys arbitrary: xs a n c A)
  case Nil
  have "distinct (scol A)" using ll_rel_distinct [OF Nil.prems(1)] .
  then have "a_step after A = None" using Nil.prems(3,4) by (simp add: a_step_def)
  then obtain c' where c': "ll_next c h = Some (None, c')" "ll_rel c' A" "same_cxt c c'"
    using ll_next_rel [OF Nil.prems(1,2)] by (auto simp: a_move_def sized_def)
  have "cursor A (Some a) = A" using Nil.prems(4) by (simp add: cursor_def fun_upd_idem)
  moreover obtain m where "n = Suc (Suc m)" using Nil.prems(5) by (metis add.commute list.size(3) add_0 less_natE plus_1_eq_Suc)
  ultimately show ?case using c' by (simp add: sized_def)
next
  case (Cons b ys)
  have d: "distinct (scol A)" using ll_rel_distinct [OF Cons.prems(1)] .
  then have st: "a_step after A = Some b" using Cons.prems(3,4) by (simp add: a_step_def)
  then obtain c1 where c1: "ll_next c h = Some (sized A (Some b), c1)" "ll_rel c1 (cursor A (Some b))" "same_cxt c c1"
    using ll_next_rel [OF Cons.prems(1,2)] by (auto simp: a_move_def)
  obtain m where m: "n = Suc m" "length ys + 1 < m" using Cons.prems(5) by (cases n) auto
  let ?A = "cursor A (Some b)"
  have A: "scol ?A = (xs @ [a]) @ b # ys" "cur ?A (sel ?A) = Some b" "sized ?A = sized A"
      "cursor ?A p = cursor A p" for p
    using Cons.prems(3) by (simp_all add: cursor_def scol_def sized_def fun_eq_iff)
  obtain c2 where "ll_walk m (sized A (Some b)) h c1 = Some (b # ys, c2)"
      "ll_rel c2 (cursor A (Some (last (b # ys))))" "same_cxt c1 c2"
    using Cons.IH [OF c1(2) ready_same [OF c1(3,2) Cons.prems(2)] A(1,2) m(2)] unfolding A(3,4) by blast
  then show ?case using c1 m same_cxt_trans [OF c1(3)] by (simp add: sized_def)
qed

text \<open>The loop visits every record of the selected column once, in order.\<close>

lemma ll_enum_rel:
  assumes "ll_rel c A" "ready (p_udata c) h" "length (scol A) < n"
  shows "\<exists>c'. ll_enum n h c = Some (scol A, c') \<and> ll_rel c' (a_last A) \<and> same_cxt c c'"
proof -
  obtain c1 where c1: "ll_first c h = Some (sized A (hdp (scol A) None), c1)" "ll_rel c1 (a_first A)" "same_cxt c c1"
    using ll_first_rel [OF assms(1,2)] by blast
  show ?thesis
  proof (cases "scol A")
    case Nil
    moreover obtain m where "n = Suc m" using assms(3) by (cases n) auto
    ultimately show ?thesis using c1 by (simp add: ll_enum_def sized_def a_first_def a_last_def)
  next
    case (Cons a ys)
    let ?A = "cursor A (Some a)"
    have A: "scol ?A = [] @ a # ys" "cur ?A (sel ?A) = Some a" "sized ?A = sized A" "cursor ?A p = cursor A p" for p
      using Cons by (simp_all add: cursor_def scol_def sized_def fun_eq_iff)
    have rel: "ll_rel c1 ?A" using c1(2) Cons by (simp add: a_first_def)
    obtain m where m: "n = Suc m" using assms(3) by (cases n) auto
    show ?thesis
    proof (cases "length ys + 1 < n")
      case True
      obtain c2 where "ll_walk n (sized A (Some a)) h c1 = Some (a # ys, c2)"
          "ll_rel c2 (cursor A (Some (last (a # ys))))" "same_cxt c1 c2"
        using ll_walk_rel [OF rel ready_same [OF c1(3,2) assms(2)] A(1,2) True] unfolding A(3,4) by blast
      then show ?thesis using c1 Cons same_cxt_trans [OF c1(3)]
        by (simp add: ll_enum_def a_last_def lastp_def)
    qed (use assms(3) Cons in simp)
  qed
qed

end

end
