(* ===== verification/Zone.thy ===== *)
theory Zone
  imports Mutex
begin

text \<open>
  The zone allocator of core/mem/zone.c and zone.h. Requests are rounded to a power of two (or
  to whole pages) and served from the zone of their size: a chain of zone pages, each an array
  of 63 entries, each entry one data page cut into equal objects with a bitmap of the used ones,
  or one object of whole pages.

  The chain of a zone is the list of its pages in the order of the \<open>next\<close> pointers; NULL data
  is address 0, as the code compares addresses with it. A result \<open>None\<close> is a call that does not
  return: a lock that waits, or a loop that never ends.
\<close>

section \<open>Data\<close>

definition ZONE_PAGE_SIZE :: nat where "ZONE_PAGE_SIZE = 4096"
definition ZONE_MIN_ALLOC :: u32 where "ZONE_MIN_ALLOC = 16"
definition ZONE_MAX_ENTRIES :: nat where "ZONE_MAX_ENTRIES = 63"
definition ZONE_BITMAP_UNIT_BITS :: nat where "ZONE_BITMAP_UNIT_BITS = 64"
definition ZONE_MAX_ZONES :: nat where "ZONE_MAX_ZONES = 512"
definition ZONE_DEFAULT_LIMIT :: u64 where "ZONE_DEFAULT_LIMIT = 0xffffffffffffffff"

text \<open>The union of the bitmap and \<open>data_size\<close> is the list of four units; \<open>data_size\<close> is
  its first unit.\<close>

record zone_entry =
  bitmap :: "u64 list"
  ze_data :: addr
  ze_objects :: u32

definition data_size :: "zone_entry \<Rightarrow> u64" where "data_size e = bitmap e ! 0"

definition set_data_size :: "u64 \<Rightarrow> zone_entry \<Rightarrow> zone_entry" where
  "set_data_size n e = e\<lparr>bitmap := (bitmap e)[0 := n]\<rparr>"

record zone_page =
  zp_addr :: addr          \<comment> \<open>address of the page itself\<close>
  zp_objects :: u32
  zp_object_size :: u64
  zp_array :: "zone_entry list"

record 'u zone_context =
  pf_page_alloc :: "(u32 \<Rightarrow> u64 \<Rightarrow> 'u \<Rightarrow> ptr \<times> 'u) option"
  pf_page_free :: "(addr \<Rightarrow> u32 \<Rightarrow> 'u \<Rightarrow> 'u) option"
  pf_mutex_lock :: "(u64 \<Rightarrow> 'u \<Rightarrow> (u64 \<times> 'u) option) option"
  pf_mutex_unlock :: "(u64 \<Rightarrow> 'u \<Rightarrow> 'u option) option"
  zones :: "(addr \<times> zone_page list list) option"
  z_limit :: u64
  user_data :: 'u

text \<open>What \<open>_clear\<close> leaves behind: an entry, a page.\<close>

definition clear_entry :: zone_entry where
  "clear_entry = \<lparr>bitmap = replicate 4 0, ze_data = 0, ze_objects = 0\<rparr>"

definition clear_page :: "addr \<Rightarrow> zone_page" where
  "clear_page a = \<lparr>zp_addr = a, zp_objects = 0, zp_object_size = 0,
     zp_array = replicate ZONE_MAX_ENTRIES clear_entry\<rparr>"

section \<open>Sizes\<close>

function align_loop :: "u32 \<Rightarrow> u32 \<Rightarrow> u32" where
  "align_loop r sz = (if r \<noteq> 0 \<and> r AND sz = 0 then align_loop (drop_bit 1 r) sz else r)"
  by pat_completeness auto
termination
proof (relation "measure (\<lambda>(r, sz). unat r)", goal_cases)
  case (2 r sz)
  then have "0 < unat r" by (simp add: unat_gt_0)
  moreover have "unat (drop_bit 1 r) = unat r div 2"
    by (simp only: unat_drop_bit_eq) (simp add: drop_bit_eq_div)
  ultimately show ?case by simp
qed simp

declare align_loop.simps [simp del]

definition align :: "u32 \<Rightarrow> u32" where
  "align sz =
     (if sz \<noteq> 0 \<and> sz < ZONE_MIN_ALLOC then ZONE_MIN_ALLOC
      else if sz > 4096 then
        (sz div 4096 + (if sz mod 4096 \<noteq> 0 then 1 else 0)) * 4096
      else if sz \<noteq> 0 \<and> sz < 4096 then
        (let r = align_loop 4096 sz
         in if sz AND NOT r \<noteq> 0 then push_bit 1 r else r)
      else sz)"

text \<open>The loop of \<open>_bit_number\<close> does not end on 0.\<close>

partial_function (option) bit_number_loop :: "u32 \<Rightarrow> u32 \<Rightarrow> u32 \<Rightarrow> u32 option" where
  "bit_number_loop mask_h h2l_pos x =
     (if mask_h AND x = 0 then bit_number_loop (drop_bit 1 mask_h) (h2l_pos + 1) x
      else Some h2l_pos)"

definition bit_number :: "u32 \<Rightarrow> u32 option" where
  "bit_number x = do { h \<leftarrow> bit_number_loop 0x80000000 0 x; Some (32 - h) }"

text \<open>The zone of a size and its rounded size; no zone for index 0 and beyond the table.\<close>

definition zone_page_of :: "u32 \<Rightarrow> (nat option \<times> u32) option" where
  "zone_page_of sz = do {
     let aligned_size = align sz;
     zone_index \<leftarrow> bit_number aligned_size;
     Some (if zone_index \<noteq> 0 \<and> unat zone_index < ZONE_MAX_ZONES
           then Some (unat zone_index) else None, aligned_size) }"

section \<open>The lock\<close>

definition zone_lock :: "'u zone_context \<Rightarrow> u64 \<Rightarrow> (u64 \<times> 'u zone_context) option" where
  "zone_lock c h =
     (case pf_mutex_lock c of
        None \<Rightarrow> Some (0, c)
      | Some f \<Rightarrow> do { (r, u) \<leftarrow> f h (user_data c); Some (r, c\<lparr>user_data := u\<rparr>) })"

definition zone_unlock :: "'u zone_context \<Rightarrow> u64 \<Rightarrow> 'u zone_context option" where
  "zone_unlock c h =
     (case pf_mutex_unlock c of
        None \<Rightarrow> Some c
      | Some f \<Rightarrow> do { u \<leftarrow> f h (user_data c); Some (c\<lparr>user_data := u\<rparr>) })"

definition page_alloc :: "'u zone_context \<Rightarrow> u32 \<Rightarrow> u64 \<Rightarrow> (ptr \<times> 'u zone_context) option" where
  "page_alloc c n lim = do {
     f \<leftarrow> pf_page_alloc c;
     let (p, u) = f n lim (user_data c);
     Some (p, c\<lparr>user_data := u\<rparr>) }"

definition page_free :: "'u zone_context \<Rightarrow> addr \<Rightarrow> u32 \<Rightarrow> 'u zone_context option" where
  "page_free c a n = do { f \<leftarrow> pf_page_free c; Some (c\<lparr>user_data := f a n (user_data c)\<rparr>) }"

section \<open>Initialisation\<close>

definition zone_init :: "'u zone_context \<Rightarrow> (int \<times> 'u zone_context) option" where
  "zone_init c = do {
     c \<leftarrow> (if pf_page_alloc c \<noteq> None \<and> pf_page_free c \<noteq> None \<and> zones c = None then do {
            (p, c) \<leftarrow> page_alloc c 1 (z_limit c);
            Some (c\<lparr>zones := map_option (\<lambda>a. (a, [])) p\<rparr>) }
          else Some c);
     Some (case zones c of
         None \<Rightarrow> (-1, c)
       | Some (a, zs) \<Rightarrow> (0, c\<lparr>zones := Some (a, replicate ZONE_MAX_ZONES [])\<rparr>)) }"

section \<open>Allocation\<close>

definition unit_mask :: "nat \<Rightarrow> u64" where
  "unit_mask b = drop_bit b (push_bit (ZONE_BITMAP_UNIT_BITS - 1) 1)"

text \<open>The first clear bit of a bitmap, with its unit and its position in the unit.\<close>

function entry_seek :: "u64 list \<Rightarrow> nat \<Rightarrow> nat \<Rightarrow> nat \<Rightarrow> nat \<Rightarrow> (nat \<times> nat \<times> nat) option" where
  "entry_seek bm max_bits bitno unit unit_bit =
     (if bitno < max_bits then
        (let unit' = (if unit_bit \<ge> ZONE_BITMAP_UNIT_BITS then unit + 1 else unit);
             unit_bit' = (if unit_bit \<ge> ZONE_BITMAP_UNIT_BITS then 0 else unit_bit)
         in if unit' < length bm then
              (if bm ! unit' AND unit_mask unit_bit' = 0 then Some (bitno, unit', unit_bit')
               else entry_seek bm max_bits (bitno + 1) unit' (unit_bit' + 1))
            else None)
      else Some (bitno, unit, unit_bit))"
  by pat_completeness auto
termination by (relation "measure (\<lambda>(bm, m, b, u, ub). m - b)") auto

declare entry_seek.simps [simp del]

definition zone_entry_alloc :: "'u zone_context \<Rightarrow> zone_entry \<Rightarrow> u32 \<Rightarrow> u64 \<Rightarrow>
    (ptr \<times> zone_entry \<times> 'u zone_context) option" where
  "zone_entry_alloc c e aligned_size lim =
     (if unat aligned_size < ZONE_PAGE_SIZE then do {
        let max_bits = ZONE_PAGE_SIZE div unat aligned_size;
        (bitno, unit, unit_bit) \<leftarrow> entry_seek (bitmap e) max_bits 0 0 0;
        if bitno < max_bits then do {
          (data, c) \<leftarrow> (if ze_data e = 0 then do {
                           (p, c) \<leftarrow> page_alloc c 1 lim;
                           Some (case p of None \<Rightarrow> 0 | Some a \<Rightarrow> a, c) }
                        else Some (ze_data e, c));
          let e = e\<lparr>ze_data := data\<rparr>;
          if data \<noteq> 0 then
            Some (Some (data + bitno * unat aligned_size),
                  e\<lparr>bitmap := (bitmap e)[unit := bitmap e ! unit OR unit_mask unit_bit],
                    ze_objects := ze_objects e + 1\<rparr>, c)
          else Some (None, e, c) }
        else Some (None, e, c) }
      else if ze_objects e = 0 then do {
        (data, c) \<leftarrow> (if ze_data e = 0 then do {
                         (p, c) \<leftarrow> page_alloc c (aligned_size div 4096) lim;
                         Some (case p of None \<Rightarrow> 0 | Some a \<Rightarrow> a, c) }
                      else Some (ze_data e, c));
        let e = e\<lparr>ze_data := data\<rparr>;
        if data \<noteq> 0 then
          Some (Some data, (set_data_size (ucast aligned_size) e)\<lparr>ze_objects := 1\<rparr>, c)
        else Some (None, e, c) }
      else Some (None, e, c))"

text \<open>The loop over the pages of a zone: the full pages it passes and the rest of the chain.
  A page added at the end has no objects, so the loop ends at it.\<close>

fun seek_page :: "u32 \<Rightarrow> zone_page list \<Rightarrow> zone_page list \<times> zone_page list" where
  "seek_page max_objects [] = ([], [])"
| "seek_page max_objects (p # ps) =
     (if zp_objects p = max_objects
      then (let (full, rest) = seek_page max_objects ps in (p # full, rest))
      else ([], p # ps))"

text \<open>The first entry of a page with room.\<close>

fun seek_entry :: "u32 \<Rightarrow> nat \<Rightarrow> zone_entry list \<Rightarrow> nat option" where
  "seek_entry m i [] = None"
| "seek_entry m i (e # es) = (if ze_objects e < m then Some i else seek_entry m (i + 1) es)"

definition zone_page_alloc_in :: "'u zone_context \<Rightarrow> zone_page \<Rightarrow> u32 \<Rightarrow> u64 \<Rightarrow>
    (ptr \<times> zone_page \<times> 'u zone_context) option" where
  "zone_page_alloc_in c p aligned_size lim =
     (let max_entry_objects = (if unat aligned_size < ZONE_PAGE_SIZE then 4096 div aligned_size else 1)
      in case seek_entry max_entry_objects 0 (zp_array p) of
           None \<Rightarrow> Some (None, p, c)
         | Some i \<Rightarrow> do {
             (r, e, c) \<leftarrow> zone_entry_alloc c (zp_array p ! i) aligned_size lim;
             let p = p\<lparr>zp_array := (zp_array p)[i := e]\<rparr>;
             Some (r, if r = None then p else p\<lparr>zp_objects := zp_objects p + 1\<rparr>, c) })"

definition get_chain :: "'u zone_context \<Rightarrow> nat \<Rightarrow> zone_page list option" where
  "get_chain c i = do { (a, zs) \<leftarrow> zones c; if i < length zs then Some (zs ! i) else None }"

definition set_chain :: "'u zone_context \<Rightarrow> nat \<Rightarrow> zone_page list \<Rightarrow> 'u zone_context" where
  "set_chain c i ps = c\<lparr>zones := map_option (\<lambda>(a, zs). (a, zs[i := ps])) (zones c)\<rparr>"

definition zone_page_alloc :: "'u zone_context \<Rightarrow> nat \<Rightarrow> u32 \<Rightarrow> u64 \<Rightarrow>
    (ptr \<times> 'u zone_context) option" where
  "zone_page_alloc c idx aligned_size lim = do {
     let max_objects = (if unat aligned_size < ZONE_PAGE_SIZE
                        then (63 * 4096) div aligned_size else of_nat ZONE_MAX_ENTRIES);
     (mutex_handle, c) \<leftarrow> zone_lock c 0;
     chain \<leftarrow> get_chain c idx;
     let (full, rest) = seek_page max_objects chain;
     (rest, c) \<leftarrow> (case rest of
         p # ps \<Rightarrow> Some (rest, c)
       | [] \<Rightarrow> do {
           (q, c) \<leftarrow> page_alloc c 1 lim;
           Some (case q of None \<Rightarrow> []
                 | Some a \<Rightarrow> [(clear_page a)\<lparr>zp_object_size := ucast aligned_size\<rparr>], c) });
     (r, c) \<leftarrow> (case rest of
         [] \<Rightarrow> Some (None, c)
       | p # ps \<Rightarrow> do {
           (r, p, c) \<leftarrow> zone_page_alloc_in c p aligned_size lim;
           Some (r, set_chain c idx (full @ p # ps)) });
     c \<leftarrow> zone_unlock c mutex_handle;
     Some (r, c) }"

definition zone_alloc :: "'u zone_context \<Rightarrow> u32 \<Rightarrow> u64 \<Rightarrow> (ptr \<times> 'u zone_context) option" where
  "zone_alloc c sz lim = do {
     (pp_zone, aligned_size) \<leftarrow> zone_page_of sz;
     (case pp_zone of
        None \<Rightarrow> Some (None, c)
      | Some idx \<Rightarrow> do {
          chain \<leftarrow> get_chain c idx;
          (go, c) \<leftarrow> (if chain = [] then do {
               (q, c) \<leftarrow> page_alloc c 1 lim;
               (case q of
                  None \<Rightarrow> Some (False, c)
                | Some a \<Rightarrow> do {
                    (mutex_handle, c) \<leftarrow> zone_lock c 0;
                    let c = set_chain c idx [(clear_page a)\<lparr>zp_object_size := ucast aligned_size\<rparr>];
                    c \<leftarrow> zone_unlock c mutex_handle;
                    Some (True, c) }) }
             else Some (True, c));
          if go then zone_page_alloc c idx aligned_size lim else Some (None, c) }) }"

section \<open>Release and verification\<close>

text \<open>The first entry of a chain whose first data page contains \<open>ptr\<close>: page and entry number.\<close>

definition entry_holds :: "addr \<Rightarrow> zone_entry \<Rightarrow> bool" where
  "entry_holds p e \<longleftrightarrow> p \<ge> ze_data e \<and> p < ze_data e + ZONE_PAGE_SIZE"

fun find_entry :: "addr \<Rightarrow> nat \<Rightarrow> zone_entry list \<Rightarrow> nat option" where
  "find_entry p i [] = None"
| "find_entry p i (e # es) = (if entry_holds p e then Some i else find_entry p (i + 1) es)"

fun find_slot :: "addr \<Rightarrow> nat \<Rightarrow> zone_page list \<Rightarrow> (nat \<times> nat) option" where
  "find_slot p j [] = None"
| "find_slot p j (g # gs) =
     (case find_entry p 0 (zp_array g) of
        Some i \<Rightarrow> Some (j, i)
      | None \<Rightarrow> find_slot p (j + 1) gs)"

text \<open>\<open>_bitmap_unit_bit\<close>: the unit of a bitno and its position in the unit.\<close>

definition bitmap_unit_bit :: "u32 \<Rightarrow> nat \<Rightarrow> (nat \<times> nat) option" where
  "bitmap_unit_bit aligned_size bitno =
     (if bitno < ZONE_PAGE_SIZE div unat aligned_size
      then Some (bitno div ZONE_BITMAP_UNIT_BITS, bitno mod ZONE_BITMAP_UNIT_BITS) else None)"

text \<open>The unit and position of an object in its entry, when its bit is set; \<open>bit\<close> is an
  unsigned char.\<close>

definition object_bit :: "addr \<Rightarrow> u32 \<Rightarrow> zone_entry \<Rightarrow> (nat \<times> nat) option" where
  "object_bit p aligned_size e = do {
     (unit, bitno) \<leftarrow> bitmap_unit_bit aligned_size ((p - ze_data e) div unat aligned_size mod 256);
     if bitmap e ! unit AND unit_mask bitno \<noteq> 0 then Some (unit, bitno) else None }"

definition zone_free :: "'u zone_context \<Rightarrow> addr \<Rightarrow> u32 \<Rightarrow> (int \<times> 'u zone_context) option" where
  "zone_free c p sz = do {
     (pp_zone, aligned_size) \<leftarrow> zone_page_of sz;
     (case pp_zone of
        None \<Rightarrow> Some (1, c)
      | Some idx \<Rightarrow> do {
          (mutex_handle, c) \<leftarrow> zone_lock c 0;
          chain \<leftarrow> get_chain c idx;
          (r, c) \<leftarrow> (case find_slot p 0 chain of
              None \<Rightarrow> Some (1, c)
            | Some (j, i) \<Rightarrow>
                (let g = chain ! j; e = zp_array g ! i;
                     update = (\<lambda>e' c. set_chain c idx (chain[j := g\<lparr>zp_array := (zp_array g)[i := e'],
                                                    zp_objects := zp_objects g - 1\<rparr>]))
                 in if unat aligned_size < ZONE_PAGE_SIZE then
                      (case object_bit p aligned_size e of
                         Some (unit, bitno) \<Rightarrow> Some (0, update
                           (e\<lparr>bitmap := (bitmap e)[unit := bitmap e ! unit AND NOT (unit_mask bitno)],
                              ze_objects := ze_objects e - 1\<rparr>) c)
                       | None \<Rightarrow> Some (1, c))
                    else if ze_objects e \<noteq> 0 \<and> data_size e = ucast aligned_size then do {
                      c \<leftarrow> page_free c (ze_data e) (aligned_size div 4096);
                      Some (0, update ((set_data_size 0 e)\<lparr>ze_data := 0, ze_objects := 0\<rparr>) c) }
                    else Some (1, c)));
          c \<leftarrow> zone_unlock c mutex_handle;
          Some (r, c) }) }"

definition zone_verify :: "'u zone_context \<Rightarrow> addr \<Rightarrow> u32 \<Rightarrow> (int \<times> 'u zone_context) option" where
  "zone_verify c p sz = do {
     (pp_zone, aligned_size) \<leftarrow> zone_page_of sz;
     (case pp_zone of
        None \<Rightarrow> Some (0, c)
      | Some idx \<Rightarrow> do {
          (mutex_handle, c) \<leftarrow> zone_lock c 0;
          chain \<leftarrow> get_chain c idx;
          let r = (case find_slot p 0 chain of
              None \<Rightarrow> 0
            | Some (j, i) \<Rightarrow>
                (let e = zp_array (chain ! j) ! i
                 in if unat aligned_size < ZONE_PAGE_SIZE
                    then (if object_bit p aligned_size e \<noteq> None then 1 else 0)
                    else (if ze_objects e \<noteq> 0 \<and> data_size e = ucast aligned_size then 1 else 0)));
          c \<leftarrow> zone_unlock c mutex_handle;
          Some (r, c) }) }"

section \<open>Destruction\<close>

text \<open>The inner loop releases the data of the entries from \<open>idx\<close> on; \<open>idx\<close> is not reset between
  pages, so only the first page of a chain has its entries visited.\<close>

fun destroy_entries :: "'u zone_context \<Rightarrow> u64 \<Rightarrow> zone_entry list \<Rightarrow> 'u zone_context option" where
  "destroy_entries c object_size [] = Some c"
| "destroy_entries c object_size (e # es) = do {
     c \<leftarrow> (if ze_data e \<noteq> 0
          then page_free c (ze_data e)
                 (if object_size > 4096 then ucast (data_size e div 4096) else 1)
          else Some c);
     destroy_entries c object_size es }"

fun destroy_zone_page :: "'u zone_context \<Rightarrow> nat \<Rightarrow> u64 \<Rightarrow> zone_page list \<Rightarrow> 'u zone_context option" where
  "destroy_zone_page c idx object_size [] = Some c"
| "destroy_zone_page c idx object_size (g # gs) = do {
     c \<leftarrow> destroy_entries c object_size (drop idx (zp_array g));
     c \<leftarrow> page_free c (zp_addr g) 1;
     destroy_zone_page c (max idx ZONE_MAX_ENTRIES) object_size gs }"

fun destroy_zones :: "'u zone_context \<Rightarrow> zone_page list list \<Rightarrow> 'u zone_context option" where
  "destroy_zones c [] = Some c"
| "destroy_zones c (ps # zs) = do {
     c \<leftarrow> (case ps of [] \<Rightarrow> Some c | g # gs \<Rightarrow> destroy_zone_page c 0 (zp_object_size g) ps);
     destroy_zones c zs }"

definition zone_destroy :: "'u zone_context \<Rightarrow> (unit \<times> 'u zone_context) option" where
  "zone_destroy c = do {
     (mutex_handle, c) \<leftarrow> zone_lock c 0;
     c \<leftarrow> (case zones c of
         None \<Rightarrow> Some c
       | Some (a, zs) \<Rightarrow> do { c \<leftarrow> destroy_zones c zs; page_free c a 1 });
     c \<leftarrow> zone_unlock c mutex_handle;
     Some ((), c) }"

end
