(* ===== verification/ZoneSpec.thy ===== *)
theory ZoneSpec
  imports Zone
begin

text \<open>
  The contract of the zone allocator: the objects in use are the set bits of the bitmaps and the
  whole-page entries; allocation returns an object that was not in use and touches no other,
  release and verification find exactly the objects in use. The page source and the lock are
  the interface \<open>zone_callbacks\<close>.
\<close>

section \<open>Powers of two\<close>

lemma word_and_power:
  fixes x :: u32
  assumes "m < 32" "unat x < 2 ^ (m + 1)"
  shows "(2 ^ m AND x = 0) = (unat x < 2 ^ m)"
proof -
  have "(2 ^ m AND x = 0) = (\<not> bit x m)"
    using assms(1) by (metis and.commute and_exp_eq_0_iff_not_bit)
  also have "bit x m = odd (unat x div 2 ^ m)"
    using bit_unsigned_iff [of x m, where ?'a = nat] assms(1) by (simp add: bit_iff_odd [of "unat x"])
  also have "odd (unat x div 2 ^ m) = (2 ^ m \<le> unat x)"
  proof (cases "2 ^ m \<le> unat x")
    case True
    then have "unat x div 2 ^ m = 1"
      using assms(2) by (intro div_nat_eqI) simp_all
    then show ?thesis using True by simp
  qed simp
  finally show ?thesis by auto
qed

lemma drop_bit_power: "0 < m \<Longrightarrow> m < 32 \<Longrightarrow> drop_bit 1 (2 ^ m :: u32) = 2 ^ (m - 1)"
  by (rule bit_word_eqI) (auto simp: bit_drop_bit_eq bit_exp_iff)

lemma unat_power [simp]: "m < 32 \<Longrightarrow> unat (2 ^ m :: u32) = 2 ^ m"
proof -
  assume "m < 32"
  then have "(2 :: nat) ^ m < 2 ^ 32" by (rule power_strict_increasing) auto
  then show ?thesis using unat_of_nat_small [of "2 ^ m", where 'a = 32] by simp
qed

lemma align_loop_power:
  assumes "m < 32" "unat x < 2 ^ (m + 1)" "x \<noteq> 0"
  shows "\<exists>j \<le> m. align_loop (2 ^ m) x = 2 ^ j \<and> 2 ^ j \<le> unat x \<and> unat x < 2 ^ (j + 1)"
  using assms
proof (induction m)
  case 0
  then have "unat x = 1" by (simp add: unat_eq_Suc_0_iff [symmetric] unat_gt_0 [symmetric] del: unat_gt_0)
  then have "x = 1" by (metis unat_1 word_unat_eq_iff)
  then show ?case by (simp add: align_loop.simps)
next
  case (Suc m)
  show ?case
  proof (cases "unat x < 2 ^ Suc m")
    case True
    then have "2 ^ Suc m AND x = 0" using word_and_power [of "Suc m" x] Suc.prems by simp
    moreover have nz: "(2 ^ Suc m :: u32) \<noteq> 0"
      using unat_power [of "Suc m"] Suc.prems(1) by (metis power_not_zero unat_0 zero_neq_numeral)
    ultimately have "align_loop (2 ^ Suc m) x = align_loop (2 ^ m) x"
      using drop_bit_power [of "Suc m"] Suc.prems nz by (subst align_loop.simps) simp
    moreover obtain j where "j \<le> m" "align_loop (2 ^ m) x = 2 ^ j" "2 ^ j \<le> unat x" "unat x < 2 ^ (j + 1)"
      using Suc.IH True Suc.prems by auto
    ultimately show ?thesis by (intro exI [of _ j]) simp
  next
    case False
    then have "2 ^ Suc m AND x \<noteq> 0" using word_and_power [of "Suc m" x] Suc.prems by simp
    then have "align_loop (2 ^ Suc m) x = 2 ^ Suc m" by (subst align_loop.simps) simp
    then show ?thesis using False Suc.prems by force
  qed
qed

lemma bit_number_loop_power:
  assumes "m < 32" "unat x < 2 ^ (m + 1)" "x \<noteq> 0" "h = of_nat (31 - m)"
  shows "\<exists>j \<le> m. bit_number_loop (2 ^ m) h x = Some (of_nat (31 - j)) \<and>
    2 ^ j \<le> unat x \<and> unat x < 2 ^ (j + 1)"
  using assms
proof (induction m arbitrary: h)
  case 0
  then have "unat x = 1" by (simp add: unat_eq_Suc_0_iff [symmetric] unat_gt_0 [symmetric] del: unat_gt_0)
  then have "x = 1" by (metis unat_1 word_unat_eq_iff)
  then show ?case using 0 by (simp add: bit_number_loop.simps)
next
  case (Suc m)
  show ?case
  proof (cases "unat x < 2 ^ Suc m")
    case True
    then have "2 ^ Suc m AND x = 0" using word_and_power [of "Suc m" x] Suc.prems by simp
    then have "bit_number_loop (2 ^ Suc m) h x = bit_number_loop (2 ^ m) (h + 1) x"
      using drop_bit_power [of "Suc m"] Suc.prems by (subst bit_number_loop.simps) simp
    moreover have "h + 1 = of_nat (31 - m)"
    proof -
      have "31 - m = Suc (31 - Suc m)" using Suc.prems(1) by simp
      then show ?thesis using Suc.prems(4) by (metis of_nat_Suc add.commute)
    qed
    moreover obtain j where "j \<le> m" "bit_number_loop (2 ^ m) (h + 1) x = Some (of_nat (31 - j))"
        "2 ^ j \<le> unat x" "unat x < 2 ^ (j + 1)"
      using Suc.IH [of "h + 1"] True Suc.prems calculation by auto
    ultimately show ?thesis by (intro exI [of _ j]) simp
  next
    case False
    then have "2 ^ Suc m AND x \<noteq> 0" using word_and_power [of "Suc m" x] Suc.prems by simp
    then have "bit_number_loop (2 ^ Suc m) h x = Some h" by (subst bit_number_loop.simps) simp
    then show ?thesis using False Suc.prems by force
  qed
qed

lemma bit_number_Some:
  assumes "x \<noteq> 0"
  shows "\<exists>n. bit_number x = Some (of_nat n) \<and> 0 < n \<and> n \<le> 32 \<and> 2 ^ (n - 1) \<le> unat x \<and> unat x < 2 ^ n"
proof -
  have "unat x < 2 ^ (31 + 1)" using unsigned_less [of x, where ?'a = nat] by simp
  then obtain j where j: "j \<le> 31" "bit_number_loop (2 ^ 31) 0 x = Some (of_nat (31 - j))"
      "2 ^ j \<le> unat x" "unat x < 2 ^ (j + 1)"
    using bit_number_loop_power [of 31 x 0] assms by auto
  have "(32 :: u32) - of_nat (31 - j) = of_nat (j + 1)"
    using j(1) by (simp add: of_nat_diff)
  then show ?thesis using j by (intro exI [of _ "j + 1"]) (simp add: bit_number_def)
qed

lemma bit_number_0: "bit_number 0 = None"
proof -
  have "(case ((m, h), x) of (y, z) \<Rightarrow> (case y of (m, h) \<Rightarrow> \<lambda>x r. x \<noteq> 0) z) r"
    if "bit_number_loop m h x = Some r" for m h x r
    by (rule bit_number_loop.raw_induct) (use that in \<open>auto split: if_splits\<close>)
  then show ?thesis unfolding bit_number_def by (cases "bit_number_loop 0x80000000 0 0") auto
qed

lemma bit_number_unique:
  assumes "x \<noteq> 0" "2 ^ k \<le> unat x" "unat x < 2 ^ (k + 1)"
  shows "bit_number x = Some (of_nat (k + 1))"
proof -
  obtain n where n: "bit_number x = Some (of_nat n)" "0 < n" "2 ^ (n - 1) \<le> unat x" "unat x < 2 ^ n"
    using bit_number_Some [OF assms(1)] by auto
  have "n - 1 < k + 1" "k < n"
    using n(3,4) assms(2,3) by (meson le_less_trans power_less_imp_less_exp one_less_numeral_iff semiring_norm(76))+
  then have "n = k + 1" by simp
  then show ?thesis using n by simp
qed

section \<open>Rounding\<close>

lemma and_not_power:
  fixes x :: u32
  assumes "j < 31" "2 ^ j \<le> unat x" "unat x < 2 ^ (j + 1)"
  shows "(x AND NOT (2 ^ j) = 0) = (unat x = 2 ^ j)"
proof -
  have hi: "bit x n \<Longrightarrow> n \<le> j" for n
  proof -
    assume "bit x n"
    then have "bit (unat x) n" using bit_imp_le_length [of x n] by (simp add: bit_unsigned_iff)
    then have "unat x div 2 ^ n \<noteq> 0" by (metis bit_iff_odd even_zero)
    then have "2 ^ n \<le> unat x" by (simp add: div_eq_0_iff not_less)
    then have "(2 :: nat) ^ n < 2 ^ (j + 1)" using assms(3) by linarith
    then show "n \<le> j" using power_less_imp_less_exp [of "2 :: nat" n "j + 1"] by simp
  qed
  have b: "bit x j"
    using word_and_power [of j x] assms by (simp add: and_exp_eq_0_iff_not_bit and.commute)
  have "(x AND NOT (2 ^ j) = 0) = (x = 2 ^ j)"
  proof
    assume z: "x AND NOT (2 ^ j) = 0"
    show "x = 2 ^ j"
    proof (rule bit_word_eqI)
      fix n assume n: "n < LENGTH(32)"
      have "\<not> bit (x AND NOT (2 ^ j)) n" using z by simp
      then show "bit x n = bit (2 ^ j :: u32) n"
        using b n by (auto simp: bit_and_iff bit_not_iff bit_exp_iff)
    qed
  qed simp
  also have "\<dots> = (unat x = 2 ^ j)" using assms(1) by (simp add: word_unat_eq_iff)
  finally show ?thesis .
qed

definition zone_fits :: "u32 \<Rightarrow> bool" where
  "zone_fits x \<longleftrightarrow> x \<noteq> 0 \<and> x \<le> 0xFFFFF000"

text \<open>Up to a page, the size is rounded to the smallest power of two from 16 on.\<close>

lemma align_small:
  assumes "x \<noteq> 0" "unat x \<le> 4096"
  obtains k where "4 \<le> k" "k \<le> 12" "align x = 2 ^ k" "unat x \<le> 2 ^ k" "k = 4 \<or> 2 ^ (k - 1) < unat x"
proof -
  consider "x < 16" | "16 \<le> x" "x < 4096" | "x = 4096"
    using assms(2) by (fastforce simp: word_less_nat_alt word_le_nat_alt word_unat_eq_iff)
  then show ?thesis
  proof cases
    case 1
    then show ?thesis
      using that [of 4] assms(1) by (simp add: align_def ZONE_MIN_ALLOC_def word_less_nat_alt)
  next
    case 2
    then have x: "16 \<le> unat x" "unat x < 4096" by (simp_all add: word_le_nat_alt word_less_nat_alt)
    obtain j where j: "j \<le> 12" "align_loop (2 ^ 12) x = 2 ^ j" "2 ^ j \<le> unat x" "unat x < 2 ^ (j + 1)"
      using align_loop_power [of 12 x] assms x by auto
    have j': "4 \<le> j" "j < 12"
    proof -
      have "(2 :: nat) ^ 4 < 2 ^ (j + 1)" using j(4) x(1) by simp
      then show "4 \<le> j" using power_less_imp_less_exp [of "2 :: nat" 4 "j + 1"] by simp
      have "(2 :: nat) ^ j < 2 ^ 12" using j(3) x(2) by simp
      then show "j < 12" using power_less_imp_less_exp [of "2 :: nat" j 12] by simp
    qed
    have al: "align x = (if unat x = 2 ^ j then 2 ^ j else 2 ^ (j + 1))"
    proof -
      have "\<not> x < 16" "\<not> 4096 < x" using 2 by auto
      then show ?thesis
        using 2(2) assms(1) j and_not_power [of j x] j'
        by (simp add: align_def ZONE_MIN_ALLOC_def push_bit_eq_mult)
    qed
    show ?thesis
    proof (cases "unat x = 2 ^ j")
      case True
      moreover have "(2 :: nat) ^ (j - 1) < 2 ^ j" using j' by (intro power_strict_increasing) auto
      ultimately show ?thesis using that [of j] al j' by simp
    next
      case False
      then show ?thesis using that [of "j + 1"] al j j' by simp
    qed
  next
    case 3
    then show ?thesis using that [of 12] by (simp add: align_def ZONE_MIN_ALLOC_def)
  qed
qed

text \<open>Above a page, to whole pages.\<close>

lemma align_pages:
  assumes "4096 < unat x" "unat x \<le> 0xFFFFF000"
  shows "unat (align x) = (unat x + 4095) div 4096 * 4096"
proof -
  let ?n = "unat x div 4096 + (if unat x mod 4096 \<noteq> 0 then 1 else 0)"
  have n: "(unat x + 4095) div 4096 = ?n"
  proof -
    define q r where "q = unat x div 4096" and "r = unat x mod 4096"
    then have "unat x = 4096 * q + r" "r < 4096" by simp_all
    then show ?thesis unfolding q_def [symmetric] r_def [symmetric] by (intro div_nat_eqI) auto
  qed
  have le: "?n \<le> 0xFFFFF" unfolding n [symmetric] using assms(2) by simp
  have d: "x div 4096 = of_nat (unat x div 4096)" "(x mod 4096 = 0) = (unat x mod 4096 = 0)"
    using word_arith_nat_div [of x 4096] unat_mod_distrib [of x 4096] by (simp_all add: word_unat_eq_iff)
  have "align x = (x div 4096 + (if x mod 4096 \<noteq> 0 then 1 else 0)) * 4096"
    using assms by (simp add: align_def ZONE_MIN_ALLOC_def word_less_nat_alt)
  also have "x div 4096 + (if x mod 4096 \<noteq> 0 then 1 else 0) = of_nat ?n"
    unfolding d by simp
  finally have "align x = of_nat (?n * 4096)" by simp
  moreover have "?n * 4096 < 2 ^ LENGTH(32)" using mult_le_mono1 [OF le, of 4096] by simp
  ultimately show ?thesis unfolding n by (simp only: unat_of_nat_small)
qed

lemma align_wraps:
  assumes "0xFFFFF000 < unat x"
  shows "align x = 0"
proof -
  have "unat x < 2 ^ 32" using unsigned_less [of x, where ?'a = nat] by simp
  then have q: "unat x div 4096 = 0xFFFFF" using assms by (simp add: div_nat_eqI)
  moreover have "unat x mod 4096 \<noteq> 0"
    using div_mult_mod_eq [of "unat x" 4096] q assms by linarith
  ultimately have "x div 4096 = 0xFFFFF" "x mod 4096 \<noteq> 0"
    using word_arith_nat_div [of x 4096] unat_mod_distrib [of x 4096] by (simp_all add: word_unat_eq_iff)
  then show ?thesis using assms by (simp add: align_def ZONE_MIN_ALLOC_def word_less_nat_alt)
qed

section \<open>Bitmaps\<close>

lemma bit_unit_mask [simp]: "b < 64 \<Longrightarrow> bit (unit_mask b) j = (j = 63 - b)"
proof -
  assume b: "b < 64"
  have "bit (unit_mask b) j = bit (push_bit 63 (1 :: u64)) (b + j)"
    by (simp only: unit_mask_def ZONE_BITMAP_UNIT_BITS_def bit_drop_bit_eq o_def) simp
  also have "\<dots> = (63 \<le> b + j \<and> b + j < 64 \<and> b + j = 63)"
    by (simp only: bit_push_bit_iff bit_1_iff possible_bit_word) auto
  finally show ?thesis using b by auto
qed

lemma and_unit_mask_eq_0 [simp]: "b < 64 \<Longrightarrow> (w AND unit_mask b = 0) = (\<not> bit w (63 - b))"
proof
  assume b: "b < 64" and "w AND unit_mask b = 0"
  then have "\<not> bit (w AND unit_mask b) (63 - b)" by simp
  with b show "\<not> bit w (63 - b)" by (simp add: bit_and_iff)
next
  assume "b < 64" "\<not> bit w (63 - b)"
  then show "w AND unit_mask b = 0" by (intro bit_word_eqI) (auto simp: bit_and_iff)
qed

text \<open>Object number \<open>k\<close> of an entry is in use.\<close>

definition used :: "zone_entry \<Rightarrow> nat \<Rightarrow> bool" where
  "used e k \<longleftrightarrow> bit (bitmap e ! (k div 64)) (63 - k mod 64)"

lemma unit_eq_iff: "(j :: nat) div 64 = k div 64 \<Longrightarrow> (63 - j mod 64 = 63 - k mod 64) = (j = k)"
proof -
  assume d: "j div 64 = k div 64"
  have "j mod 64 < 64" "k mod 64 < 64" by simp_all
  then have "(63 - j mod 64 = 63 - k mod 64) = (j mod 64 = k mod 64)" by linarith
  also have "\<dots> = (j = k)" using d by (metis div_mult_mod_eq)
  finally show ?thesis .
qed

lemma used_set [simp]:
  assumes "length (bitmap e) = 4" "k < 256" "unit = k div 64" "b = k mod 64"
  shows "used (e\<lparr>bitmap := (bitmap e)[unit := bitmap e ! unit OR unit_mask b]\<rparr>) j = (j = k \<or> used e j)"
    and "used (e\<lparr>bitmap := (bitmap e)[unit := bitmap e ! unit AND NOT (unit_mask b)]\<rparr>) j = (j \<noteq> k \<and> used e j)"
proof -
  have lt: "k div 64 < length (bitmap e)" using assms(1,2) by (simp add: div_less_iff_less_mult)
  have b: "k mod 64 < 64" by simp
  show "used (e\<lparr>bitmap := (bitmap e)[unit := bitmap e ! unit OR unit_mask b]\<rparr>) j = (j = k \<or> used e j)"
  proof (cases "j div 64 = k div 64")
    case True
    then show ?thesis
      using lt unit_eq_iff [OF True] unfolding used_def assms(3,4)
      by (simp add: bit_or_iff bit_unit_mask [OF b] disj_commute)
  next
    case False
    then show ?thesis using lt unfolding used_def assms(3,4) by auto
  qed
  show "used (e\<lparr>bitmap := (bitmap e)[unit := bitmap e ! unit AND NOT (unit_mask b)]\<rparr>) j = (j \<noteq> k \<and> used e j)"
  proof (cases "j div 64 = k div 64")
    case True
    then show ?thesis
      using lt unit_eq_iff [OF True] unfolding used_def assms(3,4)
      by (auto simp: bit_and_iff bit_not_iff bit_unit_mask [OF b])
  next
    case False
    then show ?thesis using lt unfolding used_def assms(3,4) by auto
  qed
qed

lemma entry_seek_first:
  assumes "length bm = 4" "m \<le> 256" "b \<le> m" "64 * u + ub = b" "ub \<le> 64"
  shows "\<exists>b' u' ub'. entry_seek bm m b u ub = Some (b', u', ub') \<and> b' \<le> m \<and>
    (b' < m \<longrightarrow> u' = b' div 64 \<and> ub' = b' mod 64 \<and> \<not> bit (bm ! (b' div 64)) (63 - b' mod 64)) \<and>
    (b' = m \<longrightarrow> (\<forall>k. b \<le> k \<and> k < m \<longrightarrow> bit (bm ! (k div 64)) (63 - k mod 64)))"
  using assms
proof (induction bm m b u ub rule: entry_seek.induct)
  case (1 bm m b u ub)
  show ?case
  proof (cases "b < m")
    case False
    then show ?thesis using "1.prems" by (subst entry_seek.simps) auto
  next
    case True
    let ?u = "if ub \<ge> 64 then u + 1 else u" and ?ub = "if ub \<ge> 64 then 0 else ub"
    have eq: "64 * ?u + ?ub = b" "?ub < 64" using "1.prems"(4,5) by auto
    then have u: "?u = b div 64" "?ub = b mod 64" by auto
    have lt: "?u < length bm" using eq True "1.prems"(1,2) by linarith
    show ?thesis
    proof (cases "bit (bm ! (b div 64)) (63 - b mod 64)")
      case False
      then have "entry_seek bm m b u ub = Some (b, b div 64, b mod 64)"
        using True lt u by (subst entry_seek.simps) (simp add: ZONE_BITMAP_UNIT_BITS_def Let_def)
      then show ?thesis using False True by auto
    next
      case bit: True
      then have st: "entry_seek bm m b u ub = entry_seek bm m (b + 1) ?u (?ub + 1)"
        using True lt u by (subst entry_seek.simps) (simp add: ZONE_BITMAP_UNIT_BITS_def Let_def)
      have "\<exists>b' u' ub'. entry_seek bm m (b + 1) ?u (?ub + 1) = Some (b', u', ub') \<and> b' \<le> m \<and>
        (b' < m \<longrightarrow> u' = b' div 64 \<and> ub' = b' mod 64 \<and> \<not> bit (bm ! (b' div 64)) (63 - b' mod 64)) \<and>
        (b' = m \<longrightarrow> (\<forall>k. b + 1 \<le> k \<and> k < m \<longrightarrow> bit (bm ! (k div 64)) (63 - k mod 64)))"
        using "1.IH" [OF True refl refl] lt bit u eq True "1.prems"(1,2)
        by (simp add: ZONE_BITMAP_UNIT_BITS_def)
      then show ?thesis unfolding st using bit by (metis Suc_eq_plus1 le_eq_less_or_eq less_eq_Suc_le)
    qed
  qed
qed

section \<open>Objects in use\<close>

text \<open>The objects of an entry of zone \<open>i\<close>: address and rounded size. Zones up to 12 hold objects
  of \<open>2 ^ (i - 1)\<close> bytes, the others whole pages.\<close>

definition objects_in :: "nat \<Rightarrow> zone_entry \<Rightarrow> (addr \<times> u32) set" where
  "objects_in i e =
     (if ze_data e = 0 then {}
      else if i \<le> 12 then (\<lambda>k. (ze_data e + k * 2 ^ (i - 1), 2 ^ (i - 1))) ` {k. k < 4096 div 2 ^ (i - 1) \<and> used e k}
      else if ze_objects e \<noteq> 0 then {(ze_data e, ucast (data_size e))} else {})"

definition npages :: "nat \<Rightarrow> zone_entry \<Rightarrow> u32" where
  "npages i e = (if i \<le> 12 then 1 else ucast (data_size e) div 4096)"

definition entry_ok :: "nat \<Rightarrow> zone_entry \<Rightarrow> bool" where
  "entry_ok i e \<longleftrightarrow> 5 \<le> i \<and> length (bitmap e) = 4 \<and>
     (if i \<le> 12 then ze_data e = 0 \<longrightarrow> (\<forall>k < 4096 div 2 ^ (i - 1). \<not> used e k)
      else if ze_data e = 0 then ze_objects e = 0
      else ze_objects e = 1 \<and>
        (\<exists>n :: u32. data_size e = ucast n \<and> bit_number n = Some (of_nat i) \<and> 4096 \<le> unat n \<and>
           4096 dvd unat n))"

text \<open>The entries of all zones by zone, page and entry number.\<close>

definition slots :: "zone_page list list \<Rightarrow> nat \<times> nat \<times> nat \<rightharpoonup> zone_entry" where
  "slots zs = (\<lambda>(i, j, k). if i < length zs \<and> j < length (zs ! i) \<and> k < length (zp_array (zs ! i ! j))
     then Some (zp_array (zs ! i ! j) ! k) else None)"

definition zobjects :: "zone_page list list \<Rightarrow> (addr \<times> u32) set" where
  "zobjects zs = {x. \<exists>t e. slots zs t = Some e \<and> x \<in> objects_in (fst t) e}"

definition zlive :: "zone_page list list \<Rightarrow> addr \<rightharpoonup> u32" where
  "zlive zs a = (if \<exists>n. (a, n) \<in> zobjects zs then Some (THE n. (a, n) \<in> zobjects zs) else None)"

definition zone_inv :: "zone_page list list \<Rightarrow> (addr \<rightharpoonup> u32) \<Rightarrow> bool" where
  "zone_inv zs held \<longleftrightarrow> length zs = ZONE_MAX_ZONES \<and>
     (\<forall>i < length zs. \<forall>p \<in> set (zs ! i). length (zp_array p) = ZONE_MAX_ENTRIES) \<and>
     (\<forall>t e. slots zs t = Some e \<longrightarrow> entry_ok (fst t) e \<and>
        (ze_data e \<noteq> 0 \<longrightarrow> held (ze_data e) = Some (npages (fst t) e))) \<and>
     (\<forall>t t' e e'. slots zs t = Some e \<longrightarrow> slots zs t' = Some e' \<longrightarrow> t \<noteq> t' \<longrightarrow>
        ze_data e \<noteq> 0 \<longrightarrow> ze_data e \<noteq> ze_data e')"

text \<open>Blocks of pages that neither overlap nor reach into the first page of memory.\<close>

definition apart :: "(addr \<rightharpoonup> u32) \<Rightarrow> bool" where
  "apart held \<longleftrightarrow> (\<forall>a n. held a = Some n \<longrightarrow> ZONE_PAGE_SIZE \<le> a) \<and>
     (\<forall>a b n m. held a = Some n \<longrightarrow> held b = Some m \<longrightarrow> a < b \<longrightarrow> a + unat n * ZONE_PAGE_SIZE \<le> b)"

lemma ucast_u64_u32 [simp]: "ucast (ucast n :: u64) = (n :: u32)"
  by (rule bit_word_eqI) (simp add: bit_ucast_iff)

lemma zone_inv_slot:
  "zone_inv zs held \<Longrightarrow> slots zs t = Some e \<Longrightarrow> entry_ok (fst t) e"
  "zone_inv zs held \<Longrightarrow> slots zs t = Some e \<Longrightarrow> ze_data e \<noteq> 0 \<Longrightarrow>
     held (ze_data e) = Some (npages (fst t) e)"
  unfolding zone_inv_def by blast+

lemma zone_inv_data: "zone_inv zs held \<Longrightarrow> slots zs t = Some e \<Longrightarrow> slots zs t' = Some e' \<Longrightarrow>
    t \<noteq> t' \<Longrightarrow> ze_data e \<noteq> 0 \<Longrightarrow> ze_data e \<noteq> ze_data e'"
  unfolding zone_inv_def by blast

lemma zone_inv_mono:
  "zone_inv zs hh \<Longrightarrow> (\<And>a n. hh a = Some n \<Longrightarrow> hh' a = Some n) \<Longrightarrow> zone_inv zs hh'"
  unfolding zone_inv_def by blast

lemma npages_pos: "entry_ok i e \<Longrightarrow> ze_data e \<noteq> 0 \<Longrightarrow> 1 \<le> unat (npages i e)"
proof (cases "i \<le> 12")
  case False
  assume "entry_ok i e" "ze_data e \<noteq> 0"
  with False obtain n :: u32 where n: "data_size e = ucast n" "4096 \<le> unat n"
    by (auto simp: entry_ok_def)
  then have "unat (ucast n div 4096 :: u32) = unat n div 4096" by (simp add: unat_div_distrib)
  then show ?thesis using False n by (simp add: npages_def)
qed (simp add: npages_def)

lemma objects_in_range:
  assumes "(a, n) \<in> objects_in i e"
  shows "ze_data e \<noteq> 0" "ze_data e \<le> a" "a < ze_data e + 4096"
proof -
  show "ze_data e \<noteq> 0" "ze_data e \<le> a" using assms by (auto simp: objects_in_def split: if_splits)
  show "a < ze_data e + 4096"
  proof (cases "i \<le> 12")
    case True
    then obtain k where k: "a = ze_data e + k * 2 ^ (i - 1)" "k < 4096 div 2 ^ (i - 1)"
      using assms by (auto simp: objects_in_def split: if_splits)
    have "(k + 1) * 2 ^ (i - 1) \<le> 4096 div 2 ^ (i - 1) * 2 ^ (i - 1)" using k(2) by (intro mult_le_mono1) simp
    also have "\<dots> \<le> 4096" by (rule div_times_less_eq_dividend)
    finally have "k * 2 ^ (i - 1) + 2 ^ (i - 1) \<le> 4096" by (simp add: algebra_simps)
    moreover have "(0 :: nat) < 2 ^ (i - 1)" by simp
    ultimately show ?thesis using k(1) by linarith
  qed (use assms in \<open>auto simp: objects_in_def split: if_splits\<close>)
qed

lemma objects_in_single: "(a, n) \<in> objects_in i e \<Longrightarrow> (a, m) \<in> objects_in i e \<Longrightarrow> n = m"
  by (auto simp: objects_in_def split: if_splits)

text \<open>An object in use lies in the data of one entry only: the address search of the code cannot
  stop at another entry.\<close>

lemma slot_unique:
  assumes inv: "zone_inv zs held" and ap: "apart held"
    and t: "slots zs t = Some e" "slots zs t' = Some e'"
    and a: "(a, n) \<in> objects_in (fst t) e" "entry_holds a e'"
  shows "t' = t"
proof (rule ccontr)
  assume ne: "t' \<noteq> t"
  note r = objects_in_range [OF a(1)]
  have e: "held (ze_data e) = Some (npages (fst t) e)" "entry_ok (fst t) e"
    using zone_inv_slot [OF inv t(1)] r(1) by simp_all
  have h: "ze_data e' \<le> a" "a < ze_data e' + 4096"
    using a(2) by (simp_all add: entry_holds_def ZONE_PAGE_SIZE_def)
  have "4096 \<le> ze_data e" using ap e(1) by (auto simp: apart_def ZONE_PAGE_SIZE_def)
  then have nz: "ze_data e' \<noteq> 0" using r(2) h(2) by linarith
  then have e': "held (ze_data e') = Some (npages (fst t') e')" "entry_ok (fst t') e'"
    "ze_data e' \<noteq> ze_data e"
    using zone_inv_slot [OF inv t(2)] zone_inv_data [OF inv t(2,1) ne] by simp_all
  have "1 \<le> unat (npages (fst t) e)" "1 \<le> unat (npages (fst t') e')"
    using npages_pos [OF e(2) r(1)] npages_pos [OF e'(2) nz] by simp_all
  then have p: "4096 \<le> unat (npages (fst t) e) * 4096" "4096 \<le> unat (npages (fst t') e') * 4096"
    by linarith+
  from e'(3) consider "ze_data e < ze_data e'" | "ze_data e' < ze_data e" by linarith
  then show False
  proof cases
    case 1
    then have "ze_data e + unat (npages (fst t) e) * 4096 \<le> ze_data e'"
      using ap e(1) e'(1) by (auto simp: apart_def ZONE_PAGE_SIZE_def)
    then show False using p h r by linarith
  next
    case 2
    then have "ze_data e' + unat (npages (fst t') e') * 4096 \<le> ze_data e"
      using ap e(1) e'(1) by (auto simp: apart_def ZONE_PAGE_SIZE_def)
    then show False using p h r by linarith
  qed
qed

text \<open>Objects in use do not overlap.\<close>

lemma objects_in_apart:
  assumes "entry_ok i e" "(a, n) \<in> objects_in i e" "(b, m) \<in> objects_in i e" "a < b"
  shows "a + unat n \<le> b"
proof (cases "i \<le> 12")
  case True
  obtain k l where k: "a = ze_data e + k * 2 ^ (i - 1)" "n = 2 ^ (i - 1)" "b = ze_data e + l * 2 ^ (i - 1)"
    using assms(2,3) True by (auto simp: objects_in_def split: if_splits)
  have "k < l" using assms(4) k by simp
  then have "(k + 1) * 2 ^ (i - 1) \<le> l * 2 ^ (i - 1)" by (intro mult_le_mono1) simp
  then show ?thesis using k True by (simp add: algebra_simps)
next
  case False
  then show ?thesis using assms by (auto simp: objects_in_def split: if_splits)
qed

lemma objects_in_end:
  assumes "entry_ok i e" "(a, n) \<in> objects_in i e"
  shows "a + unat n \<le> ze_data e + unat (npages i e) * 4096"
proof (cases "i \<le> 12")
  case True
  then obtain k where k: "a = ze_data e + k * 2 ^ (i - 1)" "k < 4096 div 2 ^ (i - 1)" "n = 2 ^ (i - 1)"
    using assms(2) by (auto simp: objects_in_def split: if_splits)
  have "(k + 1) * 2 ^ (i - 1) \<le> 4096 div 2 ^ (i - 1) * 2 ^ (i - 1)" using k(2) by (intro mult_le_mono1) simp
  also have "\<dots> \<le> 4096" by (rule div_times_less_eq_dividend)
  finally show ?thesis using k True by (simp add: npages_def algebra_simps)
next
  case False
  then have n: "a = ze_data e" "data_size e = ucast n" "4096 dvd unat n"
    using assms by (auto simp: entry_ok_def objects_in_def split: if_splits)
  then have "unat (n div 4096) * 4096 = unat n" by (simp add: unat_div_distrib)
  then show ?thesis using False n by (simp add: npages_def)
qed

lemma zobjects_apart:
  assumes inv: "zone_inv zs held" "apart held" and a: "(a, n) \<in> zobjects zs" "(b, m) \<in> zobjects zs" "a < b"
  shows "a + unat n \<le> b"
proof -
  from a obtain t e t' e' where t: "slots zs t = Some e" "(a, n) \<in> objects_in (fst t) e"
      "slots zs t' = Some e'" "(b, m) \<in> objects_in (fst t') e'" unfolding zobjects_def by blast
  note e = zone_inv_slot [OF inv(1) t(1)] and e' = zone_inv_slot [OF inv(1) t(3)]
  note r = objects_in_range [OF t(2)] and r' = objects_in_range [OF t(4)]
  show ?thesis
  proof (cases "t' = t")
    case True
    then show ?thesis using objects_in_apart [OF e(1) t(2)] t a(3) by simp
  next
    case False
    then have ne: "ze_data e \<noteq> ze_data e'" using zone_inv_data [OF inv(1) t(1,3) _ r(1)] by blast
    note ap = inv(2) [unfolded apart_def ZONE_PAGE_SIZE_def, THEN conjunct2, rule_format]
    have p: "1 \<le> unat (npages (fst t') e')" using npages_pos [OF e'(1) r'(1)] .
    show ?thesis
    proof (cases "ze_data e < ze_data e'")
      case True
      from ap [OF e(2) [OF r(1)] e'(2) [OF r'(1)] this] show ?thesis
        using objects_in_end [OF e(1) t(2)] r'(2) by linarith
    next
      case False
      then have "ze_data e' < ze_data e" using ne by simp
      from ap [OF e'(2) [OF r'(1)] e(2) [OF r(1)] this] show ?thesis
        using p r r' a(3) by simp
    qed
  qed
qed

lemma objects_in_holds: "(a, n) \<in> objects_in i e \<Longrightarrow> entry_holds a e"
  using objects_in_range [of a n i e] by (simp add: entry_holds_def ZONE_PAGE_SIZE_def)

lemma zlive_iff:
  assumes "zone_inv zs held" "apart held"
  shows "zlive zs a = Some n \<longleftrightarrow> (a, n) \<in> zobjects zs"
proof -
  have "n = m" if "(a, n) \<in> zobjects zs" "(a, m) \<in> zobjects zs" for n m
  proof -
    from that obtain t e t' e' where "slots zs t = Some e" "(a, n) \<in> objects_in (fst t) e"
      "slots zs t' = Some e'" "(a, m) \<in> objects_in (fst t') e'" by (auto simp: zobjects_def)
    moreover from this have "t' = t" using slot_unique [OF assms] objects_in_holds by metis
    ultimately show ?thesis using objects_in_single by auto
  qed
  then show ?thesis by (auto simp: zlive_def intro: the_equality [symmetric] theI)
qed

lemma zlive_None_iff:
  assumes "zone_inv zs held" "apart held"
  shows "zlive zs a = None \<longleftrightarrow> (\<forall>n. (a, n) \<notin> zobjects zs)"
  using zlive_iff [OF assms, of a] by (cases "zlive zs a") auto

section \<open>Changing one entry\<close>

lemma slots_put_entry:
  assumes "slots zs (i, j, k) = Some e0" "zp_array g = (zp_array (zs ! i ! j))[k := e]"
  shows "slots (zs[i := (zs ! i)[j := g]]) = (slots zs)((i, j, k) \<mapsto> e)"
proof
  fix t :: "nat \<times> nat \<times> nat"
  obtain i' j' k' where t: "t = (i', j', k')" by (cases t)
  from assms(1) have lt: "i < length zs" "j < length (zs ! i)" "k < length (zp_array (zs ! i ! j))"
    by (simp_all add: slots_def split: if_splits)
  show "slots (zs[i := (zs ! i)[j := g]]) t = ((slots zs)((i, j, k) \<mapsto> e)) t"
  proof (cases "i' = i \<and> j' = j")
    case True
    then show ?thesis using lt assms(2) by (simp add: t slots_def nth_list_update)
  next
    case False
    then show ?thesis using lt by (cases "i' = i") (simp_all add: t slots_def)
  qed
qed

lemma slots_new_page:
  assumes "i < length zs"
  shows "slots (zs[i := zs ! i @ [g]]) (i', j, k) =
    (if i' = i \<and> j = length (zs ! i) then (if k < length (zp_array g) then Some (zp_array g ! k) else None)
     else slots zs (i', j, k))"
  using assms by (auto simp: slots_def nth_list_update nth_append)

lemma zone_inv_put:
  assumes inv: "zone_inv zs hh" and s: "slots zs (i, j, k) = Some e0"
    and g: "zp_array g = (zp_array (zs ! i ! j))[k := e]"
    and e: "entry_ok i e" "ze_data e \<noteq> 0 \<Longrightarrow> hh' (ze_data e) = Some (npages i e)"
    and new: "\<And>t' e'. slots zs t' = Some e' \<Longrightarrow> t' \<noteq> (i, j, k) \<Longrightarrow> ze_data e' \<noteq> 0 \<Longrightarrow>
      ze_data e' \<noteq> ze_data e \<and> hh' (ze_data e') = hh (ze_data e')"
  shows "zone_inv (zs[i := (zs ! i)[j := g]]) hh'"
proof -
  let ?zs = "zs[i := (zs ! i)[j := g]]"
  note sl = slots_put_entry [OF s g]
  from s have lt: "i < length zs" "j < length (zs ! i)" by (simp_all add: slots_def split: if_splits)
  have arr: "length (zp_array p) = ZONE_MAX_ENTRIES" if "i' < length ?zs" "p \<in> set (?zs ! i')" for i' p
  proof -
    have old: "length (zp_array q) = ZONE_MAX_ENTRIES" if "q \<in> set (zs ! m)" "m < length zs" for q m
      using inv that unfolding zone_inv_def by blast
    have "length (zp_array g) = ZONE_MAX_ENTRIES" using g old [OF nth_mem] lt by simp
    then show ?thesis using that old lt set_update_subset_insert [of "zs ! i" j g]
      by (cases "i' = i") auto
  qed
  have slot: "entry_ok (fst t) e' \<and> (ze_data e' \<noteq> 0 \<longrightarrow> hh' (ze_data e') = Some (npages (fst t) e'))"
    if "slots ?zs t = Some e'" for t e'
  proof (cases "t = (i, j, k)")
    case True
    then show ?thesis using that e by (simp add: sl)
  next
    case False
    then have "slots zs t = Some e'" using that by (simp add: sl)
    then show ?thesis using zone_inv_slot [OF inv] new [of t e'] False by simp
  qed
  have data: "ze_data e1 \<noteq> ze_data e2"
    if "slots ?zs t1 = Some e1" "slots ?zs t2 = Some e2" "t1 \<noteq> t2" "ze_data e1 \<noteq> 0" for t1 t2 e1 e2
  proof (cases "t1 = (i, j, k)")
    case True
    then have "e1 = e" "slots zs t2 = Some e2" "t2 \<noteq> (i, j, k)" using that by (auto simp: sl)
    then show ?thesis using new [of t2 e2] that(4) by (cases "ze_data e2 = 0") auto
  next
    case False
    then have 1: "slots zs t1 = Some e1" using that by (simp add: sl)
    show ?thesis
    proof (cases "t2 = (i, j, k)")
      case True
      then show ?thesis using new [OF 1 False that(4)] that(2) by (simp add: sl)
    next
      case t2: False
      then have "slots zs t2 = Some e2" using that by (simp add: sl)
      then show ?thesis using zone_inv_data [OF inv 1 _ that(3,4)] by simp
    qed
  qed
  have "length ?zs = ZONE_MAX_ZONES" using inv by (simp add: zone_inv_def)
  then show ?thesis using arr slot data unfolding zone_inv_def by blast
qed

text \<open>The objects outside one entry.\<close>

definition zrest :: "zone_page list list \<Rightarrow> nat \<times> nat \<times> nat \<Rightarrow> (addr \<times> u32) set" where
  "zrest zs t = {x. \<exists>t' e. t' \<noteq> t \<and> slots zs t' = Some e \<and> x \<in> objects_in (fst t') e}"

lemma zobjects_split: "slots zs t = Some e \<Longrightarrow> zobjects zs = zrest zs t \<union> objects_in (fst t) e"
proof -
  assume t: "slots zs t = Some e"
  have "(\<exists>t' e'. slots zs t' = Some e' \<and> x \<in> objects_in (fst t') e') \<longleftrightarrow>
      (\<exists>t' e'. t' \<noteq> t \<and> slots zs t' = Some e' \<and> x \<in> objects_in (fst t') e') \<or> x \<in> objects_in (fst t) e" for x
    using t by (metis option.inject)
  then show ?thesis unfolding zobjects_def zrest_def by blast
qed

lemma zobjects_put:
  assumes "slots zs (i, j, k) = Some e0" "zp_array g = (zp_array (zs ! i ! j))[k := e]"
  shows "zobjects (zs[i := (zs ! i)[j := g]]) = zrest zs (i, j, k) \<union> objects_in i e"
proof -
  let ?zs = "zs[i := (zs ! i)[j := g]]"
  note sl = slots_put_entry [OF assms]
  have "zrest ?zs (i, j, k) = zrest zs (i, j, k)" unfolding zrest_def sl by auto
  then show ?thesis using zobjects_split [of ?zs "(i, j, k)" e] by (simp add: sl)
qed

lemma zrest_apart:
  assumes "zone_inv zs hh" "apart hh" "slots zs t = Some e" "(a, n) \<in> zrest zs t"
  shows "\<not> entry_holds a e"
  using slot_unique [OF assms(1,2) _ assms(3)] assms(4) unfolding zrest_def by blast

lemma zlive_add:
  assumes "zone_inv zs hh" "apart hh" "zone_inv zs' hh'" "apart hh'"
    and "zobjects zs' = insert (a, n) (zobjects zs)" "\<And>m. (a, m) \<notin> zobjects zs"
  shows "zlive zs a = None \<and> zlive zs' = (zlive zs)(a \<mapsto> n)"
proof -
  have "zlive zs' b = ((zlive zs)(a \<mapsto> n)) b" for b
  proof (rule option.expand)
    show "(zlive zs' b = None) = (((zlive zs)(a \<mapsto> n)) b = None)"
      using assms(5) by (auto simp: zlive_None_iff [OF assms(1,2)] zlive_None_iff [OF assms(3,4)])
    assume "zlive zs' b \<noteq> None" "((zlive zs)(a \<mapsto> n)) b \<noteq> None"
    then obtain x where x: "zlive zs' b = Some x" by auto
    then have "(b, x) \<in> insert (a, n) (zobjects zs)" using zlive_iff [OF assms(3,4)] assms(5) by simp
    then show "the (zlive zs' b) = the (((zlive zs)(a \<mapsto> n)) b)"
      using x assms(6) zlive_iff [OF assms(1,2), of b x] by auto
  qed
  moreover have "zlive zs a = None" using assms(6) zlive_None_iff [OF assms(1,2)] by simp
  ultimately show ?thesis by auto
qed

lemma zlive_same:
  "zobjects zs' = zobjects zs \<Longrightarrow> zlive zs' = zlive zs"
  by (auto simp: zlive_def)

lemma zlive_del:
  assumes "zone_inv zs hh" "apart hh" "zone_inv zs' hh'" "apart hh'"
    and "zobjects zs = insert (a, n) (zobjects zs')" "\<And>m. (a, m) \<notin> zobjects zs'"
  shows "zlive zs' = (zlive zs)(a := None)"
  using zlive_add [OF assms(3,4,1,2,5,6)] by (auto simp: fun_upd_idem)

text \<open>Outside the sizes of the small zones the entry has more objects than bits; those zones are
  never used.\<close>

lemma clear_entry_ok: "5 \<le> i \<Longrightarrow> entry_ok i clear_entry"
proof -
  assume i: "5 \<le> i"
  have "\<not> used clear_entry k" if "i \<le> 12" "k < 4096 div 2 ^ (i - 1)" for k
  proof -
    have "(2 :: nat) ^ 4 \<le> 2 ^ (i - 1)" using i by (intro power_increasing) auto
    then have "4096 div 2 ^ (i - 1) \<le> (4096 :: nat) div 16" by (intro div_le_mono2) auto
    then have "k div 64 < 4" using that(2) by simp
    then show ?thesis by (simp add: used_def clear_entry_def)
  qed
  then show ?thesis using i by (simp add: entry_ok_def clear_entry_def)
qed

lemma zone_inv_new_page:
  assumes inv: "zone_inv zs hh" and i: "i < length zs" "5 \<le> i"
    and g: "zp_array g = replicate ZONE_MAX_ENTRIES clear_entry"
  shows "zone_inv (zs[i := zs ! i @ [g]]) hh" "zobjects (zs[i := zs ! i @ [g]]) = zobjects zs"
proof -
  let ?zs = "zs[i := zs ! i @ [g]]"
  have ok: "entry_ok i clear_entry" "objects_in i clear_entry = {}" "ze_data clear_entry = 0"
    using clear_entry_ok [OF i(2)] by (simp_all add: objects_in_def clear_entry_def)
  have sl: "slots zs t = Some e \<or> e = clear_entry \<and> fst t = i" if "slots ?zs t = Some e" for t e
    using that slots_new_page [OF i(1), of g] g by (cases t) (auto split: if_splits)
  have keep: "slots ?zs t = Some e" if "slots zs t = Some e" for t e
  proof -
    obtain i' j k where t: "t = (i', j, k)" by (cases t)
    then have "\<not> (i' = i \<and> j = length (zs ! i))" using that by (auto simp: slots_def split: if_splits)
    then show ?thesis using that t slots_new_page [OF i(1), of g] by auto
  qed
  have arr: "length (zp_array p) = ZONE_MAX_ENTRIES" if "i' < length ?zs" "p \<in> set (?zs ! i')" for i' p
    using that inv g i unfolding zone_inv_def by (cases "i' = i") auto
  have "entry_ok (fst t) e \<and> (ze_data e \<noteq> 0 \<longrightarrow> hh (ze_data e) = Some (npages (fst t) e))"
    if "slots ?zs t = Some e" for t e
    using sl [OF that] zone_inv_slot [OF inv, of t e] ok by auto
  moreover have "ze_data e1 \<noteq> ze_data e2"
    if "slots ?zs t1 = Some e1" "slots ?zs t2 = Some e2" "t1 \<noteq> t2" "ze_data e1 \<noteq> 0" for t1 t2 e1 e2
    using sl [OF that(1)] sl [OF that(2)] zone_inv_data [OF inv _ _ that(3,4)] that(4) ok by auto
  moreover have "length ?zs = ZONE_MAX_ZONES" using inv by (simp add: zone_inv_def)
  ultimately show "zone_inv ?zs hh" using arr unfolding zone_inv_def by blast
  show "zobjects ?zs = zobjects zs"
    unfolding zobjects_def using sl keep ok(2) by blast
qed

text \<open>The rounded sizes of zone \<open>i\<close>.\<close>

definition zone_size :: "nat \<Rightarrow> u32 \<Rightarrow> bool" where
  "zone_size i n \<longleftrightarrow> 5 \<le> i \<and> i \<le> 32 \<and> bit_number n = Some (of_nat i) \<and>
     (if i \<le> 12 then n = 2 ^ (i - 1) else 4096 \<le> unat n \<and> 4096 dvd unat n)"

lemma zone_fits_align:
  assumes "zone_fits sz"
  shows "align sz \<noteq> 0" "unat sz \<le> unat (align sz)"
proof -
  have sz: "sz \<noteq> 0" "unat sz \<le> 0xFFFFF000"
    using assms by (simp_all add: zone_fits_def word_le_nat_alt)
  show le: "unat sz \<le> unat (align sz)"
  proof (cases "unat sz \<le> 4096")
    case True
    then obtain k where "k \<le> 12" "align sz = 2 ^ k" "unat sz \<le> 2 ^ k" using align_small [OF sz(1)] by metis
    then show ?thesis by simp
  next
    case False
    moreover have "unat sz \<le> (unat sz + 4095) div 4096 * 4096" by linarith
    ultimately show ?thesis using align_pages [of sz] sz(2) by simp
  qed
  have "0 < unat sz" using sz(1) by (simp add: unat_gt_0)
  then show "align sz \<noteq> 0" using le by auto
qed

lemma zone_page_of_fits:
  assumes "zone_fits sz"
  obtains i where "zone_page_of sz = Some (Some i, align sz)" "zone_size i (align sz)" "i < ZONE_MAX_ZONES"
proof -
  note al = zone_fits_align [OF assms]
  obtain n where n: "bit_number (align sz) = Some (of_nat n)" "0 < n" "n \<le> 32"
      "2 ^ (n - 1) \<le> unat (align sz)" "unat (align sz) < 2 ^ n"
    using bit_number_Some [OF al(1)] by blast
  have u: "unat (of_nat n :: u32) = n" using n(3) by (simp add: unat_of_nat_small)
  then have "(of_nat n :: u32) \<noteq> 0" using n(2) by (metis less_numeral_extra(3) unat_0)
  then have "zone_page_of sz = Some (Some n, align sz)"
    using n u by (simp add: zone_page_of_def ZONE_MAX_ZONES_def)
  moreover have "zone_size n (align sz)"
  proof (cases "unat sz \<le> 4096")
    case True
    then obtain k where k: "4 \<le> k" "k \<le> 12" "align sz = 2 ^ k"
      using align_small assms unfolding zone_fits_def by metis
    then have "bit_number (align sz) = Some (of_nat (k + 1))"
      using bit_number_unique [OF al(1), of k] by simp
    then have "(of_nat n :: u32) = of_nat (k + 1)" using n(1) by simp
    moreover have "unat (of_nat (k + 1) :: u32) = k + 1" using k(2) by (intro unat_of_nat_small) simp
    ultimately have "n = k + 1" using u by metis
    moreover have "4096 \<le> unat (align sz) \<and> 4096 dvd unat (align sz)" if "\<not> k \<le> 11"
    proof -
      have "k = 12" using k(2) that by simp
      then show ?thesis using k(3) by simp
    qed
    ultimately show ?thesis using n k by (simp add: zone_size_def)
  next
    case False
    then have "2 ^ 12 < unat (align sz)" using al(2) by simp
    then have "(2 :: nat) ^ 12 < 2 ^ n" using n(5) by linarith
    then have "12 < n" using power_less_imp_less_exp [of "2 :: nat" 12 n] by simp
    moreover have "4096 dvd unat (align sz)"
      using align_pages [of sz] False assms by (simp add: zone_fits_def word_le_nat_alt)
    ultimately show ?thesis using n False al(2) by (simp add: zone_size_def)
  qed
  ultimately show ?thesis using that n(3) by (simp add: ZONE_MAX_ZONES_def)
qed

lemma find_entry_Some:
  "find_entry p i es = Some k \<Longrightarrow> i \<le> k \<and> k - i < length es \<and> entry_holds p (es ! (k - i))"
  by (induction p i es rule: find_entry.induct) (fastforce simp: Suc_diff_le nth_Cons' split: if_splits)+

lemma find_entry_None: "find_entry p i es = None \<Longrightarrow> e \<in> set es \<Longrightarrow> \<not> entry_holds p e"
  by (induction p i es rule: find_entry.induct) (auto split: if_splits)

lemma find_slot_Some:
  "find_slot p m gs = Some (j, k) \<Longrightarrow> m \<le> j \<and> j - m < length gs \<and> k < length (zp_array (gs ! (j - m))) \<and>
     entry_holds p (zp_array (gs ! (j - m)) ! k)"
  by (induction p m gs rule: find_slot.induct)
     (fastforce simp: Suc_diff_le nth_Cons' dest: find_entry_Some split: option.splits)+

lemma find_slot_None:
  "find_slot p m gs = None \<Longrightarrow> g \<in> set gs \<Longrightarrow> e \<in> set (zp_array g) \<Longrightarrow> \<not> entry_holds p e"
  by (induction p m gs rule: find_slot.induct) (auto dest: find_entry_None split: option.splits)

text \<open>The search finds the entry of an object in use.\<close>

lemma find_slot_object:
  assumes inv: "zone_inv zs held" "apart held" and s: "slots zs (i, j, k) = Some e"
    and a: "(a, n) \<in> objects_in i e"
  shows "find_slot a 0 (zs ! i) = Some (j, k)"
proof -
  from s have lt: "i < length zs" "j < length (zs ! i)" "k < length (zp_array (zs ! i ! j))"
      and e: "e = zp_array (zs ! i ! j) ! k" by (simp_all add: slots_def split: if_splits)
  have "find_slot a 0 (zs ! i) \<noteq> None"
    using find_slot_None [of a 0 "zs ! i" "zs ! i ! j" e] objects_in_holds [OF a] lt e by fastforce
  then obtain j' k' where f: "find_slot a 0 (zs ! i) = Some (j', k')" by auto
  then have "slots zs (i, j', k') = Some (zp_array (zs ! i ! j') ! k')" "entry_holds a (zp_array (zs ! i ! j') ! k')"
    using find_slot_Some [OF f] lt by (simp_all add: slots_def)
  then have "(i, j', k') = (i, j, k)" using slot_unique [OF inv s] a by simp
  then show ?thesis using f by simp
qed

lemma zlive_slot:
  assumes "zone_inv zs held" "apart held" "zlive zs a = Some n"
  obtains i j k e where "slots zs (i, j, k) = Some e" "(a, n) \<in> objects_in i e"
    "i < ZONE_MAX_ZONES" "bit_number n = Some (of_nat i)"
proof -
  have "(a, n) \<in> zobjects zs" using zlive_iff [OF assms(1,2)] assms(3) by simp
  then obtain i j k e where s: "slots zs (i, j, k) = Some e" and o: "(a, n) \<in> objects_in i e"
    by (auto simp: zobjects_def)
  have i: "i < ZONE_MAX_ZONES" using s assms(1) by (auto simp: slots_def zone_inv_def split: if_splits)
  have ok: "entry_ok i e" using zone_inv_slot(1) [OF assms(1) s] by simp
  have "bit_number n = Some (of_nat i)"
  proof (cases "i \<le> 12")
    case True
    then have n: "n = 2 ^ (i - 1)" using o by (auto simp: objects_in_def split: if_splits)
    have "unat n = 2 ^ (i - 1)" using True n by simp
    moreover from this have "n \<noteq> 0" by (metis power_not_zero unat_0 zero_neq_numeral)
    ultimately show ?thesis using bit_number_unique [of n "i - 1"] ok by (simp add: entry_ok_def)
  next
    case False
    then show ?thesis using ok o by (auto simp: entry_ok_def objects_in_def split: if_splits)
  qed
  then show ?thesis using that s o i by blast
qed

lemma zone_page_of_live:
  assumes "bit_number (align sz) = Some (of_nat i)" "i < ZONE_MAX_ZONES" "0 < i"
  shows "zone_page_of sz = Some (Some i, align sz)"
proof -
  have "unat (of_nat i :: u32) = i" using assms(2) by (intro unat_of_nat_small) (simp add: ZONE_MAX_ZONES_def)
  moreover from this have "(of_nat i :: u32) \<noteq> 0" using assms(3) by (metis less_numeral_extra(3) unat_0)
  ultimately show ?thesis using assms by (simp add: zone_page_of_def)
qed

text \<open>The bit of an object of a small zone.\<close>

lemma object_bit_used:
  assumes e: "entry_ok i e" "i \<le> 12" and a: "(a, n) \<in> objects_in i e"
  obtains b where "object_bit a n e = Some (b div 64, b mod 64)" "used e b" "b < 256"
    "b < 4096 div 2 ^ (i - 1)" "a = ze_data e + b * 2 ^ (i - 1)" "n = 2 ^ (i - 1)"
proof -
  obtain b where b: "a = ze_data e + b * 2 ^ (i - 1)" "b < 4096 div 2 ^ (i - 1)" "used e b" "n = 2 ^ (i - 1)"
    using a e(2) by (auto simp: objects_in_def split: if_splits)
  have n: "unat n = 2 ^ (i - 1)" using b(4) e(2) by simp
  have "(2 :: nat) ^ 4 \<le> 2 ^ (i - 1)" using e(1) by (intro power_increasing) (auto simp: entry_ok_def)
  then have "4096 div 2 ^ (i - 1) \<le> (4096 :: nat) div 16" by (intro div_le_mono2) auto
  then have lt: "b < 256" using b(2) by simp
  moreover have "object_bit a n e = Some (b div 64, b mod 64)"
    using b lt n by (simp add: object_bit_def bitmap_unit_bit_def ZONE_PAGE_SIZE_def
      ZONE_BITMAP_UNIT_BITS_def used_def)
  ultimately show ?thesis using that b by blast
qed

lemma seek_page_split: "seek_page m ps = (full, rest) \<Longrightarrow> full @ rest = ps"
  by (induction ps arbitrary: full rest) (auto split: if_splits prod.splits)

lemma seek_entry_found:
  "seek_entry m i es = Some k \<Longrightarrow> i \<le> k \<and> k - i < length es \<and> ze_objects (es ! (k - i)) < m"
  by (induction m i es rule: seek_entry.induct) (fastforce simp: Suc_diff_le nth_Cons' split: if_splits)+

section \<open>The interface of the callbacks\<close>

text \<open>The page source hands out blocks of pages that are apart from the ones in hand; the lock
  can be taken when it is idle, and released under the handle it gave.\<close>

locale zone_callbacks =
  fixes lock :: "u64 \<Rightarrow> 'u \<Rightarrow> (u64 \<times> 'u) option" and unlock :: "u64 \<Rightarrow> 'u \<Rightarrow> 'u option"
    and palloc :: "u32 \<Rightarrow> u64 \<Rightarrow> 'u \<Rightarrow> ptr \<times> 'u" and pfree :: "addr \<Rightarrow> u32 \<Rightarrow> 'u \<Rightarrow> 'u"
    and held :: "'u \<Rightarrow> addr \<rightharpoonup> u32" and valid :: "'u \<Rightarrow> bool"
    and idle :: "'u \<Rightarrow> bool" and busy :: "u64 \<Rightarrow> 'u \<Rightarrow> bool"
  assumes lock_idle: "valid u \<Longrightarrow> idle u \<Longrightarrow>
      \<exists>h u'. lock 0 u = Some (h, u') \<and> valid u' \<and> busy h u' \<and> held u' = held u"
    and unlock_busy: "valid u \<Longrightarrow> busy h u \<Longrightarrow>
      \<exists>u'. unlock h u = Some u' \<and> valid u' \<and> idle u' \<and> held u' = held u"
    and palloc_Some: "valid u \<Longrightarrow> palloc n l u = (Some a, u') \<Longrightarrow> 0 < n \<Longrightarrow> n < 0x100000 \<Longrightarrow>
      valid u' \<and> held u a = None \<and> held u' = (held u)(a \<mapsto> n)"
    and palloc_None: "valid u \<Longrightarrow> palloc n l u = (None, u') \<Longrightarrow> valid u' \<and> held u' = held u"
    and palloc_lock: "palloc n l u = (p, u') \<Longrightarrow> idle u' = idle u \<and> busy h u' = busy h u"
    and pfree_held: "valid u \<Longrightarrow> held u a = Some n \<Longrightarrow>
      valid (pfree a n u) \<and> held (pfree a n u) = (held u)(a := None)"
    and pfree_lock: "idle (pfree a n u) = idle u \<and> busy h (pfree a n u) = busy h u"
    and held_apart: "valid u \<Longrightarrow> apart (held u)"
begin

definition zwired :: "'u zone_context \<Rightarrow> bool" where
  "zwired c \<longleftrightarrow> pf_mutex_lock c = Some lock \<and> pf_mutex_unlock c = Some unlock \<and>
     pf_page_alloc c = Some palloc \<and> pf_page_free c = Some pfree"

definition zone_rel :: "'u zone_context \<Rightarrow> zone_page list list \<Rightarrow> bool" where
  "zone_rel c zs \<longleftrightarrow> zwired c \<and> valid (user_data c) \<and> (\<exists>a. zones c = Some (a, zs)) \<and>
     zone_inv zs (held (user_data c))"

text \<open>What an allocation in one entry of zone \<open>i\<close> does.\<close>

definition entry_step :: "nat \<Rightarrow> u32 \<Rightarrow> 'u \<Rightarrow> zone_entry \<Rightarrow> ptr \<Rightarrow> zone_entry \<Rightarrow> 'u \<Rightarrow> bool" where
  "entry_step i n u e r e' u' \<longleftrightarrow> valid u' \<and> (\<forall>h. busy h u' = busy h u) \<and> entry_ok i e' \<and>
     (held u' = held u \<and> ze_data e' = ze_data e \<and> npages i e' = npages i e \<or>
      ze_data e = 0 \<and> ze_data e' \<noteq> 0 \<and> held u (ze_data e') = None \<and>
      held u' = (held u)(ze_data e' \<mapsto> npages i e')) \<and>
     (case r of None \<Rightarrow> objects_in i e' = objects_in i e
      | Some a \<Rightarrow> objects_in i e' = insert (a, n) (objects_in i e) \<and> (\<forall>m. (a, m) \<notin> objects_in i e))"

lemma held_nonzero: "valid u \<Longrightarrow> held u a = Some n \<Longrightarrow> a \<noteq> 0"
  using held_apart [of u] by (auto simp: apart_def ZONE_PAGE_SIZE_def)

lemma entry_alloc_small:
  assumes c: "zwired c" "valid (user_data c)" and e: "entry_ok i e" and i: "5 \<le> i" "i \<le> 12"
  shows "\<exists>r e' u'. zone_entry_alloc c e (2 ^ (i - 1)) lim = Some (r, e', c\<lparr>user_data := u'\<rparr>) \<and>
    entry_step i (2 ^ (i - 1)) (user_data c) e r e' u'"
proof -
  let ?u = "user_data c" and ?n = "2 ^ (i - 1) :: nat"
  let ?m = "4096 div ?n"
  have n: "unat (2 ^ (i - 1) :: u32) = ?n" using i by simp
  have small: "?n < 4096"
  proof -
    have "?n \<le> 2 ^ 11" using i by (intro power_increasing) auto
    then show ?thesis by simp
  qed
  have m: "?m \<le> 256"
  proof -
    have "16 \<le> ?n" using i power_increasing [of 4 "i - 1" "2 :: nat"] by simp
    then have "?m \<le> 4096 div 16" by (intro div_le_mono2) auto
    then show ?thesis by simp
  qed
  have len: "length (bitmap e) = 4" using e by (simp add: entry_ok_def)
  obtain b unit ub where b: "entry_seek (bitmap e) ?m 0 0 0 = Some (b, unit, ub)" "b \<le> ?m"
      "b < ?m \<Longrightarrow> unit = b div 64 \<and> ub = b mod 64 \<and> \<not> used e b"
    using entry_seek_first [OF len m, of 0 0 0] unfolding used_def by auto
  show ?thesis
  proof (cases "b < ?m")
    case False
    then have "zone_entry_alloc c e (2 ^ (i - 1)) lim = Some (None, e, c\<lparr>user_data := ?u\<rparr>)"
      using b n small by (simp add: zone_entry_alloc_def ZONE_PAGE_SIZE_def)
    moreover have "entry_step i (2 ^ (i - 1)) ?u e None e ?u" using c e by (simp add: entry_step_def)
    ultimately show ?thesis by blast
  next
    case True
    note b' = b(3) [OF True]
    let ?e = "\<lambda>d. e\<lparr>ze_data := d, bitmap := (bitmap e)[unit := bitmap e ! unit OR unit_mask ub],
        ze_objects := ze_objects e + 1\<rparr>"
    have used: "used (?e d) j = (j = b \<or> used e j)" for d j
      using used_set(1) [OF len, of b unit ub j] b' True m by (simp add: used_def)
    have ok: "entry_ok i (?e d)" if "d \<noteq> 0" for d
      using that i len by (simp add: entry_ok_def)
    have obj: "objects_in i (?e d) = insert (d + b * ?n, 2 ^ (i - 1)) (objects_in i (e\<lparr>ze_data := d\<rparr>))"
        "(d + b * ?n, x) \<notin> objects_in i (e\<lparr>ze_data := d\<rparr>)" if "d \<noteq> 0" for d x
    proof -
      have eq: "used (e\<lparr>ze_data := d\<rparr>) k = used e k" for k by (simp add: used_def)
      show "objects_in i (?e d) = insert (d + b * ?n, 2 ^ (i - 1)) (objects_in i (e\<lparr>ze_data := d\<rparr>))"
        using that i(2) True unfolding objects_in_def used eq by auto
      show "(d + b * ?n, x) \<notin> objects_in i (e\<lparr>ze_data := d\<rparr>)"
        using that i(2) b' unfolding objects_in_def eq by auto
    qed
    show ?thesis
    proof (cases "ze_data e = 0")
      case False
      then have "zone_entry_alloc c e (2 ^ (i - 1)) lim =
          Some (Some (ze_data e + b * ?n), ?e (ze_data e), c\<lparr>user_data := ?u\<rparr>)"
        using b True n small by (simp add: zone_entry_alloc_def ZONE_PAGE_SIZE_def)
      moreover have "entry_step i (2 ^ (i - 1)) ?u e (Some (ze_data e + b * ?n)) (?e (ze_data e)) ?u"
        using c ok [OF False] obj [OF False] i by (simp add: entry_step_def npages_def)
      ultimately show ?thesis by blast
    next
      case d0: True
      have none: "objects_in i e = {}" using d0 by (simp add: objects_in_def)
      obtain p u where pu: "palloc 1 lim ?u = (p, u)" by fastforce
      note lk = palloc_lock [OF pu]
      show ?thesis
      proof (cases p)
        case None
        then have "zone_entry_alloc c e (2 ^ (i - 1)) lim = Some (None, e, c\<lparr>user_data := u\<rparr>)"
          using b True n small d0 pu c(1)
          by (simp add: zone_entry_alloc_def ZONE_PAGE_SIZE_def page_alloc_def zwired_def)
        moreover have "entry_step i (2 ^ (i - 1)) ?u e None e u"
          using palloc_None [OF c(2)] pu None lk e by (simp add: entry_step_def)
        ultimately show ?thesis by blast
      next
        case (Some a)
        have a: "valid u" "held ?u a = None" "held u = (held ?u)(a \<mapsto> 1)"
          using palloc_Some [OF c(2), of 1 lim a u] pu Some by auto
        then have nz: "a \<noteq> 0" using held_nonzero [of u a 1] by simp
        have "used e k = False" if "k < ?m" for k using e d0 i that by (simp add: entry_ok_def)
        then have none': "objects_in i (e\<lparr>ze_data := a\<rparr>) = {}"
          using i by (auto simp: objects_in_def used_def)
        have "zone_entry_alloc c e (2 ^ (i - 1)) lim =
            Some (Some (a + b * ?n), ?e a, c\<lparr>user_data := u\<rparr>)"
          using b True n small d0 pu c(1) Some nz
          by (simp add: zone_entry_alloc_def ZONE_PAGE_SIZE_def page_alloc_def zwired_def)
        moreover have "entry_step i (2 ^ (i - 1)) ?u e (Some (a + b * ?n)) (?e a) u"
          using a lk ok [OF nz] obj [OF nz] i d0 nz none none' by (simp add: entry_step_def npages_def)
        ultimately show ?thesis by blast
      qed
    qed
  qed
qed

lemma entry_alloc_large:
  assumes c: "zwired c" "valid (user_data c)" and e: "entry_ok i e" "ze_objects e = 0" and i: "12 < i"
    and n: "bit_number n = Some (of_nat i)" "4096 \<le> unat n" "4096 dvd unat n"
  shows "\<exists>r e' u'. zone_entry_alloc c e n lim = Some (r, e', c\<lparr>user_data := u'\<rparr>) \<and>
    entry_step i n (user_data c) e r e' u'"
proof -
  let ?u = "user_data c"
  have len: "length (bitmap e) = 4" and d0: "ze_data e = 0"
    using e i by (auto simp: entry_ok_def split: if_splits)
  then have none: "objects_in i e = {}" by (simp add: objects_in_def)
  obtain p u where pu: "palloc (n div 4096) lim ?u = (p, u)" by fastforce
  note lk = palloc_lock [OF pu]
  show ?thesis
  proof (cases p)
    case None
    then have "zone_entry_alloc c e n lim = Some (None, e, c\<lparr>user_data := u\<rparr>)"
      using n e(2) d0 pu c(1)
      by (simp add: zone_entry_alloc_def ZONE_PAGE_SIZE_def page_alloc_def zwired_def)
    moreover have "entry_step i n ?u e None e u"
      using palloc_None [OF c(2)] pu None lk e by (simp add: entry_step_def)
    ultimately show ?thesis by blast
  next
    case (Some a)
    have "0 < unat (n div 4096)" using n(2) by (simp add: unat_div_distrib)
    then have "0 < n div 4096" by (simp add: unat_gt_0 word_greater_zero_iff)
    moreover have "n div 4096 < 0x100000"
      using unsigned_less [of n, where ?'a = nat] by (simp add: word_less_nat_alt unat_div_distrib)
    ultimately have a: "valid u" "held ?u a = None" "held u = (held ?u)(a \<mapsto> n div 4096)"
      using palloc_Some [OF c(2), of "n div 4096" lim a u] pu Some by auto
    then have nz: "a \<noteq> 0" using held_nonzero [of u a] by simp
    let ?e = "(set_data_size (ucast n) (e\<lparr>ze_data := a\<rparr>))\<lparr>ze_objects := 1\<rparr>"
    have ds: "data_size ?e = ucast n" "length (bitmap ?e) = 4" "ze_data ?e = a" "ze_objects ?e = 1"
      using len by (simp_all add: data_size_def set_data_size_def)
    then have "entry_ok i ?e" "objects_in i ?e = {(a, n)}" "npages i ?e = n div 4096"
      using i n nz by (auto simp: entry_ok_def objects_in_def npages_def)
    then have "entry_step i n ?u e (Some a) ?e u"
      using a lk d0 nz none ds by (simp add: entry_step_def)
    moreover have "zone_entry_alloc c e n lim = Some (Some a, ?e, c\<lparr>user_data := u\<rparr>)"
      using n e(2) d0 pu c(1) Some nz
      by (simp add: zone_entry_alloc_def ZONE_PAGE_SIZE_def page_alloc_def zwired_def)
    ultimately show ?thesis by blast
  qed
qed

lemma entry_alloc_step:
  assumes "zwired c" "valid (user_data c)" "entry_ok i e" "zone_size i n"
    and "12 < i \<Longrightarrow> ze_objects e = 0"
  shows "\<exists>r e' u'. zone_entry_alloc c e n lim = Some (r, e', c\<lparr>user_data := u'\<rparr>) \<and>
    entry_step i n (user_data c) e r e' u'"
proof (cases "i \<le> 12")
  case True
  then show ?thesis using entry_alloc_small [OF assms(1-3)] assms(4) by (simp add: zone_size_def)
next
  case False
  then show ?thesis using entry_alloc_large [OF assms(1-3)] assms(4,5) by (simp add: zone_size_def)
qed

text \<open>An allocation in an entry changes the objects in use by its result.\<close>

lemma entry_step_live:
  assumes inv: "zone_inv zs (held u)" "valid u" and s: "slots zs (i, j, k) = Some e"
    and g: "zp_array g = (zp_array (zs ! i ! j))[k := e']"
    and st: "entry_step i n u e r e' u'" and zs': "zs' = zs[i := (zs ! i)[j := g]]"
  shows "zone_inv zs' (held u')"
    and "case r of None \<Rightarrow> zlive zs' = zlive zs
      | Some a \<Rightarrow> zlive zs a = None \<and> zlive zs' = (zlive zs)(a \<mapsto> n)"
proof -
  from st have u': "valid u'" and ok: "entry_ok i e'" by (auto simp: entry_step_def)
  note slot = zone_inv_slot [OF inv(1)] and ap = held_apart [OF inv(2)] and ap' = held_apart [OF u']
  have fresh: "held u' (ze_data e1) = held u (ze_data e1) \<and> ze_data e1 \<noteq> ze_data e'"
    if "slots zs t = Some e1" "t \<noteq> (i, j, k)" "ze_data e1 \<noteq> 0" for t e1
    using st slot(2) [OF that(1,3)] zone_inv_data [OF inv(1) that(1) s that(2,3)]
    unfolding entry_step_def by auto
  have h: "held u' (ze_data e') = Some (npages i e')" if "ze_data e' \<noteq> 0"
    using st slot(2) [OF s] that unfolding entry_step_def by auto
  show inv': "zone_inv zs' (held u')"
    unfolding zs' by (rule zone_inv_put [OF inv(1) s g ok]) (use fresh h in auto)
  have obj: "zobjects zs' = zrest zs (i, j, k) \<union> objects_in i e'" "zobjects zs = zrest zs (i, j, k) \<union> objects_in i e"
    using zobjects_put [OF s g] zobjects_split [OF s] by (simp_all add: zs')
  show "case r of None \<Rightarrow> zlive zs' = zlive zs
      | Some a \<Rightarrow> zlive zs a = None \<and> zlive zs' = (zlive zs)(a \<mapsto> n)"
  proof (cases r)
    case None
    then show ?thesis using st obj by (simp add: entry_step_def zlive_same)
  next
    case (Some a)
    then have o: "objects_in i e' = insert (a, n) (objects_in i e)" "\<And>m. (a, m) \<notin> objects_in i e"
      using st by (auto simp: entry_step_def)
    have "(a, m) \<notin> zrest zs (i, j, k)" for m
    proof
      assume "(a, m) \<in> zrest zs (i, j, k)"
      then obtain t' e1 where t': "t' \<noteq> (i, j, k)" "slots zs t' = Some e1" "(a, m) \<in> objects_in (fst t') e1"
        unfolding zrest_def by blast
      then have "slots zs' t' = Some e1" "slots zs' (i, j, k) = Some e'"
        using slots_put_entry [OF s g] by (simp_all add: zs')
      moreover have "entry_holds a e'" using o(1) objects_in_holds by blast
      ultimately show False using slot_unique [OF inv' ap' _ _ t'(3)] t'(1) by blast
    qed
    then have "zlive zs a = None \<and> zlive zs' = (zlive zs)(a \<mapsto> n)"
      using zlive_add [OF inv(1) ap inv' ap'] obj o by simp
    then show ?thesis using Some by simp
  qed
qed

text \<open>The result of an allocation of rounded size \<open>n\<close> seen from outside.\<close>

definition grants :: "zone_page list list \<Rightarrow> u32 \<Rightarrow> ptr \<Rightarrow> zone_page list list \<Rightarrow> bool" where
  "grants zs n r zs' \<longleftrightarrow> (case r of None \<Rightarrow> zlive zs' = zlive zs
     | Some a \<Rightarrow> zlive zs a = None \<and> zlive zs' = (zlive zs)(a \<mapsto> n))"

lemma page_alloc_in_step:
  assumes w: "zwired c" "valid (user_data c)" "zone_inv zs (held (user_data c))"
    and b: "busy h (user_data c)" and i: "i < length zs" "j < length (zs ! i)"
    and n: "zone_size i n"
  shows "\<exists>r g u' zs'. zone_page_alloc_in c (zs ! i ! j) n lim = Some (r, g, c\<lparr>user_data := u'\<rparr>) \<and>
    zs' = zs[i := (zs ! i)[j := g]] \<and> valid u' \<and> busy h u' \<and> zone_inv zs' (held u') \<and> grants zs n r zs'"
proof -
  let ?g = "zs ! i ! j" and ?u = "user_data c"
  let ?m = "if unat n < ZONE_PAGE_SIZE then 4096 div n else 1"
  show ?thesis
  proof (cases "seek_entry ?m 0 (zp_array ?g)")
    case None
    then have "zone_page_alloc_in c ?g n lim = Some (None, ?g, c\<lparr>user_data := ?u\<rparr>)"
      by (simp add: zone_page_alloc_in_def Let_def)
    moreover have "zs[i := (zs ! i)[j := ?g]] = zs" by simp
    moreover have "grants zs n None zs" by (simp add: grants_def)
    ultimately show ?thesis using w b
      by (intro exI [of _ None] exI [of _ ?g] exI [of _ ?u] exI [of _ zs]) simp
  next
    case (Some k)
    let ?e = "zp_array ?g ! k"
    have k: "k < length (zp_array ?g)" "ze_objects ?e < ?m" using seek_entry_found [OF Some] by simp_all
    then have s: "slots zs (i, j, k) = Some ?e" using i by (simp add: slots_def)
    have "ze_objects ?e = 0" if "12 < i"
      using k(2) that n by (simp add: zone_size_def ZONE_PAGE_SIZE_def word_less_nat_alt unsigned_eq_0_iff split: if_splits)
    then obtain r e' u' where al: "zone_entry_alloc c ?e n lim = Some (r, e', c\<lparr>user_data := u'\<rparr>)"
      and st: "entry_step i n ?u ?e r e' u'"
      using entry_alloc_step [OF w(1,2) _ n, of ?e lim] zone_inv_slot(1) [OF w(3) s] by auto
    let ?g' = "if r = None then ?g\<lparr>zp_array := (zp_array ?g)[k := e']\<rparr>
        else ?g\<lparr>zp_array := (zp_array ?g)[k := e'], zp_objects := zp_objects ?g + 1\<rparr>"
    have g': "zp_array ?g' = (zp_array ?g)[k := e']" by simp
    have "zone_page_alloc_in c ?g n lim = Some (r, ?g', c\<lparr>user_data := u'\<rparr>)"
      using Some al by (simp add: zone_page_alloc_in_def Let_def)
    moreover have "zone_inv (zs[i := (zs ! i)[j := ?g']]) (held u')" "grants zs n r (zs[i := (zs ! i)[j := ?g']])"
      using entry_step_live [OF w(3,2) s g' st refl] unfolding grants_def by blast+
    moreover have "valid u'" "busy h u'" using st b by (simp_all add: entry_step_def)
    ultimately show ?thesis by blast
  qed
qed

lemma zone_lock_step:
  assumes "zwired c" "valid (user_data c)" "idle (user_data c)"
  obtains h u where "zone_lock c 0 = Some (h, c\<lparr>user_data := u\<rparr>)" "valid u" "busy h u" "held u = held (user_data c)"
  using assms lock_idle [of "user_data c"] by (auto simp: zone_lock_def zwired_def)

lemma zone_unlock_step:
  assumes "zwired c" "valid (user_data c)" "busy h (user_data c)"
  obtains u where "zone_unlock c h = Some (c\<lparr>user_data := u\<rparr>)" "valid u" "idle u" "held u = held (user_data c)"
  using assms unlock_busy [of "user_data c" h] by (auto simp: zone_unlock_def zwired_def)

lemma set_chain_simps [simp]:
  "zones c = Some (a, zs) \<Longrightarrow> zones (set_chain c i ps) = Some (a, zs[i := ps])"
  "user_data (set_chain c i ps) = user_data c" "zwired (set_chain c i ps) = zwired c"
  "zwired (c\<lparr>user_data := u\<rparr>) = zwired c"
  by (simp_all add: set_chain_def zwired_def)

lemma page_alloc_step:
  assumes "zwired c" "valid (user_data c)" "0 < n" "n < 0x100000"
  shows "\<exists>p u. page_alloc c n l = Some (p, c\<lparr>user_data := u\<rparr>) \<and> valid u \<and>
    (\<forall>a m. held (user_data c) a = Some m \<longrightarrow> held u a = Some m) \<and>
    idle u = idle (user_data c) \<and> (\<forall>h. busy h u = busy h (user_data c))"
proof -
  obtain p u where pu: "palloc n l (user_data c) = (p, u)" by fastforce
  have "valid u \<and> (\<forall>a m. held (user_data c) a = Some m \<longrightarrow> held u a = Some m)"
    using palloc_Some [OF assms(2) _ assms(3,4)] palloc_None [OF assms(2)] pu by (cases p) fastforce+
  moreover have "page_alloc c n l = Some (p, c\<lparr>user_data := u\<rparr>)"
    using pu assms(1) by (simp add: page_alloc_def zwired_def)
  ultimately show ?thesis using palloc_lock [OF pu] by blast
qed

lemma zone_page_alloc_spec:
  assumes rel: "zone_rel c zs" "idle (user_data c)" and i: "i < ZONE_MAX_ZONES" "zone_size i n"
  shows "\<exists>r c' zs'. zone_page_alloc c i n lim = Some (r, c') \<and> zone_rel c' zs' \<and> idle (user_data c') \<and>
    grants zs n r zs'"
proof -
  let ?max = "if unat n < ZONE_PAGE_SIZE then (63 * 4096) div n else of_nat ZONE_MAX_ENTRIES :: u32"
  obtain a where w: "zwired c" "valid (user_data c)" "zones c = Some (a, zs)" "zone_inv zs (held (user_data c))"
    using rel by (auto simp: zone_rel_def)
  then have len: "i < length zs" using i by (simp add: zone_inv_def)
  obtain h u1 where 1: "zone_lock c 0 = Some (h, c\<lparr>user_data := u1\<rparr>)" "valid u1" "busy h u1"
      "held u1 = held (user_data c)"
    using zone_lock_step [OF w(1,2) rel(2)] by metis
  obtain full rest where fr: "seek_page ?max (zs ! i) = (full, rest)" by fastforce
  have zi: "zs ! i = full @ rest" using seek_page_split [OF fr] by simp
  let ?next = "case rest of p # ps \<Rightarrow> Some (rest, c\<lparr>user_data := u1\<rparr>)
       | [] \<Rightarrow> do {
           (q, c) \<leftarrow> page_alloc (c\<lparr>user_data := u1\<rparr>) 1 lim;
           Some (case q of None \<Rightarrow> []
                 | Some a \<Rightarrow> [(clear_page a)\<lparr>zp_object_size := ucast n\<rparr>], c) }"
  have "\<exists>rest' u2. ?next = Some (rest', c\<lparr>user_data := u2\<rparr>) \<and> valid u2 \<and> busy h u2 \<and>
      zone_inv (zs[i := full @ rest']) (held u2) \<and> zlive (zs[i := full @ rest']) = zlive zs"
  proof (cases rest)
    case Nil
    obtain p u2 where p: "page_alloc (c\<lparr>user_data := u1\<rparr>) 1 lim = Some (p, c\<lparr>user_data := u2\<rparr>)" "valid u2"
        "\<And>a m. held u1 a = Some m \<Longrightarrow> held u2 a = Some m" "busy h u2"
      using page_alloc_step [of "c\<lparr>user_data := u1\<rparr>" 1 lim] w(1) 1 by fastforce
    have inv2: "zone_inv zs (held u2)" using zone_inv_mono [OF w(4)] p(3) 1(4) by auto
    let ?ps = "case p of None \<Rightarrow> [] | Some a \<Rightarrow> [(clear_page a)\<lparr>zp_object_size := ucast n\<rparr>]"
    have "zone_inv (zs[i := full @ ?ps]) (held u2) \<and> zlive (zs[i := full @ ?ps]) = zlive zs"
    proof (cases p)
      case None
      then have "zs[i := full @ ?ps] = zs" using zi Nil by (metis list_update_id option.simps(4))
      then show ?thesis using inv2 by simp
    next
      case (Some q)
      let ?g = "(clear_page q)\<lparr>zp_object_size := ucast n\<rparr>"
      have "5 \<le> i" "zp_array ?g = replicate ZONE_MAX_ENTRIES clear_entry"
        using i(2) by (simp_all add: zone_size_def clear_page_def)
      note new = zone_inv_new_page [OF inv2 len this]
      have "full @ ?ps = zs ! i @ [?g]" using Some zi Nil by simp
      then show ?thesis using new(1) zlive_same [OF new(2)] by simp
    qed
    then show ?thesis using Nil p by (intro exI [of _ ?ps] exI [of _ u2]) simp
  next
    case (Cons p ps)
    have "zs[i := full @ rest] = zs" using zi by (metis list_update_id)
    then show ?thesis using Cons 1 w(4) by (intro exI [of _ rest] exI [of _ u1]) simp
  qed
  then obtain rest' u2 where 2: "?next = Some (rest', c\<lparr>user_data := u2\<rparr>)" "valid u2" "busy h u2"
      "zone_inv (zs[i := full @ rest']) (held u2)" "zlive (zs[i := full @ rest']) = zlive zs" by blast
  let ?zs = "zs[i := full @ rest']" and ?c = "c\<lparr>user_data := u2\<rparr>"
  let ?al = "case rest' of [] \<Rightarrow> Some (None, ?c)
       | p # ps \<Rightarrow> do {
           (r, p, c) \<leftarrow> zone_page_alloc_in ?c p n lim;
           Some (r, set_chain c i (full @ p # ps)) }"
  have "\<exists>r c3 zs3. ?al = Some (r, c3) \<and> zwired c3 \<and> valid (user_data c3) \<and> busy h (user_data c3) \<and>
      zones c3 = Some (a, zs3) \<and> zone_inv zs3 (held (user_data c3)) \<and> grants zs n r zs3"
  proof (cases rest')
    case Nil
    have "zone_inv zs (held u2)"
    proof (cases rest)
      case Nil
      then have "zs[i := full @ rest'] = zs" using zi \<open>rest' = []\<close> by (metis list_update_id)
      then show ?thesis using 2(4) by simp
    next
      case (Cons p ps)
      then show ?thesis using 2(1) \<open>rest' = []\<close> by simp
    qed
    then show ?thesis using Nil 2 w by (simp add: grants_def)
  next
    case (Cons p ps)
    have ln: "i < length ?zs" "length full < length (?zs ! i)" "?zs ! i ! length full = p"
      using len Cons by simp_all
    obtain r g u3 zs3 where 3: "zone_page_alloc_in ?c p n lim = Some (r, g, ?c\<lparr>user_data := u3\<rparr>)"
        "zs3 = ?zs[i := (?zs ! i)[length full := g]]" "valid u3" "busy h u3" "zone_inv zs3 (held u3)"
        "grants ?zs n r zs3"
      using page_alloc_in_step [of ?c ?zs h i "length full" n lim] 2 w(1) ln i(2) by auto
    have "zs3 = zs[i := full @ g # ps]" using 3(2) len Cons by simp
    moreover have "grants zs n r zs3" using 3(6) unfolding grants_def 2(5) .
    ultimately show ?thesis using 3 Cons w by simp
  qed
  then obtain r c3 zs3 where 3: "?al = Some (r, c3)" "zwired c3" "valid (user_data c3)" "busy h (user_data c3)"
      "zones c3 = Some (a, zs3)" "zone_inv zs3 (held (user_data c3))" "grants zs n r zs3" by blast
  obtain u4 where 4: "zone_unlock c3 h = Some (c3\<lparr>user_data := u4\<rparr>)" "valid u4" "idle u4"
      "held u4 = held (user_data c3)"
    using zone_unlock_step [OF 3(2,3,4)] by metis
  have "zone_page_alloc c i n lim = Some (r, c3\<lparr>user_data := u4\<rparr>)"
    using 1(1) fr 2(1) 3(1) 4(1) w(3) len by (simp add: zone_page_alloc_def get_chain_def Let_def)
  moreover have "zone_rel (c3\<lparr>user_data := u4\<rparr>) zs3"
    using 3 4 by (simp add: zone_rel_def)
  ultimately show ?thesis using 3(7) 4(3) by auto
qed

theorem zone_alloc_spec:
  assumes rel: "zone_rel c zs" "idle (user_data c)" and sz: "zone_fits sz"
  shows "\<exists>r c' zs'. zone_alloc c sz lim = Some (r, c') \<and> zone_rel c' zs' \<and> idle (user_data c') \<and>
    grants zs (align sz) r zs'"
proof -
  obtain i where i: "zone_page_of sz = Some (Some i, align sz)" "zone_size i (align sz)" "i < ZONE_MAX_ZONES"
    using zone_page_of_fits [OF sz] by metis
  obtain a where w: "zwired c" "valid (user_data c)" "zones c = Some (a, zs)" "zone_inv zs (held (user_data c))"
    using rel by (auto simp: zone_rel_def)
  then have len: "i < length zs" using i by (simp add: zone_inv_def)
  then have ch: "get_chain c i = Some (zs ! i)" using w(3) by (simp add: get_chain_def)
  show ?thesis
  proof (cases "zs ! i = []")
    case False
    then show ?thesis using zone_page_alloc_spec [OF rel i(3,2)] i(1) ch by (simp add: zone_alloc_def)
  next
    case True
    obtain p u1 where p: "page_alloc c 1 lim = Some (p, c\<lparr>user_data := u1\<rparr>)" "valid u1" "idle u1"
        "\<And>a m. held (user_data c) a = Some m \<Longrightarrow> held u1 a = Some m"
      using page_alloc_step [OF w(1,2), of 1 lim] rel(2) by fastforce
    have inv1: "zone_inv zs (held u1)" using zone_inv_mono [OF w(4)] p(4) by auto
    show ?thesis
    proof (cases p)
      case None
      then have "zone_alloc c sz lim = Some (None, c\<lparr>user_data := u1\<rparr>)"
        using i(1) ch True p(1) by (simp add: zone_alloc_def)
      moreover have "zone_rel (c\<lparr>user_data := u1\<rparr>) zs" using w inv1 p by (simp add: zone_rel_def)
      ultimately show ?thesis using p(3) by (auto simp: grants_def)
    next
      case (Some q)
      let ?g = "(clear_page q)\<lparr>zp_object_size := ucast (align sz)\<rparr>" and ?c1 = "c\<lparr>user_data := u1\<rparr>"
      obtain h u2 where 2: "zone_lock ?c1 0 = Some (h, ?c1\<lparr>user_data := u2\<rparr>)" "valid u2" "busy h u2" "held u2 = held u1"
        using zone_lock_step [of ?c1] w(1) p by auto
      let ?c2 = "set_chain (c\<lparr>user_data := u2\<rparr>) i [?g]"
      obtain u3 where 3: "zone_unlock ?c2 h = Some (?c2\<lparr>user_data := u3\<rparr>)" "valid u3" "idle u3" "held u3 = held u2"
        using zone_unlock_step [of ?c2 h] w(1) 2 by auto
      have g: "5 \<le> i" "zp_array ?g = replicate ZONE_MAX_ENTRIES clear_entry"
        using i(2) by (simp_all add: zone_size_def clear_page_def)
      have "zone_inv (zs[i := [?g]]) (held u3)" "zobjects (zs[i := [?g]]) = zobjects zs"
        using zone_inv_new_page [OF inv1 len g] True 2(4) 3(4) by simp_all
      note new = this
      have rel3: "zone_rel (?c2\<lparr>user_data := u3\<rparr>) (zs[i := [?g]])"
        unfolding zone_rel_def using w 3 new(1) by (auto intro!: exI [of _ a])
      have lv: "zlive (zs[i := [?g]]) = zlive zs" using zlive_same [OF new(2)] .
      have "zone_alloc c sz lim = zone_page_alloc (?c2\<lparr>user_data := u3\<rparr>) i (align sz) lim"
        using i(1) ch True p(1) Some 2(1) 3(1) by (simp add: zone_alloc_def)
      moreover obtain r c' zs' where "zone_page_alloc (?c2\<lparr>user_data := u3\<rparr>) i (align sz) lim = Some (r, c')"
          "zone_rel c' zs'" "idle (user_data c')" and gr: "grants (zs[i := [?g]]) (align sz) r zs'"
        using zone_page_alloc_spec [OF rel3 _ i(3,2), of lim] 3(3) by auto
      moreover have "grants zs (align sz) r zs'" using gr unfolding grants_def lv .
      ultimately show ?thesis by (intro exI [of _ r] exI [of _ c'] exI [of _ zs']) simp
    qed
  qed
qed

text \<open>Releasing an object in use under any size with its rounding.\<close>

lemma entry_release_live:
  assumes inv: "zone_inv zs (held u)" "valid u" and s: "slots zs (i, j, k) = Some e"
    and g: "zp_array g = (zp_array (zs ! i ! j))[k := e']"
    and e': "entry_ok i e'" "ze_data e' = ze_data e \<and> npages i e' = npages i e \<and> held u' = held u \<or>
        ze_data e' = 0 \<and> held u' = (held u)(ze_data e := None)"
    and u': "valid u'" and o: "objects_in i e = insert (a, n) (objects_in i e')" "\<And>m. (a, m) \<notin> objects_in i e'"
  shows "zone_inv (zs[i := (zs ! i)[j := g]]) (held u') \<and>
    zlive (zs[i := (zs ! i)[j := g]]) = (zlive zs)(a := None)"
proof -
  let ?zs = "zs[i := (zs ! i)[j := g]]"
  have an: "(a, n) \<in> objects_in i e" using o by simp
  note nz = objects_in_range(1) [OF an] and slot = zone_inv_slot [OF inv(1)]
  have fresh: "ze_data e1 \<noteq> ze_data e' \<and> held u' (ze_data e1) = held u (ze_data e1)"
    if "slots zs t = Some e1" "t \<noteq> (i, j, k)" "ze_data e1 \<noteq> 0" for t e1
    using e'(2) zone_inv_data [OF inv(1) that(1) s that(2,3)] that(3) by auto
  have h: "held u' (ze_data e') = Some (npages i e')" if "ze_data e' \<noteq> 0"
    using e'(2) slot(2) [OF s] that by auto
  have inv': "zone_inv ?zs (held u')"
    by (rule zone_inv_put [OF inv(1) s g e'(1)]) (use fresh h in auto)
  have obj: "zobjects ?zs = zrest zs (i, j, k) \<union> objects_in i e'" "zobjects zs = zrest zs (i, j, k) \<union> objects_in i e"
    using zobjects_put [OF s g] zobjects_split [OF s] by simp_all
  have "(a, m) \<notin> zrest zs (i, j, k)" for m
    using zrest_apart [OF inv(1) held_apart [OF inv(2)] s] objects_in_holds [OF an] by blast
  then have "zlive ?zs = (zlive zs)(a := None)"
    using zlive_del [OF inv(1) held_apart [OF inv(2)] inv' held_apart [OF u'], of a n] obj o by simp
  with inv' show ?thesis by simp
qed

theorem zone_free_spec:
  assumes rel: "zone_rel c zs" "idle (user_data c)" and lv: "zlive zs p = Some (align sz)"
  shows "\<exists>c' zs'. zone_free c p sz = Some (0, c') \<and> zone_rel c' zs' \<and> idle (user_data c') \<and>
    zlive zs' = (zlive zs)(p := None)"
proof -
  let ?n = "align sz"
  obtain a where w: "zwired c" "valid (user_data c)" "zones c = Some (a, zs)" "zone_inv zs (held (user_data c))"
    using rel by (auto simp: zone_rel_def)
  note ap = held_apart [OF w(2)]
  obtain i j k e where s: "slots zs (i, j, k) = Some e" and o: "(p, ?n) \<in> objects_in i e"
      and i: "i < ZONE_MAX_ZONES" "bit_number ?n = Some (of_nat i)"
    using zlive_slot [OF w(4) ap lv] by metis
  have ok: "entry_ok i e" using zone_inv_slot(1) [OF w(4) s] by simp
  then have zp: "zone_page_of sz = Some (Some i, ?n)"
    using zone_page_of_live [OF i(2,1)] by (simp add: entry_ok_def)
  from s have lt: "i < length zs" "j < length (zs ! i)" and e: "e = zp_array (zs ! i ! j) ! k"
    by (simp_all add: slots_def split: if_splits)
  obtain h u1 where 1: "zone_lock c 0 = Some (h, c\<lparr>user_data := u1\<rparr>)" "valid u1" "busy h u1"
      "held u1 = held (user_data c)"
    using zone_lock_step [OF w(1,2) rel(2)] by metis
  note fs = find_slot_object [OF w(4) ap s o]
  let ?g = "zs ! i ! j"
  let ?upd = "\<lambda>e' c. set_chain c i ((zs ! i)[j := ?g\<lparr>zp_array := (zp_array ?g)[k := e'],
      zp_objects := zp_objects ?g - 1\<rparr>])"
  have "\<exists>e' u2. zone_free c p sz = do {
        c \<leftarrow> zone_unlock (?upd e' (c\<lparr>user_data := u2\<rparr>)) h; Some (0, c) } \<and> valid u2 \<and> busy h u2 \<and>
      entry_ok i e' \<and> (ze_data e' = ze_data e \<and> npages i e' = npages i e \<and> held u2 = held u1 \<or>
        ze_data e' = 0 \<and> held u2 = (held u1)(ze_data e := None)) \<and>
      objects_in i e = insert (p, ?n) (objects_in i e') \<and> (\<forall>m. (p, m) \<notin> objects_in i e')"
  proof (cases "i \<le> 12")
    case True
    obtain b where b: "object_bit p ?n e = Some (b div 64, b mod 64)" "used e b" "b < 256"
        "b < 4096 div 2 ^ (i - 1)" "p = ze_data e + b * 2 ^ (i - 1)" "?n = 2 ^ (i - 1)"
      using object_bit_used [OF ok True o] by metis
    let ?e = "e\<lparr>bitmap := (bitmap e)[b div 64 := bitmap e ! (b div 64) AND NOT (unit_mask (b mod 64))],
        ze_objects := ze_objects e - 1\<rparr>"
    have len: "length (bitmap e) = 4" using ok by (simp add: entry_ok_def)
    have used: "used ?e m = (m \<noteq> b \<and> used e m)" for m
      using used_set(2) [OF len b(3) refl refl, of m] by (simp add: used_def)
    have nz: "ze_data e \<noteq> 0" using objects_in_range(1) [OF o] .
    have "unat ?n < ZONE_PAGE_SIZE"
    proof -
      have "(2 :: nat) ^ (i - 1) \<le> 2 ^ 11" using True by (intro power_increasing) auto
      then show ?thesis using b(6) True by (simp add: ZONE_PAGE_SIZE_def)
    qed
    then have "zone_free c p sz = do { c \<leftarrow> zone_unlock (?upd ?e (c\<lparr>user_data := u1\<rparr>)) h; Some (0, c) }"
      using zp 1(1) w(3) lt(1) fs b(1) e by (simp add: zone_free_def get_chain_def Let_def)
    moreover have "entry_ok i ?e" using ok nz True by (simp add: entry_ok_def)
    moreover have "objects_in i e = insert (p, ?n) (objects_in i ?e)" "\<And>m. (p, m) \<notin> objects_in i ?e"
      using True nz b unfolding objects_in_def used by auto
    moreover have "npages i ?e = npages i e" using True by (simp add: npages_def)
    ultimately show ?thesis using 1(2,3) by (intro exI [of _ ?e] exI [of _ u1]) simp
  next
    case False
    then have e2: "ze_data e = p" "data_size e = ucast ?n" "ze_objects e \<noteq> 0" "4096 \<le> unat ?n" "p \<noteq> 0"
      "objects_in i e = {(p, ?n)}"
      using ok o by (auto simp: entry_ok_def objects_in_def split: if_splits)
    have "held u1 p = Some (?n div 4096)"
      using zone_inv_slot(2) [OF w(4) s] e2 False 1(4) by (simp add: npages_def)
    note pf = pfree_held [OF 1(2) this]
    let ?e = "(set_data_size 0 e)\<lparr>ze_data := 0, ze_objects := 0\<rparr>"
    have "zone_free c p sz = do {
        c \<leftarrow> zone_unlock (?upd ?e (c\<lparr>user_data := pfree p (?n div 4096) u1\<rparr>)) h; Some (0, c) }"
      using zp 1(1) w(1,3) lt(1) fs e2 e
      by (simp add: zone_free_def get_chain_def Let_def ZONE_PAGE_SIZE_def page_free_def zwired_def)
    moreover have "entry_ok i ?e" "objects_in i ?e = {}"
      using ok False by (simp_all add: entry_ok_def set_data_size_def objects_in_def)
    ultimately show ?thesis using pf e2(1,6) pfree_lock 1(3)
      by (intro exI [of _ ?e] exI [of _ "pfree p (?n div 4096) u1"]) simp
  qed
  then obtain e' u2 where 2: "zone_free c p sz = do {
        c \<leftarrow> zone_unlock (?upd e' (c\<lparr>user_data := u2\<rparr>)) h; Some (0, c) }" "valid u2" "busy h u2"
      "entry_ok i e'" "ze_data e' = ze_data e \<and> npages i e' = npages i e \<and> held u2 = held u1 \<or>
        ze_data e' = 0 \<and> held u2 = (held u1)(ze_data e := None)"
      "objects_in i e = insert (p, ?n) (objects_in i e')" "\<And>m. (p, m) \<notin> objects_in i e'" by blast
  let ?c = "?upd e' (c\<lparr>user_data := u2\<rparr>)"
  let ?zs = "zs[i := (zs ! i)[j := ?g\<lparr>zp_array := (zp_array ?g)[k := e'], zp_objects := zp_objects ?g - 1\<rparr>]]"
  have rl: "zone_inv ?zs (held u2) \<and> zlive ?zs = (zlive zs)(p := None)"
    by (rule entry_release_live [of zs u1, OF _ 1(2) s _ 2(4,5,2,6,7)]) (use w(4) 1(4) in simp_all)
  obtain u3 where 3: "zone_unlock ?c h = Some (?c\<lparr>user_data := u3\<rparr>)" "valid u3" "idle u3" "held u3 = held u2"
    using zone_unlock_step [of ?c h] w(1) 2(2,3) by auto
  have "zone_rel (?c\<lparr>user_data := u3\<rparr>) ?zs"
    unfolding zone_rel_def using w(1,3) 3 rl by (auto intro!: exI [of _ a])
  then show ?thesis using 2(1) 3 rl by auto
qed

lemma zone_rel_apart:
  assumes "zone_rel c zs" "zlive zs a = Some n" "zlive zs b = Some m" "a < b"
  shows "a + unat n \<le> b"
proof -
  have w: "valid (user_data c)" "zone_inv zs (held (user_data c))" using assms(1) by (auto simp: zone_rel_def)
  show ?thesis
    using zobjects_apart [OF w(2) held_apart [OF w(1)]] zlive_iff [OF w(2) held_apart [OF w(1)]] assms(2-4) by blast
qed

lemma zone_inv_initial: "zone_inv (replicate ZONE_MAX_ZONES []) hh" "zlive (replicate ZONE_MAX_ZONES []) = Map.empty"
proof -
  have e: "slots (replicate ZONE_MAX_ZONES []) t = None" for t
    by (cases t) (auto simp: slots_def)
  then show "zone_inv (replicate ZONE_MAX_ZONES []) hh" by (simp add: zone_inv_def)
  show "zlive (replicate ZONE_MAX_ZONES []) = Map.empty"
    by (rule ext) (simp add: zlive_def zobjects_def e)
qed

lemma zone_init_spec:
  assumes "zwired c" "valid (user_data c)" "idle (user_data c)" "zones c = None"
  shows "\<exists>r c'. zone_init c = Some (r, c') \<and> zwired c' \<and> valid (user_data c') \<and> idle (user_data c') \<and>
    (if r = 0 then zone_rel c' (replicate ZONE_MAX_ZONES []) else zones c' = None)"
proof -
  obtain p u where p: "page_alloc c 1 (z_limit c) = Some (p, c\<lparr>user_data := u\<rparr>)" "valid u" "idle u"
    using page_alloc_step [OF assms(1,2), of 1 "z_limit c"] assms(3) by fastforce
  have "pf_page_alloc c \<noteq> None" "pf_page_free c \<noteq> None" using assms(1) by (auto simp: zwired_def)
  then have "zone_init c = Some (case p of None \<Rightarrow> (-1, c\<lparr>user_data := u, zones := None\<rparr>)
      | Some a \<Rightarrow> (0, c\<lparr>user_data := u, zones := Some (a, replicate ZONE_MAX_ZONES [])\<rparr>))"
    using p(1) assms(4) by (cases p) (simp_all add: zone_init_def)
  then show ?thesis
    using p(2,3) assms(1) zone_inv_initial(1) by (cases p) (auto simp: zone_rel_def zwired_def)
qed

end

end
