(* ===== verification/Heaps.thy ===== *)
theory Heaps
  imports ZoneSpec
begin

text \<open>
  The two users of the zone allocator: the global functions of core/repository-2/zalloc.cpp, locked
  by a \<open>mutex\<close>, and the class \<open>cZoneHeap\<close> of core/mem/zone_heap.cpp, locked by a
  \<open>std::mutex\<close>. Both take their pages from \<open>malloc\<close>; each is shown to meet \<open>zone_callbacks\<close>.
\<close>

section \<open>malloc and free\<close>

text \<open>The C library's heap: \<open>malloc\<close> returns a block apart from all others and outside the first
  page of memory, or NULL when there is no room for it.\<close>

record libc =
  brk :: addr
  room :: nat
  blocks :: "addr \<rightharpoonup> nat"

definition malloc :: "nat \<Rightarrow> libc \<Rightarrow> ptr \<times> libc" where
  "malloc n m =
     (if n \<le> room m then
        (Some (brk m), m\<lparr>brk := brk m + n + 16, room := room m - n, blocks := (blocks m)(brk m \<mapsto> n)\<rparr>)
      else (None, m))"

definition libc_free :: "addr \<Rightarrow> libc \<Rightarrow> libc" where
  "libc_free a m = m\<lparr>blocks := (blocks m)(a := None)\<rparr>"

definition libc_ok :: "libc \<Rightarrow> bool" where
  "libc_ok m \<longleftrightarrow> 4096 \<le> brk m \<and> (\<forall>a n. blocks m a = Some n \<longrightarrow> 4096 \<le> a \<and> a + n < brk m) \<and>
     (\<forall>a b n k. blocks m a = Some n \<longrightarrow> blocks m b = Some k \<longrightarrow> a < b \<longrightarrow> a + n \<le> b)"

text \<open>\<open>malloc(num * ZONE_PAGE_SIZE)\<close>: the product is an unsigned int.\<close>

definition pages_malloc :: "u32 \<Rightarrow> libc \<Rightarrow> ptr \<times> libc" where
  "pages_malloc num m = malloc (unat (num * 4096)) m"

definition libc_held :: "libc \<Rightarrow> addr \<rightharpoonup> u32" where
  "libc_held m a = map_option (\<lambda>n. of_nat (n div 4096)) (blocks m a)"

lemma unat_pages: "(n :: u32) < 0x100000 \<Longrightarrow> unat (n * 4096) = unat n * 4096"
  by (simp add: unat_word_ariths word_less_nat_alt)

lemma libc_ok_alloc: "libc_ok m \<Longrightarrow> pages_malloc n m = (Some a, m') \<Longrightarrow> n < 0x100000 \<Longrightarrow>
    libc_ok m' \<and> libc_held m a = None \<and> libc_held m' = (libc_held m)(a \<mapsto> n)"
proof -
  assume ok: "libc_ok m" and al: "pages_malloc n m = (Some a, m')" and n: "n < 0x100000"
  from al have a: "a = brk m" and m': "m' = m\<lparr>brk := brk m + unat n * 4096 + 16,
      room := room m - unat n * 4096, blocks := (blocks m)(a \<mapsto> unat n * 4096)\<rparr>"
    by (auto simp: pages_malloc_def malloc_def unat_pages [OF n] split: if_splits)
  have "blocks m a = None" using ok a unfolding libc_ok_def by (cases "blocks m a") force+
  moreover have "libc_ok m'"
  proof -
    have b: "4096 \<le> brk m" "\<And>x k. blocks m x = Some k \<Longrightarrow> 4096 \<le> x \<and> x + k < brk m"
      "\<And>x y k l. blocks m x = Some k \<Longrightarrow> blocks m y = Some l \<Longrightarrow> x < y \<Longrightarrow> x + k \<le> y"
      using ok unfolding libc_ok_def by blast+
    have "4096 \<le> x \<and> x + k < brk m'" if "blocks m' x = Some k" for x k
      using that b(1) b(2) [of x k] by (cases "x = a") (auto simp: m' a)
    moreover have "x + k \<le> y" if "blocks m' x = Some k" "blocks m' y = Some l" "x < y" for x y k l
      using that b(2) [of x k] b(2) [of y l] b(3) [of x k y l] by (cases "x = a"; cases "y = a") (auto simp: m' a)
    moreover have "4096 \<le> brk m'" using b(1) by (simp add: m')
    ultimately show ?thesis unfolding libc_ok_def by blast
  qed
  moreover have "libc_held m' = (libc_held m)(a \<mapsto> n)" by (auto simp: libc_held_def m')
  ultimately show ?thesis by (simp add: libc_held_def)
qed

lemma libc_ok_fail: "pages_malloc n m = (None, m') \<Longrightarrow> m' = m"
  by (auto simp: pages_malloc_def malloc_def split: if_splits)

lemma libc_ok_free: "libc_ok m \<Longrightarrow> libc_ok (libc_free a m) \<and>
    libc_held (libc_free a m) = (libc_held m)(a := None)"
  by (auto simp: libc_ok_def libc_free_def libc_held_def)

lemma libc_apart: "libc_ok m \<Longrightarrow> apart (libc_held m)"
proof -
  assume ok: "libc_ok m"
  have "unat (of_nat (n div 4096) :: u32) * 4096 \<le> n" for n
  proof -
    have "unat (of_nat (n div 4096) :: u32) \<le> n div 4096" by (simp add: unat_of_nat)
    then have "unat (of_nat (n div 4096) :: u32) * 4096 \<le> n div 4096 * 4096" by simp
    also have "\<dots> \<le> n" by simp
    finally show ?thesis .
  qed
  note le = this
  have "a + unat (of_nat (n div 4096) :: u32) * 4096 \<le> b"
    if "blocks m a = Some n" "blocks m b = Some k" "a < b" for a b n k
  proof -
    have "a + n \<le> b" using ok that unfolding libc_ok_def by blast
    then show ?thesis using le [of n] by linarith
  qed
  moreover have "4096 \<le> a" if "blocks m a = Some n" for a n using ok that unfolding libc_ok_def by blast
  ultimately show ?thesis by (auto simp: apart_def libc_held_def ZONE_PAGE_SIZE_def)
qed

section \<open>The global allocator of the repository\<close>

record zglobals =
  g_zmutex :: mutex
  g_libc :: libc

record zalloc_state =
  g_zcontext :: "zglobals zone_context"
  g_is_init :: bool

definition zlock :: "u64 \<Rightarrow> zglobals \<Rightarrow> (u64 \<times> zglobals) option" where
  "zlock h u = do { (r, m) \<leftarrow> mutex_lock (g_zmutex u) h; Some (r, u\<lparr>g_zmutex := m\<rparr>) }"

definition zunlock :: "u64 \<Rightarrow> zglobals \<Rightarrow> zglobals option" where
  "zunlock h u = do { m \<leftarrow> mutex_unlock (g_zmutex u) h; Some (u\<lparr>g_zmutex := m\<rparr>) }"

definition zpage_alloc :: "u32 \<Rightarrow> u64 \<Rightarrow> zglobals \<Rightarrow> ptr \<times> zglobals" where
  "zpage_alloc num lim u = (case pages_malloc num (g_libc u) of (p, m) \<Rightarrow> (p, u\<lparr>g_libc := m\<rparr>))"

definition zpage_free :: "addr \<Rightarrow> u32 \<Rightarrow> zglobals \<Rightarrow> zglobals" where
  "zpage_free p num u = u\<lparr>g_libc := libc_free p (g_libc u)\<rparr>"

definition zcontext_0 :: "zglobals \<Rightarrow> zglobals zone_context" where
  "zcontext_0 u = \<lparr>pf_page_alloc = Some zpage_alloc, pf_page_free = Some zpage_free,
     pf_mutex_lock = Some zlock, pf_mutex_unlock = Some zunlock,
     zones = None, z_limit = ZONE_DEFAULT_LIMIT, user_data = u\<rparr>"

definition zinit :: "zalloc_state \<Rightarrow> (bool \<times> zalloc_state) option" where
  "zinit g = (if g_is_init g then Some (True, g)
     else do {
       (r, c) \<leftarrow> zone_init (g_zcontext g);
       Some (r = 0, g\<lparr>g_zcontext := c, g_is_init := (r = 0)\<rparr>) })"

definition is_zinit :: "zalloc_state \<Rightarrow> bool" where
  "is_zinit g = g_is_init g"

text \<open>A failed assertion is \<open>None\<close>.\<close>

definition zalloc :: "u32 \<Rightarrow> zalloc_state \<Rightarrow> (ptr \<times> zalloc_state) option" where
  "zalloc sz g =
     (if g_is_init g then do {
        (r, c) \<leftarrow> zone_alloc (g_zcontext g) sz ZONE_DEFAULT_LIMIT;
        Some (r, g\<lparr>g_zcontext := c\<rparr>) }
      else None)"

definition zfree :: "addr \<Rightarrow> u32 \<Rightarrow> zalloc_state \<Rightarrow> zalloc_state option" where
  "zfree p sz g =
     (if g_is_init g then do {
        (r, c) \<leftarrow> zone_free (g_zcontext g) p sz;
        Some (g\<lparr>g_zcontext := c\<rparr>) }
      else Some g)"

definition zverify :: "addr \<Rightarrow> u32 \<Rightarrow> zalloc_state \<Rightarrow> (bool \<times> zalloc_state) option" where
  "zverify p sz g =
     (if g_is_init g then do {
        (r, c) \<leftarrow> zone_verify (g_zcontext g) p sz;
        Some (r \<noteq> 0, g\<lparr>g_zcontext := c\<rparr>) }
      else None)"

definition zdestroy :: "zalloc_state \<Rightarrow> zalloc_state option" where
  "zdestroy g =
     (if g_is_init g then do {
        (_, c) \<leftarrow> zone_destroy (g_zcontext g);
        Some (g\<lparr>g_zcontext := c, g_is_init := False\<rparr>) }
      else Some g)"

definition zg_held :: "zglobals \<Rightarrow> addr \<rightharpoonup> u32" where "zg_held u = libc_held (g_libc u)"
definition zg_valid :: "zglobals \<Rightarrow> bool" where "zg_valid u \<longleftrightarrow> mutex_ok (g_zmutex u) \<and> libc_ok (g_libc u)"
definition zg_idle :: "zglobals \<Rightarrow> bool" where "zg_idle u \<longleftrightarrow> mutex_owner (g_zmutex u) = None"
definition zg_busy :: "u64 \<Rightarrow> zglobals \<Rightarrow> bool" where "zg_busy h u \<longleftrightarrow> mutex_owner (g_zmutex u) = Some (h, 1)"

lemmas zg_defs = zg_held_def zg_valid_def zg_idle_def zg_busy_def

interpretation zg: zone_callbacks zlock zunlock zpage_alloc zpage_free zg_held zg_valid zg_idle zg_busy
proof (unfold_locales, goal_cases)
  case (1 u)
  then obtain h m where "mutex_lock (g_zmutex u) 0 = Some (h, m)" "mutex_ok m" "mutex_owner m = Some (h, 1)"
    using mutex.lock_free [of "g_zmutex u"] by (auto simp: zg_defs)
  then show ?case using 1 by (auto simp: zlock_def zg_defs)
next
  case (2 u h)
  then obtain m where "mutex_unlock (g_zmutex u) h = Some m" "mutex_ok m" "mutex_owner m = None"
    using mutex.unlock_owner [of "g_zmutex u" h 1] by (auto simp: zg_defs)
  then show ?case using 2 by (auto simp: zunlock_def zg_defs)
next
  case (3 u n l a u')
  then show ?case using libc_ok_alloc [of "g_libc u" n a]
    by (auto simp: zpage_alloc_def zg_defs split: prod.splits)
next
  case (4 u n l u')
  then show ?case by (auto simp: zpage_alloc_def zg_defs dest: libc_ok_fail split: prod.splits)
next
  case (5 n l u p u' h)
  then show ?case by (auto simp: zpage_alloc_def zg_defs split: prod.splits)
next
  case (6 u a n)
  then show ?case using libc_ok_free [of "g_libc u" a] by (auto simp: zpage_free_def zg_defs)
next
  case (7 a n u h)
  then show ?case by (simp add: zpage_free_def zg_defs)
next
  case (8 u)
  then show ?case by (simp add: zg_defs libc_apart)
qed

text \<open>The allocator in working order and the objects it has given out.\<close>

definition zalloc_ok :: "zalloc_state \<Rightarrow> bool" where
  "zalloc_ok g \<longleftrightarrow> g_is_init g \<and> zg_idle (user_data (g_zcontext g)) \<and>
     (\<exists>zs. zg.zone_rel (g_zcontext g) zs)"

definition zalloc_live :: "zalloc_state \<Rightarrow> addr \<rightharpoonup> u32" where
  "zalloc_live g = (case zones (g_zcontext g) of None \<Rightarrow> Map.empty | Some (a, zs) \<Rightarrow> zlive zs)"

lemma zalloc_ok_rel:
  "zalloc_ok g \<longleftrightarrow> g_is_init g \<and> zg_idle (user_data (g_zcontext g)) \<and>
     (\<exists>zs. zg.zone_rel (g_zcontext g) zs \<and> zalloc_live g = zlive zs)"
  by (auto simp: zalloc_ok_def zalloc_live_def zg.zone_rel_def)

lemma zalloc_rel:
  assumes "zalloc_ok g" "zone_fits sz"
  shows "\<exists>r g'. zalloc sz g = Some (r, g') \<and> zalloc_ok g' \<and>
    (case r of None \<Rightarrow> zalloc_live g' = zalloc_live g
     | Some a \<Rightarrow> zalloc_live g a = None \<and> zalloc_live g' = (zalloc_live g)(a \<mapsto> align sz))"
proof -
  obtain zs where g: "g_is_init g" "zg_idle (user_data (g_zcontext g))" "zg.zone_rel (g_zcontext g) zs"
    "zalloc_live g = zlive zs" using assms(1) unfolding zalloc_ok_rel by blast
  obtain r c zs' where r: "zone_alloc (g_zcontext g) sz ZONE_DEFAULT_LIMIT = Some (r, c)" "zg.zone_rel c zs'"
      "zg_idle (user_data c)" "zg.grants zs (align sz) r zs'"
    using zg.zone_alloc_spec [OF g(3,2) assms(2)] by blast
  let ?g = "g\<lparr>g_zcontext := c\<rparr>"
  have lv: "zalloc_live ?g = zlive zs'" using r(2) by (auto simp: zalloc_live_def zg.zone_rel_def)
  have "zalloc_ok ?g" using g(1) r(2,3) by (auto simp: zalloc_ok_def)
  moreover have "zalloc sz g = Some (r, ?g)" using g(1) r(1) by (simp add: zalloc_def)
  ultimately show ?thesis using r(4) unfolding zg.grants_def g(4) lv [symmetric] by blast
qed

text \<open>A request that returns has a size the allocator serves.\<close>

lemma zone_alloc_fits: "zone_alloc c sz lim = Some x \<Longrightarrow> zone_fits sz"
proof (rule ccontr)
  assume some: "zone_alloc c sz lim = Some x" and "\<not> zone_fits sz"
  then have "align sz = 0"
    using align_wraps [of sz] by (cases "sz = 0") (auto simp: align_def zone_fits_def word_le_nat_alt)
  then show False using some bit_number_0 by (simp add: zone_alloc_def zone_page_of_def)
qed

lemma zalloc_Some:
  assumes "zalloc_ok g" "zalloc sz g = Some (Some a, g')"
  shows "zalloc_live g a = None \<and> zalloc_live g' = (zalloc_live g)(a \<mapsto> align sz) \<and> zalloc_ok g'"
proof -
  have "zone_fits sz" using assms zone_alloc_fits by (auto simp: zalloc_def bind_Some_iff split: if_splits)
  then show ?thesis using zalloc_rel [OF assms(1), of sz] assms(2) by auto
qed

lemma zalloc_None:
  assumes "zalloc_ok g" "zalloc sz g = Some (None, g')"
  shows "zalloc_live g' = zalloc_live g \<and> zalloc_ok g'"
proof -
  have "zone_fits sz" using assms zone_alloc_fits by (auto simp: zalloc_def bind_Some_iff split: if_splits)
  then show ?thesis using zalloc_rel [OF assms(1), of sz] assms(2) by auto
qed

lemma zfree_rel:
  assumes "zalloc_ok g" "zalloc_live g a = Some (align sz)"
  shows "\<exists>g'. zfree a sz g = Some g' \<and> zalloc_ok g' \<and> zalloc_live g' = (zalloc_live g)(a := None)"
proof -
  obtain zs where g: "g_is_init g" "zg_idle (user_data (g_zcontext g))" "zg.zone_rel (g_zcontext g) zs"
    "zalloc_live g = zlive zs" using assms(1) unfolding zalloc_ok_rel by blast
  obtain c zs' where r: "zone_free (g_zcontext g) a sz = Some (0, c)" "zg.zone_rel c zs'"
      "zg_idle (user_data c)" "zlive zs' = (zlive zs)(a := None)"
    using zg.zone_free_spec [OF g(3,2)] assms(2) g(4) by metis
  let ?g = "g\<lparr>g_zcontext := c\<rparr>"
  have "zalloc_live ?g = zlive zs'" using r(2) by (auto simp: zalloc_live_def zg.zone_rel_def)
  moreover have "zalloc_ok ?g" using g(1) r(2,3) by (auto simp: zalloc_ok_def)
  moreover have "zfree a sz g = Some ?g" using g(1) r(1) by (simp add: zfree_def)
  ultimately show ?thesis using r(4) g(4) by simp
qed

definition zglobals_0 :: "u64 \<Rightarrow> nat \<Rightarrow> zglobals" where
  "zglobals_0 this n = \<lparr>g_zmutex = mutex_new this, g_libc = \<lparr>brk = 65536, room = n, blocks = Map.empty\<rparr>\<rparr>"

definition zalloc_0 :: "u64 \<Rightarrow> nat \<Rightarrow> zalloc_state" where
  "zalloc_0 this n = \<lparr>g_zcontext = zcontext_0 (zglobals_0 this n), g_is_init = False\<rparr>"

lemma zinit_rel:
  assumes "(ucast this :: u32) \<noteq> 0"
  shows "\<exists>r g. zinit (zalloc_0 this n) = Some (r, g) \<and> (r \<longrightarrow> zalloc_ok g \<and> zalloc_live g = Map.empty)"
proof -
  let ?c = "zcontext_0 (zglobals_0 this n)"
  have "zg.zwired ?c" "zg_valid (user_data ?c)" "zg_idle (user_data ?c)" "zones ?c = None"
    using assms by (simp_all add: zcontext_0_def zg.zwired_def zglobals_0_def zg_defs mutex_new_def
      mutex_ok_def mutex_owner_def libc_ok_def)
  from zg.zone_init_spec [OF this] obtain r c where c: "zone_init ?c = Some (r, c)"
    "zg_idle (user_data c)" "if r = 0 then zg.zone_rel c (replicate ZONE_MAX_ZONES []) else zones c = None"
    by blast
  let ?g = "(zalloc_0 this n)\<lparr>g_zcontext := c, g_is_init := (r = 0)\<rparr>"
  have "zinit (zalloc_0 this n) = Some (r = 0, ?g)" using c(1) by (simp add: zinit_def zalloc_0_def)
  moreover have "r = 0 \<longrightarrow> zalloc_ok ?g \<and> zalloc_live ?g = Map.empty"
    using c(2,3) zg.zone_inv_initial(2) by (auto simp: zalloc_ok_def zalloc_live_def zg.zone_rel_def split: if_splits)
  ultimately show ?thesis by blast
qed

section \<open>The class cZoneHeap\<close>

record zheap_user =
  m_sync :: bool    \<comment> \<open>the \<open>std::mutex\<close> is locked\<close>
  m_libc :: libc

type_synonym cZoneHeap = "zheap_user zone_context"

definition zh_lock :: "u64 \<Rightarrow> zheap_user \<Rightarrow> (u64 \<times> zheap_user) option" where
  "zh_lock h u = (if m_sync u then None else Some (0, u\<lparr>m_sync := True\<rparr>))"

definition zh_unlock :: "u64 \<Rightarrow> zheap_user \<Rightarrow> zheap_user option" where
  "zh_unlock h u = (if m_sync u then Some (u\<lparr>m_sync := False\<rparr>) else None)"

definition zh_page_alloc :: "u32 \<Rightarrow> u64 \<Rightarrow> zheap_user \<Rightarrow> ptr \<times> zheap_user" where
  "zh_page_alloc num lim u = (case pages_malloc num (m_libc u) of (p, m) \<Rightarrow> (p, u\<lparr>m_libc := m\<rparr>))"

definition zh_page_free :: "addr \<Rightarrow> u32 \<Rightarrow> zheap_user \<Rightarrow> zheap_user" where
  "zh_page_free p num u = u\<lparr>m_libc := libc_free p (m_libc u)\<rparr>"

definition init_zone_context :: "cZoneHeap \<Rightarrow> cZoneHeap" where
  "init_zone_context z = z\<lparr>z_limit := ZONE_DEFAULT_LIMIT, zones := None,
     pf_page_alloc := Some zh_page_alloc, pf_page_free := Some zh_page_free,
     pf_mutex_lock := Some zh_lock, pf_mutex_unlock := Some zh_unlock\<rparr>"

definition cZoneHeap_object_ctl :: "octl \<Rightarrow> cZoneHeap \<Rightarrow> (bool \<times> cZoneHeap) option" where
  "cZoneHeap_object_ctl cmd z =
     (case cmd of
        OCTL_INIT \<Rightarrow> do { (r, z) \<leftarrow> zone_init (init_zone_context z); Some (r = 0, z) }
      | OCTL_UNINIT \<Rightarrow> do { (_, z) \<leftarrow> zone_destroy z; Some (True, z) }
      | _ \<Rightarrow> Some (False, z))"

definition cZoneHeap_alloc :: "u32 \<Rightarrow> cZoneHeap \<Rightarrow> (ptr \<times> cZoneHeap) option" where
  "cZoneHeap_alloc sz z = zone_alloc z sz ZONE_DEFAULT_LIMIT"

text \<open>Without \<open>NDEBUG\<close>, releasing something that is not in use fails the assertion.\<close>

definition cZoneHeap_free :: "bool \<Rightarrow> addr \<Rightarrow> u32 \<Rightarrow> cZoneHeap \<Rightarrow> cZoneHeap option" where
  "cZoneHeap_free ndebug p sz z = do {
     (r, z) \<leftarrow> zone_free z p sz;
     if ndebug \<or> r = 0 then Some z else None }"

definition cZoneHeap_verify :: "addr \<Rightarrow> u32 \<Rightarrow> cZoneHeap \<Rightarrow> (bool \<times> cZoneHeap) option" where
  "cZoneHeap_verify p sz z = do { (r, z) \<leftarrow> zone_verify z p sz; Some (r = 1, z) }"

definition zh_held :: "zheap_user \<Rightarrow> addr \<rightharpoonup> u32" where "zh_held u = libc_held (m_libc u)"
definition zh_valid :: "zheap_user \<Rightarrow> bool" where "zh_valid u \<longleftrightarrow> libc_ok (m_libc u)"
definition zh_idle :: "zheap_user \<Rightarrow> bool" where "zh_idle u \<longleftrightarrow> \<not> m_sync u"
definition zh_busy :: "u64 \<Rightarrow> zheap_user \<Rightarrow> bool" where "zh_busy h u \<longleftrightarrow> m_sync u"

lemmas zh_defs = zh_held_def zh_valid_def zh_idle_def zh_busy_def

interpretation zh: zone_callbacks zh_lock zh_unlock zh_page_alloc zh_page_free zh_held zh_valid zh_idle zh_busy
proof (unfold_locales, goal_cases)
  case (3 u n l a u')
  then show ?case using libc_ok_alloc [of "m_libc u" n a]
    by (auto simp: zh_page_alloc_def zh_defs split: prod.splits)
next
  case (4 u n l u')
  then show ?case by (auto simp: zh_page_alloc_def zh_defs dest: libc_ok_fail split: prod.splits)
next
  case (5 n l u p u' h)
  then show ?case by (auto simp: zh_page_alloc_def zh_defs split: prod.splits)
next
  case (6 u a n)
  then show ?case using libc_ok_free [of "m_libc u" a] by (auto simp: zh_page_free_def zh_defs)
qed (auto simp: zh_lock_def zh_unlock_def zh_page_free_def zh_defs libc_apart)

definition cZoneHeap_ok :: "cZoneHeap \<Rightarrow> bool" where
  "cZoneHeap_ok z \<longleftrightarrow> zh_idle (user_data z) \<and> (\<exists>zs. zh.zone_rel z zs)"

definition cZoneHeap_live :: "cZoneHeap \<Rightarrow> addr \<rightharpoonup> u32" where
  "cZoneHeap_live z = (case zones z of None \<Rightarrow> Map.empty | Some (a, zs) \<Rightarrow> zlive zs)"

lemma cZoneHeap_live_rel: "zh.zone_rel z zs \<Longrightarrow> cZoneHeap_live z = zlive zs"
  by (auto simp: cZoneHeap_live_def zh.zone_rel_def)

lemma cZoneHeap_alloc_rel:
  assumes "cZoneHeap_ok z" "zone_fits sz"
  shows "\<exists>r z'. cZoneHeap_alloc sz z = Some (r, z') \<and> cZoneHeap_ok z' \<and>
    (case r of None \<Rightarrow> cZoneHeap_live z' = cZoneHeap_live z
     | Some a \<Rightarrow> cZoneHeap_live z a = None \<and> cZoneHeap_live z' = (cZoneHeap_live z)(a \<mapsto> align sz))"
proof -
  obtain zs where z: "zh_idle (user_data z)" "zh.zone_rel z zs" using assms(1) by (auto simp: cZoneHeap_ok_def)
  obtain r z' zs' where r: "zone_alloc z sz ZONE_DEFAULT_LIMIT = Some (r, z')" "zh.zone_rel z' zs'"
      "zh_idle (user_data z')" "zh.grants zs (align sz) r zs'"
    using zh.zone_alloc_spec [OF z(2,1) assms(2)] by blast
  have "cZoneHeap_ok z'" using r(2,3) by (auto simp: cZoneHeap_ok_def)
  then show ?thesis
    using r(1,4) cZoneHeap_live_rel [OF z(2)] cZoneHeap_live_rel [OF r(2)]
    by (auto simp: cZoneHeap_alloc_def zh.grants_def split: option.splits)
qed

lemma cZoneHeap_alloc_Some:
  assumes "cZoneHeap_ok z" "cZoneHeap_alloc sz z = Some (Some a, z')"
  shows "cZoneHeap_live z a = None \<and> cZoneHeap_live z' = (cZoneHeap_live z)(a \<mapsto> align sz) \<and> cZoneHeap_ok z'"
  using cZoneHeap_alloc_rel [OF assms(1), of sz] assms(2) zone_alloc_fits
  by (fastforce simp: cZoneHeap_alloc_def)

lemma cZoneHeap_alloc_None:
  assumes "cZoneHeap_ok z" "cZoneHeap_alloc sz z = Some (None, z')"
  shows "cZoneHeap_live z' = cZoneHeap_live z \<and> cZoneHeap_ok z'"
  using cZoneHeap_alloc_rel [OF assms(1), of sz] assms(2) zone_alloc_fits
  by (fastforce simp: cZoneHeap_alloc_def)

lemma cZoneHeap_free_rel:
  assumes "cZoneHeap_ok z" "cZoneHeap_live z a = Some (align sz)"
  shows "\<exists>z'. cZoneHeap_free nd a sz z = Some z' \<and> cZoneHeap_ok z' \<and>
    cZoneHeap_live z' = (cZoneHeap_live z)(a := None)"
proof -
  obtain zs where z: "zh_idle (user_data z)" "zh.zone_rel z zs" using assms(1) by (auto simp: cZoneHeap_ok_def)
  obtain z' zs' where r: "zone_free z a sz = Some (0, z')" "zh.zone_rel z' zs'"
      "zh_idle (user_data z')" "zlive zs' = (zlive zs)(a := None)"
    using zh.zone_free_spec [OF z(2,1)] assms(2) cZoneHeap_live_rel [OF z(2)] by metis
  have "cZoneHeap_ok z'" using r(2,3) by (auto simp: cZoneHeap_ok_def)
  then show ?thesis
    using r(1,4) cZoneHeap_live_rel [OF z(2)] cZoneHeap_live_rel [OF r(2)] by (auto simp: cZoneHeap_free_def)
qed

section \<open>Properties\<close>

text \<open>An allocator at work: 400 kB of memory, just initialised.\<close>

definition zalloc_1 :: zalloc_state where
  "zalloc_1 = snd (the (zinit (zalloc_0 0x1000 409600)))"

lemma zalloc_1_ok: "zalloc_ok zalloc_1" "zalloc_live zalloc_1 = Map.empty"
proof -
  have "fst (the (zinit (zalloc_0 0x1000 409600)))"
    by (simp add: zinit_def zalloc_0_def zcontext_0_def zglobals_0_def zone_init_def page_alloc_def
      zpage_alloc_def pages_malloc_def malloc_def)
  moreover obtain r g where "zinit (zalloc_0 0x1000 409600) = Some (r, g)"
      "r \<longrightarrow> zalloc_ok g \<and> zalloc_live g = Map.empty"
    using zinit_rel [of "0x1000" 409600] by auto
  ultimately show "zalloc_ok zalloc_1" "zalloc_live zalloc_1 = Map.empty" by (simp_all add: zalloc_1_def)
qed

lemma zone_page_of_4096: "zone_page_of 4096 = Some (Some 13, 4096)"
proof -
  have "bit_number 4096 = Some 13" using bit_number_unique [of 4096 12] by simp
  then show ?thesis by (simp add: zone_page_of_def align_def ZONE_MIN_ALLOC_def ZONE_MAX_ZONES_def)
qed

lemma seek_entry_clear: "0 < m \<Longrightarrow> seek_entry m 0 (replicate 63 clear_entry) = Some 0"
  by (simp add: numeral_eq_Suc clear_entry_def)

lemma entry_seek_clear: "0 < m \<Longrightarrow> entry_seek (replicate 4 0) m 0 0 0 = Some (0, 0, 0)"
  by (subst entry_seek.simps) (simp add: ZONE_BITMAP_UNIT_BITS_def)

lemmas malloc_eval = page_alloc_def pages_malloc_def malloc_def
lemmas zg_init_eval = zinit_def zalloc_0_def zcontext_0_def zglobals_0_def zone_init_def zpage_alloc_def
lemmas zg_lock_eval = zone_lock_def zlock_def mutex_lock_def mutex_new_def get_handle_def make_handle_def
  zone_unlock_def zunlock_def mutex_unlock_def set_chain_def get_chain_def
lemmas zone_page_eval = clear_page_def ZONE_PAGE_SIZE_def ZONE_MAX_ENTRIES_def zone_page_alloc_in_def
  seek_entry_clear zone_entry_alloc_def

lemma zalloc_1_alloc: "\<exists>a g. zalloc 4096 zalloc_1 = Some (Some a, g)"
  apply (simp add: zalloc_1_def zg_init_eval malloc_eval zalloc_def zone_alloc_def zone_page_of_4096
      get_chain_def ZONE_MAX_ZONES_def)
  apply (simp add: zg_lock_eval)
  apply (simp add: zone_page_alloc_def zg_lock_eval)
  apply (simp add: zone_page_eval malloc_eval zpage_alloc_def)
  apply (simp add: clear_entry_def zg_lock_eval)
  done

text \<open>C1: \<open>zalloc\<close> returns for every size from 1 to 0xFFFFF000: either NULL with the objects in use
  unchanged, or an object at least as large as asked for that was not in use and overlaps no
  object in use; nothing else changes.\<close>

theorem zalloc_object_apart:
  assumes "zalloc_ok g" "zone_fits sz"
  shows "\<exists>r g'. zalloc sz g = Some (r, g') \<and> zalloc_ok g' \<and>
    (case r of None \<Rightarrow> zalloc_live g' = zalloc_live g
     | Some a \<Rightarrow> zalloc_live g' = (zalloc_live g)(a \<mapsto> align sz) \<and> unat sz \<le> unat (align sz) \<and>
         (\<forall>b m. zalloc_live g b = Some m \<longrightarrow> a + unat (align sz) \<le> b \<or> b + unat m \<le> a))"
proof -
  obtain r g' where r: "zalloc sz g = Some (r, g')" "zalloc_ok g'"
    "case r of None \<Rightarrow> zalloc_live g' = zalloc_live g
     | Some a \<Rightarrow> zalloc_live g a = None \<and> zalloc_live g' = (zalloc_live g)(a \<mapsto> align sz)"
    using zalloc_rel [OF assms] by blast
  have "a + unat (align sz) \<le> b \<or> b + unat m \<le> a" if "r = Some a" "zalloc_live g b = Some m" for a b m
  proof -
    obtain zs where zs: "zg.zone_rel (g_zcontext g') zs" "zalloc_live g' = zlive zs"
      using r(2) unfolding zalloc_ok_rel by blast
    have "a \<noteq> b" "zlive zs a = Some (align sz)" "zlive zs b = Some m"
      using r(3) that zs(2) by (auto simp: fun_upd_def)
    then show ?thesis using zg.zone_rel_apart [OF zs(1)] by (metis linorder_neqE_nat)
  qed
  then show ?thesis using r zone_fits_align(2) [OF assms(2)]
    by (intro exI [of _ r] exI [of _ g']) (auto split: option.splits)
qed

theorem zalloc_object_apart_witness:
  "\<exists>r g'. zalloc 100 zalloc_1 = Some (r, g') \<and> zalloc_ok g' \<and>
    (case r of None \<Rightarrow> zalloc_live g' = zalloc_live zalloc_1
     | Some a \<Rightarrow> zalloc_live g' = (zalloc_live zalloc_1)(a \<mapsto> align 100) \<and> unat (100 :: u32) \<le> unat (align 100) \<and>
         (\<forall>b m. zalloc_live zalloc_1 b = Some m \<longrightarrow> a + unat (align 100) \<le> b \<or> b + unat m \<le> a))"
  by (rule zalloc_object_apart [OF zalloc_1_ok(1)]) (simp add: zone_fits_def)

text \<open>C2: \<open>zfree\<close> undoes \<open>zalloc\<close>: releasing an object just allocated, under the size it was asked
  for, always returns and leaves exactly the objects in use before.\<close>

theorem zalloc_zfree:
  assumes "zalloc_ok g" "zalloc sz g = Some (Some a, g1)" "zone_fits sz"
  shows "\<exists>g2. zfree a sz g1 = Some g2 \<and> zalloc_ok g2 \<and> zalloc_live g2 = zalloc_live g"
proof -
  have g1: "zalloc_ok g1" "zalloc_live g a = None" "zalloc_live g1 = (zalloc_live g)(a \<mapsto> align sz)"
    using zalloc_rel [OF assms(1,3)] assms(2) by auto
  obtain g2 where "zfree a sz g1 = Some g2" "zalloc_ok g2" "zalloc_live g2 = (zalloc_live g1)(a := None)"
    using zfree_rel [OF g1(1), of a sz] g1(3) by auto
  moreover have "(zalloc_live g1)(a := None) = zalloc_live g" using g1(2,3) by auto
  ultimately show ?thesis by simp
qed

theorem zalloc_zfree_witness:
  "\<exists>a g1 g2. zalloc 4096 zalloc_1 = Some (Some a, g1) \<and> zfree a 4096 g1 = Some g2 \<and> zalloc_ok g2 \<and>
     zalloc_live g2 = zalloc_live zalloc_1"
proof -
  obtain a g1 where "zalloc 4096 zalloc_1 = Some (Some a, g1)" using zalloc_1_alloc by blast
  then show ?thesis using zalloc_zfree [OF zalloc_1_ok(1)] by (auto simp: zone_fits_def)
qed

text \<open>A request for 0 bytes, or for more than 0xFFFFF000, never returns: its size rounds to 0 and
  the search for its highest bit does not end.\<close>

theorem zalloc_bad_size_hangs:
  assumes "\<not> zone_fits sz" "g_is_init g"
  shows "zalloc sz g = None"
  using assms zone_alloc_fits [of "g_zcontext g" sz ZONE_DEFAULT_LIMIT]
  by (cases "zone_alloc (g_zcontext g) sz ZONE_DEFAULT_LIMIT") (auto simp: zalloc_def)

theorem zalloc_bad_size_hangs_witness: "zalloc 0 zalloc_1 = None"
proof (rule zalloc_bad_size_hangs)
  show "g_is_init zalloc_1" using zalloc_1_ok(1) by (simp add: zalloc_ok_def)
qed (simp add: zone_fits_def)

text \<open>\<open>cZoneHeap\<close> in a debug build: an allocated object can be released without failing the
  assertion of \<open>free\<close>, and the heap then has the objects it had before.\<close>

theorem cZoneHeap_alloc_free:
  assumes "cZoneHeap_ok z" "zone_fits sz" "cZoneHeap_alloc sz z = Some (Some a, z1)"
  shows "\<exists>z2. cZoneHeap_free False a sz z1 = Some z2 \<and> cZoneHeap_ok z2 \<and> cZoneHeap_live z2 = cZoneHeap_live z"
proof -
  have z1: "cZoneHeap_ok z1" "cZoneHeap_live z a = None" "cZoneHeap_live z1 = (cZoneHeap_live z)(a \<mapsto> align sz)"
    using cZoneHeap_alloc_rel [OF assms(1,2)] assms(3) by auto
  obtain z2 where "cZoneHeap_free False a sz z1 = Some z2" "cZoneHeap_ok z2"
      "cZoneHeap_live z2 = (cZoneHeap_live z1)(a := None)"
    using cZoneHeap_free_rel [OF z1(1), of a sz False] z1(3) by auto
  moreover have "(cZoneHeap_live z1)(a := None) = cZoneHeap_live z" using z1(2,3) by auto
  ultimately show ?thesis by simp
qed

text \<open>A heap at work, just initialised with 400 kB of memory.\<close>

definition zheap_0 :: cZoneHeap where
  "zheap_0 = \<lparr>pf_page_alloc = None, pf_page_free = None, pf_mutex_lock = None, pf_mutex_unlock = None,
     zones = None, z_limit = 0, user_data = \<lparr>m_sync = False, m_libc = \<lparr>brk = 65536, room = 409600, blocks = Map.empty\<rparr>\<rparr>\<rparr>"

definition zheap_1 :: cZoneHeap where
  "zheap_1 = snd (the (cZoneHeap_object_ctl OCTL_INIT zheap_0))"

lemmas zh_init_eval = cZoneHeap_object_ctl_def init_zone_context_def zheap_0_def zone_init_def zh_page_alloc_def

lemma zheap_1_ok: "cZoneHeap_ok zheap_1"
proof -
  let ?c = "init_zone_context zheap_0"
  have "zh.zwired ?c" "zh_valid (user_data ?c)" "zh_idle (user_data ?c)" "zones ?c = None"
    by (simp_all add: init_zone_context_def zheap_0_def zh.zwired_def zh_defs libc_ok_def)
  from zh.zone_init_spec [OF this] obtain r c where c: "zone_init ?c = Some (r, c)"
    "zh_idle (user_data c)" "if r = 0 then zh.zone_rel c (replicate ZONE_MAX_ZONES []) else zones c = None" by blast
  moreover have "r = 0" using c(1) by (simp add: zh_init_eval malloc_eval)
  ultimately show ?thesis by (auto simp: cZoneHeap_ok_def zheap_1_def cZoneHeap_object_ctl_def)
qed

lemma zheap_1_alloc: "\<exists>a z. cZoneHeap_alloc 4096 zheap_1 = Some (Some a, z)"
  apply (simp add: zheap_1_def zh_init_eval malloc_eval cZoneHeap_alloc_def zone_alloc_def zone_page_of_4096
      get_chain_def ZONE_MAX_ZONES_def)
  apply (simp add: zone_lock_def zh_lock_def zone_unlock_def zh_unlock_def set_chain_def)
  apply (simp add: zone_page_alloc_def zone_lock_def zh_lock_def get_chain_def)
  apply (simp add: zone_page_eval malloc_eval zh_page_alloc_def)
  apply (simp add: clear_entry_def zone_unlock_def zh_unlock_def set_chain_def)
  done

theorem cZoneHeap_alloc_free_witness:
  "\<exists>a z1 z2. cZoneHeap_alloc 4096 zheap_1 = Some (Some a, z1) \<and> cZoneHeap_free False a 4096 z1 = Some z2 \<and>
     cZoneHeap_ok z2 \<and> cZoneHeap_live z2 = cZoneHeap_live zheap_1"
proof -
  obtain a z1 where "cZoneHeap_alloc 4096 zheap_1 = Some (Some a, z1)" using zheap_1_alloc by blast
  then show ?thesis using cZoneHeap_alloc_free [OF zheap_1_ok] by (auto simp: zone_fits_def)
qed

end
