(* ===== verification/Llist.thy ===== *)
theory Llist
  imports LlOps Heaps
begin

text \<open>
  The two classes around the linked list: \<open>linked_list\<close> of core/repository-2/list.cpp, over the global
  zone allocator and a \<open>mutex\<close>, and \<open>cLlist\<close> of core/mem/llist.cpp, over a heap object and a
  \<open>cMutex\<close>. Each provides the callbacks of \<open>ll_callbacks\<close>; every fact of LlSpec and LlOps is
  thereby a fact of both.
\<close>

section \<open>linked_list\<close>

text \<open>What the callbacks reach through \<open>p_udata\<close> and the globals of zalloc.cpp.\<close>

record list_user =
  l_mutex :: mutex
  l_zalloc :: zalloc_state

type_synonym 'a linked_list = "('a, list_user) ll_context"

definition list_alloc :: "u32 \<Rightarrow> u64 \<Rightarrow> list_user \<Rightarrow> (ptr \<times> list_user) option" where
  "list_alloc sz lim u = do { (p, g) \<leftarrow> zalloc sz (l_zalloc u); Some (p, u\<lparr>l_zalloc := g\<rparr>) }"

definition list_free :: "addr \<Rightarrow> u32 \<Rightarrow> list_user \<Rightarrow> list_user option" where
  "list_free p sz u = do { g \<leftarrow> zfree p sz (l_zalloc u); Some (u\<lparr>l_zalloc := g\<rparr>) }"

definition list_lock :: "u64 \<Rightarrow> list_user \<Rightarrow> (u64 \<times> list_user) option" where
  "list_lock h u = do { (r, m) \<leftarrow> mutex_lock (l_mutex u) h; Some (r, u\<lparr>l_mutex := m\<rparr>) }"

definition list_unlock :: "u64 \<Rightarrow> list_user \<Rightarrow> list_user option" where
  "list_unlock h u = do { m \<leftarrow> mutex_unlock (l_mutex u) h; Some (u\<lparr>l_mutex := m\<rparr>) }"

text \<open>The constructor: \<open>zinit\<close>, then two columns. \<open>this\<close> is the address of the object, with the
  context inside it; the mutex has been constructed already.\<close>

definition list_context :: "addr \<Rightarrow> list_user \<Rightarrow> 'a linked_list" where
  "list_context this u = \<lparr>self = this, mode = 0, p_alloc = Some list_alloc, p_free = Some list_free,
     p_lock = Some list_lock, p_unlock = Some list_unlock, p_udata = u,
     addr_limit = 0, ccol = 0, ncol = 0, state = None, heap = Map.empty\<rparr>"

definition linked_list_new :: "addr \<Rightarrow> list_user \<Rightarrow> (bool \<times> 'a linked_list) option" where
  "linked_list_new this u = do {
     (_, g) \<leftarrow> zinit (l_zalloc u);
     ll_init (list_context this (u\<lparr>l_zalloc := g\<rparr>)) LL_MODE_VECTOR 2 0xffffffffffffffff }"

definition linked_list_destroy :: "'a linked_list \<Rightarrow> (unit \<times> 'a linked_list) option" where
  "linked_list_destroy l = ll_uninit l"

definition linked_list_lock :: "'a linked_list \<Rightarrow> u64 \<Rightarrow> (u64 \<times> 'a linked_list) option" where
  "linked_list_lock l h = do { (r, u) \<leftarrow> list_lock h (p_udata l); Some (r, l\<lparr>p_udata := u\<rparr>) }"

definition linked_list_unlock :: "'a linked_list \<Rightarrow> u64 \<Rightarrow> 'a linked_list option" where
  "linked_list_unlock l h = do { u \<leftarrow> list_unlock h (p_udata l); Some (l\<lparr>p_udata := u\<rparr>) }"

definition linked_list_add :: "'a linked_list \<Rightarrow> 'a \<Rightarrow> u32 \<Rightarrow> u64 \<Rightarrow> (ptr \<times> 'a linked_list) option" where
  "linked_list_add l d sz h = ll_add l d sz h"

definition linked_list_del :: "'a linked_list \<Rightarrow> u64 \<Rightarrow> (unit \<times> 'a linked_list) option" where
  "linked_list_del l h = ll_del l h"

definition linked_list_col :: "'a linked_list \<Rightarrow> u8 \<Rightarrow> u64 \<Rightarrow> (unit \<times> 'a linked_list) option" where
  "linked_list_col l k h = ll_col l k h"

definition linked_list_clr :: "'a linked_list \<Rightarrow> u64 \<Rightarrow> (unit \<times> 'a linked_list) option" where
  "linked_list_clr l h = ll_clr l h"

definition linked_list_cnt :: "'a linked_list \<Rightarrow> u64 \<Rightarrow> (u32 \<times> 'a linked_list) option" where
  "linked_list_cnt l h = ll_cnt l h"

definition linked_list_sel :: "'a linked_list \<Rightarrow> addr \<Rightarrow> u64 \<Rightarrow> (bool \<times> 'a linked_list) option" where
  "linked_list_sel l rec h = ll_sel l rec h"

definition linked_list_mov :: "'a linked_list \<Rightarrow> addr \<Rightarrow> u8 \<Rightarrow> u64 \<Rightarrow> (bool \<times> 'a linked_list) option" where
  "linked_list_mov l rec k h = ll_mov l rec k h"

definition linked_list_first :: "'a linked_list \<Rightarrow> u64 \<Rightarrow> ((addr \<times> u32) option \<times> 'a linked_list) option" where
  "linked_list_first l h = ll_first l h"

definition linked_list_next :: "'a linked_list \<Rightarrow> u64 \<Rightarrow> ((addr \<times> u32) option \<times> 'a linked_list) option" where
  "linked_list_next l h = ll_next l h"

definition linked_list_current :: "'a linked_list \<Rightarrow> u64 \<Rightarrow> ((addr \<times> u32) option \<times> 'a linked_list) option" where
  "linked_list_current l h = ll_current l h"

definition list_owner :: "list_user \<Rightarrow> (u64 \<times> nat) option" where "list_owner u = mutex_owner (l_mutex u)"
definition list_ok :: "list_user \<Rightarrow> bool" where "list_ok u \<longleftrightarrow> mutex_ok (l_mutex u) \<and> zalloc_ok (l_zalloc u)"
definition list_live :: "list_user \<Rightarrow> addr \<rightharpoonup> u32" where "list_live u = zalloc_live (l_zalloc u)"

lemmas list_user_defs = list_owner_def list_ok_def list_live_def

interpretation ll: ll_callbacks list_lock list_unlock list_owner list_ok list_alloc list_free list_live
  align zone_fits
proof (unfold_locales, goal_cases)
  case (1 u)
  then show ?case using mutex.lock_free [of "l_mutex u"] by (fastforce simp: list_user_defs list_lock_def)
next
  case (2 u h n)
  then show ?case using mutex.lock_again [of "l_mutex u" h n] by (fastforce simp: list_user_defs list_lock_def)
next
  case (3 u h n h')
  then show ?case using mutex.lock_waits [of "l_mutex u" h n h'] by (simp add: list_user_defs list_lock_def)
next
  case (4 u h n)
  then show ?case using mutex.unlock_owner [of "l_mutex u" h n] by (fastforce simp: list_user_defs list_unlock_def)
next
  case (5 u h n h')
  then show ?case using mutex.unlock_other [of "l_mutex u" h n h'] by (simp add: list_user_defs list_unlock_def)
next
  case (6 u h n)
  then show ?case using mutex.owner_pos [of "l_mutex u" h n] by (simp add: list_user_defs)
next
  case (7 u sz lim)
  then show ?case using zalloc_rel [of "l_zalloc u" sz] by (fastforce simp: list_user_defs list_alloc_def)
next
  case (8 u sz lim a u')
  then show ?case using zalloc_Some [of "l_zalloc u" sz a] by (auto simp: list_user_defs list_alloc_def bind_Some_iff)
next
  case (9 u sz lim u')
  then show ?case using zalloc_None [of "l_zalloc u" sz] by (auto simp: list_user_defs list_alloc_def bind_Some_iff)
next
  case (10 u a sz)
  then show ?case using zfree_rel [of "l_zalloc u" a sz] by (fastforce simp: list_user_defs list_free_def)
next
  case (11 h u r u')
  then show ?case by (auto simp: list_user_defs list_lock_def bind_Some_iff)
next
  case (12 h u u')
  then show ?case by (auto simp: list_user_defs list_unlock_def bind_Some_iff)
qed

section \<open>cLlist\<close>

record llist_user =
  mpi_mutex :: "cMutex option"
  mpi_heap :: "cZoneHeap option"
  m_my_heap :: bool

type_synonym 'a cLlist = "('a, llist_user) ll_context"

definition mem_alloc :: "u32 \<Rightarrow> u64 \<Rightarrow> llist_user \<Rightarrow> (ptr \<times> llist_user) option" where
  "mem_alloc sz lim u = (case mpi_heap u of
     None \<Rightarrow> Some (None, u)
   | Some z \<Rightarrow> do { (p, z) \<leftarrow> cZoneHeap_alloc sz z; Some (p, u\<lparr>mpi_heap := Some z\<rparr>) })"

definition mem_free :: "addr \<Rightarrow> u32 \<Rightarrow> llist_user \<Rightarrow> llist_user option" where
  "mem_free p sz u = (case mpi_heap u of
     None \<Rightarrow> Some u
   | Some z \<Rightarrow> do { z \<leftarrow> cZoneHeap_free False p sz z; Some (u\<lparr>mpi_heap := Some z\<rparr>) })"

text \<open>\<open>lock\<close> and \<open>unlock\<close> of the class, which the callbacks \<open>ll_lock\<close> and \<open>ll_unlock\<close> call.\<close>

definition cLlist_lock :: "u64 \<Rightarrow> llist_user \<Rightarrow> (u64 \<times> llist_user) option" where
  "cLlist_lock h u = (case mpi_mutex u of
     None \<Rightarrow> Some (0, u)
   | Some m \<Rightarrow> do { (r, m) \<leftarrow> cMutex_lock m h; Some (r, u\<lparr>mpi_mutex := Some m\<rparr>) })"

definition cLlist_unlock :: "u64 \<Rightarrow> llist_user \<Rightarrow> llist_user option" where
  "cLlist_unlock h u = (case mpi_mutex u of
     None \<Rightarrow> Some u
   | Some m \<Rightarrow> do { m \<leftarrow> cMutex_unlock m h; Some (u\<lparr>mpi_mutex := Some m\<rparr>) })"

text \<open>\<open>OCTL_INIT\<close> takes the mutex the repository hands out (none when there is none); \<open>OCTL_UNINIT\<close>
  destroys the list and lets go of the mutex and the heap.\<close>

definition cLlist_object_ctl :: "octl \<Rightarrow> cMutex option \<Rightarrow> 'a cLlist \<Rightarrow> (bool \<times> 'a cLlist) option" where
  "cLlist_object_ctl cmd got l =
     (case cmd of
        OCTL_INIT \<Rightarrow> Some (got \<noteq> None, l\<lparr>p_udata := (p_udata l)\<lparr>m_my_heap := False, mpi_mutex := got\<rparr>\<rparr>)
      | OCTL_UNINIT \<Rightarrow> do {
          (_, l) \<leftarrow> ll_uninit l;
          Some (True, l\<lparr>p_udata := (p_udata l)\<lparr>mpi_mutex := None, mpi_heap := None\<rparr>\<rparr>) }
      | _ \<Rightarrow> Some (False, l))"

text \<open>\<open>init\<close>: the heap given by the caller, or else the one of the repository (\<open>repo_heap\<close>).\<close>

definition cLlist_init :: "'a cLlist \<Rightarrow> u8 \<Rightarrow> u8 \<Rightarrow> cZoneHeap option \<Rightarrow> cZoneHeap option \<Rightarrow>
    (bool \<times> 'a cLlist) option" where
  "cLlist_init l md nc pi_heap repo_heap = (
     let u = p_udata l;
         u = (if pi_heap = None then u\<lparr>mpi_heap := repo_heap, m_my_heap := True\<rparr> else u\<lparr>mpi_heap := pi_heap\<rparr>);
         c = l\<lparr>mode := md, ccol := 0, ncol := nc, state := None, p_alloc := Some mem_alloc, p_free := Some mem_free,
               p_lock := Some cLlist_lock, p_unlock := Some cLlist_unlock,
               addr_limit := 0xffffffffffffffff, p_udata := u\<rparr>
     in ll_init c md nc (addr_limit c))"

definition cLlist_uninit :: "'a cLlist \<Rightarrow> (unit \<times> 'a cLlist) option" where
  "cLlist_uninit l = ll_uninit l"

definition cLlist_get :: "'a cLlist \<Rightarrow> u32 \<Rightarrow> u64 \<Rightarrow> ((addr \<times> u32) option \<times> 'a cLlist) option" where
  "cLlist_get l index h = ll_get l index h"

definition cLlist_add_new :: "'a \<Rightarrow> 'a cLlist \<Rightarrow> u32 \<Rightarrow> u64 \<Rightarrow> (ptr \<times> 'a cLlist) option" where
  "cLlist_add_new z l sz h = ll_new z l sz h"

definition cLlist_add :: "'a cLlist \<Rightarrow> 'a \<Rightarrow> u32 \<Rightarrow> u64 \<Rightarrow> (ptr \<times> 'a cLlist) option" where
  "cLlist_add l d sz h = ll_add l d sz h"

definition cLlist_ins :: "'a cLlist \<Rightarrow> u32 \<Rightarrow> 'a \<Rightarrow> u32 \<Rightarrow> u64 \<Rightarrow> (ptr \<times> 'a cLlist) option" where
  "cLlist_ins l index d sz h = ll_ins l index d sz h"

definition cLlist_rem :: "'a cLlist \<Rightarrow> u32 \<Rightarrow> u64 \<Rightarrow> (unit \<times> 'a cLlist) option" where
  "cLlist_rem l index h = ll_rem l index h"

definition cLlist_del :: "'a cLlist \<Rightarrow> u64 \<Rightarrow> (unit \<times> 'a cLlist) option" where
  "cLlist_del l h = ll_del l h"

definition cLlist_clr :: "'a cLlist \<Rightarrow> u64 \<Rightarrow> (unit \<times> 'a cLlist) option" where
  "cLlist_clr l h = ll_clr l h"

definition cLlist_cnt :: "'a cLlist \<Rightarrow> u64 \<Rightarrow> (u32 \<times> 'a cLlist) option" where
  "cLlist_cnt l h = ll_cnt l h"

definition cLlist_col :: "'a cLlist \<Rightarrow> u8 \<Rightarrow> u64 \<Rightarrow> (unit \<times> 'a cLlist) option" where
  "cLlist_col l k h = ll_col l k h"

definition cLlist_sel :: "'a cLlist \<Rightarrow> addr \<Rightarrow> u64 \<Rightarrow> (bool \<times> 'a cLlist) option" where
  "cLlist_sel l rec h = ll_sel l rec h"

definition cLlist_mov :: "'a cLlist \<Rightarrow> addr \<Rightarrow> u8 \<Rightarrow> u64 \<Rightarrow> (bool \<times> 'a cLlist) option" where
  "cLlist_mov l rec k h = ll_mov l rec k h"

definition cLlist_next :: "'a cLlist \<Rightarrow> u64 \<Rightarrow> ((addr \<times> u32) option \<times> 'a cLlist) option" where
  "cLlist_next l h = ll_next l h"

definition cLlist_current :: "'a cLlist \<Rightarrow> u64 \<Rightarrow> ((addr \<times> u32) option \<times> 'a cLlist) option" where
  "cLlist_current l h = ll_current l h"

definition cLlist_first :: "'a cLlist \<Rightarrow> u64 \<Rightarrow> ((addr \<times> u32) option \<times> 'a cLlist) option" where
  "cLlist_first l h = ll_first l h"

definition cLlist_last :: "'a cLlist \<Rightarrow> u64 \<Rightarrow> ((addr \<times> u32) option \<times> 'a cLlist) option" where
  "cLlist_last l h = ll_last l h"

definition cLlist_prev :: "'a cLlist \<Rightarrow> u64 \<Rightarrow> ((addr \<times> u32) option \<times> 'a cLlist) option" where
  "cLlist_prev l h = ll_prev l h"

definition cLlist_roll :: "'a cLlist \<Rightarrow> u64 \<Rightarrow> (unit \<times> 'a cLlist) option" where
  "cLlist_roll l h = ll_roll l h"

definition llist_owner :: "llist_user \<Rightarrow> (u64 \<times> nat) option" where
  "llist_owner u = (case mpi_mutex u of None \<Rightarrow> None | Some m \<Rightarrow> cMutex_owner m)"

definition llist_ok :: "llist_user \<Rightarrow> bool" where
  "llist_ok u \<longleftrightarrow> (\<exists>m z. mpi_mutex u = Some m \<and> cMutex_ok m \<and> mpi_heap u = Some z \<and> cZoneHeap_ok z)"

definition llist_live :: "llist_user \<Rightarrow> addr \<rightharpoonup> u32" where
  "llist_live u = (case mpi_heap u of None \<Rightarrow> Map.empty | Some z \<Rightarrow> cZoneHeap_live z)"

lemmas llist_user_defs = llist_owner_def llist_ok_def llist_live_def

interpretation cll: ll_callbacks cLlist_lock cLlist_unlock llist_owner llist_ok mem_alloc mem_free llist_live
  align zone_fits
proof (unfold_locales, goal_cases)
  case (1 u)
  then obtain m where m: "mpi_mutex u = Some m" "cMutex_ok m" "cMutex_owner m = None" by (auto simp: llist_user_defs)
  with 1 cmutex.lock_free [OF m(2,3)] show ?case by (auto simp: llist_user_defs cLlist_lock_def)
next
  case (2 u h n)
  then obtain m where m: "mpi_mutex u = Some m" "cMutex_ok m" "cMutex_owner m = Some (h, n)" by (auto simp: llist_user_defs)
  with 2 cmutex.lock_again [OF m(2,3)] show ?case by (auto simp: llist_user_defs cLlist_lock_def)
next
  case (3 u h n h')
  then obtain m where m: "mpi_mutex u = Some m" "cMutex_ok m" "cMutex_owner m = Some (h, n)" by (auto simp: llist_user_defs)
  with 3 cmutex.lock_waits [OF m(2,3)] show ?case by (simp add: cLlist_lock_def)
next
  case (4 u h n)
  then obtain m where m: "mpi_mutex u = Some m" "cMutex_ok m" "cMutex_owner m = Some (h, n)" by (auto simp: llist_user_defs)
  with 4 cmutex.unlock_owner [OF m(2,3)] show ?case by (auto simp: llist_user_defs cLlist_unlock_def)
next
  case (5 u h n h')
  then obtain m where m: "mpi_mutex u = Some m" "cMutex_ok m" "cMutex_owner m = Some (h, n)" by (auto simp: llist_user_defs)
  with 5 cmutex.unlock_other [OF m(2,3)] show ?case by (simp add: cLlist_unlock_def)
next
  case (6 u h n)
  then obtain m where "mpi_mutex u = Some m" "cMutex_ok m" "cMutex_owner m = Some (h, n)" by (auto simp: llist_user_defs)
  then show ?case using cmutex.owner_pos by blast
next
  case (7 u sz lim)
  then obtain z where z: "mpi_heap u = Some z" "cZoneHeap_ok z" by (auto simp: llist_user_defs)
  from cZoneHeap_alloc_rel [OF z(2) 7(2)] z(1) show ?case by (auto simp: mem_alloc_def)
next
  case (8 u sz lim a u')
  then obtain z where z: "mpi_heap u = Some z" "cZoneHeap_ok z" by (auto simp: llist_user_defs)
  with 8 cZoneHeap_alloc_Some [OF z(2), of sz a] show ?case
    by (auto simp: llist_user_defs mem_alloc_def bind_Some_iff)
next
  case (9 u sz lim u')
  then obtain z where z: "mpi_heap u = Some z" "cZoneHeap_ok z" by (auto simp: llist_user_defs)
  with 9 cZoneHeap_alloc_None [OF z(2), of sz] show ?case
    by (auto simp: llist_user_defs mem_alloc_def bind_Some_iff)
next
  case (10 u a sz)
  then obtain z where z: "mpi_heap u = Some z" "cZoneHeap_ok z" "cZoneHeap_live z a = Some (align sz)"
    by (auto simp: llist_user_defs)
  with 10 cZoneHeap_free_rel [OF z(2,3), of False] show ?case by (auto simp: llist_user_defs mem_free_def)
next
  case (11 h u r u')
  then show ?case by (auto simp: llist_user_defs cLlist_lock_def bind_Some_iff split: option.splits)
next
  case (12 h u u')
  then show ?case by (auto simp: llist_user_defs cLlist_unlock_def bind_Some_iff split: option.splits)
qed

section \<open>A list at work\<close>

definition list_user_1 :: list_user where
  "list_user_1 = \<lparr>l_mutex = mutex_new 0x2000, l_zalloc = zalloc_0 0x1000 409600\<rparr>"

definition list_1 :: "nat linked_list" where
  "list_1 = snd (the (linked_list_new 0x3000 list_user_1))"

lemma list_user_1_eq: "list_user_1\<lparr>l_zalloc := zalloc_1\<rparr> = \<lparr>l_mutex = mutex_new 0x2000, l_zalloc = zalloc_1\<rparr>"
  by (simp add: list_user_1_def)

lemma zone_page_of_64: "zone_page_of 64 = Some (Some 7, 64)"
proof -
  have "bit_number 64 = Some 7" using bit_number_unique [of 64 6] by simp
  moreover have "align 64 = 64" by code_simp
  ultimately show ?thesis by (simp add: zone_page_of_def ZONE_MAX_ZONES_def)
qed

lemma zalloc_1_alloc_64: "\<exists>a g. zalloc 64 zalloc_1 = Some (Some a, g)"
  apply (simp add: zalloc_1_def zg_init_eval malloc_eval zalloc_def zone_alloc_def zone_page_of_64
      get_chain_def ZONE_MAX_ZONES_def)
  apply (simp add: zg_lock_eval)
  apply (simp add: zone_page_alloc_def zg_lock_eval)
  apply (simp add: zone_page_eval malloc_eval zpage_alloc_def)
  apply (simp add: clear_entry_def entry_seek_clear malloc_eval zpage_alloc_def Let_def)
  apply (simp add: zg_lock_eval)
  done

definition list_rel :: "'a linked_list \<Rightarrow> 'a ll_abs \<Rightarrow> bool" where
  "list_rel l A \<longleftrightarrow> ll.ll_rel l A"

definition list_ready :: "'a linked_list \<Rightarrow> u64 \<Rightarrow> bool" where
  "list_ready l h \<longleftrightarrow> ll.ready (p_udata l) h"

lemma linked_list_new_rel:
  assumes "zinit (l_zalloc u) = Some (True, g)" "zalloc_ok g" "mutex_ok (l_mutex u)" "mutex_owner (l_mutex u) = None"
  shows "\<exists>r (l :: 'a linked_list). linked_list_new this u = Some (r, l) \<and> list_owner (p_udata l) = None \<and>
    (r \<longrightarrow> list_rel l (ll_empty 2) \<and> list_ready l 0)"
proof -
  let ?c = "list_context this (u\<lparr>l_zalloc := g\<rparr>) :: 'a linked_list"
  have w: "ll.wired ?c" "ll.ready (p_udata ?c) 0" "state ?c = None" "zone_fits (ucast (of_nat 2 :: u8) * sizeof_ll_state)"
    using assms by (simp_all add: list_context_def ll.wired_def ll.ready_def list_user_defs zone_fits_def sizeof_ll_state_def)
  obtain r and l :: "'a linked_list" where l: "ll_init ?c LL_MODE_VECTOR (of_nat 2) 0xffffffffffffffff = Some (r, l)" "ll.wired l"
    "list_ok (p_udata l)" "list_owner (p_udata l) = list_owner (p_udata ?c)"
    "if r then ll_inv align l (list_live (p_udata l)) (ll_empty 2)
     else state l = None \<and> list_live (p_udata l) = list_live (p_udata ?c)"
    using ll.ll_init_rel [OF w(1-3), of 2 "0xffffffffffffffff"] w(4) by auto
  have o: "list_owner (p_udata l) = None" using l(4) assms(4) by (simp add: list_context_def list_owner_def)
  then show ?thesis using l assms(1)
    by (auto simp: linked_list_new_def list_rel_def ll.ll_rel_def list_ready_def ll.ready_def)
qed

lemma linked_list_new_1:
  "\<exists>l :: 'a linked_list. linked_list_new 0x3000 list_user_1 = Some (True, l) \<and> list_rel l (ll_empty 2) \<and> list_ready l 0"
proof -
  have z: "zinit (zalloc_0 0x1000 409600) = Some (True, zalloc_1)"
    by (simp add: zalloc_1_def zg_init_eval malloc_eval)
  then obtain r and l :: "'a linked_list" where l: "linked_list_new 0x3000 list_user_1 = Some (r, l)"
      "r \<longrightarrow> list_rel l (ll_empty 2) \<and> list_ready l 0"
    using linked_list_new_rel [of list_user_1 zalloc_1 "0x3000"] zalloc_1_ok(1)
    by (auto simp: list_user_1_def mutex_ok_def mutex_owner_def mutex_new_def)
  obtain a g where a: "zalloc 64 zalloc_1 = Some (Some a, g)" using zalloc_1_alloc_64 by blast
  have "r" using l(1) z a
    by (simp add: linked_list_new_def list_user_1_def list_context_def ll_init_def ll_locked_def ll_lock_def
      list_lock_def mutex_lock_def mutex_new_def get_handle_def make_handle_def list_alloc_def
      sizeof_ll_state_def bind_Some_iff Let_def)
  then have "r = True" by simp
  then show ?thesis using l by blast
qed

lemma list_1_rel: "list_rel list_1 (ll_empty 2)" "list_ready list_1 0"
  using linked_list_new_1 [where ?'a = nat] by (auto simp: list_1_def)

section \<open>Properties\<close>

text \<open>C7: \<open>linked_list::add\<close> appends: it either fails and leaves the list as it is, or puts a new
  record with the caller's contents at the end of the selected column and makes it current; the
  lock is back in the state it was in.\<close>

theorem linked_list_add_appends:
  assumes "list_rel l A" "list_ready l h" "length (scol A) + 1 < 2 ^ 32" "zone_fits (sz + sizeof_ll_item_hdr)"
  shows "\<exists>r l'. linked_list_add l d sz h = Some (r, l') \<and> list_ready l' h \<and>
    list_rel l' (case r of None \<Rightarrow> A | Some a \<Rightarrow> a_append A a sz d)"
  using ll.ll_append_rel [OF assms(1) [unfolded list_rel_def] assms(2) [unfolded list_ready_def] assms(3,4)]
    ll.ready_same assms(2)
  unfolding linked_list_add_def ll_add_def list_rel_def list_ready_def by fastforce

theorem linked_list_add_appends_witness:
  "\<exists>r l'. linked_list_add list_1 5 8 0 = Some (r, l') \<and> list_ready l' 0 \<and>
    list_rel l' (case r of None \<Rightarrow> ll_empty 2 | Some a \<Rightarrow> a_append (ll_empty 2) a 8 5)"
  by (rule linked_list_add_appends [OF list_1_rel])
     (simp_all add: scol_def ll_empty_def zone_fits_def sizeof_ll_item_hdr_def)

text \<open>C11: \<open>linked_list::del\<close> removes the current record of the selected column, releases it, and
  makes its successor current, or its predecessor when it was the last.\<close>

theorem linked_list_del_removes:
  assumes "list_rel l A" "list_ready l h"
  shows "\<exists>l'. linked_list_del l h = Some ((), l') \<and> list_rel l' (a_del A) \<and> list_ready l' h"
  using ll.ll_del_rel [OF assms [unfolded list_rel_def list_ready_def]] ll.ready_same assms(2)
  unfolding linked_list_del_def list_rel_def list_ready_def by blast

theorem linked_list_del_removes_witness:
  "\<exists>l'. linked_list_del list_1 0 = Some ((), l') \<and> list_rel l' (a_del (ll_empty 2)) \<and> list_ready l' 0"
  by (rule linked_list_del_removes [OF list_1_rel])

text \<open>C27: Iterating with \<open>first\<close> and \<open>next\<close> visits every record of the selected column exactly once,
  in order, and ends.\<close>

theorem linked_list_walk:
  assumes "list_rel l A" "list_ready l h" "length (scol A) < n"
  shows "\<exists>l'. ll_enum n h l = Some (scol A, l') \<and> distinct (scol A) \<and> list_rel l' (a_last A) \<and> list_ready l' h"
  using ll.ll_enum_rel [OF assms [unfolded list_rel_def list_ready_def]] ll.ready_same assms(2)
    ll.ll_rel_distinct [OF assms(1) [unfolded list_rel_def]]
  unfolding list_rel_def list_ready_def by blast

theorem linked_list_walk_witness:
  "\<exists>l'. ll_enum 1 0 list_1 = Some (scol (ll_empty 2 :: nat ll_abs), l') \<and> distinct (scol (ll_empty 2 :: nat ll_abs)) \<and>
     list_rel l' (a_last (ll_empty 2)) \<and> list_ready l' 0"
  by (rule linked_list_walk [OF list_1_rel]) (simp add: scol_def ll_empty_def)

text \<open>C28: \<open>linked_list::destroy\<close> releases every record of every column and the column states, and
  nothing else.\<close>

theorem linked_list_destroy_releases:
  assumes "list_rel l A" "list_ready l 0" "state_addr l = Some sa"
  shows "\<exists>l'. linked_list_destroy l = Some ((), l') \<and> state l' = None \<and>
    list_live (p_udata l') = list_live (p_udata l) |` (- insert sa (\<Union>k < width A. set (cols A k)))"
  using ll.ll_uninit_rel [OF assms [unfolded list_rel_def list_ready_def]]
  unfolding linked_list_destroy_def by blast

theorem linked_list_destroy_releases_witness:
  "\<exists>sa l'. linked_list_destroy list_1 = Some ((), l') \<and> state l' = None \<and>
    list_live (p_udata l') = list_live (p_udata list_1) |` (- {sa})"
proof -
  obtain sa where "state_addr list_1 = Some sa"
    using list_1_rel(1) by (auto simp: list_rel_def ll.ll_rel_def ll_inv_def)
  from linked_list_destroy_releases [OF list_1_rel this] show ?thesis by (auto simp: ll_empty_def)
qed

end
