(* ===== verification/MapAlg.thy ===== *)
theory MapAlg
  imports Prelude
begin

text \<open>
  The hash table of core/mem/map_alg.c and map_alg.h. Records are found by a digest of
  \<open>HASH_SIZE\<close> bytes, computed from the key by the callback \<open>pf_hash\<close> (or copied from the key when
  there is none); the bucket of a digest is its 64-bit string hash modulo the capacity. A bucket
  is the list of its records in the order of their \<open>next\<close> pointers. As in LlAlg, a pointer to
  the data behind a record is the address of the record, and the data are one value.
\<close>

section \<open>Data\<close>

definition HASH_SIZE :: nat where "HASH_SIZE = 20"

record 'a map_rec_hdr =
  mr_addr :: addr      \<comment> \<open>address of the record\<close>
  sz_rec :: u32        \<comment> \<open>size of the data and the zero byte behind them\<close>
  mr_key :: "u8 list"
  mr_data :: 'a

text \<open>Size of the packed header on the 64-bit target.\<close>

definition sizeof_map_rec_hdr :: u32 where "sizeof_map_rec_hdr = 32"

record ('a, 'u) map_context =
  records :: u32
  collisions :: u32
  capacity :: u32
  pf_mem_alloc :: "(u32 \<Rightarrow> 'u \<Rightarrow> (ptr \<times> 'u) option) option"
  pf_mem_free :: "(addr \<Rightarrow> u32 \<Rightarrow> 'u \<Rightarrow> 'u option) option"
  pf_hash :: "(u8 list \<Rightarrow> u8 list) option"
  pp_list :: "(addr \<times> 'a map_rec_hdr list list) option"
  udata :: 'u

fun str_hash_from :: "u64 \<Rightarrow> u8 list \<Rightarrow> u64" where
  "str_hash_from h [] = h"
| "str_hash_from h (c # cs) = str_hash_from ((push_bit 5 h + h) + ucast c) cs"

definition str_hash :: "u8 list \<Rightarrow> u64" where
  "str_hash key = str_hash_from 5381 key"

definition bucket :: "u8 list \<Rightarrow> u32 \<Rightarrow> nat" where
  "bucket key cap = unat (ucast (str_hash key mod ucast cap) :: u32)"

text \<open>The size of the array of chain heads: a product of 64 bits, passed on in 32.\<close>

definition list_size :: "u32 \<Rightarrow> u32" where "list_size cap = cap * 8"

text \<open>Clearing the array stays inside the block when the size lost no bits.\<close>

definition list_size_ok :: "u32 \<Rightarrow> bool" where "list_size_ok cap \<longleftrightarrow> unat cap * 8 < 2 ^ 32"

section \<open>Initialisation\<close>

definition map_init :: "('a, 'u) map_context \<Rightarrow> (bool \<times> ('a, 'u) map_context) option" where
  "map_init m =
     (case pf_mem_alloc m of
        None \<Rightarrow> Some (False, m)
      | Some al \<Rightarrow>
          if capacity m \<noteq> 0 \<and> pp_list m = None then do {
            (p, u) \<leftarrow> al (list_size (capacity m)) (udata m);
            (case p of
               None \<Rightarrow> Some (False, m\<lparr>udata := u\<rparr>)
             | Some a \<Rightarrow>
                 if list_size_ok (capacity m) then
                   Some (True, m\<lparr>udata := u, records := 0, collisions := 0,
                     pp_list := Some (a, replicate (unat (capacity m)) [])\<rparr>)
                 else None) }
          else Some (False, m))"

section \<open>Records\<close>

definition add_record :: "'a map_rec_hdr \<Rightarrow> 'a map_rec_hdr list list \<Rightarrow> u32 \<Rightarrow> u32 \<Rightarrow>
    bool \<times> 'a map_rec_hdr list list \<times> u32" where
  "add_record p_rec bs cap coll =
     (let idx = bucket (mr_key p_rec) cap; chain = bs ! idx
      in if chain = [] then (True, bs[idx := [p_rec]], coll)
         else if \<exists>r \<in> set chain. mr_key r = mr_key p_rec then (False, bs, coll)
         else (True, bs[idx := chain @ [p_rec]], coll + 1))"

text \<open>The records of the old buckets in the order of the loops of \<open>remap\<close>, added one by one.\<close>

fun add_records :: "'a map_rec_hdr list \<Rightarrow> 'a map_rec_hdr list list \<Rightarrow> u32 \<Rightarrow> u32 \<Rightarrow>
    'a map_rec_hdr list list \<times> u32" where
  "add_records [] bs cap coll = (bs, coll)"
| "add_records (r # rs) bs cap coll =
     (case add_record r bs cap coll of (_, bs', coll') \<Rightarrow> add_records rs bs' cap coll')"

definition remap :: "('a, 'u) map_context \<Rightarrow> (bool \<times> ('a, 'u) map_context) option" where
  "remap m =
     (case (pf_mem_alloc m, pf_mem_free m) of
        (Some al, Some fr) \<Rightarrow>
          if capacity m \<noteq> 0 then do {
            let new_capacity = capacity m * 2 + 1;
            (p, u) \<leftarrow> al (list_size new_capacity) (udata m);
            (case p of
               None \<Rightarrow> Some (False, m\<lparr>udata := u\<rparr>)
             | Some a \<Rightarrow> if \<not> list_size_ok new_capacity then None else do {
                 (old, bs) \<leftarrow> pp_list m;
                 let (bs', coll) = add_records (concat bs) (replicate (unat new_capacity) []) new_capacity 0;
                 u \<leftarrow> fr old (list_size (capacity m)) u;
                 Some (True, m\<lparr>udata := u, pp_list := Some (a, bs'), capacity := new_capacity,
                               collisions := coll\<rparr>) }) }
          else Some (False, m)
      | _ \<Rightarrow> Some (False, m))"

definition key_digest :: "('a, 'u) map_context \<Rightarrow> u8 list \<Rightarrow> u8 list" where
  "key_digest m key =
     (case pf_hash m of
        Some f \<Rightarrow> f key
      | None \<Rightarrow> take HASH_SIZE (key @ replicate HASH_SIZE 0))"

text \<open>\<open>get_record\<close>: the digest (all zero when the key is empty or the map has no list), the
  bucket number and the record.\<close>

definition get_record :: "('a, 'u) map_context \<Rightarrow> u8 list \<Rightarrow> u8 list \<times> nat \<times> 'a map_rec_hdr option" where
  "get_record m key =
     (case pp_list m of
        None \<Rightarrow> (replicate HASH_SIZE 0, 0, None)
      | Some (_, bs) \<Rightarrow>
          if key \<noteq> [] then
            (let d = key_digest m key; idx = bucket d (capacity m)
             in (d, idx, find (\<lambda>r. mr_key r = d) (bs ! idx)))
          else (replicate HASH_SIZE 0, 0, None))"

definition map_get :: "('a, 'u) map_context \<Rightarrow> u8 list \<Rightarrow> (addr \<times> u32) option" where
  "map_get m key =
     (case get_record m key of (_, _, r) \<Rightarrow> map_option (\<lambda>r. (mr_addr r, sz_rec r - 1)) r)"

text \<open>Copying the data stays inside the block when the size of the record lost no bits.\<close>

definition rec_size_ok :: "u32 \<Rightarrow> bool" where "rec_size_ok sz_data \<longleftrightarrow> unat sz_data + 33 < 2 ^ 32"

definition alloc_record :: "('a, 'u) map_context \<Rightarrow> u8 list \<Rightarrow> 'a \<Rightarrow> u32 \<Rightarrow>
    ('a map_rec_hdr option \<times> ('a, 'u) map_context) option" where
  "alloc_record m hash_key d sz_data =
     (case (pf_mem_alloc m, pf_mem_free m) of
        (Some al, Some fr) \<Rightarrow> do {
          let data_size = sz_data + 1;
          (p, u) \<leftarrow> al (sizeof_map_rec_hdr + data_size) (udata m);
          if p \<noteq> None \<and> \<not> rec_size_ok sz_data then None else
          Some (map_option (\<lambda>a. \<lparr>mr_addr = a, sz_rec = data_size, mr_key = hash_key, mr_data = d\<rparr>) p,
                m\<lparr>udata := u\<rparr>) }
      | _ \<Rightarrow> Some (None, m))"

text \<open>The common end of \<open>map_add\<close> and \<open>map_set\<close>: link the record, or release it.\<close>

definition link_record :: "('a, 'u) map_context \<Rightarrow> 'a map_rec_hdr \<Rightarrow> u32 \<Rightarrow>
    (ptr \<times> ('a, 'u) map_context) option" where
  "link_record m r sz_data = do {
     (la, bs) \<leftarrow> pp_list m;
     (case add_record r bs (capacity m) (collisions m) of
        (True, bs', coll) \<Rightarrow> do {
          let m = m\<lparr>pp_list := Some (la, bs'), collisions := coll, records := records m + 1\<rparr>;
          (_, m) \<leftarrow> (if records m \<ge> capacity m then remap m else Some (False, m));
          Some (Some (mr_addr r), m) }
      | (False, _, _) \<Rightarrow> do {
          fr \<leftarrow> pf_mem_free m;
          u \<leftarrow> fr (mr_addr r) (sizeof_map_rec_hdr + sz_data) (udata m);
          Some (None, m\<lparr>udata := u\<rparr>) }) }"

definition map_add :: "('a, 'u) map_context \<Rightarrow> u8 list \<Rightarrow> 'a \<Rightarrow> u32 \<Rightarrow> (ptr \<times> ('a, 'u) map_context) option" where
  "map_add m key d sz_data =
     (case get_record m key of
        (_, _, Some r) \<Rightarrow> Some (Some (mr_addr r), m)
      | (hash_key, _, None) \<Rightarrow> do {
          (r, m) \<leftarrow> alloc_record m hash_key d sz_data;
          (case r of None \<Rightarrow> Some (None, m) | Some r \<Rightarrow> link_record m r sz_data) })"

definition map_del :: "('a, 'u) map_context \<Rightarrow> u8 list \<Rightarrow> (unit \<times> ('a, 'u) map_context) option" where
  "map_del m key =
     (case get_record m key of
        (_, _, None) \<Rightarrow> Some ((), m)
      | (_, idx, Some r) \<Rightarrow>
          (case pf_mem_free m of
             None \<Rightarrow> Some ((), m)
           | Some fr \<Rightarrow> do {
               (la, bs) \<leftarrow> pp_list m;
               u \<leftarrow> fr (mr_addr r) (sizeof_map_rec_hdr + sz_rec r) (udata m);
               Some ((), m\<lparr>pp_list := Some (la, bs[idx := remove1 r (bs ! idx)]), udata := u,
                           records := records m - 1\<rparr>) }))"

definition map_set :: "('a, 'u) map_context \<Rightarrow> u8 list \<Rightarrow> 'a \<Rightarrow> u32 \<Rightarrow> (ptr \<times> ('a, 'u) map_context) option" where
  "map_set m key d sz_data = do {
     (_, m) \<leftarrow> map_del m key;
     (r, m) \<leftarrow> alloc_record m (key_digest m key) d sz_data;
     (case r of None \<Rightarrow> Some (None, m) | Some r \<Rightarrow> link_record m r sz_data) }"

section \<open>Clearing\<close>

fun free_records :: "(addr \<Rightarrow> u32 \<Rightarrow> 'u \<Rightarrow> 'u option) \<Rightarrow> 'a map_rec_hdr list \<Rightarrow> 'u \<Rightarrow> 'u option" where
  "free_records fr [] u = Some u"
| "free_records fr (r # rs) u = do {
     u \<leftarrow> fr (mr_addr r) (sizeof_map_rec_hdr + sz_rec r) u;
     free_records fr rs u }"

definition map_clr :: "('a, 'u) map_context \<Rightarrow> (unit \<times> ('a, 'u) map_context) option" where
  "map_clr m =
     (case (pf_mem_free m, pp_list m) of
        (Some fr, Some (la, bs)) \<Rightarrow>
          if records m \<noteq> 0 then do {
            u \<leftarrow> free_records fr (concat bs) (udata m);
            Some ((), m\<lparr>udata := u, pp_list := Some (la, replicate (length bs) []),
                        records := 0, collisions := 0\<rparr>) }
          else Some ((), m)
      | _ \<Rightarrow> Some ((), m))"

definition map_destroy :: "('a, 'u) map_context \<Rightarrow> (unit \<times> ('a, 'u) map_context) option" where
  "map_destroy m =
     (if pp_list m = None then Some ((), m)
      else do {
        (_, m) \<leftarrow> map_clr m;
        if records m = 0 then do {
          (la, bs) \<leftarrow> pp_list m;
          fr \<leftarrow> pf_mem_free m;
          u \<leftarrow> fr la (list_size (capacity m)) (udata m);
          Some ((), m\<lparr>udata := u, pp_list := None\<rparr>) }
        else Some ((), m) })"

section \<open>Enumeration\<close>

text \<open>The enumerator keeps a copy of the header of the current record, of which only \<open>next\<close> is
  used, and the address of its data.\<close>

record map_enum_state =
  aidx :: nat
  uidx :: nat
  crec_next :: ptr
  me_data :: ptr

definition enum_0 :: map_enum_state where
  "enum_0 = \<lparr>aidx = 0, uidx = 0, crec_next = None, me_data = None\<rparr>"

definition sizeof_map_enum :: u32 where "sizeof_map_enum = 56"

definition map_enum_open :: "('a, 'u) map_context \<Rightarrow> ((addr \<times> map_enum_state) option \<times> ('a, 'u) map_context) option" where
  "map_enum_open m =
     (case pf_mem_alloc m of
        None \<Rightarrow> Some (None, m)
      | Some al \<Rightarrow> do {
          (p, u) \<leftarrow> al sizeof_map_enum (udata m);
          Some (map_option (\<lambda>a. (a, enum_0)) p, m\<lparr>udata := u\<rparr>) })"

definition map_enum_close :: "('a, 'u) map_context \<Rightarrow> (addr \<times> map_enum_state) option \<Rightarrow> ('a, 'u) map_context option" where
  "map_enum_close m h =
     (case (h, pf_mem_free m) of
        (Some (a, e), Some fr) \<Rightarrow> do {
          u \<leftarrow> fr a sizeof_map_enum (udata m);
          Some (m\<lparr>udata := u\<rparr>) }
      | _ \<Rightarrow> Some m)"

fun next_of :: "addr \<Rightarrow> 'a map_rec_hdr list \<Rightarrow> ptr" where
  "next_of a (r # s # rs) = (if mr_addr r = a then Some (mr_addr s) else next_of a (s # rs))"
| "next_of a _ = None"

text \<open>The record at an address, with its chain; a record that was released is not found.\<close>

definition record_at :: "'a map_rec_hdr list list \<Rightarrow> addr \<Rightarrow> ('a map_rec_hdr \<times> ptr) option" where
  "record_at bs a = do {
     chain \<leftarrow> find (\<lambda>c. \<exists>r \<in> set c. mr_addr r = a) bs;
     r \<leftarrow> find (\<lambda>r. mr_addr r = a) chain;
     Some (r, next_of a chain) }"

text \<open>The first non-empty bucket from index \<open>i\<close> on, or the last index.\<close>

fun seek_bucket :: "nat \<Rightarrow> 'a map_rec_hdr list list \<Rightarrow> nat \<times> 'a map_rec_hdr list" where
  "seek_bucket i [] = (i, [])"
| "seek_bucket i (b # bs) = (if b \<noteq> [] then (i, b) else seek_bucket (i + 1) bs)"

definition head_next :: "'a map_rec_hdr list \<Rightarrow> ptr" where
  "head_next c = (case c of r # s # rs \<Rightarrow> Some (mr_addr s) | _ \<Rightarrow> None)"

definition map_enum_first :: "('a, 'u) map_context \<Rightarrow> map_enum_state \<Rightarrow>
    'a map_rec_hdr option \<times> map_enum_state" where
  "map_enum_first m e =
     (case pp_list m of
        None \<Rightarrow> (None, e)
      | Some (_, bs) \<Rightarrow>
          if records m \<noteq> 0 then
            (case seek_bucket 0 bs of
               (i, []) \<Rightarrow> (None, e\<lparr>aidx := i, uidx := 0\<rparr>)
             | (i, r # rs) \<Rightarrow> (Some r, \<lparr>aidx = i, uidx = 0, crec_next = head_next (r # rs),
                                      me_data = Some (mr_addr r)\<rparr>))
          else (None, e))"

definition map_enum_next :: "('a, 'u) map_context \<Rightarrow> map_enum_state \<Rightarrow>
    ('a map_rec_hdr option \<times> map_enum_state) option" where
  "map_enum_next m e =
     (case pp_list m of
        None \<Rightarrow> Some (None, e)
      | Some (_, bs) \<Rightarrow>
          if me_data e = None then Some (None, e)
          else (case crec_next e of
            Some a \<Rightarrow> do {
              (r, n) \<leftarrow> record_at bs a;
              Some (Some r, e\<lparr>me_data := Some a, crec_next := n, uidx := uidx e + 1\<rparr>) }
          | None \<Rightarrow>
              (case seek_bucket (aidx e + 1) (drop (aidx e + 1) bs) of
                 (i, []) \<Rightarrow> Some (None, e\<lparr>aidx := i - 1, crec_next := None, me_data := None\<rparr>)
               | (i, r # rs) \<Rightarrow> Some (Some r, e\<lparr>aidx := i, crec_next := head_next (r # rs),
                   me_data := Some (mr_addr r), uidx := uidx e + 1\<rparr>))))"

definition map_enum_del :: "('a, 'u) map_context \<Rightarrow> map_enum_state \<Rightarrow>
    (map_enum_state \<times> ('a, 'u) map_context) option" where
  "map_enum_del m e =
     (case pp_list m of
        None \<Rightarrow> Some (e, m)
      | Some (la, bs) \<Rightarrow>
          (case find (\<lambda>r. Some (mr_addr r) = me_data e) (bs ! aidx e) of
             None \<Rightarrow> Some (e, m)
           | Some r \<Rightarrow>
               (case pf_mem_free m of
                  None \<Rightarrow> Some (e, m)
                | Some fr \<Rightarrow> do {
                    let n = next_of (mr_addr r) (bs ! aidx e);
                    let nn = (case n of None \<Rightarrow> None | Some a \<Rightarrow> next_of a (bs ! aidx e));
                    u \<leftarrow> fr (mr_addr r) (sz_rec r + sizeof_map_rec_hdr) (udata m);
                    Some (e\<lparr>me_data := n, crec_next := nn\<rparr>,
                          m\<lparr>pp_list := Some (la, bs[aidx e := remove1 r (bs ! aidx e)]), udata := u,
                            records := records m - 1\<rparr>) })))"

datatype enum_op = MAP_ENUM_CONTINUE | MAP_ENUM_BREAK | MAP_ENUM_DELETE

text \<open>\<open>map_enum\<close>: the callback gets the data, their size and a state of its own; \<open>n\<close> bounds the
  rounds of the loop.\<close>

fun map_enum_loop :: "nat \<Rightarrow> ('a \<Rightarrow> u32 \<Rightarrow> 's \<Rightarrow> enum_op \<times> 's) \<Rightarrow> 'a map_rec_hdr option \<Rightarrow> 's \<Rightarrow>
    map_enum_state \<Rightarrow> ('a, 'u) map_context \<Rightarrow> ('s \<times> ('a, 'u) map_context) option" where
  "map_enum_loop n pcb None s e m = Some (s, m)"
| "map_enum_loop 0 pcb (Some r) s e m = None"
| "map_enum_loop (Suc n) pcb (Some r) s e m =
     (case pcb (mr_data r) (sz_rec r - 1) s of
        (MAP_ENUM_BREAK, s) \<Rightarrow> Some (s, m)
      | (MAP_ENUM_DELETE, s) \<Rightarrow> do {
          (e, m) \<leftarrow> map_enum_del m e;
          (d, e) \<leftarrow> map_enum_next m e;
          map_enum_loop n pcb d s e m }
      | (MAP_ENUM_CONTINUE, s) \<Rightarrow> do {
          (d, e) \<leftarrow> map_enum_next m e;
          map_enum_loop n pcb d s e m })"

definition map_enum :: "nat \<Rightarrow> ('a, 'u) map_context \<Rightarrow> ('a \<Rightarrow> u32 \<Rightarrow> 's \<Rightarrow> enum_op \<times> 's) \<Rightarrow> 's \<Rightarrow>
    ('s \<times> ('a, 'u) map_context) option" where
  "map_enum n m pcb s = (case map_enum_first m enum_0 of (d, e) \<Rightarrow> map_enum_loop n pcb d s e m)"

end
