(* ===== verification/Memory.thy ===== *)
theory Memory
  imports Prelude
begin

text \<open>
  The contract between the structures that keep blocks of memory and their allocators. \<open>live\<close> gives the
  blocks in use and their sizes; the hash table and the JSON parser are proved against it, and the
  classes that provide the callbacks interpret it on the zone allocators.
\<close>

text \<open>What a structure relies on: an allocator that returns for the sizes that \<open>fits\<close> admits, whose
  blocks are known with their rounded sizes, and that takes a block back under a size that
  rounds to the same.\<close>

locale mem_callbacks =
  fixes alloc :: "u32 \<Rightarrow> 'u \<Rightarrow> (ptr \<times> 'u) option"
    and free :: "addr \<Rightarrow> u32 \<Rightarrow> 'u \<Rightarrow> 'u option"
    and live :: "'u \<Rightarrow> addr \<rightharpoonup> u32"
    and ok :: "'u \<Rightarrow> bool"
    and rnd :: "u32 \<Rightarrow> u32"
    and fits :: "u32 \<Rightarrow> bool"
  assumes alloc_returns: "ok u \<Longrightarrow> fits sz \<Longrightarrow> \<exists>p u'. alloc sz u = Some (p, u')"
    and alloc_Some: "ok u \<Longrightarrow> alloc sz u = Some (Some a, u') \<Longrightarrow>
      live u a = None \<and> live u' = (live u)(a \<mapsto> rnd sz) \<and> ok u'"
    and alloc_None: "ok u \<Longrightarrow> alloc sz u = Some (None, u') \<Longrightarrow> live u' = live u \<and> ok u'"
    and free_live: "ok u \<Longrightarrow> live u a = Some (rnd sz) \<Longrightarrow>
      \<exists>u'. free a sz u = Some u' \<and> ok u' \<and> live u' = (live u)(a := None)"

end
