(* ===== verification/MapSpec.thy ===== *)
theory MapSpec
  imports MapAlg Memory "HOL-Library.Multiset"
begin

text \<open>
  What the hash table promises: it is a finite map from digests to records. The invariant ties
  the buckets to the string hash, the counters to the records and the records to blocks of the
  allocator; each operation refines its counterpart on maps, for every allocator that satisfies
  \<open>mem_callbacks\<close>.
\<close>

declare set_concat [simp del] mset_concat [simp del] concat_eq_Nil_conv [simp del]

section \<open>The records of a table as a map\<close>

definition mget :: "'a map_rec_hdr list list \<Rightarrow> u8 list \<rightharpoonup> 'a map_rec_hdr" where
  "mget bs d = find (\<lambda>r. mr_key r = d) (concat bs)"

definition buckets_ok :: "'a map_rec_hdr list list \<Rightarrow> u32 \<Rightarrow> bool" where
  "buckets_ok bs cap \<longleftrightarrow> cap \<noteq> 0 \<and> length bs = unat cap \<and>
     (\<forall>i < length bs. \<forall>r \<in> set (bs ! i). bucket (mr_key r) cap = i) \<and>
     distinct (map mr_key (concat bs))"

lemma bucket_less: "cap \<noteq> 0 \<Longrightarrow> bucket d cap < unat cap"
proof -
  assume c: "cap \<noteq> 0"
  have u: "unat (ucast cap :: u64) = unat cap" by (rule unat_ucast_u64)
  have pos: "0 < unat cap" using c by (simp add: unat_gt_0)
  have h: "unat (str_hash d mod ucast cap) < unat cap" using pos by (simp add: unat_mod_distrib u)
  also have "unat cap < 2 ^ 32" using unsigned_less [of cap, where ?'a = nat] by simp
  finally have "bucket d cap = unat (str_hash d mod ucast cap)"
    unfolding bucket_def by (rule unat_ucast_u32)
  then show ?thesis using h by simp
qed

lemma find_SomeD: "find P xs = Some x \<Longrightarrow> x \<in> set xs \<and> P x"
  by (induction xs) (auto split: if_splits)

lemma find_append: "find P (xs @ ys) = (case find P xs of None \<Rightarrow> find P ys | Some x \<Rightarrow> Some x)"
  by (induction xs) auto

lemma find_unique:
  assumes "distinct (map f xs)" "x \<in> set xs" "f x = d"
  shows "find (\<lambda>y. f y = d) xs = Some x"
  using assms by (induction xs) auto

lemma mget_Some_iff:
  assumes "distinct (map mr_key (concat bs))"
  shows "mget bs d = Some r \<longleftrightarrow> r \<in> set (concat bs) \<and> mr_key r = d"
proof
  assume "mget bs d = Some r"
  then show "r \<in> set (concat bs) \<and> mr_key r = d" unfolding mget_def by (rule find_SomeD)
next
  assume "r \<in> set (concat bs) \<and> mr_key r = d"
  then show "mget bs d = Some r" using find_unique [OF assms, of r d] unfolding mget_def by blast
qed

lemma find_bucket:
  assumes ok: "buckets_ok bs cap"
  shows "find (\<lambda>r. mr_key r = d) (bs ! bucket d cap) = mget bs d"
proof -
  have dist: "distinct (map mr_key (concat bs))" and i: "bucket d cap < length bs"
    using ok bucket_less [of cap d] by (auto simp: buckets_ok_def)
  have sub: "set (bs ! bucket d cap) \<subseteq> set (concat bs)" using i by (force simp: set_concat)
  show ?thesis
  proof (cases "mget bs d")
    case None
    then have "\<forall>r \<in> set (concat bs). mr_key r \<noteq> d" by (auto simp: mget_def find_None_iff)
    then have "find (\<lambda>r. mr_key r = d) (bs ! bucket d cap) = None" using sub by (auto simp: find_None_iff)
    then show ?thesis using None by simp
  next
    case (Some r)
    then have r: "r \<in> set (concat bs)" "mr_key r = d" using mget_Some_iff [OF dist] by auto
    then obtain b where "b \<in> set bs" "r \<in> set b" by (auto simp: set_concat)
    then obtain j where j: "j < length bs" "r \<in> set (bs ! j)" by (metis in_set_conv_nth)
    then have "j = bucket d cap" using ok r(2) by (auto simp: buckets_ok_def)
    then have in_b: "r \<in> set (bs ! bucket d cap)" using j by simp
    have "\<exists>s. find (\<lambda>r. mr_key r = d) (bs ! bucket d cap) = Some s"
      using in_b r(2) by (cases "find (\<lambda>r. mr_key r = d) (bs ! bucket d cap)") (auto simp: find_None_iff)
    then obtain s where s: "find (\<lambda>r. mr_key r = d) (bs ! bucket d cap) = Some s" by blast
    then have "s \<in> set (concat bs)" "mr_key s = d" using sub find_SomeD [OF s] by auto
    then have "mget bs d = Some s" using mget_Some_iff [OF dist] by simp
    then show ?thesis using s by simp
  qed
qed

lemma concat_update:
  "i < length bs \<Longrightarrow> mset (concat (bs[i := c])) + mset (bs ! i) = mset (concat bs) + mset c"
proof (induction bs arbitrary: i)
  case (Cons b bs)
  then show ?case by (cases i) (auto simp: ac_simps)
qed simp

lemma mset_concat_snoc:
  "i < length bs \<Longrightarrow> mset (concat (bs[i := bs ! i @ [r]])) = add_mset r (mset (concat bs))"
  using concat_update [of i bs "bs ! i @ [r]"] by simp

lemma mset_concat_remove:
  "i < length bs \<Longrightarrow> r \<in> set (bs ! i) \<Longrightarrow>
     add_mset r (mset (concat (bs[i := remove1 r (bs ! i)]))) = mset (concat bs)"
proof -
  assume i: "i < length bs" and r: "r \<in> set (bs ! i)"
  let ?X = "mset (bs ! i) - {#r#}"
  have "mset (bs ! i) = add_mset r ?X" using r by simp
  then show ?thesis using concat_update [OF i, of "remove1 r (bs ! i)"] by (metis mset_remove1
    add_right_imp_eq union_mset_add_mset_left union_mset_add_mset_right)
qed

lemma distinct_map_mset: "mset xs = mset ys \<Longrightarrow> distinct (map f xs) = distinct (map f ys)"
  by (metis mset_eq_imp_distinct_iff mset_map)

lemma mget_None_iff: "mget bs d = None \<longleftrightarrow> (\<forall>r \<in> set (concat bs). mr_key r \<noteq> d)"
  by (auto simp: mget_def find_None_iff)

lemma mget_eqI:
  assumes "distinct (map mr_key (concat bs))" "distinct (map mr_key (concat bs'))"
    and "\<And>r. r \<in> set (concat bs') \<and> mr_key r = d \<longleftrightarrow> f = Some r"
  shows "mget bs' d = f"
proof (cases "mget bs' d")
  case None
  then have "f \<noteq> Some r" for r using mget_Some_iff [OF assms(2), of d r] assms(3) [of r] by (metis option.distinct(1))
  then show ?thesis using None by (cases f) auto
next
  case (Some r)
  then show ?thesis using mget_Some_iff [OF assms(2), of d r] assms(3) [of r] by simp
qed

text \<open>Adding a record with a new digest.\<close>

lemma add_record_new:
  assumes ok: "buckets_ok bs cap" and new: "mget bs (mr_key r) = None"
    and add: "add_record r bs cap coll = (b, bs', coll')"
  shows "b" "buckets_ok bs' cap" "mset (concat bs') = add_mset r (mset (concat bs))"
    "mget bs' = (mget bs)(mr_key r \<mapsto> r)"
proof -
  let ?i = "bucket (mr_key r) cap"
  have i: "?i < length bs" using ok bucket_less by (auto simp: buckets_ok_def)
  have "r' \<in> set (concat bs)" if "r' \<in> set (bs ! ?i)" for r' using that i by (force simp: set_concat)
  then have no: "\<not> (\<exists>r' \<in> set (bs ! ?i). mr_key r' = mr_key r)" using new by (auto simp: mget_None_iff)
  have r: "b \<and> bs' = bs[?i := bs ! ?i @ [r]]"
    using add no by (auto simp: add_record_def Let_def split: if_splits)
  then show "b" by simp
  show ms: "mset (concat bs') = add_mset r (mset (concat bs))" using r mset_concat_snoc [OF i] by simp
  have sets: "set (concat bs') = insert r (set (concat bs))" using arg_cong [OF ms, of set_mset] by simp
  have dist: "distinct (map mr_key (concat bs'))"
  proof -
    have "mr_key r \<notin> mr_key ` set (concat bs)" using new unfolding mget_None_iff by (metis imageE)
    then have "distinct (map mr_key (r # concat bs))" using ok by (simp add: buckets_ok_def)
    then show ?thesis using distinct_map_mset [of "r # concat bs" "concat bs'" mr_key] ms by simp
  qed
  show "buckets_ok bs' cap"
    using ok dist r i by (auto simp: buckets_ok_def nth_list_update)
  show "mget bs' = (mget bs)(mr_key r \<mapsto> r)"
  proof
    fix d
    have d1: "distinct (map mr_key (concat bs))" using ok by (simp add: buckets_ok_def)
    show "mget bs' d = ((mget bs)(mr_key r \<mapsto> r)) d"
    proof (rule mget_eqI [OF d1 dist])
      fix x
      show "x \<in> set (concat bs') \<and> mr_key x = d \<longleftrightarrow> ((mget bs)(mr_key r \<mapsto> r)) d = Some x"
        using mget_Some_iff [OF d1, of d x] new [unfolded mget_None_iff] unfolding sets by auto
    qed
  qed
qed

lemma remove_record:
  assumes ok: "buckets_ok bs cap" and r: "mget bs d = Some r" and bs': "bs' = bs[bucket d cap := remove1 r (bs ! bucket d cap)]"
  shows "buckets_ok bs' cap" "mset (concat bs) = add_mset r (mset (concat bs'))" "mget bs' = (mget bs)(d := None)"
proof -
  let ?i = "bucket d cap"
  have i: "?i < length bs" using ok bucket_less by (auto simp: buckets_ok_def)
  have rb: "r \<in> set (bs ! ?i)" "mr_key r = d"
    using find_SomeD [of "\<lambda>r. mr_key r = d" "bs ! ?i" r] find_bucket [OF ok, of d] r by auto
  show ms: "mset (concat bs) = add_mset r (mset (concat bs'))"
    using mset_concat_remove [OF i rb(1)] bs' by simp
  have d1: "distinct (map mr_key (concat bs))" using ok by (simp add: buckets_ok_def)
  then have d2: "distinct (map mr_key (r # concat bs'))"
    using distinct_map_mset [of "r # concat bs'" "concat bs" mr_key] ms by simp
  have sets: "set (concat bs) = insert r (set (concat bs'))" using arg_cong [OF ms, of set_mset] by simp
  show "buckets_ok bs' cap"
    using ok d2 i set_remove1_subset [of r "bs ! ?i"]
    by (simp add: bs' buckets_ok_def nth_list_update subset_iff)
  show "mget bs' = (mget bs)(d := None)"
  proof
    fix x
    show "mget bs' x = ((mget bs)(d := None)) x"
    proof (rule mget_eqI [OF d1])
      show "distinct (map mr_key (concat bs'))" using d2 by simp
      have nin: "mr_key r \<notin> mr_key ` set (concat bs')" using d2 by simp
      fix y
      show "y \<in> set (concat bs') \<and> mr_key y = x \<longleftrightarrow> ((mget bs)(d := None)) x = Some y"
      proof (cases "x = d")
        case True
        then show ?thesis using nin rb(2) by (metis fun_upd_same imageI option.distinct(1))
      next
        case False
        then show ?thesis using mget_Some_iff [OF d1, of x y] rb(2) unfolding sets by auto
      qed
    qed
  qed
qed

lemma add_records_all:
  assumes "buckets_ok bs cap" "distinct (map mr_key (rs @ concat bs))"
    and "add_records rs bs cap coll = (bs', coll')"
  shows "buckets_ok bs' cap \<and> mset (concat bs') = mset rs + mset (concat bs)"
  using assms
proof (induction rs arbitrary: bs coll)
  case (Cons r rs)
  obtain b bs1 coll1 where a: "add_record r bs cap coll = (b, bs1, coll1)" by (cases "add_record r bs cap coll") auto
  have "mr_key r \<notin> mr_key ` set (concat bs)" using Cons.prems(2) by simp
  then have "mget bs (mr_key r) = None" unfolding mget_None_iff by (metis imageI)
  note n = add_record_new [OF Cons.prems(1) this a]
  have "distinct (map mr_key (rs @ concat bs1))"
    using Cons.prems(2) distinct_map_mset [of "rs @ concat bs1" "(r # rs) @ concat bs" mr_key] n(3) by simp
  then show ?case using Cons.IH [OF n(2)] Cons.prems(3) a n(3) by simp
qed simp

lemma buckets_ok_empty: "cap \<noteq> 0 \<Longrightarrow> buckets_ok (replicate (unat cap) []) cap \<and> mget (replicate n []) = Map.empty"
proof -
  have "concat (replicate k []) = []" for k :: nat by (induction k) auto
  then show "cap \<noteq> 0 \<Longrightarrow> ?thesis" by (auto simp: buckets_ok_def mget_def)
qed

text \<open>The blocks of a table: its array and its records.\<close>

definition blocks_of :: "addr \<Rightarrow> 'a map_rec_hdr list list \<Rightarrow> addr list" where
  "blocks_of la bs = la # map mr_addr (concat bs)"

lemma blocks_of_add:
  assumes "mset (concat bs') = add_mset r (mset (concat bs))"
  shows "distinct (blocks_of la bs') = distinct (mr_addr r # blocks_of la bs)"
    "set (blocks_of la bs') = insert (mr_addr r) (set (blocks_of la bs))"
    "length (concat bs') = Suc (length (concat bs))" "set (concat bs') = insert r (set (concat bs))"
proof -
  have "mset (blocks_of la bs') = mset (mr_addr r # blocks_of la bs)"
    using arg_cong [OF assms, of "image_mset mr_addr"] by (simp add: blocks_of_def)
  then show "distinct (blocks_of la bs') = distinct (mr_addr r # blocks_of la bs)"
    "set (blocks_of la bs') = insert (mr_addr r) (set (blocks_of la bs))"
    by (metis mset_eq_imp_distinct_iff) (metis \<open>mset _ = mset _\<close> list.simps(15) mset_eq_setD)
  show "length (concat bs') = Suc (length (concat bs))" using arg_cong [OF assms, of size] by (simp)
  show "set (concat bs') = insert r (set (concat bs))"
    using arg_cong [OF assms, of set_mset] by (simp)
qed

section \<open>Enumeration\<close>

text \<open>The enumerator stands on record \<open>r\<close>, in bucket \<open>i\<close> between \<open>pre\<close> and \<open>post\<close>.\<close>

definition enum_at :: "'a map_rec_hdr list list \<Rightarrow> map_enum_state \<Rightarrow> 'a map_rec_hdr \<Rightarrow> 'a map_rec_hdr list \<Rightarrow> bool" where
  "enum_at bs e r rest \<longleftrightarrow> (\<exists>i pre post. i < length bs \<and> bs ! i = pre @ r # post \<and> aidx e = i \<and>
     me_data e = Some (mr_addr r) \<and> crec_next e = head_next (r # post) \<and> rest = post @ concat (drop (Suc i) bs))"

lemma seek_bucket_spec:
  "seek_bucket k cs = (j, b) \<Longrightarrow> if b = [] then concat cs = []
     else \<exists>n < length cs. j = k + n \<and> cs ! n = b \<and> concat cs = b @ concat (drop (Suc n) cs)"
proof (induction k cs rule: seek_bucket.induct)
  case (2 i c cs)
  show ?case
  proof (cases "c = []")
    case True
    then have "seek_bucket (i + 1) cs = (j, b)" using 2(2) by simp
    then have "if b = [] then concat cs = []
       else \<exists>n < length cs. j = i + 1 + n \<and> cs ! n = b \<and> concat cs = b @ concat (drop (Suc n) cs)"
      using 2(1) True by simp
    then show ?thesis using True by (cases "b = []") (auto intro: exI [of _ "Suc _"])
  next
    case False
    then show ?thesis using 2(2) by (auto intro: exI [of _ 0])
  qed
qed auto

lemma next_of_split: "mr_addr r \<notin> mr_addr ` set pre \<Longrightarrow> next_of (mr_addr r) (pre @ r # post) = head_next (r # post)"
proof (induction pre)
  case Nil
  then show ?case by (cases post) (auto simp: head_next_def)
next
  case (Cons p pre)
  then show ?case by (cases pre) auto
qed

lemma record_at_split:
  assumes "distinct (map mr_addr (concat bs))" "i < length bs" "bs ! i = pre @ r # post"
  shows "record_at bs (mr_addr r) = Some (r, head_next (r # post))"
proof -
  have bs: "bs = take i bs @ (pre @ r # post) # drop (Suc i) bs" using assms(2,3) id_take_nth_drop by metis
  have "concat bs = concat (take i bs) @ (pre @ r # post) @ concat (drop (Suc i) bs)" by (subst bs) simp
  then have d: "distinct (map mr_addr (concat (take i bs) @ (pre @ r # post) @ concat (drop (Suc i) bs)))"
    using assms(1) by simp
  have "\<not> (\<exists>x \<in> set c. mr_addr x = mr_addr r)" if "c \<in> set (take i bs)" for c
  proof -
    have "set c \<subseteq> set (concat (take i bs))" using that by (auto simp: set_concat)
    moreover have "mr_addr r \<notin> mr_addr ` set (concat (take i bs))" using d by auto
    ultimately show ?thesis by (metis imageI subsetD)
  qed
  then have "find (\<lambda>c. \<exists>x \<in> set c. mr_addr x = mr_addr r) (take i bs) = None" unfolding find_None_iff by blast
  then have f: "find (\<lambda>c. \<exists>x \<in> set c. mr_addr x = mr_addr r) bs = Some (pre @ r # post)"
    by (subst bs) (simp add: find_append)
  have "mr_addr r \<notin> mr_addr ` set pre" using d by auto
  then have "find (\<lambda>x. mr_addr x = mr_addr r) pre = None" unfolding find_None_iff by (metis imageI)
  then have "find (\<lambda>x. mr_addr x = mr_addr r) (pre @ r # post) = Some r" by (simp add: find_append)
  then show ?thesis using f next_of_split [OF \<open>mr_addr r \<notin> mr_addr ` set pre\<close>, of post] by (simp add: record_at_def)
qed

lemma map_enum_next_spec:
  assumes p: "pp_list m = Some (la, bs)" and d: "distinct (map mr_addr (concat bs))" and at: "enum_at bs e r rest"
  shows "\<exists>e'. map_enum_next m e = Some (case rest of [] \<Rightarrow> None | r' # rs \<Rightarrow> Some r', e') \<and>
     (case rest of [] \<Rightarrow> True | r' # rs \<Rightarrow> enum_at bs e' r' rs)"
proof -
  obtain i pre post where i: "i < length bs" "bs ! i = pre @ r # post" "aidx e = i" "me_data e = Some (mr_addr r)"
    "crec_next e = head_next (r # post)" "rest = post @ concat (drop (Suc i) bs)" using at unfolding enum_at_def by blast
  show ?thesis
  proof (cases post)
    case (Cons q qs)
    have "record_at bs (mr_addr q) = Some (q, head_next (q # qs))"
      using record_at_split [OF d i(1), of "pre @ [r]" q qs] i(2) Cons by simp
    moreover have "enum_at bs (e\<lparr>me_data := Some (mr_addr q), crec_next := head_next (q # qs), uidx := uidx e + 1\<rparr>)
        q (qs @ concat (drop (Suc i) bs))"
      unfolding enum_at_def using i Cons by (intro exI [of _ i] exI [of _ "pre @ [r]"] exI [of _ qs]) simp
    moreover have "crec_next e = Some (mr_addr q)" using i(5) Cons by (simp add: head_next_def)
    ultimately show ?thesis using i(4,6) p Cons by (simp add: map_enum_next_def)
  next
    case Nil
    obtain j b where j: "seek_bucket (Suc i) (drop (Suc i) bs) = (j, b)" by (cases "seek_bucket (Suc i) (drop (Suc i) bs)")
    have s: "if b = [] then concat (drop (Suc i) bs) = []
       else \<exists>n < length (drop (Suc i) bs). j = Suc i + n \<and> drop (Suc i) bs ! n = b \<and>
         concat (drop (Suc i) bs) = b @ concat (drop (Suc n) (drop (Suc i) bs))" using seek_bucket_spec [OF j] .
    show ?thesis
    proof (cases b)
      case Nil
      then show ?thesis using s i p j \<open>post = []\<close> by (simp add: map_enum_next_def head_next_def)
    next
      case (Cons q qs)
      then obtain n where n: "n < length (drop (Suc i) bs)" "j = Suc i + n" "bs ! j = q # qs"
        "concat (drop (Suc i) bs) = q # qs @ concat (drop (Suc j) bs)" using s by (auto simp: add.commute)
      have "enum_at bs (e\<lparr>aidx := j, crec_next := head_next (q # qs), me_data := Some (mr_addr q), uidx := uidx e + 1\<rparr>)
          q (qs @ concat (drop (Suc j) bs))"
        unfolding enum_at_def using n(1-3) by (intro exI [of _ j] exI [of _ "[]"] exI [of _ qs]) auto
      then show ?thesis using n(4) i p j \<open>post = []\<close> Cons by (simp add: map_enum_next_def head_next_def)
    qed
  qed
qed

lemma map_enum_first_spec:
  assumes "pp_list m = Some (la, bs)" "records m \<noteq> 0"
  shows "\<exists>e'. map_enum_first m e = (case concat bs of [] \<Rightarrow> None | r # rs \<Rightarrow> Some r, e') \<and>
     (case concat bs of [] \<Rightarrow> True | r # rs \<Rightarrow> enum_at bs e' r rs)"
proof -
  obtain j b where j: "seek_bucket 0 bs = (j, b)" by (cases "seek_bucket 0 bs")
  have s: "if b = [] then concat bs = []
     else \<exists>n < length bs. j = n \<and> bs ! n = b \<and> concat bs = b @ concat (drop (Suc n) bs)" using seek_bucket_spec [OF j] by (simp split: if_splits)
  show ?thesis
  proof (cases b)
    case Nil
    then show ?thesis using s assms j by (simp add: map_enum_first_def)
  next
    case (Cons q qs)
    then have n: "j < length bs" "bs ! j = q # qs" "concat bs = q # qs @ concat (drop (Suc j) bs)" using s by auto
    have "enum_at bs \<lparr>aidx = j, uidx = 0, crec_next = head_next (q # qs), me_data = Some (mr_addr q)\<rparr>
        q (qs @ concat (drop (Suc j) bs))" unfolding enum_at_def using n by (intro exI [of _ j] exI [of _ "[]"] exI [of _ qs]) auto
    then show ?thesis using n(3) assms j Cons by (simp add: map_enum_first_def)
  qed
qed

text \<open>What a callback that does not delete is called with.\<close>

fun visit :: "('a \<Rightarrow> u32 \<Rightarrow> 's \<Rightarrow> enum_op \<times> 's) \<Rightarrow> 'a map_rec_hdr list \<Rightarrow> 's \<Rightarrow> 's" where
  "visit pcb [] s = s"
| "visit pcb (r # rs) s =
     (case pcb (mr_data r) (sz_rec r - 1) s of (MAP_ENUM_BREAK, s) \<Rightarrow> s | (_, s) \<Rightarrow> visit pcb rs s)"

lemma map_enum_loop_visit:
  assumes p: "pp_list m = Some (la, bs)" and d: "distinct (map mr_addr (concat bs))"
    and nodel: "\<And>x n s. fst (pcb x n s) \<noteq> MAP_ENUM_DELETE"
  shows "enum_at bs e r rest \<Longrightarrow> length rest < n \<Longrightarrow>
    map_enum_loop n pcb (Some r) s e m = Some (visit pcb (r # rest) s, m)"
proof (induction n arbitrary: e r rest s)
  case (Suc n)
  obtain e' where e': "map_enum_next m e = Some (case rest of [] \<Rightarrow> None | r' # rs \<Rightarrow> Some r', e')"
    "case rest of [] \<Rightarrow> True | r' # rs \<Rightarrow> enum_at bs e' r' rs" using map_enum_next_spec [OF p d Suc.prems(1)] by blast
  have loop: "map_enum_loop n pcb (case rest of [] \<Rightarrow> None | r' # rs \<Rightarrow> Some r') s' e' m = Some (visit pcb rest s', m)" for s'
    using Suc.IH Suc.prems(2) e'(2) by (cases rest) auto
  obtain op s' where op: "pcb (mr_data r) (sz_rec r - 1) s = (op, s')" by (cases "pcb (mr_data r) (sz_rec r - 1) s")
  then have "op \<noteq> MAP_ENUM_DELETE" using nodel [of "mr_data r" "sz_rec r - 1" s] by simp
  then show ?case using op e'(1) loop [of s'] by (cases op) simp_all
qed simp

lemma map_enum_visit:
  assumes "pp_list m = Some (la, bs)" "distinct (map mr_addr (concat bs))" "records m \<noteq> 0"
    and "\<And>x n s. fst (pcb x n s) \<noteq> MAP_ENUM_DELETE" "length (concat bs) \<le> n"
  shows "map_enum n m pcb s = Some (visit pcb (concat bs) s, m)"
proof -
  obtain e' where e': "map_enum_first m enum_0 = (case concat bs of [] \<Rightarrow> None | r # rs \<Rightarrow> Some r, e')"
    "case concat bs of [] \<Rightarrow> True | r # rs \<Rightarrow> enum_at bs e' r rs" using map_enum_first_spec [OF assms(1,3)] by blast
  show ?thesis
  proof (cases "concat bs")
    case Nil
    then show ?thesis using e'(1) by (simp add: map_enum_def)
  next
    case (Cons r rs)
    then show ?thesis using e' assms(5) map_enum_loop_visit [OF assms(1,2,4)] by (simp add: map_enum_def)
  qed
qed

section \<open>Storing a record\<close>

definition insert_record :: "('a, 'u) map_context \<Rightarrow> u8 list \<Rightarrow> 'a \<Rightarrow> u32 \<Rightarrow> (ptr \<times> ('a, 'u) map_context) option" where
  "insert_record m k d sz = do {
     (r, m) \<leftarrow> alloc_record m k d sz;
     (case r of None \<Rightarrow> Some (None, m) | Some r \<Rightarrow> link_record m r sz) }"

text \<open>What a table holds after a record was asked for: the new record, or the old table when there
  is no memory.\<close>

definition stored :: "ptr \<Rightarrow> u8 list \<Rightarrow> 'a \<Rightarrow> u32 \<Rightarrow> (u8 list \<rightharpoonup> 'a map_rec_hdr) \<Rightarrow> (u8 list \<rightharpoonup> 'a map_rec_hdr)" where
  "stored p k d sz f = (case p of None \<Rightarrow> f
     | Some a \<Rightarrow> f(k \<mapsto> \<lparr>mr_addr = a, sz_rec = sz + 1, mr_key = k, mr_data = d\<rparr>))"

section \<open>The callbacks\<close>

text \<open>How an addition changes the number of records and the capacity: the table doubles only once it
  holds as many records as buckets.\<close>

definition grows :: "('a, 'u) map_context \<Rightarrow> ('a, 'u) map_context \<Rightarrow> bool" where
  "grows m m' \<longleftrightarrow> (records m' = records m \<and> capacity m' = capacity m) \<or>
     (records m' = records m + 1 \<and> (capacity m' = capacity m \<or> capacity m \<le> records m' \<and> capacity m' = capacity m * 2 + 1))"

lemma remap_grows: "remap m = Some (b, m') \<Longrightarrow>
    records m' = records m \<and> (capacity m' = capacity m \<or> capacity m' = capacity m * 2 + 1)"
  by (auto simp: remap_def bind_Some_iff Let_def split_def split: option.split_asm if_split_asm)

lemma link_record_grows: "link_record m r sz = Some (p, m') \<Longrightarrow> grows m m'"
  by (auto simp: grows_def link_record_def bind_Some_iff Let_def split_def split: option.split_asm if_split_asm bool.split_asm dest!: remap_grows)

lemma insert_record_grows: "insert_record m k d sz = Some (p, m') \<Longrightarrow> grows m m'"
  by (auto simp: grows_def insert_record_def alloc_record_def bind_Some_iff Let_def split_def
      split: option.split_asm if_split_asm bool.split_asm dest!: link_record_grows)

lemma map_add_grows: "map_add m key d sz = Some (p, m') \<Longrightarrow> grows m m'"
  by (cases "get_record m key")
    (auto simp: map_add_def insert_record_def [symmetric] dest: insert_record_grows split: option.split_asm, simp add: grows_def)

lemma map_set_grows: "map_set m key d sz = Some (p, m') \<Longrightarrow> \<exists>m1. map_del m key = Some ((), m1) \<and> grows m1 m'"
  by (cases "map_del m key") (auto simp: map_set_def insert_record_def [symmetric] dest: insert_record_grows)

text \<open>A bound for a table that started with \<open>b\<close> buckets and has seen at most \<open>n\<close> additions.\<close>

definition sized :: "nat \<Rightarrow> nat \<Rightarrow> ('a, 'u) map_context \<Rightarrow> bool" where
  "sized b n m \<longleftrightarrow> unat (records m) \<le> n \<and> unat (capacity m) \<le> max b (2 * n + 1)"

lemma sized_grows:
  assumes "sized b n m" "b < 2 ^ 20" "n < 2 ^ 20" "grows m m'"
  shows "sized b (Suc n) m'"
proof -
  have r: "unat (records m) \<le> n" and c: "unat (capacity m) \<le> max b (2 * n + 1)" using assms(1) by (simp_all add: sized_def)
  have r1: "unat (records m + 1) = unat (records m) + 1" using r assms(3) by (intro unat_add_one_less) simp
  have c1: "unat (capacity m * 2 + 1) = unat (capacity m) * 2 + 1" using c assms(2,3) by (simp add: unat_word_ariths)
  show ?thesis using assms(4) r c r1 c1 by (auto simp: sized_def grows_def word_le_nat_alt)
qed

lemma sized_less:
  "sized b n m \<Longrightarrow> unat (records m') \<le> unat (records m) \<Longrightarrow> capacity m' = capacity m \<Longrightarrow> sized b n m'"
  by (simp add: sized_def)

lemma sized_limits:
  assumes "sized b n m" "b < 2 ^ 20" "n < 2 ^ 20"
  shows "unat (records m) + 1 < 2 ^ 32 \<and> unat (capacity m) < 2 ^ 28 \<and>
    list_size (capacity m * 2 + 1) \<noteq> 0 \<and> list_size (capacity m * 2 + 1) \<le> 0xFFFFF000"
proof -
  have c: "unat (capacity m) < 2 ^ 22" using assms by (auto simp: sized_def)
  then have u: "unat (capacity m * 2 + 1) = unat (capacity m) * 2 + 1" by (simp add: unat_word_ariths)
  then have "unat ((capacity m * 2 + 1) * 8) = (unat (capacity m) * 2 + 1) * 8"
    using c by (simp only: unat_word_ariths(2) [of _ 8] u) simp
  then show ?thesis using assms c
    by (auto simp: sized_def list_size_def word_le_nat_alt word_unat_eq_iff [of _ 0])
qed

context mem_callbacks
begin

text \<open>The state of the allocator outside the blocks of a table, and the invariant.\<close>

definition others :: "('a, 'u) map_context \<Rightarrow> addr \<rightharpoonup> u32" where
  "others m = (case pp_list m of
     None \<Rightarrow> live (udata m)
   | Some (la, bs) \<Rightarrow> live (udata m) |` (- set (blocks_of la bs)))"

definition rec_live :: "'u \<Rightarrow> 'a map_rec_hdr \<Rightarrow> bool" where
  "rec_live u r \<longleftrightarrow> live u (mr_addr r) = Some (rnd (sizeof_map_rec_hdr + sz_rec r))"

definition map_rel :: "('a, 'u) map_context \<Rightarrow> 'a map_rec_hdr list list \<Rightarrow> bool" where
  "map_rel m bs \<longleftrightarrow> pf_mem_alloc m = Some alloc \<and> pf_mem_free m = Some free \<and> ok (udata m) \<and>
     (\<exists>la. pp_list m = Some (la, bs) \<and> distinct (blocks_of la bs) \<and>
        live (udata m) la = Some (rnd (list_size (capacity m)))) \<and>
     buckets_ok bs (capacity m) \<and> list_all (rec_live (udata m)) (concat bs) \<and>
     records m = of_nat (length (concat bs)) \<and> length (concat bs) < 2 ^ 32"

lemma rec_live_upd:
  assumes "live u' = (live u)(a := v)" "a \<notin> mr_addr ` set rs" "list_all (rec_live u) rs"
  shows "list_all (rec_live u') rs"
  using assms by (auto simp: list_all_iff rec_live_def)

lemma map_relE:
  assumes "map_rel m bs"
  obtains la where "pp_list m = Some (la, bs)" "distinct (blocks_of la bs)"
    "live (udata m) la = Some (rnd (list_size (capacity m)))"
  using assms by (auto simp: map_rel_def)

lemma others_blocks: "pp_list m = Some (la, bs) \<Longrightarrow> others m = live (udata m) |` (- set (blocks_of la bs))"
  by (simp add: others_def)

lemma map_get_spec:
  assumes "map_rel m bs" "key \<noteq> []"
  shows "map_get m key = map_option (\<lambda>r. (mr_addr r, sz_rec r - 1)) (mget bs (key_digest m key))"
proof -
  have "buckets_ok bs (capacity m)" using assms(1) by (simp add: map_rel_def)
  then show ?thesis using assms find_bucket [of bs "capacity m" "key_digest m key"]
    by (auto simp: map_get_def get_record_def Let_def elim!: map_relE)
qed

lemma get_record_spec:
  assumes "map_rel m bs" "key \<noteq> []"
  shows "get_record m key = (key_digest m key, bucket (key_digest m key) (capacity m), mget bs (key_digest m key))"
proof -
  have "buckets_ok bs (capacity m)" using assms(1) by (simp add: map_rel_def)
  then show ?thesis using assms find_bucket [of bs "capacity m" "key_digest m key"]
    by (auto simp: get_record_def Let_def elim!: map_relE)
qed

text \<open>Taking one record out.\<close>

definition unlinked :: "('a, 'u) map_context \<Rightarrow> 'a map_rec_hdr \<Rightarrow> 'u \<Rightarrow> ('a, 'u) map_context" where
  "unlinked m r u = (case pp_list m of None \<Rightarrow> m | Some (la, bs) \<Rightarrow>
     (let i = bucket (mr_key r) (capacity m)
      in m\<lparr>pp_list := Some (la, bs[i := remove1 r (bs ! i)]), udata := u, records := records m - 1\<rparr>))"

lemma unlinked_spec:
  assumes rel: "map_rel m bs" and get: "mget bs d = Some r"
  shows "\<exists>u bs'. free (mr_addr r) (sizeof_map_rec_hdr + sz_rec r) (udata m) = Some u \<and>
    map_rel (unlinked m r u) bs' \<and> mget bs' = (mget bs)(d := None) \<and> others (unlinked m r u) = others m \<and>
    unat (records m - 1) \<le> unat (records m)"
proof -
  obtain la where la: "pp_list m = Some (la, bs)" "distinct (blocks_of la bs)"
    "live (udata m) la = Some (rnd (list_size (capacity m)))" using rel by (rule map_relE)
  have ok: "ok (udata m)" "buckets_ok bs (capacity m)" "list_all (rec_live (udata m)) (concat bs)"
    using rel by (auto simp: map_rel_def)
  have k: "mr_key r = d" using get mget_Some_iff ok(2) by (auto simp: buckets_ok_def)
  let ?bs = "bs[bucket d (capacity m) := remove1 r (bs ! bucket d (capacity m))]"
  note rm = remove_record [OF ok(2) get refl]
  note bl = blocks_of_add(1,2) [OF rm(2), of la] blocks_of_add(3,4) [OF rm(2)]
  have dist: "distinct (mr_addr r # blocks_of la ?bs)" using bl(1) la(2) by simp
  have "rec_live (udata m) r" using ok(3) bl(4) by (simp add: list_all_iff)
  then obtain u where u: "free (mr_addr r) (sizeof_map_rec_hdr + sz_rec r) (udata m) = Some u" "ok u"
    "live u = (live (udata m))(mr_addr r := None)" using free_live [OF ok(1)] unfolding rec_live_def by blast
  let ?m = "m\<lparr>pp_list := Some (la, ?bs), udata := u, records := records m - 1\<rparr>"
  have m: "unlinked m r u = ?m" by (simp add: unlinked_def la(1) k Let_def)
  have "list_all (rec_live u) (concat ?bs)"
    using ok(3) dist bl(4) by (intro rec_live_upd [OF u(3)]) (auto simp: list_all_iff blocks_of_def)
  moreover have "live u la = live (udata m) la" using dist u(3) by (auto simp: blocks_of_def)
  ultimately have "map_rel ?m ?bs" using rel la u(2) rm(1) dist bl(3) by (simp add: map_rel_def)
  moreover have "others ?m = others m" using u(3) bl(2) by (auto simp: others_def la(1) restrict_map_def)
  moreover have "records m \<noteq> 0" using rel bl(3) of_nat_word_neq_0 [of "length (concat bs)", where 'a = 32]
    by (simp add: map_rel_def)
  ultimately show ?thesis using u(1) rm(3) by (auto simp: m unat_sub_one)
qed

lemma unlinked_cfg [simp]:
  "capacity (unlinked m r u) = capacity m" "pf_hash (unlinked m r u) = pf_hash m"
  "pp_list m = Some x \<Longrightarrow> records (unlinked m r u) = records m - 1"
  by (auto simp: unlinked_def Let_def split: option.splits prod.splits)

lemma map_del_spec:
  assumes rel: "map_rel m bs" and key: "key \<noteq> []"
  shows "\<exists>m' bs'. map_del m key = Some ((), m') \<and> map_rel m' bs' \<and>
    mget bs' = (mget bs)(key_digest m key := None) \<and> others m' = others m \<and>
    capacity m' = capacity m \<and> pf_hash m' = pf_hash m \<and> unat (records m') \<le> unat (records m)"
proof (cases "mget bs (key_digest m key)")
  case None
  then show ?thesis using rel get_record_spec [OF rel key] by (auto simp: map_del_def intro!: exI [of _ bs])
next
  case (Some r)
  then have k: "mr_key r = key_digest m key" using rel mget_Some_iff by (auto simp: map_rel_def buckets_ok_def)
  obtain la where la: "pp_list m = Some (la, bs)" using rel by (rule map_relE)
  obtain u bs' where u: "free (mr_addr r) (sizeof_map_rec_hdr + sz_rec r) (udata m) = Some u"
    "map_rel (unlinked m r u) bs'" "mget bs' = (mget bs)(key_digest m key := None)"
    "others (unlinked m r u) = others m" "unat (records m - 1) \<le> unat (records m)" using unlinked_spec [OF rel Some] by blast
  have "map_del m key = Some ((), unlinked m r u)"
    using get_record_spec [OF rel key] Some la rel u(1) by (simp add: map_del_def unlinked_def map_rel_def k Let_def)
  then show ?thesis using u la by (intro exI [of _ "unlinked m r u"] exI [of _ bs']) simp
qed

text \<open>A callback that deletes every record it sees sees only the first one, when that is alone in
  its bucket: the enumerator then has no current record and the enumeration ends.\<close>

lemma map_enum_delete_ends:
  assumes rel: "map_rel m bs" and first: "seek_bucket 0 bs = (i, [r])"
  shows "\<exists>m' bs'. map_enum (Suc n) m (\<lambda>x sz s. (MAP_ENUM_DELETE, f x sz s)) s = Some (f (mr_data r) (sz_rec r - 1) s, m') \<and>
    map_rel m' bs' \<and> mget bs' = (mget bs)(mr_key r := None) \<and> pf_hash m' = pf_hash m"
proof -
  obtain la where la: "pp_list m = Some (la, bs)" using rel by (rule map_relE)
  have i: "i < length bs" "bs ! i = [r]" using seek_bucket_spec [OF first] by auto
  then have r: "r \<in> set (concat bs)" unfolding set_concat by (metis UN_I list.set_intros(1) nth_mem)
  have bk: "buckets_ok bs (capacity m)" and len: "records m = of_nat (length (concat bs))" "length (concat bs) < 2 ^ 32"
    and fr: "pf_mem_free m = Some free" using rel by (auto simp: map_rel_def)
  then have g: "mget bs (mr_key r) = Some r" and ib: "bucket (mr_key r) (capacity m) = i"
    using mget_Some_iff r i by (auto simp: buckets_ok_def)
  have "0 < length (concat bs)" using r by (rule length_pos_if_in_set)
  then have nz: "records m \<noteq> 0" using len of_nat_word_neq_0 [of "length (concat bs)", where 'a = 32] by simp
  obtain u bs' where u: "free (mr_addr r) (sizeof_map_rec_hdr + sz_rec r) (udata m) = Some u"
    "map_rel (unlinked m r u) bs'" "mget bs' = (mget bs)(mr_key r := None)" using unlinked_spec [OF rel g] by blast
  obtain la' bs2 where p: "pp_list (unlinked m r u) = Some (la', bs2)" using u(2) by (auto elim: map_relE)
  have "map_enum (Suc n) m (\<lambda>x sz s. (MAP_ENUM_DELETE, f x sz s)) s = Some (f (mr_data r) (sz_rec r - 1) s, unlinked m r u)"
    using first nz la u(1) i fr p
    by (simp add: map_enum_def map_enum_first_def map_enum_del_def add.commute map_enum_next_def unlinked_def ib Let_def)
  then show ?thesis using u unlinked_cfg(2) by blast
qed

text \<open>Growing the table.\<close>

definition can_grow :: "u32 \<Rightarrow> bool" where
  "can_grow cap \<longleftrightarrow> unat cap < 2 ^ 28 \<and> fits (list_size (cap * 2 + 1))"

lemma list_size_ok_grow: "can_grow cap \<Longrightarrow> list_size_ok (cap * 2 + 1) \<and> cap * 2 + 1 \<noteq> 0"
proof -
  assume "can_grow cap"
  then have c: "unat cap < 2 ^ 28" by (simp add: can_grow_def)
  then have "unat (cap * 2 + 1) = unat cap * 2 + 1" by (simp add: unat_word_ariths)
  then show ?thesis using c by (auto simp: list_size_ok_def word_unat_eq_iff)
qed

lemma map_rel_udata:
  assumes "map_rel m bs" "live u = live (udata m)" "ok u"
  shows "map_rel (m\<lparr>udata := u\<rparr>) bs" "others (m\<lparr>udata := u\<rparr>) = others m"
  using assms by (auto simp: map_rel_def others_def list_all_iff rec_live_def split: option.splits)

lemma mget_mset:
  assumes "mset (concat bs') = mset (concat bs)" "buckets_ok bs cap" "buckets_ok bs' cap'"
  shows "mget bs' = mget bs"
proof
  fix d
  have d: "distinct (map mr_key (concat bs))" "distinct (map mr_key (concat bs'))"
    using assms(2,3) by (auto simp: buckets_ok_def)
  show "mget bs' d = mget bs d"
    using mget_Some_iff [OF d(1), of d] mset_eq_setD [OF assms(1)] by (intro mget_eqI [OF d]) simp
qed

lemma remap_spec:
  assumes rel: "map_rel m bs" and grow: "can_grow (capacity m)"
  shows "\<exists>b m' bs'. remap m = Some (b, m') \<and> map_rel m' bs' \<and> mget bs' = mget bs \<and> others m' = others m \<and>
    pf_hash m' = pf_hash m \<and> records m' = records m \<and>
    capacity m' = (if b then capacity m * 2 + 1 else capacity m)"
proof -
  let ?cap = "capacity m * 2 + 1"
  obtain la where la: "pp_list m = Some (la, bs)" "distinct (blocks_of la bs)"
    "live (udata m) la = Some (rnd (list_size (capacity m)))" using rel by (rule map_relE)
  have ok: "ok (udata m)" "buckets_ok bs (capacity m)" "list_all (rec_live (udata m)) (concat bs)"
    "pf_mem_free m = Some free" "pf_mem_alloc m = Some alloc" "capacity m \<noteq> 0"
    using rel by (auto simp: map_rel_def buckets_ok_def)
  obtain p u where al: "alloc (list_size ?cap) (udata m) = Some (p, u)"
    using alloc_returns [OF ok(1)] grow unfolding can_grow_def by blast
  show ?thesis
  proof (cases p)
    case None
    then have "remap m = Some (False, m\<lparr>udata := u\<rparr>)" using ok al by (simp add: remap_def)
    moreover have "live u = live (udata m)" "ok u" using alloc_None [OF ok(1)] al None by auto
    ultimately show ?thesis using map_rel_udata [OF rel] by (intro exI [of _ False]) auto
  next
    case (Some a)
    have u: "live (udata m) a = None" "live u = (live (udata m))(a \<mapsto> rnd (list_size ?cap))" "ok u"
      using alloc_Some [OF ok(1)] al Some by auto
    have "live u la = Some (rnd (list_size (capacity m)))" using u(1,2) la(3) by auto
    then obtain u2 where u2: "free la (list_size (capacity m)) u = Some u2" "ok u2" "live u2 = (live u)(la := None)"
      using free_live [OF u(3)] by blast
    obtain bs' coll where add: "add_records (concat bs) (replicate (unat ?cap) []) ?cap 0 = (bs', coll)"
      by (cases "add_records (concat bs) (replicate (unat ?cap) []) ?cap 0")
    have "buckets_ok (replicate (unat ?cap) []) ?cap" using buckets_ok_empty [of ?cap] list_size_ok_grow [OF grow] by auto
    then have bs': "buckets_ok bs' ?cap" "mset (concat bs') = mset (concat bs)"
      using add_records_all [OF _ _ add] ok(2) by (auto simp: buckets_ok_def)
    let ?m = "m\<lparr>udata := u2, pp_list := Some (a, bs'), capacity := ?cap, collisions := coll\<rparr>"
    have sets: "set (concat bs') = set (concat bs)" using mset_eq_setD [OF bs'(2)] .
    have new: "a \<notin> mr_addr ` set (concat bs)" using ok(3) u(1) by (auto simp: list_all_iff rec_live_def)
    have old: "la \<notin> mr_addr ` set (concat bs)" "distinct (map mr_addr (concat bs))" "a \<noteq> la"
      using la(2,3) u(1) by (auto simp: blocks_of_def)
    have "list_all (rec_live u2) (concat bs')"
      using rec_live_upd [OF u2(3) _ rec_live_upd [OF u(2) _ ok(3)]] new old(1)
      by (simp add: list_all_iff sets)
    moreover have "distinct (blocks_of a bs')"
      using new old(2) distinct_map_mset [OF bs'(2), of mr_addr] by (simp add: blocks_of_def sets)
    ultimately have "map_rel ?m bs'"
      using rel bs' u2(2,3) u(2) old(3) mset_eq_length [OF bs'(2)] by (simp add: map_rel_def)
    moreover have "others ?m = others m"
      using u(1,2) u2(3) by (auto simp: others_def la(1) blocks_of_def sets restrict_map_def)
    moreover have "remap m = Some (True, ?m)"
      using ok al Some la(1) add u2(1) list_size_ok_grow [OF grow] by (simp add: remap_def)
    moreover have "mget bs' = mget bs" by (rule mget_mset [OF bs'(2) ok(2) bs'(1)])
    ultimately show ?thesis by (intro exI [of _ True] exI [of _ ?m] exI [of _ bs']) simp
  qed
qed

text \<open>Linking a new record, with the growth of the table.\<close>

definition has_room :: "('a, 'u) map_context \<Rightarrow> bool" where
  "has_room m \<longleftrightarrow> unat (records m) + 1 < 2 ^ 32 \<and> can_grow (capacity m)"

lemma link_record_spec:
  assumes rel: "map_rel m bs" and room: "has_room m" and new: "mget bs (mr_key r) = None"
    and live: "rec_live (udata m) r" and fresh: "others m (mr_addr r) \<noteq> None"
  shows "\<exists>m' bs'. link_record m r sz = Some (Some (mr_addr r), m') \<and> map_rel m' bs' \<and>
    mget bs' = (mget bs)(mr_key r \<mapsto> r) \<and> others m' = (others m)(mr_addr r := None) \<and> pf_hash m' = pf_hash m"
proof -
  obtain la where la: "pp_list m = Some (la, bs)" "distinct (blocks_of la bs)"
    "live (udata m) la = Some (rnd (list_size (capacity m)))" using rel by (rule map_relE)
  have ok: "buckets_ok bs (capacity m)" "list_all (rec_live (udata m)) (concat bs)"
    "records m = of_nat (length (concat bs))" "length (concat bs) < 2 ^ 32" using rel by (auto simp: map_rel_def)
  obtain b bs1 coll where add: "add_record r bs (capacity m) (collisions m) = (b, bs1, coll)"
    by (cases "add_record r bs (capacity m) (collisions m)")
  note n = add_record_new [OF ok(1) new add]
  note bl = blocks_of_add(1,2) [OF n(3), of la] blocks_of_add(3,4) [OF n(3)]
  let ?m = "m\<lparr>pp_list := Some (la, bs1), collisions := coll, records := records m + 1\<rparr>"
  have "mr_addr r \<notin> set (blocks_of la bs)" using fresh by (auto simp: others_blocks [OF la(1)] restrict_map_def)
  then have "distinct (blocks_of la bs1)" using bl(1) la(2) by simp
  moreover have "list_all (rec_live (udata m)) (concat bs1)" using ok(2) live bl(4) by (simp add: list_all_iff)
  moreover have "length (concat bs1) < 2 ^ 32"
    using room bl(3) ok(3,4) by (simp add: has_room_def unat_of_nat_small)
  ultimately have rel1: "map_rel ?m bs1" using rel la n(2) bl(3) by (simp add: map_rel_def ok(3))
  have oth1: "others ?m = (others m)(mr_addr r := None)"
    using bl(2) by (auto simp: others_def la(1) restrict_map_def)
  show ?thesis
  proof (cases "records m + 1 \<ge> capacity m")
    case True
    obtain c m' bs' where re: "remap ?m = Some (c, m')" "map_rel m' bs'" "mget bs' = mget bs1" "others m' = others ?m"
      "pf_hash m' = pf_hash ?m" using remap_spec [OF rel1] room by (auto simp: has_room_def)
    then show ?thesis using n(1,4) add True la(1) oth1 by (intro exI [of _ m'] exI [of _ bs']) (simp add: link_record_def)
  next
    case False
    then show ?thesis using n(1,4) add la(1) oth1 rel1
      by (intro exI [of _ ?m] exI [of _ bs1]) (simp add: link_record_def)
  qed
qed

definition rec_fits :: "u32 \<Rightarrow> bool" where
  "rec_fits sz \<longleftrightarrow> rec_size_ok sz \<and> fits (sizeof_map_rec_hdr + (sz + 1))"

lemma insert_record_spec:
  assumes rel: "map_rel m bs" and room: "has_room m" and new: "mget bs k = None" and fits: "rec_fits sz"
  shows "\<exists>p m' bs'. insert_record m k d sz = Some (p, m') \<and> map_rel m' bs' \<and> others m' = others m \<and>
    pf_hash m' = pf_hash m \<and> mget bs' = stored p k d sz (mget bs) \<and>
    (\<exists>u. alloc (sizeof_map_rec_hdr + (sz + 1)) (udata m) = Some (p, u))"
proof -
  have ok: "ok (udata m)" "pf_mem_free m = Some free" "pf_mem_alloc m = Some alloc"
    using rel by (auto simp: map_rel_def)
  obtain p u where al: "alloc (sizeof_map_rec_hdr + (sz + 1)) (udata m) = Some (p, u)"
    using alloc_returns [OF ok(1)] fits unfolding rec_fits_def by blast
  show ?thesis
  proof (cases p)
    case None
    then have "live u = live (udata m)" "ok u" using alloc_None [OF ok(1)] al by auto
    then show ?thesis using map_rel_udata [OF rel, of u] None ok al
      by (intro exI [of _ None] exI [of _ "m\<lparr>udata := u\<rparr>"] exI [of _ bs])
        (simp add: insert_record_def alloc_record_def Let_def stored_def)
  next
    case (Some a)
    let ?r = "\<lparr>mr_addr = a, sz_rec = sz + 1, mr_key = k, mr_data = d\<rparr>" and ?m = "m\<lparr>udata := u\<rparr>"
    have u: "live (udata m) a = None" "live u = (live (udata m))(a \<mapsto> rnd (sizeof_map_rec_hdr + (sz + 1)))" "ok u"
      using alloc_Some [OF ok(1)] al Some by auto
    obtain la where la: "pp_list m = Some (la, bs)" "distinct (blocks_of la bs)"
      "live (udata m) la = Some (rnd (list_size (capacity m)))" using rel by (rule map_relE)
    have lv: "list_all (rec_live (udata m)) (concat bs)" using rel by (simp add: map_rel_def)
    have "a \<notin> mr_addr ` set (concat bs)" using lv u(1) by (auto simp: list_all_iff rec_live_def)
    then have na: "a \<notin> set (blocks_of la bs)" using u(1) la(3) by (auto simp: blocks_of_def)
    have "list_all (rec_live u) (concat bs)" using rec_live_upd [OF u(2) _ lv] na by (simp add: blocks_of_def)
    then have "map_rel ?m bs" using rel la u(2,3) na by (simp add: map_rel_def blocks_of_def)
    moreover have "has_room ?m" using room by (simp add: has_room_def)
    moreover have "rec_live u ?r" using u(2) by (simp add: rec_live_def)
    moreover have oth: "others ?m = (others m)(a \<mapsto> rnd (sizeof_map_rec_hdr + (sz + 1)))"
      using na u(2) by (auto simp: others_def la(1) restrict_map_def)
    ultimately obtain m' bs' where l: "link_record ?m ?r sz = Some (Some a, m')" "map_rel m' bs'"
      "mget bs' = (mget bs)(k \<mapsto> ?r)" "others m' = (others ?m)(a := None)" "pf_hash m' = pf_hash ?m"
      using link_record_spec [of ?m bs ?r sz] new by auto
    have "others m a = None" using u(1) by (simp add: others_def la(1) restrict_map_def)
    then have "(others ?m)(a := None) = others m" by (auto simp: oth)
    then show ?thesis using l ok al Some fits
      by (intro exI [of _ "Some a"] exI [of _ m'] exI [of _ bs'])
        (simp add: insert_record_def alloc_record_def Let_def stored_def rec_fits_def)
  qed
qed

lemma map_add_spec:
  assumes rel: "map_rel m bs" and room: "has_room m" and key: "key \<noteq> []" and fits: "rec_fits sz"
  shows "\<exists>p m' bs'. map_add m key d sz = Some (p, m') \<and> map_rel m' bs' \<and> others m' = others m \<and> pf_hash m' = pf_hash m \<and>
    (case mget bs (key_digest m key) of
       Some r \<Rightarrow> p = Some (mr_addr r) \<and> mget bs' = mget bs
     | None \<Rightarrow> mget bs' = stored p (key_digest m key) d sz (mget bs) \<and>
         (\<exists>u. alloc (sizeof_map_rec_hdr + (sz + 1)) (udata m) = Some (p, u)))"
proof (cases "mget bs (key_digest m key)")
  case None
  then show ?thesis using insert_record_spec [OF rel room None fits, of d] get_record_spec [OF rel key]
    unfolding map_add_def insert_record_def by (simp only: prod.case option.case)
next
  case (Some r)
  then show ?thesis using get_record_spec [OF rel key] rel by (auto simp: map_add_def)
qed

lemma map_set_spec:
  assumes rel: "map_rel m bs" and room: "has_room m" and key: "key \<noteq> []" and fits: "rec_fits sz"
  shows "\<exists>p m' bs'. map_set m key d sz = Some (p, m') \<and> map_rel m' bs' \<and> others m' = others m \<and> pf_hash m' = pf_hash m \<and>
    mget bs' = stored p (key_digest m key) d sz ((mget bs)(key_digest m key := None))"
proof -
  let ?k = "key_digest m key"
  obtain m1 bs1 where del: "map_del m key = Some ((), m1)" "map_rel m1 bs1" "mget bs1 = (mget bs)(?k := None)"
    "others m1 = others m" "capacity m1 = capacity m" "pf_hash m1 = pf_hash m" "unat (records m1) \<le> unat (records m)"
    using map_del_spec [OF rel key] by blast
  have "has_room m1" using room del(5,7) by (simp add: has_room_def)
  moreover have "mget bs1 ?k = None" using del(3) by simp
  moreover have "key_digest m1 key = ?k" using del(6) by (simp add: key_digest_def)
  ultimately obtain p m' bs' where "insert_record m1 (key_digest m1 key) d sz = Some (p, m')" "map_rel m' bs'"
    "others m' = others m" "pf_hash m' = pf_hash m" "mget bs' = stored p ?k d sz ((mget bs)(?k := None))"
    using insert_record_spec [OF del(2) _ _ fits, of ?k d] del(3,4,6) by auto
  moreover have "map_set m key d sz = insert_record m1 (key_digest m1 key) d sz"
    using del(1) by (simp add: map_set_def insert_record_def)
  ultimately show ?thesis by auto
qed

text \<open>Giving everything back.\<close>

lemma free_records_spec:
  assumes "ok u" "list_all (rec_live u) rs" "distinct (map mr_addr rs)"
  shows "\<exists>u'. free_records free rs u = Some u' \<and> ok u' \<and> live u' = live u |` (- mr_addr ` set rs)"
  using assms
proof (induction rs arbitrary: u)
  case (Cons r rs)
  then have "live u (mr_addr r) = Some (rnd (sizeof_map_rec_hdr + sz_rec r))" by (simp add: rec_live_def)
  then obtain u1 where u1: "free (mr_addr r) (sizeof_map_rec_hdr + sz_rec r) u = Some u1" "ok u1"
    "live u1 = (live u)(mr_addr r := None)" using free_live [OF Cons.prems(1)] by blast
  have "list_all (rec_live u1) rs" using Cons.prems by (intro rec_live_upd [OF u1(3)]) auto
  then obtain u2 where "free_records free rs u1 = Some u2" "ok u2" "live u2 = live u1 |` (- mr_addr ` set rs)"
    using Cons.IH [OF u1(2)] Cons.prems(3) by auto
  moreover from this(3) have "live u2 = live u |` (- mr_addr ` set (r # rs))"
    unfolding u1(3) by (auto simp: restrict_map_def)
  ultimately show ?case using u1(1) by simp
qed (simp add: restrict_map_def)

lemma map_clr_spec:
  assumes rel: "map_rel m bs"
  shows "\<exists>m' bs'. map_clr m = Some ((), m') \<and> map_rel m' bs' \<and> mget bs' = Map.empty \<and> records m' = 0 \<and>
    others m' = others m \<and> capacity m' = capacity m \<and> pf_hash m' = pf_hash m"
proof (cases "records m = 0")
  case True
  then have "concat bs = []" using rel of_nat_word_eq_0_iff [of "length (concat bs)", where 'a = 32]
    by (simp add: map_rel_def)
  then have "mget bs = Map.empty" by (simp add: mget_def fun_eq_iff)
  moreover have "map_clr m = Some ((), m)" using True by (auto simp: map_clr_def split: option.splits)
  ultimately show ?thesis using rel True by blast
next
  case False
  obtain la where la: "pp_list m = Some (la, bs)" "distinct (blocks_of la bs)"
    "live (udata m) la = Some (rnd (list_size (capacity m)))" using rel by (rule map_relE)
  have ok: "ok (udata m)" "list_all (rec_live (udata m)) (concat bs)" "distinct (map mr_addr (concat bs))"
    using rel la(2) by (auto simp: map_rel_def blocks_of_def)
  obtain u where u: "free_records free (concat bs) (udata m) = Some u" "ok u"
    "live u = live (udata m) |` (- mr_addr ` set (concat bs))" using free_records_spec [OF ok] by blast
  let ?bs = "replicate (length bs) []"
  let ?m = "m\<lparr>udata := u, pp_list := Some (la, ?bs), records := 0, collisions := 0\<rparr>"
  have "buckets_ok ?bs (capacity m)" "mget ?bs = Map.empty"
    using rel buckets_ok_empty [of "capacity m"] by (auto simp: map_rel_def buckets_ok_def)
  moreover have "live u la = live (udata m) la" using u(3) la(2) by (auto simp: blocks_of_def restrict_map_def)
  moreover have "others ?m = others m" using u(3) by (auto simp: others_def la(1) blocks_of_def restrict_map_def)
  ultimately show ?thesis using rel la u False
    by (intro exI [of _ ?m] exI [of _ ?bs]) (simp add: map_clr_def map_rel_def blocks_of_def)
qed

lemma map_destroy_spec:
  assumes rel: "map_rel m bs"
  shows "\<exists>m'. map_destroy m = Some ((), m') \<and> pp_list m' = None \<and> ok (udata m') \<and> live (udata m') = others m"
proof -
  obtain m1 bs1 where c: "map_clr m = Some ((), m1)" "map_rel m1 bs1" "mget bs1 = Map.empty" "records m1 = 0"
    "others m1 = others m" "capacity m1 = capacity m" using map_clr_spec [OF rel] by blast
  obtain la where la: "pp_list m1 = Some (la, bs1)" "distinct (blocks_of la bs1)"
    "live (udata m1) la = Some (rnd (list_size (capacity m1)))" using c(2) by (rule map_relE)
  have ok: "ok (udata m1)" "pf_mem_free m1 = Some free" using c(2) by (auto simp: map_rel_def)
  have "concat bs1 = []" using c(2,4) of_nat_word_eq_0_iff [of "length (concat bs1)", where 'a = 32]
    by (simp add: map_rel_def)
  then have bl: "blocks_of la bs1 = [la]" by (simp add: blocks_of_def)
  obtain u where u: "free la (list_size (capacity m1)) (udata m1) = Some u" "ok u"
    "live u = (live (udata m1))(la := None)" using free_live [OF ok(1) la(3)] by blast
  have "live u = others m" by (rule ext) (simp add: u(3) c(5) [symmetric] others_blocks [OF la(1)] bl restrict_map_def)
  moreover obtain la0 where "pp_list m = Some (la0, bs)" using rel by (rule map_relE)
  ultimately show ?thesis using c la u ok by (auto simp: map_destroy_def)
qed

lemma map_init_spec:
  assumes "pf_mem_alloc m = Some alloc" "pf_mem_free m = Some free" "pp_list m = None" "ok (udata m)"
    "capacity m \<noteq> 0" "list_size_ok (capacity m)" "fits (list_size (capacity m))"
  shows "\<exists>b m'. map_init m = Some (b, m') \<and> others m' = others m \<and> pf_hash m' = pf_hash m \<and>
    capacity m' = capacity m \<and>
    (if b then records m' = 0 \<and> (\<exists>bs. map_rel m' bs \<and> mget bs = Map.empty) else pp_list m' = None \<and> ok (udata m'))"
proof -
  obtain p u where al: "alloc (list_size (capacity m)) (udata m) = Some (p, u)"
    using alloc_returns assms(4,7) by blast
  show ?thesis
  proof (cases p)
    case None
    then show ?thesis using alloc_None [OF assms(4)] al assms by (auto simp: map_init_def others_def)
  next
    case (Some a)
    let ?bs = "replicate (unat (capacity m)) []"
    let ?m = "m\<lparr>udata := u, records := 0, collisions := 0, pp_list := Some (a, ?bs)\<rparr>"
    have u: "live (udata m) a = None" "live u = (live (udata m))(a \<mapsto> rnd (list_size (capacity m)))" "ok u"
      using alloc_Some [OF assms(4)] al Some by auto
    have e: "buckets_ok ?bs (capacity m)" "mget ?bs = Map.empty" using buckets_ok_empty [OF assms(5)] by auto
    then have "map_rel ?m ?bs" using assms u by (simp add: map_rel_def blocks_of_def)
    moreover have "others ?m = others m" using u by (auto simp: others_def assms(3) blocks_of_def restrict_map_def)
    ultimately show ?thesis using al Some assms e
      by (intro exI [of _ True] exI [of _ ?m]) (auto simp: map_init_def)
  qed
qed

end

end
