(* ===== verification/Sha1.thy ===== *)
theory Sha1
  imports Prelude
begin

text \<open>
  The digest of core/mem/sha1.c: a context that collects the message byte by byte in blocks of 64,
  and the padding and final block of \<open>SHA1Result\<close>. It is SHA-1 in everything but the initial
  chaining value, for which the file has constants of its own. The second half states the
  algorithm as the standard does, on the padded message as a whole, and shows that the context
  computes it however the message is cut into calls of \<open>SHA1Input\<close>.
\<close>

section \<open>The context\<close>

record SHA1Context =
  Intermediate_Hash :: "u32 list"
  Length_Low :: u32
  Length_High :: u32
  Message_Block_Index :: nat
  Message_Block :: "u8 list"
  Computed :: nat
  Corrupted :: nat

definition shaSuccess :: nat where "shaSuccess = 0"
definition shaNull :: nat where "shaNull = 1"
definition shaStateError :: nat where "shaStateError = 3"
definition SHA1HashSize :: nat where "SHA1HashSize = 20"

definition CUSTOM_BGN_DIG :: "u32 list" where
  "CUSTOM_BGN_DIG = [0x1ACA889B, 0x0FA3E271, 0x9FFADBF4, 0x61A3F3A1, 0x88AA7C55]"

definition SHA1CircularShift :: "nat \<Rightarrow> u32 \<Rightarrow> u32" where
  "SHA1CircularShift bits word = (push_bit bits word) OR (drop_bit (32 - bits) word)"

text \<open>A pointer to a context is \<open>None\<close> when it is NULL.\<close>

definition SHA1Reset :: "SHA1Context option \<Rightarrow> nat \<times> SHA1Context option" where
  "SHA1Reset context =
     (case context of
        None \<Rightarrow> (shaNull, None)
      | Some c \<Rightarrow> (shaSuccess, Some (c\<lparr>Length_Low := 0, Length_High := 0, Message_Block_Index := 0,
          Intermediate_Hash := CUSTOM_BGN_DIG, Computed := 0, Corrupted := 0\<rparr>)))"

section \<open>One block\<close>

type_synonym word_buffers = "u32 \<times> u32 \<times> u32 \<times> u32 \<times> u32"

definition sha1_K :: "u32 list" where
  "sha1_K = [0x5A827999, 0x6ED9EBA1, 0x8F1BBCDC, 0xCA62C1D6]"

definition W_first :: "u8 list \<Rightarrow> u32 list" where
  "W_first mb = map (\<lambda>t. ((push_bit 24 (ucast (mb ! (t * 4))) OR push_bit 16 (ucast (mb ! (t * 4 + 1))))
       OR push_bit 8 (ucast (mb ! (t * 4 + 2)))) OR ucast (mb ! (t * 4 + 3))) [0..<16]"

fun W_rest :: "nat \<Rightarrow> u32 list \<Rightarrow> u32 list" where
  "W_rest 0 W = W"
| "W_rest (Suc n) W =
     (let t = length W in W_rest n (W @ [SHA1CircularShift 1 (((W ! (t - 3) XOR W ! (t - 8)) XOR W ! (t - 14)) XOR W ! (t - 16))]))"

definition sha1_W :: "u8 list \<Rightarrow> u32 list" where
  "sha1_W mb = W_rest 64 (W_first mb)"

definition sha1_round :: "(u32 \<Rightarrow> u32 \<Rightarrow> u32 \<Rightarrow> u32) \<Rightarrow> u32 \<Rightarrow> word_buffers \<Rightarrow> u32 \<Rightarrow> word_buffers" where
  "sha1_round f k bufs w =
     (case bufs of (A, B, C, D, E) \<Rightarrow>
        (SHA1CircularShift 5 A + f B C D + E + w + k, A, SHA1CircularShift 30 B, C, D))"

definition f_choose :: "u32 \<Rightarrow> u32 \<Rightarrow> u32 \<Rightarrow> u32" where "f_choose B C D = (B AND C) OR (NOT B AND D)"
definition f_parity :: "u32 \<Rightarrow> u32 \<Rightarrow> u32 \<Rightarrow> u32" where "f_parity B C D = (B XOR C) XOR D"
definition f_major :: "u32 \<Rightarrow> u32 \<Rightarrow> u32 \<Rightarrow> u32" where "f_major B C D = ((B AND C) OR (B AND D)) OR (C AND D)"

text \<open>The four loops of twenty rounds.\<close>

definition sha1_loops :: "u32 list \<Rightarrow> word_buffers \<Rightarrow> word_buffers" where
  "sha1_loops W s =
     (let s = foldl (sha1_round f_choose (sha1_K ! 0)) s (take 20 W);
          s = foldl (sha1_round f_parity (sha1_K ! 1)) s (take 20 (drop 20 W));
          s = foldl (sha1_round f_major (sha1_K ! 2)) s (take 20 (drop 40 W))
      in foldl (sha1_round f_parity (sha1_K ! 3)) s (take 20 (drop 60 W)))"

definition SHA1ProcessMessageBlock :: "SHA1Context \<Rightarrow> SHA1Context" where
  "SHA1ProcessMessageBlock c =
     (let H = Intermediate_Hash c;
          (A, B, C, D, E) = sha1_loops (sha1_W (Message_Block c)) (H ! 0, H ! 1, H ! 2, H ! 3, H ! 4)
      in c\<lparr>Intermediate_Hash := [H ! 0 + A, H ! 1 + B, H ! 2 + C, H ! 3 + D, H ! 4 + E],
           Message_Block_Index := 0\<rparr>)"

section \<open>Input\<close>

definition put_byte :: "SHA1Context \<Rightarrow> u8 \<Rightarrow> SHA1Context" where
  "put_byte c b = c\<lparr>Message_Block := (Message_Block c)[Message_Block_Index c := b],
     Message_Block_Index := Message_Block_Index c + 1\<rparr>"

definition count_byte :: "SHA1Context \<Rightarrow> SHA1Context" where
  "count_byte c =
     (let c = c\<lparr>Length_Low := Length_Low c + 8\<rparr>
      in if Length_Low c = 0 then
           (let c = c\<lparr>Length_High := Length_High c + 1\<rparr>
            in if Length_High c = 0 then c\<lparr>Corrupted := 1\<rparr> else c)
         else c)"

definition input_byte :: "SHA1Context \<Rightarrow> u8 \<Rightarrow> SHA1Context" where
  "input_byte c b =
     (let c = count_byte (put_byte c b)
      in if Message_Block_Index c = 64 then SHA1ProcessMessageBlock c else c)"

fun input_loop :: "u8 list \<Rightarrow> SHA1Context \<Rightarrow> SHA1Context" where
  "input_loop [] c = c"
| "input_loop (b # bs) c = (if Corrupted c \<noteq> 0 then c else input_loop bs (input_byte c b))"

text \<open>\<open>message_array\<close> is \<open>None\<close> for NULL with a length other than 0.\<close>

definition SHA1Input :: "SHA1Context option \<Rightarrow> u8 list option \<Rightarrow> nat \<times> SHA1Context option" where
  "SHA1Input context message_array =
     (if message_array = Some [] then (shaSuccess, context)
      else (case (context, message_array) of
        (Some c, Some msg) \<Rightarrow>
          if Computed c \<noteq> 0 then (shaStateError, Some (c\<lparr>Corrupted := shaStateError\<rparr>))
          else if Corrupted c \<noteq> 0 then (Corrupted c, Some c)
          else (shaSuccess, Some (input_loop msg c))
      | _ \<Rightarrow> (shaNull, context)))"

section \<open>Result\<close>

function pad_to :: "nat \<Rightarrow> SHA1Context \<Rightarrow> SHA1Context" where
  "pad_to n c = (if Message_Block_Index c < n then pad_to n (put_byte c 0) else c)"
  by auto
termination by (relation "measure (\<lambda>(n, c). n - Message_Block_Index c)") (auto simp: put_byte_def)

declare pad_to.simps [simp del]

definition put_length :: "SHA1Context \<Rightarrow> SHA1Context" where
  "put_length c = c\<lparr>Message_Block := (Message_Block c)
     [56 := ucast (drop_bit 24 (Length_High c)), 57 := ucast (drop_bit 16 (Length_High c)),
      58 := ucast (drop_bit 8 (Length_High c)), 59 := ucast (Length_High c),
      60 := ucast (drop_bit 24 (Length_Low c)), 61 := ucast (drop_bit 16 (Length_Low c)),
      62 := ucast (drop_bit 8 (Length_Low c)), 63 := ucast (Length_Low c)]\<rparr>"

definition SHA1PadMessage :: "SHA1Context \<Rightarrow> SHA1Context" where
  "SHA1PadMessage c =
     (let c = (if Message_Block_Index c > 55
               then pad_to 56 (SHA1ProcessMessageBlock (pad_to 64 (put_byte c 0x80)))
               else pad_to 56 (put_byte c 0x80))
      in SHA1ProcessMessageBlock (put_length c))"

definition digest_of :: "u32 list \<Rightarrow> u8 list" where
  "digest_of H = map (\<lambda>i. ucast (drop_bit (8 * (3 - i mod 4)) (H ! (i div 4)))) [0..<SHA1HashSize]"

text \<open>The returned code, the digest when one is written, and the context.\<close>

definition SHA1Result :: "SHA1Context option \<Rightarrow> nat \<times> u8 list option \<times> SHA1Context option" where
  "SHA1Result context =
     (case context of
        None \<Rightarrow> (shaNull, None, None)
      | Some c \<Rightarrow>
          if Corrupted c \<noteq> 0 then (Corrupted c, None, Some c)
          else (let c = (if Computed c = 0
                         then (SHA1PadMessage c)\<lparr>Message_Block := replicate 64 0, Length_Low := 0,
                                Length_High := 0, Computed := 1\<rparr>
                         else c)
                in (shaSuccess, Some (digest_of (Intermediate_Hash c)), Some c)))"

text \<open>The three calls in a row, as the users of the digest make them.\<close>

definition sha1 :: "SHA1Context \<Rightarrow> u8 list \<Rightarrow> u8 list option \<times> SHA1Context option" where
  "sha1 c msg =
     (let (_, c) = SHA1Reset (Some c); (_, c) = SHA1Input c (Some msg); (_, d, c) = SHA1Result c
      in (d, c))"

section \<open>The algorithm on the whole message\<close>

definition step_f :: "nat \<Rightarrow> u32 \<Rightarrow> u32 \<Rightarrow> u32 \<Rightarrow> u32" where
  "step_f t = (if t < 20 then f_choose else if t < 40 then f_parity else if t < 60 then f_major else f_parity)"

fun steps_from :: "nat \<Rightarrow> u32 list \<Rightarrow> word_buffers \<Rightarrow> word_buffers" where
  "steps_from t [] s = s"
| "steps_from t (w # ws) s = steps_from (t + 1) ws (sha1_round (step_f t) (sha1_K ! (t div 20)) s w)"

definition compress :: "u32 list \<Rightarrow> u8 list \<Rightarrow> u32 list" where
  "compress H block =
     (case steps_from 0 (sha1_W block) (H ! 0, H ! 1, H ! 2, H ! 3, H ! 4) of
        (A, B, C, D, E) \<Rightarrow> map2 (+) H [A, B, C, D, E])"

function hash_blocks :: "u32 list \<Rightarrow> u8 list \<Rightarrow> u32 list" where
  "hash_blocks H xs = (if length xs < 64 then H else hash_blocks (compress H (take 64 xs)) (drop 64 xs))"
  by auto
termination by (relation "measure (\<lambda>(H, xs). length xs)") auto

declare hash_blocks.simps [simp del]

definition be32 :: "u32 \<Rightarrow> u8 list" where
  "be32 w = [ucast (drop_bit 24 w), ucast (drop_bit 16 w), ucast (drop_bit 8 w), ucast w]"

definition bit_length :: "u8 list \<Rightarrow> u8 list" where
  "bit_length msg = be32 (of_nat (8 * length msg div 2 ^ 32)) @ be32 (of_nat (8 * length msg))"

definition padded :: "u8 list \<Rightarrow> u8 list" where
  "padded msg = msg @ [0x80] @ replicate ((119 - length msg mod 64) mod 64) 0 @ bit_length msg"

definition sha1_spec :: "u8 list \<Rightarrow> u8 list" where
  "sha1_spec msg = concat (map be32 (hash_blocks CUSTOM_BGN_DIG (padded msg)))"

section \<open>The context computes the algorithm\<close>

lemma steps_from_append: "steps_from t (xs @ ys) s = steps_from (t + length xs) ys (steps_from t xs s)"
  by (induction xs arbitrary: t s) auto

lemma steps_from_foldl:
  "\<forall>i < length ws. step_f (t + i) = f \<and> sha1_K ! ((t + i) div 20) = k \<Longrightarrow>
     steps_from t ws s = foldl (sha1_round f k) s ws"
proof (induction ws arbitrary: t s)
  case (Cons w ws)
  have "\<forall>i < length ws. step_f (Suc t + i) = f \<and> sha1_K ! ((Suc t + i) div 20) = k"
    using Cons.prems by (metis add_Suc_shift length_Cons not_less_eq)
  moreover have "step_f t = f" "sha1_K ! (t div 20) = k" using Cons.prems by force+
  ultimately show ?case using Cons.IH [of "Suc t"] by simp
qed simp

lemma length_W: "length (sha1_W mb) = 80"
proof -
  have "length (W_rest n W) = length W + n" for n W by (induction n W rule: W_rest.induct) (auto simp: Let_def)
  then show ?thesis by (simp add: sha1_W_def W_first_def)
qed

lemma nat_div_20: "20 * k \<le> t \<Longrightarrow> t < 20 * k + 20 \<Longrightarrow> t div 20 = (k :: nat)"
  by (simp add: div_nat_eqI)

lemma sha1_loops_steps:
  assumes "length W = 80"
  shows "sha1_loops W s = steps_from 0 W s"
proof -
  have W: "W = take 20 W @ take 20 (drop 20 W) @ take 20 (drop 40 W) @ take 20 (drop 60 W)"
  proof -
    have "drop n W = take 20 (drop n W) @ drop (20 + n) W" for n by (metis append_take_drop_id drop_drop)
    from this [of 0] this [of 20] this [of 40] this [of 60] show ?thesis using assms by simp
  qed
  have 1: "steps_from 0 (take 20 W) s = foldl (sha1_round f_choose (sha1_K ! 0)) s (take 20 W)" for s
    by (rule steps_from_foldl) (auto simp: step_f_def)
  have 2: "steps_from 20 (take 20 (drop 20 W)) s = foldl (sha1_round f_parity (sha1_K ! 1)) s (take 20 (drop 20 W))" for s
    using nat_div_20 [of 1] by (intro steps_from_foldl) (auto simp: step_f_def)
  have 3: "steps_from 40 (take 20 (drop 40 W)) s = foldl (sha1_round f_major (sha1_K ! 2)) s (take 20 (drop 40 W))" for s
    using nat_div_20 [of 2] by (intro steps_from_foldl) (auto simp: step_f_def)
  have 4: "steps_from 60 (take 20 (drop 60 W)) s = foldl (sha1_round f_parity (sha1_K ! 3)) s (take 20 (drop 60 W))" for s
    using nat_div_20 [of 3] by (intro steps_from_foldl) (auto simp: step_f_def)
  have "steps_from 0 W s = steps_from 60 (take 20 (drop 60 W)) (steps_from 40 (take 20 (drop 40 W))
      (steps_from 20 (take 20 (drop 20 W)) (steps_from 0 (take 20 W) s)))"
    using assms by (subst W) (simp only: steps_from_append, simp)
  then show ?thesis by (simp only: 1 2 3 4 sha1_loops_def Let_def)
qed

lemma length_5: "length xs = 5 \<Longrightarrow> xs = [xs ! 0, xs ! 1, xs ! 2, xs ! 3, xs ! 4]"
  by (simp add: list_eq_iff_nth_eq less_Suc_eq numeral_eq_Suc All_less_Suc)

lemma length_compress [simp]: "length H = 5 \<Longrightarrow> length (compress H b) = 5"
  by (simp add: compress_def split: prod.splits)

lemma SHA1ProcessMessageBlock_compress:
  assumes "length (Intermediate_Hash c) = 5"
  shows "SHA1ProcessMessageBlock c =
    c\<lparr>Intermediate_Hash := compress (Intermediate_Hash c) (Message_Block c), Message_Block_Index := 0\<rparr>"
proof -
  let ?H = "Intermediate_Hash c"
  obtain A B C D E where s: "steps_from 0 (sha1_W (Message_Block c)) (?H ! 0, ?H ! 1, ?H ! 2, ?H ! 3, ?H ! 4) = (A, B, C, D, E)"
    by (metis prod_cases5)
  have "map2 (+) ?H [A, B, C, D, E] = [?H ! 0 + A, ?H ! 1 + B, ?H ! 2 + C, ?H ! 3 + D, ?H ! 4 + E]"
    by (subst length_5 [OF assms]) simp
  then show ?thesis
    by (simp add: SHA1ProcessMessageBlock_def Let_def sha1_loops_steps [OF length_W] s [unfolded One_nat_def] compress_def)
qed

lemma hash_blocks_short: "length xs < 64 \<Longrightarrow> hash_blocks H xs = H"
  by (subst hash_blocks.simps) simp

lemma hash_blocks_append:
  "64 dvd length xs \<Longrightarrow> hash_blocks H (xs @ ys) = hash_blocks (hash_blocks H xs) ys"
proof (induction H xs rule: hash_blocks.induct)
  case (1 H xs)
  show ?case
  proof (cases "length xs < 64")
    case True
    then have "xs = []" using 1(2) by (auto dest: dvd_imp_le)
    then show ?thesis by (simp add: hash_blocks_short)
  next
    case False
    then have "64 dvd length (drop 64 xs)" using 1(2) by simp
    then have "hash_blocks (compress H (take 64 xs)) (drop 64 xs @ ys) =
        hash_blocks (hash_blocks (compress H (take 64 xs)) (drop 64 xs)) ys" using 1(1) False by simp
    then show ?thesis using False by (simp add: hash_blocks.simps [of H "xs @ ys"] hash_blocks.simps [of H xs])
  qed
qed

lemma hash_blocks_one: "length b = 64 \<Longrightarrow> hash_blocks H b = compress H b"
  by (subst hash_blocks.simps) (simp add: hash_blocks_short)

lemma length_hash_blocks: "length H = 5 \<Longrightarrow> length (hash_blocks H xs) = 5"
proof (induction H xs rule: hash_blocks.induct)
  case (1 H xs)
  then show ?case by (subst hash_blocks.simps) simp
qed

text \<open>The context after the bytes \<open>msg\<close>: the whole blocks are digested, the rest is in the buffer.\<close>

definition sha1_inv :: "SHA1Context \<Rightarrow> u8 list \<Rightarrow> bool" where
  "sha1_inv c msg \<longleftrightarrow> length (Message_Block c) = 64 \<and> Computed c = 0 \<and> Corrupted c = 0 \<and>
     Length_Low c = of_nat (8 * length msg) \<and> Length_High c = of_nat (8 * length msg div 2 ^ 32) \<and>
     (\<exists>xs ys. msg = xs @ ys \<and> 64 dvd length xs \<and> length ys < 64 \<and> Message_Block_Index c = length ys \<and>
        take (length ys) (Message_Block c) = ys \<and> Intermediate_Hash c = hash_blocks CUSTOM_BGN_DIG xs)"

lemma sha1_invI:
  assumes "msg = xs @ ys" "64 dvd length xs" "length ys < 64" "Message_Block_Index c = length ys"
    "take (length ys) (Message_Block c) = ys" "Intermediate_Hash c = hash_blocks CUSTOM_BGN_DIG xs"
    "length (Message_Block c) = 64" "Computed c = 0" "Corrupted c = 0"
    "Length_Low c = of_nat (8 * length msg)" "Length_High c = of_nat (8 * length msg div 2 ^ 32)"
  shows "sha1_inv c msg"
  using assms unfolding sha1_inv_def by blast

lemma length_CUSTOM [simp]: "length CUSTOM_BGN_DIG = 5"
  by (simp add: CUSTOM_BGN_DIG_def)

lemma take_put: "length ys < length mb \<Longrightarrow> take (length ys) mb = ys \<Longrightarrow> take (Suc (length ys)) (mb[length ys := b]) = ys @ [b]"
  by (simp add: take_Suc_conv_app_nth)

lemma eight_word: "(of_nat (8 * Suc n) :: u32) = of_nat (8 * n) + 8"
  by (simp add: algebra_simps)

lemma low_wraps: "((of_nat (8 * n) :: u32) = 0) = (8 * n mod 2 ^ 32 = 0)"
proof -
  have "unat (of_nat (8 * n) :: u32) = 8 * n mod 2 ^ 32" by (simp only: unat_of_nat) (simp add: take_bit_eq_mod)
  then show ?thesis by (metis unat_0 unat_eq_zero)
qed

lemma high_div: "8 * Suc n div 2 ^ 32 = 8 * n div 2 ^ 32 + (if 8 * Suc n mod 2 ^ 32 = 0 then 1 else 0)"
proof -
  have k: "(2 :: nat) ^ 32 = 8 * 536870912" by simp
  have "8 * m div 2 ^ 32 = m div 536870912" "8 * m mod 2 ^ 32 = 8 * (m mod 536870912)" for m :: nat
    unfolding k by (simp, rule mult_mod_right [symmetric])
  then show ?thesis by (simp only: div_Suc) simp
qed

lemma count_byte_length:
  assumes "Length_Low c = of_nat (8 * n)" "Length_High c = of_nat (8 * n div 2 ^ 32)" "8 * Suc n < 2 ^ 64" "Corrupted c = 0"
  shows "count_byte c = c\<lparr>Length_Low := of_nat (8 * Suc n), Length_High := of_nat (8 * Suc n div 2 ^ 32)\<rparr>"
proof -
  have hi: "8 * Suc n div 2 ^ 32 < 2 ^ 32" using assms(3) by (simp add: less_mult_imp_div_less)
  show ?thesis
  proof (cases "8 * Suc n mod 2 ^ 32 = 0")
    case True
    then have d: "8 * Suc n div 2 ^ 32 = 8 * n div 2 ^ 32 + 1" using high_div by simp
    then have h: "of_nat (8 * n div 2 ^ 32) + 1 = (of_nat (8 * Suc n div 2 ^ 32) :: u32)" by simp
    have "(of_nat (8 * Suc n div 2 ^ 32) :: u32) \<noteq> 0" using hi d by (intro of_nat_word_neq_0) auto
    then show ?thesis using assms(1,2,4) True low_wraps [of "Suc n"] h eight_word [of n] by (simp add: count_byte_def Let_def del: of_nat_mult of_nat_Suc mult_Suc_right)
  next
    case False
    then have "8 * Suc n div 2 ^ 32 = 8 * n div 2 ^ 32" using high_div by simp
    then show ?thesis using assms(1,2) False low_wraps [of "Suc n"] eight_word [of n] by (simp add: count_byte_def Let_def del: of_nat_mult of_nat_Suc mult_Suc_right)
  qed
qed

lemma input_byte_inv:
  assumes inv: "sha1_inv c msg" and len: "8 * Suc (length msg) < 2 ^ 64"
  shows "sha1_inv (input_byte c b) (msg @ [b])"
proof -
  obtain xs ys where m: "msg = xs @ ys" "64 dvd length xs" "length ys < 64" "Message_Block_Index c = length ys"
    "take (length ys) (Message_Block c) = ys" "Intermediate_Hash c = hash_blocks CUSTOM_BGN_DIG xs"
    "length (Message_Block c) = 64" "Computed c = 0" "Corrupted c = 0" using inv unfolding sha1_inv_def by blast
  let ?mb = "(Message_Block c)[length ys := b]"
  let ?c = "c\<lparr>Message_Block := ?mb, Message_Block_Index := Suc (length ys),
    Length_Low := of_nat (8 * Suc (length msg)), Length_High := of_nat (8 * Suc (length msg) div 2 ^ 32)\<rparr>"
  have c: "count_byte (put_byte c b) = ?c"
    using inv len m(4,9) count_byte_length [of "put_byte c b" "length msg"] by (simp add: put_byte_def sha1_inv_def)
  have t: "take (Suc (length ys)) ?mb = ys @ [b]" using take_put [of ys "Message_Block c"] m(3,5,7) by simp
  show ?thesis
  proof (cases "length ys = 63")
    case True
    then have "?mb = ys @ [b]" using t m(7) by simp
    then have "compress (hash_blocks CUSTOM_BGN_DIG xs) ?mb = hash_blocks CUSTOM_BGN_DIG (xs @ ys @ [b])"
      using True m(2) by (simp add: hash_blocks_append hash_blocks_one)
    moreover have "input_byte c b = ?c\<lparr>Intermediate_Hash := compress (hash_blocks CUSTOM_BGN_DIG xs) ?mb, Message_Block_Index := 0\<rparr>"
      using True m(6) by (simp add: input_byte_def c Let_def SHA1ProcessMessageBlock_compress length_hash_blocks)
    ultimately show ?thesis using m True by (intro sha1_invI [of _ "xs @ ys @ [b]" "[]"]) (auto simp: add.commute)
  next
    case False
    then have "input_byte c b = ?c" by (simp add: input_byte_def c Let_def)
    then show ?thesis using m t False by (intro sha1_invI [of _ xs "ys @ [b]"]) auto
  qed
qed

lemma input_loop_inv:
  "sha1_inv c msg \<Longrightarrow> 8 * length (msg @ bs) < 2 ^ 64 \<Longrightarrow> sha1_inv (input_loop bs c) (msg @ bs)"
proof (induction bs arbitrary: c msg)
  case (Cons b bs)
  then have "sha1_inv (input_byte c b) (msg @ [b])" by (intro input_byte_inv) auto
  moreover have "Corrupted c = 0" using Cons.prems(1) by (simp add: sha1_inv_def)
  ultimately show ?case using Cons.IH [of "input_byte c b" "msg @ [b]"] Cons.prems(2) by simp
qed simp

lemma pad_to_zeros:
  assumes "length (Message_Block c) = 64" "Message_Block_Index c = length ys" "take (length ys) (Message_Block c) = ys"
    "length ys \<le> n" "n \<le> 64"
  shows "\<exists>mb. pad_to n c = c\<lparr>Message_Block := mb, Message_Block_Index := n\<rparr> \<and> length mb = 64 \<and>
    take n mb = ys @ replicate (n - length ys) 0"
  using assms
proof (induction "n - length ys" arbitrary: c ys)
  case 0
  then have "length ys = n" by simp
  then show ?case using 0 by (subst pad_to.simps) (auto intro!: exI [of _ "Message_Block c"])
next
  case (Suc k)
  then have less: "length ys < n" by simp
  let ?c = "put_byte c 0"
  have "\<exists>mb. pad_to n ?c = ?c\<lparr>Message_Block := mb, Message_Block_Index := n\<rparr> \<and> length mb = 64 \<and>
      take n mb = (ys @ [0]) @ replicate (n - length (ys @ [0])) 0"
    using Suc.prems Suc.hyps(2) less take_put [of ys "Message_Block c" 0] by (intro Suc.hyps(1)) (auto simp: put_byte_def)
  moreover have "replicate (n - length ys) (0 :: u8) = 0 # replicate (n - Suc (length ys)) 0"
    using less by (metis Suc_diff_Suc replicate_Suc)
  moreover have "pad_to n c = pad_to n ?c" using less Suc.prems(2) by (subst pad_to.simps) simp
  ultimately show ?case by (auto simp: put_byte_def)
qed

lemma length_8: "length xs = 8 \<Longrightarrow> \<exists>a0 a1 a2 a3 a4 a5 a6 a7. xs = [a0, a1, a2, a3, a4, a5, a6, a7]"
  by (auto simp: length_Suc_conv numeral_eq_Suc)

lemma put_length_block:
  assumes "length (Message_Block c) = 64" "take 56 (Message_Block c) = zs"
  shows "Message_Block (put_length c) = zs @ be32 (Length_High c) @ be32 (Length_Low c)"
proof -
  have "length (drop 56 (Message_Block c)) = 8" using assms(1) by simp
  then obtain a0 a1 a2 a3 a4 a5 a6 a7 where "drop 56 (Message_Block c) = [a0, a1, a2, a3, a4, a5, a6, a7]"
    using length_8 by blast
  then have mb: "Message_Block c = zs @ [a0, a1, a2, a3, a4, a5, a6, a7]" using assms(2) append_take_drop_id by metis
  have "length zs = 56" using assms by auto
  then show ?thesis by (simp add: put_length_def mb list_update_append be32_def)
qed

text \<open>The last bytes of the padded message are one block or two.\<close>

lemma padded_split:
  assumes "msg = xs @ ys" "64 dvd length xs" "length ys < 64"
  shows "padded msg = xs @ (if length ys > 55 then ys @ [0x80] @ replicate (63 - length ys) 0 @ replicate 56 0 @ bit_length msg
      else ys @ [0x80] @ replicate (55 - length ys) 0 @ bit_length msg)"
proof -
  have r: "length msg mod 64 = length ys" using assms by (auto elim!: dvdE)
  have "(119 - length ys) mod 64 = (if length ys > 55 then (63 - length ys) + 56 else 55 - length ys)"
  proof (cases "length ys > 55")
    case False
    then have "119 - length ys = 64 + (55 - length ys)" by simp
    then have "(119 - length ys) mod 64 = (55 - length ys) mod 64" by (metis mod_add_self1)
    then show ?thesis using False by simp
  qed (use assms(3) in simp)
  then have "replicate ((119 - length msg mod 64) mod 64) (0 :: u8) =
      (if length ys > 55 then replicate (63 - length ys) 0 @ replicate 56 0 else replicate (55 - length ys) 0)"
    unfolding r by (simp only: replicate_add split: if_split) simp
  then show ?thesis using assms(1) by (simp add: padded_def)
qed

lemma SHA1PadMessage_padded:
  assumes "sha1_inv c msg"
  shows "Intermediate_Hash (SHA1PadMessage c) = hash_blocks CUSTOM_BGN_DIG (padded msg)"
proof -
  obtain xs ys where m: "msg = xs @ ys" "64 dvd length xs" "length ys < 64" "Message_Block_Index c = length ys"
    "take (length ys) (Message_Block c) = ys" "Intermediate_Hash c = hash_blocks CUSTOM_BGN_DIG xs"
    "length (Message_Block c) = 64" "Length_Low c = of_nat (8 * length msg)"
    "Length_High c = of_nat (8 * length msg div 2 ^ 32)" using assms unfolding sha1_inv_def by blast
  let ?c = "put_byte c 0x80" and ?H = "hash_blocks CUSTOM_BGN_DIG xs"
  have H5: "length ?H = 5" by (simp add: length_hash_blocks)
  have bl: "be32 (Length_High c) @ be32 (Length_Low c) = bit_length msg" using m(8,9) by (simp add: bit_length_def)
  have bl8: "length (bit_length msg) = 8" by (simp add: bit_length_def be32_def)
  have c: "length (Message_Block ?c) = 64" "Message_Block_Index ?c = length (ys @ [0x80])"
    "take (length (ys @ [0x80])) (Message_Block ?c) = ys @ [0x80]"
    using m take_put [of ys "Message_Block c" "0x80"] by (auto simp: put_byte_def)
  show ?thesis
  proof (cases "length ys > 55")
    case False
    obtain mb where mb: "pad_to 56 ?c = ?c\<lparr>Message_Block := mb, Message_Block_Index := 56\<rparr>" "length mb = 64"
      "take 56 mb = (ys @ [0x80]) @ replicate (55 - length ys) 0" using pad_to_zeros [OF c, of 56] False by auto
    have "Message_Block (put_length (pad_to 56 ?c)) = ys @ [0x80] @ replicate (55 - length ys) 0 @ bit_length msg"
      using put_length_block [of "pad_to 56 ?c"] mb bl by (simp add: put_byte_def)
    moreover have "hash_blocks CUSTOM_BGN_DIG (padded msg) =
        compress ?H (ys @ [0x80] @ replicate (55 - length ys) 0 @ bit_length msg)"
      using False m(2) by (simp add: padded_split [OF m(1-3)] hash_blocks_append hash_blocks_one bl8)
    moreover have "Intermediate_Hash (put_length (pad_to 56 ?c)) = ?H"
      unfolding mb(1) using m(6) by (simp add: put_length_def put_byte_def)
    ultimately show ?thesis using False m(4) H5 by (simp add: SHA1PadMessage_def Let_def SHA1ProcessMessageBlock_compress)
  next
    case True
    obtain mb where mb: "pad_to 64 ?c = ?c\<lparr>Message_Block := mb, Message_Block_Index := 64\<rparr>" "length mb = 64"
      "take 64 mb = (ys @ [0x80]) @ replicate (63 - length ys) 0" using pad_to_zeros [OF c, of 64] m(3) by auto
    let ?c1 = "SHA1ProcessMessageBlock (pad_to 64 ?c)"
    have c1: "?c1 = ?c\<lparr>Message_Block := mb, Intermediate_Hash := compress ?H mb, Message_Block_Index := 0\<rparr>"
      unfolding mb(1) using H5 m(6) by (simp add: SHA1ProcessMessageBlock_compress put_byte_def)
    obtain mb2 where mb2: "pad_to 56 ?c1 = ?c1\<lparr>Message_Block := mb2, Message_Block_Index := 56\<rparr>" "length mb2 = 64"
      "take 56 mb2 = replicate 56 0" using pad_to_zeros [of ?c1 "[]" 56] mb(2) by (auto simp: c1)
    have len1: "Length_High ?c1 = Length_High c" "Length_Low ?c1 = Length_Low c" unfolding c1 by (simp_all add: put_byte_def)
    have "Message_Block (put_length (pad_to 56 ?c1)) = replicate 56 0 @ bit_length msg"
      using put_length_block [of "pad_to 56 ?c1"] mb2 bl len1 by simp
    moreover have "hash_blocks CUSTOM_BGN_DIG (padded msg) = compress (compress ?H mb) (replicate 56 0 @ bit_length msg)"
    proof -
      have "hash_blocks CUSTOM_BGN_DIG (padded msg) = hash_blocks ?H ((ys @ [0x80] @ replicate (63 - length ys) 0) @ replicate 56 0 @ bit_length msg)"
        using True m(2) by (simp add: padded_split [OF m(1-3)] hash_blocks_append)
      also have "ys @ [0x80] @ replicate (63 - length ys) 0 = mb" using mb(2,3) by simp
      finally show ?thesis using mb(2) by (simp add: hash_blocks_append hash_blocks_one bl8)
    qed
    moreover have "Intermediate_Hash (put_length (pad_to 56 ?c1)) = compress ?H mb"
      unfolding mb2(1) by (simp add: put_length_def c1)
    ultimately show ?thesis using True m(4) H5 by (simp add: SHA1PadMessage_def Let_def SHA1ProcessMessageBlock_compress)
  qed
qed

lemma upt_20: "[0..<20] = [0, 1, 2, 3, 4, 5, 6, 7, 8, 9, 10, 11, 12, 13, 14, 15, 16, 17, 18, 19 :: nat]"
  by code_simp

lemma digest_of_be32: "length H = 5 \<Longrightarrow> digest_of H = concat (map be32 H)"
  by (subst (2) length_5, assumption) (simp add: digest_of_def SHA1HashSize_def be32_def upt_20)

section \<open>Properties\<close>

lemma SHA1Reset_inv: "length (Message_Block c) = 64 \<Longrightarrow> \<exists>c'. SHA1Reset (Some c) = (shaSuccess, Some c') \<and> sha1_inv c' []"
  by (auto simp: SHA1Reset_def sha1_inv_def hash_blocks_short)

lemma SHA1Input_inv:
  assumes "sha1_inv c msg" "8 * length (msg @ bs) < 2 ^ 64"
  shows "\<exists>c'. SHA1Input (Some c) (Some bs) = (shaSuccess, Some c') \<and> sha1_inv c' (msg @ bs)"
  using assms input_loop_inv [OF assms] by (cases "bs = []") (auto simp: SHA1Input_def sha1_inv_def)

lemma SHA1Result_inv:
  assumes "sha1_inv c msg"
  shows "\<exists>c'. SHA1Result (Some c) = (shaSuccess, Some (sha1_spec msg), Some c') \<and> length (Message_Block c') = 64"
proof -
  have "Corrupted c = 0" "Computed c = 0" using assms by (auto simp: sha1_inv_def)
  then show ?thesis using SHA1PadMessage_padded [OF assms]
    by (simp add: SHA1Result_def sha1_spec_def digest_of_be32 length_hash_blocks)
qed

text \<open>The calls in which a message arrives.\<close>

fun feed :: "SHA1Context option \<Rightarrow> u8 list list \<Rightarrow> SHA1Context option" where
  "feed c [] = c"
| "feed c (b # bs) = feed (snd (SHA1Input c (Some b))) bs"

lemma feed_inv:
  "sha1_inv c msg \<Longrightarrow> 8 * length (msg @ concat bs) < 2 ^ 64 \<Longrightarrow>
     \<exists>c'. feed (Some c) bs = Some c' \<and> sha1_inv c' (msg @ concat bs)"
proof (induction bs arbitrary: c msg)
  case (Cons b bs)
  then obtain c1 where "SHA1Input (Some c) (Some b) = (shaSuccess, Some c1)" "sha1_inv c1 (msg @ b)"
    using SHA1Input_inv [of c msg b] by auto
  then show ?case using Cons.IH [of c1 "msg @ b"] Cons.prems(2) by simp
qed auto

text \<open>C33: However a message of less than 2^61 bytes is cut into calls of \<open>SHA1Input\<close> after
  \<open>SHA1Reset\<close>, \<open>SHA1Result\<close> succeeds and writes the digest of the whole message as the algorithm
  defines it: the padded message digested block by block.\<close>

theorem SHA1_incremental:
  assumes "length (Message_Block c) = 64" "8 * length (concat parts) < 2 ^ 64"
  shows "\<exists>c'. SHA1Result (feed (snd (SHA1Reset (Some c))) parts) = (shaSuccess, Some (sha1_spec (concat parts)), Some c')"
proof -
  obtain c0 where c0: "SHA1Reset (Some c) = (shaSuccess, Some c0)" "sha1_inv c0 []" using SHA1Reset_inv [OF assms(1)] by blast
  obtain c1 where "feed (Some c0) parts = Some c1" "sha1_inv c1 (concat parts)" using feed_inv [OF c0(2), of parts] assms(2) by auto
  then show ?thesis using c0 SHA1Result_inv by fastforce
qed

definition SHA1Context_0 :: SHA1Context where
  "SHA1Context_0 = \<lparr>Intermediate_Hash = replicate 5 0, Length_Low = 0, Length_High = 0, Message_Block_Index = 0,
     Message_Block = replicate 64 0, Computed = 0, Corrupted = 0\<rparr>"

theorem SHA1_incremental_witness:
  "\<exists>c'. SHA1Result (feed (snd (SHA1Reset (Some SHA1Context_0))) [[0x61, 0x62], [], [0x63]]) =
     (shaSuccess, Some (sha1_spec [0x61, 0x62, 0x63]), Some c')"
  using SHA1_incremental [of SHA1Context_0 "[[0x61, 0x62], [], [0x63]]"] by (simp add: SHA1Context_0_def)

lemma sha1_is_spec:
  assumes "length (Message_Block c) = 64" "8 * length msg < 2 ^ 64"
  shows "\<exists>c'. sha1 c msg = (Some (sha1_spec msg), Some c') \<and> length (Message_Block c') = 64"
proof -
  obtain c0 where c0: "SHA1Reset (Some c) = (shaSuccess, Some c0)" "sha1_inv c0 []" using SHA1Reset_inv [OF assms(1)] by blast
  obtain c1 where "SHA1Input (Some c0) (Some msg) = (shaSuccess, Some c1)" "sha1_inv c1 msg"
    using SHA1Input_inv [OF c0(2), of msg] assms(2) by auto
  then show ?thesis using c0(1) SHA1Result_inv [of c1 msg] by (auto simp: sha1_def)
qed

lemma length_sha1_spec [simp]: "length (sha1_spec msg) = 20"
proof -
  let ?H = "hash_blocks CUSTOM_BGN_DIG (padded msg)"
  have "length ?H = 5" by (simp add: length_hash_blocks)
  then show ?thesis using digest_of_be32 [of ?H] by (simp add: sha1_spec_def digest_of_def SHA1HashSize_def flip: digest_of_be32)
qed

text \<open>Misuse is an error, never a digest: after \<open>SHA1Result\<close> further input is refused with
  \<open>shaStateError\<close>, and the context then gives no digest any more.\<close>

theorem SHA1_input_after_result:
  assumes "SHA1Result (Some c) = (shaSuccess, d, Some c1)" "bs \<noteq> []"
  shows "\<exists>c2. SHA1Input (Some c1) (Some bs) = (shaStateError, Some c2) \<and> SHA1Result (Some c2) = (shaStateError, None, Some c2)"
  using assms by (auto simp: SHA1Result_def SHA1Input_def shaSuccess_def shaStateError_def Let_def split: if_splits)

theorem SHA1_input_after_result_witness:
  "\<exists>d c1 c2. SHA1Result (snd (SHA1Reset (Some SHA1Context_0))) = (shaSuccess, d, Some c1) \<and>
     SHA1Input (Some c1) (Some [1]) = (shaStateError, Some c2) \<and> SHA1Result (Some c2) = (shaStateError, None, Some c2)"
proof -
  obtain c0 where c0: "SHA1Reset (Some SHA1Context_0) = (shaSuccess, Some c0)" "sha1_inv c0 []"
    using SHA1Reset_inv [of SHA1Context_0] by (auto simp: SHA1Context_0_def)
  obtain c1 where "SHA1Result (Some c0) = (shaSuccess, Some (sha1_spec []), Some c1)" using SHA1Result_inv [OF c0(2)] by blast
  then show ?thesis using SHA1_input_after_result [of c0 _ c1 "[1]"] c0(1) by fastforce
qed

end
