(* ===== verification/Maps.thy ===== *)
theory Maps
  imports MapSpec Sha1 Heaps
begin

text \<open>
  The two classes around the hash table: \<open>hash_map\<close> of core/repository-2/map.cpp, over the global
  zone allocator and a \<open>mutex\<close>, and \<open>cMap\<close> of core/mem/map.cpp, over a heap object and a
  \<open>cMutex\<close>. Both digest their keys with sha1.c. Each allocator is shown to meet
  \<open>mem_callbacks\<close>, so that every fact of MapSpec is a fact of both classes.
\<close>

declare set_concat [simp del] mset_concat [simp del] concat_eq_Nil_conv [simp del]

section \<open>The digest of a key\<close>

text \<open>The callback \<open>pf_hash\<close> of both classes resets the context that the object keeps for it, so the
  digest depends on the key alone (\<open>sha1_is_spec\<close>); a context that failed would leave the zeroed
  buffer of the caller.\<close>

definition map_hash :: "u8 list \<Rightarrow> u8 list" where
  "map_hash data = (case sha1 SHA1Context_0 data of (Some d, _) \<Rightarrow> d | (None, _) \<Rightarrow> replicate HASH_SIZE 0)"

lemma map_hash_spec: "length data < 2 ^ 32 \<Longrightarrow> map_hash data = sha1_spec data"
  using sha1_is_spec [of SHA1Context_0 data] by (auto simp: map_hash_def SHA1Context_0_def)

section \<open>hash_map\<close>

record 'a hash_map =
  hm_context :: "('a, zalloc_state) map_context"
  hm_mutex :: mutex

definition hash_map_context :: "zalloc_state \<Rightarrow> ('a, zalloc_state) map_context" where
  "hash_map_context g = \<lparr>records = 0, collisions = 0, capacity = 127, pf_mem_alloc = Some zalloc,
     pf_mem_free = Some zfree, pf_hash = Some map_hash, pp_list = None, udata = g\<rparr>"

text \<open>The constructor; \<open>this\<close> is the address of the mutex inside the object.\<close>

definition hash_map_new :: "u64 \<Rightarrow> zalloc_state \<Rightarrow> 'a hash_map option" where
  "hash_map_new this g = do {
     (_, g) \<leftarrow> zinit g;
     (_, c) \<leftarrow> map_init (hash_map_context g);
     Some \<lparr>hm_context = c, hm_mutex = mutex_new this\<rparr> }"

text \<open>The bracket of \<open>m_mutex.lock(hlock)\<close> and \<open>m_mutex.unlock(hm)\<close> around a call on the context.\<close>

definition hm_locked :: "'a hash_map \<Rightarrow> u64 \<Rightarrow>
    (('a, zalloc_state) map_context \<Rightarrow> ('r \<times> ('a, zalloc_state) map_context) option) \<Rightarrow> ('r \<times> 'a hash_map) option" where
  "hm_locked m hlock f = do {
     (hm, mx) \<leftarrow> mutex_lock (hm_mutex m) hlock;
     (r, c) \<leftarrow> f (hm_context m);
     mx \<leftarrow> mutex_unlock mx hm;
     Some (r, \<lparr>hm_context = c, hm_mutex = mx\<rparr>) }"

definition hash_map_destroy :: "'a hash_map \<Rightarrow> u64 \<Rightarrow> (unit \<times> 'a hash_map) option" where
  "hash_map_destroy m hlock = hm_locked m hlock map_destroy"

definition hash_map_delete :: "'a hash_map \<Rightarrow> (unit \<times> 'a hash_map) option" where
  "hash_map_delete m = hash_map_destroy m 0"

definition hash_map_lock :: "'a hash_map \<Rightarrow> u64 \<Rightarrow> (u64 \<times> 'a hash_map) option" where
  "hash_map_lock m hlock = do { (r, mx) \<leftarrow> mutex_lock (hm_mutex m) hlock; Some (r, m\<lparr>hm_mutex := mx\<rparr>) }"

definition hash_map_unlock :: "'a hash_map \<Rightarrow> u64 \<Rightarrow> 'a hash_map option" where
  "hash_map_unlock m hlock = do { mx \<leftarrow> mutex_unlock (hm_mutex m) hlock; Some (m\<lparr>hm_mutex := mx\<rparr>) }"

definition hash_map_add :: "'a hash_map \<Rightarrow> u8 list \<Rightarrow> 'a \<Rightarrow> u32 \<Rightarrow> u64 \<Rightarrow> (ptr \<times> 'a hash_map) option" where
  "hash_map_add m key d sz_data hlock = hm_locked m hlock (\<lambda>c. map_add c key d sz_data)"

definition hash_map_set :: "'a hash_map \<Rightarrow> u8 list \<Rightarrow> 'a \<Rightarrow> u32 \<Rightarrow> u64 \<Rightarrow> (ptr \<times> 'a hash_map) option" where
  "hash_map_set m key d sz_data hlock = hm_locked m hlock (\<lambda>c. map_set c key d sz_data)"

definition hash_map_get :: "'a hash_map \<Rightarrow> u8 list \<Rightarrow> u64 \<Rightarrow> ((addr \<times> u32) option \<times> 'a hash_map) option" where
  "hash_map_get m key hlock = hm_locked m hlock (\<lambda>c. Some (map_get c key, c))"

definition hash_map_del :: "'a hash_map \<Rightarrow> u8 list \<Rightarrow> u64 \<Rightarrow> (unit \<times> 'a hash_map) option" where
  "hash_map_del m key hlock = hm_locked m hlock (\<lambda>c. map_del c key)"

definition hash_map_clr :: "'a hash_map \<Rightarrow> u64 \<Rightarrow> (unit \<times> 'a hash_map) option" where
  "hash_map_clr m hlock = hm_locked m hlock map_clr"

text \<open>\<open>enm\<close> takes no lock.\<close>

definition hash_map_enm :: "nat \<Rightarrow> 'a hash_map \<Rightarrow> ('a \<Rightarrow> u32 \<Rightarrow> 's \<Rightarrow> enum_op \<times> 's) \<Rightarrow> 's \<Rightarrow> u64 \<Rightarrow>
    ('s \<times> 'a hash_map) option" where
  "hash_map_enm n m cb s hlock = do { (s, c) \<leftarrow> map_enum n (hm_context m) cb s; Some (s, m\<lparr>hm_context := c\<rparr>) }"

interpretation hm: mem_callbacks zalloc zfree zalloc_live zalloc_ok align zone_fits
proof (unfold_locales, goal_cases)
  case (1 u sz)
  then show ?case using zalloc_rel by blast
next
  case (2 u sz a u')
  then show ?case by (rule zalloc_Some)
next
  case (3 u sz u')
  then show ?case by (rule zalloc_None)
next
  case (4 u a sz)
  then show ?case by (rule zfree_rel)
qed

section \<open>cMap\<close>

record 'a cMap =
  cm_heap_mutex :: "cMutex option"
  map_cxt :: "('a, cZoneHeap option) map_context"
  cm_is_init :: bool
  cm_my_heap :: bool

text \<open>The callbacks \<open>_alloc\<close> and \<open>_free\<close> call the heap object without checking that there is one.\<close>

definition cMap_alloc :: "u32 \<Rightarrow> cZoneHeap option \<Rightarrow> (ptr \<times> cZoneHeap option) option" where
  "cMap_alloc sz u = do { z \<leftarrow> u; (p, z) \<leftarrow> cZoneHeap_alloc sz z; Some (p, Some z) }"

definition cMap_free :: "addr \<Rightarrow> u32 \<Rightarrow> cZoneHeap option \<Rightarrow> cZoneHeap option option" where
  "cMap_free p sz u = do { z \<leftarrow> u; z \<leftarrow> cZoneHeap_free False p sz z; Some (Some z) }"

definition cMap_heap_ok :: "cZoneHeap option \<Rightarrow> bool" where
  "cMap_heap_ok u \<longleftrightarrow> (case u of None \<Rightarrow> False | Some z \<Rightarrow> cZoneHeap_ok z)"

definition cMap_live :: "cZoneHeap option \<Rightarrow> addr \<rightharpoonup> u32" where
  "cMap_live u = (case u of None \<Rightarrow> Map.empty | Some z \<Rightarrow> cZoneHeap_live z)"

interpretation cm: mem_callbacks cMap_alloc cMap_free cMap_live cMap_heap_ok align zone_fits
proof (unfold_locales, goal_cases)
  case (1 u sz)
  then show ?case using cZoneHeap_alloc_rel
    by (fastforce simp: cMap_heap_ok_def cMap_alloc_def split: option.splits)
next
  case (2 u sz a u')
  then show ?case using cZoneHeap_alloc_Some
    by (fastforce simp: cMap_heap_ok_def cMap_alloc_def cMap_live_def bind_Some_iff split: option.splits)
next
  case (3 u sz u')
  then show ?case using cZoneHeap_alloc_None
    by (fastforce simp: cMap_heap_ok_def cMap_alloc_def cMap_live_def bind_Some_iff split: option.splits)
next
  case (4 u a sz)
  then show ?case using cZoneHeap_free_rel
    by (fastforce simp: cMap_heap_ok_def cMap_free_def cMap_live_def bind_Some_iff split: option.splits)
qed

definition cMap_init :: "'a cMap \<Rightarrow> u32 \<Rightarrow> cZoneHeap option \<Rightarrow> cZoneHeap option \<Rightarrow> (bool \<times> 'a cMap) option" where
  "cMap_init m cap pi_heap repo_heap =
     (let (h, mine) = (if pi_heap \<noteq> None then (pi_heap, cm_my_heap m)
                       else (repo_heap, repo_heap \<noteq> None \<or> cm_my_heap m));
          c = \<lparr>records = 0, collisions = 0, capacity = cap, pf_mem_alloc = Some cMap_alloc,
               pf_mem_free = Some cMap_free, pf_hash = Some map_hash, pp_list = None, udata = h\<rparr>
      in do {
        (r, c) \<leftarrow> map_init c;
        Some (r, m\<lparr>map_cxt := c, cm_my_heap := mine, cm_is_init := (r \<or> cm_is_init m)\<rparr>) })"

definition cMap_uninit :: "'a cMap \<Rightarrow> 'a cMap option" where
  "cMap_uninit m = do { (_, c) \<leftarrow> map_destroy (map_cxt m); Some (m\<lparr>map_cxt := c\<rparr>) }"

text \<open>\<open>OCTL_INIT\<close> takes the mutex that the repository hands out (none when there is none).\<close>

definition cMap_object_ctl :: "octl \<Rightarrow> cMutex option \<Rightarrow> 'a cMap \<Rightarrow> (bool \<times> 'a cMap) option" where
  "cMap_object_ctl cmd got m =
     (case cmd of
        OCTL_INIT \<Rightarrow> Some (got \<noteq> None, m\<lparr>cm_is_init := False, cm_my_heap := False, cm_heap_mutex := got,
                             map_cxt := (map_cxt m)\<lparr>udata := None\<rparr>\<rparr>)
      | OCTL_UNINIT \<Rightarrow> do { m \<leftarrow> cMap_uninit m; Some (True, m\<lparr>cm_heap_mutex := None\<rparr>) }
      | _ \<Rightarrow> Some (False, m))"

definition cMap_lock :: "'a cMap \<Rightarrow> u64 \<Rightarrow> (u64 \<times> 'a cMap) option" where
  "cMap_lock m hlock =
     (case cm_heap_mutex m of
        None \<Rightarrow> Some (0, m)
      | Some x \<Rightarrow> do { (r, x) \<leftarrow> cMutex_lock x hlock; Some (r, m\<lparr>cm_heap_mutex := Some x\<rparr>) })"

definition cMap_unlock :: "'a cMap \<Rightarrow> u64 \<Rightarrow> 'a cMap option" where
  "cMap_unlock m hlock =
     (case cm_heap_mutex m of
        None \<Rightarrow> Some m
      | Some x \<Rightarrow> do { x \<leftarrow> cMutex_unlock x hlock; Some (m\<lparr>cm_heap_mutex := Some x\<rparr>) })"

definition cm_locked :: "'a cMap \<Rightarrow> u64 \<Rightarrow>
    (('a, cZoneHeap option) map_context \<Rightarrow> ('r \<times> ('a, cZoneHeap option) map_context) option) \<Rightarrow>
    ('r \<times> 'a cMap) option" where
  "cm_locked m hlock f = do {
     (hm, m) \<leftarrow> cMap_lock m hlock;
     (r, c) \<leftarrow> f (map_cxt m);
     m \<leftarrow> cMap_unlock (m\<lparr>map_cxt := c\<rparr>) hm;
     Some (r, m) }"

text \<open>A failed \<open>assert(m_is_init)\<close> is \<open>None\<close>.\<close>

definition cMap_add :: "'a cMap \<Rightarrow> u8 list \<Rightarrow> 'a \<Rightarrow> u32 \<Rightarrow> u64 \<Rightarrow> (ptr \<times> 'a cMap) option" where
  "cMap_add m key d sz_data hlock =
     (if cm_is_init m then cm_locked m hlock (\<lambda>c. map_add c key d sz_data) else None)"

definition cMap_set :: "'a cMap \<Rightarrow> u8 list \<Rightarrow> 'a \<Rightarrow> u32 \<Rightarrow> u64 \<Rightarrow> (ptr \<times> 'a cMap) option" where
  "cMap_set m key d sz_data hlock =
     (if cm_is_init m then cm_locked m hlock (\<lambda>c. map_set c key d sz_data) else None)"

definition cMap_del :: "'a cMap \<Rightarrow> u8 list \<Rightarrow> u64 \<Rightarrow> (unit \<times> 'a cMap) option" where
  "cMap_del m key hlock = (if cm_is_init m then cm_locked m hlock (\<lambda>c. map_del c key) else None)"

definition cMap_cnt :: "'a cMap \<Rightarrow> u32" where
  "cMap_cnt m = records (map_cxt m)"

definition cMap_get :: "'a cMap \<Rightarrow> u8 list \<Rightarrow> u64 \<Rightarrow> ((addr \<times> u32) option \<times> 'a cMap) option" where
  "cMap_get m key hlock =
     (if cm_is_init m then cm_locked m hlock (\<lambda>c. Some (map_get c key, c)) else None)"

definition cMap_clr :: "'a cMap \<Rightarrow> u64 \<Rightarrow> (unit \<times> 'a cMap) option" where
  "cMap_clr m hlock = (if cm_is_init m then cm_locked m hlock map_clr else None)"

definition cMap_enum_open :: "'a cMap \<Rightarrow> ((addr \<times> map_enum_state) option \<times> 'a cMap) option" where
  "cMap_enum_open m =
     (if cm_is_init m then do { (e, c) \<leftarrow> map_enum_open (map_cxt m); Some (e, m\<lparr>map_cxt := c\<rparr>) } else None)"

definition cMap_enum_close :: "'a cMap \<Rightarrow> (addr \<times> map_enum_state) option \<Rightarrow> 'a cMap option" where
  "cMap_enum_close m en = do { c \<leftarrow> map_enum_close (map_cxt m) en; Some (m\<lparr>map_cxt := c\<rparr>) }"

text \<open>The calls on an open enumerator also return its new state.\<close>

definition cMap_enum_first :: "'a cMap \<Rightarrow> map_enum_state \<Rightarrow> u64 \<Rightarrow>
    (('a map_rec_hdr option \<times> map_enum_state) \<times> 'a cMap) option" where
  "cMap_enum_first m en hlock = cm_locked m hlock (\<lambda>c. Some (map_enum_first c en, c))"

definition cMap_enum_next :: "'a cMap \<Rightarrow> map_enum_state \<Rightarrow> u64 \<Rightarrow>
    (('a map_rec_hdr option \<times> map_enum_state) \<times> 'a cMap) option" where
  "cMap_enum_next m en hlock = cm_locked m hlock (\<lambda>c. do { r \<leftarrow> map_enum_next c en; Some (r, c) })"

definition cMap_enum_del :: "'a cMap \<Rightarrow> map_enum_state \<Rightarrow> u64 \<Rightarrow> (map_enum_state \<times> 'a cMap) option" where
  "cMap_enum_del m en hlock = cm_locked m hlock (\<lambda>c. map_enum_del c en)"

definition cMap_enumerate :: "nat \<Rightarrow> 'a cMap \<Rightarrow> ('a \<Rightarrow> u32 \<Rightarrow> 's \<Rightarrow> enum_op \<times> 's) \<Rightarrow> 's \<Rightarrow> u64 \<Rightarrow>
    ('s \<times> 'a cMap) option" where
  "cMap_enumerate n m pcb s hlock = cm_locked m hlock (\<lambda>c. map_enum n c pcb s)"

record map_status =
  st_capacity :: u32
  st_count :: u32
  st_collisions :: u32

definition cMap_status :: "'a cMap \<Rightarrow> map_status" where
  "cMap_status m = \<lparr>st_capacity = capacity (map_cxt m), st_count = records (map_cxt m),
     st_collisions = collisions (map_cxt m)\<rparr>"

section \<open>hash_map is a map from digests to records\<close>

definition hash_map_rel :: "'a hash_map \<Rightarrow> (u8 list \<rightharpoonup> 'a map_rec_hdr) \<Rightarrow> bool" where
  "hash_map_rel m M \<longleftrightarrow> pf_hash (hm_context m) = Some map_hash \<and>
     (\<exists>bs. hm.map_rel (hm_context m) bs \<and> M = mget bs)"

definition hash_map_ready :: "'a hash_map \<Rightarrow> u64 \<Rightarrow> bool" where
  "hash_map_ready m hlock \<longleftrightarrow> mutex.ready (hm_mutex m) hlock"

definition found :: "'a map_rec_hdr option \<Rightarrow> (addr \<times> u32) option" where
  "found r = map_option (\<lambda>r. (mr_addr r, sz_rec r - 1)) r"

lemma hm_locked_context: "hm_locked m hlock f = Some (r, m') \<Longrightarrow> f (hm_context m) = Some (r, hm_context m')"
  by (auto simp: hm_locked_def bind_Some_iff)

lemma hm_locked_ok:
  assumes "hash_map_ready m hlock" "f (hm_context m) = Some (r, c)"
  shows "\<exists>m'. hm_locked m hlock f = Some (r, m') \<and> hm_context m' = c \<and> hash_map_ready m' hlock"
proof -
  obtain hm l1 l2 where "mutex_lock (hm_mutex m) hlock = Some (hm, l1)" "mutex_unlock l1 hm = Some l2" "mutex.ready l2 hlock"
    using assms(1) unfolding hash_map_ready_def by (rule mutex.bracket) blast
  then show ?thesis using assms(2) by (simp add: hm_locked_def hash_map_ready_def)
qed

lemma key_digest_map_hash: "pf_hash c = Some map_hash \<Longrightarrow> key_digest c key = map_hash key"
  by (simp add: key_digest_def)

lemma hash_map_get_rel:
  assumes "hash_map_rel m M" "hash_map_ready m hlock" "key \<noteq> []"
  shows "\<exists>m'. hash_map_get m key hlock = Some (found (M (map_hash key)), m') \<and> hash_map_rel m' M \<and> hash_map_ready m' hlock"
proof -
  obtain bs where bs: "hm.map_rel (hm_context m) bs" "M = mget bs" "pf_hash (hm_context m) = Some map_hash"
    using assms(1) by (auto simp: hash_map_rel_def)
  have "map_get (hm_context m) key = found (M (map_hash key))"
    using hm.map_get_spec [OF bs(1) assms(3)] bs(2,3) by (simp add: found_def key_digest_map_hash)
  then obtain m' where "hash_map_get m key hlock = Some (found (M (map_hash key)), m')" "hm_context m' = hm_context m"
      "hash_map_ready m' hlock"
    using hm_locked_ok [OF assms(2), of "\<lambda>c. Some (map_get c key, c)"] by (auto simp: hash_map_get_def)
  then show ?thesis using bs by (auto simp: hash_map_rel_def)
qed

lemma hash_map_add_rel:
  assumes "hash_map_rel m M" "hash_map_ready m hlock" "hm.has_room (hm_context m)" "key \<noteq> []" "hm.rec_fits sz"
  shows "\<exists>p m'. hash_map_add m key d sz hlock = Some (p, m') \<and> hash_map_ready m' hlock \<and>
    (case M (map_hash key) of
       Some r \<Rightarrow> p = Some (mr_addr r) \<and> hash_map_rel m' M
     | None \<Rightarrow> hash_map_rel m' (stored p (map_hash key) d sz M) \<and>
         (\<exists>u. zalloc (sizeof_map_rec_hdr + (sz + 1)) (udata (hm_context m)) = Some (p, u)))"
proof -
  obtain bs where bs: "hm.map_rel (hm_context m) bs" "M = mget bs" "pf_hash (hm_context m) = Some map_hash"
    using assms(1) by (auto simp: hash_map_rel_def)
  obtain p c bs' where r: "map_add (hm_context m) key d sz = Some (p, c)" "hm.map_rel c bs'" "pf_hash c = Some map_hash"
    "case M (map_hash key) of Some r \<Rightarrow> p = Some (mr_addr r) \<and> mget bs' = M | None \<Rightarrow> mget bs' = stored p (map_hash key) d sz M \<and>
      (\<exists>u. zalloc (sizeof_map_rec_hdr + (sz + 1)) (udata (hm_context m)) = Some (p, u))"
    using hm.map_add_spec [OF bs(1) assms(3-5), of d] bs(2,3) unfolding key_digest_map_hash [OF bs(3)] by auto
  obtain m' where "hash_map_add m key d sz hlock = Some (p, m')" "hm_context m' = c" "hash_map_ready m' hlock"
    using hm_locked_ok [OF assms(2), of "\<lambda>c. map_add c key d sz"] r(1) by (auto simp: hash_map_add_def)
  then show ?thesis using r by (auto simp: hash_map_rel_def split: option.splits)
qed

lemma hash_map_set_rel:
  assumes "hash_map_rel m M" "hash_map_ready m hlock" "hm.has_room (hm_context m)" "key \<noteq> []" "hm.rec_fits sz"
  shows "\<exists>p m'. hash_map_set m key d sz hlock = Some (p, m') \<and> hash_map_ready m' hlock \<and>
    hash_map_rel m' (stored p (map_hash key) d sz (M(map_hash key := None)))"
proof -
  obtain bs where bs: "hm.map_rel (hm_context m) bs" "M = mget bs" "pf_hash (hm_context m) = Some map_hash"
    using assms(1) by (auto simp: hash_map_rel_def)
  obtain p c bs' where r: "map_set (hm_context m) key d sz = Some (p, c)" "hm.map_rel c bs'" "pf_hash c = Some map_hash"
    "mget bs' = stored p (map_hash key) d sz (M(map_hash key := None))"
    using hm.map_set_spec [OF bs(1) assms(3-5), of d] bs(2,3) by (auto simp: key_digest_map_hash)
  obtain m' where "hash_map_set m key d sz hlock = Some (p, m')" "hm_context m' = c" "hash_map_ready m' hlock"
    using hm_locked_ok [OF assms(2), of "\<lambda>c. map_set c key d sz"] r(1) by (auto simp: hash_map_set_def)
  then show ?thesis using r by (auto simp: hash_map_rel_def)
qed

lemma hash_map_del_rel:
  assumes "hash_map_rel m M" "hash_map_ready m hlock" "key \<noteq> []"
  shows "\<exists>m'. hash_map_del m key hlock = Some ((), m') \<and> hash_map_ready m' hlock \<and> hash_map_rel m' (M(map_hash key := None))"
proof -
  obtain bs where bs: "hm.map_rel (hm_context m) bs" "M = mget bs" "pf_hash (hm_context m) = Some map_hash"
    using assms(1) by (auto simp: hash_map_rel_def)
  obtain c bs' where r: "map_del (hm_context m) key = Some ((), c)" "hm.map_rel c bs'" "pf_hash c = Some map_hash"
    "mget bs' = M(map_hash key := None)" using hm.map_del_spec [OF bs(1) assms(3)] bs(2,3) by (auto simp: key_digest_map_hash)
  obtain m' where "hash_map_del m key hlock = Some ((), m')" "hm_context m' = c" "hash_map_ready m' hlock"
    using hm_locked_ok [OF assms(2), of "\<lambda>c. map_del c key"] r(1) by (auto simp: hash_map_del_def)
  then show ?thesis using r by (auto simp: hash_map_rel_def)
qed

lemma sized_room:
  "sized b n m \<Longrightarrow> b < 2 ^ 20 \<Longrightarrow> n < 2 ^ 20 \<Longrightarrow> hm.has_room m"
  "sized b n m' \<Longrightarrow> b < 2 ^ 20 \<Longrightarrow> n < 2 ^ 20 \<Longrightarrow> cm.has_room m'"
  using sized_limits [of b n m] sized_limits [of b n m']
  by (simp_all add: hm.has_room_def hm.can_grow_def cm.has_room_def cm.can_grow_def zone_fits_def)

section \<open>cMap is a map from digests to records\<close>

definition cMap_rel :: "'a cMap \<Rightarrow> (u8 list \<rightharpoonup> 'a map_rec_hdr) \<Rightarrow> bool" where
  "cMap_rel m M \<longleftrightarrow> cm_is_init m \<and> pf_hash (map_cxt m) = Some map_hash \<and>
     (\<exists>bs. cm.map_rel (map_cxt m) bs \<and> M = mget bs)"

definition cMap_ready :: "'a cMap \<Rightarrow> u64 \<Rightarrow> bool" where
  "cMap_ready m hlock \<longleftrightarrow> (case cm_heap_mutex m of None \<Rightarrow> True | Some x \<Rightarrow> cmutex.ready x hlock)"

lemma cm_locked_ok:
  assumes "cMap_ready m hlock" "f (map_cxt m) = Some (r, c)"
  shows "\<exists>m'. cm_locked m hlock f = Some (r, m') \<and> map_cxt m' = c \<and> cm_is_init m' = cm_is_init m \<and> cMap_ready m' hlock"
proof (cases "cm_heap_mutex m")
  case None
  then show ?thesis using assms by (simp add: cm_locked_def cMap_lock_def cMap_unlock_def cMap_ready_def)
next
  case (Some x)
  then have "cmutex.ready x hlock" using assms(1) by (simp add: cMap_ready_def)
  then obtain hm l1 l2 where "cMutex_lock x hlock = Some (hm, l1)" "cMutex_unlock l1 hm = Some l2" "cmutex.ready l2 hlock"
    by (rule cmutex.bracket) blast
  then show ?thesis using assms(2) Some by (simp add: cm_locked_def cMap_lock_def cMap_unlock_def cMap_ready_def)
qed

lemma cMap_get_rel:
  assumes "cMap_rel m M" "cMap_ready m hlock" "key \<noteq> []"
  shows "\<exists>m'. cMap_get m key hlock = Some (found (M (map_hash key)), m') \<and> cMap_rel m' M \<and> cMap_ready m' hlock"
proof -
  obtain bs where bs: "cm.map_rel (map_cxt m) bs" "M = mget bs" "pf_hash (map_cxt m) = Some map_hash" "cm_is_init m"
    using assms(1) by (auto simp: cMap_rel_def)
  have "map_get (map_cxt m) key = found (M (map_hash key))"
    using cm.map_get_spec [OF bs(1) assms(3)] bs(2,3) by (simp add: found_def key_digest_map_hash)
  then obtain m' where "cMap_get m key hlock = Some (found (M (map_hash key)), m')" "map_cxt m' = map_cxt m"
      "cm_is_init m'" "cMap_ready m' hlock"
    using cm_locked_ok [OF assms(2), of "\<lambda>c. Some (map_get c key, c)"] bs(4) by (auto simp: cMap_get_def)
  then show ?thesis using bs by (auto simp: cMap_rel_def)
qed

lemma cMap_add_rel:
  assumes "cMap_rel m M" "cMap_ready m hlock" "cm.has_room (map_cxt m)" "key \<noteq> []" "cm.rec_fits sz"
  shows "\<exists>p m'. cMap_add m key d sz hlock = Some (p, m') \<and> cMap_ready m' hlock \<and>
    map_add (map_cxt m) key d sz = Some (p, map_cxt m') \<and>
    (case M (map_hash key) of
       Some r \<Rightarrow> p = Some (mr_addr r) \<and> cMap_rel m' M
     | None \<Rightarrow> cMap_rel m' (stored p (map_hash key) d sz M))"
proof -
  obtain bs where bs: "cm.map_rel (map_cxt m) bs" "M = mget bs" "pf_hash (map_cxt m) = Some map_hash" "cm_is_init m"
    using assms(1) by (auto simp: cMap_rel_def)
  obtain p c bs' where r: "map_add (map_cxt m) key d sz = Some (p, c)" "cm.map_rel c bs'" "pf_hash c = Some map_hash"
    "case M (map_hash key) of Some r \<Rightarrow> p = Some (mr_addr r) \<and> mget bs' = M | None \<Rightarrow> mget bs' = stored p (map_hash key) d sz M"
    using cm.map_add_spec [OF bs(1) assms(3-5), of d] bs(2,3) unfolding key_digest_map_hash [OF bs(3)]
    by (cases "mget bs (map_hash key)") auto
  obtain m' where "cMap_add m key d sz hlock = Some (p, m')" "map_cxt m' = c" "cm_is_init m'" "cMap_ready m' hlock"
    using cm_locked_ok [OF assms(2), of "\<lambda>c. map_add c key d sz"] r(1) bs(4) by (auto simp: cMap_add_def)
  then show ?thesis using r by (auto simp: cMap_rel_def split: option.splits)
qed

lemma cMap_init_rel:
  fixes m :: "'a cMap"
  assumes "cZoneHeap_ok z" "cap \<noteq> 0" "unat cap < 2 ^ 28"
  shows "\<exists>b m'. cMap_init m cap None (Some z) = Some (b, m') \<and> cm_heap_mutex m' = cm_heap_mutex m \<and>
    (b \<longrightarrow> cMap_rel m' Map.empty \<and> records (map_cxt m') = 0 \<and> capacity (map_cxt m') = cap)"
proof -
  let ?c = "\<lparr>records = 0, collisions = 0, capacity = cap, pf_mem_alloc = Some cMap_alloc,
               pf_mem_free = Some cMap_free, pf_hash = Some map_hash, pp_list = None, udata = Some z\<rparr> ::
               ('a, cZoneHeap option) map_context"
  have sz: "unat (cap * 8) = unat cap * 8" using assms(3) by (simp add: unat_word_ariths)
  then have "cap * 8 \<noteq> 0" using assms(2) by (auto simp: word_unat_eq_iff)
  moreover have "cap * 8 \<le> 0xFFFFF000" using sz assms(3) by (simp add: word_le_nat_alt)
  ultimately have pre: "pf_mem_alloc ?c = Some cMap_alloc" "pf_mem_free ?c = Some cMap_free" "pp_list ?c = None" "cMap_heap_ok (udata ?c)"
    "capacity ?c \<noteq> 0" "list_size_ok (capacity ?c)" "zone_fits (list_size (capacity ?c))"
    using assms sz by (simp_all add: cMap_heap_ok_def list_size_ok_def list_size_def zone_fits_def)
  obtain b c where i: "map_init ?c = Some (b, c)" "pf_hash c = pf_hash ?c" "capacity c = capacity ?c"
    "if b then records c = 0 \<and> (\<exists>bs. cm.map_rel c bs \<and> mget bs = Map.empty) else pp_list c = None \<and> cMap_heap_ok (udata c)"
    using cm.map_init_spec [OF pre] by blast
  moreover from this have "b \<longrightarrow> (\<exists>bs. cm.map_rel c bs \<and> Map.empty = mget bs)" by (metis (no_types))
  ultimately show ?thesis by (auto simp: cMap_init_def cMap_rel_def)
qed

text \<open>An enumeration whose callback deletes nothing.\<close>

lemma hash_map_enm_rel:
  assumes "hash_map_rel m M" "\<And>x n s. fst (cb x n s) \<noteq> MAP_ENUM_DELETE" "card (dom M) \<le> n"
  shows "\<exists>rs. distinct rs \<and> set rs = ran M \<and> hash_map_enm n m cb s hlock = Some (visit cb rs s, m)"
proof -
  let ?c = "hm_context m"
  obtain bs where bs: "hm.map_rel ?c bs" "M = mget bs" using assms(1) by (auto simp: hash_map_rel_def)
  obtain la where la: "pp_list ?c = Some (la, bs)" "distinct (blocks_of la bs)" using bs(1) by (rule hm.map_relE)
  have k: "distinct (map mr_key (concat bs))" and len: "records ?c = of_nat (length (concat bs))" "length (concat bs) < 2 ^ 32"
    using bs(1) by (auto simp: hm.map_rel_def buckets_ok_def)
  have M: "M x = Some r \<longleftrightarrow> r \<in> set (concat bs) \<and> mr_key r = x" for x r using mget_Some_iff [OF k] bs(2) by blast
  have "dom M = mr_key ` set (concat bs)" using M by (auto simp: dom_def)
  then have n: "length (concat bs) \<le> n" using assms(3) distinct_card [OF k] by simp
  have "map_enum n ?c cb s = Some (visit cb (concat bs) s, ?c)"
  proof (cases "records ?c = 0")
    case True
    then have "concat bs = []" using len of_nat_word_eq_0_iff [of "length (concat bs)", where 'a = 32] by simp
    then show ?thesis using True la(1) by (simp add: map_enum_def map_enum_first_def)
  next
    case False
    then show ?thesis using map_enum_visit [OF la(1) _ False assms(2) n] la(2) by (simp add: blocks_of_def)
  qed
  moreover have "ran M = set (concat bs)" using M by (auto simp: ran_def)
  moreover have "distinct (concat bs)" using k by (simp add: distinct_map)
  ultimately show ?thesis by (auto simp: hash_map_enm_def)
qed

section \<open>A map at work\<close>

definition hash_map_1 :: "nat hash_map" where
  "hash_map_1 = the (hash_map_new 0x2000 (zalloc_0 0x1000 409600))"

lemma zone_page_of_1016: "zone_page_of 1016 = Some (Some 11, 1024)"
proof -
  have "align 1016 = 1024" by code_simp
  moreover have "bit_number 1024 = Some 11" using bit_number_unique [of 1024 10] by simp
  ultimately show ?thesis by (simp add: zone_page_of_def ZONE_MAX_ZONES_def)
qed

lemma zalloc_1_alloc_1016: "\<exists>a g. zalloc 1016 zalloc_1 = Some (Some a, g)"
  apply (simp add: zalloc_1_def zg_init_eval malloc_eval zalloc_def zone_alloc_def zone_page_of_1016
      get_chain_def ZONE_MAX_ZONES_def)
  apply (simp add: zg_lock_eval)
  apply (simp add: zone_page_alloc_def zg_lock_eval)
  apply (simp add: zone_page_eval malloc_eval zpage_alloc_def)
  apply (simp add: clear_entry_def entry_seek_clear malloc_eval zpage_alloc_def Let_def)
  apply (simp add: zg_lock_eval)
  done

lemma zone_page_of_41: "zone_page_of 41 = Some (Some 7, 64)"
proof -
  have "align 41 = 64" by code_simp
  moreover have "bit_number 64 = Some 7" using bit_number_unique [of 64 6] by simp
  ultimately show ?thesis by (simp add: zone_page_of_def ZONE_MAX_ZONES_def)
qed

lemma zalloc_1_alloc_twice:
  "\<exists>b. do { (a, g) \<leftarrow> zalloc 1016 zalloc_1; (b, g') \<leftarrow> zalloc 41 g; Some b } = Some (Some b)"
  apply (simp add: zalloc_1_def zg_init_eval malloc_eval zalloc_def zone_alloc_def zone_page_of_1016
      get_chain_def ZONE_MAX_ZONES_def)
  apply (simp add: zg_lock_eval)
  apply (simp add: zone_page_alloc_def zg_lock_eval)
  apply (simp add: zone_page_eval malloc_eval zpage_alloc_def)
  apply (simp add: clear_entry_def entry_seek_clear malloc_eval zpage_alloc_def Let_def)
  apply (simp add: zg_lock_eval)
  apply (simp add: zone_alloc_def zone_page_of_41 get_chain_def ZONE_MAX_ZONES_def malloc_eval zpage_alloc_def)
  apply (simp add: zg_lock_eval)
  apply (simp add: zone_page_alloc_def zg_lock_eval)
  apply (simp add: zone_page_eval malloc_eval zpage_alloc_def)
  apply (simp add: clear_entry_def entry_seek_clear malloc_eval zpage_alloc_def Let_def)
  apply (simp add: zg_lock_eval)
  done

lemma zone_page_of_377: "zone_page_of 377 = Some (Some 10, 512)"
proof -
  have "align 377 = 512" by code_simp
  moreover have "bit_number 512 = Some 10" using bit_number_unique [of 512 9] by simp
  ultimately show ?thesis by (simp add: zone_page_of_def ZONE_MAX_ZONES_def)
qed

lemma zalloc_1_alloc_record:
  "\<exists>b. do { (a, g) \<leftarrow> zalloc 1016 zalloc_1; (b, g') \<leftarrow> zalloc 377 g; Some b } = Some (Some b)"
  apply (simp add: zalloc_1_def zg_init_eval malloc_eval zalloc_def zone_alloc_def zone_page_of_1016
      get_chain_def ZONE_MAX_ZONES_def)
  apply (simp add: zg_lock_eval)
  apply (simp add: zone_page_alloc_def zg_lock_eval)
  apply (simp add: zone_page_eval malloc_eval zpage_alloc_def)
  apply (simp add: clear_entry_def entry_seek_clear malloc_eval zpage_alloc_def Let_def)
  apply (simp add: zg_lock_eval)
  apply (simp add: zone_alloc_def zone_page_of_377 get_chain_def ZONE_MAX_ZONES_def malloc_eval zpage_alloc_def)
  apply (simp add: zg_lock_eval)
  apply (simp add: zone_page_alloc_def zg_lock_eval)
  apply (simp add: zone_page_eval malloc_eval zpage_alloc_def)
  apply (simp add: clear_entry_def entry_seek_clear malloc_eval zpage_alloc_def Let_def)
  apply (simp add: zg_lock_eval)
  done

lemma zinit_zalloc_1: "zinit (zalloc_0 0x1000 409600) = Some (True, zalloc_1)"
  by (simp add: zalloc_1_def zg_init_eval malloc_eval)

definition fresh_map :: "'a hash_map \<Rightarrow> bool" where
  "fresh_map m \<longleftrightarrow> hash_map_rel m Map.empty \<and> hash_map_ready m 0 \<and> hm.has_room (hm_context m) \<and>
     (\<exists>a. zalloc 1016 zalloc_1 = Some (Some a, udata (hm_context m))) \<and> sized 127 0 (hm_context m)"

lemma hash_map_new_fresh: "\<exists>m :: 'a hash_map. hash_map_new 0x2000 (zalloc_0 0x1000 409600) = Some m \<and> fresh_map m"
proof -
  let ?c = "hash_map_context zalloc_1 :: ('a, zalloc_state) map_context"
  have pre: "pf_mem_alloc ?c = Some zalloc" "pf_mem_free ?c = Some zfree" "pp_list ?c = None" "zalloc_ok (udata ?c)"
    "capacity ?c \<noteq> 0" "list_size_ok (capacity ?c)" "zone_fits (list_size (capacity ?c))"
    using zalloc_1_ok by (simp_all add: hash_map_context_def list_size_ok_def list_size_def zone_fits_def)
  obtain b c where i: "map_init ?c = Some (b, c)" "pf_hash c = pf_hash ?c" "capacity c = capacity ?c"
    "if b then records c = 0 \<and> (\<exists>bs. hm.map_rel c bs \<and> mget bs = Map.empty) else pp_list c = None \<and> zalloc_ok (udata c)"
    using hm.map_init_spec [OF pre] by blast
  obtain a g where z: "zalloc 1016 zalloc_1 = Some (Some a, g)" using zalloc_1_alloc_1016 by blast
  then have "b" and g: "udata c = g" using i(1)
    by (auto simp: map_init_def hash_map_context_def list_size_def list_size_ok_def)
  then have c: "records c = 0" "\<exists>bs. hm.map_rel c bs \<and> mget bs = Map.empty" "capacity c = 127" "pf_hash c = Some map_hash"
    using i by (auto simp: hash_map_context_def)
  let ?m = "\<lparr>hm_context = c, hm_mutex = mutex_new 0x2000\<rparr>"
  have "hash_map_new 0x2000 (zalloc_0 0x1000 409600) = Some ?m" using i(1) zinit_zalloc_1 by (simp add: hash_map_new_def)
  moreover have "hash_map_rel ?m Map.empty" unfolding hash_map_rel_def using c(2,4) by force
  moreover have "hash_map_ready ?m 0" by (simp add: hash_map_ready_def mutex.ready_def mutex_ok_def mutex_owner_def mutex_new_def)
  moreover have "hm.has_room c" using c(1,3) by (simp add: hm.has_room_def hm.can_grow_def list_size_def zone_fits_def)
  moreover have "sized 127 0 c" using c(1,3) by (simp add: sized_def)
  ultimately show ?thesis using z g unfolding fresh_map_def by auto
qed

lemma hash_map_1_rel:
  "hash_map_rel hash_map_1 Map.empty" "hash_map_ready hash_map_1 0" "hm.has_room (hm_context hash_map_1)"
  "\<exists>a. zalloc 1016 zalloc_1 = Some (Some a, udata (hm_context hash_map_1))"
  "sized 127 0 (hm_context hash_map_1)"
  using hash_map_new_fresh [where ?'a = nat] by (auto simp: hash_map_1_def fresh_map_def)

lemma hash_map_1_alloc:
  "\<exists>a g. zalloc (sizeof_map_rec_hdr + (8 + 1)) (udata (hm_context hash_map_1)) = Some (Some a, g)"
proof -
  obtain a where a: "zalloc 1016 zalloc_1 = Some (Some a, udata (hm_context hash_map_1))" using hash_map_1_rel(4) by blast
  then show ?thesis using zalloc_1_alloc_twice
    by (auto simp: bind_Some_iff sizeof_map_rec_hdr_def)
qed

lemma rec_fits_8: "hm.rec_fits 8"
  by (simp add: hm.rec_fits_def rec_size_ok_def sizeof_map_rec_hdr_def zone_fits_def)

section \<open>Properties\<close>

text \<open>C6: \<open>hash_map::set\<close> and \<open>hash_map::get\<close>: \<open>set\<close> always returns; on success the record holds the given
  data under the digest of the key in place of what was there, and \<open>get\<close> returns its address and
  size; every other digest keeps its record, also when the table grows.\<close>

theorem hash_map_set_get:
  assumes "hash_map_rel m M" "hash_map_ready m hlock" "hm.has_room (hm_context m)" "key \<noteq> []" "hm.rec_fits sz"
  shows "\<exists>p m1. hash_map_set m key d sz hlock = Some (p, m1) \<and>
    hash_map_rel m1 (stored p (map_hash key) d sz (M(map_hash key := None))) \<and>
    (\<forall>k. k \<noteq> [] \<longrightarrow> (\<exists>m2. hash_map_get m1 k hlock =
       Some (if map_hash k = map_hash key then map_option (\<lambda>a. (a, sz)) p else found (M (map_hash k)), m2)))"
proof -
  obtain p m1 where s: "hash_map_set m key d sz hlock = Some (p, m1)" "hash_map_ready m1 hlock"
    "hash_map_rel m1 (stored p (map_hash key) d sz (M(map_hash key := None)))" using hash_map_set_rel [OF assms] by blast
  have "\<exists>m2. hash_map_get m1 k hlock = Some (if map_hash k = map_hash key then map_option (\<lambda>a. (a, sz)) p else found (M (map_hash k)), m2)"
    if "k \<noteq> []" for k
    using hash_map_get_rel [OF s(3,2) that] by (cases p) (auto simp: stored_def found_def)
  then show ?thesis using s by blast
qed

theorem hash_map_set_get_witness:
  "\<exists>p m1. hash_map_set hash_map_1 [1, 2] 5 8 0 = Some (p, m1) \<and>
    hash_map_rel m1 (stored p (map_hash [1, 2]) 5 8 (Map.empty(map_hash [1, 2] := None))) \<and>
    (\<forall>k. k \<noteq> [] \<longrightarrow> (\<exists>m2. hash_map_get m1 k 0 =
       Some (if map_hash k = map_hash [1, 2] then map_option (\<lambda>a. (a, 8)) p else None, m2)))"
  using hash_map_set_get [OF hash_map_1_rel(1-3) _ rec_fits_8, of "[1, 2]" 5] by (simp add: found_def cong: if_cong split del: if_split)

text \<open>\<open>hash_map::add\<close> never overwrites: a key that has a record gets that record's address and the
  map stays as it is; a new key gets what the allocator answers: a new record at that address, or
  NULL with the map unchanged.\<close>

theorem hash_map_add_keeps:
  assumes "hash_map_rel m M" "hash_map_ready m hlock" "hm.has_room (hm_context m)" "key \<noteq> []" "hm.rec_fits sz"
  shows "\<exists>p m'. hash_map_add m key d sz hlock = Some (p, m') \<and> hash_map_ready m' hlock \<and>
    (case M (map_hash key) of
       Some r \<Rightarrow> p = Some (mr_addr r) \<and> hash_map_rel m' M
     | None \<Rightarrow> hash_map_rel m' (stored p (map_hash key) d sz M) \<and>
         (\<exists>u. zalloc (sizeof_map_rec_hdr + (sz + 1)) (udata (hm_context m)) = Some (p, u)))"
  using hash_map_add_rel [OF assms] .

theorem hash_map_add_keeps_witness:
  "\<exists>a m'. hash_map_add hash_map_1 [1] 5 8 0 = Some (Some a, m') \<and> hash_map_ready m' 0 \<and>
     hash_map_rel m' (stored (Some a) (map_hash [1]) 5 8 Map.empty)"
  using hash_map_add_keeps [OF hash_map_1_rel(1-3) _ rec_fits_8, of "[1]" 5] hash_map_1_alloc by auto

text \<open>C26: \<open>hash_map::del\<close> always returns, and \<open>get\<close> then finds nothing under the digest of the key and
  everything else unchanged.\<close>

theorem hash_map_del_forgets:
  assumes "hash_map_rel m M" "hash_map_ready m hlock" "key \<noteq> []" "k \<noteq> []"
  shows "\<exists>m1 m2. hash_map_del m key hlock = Some ((), m1) \<and>
    hash_map_get m1 k hlock = Some (if map_hash k = map_hash key then None else found (M (map_hash k)), m2)"
proof -
  obtain m1 where "hash_map_del m key hlock = Some ((), m1)" "hash_map_ready m1 hlock" "hash_map_rel m1 (M(map_hash key := None))"
    using hash_map_del_rel [OF assms(1-3)] by blast
  then show ?thesis using hash_map_get_rel [of m1 _ hlock k] assms(4) by (fastforce simp: found_def)
qed

theorem hash_map_del_forgets_witness:
  "\<exists>m1 m2. hash_map_del hash_map_1 [1] 0 = Some ((), m1) \<and>
    hash_map_get m1 [2] 0 = Some (if map_hash [2] = map_hash [1] then None else None, m2)"
  using hash_map_del_forgets [OF hash_map_1_rel(1,2), of "[1]" "[2]"] by (simp add: found_def cong: if_cong split del: if_split)

text \<open>C30: Destroying a map gives back every record and the table, and no block of anybody else.\<close>

theorem hash_map_destroy_releases:
  assumes "hash_map_rel m M" "hash_map_ready m hlock"
  shows "\<exists>m' la bs. pp_list (hm_context m) = Some (la, bs) \<and> hash_map_destroy m hlock = Some ((), m') \<and>
    pp_list (hm_context m') = None \<and> hash_map_ready m' hlock \<and>
    zalloc_live (udata (hm_context m')) = zalloc_live (udata (hm_context m)) |` (- insert la (mr_addr ` ran M))"
proof -
  obtain bs where bs: "hm.map_rel (hm_context m) bs" "M = mget bs" using assms(1) by (auto simp: hash_map_rel_def)
  obtain c where c: "map_destroy (hm_context m) = Some ((), c)" "pp_list c = None"
    "zalloc_live (udata c) = hm.others (hm_context m)" using hm.map_destroy_spec [OF bs(1)] by blast
  obtain la where la: "pp_list (hm_context m) = Some (la, bs)" using bs(1) by (rule hm.map_relE)
  have "distinct (map mr_key (concat bs))" using bs(1) by (simp add: hm.map_rel_def buckets_ok_def)
  then have "ran M = set (concat bs)" using mget_Some_iff unfolding bs(2) ran_def by blast
  then have "hm.others (hm_context m) = zalloc_live (udata (hm_context m)) |` (- insert la (mr_addr ` ran M))"
    by (simp add: hm.others_blocks [OF la] blocks_of_def)
  then show ?thesis using hm_locked_ok [OF assms(2), of map_destroy] c la by (auto simp: hash_map_destroy_def)
qed

theorem hash_map_destroy_releases_witness:
  "\<exists>m' la bs. pp_list (hm_context hash_map_1) = Some (la, bs) \<and> hash_map_destroy hash_map_1 0 = Some ((), m') \<and>
    pp_list (hm_context m') = None \<and> hash_map_ready m' 0 \<and>
    zalloc_live (udata (hm_context m')) = zalloc_live (udata (hm_context hash_map_1)) |`
      (- insert la (mr_addr ` ran (Map.empty :: u8 list \<rightharpoonup> nat map_rec_hdr)))"
  by (rule hash_map_destroy_releases [OF hash_map_1_rel(1,2)])

text \<open>C29: \<open>hash_map::enm\<close> ends, and calls a callback that deletes nothing on every record exactly once,
  until the callback breaks.\<close>

theorem hash_map_enm_visits:
  assumes "hash_map_rel m M" "\<And>x n s. fst (cb x n s) \<noteq> MAP_ENUM_DELETE" "card (dom M) \<le> n"
  shows "\<exists>rs. distinct rs \<and> set rs = ran M \<and> hash_map_enm n m cb s hlock = Some (visit cb rs s, m)"
  using assms by (rule hash_map_enm_rel)

theorem hash_map_enm_visits_witness:
  "\<exists>rs. distinct rs \<and> set rs = ran (Map.empty :: u8 list \<rightharpoonup> nat map_rec_hdr) \<and>
     hash_map_enm 3 hash_map_1 (\<lambda>x n s. (MAP_ENUM_CONTINUE, x + s)) 0 0 =
       Some (visit (\<lambda>x n s. (MAP_ENUM_CONTINUE, x + s)) rs 0, hash_map_1)"
  by (rule hash_map_enm_visits [OF hash_map_1_rel(1)]) simp_all

text \<open>Growing the table (\<open>remap\<close>) loses nothing: it returns, every digest keeps its record, no
  block outside the table is touched, and the capacity becomes 2n + 1 unless there is no memory.\<close>

theorem hash_map_remap_keeps:
  assumes "hash_map_rel m M" "hm.has_room (hm_context m)"
  shows "\<exists>b c. remap (hm_context m) = Some (b, c) \<and> hash_map_rel (m\<lparr>hm_context := c\<rparr>) M \<and>
    hm.others c = hm.others (hm_context m) \<and> records c = records (hm_context m) \<and>
    capacity c = (if b then capacity (hm_context m) * 2 + 1 else capacity (hm_context m))"
proof -
  obtain bs where bs: "hm.map_rel (hm_context m) bs" "M = mget bs" "pf_hash (hm_context m) = Some map_hash"
    using assms(1) by (auto simp: hash_map_rel_def)
  have "hm.can_grow (capacity (hm_context m))" using assms(2) by (simp add: hm.has_room_def)
  from hm.remap_spec [OF bs(1) this] show ?thesis using bs(2,3) by (fastforce simp: hash_map_rel_def)
qed

theorem hash_map_remap_keeps_witness:
  "\<exists>b c. remap (hm_context hash_map_1) = Some (b, c) \<and> hash_map_rel (hash_map_1\<lparr>hm_context := c\<rparr>) Map.empty \<and>
    hm.others c = hm.others (hm_context hash_map_1) \<and> records c = records (hm_context hash_map_1) \<and>
    capacity c = (if b then capacity (hm_context hash_map_1) * 2 + 1 else capacity (hm_context hash_map_1))"
  by (rule hash_map_remap_keeps [OF hash_map_1_rel(1,3)])

text \<open>A callback of \<open>hash_map::enm\<close> that asks to delete every record is called only once when the
  first record is alone in its chain: that record goes, all others stay.\<close>

theorem hash_map_enm_delete_ends:
  assumes "hash_map_rel m M" "pp_list (hm_context m) = Some (la, bs)" "seek_bucket 0 bs = (i, [r])"
  shows "\<exists>m'. hash_map_enm (Suc n) m (\<lambda>x sz k. (MAP_ENUM_DELETE, k + 1)) 0 hlock = Some (1 :: nat, m') \<and>
    hash_map_rel m' (M(mr_key r := None))"
proof -
  obtain bs' where bs: "hm.map_rel (hm_context m) bs'" "M = mget bs'" "pf_hash (hm_context m) = Some map_hash"
    using assms(1) by (auto simp: hash_map_rel_def)
  moreover from this have "bs' = bs" using assms(2) by (auto elim: hm.map_relE)
  ultimately have rel: "hm.map_rel (hm_context m) bs" "M = mget bs" by simp_all
  obtain c bs2 where c: "map_enum (Suc n) (hm_context m) (\<lambda>x sz k. (MAP_ENUM_DELETE, k + 1)) 0 = Some (0 + 1 :: nat, c)"
    "hm.map_rel c bs2" "mget bs2 = M(mr_key r := None)" "pf_hash c = Some map_hash"
    using hm.map_enum_delete_ends [OF rel(1) assms(3), of n "\<lambda>x sz k. k + 1" "0 :: nat"] rel(2) bs(3) by auto
  then show ?thesis by (auto simp: hash_map_enm_def hash_map_rel_def)
qed

theorem hash_map_enm_delete_ends_witness:
  "\<exists>m r m'. hash_map_rel m [map_hash [1] \<mapsto> r] \<and>
     hash_map_enm 1 m (\<lambda>x sz k. (MAP_ENUM_DELETE, k + 1)) 0 0 = Some (1 :: nat, m') \<and>
     hash_map_rel (m' :: nat hash_map) ([map_hash [1] \<mapsto> r](mr_key r := None))"
proof -
  obtain a and m :: "nat hash_map" where "hash_map_rel m (stored (Some a) (map_hash [1]) 5 8 Map.empty)"
    using hash_map_add_rel [OF hash_map_1_rel(1-3) _ rec_fits_8, of "[1]" 5] hash_map_1_alloc by auto
  then obtain r where m: "hash_map_rel m [map_hash [1] \<mapsto> r]" by (auto simp: stored_def)
  then obtain bs where bs: "hm.map_rel (hm_context m) bs" "[map_hash [1] \<mapsto> r] = mget bs" by (auto simp: hash_map_rel_def)
  then obtain la where la: "pp_list (hm_context m) = Some (la, bs)" by (auto elim: hm.map_relE)
  have k: "distinct (map mr_key (concat bs))" using bs(1) by (simp add: hm.map_rel_def buckets_ok_def)
  have iff: "([map_hash [1] \<mapsto> r] d = Some x) = (x \<in> set (concat bs) \<and> mr_key x = d)" for d x
    using mget_Some_iff [OF k] unfolding bs(2) .
  have "r \<in> set (concat bs)" using iff [of "map_hash [1]" r] by simp
  moreover have "x = r" if "x \<in> set (concat bs)" for x using iff [of "mr_key x" x] that by (simp split: if_splits)
  ultimately have "set (concat bs) = {r}" by blast
  moreover have "distinct (concat bs)" using k by (simp add: distinct_map)
  ultimately have "length (concat bs) = 1" by (metis distinct_card is_singletonI is_singleton_altdef)
  then have c: "concat bs = [r]" using \<open>set (concat bs) = {r}\<close> by (cases "concat bs") auto
  obtain i b where s: "seek_bucket 0 bs = (i, b)" by (cases "seek_bucket 0 bs")
  have "b = [r]" using seek_bucket_spec [OF s] c by (cases b) (auto split: if_splits)
  then show ?thesis using hash_map_enm_delete_ends [OF m la, of i r 0 0] s m by auto
qed

end
