(* ===== verification/Mime.thy ===== *)
theory Mime
  imports Maps "HOL-Library.Sublist"
begin

text \<open>
  The MIME types of the web server: gatn/libgatn/mime_resolver.cpp. The table of the source, in its order;
  the resolver fills a map object with it, and without a map it searches the table.
\<close>

declare set_concat [simp del] mset_concat [simp del] concat_eq_Nil_conv [simp del]

section \<open>The table\<close>

type_synonym mime = "string \<times> string"

definition mime_map_1 :: "mime list" where
  "mime_map_1 =
    [(''.323'', ''text/h323''), (''.3g2'', ''video/3gpp2''), (''.3gp'', ''video/3gpp''),
     (''.3gp2'', ''video/3gpp2''), (''.3gpp'', ''video/3gpp''), (''.7z'', ''application/x-7z-compressed''),
     (''.aa'', ''audio/audible''), (''.AAC'', ''audio/aac''), (''.aaf'', ''application/octet-stream''),
     (''.aax'', ''audio/vnd.audible.aax''), (''.ac'', ''application/pkix-attr-cert''),
     (''.ac3'', ''audio/ac3''), (''.aca'', ''application/octet-stream''),
     (''.accda'', ''application/msaccess.addin''), (''.accdb'', ''application/msaccess''),
     (''.accdc'', ''application/msaccess.cab''), (''.accde'', ''application/msaccess''),
     (''.accdr'', ''application/msaccess.runtime''), (''.accdt'', ''application/msaccess''),
     (''.accdw'', ''application/msaccess.webapplication''), (''.accft'', ''application/msaccess.ftemplate''),
     (''.acx'', ''application/internet-property-stream''), (''.AddIn'', ''text/xml''),
     (''.ade'', ''application/msaccess''), (''.adobebridge'', ''application/x-bridge-url''),
     (''.adp'', ''application/msaccess''), (''.ADT'', ''audio/vnd.dlna.adts''), (''.ADTS'', ''audio/aac''),
     (''.aep'', ''application/vnd.audiograph''), (''.afm'', ''application/octet-stream''),
     (''.ai'', ''application/postscript''), (''.aif'', ''audio/x-aiff''), (''.aifc'', ''audio/aiff''),
     (''.aiff'', ''audio/aiff''), (''.air'', ''application/vnd.adobe.air-application-installer-package+zip''),
     (''.amc'', ''application/x-mpeg''), (''.application'', ''application/x-ms-application''),
     (''.art'', ''image/x-jg''), (''.asa'', ''application/xml''), (''.asax'', ''application/xml''),
     (''.ascx'', ''application/xml''), (''.asd'', ''application/octet-stream''), (''.asf'', ''video/x-ms-asf''),
     (''.ashx'', ''application/xml''), (''.asi'', ''application/octet-stream''), (''.asm'', ''text/plain''),
     (''.asmx'', ''application/xml''), (''.aspx'', ''application/xml''), (''.asr'', ''video/x-ms-asf''),
     (''.asx'', ''video/x-ms-asf''), (''.atom'', ''application/atom+xml''), (''.au'', ''audio/basic''),
     (''.avi'', ''video/x-msvideo''), (''.axs'', ''application/olescript''), (''.bas'', ''text/plain''),
     (''.bcpio'', ''application/x-bcpio''), (''.bin'', ''application/octet-stream''), (''.bmp'', ''image/bmp''),
     (''.bz'', ''application/x-bzip''), (''.bz2'', ''application/x-bzip2''), (''.c'', ''text/x-c''),
     (''.cab'', ''application/octet-stream''), (''.caf'', ''audio/x-caf''),
     (''.calx'', ''application/vnd.ms-office.calx''), (''.cat'', ''application/vnd.ms-pki.seccat''),
     (''.cc'', ''text/x-c''), (''.cd'', ''text/plain''), (''.cdda'', ''audio/aiff''),
     (''.cdf'', ''application/x-cdf''), (''.cer'', ''application/x-x509-ca-cert''),
     (''.chm'', ''application/octet-stream''), (''.class'', ''application/x-java-applet''),
     (''.clp'', ''application/x-msclip''), (''.cmx'', ''image/x-cmx''), (''.cnf'', ''text/plain''),
     (''.cod'', ''image/cis-cod''), (''.config'', ''application/xml''), (''.contact'', ''text/x-ms-contact''),
     (''.coverage'', ''application/xml''), (''.cpio'', ''application/x-cpio''), (''.cpp'', ''text/x-c''),
     (''.crd'', ''application/x-mscardfile''), (''.crl'', ''application/pkix-crl''),
     (''.crt'', ''application/x-x509-ca-cert''), (''.cs'', ''text/plain''), (''.csdproj'', ''text/plain''),
     (''.csh'', ''application/x-csh''), (''.csproj'', ''text/plain''), (''.css'', ''text/css''),
     (''.csv'', ''text/csv''), (''.cur'', ''application/octet-stream''), (''.cxx'', ''text/plain''),
     (''.dat'', ''application/octet-stream''), (''.datasource'', ''application/xml''),
     (''.dbproj'', ''text/plain''), (''.dcr'', ''application/x-director''), (''.def'', ''text/plain''),
     (''.deploy'', ''application/octet-stream''), (''.der'', ''application/x-x509-ca-cert''),
     (''.dgml'', ''application/xml''), (''.dib'', ''image/bmp''), (''.dif'', ''video/x-dv''),
     (''.dir'', ''application/x-director''), (''.disco'', ''text/xml''),
     (''.dll'', ''application/x-msdownload''), (''.dll.config'', ''text/xml''), (''.dlm'', ''text/dlm''),
     (''.doc'', ''application/msword''), (''.docm'', ''application/vnd.ms-word.document.macroEnabled.12''),
     (''.docx'', ''application/vnd.openxmlformats-officedocument.wordprocessingml.document''),
     (''.dot'', ''application/msword''), (''.dotm'', ''application/vnd.ms-word.template.macroEnabled.12''),
     (''.dotx'', ''application/vnd.openxmlformats-officedocument.wordprocessingml.template''),
     (''.dsp'', ''application/octet-stream''), (''.dsw'', ''text/plain''), (''.dtd'', ''text/xml''),
     (''.dtsConfig'', ''text/xml''), (''.dv'', ''video/x-dv''), (''.dvi'', ''application/x-dvi''),
     (''.dwf'', ''drawing/x-dwf''), (''.dwp'', ''application/octet-stream''),
     (''.dxr'', ''application/x-director''), (''.eml'', ''message/rfc822''),
     (''.emz'', ''application/octet-stream''), (''.eot'', ''application/octet-stream''),
     (''.eps'', ''application/postscript''), (''.etl'', ''application/etl''), (''.etx'', ''text/x-setext''),
     (''.evy'', ''application/envoy''), (''.exe'', ''application/octet-stream''),
     (''.exe.config'', ''text/xml''), (''.fdf'', ''application/vnd.fdf''), (''.fif'', ''application/fractals''),
     (''.filters'', ''Application/xml''), (''.fla'', ''application/octet-stream''),
     (''.flr'', ''x-world/x-vrml''), (''.flv'', ''video/x-flv''),
     (''.fsscript'', ''application/fsharp-script''), (''.fsx'', ''application/fsharp-script''),
     (''.generictest'', ''application/xml''), (''.gif'', ''image/gif''), (''.group'', ''text/x-ms-group''),
     (''.gsm'', ''audio/x-gsm''), (''.gtar'', ''application/x-gtar''), (''.gz'', ''application/x-gzip''),
     (''.h'', ''text/plain''), (''.hdf'', ''application/x-hdf''), (''.hdml'', ''text/x-hdml''),
     (''.hhc'', ''application/x-oleobject''), (''.hhk'', ''application/octet-stream'')]"

definition mime_map_2 :: "mime list" where
  "mime_map_2 =
    [(''.hhp'', ''application/octet-stream''), (''.hlp'', ''application/winhlp''), (''.hpp'', ''text/plain''),
     (''.hqx'', ''application/mac-binhex40''), (''.hta'', ''application/hta''),
     (''.htc'', ''text/x-component''), (''.htm'', ''text/html''), (''.html'', ''text/html''),
     (''.htt'', ''text/webviewhtml''), (''.hxa'', ''application/xml''), (''.hxc'', ''application/xml''),
     (''.hxd'', ''application/octet-stream''), (''.hxe'', ''application/xml''), (''.hxf'', ''application/xml''),
     (''.hxh'', ''application/octet-stream''), (''.hxi'', ''application/octet-stream''),
     (''.hxk'', ''application/xml''), (''.hxq'', ''application/octet-stream''),
     (''.hxr'', ''application/octet-stream''), (''.hxs'', ''application/octet-stream''),
     (''.hxt'', ''text/html''), (''.hxv'', ''application/xml''), (''.hxw'', ''application/octet-stream''),
     (''.hxx'', ''text/plain''), (''.i'', ''text/plain''), (''.ico'', ''image/x-icon''),
     (''.ics'', ''application/octet-stream''), (''.idl'', ''text/plain''), (''.ief'', ''image/ief''),
     (''.iii'', ''application/x-iphone''), (''.inc'', ''text/plain''), (''.inf'', ''application/octet-stream''),
     (''.inl'', ''text/plain''), (''.ins'', ''application/x-internet-signup''),
     (''.ip'', ''application/x-ip2''), (''.ipa'', ''application/x-itunes-ipa''),
     (''.ipg'', ''application/x-itunes-ipg''), (''.ipproj'', ''text/plain''),
     (''.ipsw'', ''application/x-itunes-ipsw''), (''.iqy'', ''text/x-ms-iqy''),
     (''.isp'', ''application/x-internet-signup''), (''.ite'', ''application/x-itunes-ite''),
     (''.itlp'', ''application/x-itunes-itlp''), (''.itms'', ''application/x-itunes-itms''),
     (''.itpc'', ''application/x-itunes-itpc''), (''.IVF'', ''video/x-ivf''),
     (''.jar'', ''application/java-archive''), (''.java'', ''text/x-java-source,java''),
     (''.jck'', ''application/liquidmotion''), (''.jcz'', ''application/liquidmotion''),
     (''.jfif'', ''image/pjpeg''), (''.jnlp'', ''application/x-java-jnlp-file''),
     (''.jpb'', ''application/octet-stream''), (''.jpe'', ''image/jpeg''), (''.jpeg'', ''image/jpeg''),
     (''.jpg'', ''image/jpeg''), (''.js'', ''application/x-javascript''), (''.json'', ''application/json''),
     (''.jsx'', ''text/jscript''), (''.jsxbin'', ''text/plain''), (''.latex'', ''application/x-latex''),
     (''.library-ms'', ''application/windows-library+xml''), (''.lit'', ''application/x-ms-reader''),
     (''.loadtest'', ''application/xml''), (''.lpk'', ''application/octet-stream''),
     (''.lsf'', ''video/x-la-asf''), (''.lst'', ''text/plain''), (''.lsx'', ''video/x-la-asf''),
     (''.lzh'', ''application/octet-stream''), (''.m13'', ''application/x-msmediaview''),
     (''.m14'', ''application/x-msmediaview''), (''.m1v'', ''video/mpeg''),
     (''.m2t'', ''video/vnd.dlna.mpeg-tts''), (''.m2ts'', ''video/vnd.dlna.mpeg-tts''),
     (''.m2v'', ''video/mpeg''), (''.m3u'', ''audio/x-mpegurl''), (''.m3u8'', ''audio/x-mpegurl''),
     (''.m4a'', ''audio/m4a''), (''.m4b'', ''audio/m4b''), (''.m4p'', ''audio/m4p''),
     (''.m4r'', ''audio/x-m4r''), (''.m4v'', ''video/x-m4v''), (''.mac'', ''image/x-macpaint''),
     (''.mak'', ''text/plain''), (''.man'', ''application/x-troff-man''),
     (''.manifest'', ''application/x-ms-manifest''), (''.map'', ''text/plain''),
     (''.master'', ''application/xml''), (''.mda'', ''application/msaccess''),
     (''.mdb'', ''application/x-msaccess''), (''.mde'', ''application/msaccess''),
     (''.mdp'', ''application/octet-stream''), (''.me'', ''application/x-troff-me''),
     (''.mfp'', ''application/x-shockwave-flash''), (''.mht'', ''message/rfc822''),
     (''.mhtml'', ''message/rfc822''), (''.mid'', ''audio/mid''), (''.midi'', ''audio/mid''),
     (''.mix'', ''application/octet-stream''), (''.mk'', ''text/plain''), (''.mmf'', ''application/x-smaf''),
     (''.mno'', ''text/xml''), (''.mny'', ''application/x-msmoney''), (''.mod'', ''video/mpeg''),
     (''.mov'', ''video/quicktime''), (''.movie'', ''video/x-sgi-movie''), (''.mp2'', ''video/mpeg''),
     (''.mp2v'', ''video/mpeg''), (''.mp3'', ''audio/mpeg''), (''.mp4'', ''video/mp4''),
     (''.mp4v'', ''video/mp4''), (''.mpa'', ''video/mpeg''), (''.mpe'', ''video/mpeg''),
     (''.mpeg'', ''video/mpeg''), (''.mpf'', ''application/vnd.ms-mediapackage''), (''.mpg'', ''video/mpeg''),
     (''.mpp'', ''application/vnd.ms-project''), (''.mpv2'', ''video/mpeg''), (''.mqv'', ''video/quicktime''),
     (''.ms'', ''application/x-troff-ms''), (''.msi'', ''application/octet-stream''),
     (''.mso'', ''application/octet-stream''), (''.mts'', ''video/vnd.dlna.mpeg-tts''),
     (''.mtx'', ''application/xml''), (''.mvb'', ''application/x-msmediaview''),
     (''.mvc'', ''application/x-miva-compiled''), (''.mxp'', ''application/x-mmxp''),
     (''.nc'', ''application/x-netcdf''), (''.nsc'', ''video/x-ms-asf''), (''.nws'', ''message/rfc822''),
     (''.ocx'', ''application/octet-stream''), (''.oda'', ''application/oda''), (''.odc'', ''text/x-ms-odc''),
     (''.odh'', ''text/plain''), (''.odl'', ''text/plain''),
     (''.odp'', ''application/vnd.oasis.opendocument.presentation''), (''.ods'', ''application/oleobject''),
     (''.odt'', ''application/vnd.oasis.opendocument.text''), (''.one'', ''application/onenote''),
     (''.onea'', ''application/onenote''), (''.onepkg'', ''application/onenote''),
     (''.onetmp'', ''application/onenote''), (''.onetoc'', ''application/onenote''),
     (''.onetoc2'', ''application/onenote''), (''.orderedtest'', ''application/xml''),
     (''.osdx'', ''application/opensearchdescription+xml''), (''.p10'', ''application/pkcs10''),
     (''.p12'', ''application/x-pkcs12''), (''.p7b'', ''application/x-pkcs7-certificates''),
     (''.p7c'', ''application/pkcs7-mime'')]"

definition mime_map_3 :: "mime list" where
  "mime_map_3 =
    [(''.p7m'', ''application/pkcs7-mime''), (''.p7r'', ''application/x-pkcs7-certreqresp''),
     (''.p7s'', ''application/pkcs7-signature''), (''.pbm'', ''image/x-portable-bitmap''),
     (''.pcast'', ''application/x-podcast''), (''.pct'', ''image/pict''),
     (''.pcx'', ''application/octet-stream''), (''.pcz'', ''application/octet-stream''),
     (''.pdf'', ''application/pdf''), (''.pfb'', ''application/octet-stream''),
     (''.pfm'', ''application/octet-stream''), (''.pfx'', ''application/x-pkcs12''),
     (''.pgm'', ''image/x-portable-graymap''), (''.pic'', ''image/pict''), (''.pict'', ''image/pict''),
     (''.pkgdef'', ''text/plain''), (''.pkgundef'', ''text/plain''), (''.pko'', ''application/vnd.ms-pki.pko''),
     (''.pls'', ''audio/scpls''), (''.pma'', ''application/x-perfmon''), (''.pmc'', ''application/x-perfmon''),
     (''.pml'', ''application/x-perfmon''), (''.pmr'', ''application/x-perfmon''),
     (''.pmw'', ''application/x-perfmon''), (''.png'', ''image/png''), (''.pnm'', ''image/x-portable-anymap''),
     (''.pnt'', ''image/x-macpaint''), (''.pntg'', ''image/x-macpaint''), (''.pnz'', ''image/png''),
     (''.pot'', ''application/vnd.ms-powerpoint''),
     (''.potm'', ''application/vnd.ms-powerpoint.template.macroEnabled.12''),
     (''.potx'', ''application/vnd.openxmlformats-officedocument.presentationml.template''),
     (''.ppa'', ''application/vnd.ms-powerpoint''),
     (''.ppam'', ''application/vnd.ms-powerpoint.addin.macroEnabled.12''),
     (''.ppm'', ''image/x-portable-pixmap''), (''.pps'', ''application/vnd.ms-powerpoint''),
     (''.ppsm'', ''application/vnd.ms-powerpoint.slideshow.macroEnabled.12''),
     (''.ppsx'', ''application/vnd.openxmlformats-officedocument.presentationml.slideshow''),
     (''.ppt'', ''application/vnd.ms-powerpoint''),
     (''.pptm'', ''application/vnd.ms-powerpoint.presentation.macroEnabled.12''),
     (''.pptx'', ''application/vnd.openxmlformats-officedocument.presentationml.presentation''),
     (''.prf'', ''application/pics-rules''), (''.prm'', ''application/octet-stream''),
     (''.prx'', ''application/octet-stream''), (''.ps'', ''application/postscript''),
     (''.psc1'', ''application/PowerShell''), (''.psd'', ''application/octet-stream''),
     (''.psess'', ''application/xml''), (''.psm'', ''application/octet-stream''),
     (''.psp'', ''application/octet-stream''), (''.pub'', ''application/x-mspublisher''),
     (''.pwz'', ''application/vnd.ms-powerpoint''), (''.qht'', ''text/x-html-insertion''),
     (''.qhtm'', ''text/x-html-insertion''), (''.qt'', ''video/quicktime''), (''.qti'', ''image/x-quicktime''),
     (''.qtif'', ''image/x-quicktime''), (''.qtl'', ''application/x-quicktimeplayer''),
     (''.qxd'', ''application/octet-stream''), (''.ra'', ''audio/x-pn-realaudio''),
     (''.ram'', ''audio/x-pn-realaudio''), (''.rar'', ''application/octet-stream''),
     (''.ras'', ''image/x-cmu-raster''), (''.rat'', ''application/rat-file''), (''.rc'', ''text/plain''),
     (''.rc2'', ''text/plain''), (''.rct'', ''text/plain''), (''.rdlc'', ''application/xml''),
     (''.resx'', ''application/xml''), (''.rf'', ''image/vnd.rn-realflash''), (''.rgb'', ''image/x-rgb''),
     (''.rgs'', ''text/plain''), (''.rm'', ''application/vnd.rn-realmedia''), (''.rmi'', ''audio/mid''),
     (''.rmp'', ''application/vnd.rn-rn_music_package''), (''.roff'', ''application/x-troff''),
     (''.rpm'', ''audio/x-pn-realaudio-plugin''), (''.rqy'', ''text/x-ms-rqy''),
     (''.rtf'', ''application/rtf''), (''.rtx'', ''text/richtext''), (''.ruleset'', ''application/xml''),
     (''.s'', ''text/x-asm''), (''.swi'', ''application/vnd.aristanetworks.swi''),
     (''.safariextz'', ''application/x-safari-safariextz''), (''.scd'', ''application/x-msschedule''),
     (''.sct'', ''text/scriptlet''), (''.sd2'', ''audio/x-sd2''), (''.sdp'', ''application/sdp''),
     (''.sea'', ''application/octet-stream''),
     (''.searchConnector-ms'', ''application/windows-search-connector+xml''),
     (''.setpay'', ''application/set-payment-initiation''),
     (''.setreg'', ''application/set-registration-initiation''), (''.settings'', ''application/xml''),
     (''.sgimb'', ''application/x-sgimb''), (''.sgml'', ''text/sgml''), (''.sh'', ''application/x-sh''),
     (''.shar'', ''application/x-shar''), (''.shtml'', ''text/html''), (''.sit'', ''application/x-stuffit''),
     (''.sitemap'', ''application/xml''), (''.skin'', ''application/xml''),
     (''.sldm'', ''application/vnd.ms-powerpoint.slide.macroEnabled.12''),
     (''.sldx'', ''application/vnd.openxmlformats-officedocument.presentationml.slide''),
     (''.slk'', ''application/vnd.ms-excel''), (''.sln'', ''text/plain''),
     (''.slupkg-ms'', ''application/x-ms-license''), (''.smd'', ''audio/x-smd''),
     (''.smi'', ''application/octet-stream''), (''.smx'', ''audio/x-smd''), (''.smz'', ''audio/x-smd''),
     (''.snd'', ''audio/basic''), (''.snippet'', ''application/xml''), (''.snp'', ''application/octet-stream''),
     (''.sol'', ''text/plain''), (''.sor'', ''text/plain''), (''.spc'', ''application/x-pkcs7-certificates''),
     (''.spl'', ''application/futuresplash''), (''.src'', ''application/x-wais-source''),
     (''.srf'', ''text/plain''), (''.SSISDeploymentManifest'', ''text/xml''),
     (''.ssm'', ''application/streamingmedia''), (''.sst'', ''application/vnd.ms-pki.certstore''),
     (''.stl'', ''application/vnd.ms-pki.stl''), (''.sv4cpio'', ''application/x-sv4cpio''),
     (''.sv4crc'', ''application/x-sv4crc''), (''.svc'', ''application/xml''),
     (''.swf'', ''application/x-shockwave-flash''), (''.t'', ''application/x-troff''),
     (''.tar'', ''application/x-tar''), (''.tcl'', ''application/x-tcl''),
     (''.testrunconfig'', ''application/xml''), (''.testsettings'', ''application/xml''),
     (''.tex'', ''application/x-tex''), (''.texi'', ''application/x-texinfo''),
     (''.texinfo'', ''application/x-texinfo''), (''.tgz'', ''application/x-compressed''),
     (''.thmx'', ''application/vnd.ms-officetheme''), (''.thn'', ''application/octet-stream''),
     (''.tif'', ''image/tiff''), (''.tiff'', ''image/tiff''), (''.tlh'', ''text/plain''),
     (''.tli'', ''text/plain''), (''.toc'', ''application/octet-stream''), (''.tr'', ''application/x-troff''),
     (''.trm'', ''application/x-msterminal''), (''.trx'', ''application/xml''),
     (''.ts'', ''video/vnd.dlna.mpeg-tts''), (''.tsv'', ''text/tab-separated-values''),
     (''.ttf'', ''application/octet-stream''), (''.tts'', ''video/vnd.dlna.mpeg-tts'')]"

definition mime_map_4 :: "mime list" where
  "mime_map_4 =
    [(''.txt'', ''text/plain''), (''.u32'', ''application/octet-stream''), (''.uls'', ''text/iuls''),
     (''.user'', ''text/plain''), (''.ustar'', ''application/x-ustar''), (''.vb'', ''text/plain''),
     (''.vbdproj'', ''text/plain''), (''.vbk'', ''video/mpeg''), (''.vbproj'', ''text/plain''),
     (''.vbs'', ''text/vbscript''), (''.vcf'', ''text/x-vcard''), (''.vcproj'', ''Application/xml''),
     (''.vcs'', ''text/plain''), (''.vcxproj'', ''Application/xml''), (''.vddproj'', ''text/plain''),
     (''.vdp'', ''text/plain''), (''.vdproj'', ''text/plain''), (''.vdx'', ''application/vnd.ms-visio.viewer''),
     (''.vml'', ''text/xml''), (''.vscontent'', ''application/xml''), (''.vsct'', ''text/xml''),
     (''.vsd'', ''application/vnd.visio''), (''.vsi'', ''application/ms-vsi''),
     (''.vsix'', ''application/vsix''), (''.vsixlangpack'', ''text/xml''), (''.vsixmanifest'', ''text/xml''),
     (''.vsmdi'', ''application/xml''), (''.vspscc'', ''text/plain''), (''.vss'', ''application/vnd.visio''),
     (''.vsscc'', ''text/plain''), (''.vssettings'', ''text/xml''), (''.vssscc'', ''text/plain''),
     (''.vst'', ''application/vnd.visio''), (''.vstemplate'', ''text/xml''),
     (''.vsto'', ''application/x-ms-vsto''), (''.vsw'', ''application/vnd.visio''),
     (''.vsx'', ''application/vnd.visio''), (''.vtx'', ''application/vnd.visio''), (''.wav'', ''audio/wav''),
     (''.wave'', ''audio/wav''), (''.wax'', ''audio/x-ms-wax''), (''.wbk'', ''application/msword''),
     (''.wbmp'', ''image/vnd.wap.wbmp''), (''.wcm'', ''application/vnd.ms-works''),
     (''.wdb'', ''application/vnd.ms-works''), (''.wdp'', ''image/vnd.ms-photo''),
     (''.webarchive'', ''application/x-safari-webarchive''), (''.webtest'', ''application/xml''),
     (''.wiq'', ''application/xml''), (''.wiz'', ''application/msword''),
     (''.wks'', ''application/vnd.ms-works''), (''.WLMP'', ''application/wlmoviemaker''),
     (''.wlpginstall'', ''application/x-wlpg-detect''), (''.wlpginstall3'', ''application/x-wlpg3-detect''),
     (''.wm'', ''video/x-ms-wm''), (''.wma'', ''audio/x-ms-wma''), (''.wmd'', ''application/x-ms-wmd''),
     (''.wmf'', ''application/x-msmetafile''), (''.wml'', ''text/vnd.wap.wml''),
     (''.wmlc'', ''application/vnd.wap.wmlc''), (''.wmls'', ''text/vnd.wap.wmlscript''),
     (''.wmlsc'', ''application/vnd.wap.wmlscriptc''), (''.wmp'', ''video/x-ms-wmp''),
     (''.wmv'', ''video/x-ms-wmv''), (''.wmx'', ''video/x-ms-wmx''), (''.wmz'', ''application/x-ms-wmz''),
     (''.wpl'', ''application/vnd.ms-wpl''), (''.wps'', ''application/vnd.ms-works''),
     (''.wri'', ''application/x-mswrite''), (''.wrl'', ''x-world/x-vrml''), (''.wrz'', ''x-world/x-vrml''),
     (''.wsc'', ''text/scriptlet''), (''.wsdl'', ''text/xml''), (''.wvx'', ''video/x-ms-wvx''),
     (''.x'', ''application/directx''), (''.xaf'', ''x-world/x-vrml''), (''.xaml'', ''application/xaml+xml''),
     (''.xap'', ''application/x-silverlight-app''), (''.xbap'', ''application/x-ms-xbap''),
     (''.xbm'', ''image/x-xbitmap''), (''.xdr'', ''text/plain''), (''.xht'', ''application/xhtml+xml''),
     (''.xhtml'', ''application/xhtml+xml''), (''.xla'', ''application/vnd.ms-excel''),
     (''.xlam'', ''application/vnd.ms-excel.addin.macroEnabled.12''), (''.xlc'', ''application/vnd.ms-excel''),
     (''.xld'', ''application/vnd.ms-excel''), (''.xlk'', ''application/vnd.ms-excel''),
     (''.xll'', ''application/vnd.ms-excel''), (''.xlm'', ''application/vnd.ms-excel''),
     (''.xls'', ''application/vnd.ms-excel''),
     (''.xlsb'', ''application/vnd.ms-excel.sheet.binary.macroEnabled.12''),
     (''.xlsm'', ''application/vnd.ms-excel.sheet.macroEnabled.12''),
     (''.xlsx'', ''application/vnd.openxmlformats-officedocument.spreadsheetml.sheet''),
     (''.xlt'', ''application/vnd.ms-excel''),
     (''.xltm'', ''application/vnd.ms-excel.template.macroEnabled.12''),
     (''.xltx'', ''application/vnd.openxmlformats-officedocument.spreadsheetml.template''),
     (''.xlw'', ''application/vnd.ms-excel''), (''.xml'', ''text/xml''), (''.xmta'', ''application/xml''),
     (''.xof'', ''x-world/x-vrml''), (''.XOML'', ''text/plain''), (''.xpm'', ''image/x-xpixmap''),
     (''.xps'', ''application/vnd.ms-xpsdocument''), (''.xrm-ms'', ''text/xml''),
     (''.xsc'', ''application/xml''), (''.xsd'', ''text/xml''), (''.xsf'', ''text/xml''),
     (''.xsl'', ''text/xml''), (''.xslt'', ''text/xml''), (''.xsn'', ''application/octet-stream''),
     (''.xss'', ''application/xml''), (''.xtp'', ''application/octet-stream''),
     (''.xwd'', ''image/x-xwindowdump''), (''.z'', ''application/x-compress''),
     (''.zip'', ''application/x-zip-compressed'')]"

definition mime_map :: "mime list" where
  "mime_map = mime_map_1 @ mime_map_2 @ mime_map_3 @ mime_map_4"

text \<open>The bytes of a C string, and the access to its bytes and the NUL behind them.\<close>

definition bytes :: "string \<Rightarrow> u8 list" where
  "bytes s = map of_char s"

definition char_at :: "u8 list \<Rightarrow> nat \<Rightarrow> u8 option" where
  "char_at s i = (if i < length s then Some (s ! i) else if i = length s then Some 0 else None)"

section \<open>The resolver\<close>

record mime_resolver =
  is_init :: bool
  g_map :: "u8 list cMap option"

fun add_types :: "mime list \<Rightarrow> u8 list cMap \<Rightarrow> u8 list cMap option" where
  "add_types [] m = Some m"
| "add_types ((ext, type) # ts) m = do {
     (_, m) \<leftarrow> cMap_add m (bytes ext) (bytes type) (of_nat (length type)) 0;
     add_types ts m }"

text \<open>\<open>got\<close> is the clone of the map object that the repository hands out, \<open>heap\<close> the heap object that
  \<open>init\<close> finds there. The resolver counts as initialised even when \<open>init\<close> of the map failed.\<close>

definition init_mime_type_resolver :: "u8 list cMap option \<Rightarrow> cZoneHeap option \<Rightarrow> mime_resolver \<Rightarrow> mime_resolver option" where
  "init_mime_type_resolver got heap s =
     (if is_init s then Some s
      else case got of
        None \<Rightarrow> Some (s\<lparr>g_map := None\<rparr>)
      | Some m \<Rightarrow> do {
          (r, m) \<leftarrow> cMap_init m 255 None heap;
          m \<leftarrow> (if r then add_types mime_map m else Some m);
          Some \<lparr>is_init = True, g_map = Some m\<rparr> })"

text \<open>\<open>release\<close> is the repository's \<open>object_release\<close> on its own state.\<close>

definition uninit_mime_type_resolver :: "(u8 list cMap option \<Rightarrow> 'w \<Rightarrow> 'w option) \<Rightarrow> mime_resolver \<Rightarrow> 'w \<Rightarrow>
    (mime_resolver \<times> 'w) option" where
  "uninit_mime_type_resolver release s w =
     (if is_init s then do { w \<leftarrow> release (g_map s) w; Some (\<lparr>is_init = False, g_map = None\<rparr>, w) }
      else Some (s, w))"

fun find_dot :: "u8 list \<Rightarrow> nat \<Rightarrow> nat option" where
  "find_dot fname 0 = Some 0"
| "find_dot fname (Suc i) = do {
     c \<leftarrow> char_at fname (Suc i);
     if c = 0x2E then Some (Suc i) else find_dot fname i }"

text \<open>The search in the table; an extension longer than the name starts the comparison in front of it.\<close>

fun search_types :: "mime list \<Rightarrow> u8 list \<Rightarrow> string option option" where
  "search_types [] fname = Some None"
| "search_types ((ext, type) # ts) fname =
     (if length ext \<le> length fname then
        if drop (length fname - length ext) fname = bytes ext then Some (Some type) else search_types ts fname
      else None)"

text \<open>The result points to the data of a record of the map or into the table.\<close>

datatype mime_type = In_record addr | In_table string

definition resolve_mime_type :: "u8 list \<Rightarrow> mime_resolver \<Rightarrow> (mime_type option \<times> mime_resolver) option" where
  "resolve_mime_type fname s =
     (if is_init s then do {
        i \<leftarrow> find_dot fname (unat (of_nat (length fname) - 1 :: u32));
        c \<leftarrow> char_at fname i;
        if c = 0x2E then do {
          m \<leftarrow> g_map s;
          (r, m) \<leftarrow> cMap_get m (drop i fname) 0;
          Some (map_option (\<lambda>(a, sz). In_record a) r, s\<lparr>g_map := Some m\<rparr>) }
        else Some (None, s) }
      else do {
        r \<leftarrow> search_types mime_map fname;
        Some (map_option In_table r, s) })"

section \<open>Extensions\<close>

text \<open>From the last dot on.\<close>

fun ext_of :: "u8 list \<Rightarrow> u8 list option" where
  "ext_of [] = None"
| "ext_of (c # s) = (case ext_of s of Some e \<Rightarrow> Some e | None \<Rightarrow> if c = 0x2E then Some (c # s) else None)"

lemma ext_of_None: "ext_of f = None \<longleftrightarrow> 0x2E \<notin> set f"
  by (induction f) (auto split: option.splits)

lemma ext_of_append: "0x2E \<notin> set t \<Longrightarrow> ext_of (s @ 0x2E # t) = Some (0x2E # t)"
  using ext_of_None [of t] by (induction s) auto

lemma ext_of_nonempty: "ext_of f = Some e \<Longrightarrow> e \<noteq> []"
  by (induction f) (auto split: option.splits if_splits)

lemma find_dot_spec:
  "i < length f \<Longrightarrow> \<exists>k \<le> i. find_dot f i = Some k \<and> (k = 0 \<or> f ! k = 0x2E) \<and> 0x2E \<notin> set (drop (Suc k) (take (Suc i) f))"
proof (induction i)
  case 0
  then show ?case by simp
next
  case (Suc i)
  then obtain k where k: "k \<le> i" "find_dot f i = Some k" "k = 0 \<or> f ! k = 0x2E" "0x2E \<notin> set (drop (Suc k) (take (Suc i) f))" by auto
  have ch: "char_at f (Suc i) = Some (f ! Suc i)" using Suc.prems by (simp add: char_at_def)
  show ?case
  proof (cases "f ! Suc i = 0x2E")
    case True
    then show ?thesis using ch by (intro exI [of _ "Suc i"]) simp
  next
    case False
    have "drop (Suc k) (take (Suc (Suc i)) f) = drop (Suc k) (take (Suc i) f) @ [f ! Suc i]"
      using Suc.prems k(1) by (simp add: take_Suc_conv_app_nth [of "Suc i"])
    then show ?thesis using k ch False by (intro exI [of _ k]) auto
  qed
qed

lemma find_dot_ext:
  assumes "f \<noteq> []" "length f < 2 ^ 32"
  shows "\<exists>k. find_dot f (unat (of_nat (length f) - 1 :: u32)) = Some k \<and> char_at f k = Some (f ! k) \<and>
    (if f ! k = 0x2E then ext_of f = Some (drop k f) else ext_of f = None)"
proof -
  have "unat (of_nat (length f) :: u32) = length f" using assms(2) by (intro unat_of_nat_small) simp
  moreover have "(of_nat (length f) :: u32) \<noteq> 0" using assms by (intro of_nat_word_neq_0) simp_all
  ultimately have i: "unat (of_nat (length f) - 1 :: u32) = length f - 1" by (simp add: unat_sub_one)
  obtain k where k: "k \<le> length f - 1" "find_dot f (length f - 1) = Some k" "k = 0 \<or> f ! k = 0x2E"
      "0x2E \<notin> set (drop (Suc k) (take (Suc (length f - 1)) f))"
    using find_dot_spec [of "length f - 1" f] assms(1) by auto
  have lt: "k < length f" using k(1) assms(1) by (cases f) auto
  then have f: "f = take k f @ f ! k # drop (Suc k) f" by (rule id_take_nth_drop)
  have nd: "0x2E \<notin> set (drop (Suc k) f)" using k(4) assms(1) by simp
  have "ext_of f = Some (drop k f)" if "f ! k = 0x2E"
    using ext_of_append [OF nd, of "take k f"] f that lt by (metis Cons_nth_drop_Suc)
  moreover have "ext_of f = None" if "f ! k \<noteq> 0x2E"
  proof -
    have "k = 0" using k(3) that by simp
    then show ?thesis using f nd that unfolding ext_of_None by (metis append_Nil set_ConsD take0)
  qed
  ultimately show ?thesis using k(2) lt i by (auto simp: char_at_def)
qed

section \<open>Filling the map\<close>

definition entry_ok :: "mime \<Rightarrow> bool" where
  "entry_ok et \<longleftrightarrow> 2 \<le> length (fst et) \<and> length (fst et) \<le> 23 \<and> length (snd et) \<le> 200"

lemma mime_map_1_sizes: "list_all entry_ok mime_map_1 \<and> length mime_map_1 = 150"
  by (simp add: mime_map_1_def entry_ok_def)

lemma mime_map_2_sizes: "list_all entry_ok mime_map_2 \<and> length mime_map_2 = 150"
  by (simp add: mime_map_2_def entry_ok_def)

lemma mime_map_3_sizes: "list_all entry_ok mime_map_3 \<and> length mime_map_3 = 150"
  by (simp add: mime_map_3_def entry_ok_def)

lemma mime_map_4_sizes: "list_all entry_ok mime_map_4 \<and> length mime_map_4 = 116"
  by (simp add: mime_map_4_def entry_ok_def)

lemmas mime_map_part_sizes = mime_map_1_sizes mime_map_2_sizes mime_map_3_sizes mime_map_4_sizes

lemma mime_map_sizes: "list_all entry_ok mime_map" and length_mime_map: "length mime_map = 566"
  by (simp_all add: mime_map_def mime_map_part_sizes)

text \<open>What \<open>add_types\<close> keeps: every record of the map is an entry of the list.\<close>

definition from_list :: "mime list \<Rightarrow> (u8 list \<rightharpoonup> u8 list map_rec_hdr) \<Rightarrow> bool" where
  "from_list ts M \<longleftrightarrow> (\<forall>d r. M d = Some r \<longrightarrow>
     (\<exists>(e, t) \<in> set ts. d = map_hash (bytes e) \<and> mr_data r = bytes t \<and> sz_rec r = of_nat (length t) + 1))"

lemma rec_fits_small: "n \<le> 200 \<Longrightarrow> cm.rec_fits (of_nat n)"
proof -
  assume n: "n \<le> 200"
  then have u: "unat (of_nat n :: u32) = n" by (intro unat_of_nat_small) simp
  have u1: "unat (of_nat n + 1 :: u32) = n + 1" using unat_add_one_less [of "of_nat n :: u32"] u n by simp
  have u2: "unat (32 + (of_nat n + 1) :: u32) = 33 + n" using n unfolding unat_word_ariths(1) [of 32] u1 by simp
  show ?thesis using u u1 u2 n
    by (auto simp: cm.rec_fits_def rec_size_ok_def sizeof_map_rec_hdr_def zone_fits_def word_le_nat_alt word_unat_eq_iff [of _ 0])
qed

lemma add_types_rel:
  assumes "list_all entry_ok ts" "n + length ts \<le> 600"
    "cMap_rel m M" "cMap_ready m 0" "sized 255 n (map_cxt m)" "from_list us M" "set ts \<subseteq> set us"
  shows "\<exists>m' M'. add_types ts m = Some m' \<and> cMap_rel m' M' \<and> cMap_ready m' 0 \<and> from_list us M'"
  using assms
proof (induction ts arbitrary: m M n)
  case (Cons et ts)
  obtain e t where et: "et = (e, t)" by (cases et)
  have k: "bytes e \<noteq> []" and l: "length t \<le> 200" using Cons.prems(1) et by (auto simp: bytes_def entry_ok_def)
  obtain p m1 where a: "cMap_add m (bytes e) (bytes t) (of_nat (length t)) 0 = Some (p, m1)" "cMap_ready m1 0"
      "map_add (map_cxt m) (bytes e) (bytes t) (of_nat (length t)) = Some (p, map_cxt m1)"
      "case M (map_hash (bytes e)) of Some r \<Rightarrow> p = Some (mr_addr r) \<and> cMap_rel m1 M
       | None \<Rightarrow> cMap_rel m1 (stored p (map_hash (bytes e)) (bytes t) (of_nat (length t)) M)"
    using cMap_add_rel [OF Cons.prems(3,4) sized_room(2) [OF Cons.prems(5)] k rec_fits_small [OF l], of "bytes t"] Cons.prems(2) by auto
  have mem: "(e, t) \<in> set us" using Cons.prems(7) et by simp
  have "\<exists>M1. cMap_rel m1 M1 \<and> from_list us M1"
  proof (cases "M (map_hash (bytes e))")
    case None
    then show ?thesis using a(4) Cons.prems(6) mem
      by (intro exI [of _ "stored p (map_hash (bytes e)) (bytes t) (of_nat (length t)) M"])
        (force simp: stored_def from_list_def split: option.splits)
  qed (use a(4) Cons.prems(6) in auto)
  then obtain M1 where M1: "cMap_rel m1 M1" "from_list us M1" by blast
  have "sized 255 (Suc n) (map_cxt m1)"
    using sized_grows [OF Cons.prems(5) _ _ map_add_grows [OF a(3)]] Cons.prems(2) by simp
  then show ?case using Cons.IH [of "Suc n" m1 M1] Cons.prems(1,2,7) M1 a(1,2) et by simp
qed auto

lemma init_mime_type_resolver_rel:
  assumes "cZoneHeap_ok z" "cMap_ready m0 0" "\<not> is_init s0"
  shows "\<exists>b m1 m. cMap_init m0 255 None (Some z) = Some (b, m1) \<and>
    init_mime_type_resolver (Some m0) (Some z) s0 = Some \<lparr>is_init = True, g_map = Some m\<rparr> \<and>
    (b \<longrightarrow> (\<exists>M. cMap_rel m M \<and> cMap_ready m 0 \<and> from_list mime_map M))"
proof -
  obtain b m1 where i: "cMap_init m0 255 None (Some z) = Some (b, m1)" "cm_heap_mutex m1 = cm_heap_mutex m0"
      "b \<Longrightarrow> cMap_rel m1 Map.empty \<and> records (map_cxt m1) = 0 \<and> capacity (map_cxt m1) = 255"
    using cMap_init_rel [OF assms(1), of 255 m0] by auto
  show ?thesis
  proof (cases b)
    case True
    have "cMap_ready m1 0" using assms(2) i(2) by (simp add: cMap_ready_def)
    moreover have "sized 255 0 (map_cxt m1)" using i(3) True by (simp add: sized_def)
    moreover have "from_list mime_map Map.empty" by (simp add: from_list_def)
    ultimately obtain m M where "add_types mime_map m1 = Some m" "cMap_rel m M" "cMap_ready m 0" "from_list mime_map M"
      using add_types_rel [OF mime_map_sizes, of 0 m1 Map.empty mime_map] i(3) True length_mime_map by auto
    then show ?thesis using i(1) True assms(3) by (auto simp: init_mime_type_resolver_def)
  next
    case False
    then show ?thesis using i(1) assms(3) by (auto simp: init_mime_type_resolver_def)
  qed
qed

section \<open>Searching the table\<close>

lemma drop_suffix_iff: "length e \<le> length f \<Longrightarrow> drop (length f - length e) f = bytes e \<longleftrightarrow> suffix (bytes e) f"
  unfolding suffix_def
  by (metis append_eq_conv_conj append_take_drop_id bytes_def length_map length_append add_diff_cancel_right' drop_append diff_self_eq_0 drop0 drop_all le_refl append_Nil)

lemma search_types_find:
  "list_all (\<lambda>(e, t). length e \<le> length f) ts \<Longrightarrow>
     search_types ts f = Some (map_option snd (find (\<lambda>(e, t). suffix (bytes e) f) ts))"
  by (induction ts) (auto simp: drop_suffix_iff)

section \<open>A map for the resolver\<close>

definition cMap_1 :: "u8 list cMap" where
  "cMap_1 = \<lparr>cm_heap_mutex = None,
     map_cxt = \<lparr>records = 0, collisions = 0, capacity = 0, pf_mem_alloc = None, pf_mem_free = None, pf_hash = None,
       pp_list = None, udata = None\<rparr>, cm_is_init = False, cm_my_heap = False\<rparr>"

lemma cMap_1_ready: "cMap_ready cMap_1 0"
  by (simp add: cMap_ready_def cMap_1_def)

section \<open>Properties\<close>

text \<open>C37: With a map object over a sound heap, \<open>init_mime_type_resolver\<close> always returns, whichever of its
  allocations fail, and also when the map grows. If the map got its memory, \<open>resolve_mime_type\<close> then
  returns for every name: it looks up what follows the last dot, finds nothing when there is no dot, and
  every record it can find holds the type of a table entry with the same digest.\<close>

theorem resolve_mime_type_from_map:
  assumes "cZoneHeap_ok z" "cMap_ready m0 0" "\<not> is_init s0" "fname \<noteq> []" "length fname < 2 ^ 32"
  shows "\<exists>b m1 m. cMap_init m0 255 None (Some z) = Some (b, m1) \<and>
    init_mime_type_resolver (Some m0) (Some z) s0 = Some \<lparr>is_init = True, g_map = Some m\<rparr> \<and>
    (b \<longrightarrow> (\<exists>M s'. cMap_rel m M \<and> from_list mime_map M \<and>
       resolve_mime_type fname \<lparr>is_init = True, g_map = Some m\<rparr> =
         Some (case ext_of fname of None \<Rightarrow> None | Some e \<Rightarrow> map_option (\<lambda>r. In_record (mr_addr r)) (M (map_hash e)), s')))"
proof -
  obtain b m1 m where i: "cMap_init m0 255 None (Some z) = Some (b, m1)"
      "init_mime_type_resolver (Some m0) (Some z) s0 = Some \<lparr>is_init = True, g_map = Some m\<rparr>"
      "b \<Longrightarrow> \<exists>M. cMap_rel m M \<and> cMap_ready m 0 \<and> from_list mime_map M"
    using init_mime_type_resolver_rel [OF assms(1-3)] by blast
  have "\<exists>M s'. cMap_rel m M \<and> from_list mime_map M \<and>
      resolve_mime_type fname \<lparr>is_init = True, g_map = Some m\<rparr> =
        Some (case ext_of fname of None \<Rightarrow> None | Some e \<Rightarrow> map_option (\<lambda>r. In_record (mr_addr r)) (M (map_hash e)), s')" if b
  proof -
    obtain M where M: "cMap_rel m M" "cMap_ready m 0" "from_list mime_map M" using i(3) [OF \<open>b\<close>] by blast
    obtain k where k: "find_dot fname (unat (of_nat (length fname) - 1 :: u32)) = Some k" "char_at fname k = Some (fname ! k)"
        "if fname ! k = 0x2E then ext_of fname = Some (drop k fname) else ext_of fname = None"
      using find_dot_ext [OF assms(4,5)] by blast
    have "drop k fname \<noteq> []" if "fname ! k = 0x2E" using k(3) that ext_of_None [of fname] by (cases "drop k fname") (auto dest: ext_of_nonempty)
    then obtain m2 where "fname ! k = 0x2E \<Longrightarrow> cMap_get m (drop k fname) 0 = Some (found (M (map_hash (drop k fname))), m2)"
      using cMap_get_rel [OF M(1,2)] by blast
    then show ?thesis using M(1,3) k
      by (cases "fname ! k = 0x2E") (auto simp: resolve_mime_type_def found_def option.map_comp comp_def)
  qed
  then show ?thesis using i(1,2) by blast
qed

theorem resolve_mime_type_from_map_witness:
  "\<exists>b m1 m. cMap_init cMap_1 255 None (Some zheap_1) = Some (b, m1) \<and>
    init_mime_type_resolver (Some cMap_1) (Some zheap_1) \<lparr>is_init = False, g_map = None\<rparr> = Some \<lparr>is_init = True, g_map = Some m\<rparr> \<and>
    (b \<longrightarrow> (\<exists>M s'. cMap_rel m M \<and> from_list mime_map M \<and>
       resolve_mime_type (bytes ''a.htm'') \<lparr>is_init = True, g_map = Some m\<rparr> =
         Some (case ext_of (bytes ''a.htm'') of None \<Rightarrow> None
           | Some e \<Rightarrow> map_option (\<lambda>r. In_record (mr_addr r)) (M (map_hash e)), s')))"
  by (rule resolve_mime_type_from_map [OF zheap_1_ok cMap_1_ready]) (simp_all add: bytes_def)

text \<open>Without a map, \<open>resolve_mime_type\<close> returns the type of the first table entry whose extension ends
  the name, for every name at least as long as the longest extension.\<close>

theorem resolve_mime_type_search:
  assumes "\<not> is_init s" "23 \<le> length fname"
  shows "resolve_mime_type fname s =
    Some (map_option (\<lambda>et. In_table (snd et)) (find (\<lambda>(e, t). suffix (bytes e) fname) mime_map), s)"
proof -
  have "list_all (\<lambda>(e, t). length e \<le> length fname) mime_map"
    using mime_map_sizes assms(2) by (auto simp: list_all_iff entry_ok_def)
  then show ?thesis using search_types_find assms(1) by (simp add: resolve_mime_type_def option.map_comp comp_def)
qed

theorem resolve_mime_type_search_witness:
  "resolve_mime_type (bytes ''/home/user/site/pages/notes.323'') \<lparr>is_init = False, g_map = None\<rparr> =
    Some (Some (In_table ''text/h323''), \<lparr>is_init = False, g_map = None\<rparr>)"
proof -
  have "find (\<lambda>(e, t). suffix (bytes e) (bytes ''/home/user/site/pages/notes.323'')) mime_map = Some (''.323'', ''text/h323'')"
    by (simp add: mime_map_def mime_map_1_def suffix_to_prefix bytes_def)
  then show ?thesis
    using resolve_mime_type_search [of "\<lparr>is_init = False, g_map = None\<rparr>" "bytes ''/home/user/site/pages/notes.323''"]
    by (simp add: bytes_def)
qed

text \<open>Names that \<open>resolve_mime_type\<close> reads out of bounds on: the empty name when there is a map, and
  without a map every name shorter than the first extension of the table.\<close>

theorem resolve_mime_type_out_of_bounds:
  assumes "if is_init s then fname = [] else length fname < 4"
  shows "resolve_mime_type fname s = None"
proof (cases "is_init s")
  case True
  have "unat (- 1 :: u32) = 4294967295" by (simp add: unsigned_minus_1_eq_mask mask_eq_exp_minus_1)
  moreover have "find_dot [] 4294967295 = None" using find_dot.simps(2) [of "[]" 4294967294] by (simp add: char_at_def)
  ultimately show ?thesis using assms True by (simp add: resolve_mime_type_def)
next
  case False
  then show ?thesis using assms by (simp add: resolve_mime_type_def mime_map_def mime_map_1_def)
qed

theorem resolve_mime_type_out_of_bounds_witness:
  "resolve_mime_type (bytes ''a.c'') \<lparr>is_init = False, g_map = None\<rparr> = None"
  by (rule resolve_mime_type_out_of_bounds) (simp add: bytes_def)

end
