(* ===== verification/BaseArray.thy ===== *)
theory BaseArray
  imports Maps
begin

text \<open>
  The registry of object classes: core/repository-2/base_array.cpp. Every entry is found by its
  interface name, its class name and the address of its object, through one map whose keys are
  \<open>_base_key_t\<close> structures and whose data are addresses of entries.
\<close>

declare set_concat [simp del] mset_concat [simp del] concat_eq_Nil_conv [simp del]

section \<open>Objects and entries\<close>

text \<open>Objects are known by their addresses, 0 is NULL; the virtual method \<open>object_info\<close> of an object is a
  parameter \<open>info\<close> of the definitions. The version is the packed number.\<close>

type_synonym iBase = addr

record object_info =
  oi_iname :: "u8 list"
  oi_cname :: "u8 list"
  oi_size :: u32
  oi_version :: u32
  oi_flags :: u8

record base_entry =
  pi_base :: iBase
  ref_cnt :: u32
  be_state :: u8

text \<open>The arrays of entries in the core and in the extensions, by the address of each entry.\<close>

type_synonym entries = "addr \<rightharpoonup> base_entry"

definition sizeof_base_entry :: addr where "sizeof_base_entry = 16"

section \<open>Keys\<close>

definition MAX_INAME :: nat where "MAX_INAME = 64"
definition MAX_CNAME :: nat where "MAX_CNAME = 64"

record base_key =
  k_iname :: "u8 list"
  k_cname :: "u8 list"
  k_base :: iBase

text \<open>\<open>strncpy\<close> into a cleared array of \<open>n\<close> bytes, the last of which is left alone.\<close>

definition name_field :: "nat \<Rightarrow> u8 list \<Rightarrow> u8 list" where
  "name_field n s = (let t = take (n - 1) s in t @ replicate (n - length t) 0)"

definition pointer_bytes :: "addr \<Rightarrow> u8 list" where
  "pointer_bytes p = map (\<lambda>i. ucast (drop_bit (8 * i) (of_nat p :: u64))) [0..<8]"

definition key_bytes :: "base_key \<Rightarrow> u8 list" where
  "key_bytes k = k_iname k @ k_cname k @ pointer_bytes (k_base k)"

definition iname_key :: "u8 list \<Rightarrow> base_key" where
  "iname_key s = \<lparr>k_iname = name_field MAX_INAME s, k_cname = replicate MAX_CNAME 0, k_base = 0\<rparr>"

definition cname_key :: "u8 list \<Rightarrow> base_key" where
  "cname_key s = \<lparr>k_iname = replicate MAX_INAME 0, k_cname = name_field MAX_CNAME s, k_base = 0\<rparr>"

definition pointer_key :: "iBase \<Rightarrow> base_key" where
  "pointer_key p = \<lparr>k_iname = replicate MAX_INAME 0, k_cname = replicate MAX_CNAME 0, k_base = p\<rparr>"

section \<open>Adding\<close>

text \<open>The data behind a record that \<open>get\<close> returned.\<close>

definition record_data :: "'a hash_map \<Rightarrow> addr \<Rightarrow> 'a option" where
  "record_data m a =
     (case pp_list (hm_context m) of
        None \<Rightarrow> None
      | Some (_, bs) \<Rightarrow> map_option mr_data (find (\<lambda>r. mr_addr r = a) (concat bs)))"

definition add_iname :: "(iBase \<Rightarrow> object_info) \<Rightarrow> entries \<Rightarrow> addr \<Rightarrow> addr hash_map \<Rightarrow> (bool \<times> addr hash_map) option" where
  "add_iname info E pb_entry m = do {
     e \<leftarrow> E pb_entry;
     let oi = info (pi_base e);
     let key = key_bytes (iname_key (oi_iname oi));
     (r, m) \<leftarrow> hash_map_get m key 0;
     (case r of
        Some (p, sz) \<Rightarrow> do {
          pb' \<leftarrow> record_data m p;
          e' \<leftarrow> E pb';
          let oi' = info (pi_base e');
          if oi_cname oi = oi_cname oi' \<and> oi_version oi > oi_version oi' then do {
            (q, m) \<leftarrow> hash_map_set m key pb_entry 8 0;
            Some (q \<noteq> None, m) }
          else Some (False, m) }
      | None \<Rightarrow> do {
          (q, m) \<leftarrow> hash_map_add m key pb_entry 8 0;
          Some (q \<noteq> None, m) }) }"

definition add_cname :: "(iBase \<Rightarrow> object_info) \<Rightarrow> entries \<Rightarrow> addr \<Rightarrow> addr hash_map \<Rightarrow> (bool \<times> addr hash_map) option" where
  "add_cname info E pb_entry m = do {
     e \<leftarrow> E pb_entry;
     let oi = info (pi_base e);
     let key = key_bytes (cname_key (oi_cname oi));
     (r, m) \<leftarrow> hash_map_get m key 0;
     (case r of
        Some (p, sz) \<Rightarrow> do {
          pb' \<leftarrow> record_data m p;
          e' \<leftarrow> E pb';
          let oi' = info (pi_base e');
          if oi_version oi > oi_version oi' \<and> oi_iname oi = oi_iname oi' then do {
            (q, m) \<leftarrow> hash_map_set m key pb_entry 8 0;
            Some (q \<noteq> None, m) }
          else Some (False, m) }
      | None \<Rightarrow> do {
          (q, m) \<leftarrow> hash_map_add m key pb_entry 8 0;
          Some (q \<noteq> None, m) }) }"

definition add_pointer :: "entries \<Rightarrow> addr \<Rightarrow> addr hash_map \<Rightarrow> (bool \<times> addr hash_map) option" where
  "add_pointer E pb_entry m = do {
     e \<leftarrow> E pb_entry;
     (q, m) \<leftarrow> hash_map_add m (key_bytes (pointer_key (pi_base e))) pb_entry 8 0;
     Some (q \<noteq> None, m) }"

fun add_base_array :: "(iBase \<Rightarrow> object_info) \<Rightarrow> entries \<Rightarrow> addr \<Rightarrow> nat \<Rightarrow> addr hash_map \<Rightarrow> addr hash_map option" where
  "add_base_array info E p 0 m = Some m"
| "add_base_array info E p (Suc cnt) m = do {
     (_, m) \<leftarrow> add_iname info E p m;
     (_, m) \<leftarrow> add_cname info E p m;
     (_, m) \<leftarrow> add_pointer E p m;
     add_base_array info E (p + sizeof_base_entry) cnt m }"

section \<open>Removing\<close>

definition remove_iname :: "(iBase \<Rightarrow> object_info) \<Rightarrow> entries \<Rightarrow> addr \<Rightarrow> addr hash_map \<Rightarrow> addr hash_map option" where
  "remove_iname info E pb_entry m = do {
     e \<leftarrow> E pb_entry;
     let key = key_bytes (iname_key (oi_iname (info (pi_base e))));
     (r, m) \<leftarrow> hash_map_get m key 0;
     (case r of
        Some (p, sz) \<Rightarrow> do {
          pb' \<leftarrow> record_data m p;
          e' \<leftarrow> E pb';
          if pi_base e' = pi_base e then map_option snd (hash_map_del m key 0) else Some m }
      | None \<Rightarrow> Some m) }"

definition remove_cname :: "(iBase \<Rightarrow> object_info) \<Rightarrow> entries \<Rightarrow> addr \<Rightarrow> addr hash_map \<Rightarrow> addr hash_map option" where
  "remove_cname info E pb_entry m = do {
     e \<leftarrow> E pb_entry;
     let key = key_bytes (cname_key (oi_cname (info (pi_base e))));
     (r, m) \<leftarrow> hash_map_get m key 0;
     (case r of
        Some (p, sz) \<Rightarrow> do {
          pb' \<leftarrow> record_data m p;
          e' \<leftarrow> E pb';
          if pi_base e' = pi_base e then map_option snd (hash_map_del m key 0) else Some m }
      | None \<Rightarrow> Some m) }"

definition remove_pointer :: "entries \<Rightarrow> addr \<Rightarrow> addr hash_map \<Rightarrow> addr hash_map option" where
  "remove_pointer E pb_entry m = do {
     e \<leftarrow> E pb_entry;
     map_option snd (hash_map_del m (key_bytes (pointer_key (pi_base e))) 0) }"

fun remove_base_array :: "(iBase \<Rightarrow> object_info) \<Rightarrow> entries \<Rightarrow> addr \<Rightarrow> nat \<Rightarrow> addr hash_map \<Rightarrow> addr hash_map option" where
  "remove_base_array info E p 0 m = Some m"
| "remove_base_array info E p (Suc cnt) m = do {
     m \<leftarrow> remove_iname info E p m;
     m \<leftarrow> remove_cname info E p m;
     m \<leftarrow> remove_pointer E p m;
     remove_base_array info E (p + sizeof_base_entry) cnt m }"

section \<open>Finding\<close>

definition find_object :: "base_key \<Rightarrow> addr hash_map \<Rightarrow> (ptr \<times> addr hash_map) option" where
  "find_object k m = do {
     (r, m) \<leftarrow> hash_map_get m (key_bytes k) 0;
     (case r of
        Some (p, sz) \<Rightarrow> do { pb \<leftarrow> record_data m p; Some (Some pb, m) }
      | None \<Rightarrow> Some (None, m)) }"

definition find_object_by_iname :: "u8 list \<Rightarrow> addr hash_map \<Rightarrow> (ptr \<times> addr hash_map) option" where
  "find_object_by_iname iname m = find_object (iname_key iname) m"

definition find_object_by_cname :: "u8 list \<Rightarrow> addr hash_map \<Rightarrow> (ptr \<times> addr hash_map) option" where
  "find_object_by_cname cname m = find_object (cname_key cname) m"

definition find_object_by_pointer :: "iBase \<Rightarrow> addr hash_map \<Rightarrow> (ptr \<times> addr hash_map) option" where
  "find_object_by_pointer p m = find_object (pointer_key p) m"

definition destroy_base_array_storage :: "addr hash_map \<Rightarrow> (unit \<times> addr hash_map) option" where
  "destroy_base_array_storage m = hash_map_destroy m 0"

section \<open>The registry as a map from digests to entries\<close>

definition digest :: "base_key \<Rightarrow> u8 list" where
  "digest k = map_hash (key_bytes k)"

text \<open>At most \<open>n\<close> additions so far.\<close>

definition reg_rel :: "nat \<Rightarrow> addr hash_map \<Rightarrow> (u8 list \<rightharpoonup> addr) \<Rightarrow> bool" where
  "reg_rel n m R \<longleftrightarrow> hash_map_ready m 0 \<and> sized 127 n (hm_context m) \<and>
     (\<exists>M. hash_map_rel m M \<and> R = (\<lambda>d. map_option mr_data (M d)))"

lemma key_bytes_nonempty: "key_bytes k \<noteq> []"
  by (simp add: key_bytes_def pointer_bytes_def)

lemma hash_map_get_context: "hash_map_get m key h = Some (r, m') \<Longrightarrow> hm_context m' = hm_context m"
  using hm_locked_context [of m h _ r m'] by (fastforce simp: hash_map_get_def)

lemma record_data_rel: "hash_map_rel m M \<Longrightarrow> M d = Some r \<Longrightarrow> record_data m (mr_addr r) = Some (mr_data r)"
proof -
  assume "hash_map_rel m M" and r: "M d = Some r"
  then obtain bs where bs: "hm.map_rel (hm_context m) bs" "M = mget bs" by (auto simp: hash_map_rel_def)
  obtain la where la: "pp_list (hm_context m) = Some (la, bs)" "distinct (blocks_of la bs)" using bs(1) by (rule hm.map_relE)
  have "distinct (map mr_key (concat bs))" using bs(1) by (simp add: hm.map_rel_def buckets_ok_def)
  then have mem: "r \<in> set (concat bs)" using r bs(2) mget_Some_iff by blast
  have "distinct (map mr_addr (concat bs))" using la(2) by (simp add: blocks_of_def)
  then have "find (\<lambda>q. mr_addr q = mr_addr r) (concat bs) = Some r"
    using mem by (intro find_unique) auto
  then show ?thesis using la(1) by (simp add: record_data_def)
qed

lemma reg_get:
  assumes "reg_rel n m R"
  shows "\<exists>r m'. hash_map_get m (key_bytes k) 0 = Some (r, m') \<and> reg_rel n m' R \<and>
    (case R (digest k) of None \<Rightarrow> r = None | Some pb \<Rightarrow> \<exists>p sz. r = Some (p, sz) \<and> record_data m' p = Some pb)"
proof -
  obtain M where M: "hash_map_rel m M" "R = (\<lambda>d. map_option mr_data (M d))" "hash_map_ready m 0" "sized 127 n (hm_context m)"
    using assms by (auto simp: reg_rel_def)
  obtain m' where g: "hash_map_get m (key_bytes k) 0 = Some (found (M (digest k)), m')" "hash_map_rel m' M" "hash_map_ready m' 0"
    using hash_map_get_rel [OF M(1,3) key_bytes_nonempty [of k]] unfolding digest_def by blast
  have "reg_rel n m' R" using M g hash_map_get_context [OF g(1)] by (auto simp: reg_rel_def)
  then show ?thesis using g(1) M(2) record_data_rel [OF g(2)] by (auto simp: found_def split: option.splits)
qed

lemma reg_add:
  assumes "reg_rel n m R" "n < 2 ^ 20" "R (digest k) = None"
  shows "\<exists>q m'. hash_map_add m (key_bytes k) pb 8 0 = Some (q, m') \<and>
    reg_rel (Suc n) m' (if q = None then R else R(digest k \<mapsto> pb))"
proof -
  obtain M where M: "hash_map_rel m M" "R = (\<lambda>d. map_option mr_data (M d))" "hash_map_ready m 0" "sized 127 n (hm_context m)"
    using assms by (auto simp: reg_rel_def)
  have room: "hm.has_room (hm_context m)" using sized_room(1) [OF M(4)] assms(2) by simp
  have new: "M (map_hash (key_bytes k)) = None" using assms(3) M(2) by (simp add: digest_def)
  obtain q m' where a: "hash_map_add m (key_bytes k) pb 8 0 = Some (q, m')" "hash_map_ready m' 0"
      "hash_map_rel m' (stored q (digest k) pb 8 M)"
    using hash_map_add_rel [OF M(1,3) room key_bytes_nonempty rec_fits_8, of k pb] new by (auto simp: digest_def)
  have "map_add (hm_context m) (key_bytes k) pb 8 = Some (q, hm_context m')"
    using hm_locked_context a(1) by (fastforce simp: hash_map_add_def)
  then have "sized 127 (Suc n) (hm_context m')" using sized_grows [OF M(4)] assms(2) map_add_grows by fastforce
  moreover have "(if q = None then R else R(digest k \<mapsto> pb)) = (\<lambda>d. map_option mr_data (stored q (digest k) pb 8 M d))"
    using M(2) by (auto simp: stored_def split: option.splits)
  ultimately show ?thesis using a by (auto simp: reg_rel_def)
qed

lemma reg_add_old:
  assumes "reg_rel n m R" "n < 2 ^ 20" "R (digest k) \<noteq> None"
  shows "\<exists>q m'. hash_map_add m (key_bytes k) pb 8 0 = Some (q, m') \<and> q \<noteq> None \<and> reg_rel (Suc n) m' R"
proof -
  obtain M where M: "hash_map_rel m M" "R = (\<lambda>d. map_option mr_data (M d))" "hash_map_ready m 0" "sized 127 n (hm_context m)"
    using assms by (auto simp: reg_rel_def)
  have room: "hm.has_room (hm_context m)" using sized_room(1) [OF M(4)] assms(2) by simp
  obtain r where old: "M (map_hash (key_bytes k)) = Some r" using assms(3) M(2) by (auto simp: digest_def)
  obtain q m' where a: "hash_map_add m (key_bytes k) pb 8 0 = Some (q, m')" "hash_map_ready m' 0" "q \<noteq> None" "hash_map_rel m' M"
    using hash_map_add_rel [OF M(1,3) room key_bytes_nonempty rec_fits_8, of k pb] old by auto
  have "map_add (hm_context m) (key_bytes k) pb 8 = Some (q, hm_context m')"
    using hm_locked_context a(1) by (fastforce simp: hash_map_add_def)
  then have "sized 127 (Suc n) (hm_context m')" using sized_grows [OF M(4)] assms(2) map_add_grows by fastforce
  then show ?thesis using a M(2) by (auto simp: reg_rel_def)
qed

lemma reg_set:
  assumes "reg_rel n m R" "n < 2 ^ 20"
  shows "\<exists>q m'. hash_map_set m (key_bytes k) pb 8 0 = Some (q, m') \<and>
    reg_rel (Suc n) m' (R(digest k := (if q = None then None else Some pb)))"
proof -
  obtain M where M: "hash_map_rel m M" "R = (\<lambda>d. map_option mr_data (M d))" "hash_map_ready m 0" "sized 127 n (hm_context m)"
    using assms by (auto simp: reg_rel_def)
  have room: "hm.has_room (hm_context m)" using sized_room(1) [OF M(4)] assms(2) by simp
  obtain q m' where a: "hash_map_set m (key_bytes k) pb 8 0 = Some (q, m')" "hash_map_ready m' 0"
      "hash_map_rel m' (stored q (digest k) pb 8 (M(digest k := None)))"
    using hash_map_set_rel [OF M(1,3) room key_bytes_nonempty rec_fits_8, of k pb] by (auto simp: digest_def)
  have s: "map_set (hm_context m) (key_bytes k) pb 8 = Some (q, hm_context m')"
    using hm_locked_context a(1) by (fastforce simp: hash_map_set_def)
  obtain c where c: "map_del (hm_context m) (key_bytes k) = Some ((), c)" "grows c (hm_context m')" using map_set_grows [OF s] by blast
  obtain bs where "hm.map_rel (hm_context m) bs" using M(1) by (auto simp: hash_map_rel_def)
  then have "sized 127 n c" using hm.map_del_spec [OF _ key_bytes_nonempty, of "hm_context m" bs k] c(1) sized_less [OF M(4)] by auto
  then have "sized 127 (Suc n) (hm_context m')" using sized_grows [OF _ _ _ c(2)] assms(2) by simp
  moreover have "R(digest k := (if q = None then None else Some pb)) = (\<lambda>d. map_option mr_data (stored q (digest k) pb 8 (M(digest k := None)) d))"
    using M(2) by (auto simp: stored_def split: option.splits)
  ultimately show ?thesis using a by (auto simp: reg_rel_def)
qed

lemma reg_del:
  assumes "reg_rel n m R"
  shows "\<exists>m'. hash_map_del m (key_bytes k) 0 = Some ((), m') \<and> reg_rel n m' (R(digest k := None))"
proof -
  obtain M where M: "hash_map_rel m M" "R = (\<lambda>d. map_option mr_data (M d))" "hash_map_ready m 0" "sized 127 n (hm_context m)"
    using assms by (auto simp: reg_rel_def)
  obtain m' where a: "hash_map_del m (key_bytes k) 0 = Some ((), m')" "hash_map_ready m' 0" "hash_map_rel m' (M(digest k := None))"
    using hash_map_del_rel [OF M(1,3) key_bytes_nonempty, of k] by (auto simp: digest_def)
  have c: "map_del (hm_context m) (key_bytes k) = Some ((), hm_context m')"
    using hm_locked_context a(1) by (fastforce simp: hash_map_del_def)
  obtain bs where "hm.map_rel (hm_context m) bs" using M(1) by (auto simp: hash_map_rel_def)
  then have "sized 127 n (hm_context m')" using hm.map_del_spec [OF _ key_bytes_nonempty, of "hm_context m" bs k] c sized_less [OF M(4)] by auto
  moreover have "R(digest k := None) = (\<lambda>d. map_option mr_data ((M(digest k := None)) d))" using M(2) by auto
  ultimately show ?thesis using a by (auto simp: reg_rel_def)
qed

lemma reg_find:
  assumes "reg_rel n m R"
  shows "\<exists>m'. find_object k m = Some (R (digest k), m') \<and> reg_rel n m' R"
  using reg_get [OF assms, of k] by (cases "R (digest k)") (auto simp: find_object_def)

section \<open>What an entry is registered under\<close>

definition keys_of :: "(iBase \<Rightarrow> object_info) \<Rightarrow> iBase \<Rightarrow> u8 list set" where
  "keys_of info b = {digest (iname_key (oi_iname (info b))), digest (cname_key (oi_cname (info b))), digest (pointer_key b)}"

definition reg_inv :: "(iBase \<Rightarrow> object_info) \<Rightarrow> entries \<Rightarrow> (u8 list \<rightharpoonup> addr) \<Rightarrow> bool" where
  "reg_inv info E R \<longleftrightarrow> (\<forall>d pb. R d = Some pb \<longrightarrow> (\<exists>e. E pb = Some e \<and> d \<in> keys_of info (pi_base e)))"

text \<open>A registration of \<open>pb\<close> under one name with result \<open>b\<close>: nothing is replaced unless \<open>better\<close>, and a
  failed replacement loses the old registration.\<close>

definition registered :: "u8 list \<Rightarrow> addr \<Rightarrow> (addr \<Rightarrow> bool) \<Rightarrow> bool \<Rightarrow> (u8 list \<rightharpoonup> addr) \<Rightarrow> (u8 list \<rightharpoonup> addr)" where
  "registered d pb better b R =
     (case R d of
        None \<Rightarrow> if b then R(d \<mapsto> pb) else R
      | Some pb' \<Rightarrow> if better pb' then R(d := (if b then Some pb else None)) else R)"

text \<open>The two names are handled alike.\<close>

definition add_named :: "base_key \<Rightarrow> (iBase \<Rightarrow> bool) \<Rightarrow> entries \<Rightarrow> addr \<Rightarrow> addr hash_map \<Rightarrow> (bool \<times> addr hash_map) option" where
  "add_named k better E pb m = do {
     (r, m) \<leftarrow> hash_map_get m (key_bytes k) 0;
     (case r of
        Some (p, sz) \<Rightarrow> do {
          pb' \<leftarrow> record_data m p;
          e' \<leftarrow> E pb';
          if better (pi_base e') then do { (q, m) \<leftarrow> hash_map_set m (key_bytes k) pb 8 0; Some (q \<noteq> None, m) }
          else Some (False, m) }
      | None \<Rightarrow> do { (q, m) \<leftarrow> hash_map_add m (key_bytes k) pb 8 0; Some (q \<noteq> None, m) }) }"

definition remove_named :: "base_key \<Rightarrow> iBase \<Rightarrow> entries \<Rightarrow> addr hash_map \<Rightarrow> addr hash_map option" where
  "remove_named k b E m = do {
     (r, m) \<leftarrow> hash_map_get m (key_bytes k) 0;
     (case r of
        Some (p, sz) \<Rightarrow> do {
          pb' \<leftarrow> record_data m p;
          e' \<leftarrow> E pb';
          if pi_base e' = b then map_option snd (hash_map_del m (key_bytes k) 0) else Some m }
      | None \<Rightarrow> Some m) }"

definition iname_better :: "(iBase \<Rightarrow> object_info) \<Rightarrow> iBase \<Rightarrow> iBase \<Rightarrow> bool" where
  "iname_better info b b' \<longleftrightarrow> oi_cname (info b) = oi_cname (info b') \<and> oi_version (info b) > oi_version (info b')"

definition cname_better :: "(iBase \<Rightarrow> object_info) \<Rightarrow> iBase \<Rightarrow> iBase \<Rightarrow> bool" where
  "cname_better info b b' \<longleftrightarrow> oi_version (info b) > oi_version (info b') \<and> oi_iname (info b) = oi_iname (info b')"

lemma add_remove_named:
  assumes "E pb = Some e"
  shows "add_iname info E pb m = add_named (iname_key (oi_iname (info (pi_base e)))) (iname_better info (pi_base e)) E pb m"
    and "add_cname info E pb m = add_named (cname_key (oi_cname (info (pi_base e)))) (cname_better info (pi_base e)) E pb m"
    and "remove_iname info E pb m = remove_named (iname_key (oi_iname (info (pi_base e)))) (pi_base e) E m"
    and "remove_cname info E pb m = remove_named (cname_key (oi_cname (info (pi_base e)))) (pi_base e) E m"
  unfolding add_iname_def add_cname_def add_named_def remove_iname_def remove_cname_def remove_named_def
    Let_def iname_better_def cname_better_def using assms by simp_all

lemma add_named_reg:
  assumes "reg_rel n m R" "reg_inv info E R" "n < 2 ^ 20"
  shows "\<exists>b m'. add_named k better E pb m = Some (b, m') \<and>
    reg_rel (Suc n) m' (registered (digest k) pb (\<lambda>pb'. better (pi_base (the (E pb')))) b R)"
proof -
  obtain r m1 where g: "hash_map_get m (key_bytes k) 0 = Some (r, m1)" "reg_rel n m1 R"
      "case R (digest k) of None \<Rightarrow> r = None | Some pb \<Rightarrow> \<exists>p sz. r = Some (p, sz) \<and> record_data m1 p = Some pb"
    using reg_get [OF assms(1)] by blast
  show ?thesis
  proof (cases "R (digest k)")
    case None
    obtain q m2 where "hash_map_add m1 (key_bytes k) pb 8 0 = Some (q, m2)" "reg_rel (Suc n) m2 (if q = None then R else R(digest k \<mapsto> pb))"
      using reg_add [OF g(2) assms(3) None] by blast
    then show ?thesis using g None
      by (intro exI [of _ "q \<noteq> None"] exI [of _ m2]) (auto simp: add_named_def registered_def)
  next
    case (Some pb')
    then obtain e' where e': "E pb' = Some e'" using assms(2) by (auto simp: reg_inv_def)
    obtain q m2 where "hash_map_set m1 (key_bytes k) pb 8 0 = Some (q, m2)" "reg_rel (Suc n) m2 (R(digest k := (if q = None then None else Some pb)))"
      using reg_set [OF g(2) assms(3)] by blast
    moreover have "reg_rel (Suc n) m1 R" using g(2) by (auto simp: reg_rel_def sized_def)
    ultimately show ?thesis using g Some e'
      by (cases "better (pi_base e')") (fastforce simp: add_named_def registered_def split: option.splits)+
  qed
qed

lemma remove_named_reg:
  assumes "reg_rel n m R" "reg_inv info E R"
  shows "\<exists>m' R'. remove_named k b E m = Some m' \<and> reg_rel n m' R' \<and> R' \<subseteq>\<^sub>m R \<and>
    (\<forall>pb. R' (digest k) = Some pb \<longrightarrow> pi_base (the (E pb)) \<noteq> b)"
proof -
  obtain r m1 where g: "hash_map_get m (key_bytes k) 0 = Some (r, m1)" "reg_rel n m1 R"
      "case R (digest k) of None \<Rightarrow> r = None | Some pb \<Rightarrow> \<exists>p sz. r = Some (p, sz) \<and> record_data m1 p = Some pb"
    using reg_get [OF assms(1)] by blast
  show ?thesis
  proof (cases "R (digest k)")
    case (Some pb')
    then obtain e' where e': "E pb' = Some e'" using assms(2) by (auto simp: reg_inv_def)
    obtain m2 where "hash_map_del m1 (key_bytes k) 0 = Some ((), m2)" "reg_rel n m2 (R(digest k := None))" using reg_del [OF g(2)] by blast
    then have "\<exists>m'. remove_named k b E m = Some m' \<and> reg_rel n m' (if pi_base e' = b then R(digest k := None) else R)"
      using g Some e' by (auto simp: remove_named_def)
    moreover have "(if pi_base e' = b then R(digest k := None) else R) \<subseteq>\<^sub>m R" by (auto simp: map_le_def)
    moreover have "\<forall>pb. (if pi_base e' = b then R(digest k := None) else R) (digest k) = Some pb \<longrightarrow> pi_base (the (E pb)) \<noteq> b"
      using Some e' by auto
    ultimately show ?thesis by blast
  qed (use g in \<open>auto simp: remove_named_def\<close>)
qed

lemma add_pointer_reg:
  assumes "reg_rel n m R" "n < 2 ^ 20" "E pb = Some e"
  shows "\<exists>b m'. add_pointer E pb m = Some (b, m') \<and>
    reg_rel (Suc n) m' (registered (digest (pointer_key (pi_base e))) pb (\<lambda>_. False) b R)"
proof (cases "R (digest (pointer_key (pi_base e)))")
  case None
  then obtain q m2 where "hash_map_add m (key_bytes (pointer_key (pi_base e))) pb 8 0 = Some (q, m2)"
      "reg_rel (Suc n) m2 (if q = None then R else R(digest (pointer_key (pi_base e)) \<mapsto> pb))"
    using reg_add [OF assms(1,2)] by blast
  then show ?thesis using assms(3) None
    by (intro exI [of _ "q \<noteq> None"] exI [of _ m2]) (auto simp: add_pointer_def registered_def)
next
  case (Some p)
  then obtain q m2 where "hash_map_add m (key_bytes (pointer_key (pi_base e))) pb 8 0 = Some (q, m2)" "q \<noteq> None" "reg_rel (Suc n) m2 R"
    using reg_add_old [OF assms(1,2)] by blast
  then show ?thesis using assms(3) Some by (auto simp: add_pointer_def registered_def)
qed

lemma own_keys:
  "digest (iname_key (oi_iname (info b))) \<in> keys_of info b" "digest (cname_key (oi_cname (info b))) \<in> keys_of info b"
  "digest (pointer_key b) \<in> keys_of info b"
  by (simp_all add: keys_of_def)

text \<open>What registering and removing do to the invariant.\<close>

lemma registered_inv:
  "reg_inv info E R \<Longrightarrow> E pb = Some e \<Longrightarrow> d \<in> keys_of info (pi_base e) \<Longrightarrow> reg_inv info E (registered d pb better b R)"
  by (auto simp: reg_inv_def registered_def split: option.splits)

lemma registered_old:
  "registered d pb better b R d' = Some pb' \<Longrightarrow> R d' = Some pb' \<or> pb' = pb"
  by (auto simp: registered_def split: option.splits if_splits)

lemma reg_inv_submap: "reg_inv info E R \<Longrightarrow> R' \<subseteq>\<^sub>m R \<Longrightarrow> reg_inv info E R'"
  unfolding reg_inv_def map_le_def by (metis domI)

lemma add_base_array_reg:
  "reg_rel n m R \<Longrightarrow> reg_inv info E R \<Longrightarrow> n + 3 * k < 2 ^ 20 \<Longrightarrow> \<forall>i < k. E (p + i * sizeof_base_entry) \<noteq> None \<Longrightarrow>
     \<exists>m' R'. add_base_array info E p k m = Some m' \<and> reg_rel (n + 3 * k) m' R' \<and> reg_inv info E R' \<and>
       (\<forall>d pb. R' d = Some pb \<longrightarrow> R d = Some pb \<or> (\<exists>i < k. pb = p + i * sizeof_base_entry))"
proof (induction k arbitrary: n m R p)
  case (Suc k)
  obtain e where e: "E p = Some e" using Suc.prems(4) by fastforce
  let ?ki = "iname_key (oi_iname (info (pi_base e)))" and ?kc = "cname_key (oi_cname (info (pi_base e)))" and ?kp = "pointer_key (pi_base e)"
  have lim: "n < 2 ^ 20" "Suc n < 2 ^ 20" "Suc (Suc n) < 2 ^ 20" using Suc.prems(3) by simp_all
  obtain b1 m1 R1 where 1: "add_iname info E p m = Some (b1, m1)" "reg_rel (Suc n) m1 R1" "reg_inv info E R1"
      "\<And>d pb. R1 d = Some pb \<Longrightarrow> R d = Some pb \<or> pb = p"
    using add_named_reg [OF Suc.prems(1,2) lim(1), of ?ki _ p] registered_inv [OF Suc.prems(2) e own_keys(1)]
      registered_old [of "digest ?ki" p] unfolding add_remove_named(1) [where E = E and pb = p and info = info, OF e] by metis
  obtain b2 m2 R2 where 2: "add_cname info E p m1 = Some (b2, m2)" "reg_rel (Suc (Suc n)) m2 R2" "reg_inv info E R2"
      "\<And>d pb. R2 d = Some pb \<Longrightarrow> R1 d = Some pb \<or> pb = p"
    using add_named_reg [OF 1(2,3) lim(2), of ?kc _ p] registered_inv [OF 1(3) e own_keys(2)]
      registered_old [of "digest ?kc" p] unfolding add_remove_named(2) [where E = E and pb = p and info = info, OF e] by metis
  obtain b3 m3 R3 where 3: "add_pointer E p m2 = Some (b3, m3)" "reg_rel (Suc (Suc (Suc n))) m3 R3" "reg_inv info E R3"
      "\<And>d pb. R3 d = Some pb \<Longrightarrow> R2 d = Some pb \<or> pb = p"
    using add_pointer_reg [where E = E and pb = p, OF 2(2) lim(3) e] registered_inv [OF 2(3) e own_keys(3)] registered_old [of "digest ?kp" p] by metis
  have es: "\<forall>i < k. E (p + sizeof_base_entry + i * sizeof_base_entry) \<noteq> None" 
  proof (intro allI impI)
    fix i assume "i < k"
    then show "E (p + sizeof_base_entry + i * sizeof_base_entry) \<noteq> None" using Suc.prems(4) [rule_format, of "Suc i"] by (simp add: ac_simps)
  qed
  have lim': "Suc (Suc (Suc n)) + 3 * k < 2 ^ 20" using Suc.prems(3) by simp
  obtain m' R' where r: "add_base_array info E (p + sizeof_base_entry) k m3 = Some m'" "reg_rel (Suc (Suc (Suc n)) + 3 * k) m' R'"
      "reg_inv info E R'" "\<forall>d pb. R' d = Some pb \<longrightarrow> R3 d = Some pb \<or> (\<exists>i < k. pb = p + sizeof_base_entry + i * sizeof_base_entry)"
    using Suc.IH [OF 3(2,3) lim' es] by blast
  have old: "R3 d = Some pb \<Longrightarrow> R d = Some pb \<or> pb = p" for d pb using 1(4) 2(4) 3(4) by blast
  have "R d = Some pb \<or> (\<exists>i < Suc k. pb = p + i * sizeof_base_entry)" if new: "R' d = Some pb" for d pb
  proof -
    consider (before) "R3 d = Some pb" | (later) i where "i < k" "pb = p + sizeof_base_entry + i * sizeof_base_entry" using r(4) new by blast
    then show ?thesis
    proof cases
      case before
      then show ?thesis using old [of d pb] by (auto intro!: exI [of _ 0])
    next
      case (later i)
      then show ?thesis by (intro disjI2 exI [of _ "Suc i"]) (simp add: ac_simps)
    qed
  qed
  moreover have "reg_rel (n + 3 * Suc k) m' R'" using r(2) by (simp add: eval_nat_numeral)
  ultimately show ?case using 1(1) 2(1) 3(1) r(1,3) by (intro exI [of _ m'] exI [of _ R']) simp
qed auto

text \<open>Removing one entry: nothing with its object is left.\<close>

lemma remove_entry_reg:
  assumes "reg_rel n m R" "reg_inv info E R" "E p = Some e"
  shows "\<exists>m1 m2 m3 R'. remove_iname info E p m = Some m1 \<and> remove_cname info E p m1 = Some m2 \<and>
    remove_pointer E p m2 = Some m3 \<and> reg_rel n m3 R' \<and> R' \<subseteq>\<^sub>m R \<and>
    (\<forall>d pb e'. R' d = Some pb \<longrightarrow> E pb = Some e' \<longrightarrow> pi_base e' \<noteq> pi_base e)"
proof -
  let ?ki = "iname_key (oi_iname (info (pi_base e)))" and ?kc = "cname_key (oi_cname (info (pi_base e)))" and ?kp = "pointer_key (pi_base e)"
  obtain m1 R1 where 1: "remove_iname info E p m = Some m1" "reg_rel n m1 R1" "R1 \<subseteq>\<^sub>m R"
      "\<And>pb. R1 (digest ?ki) = Some pb \<Longrightarrow> pi_base (the (E pb)) \<noteq> pi_base e"
    using remove_named_reg [OF assms(1,2), of ?ki] unfolding add_remove_named(3) [where E = E and pb = p and info = info, OF assms(3)] by metis
  obtain m2 R2 where 2: "remove_cname info E p m1 = Some m2" "reg_rel n m2 R2" "R2 \<subseteq>\<^sub>m R1"
      "\<And>pb. R2 (digest ?kc) = Some pb \<Longrightarrow> pi_base (the (E pb)) \<noteq> pi_base e"
    using remove_named_reg [OF 1(2) reg_inv_submap [OF assms(2) 1(3)], of ?kc]
    unfolding add_remove_named(4) [where E = E and pb = p and info = info, OF assms(3)] by metis
  let ?R' = "R2(digest ?kp := None)"
  obtain m3 where 3: "remove_pointer E p m2 = Some m3" "reg_rel n m3 ?R'"
    using reg_del [OF 2(2), of ?kp] assms(3) by (auto simp: remove_pointer_def)
  have le2: "?R' \<subseteq>\<^sub>m R2" by (auto simp: map_le_def)
  then have le: "?R' \<subseteq>\<^sub>m R" using 1(3) 2(3) by (meson map_le_trans)
  have "pi_base e' \<noteq> pi_base e" if R': "?R' d = Some pb" and e': "E pb = Some e'" for d pb e'
  proof
    assume eq: "pi_base e' = pi_base e"
    have R: "R2 d = Some pb" "R1 d = Some pb" "R d = Some pb" using R' le2 le 2(3) by (metis domI map_le_def)+
    then have "d \<in> keys_of info (pi_base e)" using assms(2) e' eq unfolding reg_inv_def by fastforce
    then show False using R' R(1,2) 1(4) [of pb] 2(4) [of pb] e' eq by (auto simp: keys_of_def split: if_splits)
  qed
  then show ?thesis using 1(1) 2(1) 3 le by blast
qed

lemma remove_base_array_reg:
  "reg_rel n m R \<Longrightarrow> reg_inv info E R \<Longrightarrow> \<forall>i < k. E (p + i * sizeof_base_entry) \<noteq> None \<Longrightarrow>
     \<exists>m' R'. remove_base_array info E p k m = Some m' \<and> reg_rel n m' R' \<and> R' \<subseteq>\<^sub>m R \<and>
       (\<forall>i < k. \<forall>d pb e e'. R' d = Some pb \<longrightarrow> E pb = Some e' \<longrightarrow> E (p + i * sizeof_base_entry) = Some e \<longrightarrow> pi_base e' \<noteq> pi_base e)"
proof (induction k arbitrary: m R p)
  case (Suc k)
  obtain e where e: "E p = Some e" using Suc.prems(3) by fastforce
  obtain m1 m2 m3 R1 where r: "remove_iname info E p m = Some m1" "remove_cname info E p m1 = Some m2" "remove_pointer E p m2 = Some m3"
      "reg_rel n m3 R1" "R1 \<subseteq>\<^sub>m R" "\<And>d pb e'. R1 d = Some pb \<Longrightarrow> E pb = Some e' \<Longrightarrow> pi_base e' \<noteq> pi_base e"
    using remove_entry_reg [OF Suc.prems(1,2) e] by metis
  have es: "\<forall>i < k. E (p + sizeof_base_entry + i * sizeof_base_entry) \<noteq> None"
  proof (intro allI impI)
    fix i assume "i < k"
    then show "E (p + sizeof_base_entry + i * sizeof_base_entry) \<noteq> None" using Suc.prems(3) [rule_format, of "Suc i"] by (simp add: ac_simps)
  qed
  obtain m' R' where i: "remove_base_array info E (p + sizeof_base_entry) k m3 = Some m'" "reg_rel n m' R'" "R' \<subseteq>\<^sub>m R1"
      "\<And>i d pb e e'. i < k \<Longrightarrow> R' d = Some pb \<Longrightarrow> E pb = Some e' \<Longrightarrow> E (p + sizeof_base_entry + i * sizeof_base_entry) = Some e \<Longrightarrow> pi_base e' \<noteq> pi_base e"
    using Suc.IH [OF r(4) reg_inv_submap [OF Suc.prems(2) r(5)] es] by metis
  have "pi_base e2 \<noteq> pi_base e1" if x: "i < Suc k" "R' d = Some pb" "E pb = Some e2" "E (p + i * sizeof_base_entry) = Some e1" for i d pb e1 e2
  proof (cases i)
    case 0
    then show ?thesis using r(6) [of d pb e2] i(3) x e by (auto simp: map_le_def dom_def)
  next
    case (Suc j)
    then show ?thesis using i(4) [of j d pb e2 e1] x by (simp add: ac_simps)
  qed
  then show ?case using r(1-3) i(1,2) map_le_trans [OF i(3) r(5)]
    by (intro exI [of _ m'] exI [of _ R']) auto
qed auto

section \<open>A registry at work\<close>

definition entries_1 :: entries where
  "entries_1 = [0x100 \<mapsto> \<lparr>pi_base = 0x5000, ref_cnt = 0, be_state = 0\<rparr>]"

definition info_1 :: "iBase \<Rightarrow> object_info" where
  "info_1 b = \<lparr>oi_iname = [0x69], oi_cname = [0x63], oi_size = 16, oi_version = 1, oi_flags = 2\<rparr>"

lemma reg_rel_1: "reg_rel 0 hash_map_1 Map.empty" "reg_inv info E Map.empty"
  using hash_map_1_rel by (auto simp: reg_rel_def reg_inv_def)

section \<open>Properties\<close>

text \<open>C36: Registering an entry under its names always returns. A name that is free gets the entry when
  there is memory; the entry replaces a registered one only if that has the same other name and a lower
  version, and a replacement that gets no memory leaves the name without any entry; otherwise nothing
  changes. Every lookup then returns what is registered under its digest, and every registered entry is
  still registered under a name of its own.\<close>

theorem add_name_policy:
  assumes "reg_rel n m R" "reg_inv info E R" "n < 2 ^ 20" "E pb = Some e"
  shows "(\<exists>b m'. add_iname info E pb m = Some (b, m') \<and>
      (let R' = registered (digest (iname_key (oi_iname (info (pi_base e))))) pb
         (\<lambda>pb'. iname_better info (pi_base e) (pi_base (the (E pb')))) b R
       in reg_inv info E R' \<and> (\<forall>k. \<exists>m''. find_object k m' = Some (R' (digest k), m'')))) \<and>
    (\<exists>b m'. add_cname info E pb m = Some (b, m') \<and>
      (let R' = registered (digest (cname_key (oi_cname (info (pi_base e))))) pb
         (\<lambda>pb'. cname_better info (pi_base e) (pi_base (the (E pb')))) b R
       in reg_inv info E R' \<and> (\<forall>k. \<exists>m''. find_object k m' = Some (R' (digest k), m''))))"
proof (intro conjI)
  show "\<exists>b m'. add_iname info E pb m = Some (b, m') \<and>
      (let R' = registered (digest (iname_key (oi_iname (info (pi_base e))))) pb
         (\<lambda>pb'. iname_better info (pi_base e) (pi_base (the (E pb')))) b R
       in reg_inv info E R' \<and> (\<forall>k. \<exists>m''. find_object k m' = Some (R' (digest k), m'')))"
    using add_named_reg [OF assms(1-3)] registered_inv [OF assms(2,4) own_keys(1)] reg_find
    unfolding add_remove_named(1) [where E = E and pb = pb and info = info, OF assms(4)] Let_def by metis
  show "\<exists>b m'. add_cname info E pb m = Some (b, m') \<and>
      (let R' = registered (digest (cname_key (oi_cname (info (pi_base e))))) pb
         (\<lambda>pb'. cname_better info (pi_base e) (pi_base (the (E pb')))) b R
       in reg_inv info E R' \<and> (\<forall>k. \<exists>m''. find_object k m' = Some (R' (digest k), m'')))"
    using add_named_reg [OF assms(1-3)] registered_inv [OF assms(2,4) own_keys(2)] reg_find
    unfolding add_remove_named(2) [where E = E and pb = pb and info = info, OF assms(4)] Let_def by metis
qed

theorem add_name_policy_witness:
  "\<exists>b m'. add_cname info_1 entries_1 0x100 hash_map_1 = Some (b, m') \<and>
    (let R' = registered (digest (cname_key [0x63])) 0x100
       (\<lambda>pb'. cname_better info_1 0x5000 (pi_base (the (entries_1 pb')))) b Map.empty
     in reg_inv info_1 entries_1 R' \<and> (\<forall>k. \<exists>m''. find_object k m' = Some (R' (digest k), m'')))"
  using add_name_policy [OF reg_rel_1, of entries_1 "0x100" _ info_1] by (simp add: entries_1_def info_1_def)

text \<open>C12: Unloading is safe: after an array of entries was registered and removed again, as
  \<open>extension_load\<close> and \<open>extension_unload\<close> do, both of which always return, no lookup under any key finds
  an entry of one of its objects.\<close>

theorem remove_base_array_forgets:
  assumes "reg_rel n m R" "reg_inv info E R" "n + 3 * k < 2 ^ 20" "\<forall>i < k. E (p + i * sizeof_base_entry) \<noteq> None"
  shows "\<exists>m1 m2. add_base_array info E p k m = Some m1 \<and> remove_base_array info E p k m1 = Some m2 \<and>
    (\<forall>key. \<exists>r m3. find_object key m2 = Some (r, m3) \<and>
      (\<forall>i < k. \<forall>pb e e'. r = Some pb \<longrightarrow> E pb = Some e' \<longrightarrow> E (p + i * sizeof_base_entry) = Some e \<longrightarrow>
        pi_base e' \<noteq> pi_base e))"
proof -
  obtain m1 R1 where a: "add_base_array info E p k m = Some m1" "reg_rel (n + 3 * k) m1 R1" "reg_inv info E R1"
    using add_base_array_reg [OF assms] by blast
  obtain m2 R2 where r: "remove_base_array info E p k m1 = Some m2" "reg_rel (n + 3 * k) m2 R2"
      "\<forall>i < k. \<forall>d pb e e'. R2 d = Some pb \<longrightarrow> E pb = Some e' \<longrightarrow> E (p + i * sizeof_base_entry) = Some e \<longrightarrow> pi_base e' \<noteq> pi_base e"
    using remove_base_array_reg [OF a(2,3) assms(4)] by blast
  have "\<forall>key. \<exists>m3. find_object key m2 = Some (R2 (digest key), m3)" using reg_find [OF r(2)] by blast
  then show ?thesis using a(1) r(1,3) by metis
qed

theorem remove_base_array_forgets_witness:
  "\<exists>m1 m2. add_base_array info_1 entries_1 0x100 1 hash_map_1 = Some m1 \<and>
    remove_base_array info_1 entries_1 0x100 1 m1 = Some m2 \<and>
    (\<forall>key. \<exists>r m3. find_object key m2 = Some (r, m3) \<and>
      (\<forall>i < 1. \<forall>pb e e'. r = Some pb \<longrightarrow> entries_1 pb = Some e' \<longrightarrow> entries_1 (0x100 + i * sizeof_base_entry) = Some e \<longrightarrow>
        pi_base e' \<noteq> pi_base e))"
  by (rule remove_base_array_forgets [OF reg_rel_1]) (simp_all add: entries_1_def)

end
