(* ===== verification/LinkMap.thy ===== *)
theory LinkMap
  imports BaseArray
begin

text \<open>
  The link maps of objects: core/repository-2/link_map.cpp. An object declares the other objects it
  uses; the repository fills and empties the pointers of the declaration through callbacks.
\<close>

section \<open>Links\<close>

text \<open>The pointers \<open>*ppi_base\<close> are the part \<open>slot_of\<close> of the state (0 for NULL), everything else that the
  callbacks change is \<open>world\<close>. The user data are part of each callback, and a callback that does not
  return is \<open>None\<close>.\<close>

record 'w lm_state =
  slot_of :: "addr \<Rightarrow> iBase"
  world :: 'w

datatype rctl = RCTL_LOAD | RCTL_REF | RCTL_UNREF | RCTL_UNLOAD

record 'w link_info =
  ppi_base :: ptr
  li_iname :: "u8 list option"
  li_cname :: "u8 list option"
  li_flags :: u8
  p_ref_ctl :: "(rctl \<Rightarrow> 'w lm_state \<Rightarrow> 'w lm_state option) option"
  p_info_ctl :: "(rctl \<Rightarrow> object_info \<Rightarrow> 'w lm_state \<Rightarrow> 'w lm_state option) option"

definition RF_CLONE :: u8 where "RF_CLONE = 1"
definition RF_ORIGINAL :: u8 where "RF_ORIGINAL = 2"
definition RF_TASK :: u8 where "RF_TASK = 4"
definition RF_NOCRITICAL :: u8 where "RF_NOCRITICAL = 16"
definition RF_KEEP_PENDING :: u8 where "RF_KEEP_PENDING = 32"
definition RF_POST_INIT :: u8 where "RF_POST_INIT = 64"

definition PLMR_READY :: u32 where "PLMR_READY = 1"
definition PLMR_KEEP_PENDING :: u32 where "PLMR_KEEP_PENDING = 2"
definition PLMR_FAILED :: u32 where "PLMR_FAILED = 4"
definition PLMR_UNINIT :: u32 where "PLMR_UNINIT = 8"

definition has :: "'w link_info \<Rightarrow> u8 \<Rightarrow> bool" where
  "has l f \<longleftrightarrow> li_flags l AND f \<noteq> 0"

definition set_slot :: "addr \<Rightarrow> iBase \<Rightarrow> 'w lm_state \<Rightarrow> 'w lm_state" where
  "set_slot a p s = s\<lparr>slot_of := (slot_of s)(a := p)\<rparr>"

definition ref_ctl :: "'w link_info \<Rightarrow> rctl \<Rightarrow> 'w lm_state \<Rightarrow> 'w lm_state option" where
  "ref_ctl l c s = (case p_ref_ctl l of None \<Rightarrow> Some s | Some f \<Rightarrow> f c s)"

definition info_ctl :: "'w link_info \<Rightarrow> rctl \<Rightarrow> object_info \<Rightarrow> 'w lm_state \<Rightarrow> 'w lm_state option" where
  "info_ctl l c oi s = (case p_info_ctl l of None \<Rightarrow> Some s | Some f \<Rightarrow> f c oi s)"

text \<open>The link map of an object is the value of the virtual method \<open>object_link\<close>, a parameter
  (\<open>None\<close> for NULL).\<close>

section \<open>Initialisation\<close>

fun lm_clean_loop :: "'w link_info list \<Rightarrow> 'w lm_state \<Rightarrow> 'w lm_state" where
  "lm_clean_loop [] s = s"
| "lm_clean_loop (l # ls) s = lm_clean_loop ls (case ppi_base l of None \<Rightarrow> s | Some a \<Rightarrow> set_slot a 0 s)"

definition lm_clean :: "(iBase \<Rightarrow> 'w link_info list option) \<Rightarrow> iBase \<Rightarrow> 'w lm_state \<Rightarrow> 'w lm_state" where
  "lm_clean object_link b s = (case object_link b of None \<Rightarrow> s | Some pl \<Rightarrow> lm_clean_loop pl s)"

fun lm_init_loop :: "('w link_info \<Rightarrow> 'w lm_state \<Rightarrow> (iBase \<times> 'w lm_state) option) \<Rightarrow> 'w link_info list \<Rightarrow> u32 \<Rightarrow>
    'w lm_state \<Rightarrow> (u32 \<times> 'w lm_state) option" where
  "lm_init_loop pcb [] r s = Some (r, s)"
| "lm_init_loop pcb (l # ls) r s =
     (let r = (if has l RF_KEEP_PENDING then r OR PLMR_KEEP_PENDING else r)
      in case ppi_base l of
           None \<Rightarrow> lm_init_loop pcb ls r s
         | Some a \<Rightarrow>
             if slot_of s a = 0 \<and> \<not> has l RF_POST_INIT then do {
               (p, s) \<leftarrow> pcb l s;
               let s = set_slot a p s;
               if p \<noteq> 0 then do { s \<leftarrow> ref_ctl l RCTL_REF s; lm_init_loop pcb ls r s }
               else if \<not> has l RF_NOCRITICAL then Some (PLMR_FAILED, s)
               else lm_init_loop pcb ls (r OR PLMR_KEEP_PENDING) s }
             else lm_init_loop pcb ls r s)"

definition lm_init :: "(iBase \<Rightarrow> 'w link_info list option) \<Rightarrow> iBase \<Rightarrow>
    ('w link_info \<Rightarrow> 'w lm_state \<Rightarrow> (iBase \<times> 'w lm_state) option) \<Rightarrow> 'w lm_state \<Rightarrow> (u32 \<times> 'w lm_state) option" where
  "lm_init object_link b pcb s =
     (case object_link b of None \<Rightarrow> Some (PLMR_READY, s) | Some pl \<Rightarrow> lm_init_loop pcb pl PLMR_READY s)"

fun lm_post_init_loop :: "('w link_info \<Rightarrow> 'w lm_state \<Rightarrow> (iBase \<times> 'w lm_state) option) \<Rightarrow> 'w link_info list \<Rightarrow> u32 \<Rightarrow>
    'w lm_state \<Rightarrow> (u32 \<times> 'w lm_state) option" where
  "lm_post_init_loop pcb [] r s = Some (r, s)"
| "lm_post_init_loop pcb (l # ls) r s = do {
     (failed, r, s) \<leftarrow>
       (case ppi_base l of
          None \<Rightarrow> Some (False, r, s)
        | Some a \<Rightarrow>
            if slot_of s a = 0 then do {
              (p, s) \<leftarrow> pcb l s;
              let s = set_slot a p s;
              if p \<noteq> 0 then do { s \<leftarrow> ref_ctl l RCTL_REF s; Some (False, r, s) }
              else if \<not> has l RF_NOCRITICAL then Some (True, PLMR_FAILED, s)
              else Some (False, r OR PLMR_KEEP_PENDING, s) }
            else Some (False, r, s));
     if failed then Some (r, s)
     else lm_post_init_loop pcb ls (if has l RF_KEEP_PENDING then r OR PLMR_KEEP_PENDING else r) s }"

definition lm_post_init :: "(iBase \<Rightarrow> 'w link_info list option) \<Rightarrow> iBase \<Rightarrow>
    ('w link_info \<Rightarrow> 'w lm_state \<Rightarrow> (iBase \<times> 'w lm_state) option) \<Rightarrow> 'w lm_state \<Rightarrow> (u32 \<times> 'w lm_state) option" where
  "lm_post_init object_link b pcb s =
     (case object_link b of None \<Rightarrow> Some (PLMR_READY, s) | Some pl \<Rightarrow> lm_post_init_loop pcb pl PLMR_READY s)"

definition lm_compare :: "(iBase \<Rightarrow> object_info) \<Rightarrow> 'w link_info \<Rightarrow> iBase \<Rightarrow> bool" where
  "lm_compare info pli b =
     (case li_cname pli of
        Some c \<Rightarrow> c = oi_cname (info b)
      | None \<Rightarrow> (case li_iname pli of Some i \<Rightarrow> i = oi_iname (info b) | None \<Rightarrow> False))"

text \<open>The variant for one entry \<open>e\<close>; a slot that is kept pending is filled again.\<close>

fun lm_post_init_entry_loop :: "(iBase \<Rightarrow> object_info) \<Rightarrow> iBase \<Rightarrow> (u8 \<Rightarrow> 'w lm_state \<Rightarrow> (iBase \<times> 'w lm_state) option) \<Rightarrow>
    'w link_info list \<Rightarrow> u32 \<Rightarrow> 'w lm_state \<Rightarrow> (u32 \<times> 'w lm_state) option" where
  "lm_post_init_entry_loop info e pcb [] r s = Some (r, s)"
| "lm_post_init_entry_loop info e pcb (l # ls) r s = do {
     let keep = has l RF_KEEP_PENDING;
     s \<leftarrow> (case ppi_base l of
         Some a \<Rightarrow>
           if (keep \<or> slot_of s a = 0) \<and> lm_compare info l e then do {
             (p, s) \<leftarrow> pcb (li_flags l) s;
             if p \<noteq> 0 then ref_ctl l RCTL_REF (set_slot a p s) else Some s }
           else Some s
       | None \<Rightarrow> if lm_compare info l e then info_ctl l RCTL_LOAD (info e) s else Some s);
     lm_post_init_entry_loop info e pcb ls (if keep then r OR PLMR_KEEP_PENDING else r) s }"

definition lm_post_init_entry :: "(iBase \<Rightarrow> object_info) \<Rightarrow> (iBase \<Rightarrow> 'w link_info list option) \<Rightarrow> iBase \<Rightarrow> base_entry \<Rightarrow>
    (u8 \<Rightarrow> 'w lm_state \<Rightarrow> (iBase \<times> 'w lm_state) option) \<Rightarrow> 'w lm_state \<Rightarrow> (u32 \<times> 'w lm_state) option" where
  "lm_post_init_entry info object_link b e pcb s =
     (case object_link b of None \<Rightarrow> Some (PLMR_READY, s)
      | Some pl \<Rightarrow> lm_post_init_entry_loop info (pi_base e) pcb pl PLMR_READY s)"

section \<open>Release\<close>

fun lm_pre_uninit_loop :: "(iBase \<Rightarrow> 'w lm_state \<Rightarrow> 'w lm_state option) \<Rightarrow> ('w link_info \<Rightarrow> iBase \<Rightarrow> 'w lm_state \<Rightarrow> 'w lm_state option) \<Rightarrow>
    iBase \<Rightarrow> 'w link_info list \<Rightarrow> 'w lm_state \<Rightarrow> 'w lm_state option" where
  "lm_pre_uninit_loop release remove_user b [] s = Some s"
| "lm_pre_uninit_loop release remove_user b (l # ls) s = do {
     s \<leftarrow> (if has l RF_POST_INIT then
            case ppi_base l of
              Some a \<Rightarrow>
                if slot_of s a \<noteq> 0 then do {
                  s \<leftarrow> ref_ctl l RCTL_UNREF s;
                  s \<leftarrow> release (slot_of s a) s;
                  Some (set_slot a 0 s) }
                else Some s
            | None \<Rightarrow> remove_user l b s
          else Some s);
     lm_pre_uninit_loop release remove_user b ls s }"

definition lm_pre_uninit :: "(iBase \<Rightarrow> 'w link_info list option) \<Rightarrow> iBase \<Rightarrow> (iBase \<Rightarrow> 'w lm_state \<Rightarrow> 'w lm_state option) \<Rightarrow>
    ('w link_info \<Rightarrow> iBase \<Rightarrow> 'w lm_state \<Rightarrow> 'w lm_state option) \<Rightarrow> 'w lm_state \<Rightarrow> (u32 \<times> 'w lm_state) option" where
  "lm_pre_uninit object_link b release remove_user s =
     (case object_link b of None \<Rightarrow> Some (PLMR_READY, s)
      | Some pl \<Rightarrow> map_option (Pair PLMR_READY) (lm_pre_uninit_loop release remove_user b pl s))"

fun lm_uninit_loop :: "(iBase \<Rightarrow> 'w lm_state \<Rightarrow> 'w lm_state option) \<Rightarrow> 'w link_info list \<Rightarrow> 'w lm_state \<Rightarrow> 'w lm_state option" where
  "lm_uninit_loop release [] s = Some s"
| "lm_uninit_loop release (l # ls) s = do {
     s \<leftarrow> (case ppi_base l of
         Some a \<Rightarrow>
           if slot_of s a \<noteq> 0 then do {
             s \<leftarrow> ref_ctl l RCTL_UNREF s;
             s \<leftarrow> release (slot_of s a) s;
             Some (set_slot a 0 s) }
           else Some s
       | None \<Rightarrow> Some s);
     lm_uninit_loop release ls s }"

definition lm_uninit :: "(iBase \<Rightarrow> 'w link_info list option) \<Rightarrow> iBase \<Rightarrow> (iBase \<Rightarrow> 'w lm_state \<Rightarrow> 'w lm_state option) \<Rightarrow>
    'w lm_state \<Rightarrow> (u32 \<times> 'w lm_state) option" where
  "lm_uninit object_link b release s =
     (case object_link b of None \<Rightarrow> Some (PLMR_READY, s)
      | Some pl \<Rightarrow> map_option (Pair PLMR_READY) (lm_uninit_loop release pl s))"

text \<open>Removing the links to one entry \<open>e\<close> that goes away.\<close>

fun lm_remove_loop :: "(iBase \<Rightarrow> object_info) \<Rightarrow> iBase \<Rightarrow> (iBase \<Rightarrow> 'w lm_state \<Rightarrow> 'w lm_state option) \<Rightarrow>
    'w link_info list \<Rightarrow> u32 \<Rightarrow> 'w lm_state \<Rightarrow> (u32 \<times> 'w lm_state) option" where
  "lm_remove_loop info e release [] r s = Some (r, s)"
| "lm_remove_loop info e release (l # ls) r s = do {
     let r = (if has l RF_KEEP_PENDING then r OR PLMR_KEEP_PENDING else r);
     (case ppi_base l of
        Some a \<Rightarrow>
          if slot_of s a \<noteq> 0 \<and> lm_compare info l e then do {
            let r = (if \<not> has l RF_NOCRITICAL then PLMR_UNINIT else r);
            s \<leftarrow> (if p_ref_ctl l \<noteq> None then ref_ctl l RCTL_UNREF (set_slot a e s) else Some s);
            s \<leftarrow> release (slot_of s a) s;
            lm_remove_loop info e release ls r (set_slot a 0 s) }
          else lm_remove_loop info e release ls r s
      | None \<Rightarrow> do {
          s \<leftarrow> (if lm_compare info l e then info_ctl l RCTL_UNLOAD (info e) s else Some s);
          lm_remove_loop info e release ls r s }) }"

definition lm_remove :: "(iBase \<Rightarrow> object_info) \<Rightarrow> (iBase \<Rightarrow> 'w link_info list option) \<Rightarrow> iBase \<Rightarrow> base_entry \<Rightarrow>
    (iBase \<Rightarrow> 'w lm_state \<Rightarrow> 'w lm_state option) \<Rightarrow> 'w lm_state \<Rightarrow> (u32 \<times> 'w lm_state) option" where
  "lm_remove info object_link b e release s =
     (case object_link b of None \<Rightarrow> Some (PLMR_READY, s)
      | Some pl \<Rightarrow> lm_remove_loop info (pi_base e) release pl PLMR_READY s)"

section \<open>Links that must be there\<close>

text \<open>A callback that leaves no slot empty that was filled.\<close>

definition fills :: "'w lm_state \<Rightarrow> 'w lm_state \<Rightarrow> bool" where
  "fills s s' \<longleftrightarrow> (\<forall>a. slot_of s a \<noteq> 0 \<longrightarrow> slot_of s' a \<noteq> 0)"

definition critical :: "'w link_info \<Rightarrow> bool" where
  "critical l \<longleftrightarrow> \<not> has l RF_POST_INIT \<and> \<not> has l RF_NOCRITICAL"

lemma fills_refl [simp]: "fills s s"
  by (simp add: fills_def)

lemma fills_trans: "fills s s' \<Longrightarrow> fills s' s'' \<Longrightarrow> fills s s''"
  by (simp add: fills_def)

lemma fills_set_slot: "slot_of s a = 0 \<Longrightarrow> fills s s' \<Longrightarrow> fills s (set_slot a p s')"
  by (auto simp: fills_def set_slot_def)

lemma plmr_bits:
  "(r OR PLMR_KEEP_PENDING) AND PLMR_READY = r AND PLMR_READY" "PLMR_FAILED AND PLMR_READY = 0" "PLMR_READY AND PLMR_READY \<noteq> 0"
proof -
  show "(r OR PLMR_KEEP_PENDING) AND PLMR_READY = r AND PLMR_READY"
    unfolding PLMR_KEEP_PENDING_def PLMR_READY_def by (simp add: word_ao_dist)
qed (simp_all add: PLMR_FAILED_def PLMR_READY_def)

lemma lm_init_loop_ready:
  assumes "\<And>l s p s'. pcb l s = Some (p, s') \<Longrightarrow> fills s s'"
  shows "lm_init_loop pcb ls r s = Some (r', s') \<Longrightarrow> \<forall>l \<in> set ls. \<forall>c s s'. ref_ctl l c s = Some s' \<longrightarrow> fills s s' \<Longrightarrow>
    r AND PLMR_READY \<noteq> 0 \<Longrightarrow>
    (if r' AND PLMR_READY \<noteq> 0
     then fills s s' \<and> (\<forall>l \<in> set ls. \<forall>a. critical l \<longrightarrow> ppi_base l = Some a \<longrightarrow> slot_of s' a \<noteq> 0)
     else r' = PLMR_FAILED \<and> (\<exists>l \<in> set ls. \<exists>a. critical l \<and> ppi_base l = Some a \<and> slot_of s' a = 0))"
proof (induction ls arbitrary: r s)
  case (Cons l ls)
  define r1 where "r1 = (if has l RF_KEEP_PENDING then r OR PLMR_KEEP_PENDING else r)"
  have r1: "r1 AND PLMR_READY \<noteq> 0" "(r1 OR PLMR_KEEP_PENDING) AND PLMR_READY \<noteq> 0" using Cons.prems(3) by (simp_all add: r1_def plmr_bits)
  have rest: "\<forall>l \<in> set ls. \<forall>c s s'. ref_ctl l c s = Some s' \<longrightarrow> fills s s'" using Cons.prems(2) by simp
  show ?case
  proof (cases "\<exists>a. ppi_base l = Some a \<and> slot_of s a = 0 \<and> \<not> has l RF_POST_INIT")
    case False
    then have "lm_init_loop pcb ls r1 s = Some (r', s')" using Cons.prems(1) by (auto simp: r1_def Let_def split: option.splits if_splits)
    note ih = Cons.IH [OF this rest r1(1)]
    then show ?thesis using False by (auto simp: critical_def fills_def split: if_splits)
  next
    case True
    then obtain a where a: "ppi_base l = Some a" "slot_of s a = 0" "\<not> has l RF_POST_INIT" by blast
    obtain p s1 where p: "pcb l s = Some (p, s1)"
      "(if p \<noteq> 0 then do { s \<leftarrow> ref_ctl l RCTL_REF (set_slot a p s1); lm_init_loop pcb ls r1 s }
        else if \<not> has l RF_NOCRITICAL then Some (PLMR_FAILED, set_slot a p s1)
        else lm_init_loop pcb ls (r1 OR PLMR_KEEP_PENDING) (set_slot a p s1)) = Some (r', s')"
      using Cons.prems(1) a by (auto simp: r1_def [symmetric] Let_def bind_Some_iff)
    have f1: "fills s (set_slot a p s1)" using fills_set_slot [OF a(2)] assms [OF p(1)] .
    consider (got) s2 where "p \<noteq> 0" "ref_ctl l RCTL_REF (set_slot a p s1) = Some s2" "lm_init_loop pcb ls r1 s2 = Some (r', s')"
      | (failed) "p = 0" "\<not> has l RF_NOCRITICAL" "r' = PLMR_FAILED" "s' = set_slot a p s1"
      | (none) "p = 0" "has l RF_NOCRITICAL" "lm_init_loop pcb ls (r1 OR PLMR_KEEP_PENDING) (set_slot a p s1) = Some (r', s')"
      using p(2) by (auto simp: bind_Some_iff split: if_splits)
    then show ?thesis
    proof cases
      case got
      have f2: "fills (set_slot a p s1) s2" using Cons.prems(2) got(2) by auto
      then have "slot_of s2 a \<noteq> 0" using got(1) by (simp add: fills_def set_slot_def)
      then show ?thesis using Cons.IH [OF got(3) rest r1(1)] a(1) fills_trans [OF f1 f2] fills_trans [of s s2 s']
        by (auto simp: fills_def split: if_splits)
    next
      case failed
      then show ?thesis using a by (auto simp: plmr_bits critical_def set_slot_def)
    next
      case none
      then show ?thesis using Cons.IH [OF none(3) rest r1(2)] fills_trans [OF f1, of s'] by (auto simp: critical_def split: if_splits)
    qed
  qed
qed simp

section \<open>What is acquired is released\<close>

fun addrs :: "'w link_info list \<Rightarrow> addr list" where
  "addrs [] = []"
| "addrs (l # ls) = (case ppi_base l of None \<Rightarrow> addrs ls | Some a \<Rightarrow> a # addrs ls)"

text \<open>Callbacks that hand out objects and record which, and which are given back.\<close>

type_synonym account = "iBase list \<times> iBase list"

definition hand_out :: "(account link_info \<Rightarrow> iBase) \<Rightarrow> account link_info \<Rightarrow> account lm_state \<Rightarrow> (iBase \<times> account lm_state) option" where
  "hand_out get l s = Some (get l, s\<lparr>world := (if get l \<noteq> 0 then fst (world s) @ [get l] else fst (world s), snd (world s))\<rparr>)"

definition take_back :: "iBase \<Rightarrow> account lm_state \<Rightarrow> account lm_state option" where
  "take_back p s = Some (s\<lparr>world := (fst (world s), snd (world s) @ [p])\<rparr>)"

definition held :: "'w link_info list \<Rightarrow> 'w lm_state \<Rightarrow> iBase list" where
  "held ls s = filter (\<lambda>p. p \<noteq> 0) (map (slot_of s) (addrs ls))"

lemma lm_clean_loop_slots:
  "slot_of (lm_clean_loop ls s) = (\<lambda>a. if a \<in> set (addrs ls) then 0 else slot_of s a) \<and> world (lm_clean_loop ls s) = world s"
  by (induction ls arbitrary: s) (auto simp: set_slot_def split: option.splits)

lemma lm_init_loop_account:
  "\<forall>l \<in> set ls. \<forall>c s. ref_ctl l c s = Some s \<Longrightarrow> distinct (addrs ls) \<Longrightarrow> \<forall>a \<in> set (addrs ls). slot_of s a = 0 \<Longrightarrow>
     \<exists>r' s'. lm_init_loop (hand_out get) ls r s = Some (r', s') \<and> world s' = (fst (world s) @ held ls s', snd (world s)) \<and>
       (\<forall>b. b \<notin> set (addrs ls) \<longrightarrow> slot_of s' b = slot_of s b)"
proof (induction ls arbitrary: r s)
  case (Cons l ls)
  define r1 where "r1 = (if has l RF_KEEP_PENDING then r OR PLMR_KEEP_PENDING else r)"
  have ctl: "\<forall>l \<in> set ls. \<forall>c s. ref_ctl l c s = Some s" "ref_ctl l c s = Some s" for c s using Cons.prems(1) by simp_all
  show ?case
  proof (cases "ppi_base l")
    case None
    have d: "distinct (addrs ls)" "\<forall>a \<in> set (addrs ls). slot_of s a = 0" using Cons.prems(2,3) None by simp_all
    show ?thesis using Cons.IH [OF ctl(1) d, of r1] None by (auto simp: r1_def Let_def held_def)
  next
    case (Some a)
    then have d: "distinct (addrs ls)" "a \<notin> set (addrs ls)" "slot_of s a = 0" using Cons.prems(2,3) by auto
    let ?h = "\<lambda>p. if p \<noteq> 0 then [p] else []"
    have next_link: "\<exists>r' s'. lm_init_loop (hand_out get) ls r0 s0 = Some (r', s') \<and> world s' = (fst (world s) @ held (l # ls) s', snd (world s)) \<and>
        (\<forall>b. b \<notin> set (addrs (l # ls)) \<longrightarrow> slot_of s' b = slot_of s b)"
      if s0: "slot_of s0 = (slot_of s)(a := p)" "world s0 = (fst (world s) @ ?h p, snd (world s))" for r0 s0 p
    proof -
      have "\<forall>b \<in> set (addrs ls). slot_of s0 b = 0" using Cons.prems(3) Some d(2) s0(1) by auto
      then obtain r' s' where i: "lm_init_loop (hand_out get) ls r0 s0 = Some (r', s')" "world s' = (fst (world s0) @ held ls s', snd (world s0))"
          "\<forall>b. b \<notin> set (addrs ls) \<longrightarrow> slot_of s' b = slot_of s0 b" using Cons.IH [OF ctl(1) d(1), of s0 r0] by blast
      have "slot_of s' a = p" using i(3) d(2) s0(1) by simp
      then have "held (l # ls) s' = ?h p @ held ls s'" using Some by (simp add: held_def)
      then show ?thesis using i s0 Some by (intro exI [of _ r'] exI [of _ s']) auto
    qed
    let ?s1 = "set_slot a (get l) (s\<lparr>world := (if get l \<noteq> 0 then fst (world s) @ [get l] else fst (world s), snd (world s))\<rparr>)"
    have s1: "slot_of ?s1 = (slot_of s)(a := get l)" "world ?s1 = (fst (world s) @ ?h (get l), snd (world s))" by (simp_all add: set_slot_def)
    have s0: "slot_of s = (slot_of s)(a := 0)" "world s = (fst (world s) @ ?h 0, snd (world s))" using d(3) by auto
    consider (skip) "has l RF_POST_INIT" | (got) "\<not> has l RF_POST_INIT" "get l \<noteq> 0"
      | (failed) "\<not> has l RF_POST_INIT" "get l = 0" "\<not> has l RF_NOCRITICAL" | (none) "\<not> has l RF_POST_INIT" "get l = 0" "has l RF_NOCRITICAL"
      by blast
    then show ?thesis
    proof cases
      case skip
      then have "lm_init_loop (hand_out get) (l # ls) r s = lm_init_loop (hand_out get) ls r1 s" using Some by (simp add: r1_def Let_def)
      then show ?thesis using next_link [OF s0] by simp
    next
      case got
      then have "lm_init_loop (hand_out get) (l # ls) r s = lm_init_loop (hand_out get) ls r1 ?s1"
        using Some d(3) ctl(2) by (simp add: r1_def Let_def hand_out_def)
      then show ?thesis using next_link [OF s1] by simp
    next
      case failed
      have "held (l # ls) ?s1 = []" using Cons.prems(3) Some d(2) failed(2) by (auto simp: held_def filter_empty_conv set_slot_def)
      moreover have "lm_init_loop (hand_out get) (l # ls) r s = Some (PLMR_FAILED, ?s1)" using failed Some d(3) by (simp add: Let_def hand_out_def)
      ultimately show ?thesis using s1 Some failed(2) by (intro exI [of _ PLMR_FAILED] exI [of _ ?s1]) (simp del: lm_init_loop.simps)
    next
      case none
      then have "lm_init_loop (hand_out get) (l # ls) r s = lm_init_loop (hand_out get) ls (r1 OR PLMR_KEEP_PENDING) ?s1"
        using Some d(3) by (simp add: r1_def Let_def hand_out_def)
      then show ?thesis using next_link [OF s1] by simp
    qed
  qed
qed (simp add: held_def)

lemma held_cong: "(\<And>a. a \<in> set (addrs ls) \<Longrightarrow> slot_of s a = slot_of s' a) \<Longrightarrow> held ls s = held ls s'"
  unfolding held_def by (metis (mono_tags, lifting) map_eq_conv)

lemma lm_uninit_loop_account:
  "\<forall>l \<in> set ls. \<forall>c s. ref_ctl l c s = Some s \<Longrightarrow> distinct (addrs ls) \<Longrightarrow>
     \<exists>s'. lm_uninit_loop take_back ls s = Some s' \<and> world s' = (fst (world s), snd (world s) @ held ls s) \<and>
       slot_of s' = (\<lambda>a. if a \<in> set (addrs ls) then 0 else slot_of s a)"
proof (induction ls arbitrary: s)
  case (Cons l ls)
  have ctl: "\<forall>l \<in> set ls. \<forall>c s. ref_ctl l c s = Some s" "ref_ctl l c s = Some s" for c s using Cons.prems(1) by simp_all
  show ?case
  proof (cases "ppi_base l")
    case None
    then show ?thesis using Cons.IH [OF ctl(1)] Cons.prems(2) by (auto simp: held_def)
  next
    case (Some a)
    then have d: "distinct (addrs ls)" "a \<notin> set (addrs ls)" using Cons.prems(2) by auto
    let ?s1 = "set_slot a 0 (s\<lparr>world := (fst (world s), snd (world s) @ [slot_of s a])\<rparr>)"
    let ?s0 = "if slot_of s a \<noteq> 0 then ?s1 else s"
    have h: "held ls ?s0 = held ls s" using d(2) by (intro held_cong) (auto simp: set_slot_def)
    have step: "lm_uninit_loop take_back (l # ls) s = lm_uninit_loop take_back ls ?s0" using Some ctl(2) by (simp add: take_back_def)
    obtain s' where i: "lm_uninit_loop take_back ls ?s0 = Some s'" "world s' = (fst (world ?s0), snd (world ?s0) @ held ls ?s0)"
        "slot_of s' = (\<lambda>a. if a \<in> set (addrs ls) then 0 else slot_of ?s0 a)" using Cons.IH [OF ctl(1) d(1), of ?s0] by blast
    have "world s' = (fst (world s), snd (world s) @ held (l # ls) s)" using i(2) h Some by (auto simp: held_def set_slot_def)
    moreover have "slot_of s' = (\<lambda>b. if b \<in> set (addrs (l # ls)) then 0 else slot_of s b)" using i(3) Some by (auto simp: set_slot_def)
    ultimately show ?thesis using step i(1) by simp
  qed
qed (simp add: held_def)

section \<open>A link map\<close>

definition link_1 :: "addr \<Rightarrow> u8 \<Rightarrow> 'w link_info" where
  "link_1 a f = \<lparr>ppi_base = Some a, li_iname = Some [0x69], li_cname = None, li_flags = f, p_ref_ctl = None, p_info_ctl = None\<rparr>"

section \<open>Properties\<close>

text \<open>When \<open>lm_init\<close> returns with \<open>PLMR_READY\<close>, every link that must be there at once holds an object;
  otherwise it returns \<open>PLMR_FAILED\<close> because one of these links got none. The callbacks may change any
  pointer as long as none that was set becomes NULL.\<close>

theorem lm_init_ready:
  assumes "\<And>l s p s'. pcb l s = Some (p, s') \<Longrightarrow> fills s s'"
    and "\<forall>l \<in> set pl. \<forall>c s s'. ref_ctl l c s = Some s' \<longrightarrow> fills s s'"
    and "object_link b = Some pl" "lm_init object_link b pcb s = Some (r, s')"
  shows "if r AND PLMR_READY \<noteq> 0
    then \<forall>l \<in> set pl. \<forall>a. critical l \<longrightarrow> ppi_base l = Some a \<longrightarrow> slot_of s' a \<noteq> 0
    else r = PLMR_FAILED \<and> (\<exists>l \<in> set pl. \<exists>a. critical l \<and> ppi_base l = Some a \<and> slot_of s' a = 0)"
  using lm_init_loop_ready [where pcb = pcb and r = PLMR_READY and r' = r, OF assms(1) _ assms(2)] assms(3,4) plmr_bits(3)
  by (auto simp: lm_init_def split: if_splits)

theorem lm_init_ready_witness:
  "let pl = [link_1 0x10 RF_ORIGINAL, link_1 0x18 RF_CLONE]; pcb = (\<lambda>l s. Some (if ppi_base l = Some 0x10 then 0x5000 else 0, s));
     s = \<lparr>slot_of = (\<lambda>_. 0), world = ()\<rparr>
   in \<exists>r s'. lm_init (\<lambda>_. Some pl) 0x7000 pcb s = Some (r, s') \<and>
     (if r AND PLMR_READY \<noteq> 0
      then \<forall>l \<in> set pl. \<forall>a. critical l \<longrightarrow> ppi_base l = Some a \<longrightarrow> slot_of s' a \<noteq> 0
      else r = PLMR_FAILED \<and> (\<exists>l \<in> set pl. \<exists>a. critical l \<and> ppi_base l = Some a \<and> slot_of s' a = 0))"
proof -
  let ?pl = "[link_1 0x10 RF_ORIGINAL, link_1 0x18 RF_CLONE] :: unit link_info list"
  let ?pcb = "\<lambda>l s. Some (if ppi_base l = Some 0x10 then 0x5000 else 0 :: iBase, s :: unit lm_state)"
  let ?s = "\<lparr>slot_of = (\<lambda>_. 0), world = ()\<rparr> :: unit lm_state"
  obtain r s' where "lm_init (\<lambda>_. Some ?pl) 0x7000 ?pcb ?s = Some (r, s')"
    by (simp add: lm_init_def Let_def link_1_def has_def ref_ctl_def RF_ORIGINAL_def RF_CLONE_def RF_KEEP_PENDING_def
        RF_POST_INIT_def RF_NOCRITICAL_def set_slot_def)
  moreover from lm_init_ready [OF _ _ refl this]
  have "if r AND PLMR_READY \<noteq> 0
      then \<forall>l \<in> set ?pl. \<forall>a. critical l \<longrightarrow> ppi_base l = Some a \<longrightarrow> slot_of s' a \<noteq> 0
      else r = PLMR_FAILED \<and> (\<exists>l \<in> set ?pl. \<exists>a. critical l \<and> ppi_base l = Some a \<and> slot_of s' a = 0)"
    by (simp add: link_1_def ref_ctl_def)
  ultimately show ?thesis unfolding Let_def by blast
qed

text \<open>C17: What \<open>lm_init\<close> acquired \<open>lm_uninit\<close> gives back: whatever \<open>lm_init\<close> returns, a following
  \<open>lm_uninit\<close> releases exactly the objects that were handed out, in the same order and once each, and
  leaves every pointer of the link map NULL.\<close>

theorem lm_init_uninit_balanced:
  assumes "object_link b = Some pl" "distinct (addrs pl)" "\<forall>l \<in> set pl. \<forall>c s. ref_ctl l c s = Some s"
  shows "\<exists>r s1 s2 acquired. lm_init object_link b (hand_out get) (lm_clean object_link b s) = Some (r, s1) \<and>
    world s1 = (fst (world s) @ acquired, snd (world s)) \<and>
    lm_uninit object_link b take_back s1 = Some (PLMR_READY, s2) \<and>
    world s2 = (fst (world s) @ acquired, snd (world s) @ acquired) \<and> (\<forall>a \<in> set (addrs pl). slot_of s2 a = 0)"
proof -
  let ?s = "lm_clean_loop pl s"
  have zero: "\<forall>a \<in> set (addrs pl). slot_of ?s a = 0" using lm_clean_loop_slots [of pl s] by simp
  obtain r s1 where i: "lm_init_loop (hand_out get) pl PLMR_READY ?s = Some (r, s1)" "world s1 = (fst (world ?s) @ held pl s1, snd (world ?s))"
    using lm_init_loop_account [OF assms(3,2) zero] by blast
  obtain s2 where u: "lm_uninit_loop take_back pl s1 = Some s2" "world s2 = (fst (world s1), snd (world s1) @ held pl s1)"
      "slot_of s2 = (\<lambda>a. if a \<in> set (addrs pl) then 0 else slot_of s1 a)"
    using lm_uninit_loop_account [OF assms(3,2)] by blast
  show ?thesis using i u lm_clean_loop_slots [of pl s] assms(1)
    by (intro exI [of _ r] exI [of _ s1] exI [of _ s2] exI [of _ "held pl s1"]) (simp add: lm_init_def lm_clean_def lm_uninit_def)
qed

theorem lm_init_uninit_balanced_witness:
  "\<exists>r s1 s2 acquired. lm_init (\<lambda>_. Some [link_1 0x10 RF_ORIGINAL, link_1 0x18 RF_CLONE]) 0x7000 (hand_out (\<lambda>_. 0x5000))
      (lm_clean (\<lambda>_. Some [link_1 0x10 RF_ORIGINAL, link_1 0x18 RF_CLONE]) 0x7000 \<lparr>slot_of = (\<lambda>_. 1), world = ([], [])\<rparr>) = Some (r, s1) \<and>
    world s1 = (fst ([], []) @ acquired, snd ([] :: iBase list, [])) \<and>
    lm_uninit (\<lambda>_. Some [link_1 0x10 RF_ORIGINAL, link_1 0x18 RF_CLONE]) 0x7000 take_back s1 = Some (PLMR_READY, s2) \<and>
    world s2 = (fst ([], []) @ acquired, snd ([] :: iBase list, []) @ acquired) \<and>
    (\<forall>a \<in> set (addrs [link_1 0x10 RF_ORIGINAL, link_1 0x18 RF_CLONE :: account link_info]). slot_of s2 a = 0)"
  using lm_init_uninit_balanced [of "\<lambda>_. Some [link_1 0x10 RF_ORIGINAL, link_1 0x18 RF_CLONE]" "0x7000"
      "[link_1 0x10 RF_ORIGINAL, link_1 0x18 RF_CLONE]" "\<lambda>_. 0x5000" "\<lparr>slot_of = (\<lambda>_. 1), world = ([], [])\<rparr>"]
  by (simp add: link_1_def ref_ctl_def)

end
