(* ===== verification/Bytes.thy ===== *)
theory Bytes
  imports Prelude
begin

text \<open>
  Byte memory for the string routines: a block is the list of its bytes, and an access outside it
  is \<open>None\<close>. A C string at an address is its bytes before the NUL.
\<close>

section \<open>Reading and writing\<close>

definition rd :: "u8 list \<Rightarrow> nat \<Rightarrow> u8 option" where
  "rd mem i = (if i < length mem then Some (mem ! i) else None)"

definition wr :: "u8 list \<Rightarrow> nat \<Rightarrow> u8 \<Rightarrow> u8 list option" where
  "wr mem i b = (if i < length mem then Some (mem[i := b]) else None)"

text \<open>Writing \<open>bs\<close> from index \<open>i\<close> on.\<close>

definition write_at :: "u8 list \<Rightarrow> nat \<Rightarrow> u8 list \<Rightarrow> u8 list" where
  "write_at mem i bs = take i mem @ bs @ drop (i + length bs) mem"

lemma wr_write_at: "i < length mem \<Longrightarrow> wr mem i b = Some (write_at mem i [b])"
  by (simp add: wr_def write_at_def upd_conv_take_nth_drop)

lemma wr_None: "\<not> i < length mem \<Longrightarrow> wr mem i b = None"
  by (simp add: wr_def)

lemma length_write_at [simp]: "i + length bs \<le> length mem \<Longrightarrow> length (write_at mem i bs) = length mem"
  by (simp add: write_at_def)

lemma write_at_Nil [simp]: "write_at mem i [] = mem"
  by (simp add: write_at_def)

lemma write_at_append:
  "i + length bs + length cs \<le> length mem \<Longrightarrow>
     write_at (write_at mem i bs) (i + length bs) cs = write_at mem i (bs @ cs)"
  by (simp add: write_at_def ac_simps)

lemma write_at_Cons:
  "i + Suc (length cs) \<le> length mem \<Longrightarrow> write_at (write_at mem i [b]) (Suc i) cs = write_at mem i (b # cs)"
  using write_at_append [of i "[b]" cs mem] by simp

lemma write_at_3: "i + 3 \<le> length mem \<Longrightarrow> write_at (write_at mem i [a, b]) (Suc (Suc i)) [c] = write_at mem i [a, b, c]"
  using write_at_append [of i "[a, b]" "[c]" mem] by simp

lemma rd_Some: "i < length mem \<Longrightarrow> rd mem i = Some (mem ! i)"
  by (simp add: rd_def)

lemma rd_None: "\<not> i < length mem \<Longrightarrow> rd mem i = None"
  by (simp add: rd_def)

lemma nth_write_at:
  "i + length bs \<le> length mem \<Longrightarrow> k < length mem \<Longrightarrow>
     write_at mem i bs ! k = (if i \<le> k \<and> k < i + length bs then bs ! (k - i) else mem ! k)"
  by (auto simp: write_at_def nth_append min_def)

lemma take_write_at: "k \<le> i \<Longrightarrow> i \<le> length mem \<Longrightarrow> take k (write_at mem i bs) = take k mem"
  by (simp add: write_at_def)

lemma drop_write_at: "i + length bs \<le> k \<Longrightarrow> i + length bs \<le> length mem \<Longrightarrow> drop k (write_at mem i bs) = drop k mem"
  by (simp add: write_at_def)

lemma slice_write_at: "i + length bs \<le> length mem \<Longrightarrow> take (length bs) (drop i (write_at mem i bs)) = bs"
  by (simp add: write_at_def)

lemma write_at_commute_append:
  "i + length bs + length cs \<le> length mem \<Longrightarrow> write_at (write_at mem (i + length bs) cs) i bs = write_at mem i (bs @ cs)"
  by (simp add: write_at_def ac_simps drop_take)

text \<open>\<open>toupper\<close> of the C library in the default locale.\<close>

definition toupper :: "u8 \<Rightarrow> u8" where
  "toupper ch = (if 0x61 \<le> ch \<and> ch \<le> 0x7A then ch - 0x20 else ch)"

section \<open>Strings\<close>

definition str_at :: "u8 list \<Rightarrow> nat \<Rightarrow> u8 list \<Rightarrow> bool" where
  "str_at mem p s \<longleftrightarrow> p + length s < length mem \<and> take (length s) (drop p mem) = s \<and> 0 \<notin> set s \<and>
     mem ! (p + length s) = 0"

lemma str_at_Nil: "str_at mem p [] \<longleftrightarrow> p < length mem \<and> mem ! p = 0"
  by (auto simp: str_at_def)

lemma str_at_Cons: "str_at mem p (c # s) \<longleftrightarrow> p < length mem \<and> mem ! p = c \<and> c \<noteq> 0 \<and> str_at mem (Suc p) s"
proof (cases "p < length mem")
  case True
  then have "drop p mem = mem ! p # drop (Suc p) mem" by (simp add: Cons_nth_drop_Suc)
  then show ?thesis using True by (auto simp: str_at_def)
qed (auto simp: str_at_def)

lemmas str_at_simps = str_at_Nil str_at_Cons

lemma str_at_append: "str_at mem p (s @ t) \<longleftrightarrow> take (length s) (drop p mem) = s \<and> 0 \<notin> set s \<and> str_at mem (p + length s) t"
  by (auto simp: str_at_def take_add ac_simps)

end
