(* ===== verification/UrlCodec.thy ===== *)
theory UrlCodec
  imports Bytes
begin

text \<open>
  Percent-encoding: io/libnet/url-codec.cpp. Source and destination are the bytes that may be
  accessed through their pointers; the length that a caller passes is separate. The macro \<open>SPACE_TO_PLUS\<close> is not defined in the build.
\<close>

section \<open>Bytes\<close>

definition unsafe_chars :: "u8 list" where
  "unsafe_chars = [0x20, 0x25, 0x3A, 0x2F, 0x3F, 0x23, 0x5B, 0x5D, 0x40, 0x21, 0x24, 0x26, 0x27, 0x22,
     0x28, 0x29, 0x2A, 0x2B, 0x2C, 0x3B, 0x3D]"

definition hexchars :: "u8 list" where
  "hexchars = [0x30, 0x31, 0x32, 0x33, 0x34, 0x35, 0x36, 0x37, 0x38, 0x39, 0x41, 0x42, 0x43, 0x44, 0x45, 0x46,
     0x61, 0x62, 0x63, 0x64, 0x65, 0x66]"

definition is_unsafe :: "u8 \<Rightarrow> bool" where
  "is_unsafe ch \<longleftrightarrow> ch \<in> set unsafe_chars"

definition hex_digit_order :: "u8 \<Rightarrow> int" where
  "hex_digit_order ch =
     (if 0x30 \<le> ch \<and> ch \<le> 0x39 then uint ch - 0x30
      else (let ch = toupper ch in if 0x41 \<le> ch \<and> ch \<le> 0x46 then uint ch - 0x41 + 10 else -1))"

section \<open>The two functions\<close>

definition URL_DECODE_ERR :: nat where "URL_DECODE_ERR = 65535"

function url_decode_loop :: "u8 list \<Rightarrow> nat \<Rightarrow> nat \<Rightarrow> nat \<Rightarrow> nat \<Rightarrow> u8 list \<Rightarrow> (nat \<times> u8 list) option" where
  "url_decode_loop src srclen dstlen i di dest =
     (if i < length src then
        (if src ! i \<noteq> 0 \<and> i < srclen then
           if di + 1 > dstlen then Some (0, dest)
           else if src ! i = 0x25 then do {
             h \<leftarrow> rd src (i + 1);
             l \<leftarrow> rd src (i + 2);
             let high = hex_digit_order h;
             let low = hex_digit_order l;
             if high = -1 \<or> low = -1 then Some (URL_DECODE_ERR, dest)
             else do {
               dest \<leftarrow> wr dest di (push_bit 4 (of_int high) OR of_int low);
               url_decode_loop src srclen dstlen (i + 3) (di + 1) dest } }
           else do {
             dest \<leftarrow> wr dest di (if src ! i = 0x2B then 0x20 else src ! i);
             url_decode_loop src srclen dstlen (i + 1) (di + 1) dest }
         else do { dest \<leftarrow> wr dest di 0; Some (di, dest) })
      else None)"
  by auto
termination by (relation "measure (\<lambda>(src, srclen, dstlen, i, di, dest). length src - i)") auto

declare url_decode_loop.simps [simp del]

definition UrlDecode :: "u8 list \<Rightarrow> nat \<Rightarrow> u8 list \<Rightarrow> nat \<Rightarrow> (nat \<times> u8 list) option" where
  "UrlDecode src srclen dest dstlen = url_decode_loop src srclen dstlen 0 0 dest"

function url_encode_loop :: "u8 list \<Rightarrow> nat \<Rightarrow> nat \<Rightarrow> nat \<Rightarrow> nat \<Rightarrow> u8 list \<Rightarrow> (nat \<times> u8 list) option" where
  "url_encode_loop src srclen dlen i di dst =
     (if i < length src then
        (if src ! i \<noteq> 0 \<and> i < srclen then
           if is_unsafe (src ! i) then
             if di + 3 > dlen then Some (0, dst)
             else do {
               dst \<leftarrow> wr dst di 0x25;
               dst \<leftarrow> wr dst (di + 1) (hexchars ! unat (src ! i div 16));
               dst \<leftarrow> wr dst (di + 2) (hexchars ! unat (src ! i mod 16));
               url_encode_loop src srclen dlen (i + 1) (di + 3) dst }
           else
             if di + 1 > dlen then Some (0, dst)
             else do {
               dst \<leftarrow> wr dst di (src ! i);
               url_encode_loop src srclen dlen (i + 1) (di + 1) dst }
         else do { dst \<leftarrow> wr dst di 0; Some (di, dst) })
      else None)"
  by auto
termination by (relation "measure (\<lambda>(src, srclen, dlen, i, di, dst). length src - i)") auto

declare url_encode_loop.simps [simp del]

definition UrlEncode :: "u8 list \<Rightarrow> nat \<Rightarrow> u8 list \<Rightarrow> nat \<Rightarrow> (nat \<times> u8 list) option" where
  "UrlEncode src srclen dst dlen = url_encode_loop src srclen dlen 0 0 dst"

section \<open>What they compute\<close>

definition enc_byte :: "u8 \<Rightarrow> u8 list" where
  "enc_byte c = (if is_unsafe c then [0x25, hexchars ! unat (c div 16), hexchars ! unat (c mod 16)] else [c])"

definition url_encoded :: "u8 list \<Rightarrow> u8 list" where
  "url_encoded s = concat (map enc_byte s)"

fun url_decoded :: "u8 list \<Rightarrow> u8 list option" where
  "url_decoded [] = Some []"
| "url_decoded (c # cs) =
     (if c = 0x25 then
        (case cs of
           h # l # cs' \<Rightarrow>
             if hex_digit_order h = -1 \<or> hex_digit_order l = -1 then None
             else map_option ((#) (push_bit 4 (of_int (hex_digit_order h)) OR of_int (hex_digit_order l))) (url_decoded cs')
         | _ \<Rightarrow> None)
      else map_option ((#) (if c = 0x2B then 0x20 else c)) (url_decoded cs))"

lemma is_unsafe_0: "\<not> is_unsafe 0"
  by (simp add: is_unsafe_def unsafe_chars_def)

text \<open>The loop of \<open>UrlEncode\<close> on a source that ends with a NUL or at \<open>srclen\<close>.\<close>

definition src_at :: "u8 list \<Rightarrow> nat \<Rightarrow> nat \<Rightarrow> u8 list \<Rightarrow> bool" where
  "src_at src srclen i s \<longleftrightarrow> i + length s < length src \<and> take (length s) (drop i src) = s \<and> 0 \<notin> set s \<and>
     i + length s \<le> srclen \<and> (src ! (i + length s) = 0 \<or> i + length s = srclen)"

lemma src_at_Nil: "src_at src srclen i [] \<Longrightarrow> i < length src \<and> \<not> (src ! i \<noteq> 0 \<and> i < srclen)"
  by (auto simp: src_at_def)

lemma src_at_Cons:
  assumes "src_at src srclen i (c # s)"
  shows "i < length src" "src ! i = c" "c \<noteq> 0" "i < srclen" "src_at src srclen (Suc i) s"
proof -
  have d: "i < length src" using assms by (simp add: src_at_def)
  then have "drop i src = src ! i # drop (Suc i) src" by (simp add: Cons_nth_drop_Suc)
  then show "i < length src" "src ! i = c" "c \<noteq> 0" "i < srclen" "src_at src srclen (Suc i) s"
    using assms d by (auto simp: src_at_def)
qed

lemma url_encode_loop_spec:
  assumes "src_at src srclen i s" "di + length (url_encoded s) \<le> dlen" "di + length (url_encoded s) < length dst"
  shows "url_encode_loop src srclen dlen i di dst =
    Some (di + length (url_encoded s), write_at dst di (url_encoded s @ [0]))"
  using assms
proof (induction s arbitrary: i di dst)
  case Nil
  then show ?case using src_at_Nil [OF Nil(1)]
    by (subst url_encode_loop.simps) (auto simp: url_encoded_def wr_write_at)
next
  case (Cons c s)
  note s = src_at_Cons [OF Cons.prems(1)]
  show ?case
  proof (cases "is_unsafe c")
    case True
    let ?e = "[0x25, hexchars ! unat (c div 16), hexchars ! unat (c mod 16)]"
    have len: "di + 3 + length (url_encoded s) \<le> dlen" "di + 3 + length (url_encoded s) < length dst"
      using Cons.prems(2,3) True by (auto simp: url_encoded_def enc_byte_def)
    have "url_encode_loop src srclen dlen i di dst = url_encode_loop src srclen dlen (Suc i) (di + 3) (write_at dst di ?e)"
      using s len True by (subst url_encode_loop.simps) (simp add: wr_write_at write_at_Cons write_at_3 numeral_3_eq_3)
    also have "\<dots> = Some (di + 3 + length (url_encoded s), write_at (write_at dst di ?e) (di + 3) (url_encoded s @ [0]))"
      using Cons.IH [OF s(5), of "di + 3"] len by simp
    finally show ?thesis using len True write_at_append [of di ?e "url_encoded s @ [0]" dst]
      by (simp add: url_encoded_def enc_byte_def numeral_3_eq_3)
  next
    case False
    have len: "di + 1 + length (url_encoded s) \<le> dlen" "di + 1 + length (url_encoded s) < length dst"
      using Cons.prems(2,3) False by (auto simp: url_encoded_def enc_byte_def)
    have "url_encode_loop src srclen dlen i di dst = url_encode_loop src srclen dlen (Suc i) (di + 1) (write_at dst di [c])"
      using s len False by (subst url_encode_loop.simps) (simp add: wr_write_at)
    also have "\<dots> = Some (di + 1 + length (url_encoded s), write_at (write_at dst di [c]) (di + 1) (url_encoded s @ [0]))"
      using Cons.IH [OF s(5), of "di + 1"] len by simp
    finally show ?thesis using len False write_at_append [of di "[c]" "url_encoded s @ [0]" dst]
      by (simp add: url_encoded_def enc_byte_def)
  qed
qed

text \<open>The loop of \<open>UrlDecode\<close>: a source whose escapes are complete is decoded or refused.\<close>

lemma url_decode_loop_spec:
  assumes "src_at src srclen i s" "url_decoded s = Some t" "di + length t \<le> dstlen" "di + length t \<le> length dest"
  shows "url_decode_loop src srclen dstlen i di dest =
    (if di + length t < length dest then Some (di + length t, write_at dest di (t @ [0])) else None)"
  using assms
proof (induction s arbitrary: i di dest t rule: url_decoded.induct)
  case 1
  then show ?case using src_at_Nil [OF 1(1)]
    by (subst url_decode_loop.simps) (auto simp: wr_write_at wr_None)
next
  case (2 c cs)
  note s = src_at_Cons [OF 2(3)]
  show ?case
  proof (cases "c = 0x25")
    case True
    then obtain h l cs' where cs: "cs = h # l # cs'" using 2(4) by (auto split: list.splits)
    let ?b = "push_bit 4 (of_int (hex_digit_order h)) OR of_int (hex_digit_order l) :: u8"
    have ok: "hex_digit_order h \<noteq> -1" "hex_digit_order l \<noteq> -1" using 2(4) True cs by (auto split: if_splits)
    then have nn: "\<not> (hex_digit_order h = -1 \<or> hex_digit_order l = -1)" by simp
    from ok obtain t' where t: "url_decoded cs' = Some t'" "t = ?b # t'" using 2(4) True cs by auto
    note s1 = src_at_Cons [OF s(5) [unfolded cs]]
    note s2 = src_at_Cons [OF s1(5)]
    have "url_decode_loop src srclen dstlen i di dest = url_decode_loop src srclen dstlen (i + 3) (di + 1) (write_at dest di [?b])"
      using s s1 s2 ok 2(5,6) True t(2)
      by (subst url_decode_loop.simps) (simp add: rd_def wr_write_at numeral_3_eq_3)
    moreover have "url_decode_loop src srclen dstlen (i + 3) (di + 1) (write_at dest di [?b]) =
        (if di + 1 + length t' < length dest then Some (di + 1 + length t', write_at (write_at dest di [?b]) (di + 1) (t' @ [0])) else None)"
      using 2(1) [OF True cs refl nn, of "i + 3" t' "di + 1" "write_at dest di [?b]"] s2(5) t 2(5,6) by (simp add: numeral_3_eq_3)
    ultimately show ?thesis using t(2) write_at_append [of di "[?b]" "t' @ [0]" dest] by simp
  next
    case False
    let ?b = "if c = 0x2B then 0x20 else c"
    obtain t' where t: "url_decoded cs = Some t'" "t = ?b # t'" using 2(4) False by auto
    have "url_decode_loop src srclen dstlen i di dest = url_decode_loop src srclen dstlen (i + 1) (di + 1) (write_at dest di [?b])"
      using s False 2(5,6) t(2) by (subst url_decode_loop.simps) (simp add: wr_write_at)
    moreover have "url_decode_loop src srclen dstlen (i + 1) (di + 1) (write_at dest di [?b]) =
        (if di + 1 + length t' < length dest then Some (di + 1 + length t', write_at (write_at dest di [?b]) (di + 1) (t' @ [0])) else None)"
      using 2(2) [OF False, of "i + 1" t' "di + 1" "write_at dest di [?b]"] s(5) t 2(5,6) by simp
    ultimately show ?thesis using t(2) write_at_append [of di "[?b]" "t' @ [0]" dest] by simp
  qed
qed

text \<open>\<open>stops src srclen i\<close>: the scan from \<open>i\<close> on ends at a NUL or at \<open>srclen\<close>, and two more bytes can
  be read there.\<close>

definition stops :: "u8 list \<Rightarrow> nat \<Rightarrow> nat \<Rightarrow> bool" where
  "stops src srclen i \<longleftrightarrow> i < length src \<and>
     (srclen \<le> i \<or> (\<exists>k. i \<le> k \<and> k + 2 < length src \<and> (src ! k = 0 \<or> srclen \<le> k)))"

lemma stops_step:
  assumes "stops src srclen i" "src ! i \<noteq> 0" "i < srclen"
  shows "stops src srclen (Suc i)"
    "i + 2 < length src" "src ! (i + 1) \<noteq> 0 \<Longrightarrow> src ! (i + 2) \<noteq> 0 \<Longrightarrow> stops src srclen (i + 3)"
proof -
  obtain k where k: "i \<le> k" "k + 2 < length src" "src ! k = 0 \<or> srclen \<le> k" using assms by (auto simp: stops_def)
  then have "i < k" using assms(2,3) by (cases "i = k") auto
  then show "stops src srclen (Suc i)" "i + 2 < length src" using k by (auto simp: stops_def)
  assume n: "src ! (i + 1) \<noteq> 0" "src ! (i + 2) \<noteq> 0"
  consider "k = i + 1" | "k = i + 2" | "i + 3 \<le> k" using \<open>i < k\<close> by linarith
  then show "stops src srclen (i + 3)" using k n by cases (auto simp: stops_def)
qed

lemma hex_digit_order_0: "hex_digit_order 0 = -1"
  by (simp add: hex_digit_order_def toupper_def)

lemma url_decode_loop_safe:
  assumes "stops src srclen i" "di \<le> dstlen" "dstlen < length dest"
  shows "\<exists>n dest'. url_decode_loop src srclen dstlen i di dest = Some (n, dest') \<and> length dest' = length dest \<and>
    (n \<le> dstlen \<or> n = URL_DECODE_ERR)"
  using assms
proof (induction src srclen dstlen i di dest rule: url_decode_loop.induct)
  case (1 src srclen dstlen i di dest)
  have i: "i < length src" using 1(3) by (simp add: stops_def)
  show ?case
  proof (cases "src ! i \<noteq> 0 \<and> i < srclen \<and> di + 1 \<le> dstlen")
    case False
    then show ?thesis using i 1(4,5) by (subst url_decode_loop.simps) (auto simp: wr_write_at)
  next
    case go: True
    then have g: "src ! i \<noteq> 0 \<and> i < srclen" "\<not> di + 1 > dstlen" by auto
    note st = stops_step [OF 1(3)]
    show ?thesis
    proof (cases "src ! i = 0x25")
      case False
      let ?d = "write_at dest di [if src ! i = 0x2B then 0x20 else src ! i]"
      have "url_decode_loop src srclen dstlen i di dest = url_decode_loop src srclen dstlen (i + 1) (di + 1) ?d"
        using i g False 1(4,5) by (subst url_decode_loop.simps) (simp add: wr_write_at)
      moreover have "\<exists>n dest'. url_decode_loop src srclen dstlen (i + 1) (di + 1) ?d = Some (n, dest') \<and>
          length dest' = length ?d \<and> (n \<le> dstlen \<or> n = URL_DECODE_ERR)"
        using 1(2) [OF i g False, of ?d] st(1) g 1(4,5) by (simp add: wr_write_at)
      ultimately show ?thesis using g 1(4,5) by simp
    next
      case True
      have r: "rd src (i + 1) = Some (src ! (i + 1))" "rd src (i + 2) = Some (src ! (i + 2))"
        using st(2) g by (auto simp: rd_def)
      let ?h = "hex_digit_order (src ! (i + 1))" and ?l = "hex_digit_order (src ! (i + 2))"
      show ?thesis
      proof (cases "?h = -1 \<or> ?l = -1")
        case err: True
        then show ?thesis using i g True r by (subst url_decode_loop.simps) auto
      next
        case False
        let ?d = "write_at dest di [push_bit 4 (of_int ?h) OR of_int ?l]"
        have "stops src srclen (i + 3)" using st(3) g False hex_digit_order_0 by metis
        moreover have "url_decode_loop src srclen dstlen i di dest = url_decode_loop src srclen dstlen (i + 3) (di + 1) ?d"
          using i g True False r 1(4,5) by (subst url_decode_loop.simps) (simp add: wr_write_at)
        moreover have "\<exists>n dest'. url_decode_loop src srclen dstlen (i + 3) (di + 1) ?d = Some (n, dest') \<and>
            length dest' = length ?d \<and> (n \<le> dstlen \<or> n = URL_DECODE_ERR)"
          using 1(1) [OF i g True r refl refl False, of ?d] calculation(1) False g 1(4,5) by (simp add: wr_write_at)
        ultimately show ?thesis using g 1(4,5) by simp
      qed
    qed
  qed
qed

text \<open>Decoding inverts encoding, byte by byte.\<close>

lemma hex_digits: "n < 16 \<Longrightarrow> hex_digit_order (hexchars ! n) = int n"
proof -
  have "\<forall>n \<in> set [0..<16]. hex_digit_order (hexchars ! n) = int n" by code_simp
  then show "n < 16 \<Longrightarrow> ?thesis" by simp
qed

lemma nibbles: "push_bit 4 (c div 16) OR c mod 16 = (c :: u8)"
proof -
  have "c div 16 = drop_bit 4 c" by (simp add: drop_bit_eq_div)
  moreover have "c mod 16 = take_bit 4 c" by (simp add: take_bit_eq_mod)
  ultimately show ?thesis by (simp add: bit_eq_iff bit_simps) (auto simp: bit_simps)
qed

lemma uint_not_m1: "uint (c :: u8) \<noteq> -1"
  using uint_ge_0 [of c] by linarith

lemma unat_nibbles: "unat (c div 16 :: u8) < 16" "unat (c mod 16 :: u8) < 16"
proof -
  have "unat c < 256" using unsigned_less [of c, where ?'a = nat] by simp
  then show "unat (c div 16) < 16" by (simp add: unat_div_distrib)
  show "unat (c mod 16) < 16" by (simp add: unat_mod_distrib)
qed

lemma url_decoded_enc_byte: "url_decoded (enc_byte c @ s) = map_option ((#) c) (url_decoded s)"
proof (cases "is_unsafe c")
  case True
  then show ?thesis using uint_not_m1 [of "c div 16"] uint_not_m1 [of "c mod 16"]
    by (simp add: enc_byte_def hex_digits unat_nibbles nibbles)
next
  case False
  then have "c \<noteq> 0x25" "c \<noteq> 0x2B" by (auto simp: is_unsafe_def unsafe_chars_def)
  then show ?thesis using False by (simp add: enc_byte_def)
qed

lemma url_decoded_encoded: "url_decoded (url_encoded s) = Some s"
  by (induction s) (auto simp: url_encoded_def url_decoded_enc_byte)

section \<open>Properties\<close>

lemma enc_byte_safe: "b \<in> set (enc_byte c) \<Longrightarrow> b = 0x25 \<or> \<not> is_unsafe b"
  "c \<noteq> 0 \<Longrightarrow> 0 \<notin> set (enc_byte c)"
proof -
  have h: "\<forall>n \<in> set [0..<16]. \<not> is_unsafe (hexchars ! n) \<and> hexchars ! n \<noteq> 0" by code_simp
  show "b \<in> set (enc_byte c) \<Longrightarrow> b = 0x25 \<or> \<not> is_unsafe b"
    using h unat_nibbles [of c] by (auto simp: enc_byte_def split: if_splits)
  show "c \<noteq> 0 \<Longrightarrow> 0 \<notin> set (enc_byte c)" using h unat_nibbles [of c] by (auto simp: enc_byte_def)
qed

lemma UrlEncode_encoded:
  assumes "0 \<notin> set s" "length (url_encoded s) \<le> dlen" "length (url_encoded s) < length dst"
  shows "UrlEncode (s @ [0]) (length s) dst dlen =
    Some (length (url_encoded s), url_encoded s @ 0 # drop (length (url_encoded s) + 1) dst)"
proof -
  have "src_at (s @ [0]) (length s) 0 s" using assms(1) by (simp add: src_at_def)
  from url_encode_loop_spec [OF this, of 0 dlen dst] show ?thesis using assms(2,3)
    by (simp add: UrlEncode_def write_at_def)
qed

text \<open>C35: Decoding what \<open>UrlEncode\<close> wrote gives back the string, for every string of bytes without a NUL
  and buffers with room for the text and its terminator.\<close>

theorem UrlEncode_UrlDecode:
  assumes "0 \<notin> set s" "length (url_encoded s) < length dst" "length s < length out"
  shows "\<exists>n enc out'. UrlEncode (s @ [0]) (length s) dst (length dst - 1) = Some (n, enc) \<and>
    UrlDecode enc n out (length out - 1) = Some (length s, out') \<and> take (length s + 1) out' = s @ [0]"
proof -
  let ?e = "url_encoded s" and ?r = "0 # drop (length (url_encoded s) + 1) dst"
  have "0 \<notin> set ?e" using assms(1) enc_byte_safe(2) by (induction s) (auto simp: url_encoded_def)
  then have "src_at (?e @ ?r) (length ?e) 0 ?e" by (simp add: src_at_def)
  from url_decode_loop_spec [OF this url_decoded_encoded, of 0 "length out - 1" out]
  have "UrlDecode (?e @ ?r) (length ?e) out (length out - 1) = Some (length s, write_at out 0 (s @ [0]))"
    using assms(3) by (simp add: UrlDecode_def)
  moreover have "take (length s + 1) (write_at out 0 (s @ [0])) = s @ [0]" by (simp add: write_at_def)
  ultimately show ?thesis using UrlEncode_encoded [OF assms(1) _ assms(2), of "length dst - 1"] assms(2) by auto
qed

theorem UrlEncode_UrlDecode_witness:
  "\<exists>n enc out'. UrlEncode ([0x61, 0x26, 0x20] @ [0]) 3 (replicate 10 0) 9 = Some (n, enc) \<and>
    UrlDecode enc n (replicate 4 0) 3 = Some (3, out') \<and> take 4 out' = [0x61, 0x26, 0x20] @ [0]"
proof -
  have "length (url_encoded [0x61, 0x26, 0x20]) = 7" by code_simp
  then show ?thesis using UrlEncode_UrlDecode [of "[0x61, 0x26, 0x20]" "replicate 10 0" "replicate 4 0"] by (simp flip: numeral_2_eq_2)
qed

text \<open>The text that \<open>UrlEncode\<close> writes has no unsafe byte other than the percent sign of an escape.\<close>

theorem UrlEncode_safe:
  assumes "0 \<notin> set s" "length (url_encoded s) \<le> dlen" "dlen < length dst"
  shows "\<exists>n dst'. UrlEncode (s @ [0]) (length s) dst dlen = Some (n, dst') \<and> n < length dst' \<and>
    (\<forall>b \<in> set (take n dst'). b = 0x25 \<or> \<not> is_unsafe b)"
proof -
  have "b = 0x25 \<or> \<not> is_unsafe b" if "b \<in> set (url_encoded s)" for b
    using that enc_byte_safe(1) by (auto simp: url_encoded_def)
  then show ?thesis using UrlEncode_encoded [OF assms(1,2)] assms(2,3) by auto
qed

theorem UrlEncode_safe_witness:
  "\<exists>n dst'. UrlEncode ([0x61, 0x26] @ [0]) 2 (replicate 10 0) 9 = Some (n, dst') \<and> n < length dst' \<and>
    (\<forall>b \<in> set (take n dst'). b = 0x25 \<or> \<not> is_unsafe b)"
proof -
  have "length (url_encoded [0x61, 0x26]) = 4" by code_simp
  then show ?thesis using UrlEncode_safe [of "[0x61, 0x26]" 9 "replicate 10 0"] by (simp flip: numeral_2_eq_2)
qed

text \<open>C39: With a destination of \<open>dstlen + 1\<close> bytes, and two more readable bytes where the source ends,
  \<open>UrlDecode\<close> accesses nothing outside its buffers, whatever the source holds, and returns at most
  \<open>dstlen\<close> or \<open>URL_DECODE_ERR\<close>.\<close>

theorem UrlDecode_in_bounds:
  assumes "stops src srclen 0" "length dest = dstlen + 1"
  shows "\<exists>n dest'. UrlDecode src srclen dest dstlen = Some (n, dest') \<and> length dest' = dstlen + 1 \<and>
    (n \<le> dstlen \<or> n = URL_DECODE_ERR)"
  using url_decode_loop_safe [OF assms(1), of 0 dstlen dest] assms(2) by (simp add: UrlDecode_def)

theorem UrlDecode_in_bounds_witness:
  "\<exists>n dest'. UrlDecode [0x25, 0x34, 0, 0, 0] 4 (replicate 3 0) 2 = Some (n, dest') \<and> length dest' = 2 + 1 \<and>
    (n \<le> 2 \<or> n = URL_DECODE_ERR)"
proof (rule UrlDecode_in_bounds)
  show "stops [0x25, 0x34, 0, 0, 0] 4 0" by (auto simp: stops_def intro!: exI [of _ 2])
qed simp

text \<open>With a destination of exactly \<open>dstlen\<close> bytes, as the HTTP server passes it, a text that decodes to
  \<open>dstlen\<close> bytes makes \<open>UrlDecode\<close> write its terminator one byte past the buffer.\<close>

theorem UrlDecode_overflow:
  assumes "src_at src srclen 0 s" "url_decoded s = Some t" "length t = length dest"
  shows "UrlDecode src srclen dest (length dest) = None"
  using url_decode_loop_spec [OF assms(1,2), of 0 "length dest" dest] assms(3) by (simp add: UrlDecode_def)

theorem UrlDecode_overflow_witness: "UrlDecode [0x61, 0x62, 0] 2 [0, 0] 2 = None"
  using UrlDecode_overflow [of "[0x61, 0x62, 0]" 2 "[0x61, 0x62]" "[0x61, 0x62]" "[0, 0]"]
  by (simp add: src_at_def flip: numeral_2_eq_2)

text \<open>A source that ends in a percent sign is read past its terminator.\<close>

lemma UrlDecode_reads_past_end: "UrlDecode [0x25, 0] 1 [0, 0] 2 = None"
  by (simp add: UrlDecode_def url_decode_loop.simps [of "[0x25, 0]"] rd_def)

end
