(* ===== verification/Str.thy ===== *)
theory Str
  imports Bytes
begin

text \<open>
  The string routines of core/additions/str.c. Pointers are indices into one block of memory, so
  that arguments may overlap as they may in C; an access outside the block is \<open>None\<close>. \<open>char\<close> is
  signed on the target. Arguments that a routine only reads up to their NUL are lists of bytes.
\<close>

section \<open>Memory\<close>

definition ld64 :: "u8 list \<Rightarrow> nat \<Rightarrow> u8 list option" where
  "ld64 mem p = (if p + 8 \<le> length mem then Some (take 8 (drop p mem)) else None)"

definition st64 :: "u8 list \<Rightarrow> nat \<Rightarrow> u8 list \<Rightarrow> u8 list option" where
  "st64 mem p w = (if p + 8 \<le> length mem then Some (write_at mem p w) else None)"

text \<open>The loops of \<open>_mem_cpy\<close>: words and then bytes upwards, or words downwards from the end and
  then the bytes that are left.\<close>

fun cpy_words_up :: "nat \<Rightarrow> nat \<Rightarrow> nat \<Rightarrow> u8 list \<Rightarrow> u8 list option" where
  "cpy_words_up 0 dst src mem = Some mem"
| "cpy_words_up (Suc n) dst src mem = do {
     w \<leftarrow> ld64 mem src;
     mem \<leftarrow> st64 mem dst w;
     cpy_words_up n (dst + 8) (src + 8) mem }"

fun cpy_bytes_up :: "nat \<Rightarrow> nat \<Rightarrow> nat \<Rightarrow> u8 list \<Rightarrow> u8 list option" where
  "cpy_bytes_up 0 dst src mem = Some mem"
| "cpy_bytes_up (Suc n) dst src mem = do {
     b \<leftarrow> rd mem src;
     mem \<leftarrow> wr mem dst b;
     cpy_bytes_up n (dst + 1) (src + 1) mem }"

fun cpy_words_down :: "nat \<Rightarrow> nat \<Rightarrow> nat \<Rightarrow> u8 list \<Rightarrow> u8 list option" where
  "cpy_words_down 0 dst src mem = Some mem"
| "cpy_words_down (Suc n) dst src mem = do {
     w \<leftarrow> ld64 mem (src - 8);
     mem \<leftarrow> st64 mem (dst - 8) w;
     cpy_words_down n (dst - 8) (src - 8) mem }"

fun cpy_bytes_down :: "nat \<Rightarrow> nat \<Rightarrow> nat \<Rightarrow> u8 list \<Rightarrow> u8 list option" where
  "cpy_bytes_down 0 dst src mem = Some mem"
| "cpy_bytes_down (Suc j) dst src mem = do {
     b \<leftarrow> rd mem (src + j);
     mem \<leftarrow> wr mem (dst + j) b;
     cpy_bytes_down j dst src mem }"

definition mem_cpy :: "nat \<Rightarrow> nat \<Rightarrow> nat \<Rightarrow> u8 list \<Rightarrow> u8 list option" where
  "mem_cpy dst src sz mem =
     (if sz = 0 then Some mem
      else let n = sz div 8
           in if dst < src then do {
                mem \<leftarrow> cpy_words_up n dst src mem;
                cpy_bytes_up (sz - n * 8) (dst + n * 8) (src + n * 8) mem }
              else do {
                mem \<leftarrow> cpy_words_down n (dst + sz) (src + sz) mem;
                cpy_bytes_down (sz mod 8) dst src mem })"

fun mem_cmp :: "nat \<Rightarrow> nat \<Rightarrow> nat \<Rightarrow> u8 list \<Rightarrow> int option" where
  "mem_cmp p1 p2 0 mem = Some 0"
| "mem_cmp p1 p2 (Suc n) mem = do {
     a \<leftarrow> rd mem p1;
     b \<leftarrow> rd mem p2;
     if a = b then mem_cmp (p1 + 1) (p2 + 1) n mem else Some (uint a - uint b) }"

fun mem_set :: "nat \<Rightarrow> u8 \<Rightarrow> nat \<Rightarrow> u8 list \<Rightarrow> u8 list option" where
  "mem_set p pattern 0 mem = Some mem"
| "mem_set p pattern (Suc n) mem = do { mem \<leftarrow> wr mem p pattern; mem_set (p + 1) pattern n mem }"

section \<open>Strings\<close>

function str_toupper :: "nat \<Rightarrow> u8 list \<Rightarrow> u8 list option" where
  "str_toupper p mem =
     (if p < length mem then
        if mem ! p \<noteq> 0 then str_toupper (p + 1) (mem[p := toupper (mem ! p)]) else Some mem
      else None)"
  by auto
termination by (relation "measure (\<lambda>(p, mem). length mem - p)") auto

function str_len :: "nat \<Rightarrow> u8 list \<Rightarrow> nat option" where
  "str_len p mem =
     (if p < length mem then
        if mem ! p \<noteq> 0 then map_option Suc (str_len (p + 1) mem) else Some 0
      else None)"
  by auto
termination by (relation "measure (\<lambda>(p, mem). length mem - p)") auto

function str_cmp :: "nat \<Rightarrow> nat \<Rightarrow> u8 list \<Rightarrow> int option" where
  "str_cmp p q mem =
     (if p < length mem \<and> q < length mem then
        if mem ! p \<noteq> 0 \<and> mem ! q \<noteq> 0 \<and> mem ! p = mem ! q then str_cmp (p + 1) (q + 1) mem
        else Some (sint (mem ! p) - sint (mem ! q))
      else None)"
  by auto
termination by (relation "measure (\<lambda>(p, q, mem). length mem - p)") auto

declare str_toupper.simps [simp del] str_len.simps [simp del] str_cmp.simps [simp del]

text \<open>\<open>_str_ncmp\<close> does not look for the NUL.\<close>

fun str_ncmp :: "nat \<Rightarrow> nat \<Rightarrow> nat \<Rightarrow> u8 list \<Rightarrow> int option" where
  "str_ncmp p q 0 mem = Some 0"
| "str_ncmp p q (Suc n) mem = do {
     a \<leftarrow> rd mem p;
     b \<leftarrow> rd mem q;
     if sint a - sint b \<noteq> 0 then Some (sint a - sint b) else str_ncmp (p + 1) (q + 1) n mem }"

text \<open>\<open>_str_cpy\<close>: the loop returns the number of bytes before the NUL or the limit, and the byte
  after them is set to 0.\<close>

fun str_cpy_loop :: "nat \<Rightarrow> nat \<Rightarrow> nat \<Rightarrow> u8 list \<Rightarrow> (nat \<times> u8 list) option" where
  "str_cpy_loop dst src 0 mem = Some (0, mem)"
| "str_cpy_loop dst src (Suc n) mem = do {
     c \<leftarrow> rd mem src;
     mem \<leftarrow> wr mem dst c;
     if c = 0 then Some (0, mem)
     else do { (i, mem) \<leftarrow> str_cpy_loop (dst + 1) (src + 1) n mem; Some (i + 1, mem) } }"

definition str_cpy :: "nat \<Rightarrow> nat \<Rightarrow> nat \<Rightarrow> u8 list \<Rightarrow> (nat \<times> u8 list) option" where
  "str_cpy dst src sz_max mem = do {
     (i, mem) \<leftarrow> str_cpy_loop dst src sz_max mem;
     mem \<leftarrow> wr mem (dst + i) 0;
     Some (i, mem) }"

text \<open>The scan of \<open>_find_string\<close> and \<open>_nfind_string\<close>: up to \<open>n\<close> positions from offset \<open>i\<close>.\<close>

fun find_loop :: "nat \<Rightarrow> nat \<Rightarrow> nat \<Rightarrow> nat \<Rightarrow> nat \<Rightarrow> u8 list \<Rightarrow> int option" where
  "find_loop 0 i l text sub mem = Some (-1)"
| "find_loop (Suc n) i l text sub mem = do {
     r \<leftarrow> mem_cmp sub (text + i) l mem;
     if r = 0 then Some (int i) else find_loop n (i + 1) l text sub mem }"

definition find_string :: "nat \<Rightarrow> nat \<Rightarrow> u8 list \<Rightarrow> int option" where
  "find_string str1 str2 mem = do {
     l \<leftarrow> str_len str2 mem;
     l1 \<leftarrow> str_len str1 mem;
     if l > l1 + 1 \<or> l = 0 then Some (-1) else find_loop (l1 + 1 - l) 0 l str1 str2 mem }"

definition nfind_string :: "nat \<Rightarrow> nat \<Rightarrow> nat \<Rightarrow> u8 list \<Rightarrow> int option" where
  "nfind_string text text_sz sub_str mem = do {
     l \<leftarrow> str_len sub_str mem;
     if l \<le> text_sz then find_loop (text_sz - l) 0 l text sub_str mem else Some (-1) }"

definition is_space :: "u8 \<Rightarrow> bool" where "is_space c \<longleftrightarrow> c = 0x20 \<or> c = 0x09"

fun trim_left_skip :: "nat \<Rightarrow> nat \<Rightarrow> u8 list \<Rightarrow> nat option" where
  "trim_left_skip p 0 mem = Some 0"
| "trim_left_skip p (Suc n) mem = do {
     c \<leftarrow> rd mem p;
     if \<not> is_space c then Some 0 else map_option Suc (trim_left_skip (p + 1) n mem) }"

definition trim_left :: "nat \<Rightarrow> u8 list \<Rightarrow> u8 list option" where
  "trim_left str mem = do {
     l \<leftarrow> str_len str mem;
     i \<leftarrow> trim_left_skip str l mem;
     if i = 0 then Some mem
     else do { n \<leftarrow> str_len (str + i) mem; mem_cpy str (str + i) (n + 1) mem } }"

text \<open>The index of the loop of \<open>_trim_right\<close> is unsigned: below 0 it goes on at 2^32 - 1.\<close>

lemma filter_update_less:
  "p < length xs \<Longrightarrow> P (xs ! p) \<Longrightarrow> \<not> P b \<Longrightarrow> length (filter P (xs[p := b])) < length (filter P xs)"
proof (induction xs arbitrary: p)
  case (Cons x xs)
  then show ?case by (cases p) (auto intro: Suc_leI less_imp_le)
qed simp

function trim_right_loop :: "nat \<Rightarrow> u32 \<Rightarrow> u8 list \<Rightarrow> u8 list option" where
  "trim_right_loop str i mem =
     (if str + unat i < length mem then
        if is_space (mem ! (str + unat i)) then trim_right_loop str (i - 1) (mem[str + unat i := 0]) else Some mem
      else None)"
  by auto
termination
  by (relation "measure (\<lambda>(str, i, mem). length (filter is_space mem))")
    (auto intro!: filter_update_less simp: is_space_def)

declare trim_right_loop.simps [simp del]

definition trim_right :: "nat \<Rightarrow> u8 list \<Rightarrow> u8 list option" where
  "trim_right str mem = do {
     l \<leftarrow> str_len str mem;
     if l \<noteq> 0 then trim_right_loop str (of_nat l - 1) mem else Some mem }"

definition clrspc :: "nat \<Rightarrow> u8 list \<Rightarrow> u8 list option" where
  "clrspc str mem = do { mem \<leftarrow> trim_right str mem; trim_left str mem }"

section \<open>Splitting\<close>

fun in_div :: "u8 \<Rightarrow> nat \<Rightarrow> nat \<Rightarrow> u8 list \<Rightarrow> bool option" where
  "in_div c dv 0 mem = Some False"
| "in_div c dv (Suc n) mem = do { d \<leftarrow> rd mem dv; if c = d then Some True else in_div c (dv + 1) n mem }"

fun check_loop :: "nat \<Rightarrow> nat \<Rightarrow> nat \<Rightarrow> nat \<Rightarrow> u8 list \<Rightarrow> nat option option" where
  "check_loop str 0 dv l2 mem = Some None"
| "check_loop str (Suc n) dv l2 mem = do {
     c \<leftarrow> rd mem str;
     b \<leftarrow> in_div c dv l2 mem;
     if b then Some (Some 0) else map_option (map_option Suc) (check_loop (str + 1) n dv l2 mem) }"

text \<open>\<open>INVALID_STRING_POSITION\<close> is \<open>Some None\<close>.\<close>

definition check_str1 :: "nat \<Rightarrow> nat \<Rightarrow> u8 list \<Rightarrow> nat option option" where
  "check_str1 str1 str2 mem = do {
     l1 \<leftarrow> str_len str1 mem;
     l2 \<leftarrow> str_len str2 mem;
     check_loop str1 l1 str2 l2 mem }"

definition div_str :: "nat \<Rightarrow> nat \<Rightarrow> nat \<Rightarrow> nat \<Rightarrow> nat \<Rightarrow> nat \<Rightarrow> u8 list \<Rightarrow> (bool \<times> u8 list) option" where
  "div_str str p1 sz_p1 p2 sz_p2 dv mem = do {
     pos \<leftarrow> check_str1 str dv mem;
     (case pos of
        Some i \<Rightarrow> do {
          mem \<leftarrow> mem_cpy p1 str (min i sz_p1) mem;
          mem \<leftarrow> wr mem (p1 + min i sz_p1) 0;
          (_, mem) \<leftarrow> str_cpy p2 (str + i + 1) sz_p2 mem;
          Some (True, mem) }
      | None \<Rightarrow> do {
          (_, mem) \<leftarrow> str_cpy p1 str sz_p1 mem;
          mem \<leftarrow> wr mem p2 0;
          Some (False, mem) }) }"

text \<open>The loop of \<open>_div_str_ex\<close> looks for the first separator outside brackets and escapes:
  \<open>Some None\<close> when there is none. \<open>ex_count\<close> is unsigned.\<close>

function div_ex_loop :: "nat \<Rightarrow> nat \<Rightarrow> nat \<Rightarrow> nat \<Rightarrow> nat \<Rightarrow> u8 \<Rightarrow> u8 \<Rightarrow> u32 \<Rightarrow> u8 list \<Rightarrow> nat option option" where
  "div_ex_loop str i l1 dv l2 start_ex stop_ex ex_count mem =
     (if i < l1 then do {
        c \<leftarrow> rd mem (str + i);
        if c = 0x5C then div_ex_loop str (i + 2) l1 dv l2 start_ex stop_ex ex_count mem
        else do {
          b \<leftarrow> (if ex_count = 0 then in_div c dv l2 mem else Some False);
          if b then Some (Some i)
          else let ex = (if start_ex = stop_ex then (if ex_count \<noteq> 0 then 0 else 1)
                         else let ex = (if c = start_ex then ex_count + 1 else ex_count)
                              in if c = stop_ex then ex - 1 else ex)
               in div_ex_loop str (i + 1) l1 dv l2 start_ex stop_ex ex mem } }
      else Some None)"
  by auto
termination by (relation "measure (\<lambda>(str, i, l1, _). l1 - i)") auto

declare div_ex_loop.simps [simp del]

definition div_str_ex :: "nat \<Rightarrow> nat \<Rightarrow> nat \<Rightarrow> nat \<Rightarrow> nat \<Rightarrow> nat \<Rightarrow> u8 \<Rightarrow> u8 \<Rightarrow> u8 list \<Rightarrow> (bool \<times> u8 list) option" where
  "div_str_ex str p1 sz_p1 p2 sz_p2 dv start_ex stop_ex mem = do {
     l1 \<leftarrow> str_len str mem;
     l2 \<leftarrow> str_len dv mem;
     pos \<leftarrow> div_ex_loop str 0 l1 dv l2 start_ex stop_ex 0 mem;
     (case pos of
        Some i \<Rightarrow> do {
          mem \<leftarrow> mem_cpy p1 str (min i sz_p1) mem;
          mem \<leftarrow> wr mem (p1 + min i sz_p1) 0;
          n \<leftarrow> str_len (str + i) mem;
          (_, mem) \<leftarrow> str_cpy p2 (str + i + 1) (if sint (of_nat sz_p2 :: s32) < sint (of_nat n :: s32) then sz_p2 else n) mem;
          Some (True, mem) }
      | None \<Rightarrow> do {
          (_, mem) \<leftarrow> str_cpy p1 str sz_p1 mem;
          mem \<leftarrow> wr mem p2 0;
          Some (False, mem) }) }"

section \<open>What the routines compute\<close>

definition bytes_at :: "nat \<Rightarrow> nat \<Rightarrow> u8 list \<Rightarrow> u8 list" where
  "bytes_at p n mem = take n (drop p mem)"

lemma length_bytes_at [simp]: "p + n \<le> length mem \<Longrightarrow> length (bytes_at p n mem) = n"
  by (simp add: bytes_at_def)

lemma bytes_at_add: "bytes_at p (m + n) mem = bytes_at p m mem @ bytes_at (p + m) n mem"
  by (simp add: bytes_at_def take_add ac_simps)

lemma bytes_write_after: "i + length bs \<le> p \<Longrightarrow> i + length bs \<le> length mem \<Longrightarrow> bytes_at p n (write_at mem i bs) = bytes_at p n mem"
  by (simp add: bytes_at_def drop_write_at)

lemma bytes_write_before: "p + n \<le> i \<Longrightarrow> i \<le> length mem \<Longrightarrow> bytes_at p n (write_at mem i bs) = bytes_at p n mem"
  by (simp add: bytes_at_def take_drop take_write_at add.commute)

lemma bytes_at_one: "p < length mem \<Longrightarrow> bytes_at p 1 mem = [mem ! p]"
  by (simp add: bytes_at_def Cons_nth_drop_Suc [symmetric])

lemma cpy_words_up_copies:
  "dst \<le> src \<Longrightarrow> src + 8 * n \<le> length mem \<Longrightarrow> cpy_words_up n dst src mem = Some (write_at mem dst (bytes_at src (8 * n) mem))"
proof (induction n arbitrary: dst src mem)
  case 0
  then show ?case by (simp add: bytes_at_def)
next
  case (Suc n)
  let ?m = "write_at mem dst (bytes_at src 8 mem)"
  have "cpy_words_up (Suc n) dst src mem = cpy_words_up n (dst + 8) (src + 8) ?m"
    using Suc.prems by (simp add: ld64_def st64_def bytes_at_def)
  also have "\<dots> = Some (write_at ?m (dst + 8) (bytes_at (src + 8) (8 * n) mem))"
    using Suc.prems Suc.IH [of "dst + 8" "src + 8" ?m] by (simp add: bytes_write_after)
  also have "\<dots> = Some (write_at mem dst (bytes_at src 8 mem @ bytes_at (src + 8) (8 * n) mem))"
    using Suc.prems write_at_append [of dst "bytes_at src 8 mem" "bytes_at (src + 8) (8 * n) mem" mem] by simp
  finally show ?case using bytes_at_add [of src 8 "8 * n" mem] by simp
qed

lemma cpy_bytes_up_copies:
  "dst \<le> src \<Longrightarrow> src + n \<le> length mem \<Longrightarrow> cpy_bytes_up n dst src mem = Some (write_at mem dst (bytes_at src n mem))"
proof (induction n arbitrary: dst src mem)
  case 0
  then show ?case by (simp add: bytes_at_def)
next
  case (Suc n)
  let ?m = "write_at mem dst [mem ! src]"
  have "cpy_bytes_up (Suc n) dst src mem = cpy_bytes_up n (dst + 1) (src + 1) ?m"
    using Suc.prems by (simp add: rd_def wr_write_at)
  also have "\<dots> = Some (write_at ?m (dst + 1) (bytes_at (src + 1) n mem))"
    using Suc.prems Suc.IH [of "dst + 1" "src + 1" ?m] bytes_write_after [of dst "[mem ! src]" "src + 1" mem n] by simp
  also have "\<dots> = Some (write_at mem dst ([mem ! src] @ bytes_at (src + 1) n mem))"
    using Suc.prems write_at_append [of dst "[mem ! src]" "bytes_at (src + 1) n mem" mem] by simp
  finally show ?case using bytes_at_add [of src 1 n mem] bytes_at_one [of src mem] Suc.prems by simp
qed

lemma cpy_words_down_copies:
  "src \<le> dst \<Longrightarrow> 8 * n \<le> src \<Longrightarrow> dst \<le> length mem \<Longrightarrow>
     cpy_words_down n dst src mem = Some (write_at mem (dst - 8 * n) (bytes_at (src - 8 * n) (8 * n) mem))"
proof (induction n arbitrary: dst src mem)
  case 0
  then show ?case by (simp add: bytes_at_def)
next
  case (Suc n)
  let ?w = "bytes_at (src - 8) 8 mem" and ?m = "write_at mem (dst - 8) (bytes_at (src - 8) 8 mem)"
  let ?b = "bytes_at (src - 8 * Suc n) (8 * n) mem"
  have eqs: "dst - 8 - 8 * n = dst - 8 * Suc n" "src - 8 - 8 * n = src - 8 * Suc n" by simp_all
  have "cpy_words_down (Suc n) dst src mem = cpy_words_down n (dst - 8) (src - 8) ?m"
    using Suc.prems by (simp add: ld64_def st64_def bytes_at_def)
  also have "\<dots> = Some (write_at ?m (dst - 8 * Suc n) (bytes_at (src - 8 * Suc n) (8 * n) ?m))"
    using Suc.prems Suc.IH [of "src - 8" "dst - 8" ?m] unfolding eqs by simp
  also have "bytes_at (src - 8 * Suc n) (8 * n) ?m = ?b" using Suc.prems by (intro bytes_write_before) auto
  also have "write_at ?m (dst - 8 * Suc n) ?b = write_at mem (dst - 8 * Suc n) (?b @ ?w)"
    using Suc.prems write_at_commute_append [of "dst - 8 * Suc n" ?b ?w mem] by simp
  finally show ?case using bytes_at_add [of "src - 8 * Suc n" "8 * n" 8 mem] Suc.prems by (simp add: add.commute)
qed

lemma cpy_bytes_down_copies:
  "src \<le> dst \<Longrightarrow> dst + n \<le> length mem \<Longrightarrow> cpy_bytes_down n dst src mem = Some (write_at mem dst (bytes_at src n mem))"
proof (induction n arbitrary: mem)
  case 0
  then show ?case by (simp add: bytes_at_def)
next
  case (Suc n)
  let ?m = "write_at mem (dst + n) [mem ! (src + n)]"
  have "cpy_bytes_down (Suc n) dst src mem = cpy_bytes_down n dst src ?m"
    using Suc.prems by (simp add: rd_def wr_write_at)
  also have "\<dots> = Some (write_at ?m dst (bytes_at src n mem))"
    using Suc.prems Suc.IH [of ?m] bytes_write_before [of src n "dst + n" mem] by simp
  also have "\<dots> = Some (write_at mem dst (bytes_at src n mem @ [mem ! (src + n)]))"
    using Suc.prems write_at_commute_append [of dst "bytes_at src n mem" "[mem ! (src + n)]" mem] by simp
  finally show ?case using bytes_at_add [of src n 1 mem] bytes_at_one [of "src + n" mem] Suc.prems by simp
qed

lemma mem_cpy_copies:
  assumes "src + sz \<le> length mem" "dst + sz \<le> length mem"
  shows "mem_cpy dst src sz mem = Some (write_at mem dst (bytes_at src sz mem))"
proof (cases "sz = 0")
  case True
  then show ?thesis by (simp add: mem_cpy_def bytes_at_def)
next
  case False
  let ?k = "sz div 8 * 8"
  have k: "8 * (sz div 8) = ?k" "?k + sz mod 8 = sz" "sz - ?k = sz mod 8" "?k \<le> sz"
    by (rule mult.commute, rule div_mult_mod_eq, rule minus_div_mult_eq_mod, rule div_times_less_eq_dividend)
  show ?thesis
  proof (cases "dst < src")
    case True
    let ?m = "write_at mem dst (bytes_at src ?k mem)"
    have "cpy_words_up (sz div 8) dst src mem = Some ?m"
      using cpy_words_up_copies [of dst src "sz div 8" mem, unfolded k(1)] assms True k(4) by simp
    moreover have "cpy_bytes_up (sz mod 8) (dst + ?k) (src + ?k) ?m = Some (write_at ?m (dst + ?k) (bytes_at (src + ?k) (sz mod 8) mem))"
      using cpy_bytes_up_copies [of "dst + ?k" "src + ?k" "sz mod 8" ?m] assms True k
        bytes_write_after [of dst "bytes_at src ?k mem" "src + ?k" mem "sz mod 8"] by simp
    moreover have "write_at ?m (dst + ?k) (bytes_at (src + ?k) (sz mod 8) mem) = write_at mem dst (bytes_at src sz mem)"
      using write_at_append [of dst "bytes_at src ?k mem" "bytes_at (src + ?k) (sz mod 8) mem" mem] bytes_at_add [of src ?k "sz mod 8" mem] assms k by simp
    ultimately show ?thesis using False True k by (simp add: mem_cpy_def Let_def)
  next
    case nl: False
    let ?j = "sz mod 8"
    let ?w = "bytes_at (src + ?j) ?k mem"
    let ?m = "write_at mem (dst + ?j) ?w"
    have e: "dst + sz - ?k = dst + ?j" "src + sz - ?k = src + ?j" using k by simp_all
    have "cpy_words_down (sz div 8) (dst + sz) (src + sz) mem = Some ?m"
      using cpy_words_down_copies [of "src + sz" "dst + sz" "sz div 8" mem, unfolded k(1) e] assms nl k(4) by simp
    moreover have "cpy_bytes_down ?j dst src ?m = Some (write_at ?m dst (bytes_at src ?j mem))"
      using cpy_bytes_down_copies [of src dst ?j ?m] assms nl k bytes_write_before [of src ?j "dst + ?j" mem ?w] by simp
    moreover have "write_at ?m dst (bytes_at src ?j mem) = write_at mem dst (bytes_at src ?j mem @ ?w)"
      using write_at_commute_append [of dst "bytes_at src ?j mem" ?w mem] assms k by simp
    moreover have "bytes_at src ?j mem @ ?w = bytes_at src sz mem" using bytes_at_add [of src ?j ?k mem] k by (simp add: add.commute)
    ultimately show ?thesis using False nl by (simp add: mem_cpy_def Let_def)
  qed
qed

lemma mem_cmp_eq:
  "p1 + n \<le> length mem \<Longrightarrow> p2 + n \<le> length mem \<Longrightarrow>
     \<exists>r. mem_cmp p1 p2 n mem = Some r \<and> (r = 0 \<longleftrightarrow> bytes_at p1 n mem = bytes_at p2 n mem)"
proof (induction n arbitrary: p1 p2)
  case 0
  then show ?case by (simp add: bytes_at_def)
next
  case (Suc n)
  have s: "bytes_at p (Suc n) mem = mem ! p # bytes_at (p + 1) n mem" if "p + Suc n \<le> length mem" for p
    using bytes_at_add [of p 1 n mem] bytes_at_one [of p mem] that by simp
  have "uint a - uint b = 0 \<longleftrightarrow> a = b" for a b :: u8 by (simp add: word_uint_eq_iff)
  then show ?case using Suc.IH [of "p1 + 1" "p2 + 1"] Suc.prems s [of p1] s [of p2] by (simp add: rd_def)
qed

lemma str_len_at: "str_at mem p s \<Longrightarrow> str_len p mem = Some (length s)"
  by (induction s arbitrary: p) (subst str_len.simps, auto simp: str_at_simps)+

lemma str_at_bytes: "str_at mem p s \<Longrightarrow> bytes_at p (length s) mem = s \<and> p + length s < length mem"
  by (simp add: str_at_def bytes_at_def)

text \<open>The scan finds the first position, or none.\<close>

lemma find_loop_spec:
  assumes "sub + l \<le> length mem" "text + i + n + l \<le> length mem + 1"
  shows "find_loop n i l text sub mem =
    Some (if \<exists>k. i \<le> k \<and> k < i + n \<and> bytes_at (text + k) l mem = bytes_at sub l mem
          then int (LEAST k. i \<le> k \<and> bytes_at (text + k) l mem = bytes_at sub l mem) else -1)"
  using assms
proof (induction n arbitrary: i)
  case (Suc n)
  let ?P = "\<lambda>k. bytes_at (text + k) l mem = bytes_at sub l mem"
  obtain r where r: "mem_cmp sub (text + i) l mem = Some r" "r = 0 \<longleftrightarrow> ?P i"
    using mem_cmp_eq [of sub l mem "text + i"] Suc.prems by auto
  show ?case
  proof (cases "?P i")
    case True
    then have "(LEAST k. i \<le> k \<and> ?P k) = i" by (intro Least_equality) auto
    moreover have "\<exists>k. i \<le> k \<and> k < i + Suc n \<and> ?P k" using True by (intro exI [of _ i]) simp
    ultimately show ?thesis using r True by simp
  next
    case False
    have iff: "i \<le> k \<and> ?P k \<longleftrightarrow> i + 1 \<le> k \<and> ?P k" for k
      using False by (auto simp: Suc_le_eq order_le_less)
    then have "(\<lambda>k. i \<le> k \<and> ?P k) = (\<lambda>k. i + 1 \<le> k \<and> ?P k)" by simp
    moreover have "(\<exists>k. i \<le> k \<and> k < i + Suc n \<and> ?P k) \<longleftrightarrow> (\<exists>k. i + 1 \<le> k \<and> k < i + 1 + n \<and> ?P k)"
      using iff by (metis add_Suc add_Suc_right Suc_eq_plus1)
    ultimately show ?thesis using r False Suc.IH [of "i + 1"] Suc.prems by (simp, blast)
  qed
qed simp

section \<open>Trimming\<close>

lemma trim_left_skip_spec:
  "str_at mem p (ws @ c # s) \<Longrightarrow> list_all is_space ws \<Longrightarrow> \<not> is_space c \<Longrightarrow>
     trim_left_skip p (length (ws @ c # s)) mem = Some (length ws)"
  by (induction ws arbitrary: p) (auto simp: str_at_simps rd_def)

lemma str_at_write:
  assumes "p + length s < length mem" "0 \<notin> set s"
  shows "str_at (write_at mem p (s @ [0])) p s"
proof -
  have "take (length s) (drop p (write_at mem p (s @ [0]))) = s" using assms(1) by (simp add: write_at_def)
  moreover have "write_at mem p (s @ [0]) ! (p + length s) = 0"
    using assms(1) nth_write_at [of p "s @ [0]" mem "p + length s"] by simp
  ultimately show ?thesis using assms by (simp add: str_at_def)
qed

lemma trim_left_spec:
  assumes "str_at mem p (ws @ c # s)" "list_all is_space ws" "\<not> is_space c"
  shows "\<exists>mem'. trim_left p mem = Some mem' \<and> str_at mem' p (c # s)"
proof (cases "ws = []")
  case True
  then show ?thesis using assms trim_left_skip_spec [OF assms] by (simp add: trim_left_def str_len_at)
next
  case False
  let ?n = "length ws"
  have at: "str_at mem (p + ?n) (c # s)" using assms(1) by (simp add: str_at_append)
  have m: "p + ?n + Suc (length (c # s)) \<le> length mem" using at by (simp add: str_at_def)
  have b: "bytes_at (p + ?n) (Suc (length (c # s))) mem = (c # s) @ [0]"
    using at bytes_at_add [of "p + ?n" "length (c # s)" 1 mem] bytes_at_one [of "p + ?n + length (c # s)" mem]
    by (auto simp: str_at_def bytes_at_def)
  have "mem_cpy p (p + ?n) (Suc (length (c # s))) mem = Some (write_at mem p ((c # s) @ [0]))"
    using mem_cpy_copies [of "p + ?n" "Suc (length (c # s))" mem p] m b by simp
  moreover have "str_at (write_at mem p ((c # s) @ [0])) p (c # s)"
    using at m by (intro str_at_write) (auto simp: str_at_def)
  ultimately show ?thesis using assms trim_left_skip_spec [OF assms] False str_len_at [OF assms(1)] str_len_at [OF at]
    by (auto simp: trim_left_def)
qed

lemma trim_right_loop_spec:
  assumes "p + length core + length ws \<le> length mem" "bytes_at p (length core + length ws) mem = core @ ws"
    "core \<noteq> []" "\<not> is_space (last core)" "list_all is_space ws" "length core + length ws < 2 ^ 32"
  shows "trim_right_loop p (of_nat (length core + length ws) - 1) mem =
    Some (write_at mem (p + length core) (replicate (length ws) 0))"
  using assms
proof (induction ws arbitrary: mem rule: rev_induct)
  case Nil
  then have "mem ! (p + (length core - 1)) = last core"
    by (metis (no_types, lifting) bytes_at_def append.right_neutral add.right_neutral last_conv_nth length_greater_0_conv
      diff_less zero_less_one list.size(3) nth_take nth_drop le_add1 order_trans le_add_diff_inverse)
  moreover have "unat (of_nat (length core) - 1 :: u32) = length core - 1"
    using Nil.prems(3,6) by (simp add: unat_sub_one unat_of_nat_small of_nat_word_neq_0)
  moreover have "length core - 1 < length core" using Nil.prems(3) by simp
  ultimately show ?case using Nil.prems(1,4) by (subst trim_right_loop.simps) simp
next
  case (snoc w ws)
  let ?n = "length core + length ws" and ?i = "of_nat (length core + Suc (length ws)) - 1 :: u32"
  have "unat (of_nat ?n :: u32) = ?n" using snoc.prems(6) by (intro unat_of_nat_small) simp
  moreover have "?i = of_nat ?n" by simp
  ultimately have i: "?i = of_nat ?n" "unat ?i = ?n" by simp_all
  have s: "bytes_at p ?n mem = core @ ws" "mem ! (p + ?n) = w"
    using snoc.prems(1,2) bytes_at_add [of p ?n 1 mem] bytes_at_one [of "p + ?n" mem] by (auto simp: append_eq_append_conv)
  let ?m = "mem[p + ?n := 0]"
  have m: "?m = write_at mem (p + ?n) [0]" using snoc.prems(1) wr_write_at [of "p + ?n" mem 0] by (simp add: wr_def)
  have "trim_right_loop p ?i mem = trim_right_loop p (of_nat ?n - 1) ?m"
    using snoc.prems(1,5) s(2) i by (subst trim_right_loop.simps) simp
  also have "\<dots> = Some (write_at ?m (p + length core) (replicate (length ws) 0))"
    using snoc.prems s by (intro snoc.IH) (auto simp: m bytes_write_before)
  also have "write_at ?m (p + length core) (replicate (length ws) 0) = write_at mem (p + length core) (replicate (length ws) 0 @ [0])"
    using snoc.prems(1) write_at_commute_append [of "p + length core" "replicate (length ws) 0" "[0]" mem] by (simp add: m add.assoc)
  finally show ?case by (simp add: replicate_append_same)
qed

lemma trim_right_spec:
  assumes "str_at mem p (core @ ws)" "core \<noteq> []" "\<not> is_space (last core)" "list_all is_space ws" "length (core @ ws) < 2 ^ 32"
  shows "\<exists>mem'. trim_right p mem = Some mem' \<and> str_at mem' p core"
proof -
  let ?m = "write_at mem (p + length core) (replicate (length ws) 0)"
  have b: "bytes_at p (length core + length ws) mem = core @ ws" "p + length core + length ws < length mem"
    using str_at_bytes [OF assms(1)] by simp_all
  have "trim_right p mem = Some ?m"
    using trim_right_loop_spec [of p core ws mem] b assms by (simp add: trim_right_def str_len_at)
  moreover have "str_at ?m p core"
  proof -
    have "bytes_at p (length core) ?m = core"
      using b bytes_at_add [of p "length core" "length ws" mem] by (simp add: bytes_write_before)
    moreover have "?m ! (p + length core) = 0"
      using b(2) assms(1) nth_write_at [of "p + length core" "replicate (length ws) 0" mem "p + length core"]
      by (cases ws) (auto simp: str_at_def)
    ultimately show ?thesis using b(2) assms(1) by (simp add: str_at_def bytes_at_def)
  qed
  ultimately show ?thesis by blast
qed

lemma trim_right_blank:
  assumes "str_at mem p ws" "ws \<noteq> []" "list_all is_space ws" "length ws < 2 ^ 32" "length mem \<le> p + (2 ^ 32 - 1)"
  shows "trim_right p mem = None"
proof -
  have loop: "trim_right_loop p (of_nat n) m = None"
    if "n < 2 ^ 32" "p + n < length m" "length m = length mem" "\<forall>k \<le> n. is_space (m ! (p + k))" for n m
    using that
  proof (induction n arbitrary: m)
    case 0
    have "unat (- 1 :: u32) = 2 ^ 32 - 1" by (simp add: unsigned_minus_1_eq_mask mask_eq_exp_minus_1)
    then show ?case using 0 assms(5) by (subst trim_right_loop.simps, subst trim_right_loop.simps) simp
  next
    case (Suc n)
    have u: "unat (of_nat (Suc n) :: u32) = Suc n" using Suc.prems(1) by (intro unat_of_nat_small) simp
    have "trim_right_loop p (of_nat n) (m[p + Suc n := 0]) = None" using Suc.prems by (intro Suc.IH) auto
    moreover have "of_nat (Suc n) - 1 = (of_nat n :: u32)" by simp
    moreover have "is_space (m ! (p + Suc n))" using Suc.prems(4) by blast
    ultimately show ?case using Suc.prems(2,3) u by (subst trim_right_loop.simps) (simp del: of_nat_Suc)
  qed
  obtain k where k: "length ws = Suc k" using assms(2) by (cases ws) auto
  have b: "bytes_at p (length ws) mem = ws" "p + length ws < length mem" using str_at_bytes [OF assms(1)] by simp_all
  have "is_space (mem ! (p + i))" if "i < length ws" for i
  proof -
    have "ws ! i = bytes_at p (length ws) mem ! i" using b(1) by simp
    also have "\<dots> = mem ! (p + i)" using b(2) that by (simp add: bytes_at_def)
    finally have "ws ! i = mem ! (p + i)" .
    then show ?thesis using assms(3) that by (metis list_all_length)
  qed
  then have "trim_right_loop p (of_nat k) mem = None" using loop [of k mem] assms(4) b(2) k by simp
  then show ?thesis using k by (simp add: trim_right_def str_len_at [OF assms(1)])
qed

section \<open>Properties\<close>

text \<open>C23: \<open>_mem_cpy\<close> copies the bytes that were at the source, whatever way the two areas overlap: it
  equals a move through a buffer, and changes nothing outside the destination.\<close>

theorem mem_cpy_memmove:
  assumes "src + sz \<le> length mem" "dst + sz \<le> length mem"
  shows "mem_cpy dst src sz mem = Some (take dst mem @ take sz (drop src mem) @ drop (dst + sz) mem)"
  using mem_cpy_copies [OF assms] assms by (simp add: write_at_def bytes_at_def)

theorem mem_cpy_memmove_witness:
  "mem_cpy 3 0 10 (map of_nat [0..<20]) = Some (take 3 (map of_nat [0..<20]) @
     take 10 (drop 0 (map of_nat [0..<20])) @ drop (3 + 10) (map of_nat [0..<20]))"
  by (rule mem_cpy_memmove) simp_all

text \<open>\<open>_find_string\<close> returns the first position of a non-empty pattern, also one that ends the text,
  and -1 exactly when the pattern does not occur.\<close>

theorem find_string_first:
  assumes "str_at mem p s" "str_at mem q t" "t \<noteq> []"
  shows "find_string p q mem =
    Some (if \<exists>k. k + length t \<le> length s \<and> take (length t) (drop k s) = t
          then int (LEAST k. take (length t) (drop k s) = t) else -1)"
proof (cases "length t > length s + 1")
  case True
  then show ?thesis using assms by (auto simp: find_string_def str_len_at)
next
  case False
  let ?n = "length s + 1 - length t" and ?l = "length t"
  have b: "bytes_at p (length s) mem = s" "p + length s < length mem" "bytes_at q ?l mem = t" "q + ?l < length mem"
    using str_at_bytes [OF assms(1)] str_at_bytes [OF assms(2)] by simp_all
  have P: "bytes_at (p + k) ?l mem = t \<longleftrightarrow> take ?l (drop k s) = t" if "k + ?l \<le> length s" for k
  proof -
    have "take ?l (drop k s) = take ?l (drop k (bytes_at p (length s) mem))" using b(1) by simp
    also have "\<dots> = bytes_at (p + k) ?l mem" using that by (simp add: bytes_at_def drop_take min_def ac_simps)
    finally show ?thesis by simp
  qed
  have ex: "(\<exists>k. 0 \<le> k \<and> k < 0 + ?n \<and> bytes_at (p + k) ?l mem = t) \<longleftrightarrow>
      (\<exists>k. k + ?l \<le> length s \<and> take ?l (drop k s) = t)"
  proof -
    have "k < ?n \<longleftrightarrow> k + ?l \<le> length s" for k using False by linarith
    then show ?thesis using P by auto
  qed
  have least: "(LEAST k. 0 \<le> k \<and> bytes_at (p + k) ?l mem = t) = (LEAST k. take ?l (drop k s) = t)"
    if ex1: "k + ?l \<le> length s" "take ?l (drop k s) = t" for k
  proof (rule Least_equality)
    let ?m = "LEAST k. take ?l (drop k s) = t"
    have m: "take ?l (drop ?m s) = t" "?m \<le> k" using LeastI [of "\<lambda>k. take ?l (drop k s) = t" k] Least_le [of "\<lambda>k. take ?l (drop k s) = t" k] that by auto
    then show "0 \<le> ?m \<and> bytes_at (p + ?m) ?l mem = t" using P [of ?m] that(1) by simp
    fix y assume y: "0 \<le> y \<and> bytes_at (p + y) ?l mem = t"
    show "?m \<le> y"
    proof (rule ccontr)
      assume "\<not> ?m \<le> y"
      then have "y + ?l \<le> length s" using m(2) that(1) by simp
      then show False using y P [of y] Least_le [of "\<lambda>k. take ?l (drop k s) = t" y] \<open>\<not> ?m \<le> y\<close> by simp
    qed
  qed
  have "find_loop ?n 0 ?l p q mem = Some (if \<exists>k. 0 \<le> k \<and> k < 0 + ?n \<and> bytes_at (p + k) ?l mem = t
      then int (LEAST k. 0 \<le> k \<and> bytes_at (p + k) ?l mem = t) else -1)"
    using find_loop_spec [of q ?l mem p 0 ?n] b False by (simp only: b(3))
  then show ?thesis using ex least False assms by (auto simp: find_string_def str_len_at)
qed

theorem find_string_first_witness:
  "find_string 0 4 [0x61, 0x62, 0x63, 0, 0x63, 0] = Some 2"
proof -
  have s: "str_at [0x61, 0x62, 0x63, 0, 0x63, 0] 0 [0x61, 0x62, 0x63]" "str_at [0x61, 0x62, 0x63, 0, 0x63, 0] 4 [0x63]"
    by (simp_all add: str_at_def)
  have "(LEAST k. take 1 (drop k [0x61, 0x62, 0x63 :: u8]) = [0x63]) = 2"
  proof (rule Least_equality)
    fix y assume y: "take 1 (drop y [0x61, 0x62, 0x63 :: u8]) = [0x63]"
    consider "y = 0" | "y = 1" | "2 \<le> y" by linarith
    then show "2 \<le> y" using y by cases simp_all
  qed simp
  moreover have "\<exists>k. k + 1 \<le> length [0x61, 0x62, 0x63 :: u8] \<and> take 1 (drop k [0x61, 0x62, 0x63 :: u8]) = [0x63]"
    by (rule exI [of _ 2]) simp
  ultimately show ?thesis using find_string_first [OF s] by simp
qed

text \<open>\<open>_nfind_string\<close> does not find a pattern that occurs only at the very end of the text.\<close>

theorem nfind_string_misses_end:
  assumes "p + n + length t \<le> length mem" "str_at mem q t" "bytes_at (p + n) (length t) mem = t"
    and "\<And>k. k < n \<Longrightarrow> bytes_at (p + k) (length t) mem \<noteq> t"
  shows "nfind_string p (n + length t) q mem = Some (-1)"
proof -
  have b: "bytes_at q (length t) mem = t" "q + length t < length mem" using str_at_bytes [OF assms(2)] by simp_all
  then show ?thesis using find_loop_spec [of q "length t" mem p 0 n] assms by (simp add: nfind_string_def str_len_at)
qed

theorem nfind_string_misses_end_witness:
  "nfind_string 0 3 3 [0x61, 0x0D, 0x0A, 0x0D, 0x0A, 0] = Some (-1)"
proof -
  have "str_at [0x61, 0x0D, 0x0A, 0x0D, 0x0A, 0] 3 [0x0D, 0x0A]" by (simp add: str_at_def)
  moreover have "bytes_at (0 + 1) (length [0x0D, 0x0A :: u8]) [0x61, 0x0D, 0x0A, 0x0D, 0x0A, 0] = [0x0D, 0x0A]"
    by (simp add: bytes_at_def)
  ultimately have "nfind_string 0 (1 + length [0x0D, 0x0A :: u8]) 3 [0x61, 0x0D, 0x0A, 0x0D, 0x0A, 0] = Some (-1)"
    by (intro nfind_string_misses_end) (auto simp: bytes_at_def)
  then show ?thesis by (simp add: numeral_3_eq_3)
qed

text \<open>\<open>_clrspc\<close> removes the blanks and tabs on both sides of a text that is not blank.\<close>

theorem clrspc_trims:
  assumes "str_at mem p (ws1 @ core @ ws2)" "core \<noteq> []" "\<not> is_space (hd core)" "\<not> is_space (last core)"
    "list_all is_space ws1" "list_all is_space ws2" "length (ws1 @ core @ ws2) < 2 ^ 32"
  shows "\<exists>mem'. clrspc p mem = Some mem' \<and> str_at mem' p core"
proof -
  obtain m1 where m1: "trim_right p mem = Some m1" "str_at m1 p (ws1 @ core)"
    using trim_right_spec [of mem p "ws1 @ core" ws2] assms by auto
  obtain c cs where c: "core = c # cs" using assms(2) by (cases core) auto
  show ?thesis using trim_left_spec [of m1 p ws1 c cs] m1 assms(3,5) c by (auto simp: clrspc_def)
qed

theorem clrspc_trims_witness:
  "\<exists>mem'. clrspc 0 [0x20, 0x61, 0x20, 0x62, 0x09, 0] = Some mem' \<and> str_at mem' 0 [0x61, 0x20, 0x62]"
  by (rule clrspc_trims [of _ _ "[0x20]" _ "[0x09]"]) (simp_all add: str_at_def is_space_def)

text \<open>A text of blanks only makes \<open>_trim_right\<close> read in front of its first byte: the unsigned index
  wraps to 2^32 - 1, outside every block that is not larger than that.\<close>

theorem trim_right_blank_fails:
  assumes "str_at mem p ws" "ws \<noteq> []" "list_all is_space ws" "length mem \<le> p + (2 ^ 32 - 1)"
  shows "trim_right p mem = None"
  using trim_right_blank [OF assms(1-3) _ assms(4)] str_at_bytes [OF assms(1)] assms(4) by linarith

theorem trim_right_blank_fails_witness: "trim_right 0 [0x20, 0x09, 0] = None"
  by (rule trim_right_blank_fails [of _ _ "[0x20, 0x09]"]) (simp_all add: str_at_def is_space_def)

end
