(* ===== verification/StrFmt.thy ===== *)
theory StrFmt
  imports Str "HOL-Library.Sublist"
begin

text \<open>
  Patterns, numbers and formatting of core/additions/str.c: \<open>_wildcmp\<close> against the usual meaning of a
  pattern, the conversions between numbers and text, and \<open>_vsnprintf\<close>.
\<close>

section \<open>Patterns\<close>

text \<open>A pointer into one of the two strings is the rest of the string from there on. The first loop
  ends with result 0 (\<open>None\<close>) or at the first star.\<close>

fun wild_head :: "u8 list \<Rightarrow> u8 list \<Rightarrow> (u8 list \<times> u8 list) option" where
  "wild_head [] wild = Some ([], wild)"
| "wild_head (c # string) wild =
     (case wild of
        [] \<Rightarrow> None
      | w # wild' \<Rightarrow>
          if w = 0x2A then Some (c # string, wild)
          else if w \<noteq> c \<and> w \<noteq> 0x3F then None
          else wild_head string wild')"

text \<open>The second loop, which starts at a star, so that \<open>cp\<close> and \<open>mp\<close> are set before they are used,
  and the test of what is left of the pattern.\<close>

function wild_loop :: "u8 list \<Rightarrow> u8 list \<Rightarrow> u8 list \<Rightarrow> u8 list \<Rightarrow> bool" where
  "wild_loop string wild cp mp =
     (case string of
        [] \<Rightarrow> dropWhile (\<lambda>w. w = 0x2A) wild = []
      | c # string' \<Rightarrow>
          (case wild of
             [] \<Rightarrow> wild_loop cp mp (tl cp) mp
           | w # wild' \<Rightarrow>
               if w = 0x2A then
                 (if wild' = [] then True else wild_loop string wild' string' wild')
               else if w = c \<or> w = 0x3F then wild_loop string' wild' cp mp
               else wild_loop cp mp (tl cp) mp))"
  by auto
termination
proof (relation "measures [\<lambda>(s, w, cp, mp). max (length w) (length mp), \<lambda>(s, w, cp, mp). length cp,
    \<lambda>(s, w, cp, mp). length s]", goal_cases)
  case (2 s w cp mp c s')
  then show ?case by (cases cp) auto
next
  case (5 s w cp mp c s' x w')
  then show ?case by (cases cp) auto
qed auto

declare wild_loop.simps [simp del]

definition wildcmp :: "u8 list \<Rightarrow> u8 list \<Rightarrow> bool" where
  "wildcmp string wild =
     (case wild_head string wild of None \<Rightarrow> False | Some (string, wild) \<Rightarrow> wild_loop string wild [] [])"

section \<open>Numbers\<close>

function strrev_loop :: "nat \<Rightarrow> nat \<Rightarrow> u8 list \<Rightarrow> u8 list option" where
  "strrev_loop p1 p2 mem =
     (if p2 > p1 then do {
        a \<leftarrow> rd mem p1;
        b \<leftarrow> rd mem p2;
        let a = a XOR b;
        let b = b XOR a;
        let a = a XOR b;
        strrev_loop (p1 + 1) (p2 - 1) (mem[p1 := a, p2 := b]) }
      else Some mem)"
  by auto
termination by (relation "measure (\<lambda>(p1, p2, mem). p2 - p1)") auto

declare strrev_loop.simps [simp del]

definition strrev :: "nat \<Rightarrow> u8 list \<Rightarrow> u8 list option" where
  "strrev str mem = do {
     c \<leftarrow> rd mem str;
     if c = 0 then Some mem
     else do { l \<leftarrow> str_len str mem; strrev_loop str (str + l - 1) mem } }"

text \<open>The loop of \<open>_str2i\<close> from index \<open>n - 1\<close> down to 0.\<close>

fun str2i_loop :: "nat \<Rightarrow> nat \<Rightarrow> u32 \<Rightarrow> u32 \<Rightarrow> u8 list \<Rightarrow> u32 option" where
  "str2i_loop str 0 r m mem = Some r"
| "str2i_loop str (Suc n) r m mem = do {
     c \<leftarrow> rd mem (str + n);
     if 0x30 \<le> c \<and> c \<le> 0x39 then str2i_loop str n (r + (ucast c - 0x30) * m) (m * 10) mem
     else str2i_loop str n r m mem }"

text \<open>The index is a \<open>char\<close>: the size loses its high bits.\<close>

definition str2i :: "nat \<Rightarrow> s32 \<Rightarrow> u8 list \<Rightarrow> u32 option" where
  "str2i str sz mem = str2i_loop str (nat (sint (ucast (sz - 1) :: u8) + 1)) 0 1 mem"

definition digits :: "u8 list" where
  "digits = [0x30, 0x31, 0x32, 0x33, 0x34, 0x35, 0x36, 0x37, 0x38, 0x39, 0x61, 0x62, 0x63, 0x64, 0x65, 0x66,
     0x67, 0x68, 0x69, 0x6A, 0x6B, 0x6C, 0x6D, 0x6E, 0x6F, 0x70, 0x71, 0x72, 0x73, 0x74, 0x75, 0x76, 0x77,
     0x78, 0x79, 0x7A, 0]"

text \<open>The loop the three conversions share: the digits of \<open>n\<close> from address \<open>p\<close> on, lowest first; a
  division by 0 is \<open>None\<close>. The result is the address behind them.\<close>

function put_digits :: "nat \<Rightarrow> nat \<Rightarrow> nat \<Rightarrow> u8 list \<Rightarrow> (nat \<times> u8 list) option" where
  "put_digits b n p mem =
     (if b = 0 \<or> \<not> p < length mem then None
      else do {
        d \<leftarrow> rd digits (n mod b);
        if n div b > 0 then put_digits b (n div b) (p + 1) (mem[p := d])
        else Some (p + 1, mem[p := d]) })"
  by auto
termination by (relation "measure (\<lambda>(b, n, p, mem). length mem - p)") auto

declare put_digits.simps [simp del]

text \<open>\<open>-n\<close> overflows for the smallest number.\<close>

definition itoa :: "s32 \<Rightarrow> nat \<Rightarrow> u8 \<Rightarrow> u8 list \<Rightarrow> u8 list option" where
  "itoa n s b mem =
     (if sint n = - (2 ^ 31) then None
      else do {
        (e, mem) \<leftarrow> put_digits (unat b) (nat \<bar>sint n\<bar>) s mem;
        (e, mem) \<leftarrow> (if sint n < 0 then map_option (Pair (e + 1)) (wr mem e 0x2D) else Some (e, mem));
        mem \<leftarrow> wr mem e 0;
        strrev s mem })"

definition uitoa :: "u32 \<Rightarrow> nat \<Rightarrow> u8 \<Rightarrow> u8 list \<Rightarrow> u8 list option" where
  "uitoa n s b mem = do {
     (e, mem) \<leftarrow> put_digits (unat b) (unat n) s mem;
     mem \<leftarrow> wr mem e 0;
     strrev s mem }"

definition ulltoa :: "u64 \<Rightarrow> nat \<Rightarrow> u8 \<Rightarrow> u8 list \<Rightarrow> u8 list option" where
  "ulltoa n s b mem = do {
     (e, mem) \<leftarrow> put_digits (unat b) (unat n) s mem;
     mem \<leftarrow> wr mem e 0;
     strrev s mem }"

section \<open>Formatting\<close>

text \<open>The variable arguments in order; a string is its text.\<close>

datatype va_arg = VA_u32 u32 | VA_u64 u64 | VA_str "u8 list"

text \<open>The local buffer \<open>lb\<close> of 256 bytes, read backed as a string.\<close>

definition in_lb :: "(u8 list \<Rightarrow> u8 list option) \<Rightarrow> u8 list option" where
  "in_lb conv = do {
     lb \<leftarrow> conv (replicate 256 0);
     l \<leftarrow> str_len 0 lb;
     Some (take l lb) }"

definition put_bytes :: "u8 list \<Rightarrow> nat \<Rightarrow> u8 list \<Rightarrow> u8 list option" where
  "put_bytes buf p bs = (if p + length bs \<le> length buf then Some (write_at buf p bs) else None)"

text \<open>The common end of the conversions: at most \<open>size - 1 - r\<close> bytes (an unsigned difference), a NUL
  behind them, and capital letters for some.\<close>

definition put_text :: "bool \<Rightarrow> u8 list \<Rightarrow> u32 \<Rightarrow> u32 \<Rightarrow> u8 list \<Rightarrow> (u32 \<times> u8 list) option" where
  "put_text upper s sz r buf = do {
     let n = (of_nat (length s) :: u32);
     let n = (if sz - 1 - r < n then sz - 1 - r else n);
     buf \<leftarrow> put_bytes buf (unat r) (take (unat n) s);
     buf \<leftarrow> wr buf (unat (r + n)) 0;
     buf \<leftarrow> (if upper then str_toupper (unat r) buf else Some buf);
     Some (r + n, buf) }"

definition conversion :: "u8 \<Rightarrow> va_arg list \<Rightarrow> u32 \<Rightarrow> u32 \<Rightarrow> u8 list \<Rightarrow> ((u32 \<times> u8 list) \<times> va_arg list) option" where
  "conversion c args sz r buf =
     (if c = 0x63 then \<comment> \<open>c\<close>
        (case args of
           VA_u32 n # args \<Rightarrow> do { buf \<leftarrow> wr buf (unat r) (ucast n); Some ((r + 1, buf), args) }
         | _ \<Rightarrow> None)
      else if c = 0x73 \<or> c = 0x53 then \<comment> \<open>s, S\<close>
        (case args of
           VA_str s # args \<Rightarrow> do { x \<leftarrow> put_text (c = 0x53) s sz r buf; Some (x, args) }
         | _ \<Rightarrow> None)
      else if c = 0x64 then \<comment> \<open>d\<close>
        (case args of
           VA_u32 n # args \<Rightarrow> do { s \<leftarrow> in_lb (itoa n 0 10); x \<leftarrow> put_text False s sz r buf; Some (x, args) }
         | _ \<Rightarrow> None)
      else if c = 0x75 then \<comment> \<open>u\<close>
        (case args of
           VA_u32 n # args \<Rightarrow> do { s \<leftarrow> in_lb (uitoa n 0 10); x \<leftarrow> put_text False s sz r buf; Some (x, args) }
         | _ \<Rightarrow> None)
      else if c = 0x6C then \<comment> \<open>l: the argument of 64 bits is cut to 32\<close>
        (case args of
           VA_u64 n # args \<Rightarrow> do { s \<leftarrow> in_lb (ulltoa (ucast (ucast n :: u32)) 0 10); x \<leftarrow> put_text False s sz r buf; Some (x, args) }
         | _ \<Rightarrow> None)
      else if c = 0x78 \<or> c = 0x58 then \<comment> \<open>x, X\<close>
        (case args of
           VA_u32 n # args \<Rightarrow> do { s \<leftarrow> in_lb (uitoa n 0 16); x \<leftarrow> put_text (c = 0x58) s sz r buf; Some (x, args) }
         | _ \<Rightarrow> None)
      else if c = 0x68 \<or> c = 0x48 then \<comment> \<open>h, H\<close>
        (case args of
           VA_u64 n # args \<Rightarrow> do { s \<leftarrow> in_lb (ulltoa n 0 16); x \<leftarrow> put_text (c = 0x48) s sz r buf; Some (x, args) }
         | _ \<Rightarrow> None)
      else if c = 0x62 then \<comment> \<open>b\<close>
        (case args of
           VA_u64 n # args \<Rightarrow> do { s \<leftarrow> in_lb (ulltoa n 0 2); x \<leftarrow> put_text False s sz r buf; Some (x, args) }
         | _ \<Rightarrow> None)
      else do {
        buf \<leftarrow> wr buf (unat r) 0x25;
        buf \<leftarrow> wr buf (unat (r + 1)) c;
        buf \<leftarrow> wr buf (unat (r + 2)) 0;
        Some ((r + 2, buf), args) })"

fun vsn_loop :: "u8 list \<Rightarrow> bool \<Rightarrow> va_arg list \<Rightarrow> u32 \<Rightarrow> u32 \<Rightarrow> u8 list \<Rightarrow> (u32 \<times> u8 list) option" where
  "vsn_loop [] t args sz r buf = Some (r, buf)"
| "vsn_loop (c # fmt) True args sz r buf = do {
     ((r, buf), args) \<leftarrow> conversion c args sz r buf;
     vsn_loop fmt False args sz r buf }"
| "vsn_loop (c # fmt) False args sz r buf =
     (if c = 0x25 then vsn_loop fmt True args sz r buf
      else do {
        buf \<leftarrow> wr buf (unat r) c;
        buf \<leftarrow> wr buf (unat (r + 1)) 0;
        vsn_loop fmt False args sz (r + 1) buf })"

definition vsnprintf :: "u8 list \<Rightarrow> u32 \<Rightarrow> u8 list \<Rightarrow> va_arg list \<Rightarrow> (u32 \<times> u8 list) option" where
  "vsnprintf buf sz fmt args = vsn_loop fmt False args sz 0 buf"

definition snprintf :: "u8 list \<Rightarrow> u32 \<Rightarrow> u8 list \<Rightarrow> va_arg list \<Rightarrow> (u32 \<times> u8 list) option" where
  "snprintf buf sz fmt args = vsnprintf buf sz fmt args"

section \<open>The meaning of a pattern\<close>

fun glob :: "u8 list \<Rightarrow> u8 list \<Rightarrow> bool" where
  "glob [] s = (s = [])"
| "glob (w # ws) s =
     (if w = 0x2A then glob ws s \<or> (case s of [] \<Rightarrow> False | c # cs \<Rightarrow> glob (w # ws) cs)
      else (case s of [] \<Rightarrow> False | c # cs \<Rightarrow> (w = c \<or> w = 0x3F) \<and> glob ws cs))"

lemma glob_star: "glob (0x2A # w) s \<longleftrightarrow> (\<exists>t. suffix t s \<and> glob w t)"
proof (induction s)
  case (Cons c s)
  then show ?case by (auto simp: suffix_Cons)
qed simp

lemma glob_Nil: "glob w [] \<longleftrightarrow> dropWhile (\<lambda>w. w = 0x2A) w = []"
  by (induction w) auto

lemma glob_prefix:
  "glob (u @ w) t \<Longrightarrow> 0x2A \<notin> set u \<Longrightarrow> length u \<le> length t \<and> glob w (drop (length u) t)"
  by (induction u arbitrary: t) (auto split: list.splits)

lemma glob_only_star [simp]: "glob [0x2A] s"
  by (induction s) auto

text \<open>The state of the second loop: since the last star the text \<open>u\<close> of the pattern was matched, from
  just before \<open>cp\<close> on.\<close>

definition wild_inv :: "u8 list \<Rightarrow> u8 list \<Rightarrow> u8 list \<Rightarrow> u8 list \<Rightarrow> bool" where
  "wild_inv s w cp mp \<longleftrightarrow> (s = [] \<and> cp = [] \<and> w = mp) \<or>
     (\<exists>u x. mp = u @ w \<and> 0x2A \<notin> set u \<and> length u \<le> length cp + 1 \<and> s = drop (length u) (x # cp))"

lemma suffix_drop_drop: "suffix (drop n t) (drop n (x # v @ t))"
proof -
  have "drop n t = drop (length (x # v)) (drop n (x # v @ t))" by simp
  then show ?thesis by (metis suffix_drop)
qed

lemma wild_loop_glob:
  "wild_inv s w cp mp \<Longrightarrow> wild_loop s w cp mp \<longleftrightarrow> glob w s \<or> (\<exists>t. suffix t cp \<and> glob mp t)"
proof (induction s w cp mp rule: wild_loop.induct)
  case (1 s w cp mp)
  have later: "glob w s" if "\<exists>t. suffix t cp \<and> glob mp t" "s = [] \<or> (\<exists>w'. w = 0x2A # w')"
    using 1(5) unfolding wild_inv_def
  proof (elim disjE exE conjE)
    assume "s = []" "cp = []" "w = mp"
    then show ?thesis using that by simp
  next
    fix u x assume i: "mp = u @ w" "0x2A \<notin> set u" "length u \<le> length cp + 1" "s = drop (length u) (x # cp)"
    note ex = that
    obtain t where t: "suffix t cp" "glob (u @ w) t" using ex(1) i(1) by blast
    then have g: "length u \<le> length t" "glob w (drop (length u) t)" using glob_prefix [OF t(2) i(2)] by simp_all
    obtain v where v: "cp = v @ t" using t(1) by (auto simp: suffix_def)
    have s: "s = drop (length u) (x # v @ t)" using i(4) v by simp
    show ?thesis using that(2)
    proof (elim disjE exE)
      assume "s = []"
      then show ?thesis using s g(1) by simp
    next
      fix w' assume w: "w = 0x2A # w'"
      obtain t' where t': "suffix t' (drop (length u) t)" "glob w' t'" using g(2) unfolding w glob_star by blast
      have "suffix (drop (length u) t) s" unfolding s by (rule suffix_drop_drop)
      then show ?thesis using t' unfolding w glob_star by (meson suffix_order.trans)
    qed
  qed
  show ?case
  proof (cases s)
    case Nil
    then show ?thesis using later by (subst wild_loop.simps) (auto simp: glob_Nil)
  next
    case (Cons c s')
    have inv: "\<exists>u x. mp = u @ w \<and> 0x2A \<notin> set u \<and> length u \<le> length cp + 1 \<and> s = drop (length u) (x # cp)"
      using 1(5) Cons by (simp add: wild_inv_def)
    have mismatch: "wild_inv cp mp (tl cp) mp"
      unfolding wild_inv_def by (cases cp) (auto intro!: exI [of _ "[]"])
    have backed: "glob mp cp \<or> (\<exists>t. suffix t (tl cp) \<and> glob mp t) \<longleftrightarrow> (\<exists>t. suffix t cp \<and> glob mp t)"
      by (cases cp) (auto simp: suffix_Cons)
    show ?thesis
    proof (cases w)
      case Nil
      then show ?thesis using 1(1) [OF Cons] mismatch backed Cons by (subst wild_loop.simps) simp
    next
      case wcons: (Cons x w')
      consider (star) "x = 0x2A" | (same) "x \<noteq> 0x2A" "x = c \<or> x = 0x3F" | (miss) "x \<noteq> 0x2A" "\<not> (x = c \<or> x = 0x3F)" by blast
      then show ?thesis
      proof cases
        case star
        have g: "glob w s \<longleftrightarrow> glob w s \<or> (\<exists>t. suffix t cp \<and> glob mp t)" using later wcons star by blast
        show ?thesis
        proof (cases "w' = []")
          case True
          then have "glob w s" using star wcons by (simp del: glob.simps)
          then show ?thesis using star wcons Cons True by (subst wild_loop.simps) (simp del: glob.simps)
        next
          case False
          have "wild_inv s w' s' w'" using Cons unfolding wild_inv_def by (auto intro!: exI [of _ "[]"])
          then have "wild_loop s w' s' w' \<longleftrightarrow> glob w' s \<or> (\<exists>t. suffix t s' \<and> glob w' t)" using 1(2) [OF Cons wcons star False] by simp
          also have "\<dots> \<longleftrightarrow> glob w s" unfolding wcons star glob_star Cons by (auto simp: suffix_Cons)
          finally show ?thesis using g star wcons Cons False by (subst wild_loop.simps) simp
        qed
      next
        case same
        obtain u y where u: "mp = u @ w" "0x2A \<notin> set u" "length u \<le> length cp + 1" "s = drop (length u) (y # cp)" using inv by blast
        have "s' = drop (length (u @ [x])) (y # cp)" using u(4) Cons by (metis drop_Suc length_append_singleton list.sel(3) tl_drop drop_drop drop0)
        moreover have "length u < length (y # cp)" using u(4) Cons by (metis drop_eq_Nil2 list.distinct(1) not_le)
        ultimately have "wild_inv s' w' cp mp" unfolding wild_inv_def using u(1,2) wcons same
          by (intro disjI2 exI [of _ "u @ [x]"] exI [of _ y]) auto
        then show ?thesis using 1(3) [OF Cons wcons same] same wcons Cons by (subst wild_loop.simps) auto
      next
        case miss
        then show ?thesis using 1(4) [OF Cons wcons miss] mismatch backed wcons Cons by (subst wild_loop.simps) auto
      qed
    qed
  qed
qed

lemma wild_head_glob:
  "glob w s \<longleftrightarrow> (case wild_head s w of None \<Rightarrow> False | Some (s', w') \<Rightarrow> glob w' s' \<and> (s' = [] \<or> (\<exists>v. w' = 0x2A # v)))"
proof (induction s w rule: wild_head.induct)
  case (2 c s w)
  then show ?case by (cases w) auto
qed simp

lemma wild_head_Some: "wild_head s w = Some (s', w') \<Longrightarrow> s' = [] \<or> (\<exists>v. w' = 0x2A # v)"
proof (induction s w rule: wild_head.induct)
  case (2 c s w)
  then show ?case by (cases w) (auto split: if_splits)
qed simp

section \<open>Reversal and digits\<close>

lemma strrev_loop_nth:
  "p1 \<le> p2 + 1 \<Longrightarrow> p2 < length mem \<Longrightarrow> \<exists>mem'. strrev_loop p1 p2 mem = Some mem' \<and> length mem' = length mem \<and>
     (\<forall>i < length mem. mem' ! i = (if p1 \<le> i \<and> i \<le> p2 then mem ! (p1 + p2 - i) else mem ! i))"
proof (induction p1 p2 mem rule: strrev_loop.induct)
  case (1 p1 p2 mem)
  show ?case
  proof (cases "p2 > p1")
    case True
    let ?a = "mem ! p1 XOR mem ! p2"
    have x: "?a XOR (mem ! p2 XOR ?a) = mem ! p2" "mem ! p2 XOR ?a = mem ! p1" "?a XOR mem ! p1 = mem ! p2"
      by (simp_all add: xor.left_commute xor.commute)
    let ?m = "mem[p1 := mem ! p2, p2 := mem ! p1]"
    have rd: "rd mem p1 = Some (mem ! p1)" "rd mem p2 = Some (mem ! p2)" using True 1(3) by (simp_all add: rd_def)
    have unroll: "strrev_loop p1 p2 mem = strrev_loop (p1 + 1) (p2 - 1) ?m"
      using True by (subst strrev_loop.simps) (simp add: rd Let_def x)
    have e: "p1 + 1 + (p2 - 1) = p1 + p2" using True by simp
    have "\<exists>mem'. strrev_loop (p1 + 1) (p2 - 1) ?m = Some mem' \<and> length mem' = length ?m \<and>
        (\<forall>i < length ?m. mem' ! i = (if p1 + 1 \<le> i \<and> i \<le> p2 - 1 then ?m ! (p1 + p2 - i) else ?m ! i))"
      using 1(1) [OF True rd refl refl refl, unfolded x e] 1(3) True by simp
    then obtain mem' where m: "strrev_loop (p1 + 1) (p2 - 1) ?m = Some mem'" "length mem' = length mem"
        "\<forall>i < length mem. mem' ! i = (if p1 + 1 \<le> i \<and> i \<le> p2 - 1 then ?m ! (p1 + p2 - i) else ?m ! i)"
      using True by auto
    have "mem' ! i = (if p1 \<le> i \<and> i \<le> p2 then mem ! (p1 + p2 - i) else mem ! i)" if "i < length mem" for i
      using m(3) that True 1(3) by (auto simp: nth_list_update)
    then show ?thesis using m unroll by auto
  next
    case False
    have "mem ! i = (if p1 \<le> i \<and> i \<le> p2 then mem ! (p1 + p2 - i) else mem ! i)" for i
    proof (cases "p1 \<le> i \<and> i \<le> p2")
      case True
      then have "p1 + p2 - i = i" using False by arith
      then show ?thesis by simp
    qed auto
    then show ?thesis using False by (subst strrev_loop.simps) auto
  qed
qed

lemma strrev_at: "str_at mem p s \<Longrightarrow> strrev p mem = Some (write_at mem p (rev s))"
proof -
  assume at: "str_at mem p s"
  show ?thesis
  proof (cases s)
    case Nil
    then show ?thesis using at by (simp add: strrev_def rd_def str_at_simps)
  next
    case (Cons c s')
    have len: "p + length s < length mem" and sl: "take (length s) (drop p mem) = s" using at by (simp_all add: str_at_def)
    have nth: "mem ! (p + i) = s ! i" if "i < length s" for i
      using arg_cong [OF sl, of "\<lambda>l. l ! i"] that len by simp
    obtain mem' where m: "strrev_loop p (p + length s - 1) mem = Some mem'" "length mem' = length mem"
        "\<forall>i < length mem. mem' ! i = (if p \<le> i \<and> i \<le> p + length s - 1 then mem ! (p + (p + length s - 1) - i) else mem ! i)"
      using strrev_loop_nth [of p "p + length s - 1" mem] len Cons by auto
    have "mem' = write_at mem p (rev s)"
    proof (rule nth_equalityI)
      fix i assume i: "i < length mem'"
      show "mem' ! i = write_at mem p (rev s) ! i"
      proof (cases "p \<le> i \<and> i < p + length s")
        case True
        then have "p + (p + length s - 1) - i = p + (length s - 1 - (i - p))" by simp
        then have "mem ! (p + (p + length s - 1) - i) = s ! (length s - 1 - (i - p))" using nth [of "length s - 1 - (i - p)"] Cons by simp
        then show ?thesis using m(2,3) i True len by (auto simp: nth_write_at rev_nth)
      qed (use m(2,3) i len Cons in \<open>auto simp: nth_write_at\<close>)
    qed (use m len in simp)
    moreover have "rd mem p = Some c \<and> c \<noteq> 0" using at Cons by (simp add: str_at_simps rd_def)
    ultimately show ?thesis using m(1) str_len_at [OF at] by (simp add: strrev_def)
  qed
qed

text \<open>The digits of a number, lowest first, and the number of a list of decimal digits.\<close>

function lsd :: "nat \<Rightarrow> nat \<Rightarrow> u8 list" where
  "lsd b n = digits ! (n mod b) # (if 2 \<le> b \<and> n div b > 0 then lsd b (n div b) else [])"
  by auto
termination by (relation "measure snd") (auto intro!: div_less_dividend gr0I)

declare lsd.simps [simp del]

fun dec_value :: "u8 list \<Rightarrow> u32" where
  "dec_value [] = 0"
| "dec_value (d # ds) = (ucast d - 0x30) + 10 * dec_value ds"

lemma mod_36: "2 \<le> b \<Longrightarrow> b \<le> 36 \<Longrightarrow> n mod b < (36 :: nat)"
  by (rule less_le_trans [OF mod_less_divisor]) auto

lemma digits_nth: "d < 36 \<Longrightarrow> digits ! d \<noteq> 0 \<and> rd digits d = Some (digits ! d)"
proof -
  assume "d < 36"
  then have "d \<in> set [0..<36]" by simp
  moreover have "\<forall>d \<in> set [0..<36]. digits ! d \<noteq> 0 \<and> rd digits d = Some (digits ! d)" by (simp add: digits_def rd_def upt_rec)
  ultimately show ?thesis by blast
qed

lemma digits_dec: "d < 10 \<Longrightarrow> ucast (digits ! d) - 0x30 = (of_nat d :: u32) \<and> 0x30 \<le> digits ! d \<and> digits ! d \<le> 0x39"
proof -
  assume "d < 10"
  then have "d \<in> set [0..<10]" by simp
  moreover have "\<forall>d \<in> set [0..<10]. ucast (digits ! d) - 0x30 = (of_nat d :: u32) \<and> 0x30 \<le> digits ! d \<and> digits ! d \<le> 0x39"
    by (simp add: digits_def upt_rec)
  ultimately show ?thesis by blast
qed

lemma lsd_nonzero: "2 \<le> b \<Longrightarrow> b \<le> 36 \<Longrightarrow> 0 \<notin> set (lsd b n)"
proof (induction b n rule: lsd.induct)
  case (1 b n)
  have "n mod b < 36" using 1(2,3) by (rule mod_36)
  then have "digits ! (n mod b) \<noteq> 0" using digits_nth by blast
  then show ?case using 1 by (subst lsd.simps) auto
qed

lemma length_lsd: "2 \<le> b \<Longrightarrow> n < b ^ Suc k \<Longrightarrow> length (lsd b n) \<le> Suc k"
proof (induction k arbitrary: n)
  case 0
  then show ?case by (subst lsd.simps) simp
next
  case (Suc k)
  then have "n div b < b ^ Suc k" by (simp add: less_mult_imp_div_less mult.commute)
  then show ?case using Suc by (subst lsd.simps) auto
qed

lemma put_digits_lsd:
  "2 \<le> b \<Longrightarrow> b \<le> 36 \<Longrightarrow> p + length (lsd b n) \<le> length mem \<Longrightarrow>
     put_digits b n p mem = Some (p + length (lsd b n), write_at mem p (lsd b n))"
proof (induction b n arbitrary: p mem rule: lsd.induct)
  case (1 b n)
  have m: "n mod b < 36" using 1(2,3) by (rule mod_36)
  let ?d = "digits ! (n mod b)"
  have p: "p < length mem" using 1(4) by (subst (asm) lsd.simps) (auto split: if_splits)
  have w: "mem[p := ?d] = write_at mem p [?d]" using p by (simp add: write_at_def upd_conv_take_nth_drop)
  show ?case
  proof (cases "n div b > 0")
    case True
    have l: "lsd b n = ?d # lsd b (n div b)" using True 1(2) by (subst lsd.simps) simp
    have "put_digits b (n div b) (p + 1) (write_at mem p [?d]) = Some (p + 1 + length (lsd b (n div b)), write_at (write_at mem p [?d]) (p + 1) (lsd b (n div b)))"
      using 1(1) [of "p + 1" "write_at mem p [?d]"] True 1(2-4) p l by simp
    moreover have "write_at (write_at mem p [?d]) (p + 1) (lsd b (n div b)) = write_at mem p (lsd b n)"
      using 1(4) l by (simp add: write_at_Cons)
    ultimately show ?thesis using True 1(2) p w digits_nth [OF m] l by (subst put_digits.simps) simp
  next
    case False
    then have "lsd b n = [?d]" by (subst lsd.simps) simp
    then show ?thesis using False 1(2) p w digits_nth [OF m] by (subst put_digits.simps) simp
  qed
qed

text \<open>The digits of a number, written, closed and reversed.\<close>

lemma digits_text:
  assumes "2 \<le> b" "b \<le> 36" "s + length (lsd b n) < length mem"
  shows "(do { (e, mem) \<leftarrow> put_digits b n s mem; mem \<leftarrow> wr mem e 0; strrev s mem }) =
    Some (write_at mem s (rev (lsd b n) @ [0]))"
proof -
  let ?l = "lsd b n"
  have p: "put_digits b n s mem = Some (s + length ?l, write_at mem s ?l)" using put_digits_lsd assms by simp
  have z: "wr (write_at mem s ?l) (s + length ?l) 0 = Some (write_at mem s (?l @ [0]))"
    using assms by (simp add: wr_write_at write_at_append)
  have at: "str_at (write_at mem s (?l @ [0])) s ?l"
    using assms lsd_nonzero [of b n] by (simp add: str_at_def write_at_def nth_append)
  have "write_at (write_at mem s (?l @ [0])) s (rev ?l) = write_at mem s (rev ?l @ [0])"
    using assms by (simp add: write_at_def)
  then show ?thesis using strrev_at [OF at] p z by simp
qed

lemma uitoa_text:
  "2 \<le> b \<Longrightarrow> b \<le> 36 \<Longrightarrow> s + length (lsd (unat b) (unat n)) < length mem \<Longrightarrow>
     uitoa n s b mem = Some (write_at mem s (rev (lsd (unat b) (unat n)) @ [0]))"
  using digits_text [of "unat b" s "unat n" mem] by (simp add: uitoa_def word_le_nat_alt)

lemma dec_value_lsd: "dec_value (lsd 10 n) = of_nat n"
proof (induction "10 :: nat" n rule: lsd.induct)
  case (1 n)
  have d: "ucast (digits ! (n mod 10)) - 0x30 = (of_nat (n mod 10) :: u32)" using digits_dec [of "n mod 10"] by simp
  have "(of_nat n :: u32) = of_nat (n mod 10 + 10 * (n div 10))" by simp
  also have "\<dots> = of_nat (n mod 10) + 10 * of_nat (n div 10)" by (simp only: of_nat_add of_nat_mult) simp
  finally have n: "(of_nat n :: u32) = of_nat (n mod 10) + 10 * of_nat (n div 10)" .
  show ?case using 1 d n by (subst lsd.simps) auto
qed

lemma lsd_dec: "\<forall>d \<in> set (lsd 10 n). 0x30 \<le> d \<and> d \<le> 0x39"
proof (induction "10 :: nat" n rule: lsd.induct)
  case (1 n)
  then show ?case using digits_dec [of "n mod 10"] by (subst lsd.simps) auto
qed

lemma str2i_loop_value:
  "str + length ds \<le> length mem \<Longrightarrow> take (length ds) (drop str mem) = rev ds \<Longrightarrow> \<forall>d \<in> set ds. 0x30 \<le> d \<and> d \<le> 0x39 \<Longrightarrow>
     str2i_loop str (length ds) r m mem = Some (r + m * dec_value ds)"
proof (induction ds arbitrary: r m)
  case (Cons d ds)
  have "take (length ds) (drop str mem) @ [mem ! (str + length ds)] = rev ds @ [d]"
    using Cons.prems(1,2) by (simp add: take_Suc_conv_app_nth)
  then have "take (length ds) (drop str mem) = rev ds" "mem ! (str + length ds) = d" by simp_all
  then show ?case using Cons.IH [of "r + (ucast d - 0x30) * m" "m * 10"] Cons.prems by (simp add: rd_def algebra_simps)
qed simp

section \<open>Formatting, without conversions\<close>

lemma vsn_loop_literals:
  "0x25 \<notin> set fmt \<Longrightarrow> 0 < length fmt \<Longrightarrow> unat r + length fmt < 2 ^ 32 \<Longrightarrow>
     vsn_loop fmt False args sz r buf =
       (if unat r + length fmt < length buf
        then Some (r + of_nat (length fmt), write_at buf (unat r) (fmt @ [0])) else None)"
proof (induction fmt arbitrary: r buf)
  case (Cons c fmt)
  have r1: "unat (r + 1) = unat r + 1" using Cons.prems(3) by (intro unat_add_one_less) simp
  show ?case
  proof (cases "unat r + 1 < length buf")
    case False
    then show ?thesis using Cons.prems by (auto simp: wr_def r1)
  next
    case True
    then have w: "wr buf (unat r) c = Some (write_at buf (unat r) [c])" "wr (write_at buf (unat r) [c]) (unat (r + 1)) 0 = Some (write_at buf (unat r) [c, 0])"
      using write_at_Cons [of "unat r" "[0]" buf c] by (simp_all add: wr_write_at r1)
    show ?thesis
    proof (cases "fmt = []")
      case True
      then show ?thesis using Cons.prems(1) w \<open>unat r + 1 < length buf\<close> by simp
    next
      case False
      have "write_at (write_at buf (unat r) [c, 0]) (unat (r + 1)) (fmt @ [0]) = write_at buf (unat r) (c # fmt @ [0])"
        if "unat r + 1 + length fmt < length buf"
        using that False by (simp add: write_at_def r1 min_def add.commute [of "length fmt"])
      then show ?thesis using Cons.IH [of "r + 1" "write_at buf (unat r) [c, 0]"] Cons.prems w True False r1
        by (simp add: ac_simps)
    qed
  qed
qed simp

lemma put_text_bounded:
  assumes "0 < unat sz" "unat sz \<le> length buf" "length s < 2 ^ 32"
  shows "put_text False s sz 0 buf =
    Some (of_nat (min (unat sz - 1) (length s)), write_at buf 0 (take (unat sz - 1) s @ [0]))"
proof -
  have sz: "unat (sz - 1) = unat sz - 1" using assms(1) by (simp add: unat_sub_one word_unat_eq_iff)
  have l: "unat (of_nat (length s) :: u32) = length s" using assms(3) by (intro unat_of_nat_small) simp
  let ?n = "if sz - 1 < of_nat (length s) then sz - 1 else of_nat (length s)"
  have n: "unat ?n = min (unat sz - 1) (length s)" using sz l by (simp add: word_less_nat_alt min_def)
  have n': "?n = of_nat (min (unat sz - 1) (length s))" unfolding n [symmetric] by simp
  have t: "take (unat ?n) s = take (unat sz - 1) s" unfolding n by (simp add: min_def)
  have lt: "unat ?n = length (take (unat sz - 1) s)" unfolding n by (simp add: min.commute)
  have p: "put_bytes buf 0 (take (unat ?n) s) = Some (write_at buf 0 (take (unat sz - 1) s))"
    using assms(2) unfolding t by (auto simp: put_bytes_def min_def)
  have "length (take (unat sz - 1) s) + 1 \<le> length buf" using assms(1,2) by (auto simp: min_def)
  then have w: "wr (write_at buf 0 (take (unat sz - 1) s)) (unat ?n) 0 = Some (write_at buf 0 (take (unat sz - 1) s @ [0]))"
    using write_at_append [of 0 "take (unat sz - 1) s" "[0]" buf] unfolding lt by (simp add: wr_write_at del: length_take)
  have "put_text False s sz 0 buf = (do { buf \<leftarrow> put_bytes buf 0 (take (unat ?n) s); buf \<leftarrow> wr buf (unat ?n) 0; Some (?n, buf) })"
    by (simp add: put_text_def Let_def del: if_split cong del: if_weak_cong)
  also have "\<dots> = Some (?n, write_at buf 0 (take (unat sz - 1) s @ [0]))" unfolding p Option.bind.simps w by (rule refl)
  finally show ?thesis unfolding n' .
qed

section \<open>Properties\<close>

text \<open>C34: \<open>_wildcmp\<close>, with its two backtracking pointers, decides exactly the usual meaning of a pattern: a
  star stands for any text, a question mark for any one character.\<close>

theorem wildcmp_glob: "wildcmp s w = glob w s"
proof -
  have "wild_loop s' w' [] [] = glob w' s'" if "s' = [] \<or> (\<exists>v. w' = 0x2A # v)" for s' w'
    using that
  proof
    assume s': "s' = []"
    then show ?thesis by (subst wild_loop.simps) (simp add: glob_Nil)
  next
    assume "\<exists>v. w' = 0x2A # v"
    then obtain v where w': "w' = 0x2A # v" by blast
    show ?thesis
    proof (cases s')
      case Nil
      then show ?thesis by (subst wild_loop.simps) (simp add: glob_Nil)
    next
      case (Cons c t)
      have "wild_inv s' v t v" using Cons unfolding wild_inv_def by (auto intro!: exI [of _ "[]"])
      then have "wild_loop s' v t v \<longleftrightarrow> glob w' s'"
        using wild_loop_glob [OF \<open>wild_inv s' v t v\<close>] unfolding w' glob_star Cons by (auto simp: suffix_Cons)
      then show ?thesis using Cons w' by (subst wild_loop.simps) (auto simp del: glob.simps)
    qed
  qed
  then show ?thesis using wild_head_glob [of w s] wild_head_Some [of s w]
    by (cases "wild_head s w") (auto simp: wildcmp_def)
qed

text \<open>C38: A number written by \<open>_uitoa\<close> in base 10 is read back by \<open>_str2i\<close>, over the text up to the NUL, as
  the same number, for every unsigned 32-bit number; a block with 11 bytes from the address on is enough.\<close>

theorem str2i_uitoa:
  assumes "s + 10 < length mem"
  shows "\<exists>mem' l. uitoa n s 10 mem = Some mem' \<and> str_len s mem' = Some l \<and> l \<le> 10 \<and>
    str2i s (of_nat l) mem' = Some n"
proof -
  let ?l = "lsd 10 (unat n)"
  have "unat n < 10 ^ Suc 9" using unsigned_less [of n, where ?'a = nat] by simp
  then have len: "length ?l \<le> 10" using length_lsd [of 10 "unat n" 9] by simp
  have pos: "0 < length ?l" by (subst lsd.simps) simp
  let ?m = "write_at mem s (rev ?l @ [0])"
  have u: "uitoa n s 10 mem = Some ?m" using uitoa_text [of 10 s n mem] len assms by simp
  have at: "str_at ?m s (rev ?l)"
    using assms len lsd_nonzero [of 10 "unat n"] by (simp add: str_at_def write_at_def nth_append)
  have "nat (sint (ucast (of_nat (length ?l) - 1 :: s32) :: u8) + 1) = length ?l"
  proof -
    have "length ?l \<in> set [1..<11]" using len pos by (auto simp del: length_greater_0_conv)
    moreover have "\<forall>k \<in> set [1..<11]. nat (sint (ucast (of_nat k - 1 :: s32) :: u8) + 1) = k" by (simp add: upt_rec)
    ultimately show ?thesis by blast
  qed
  moreover have "str2i_loop s (length ?l) 0 1 ?m = Some (0 + 1 * dec_value ?l)"
    using str_at_bytes [OF at] lsd_dec [of "unat n"] at
    by (intro str2i_loop_value) (simp_all add: str_at_def)
  ultimately have "str2i s (of_nat (length ?l)) ?m = Some n" by (simp add: str2i_def dec_value_lsd)
  then show ?thesis using u str_len_at [OF at] len by auto
qed

theorem str2i_uitoa_witness:
  "\<exists>mem' l. uitoa 4294967295 0 10 (replicate 11 0xFF) = Some mem' \<and> str_len 0 mem' = Some l \<and> l \<le> 10 \<and>
    str2i 0 (of_nat l) mem' = Some 4294967295"
  by (rule str2i_uitoa) simp

text \<open>\<open>_snprintf\<close> with the format \<open>%s\<close> stays within the size it is given: it writes the text cut to one
  byte less than the size and a NUL, leaves the rest of the buffer alone and returns the length written.\<close>

theorem snprintf_string_bounded:
  assumes "0 < unat sz" "unat sz \<le> length buf" "length s < 2 ^ 32"
  shows "snprintf buf sz [0x25, 0x73] [VA_str s] =
    Some (of_nat (min (unat sz - 1) (length s)), write_at buf 0 (take (unat sz - 1) s @ [0]))"
  using put_text_bounded [OF assms] by (simp add: snprintf_def vsnprintf_def conversion_def)

theorem snprintf_string_bounded_witness:
  "snprintf [9, 9, 9, 9, 9] 4 [0x25, 0x73] [VA_str [0x61, 0x62, 0x63, 0x64, 0x65]] =
    Some (of_nat (min (unat (4 :: u32) - 1) (length [0x61 :: u8, 0x62, 0x63, 0x64, 0x65])),
      write_at [9, 9, 9, 9, 9] 0 (take (unat (4 :: u32) - 1) [0x61, 0x62, 0x63, 0x64, 0x65] @ [0]))"
  by (rule snprintf_string_bounded) simp_all

text \<open>The characters of the format itself are written without regard to the size: a format without
  conversions is copied whole, and when the buffer is not longer than the format the write leaves it,
  whatever size was given.\<close>

theorem snprintf_literals_ignore_size:
  assumes "0x25 \<notin> set fmt" "0 < length fmt" "length fmt < 2 ^ 32"
  shows "snprintf buf sz fmt args =
    (if length fmt < length buf then Some (of_nat (length fmt), write_at buf 0 (fmt @ [0])) else None)"
  using vsn_loop_literals [of fmt 0 args sz buf] assms by (simp add: snprintf_def vsnprintf_def)

theorem snprintf_literals_ignore_size_witness:
  "snprintf [0, 0] 2 [0x61, 0x62] [] =
    (if length [0x61 :: u8, 0x62] < length [0 :: u8, 0]
     then Some (of_nat (length [0x61 :: u8, 0x62]), write_at [0, 0] 0 ([0x61, 0x62] @ [0])) else None)"
  by (rule snprintf_literals_ignore_size) simp_all

end
