(* ===== verification/RingBuf.thy ===== *)
theory RingBuf
  imports Bytes Heaps
begin

text \<open>
  The ring buffer of messages: core/mem/rb_alg.c and rb_alg.h, and the class \<open>cRingBuffer\<close> of
  core/mem/rbuffer.cpp over a heap object and a \<open>cMutex\<close>. A message is a size of two bytes, which
  counts itself, and its data. The block is the list of its bytes; positions are offsets into it.
\<close>

section \<open>Data\<close>

definition INVALID_PULL_POSITION :: u32 where "INVALID_PULL_POSITION = 0xffffffff"

text \<open>The callbacks for memory blocks and for the lock work on the state \<open>rb_udata\<close>; the callbacks that
  set and copy memory are writes to the block.\<close>

record 'u rb_context =
  rb_mem_alloc :: "(u32 \<Rightarrow> 'u \<Rightarrow> (ptr \<times> 'u) option) option"
  rb_mem_free :: "(addr \<Rightarrow> u32 \<Rightarrow> 'u \<Rightarrow> 'u option) option"
  rb_plock :: "(u64 \<Rightarrow> 'u \<Rightarrow> (u64 \<times> 'u) option) option"
  rb_punlock :: "(u64 \<Rightarrow> 'u \<Rightarrow> 'u option) option"
  rb_addr :: "(addr \<times> u8 list) option"
  rb_size :: u32
  rb_first :: u32
  rb_last :: u32
  rb_pullp :: u32
  rb_udata :: 'u

definition rb_lock :: "'u rb_context \<Rightarrow> u64 \<Rightarrow> (u64 \<times> 'u rb_context) option" where
  "rb_lock c hlock =
     (case rb_plock c of
        None \<Rightarrow> Some (0, c)
      | Some f \<Rightarrow> do { (r, u) \<leftarrow> f hlock (rb_udata c); Some (r, c\<lparr>rb_udata := u\<rparr>) })"

definition rb_unlock :: "'u rb_context \<Rightarrow> u64 \<Rightarrow> 'u rb_context option" where
  "rb_unlock c hlock =
     (case rb_punlock c of
        None \<Rightarrow> Some c
      | Some f \<Rightarrow> do { u \<leftarrow> f hlock (rb_udata c); Some (c\<lparr>rb_udata := u\<rparr>) })"

section \<open>Creation\<close>

definition rb_init :: "'u rb_context \<Rightarrow> u32 \<Rightarrow> 'u \<Rightarrow> 'u rb_context option" where
  "rb_init c cap udata =
     (case rb_mem_alloc c of
        None \<Rightarrow> Some c
      | Some al \<Rightarrow>
          if rb_addr c = None then do {
            (p, u) \<leftarrow> al cap udata;
            (case p of
               None \<Rightarrow> Some c
             | Some a \<Rightarrow> Some (c\<lparr>rb_addr := Some (a, replicate (unat cap) 0), rb_size := cap, rb_first := rb_last c,
                 rb_udata := u, rb_pullp := INVALID_PULL_POSITION\<rparr>)) }
          else Some c)"

definition rb_destroy :: "'u rb_context \<Rightarrow> 'u rb_context option" where
  "rb_destroy c =
     (case (rb_mem_free c, rb_addr c) of
        (Some fr, Some (a, _)) \<Rightarrow> do {
          (hlock, c) \<leftarrow> rb_lock c 0;
          u \<leftarrow> fr a (rb_size c) (rb_udata c);
          rb_unlock (c\<lparr>rb_udata := u, rb_addr := None, rb_size := 0\<rparr>) hlock }
      | _ \<Rightarrow> Some c)"

section \<open>Messages\<close>

definition rd16 :: "u8 list \<Rightarrow> u32 \<Rightarrow> u16 option" where
  "rd16 mem p = (if unat p + 2 \<le> length mem then Some (ucast (mem ! unat p) OR push_bit 8 (ucast (mem ! (unat p + 1)))) else None)"

definition wr16 :: "u8 list \<Rightarrow> u32 \<Rightarrow> u16 \<Rightarrow> u8 list option" where
  "wr16 mem p w = (if unat p + 2 \<le> length mem then Some (write_at mem (unat p) [ucast w, ucast (drop_bit 8 w)]) else None)"

datatype rb_pos = P_FIRST | P_LAST | P_PULL

text \<open>The next position after the message at \<open>p\<close>.\<close>

definition step :: "u8 list \<Rightarrow> u32 \<Rightarrow> u32 \<Rightarrow> u32 option" where
  "step mem sz p = do {
     n \<leftarrow> rd16 mem p;
     Some (if p + ucast n < sz then p + ucast n else 0) }"

definition skip :: "'u rb_context \<Rightarrow> u8 list \<Rightarrow> rb_pos \<Rightarrow> 'u rb_context option" where
  "skip c mem p =
     (case p of
        P_FIRST \<Rightarrow> map_option (\<lambda>q. c\<lparr>rb_first := q\<rparr>) (step mem (rb_size c) (rb_first c))
      | P_LAST \<Rightarrow> map_option (\<lambda>q. c\<lparr>rb_last := q\<rparr>) (step mem (rb_size c) (rb_last c))
      | P_PULL \<Rightarrow>
          if rb_pullp c \<noteq> INVALID_PULL_POSITION then do {
            n \<leftarrow> rd16 mem (rb_last c);
            if rb_pullp c \<noteq> rb_last c + ucast n then map_option (\<lambda>q. c\<lparr>rb_pullp := q\<rparr>) (step mem (rb_size c) (rb_pullp c))
            else Some c }
          else Some c)"

text \<open>The loop that gives up the oldest messages, while \<open>e\<close> reaches the first one; a loop that does not
  end is \<open>None\<close>.\<close>

partial_function (option) make_room :: "u8 list \<Rightarrow> u32 \<Rightarrow> 'u rb_context \<Rightarrow> 'u rb_context option" where
  "make_room mem e c =
     (if rb_first c \<noteq> 0 \<and> e \<ge> rb_first c then Option.bind (skip c mem P_FIRST) (make_room mem e) else Some c)"

section \<open>The operations\<close>

definition rb_push :: "'u rb_context \<Rightarrow> u8 list \<Rightarrow> u16 \<Rightarrow> 'u rb_context option" where
  "rb_push c data sz = do {
     (hlock, c) \<leftarrow> rb_lock c 0;
     c \<leftarrow> (case rb_addr c of
         None \<Rightarrow> Some c
       | Some (a, mem) \<Rightarrow> do {
           n \<leftarrow> rd16 mem (rb_last c);
           let npos = rb_last c + ucast n;
           let nsz = sz + 2;
           (p_last, npos, n, mem, c) \<leftarrow>
             (if rb_first c < rb_last c \<and> rb_last c + ucast n + ucast nsz > rb_size c then do {
                mem \<leftarrow> wr16 mem (rb_last c) (ucast (ucast n + (rb_size c - rb_last c)));
                c \<leftarrow> skip c mem P_FIRST;
                c \<leftarrow> skip c mem P_LAST;
                n \<leftarrow> rd16 mem (rb_last c);
                Some (rb_last c, rb_last c, n, mem, c) }
              else Some (rb_last c, npos, n, mem, c));
           c \<leftarrow> (if rb_first c > rb_last c \<and> rb_last c + ucast n + ucast nsz \<ge> rb_first c
                then make_room mem (rb_last c + ucast n + ucast nsz) c else Some c);
           mem \<leftarrow> wr16 mem npos nsz;
           mem \<leftarrow> (if unat npos + 2 + unat sz \<le> length mem then Some (write_at mem (unat npos + 2) (take (unat sz) data)) else None);
           c \<leftarrow> (if npos \<noteq> p_last then skip c mem P_LAST else Some c);
           Some (c\<lparr>rb_addr := Some (a, mem),
                   rb_pullp := (if rb_pullp c = INVALID_PULL_POSITION then rb_last c else rb_pullp c)\<rparr>) });
     rb_unlock c hlock }"

text \<open>The result points to the data of the message in the block; \<open>*psz\<close> is set with it.\<close>

definition rb_pull :: "'u rb_context \<Rightarrow> ((nat \<times> u16) option \<times> 'u rb_context) option" where
  "rb_pull c = do {
     (hlock, c) \<leftarrow> rb_lock c 0;
     (r, c) \<leftarrow> (case rb_addr c of
         None \<Rightarrow> Some (None, c)
       | Some (a, mem) \<Rightarrow>
           if rb_pullp c \<noteq> INVALID_PULL_POSITION then do {
             n \<leftarrow> rd16 mem (rb_pullp c);
             let cp = rb_pullp c;
             c \<leftarrow> skip c mem P_PULL;
             Some (Some (unat cp + 2, n), if cp = rb_last c then c\<lparr>rb_pullp := INVALID_PULL_POSITION\<rparr> else c) }
           else Some (None, c));
     c \<leftarrow> rb_unlock c hlock;
     Some (r, c) }"

definition rb_reset_pull :: "'u rb_context \<Rightarrow> 'u rb_context option" where
  "rb_reset_pull c = do {
     (hlock, c) \<leftarrow> rb_lock c 0;
     rb_unlock (c\<lparr>rb_pullp := rb_first c\<rparr>) hlock }"

section \<open>cRingBuffer\<close>

record rb_user =
  r_heap :: "cZoneHeap option"
  r_mutex :: "cMutex option"

type_synonym cRingBuffer = "rb_user rb_context"

definition rb_mem_alloc_cb :: "u32 \<Rightarrow> rb_user \<Rightarrow> (ptr \<times> rb_user) option" where
  "rb_mem_alloc_cb sz u = (case r_heap u of
     None \<Rightarrow> Some (None, u)
   | Some z \<Rightarrow> do { (p, z) \<leftarrow> cZoneHeap_alloc sz z; Some (p, u\<lparr>r_heap := Some z\<rparr>) })"

definition rb_mem_free_cb :: "addr \<Rightarrow> u32 \<Rightarrow> rb_user \<Rightarrow> rb_user option" where
  "rb_mem_free_cb p sz u = (case r_heap u of
     None \<Rightarrow> Some u
   | Some z \<Rightarrow> do { z \<leftarrow> cZoneHeap_free False p sz z; Some (u\<lparr>r_heap := Some z\<rparr>) })"

definition rb_lock_cb :: "u64 \<Rightarrow> rb_user \<Rightarrow> (u64 \<times> rb_user) option" where
  "rb_lock_cb h u = (case r_mutex u of
     None \<Rightarrow> Some (0, u)
   | Some m \<Rightarrow> do { (r, m) \<leftarrow> cMutex_lock m h; Some (r, u\<lparr>r_mutex := Some m\<rparr>) })"

definition rb_unlock_cb :: "u64 \<Rightarrow> rb_user \<Rightarrow> rb_user option" where
  "rb_unlock_cb h u = (case r_mutex u of
     None \<Rightarrow> Some u
   | Some m \<Rightarrow> do { m \<leftarrow> cMutex_unlock m h; Some (u\<lparr>r_mutex := Some m\<rparr>) })"

text \<open>The context after \<open>memset\<close>, with the given heap and mutex.\<close>

definition rb_zero :: "rb_user \<Rightarrow> cRingBuffer" where
  "rb_zero u = \<lparr>rb_mem_alloc = None, rb_mem_free = None, rb_plock = None, rb_punlock = None, rb_addr = None,
     rb_size = 0, rb_first = 0, rb_last = 0, rb_pullp = 0, rb_udata = u\<rparr>"

text \<open>\<open>object_ctl\<close> with the heap and the mutex that the repository hands out; the release of both by the
  repository at \<open>OCTL_UNINIT\<close> leaves the pointers of the object as they are.\<close>

definition cRingBuffer_object_ctl :: "octl \<Rightarrow> cZoneHeap option \<Rightarrow> cMutex option \<Rightarrow> cRingBuffer \<Rightarrow> (bool \<times> cRingBuffer) option" where
  "cRingBuffer_object_ctl cmd hp mx c =
     (case cmd of
        OCTL_INIT \<Rightarrow> Some (hp \<noteq> None \<and> mx \<noteq> None, rb_zero \<lparr>r_heap = hp, r_mutex = mx\<rparr>)
      | OCTL_UNINIT \<Rightarrow> do {
          c \<leftarrow> rb_destroy c;
          Some (False, rb_zero (rb_udata c)) }
      | _ \<Rightarrow> Some (False, c))"

definition cRingBuffer_init :: "cRingBuffer \<Rightarrow> u32 \<Rightarrow> cRingBuffer option" where
  "cRingBuffer_init c cap =
     rb_init (c\<lparr>rb_mem_alloc := Some rb_mem_alloc_cb, rb_mem_free := Some rb_mem_free_cb,
       rb_plock := Some rb_lock_cb, rb_punlock := Some rb_unlock_cb\<rparr>) cap (rb_udata c)"

definition cRingBuffer_destroy :: "cRingBuffer \<Rightarrow> cRingBuffer option" where "cRingBuffer_destroy c = rb_destroy c"

definition cRingBuffer_push :: "cRingBuffer \<Rightarrow> u8 list \<Rightarrow> u16 \<Rightarrow> cRingBuffer option" where
  "cRingBuffer_push c msg sz = rb_push c msg sz"

definition cRingBuffer_pull :: "cRingBuffer \<Rightarrow> ((nat \<times> u16) option \<times> cRingBuffer) option" where
  "cRingBuffer_pull c = rb_pull c"

definition cRingBuffer_reset_pull :: "cRingBuffer \<Rightarrow> cRingBuffer option" where
  "cRingBuffer_reset_pull c = rb_reset_pull c"

section \<open>One lap\<close>

text \<open>The bytes of a message, and of all messages since the start of the block.\<close>

definition msg_bytes :: "u8 list \<Rightarrow> u8 list" where
  "msg_bytes m = (let w = of_nat (length m + 2) :: u16 in [ucast w, ucast (drop_bit 8 w)] @ m)"

definition lap :: "u8 list list \<Rightarrow> u8 list" where
  "lap ms = concat (map msg_bytes ms)"

lemma length_msg_bytes [simp]: "length (msg_bytes m) = length m + 2"
  by (simp add: msg_bytes_def Let_def)

lemma lap_simps [simp]: "lap [] = []" "lap (m # ms) = msg_bytes m @ lap ms" "lap (ms @ ns) = lap ms @ lap ns"
  by (simp_all add: lap_def)

lemma word16_bytes: "ucast (ucast w :: u8) OR push_bit 8 (ucast (ucast (drop_bit 8 w) :: u8)) = (w :: u16)"
  by (rule bit_word_eqI) (auto simp: bit_simps)

lemma rd16_msg:
  assumes "unat p + 2 \<le> length mem" "drop (unat p) mem = msg_bytes m @ rest"
  shows "rd16 mem p = Some (of_nat (length m + 2))"
proof -
  let ?w = "of_nat (length m + 2) :: u16"
  have "mem ! unat p = ucast ?w" "mem ! (unat p + 1) = ucast (drop_bit 8 ?w)"
    using arg_cong [OF assms(2), of "\<lambda>l. l ! 0"] arg_cong [OF assms(2), of "\<lambda>l. l ! 1"] assms(1)
    by (simp_all add: msg_bytes_def Let_def)
  then show ?thesis using assms(1) by (simp add: rd16_def word16_bytes)
qed


text \<open>The lock callbacks return, on the states \<open>L\<close>.\<close>

definition lock_ok :: "'u set \<Rightarrow> 'u rb_context \<Rightarrow> bool" where
  "lock_ok L c \<longleftrightarrow> rb_udata c \<in> L \<and>
     (\<forall>u \<in> L. \<exists>h u1. (case rb_plock c of None \<Rightarrow> h = 0 \<and> u1 = u | Some f \<Rightarrow> f 0 u = Some (h, u1)) \<and>
        (\<exists>u2 \<in> L. case rb_punlock c of None \<Rightarrow> u2 = u1 | Some f \<Rightarrow> f h u1 = Some u2))"

lemma lock_bracket:
  assumes "lock_ok L c"
  obtains h u1 u2 where "rb_lock c 0 = Some (h, c\<lparr>rb_udata := u1\<rparr>)" "u2 \<in> L"
    "\<And>d. rb_punlock d = rb_punlock c \<Longrightarrow> rb_udata d = u1 \<Longrightarrow> rb_unlock d h = Some (d\<lparr>rb_udata := u2\<rparr>)"
proof -
  obtain h u1 u2 where l: "case rb_plock c of None \<Rightarrow> h = 0 \<and> u1 = rb_udata c | Some f \<Rightarrow> f 0 (rb_udata c) = Some (h, u1)"
      "u2 \<in> L" "case rb_punlock c of None \<Rightarrow> u2 = u1 | Some f \<Rightarrow> f h u1 = Some u2"
    using assms unfolding lock_ok_def by blast
  have "rb_lock c 0 = Some (h, c\<lparr>rb_udata := u1\<rparr>)" using l(1) by (auto simp: rb_lock_def split: option.splits)
  moreover have "rb_unlock d h = Some (d\<lparr>rb_udata := u2\<rparr>)" if "rb_punlock d = rb_punlock c" "rb_udata d = u1" for d
    using l(3) that by (auto simp: rb_unlock_def split: option.splits)
  ultimately show ?thesis using that l(2) by blast
qed

text \<open>The buffer holds the messages \<open>ms\<close> from its start on, of which the first \<open>k\<close> have been pulled.\<close>

definition rb_rel :: "'u set \<Rightarrow> 'u rb_context \<Rightarrow> u8 list list \<Rightarrow> nat \<Rightarrow> bool" where
  "rb_rel L c ms k \<longleftrightarrow> lock_ok L c \<and> k \<le> length ms \<and> rb_first c = 0 \<and>
     (\<exists>a mem. rb_addr c = Some (a, mem) \<and> length mem = unat (rb_size c) \<and> take (length (lap ms)) mem = lap ms \<and>
        length (lap ms) \<le> length mem \<and> (\<forall>m \<in> set ms. length m + 2 < 2 ^ 16) \<and>
        (if ms = [] then 2 \<le> length mem \<and> take 2 mem = [0, 0] \<and> rb_last c = 0
         else unat (rb_last c) = length (lap (butlast ms))) \<and>
        (if k < length ms then unat (rb_pullp c) = length (lap (take k ms)) else rb_pullp c = INVALID_PULL_POSITION))"

lemma unat_invalid: "unat INVALID_PULL_POSITION = 2 ^ 32 - 1"
  by (simp add: INVALID_PULL_POSITION_def)

lemma lap_split: "k < length ms \<Longrightarrow> lap ms = lap (take k ms) @ msg_bytes (ms ! k) @ lap (drop (Suc k) ms)"
  by (metis id_take_nth_drop lap_simps(2,3))

lemma lap_last: "ms \<noteq> [] \<Longrightarrow> lap ms = lap (butlast ms) @ msg_bytes (last ms)"
  by (metis append_butlast_last_id append_Nil2 lap_simps)

text \<open>The size field of message \<open>k\<close>.\<close>

lemma rd16_lap:
  assumes "take (length (lap ms)) mem = lap ms" "length (lap ms) \<le> length mem" "k < length ms" "unat p = length (lap (take k ms))"
  shows "rd16 mem p = Some (of_nat (length (ms ! k) + 2))"
proof -
  have mem: "mem = lap ms @ drop (length (lap ms)) mem" using assms(1) by (metis append_take_drop_id)
  then have "drop (unat p) mem = msg_bytes (ms ! k) @ lap (drop (Suc k) ms) @ drop (length (lap ms)) mem"
    using lap_split [OF assms(3)] assms(4) by (metis append.assoc append_eq_conv_conj)
  moreover have "unat p + 2 \<le> length mem" using lap_split [OF assms(3)] assms(2,4) by simp
  ultimately show ?thesis by (rule rd16_msg [rotated])
qed


lemma rd16_zero: "take 2 mem = [0, 0] \<Longrightarrow> rd16 mem 0 = Some 0"
proof -
  assume t: "take 2 mem = [0, 0]"
  have "2 \<le> length mem" using arg_cong [OF t, of length] by (simp add: min_def split: if_splits)
  moreover have "mem ! 0 = 0" "mem ! 1 = 0" using arg_cong [OF t, of "\<lambda>l. l ! 0"] arg_cong [OF t, of "\<lambda>l. l ! 1"] by simp_all
  ultimately show ?thesis by (simp add: rd16_def)
qed

text \<open>Positions of messages are in the block and differ.\<close>

lemma lap_take_less: "j < k \<Longrightarrow> k \<le> length ms \<Longrightarrow> length (lap (take j ms)) + 2 \<le> length (lap (take k ms))"
proof (induction k)
  case (Suc k)
  then show ?case using Suc.IH by (cases "j = k") (auto simp: take_Suc_conv_app_nth)
qed simp

lemma lap_take_le: "length (lap (take k ms)) \<le> length (lap ms)"
  by (metis append_take_drop_id lap_simps(3) length_append le_add1)

lemma lap_pos_valid:
  assumes "k < length ms" "length (lap ms) \<le> length mem" "length mem = unat (sz :: u32)" "unat p = length (lap (take k ms))"
  shows "p \<noteq> INVALID_PULL_POSITION"
proof
  assume "p = INVALID_PULL_POSITION"
  moreover have "length (lap (take k ms)) + 2 \<le> unat sz" using lap_split [OF assms(1)] assms(2,3) by simp
  ultimately show False using assms(4) unat_invalid unsigned_less [of sz, where ?'a = nat] by simp
qed

text \<open>Writing a message behind the last one.\<close>

lemma write_msg:
  assumes "take (length (lap ms)) mem = lap ms" "length (lap ms) + length d + 2 \<le> length mem" "unat p = length (lap ms)" "length d + 2 < 2 ^ 16"
  shows "\<exists>mem1 mem'. wr16 mem p (of_nat (length d) + 2) = Some mem1 \<and> length mem1 = length mem \<and>
    mem' = write_at mem1 (unat p + 2) d \<and> length mem' = length mem \<and> take (length (lap (ms @ [d]))) mem' = lap (ms @ [d])"
proof -
  let ?w = "of_nat (length d + 2) :: u16"
  let ?mem1 = "write_at mem (unat p) [ucast ?w, ucast (drop_bit 8 ?w)]"
  have w: "of_nat (length d) + 2 = ?w" by simp
  have 1: "wr16 mem p (of_nat (length d) + 2) = Some ?mem1" using assms(2,3) unfolding w by (simp add: wr16_def)
  have "write_at ?mem1 (unat p + 2) d = write_at mem (unat p) (msg_bytes d)"
    using assms(2,3) write_at_append [of "unat p" "[ucast ?w, ucast (drop_bit 8 ?w)]" d mem] by (simp add: msg_bytes_def Let_def)
  moreover have "take (length (lap (ms @ [d]))) (write_at mem (unat p) (msg_bytes d)) = lap (ms @ [d])"
    using assms(1-3) by (simp add: write_at_def)
  ultimately show ?thesis using 1 assms(2,3) by (intro exI [of _ ?mem1] exI [of _ "write_at ?mem1 (unat p + 2) d"]) simp
qed

lemma unat_ucast_msg: "length d + 2 < 2 ^ 16 \<Longrightarrow> unat (ucast (of_nat (length d + 2) :: u16) :: u32) = length d + 2"
proof -
  assume l: "length d + 2 < 2 ^ 16"
  have "unat (of_nat (length d + 2) :: u16) = length d + 2" by (rule unat_of_nat_small) (use l in simp)
  then show ?thesis using l unfolding unsigned_ucast_eq by (simp only:) (simp add: take_bit_nat_eq_self)
qed

lemma rb_push_rel:
  assumes rel: "rb_rel L c ms k" and room: "length (lap ms) + length d + 2 \<le> unat (rb_size c)" and len: "length d + 2 < 2 ^ 16"
  shows "\<exists>c'. rb_push c d (of_nat (length d)) = Some c' \<and> rb_rel L c' (ms @ [d]) k \<and> rb_size c' = rb_size c"
proof -
  obtain a mem where r: "lock_ok L c" "k \<le> length ms" "rb_first c = 0" "rb_addr c = Some (a, mem)" "length mem = unat (rb_size c)"
      "take (length (lap ms)) mem = lap ms" "length (lap ms) \<le> length mem" "\<forall>m \<in> set ms. length m + 2 < 2 ^ 16"
      "if ms = [] then 2 \<le> length mem \<and> take 2 mem = [0, 0] \<and> rb_last c = 0 else unat (rb_last c) = length (lap (butlast ms))"
      "if k < length ms then unat (rb_pullp c) = length (lap (take k ms)) else rb_pullp c = INVALID_PULL_POSITION"
    using rel by (auto simp: rb_rel_def)
  obtain h u1 u2 where l: "rb_lock c 0 = Some (h, c\<lparr>rb_udata := u1\<rparr>)" "u2 \<in> L"
      "\<And>d. rb_punlock d = rb_punlock c \<Longrightarrow> rb_udata d = u1 \<Longrightarrow> rb_unlock d h = Some (d\<lparr>rb_udata := u2\<rparr>)"
    using lock_bracket [OF r(1)] by blast
  have lim: "unat (rb_size c) < 2 ^ 32" using unsigned_less [of "rb_size c", where ?'a = nat] by simp
  define n where "n = (if ms = [] then 0 else of_nat (length (last ms) + 2) :: u16)"
  have n: "rd16 mem (rb_last c) = Some n"
  proof (cases "ms = []")
    case False
    then have "rd16 mem (rb_last c) = Some (of_nat (length (ms ! (length ms - 1)) + 2))"
      using rd16_lap [OF r(6,7), of "length ms - 1" "rb_last c"] r(9) by (simp add: butlast_conv_take)
    then show ?thesis using False by (simp add: n_def last_conv_nth)
  qed (use r(9) rd16_zero in \<open>simp add: n_def\<close>)
  have un: "unat (ucast n :: u32) = (if ms = [] then 0 else length (last ms) + 2)"
    using r(8) last_in_set [of ms] unat_ucast_msg [of "last ms"] by (cases "ms = []") (auto simp: n_def)
  have lapl: "length (lap ms) = unat (rb_last c) + unat (ucast n :: u32)" using r(9) lap_last [of ms] by (auto simp: un)
  then have npos: "unat (rb_last c + ucast n) = length (lap ms)" using lim r(5,7) by (simp add: unat_word_ariths)
  have nsz: "unat (ucast (of_nat (length d) + 2 :: u16) :: u32) = length d + 2"
    using unat_ucast_msg [OF len] by (simp add: add.commute)
  have "unat (rb_last c + ucast n + ucast (of_nat (length d) + 2 :: u16)) = length (lap ms) + length d + 2"
    using npos nsz room lim by (simp add: unat_word_ariths(1) [of "rb_last c + ucast n"])
  then have nowrap: "\<not> rb_last c + ucast n + ucast (of_nat (length d) + 2 :: u16) > rb_size c" using room by (simp add: word_less_nat_alt)
  obtain mem1 mem' where m: "wr16 mem (rb_last c + ucast n) (of_nat (length d) + 2) = Some mem1" "length mem1 = length mem"
      "mem' = write_at mem1 (unat (rb_last c + ucast n) + 2) d" "length mem' = length mem"
      "take (length (lap (ms @ [d]))) mem' = lap (ms @ [d])"
    using write_msg [OF r(6) _ npos len] room r(5) by auto
  have sz: "unat (of_nat (length d) :: u16) = length d" using len by (intro unat_of_nat_small) simp
  have fit: "unat (rb_last c + ucast n) + 2 + unat (of_nat (length d) :: u16) \<le> length mem1" using npos room m(2) r(5) sz by simp
  have le': "length (lap (ms @ [d])) \<le> length mem'" using room m(4) r(5) by simp
  define last' where "last' = (if ms = [] then rb_last c else rb_last c + ucast n)"
  have last': "unat last' = length (lap ms)" using r(9) npos by (auto simp: last'_def)
  have skip: "(if rb_last c + ucast n \<noteq> rb_last c then skip (c\<lparr>rb_udata := u1\<rparr>) mem' P_LAST else Some (c\<lparr>rb_udata := u1\<rparr>)) =
      Some (c\<lparr>rb_udata := u1, rb_last := last'\<rparr>)"
  proof (cases "ms = []")
    case True
    then have "ucast n = (0 :: u32)" by (simp add: n_def)
    then show ?thesis using True by (simp add: last'_def)
  next
    case False
    then have ne: "rb_last c + ucast n \<noteq> rb_last c" using un by (metis add_cancel_right_right add_2_eq_Suc' nat.distinct(1) unat_0)
    have "rd16 mem' (rb_last c) = Some (of_nat (length ((ms @ [d]) ! (length ms - 1)) + 2))"
      using rd16_lap [OF m(5) le', of "length ms - 1" "rb_last c"] r(9) False by (simp add: butlast_conv_take)
    then have "rd16 mem' (rb_last c) = Some n" using False by (simp add: n_def last_conv_nth nth_append)
    moreover have "rb_last c + ucast n < rb_size c" using npos room by (simp add: word_less_nat_alt)
    ultimately show ?thesis using False ne by (simp add: skip_def step_def last'_def)
  qed
  let ?c' = "c\<lparr>rb_udata := u2, rb_last := last', rb_addr := Some (a, mem'),
      rb_pullp := (if rb_pullp c = INVALID_PULL_POSITION then last' else rb_pullp c)\<rparr>"
  have "rb_push c d (of_nat (length d)) = Some ?c'"
  proof (cases "ucast n = (0 :: u32)")
    case True
    then have "last' = rb_last c" by (simp add: last'_def)
    then show ?thesis
      unfolding rb_push_def using l r(3,4) n nowrap m(1,3) fit sz True by (simp add: Let_def)
  next
    case False
    then have "skip (c\<lparr>rb_udata := u1\<rparr>) mem' P_LAST = Some (c\<lparr>rb_udata := u1, rb_last := last'\<rparr>)" using skip by simp
    then show ?thesis
      unfolding rb_push_def using l r(3,4) n nowrap m(1,3) fit sz False by (simp add: Let_def)
  qed
  moreover have "rb_rel L ?c' (ms @ [d]) k"
  proof -
    have pull: "unat (rb_pullp ?c') = length (lap (take k ms))"
    proof (cases "k < length ms")
      case True
      then have "rb_pullp c \<noteq> INVALID_PULL_POSITION"
        using r(5,7,10) lap_split [OF True] lim unat_invalid by (metis lap_pos_valid)
      then show ?thesis using r(10) True by simp
    qed (use r(2,10) last' in simp)
    have "lock_ok L ?c'" using r(1) l(2) by (simp add: lock_ok_def)
    then show ?thesis using r(2-5,8) m(4,5) le' last' len pull by (auto simp: rb_rel_def butlast_append)
  qed
  ultimately show ?thesis by (intro exI [of _ ?c']) simp
qed

lemma rb_rel_udata: "rb_rel L c ms k \<Longrightarrow> u \<in> L \<Longrightarrow> rb_rel L (c\<lparr>rb_udata := u\<rparr>) ms k"
  by (simp add: rb_rel_def lock_ok_def split del: if_split cong: if_cong)

lemma rb_rel_pullp:
  assumes "rb_rel L c ms k" "j \<le> length ms" "if j < length ms then unat p = length (lap (take j ms)) else p = INVALID_PULL_POSITION"
  shows "rb_rel L (c\<lparr>rb_pullp := p\<rparr>) ms j"
  using assms unfolding rb_rel_def lock_ok_def by (elim conjE exE) (simp split del: if_split cong: if_cong)

text \<open>A pull gives the position of the data of the next message, and its size field.\<close>

lemma skip_pull:
  assumes rel: "rb_rel L c ms k" and k: "k < length ms" and a: "rb_addr c = Some (a, mem)"
  shows "\<exists>q. skip (c\<lparr>rb_udata := u\<rparr>) mem P_PULL = Some (c\<lparr>rb_udata := u, rb_pullp := q\<rparr>) \<and> (Suc k < length ms \<longrightarrow> unat q = length (lap (take (Suc k) ms)))"
proof -
  have r: "length mem = unat (rb_size c)" "take (length (lap ms)) mem = lap ms" "length (lap ms) \<le> length mem"
      "\<forall>m \<in> set ms. length m + 2 < 2 ^ 16" "unat (rb_last c) = length (lap (butlast ms))" "unat (rb_pullp c) = length (lap (take k ms))"
    using rel k a by (auto simp: rb_rel_def split: if_splits)
  have lim: "unat (rb_size c) < 2 ^ 32" using unsigned_less [of "rb_size c", where ?'a = nat] by simp
  have valid: "rb_pullp c \<noteq> INVALID_PULL_POSITION" by (rule lap_pos_valid [OF k r(3,1,6)])
  have ne: "ms \<noteq> []" using k by auto
  have len: "unat (ucast (of_nat (length (ms ! j) + 2) :: u16) :: u32) = length (ms ! j) + 2" if "j < length ms" for j
    using r(4) that by (intro unat_ucast_msg) simp
  let ?l = "length ms - 1"
  have nl: "rd16 mem (rb_last c) = Some (of_nat (length (ms ! ?l) + 2))"
    using rd16_lap [OF r(2,3), of ?l "rb_last c"] r(5) ne by (simp add: butlast_conv_take)
  have nk: "rd16 mem (rb_pullp c) = Some (of_nat (length (ms ! k) + 2))" by (rule rd16_lap [OF r(2,3) k r(6)])
  have endl: "unat (rb_last c + ucast (of_nat (length (ms ! ?l) + 2) :: u16)) = length (lap ms)"
    using r(1,3,5) len [of ?l] ne lim lap_last [OF ne] by (simp add: unat_word_ariths last_conv_nth del: of_nat_add)
  have nextk: "unat (rb_pullp c + ucast (of_nat (length (ms ! k) + 2) :: u16)) = length (lap (take (Suc k) ms))"
    using r(1,3,6) len [OF k] k lim lap_take_le [of "Suc k" ms]
    by (simp add: unat_word_ariths take_Suc_conv_app_nth del: of_nat_add)
  have "rb_pullp c \<noteq> rb_last c + ucast (of_nat (length (ms ! ?l) + 2) :: u16)"
    using endl r(6) lap_take_less [of k "length ms" ms] k by auto
  then have "skip (c\<lparr>rb_udata := u\<rparr>) mem P_PULL =
      map_option (\<lambda>q. c\<lparr>rb_udata := u, rb_pullp := q\<rparr>) (step mem (rb_size c) (rb_pullp c))"
    using valid nl by (simp add: skip_def)
  moreover have "Suc k < length ms \<Longrightarrow> rb_pullp c + ucast (of_nat (length (ms ! k) + 2) :: u16) < rb_size c"
    using nextk lap_take_less [of "Suc k" "length ms" ms] r(1,3) by (simp add: word_less_nat_alt)
  ultimately show ?thesis using nk nextk by (auto simp: step_def)
qed

lemma rb_pull_rel:
  assumes rel: "rb_rel L c ms k" and a: "rb_addr c = Some (a, mem)"
  shows "\<exists>r c'. rb_pull c = Some (r, c') \<and> rb_addr c' = rb_addr c \<and> rb_rel L c' ms (min (Suc k) (length ms)) \<and>
    r = (if k < length ms then Some (length (lap (take k ms)) + 2, of_nat (length (ms ! k) + 2)) else None)"
proof -
  have L: "lock_ok L c" using rel by (simp add: rb_rel_def)
  obtain h u1 u2 where l: "rb_lock c 0 = Some (h, c\<lparr>rb_udata := u1\<rparr>)" "u2 \<in> L"
      "\<And>d. rb_punlock d = rb_punlock c \<Longrightarrow> rb_udata d = u1 \<Longrightarrow> rb_unlock d h = Some (d\<lparr>rb_udata := u2\<rparr>)"
    using lock_bracket [OF L] by blast
  have rel2: "rb_rel L (c\<lparr>rb_udata := u2\<rparr>) ms k" by (rule rb_rel_udata [OF rel l(2)])
  show ?thesis
  proof (cases "k < length ms")
    case False
    then have "rb_pullp c = INVALID_PULL_POSITION" "k = length ms" using rel by (auto simp: rb_rel_def)
    moreover from this have "rb_pull c = Some (None, c\<lparr>rb_udata := u2\<rparr>)" using l(1,3) a by (simp add: rb_pull_def)
    ultimately show ?thesis using rel2 by simp
  next
    case True
    then have ne: "ms \<noteq> []" by auto
    have r: "length mem = unat (rb_size c)" "take (length (lap ms)) mem = lap ms" "length (lap ms) \<le> length mem"
        "unat (rb_last c) = length (lap (butlast ms))" "unat (rb_pullp c) = length (lap (take k ms))"
      using rel True a by (auto simp: rb_rel_def split: if_splits)
    have valid: "rb_pullp c \<noteq> INVALID_PULL_POSITION" by (rule lap_pos_valid [OF True r(3,1,5)])
    have nk: "rd16 mem (rb_pullp c) = Some (of_nat (length (ms ! k) + 2))" by (rule rd16_lap [OF r(2,3) True r(5)])
    have last: "rb_pullp c = rb_last c \<longleftrightarrow> Suc k = length ms"
    proof (cases "Suc k = length ms")
      case True
      then have "length ms - 1 = k" by simp
      then show ?thesis using r(4,5) True by (simp add: butlast_conv_take word_unat_eq_iff)
    next
      case False
      then have "length (lap (take k ms)) + 2 \<le> length (lap (butlast ms))"
        using True lap_take_less [of k "length ms - 1" ms] by (simp add: butlast_conv_take)
      then show ?thesis using r(4,5) False by auto
    qed
    define c1 where "c1 = c\<lparr>rb_udata := u1\<rparr>"
    obtain q where q: "skip c1 mem P_PULL = Some (c1\<lparr>rb_pullp := q\<rparr>)" "Suc k < length ms \<longrightarrow> unat q = length (lap (take (Suc k) ms))"
      using skip_pull [OF rel True a, of u1] by (auto simp: c1_def)
    let ?p = "if rb_pullp c = rb_last c then INVALID_PULL_POSITION else q"
    let ?c' = "c\<lparr>rb_udata := u2, rb_pullp := ?p\<rparr>"
    have "rb_pull c = Some (Some (unat (rb_pullp c) + 2, of_nat (length (ms ! k) + 2)), ?c')"
      unfolding rb_pull_def using l(1,3) a valid nk q(1) by (simp add: c1_def Let_def)
    moreover have "rb_rel L ?c' ms (Suc k)"
      by (rule rb_rel_pullp [OF rel2]) (use True q(2) last in auto)
    ultimately show ?thesis using True a r(5) by (auto simp: min_def)
  qed
qed

section \<open>A buffer in use\<close>

text \<open>Pushing all messages of a list; pulling \<open>n\<close> times, with the data each result points to.\<close>

primrec push_all :: "u8 list list \<Rightarrow> cRingBuffer \<Rightarrow> cRingBuffer option" where
  "push_all [] c = Some c"
| "push_all (m # ms) c = Option.bind (cRingBuffer_push c m (of_nat (length m))) (push_all ms)"

definition pulled :: "cRingBuffer \<Rightarrow> (nat \<times> u16) option \<Rightarrow> u8 list option" where
  "pulled c r = do { (p, n) \<leftarrow> r; (a, mem) \<leftarrow> rb_addr c; Some (take (unat n - 2) (drop p mem)) }"

primrec pull_all :: "nat \<Rightarrow> cRingBuffer \<Rightarrow> (u8 list option list \<times> cRingBuffer) option" where
  "pull_all 0 c = Some ([], c)"
| "pull_all (Suc n) c = do {
     (r, c) \<leftarrow> cRingBuffer_pull c;
     (rs, c') \<leftarrow> pull_all n c;
     Some (pulled c r # rs, c') }"

lemma push_all_rel:
  "rb_rel L c ms k \<Longrightarrow> length (lap (ms @ ns)) \<le> unat (rb_size c) \<Longrightarrow> \<forall>m \<in> set ns. length m + 2 < 2 ^ 16 \<Longrightarrow>
     \<exists>c'. push_all ns c = Some c' \<and> rb_rel L c' (ms @ ns) k \<and> rb_size c' = rb_size c"
proof (induction ns arbitrary: c ms)
  case (Cons d ns)
  obtain c1 where c1: "rb_push c d (of_nat (length d)) = Some c1" "rb_rel L c1 (ms @ [d]) k" "rb_size c1 = rb_size c"
    using rb_push_rel [OF Cons.prems(1), of d] Cons.prems(2,3) by auto
  have "length (lap ((ms @ [d]) @ ns)) \<le> unat (rb_size c1)" using Cons.prems(2) c1(3) by simp
  then obtain c2 where "push_all ns c1 = Some c2" "rb_rel L c2 ((ms @ [d]) @ ns) k" "rb_size c2 = rb_size c"
    using Cons.IH [OF c1(2)] Cons.prems(3) c1(3) by auto
  then show ?case using c1(1) by (simp add: cRingBuffer_push_def)
qed simp

lemma pulled_msg:
  assumes "rb_rel L c ms k" "rb_addr c = Some (a, mem)" "j < length ms"
  shows "pulled c (Some (length (lap (take j ms)) + 2, of_nat (length (ms ! j) + 2))) = Some (ms ! j)"
proof -
  have r: "take (length (lap ms)) mem = lap ms" "length (ms ! j) + 2 < 2 ^ 16"
    using assms by (auto simp: rb_rel_def)
  have "mem = lap ms @ drop (length (lap ms)) mem" using r(1) by (metis append_take_drop_id)
  then have "drop (length (lap (take j ms))) mem = msg_bytes (ms ! j) @ lap (drop (Suc j) ms) @ drop (length (lap ms)) mem"
    using lap_split [OF assms(3)] by (metis append.assoc append_eq_conv_conj)
  from arg_cong [OF this, of "drop 2"]
  have "drop (length (lap (take j ms)) + 2) mem = ms ! j @ lap (drop (Suc j) ms) @ drop (length (lap ms)) mem"
    by (simp add: msg_bytes_def Let_def add.commute)
  moreover have "unat (of_nat (length (ms ! j) + 2) :: u16) = length (ms ! j) + 2"
    by (rule unat_of_nat_small) (use r(2) in simp)
  ultimately show ?thesis using assms(2) by (simp add: pulled_def del: of_nat_add add_2_eq_Suc')
qed

lemma pull_all_rel:
  "rb_rel L c ms k \<Longrightarrow>
     \<exists>c'. pull_all n c = Some (map Some (take n (drop k ms)) @ replicate (n - length (drop k ms)) None, c') \<and>
       rb_rel L c' ms (min (k + n) (length ms)) \<and> rb_addr c' = rb_addr c"
proof (induction n arbitrary: c k)
  case 0
  then show ?case by (auto simp: rb_rel_def min_def)
next
  case (Suc n)
  obtain a mem where a: "rb_addr c = Some (a, mem)" using Suc.prems by (auto simp: rb_rel_def)
  have k: "k \<le> length ms" using Suc.prems by (simp add: rb_rel_def)
  obtain r c1 where c1: "rb_pull c = Some (r, c1)" "rb_addr c1 = rb_addr c" "rb_rel L c1 ms (min (Suc k) (length ms))"
      "r = (if k < length ms then Some (length (lap (take k ms)) + 2, of_nat (length (ms ! k) + 2)) else None)"
    using rb_pull_rel [OF Suc.prems a] by blast
  obtain c2 where c2: "pull_all n c1 = Some (map Some (take n (drop (min (Suc k) (length ms)) ms)) @
        replicate (n - length (drop (min (Suc k) (length ms)) ms)) None, c2)"
      "rb_rel L c2 ms (min (min (Suc k) (length ms) + n) (length ms))" "rb_addr c2 = rb_addr c1"
    using Suc.IH [OF c1(3)] by blast
  have "pulled c1 r = (if k < length ms then Some (ms ! k) else None)"
    using c1(4) pulled_msg [OF c1(3)] a c1(2) by (auto simp: pulled_def)
  then show ?case
  proof (cases "k < length ms")
    case True
    then have d: "drop k ms = ms ! k # drop (Suc k) ms" by (simp add: Cons_nth_drop_Suc)
    show ?thesis using True c1(1,2) c2 \<open>pulled c1 r = _\<close> by (simp add: cRingBuffer_pull_def d min_def)
  next
    case False
    then have "k = length ms" using k by simp
    then show ?thesis using c1(1,2) c2 \<open>pulled c1 r = _\<close> by (simp add: cRingBuffer_pull_def)
  qed
qed

text \<open>The lock of the object is free on these states.\<close>

definition rb_idle :: "rb_user set" where
  "rb_idle = {u. \<exists>m. r_mutex u = Some m \<and> cMutex_ok m \<and> cMutex_owner m = None}"

lemma rb_idle_lock:
  assumes "rb_udata c \<in> rb_idle" "rb_plock c = Some rb_lock_cb" "rb_punlock c = Some rb_unlock_cb"
  shows "lock_ok rb_idle c"
  unfolding lock_ok_def
proof (intro conjI ballI)
  fix u assume "u \<in> rb_idle"
  then obtain m where m: "r_mutex u = Some m" "cMutex_ok m" "cMutex_owner m = None" by (auto simp: rb_idle_def)
  obtain h m1 where h: "cMutex_lock m 0 = Some (h, m1)" "cMutex_ok m1" "cMutex_owner m1 = Some (h, 1)"
    using cmutex.lock_free [OF m(2,3)] by blast
  obtain m2 where m2: "cMutex_unlock m1 h = Some m2" "cMutex_ok m2" "cMutex_owner m2 = None"
    using cmutex.unlock_owner [OF h(2,3)] by auto
  have "rb_lock_cb 0 u = Some (h, u\<lparr>r_mutex := Some m1\<rparr>)" using m(1) h(1) by (simp add: rb_lock_cb_def)
  moreover have "rb_unlock_cb h (u\<lparr>r_mutex := Some m1\<rparr>) = Some (u\<lparr>r_mutex := Some m2\<rparr>)"
    using m2(1) by (simp add: rb_unlock_cb_def)
  moreover have "u\<lparr>r_mutex := Some m2\<rparr> \<in> rb_idle" using m2 by (simp add: rb_idle_def)
  ultimately show "\<exists>h u1. (case rb_plock c of None \<Rightarrow> h = 0 \<and> u1 = u | Some f \<Rightarrow> f 0 u = Some (h, u1)) \<and>
      (\<exists>u2 \<in> rb_idle. case rb_punlock c of None \<Rightarrow> u2 = u1 | Some f \<Rightarrow> f h u1 = Some u2)"
    using assms(2,3) by (intro exI [of _ h] exI [of _ "u\<lparr>r_mutex := Some m1\<rparr>"]) auto
qed (rule assms(1))

lemma cRingBuffer_init_rel:
  assumes "u \<in> rb_idle" "cRingBuffer_init (rb_zero u) cap = Some c" "rb_addr c \<noteq> None" "2 \<le> cap"
  shows "rb_rel rb_idle c [] 0 \<and> rb_size c = cap"
proof -
  obtain a u' where c: "rb_mem_alloc_cb cap u = Some (Some a, u')"
      "c = (rb_zero u)\<lparr>rb_mem_alloc := Some rb_mem_alloc_cb, rb_mem_free := Some rb_mem_free_cb, rb_plock := Some rb_lock_cb,
         rb_punlock := Some rb_unlock_cb, rb_addr := Some (a, replicate (unat cap) 0), rb_size := cap, rb_first := 0,
         rb_udata := u', rb_pullp := INVALID_PULL_POSITION\<rparr>"
    using assms(2,3) by (auto simp: cRingBuffer_init_def rb_init_def rb_zero_def bind_Some_iff split: option.splits)
  have "r_mutex u' = r_mutex u" using c(1) by (auto simp: rb_mem_alloc_cb_def bind_Some_iff split: option.splits)
  then have "lock_ok rb_idle c" using assms(1) c(2) by (intro rb_idle_lock) (simp_all add: rb_idle_def)
  moreover have cap: "2 \<le> unat cap" using assms(4) by (simp add: word_le_nat_alt)
  moreover have "take 2 (replicate (unat cap) (0 :: u8)) = [0, 0]" using cap by (simp add: min_def numeral_2_eq_2)
  ultimately show ?thesis using c(2) by (simp add: rb_rel_def rb_zero_def)
qed

section \<open>Properties\<close>

text \<open>C8: The ring buffer is first in, first out. After \<open>init\<close>, messages that fit together with two bytes
  each are pushed without losing any, and pulling returns their data in order, as often as there are
  messages, and then NULL.\<close>

theorem ring_buffer_fifo:
  assumes "u \<in> rb_idle" "cRingBuffer_init (rb_zero u) cap = Some c" "rb_addr c \<noteq> None" "2 \<le> cap"
    "(\<Sum>m\<leftarrow>ms. length m + 2) \<le> unat cap" "\<forall>m \<in> set ms. length m + 2 < 2 ^ 16"
  shows "\<exists>c1 c2. push_all ms c = Some c1 \<and> pull_all (length ms + n) c1 = Some (map Some ms @ replicate n None, c2)"
proof -
  have rel: "rb_rel rb_idle c [] 0" "rb_size c = cap" using cRingBuffer_init_rel [OF assms(1-4)] by simp_all
  have "length (lap ms) = (\<Sum>m\<leftarrow>ms. length m + 2)" by (induction ms) simp_all
  then obtain c1 where "push_all ms c = Some c1" "rb_rel rb_idle c1 ms 0"
    using push_all_rel [OF rel(1), of ms] assms(5,6) rel(2) by auto
  then show ?thesis using pull_all_rel [of rb_idle c1 ms 0 "length ms + n"] by auto
qed

definition rb_user_1 :: rb_user where
  "rb_user_1 = \<lparr>r_heap = Some zheap_1, r_mutex = Some \<lparr>cm_self = 0x4000, m_spinlock = \<lparr>status = False\<rparr>, cm_lcount = 0, cm_hcount = 0\<rparr>\<rparr>"

lemma rb_user_1_init: "\<exists>c. cRingBuffer_init (rb_zero rb_user_1) 4096 = Some c \<and> rb_addr c \<noteq> None"
  using zheap_1_alloc by (auto simp: cRingBuffer_init_def rb_init_def rb_zero_def rb_user_1_def rb_mem_alloc_cb_def)

lemma rb_user_1_idle: "rb_user_1 \<in> rb_idle"
  by (simp add: rb_idle_def rb_user_1_def cMutex_ok_def cMutex_owner_def)

theorem ring_buffer_fifo_witness:
  "\<exists>c c1 c2. cRingBuffer_init (rb_zero rb_user_1) 4096 = Some c \<and> push_all [[1, 2], [], [3]] c = Some c1 \<and>
     pull_all 4 c1 = Some ([Some [1, 2], Some [], Some [3], None], c2)"
proof -
  obtain c where c: "cRingBuffer_init (rb_zero rb_user_1) 4096 = Some c" "rb_addr c \<noteq> None" using rb_user_1_init by blast
  obtain c1 c2 where f: "push_all [[1, 2], [], [3]] c = Some c1"
      "pull_all (length [[1, 2], [], [3 :: u8]] + 1) c1 = Some (map Some [[1, 2], [], [3]] @ replicate 1 None, c2)"
    using ring_buffer_fifo [OF rb_user_1_idle c, of "[[1, 2], [], [3]]" 1] by auto
  have n: "length [[1, 2], [], [3 :: u8]] + 1 = 4" by simp
  have "pull_all 4 c1 = Some ([Some [1, 2], Some [], Some [3], None], c2)" using f(2) unfolding n by simp
  then show ?thesis using f(1) c(1) by blast
qed

text \<open>The code makes no room when a single message is in the buffer: if the buffer holds exactly one message
  and the next does not fit behind it, \<open>push\<close> writes past the end of the block.\<close>

theorem ring_buffer_overflow:
  assumes "u \<in> rb_idle" "cRingBuffer_init (rb_zero u) cap = Some c" "rb_addr c \<noteq> None" "2 \<le> cap" "cap < 0x80000000"
    "length m + 2 \<le> unat cap" "length m + 2 < 2 ^ 16" "length d + 2 < 2 ^ 16" "unat cap < length m + length d + 4"
  shows "push_all [m, d] c = None"
proof -
  have rel: "rb_rel rb_idle c [] 0" "rb_size c = cap" using cRingBuffer_init_rel [OF assms(1-4)] by simp_all
  obtain c1 where c1: "cRingBuffer_push c m (of_nat (length m)) = Some c1" "rb_rel rb_idle c1 [m] 0" "rb_size c1 = cap"
    using rb_push_rel [OF rel(1), of m] assms(6,7) rel(2) by (auto simp: cRingBuffer_push_def)
  obtain a mem where r: "lock_ok rb_idle c1" "rb_first c1 = 0" "rb_addr c1 = Some (a, mem)" "length mem = unat cap" "rb_last c1 = 0"
    using c1(2,3) word_unat_eq_iff [of "rb_last c1" 0] by (auto simp: rb_rel_def)
  obtain h u1 u2 where l: "rb_lock c1 0 = Some (h, c1\<lparr>rb_udata := u1\<rparr>)" using lock_bracket [OF r(1)] by blast
  have n: "rd16 mem 0 = Some (of_nat (length m + 2))"
    using c1(2) r(3) rd16_lap [of "[m]" mem 0 0] by (simp add: rb_rel_def)
  have pos: "unat (0 + ucast (of_nat (length m + 2) :: u16) :: u32) = length m + 2"
    using unat_ucast_msg [OF assms(7)] by simp
  have sz: "unat (of_nat (length d) :: u16) = length d" using assms(8) by (intro unat_of_nat_small) simp
  show ?thesis
  proof (cases "wr16 mem (0 + ucast (of_nat (length m + 2) :: u16)) (of_nat (length d) + 2)")
    case None
    then show ?thesis using c1(1) r(2,3,5) l n by (simp add: cRingBuffer_push_def rb_push_def Let_def)
  next
    case (Some mem1)
    then have "length mem1 = unat cap" using r(4) by (auto simp: wr16_def split: if_splits)
    then have "\<not> unat (0 + ucast (of_nat (length m + 2) :: u16) :: u32) + 2 + unat (of_nat (length d) :: u16) \<le> length mem1"
      using assms(9) unfolding pos sz by simp
    then show ?thesis using c1(1) r(2,3,5) l n Some by (simp add: cRingBuffer_push_def rb_push_def Let_def del: of_nat_add)
  qed
qed

theorem ring_buffer_overflow_witness:
  "\<exists>c. cRingBuffer_init (rb_zero rb_user_1) 4096 = Some c \<and> push_all [replicate 4000 7, replicate 100 8] c = None"
proof -
  obtain c where c: "cRingBuffer_init (rb_zero rb_user_1) 4096 = Some c" "rb_addr c \<noteq> None" using rb_user_1_init by blast
  show ?thesis using ring_buffer_overflow [OF rb_user_1_idle c, of "replicate 4000 7" "replicate 100 8"] c(1) by simp
qed

end
