(* ===== verification/Hypertext.thy ===== *)
theory Hypertext
  imports Bytes
begin

text \<open>
  The reader of hypertext documents: hypertext/libht/context.c and context.h. A document is a block of
  bytes; its symbols are read by one of five functions, chosen by the byte order mark. Every read of
  the block is checked, so an access outside it is \<open>None\<close>. The machine is a little-endian one.
\<close>

section \<open>Data\<close>

definition MACHINE_ORDER_LE :: u8 where "MACHINE_ORDER_LE = 1"
definition MACHINE_ORDER_BE :: u8 where "MACHINE_ORDER_BE = 2"

definition E_UTF_8 :: u8 where "E_UTF_8 = 0"
definition E_UTF_16_BE :: u8 where "E_UTF_16_BE = 1"
definition E_UTF_16_LE :: u8 where "E_UTF_16_LE = 2"
definition E_UTF_32_BE :: u8 where "E_UTF_32_BE = 3"
definition E_UTF_32_LE :: u8 where "E_UTF_32_LE = 4"

lemmas encoding_defs = E_UTF_8_def E_UTF_16_BE_def E_UTF_16_LE_def E_UTF_32_BE_def E_UTF_32_LE_def
lemmas order_defs = MACHINE_ORDER_LE_def MACHINE_ORDER_BE_def

record ht_content =
  p_content :: "u8 list option"
  sz_content :: u64
  c_pos :: u64
  encoding :: u8
  machine_order :: u8

text \<open>A symbol, the position it was read at, and the content with the position behind it.\<close>

type_synonym read_t = "ht_content \<Rightarrow> (u32 \<times> u64 \<times> ht_content) option"

text \<open>\<open>udata\<close> is what the allocator works on: its state, which the functions pass on.\<close>

record 'u ht_context =
  ht_content :: ht_content
  pf_mem_alloc :: "(u32 \<Rightarrow> 'u \<Rightarrow> (ptr \<times> 'u) option) option"
  pf_mem_free :: "(addr \<Rightarrow> u32 \<Rightarrow> 'u \<Rightarrow> 'u option) option"
  pf_read :: "read_t option"

section \<open>Reading symbols\<close>

definition hbyte :: "ht_content \<Rightarrow> nat \<Rightarrow> u8 option" where
  "hbyte h i = Option.bind (p_content h) (\<lambda>b. rd b i)"

text \<open>Values of two and four bytes at an address, and the swaps of their bytes.\<close>

definition short_at :: "(nat \<Rightarrow> u8 option) \<Rightarrow> nat \<Rightarrow> u32 option" where
  "short_at f i = do { a \<leftarrow> f i; b \<leftarrow> f (i + 1); Some (ucast a OR push_bit 8 (ucast b)) }"

definition int_at :: "(nat \<Rightarrow> u8 option) \<Rightarrow> nat \<Rightarrow> u32 option" where
  "int_at f i = do { a \<leftarrow> short_at f i; b \<leftarrow> short_at f (i + 2); Some (a OR push_bit 16 b) }"

definition bswap16 :: "u32 \<Rightarrow> u32" where
  "bswap16 w = (push_bit 8 w AND 0xFF00) OR (drop_bit 8 w AND 0xFF)"

definition bswap32 :: "u32 \<Rightarrow> u32" where
  "bswap32 w = push_bit 24 w OR (push_bit 8 w AND 0xFF0000) OR (drop_bit 8 w AND 0xFF00) OR drop_bit 24 w"

lemma pos_inc: "cpos < (sz :: u64) \<Longrightarrow> unat (cpos + 1) = Suc (unat cpos)"
proof -
  assume "cpos < sz"
  then have "unat cpos + 1 \<le> unat sz" by (simp add: word_less_nat_alt)
  then have "unat cpos + 1 < 2 ^ 64" using unsigned_less [of sz, where ?'a = nat] by simp
  then show ?thesis using unat_add_one_less [of cpos] by simp
qed

text \<open>The bytes that follow the first one of a symbol.\<close>

function utf8_tail :: "ht_content \<Rightarrow> u8 \<Rightarrow> u32 \<Rightarrow> u64 \<Rightarrow> (u32 \<times> u64) option" where
  "utf8_tail h c r cpos =
     (if c AND 0xc0 = 0xc0 \<and> cpos < sz_content h then do {
        b \<leftarrow> hbyte h (unat cpos);
        utf8_tail h (push_bit 1 c) (push_bit 8 r OR ucast b) (cpos + 1) }
      else Some (r, cpos))"
  by pat_completeness auto

termination
  by (relation "measure (\<lambda>(h, c, r, cpos). unat (sz_content h) - unat cpos)")
     (auto simp: pos_inc word_less_nat_alt)

declare utf8_tail.simps [simp del]

definition read_utf8 :: read_t where
  "read_utf8 h =
     (if c_pos h < sz_content h then do {
        c \<leftarrow> hbyte h (unat (c_pos h));
        (r, p) \<leftarrow> utf8_tail h c (ucast c) (c_pos h + 1);
        Some (r, c_pos h, h\<lparr>c_pos := p\<rparr>) }
      else Some (0, c_pos h, h))"

definition read_utf16_be :: read_t where
  "read_utf16_be h =
     (if c_pos h < sz_content h - 2 then do {
        c \<leftarrow> short_at (hbyte h) (unat (c_pos h));
        Some (if machine_order h = MACHINE_ORDER_LE then bswap16 c else c, c_pos h, h\<lparr>c_pos := c_pos h + 2\<rparr>) }
      else Some (0, c_pos h, h))"

definition read_utf16_le :: read_t where
  "read_utf16_le h =
     (if c_pos h < sz_content h - 2 then do {
        c \<leftarrow> short_at (hbyte h) (unat (c_pos h));
        Some (if machine_order h = MACHINE_ORDER_BE then bswap16 c else c, c_pos h, h\<lparr>c_pos := c_pos h + 2\<rparr>) }
      else Some (0, c_pos h, h))"

definition read_utf32_be :: read_t where
  "read_utf32_be h =
     (if c_pos h < sz_content h - 4 then do {
        c \<leftarrow> int_at (hbyte h) (unat (c_pos h));
        Some (if machine_order h = MACHINE_ORDER_LE then bswap32 c else c, c_pos h, h\<lparr>c_pos := c_pos h + 4\<rparr>) }
      else Some (0, c_pos h, h))"

definition read_utf32_le :: read_t where
  "read_utf32_le h =
     (if c_pos h < sz_content h - 4 then do {
        c \<leftarrow> int_at (hbyte h) (unat (c_pos h));
        Some (if machine_order h = MACHINE_ORDER_BE then bswap32 c else c, c_pos h, h\<lparr>c_pos := c_pos h + 4\<rparr>) }
      else Some (0, c_pos h, h))"

section \<open>The context\<close>

definition g_bom :: "(u8 list \<times> u8 \<times> read_t) list" where
  "g_bom = [([0xef, 0xbb, 0xbf], E_UTF_8, read_utf8), ([0, 0, 0xfe, 0xff], E_UTF_32_BE, read_utf32_be),
     ([0xff, 0xfe, 0, 0], E_UTF_32_LE, read_utf32_le), ([0xfe, 0xff], E_UTF_16_BE, read_utf16_be),
     ([0xff, 0xfe], E_UTF_16_LE, read_utf16_le)]"

definition zero_content :: ht_content where
  "zero_content = \<lparr>p_content = None, sz_content = 0, c_pos = 0, encoding = 0, machine_order = 0\<rparr>"

definition sizeof_ht_context :: u32 where "sizeof_ht_context = 64"

text \<open>The result is the address of the context, its contents, and the state of the allocator.\<close>

definition ht_create_context ::
  "(u32 \<Rightarrow> 'u \<Rightarrow> (ptr \<times> 'u) option) option \<Rightarrow> (addr \<Rightarrow> u32 \<Rightarrow> 'u \<Rightarrow> 'u option) option \<Rightarrow> 'u \<Rightarrow>
     ((addr \<times> 'u ht_context) option \<times> 'u) option" where
  "ht_create_context p_alloc p_free u =
     (case p_alloc of
        None \<Rightarrow> Some (None, u)
      | Some al \<Rightarrow> do {
          (r, u) \<leftarrow> al sizeof_ht_context u;
          Some (map_option (\<lambda>a. (a, \<lparr>ht_content = zero_content, pf_mem_alloc = p_alloc, pf_mem_free = p_free,
            pf_read = None\<rparr>)) r, u) })"

text \<open>\<open>memcmp\<close> with the start of the content.\<close>

definition bom_matches :: "u8 list \<Rightarrow> u8 list \<Rightarrow> bool option" where
  "bom_matches content bom = (if length bom \<le> length content then Some (take (length bom) content = bom) else None)"

fun find_bom :: "u8 list \<Rightarrow> (u8 list \<times> u8 \<times> read_t) list \<Rightarrow> (u8 list \<times> u8 \<times> read_t) option option" where
  "find_bom content [] = Some None"
| "find_bom content ((bom, ty, f) # bs) = do {
     eq \<leftarrow> bom_matches content bom;
     if eq then Some (Some (bom, ty, f)) else find_bom content bs }"

definition ht_init_context :: "'u ht_context \<Rightarrow> u8 list option \<Rightarrow> u64 \<Rightarrow> 'u ht_context option" where
  "ht_init_context c content sz = (
     let h = (ht_content c)\<lparr>p_content := content, sz_content := sz, encoding := E_UTF_8\<rparr>;
         c = c\<lparr>ht_content := h, pf_read := Some read_utf8\<rparr>
     in case content of
          None \<Rightarrow> Some c
        | Some b \<Rightarrow>
            if sz > 4 then do {
              m \<leftarrow> find_bom b g_bom;
              let c = (case m of
                  None \<Rightarrow> c
                | Some (bom, ty, f) \<Rightarrow> c\<lparr>ht_content := h\<lparr>c_pos := of_nat (length bom), encoding := ty\<rparr>, pf_read := Some f\<rparr>);
              Some (c\<lparr>ht_content := (ht_content c)\<lparr>machine_order := MACHINE_ORDER_LE\<rparr>\<rparr>) }
            else Some c)"

definition ht_reset_context :: "'u ht_context \<Rightarrow> 'u ht_context" where
  "ht_reset_context c = c\<lparr>ht_content := zero_content, pf_read := None\<rparr>"

definition ht_position :: "'u ht_context \<Rightarrow> u64" where "ht_position c = c_pos (ht_content c)"

text \<open>Pointers into the document, and into other blocks.\<close>

datatype hptr = Doc nat | Ext "u8 list" nat

definition ht_ptr :: "'u ht_context \<Rightarrow> hptr" where "ht_ptr c = Doc (unat (c_pos (ht_content c)))"

definition in_doc :: "ht_content \<Rightarrow> hptr \<Rightarrow> bool" where
  "in_doc h p = (case p of Doc j \<Rightarrow> j < unat (sz_content h) | Ext _ _ \<Rightarrow> False)"

text \<open>The byte at an index from a pointer.\<close>

definition deref :: "ht_content \<Rightarrow> hptr \<Rightarrow> nat \<Rightarrow> u8 option" where
  "deref h p i = (case p of Doc j \<Rightarrow> hbyte h (j + i) | Ext b j \<Rightarrow> rd b (j + i))"

fun padd :: "hptr \<Rightarrow> nat \<Rightarrow> hptr" where
  "padd (Doc j) i = Doc (j + i)"
| "padd (Ext b j) i = Ext b (j + i)"

definition encoding_of :: "ht_content \<Rightarrow> hptr \<Rightarrow> u8" where
  "encoding_of h p = (if in_doc h p then encoding h else E_UTF_8)"

text \<open>Symbol \<open>i\<close> of \<open>ht_compare\<close>; \<open>c\<close> is the value the variable has before.\<close>

definition cmp_symbol :: "ht_content \<Rightarrow> u8 \<Rightarrow> hptr \<Rightarrow> nat \<Rightarrow> u32 \<Rightarrow> u32 option" where
  "cmp_symbol h en p i c =
     (if en = E_UTF_8 then map_option ucast (deref h p i)
      else if en = E_UTF_16_BE then
        map_option (\<lambda>w. if machine_order h = MACHINE_ORDER_LE then bswap32 w else w) (short_at (deref h p) (2 * i))
      else if en = E_UTF_16_LE then
        map_option (\<lambda>w. if machine_order h = MACHINE_ORDER_BE then bswap32 w else w) (short_at (deref h p) (2 * i))
      else if en = E_UTF_32_BE then
        map_option (\<lambda>w. if machine_order h = MACHINE_ORDER_LE then bswap32 w else w) (int_at (deref h p) (4 * i))
      else if en = E_UTF_32_LE then
        map_option (\<lambda>w. if machine_order h = MACHINE_ORDER_BE then bswap32 w else w) (int_at (deref h p) (4 * i))
      else Some c)"

text \<open>The loop over the symbols; \<open>n\<close> of them are left.\<close>

fun cmp_loop :: "ht_content \<Rightarrow> u8 \<Rightarrow> hptr \<Rightarrow> u8 \<Rightarrow> hptr \<Rightarrow> nat \<Rightarrow> nat \<Rightarrow> u32 \<Rightarrow> u32 \<Rightarrow> s32 option" where
  "cmp_loop h en1 p1 en2 p2 i 0 c1 c2 = Some 0"
| "cmp_loop h en1 p1 en2 p2 i (Suc n) c1 c2 = do {
     c1 \<leftarrow> cmp_symbol h en1 p1 i c1;
     c2 \<leftarrow> cmp_symbol h en2 p2 i c2;
     if c1 - c2 \<noteq> 0 then Some (c1 - c2) else cmp_loop h en1 p1 en2 p2 (Suc i) n c1 c2 }"

definition ht_compare :: "'u ht_context \<Rightarrow> hptr \<Rightarrow> hptr \<Rightarrow> u32 \<Rightarrow> s32 option" where
  "ht_compare c p1 p2 sz =
     (let h = ht_content c in cmp_loop h (encoding_of h p1) p1 (encoding_of h p2) p2 0 (unat sz) 0 0)"

definition ht_symbols :: "'u ht_context \<Rightarrow> hptr \<Rightarrow> hptr \<Rightarrow> u32" where
  "ht_symbols c p1 p2 = (
     let h = ht_content c in
     case (p1, p2) of
       (Doc i, Doc j) \<Rightarrow>
         if in_doc h p1 \<and> in_doc h p2 then
           (let r = of_nat (if i < j then j - i else i - j) :: u32 in
            if encoding h = E_UTF_16_LE \<or> encoding h = E_UTF_16_BE then r div 2
            else if encoding h = E_UTF_32_LE \<or> encoding h = E_UTF_32_BE then r div 4
            else r)
         else 0
     | _ \<Rightarrow> 0)"

definition ht_bytes :: "'u ht_context \<Rightarrow> u32 \<Rightarrow> u32" where
  "ht_bytes c n = (
     let en = encoding (ht_content c) in
     if en = E_UTF_16_LE \<or> en = E_UTF_16_BE then n * 2
     else if en = E_UTF_32_LE \<or> en = E_UTF_32_BE then n * 4
     else n)"

text \<open>\<open>ht_read\<close>: the symbol at a pointer and the pointer behind it. A byte has eight bits, so eight
  shifts leave none of them.\<close>

fun ht_read_tail :: "nat \<Rightarrow> ht_content \<Rightarrow> hptr \<Rightarrow> u8 \<Rightarrow> u32 \<Rightarrow> nat \<Rightarrow> (u32 \<times> nat) option" where
  "ht_read_tail 0 h p c r i = Some (r, i)"
| "ht_read_tail (Suc n) h p c r i =
     (if c AND 0xc0 = 0xc0 then do {
        b \<leftarrow> deref h p i;
        ht_read_tail n h p (push_bit 1 c) (push_bit 8 r OR ucast b) (Suc i) }
      else Some (r, i))"

definition ht_read :: "'u ht_context \<Rightarrow> hptr \<Rightarrow> (u32 \<times> hptr) option" where
  "ht_read cx p = (
     let h = ht_content cx; en = encoding_of h p in
     if en = E_UTF_8 then do {
       c \<leftarrow> deref h p 0;
       (r, i) \<leftarrow> ht_read_tail 8 h p c (ucast c) 1;
       Some (r, padd p i) }
     else if en = E_UTF_16_BE then do {
       r \<leftarrow> short_at (deref h p) 0;
       Some (if machine_order h = MACHINE_ORDER_LE then bswap32 r else r, padd p 2) }
     else if en = E_UTF_16_LE then do {
       r \<leftarrow> short_at (deref h p) 0;
       Some (if machine_order h = MACHINE_ORDER_BE then bswap32 r else r, padd p 2) }
     else if en = E_UTF_32_LE then do {
       r \<leftarrow> int_at (deref h p) 0;
       Some (if machine_order h = MACHINE_ORDER_BE then bswap32 r else r, padd p 4) }
     else if en = E_UTF_32_BE then do {
       r \<leftarrow> int_at (deref h p) 0;
       Some (if machine_order h = MACHINE_ORDER_LE then bswap32 r else r, padd p 4) }
     else Some (0, p))"

definition ht_destroy_context :: "addr \<Rightarrow> 'u ht_context \<Rightarrow> 'u \<Rightarrow> 'u option" where
  "ht_destroy_context a c u = (case pf_mem_free c of None \<Rightarrow> Some u | Some fr \<Rightarrow> fr a sizeof_ht_context u)"

end
