(* ===== verification/Json.thy ===== *)
theory Json
  imports Hypertext Heaps
begin

text \<open>
  The parser of JSON: hypertext/libht/json.c, json.h and the class \<open>cJSON\<close> of json.cpp. Strings and numbers
  are pointers into the document, arrays and objects are growing arrays of pointers to values in blocks of
  the allocator. The parser recurses with the document; every step takes one from the fuel \<open>n\<close>, and running
  out of it is \<open>None\<close>.
\<close>

section \<open>Data\<close>

datatype json_err = JSON_OK | JSON_PARSE_ERROR | JSON_MEMORY_ERROR

record json_string =
  js_size :: u32
  js_data :: "hptr option"

text \<open>An array of pointers: its address, and for each pointer that is not NULL the address and the
  contents of the block. \<open>num\<close> is the length of the list.\<close>

datatype 'e slots = Slots "ptr" "(addr \<times> 'e) option list"

text \<open>A value with its type; \<open>JSON_NONE\<close> is the value after \<open>memset\<close>.\<close>

datatype json_value =
    JSON_NONE
  | JSON_STRING json_string
  | JSON_NUMBER json_string
  | JSON_OBJECT "(json_string \<times> json_value) slots"
  | JSON_ARRAY "json_value slots"
  | JSON_TRUE
  | JSON_FALSE
  | JSON_NULL

type_synonym json_array = "json_value slots"
type_synonym json_pair = "json_string \<times> json_value"
type_synonym json_object = "json_pair slots"

primrec sl_items :: "'e slots \<Rightarrow> (addr \<times> 'e) option list" where "sl_items (Slots pp xs) = xs"

definition js_zero :: json_string where "js_zero = \<lparr>js_size = 0, js_data = None\<rparr>"

definition scalar :: "json_value \<Rightarrow> bool" where
  "scalar v \<longleftrightarrow> (case v of JSON_NUMBER _ \<Rightarrow> True | JSON_TRUE \<Rightarrow> True | JSON_FALSE \<Rightarrow> True | JSON_NULL \<Rightarrow> True | _ \<Rightarrow> False)"

text \<open>The context; \<open>j_udata\<close> is the state of the allocator.\<close>

record 'u json_context =
  p_htc :: "(addr \<times> 'u ht_context) option"
  root :: json_object
  err_pos :: u64
  j_udata :: 'u

definition sizeof_json_context :: u32 where "sizeof_json_context = 40"
definition sizeof_json_value :: u32 where "sizeof_json_value = 13"
definition sizeof_json_pair :: u32 where "sizeof_json_pair = 25"
definition sizeof_pointer :: u32 where "sizeof_pointer = 8"
definition INITIAL_SIZE :: nat where "INITIAL_SIZE = 16"

section \<open>The context\<close>

definition jread :: "'u json_context \<Rightarrow> (u32 \<times> u64 \<times> 'u json_context) option" where
  "jread cx = do {
     (a, x) \<leftarrow> p_htc cx;
     f \<leftarrow> pf_read x;
     (c, pos, h) \<leftarrow> f (ht_content x);
     Some (c, pos, cx\<lparr>p_htc := Some (a, x\<lparr>ht_content := h\<rparr>)\<rparr>) }"

definition jpos :: "'u json_context \<Rightarrow> u64 option" where
  "jpos cx = map_option (\<lambda>(a, x). ht_position x) (p_htc cx)"

definition jsymbols :: "'u json_context \<Rightarrow> hptr \<Rightarrow> hptr \<Rightarrow> u32 option" where
  "jsymbols cx p q = map_option (\<lambda>(a, x). ht_symbols x p q) (p_htc cx)"

definition jcompare :: "'u json_context \<Rightarrow> hptr \<Rightarrow> hptr \<Rightarrow> u32 \<Rightarrow> s32 option" where
  "jcompare cx p q n = do { (a, x) \<leftarrow> p_htc cx; ht_compare x p q n }"

definition jalloc :: "'u json_context \<Rightarrow> u32 \<Rightarrow> (ptr \<times> 'u json_context) option" where
  "jalloc cx n = do {
     (a, x) \<leftarrow> p_htc cx;
     f \<leftarrow> pf_mem_alloc x;
     (p, u) \<leftarrow> f n (j_udata cx);
     Some (p, cx\<lparr>j_udata := u\<rparr>) }"

definition jfree :: "'u json_context \<Rightarrow> addr \<Rightarrow> u32 \<Rightarrow> 'u json_context option" where
  "jfree cx p n = do {
     (a, x) \<leftarrow> p_htc cx;
     f \<leftarrow> pf_mem_free x;
     u \<leftarrow> f p n (j_udata cx);
     Some (cx\<lparr>j_udata := u\<rparr>) }"

definition json_create_context ::
  "(u32 \<Rightarrow> 'u \<Rightarrow> (ptr \<times> 'u) option) option \<Rightarrow> (addr \<Rightarrow> u32 \<Rightarrow> 'u \<Rightarrow> 'u option) option \<Rightarrow> 'u \<Rightarrow>
     ((addr \<times> 'u json_context) option \<times> 'u) option" where
  "json_create_context al fr u =
     (case (al, fr) of
        (Some f, Some g) \<Rightarrow> do {
          (r, u) \<leftarrow> f sizeof_json_context u;
          (case r of
             None \<Rightarrow> Some (None, u)
           | Some a \<Rightarrow> do {
               (h, u) \<leftarrow> ht_create_context al fr u;
               (case h of
                  None \<Rightarrow> do { u \<leftarrow> g a sizeof_json_context u; Some (None, u) }
                | Some x \<Rightarrow> Some (Some (a, \<lparr>p_htc = Some x, root = Slots None [], err_pos = 0, j_udata = u\<rparr>), u)) }) }
      | _ \<Rightarrow> Some (None, u))"

section \<open>Destruction\<close>

text \<open>The values of an array, and the pairs of an object; NULL pointers are passed over.\<close>

function (sequential)
  destroy_array_items :: "(addr \<times> json_value) option list \<Rightarrow> 'u json_context \<Rightarrow> 'u json_context option" and
  destroy_object_items :: "(addr \<times> json_pair) option list \<Rightarrow> 'u json_context \<Rightarrow> 'u json_context option" and
  destroy_nested :: "json_value \<Rightarrow> 'u json_context \<Rightarrow> 'u json_context option"
where
  "destroy_array_items [] cx = Some cx"
| "destroy_array_items (None # xs) cx = destroy_array_items xs cx"
| "destroy_array_items (Some (a, v) # xs) cx = do {
     cx \<leftarrow> destroy_nested v cx;
     cx \<leftarrow> jfree cx a sizeof_json_value;
     destroy_array_items xs cx }"
| "destroy_object_items [] cx = Some cx"
| "destroy_object_items (None # xs) cx = destroy_object_items xs cx"
| "destroy_object_items (Some (a, (name, v)) # xs) cx = do {
     cx \<leftarrow> destroy_nested v cx;
     cx \<leftarrow> jfree cx a sizeof_json_pair;
     destroy_object_items xs cx }"
| "destroy_nested (JSON_ARRAY (Slots pp xs)) cx = destroy_array_items xs cx"
| "destroy_nested (JSON_OBJECT (Slots pp xs)) cx = destroy_object_items xs cx"
| "destroy_nested _ cx = Some cx"
  by pat_completeness auto

termination
  by (relation "measure (\<lambda>p. case p of
        Inl (xs, _) \<Rightarrow> size_list (size_option (size_prod (\<lambda>_. 0) size)) xs
      | Inr (Inl (xs, _)) \<Rightarrow> size_list (size_option (size_prod (\<lambda>_. 0) (size_prod (\<lambda>_. 0) size))) xs
      | Inr (Inr (v, _)) \<Rightarrow> size v)") auto

definition destroy_array :: "json_array \<Rightarrow> 'u json_context \<Rightarrow> 'u json_context option" where
  "destroy_array a cx = destroy_array_items (sl_items a) cx"

definition destroy_object :: "json_object \<Rightarrow> 'u json_context \<Rightarrow> 'u json_context option" where
  "destroy_object ob cx = destroy_object_items (sl_items ob) cx"

definition json_reset_context :: "'u json_context \<Rightarrow> 'u json_context option" where
  "json_reset_context cx = do {
     cx \<leftarrow> destroy_object (root cx) cx;
     Some (cx\<lparr>p_htc := map_option (\<lambda>(a, x). (a, ht_reset_context x)) (p_htc cx)\<rparr>) }"

text \<open>\<open>self\<close> is the address of the context; the result is the state of the allocator.\<close>

definition json_destroy_context :: "addr \<Rightarrow> 'u json_context \<Rightarrow> 'u option" where
  "json_destroy_context self cx = do {
     cx \<leftarrow> destroy_object (root cx) cx;
     cx \<leftarrow> jfree cx self sizeof_json_context;
     (a, x) \<leftarrow> p_htc cx;
     ht_destroy_context a x (j_udata cx) }"

section \<open>Adding elements\<close>

definition alloc_slots :: "'e slots \<Rightarrow> 'u json_context \<Rightarrow> (json_err \<times> 'e slots \<times> 'u json_context) option" where
  "alloc_slots s cx = (case s of Slots pp xs \<Rightarrow> do {
     (p, cx) \<leftarrow> jalloc cx (of_nat (length xs + INITIAL_SIZE) * sizeof_pointer);
     (case p of
        None \<Rightarrow> Some (JSON_MEMORY_ERROR, s, cx)
      | Some a \<Rightarrow> do {
          cx \<leftarrow> (case pp of None \<Rightarrow> Some cx | Some old \<Rightarrow> jfree cx old (of_nat (length xs) * sizeof_pointer));
          Some (JSON_OK, Slots (Some a) (xs @ replicate INITIAL_SIZE None), cx) }) })"

definition alloc_array_values :: "json_array \<Rightarrow> 'u json_context \<Rightarrow> (json_err \<times> json_array \<times> 'u json_context) option" where
  "alloc_array_values a cx = alloc_slots a cx"

definition alloc_object_pairs :: "json_object \<Rightarrow> 'u json_context \<Rightarrow> (json_err \<times> json_object \<times> 'u json_context) option" where
  "alloc_object_pairs ob cx = alloc_slots ob cx"

fun first_null :: "'a option list \<Rightarrow> nat" where
  "first_null [] = 0"
| "first_null (None # xs) = 0"
| "first_null (Some x # xs) = Suc (first_null xs)"

text \<open>A copy of \<open>v\<close> in a new block at pointer \<open>i\<close>, and the search for it that grows the array once.\<close>

definition set_slot_new :: "u32 \<Rightarrow> nat \<Rightarrow> 'e \<Rightarrow> 'e slots \<Rightarrow> 'u json_context \<Rightarrow> (ptr \<times> 'e slots \<times> 'u json_context) option" where
  "set_slot_new sz i v s cx = (case s of Slots pp xs \<Rightarrow> do {
     (p, cx) \<leftarrow> jalloc cx sz;
     Some (p, Slots pp (xs[i := map_option (\<lambda>a. (a, v)) p]), cx) })"

definition add_slot ::
  "('e slots \<Rightarrow> 'u json_context \<Rightarrow> (json_err \<times> 'e slots \<times> 'u json_context) option) \<Rightarrow> u32 \<Rightarrow>
     'e slots \<Rightarrow> 'e \<Rightarrow> 'u json_context \<Rightarrow> (ptr \<times> 'e slots \<times> 'u json_context) option" where
  "add_slot grow sz s v cx = (
     let i = first_null (sl_items s) in
     if i < length (sl_items s) then set_slot_new sz i v s cx
     else do {
       (r, s, cx) \<leftarrow> grow s cx;
       if r = JSON_OK then set_slot_new sz i v s cx else Some (None, s, cx) })"

definition add_array_value :: "json_array \<Rightarrow> json_value \<Rightarrow> 'u json_context \<Rightarrow> (ptr \<times> json_array \<times> 'u json_context) option" where
  "add_array_value = add_slot alloc_array_values sizeof_json_value"

definition add_object_pair :: "json_object \<Rightarrow> json_pair \<Rightarrow> 'u json_context \<Rightarrow> (ptr \<times> json_object \<times> 'u json_context) option" where
  "add_object_pair = add_slot alloc_object_pairs sizeof_json_pair"

section \<open>Symbols\<close>

abbreviation QUOTE :: u32 where "QUOTE \<equiv> 0x22"
abbreviation APOS :: u32 where "APOS \<equiv> 0x27"
abbreviation COMMA :: u32 where "COMMA \<equiv> 0x2C"
abbreviation COLON :: u32 where "COLON \<equiv> 0x3A"
abbreviation LBRACKET :: u32 where "LBRACKET \<equiv> 0x5B"
abbreviation BACKSLASH :: u32 where "BACKSLASH \<equiv> 0x5C"
abbreviation RBRACKET :: u32 where "RBRACKET \<equiv> 0x5D"
abbreviation LBRACE :: u32 where "LBRACE \<equiv> 0x7B"
abbreviation RBRACE :: u32 where "RBRACE \<equiv> 0x7D"

definition digit :: "u32 \<Rightarrow> bool" where "digit c \<longleftrightarrow> 0x30 \<le> c \<and> c \<le> 0x39"
definition upper :: "u32 \<Rightarrow> bool" where "upper c \<longleftrightarrow> 0x41 \<le> c \<and> c \<le> 0x5A"
definition lower :: "u32 \<Rightarrow> bool" where "lower c \<longleftrightarrow> 0x61 \<le> c \<and> c \<le> 0x7A"
definition hexletter :: "u32 \<Rightarrow> bool" where "hexletter c \<longleftrightarrow> 0x61 \<le> c \<and> c \<le> 0x66 \<or> 0x41 \<le> c \<and> c \<le> 0x46"
definition blank :: "u32 \<Rightarrow> bool" where "blank c \<longleftrightarrow> c = 0x20 \<or> c = 0x0D \<or> c = 0x0A \<or> c = 0x09"
definition quote :: "u32 \<Rightarrow> bool" where "quote c \<longleftrightarrow> c = QUOTE \<or> c = APOS"

section \<open>Numbers, names and strings\<close>

datatype num_type = NUM_NONE | NUM_OCT | NUM_DEC | NUM_HEX

definition perr :: "u64 \<Rightarrow> 'u json_context \<Rightarrow> 'u json_context" where "perr pos cx = cx\<lparr>err_pos := pos\<rparr>"

text \<open>The loops return the error code, the symbol and the position they stopped at.\<close>

fun number_loop :: "nat \<Rightarrow> 'u json_context \<Rightarrow> num_type \<Rightarrow> u32 \<Rightarrow> u32 \<Rightarrow> u64 \<Rightarrow> (json_err \<times> u32 \<times> u64 \<times> 'u json_context) option" where
  "number_loop 0 cx nt c i pos = None"
| "number_loop (Suc n) cx nt c i pos = (
     let cont = (\<lambda>nt. do {
           (c, pos, cx) \<leftarrow> jread cx;
           if c \<noteq> 0 then number_loop n cx nt c (i + 1) pos else Some (JSON_OK, c, pos, cx) });
         fail = Some (JSON_PARSE_ERROR, c, pos, perr pos cx)
     in if digit c then cont (if nt = NUM_NONE then NUM_DEC else nt)
        else if (c = 0x78 \<or> c = 0x58) \<and> i = 1 \<and> nt = NUM_OCT then cont NUM_HEX
        else if hexletter c then (if nt \<noteq> NUM_HEX then fail else cont nt)
        else if blank c \<or> c = COMMA \<or> c = RBRACKET \<or> c = RBRACE then
          (if nt \<noteq> NUM_NONE then Some (JSON_OK, c, pos, cx) else cont nt)
        else if (c = 0x2B \<or> c = 0x2D) \<and> nt = NUM_NONE then cont nt
        else if c = 0x2E \<and> (nt = NUM_DEC \<or> nt = NUM_OCT) then cont nt
        else fail)"

definition parse_number :: "nat \<Rightarrow> 'u json_context \<Rightarrow> json_string \<Rightarrow> u32 \<Rightarrow> u64 \<Rightarrow> (json_err \<times> json_string \<times> u32 \<times> 'u json_context) option" where
  "parse_number n cx num c cpos = do {
     let num = (if js_data num = None then num\<lparr>js_data := Some (Doc (unat cpos))\<rparr> else num);
     (r, c, pos, cx) \<leftarrow> number_loop n cx (if c = 0x30 then NUM_OCT else NUM_NONE) c 0 cpos;
     d \<leftarrow> js_data num;
     sz \<leftarrow> jsymbols cx d (Doc (unat pos));
     Some (r, if r = JSON_OK then num\<lparr>js_size := sz\<rparr> else num, c, cx) }"

text \<open>The flags are \<open>STRNAME_QUOTES\<close>, \<open>STRNAME_STROPHE\<close> and \<open>STRNAME_SYMBOL\<close>.\<close>

fun name_loop :: "nat \<Rightarrow> 'u json_context \<Rightarrow> bool \<Rightarrow> bool \<Rightarrow> bool \<Rightarrow> u32 \<Rightarrow> u64 \<Rightarrow> (json_err \<times> u32 \<times> u64 \<times> 'u json_context) option" where
  "name_loop 0 cx q st sy c pos = None"
| "name_loop (Suc n) cx q st sy c pos = (
     let cont = do {
           (c, pos, cx) \<leftarrow> jread cx;
           if c \<noteq> 0 then name_loop n cx q st True c pos else Some (JSON_OK, c, pos, cx) };
         fail = Some (JSON_PARSE_ERROR, c, pos, perr pos cx);
         done = Some (JSON_OK, c, pos, cx)
     in if upper c \<or> lower c \<or> c = 0x2D \<or> c = 0x5F then cont
        else if c = APOS then (if st then done else fail)
        else if c = QUOTE then (if q then done else fail)
        else if digit c then (if \<not> sy then fail else cont)
        else if c = COLON \<or> blank c then (if sy \<and> \<not> (q \<or> st) then done else fail)
        else fail)"

definition parse_string_name :: "nat \<Rightarrow> 'u json_context \<Rightarrow> json_string \<Rightarrow> u32 \<Rightarrow> u64 \<Rightarrow> (json_err \<times> json_string \<times> u32 \<times> 'u json_context) option" where
  "parse_string_name n cx str c cpos =
     (if \<not> (quote c \<or> upper c \<or> lower c \<or> c = 0x5F) then Some (JSON_PARSE_ERROR, str, c, perr cpos cx)
      else do {
        (c', pos, cx) \<leftarrow> (if quote c then jread cx else Some (c, cpos, cx));
        let str = (if js_data str = None then str\<lparr>js_data := Some (Doc (unat pos))\<rparr> else str);
        (r, c'', pos, cx) \<leftarrow> name_loop n cx (c = QUOTE) (c = APOS) (\<not> quote c) c' pos;
        d \<leftarrow> js_data str;
        sz \<leftarrow> jsymbols cx d (Doc (unat pos));
        Some (r, if r = JSON_OK then str\<lparr>js_size := sz\<rparr> else str, c'', cx) })"

fun string_loop :: "nat \<Rightarrow> 'u json_context \<Rightarrow> u32 \<Rightarrow> u32 \<Rightarrow> u64 \<Rightarrow> (u32 \<times> u64 \<times> 'u json_context) option" where
  "string_loop 0 cx trm prev pos = None"
| "string_loop (Suc n) cx trm prev pos = do {
     (c, pos, cx) \<leftarrow> jread cx;
     if c = 0 \<or> c = trm \<and> prev \<noteq> BACKSLASH then Some (c, pos, cx) else string_loop n cx trm c pos }"

definition parse_string_value :: "nat \<Rightarrow> 'u json_context \<Rightarrow> json_string \<Rightarrow> u32 \<Rightarrow> (json_err \<times> json_string \<times> u32 \<times> 'u json_context) option" where
  "parse_string_value n cx str c = do {
     pos \<leftarrow> jpos cx;
     if \<not> quote c then Some (JSON_PARSE_ERROR, str, c, perr pos cx)
     else do {
       let str = (if js_data str = None then str\<lparr>js_data := Some (Doc (unat pos))\<rparr> else str);
       (c, pos, cx) \<leftarrow> string_loop n cx c c pos;
       d \<leftarrow> js_data str;
       sz \<leftarrow> jsymbols cx d (Doc (unat pos));
       Some (JSON_OK, str\<lparr>js_size := sz\<rparr>, c, cx) } }"

fun const_loop :: "nat \<Rightarrow> 'u json_context \<Rightarrow> u32 \<Rightarrow> u32 \<Rightarrow> (u32 \<times> u32 \<times> 'u json_context) option" where
  "const_loop 0 cx c sz = None"
| "const_loop (Suc n) cx c sz =
     (if lower c then do { (c, pos, cx) \<leftarrow> jread cx; const_loop n cx c (sz + 1) } else Some (c, sz, cx))"

definition c_true :: "u8 list" where "c_true = [0x74, 0x72, 0x75, 0x65, 0]"
definition c_false :: "u8 list" where "c_false = [0x66, 0x61, 0x6C, 0x73, 0x65, 0]"
definition c_null :: "u8 list" where "c_null = [0x6E, 0x75, 0x6C, 0x6C, 0]"

definition parse_const :: "nat \<Rightarrow> 'u json_context \<Rightarrow> json_value \<Rightarrow> u32 \<Rightarrow> u64 \<Rightarrow> (json_err \<times> json_value \<times> u32 \<times> 'u json_context) option" where
  "parse_const n cx v c cpos = do {
     (c, sz, cx) \<leftarrow> const_loop n cx c 0;
     t \<leftarrow> jcompare cx (Ext c_true 0) (Doc (unat cpos)) sz;
     if t = 0 then Some (JSON_OK, JSON_TRUE, c, cx) else do {
     f \<leftarrow> jcompare cx (Ext c_false 0) (Doc (unat cpos)) sz;
     if f = 0 then Some (JSON_OK, JSON_FALSE, c, cx) else do {
     l \<leftarrow> jcompare cx (Ext c_null 0) (Doc (unat cpos)) sz;
     if l = 0 then Some (JSON_OK, JSON_NULL, c, cx) else Some (JSON_PARSE_ERROR, v, c, perr cpos cx) } } }"

section \<open>Values\<close>

text \<open>The loops of arrays and objects take the parser of values \<open>pv\<close> as an argument, \<open>parse_value\<close> ties the
  recursion. The values the callers pass are zeroed. The two flags of an object are \<open>JPAIR_NAME\<close> and \<open>JPAIR_VALUE\<close>;
  \<open>pair_value\<close> is the code from the label \<open>_pair_value_\<close> on, which goes on with the loop \<open>k\<close>.\<close>

type_synonym 'u value_parser = "'u json_context \<Rightarrow> u32 \<Rightarrow> u64 \<Rightarrow> (json_err \<times> json_value \<times> u32 \<times> 'u json_context) option"
type_synonym 'u object_result = "(json_err \<times> json_object \<times> u32 \<times> 'u json_context) option"

text \<open>The symbols after which a value of an array, or of a pair, is complete.\<close>

definition array_value_end :: "json_value \<Rightarrow> u32 \<Rightarrow> bool" where
  "array_value_end v c = (case v of
     JSON_NONE \<Rightarrow> False
   | JSON_STRING _ \<Rightarrow> quote c
   | JSON_ARRAY _ \<Rightarrow> c = RBRACKET
   | JSON_OBJECT _ \<Rightarrow> c = RBRACE
   | _ \<Rightarrow> c = COMMA \<or> blank c \<or> c = RBRACKET)"

definition pair_value_end :: "json_value \<Rightarrow> u32 \<Rightarrow> bool" where
  "pair_value_end v c = (case v of
     JSON_NONE \<Rightarrow> False
   | JSON_STRING _ \<Rightarrow> quote c
   | JSON_ARRAY _ \<Rightarrow> c = RBRACKET
   | JSON_OBJECT _ \<Rightarrow> c = RBRACE
   | _ \<Rightarrow> blank c \<or> c = COMMA \<or> c = RBRACE)"

primrec array_loop :: "'u value_parser \<Rightarrow> nat \<Rightarrow> 'u json_context \<Rightarrow> json_array \<Rightarrow> (json_err \<times> json_array \<times> u32 \<times> 'u json_context) option" where
  "array_loop pv 0 cx a = None"
| "array_loop pv (Suc n) cx a = do {
     (c, pos, cx) \<leftarrow> jread cx;
     if c = 0 then Some (JSON_OK, a, c, cx) else do {
     (r, v, c, cx) \<leftarrow> pv cx c pos;
     p \<leftarrow> jpos cx;
     if r \<noteq> JSON_OK then Some (r, a, c, perr p cx)
     else if v = JSON_NONE \<and> (c = COMMA \<or> blank c) then array_loop pv n cx a
     else if v = JSON_NONE \<and> c = RBRACKET then Some (JSON_OK, a, c, cx)
     else if array_value_end v c then do {
       (q, a, cx) \<leftarrow> add_array_value a v cx;
       if q = None then Some (JSON_MEMORY_ERROR, a, c, cx)
       else if c = RBRACKET then Some (JSON_OK, a, c, cx)
       else array_loop pv n cx a }
     else Some (JSON_PARSE_ERROR, a, c, perr p cx) } }"

definition parse_array :: "'u value_parser \<Rightarrow> nat \<Rightarrow> 'u json_context \<Rightarrow> json_array \<Rightarrow> u32 \<Rightarrow> (json_err \<times> json_array \<times> u32 \<times> 'u json_context) option" where
  "parse_array pv n cx a c = do {
     pos \<leftarrow> jpos cx;
     if c \<noteq> LBRACKET then Some (JSON_PARSE_ERROR, a, c, perr pos cx) else array_loop pv n cx a }"

definition pair_value ::
  "'u value_parser \<Rightarrow> ('u json_context \<Rightarrow> json_object \<Rightarrow> bool \<Rightarrow> bool \<Rightarrow> json_string \<Rightarrow> 'u object_result) \<Rightarrow>
     'u json_context \<Rightarrow> json_object \<Rightarrow> json_string \<Rightarrow> 'u object_result" where
  "pair_value pv k cx ob name = do {
     (c, pos, cx) \<leftarrow> jread cx;
     (r, v, c, cx) \<leftarrow> pv cx c pos;
     p \<leftarrow> jpos cx;
     if r \<noteq> JSON_OK then Some (r, ob, c, cx)
     else if v = JSON_NONE \<and> c = COMMA then k cx ob False False js_zero
     else if pair_value_end v c then do {
       (q, ob, cx) \<leftarrow> add_object_pair ob (name, v) cx;
       if q = None then Some (JSON_MEMORY_ERROR, ob, c, cx)
       else if scalar v \<and> c = RBRACE then Some (JSON_OK, ob, c, cx)
       else if scalar v \<and> c = COMMA then k cx ob False False js_zero
       else k cx ob True True js_zero }
     else Some (JSON_PARSE_ERROR, ob, c, perr p cx) }"

primrec object_loop :: "'u value_parser \<Rightarrow> nat \<Rightarrow> 'u json_context \<Rightarrow> json_object \<Rightarrow> bool \<Rightarrow> bool \<Rightarrow> json_string \<Rightarrow> 'u object_result" where
  "object_loop pv 0 cx ob nm vl name = None"
| "object_loop pv (Suc n) cx ob nm vl name = do {
     (c, pos, cx) \<leftarrow> jread cx;
     if c = 0 then Some (JSON_OK, ob, c, cx)
     else if \<not> nm \<and> \<not> vl then
       (if quote c then do {
          (r, name, c, cx) \<leftarrow> parse_string_name n cx name c pos;
          if r \<noteq> JSON_OK then Some (r, ob, c, cx)
          else if \<not> quote c then Some (JSON_PARSE_ERROR, ob, c, perr pos cx)
          else object_loop pv n cx ob True vl name }
        else if upper c \<or> lower c \<or> c = 0x5F then do {
          (r, name, c, cx) \<leftarrow> parse_string_name n cx name c pos;
          if r \<noteq> JSON_OK then Some (r, ob, c, cx)
          else if c = COLON then pair_value pv (object_loop pv n) cx ob name
          else object_loop pv n cx ob True vl name }
        else if c = COMMA \<or> c = LBRACE \<or> blank c then object_loop pv n cx ob nm vl name
        else if c = RBRACE then Some (JSON_OK, ob, c, cx)
        else Some (JSON_PARSE_ERROR, ob, c, perr pos cx))
     else if nm \<and> \<not> vl then
       (if c = COLON then pair_value pv (object_loop pv n) cx ob name
        else if blank c then object_loop pv n cx ob nm vl name
        else Some (JSON_PARSE_ERROR, ob, c, perr pos cx))
     else if nm \<and> vl then
       (if c = COMMA then object_loop pv n cx ob False False js_zero
        else if blank c then object_loop pv n cx ob nm vl name
        else if c = RBRACE then Some (JSON_OK, ob, c, cx)
        else Some (JSON_PARSE_ERROR, ob, c, perr pos cx))
     else object_loop pv n cx ob nm vl name }"

definition parse_object :: "'u value_parser \<Rightarrow> nat \<Rightarrow> 'u json_context \<Rightarrow> json_object \<Rightarrow> u32 \<Rightarrow> 'u object_result" where
  "parse_object pv n cx ob c = do {
     pos \<leftarrow> jpos cx;
     if c \<noteq> LBRACE then Some (JSON_PARSE_ERROR, ob, c, perr pos cx) else object_loop pv n cx ob False False js_zero }"

primrec parse_value :: "nat \<Rightarrow> 'u value_parser" where
  "parse_value 0 cx c pos = None"
| "parse_value (Suc n) cx c pos =
     (if quote c then do {
        (r, str, c, cx) \<leftarrow> parse_string_value n cx js_zero c;
        Some (r, JSON_STRING str, c, cx) }
      else if c = LBRACKET then do {
        (r, a, c, cx) \<leftarrow> parse_array (parse_value n) n cx (Slots None []) c;
        Some (r, JSON_ARRAY a, c, cx) }
      else if c = LBRACE then do {
        (r, ob, c, cx) \<leftarrow> parse_object (parse_value n) n cx (Slots None []) c;
        Some (r, JSON_OBJECT ob, c, cx) }
      else if digit c \<or> c = 0x2D \<or> c = 0x2B \<or> c = 0x2E then do {
        (r, num, c, cx) \<leftarrow> parse_number n cx js_zero c pos;
        Some (r, JSON_NUMBER num, c, cx) }
      else if lower c then parse_const n cx JSON_NONE c pos
      else if c = COMMA \<or> c = RBRACE \<or> c = RBRACKET then Some (JSON_OK, JSON_NONE, c, cx)
      else if blank c then do {
        (c, pos, cx) \<leftarrow> jread cx;
        if c \<noteq> 0 then parse_value n cx c pos else Some (JSON_OK, JSON_NONE, c, cx) }
      else Some (JSON_PARSE_ERROR, JSON_NONE, c, perr pos cx))"

definition json_parse :: "nat \<Rightarrow> 'u json_context \<Rightarrow> u8 list option \<Rightarrow> u64 \<Rightarrow> (json_err \<times> 'u json_context) option" where
  "json_parse n cx content sz =
     (if p_htc cx = None then Some (JSON_PARSE_ERROR, cx)
      else do {
        cx \<leftarrow> json_reset_context cx;
        (a, x) \<leftarrow> p_htc cx;
        x \<leftarrow> ht_init_context x content sz;
        (r, ob, c, cx) \<leftarrow> parse_object (parse_value n) n (cx\<lparr>p_htc := Some (a, x)\<rparr>) (root cx) LBRACE;
        Some (r, cx\<lparr>root := ob\<rparr>) })"

section \<open>Selecting values\<close>

primrec pair_by_name :: "'u json_context \<Rightarrow> (addr \<times> json_pair) option list \<Rightarrow> hptr \<Rightarrow> u32 \<Rightarrow> json_value option option" where
  "pair_by_name cx [] name sz = Some None"
| "pair_by_name cx (x # xs) name sz =
     (case x of
        None \<Rightarrow> pair_by_name cx xs name sz
      | Some (a, (nm, v)) \<Rightarrow>
          (case js_data nm of
             None \<Rightarrow> pair_by_name cx xs name sz
           | Some d \<Rightarrow>
               if js_size nm = sz then do {
                 r \<leftarrow> jcompare cx d name sz;
                 if r = 0 then Some (Some v) else pair_by_name cx xs name sz }
               else pair_by_name cx xs name sz))"

definition object_pair_by_name :: "'u json_context \<Rightarrow> json_object \<Rightarrow> hptr \<Rightarrow> u32 \<Rightarrow> json_value option option" where
  "object_pair_by_name cx ob name sz = pair_by_name cx (sl_items ob) name sz"

definition array_element_by_index :: "json_array \<Rightarrow> u32 \<Rightarrow> json_value option" where
  "array_element_by_index a i = (if unat i < length (sl_items a) then map_option snd (sl_items a ! unat i) else None)"

definition json_object_pair :: "json_object \<Rightarrow> u32 \<Rightarrow> json_pair option" where
  "json_object_pair ob i = (if unat i < length (sl_items ob) then map_option snd (sl_items ob ! unat i) else None)"

definition json_array_element :: "json_array \<Rightarrow> u32 \<Rightarrow> json_value option" where
  "json_array_element a i = array_element_by_index a i"

definition json_object_value :: "json_object \<Rightarrow> u32 \<Rightarrow> json_value option" where
  "json_object_value ob i = map_option snd (json_object_pair ob i)"

text \<open>\<open>atoi\<close> of the C library.\<close>

definition c_atoi :: "u8 list \<Rightarrow> int" where
  "c_atoi bs = (
     let s = dropWhile (\<lambda>b. b = 0x20 \<or> 9 \<le> b \<and> b \<le> 13) bs;
         neg = (s \<noteq> [] \<and> hd s = 0x2D);
         s = (if s \<noteq> [] \<and> (hd s = 0x2D \<or> hd s = 0x2B) then tl s else s);
         v = foldl (\<lambda>v b. 10 * v + (uint b - 48)) 0 (takeWhile (\<lambda>b. 0x30 \<le> b \<and> b \<le> 0x39) s)
     in if neg then - v else v)"

text \<open>The loop over the path \<open>b\<close>, which ends with NUL; \<open>k\<close> symbols are left, \<open>char\<close> is signed.\<close>

primrec select_loop ::
  "'u json_context \<Rightarrow> u8 list \<Rightarrow> nat \<Rightarrow> nat \<Rightarrow> json_object \<Rightarrow> json_value option \<Rightarrow> nat option \<Rightarrow> u32 \<Rightarrow> json_value option option" where
  "select_loop cx b 0 i start tmp str sz = Some None"
| "select_loop cx b (Suc k) i start tmp str sz = do {
     c \<leftarrow> rd b i;
     if c = 0x2E \<or> c = 0x2F then
       (case str of
          None \<Rightarrow> select_loop cx b k (Suc i) start tmp None 0
        | Some j \<Rightarrow> do {
            t \<leftarrow> object_pair_by_name cx start (Ext b j) sz;
            (case t of
               None \<Rightarrow> Some None
             | Some v \<Rightarrow> select_loop cx b k (Suc i) (case v of JSON_OBJECT ob \<Rightarrow> ob | _ \<Rightarrow> start) (Some v) None 0) })
     else if c = 0 then
       (case str of Some j \<Rightarrow> object_pair_by_name cx start (Ext b j) sz | None \<Rightarrow> Some tmp)
     else if c = 0x5B then
       (case str of
          None \<Rightarrow> Some None
        | Some j \<Rightarrow> do {
            t \<leftarrow> object_pair_by_name cx start (Ext b j) sz;
            (case t of
               None \<Rightarrow> Some None
             | Some v \<Rightarrow>
                 (case v of
                    JSON_ARRAY _ \<Rightarrow> select_loop cx b k (Suc i) start (Some v) None 0
                  | JSON_OBJECT _ \<Rightarrow> select_loop cx b k (Suc i) start (Some v) None 0
                  | _ \<Rightarrow> Some None)) })
     else if c = 0x5D then
       (case str of
          None \<Rightarrow> select_loop cx b k (Suc i) start tmp None 0
        | Some j \<Rightarrow> do {
            let aidx = (word_of_int (c_atoi (drop j b)) :: u32);
            v \<leftarrow> tmp;
            (case v of
               JSON_ARRAY a \<Rightarrow>
                 (case array_element_by_index a aidx of
                    None \<Rightarrow> select_loop cx b k (Suc i) start None None 0
                  | Some w \<Rightarrow>
                      (case w of
                         JSON_OBJECT ob \<Rightarrow> select_loop cx b k (Suc i) ob (Some w) None 0
                       | _ \<Rightarrow> Some (Some w)))
             | JSON_OBJECT ob \<Rightarrow>
                 (case json_object_pair ob aidx of
                    None \<Rightarrow> select_loop cx b k (Suc i) start tmp None 0
                  | Some (nm, w) \<Rightarrow>
                      (case w of
                         JSON_OBJECT ob' \<Rightarrow> select_loop cx b k (Suc i) ob' (Some w) None 0
                       | _ \<Rightarrow> Some (Some w)))
             | _ \<Rightarrow> select_loop cx b k (Suc i) start tmp None 0) })
     else if c < 0x20 \<or> 0x80 \<le> c then select_loop cx b k (Suc i) start tmp str sz
     else select_loop cx b k (Suc i) start tmp (if str = None then Some i else str) (sz + 1) }"

definition json_select :: "'u json_context \<Rightarrow> u8 list \<Rightarrow> json_object option \<Rightarrow> json_value option option" where
  "json_select cx jpath start =
     select_loop cx (jpath @ [0]) (Suc (length jpath)) 0 (case start of None \<Rightarrow> root cx | Some ob \<Rightarrow> ob) None None 0"

section \<open>cJSON\<close>

record cJSON =
  cj_heap :: "cZoneHeap option"

definition cJSON_object_ctl :: "octl \<Rightarrow> cZoneHeap option \<Rightarrow> cJSON \<Rightarrow> bool \<times> cJSON" where
  "cJSON_object_ctl cmd hp c =
     (case cmd of
        OCTL_INIT \<Rightarrow> (hp \<noteq> None, c\<lparr>cj_heap := hp\<rparr>)
      | OCTL_UNINIT \<Rightarrow> (True, c)
      | _ \<Rightarrow> (False, c))"

text \<open>The callbacks for memory, and the context with them. The object is the state of the allocator.\<close>

definition cJSON_alloc :: "u32 \<Rightarrow> cJSON \<Rightarrow> (ptr \<times> cJSON) option" where
  "cJSON_alloc sz c = (case cj_heap c of
     None \<Rightarrow> Some (None, c)
   | Some z \<Rightarrow> do { (p, z) \<leftarrow> cZoneHeap_alloc sz z; Some (p, c\<lparr>cj_heap := Some z\<rparr>) })"

definition cJSON_free :: "addr \<Rightarrow> u32 \<Rightarrow> cJSON \<Rightarrow> cJSON option" where
  "cJSON_free p sz c = (case cj_heap c of
     None \<Rightarrow> Some c
   | Some z \<Rightarrow> do { z \<leftarrow> cZoneHeap_free False p sz z; Some (c\<lparr>cj_heap := Some z\<rparr>) })"

type_synonym json_handle = "cJSON json_context"

definition cJSON_create_context :: "cJSON \<Rightarrow> ((addr \<times> json_handle) option \<times> cJSON) option" where
  "cJSON_create_context c = json_create_context (Some cJSON_alloc) (Some cJSON_free) c"

definition cJSON_destroy_context :: "addr \<Rightarrow> json_handle \<Rightarrow> cJSON option" where
  "cJSON_destroy_context a cx = json_destroy_context a cx"

definition cJSON_parse :: "nat \<Rightarrow> json_handle \<Rightarrow> u8 list option \<Rightarrow> u64 \<Rightarrow> (bool \<times> json_handle) option" where
  "cJSON_parse n cx content sz = do { (r, cx) \<leftarrow> json_parse n cx content sz; Some (r = JSON_OK, cx) }"

definition cJSON_compare :: "json_handle \<Rightarrow> hptr \<Rightarrow> hptr \<Rightarrow> u32 \<Rightarrow> s32 option" where
  "cJSON_compare cx p q sz = jcompare cx p q sz"

definition cJSON_select :: "json_handle \<Rightarrow> u8 list \<Rightarrow> json_value option \<Rightarrow> json_value option option" where
  "cJSON_select cx jpath start =
     json_select cx jpath (case start of Some (JSON_OBJECT ob) \<Rightarrow> Some ob | _ \<Rightarrow> None)"

definition cJSON_type :: "json_value \<Rightarrow> u8" where
  "cJSON_type v = (case v of
     JSON_NONE \<Rightarrow> 0 | JSON_STRING _ \<Rightarrow> 1 | JSON_NUMBER _ \<Rightarrow> 2 | JSON_OBJECT _ \<Rightarrow> 3 | JSON_ARRAY _ \<Rightarrow> 4
   | JSON_TRUE \<Rightarrow> 5 | JSON_FALSE \<Rightarrow> 6 | JSON_NULL \<Rightarrow> 7)"

text \<open>The pointer to the data, and the value \<open>*size\<close> gets; it stays \<open>sz\<close> for the other types.\<close>

definition cJSON_data :: "json_value \<Rightarrow> u32 \<Rightarrow> hptr option \<times> u32" where
  "cJSON_data v sz = (case v of
     JSON_STRING s \<Rightarrow> (js_data s, js_size s)
   | JSON_NUMBER s \<Rightarrow> (js_data s, js_size s)
   | _ \<Rightarrow> (None, sz))"

definition cJSON_by_index :: "json_value \<Rightarrow> u32 \<Rightarrow> json_value option" where
  "cJSON_by_index v i = (case v of
     JSON_ARRAY a \<Rightarrow> json_array_element a i
   | JSON_OBJECT ob \<Rightarrow> json_object_value ob i
   | _ \<Rightarrow> None)"

end
