(* ===== verification/JsonSpec.thy ===== *)
theory JsonSpec
  imports Json Memory
begin

text \<open>
  Facts on the JSON parser, for documents in UTF-8: it returns for every document and never reads outside
  it, whatever the allocator grants (the locale \<open>json_memory\<close>); what it makes of a printed value; and how
  a path selects a value. The last section interprets the locale for the heap of \<open>cJSON\<close>.
\<close>

section \<open>The reader\<close>

text \<open>The context reads the document \<open>b\<close>; \<open>cpos\<close> is its position and \<open>txt\<close> what is left to read.\<close>

definition hc :: "'u json_context \<Rightarrow> ht_content" where "hc cx = ht_content (snd (the (p_htc cx)))"
definition cpos :: "'u json_context \<Rightarrow> nat" where "cpos cx = unat (c_pos (hc cx))"

definition utf8_content :: "u8 list \<Rightarrow> ht_content \<Rightarrow> bool" where
  "utf8_content b h \<longleftrightarrow> p_content h = Some b \<and> unat (sz_content h) = length b \<and> unat (c_pos h) \<le> length b \<and> encoding h = E_UTF_8"

definition utf8_doc :: "u8 list \<Rightarrow> 'u json_context \<Rightarrow> bool" where
  "utf8_doc b cx \<longleftrightarrow> (\<exists>a x. p_htc cx = Some (a, x) \<and> pf_read x = Some read_utf8 \<and> utf8_content b (ht_content x))"

definition txt_of :: "u8 list \<Rightarrow> 'u json_context \<Rightarrow> u8 list" where "txt_of b cx = drop (cpos cx) b"

definition set_pos :: "u64 \<Rightarrow> 'u json_context \<Rightarrow> 'u json_context" where
  "set_pos p cx = cx\<lparr>p_htc := map_option (\<lambda>(a, x). (a, x\<lparr>ht_content := (ht_content x)\<lparr>c_pos := p\<rparr>\<rparr>)) (p_htc cx)\<rparr>"

lemma hbyte_doc: "utf8_content b h \<Longrightarrow> hbyte h i = rd b i"
  by (simp add: utf8_content_def hbyte_def)

lemma utf8_content_pos: "utf8_content b h \<Longrightarrow> unat p \<le> length b \<Longrightarrow> utf8_content b (h\<lparr>c_pos := p\<rparr>)"
  by (simp add: utf8_content_def)

lemma utf8_tail_returns:
  "utf8_content b h \<Longrightarrow> unat p \<le> length b \<Longrightarrow>
     \<exists>r p'. utf8_tail h c r0 p = Some (r, p') \<and> unat p \<le> unat p' \<and> unat p' \<le> length b"
proof (induction h c r0 p rule: utf8_tail.induct)
  case (1 h c r0 p)
  show ?case
  proof (cases "c AND 0xc0 = 0xc0 \<and> p < sz_content h")
    case True
    have p: "unat p < length b" using True 1(2) by (simp add: utf8_content_def word_less_nat_alt)
    have s: "unat (p + 1) = Suc (unat p)" using True pos_inc by blast
    have h: "hbyte h (unat p) = Some (b ! unat p)" using 1(2) p by (simp add: hbyte_doc rd_def)
    obtain r p' where "utf8_tail h (push_bit 1 c) (push_bit 8 r0 OR ucast (b ! unat p)) (p + 1) = Some (r, p')"
        "unat (p + 1) \<le> unat p'" "unat p' \<le> length b"
      using 1(1) [OF True h 1(2)] p s by fastforce
    then show ?thesis using True h s by (subst utf8_tail.simps) simp
  next
    case False
    then show ?thesis using 1(3) by (subst utf8_tail.simps) auto
  qed
qed

lemma read_utf8_returns:
  assumes "utf8_content b h"
  shows "\<exists>c p'. read_utf8 h = Some (c, c_pos h, h\<lparr>c_pos := p'\<rparr>) \<and> unat p' \<le> length b \<and>
    (if unat (c_pos h) < length b then unat (c_pos h) < unat p' else c = 0 \<and> p' = c_pos h)"
proof (cases "c_pos h < sz_content h")
  case True
  have p: "unat (c_pos h) < length b" using True assms by (simp add: utf8_content_def word_less_nat_alt)
  have s: "unat (c_pos h + 1) = Suc (unat (c_pos h))" using True pos_inc by blast
  have b: "hbyte h (unat (c_pos h)) = Some (b ! unat (c_pos h))" using assms p by (simp add: hbyte_doc rd_def)
  obtain r p' where "utf8_tail h (b ! unat (c_pos h)) (ucast (b ! unat (c_pos h))) (c_pos h + 1) = Some (r, p')"
      "Suc (unat (c_pos h)) \<le> unat p'" "unat p' \<le> length b"
    using utf8_tail_returns [OF assms, of "c_pos h + 1"] p s by fastforce
  then have "read_utf8 h = Some (r, c_pos h, h\<lparr>c_pos := p'\<rparr>)" "unat (c_pos h) < unat p'" "unat p' \<le> length b"
    using True b by (simp_all add: read_utf8_def)
  then show ?thesis using p by auto
next
  case False
  then have "unat (c_pos h) = length b" using assms by (simp add: utf8_content_def word_less_nat_alt)
  then show ?thesis using False by (auto simp: read_utf8_def)
qed

text \<open>A byte below \<open>0xC0\<close> is a symbol.\<close>

lemma utf8_tail_single:
  assumes "c < (0xC0 :: u8)"
  shows "utf8_tail h c r p = Some (r, p)"
proof -
  have "c AND 0xc0 \<noteq> 0xc0"
  proof
    assume "c AND 0xc0 = 0xc0"
    then have "0xc0 \<le> c" by (metis word_and_le2)
    then show False using assms by simp
  qed
  then show ?thesis by (subst utf8_tail.simps) simp
qed

lemma read_utf8_byte:
  assumes "utf8_content b h" "drop (unat (c_pos h)) b = y # ys" "y < 0xC0"
  shows "read_utf8 h = Some (ucast y, c_pos h, h\<lparr>c_pos := c_pos h + 1\<rparr>)" "unat (c_pos h + 1) = Suc (unat (c_pos h))"
proof -
  have p: "unat (c_pos h) < length b" using assms(2) by (metis drop_eq_Nil2 list.distinct(1) not_less)
  then have l: "c_pos h < sz_content h" using assms(1) by (simp add: utf8_content_def word_less_nat_alt)
  have "b ! unat (c_pos h) = y" using assms(2) p by (metis Cons_nth_drop_Suc list.sel(1))
  then have "hbyte h (unat (c_pos h)) = Some y" using assms(1) p by (simp add: hbyte_doc rd_def)
  then show "read_utf8 h = Some (ucast y, c_pos h, h\<lparr>c_pos := c_pos h + 1\<rparr>)"
    using l utf8_tail_single [OF assms(3)] by (simp add: read_utf8_def)
  show "unat (c_pos h + 1) = Suc (unat (c_pos h))" using pos_inc [OF l] .
qed

lemma set_pos_simps [simp]:
  "err_pos (set_pos p cx) = err_pos cx" "j_udata (set_pos p cx) = j_udata cx" "root (set_pos p cx) = root cx"
  by (simp_all add: set_pos_def)

lemma jread_returns:
  assumes "utf8_doc b cx"
  shows "\<exists>c pos p'. jread cx = Some (c, pos, set_pos p' cx) \<and> unat pos = cpos cx \<and> utf8_doc b (set_pos p' cx) \<and> cpos (set_pos p' cx) = unat p' \<and>
    unat p' \<le> length b \<and> (if cpos cx < length b then cpos cx < unat p' else c = 0 \<and> unat p' = cpos cx)"
proof -
  obtain a x where x: "p_htc cx = Some (a, x)" "pf_read x = Some read_utf8" "utf8_content b (ht_content x)"
    using assms by (auto simp: utf8_doc_def)
  obtain c p' where r: "read_utf8 (ht_content x) = Some (c, c_pos (ht_content x), (ht_content x)\<lparr>c_pos := p'\<rparr>)" "unat p' \<le> length b"
      "if unat (c_pos (ht_content x)) < length b then unat (c_pos (ht_content x)) < unat p' else c = 0 \<and> p' = c_pos (ht_content x)"
    using read_utf8_returns [OF x(3)] by blast
  have "jread cx = Some (c, c_pos (ht_content x), set_pos p' cx)" using x r by (simp add: jread_def set_pos_def)
  moreover have "utf8_doc b (set_pos p' cx)" using x r(2) by (simp add: utf8_doc_def set_pos_def utf8_content_pos)
  moreover have "cpos (set_pos p' cx) = unat p'" "cpos cx = unat (c_pos (ht_content x))"
    using x(1) by (simp_all add: cpos_def hc_def set_pos_def)
  ultimately show ?thesis using r by auto
qed

lemma jread_byte:
  assumes "utf8_doc b cx" "txt_of b cx = y # ys" "y < 0xC0"
  shows "\<exists>pos p'. jread cx = Some (ucast y, pos, set_pos p' cx) \<and> unat pos = cpos cx \<and> utf8_doc b (set_pos p' cx) \<and>
    cpos (set_pos p' cx) = Suc (cpos cx) \<and> txt_of b (set_pos p' cx) = ys"
proof -
  obtain a x where x: "p_htc cx = Some (a, x)" "pf_read x = Some read_utf8" "utf8_content b (ht_content x)"
    using assms by (auto simp: utf8_doc_def)
  have d: "drop (unat (c_pos (ht_content x))) b = y # ys" using assms(2) x(1) by (simp add: txt_of_def cpos_def hc_def)
  note r = read_utf8_byte [OF x(3) d assms(3)]
  let ?p = "c_pos (ht_content x) + 1"
  have "jread cx = Some (ucast y, c_pos (ht_content x), set_pos ?p cx)" using x r(1) by (simp add: jread_def set_pos_def)
  moreover have "unat (c_pos (ht_content x)) < length b" using d by (metis drop_eq_Nil2 list.distinct(1) not_less)
  then have "utf8_doc b (set_pos ?p cx)" using x r(2) by (simp add: utf8_doc_def set_pos_def utf8_content_pos)
  moreover have "cpos (set_pos ?p cx) = Suc (cpos cx)" "cpos cx = unat (c_pos (ht_content x))"
    using x(1) r(2) by (simp_all add: cpos_def hc_def set_pos_def)
  moreover from this have "txt_of b (set_pos ?p cx) = ys" using arg_cong [OF assms(2), of tl] by (simp add: txt_of_def drop_Suc tl_drop)
  ultimately show ?thesis by (intro exI [of _ "c_pos (ht_content x)"] exI [of _ ?p]) simp
qed

section \<open>The loops over symbols\<close>

text \<open>\<open>ahead b cx cx'\<close>: the parser has moved on in \<open>b\<close> and changed nothing else but the error position.\<close>

definition ahead :: "u8 list \<Rightarrow> 'u json_context \<Rightarrow> 'u json_context \<Rightarrow> bool" where
  "ahead b cx cx' \<longleftrightarrow> utf8_doc b cx' \<and> cpos cx \<le> cpos cx' \<and>
     (\<exists>p e. cx' = (set_pos p cx)\<lparr>err_pos := e\<rparr>)"

lemma set_pos_set_pos [simp]: "set_pos p (set_pos q cx) = set_pos p cx"
  by (simp add: set_pos_def option.map_comp comp_def split_def)

lemma set_pos_err [simp]: "set_pos p (cx\<lparr>err_pos := e\<rparr>) = (set_pos p cx)\<lparr>err_pos := e\<rparr>"
  by (simp add: set_pos_def)

lemma set_pos_id: "p_htc cx = Some (a, x) \<Longrightarrow> set_pos (c_pos (ht_content x)) cx = cx"
  by (simp add: set_pos_def)

lemma cpos_err [simp]: "cpos (cx\<lparr>err_pos := e\<rparr>) = cpos cx"
  by (simp add: cpos_def hc_def)

lemma utf8_doc_err [simp]: "utf8_doc b (cx\<lparr>err_pos := e\<rparr>) = utf8_doc b cx"
  by (simp add: utf8_doc_def)

lemma cpos_perr [simp]: "cpos (perr e cx) = cpos cx"
  by (simp add: perr_def)

lemma utf8_doc_perr [simp]: "utf8_doc b (perr e cx) = utf8_doc b cx"
  by (simp add: perr_def)

lemma ahead_refl: "utf8_doc b cx \<Longrightarrow> ahead b cx cx"
proof -
  assume u: "utf8_doc b cx"
  then obtain a x where "p_htc cx = Some (a, x)" by (auto simp: utf8_doc_def)
  then have "cx = (set_pos (c_pos (ht_content x)) cx)\<lparr>err_pos := err_pos cx\<rparr>" by (simp add: set_pos_id)
  then show ?thesis using u unfolding ahead_def by blast
qed

lemma ahead_trans: "ahead b cx cx' \<Longrightarrow> ahead b cx' cx'' \<Longrightarrow> ahead b cx cx''"
  by (fastforce simp: ahead_def)

lemma ahead_perr: "ahead b cx cx' \<Longrightarrow> ahead b cx (perr e cx')"
  by (fastforce simp: ahead_def perr_def)

lemma ahead_set_pos: "utf8_doc b (set_pos p cx) \<Longrightarrow> cpos cx \<le> cpos (set_pos p cx) \<Longrightarrow> ahead b cx (set_pos p cx)"
proof -
  assume u: "utf8_doc b (set_pos p cx)" "cpos cx \<le> cpos (set_pos p cx)"
  have "set_pos p cx = (set_pos p cx)\<lparr>err_pos := err_pos (set_pos p cx)\<rparr>" by simp
  then show ?thesis using u unfolding ahead_def by blast
qed

lemma ahead_doc: "ahead b cx cx' \<Longrightarrow> utf8_doc b cx'"
  by (simp add: ahead_def)

lemma ahead_cpos: "ahead b cx cx' \<Longrightarrow> cpos cx \<le> cpos cx'"
  by (simp add: ahead_def)

lemma cpos_le: "utf8_doc b cx \<Longrightarrow> cpos cx \<le> length b"
  by (auto simp: utf8_doc_def utf8_content_def cpos_def hc_def)

lemma jpos_doc: "utf8_doc b cx \<Longrightarrow> \<exists>p. jpos cx = Some p \<and> unat p = cpos cx"
  by (auto simp: utf8_doc_def jpos_def ht_position_def cpos_def hc_def)

lemma jsymbols_doc: "utf8_doc b cx \<Longrightarrow> \<exists>n. jsymbols cx p q = Some n"
  by (auto simp: utf8_doc_def jsymbols_def)

text \<open>A read, with the facts the loops need.\<close>

lemma jread_step:
  assumes "utf8_doc b cx"
  obtains c pos cx1 where "jread cx = Some (c, pos, cx1)" "ahead b cx cx1" "unat pos = cpos cx"
    "c \<noteq> 0 \<Longrightarrow> cpos cx < cpos cx1" "c \<noteq> 0 \<Longrightarrow> cpos cx < length b"
proof -
  obtain c pos p' where r: "jread cx = Some (c, pos, set_pos p' cx)" "unat pos = cpos cx" "utf8_doc b (set_pos p' cx)"
      "cpos (set_pos p' cx) = unat p'" "if cpos cx < length b then cpos cx < unat p' else c = 0 \<and> unat p' = cpos cx"
    using jread_returns [OF assms] by blast
  have "ahead b cx (set_pos p' cx)" using r(3-5) by (intro ahead_set_pos) (auto split: if_splits)
  then show ?thesis using that [OF r(1) _ r(2)] r(4,5) by (auto split: if_splits)
qed

text \<open>\<open>m\<close> returns with a context that \<open>get\<close> finds in the result, ahead of \<open>cx\<close>.\<close>

definition returns :: "u8 list \<Rightarrow> ('r \<Rightarrow> 'u json_context) \<Rightarrow> 'u json_context \<Rightarrow> 'r option \<Rightarrow> bool" where
  "returns b get cx m \<longleftrightarrow> (\<exists>y. m = Some y \<and> ahead b cx (get y))"

lemma returns_Some [simp]: "returns b get cx (Some y) = ahead b cx (get y)"
  by (simp add: returns_def)

lemma returns_read:
  assumes "utf8_doc b cx" "length b - cpos cx < Suc n"
    "\<And>c pos cx1. c \<noteq> 0 \<Longrightarrow> utf8_doc b cx1 \<Longrightarrow> length b - cpos cx1 < n \<Longrightarrow> returns b get cx1 (k c pos cx1)"
    "\<And>c pos cx1. ahead b cx cx1 \<Longrightarrow> returns b get cx1 (e c pos cx1)"
  shows "returns b get cx (do { (c, pos, cx) \<leftarrow> jread cx; if c \<noteq> 0 then k c pos cx else e c pos cx })"
proof -
  obtain c1 pos1 cx1 where r: "jread cx = Some (c1, pos1, cx1)" "ahead b cx cx1" "c1 \<noteq> 0 \<Longrightarrow> cpos cx < cpos cx1"
      "c1 \<noteq> 0 \<Longrightarrow> cpos cx < length b"
    using jread_step [OF assms(1)] by metis
  have "returns b get cx1 (if c1 \<noteq> 0 then k c1 pos1 cx1 else e c1 pos1 cx1)"
  proof (cases "c1 = 0")
    case False
    then have "length b - cpos cx1 < n" using r(3,4) assms(2) by linarith
    then show ?thesis using assms(3) [OF False ahead_doc [OF r(2)]] False by simp
  qed (use assms(4) r(2) in simp)
  then show ?thesis using r(1,2) ahead_trans [OF r(2)] by (auto simp: returns_def)
qed

abbreviation get3 :: "'a \<times> 'b \<times> 'c \<Rightarrow> 'c" where "get3 y \<equiv> snd (snd y)"
abbreviation get4 :: "'a \<times> 'b \<times> 'c \<times> 'd \<Rightarrow> 'd" where "get4 y \<equiv> snd (snd (snd y))"

lemma number_loop_returns:
  "utf8_doc b cx \<Longrightarrow> length b - cpos cx < n \<Longrightarrow> returns b get4 cx (number_loop n cx nt c i pos)"
proof (induction n arbitrary: cx nt c i pos)
  case (Suc n)
  have "returns b get4 cx (do { (c, pos, cx) \<leftarrow> jread cx; if c \<noteq> 0 then number_loop n cx nt' c (i + 1) pos else Some (JSON_OK, c, pos, cx) })" for nt'
    by (rule returns_read [OF Suc.prems]) (auto intro: Suc.IH ahead_refl ahead_doc)
  then show ?case using ahead_refl [OF Suc.prems(1)] ahead_perr [OF ahead_refl [OF Suc.prems(1)]] by (simp add: Let_def)
qed simp

lemma name_loop_returns:
  "utf8_doc b cx \<Longrightarrow> length b - cpos cx < n \<Longrightarrow> returns b get4 cx (name_loop n cx q st sy c pos)"
proof (induction n arbitrary: cx sy c pos)
  case (Suc n)
  have "returns b get4 cx (do { (c, pos, cx) \<leftarrow> jread cx; if c \<noteq> 0 then name_loop n cx q st True c pos else Some (JSON_OK, c, pos, cx) })"
    by (rule returns_read [OF Suc.prems]) (auto intro: Suc.IH ahead_refl ahead_doc)
  then show ?case using ahead_refl [OF Suc.prems(1)] ahead_perr [OF ahead_refl [OF Suc.prems(1)]] by (simp add: Let_def)
qed simp

lemma string_loop_returns:
  "utf8_doc b cx \<Longrightarrow> length b - cpos cx < n \<Longrightarrow> returns b get3 cx (string_loop n cx trm prev pos)"
proof (induction n arbitrary: cx prev pos)
  case (Suc n)
  have "string_loop (Suc n) cx trm prev pos = do { (c, pos, cx) \<leftarrow> jread cx; if c \<noteq> 0 then
      (if c = trm \<and> prev \<noteq> BACKSLASH then Some (c, pos, cx) else string_loop n cx trm c pos) else Some (c, pos, cx) }"
    by (cases "jread cx") auto
  also have "returns b get3 cx \<dots>"
    by (rule returns_read [OF Suc.prems]) (auto intro: Suc.IH ahead_refl ahead_doc)
  finally show ?case .
qed simp

lemma parse_number_returns:
  assumes "utf8_doc b cx" "length b - cpos cx < n"
  shows "returns b get4 cx (parse_number n cx num c pos)"
proof -
  obtain r c' pos' cx' where l: "number_loop n cx (if c = 0x30 then NUM_OCT else NUM_NONE) c 0 pos = Some (r, c', pos', cx')" "ahead b cx cx'"
    using number_loop_returns [OF assms, of "if c = 0x30 then NUM_OCT else NUM_NONE" c 0 pos] by (auto simp: returns_def)
  obtain d where d: "js_data (if js_data num = None then num\<lparr>js_data := Some (Doc (unat pos))\<rparr> else num) = Some d"
    by (cases "js_data num") auto
  obtain m where "jsymbols cx' d (Doc (unat pos')) = Some m" using jsymbols_doc [OF ahead_doc [OF l(2)]] by blast
  then show ?thesis using l d by (simp add: parse_number_def Let_def)
qed

lemma parse_string_name_returns:
  assumes "utf8_doc b cx" "length b - cpos cx < n"
  shows "returns b get4 cx (parse_string_name n cx str c pos)"
proof (cases "quote c \<or> upper c \<or> lower c \<or> c = 0x5F")
  case True
  obtain c1 pos1 cx1 where r: "(if quote c then jread cx else Some (c, pos, cx)) = Some (c1, pos1, cx1)" "ahead b cx cx1"
    using jread_step [OF assms(1)] ahead_refl [OF assms(1)] by metis
  have n: "length b - cpos cx1 < n" using ahead_cpos [OF r(2)] assms(2) by simp
  obtain e c' pos' cx' where l: "name_loop n cx1 (c = QUOTE) (c = APOS) (\<not> quote c) c1 pos1 = Some (e, c', pos', cx')" "ahead b cx1 cx'"
    using name_loop_returns [OF ahead_doc [OF r(2)] n, of "c = QUOTE" "c = APOS" "\<not> quote c" c1 pos1] by (auto simp: returns_def)
  obtain d where d: "js_data (if js_data str = None then str\<lparr>js_data := Some (Doc (unat pos1))\<rparr> else str) = Some d"
    by (cases "js_data str") auto
  obtain m where "jsymbols cx' d (Doc (unat pos')) = Some m" using jsymbols_doc [OF ahead_doc [OF l(2)]] by blast
  then show ?thesis using r l d True ahead_trans [OF r(2) l(2)] by (simp add: parse_string_name_def Let_def)
next
  case False
  then show ?thesis using ahead_perr [OF ahead_refl [OF assms(1)]] by (simp add: parse_string_name_def)
qed

lemma parse_string_value_returns:
  assumes "utf8_doc b cx" "length b - cpos cx < n"
  shows "returns b get4 cx (parse_string_value n cx str c)"
proof -
  obtain p where p: "jpos cx = Some p" using jpos_doc [OF assms(1)] by blast
  show ?thesis
  proof (cases "quote c")
    case True
    obtain c' pos' cx' where l: "string_loop n cx c c p = Some (c', pos', cx')" "ahead b cx cx'"
      using string_loop_returns [OF assms, of c c p] by (auto simp: returns_def)
    obtain d where d: "js_data (if js_data str = None then str\<lparr>js_data := Some (Doc (unat p))\<rparr> else str) = Some d"
      by (cases "js_data str") auto
    obtain m where "jsymbols cx' d (Doc (unat pos')) = Some m" using jsymbols_doc [OF ahead_doc [OF l(2)]] by blast
    then show ?thesis using l d p True by (simp add: parse_string_value_def Let_def)
  qed (use p ahead_perr [OF ahead_refl [OF assms(1)]] in \<open>simp add: parse_string_value_def\<close>)
qed

section \<open>Constants\<close>

text \<open>The bytes a constant was read from: lower case letters, up to a symbol of several bytes if there is one.\<close>

definition small :: "u8 \<Rightarrow> bool" where "small y \<longleftrightarrow> 0x61 \<le> y \<and> y \<le> 0x7A"

fun const_bytes :: "nat \<Rightarrow> u8 list \<Rightarrow> bool" where
  "const_bytes 0 ys = True"
| "const_bytes (Suc k) [] = False"
| "const_bytes (Suc k) (y # ys) = (0xC0 \<le> y \<or> small y \<and> const_bytes k ys)"

lemma const_bytes_zero: "0xC0 \<le> y \<Longrightarrow> const_bytes k (y # ys)"
  by (cases k) auto

lemma unat_ucast_u8: "unat (ucast (z :: u8) :: u32) = unat z"
proof -
  have "unat z < 2 ^ 32" using unsigned_less [of z, where ?'a = nat] by simp
  then show ?thesis by (simp add: unsigned_ucast_eq take_bit_nat_eq_self)
qed

lemma lower_ucast: "lower (ucast y) = small y"
proof -
  show ?thesis by (simp add: lower_def small_def word_le_nat_alt unat_ucast_u8)
qed

text \<open>The comparison with a constant looks at no byte of the document behind the first that differs.\<close>

lemma rd_append: "rd (xs @ ys) i = (if i < length xs then Some (xs ! i) else rd ys (i - length xs))"
  by (auto simp: rd_def nth_append)

lemma cmp_symbol_utf8: "cmp_symbol h E_UTF_8 p i c = map_option ucast (deref h p i)"
  by (simp add: cmp_symbol_def)

lemma ucast_inj: "(ucast (x :: u8) :: u32) - ucast y = 0 \<Longrightarrow> x = y"
proof -
  assume "(ucast x :: u32) - ucast y = 0"
  then have "unat (ucast x :: u32) = unat (ucast y :: u32)" by simp
  then show "x = y" by (simp add: word_unat_eq_iff unat_ucast_u8)
qed

lemma cmp_loop_const:
  assumes h: "utf8_content b h" and s: "\<forall>y \<in> set s. small y"
  shows "const_bytes k (drop (p + i) b) \<Longrightarrow> i \<le> length s \<Longrightarrow>
     \<exists>r. cmp_loop h E_UTF_8 (Ext (s @ [0]) 0) E_UTF_8 (Doc p) i k c1 c2 = Some r"
proof (induction k arbitrary: i c1 c2)
  case (Suc k)
  obtain y ys where y: "drop (p + i) b = y # ys" using Suc.prems(1) by (cases "drop (p + i) b") auto
  have l: "p + i < length b" using y by (metis drop_eq_Nil2 list.distinct(1) not_less)
  then have dr: "b ! (p + i) = y" "drop (p + Suc i) b = ys" using y by (metis Cons_nth_drop_Suc list.inject, metis Cons_nth_drop_Suc add_Suc_right list.inject)
  have d2: "deref h (Doc p) i = Some y" using h l dr(1) by (simp add: deref_def hbyte_doc rd_def)
  define x where "x = (s @ [0]) ! i"
  have d1: "deref h (Ext (s @ [0]) 0) i = Some x" using Suc.prems(2) by (simp add: deref_def rd_def x_def)
  show ?case
  proof (cases "ucast x - ucast y = (0 :: u32)")
    case True
    then have xy: "x = y" by (rule ucast_inj)
    have y0: "0xC0 \<le> y \<or> small y \<and> const_bytes k ys" using Suc.prems(1) y by simp
    have i: "i < length s"
    proof (rule ccontr)
      assume "\<not> i < length s"
      then have "x = 0" using Suc.prems(2) by (simp add: x_def nth_append)
      then show False using xy y0 by (auto simp: small_def word_le_nat_alt)
    qed
    then have "small x" using s by (simp add: x_def nth_append)
    then have "\<not> 0xC0 \<le> y" using xy by (auto simp: small_def word_le_nat_alt)
    then have "const_bytes k (drop (p + Suc i) b)" using y0 dr(2) by simp
    then show ?thesis using Suc.IH [of "Suc i" "ucast x" "ucast y"] True i d1 d2 by (simp add: cmp_symbol_utf8)
  qed (use d1 d2 in \<open>simp add: cmp_symbol_utf8\<close>)
qed simp

text \<open>The symbol \<open>c\<close> was read at \<open>pos\<close>, right before the position of the context.\<close>

definition was_read :: "u8 list \<Rightarrow> 'u json_context \<Rightarrow> u32 \<Rightarrow> u64 \<Rightarrow> bool" where
  "was_read b cx c pos \<longleftrightarrow> c = 0 \<or> unat pos < length b \<and> unat pos < cpos cx \<and>
     (0xC0 \<le> b ! unat pos \<or> c = ucast (b ! unat pos) \<and> cpos cx = Suc (unat pos))"

lemma drop_nth: "i < length b \<Longrightarrow> drop i b = b ! i # drop (Suc i) b"
  by (simp add: Cons_nth_drop_Suc)

lemma jread_step2:
  assumes "utf8_doc b cx"
  obtains c pos cx1 where "jread cx = Some (c, pos, cx1)" "ahead b cx cx1" "unat pos = cpos cx"
    "c \<noteq> 0 \<Longrightarrow> cpos cx < cpos cx1" "c \<noteq> 0 \<Longrightarrow> cpos cx < length b" "was_read b cx1 c pos"
proof -
  obtain c pos cx1 where r: "jread cx = Some (c, pos, cx1)" "ahead b cx cx1" "unat pos = cpos cx"
      "c \<noteq> 0 \<Longrightarrow> cpos cx < cpos cx1" "c \<noteq> 0 \<Longrightarrow> cpos cx < length b"
    using jread_step [OF assms] by metis
  have "was_read b cx1 c pos"
  proof (cases "c = 0 \<or> 0xC0 \<le> b ! cpos cx")
    case False
    then have l: "cpos cx < length b" "b ! cpos cx < 0xC0" using r(5) by auto
    then have "txt_of b cx = b ! cpos cx # drop (Suc (cpos cx)) b" by (simp add: txt_of_def drop_nth)
    from jread_byte [OF assms this l(2)] show ?thesis using r(1,3) l(1) by (auto simp: was_read_def)
  qed (use r in \<open>auto simp: was_read_def\<close>)
  then show ?thesis using that r by metis
qed

lemma const_loop_returns:
  "utf8_doc b cx \<Longrightarrow> was_read b cx c pos \<Longrightarrow> length b - cpos cx + 1 < n \<Longrightarrow>
     \<exists>c' k cx'. const_loop n cx c m = Some (c', m + of_nat k, cx') \<and> ahead b cx cx' \<and> const_bytes k (drop (unat pos) b) \<and>
       k \<le> length b - unat pos"
proof (induction n arbitrary: cx c pos m)
  case (Suc n)
  show ?case
  proof (cases "lower c")
    case True
    then have c0: "c \<noteq> 0" by (auto simp: lower_def)
    obtain c1 pos1 cx1 where r: "jread cx = Some (c1, pos1, cx1)" "ahead b cx cx1" "unat pos1 = cpos cx"
        "c1 \<noteq> 0 \<Longrightarrow> cpos cx < cpos cx1" "c1 \<noteq> 0 \<Longrightarrow> cpos cx < length b" "was_read b cx1 c1 pos1"
      using jread_step2 [OF Suc.prems(1)] by metis
    have w: "unat pos < length b" "unat pos < cpos cx" "0xC0 \<le> b ! unat pos \<or> small (b ! unat pos) \<and> cpos cx = Suc (unat pos)"
      using Suc.prems(2) c0 True by (auto simp: was_read_def lower_ucast)
    have pc: "cpos cx \<le> length b" by (rule cpos_le [OF Suc.prems(1)])
    obtain c' k cx' where i: "const_loop n cx1 c1 (m + 1) = Some (c', m + 1 + of_nat k, cx')" "ahead b cx1 cx'"
        "const_bytes k (drop (cpos cx) b)" "k \<le> length b - cpos cx"
    proof (cases "c1 = 0")
      case True
      obtain n' where "n = Suc n'" using Suc.prems(3) by (cases n) auto
      then have "const_loop n cx1 c1 (m + 1) = Some (c1, m + 1 + of_nat 0, cx1)" using True by (simp add: lower_def)
      then show ?thesis using that [of c1 0 cx1] ahead_refl [OF ahead_doc [OF r(2)]] by simp
    next
      case False
      then have "length b - cpos cx1 + 1 < n" using r(4,5) Suc.prems(3) by linarith
      from Suc.IH [OF ahead_doc [OF r(2)] r(6) this, of "m + 1"] show ?thesis using that r(3) by auto
    qed
    have "const_bytes (Suc k) (drop (unat pos) b)" using w i(3) by (auto simp: drop_nth)
    moreover have "Suc k \<le> length b - unat pos" using i(4) w(1,2) pc by linarith
    moreover have "const_loop (Suc n) cx c m = Some (c', m + of_nat (Suc k), cx')" using True r(1) i(1) by (simp add: add.assoc)
    ultimately show ?thesis using ahead_trans [OF r(2) i(2)] by blast
  next
    case False
    then show ?thesis using ahead_refl [OF Suc.prems(1)] by (intro exI [of _ c] exI [of _ 0] exI [of _ cx]) simp
  qed
qed simp

lemma encoding_utf8: "utf8_content b h \<Longrightarrow> encoding_of h p = E_UTF_8"
  by (simp add: encoding_of_def utf8_content_def)

lemma jcompare_const:
  assumes "utf8_doc b cx" "\<forall>y \<in> set s. small y" "const_bytes k (drop p b)" "k < 2 ^ 32"
  shows "\<exists>r. jcompare cx (Ext (s @ [0]) 0) (Doc p) (of_nat k) = Some r"
proof -
  obtain a x where x: "p_htc cx = Some (a, x)" "utf8_content b (ht_content x)" using assms(1) by (auto simp: utf8_doc_def)
  have "unat (of_nat k :: u32) = k" using assms(4) by (intro unat_of_nat_small) simp
  then show ?thesis using x cmp_loop_const [OF x(2) assms(2), of k p 0 0 0] assms(3)
    by (simp add: jcompare_def ht_compare_def encoding_utf8 Let_def)
qed

lemma const_words: "c_true = [0x74, 0x72, 0x75, 0x65] @ [0]" "c_false = [0x66, 0x61, 0x6C, 0x73, 0x65] @ [0]"
  "c_null = [0x6E, 0x75, 0x6C, 0x6C] @ [0]"
  by (simp_all add: c_true_def c_false_def c_null_def)

lemma parse_const_returns:
  assumes "utf8_doc b cx" "was_read b cx c pos" "length b - cpos cx + 1 < n" "length b < 2 ^ 32"
  shows "returns b get4 cx (parse_const n cx v c pos)"
proof -
  obtain c' k cx' where l: "const_loop n cx c 0 = Some (c', of_nat k, cx')" "ahead b cx cx'"
      "const_bytes k (drop (unat pos) b)" "k \<le> length b - unat pos"
    using const_loop_returns [OF assms(1-3), of 0] by auto
  have k: "k < 2 ^ 32" using l(4) assms(4) by simp
  have "\<exists>r. jcompare cx' (Ext c_true 0) (Doc (unat pos)) (of_nat k) = Some r"
      "\<exists>r. jcompare cx' (Ext c_false 0) (Doc (unat pos)) (of_nat k) = Some r"
      "\<exists>r. jcompare cx' (Ext c_null 0) (Doc (unat pos)) (of_nat k) = Some r"
    unfolding const_words by (rule jcompare_const [OF ahead_doc [OF l(2)] _ l(3) k]; simp add: small_def)+
  then show ?thesis using l(1,2) ahead_perr [OF l(2)] by (auto simp: parse_const_def)
qed

section \<open>The start of a document\<close>

text \<open>The document has no byte order mark of UTF-16 or UTF-32.\<close>

definition utf8_text :: "u8 list \<Rightarrow> bool" where
  "utf8_text b \<longleftrightarrow> take 2 b \<noteq> [0xfe, 0xff] \<and> take 2 b \<noteq> [0xff, 0xfe] \<and> take 4 b \<noteq> [0, 0, 0xfe, 0xff]"

lemma take_prefix: "take m b = take m xs \<Longrightarrow> k \<le> m \<Longrightarrow> take k b = take k xs"
  by (metis min.absorb1 take_take)

lemma find_bom_utf8:
  assumes "utf8_text b" "4 < length b"
  shows "find_bom b g_bom = Some (if take 3 b = [0xef, 0xbb, 0xbf] then Some ([0xef, 0xbb, 0xbf], E_UTF_8, read_utf8) else None)"
proof -
  have "take 4 b \<noteq> [0xff, 0xfe, 0, 0]"
  proof
    assume "take 4 b = [0xff, 0xfe, 0, 0]"
    then have "take 2 b = [0xff, 0xfe]" using take_prefix [of 4 b "[0xff, 0xfe, 0, 0]" 2] by simp
    then show False using assms(1) by (simp add: utf8_text_def)
  qed
  moreover have "take (Suc (Suc 0)) b = take 2 b" "take (Suc (Suc (Suc 0))) b = take 3 b" "take (Suc (Suc (Suc (Suc 0)))) b = take 4 b"
    by (simp_all add: eval_nat_numeral)
  ultimately show ?thesis using assms by (simp add: g_bom_def bom_matches_def utf8_text_def)
qed

lemma utf8_init:
  assumes "unat sz = length b" "utf8_text b"
  shows "\<exists>x1. ht_init_context (ht_reset_context x) (Some b) sz = Some x1 \<and> pf_mem_alloc x1 = pf_mem_alloc x \<and>
    pf_mem_free x1 = pf_mem_free x \<and> pf_read x1 = Some read_utf8 \<and> utf8_content b (ht_content x1) \<and>
    unat (c_pos (ht_content x1)) = (if 4 < length b \<and> take 3 b = [0xef, 0xbb, 0xbf] then 3 else 0)"
proof (cases "4 < length b")
  case True
  then have "sz > 4" using assms(1) by (simp add: word_less_nat_alt)
  then show ?thesis using True find_bom_utf8 [OF assms(2) True] assms(1)
    by (simp add: ht_init_context_def ht_reset_context_def Let_def zero_content_def utf8_content_def)
next
  case False
  then have "\<not> sz > 4" using assms(1) by (simp add: word_less_nat_alt)
  then show ?thesis using False assms(1)
    by (simp add: ht_init_context_def ht_reset_context_def Let_def zero_content_def utf8_content_def)
qed

section \<open>Memory\<close>

text \<open>An allocator that returns for every size up to the zone allocator's limit.\<close>

locale json_memory = mem_callbacks +
  assumes fits_small: "sz \<noteq> 0 \<Longrightarrow> sz \<le> 0xFFFFF000 \<Longrightarrow> fits sz"
begin

definition jok :: "u8 list \<Rightarrow> 'a json_context \<Rightarrow> bool" where
  "jok b cx \<longleftrightarrow> utf8_doc b cx \<and> ok (j_udata cx) \<and>
     (\<exists>a x. p_htc cx = Some (a, x) \<and> pf_mem_alloc x = Some alloc \<and> pf_mem_free x = Some free)"

definition jlive :: "'a json_context \<Rightarrow> addr \<rightharpoonup> u32" where "jlive cx = live (j_udata cx)"

lemma jok_doc: "jok b cx \<Longrightarrow> utf8_doc b cx"
  by (simp add: jok_def)

lemma jok_ahead: "jok b cx \<Longrightarrow> ahead b cx cx' \<Longrightarrow> jok b cx' \<and> jlive cx' = jlive cx"
  by (auto simp: jok_def ahead_def jlive_def set_pos_def)

lemma jok_udata: "jok b cx \<Longrightarrow> ok u \<Longrightarrow> jok b (cx\<lparr>j_udata := u\<rparr>)"
  by (simp add: jok_def utf8_doc_def)

lemma cpos_udata [simp]: "cpos (cx\<lparr>j_udata := u\<rparr>) = cpos cx"
  by (simp add: cpos_def hc_def)

text \<open>An allocator that never runs out of memory.\<close>

definition granting :: bool where "granting \<longleftrightarrow> (\<forall>sz u u'. ok u \<longrightarrow> alloc sz u \<noteq> Some (None, u'))"

lemma jalloc_rel:
  assumes "jok b cx" "n \<noteq> 0" "n \<le> 0xFFFFF000"
  obtains p u where "jalloc cx n = Some (p, cx\<lparr>j_udata := u\<rparr>)" "ok u"
    "case p of None \<Rightarrow> live u = jlive cx \<and> \<not> granting | Some a \<Rightarrow> jlive cx a = None \<and> live u = (jlive cx)(a \<mapsto> rnd n)"
proof -
  obtain a x where x: "p_htc cx = Some (a, x)" "pf_mem_alloc x = Some alloc" and k: "ok (j_udata cx)"
    using assms(1) by (auto simp: jok_def)
  obtain p u where p: "alloc n (j_udata cx) = Some (p, u)" using alloc_returns [OF k fits_small [OF assms(2,3)]] by blast
  have "jalloc cx n = Some (p, cx\<lparr>j_udata := u\<rparr>)" using x p by (simp add: jalloc_def)
  moreover have "p = None \<Longrightarrow> \<not> granting" using p k by (auto simp: granting_def)
  ultimately show ?thesis using that p alloc_Some [OF k] alloc_None [OF k] by (cases p) (auto simp: jlive_def)
qed

lemma jfree_rel:
  assumes "jok b cx" "jlive cx a = Some (rnd n)"
  obtains u where "jfree cx a n = Some (cx\<lparr>j_udata := u\<rparr>)" "ok u" "live u = (jlive cx)(a := None)"
proof -
  obtain aa x where x: "p_htc cx = Some (aa, x)" "pf_mem_free x = Some free" and k: "ok (j_udata cx)"
    using assms(1) by (auto simp: jok_def)
  obtain u where "free a n (j_udata cx) = Some u" "ok u" "live u = (live (j_udata cx))(a := None)"
    using free_live [OF k] assms(2) unfolding jlive_def by blast
  then show ?thesis using that x by (simp add: jfree_def jlive_def)
qed

text \<open>An array of pointers holds the elements \<open>es\<close> with their addresses, then at most \<open>INITIAL_SIZE\<close> NULLs.\<close>

definition slots_rel :: "'a json_context \<Rightarrow> 'e slots \<Rightarrow> (addr \<times> 'e) list \<Rightarrow> bool" where
  "slots_rel cx s es \<longleftrightarrow> (case s of Slots pp xs \<Rightarrow>
     (\<exists>m \<le> INITIAL_SIZE. xs = map Some es @ replicate m None) \<and> (pp = None \<longleftrightarrow> xs = []) \<and>
     (\<forall>a. pp = Some a \<longrightarrow> jlive cx a = Some (rnd (of_nat (length xs) * sizeof_pointer))))"

definition blk :: "'e slots \<Rightarrow> addr set" where "blk s = (case s of Slots pp xs \<Rightarrow> set_option pp)"

text \<open>Blocks in use stay in use, but for the array itself; \<open>s'\<close> is the array afterwards.\<close>

definition keeps :: "'a json_context \<Rightarrow> 'e slots \<Rightarrow> 'a json_context \<Rightarrow> 'e slots \<Rightarrow> bool" where
  "keeps cx s cx' s' \<longleftrightarrow> (\<forall>a z. jlive cx a = Some z \<longrightarrow> a \<notin> blk s \<longrightarrow> jlive cx' a = Some z \<and> a \<notin> blk s')"

lemma keeps_refl: "keeps cx s cx s"
  by (simp add: keeps_def)

lemma keeps_trans: "keeps cx s cx1 s1 \<Longrightarrow> keeps cx1 s1 cx2 s2 \<Longrightarrow> keeps cx s cx2 s2"
  by (fastforce simp: keeps_def)

lemma keeps_more: "jlive cx \<subseteq>\<^sub>m jlive cx' \<Longrightarrow> keeps cx s cx' s"
  by (auto simp: keeps_def map_le_def dom_def)

lemma keeps_live: "keeps cx (Slots None xs) cx' s \<Longrightarrow> jlive cx \<subseteq>\<^sub>m jlive cx'"
  by (auto simp: keeps_def map_le_def blk_def dom_def)

lemma slots_rel_empty: "slots_rel cx (Slots None []) []"
  by (simp add: slots_rel_def)

lemma slots_rel_more: "slots_rel cx s es \<Longrightarrow> jlive cx \<subseteq>\<^sub>m jlive cx' \<Longrightarrow> slots_rel cx' s es"
  by (auto simp: slots_rel_def map_le_def dom_def split: slots.splits)

lemma first_null_map: "first_null (map Some es @ replicate m None) = length es"
  by (induction es) (cases m; simp)+

lemma alloc_slots_rel:
  assumes "jok b cx" "slots_rel cx s es" "length (sl_items s) = length es" "length es < 2 ^ 28"
  obtains r s' u where "alloc_slots s cx = Some (r, s', cx\<lparr>j_udata := u\<rparr>)" "ok u" "slots_rel (cx\<lparr>j_udata := u\<rparr>) s' es"
    "keeps cx s (cx\<lparr>j_udata := u\<rparr>) s'" "if r = JSON_OK then length es < length (sl_items s') else s' = s \<and> \<not> granting"
proof -
  obtain pp where s: "s = Slots pp (map Some es)" "pp = None \<longleftrightarrow> es = []"
      "\<And>a. pp = Some a \<Longrightarrow> jlive cx a = Some (rnd (of_nat (length es) * sizeof_pointer))"
    using assms(2,3) by (cases s) (auto simp: slots_rel_def)
  define n where "n = (of_nat (length es + INITIAL_SIZE) * sizeof_pointer :: u32)"
  have "unat (of_nat (length es + INITIAL_SIZE) :: u32) = length es + 16"
    using assms(4) unfolding INITIAL_SIZE_def by (intro unat_of_nat_small) simp
  then have "unat n = (length es + 16) * 8" unfolding n_def unat_word_ariths(2) using assms(4) by (simp add: sizeof_pointer_def)
  then have n: "n \<noteq> 0" "n \<le> 0xFFFFF000" using assms(4) by (auto simp: word_le_nat_alt)
  obtain p u where p: "jalloc cx n = Some (p, cx\<lparr>j_udata := u\<rparr>)" "ok u"
      "case p of None \<Rightarrow> live u = jlive cx \<and> \<not> granting | Some a \<Rightarrow> jlive cx a = None \<and> live u = (jlive cx)(a \<mapsto> rnd n)"
    using jalloc_rel [OF assms(1) n] .
  show ?thesis
  proof (cases p)
    case None
    then have "alloc_slots s cx = Some (JSON_MEMORY_ERROR, s, cx\<lparr>j_udata := u\<rparr>)" using p(1) s(1) by (simp add: alloc_slots_def n_def)
    moreover have "jlive cx \<subseteq>\<^sub>m jlive (cx\<lparr>j_udata := u\<rparr>)" using p(3) None by (simp add: jlive_def map_le_def)
    ultimately show ?thesis
      using that [of JSON_MEMORY_ERROR s u] p(2,3) None slots_rel_more [OF assms(2)] keeps_more [of cx "cx\<lparr>j_udata := u\<rparr>" s] by simp
  next
    case (Some a)
    let ?cx1 = "cx\<lparr>j_udata := u\<rparr>" and ?s' = "Slots (Some a) (map Some es @ replicate INITIAL_SIZE None)"
    have l1: "jlive cx a = None" "jlive ?cx1 = (jlive cx)(a \<mapsto> rnd n)" using p(3) Some by (simp_all add: jlive_def)
    obtain u2 where u2: "(case pp of None \<Rightarrow> Some ?cx1 | Some old \<Rightarrow> jfree ?cx1 old (of_nat (length es) * sizeof_pointer)) = Some (cx\<lparr>j_udata := u2\<rparr>)"
        "ok u2" "\<And>c. c \<notin> set_option pp \<Longrightarrow> live u2 c = jlive ?cx1 c"
    proof (cases pp)
      case None
      then show ?thesis using that [of u] p(2) by (simp add: jlive_def)
    next
      case (Some old)
      have "jlive ?cx1 old = Some (rnd (of_nat (length es) * sizeof_pointer))" using s(3) Some l1 by auto
      from jfree_rel [OF jok_udata [OF assms(1) p(2)] this] obtain u2 where "jfree ?cx1 old (of_nat (length es) * sizeof_pointer) = Some (?cx1\<lparr>j_udata := u2\<rparr>)"
          "ok u2" "live u2 = (jlive ?cx1)(old := None)" .
      then show ?thesis using that [of u2] Some by simp
    qed
    have na: "a \<notin> set_option pp" using s(3) l1(1) by (cases pp) auto
    have "alloc_slots s cx = Some (JSON_OK, ?s', cx\<lparr>j_udata := u2\<rparr>)"
      using p(1) Some s(1) u2(1) by (cases pp) (simp_all add: alloc_slots_def n_def)
    moreover have "live u2 a = Some (rnd n)" using u2(3) [OF na] l1 by simp
    then have "slots_rel (cx\<lparr>j_udata := u2\<rparr>) ?s' es" by (auto simp: slots_rel_def jlive_def n_def INITIAL_SIZE_def)
    moreover have "keeps cx s (cx\<lparr>j_udata := u2\<rparr>) ?s'"
      using u2(3) l1 s(1) by (auto simp: keeps_def blk_def jlive_def)
    ultimately show ?thesis using that [of JSON_OK ?s' u2] u2(2) by (simp add: INITIAL_SIZE_def)
  qed
qed
text \<open>Adding an element.\<close>

lemma set_slot_new_rel:
  assumes "jok b cx" "slots_rel cx s es" "length es < length (sl_items s)" "sz \<noteq> 0" "sz \<le> 0xFFFFF000"
  obtains q s' u where "set_slot_new sz (length es) v s cx = Some (q, s', cx\<lparr>j_udata := u\<rparr>)" "ok u"
    "slots_rel (cx\<lparr>j_udata := u\<rparr>) s' (case q of None \<Rightarrow> es | Some a \<Rightarrow> es @ [(a, v)])" "keeps cx s (cx\<lparr>j_udata := u\<rparr>) s'"
    "q = None \<Longrightarrow> \<not> granting"
proof -
  obtain pp m where s: "s = Slots pp (map Some es @ replicate (Suc m) None)" "Suc m \<le> INITIAL_SIZE" "pp \<noteq> None"
      "\<And>a. pp = Some a \<Longrightarrow> jlive cx a = Some (rnd (of_nat (length es + Suc m) * sizeof_pointer))"
  proof (cases s)
    case (Slots pp xs)
    then obtain m where m: "m \<le> INITIAL_SIZE" "xs = map Some es @ replicate m None" using assms(2) by (auto simp: slots_rel_def)
    moreover have "m \<noteq> 0" using assms(3) Slots m(2) by auto
    then obtain m' where "m = Suc m'" using not0_implies_Suc by blast
    ultimately show ?thesis using that [of pp m'] assms(2) Slots by (auto simp: slots_rel_def)
  qed
  obtain p u where p: "jalloc cx sz = Some (p, cx\<lparr>j_udata := u\<rparr>)" "ok u"
      "case p of None \<Rightarrow> live u = jlive cx \<and> \<not> granting | Some a \<Rightarrow> jlive cx a = None \<and> live u = (jlive cx)(a \<mapsto> rnd sz)"
    using jalloc_rel [OF assms(1,4,5)] .
  have le: "jlive cx \<subseteq>\<^sub>m jlive (cx\<lparr>j_udata := u\<rparr>)" using p(3) by (cases p) (auto simp: jlive_def map_le_def)
  let ?s' = "Slots pp ((map Some es @ replicate (Suc m) None)[length es := map_option (\<lambda>a. (a, v)) p])"
  have up: "(map Some es @ replicate (Suc m) None)[length es := z] = map Some es @ z # replicate m None" for z
    by (simp add: list_update_append)
  have "set_slot_new sz (length es) v s cx = Some (p, ?s', cx\<lparr>j_udata := u\<rparr>)" using p(1) s(1) by (simp add: set_slot_new_def)
  moreover have "slots_rel (cx\<lparr>j_udata := u\<rparr>) ?s' (case p of None \<Rightarrow> es | Some a \<Rightarrow> es @ [(a, v)])"
  proof (cases p)
    case None
    then have "?s' = s" using s(1) up by simp
    then show ?thesis using None slots_rel_more [OF assms(2) le] by simp
  next
    case (Some a)
    then have "?s' = Slots pp (map Some (es @ [(a, v)]) @ replicate m None)" using up by simp
    moreover have "jlive (cx\<lparr>j_udata := u\<rparr>) c = Some (rnd (of_nat (length es + Suc m) * sizeof_pointer))" if "pp = Some c" for c
      using s(4) [OF that] le by (auto simp: map_le_def dom_def)
    ultimately show ?thesis using Some s(2,3) by (auto simp: slots_rel_def)
  qed
  moreover have "keeps cx s (cx\<lparr>j_udata := u\<rparr>) ?s'" using le s(1) by (auto simp: keeps_def blk_def map_le_def dom_def)
  moreover have "p = None \<Longrightarrow> \<not> granting" using p(3) by simp
  ultimately show ?thesis using that p(2) by blast
qed

lemma slots_rel_length: "slots_rel cx s es \<Longrightarrow> length es \<le> length (sl_items s)"
  by (auto simp: slots_rel_def split: slots.splits)

lemma first_null_rel: "slots_rel cx s es \<Longrightarrow> first_null (sl_items s) = length es"
  by (auto simp: slots_rel_def first_null_map split: slots.splits)

lemma add_slot_rel:
  assumes "jok b cx" "slots_rel cx s es" "length es < 2 ^ 28" "sz \<noteq> 0" "sz \<le> 0xFFFFF000"
  obtains q s' u where "add_slot alloc_slots sz s v cx = Some (q, s', cx\<lparr>j_udata := u\<rparr>)" "ok u"
    "slots_rel (cx\<lparr>j_udata := u\<rparr>) s' (case q of None \<Rightarrow> es | Some a \<Rightarrow> es @ [(a, v)])" "keeps cx s (cx\<lparr>j_udata := u\<rparr>) s'"
    "q = None \<Longrightarrow> \<not> granting"
proof (cases "length es < length (sl_items s)")
  case True
  from set_slot_new_rel [OF assms(1,2) True assms(4,5), of v] show ?thesis
    using that True first_null_rel [OF assms(2)] by (auto simp: add_slot_def Let_def)
next
  case False
  then have l: "length (sl_items s) = length es" using slots_rel_length [OF assms(2)] by simp
  obtain r s1 u1 where g: "alloc_slots s cx = Some (r, s1, cx\<lparr>j_udata := u1\<rparr>)" "ok u1" "slots_rel (cx\<lparr>j_udata := u1\<rparr>) s1 es"
      "keeps cx s (cx\<lparr>j_udata := u1\<rparr>) s1" "if r = JSON_OK then length es < length (sl_items s1) else s1 = s \<and> \<not> granting"
    using alloc_slots_rel [OF assms(1,2) l assms(3)] .
  show ?thesis
  proof (cases "r = JSON_OK")
    case True
    then have l1: "length es < length (sl_items s1)" using g(5) by simp
    obtain q s' u where a: "set_slot_new sz (length es) v s1 (cx\<lparr>j_udata := u1\<rparr>) = Some (q, s', cx\<lparr>j_udata := u\<rparr>)" "ok u"
        "slots_rel (cx\<lparr>j_udata := u\<rparr>) s' (case q of None \<Rightarrow> es | Some a \<Rightarrow> es @ [(a, v)])" "keeps (cx\<lparr>j_udata := u1\<rparr>) s1 (cx\<lparr>j_udata := u\<rparr>) s'"
        "q = None \<Longrightarrow> \<not> granting"
      using set_slot_new_rel [OF jok_udata [OF assms(1) g(2)] g(3) l1 assms(4,5), of v] by auto
    show ?thesis using that [of q s' u] a keeps_trans [OF g(4) a(4)] g(1) True l first_null_rel [OF assms(2)]
      by (simp add: add_slot_def Let_def)
  next
    case False
    then show ?thesis using that [of None s1 u1] g l first_null_rel [OF assms(2)] by (simp add: add_slot_def Let_def)
  qed
qed
section \<open>The parser returns\<close>

lemma jok_perr [simp]: "jok b (perr e cx) = jok b cx"
  by (simp add: jok_def perr_def utf8_doc_def)

lemma jlive_perr [simp]: "jlive (perr e cx) = jlive cx"
  by (simp add: jlive_def perr_def)

lemma slots_rel_perr [simp]: "slots_rel (perr e cx) s es = slots_rel cx s es"
  by (cases s) (simp add: slots_rel_def)

lemma keeps_perr [simp]: "keeps cx s (perr e cx') s' = keeps cx s cx' s'"
  by (simp add: keeps_def)

definition fr :: "u8 list \<Rightarrow> 'a json_context \<Rightarrow> 'a json_context \<Rightarrow> bool" where
  "fr b cx cx' \<longleftrightarrow> jok b cx' \<and> cpos cx \<le> cpos cx' \<and> jlive cx \<subseteq>\<^sub>m jlive cx'"

lemma fr_refl: "jok b cx \<Longrightarrow> fr b cx cx"
  by (simp add: fr_def)

lemma fr_trans: "fr b cx cx1 \<Longrightarrow> fr b cx1 cx2 \<Longrightarrow> fr b cx cx2"
  unfolding fr_def by (auto intro: map_le_trans)

lemma fr_perr [simp]: "fr b cx (perr e cx') = fr b cx cx'"
  by (simp add: fr_def)

lemma fr_ahead: "jok b cx \<Longrightarrow> ahead b cx cx' \<Longrightarrow> fr b cx cx'"
  using jok_ahead ahead_cpos by (auto simp: fr_def)

lemma fr_jok: "fr b cx cx' \<Longrightarrow> jok b cx'"
  by (simp add: fr_def)

text \<open>The same for a loop that adds to \<open>s\<close>, with no more elements than symbols read.\<close>

definition lfr :: "u8 list \<Rightarrow> 'a json_context \<Rightarrow> 'e slots \<Rightarrow> 'a json_context \<Rightarrow> 'e slots \<Rightarrow> bool" where
  "lfr b cx s cx' s' \<longleftrightarrow> jok b cx' \<and> cpos cx \<le> cpos cx' \<and> keeps cx s cx' s'"

lemma lfr_refl: "jok b cx \<Longrightarrow> lfr b cx s cx s"
  by (simp add: lfr_def keeps_refl)

lemma lfr_trans: "lfr b cx s cx1 s1 \<Longrightarrow> lfr b cx1 s1 cx2 s2 \<Longrightarrow> lfr b cx s cx2 s2"
  unfolding lfr_def using keeps_trans by fastforce

lemma lfr_fr: "fr b cx cx' \<Longrightarrow> lfr b cx s cx' s"
  by (simp add: fr_def lfr_def keeps_more)

lemma lfr_perr [simp]: "lfr b cx s (perr e cx') s' = lfr b cx s cx' s'"
  by (simp add: lfr_def)

lemma jread_fr:
  assumes "jok b cx"
  obtains c pos cx1 where "jread cx = Some (c, pos, cx1)" "fr b cx cx1" "jlive cx1 = jlive cx" "unat pos = cpos cx"
    "c \<noteq> 0 \<Longrightarrow> cpos cx < cpos cx1" "c \<noteq> 0 \<Longrightarrow> cpos cx < length b" "was_read b cx1 c pos"
  using jread_step2 [OF jok_doc [OF assms]] fr_ahead [OF assms] jok_ahead [OF assms] by metis

lemma jpos_ok: "jok b cx \<Longrightarrow> \<exists>p. jpos cx = Some p"
  using jpos_doc jok_doc by blast

definition vp_ok :: "u8 list \<Rightarrow> 'a value_parser \<Rightarrow> nat \<Rightarrow> bool" where
  "vp_ok b pv k \<longleftrightarrow> (\<forall>cx c pos. jok b cx \<longrightarrow> was_read b cx c pos \<longrightarrow> length b - cpos cx < k \<longrightarrow>
     (\<exists>r v c' cx'. pv cx c pos = Some (r, v, c', cx') \<and> fr b cx cx'))"

lemma vp_okD:
  assumes "vp_ok b pv k" "jok b cx" "was_read b cx c pos" "length b - cpos cx < k"
  obtains r v c' cx' where "pv cx c pos = Some (r, v, c', cx')" "fr b cx cx'"
  using assms unfolding vp_ok_def by blast

lemma slots_rel_fr: "fr b cx cx' \<Longrightarrow> slots_rel cx s es \<Longrightarrow> slots_rel cx' s es"
  using slots_rel_more by (auto simp: fr_def)

text \<open>Adding a value read before.\<close>

lemma add_value_step:
  assumes "jok b cx" "slots_rel cx s es" "length es < cpos cx" "length b < 2 ^ 28" "sz = sizeof_json_value \<or> sz = sizeof_json_pair"
  obtains q s' es' cx' where "add_slot alloc_slots sz s v cx = Some (q, s', cx')" "lfr b cx s cx' s'" "slots_rel cx' s' es'"
    "length es' \<le> cpos cx'" "cpos cx' = cpos cx" "q \<noteq> None \<Longrightarrow> \<exists>a. es' = es @ [(a, v)]" "p_htc cx' = p_htc cx"
    "q = None \<Longrightarrow> \<not> granting"
proof -
  have "cpos cx \<le> length b" using cpos_le [OF jok_doc [OF assms(1)]] .
  then have l: "length es < 2 ^ 28" using assms(3,4) by simp
  have z: "sz \<noteq> 0" "sz \<le> 0xFFFFF000" using assms(5) by (auto simp: sizeof_json_value_def sizeof_json_pair_def)
  obtain q s' u where a: "add_slot alloc_slots sz s v cx = Some (q, s', cx\<lparr>j_udata := u\<rparr>)" "ok u"
      "slots_rel (cx\<lparr>j_udata := u\<rparr>) s' (case q of None \<Rightarrow> es | Some a \<Rightarrow> es @ [(a, v)])" "keeps cx s (cx\<lparr>j_udata := u\<rparr>) s'" "q = None \<Longrightarrow> \<not> granting"
    by (rule add_slot_rel [OF assms(1,2) l z]) blast
  show ?thesis
    by (rule that [OF a(1) _ a(3)]) (use a assms(1,3) jok_udata in \<open>auto simp: lfr_def split: option.splits\<close>)
qed

lemma array_loop_returns:
  "jok b cx \<Longrightarrow> vp_ok b pv k \<Longrightarrow> length b - cpos cx \<le> k \<Longrightarrow> slots_rel cx a es \<Longrightarrow> length es \<le> cpos cx \<Longrightarrow>
     length b < 2 ^ 28 \<Longrightarrow> length b - cpos cx < n \<Longrightarrow>
     \<exists>r a' c' cx'. array_loop pv n cx a = Some (r, a', c', cx') \<and> lfr b cx a cx' a'"
proof (induction n arbitrary: cx a es)
  case (Suc n)
  obtain c pos cx1 where r: "jread cx = Some (c, pos, cx1)" "fr b cx cx1" "jlive cx1 = jlive cx" "unat pos = cpos cx"
      "c \<noteq> 0 \<Longrightarrow> cpos cx < cpos cx1" "c \<noteq> 0 \<Longrightarrow> cpos cx < length b" "was_read b cx1 c pos"
    by (rule jread_fr [OF Suc.prems(1)]) blast
  show ?case
  proof (cases "c = 0")
    case True
    then show ?thesis using r lfr_fr by auto
  next
    case False
    have rest: "length b - cpos cx1 < k" "length b - cpos cx1 < n" using r(5,6) [OF False] Suc.prems(3,7) by linarith+
    obtain e v c2 cx2 where v: "pv cx1 c pos = Some (e, v, c2, cx2)" "fr b cx1 cx2"
      using vp_okD [OF Suc.prems(2) fr_jok [OF r(2)] r(7) rest(1)] .
    have f2: "fr b cx cx2" by (rule fr_trans [OF r(2) v(2)])
    then have j2: "jok b cx2" and c2: "cpos cx < cpos cx2" "length b - cpos cx2 \<le> k" "length b - cpos cx2 < n"
      using v(2) r(5) [OF False] rest by (auto simp: fr_def)
    have s2: "slots_rel cx2 a es" by (rule slots_rel_fr [OF f2 Suc.prems(4)])
    obtain p where p: "jpos cx2 = Some p" using jpos_ok [OF j2] by blast
    have again: "\<exists>r a' c' cx'. array_loop pv n cx2 a = Some (r, a', c', cx') \<and> lfr b cx a cx' a'"
    proof -
      have "length es \<le> cpos cx2" using c2(1) Suc.prems(5) by simp
      from Suc.IH [OF j2 Suc.prems(2) c2(2) s2 this Suc.prems(6) c2(3)]
      obtain r a' c' cx' where i: "array_loop pv n cx2 a = Some (r, a', c', cx')" "lfr b cx2 a cx' a'" by blast
      show ?thesis using i(1) lfr_trans [OF lfr_fr [OF f2] i(2)] by blast
    qed
    have l2: "length es < cpos cx2" using c2(1) Suc.prems(5) by simp
    obtain q a3 es3 cx3 where d: "add_slot alloc_slots sizeof_json_value a v cx2 = Some (q, a3, cx3)" "lfr b cx2 a cx3 a3"
        "slots_rel cx3 a3 es3" "length es3 \<le> cpos cx3" "cpos cx3 = cpos cx2" "q \<noteq> None \<Longrightarrow> \<exists>a. es3 = es @ [(a, v)]" "p_htc cx3 = p_htc cx2"
      by (rule add_value_step [OF j2 s2 l2 Suc.prems(6) disjI1 [OF refl], of v]) blast
    have f3: "lfr b cx a cx3 a3" by (rule lfr_trans [OF lfr_fr [OF f2] d(2)])
    have "\<exists>r a' c' cx'. array_loop pv n cx3 a3 = Some (r, a', c', cx') \<and> lfr b cx a cx' a'"
    proof -
      have "jok b cx3" "length b - cpos cx3 \<le> k" "length b - cpos cx3 < n" using d(2,5) c2 by (simp_all add: lfr_def)
      from Suc.IH [OF this(1) Suc.prems(2) this(2) d(3,4) Suc.prems(6) this(3)]
      obtain r a' c' cx' where i: "array_loop pv n cx3 a3 = Some (r, a', c', cx')" "lfr b cx3 a3 cx' a'" by blast
      show ?thesis using i(1) lfr_trans [OF f3 i(2)] by blast
    qed
    moreover have "add_array_value a v cx2 = Some (q, a3, cx3)"
      using d(1) by (simp add: add_array_value_def alloc_array_values_def [abs_def])
    ultimately show ?thesis using False r(1) v(1) p again f3 lfr_fr [OF f2, of a] by auto
  qed
qed simp
text \<open>\<open>m\<close> returns, having added to the object \<open>ob\<close>.\<close>

definition oret :: "u8 list \<Rightarrow> 'a json_context \<Rightarrow> json_object \<Rightarrow> 'a object_result \<Rightarrow> bool" where
  "oret b cx ob m \<longleftrightarrow> (\<exists>r ob' c' cx'. m = Some (r, ob', c', cx') \<and> lfr b cx ob cx' ob')"

lemma oret_Some [simp]: "oret b cx ob (Some (r, ob', c', cx')) = lfr b cx ob cx' ob'"
  by (auto simp: oret_def)

lemma oret_trans: "lfr b cx ob cx1 ob1 \<Longrightarrow> oret b cx1 ob1 m \<Longrightarrow> oret b cx ob m"
  unfolding oret_def using lfr_trans by blast

lemma pair_value_returns:
  assumes j: "jok b cx" and pv: "vp_ok b pv k" and rest: "length b - cpos cx < k" and s: "slots_rel cx ob es"
    and l: "length es < cpos cx" and sz: "length b < 2 ^ 28"
    and kk: "\<And>cx1 ob1 es1 nm vl name. jok b cx1 \<Longrightarrow> cpos cx \<le> cpos cx1 \<Longrightarrow> slots_rel cx1 ob1 es1 \<Longrightarrow> length es1 \<le> cpos cx1 \<Longrightarrow>
      oret b cx1 ob1 (kk cx1 ob1 nm vl name)"
  shows "oret b cx ob (pair_value pv kk cx ob name)"
proof -
  obtain c pos cx1 where r: "jread cx = Some (c, pos, cx1)" "fr b cx cx1" "jlive cx1 = jlive cx" "unat pos = cpos cx"
      "c \<noteq> 0 \<Longrightarrow> cpos cx < cpos cx1" "c \<noteq> 0 \<Longrightarrow> cpos cx < length b" "was_read b cx1 c pos"
    by (rule jread_fr [OF j]) blast
  have rest1: "length b - cpos cx1 < k" using r(2) rest unfolding fr_def by linarith
  obtain e v c2 cx2 where v: "pv cx1 c pos = Some (e, v, c2, cx2)" "fr b cx1 cx2"
    using vp_okD [OF pv fr_jok [OF r(2)] r(7) rest1] .
  have f2: "fr b cx cx2" by (rule fr_trans [OF r(2) v(2)])
  then have j2: "jok b cx2" and le2: "cpos cx \<le> cpos cx2" by (simp_all add: fr_def)
  have s2: "slots_rel cx2 ob es" by (rule slots_rel_fr [OF f2 s])
  obtain p where p: "jpos cx2 = Some p" using jpos_ok [OF j2] by blast
  have l2: "length es < cpos cx2" using le2 l by simp
  have again: "oret b cx ob (kk cx2 ob False False js_zero)"
    by (rule oret_trans [OF lfr_fr [OF f2] kk [OF j2 le2 s2]]) (use l2 in simp)
  obtain q ob3 es3 cx3 where d: "add_slot alloc_slots sizeof_json_pair ob (name, v) cx2 = Some (q, ob3, cx3)" "lfr b cx2 ob cx3 ob3"
      "slots_rel cx3 ob3 es3" "length es3 \<le> cpos cx3" "cpos cx3 = cpos cx2" "q \<noteq> None \<Longrightarrow> \<exists>a. es3 = es @ [(a, name, v)]" "p_htc cx3 = p_htc cx2"
    by (rule add_value_step [OF j2 s2 l2 sz disjI2 [OF refl], of "(name, v)"]) blast
  have f3: "lfr b cx ob cx3 ob3" by (rule lfr_trans [OF lfr_fr [OF f2] d(2)])
  have "oret b cx ob (kk cx3 ob3 nm vl js_zero)" for nm vl
    by (rule oret_trans [OF f3 kk [OF _ _ d(3,4)]]) (use d(2,5) le2 in \<open>auto simp: lfr_def\<close>)
  moreover have "add_object_pair ob (name, v) cx2 = Some (q, ob3, cx3)"
    using d(1) by (simp add: add_object_pair_def alloc_object_pairs_def [abs_def])
  ultimately show ?thesis using r(1) v(1) p again f3 lfr_fr [OF f2, of ob] by (auto simp: pair_value_def)
qed

lemma object_loop_returns:
  "jok b cx \<Longrightarrow> vp_ok b pv k \<Longrightarrow> length b - cpos cx \<le> k \<Longrightarrow> slots_rel cx ob es \<Longrightarrow> length es \<le> cpos cx \<Longrightarrow>
     length b < 2 ^ 28 \<Longrightarrow> length b - cpos cx < n \<Longrightarrow> oret b cx ob (object_loop pv n cx ob nm vl name)"
proof (induction n arbitrary: cx ob es nm vl name)
  case (Suc n)
  obtain c pos cx1 where r: "jread cx = Some (c, pos, cx1)" "fr b cx cx1" "jlive cx1 = jlive cx" "unat pos = cpos cx"
      "c \<noteq> 0 \<Longrightarrow> cpos cx < cpos cx1" "c \<noteq> 0 \<Longrightarrow> cpos cx < length b" "was_read b cx1 c pos"
    by (rule jread_fr [OF Suc.prems(1)]) blast
  show ?case
  proof (cases "c = 0")
    case True
    then show ?thesis using r lfr_fr by auto
  next
    case False
    have f1: "lfr b cx ob cx1 ob" by (rule lfr_fr [OF r(2)])
    have again: "oret b cx ob (object_loop pv n cx2 ob2 nm vl name)"
      if "lfr b cx1 ob cx2 ob2" "slots_rel cx2 ob2 es2" "length es2 \<le> cpos cx2" for cx2 ob2 es2 nm vl name
    proof -
      have "jok b cx2" "length b - cpos cx2 \<le> k" "length b - cpos cx2 < n"
        using that(1) r(5,6) [OF False] Suc.prems(3,7) by (auto simp: lfr_def)
      from Suc.IH [OF this(1) Suc.prems(2) this(2) that(2,3) Suc.prems(6) this(3)]
      show ?thesis using oret_trans [OF lfr_trans [OF f1 that(1)]] by blast
    qed
    have pair: "oret b cx ob (pair_value pv (object_loop pv n) cx2 ob name)" if f: "fr b cx1 cx2" for cx2 name
    proof -
      have c2: "jok b cx2" "length b - cpos cx2 < k" "length es < cpos cx2"
        using f r(5,6) [OF False] Suc.prems(3,5) by (auto simp: fr_def)
      have s2: "slots_rel cx2 ob es" by (rule slots_rel_fr [OF fr_trans [OF r(2) f] Suc.prems(4)])
      have n2: "length b - cpos cx2 < n" using f r(5,6) [OF False] Suc.prems(7) by (simp add: fr_def) linarith
      have "oret b cx2 ob (pair_value pv (object_loop pv n) cx2 ob name)"
      proof (rule pair_value_returns [OF c2(1) Suc.prems(2) c2(2) s2 c2(3) Suc.prems(6)])
        fix cx3 and ob3 :: json_object and es3 nm vl name
        assume a: "jok b cx3" "cpos cx2 \<le> cpos cx3" "slots_rel cx3 ob3 es3" "length es3 \<le> cpos cx3"
        have "length b - cpos cx3 \<le> k" "length b - cpos cx3 < n" using a(2) c2(2) n2 by linarith+
        from Suc.IH [OF a(1) Suc.prems(2) this(1) a(3,4) Suc.prems(6) this(2)]
        show "oret b cx3 ob3 (object_loop pv n cx3 ob3 nm vl name)" .
      qed
      then show ?thesis by (rule oret_trans [OF lfr_trans [OF f1 lfr_fr [OF f]]])
    qed
    have j1: "jok b cx1" by (rule fr_jok [OF r(2)])
    have n1: "length b - cpos cx1 < n" using r(5,6) [OF False] Suc.prems(7) by linarith
    obtain e nm' c2 cx2 where st: "parse_string_name n cx1 name c pos = Some (e, nm', c2, cx2)" "fr b cx1 cx2"
      using parse_string_name_returns [OF jok_doc [OF j1] n1, of name c pos] fr_ahead [OF j1] by (auto simp: returns_def)
    have l1: "length es \<le> cpos cx1" using r(2) Suc.prems(5) by (simp add: fr_def)
    have l2: "length es \<le> cpos cx2" using st(2) l1 by (simp add: fr_def)
    have g1: "oret b cx ob (object_loop pv n cx1 ob nm vl name)" for nm vl name
      by (rule again [OF lfr_refl [OF j1] slots_rel_fr [OF r(2) Suc.prems(4)] l1])
    have g2: "oret b cx ob (object_loop pv n cx2 ob nm vl name)" for nm vl name
      by (rule again [OF lfr_fr [OF st(2)] slots_rel_fr [OF fr_trans [OF r(2) st(2)] Suc.prems(4)] l2])
    have f2: "lfr b cx ob cx2 ob" by (rule lfr_trans [OF f1 lfr_fr [OF st(2)]])
    show ?thesis using False r(1) st(1) g1 g2 f1 f2 pair [OF fr_refl [OF j1]] pair [OF st(2)] by simp
  qed
qed simp
text \<open>One more than the fuel of a step is enough for the value, as the step has read a symbol.\<close>

lemma vp_ok_mono: "vp_ok b pv k \<Longrightarrow> j \<le> k \<Longrightarrow> vp_ok b pv j"
  by (fastforce simp: vp_ok_def)

lemma parse_value_returns: "length b < 2 ^ 28 \<Longrightarrow> k + 2 \<le> n \<Longrightarrow> vp_ok b (parse_value n) k"
proof (induction n arbitrary: k)
  case (Suc n)
  show ?case
    unfolding vp_ok_def
  proof (intro allI impI)
    fix cx c pos assume j: "jok b cx" and w: "was_read b cx c pos" and k: "length b - cpos cx < k"
    let ?k = "length b - cpos cx"
    note d = jok_doc [OF j]
    have n: "?k < n" "?k + 1 < n" using k Suc.prems(2) by linarith+
    have e: "slots_rel cx (Slots None []) []" by (rule slots_rel_empty)
    have string: "\<exists>r v c' cx'. parse_string_value n cx js_zero c = Some (r, v, c', cx') \<and> fr b cx cx'"
      using parse_string_value_returns [OF d n(1), of js_zero c] fr_ahead [OF j] by (auto simp: returns_def)
    have number: "\<exists>r v c' cx'. parse_number n cx js_zero c pos = Some (r, v, c', cx') \<and> fr b cx cx'"
      using parse_number_returns [OF d n(1), of js_zero c pos] fr_ahead [OF j] by (auto simp: returns_def)
    have const: "\<exists>r v c' cx'. parse_const n cx JSON_NONE c pos = Some (r, v, c', cx') \<and> fr b cx cx'"
      using parse_const_returns [OF d w n(2), of JSON_NONE] Suc.prems(1) fr_ahead [OF j] by (auto simp: returns_def)
    obtain p where p: "jpos cx = Some p" using jpos_ok [OF j] by blast
    have pv: "vp_ok b (parse_value n) ?k" using Suc.IH [OF Suc.prems(1)] k Suc.prems(2) by simp
    have array: "\<exists>r v c' cx'. parse_array (parse_value n) n cx (Slots None []) c = Some (r, v, c', cx') \<and> fr b cx cx'"
    proof (cases "c = LBRACKET")
      case True
      from array_loop_returns [OF j pv order_refl e _ Suc.prems(1) n(1)]
      obtain r a' c' cx' where "array_loop (parse_value n) n cx (Slots None []) = Some (r, a', c', cx')" "lfr b cx (Slots None []) cx' a'"
        by auto
      then show ?thesis using True p keeps_live by (auto simp: parse_array_def lfr_def fr_def)
    qed (use p fr_refl [OF j] in \<open>simp add: parse_array_def\<close>)
    have object: "\<exists>r v c' cx'. parse_object (parse_value n) n cx (Slots None []) c = Some (r, v, c', cx') \<and> fr b cx cx'"
    proof (cases "c = LBRACE")
      case True
      from object_loop_returns [OF j pv order_refl e _ Suc.prems(1) n(1), of False False js_zero]
      obtain r a' c' cx' where "object_loop (parse_value n) n cx (Slots None []) False False js_zero = Some (r, a', c', cx')"
          "lfr b cx (Slots None []) cx' a'"
        by (auto simp: oret_def)
      then show ?thesis using True p keeps_live by (auto simp: parse_object_def lfr_def fr_def)
    qed (use p fr_refl [OF j] in \<open>simp add: parse_object_def\<close>)
    obtain c1 pos1 cx1 where r: "jread cx = Some (c1, pos1, cx1)" "fr b cx cx1" "jlive cx1 = jlive cx" "unat pos1 = cpos cx"
        "c1 \<noteq> 0 \<Longrightarrow> cpos cx < cpos cx1" "c1 \<noteq> 0 \<Longrightarrow> cpos cx < length b" "was_read b cx1 c1 pos1"
      by (rule jread_fr [OF j]) blast
    have skip: "\<exists>r v c' cx'. (if c1 \<noteq> 0 then parse_value n cx1 c1 pos1 else Some (JSON_OK, JSON_NONE, c1, cx1)) = Some (r, v, c', cx') \<and> fr b cx cx'"
    proof (cases "c1 = 0")
      case False
      then have "length b - cpos cx1 < ?k" using r(5,6) by linarith
      from vp_okD [OF pv fr_jok [OF r(2)] r(7) this] obtain r' v c' cx' where "parse_value n cx1 c1 pos1 = Some (r', v, c', cx')" "fr b cx1 cx'" .
      then show ?thesis using False fr_trans [OF r(2)] by auto
    qed (use r(2) in simp)
    show "\<exists>r v c' cx'. parse_value (Suc n) cx c pos = Some (r, v, c', cx') \<and> fr b cx cx'"
      using string number const array object skip r(1) fr_refl [OF j] by auto
  qed
qed simp
text \<open>The whole parser, on a context that holds no values yet.\<close>

definition fresh :: "'a json_context \<Rightarrow> bool" where
  "fresh cx \<longleftrightarrow> root cx = Slots None [] \<and> ok (j_udata cx) \<and>
     (\<exists>a x. p_htc cx = Some (a, x) \<and> pf_mem_alloc x = Some alloc \<and> pf_mem_free x = Some free)"

definition start_of :: "u8 list \<Rightarrow> nat" where
  "start_of b = (if 4 < length b \<and> take 3 b = [0xef, 0xbb, 0xbf] then 3 else 0)"

lemma json_init:
  assumes "fresh cx" "unat sz = length b" "utf8_text b"
  obtains cx0 where "\<And>n. json_parse n cx (Some b) sz = do {
      (r, ob, c, cx') \<leftarrow> parse_object (parse_value n) n cx0 (Slots None []) LBRACE; Some (r, cx'\<lparr>root := ob\<rparr>) }"
    "jok b cx0" "cpos cx0 = start_of b" "j_udata cx0 = j_udata cx"
proof -
  obtain a x where x: "p_htc cx = Some (a, x)" "pf_mem_alloc x = Some alloc" "pf_mem_free x = Some free" "root cx = Slots None []" "ok (j_udata cx)"
    using assms(1) by (auto simp: fresh_def)
  obtain x1 where x1: "ht_init_context (ht_reset_context x) (Some b) sz = Some x1" "pf_mem_alloc x1 = Some alloc" "pf_mem_free x1 = Some free"
      "pf_read x1 = Some read_utf8" "utf8_content b (ht_content x1)" "unat (c_pos (ht_content x1)) = start_of b"
    using utf8_init [OF assms(2,3), of x] x(2,3) by (auto simp: start_of_def)
  let ?cx0 = "cx\<lparr>p_htc := Some (a, x1)\<rparr>"
  show ?thesis
  proof (rule that [of ?cx0])
    show "json_parse n cx (Some b) sz = do {
      (r, ob, c, cx') \<leftarrow> parse_object (parse_value n) n ?cx0 (Slots None []) LBRACE; Some (r, cx'\<lparr>root := ob\<rparr>) }" for n
      using x x1(1) by (simp add: json_parse_def json_reset_context_def destroy_object_def)
    show "jok b ?cx0" using x x1 by (simp add: jok_def utf8_doc_def)
  qed (use x1 in \<open>simp_all add: cpos_def hc_def\<close>)
qed

lemma jok_root: "jok b (cx\<lparr>root := ob\<rparr>) = jok b cx"
  by (simp add: jok_def utf8_doc_def)

lemma json_parse_rel:
  assumes "fresh cx" "unat sz = length b" "utf8_text b" "length b < 2 ^ 28" "length b + 2 \<le> n"
  obtains r cx' where "json_parse n cx (Some b) sz = Some (r, cx')" "jok b cx'" "jlive cx \<subseteq>\<^sub>m jlive cx'"
proof -
  obtain cx0 where 0: "\<And>n. json_parse n cx (Some b) sz = do {
      (r, ob, c, cx') \<leftarrow> parse_object (parse_value n) n cx0 (Slots None []) LBRACE; Some (r, cx'\<lparr>root := ob\<rparr>) }"
      "jok b cx0" "j_udata cx0 = j_udata cx"
    using json_init [OF assms(1-3)] by metis
  have pv: "vp_ok b (parse_value n) (length b)" by (rule parse_value_returns [OF assms(4,5)])
  have l: "length b - cpos cx0 \<le> length b" "length b - cpos cx0 < n" using assms(5) by simp_all
  obtain p where p: "jpos cx0 = Some p" using jpos_ok [OF 0(2)] by blast
  obtain r ob c cx' where o: "object_loop (parse_value n) n cx0 (Slots None []) False False js_zero = Some (r, ob, c, cx')"
      "lfr b cx0 (Slots None [] :: json_object) cx' ob"
    using object_loop_returns [OF 0(2) pv l(1) slots_rel_empty _ assms(4) l(2), of False False js_zero] by (auto simp: oret_def)
  have "json_parse n cx (Some b) sz = Some (r, cx'\<lparr>root := ob\<rparr>)" using 0(1) o(1) p by (simp add: parse_object_def)
  moreover have "jok b (cx'\<lparr>root := ob\<rparr>)" using o(2) by (simp add: lfr_def jok_root)
  moreover have "jlive cx \<subseteq>\<^sub>m jlive (cx'\<lparr>root := ob\<rparr>)"     using keeps_live [of cx0 "[]" cx' ob] o(2) 0(3) by (simp add: lfr_def jlive_def)
  ultimately show ?thesis by (rule that)
qed

end

end
