(* ===== verification/JsonText.thy ===== *)
theory JsonText
  imports JsonSpec
begin

text \<open>
  What the JSON parser makes of printed values: an abstract syntax of JSON with its printer, the relation
  between it and the values in memory, and the proof that parsing a printed object gives a representation
  of it; the selection of values by paths; the interpretation for the heap of \<open>cJSON\<close>; the properties.
\<close>

section \<open>Abstract values and their text\<close>

datatype json =
    JString "u8 list"
  | JNumber "u8 list"
  | JObject "(u8 list \<times> json) list"
  | JArray "json list"
  | JTrue
  | JFalse
  | JNull

fun commas :: "u8 list list \<Rightarrow> u8 list" where
  "commas [] = []"
| "commas [x] = x"
| "commas (x # y # xs) = x @ [0x2C] @ commas (y # xs)"

definition pair_text :: "u8 list \<Rightarrow> u8 list \<Rightarrow> u8 list" where
  "pair_text nm v = [0x22] @ nm @ [0x22, 0x3A] @ v"

primrec json_text :: "json \<Rightarrow> u8 list" where
  "json_text (JString t) = [0x22] @ t @ [0x22]"
| "json_text (JNumber t) = t"
| "json_text (JObject ps) = [0x7B] @ commas (map (\<lambda>(nm, v). pair_text nm v) (map (map_prod id json_text) ps)) @ [0x7D]"
| "json_text (JArray es) = [0x5B] @ commas (map json_text es) @ [0x5D]"
| "json_text JTrue = [0x74, 0x72, 0x75, 0x65]"
| "json_text JFalse = [0x66, 0x61, 0x6C, 0x73, 0x65]"
| "json_text JNull = [0x6E, 0x75, 0x6C, 0x6C]"

text \<open>Strings without quotes and escapes, names, and decimal numbers.\<close>

definition plain :: "u8 \<Rightarrow> bool" where "plain y \<longleftrightarrow> y \<noteq> 0 \<and> y < 0x80 \<and> y \<noteq> 0x22 \<and> y \<noteq> 0x5C"

definition cdigit :: "u8 \<Rightarrow> bool" where "cdigit y \<longleftrightarrow> 0x30 \<le> y \<and> y \<le> 0x39"

definition name_char :: "u8 \<Rightarrow> bool" where
  "name_char y \<longleftrightarrow> 0x41 \<le> y \<and> y \<le> 0x5A \<or> small y \<or> y = 0x2D \<or> y = 0x5F"

definition name_ok :: "u8 list \<Rightarrow> bool" where
  "name_ok t \<longleftrightarrow> (\<forall>y \<in> set t. name_char y \<or> cdigit y) \<and> (t \<noteq> [] \<longrightarrow> name_char (hd t))"

definition number_ok :: "u8 list \<Rightarrow> bool" where
  "number_ok t \<longleftrightarrow> (let ds = (if t \<noteq> [] \<and> (hd t = 0x2D \<or> hd t = 0x2B) then tl t else t) in
     ds \<noteq> [] \<and> cdigit (hd ds) \<and> (\<forall>y \<in> set ds. cdigit y \<or> y = 0x2E))"

definition is_array :: "json \<Rightarrow> bool" where "is_array v \<longleftrightarrow> (case v of JArray _ \<Rightarrow> True | _ \<Rightarrow> False)"

primrec json_ok :: "json \<Rightarrow> bool" where
  "json_ok (JString t) = (\<forall>y \<in> set t. plain y)"
| "json_ok (JNumber t) = number_ok t"
| "json_ok (JObject ps) = list_all (\<lambda>(nm, r). name_ok nm \<and> r) (map (map_prod id json_ok) ps)"
| "json_ok (JArray es) = (list_all id (map json_ok es) \<and> (\<forall>e \<in> set es. \<not> is_array e))"
| "json_ok JTrue = True"
| "json_ok JFalse = True"
| "json_ok JNull = True"

text \<open>The values in memory that represent an abstract one: strings are pieces of the document.\<close>

definition str_rep :: "u8 list \<Rightarrow> json_string \<Rightarrow> u8 list \<Rightarrow> bool" where
  "str_rep b s t \<longleftrightarrow> js_size s = of_nat (length t) \<and>
     (\<exists>p. js_data s = Some (Doc p) \<and> p + length t < length b \<and> take (length t) (drop p b) = t)"

definition elems :: "'e slots \<Rightarrow> 'e list" where
  "elems s = map (\<lambda>x. snd (the x)) (filter (\<lambda>x. x \<noteq> None) (sl_items s))"

inductive reps :: "u8 list \<Rightarrow> json_value \<Rightarrow> json \<Rightarrow> bool" for b where
  rep_string: "str_rep b s t \<Longrightarrow> reps b (JSON_STRING s) (JString t)"
| rep_number: "str_rep b s t \<Longrightarrow> reps b (JSON_NUMBER s) (JNumber t)"
| rep_object: "list_all2 (\<lambda>x y. str_rep b (fst x) (fst y) \<and> reps b (snd x) (snd y)) (elems ob) ps \<Longrightarrow> reps b (JSON_OBJECT ob) (JObject ps)"
| rep_array: "list_all2 (reps b) (elems a) es \<Longrightarrow> reps b (JSON_ARRAY a) (JArray es)"
| rep_true: "reps b JSON_TRUE JTrue"
| rep_false: "reps b JSON_FALSE JFalse"
| rep_null: "reps b JSON_NULL JNull"

section \<open>Reading pieces of text\<close>

text \<open>The context has moved on, and \<open>ys\<close> is left to read.\<close>

definition at_text :: "u8 list \<Rightarrow> 'u json_context \<Rightarrow> 'u json_context \<Rightarrow> u8 list \<Rightarrow> bool" where
  "at_text b cx cx' ys \<longleftrightarrow> ahead b cx cx' \<and> txt_of b cx' = ys"

lemma at_text_trans: "at_text b cx cx1 xs \<Longrightarrow> at_text b cx1 cx2 ys \<Longrightarrow> at_text b cx cx2 ys"
  using ahead_trans by (auto simp: at_text_def)

lemma txt_pos: "utf8_doc b cx \<Longrightarrow> txt_of b cx = xs @ ys \<Longrightarrow> cpos cx + length xs + length ys = length b"
proof -
  assume a: "utf8_doc b cx" "txt_of b cx = xs @ ys"
  have "length (drop (cpos cx) b) = length xs + length ys" using a(2) unfolding txt_of_def by (metis length_append)
  then show ?thesis using cpos_le [OF a(1)] by simp
qed

lemma read_one:
  assumes "utf8_doc b cx" "txt_of b cx = y # ys" "y < 0xC0"
  obtains pos cx1 where "jread cx = Some (ucast y, pos, cx1)" "at_text b cx cx1 ys" "utf8_doc b cx1" "txt_of b cx1 = ys"
    "unat pos = cpos cx" "cpos cx1 = Suc (cpos cx)"
proof -
  obtain pos p' where r: "jread cx = Some (ucast y, pos, set_pos p' cx)" "unat pos = cpos cx" "utf8_doc b (set_pos p' cx)"
      "cpos (set_pos p' cx) = Suc (cpos cx)" "txt_of b (set_pos p' cx) = ys"
    using jread_byte [OF assms] by blast
  have "at_text b cx (set_pos p' cx) ys" using r(3-5) ahead_set_pos [OF r(3)] by (simp add: at_text_def)
  then show ?thesis using that r by blast
qed

lemma ucast_eq_iff: "(ucast (y :: u8) :: u32) = ucast z \<longleftrightarrow> y = z"
  using ucast_inj [of y z] by auto

lemma ucast_num: "(ucast (y :: u8) :: u32) = 0x22 \<longleftrightarrow> y = 0x22" "(ucast y :: u32) = 0x27 \<longleftrightarrow> y = 0x27"
  "(ucast y :: u32) = 0x5C \<longleftrightarrow> y = 0x5C" "(ucast y :: u32) = 0 \<longleftrightarrow> y = 0" "(ucast y :: u32) = 0x2D \<longleftrightarrow> y = 0x2D"
  "(ucast y :: u32) = 0x5F \<longleftrightarrow> y = 0x5F" "(ucast y :: u32) = 0x2E \<longleftrightarrow> y = 0x2E" "(ucast y :: u32) = 0x2B \<longleftrightarrow> y = 0x2B"
  "(ucast y :: u32) = 0x2C \<longleftrightarrow> y = 0x2C" "(ucast y :: u32) = 0x5D \<longleftrightarrow> y = 0x5D" "(ucast y :: u32) = 0x7D \<longleftrightarrow> y = 0x7D"
  "(ucast y :: u32) = 0x30 \<longleftrightarrow> y = 0x30" "(ucast y :: u32) = 0x78 \<longleftrightarrow> y = 0x78" "(ucast y :: u32) = 0x58 \<longleftrightarrow> y = 0x58"
  "(ucast y :: u32) = 0x5B \<longleftrightarrow> y = 0x5B" "(ucast y :: u32) = 0x7B \<longleftrightarrow> y = 0x7B"
  by (simp_all add: word_unat_eq_iff unat_ucast_u8)

lemma digit_ucast: "digit (ucast y) = cdigit y"
  by (simp add: digit_def cdigit_def word_le_nat_alt unat_ucast_u8)

lemma string_loop_plain:
  "utf8_doc b cx \<Longrightarrow> txt_of b cx = t @ 0x22 # ys \<Longrightarrow> \<forall>y \<in> set t. plain y \<Longrightarrow> length t < n \<Longrightarrow> prev \<noteq> BACKSLASH \<Longrightarrow>
     \<exists>pos' cx'. string_loop n cx QUOTE prev pos = Some (QUOTE, pos', cx') \<and> unat pos' = cpos cx + length t \<and> at_text b cx cx' ys"
proof (induction t arbitrary: cx prev pos n)
  case Nil
  then obtain n' where n: "n = Suc n'" by (cases n) auto
  have x: "txt_of b cx = 0x22 # ys" using Nil.prems(2) by simp
  obtain pos1 cx1 where r: "jread cx = Some (ucast (0x22 :: u8), pos1, cx1)" "at_text b cx cx1 ys" "unat pos1 = cpos cx"
    by (rule read_one [OF Nil.prems(1) x]) simp_all
  show ?case using r n Nil.prems(5) by simp
next
  case (Cons y t)
  then obtain n' where n: "n = Suc n'" by (cases n) auto
  have x: "txt_of b cx = y # t @ 0x22 # ys" and y: "y \<noteq> 0" "y \<noteq> 0x22" "y \<noteq> 0x5C" "y < 0xC0"
    using Cons.prems(2,3) by (auto simp: plain_def word_less_nat_alt)
  obtain pos1 cx1 where r: "jread cx = Some (ucast y, pos1, cx1)" "at_text b cx cx1 (t @ 0x22 # ys)" "utf8_doc b cx1"
      "txt_of b cx1 = t @ 0x22 # ys" "unat pos1 = cpos cx" "cpos cx1 = Suc (cpos cx)"
    by (rule read_one [OF Cons.prems(1) x y(4)]) blast
  have "length t < n'" "ucast y \<noteq> BACKSLASH" using Cons.prems(4) n y(3) by (simp_all add: ucast_num)
  from Cons.IH [OF r(3,4) _ this, of pos1]
  obtain pos' cx' where i: "string_loop n' cx1 QUOTE (ucast y) pos1 = Some (QUOTE, pos', cx')" "unat pos' = cpos cx1 + length t" "at_text b cx1 cx' ys"
    using Cons.prems(3) by auto
  then show ?case using r(1,6) n y at_text_trans [OF r(2) i(3)] by (simp add: ucast_num)
qed

lemma name_char_ucast: "name_char y \<longleftrightarrow> upper (ucast y) \<or> lower (ucast y) \<or> (ucast y :: u32) = 0x2D \<or> (ucast y :: u32) = 0x5F"
  by (auto simp: name_char_def upper_def lower_ucast ucast_num word_le_nat_alt unat_ucast_u8)

lemma name_char_small: "name_char y \<Longrightarrow> y < 0xC0" and cdigit_small: "cdigit y \<Longrightarrow> y < 0xC0"
  by (auto simp: name_char_def cdigit_def small_def word_le_nat_alt word_less_nat_alt)

lemma name_char_no: "name_char y \<Longrightarrow> y \<noteq> 0x22 \<and> y \<noteq> 0x27 \<and> y \<noteq> 0" and cdigit_no: "cdigit y \<Longrightarrow> y \<noteq> 0x22 \<and> y \<noteq> 0x27 \<and> y \<noteq> 0"
  by (auto simp: name_char_def cdigit_def small_def word_le_nat_alt)

text \<open>The symbol \<open>y\<close> has been read; the loops go on with the rest.\<close>

definition cur :: "u8 list \<Rightarrow> 'u json_context \<Rightarrow> u8 \<Rightarrow> u64 \<Rightarrow> u8 list \<Rightarrow> bool" where
  "cur b cx y pos ys \<longleftrightarrow> utf8_doc b cx \<and> drop (unat pos) b = y # ys \<and> cpos cx = Suc (unat pos)"

lemma cur_txt: "cur b cx y pos ys \<Longrightarrow> txt_of b cx = ys"
proof -
  assume a: "cur b cx y pos ys"
  then have "drop (Suc (unat pos)) b = tl (y # ys)" by (metis cur_def drop_Suc tl_drop)
  then show ?thesis using a by (simp add: cur_def txt_of_def)
qed

lemma read_next:
  assumes "cur b cx y pos (z # ys)" "z < 0xC0"
  obtains pos1 cx1 where "jread cx = Some (ucast z, pos1, cx1)" "at_text b cx cx1 ys" "cur b cx1 z pos1 ys" "unat pos1 = Suc (unat pos)"
proof -
  have u: "utf8_doc b cx" "txt_of b cx = z # ys" using assms(1) cur_txt by (simp_all add: cur_def)
  obtain pos1 cx1 where "jread cx = Some (ucast z, pos1, cx1)" "at_text b cx cx1 ys" "utf8_doc b cx1" "txt_of b cx1 = ys"
      "unat pos1 = cpos cx" "cpos cx1 = Suc (cpos cx)"
    by (rule read_one [OF u assms(2)]) blast
  moreover from this have "drop (unat pos1) b = z # ys" using u(2) by (simp add: txt_of_def)
  ultimately show ?thesis using that assms(1) by (simp add: cur_def)
qed

lemma at_text_refl: "cur b cx y pos ys \<Longrightarrow> at_text b cx cx ys"
  using cur_txt [of b cx y pos ys] ahead_refl [of b cx] by (simp add: cur_def at_text_def)

text \<open>The text behind the symbol is a piece of the document, with its length in symbols.\<close>

lemma text_piece:
  assumes "drop (unat pos1) b = t @ z # ys" "unat pos' = unat pos1 + length t" "at_text b cx cx' ys'"
  shows "jsymbols cx' (Doc (unat pos1)) (Doc (unat pos')) = Some (of_nat (length t))"
    "unat pos1 + length t < length b" "take (length t) (drop (unat pos1) b) = t"
proof -
  show "take (length t) (drop (unat pos1) b) = t" using assms(1) by simp
  have "length (drop (unat pos1) b) = length t + Suc (length ys)" unfolding assms(1) by simp
  then show l: "unat pos1 + length t < length b" by simp
  obtain a x where x: "p_htc cx' = Some (a, x)" "utf8_content b (ht_content x)" using assms(3) by (auto simp: at_text_def ahead_def utf8_doc_def)
  then show "jsymbols cx' (Doc (unat pos1)) (Doc (unat pos')) = Some (of_nat (length t))"
    using l assms(2) by (cases "t = []") (auto simp: jsymbols_def ht_symbols_def in_doc_def utf8_content_def Let_def encoding_defs)
qed

lemma cur_behind: "cur b cx y pos ys \<Longrightarrow> unat pos1 = Suc (unat pos) \<Longrightarrow> drop (unat pos1) b = ys"
  using cur_txt [of b cx y pos ys] by (simp add: cur_def txt_of_def)

lemma name_loop_text:
  "cur b cx (hd (t @ [0x22])) pos (tl (t @ [0x22]) @ ys) \<Longrightarrow> \<forall>y \<in> set t. name_char y \<or> cdigit y \<Longrightarrow> sy \<or> t = [] \<or> name_char (hd t) \<Longrightarrow>
     length t < n \<Longrightarrow>
     \<exists>pos' cx'. name_loop n cx True False sy (ucast (hd (t @ [0x22]))) pos = Some (JSON_OK, QUOTE, pos', cx') \<and>
       unat pos' = unat pos + length t \<and> at_text b cx cx' ys"
proof (induction t arbitrary: cx sy pos n)
  case Nil
  then obtain n' where n: "n = Suc n'" by (cases n) auto
  then show ?case using at_text_refl [OF Nil.prems(1)] by (simp add: upper_def lower_def digit_def)
next
  case (Cons y t)
  obtain n' where n: "n = Suc n'" using Cons.prems(4) by (cases n) auto
  let ?z = "hd (t @ [0x22])"
  have c: "cur b cx y pos (?z # tl (t @ [0x22]) @ ys)" using Cons.prems(1) by (cases t) auto
  have z: "?z < 0xC0" "?z \<noteq> 0"
    using Cons.prems(2) name_char_small cdigit_small name_char_no cdigit_no by (cases t; auto)+
  obtain pos1 cx1 where r: "jread cx = Some (ucast ?z, pos1, cx1)" "at_text b cx cx1 (tl (t @ [0x22]) @ ys)"
      "cur b cx1 ?z pos1 (tl (t @ [0x22]) @ ys)" "unat pos1 = Suc (unat pos)"
    by (rule read_next [OF c z(1)]) blast
  obtain pos' cx' where i: "name_loop n' cx1 True False True (ucast ?z) pos1 = Some (JSON_OK, QUOTE, pos', cx')"
      "unat pos' = unat pos1 + length t" "at_text b cx1 cx' ys"
    using Cons.IH [OF r(3), of True n'] Cons.prems(2,4) n by auto
  have "name_loop (Suc n') cx True False sy (ucast y) pos = name_loop n' cx1 True False True (ucast ?z) pos1"
    using Cons.prems(2,3) r(1) z(2) name_char_no [of y] cdigit_no [of y]
    by (auto simp: Let_def ucast_num name_char_ucast digit_ucast)
  then show ?case using i r(4) n at_text_trans [OF r(2) i(3)] by simp
qed

lemma parse_string_name_text:
  assumes "cur b cx 0x22 pos (t @ 0x22 # ys)" "name_ok t" "length t < n"
  obtains s cx' where "parse_string_name n cx js_zero QUOTE pos = Some (JSON_OK, s, QUOTE, cx')" "str_rep b s t" "at_text b cx cx' ys"
proof -
  let ?z = "hd (t @ [0x22])"
  have c: "cur b cx 0x22 pos (?z # tl (t @ [0x22]) @ ys)" using assms(1) by (cases t) auto
  have ch: "\<forall>y \<in> set t. name_char y \<or> cdigit y" "t = [] \<or> name_char (hd t)" using assms(2) by (auto simp: name_ok_def)
  have z: "?z < 0xC0" using ch name_char_small by (cases t) auto
  obtain pos1 cx1 where r: "jread cx = Some (ucast ?z, pos1, cx1)" "at_text b cx cx1 (tl (t @ [0x22]) @ ys)"
      "cur b cx1 ?z pos1 (tl (t @ [0x22]) @ ys)" "unat pos1 = Suc (unat pos)"
    by (rule read_next [OF c z]) blast
  obtain pos' cx' where l: "name_loop n cx1 True False False (ucast ?z) pos1 = Some (JSON_OK, QUOTE, pos', cx')"
      "unat pos' = unat pos1 + length t" "at_text b cx1 cx' ys"
    using name_loop_text [OF r(3) ch(1) _ assms(3), of False] ch(2) by auto
  have sz: "jsymbols cx' (Doc (unat pos1)) (Doc (unat pos')) = Some (of_nat (length t))"
    and p: "unat pos1 + length t < length b" "take (length t) (drop (unat pos1) b) = t"
    by (rule text_piece [OF cur_behind [OF assms(1) r(4)] l(2)]; use at_text_trans [OF r(2) l(3)] in simp)+
  let ?s = "\<lparr>js_size = of_nat (length t), js_data = Some (Doc (unat pos1))\<rparr>"
  have "parse_string_name n cx js_zero QUOTE pos = Some (JSON_OK, ?s, QUOTE, cx')"
    using r(1) l(1) sz by (simp add: parse_string_name_def quote_def js_zero_def Let_def)
  moreover have "str_rep b ?s t" using p by (simp add: str_rep_def)
  ultimately show ?thesis using that at_text_trans [OF r(2) l(3)] by blast
qed

lemma parse_string_value_text:
  assumes "cur b cx 0x22 pos (t @ 0x22 # ys)" "\<forall>y \<in> set t. plain y" "length t < n"
  obtains s cx' where "parse_string_value n cx js_zero QUOTE = Some (JSON_OK, s, QUOTE, cx')" "str_rep b s t" "at_text b cx cx' ys"
proof -
  have u: "utf8_doc b cx" "txt_of b cx = t @ 0x22 # ys" "cpos cx = Suc (unat pos)" using assms(1) cur_txt by (simp_all add: cur_def)
  obtain pos1 where p1: "jpos cx = Some pos1" "unat pos1 = cpos cx" using jpos_doc [OF u(1)] by blast
  obtain pos' cx' where l: "string_loop n cx QUOTE QUOTE pos1 = Some (QUOTE, pos', cx')" "unat pos' = cpos cx + length t" "at_text b cx cx' ys"
    using string_loop_plain [OF u(1,2) assms(2,3), of QUOTE pos1] by auto
  have e: "unat pos1 = Suc (unat pos)" "unat pos' = unat pos1 + length t" using p1(2) u(3) l(2) by simp_all
  note d = text_piece [OF cur_behind [OF assms(1) e(1)] e(2) l(3)]
  let ?s = "\<lparr>js_size = of_nat (length t), js_data = Some (Doc (unat pos1))\<rparr>"
  have "parse_string_value n cx js_zero QUOTE = Some (JSON_OK, ?s, QUOTE, cx')"
    using p1(1) l(1) d(1) by (simp add: parse_string_value_def quote_def js_zero_def Let_def)
  moreover have "str_rep b ?s t" using d(2,3) by (simp add: str_rep_def)
  ultimately show ?thesis using that l(3) by blast
qed

text \<open>Numbers end at a blank, a comma or a closing bracket.\<close>

definition num_end :: "u8 \<Rightarrow> bool" where
  "num_end z \<longleftrightarrow> z = 0x20 \<or> z = 0x0D \<or> z = 0x0A \<or> z = 0x09 \<or> z = 0x2C \<or> z = 0x5D \<or> z = 0x7D"

lemma num_end_ucast: "num_end z \<longleftrightarrow> blank (ucast z) \<or> (ucast z :: u32) = COMMA \<or> (ucast z :: u32) = RBRACKET \<or> (ucast z :: u32) = RBRACE"
  by (simp add: num_end_def blank_def word_unat_eq_iff unat_ucast_u8)

lemma hexletter_ucast: "hexletter (ucast (y :: u8)) \<longleftrightarrow> 0x61 \<le> y \<and> y \<le> 0x66 \<or> 0x41 \<le> y \<and> y \<le> 0x46"
  by (simp add: hexletter_def word_le_nat_alt unat_ucast_u8)

lemma num_end_no: "num_end z \<Longrightarrow> \<not> cdigit z \<and> z \<noteq> 0x78 \<and> z \<noteq> 0x58 \<and> \<not> hexletter (ucast z) \<and> z < 0xC0 \<and> z \<noteq> 0 \<and> z \<noteq> 0x2E"
  by (auto simp: num_end_def cdigit_def hexletter_ucast)

lemma number_loop_tail:
  "cur b cx (hd (t @ [z])) pos (tl (t @ [z]) @ ys) \<Longrightarrow> \<forall>y \<in> set t. cdigit y \<or> y = 0x2E \<Longrightarrow> num_end z \<Longrightarrow> nt = NUM_OCT \<or> nt = NUM_DEC \<Longrightarrow>
     length t < n \<Longrightarrow>
     \<exists>pos' cx'. number_loop n cx nt (ucast (hd (t @ [z]))) i pos = Some (JSON_OK, ucast z, pos', cx') \<and>
       unat pos' = unat pos + length t \<and> at_text b cx cx' ys"
proof (induction t arbitrary: cx i pos n)
  case Nil
  then obtain n' where n: "n = Suc n'" by (cases n) auto
  have "number_loop n cx nt (ucast z) i pos = Some (JSON_OK, ucast z, pos, cx)"
    using num_end_no [OF Nil.prems(3)] Nil.prems(3,4) n by (auto simp: Let_def digit_ucast ucast_num num_end_ucast)
  then show ?case using at_text_refl [OF Nil.prems(1)] by simp
next
  case (Cons y t)
  obtain n' where n: "n = Suc n'" using Cons.prems(5) by (cases n) auto
  let ?z = "hd (t @ [z])"
  have c: "cur b cx y pos (?z # tl (t @ [z]) @ ys)" using Cons.prems(1) by (cases t) auto
  have z: "?z < 0xC0" "?z \<noteq> 0"
    using Cons.prems(2) num_end_no [OF Cons.prems(3)] cdigit_small cdigit_no by (cases t; auto)+
  obtain pos1 cx1 where r: "jread cx = Some (ucast ?z, pos1, cx1)" "at_text b cx cx1 (tl (t @ [z]) @ ys)"
      "cur b cx1 ?z pos1 (tl (t @ [z]) @ ys)" "unat pos1 = Suc (unat pos)"
    by (rule read_next [OF c z(1)]) blast
  obtain pos' cx' where i: "number_loop n' cx1 nt (ucast ?z) (i + 1) pos1 = Some (JSON_OK, ucast z, pos', cx')"
      "unat pos' = unat pos1 + length t" "at_text b cx1 cx' ys"
    using Cons.IH [OF r(3) _ Cons.prems(3,4), of n' "i + 1"] Cons.prems(2,5) n by auto
  have y: "cdigit y \<or> y = 0x2E" using Cons.prems(2) by simp
  have "number_loop (Suc n') cx nt (ucast y) i pos = number_loop n' cx1 nt (ucast ?z) (i + 1) pos1"
  proof (cases "cdigit y")
    case True
    then show ?thesis using r(1) z(2) Cons.prems(4) by (auto simp: Let_def ucast_num digit_ucast)
  next
    case False
    then have "y = 0x2E" using y by simp
    then show ?thesis using r(1) z(2) Cons.prems(4) by (auto simp: Let_def ucast_num digit_def hexletter_def blank_def)
  qed
  then show ?case using i r(4) n at_text_trans [OF r(2) i(3)] by simp
qed

text \<open>The first digit, where a leading zero has been seen already.\<close>

lemma number_loop_first:
  assumes "cur b cx (hd t) pos (tl t @ z # ys)" "t \<noteq> []" "cdigit (hd t)" "\<forall>y \<in> set t. cdigit y \<or> y = 0x2E" "num_end z"
    "nt = NUM_OCT \<or> nt = NUM_NONE" "length t < n"
  shows "\<exists>pos' cx'. number_loop n cx nt (ucast (hd t)) i pos = Some (JSON_OK, ucast z, pos', cx') \<and>
    unat pos' = unat pos + length t \<and> at_text b cx cx' ys"
proof -
  obtain y u where t: "t = y # u" using assms(2) by (cases t) auto
  obtain n' where n: "n = Suc n'" using assms(7) by (cases n) auto
  let ?z = "hd (u @ [z])"
  have c: "cur b cx y pos (?z # tl (u @ [z]) @ ys)" using assms(1) t by (cases u) auto
  have z: "?z < 0xC0" "?z \<noteq> 0"
    using assms(4) t num_end_no [OF assms(5)] cdigit_small cdigit_no by (cases u; auto)+
  obtain pos1 cx1 where r: "jread cx = Some (ucast ?z, pos1, cx1)" "at_text b cx cx1 (tl (u @ [z]) @ ys)"
      "cur b cx1 ?z pos1 (tl (u @ [z]) @ ys)" "unat pos1 = Suc (unat pos)"
    by (rule read_next [OF c z(1)]) blast
  let ?nt = "if nt = NUM_NONE then NUM_DEC else nt"
  obtain pos' cx' where i: "number_loop n' cx1 ?nt (ucast ?z) (i + 1) pos1 = Some (JSON_OK, ucast z, pos', cx')"
      "unat pos' = unat pos1 + length u" "at_text b cx1 cx' ys"
    using number_loop_tail [OF r(3) _ assms(5), of ?nt n' "i + 1"] assms(4,6,7) t n by auto
  have "number_loop n cx nt (ucast (hd t)) i pos = number_loop n' cx1 ?nt (ucast ?z) (i + 1) pos1"
    using assms(3) r(1) z(2) t n by (simp add: Let_def ucast_num digit_ucast)
  then show ?thesis using i r(4) t at_text_trans [OF r(2) i(3)] by simp
qed

lemma parse_number_text:
  assumes "cur b cx (hd t) pos (tl t @ z # ys)" "number_ok t" "num_end z" "length t < n"
  obtains s cx' where "parse_number n cx js_zero (ucast (hd t)) pos = Some (JSON_OK, s, ucast z, cx')" "str_rep b s t" "at_text b cx cx' ys"
proof -
  have t: "t \<noteq> []" using assms(2) by (auto simp: number_ok_def Let_def split: if_splits)
  have l: "\<exists>pos' cx'. number_loop n cx (if (ucast (hd t) :: u32) = 0x30 then NUM_OCT else NUM_NONE) (ucast (hd t)) 0 pos = Some (JSON_OK, ucast z, pos', cx') \<and>
      unat pos' = unat pos + length t \<and> at_text b cx cx' ys"
  proof (cases "hd t = 0x2D \<or> hd t = 0x2B")
    case True
    obtain y u where u: "t = y # u" using t by (cases t) auto
    have d: "u \<noteq> []" "cdigit (hd u)" "\<forall>y \<in> set u. cdigit y \<or> y = 0x2E" using assms(2) True u by (auto simp: number_ok_def Let_def split: if_splits)
    obtain n' where n: "n = Suc n'" using assms(4) by (cases n) auto
    have c: "cur b cx y pos (hd u # tl u @ z # ys)" using assms(1) u d(1) by (cases u) auto
    obtain pos1 cx1 where r: "jread cx = Some (ucast (hd u), pos1, cx1)" "at_text b cx cx1 (tl u @ z # ys)"
        "cur b cx1 (hd u) pos1 (tl u @ z # ys)" "unat pos1 = Suc (unat pos)"
      by (rule read_next [OF c cdigit_small [OF d(2)]]) blast
    have "length u < n'" using assms(4) u n by simp
    from number_loop_first [OF r(3) d(1,2,3) assms(3) disjI2 [OF refl] this, of "0 + 1"]
    obtain pos' cx' where i: "number_loop n' cx1 NUM_NONE (ucast (hd u)) (0 + 1) pos1 = Some (JSON_OK, ucast z, pos', cx')"
        "unat pos' = unat pos1 + length u" "at_text b cx1 cx' ys" by blast
    have y: "y = 0x2D \<or> y = 0x2B" using True u by simp
    have "number_loop n cx NUM_NONE (ucast y) 0 pos = number_loop n' cx1 NUM_NONE (ucast (hd u)) (0 + 1) pos1"
      using y r(1) cdigit_no [OF d(2)] n by (auto simp: Let_def ucast_num digit_def hexletter_def blank_def)
    then show ?thesis using i r(4) u y at_text_trans [OF r(2) i(3)] by (auto simp: ucast_num)
  next
    case False
    then have "cdigit (hd t)" "\<forall>y \<in> set t. cdigit y \<or> y = 0x2E" using assms(2) by (auto simp: number_ok_def Let_def split: if_splits)
    from number_loop_first [OF assms(1) t this assms(3) _ assms(4)] show ?thesis by simp
  qed
  then obtain pos' cx' where l: "number_loop n cx (if (ucast (hd t) :: u32) = 0x30 then NUM_OCT else NUM_NONE) (ucast (hd t)) 0 pos = Some (JSON_OK, ucast z, pos', cx')"
      "unat pos' = unat pos + length t" "at_text b cx cx' ys" by blast
  have "drop (unat pos) b = t @ z # ys" using assms(1) t by (simp add: cur_def)
  note d = text_piece [OF this l(2,3)]
  let ?s = "\<lparr>js_size = of_nat (length t), js_data = Some (Doc (unat pos))\<rparr>"
  have "parse_number n cx js_zero (ucast (hd t)) pos = Some (JSON_OK, ?s, ucast z, cx')"
    using l(1) d(1) by (simp add: parse_number_def js_zero_def Let_def)
  moreover have "str_rep b ?s t" using d(2,3) by (simp add: str_rep_def)
  ultimately show ?thesis using that l(3) by blast
qed

lemma const_loop_text:
  "cur b cx (hd (t @ [z])) pos (tl (t @ [z]) @ ys) \<Longrightarrow> \<forall>y \<in> set t. small y \<Longrightarrow> num_end z \<Longrightarrow> length t < n \<Longrightarrow>
     \<exists>cx'. const_loop n cx (ucast (hd (t @ [z]))) m = Some (ucast z, m + of_nat (length t), cx') \<and> at_text b cx cx' ys"
proof (induction t arbitrary: cx pos n m)
  case Nil
  then obtain n' where n: "n = Suc n'" by (cases n) auto
  have "\<not> small z" using Nil.prems(3) by (auto simp: num_end_def small_def)
  then show ?case using at_text_refl [OF Nil.prems(1)] n by (simp add: lower_ucast)
next
  case (Cons y t)
  obtain n' where n: "n = Suc n'" using Cons.prems(4) by (cases n) auto
  let ?z = "hd (t @ [z])"
  have c: "cur b cx y pos (?z # tl (t @ [z]) @ ys)" using Cons.prems(1) by (cases t) auto
  have z: "?z < 0xC0"
    using Cons.prems(2) num_end_no [OF Cons.prems(3)] by (cases t) (auto simp: small_def word_le_nat_alt word_less_nat_alt)
  obtain pos1 cx1 where r: "jread cx = Some (ucast ?z, pos1, cx1)" "at_text b cx cx1 (tl (t @ [z]) @ ys)"
      "cur b cx1 ?z pos1 (tl (t @ [z]) @ ys)" "unat pos1 = Suc (unat pos)"
    by (rule read_next [OF c z]) blast
  obtain cx' where i: "const_loop n' cx1 (ucast ?z) (m + 1) = Some (ucast z, m + 1 + of_nat (length t), cx')" "at_text b cx1 cx' ys"
    using Cons.IH [OF r(3) _ Cons.prems(3), of n' "m + 1"] Cons.prems(2,4) n by auto
  have "lower (ucast y)" using Cons.prems(2) by (simp add: lower_ucast)
  then show ?case using i n r(1) at_text_trans [OF r(2) i(2)] by (simp add: add.assoc)
qed

text \<open>A comparison finds out whether the bytes are equal.\<close>

lemma cmp_loop_eq:
  "utf8_content b h \<Longrightarrow> i + k \<le> length s \<Longrightarrow> p + i + k \<le> length b \<Longrightarrow>
     \<exists>r. cmp_loop h E_UTF_8 (Ext s 0) E_UTF_8 (Doc p) i k c1 c2 = Some r \<and> (r = 0 \<longleftrightarrow> take k (drop i s) = take k (drop (p + i) b))"
proof (induction k arbitrary: i c1 c2)
  case (Suc k)
  have d: "deref h (Ext s 0) i = Some (s ! i)" "deref h (Doc p) i = Some (b ! (p + i))"
    using Suc.prems by (simp_all add: deref_def hbyte_doc rd_def)
  have e: "drop i s = s ! i # drop (Suc i) s" "drop (p + i) b = b ! (p + i) # drop (p + Suc i) b"
    using Suc.prems by (simp_all add: Cons_nth_drop_Suc)
  show ?case
  proof (cases "ucast (s ! i) - ucast (b ! (p + i)) = (0 :: u32)")
    case True
    then have "s ! i = b ! (p + i)" by (rule ucast_inj)
    then show ?thesis using True d Suc.IH [OF Suc.prems(1), of "Suc i" "ucast (s ! i)" "ucast (b ! (p + i))"] Suc.prems(2,3)
      by (simp add: cmp_symbol_utf8 e)
  next
    case False
    then have "s ! i \<noteq> b ! (p + i)" by auto
    then show ?thesis using False d by (simp add: cmp_symbol_utf8 e)
  qed
qed simp

lemma jcompare_eq:
  assumes "utf8_doc b cx" "k \<le> length s" "drop p b = w @ ys" "length w = k" "k < 2 ^ 32"
  shows "\<exists>r. jcompare cx (Ext s 0) (Doc p) (of_nat k) = Some r \<and> (r = 0 \<longleftrightarrow> take k s = w)"
proof -
  obtain a x where x: "p_htc cx = Some (a, x)" "utf8_content b (ht_content x)" using assms(1) by (auto simp: utf8_doc_def)
  have "unat (of_nat k :: u32) = k" using assms(5) by (intro unat_of_nat_small) simp
  moreover have "length (drop p b) = k + length ys" using assms(3,4) by simp
  then have "k = 0 \<or> p + 0 + k \<le> length b" by auto
  ultimately show ?thesis using x cmp_loop_eq [OF x(2), of 0 k s p 0 0] assms(2,3,4)
    by (cases "k = 0") (auto simp: jcompare_def ht_compare_def encoding_utf8 Let_def)
qed

definition const_text :: "json_value \<Rightarrow> u8 list" where
  "const_text v = (case v of JSON_TRUE \<Rightarrow> [0x74, 0x72, 0x75, 0x65] | JSON_FALSE \<Rightarrow> [0x66, 0x61, 0x6C, 0x73, 0x65] | _ \<Rightarrow> [0x6E, 0x75, 0x6C, 0x6C])"

lemma const_prefix_cases:
  assumes "v = JSON_TRUE \<or> v = JSON_FALSE \<or> v = JSON_NULL" "w = take k (const_text v)" "0 < k"
  shows "v = JSON_TRUE \<and> w \<in> {[0x74], [0x74, 0x72], [0x74, 0x72, 0x75], [0x74, 0x72, 0x75, 0x65]} \<or>
    v = JSON_FALSE \<and> w \<in> {[0x66], [0x66, 0x61], [0x66, 0x61, 0x6C], [0x66, 0x61, 0x6C, 0x73], [0x66, 0x61, 0x6C, 0x73, 0x65]} \<or>
    v = JSON_NULL \<and> w \<in> {[0x6E], [0x6E, 0x75], [0x6E, 0x75, 0x6C], [0x6E, 0x75, 0x6C, 0x6C]}"
proof -
  have "k = Suc 0 \<or> k = Suc (Suc 0) \<or> k = Suc (Suc (Suc 0)) \<or> k = Suc (Suc (Suc (Suc 0))) \<or> (\<exists>m. k = Suc (Suc (Suc (Suc (Suc m)))))"
    using assms(3) by presburger
  then show ?thesis using assms(1,2) by (elim disjE exE) (simp_all add: const_text_def)
qed

text \<open>Any first part of a constant is taken for it.\<close>

lemma parse_const_prefix:
  assumes "v = JSON_TRUE \<or> v = JSON_FALSE \<or> v = JSON_NULL" "w = take k (const_text v)" "0 < k"
    "cur b cx (hd w) pos (tl w @ z # ys)" "num_end z" "length w < n"
  obtains cx' where "parse_const n cx JSON_NONE (ucast (hd w)) pos = Some (JSON_OK, v, ucast z, cx')" "at_text b cx cx' ys"
proof -
  note wc = const_prefix_cases [OF assms(1-3)]
  have w: "w \<noteq> []" "\<forall>y \<in> set w. small y" "length w < 2 ^ 32" "length w \<le> 5" using wc by (auto simp: small_def)
  have c: "cur b cx (hd (w @ [z])) pos (tl (w @ [z]) @ ys)" using assms(4) w(1) by simp
  obtain cx' where l: "const_loop n cx (ucast (hd w)) 0 = Some (ucast z, of_nat (length w), cx')" "at_text b cx cx' ys"
    using const_loop_text [OF c w(2) assms(5,6), of 0] w(1) by auto
  have d: "drop (unat pos) b = w @ z # ys" using assms(4) w(1) by (simp add: cur_def)
  have u: "utf8_doc b cx'" using l(2) ahead_doc by (auto simp: at_text_def)
  note cmp = jcompare_eq [OF u _ d refl w(3)]
  obtain r1 r2 r3 where r:
      "jcompare cx' (Ext c_true 0) (Doc (unat pos)) (of_nat (length w)) = Some r1" "r1 = 0 \<longleftrightarrow> take (length w) c_true = w"
      "jcompare cx' (Ext c_false 0) (Doc (unat pos)) (of_nat (length w)) = Some r2" "r2 = 0 \<longleftrightarrow> take (length w) c_false = w"
      "jcompare cx' (Ext c_null 0) (Doc (unat pos)) (of_nat (length w)) = Some r3"  "length w \<le> 4 \<longrightarrow> (r3 = 0 \<longleftrightarrow> take (length w) c_null = w)"
    using cmp [of c_true] cmp [of c_false] cmp [of c_null] w(4) by (auto simp: c_true_def c_false_def c_null_def)
  have "v = JSON_TRUE \<longrightarrow> take (length w) c_true = w" "v \<noteq> JSON_TRUE \<longrightarrow> take (length w) c_true \<noteq> w"
      "v = JSON_FALSE \<longrightarrow> take (length w) c_false = w" "v = JSON_NULL \<longrightarrow> take (length w) c_false \<noteq> w \<and> take (length w) c_null = w \<and> length w \<le> 4"
    using wc by (auto simp: c_true_def c_false_def c_null_def)
  then have "parse_const n cx JSON_NONE (ucast (hd w)) pos = Some (JSON_OK, v, ucast z, cx')"
    using assms(1) l(1) r unfolding parse_const_def by (elim disjE) simp_all
  then show ?thesis using that l(2) by blast
qed

lemma parse_const_text:
  assumes "v = JSON_TRUE \<or> v = JSON_FALSE \<or> v = JSON_NULL" "w = const_text v" "cur b cx (hd w) pos (tl w @ z # ys)" "num_end z" "length w < n"
  obtains cx' where "parse_const n cx JSON_NONE (ucast (hd w)) pos = Some (JSON_OK, v, ucast z, cx')" "at_text b cx cx' ys"
proof -
  have "w = take 5 (const_text v)" using assms(1,2) by (auto simp: const_text_def)
  from parse_const_prefix [OF assms(1) this _ assms(3-5)] show ?thesis using that by auto
qed

section \<open>Parsing printed values\<close>

text \<open>The symbol after which a value is complete, and what is left of the text \<open>ys\<close> behind the value then: a scalar
  takes the symbol behind it as well.\<close>

definition jscalar :: "json \<Rightarrow> bool" where
  "jscalar v \<longleftrightarrow> (case v of JNumber _ \<Rightarrow> True | JTrue \<Rightarrow> True | JFalse \<Rightarrow> True | JNull \<Rightarrow> True | _ \<Rightarrow> False)"

definition last_symbol :: "json \<Rightarrow> u8 list \<Rightarrow> u32" where
  "last_symbol v ys = (case v of JString _ \<Rightarrow> QUOTE | JObject _ \<Rightarrow> RBRACE | JArray _ \<Rightarrow> RBRACKET | _ \<Rightarrow> ucast (hd ys))"

definition left :: "json \<Rightarrow> u8 list \<Rightarrow> u8 list" where
  "left v ys = (if jscalar v then tl ys else ys)"

definition ends :: "json \<Rightarrow> u8 list \<Rightarrow> bool" where
  "ends v ys \<longleftrightarrow> (jscalar v \<longrightarrow> ys \<noteq> [] \<and> num_end (hd ys))"

lemma json_text_hd: "json_ok v \<Longrightarrow> json_text v \<noteq> [] \<and> hd (json_text v) < 0xC0 \<and> hd (json_text v) \<noteq> 0"
proof (cases v)
  case (JNumber t)
  assume "json_ok v"
  then have "t \<noteq> []" "hd t = 0x2D \<or> hd t = 0x2B \<or> cdigit (hd t)"
    using JNumber by (auto simp: number_ok_def Let_def split: if_splits)
  then show ?thesis using JNumber cdigit_small cdigit_no by auto
qed auto

lemma commas_Cons: "commas (x # xs) = x @ (if xs = [] then [] else 0x2C # commas xs)"
  by (cases xs) auto

definition is_const :: "json \<Rightarrow> bool" where
  "is_const v \<longleftrightarrow> v = JTrue \<or> v = JFalse \<or> v = JNull"

lemma last_symbol_const: "is_const v \<Longrightarrow> last_symbol v ys = ucast (hd ys)"
  by (auto simp: is_const_def last_symbol_def)

definition pair_rep :: "u8 list \<Rightarrow> json_pair \<Rightarrow> u8 list \<times> json \<Rightarrow> bool" where
  "pair_rep b x y \<longleftrightarrow> str_rep b (fst x) (fst y) \<and> reps b (snd x) (snd y)"

definition pairs_text :: "(u8 list \<times> json) list \<Rightarrow> u8 list list" where
  "pairs_text ps = map (\<lambda>(nm, v). pair_text nm (json_text v)) ps"

context json_memory
begin

definition out_of_memory :: "json_err \<Rightarrow> bool" where "out_of_memory r \<longleftrightarrow> r = JSON_MEMORY_ERROR \<and> \<not> granting"

definition pv_text :: "u8 list \<Rightarrow> 'a value_parser \<Rightarrow> nat \<Rightarrow> json \<Rightarrow> bool" where
  "pv_text b pv k v \<longleftrightarrow> (\<forall>cx pos ys. jok b cx \<longrightarrow> cur b cx (hd (json_text v)) pos (tl (json_text v) @ ys) \<longrightarrow> length b - cpos cx < k \<longrightarrow>
     ends v ys \<longrightarrow> (\<exists>r jv c' cx'. pv cx (ucast (hd (json_text v))) pos = Some (r, jv, c', cx') \<and> fr b cx cx' \<and>
       (out_of_memory r \<or> r = JSON_OK \<and> reps b jv v \<and> c' = last_symbol v ys \<and> txt_of b cx' = left v ys)))"

lemma pv_textD:
  assumes "pv_text b pv k v" "jok b cx" "cur b cx (hd (json_text v)) pos (tl (json_text v) @ ys)" "length b - cpos cx < k" "ends v ys"
  obtains r jv c' cx' where "pv cx (ucast (hd (json_text v))) pos = Some (r, jv, c', cx')" "fr b cx cx'"
    "out_of_memory r \<or> r = JSON_OK \<and> reps b jv v \<and> c' = last_symbol v ys \<and> txt_of b cx' = left v ys"
  using assms unfolding pv_text_def by blast

text \<open>What a loop that adds the values \<open>vs\<close> to the elements \<open>es\<close> of \<open>s\<close> does: it runs out of memory, or stops at the
  symbol \<open>e\<close> with all of them added.\<close>

definition sres :: "u8 list \<Rightarrow> 'a json_context \<Rightarrow> 'e slots \<Rightarrow> (addr \<times> 'e) list \<Rightarrow> ('e \<Rightarrow> 'v \<Rightarrow> bool) \<Rightarrow> u32 \<Rightarrow> u8 list \<Rightarrow> 'v list \<Rightarrow>
    (json_err \<times> 'e slots \<times> u32 \<times> 'a json_context) option \<Rightarrow> bool" where
  "sres b cx s es R e ys vs m \<longleftrightarrow> (\<exists>r s' c' cx'. m = Some (r, s', c', cx') \<and> lfr b cx s cx' s' \<and>
     (out_of_memory r \<or> r = JSON_OK \<and> c' = e \<and> txt_of b cx' = ys \<and>
       (\<exists>es1. slots_rel cx' s' (es @ es1) \<and> list_all2 (\<lambda>x v. R (snd x) v) es1 vs)))"

lemma sres_trans: "lfr b cx s cx1 s1 \<Longrightarrow> sres b cx1 s1 es R e ys vs m \<Longrightarrow> sres b cx s es R e ys vs m"
proof -
  assume l: "lfr b cx s cx1 s1" and "sres b cx1 s1 es R e ys vs m"
  then obtain r s' c' cx' where i: "m = Some (r, s', c', cx')" "lfr b cx1 s1 cx' s'"
      "out_of_memory r \<or> r = JSON_OK \<and> c' = e \<and> txt_of b cx' = ys \<and>
       (\<exists>es1. slots_rel cx' s' (es @ es1) \<and> list_all2 (\<lambda>x v. R (snd x) v) es1 vs)"
    unfolding sres_def by blast
  show ?thesis unfolding sres_def using i(1,3) lfr_trans [OF l i(2)] by blast
qed

lemma sres_Cons: "sres b cx s (es @ [(a, x)]) R e ys vs m \<Longrightarrow> R x v \<Longrightarrow> sres b cx s es R e ys (v # vs) m"
proof -
  assume m: "sres b cx s (es @ [(a, x)]) R e ys vs m" and x: "R x v"
  then obtain r s' c' cx' where i: "m = Some (r, s', c', cx')" "lfr b cx s cx' s'"
      "out_of_memory r \<or> r = JSON_OK \<and> c' = e \<and> txt_of b cx' = ys \<and>
       (\<exists>es1. slots_rel cx' s' ((es @ [(a, x)]) @ es1) \<and> list_all2 (\<lambda>x v. R (snd x) v) es1 vs)"
    unfolding sres_def by blast
  show ?thesis
  proof (cases "out_of_memory r")
    case True
    then show ?thesis using i(1,2) by (simp add: sres_def)
  next
    case False
    then obtain es1 where e: "slots_rel cx' s' ((es @ [(a, x)]) @ es1)" "list_all2 (\<lambda>x v. R (snd x) v) es1 vs"
      and r: "r = JSON_OK" "c' = e" "txt_of b cx' = ys" using i(3) by blast
    have "slots_rel cx' s' (es @ (a, x) # es1)" "list_all2 (\<lambda>x v. R (snd x) v) ((a, x) # es1) (v # vs)" using e x by simp_all
    then show ?thesis using i(1,2) r unfolding sres_def by fastforce
  qed
qed

lemma sres_memory: "lfr b cx s cx' s' \<Longrightarrow> \<not> granting \<Longrightarrow> sres b cx s es R e ys vs (Some (JSON_MEMORY_ERROR, s', c', cx'))"
  by (simp add: sres_def out_of_memory_def)

lemma sres_done: "lfr b cx s cx' s' \<Longrightarrow> txt_of b cx' = ys \<Longrightarrow> slots_rel cx' s' es \<Longrightarrow> sres b cx s es R e ys [] (Some (JSON_OK, s', e, cx'))"
  unfolding sres_def by fastforce

definition punct_ok :: "'a value_parser \<Rightarrow> bool" where
  "punct_ok pv \<longleftrightarrow> (\<forall>cx c pos. c = COMMA \<or> c = RBRACKET \<longrightarrow> pv cx c pos = Some (JSON_OK, JSON_NONE, c, cx))"

lemma txt_of_fr_ahead: "at_text b cx cx' ys \<Longrightarrow> jok b cx \<Longrightarrow> fr b cx cx' \<and> txt_of b cx' = ys \<and> jlive cx' = jlive cx"
  using fr_ahead jok_ahead by (auto simp: at_text_def)

lemma array_value_end_reps:
  assumes "reps b jv v" "c = last_symbol v ys" "\<not> is_array v" "ends v ys" "jscalar v \<Longrightarrow> hd ys = 0x2C \<or> hd ys = 0x5D"
  shows "jv \<noteq> JSON_NONE" "array_value_end jv c" "c = RBRACKET \<longleftrightarrow> jscalar v \<and> hd ys = 0x5D"
  using assms by (cases rule: reps.cases; auto simp: last_symbol_def array_value_end_def quote_def is_array_def jscalar_def)+

lemma array_loop_text:
  "jok b cx \<Longrightarrow> slots_rel cx a els \<Longrightarrow> length els \<le> cpos cx \<Longrightarrow> length b < 2 ^ 28 \<Longrightarrow> length b - cpos cx < n \<Longrightarrow>
     length b - cpos cx \<le> k \<Longrightarrow> punct_ok pv \<Longrightarrow> \<forall>v \<in> set es. pv_text b pv k v \<and> json_ok v \<and> \<not> is_array v \<Longrightarrow>
     txt_of b cx = commas (map json_text es) @ 0x5D # post \<or>
     txt_of b cx = (if es = [] then [] else 0x2C # commas (map json_text es)) @ 0x5D # post \<Longrightarrow>
     sres b cx a els (reps b) RBRACKET post es (array_loop pv n cx a)"
proof (induction n arbitrary: cx a els es)
  case (Suc n)
  note u = jok_doc [OF Suc.prems(1)]
  have punct: "sres b cx a els (reps b) RBRACKET post es (array_loop pv (Suc n) cx a)"
    if x: "txt_of b cx = 0x5D # post" "es = []"
  proof -
    obtain pos cx1 where r: "jread cx = Some (ucast (0x5D :: u8), pos, cx1)" "at_text b cx cx1 post" "utf8_doc b cx1"
      by (rule read_one [OF u x(1)]) simp_all
    have f: "fr b cx cx1" "txt_of b cx1 = post" using txt_of_fr_ahead [OF r(2) Suc.prems(1)] by simp_all
    obtain p where p: "jpos cx1 = Some p" using jpos_doc [OF r(3)] by blast
    have "array_loop pv (Suc n) cx a = Some (JSON_OK, a, RBRACKET, cx1)" using r(1) p Suc.prems(7) by (simp add: punct_ok_def blank_def)
    then show ?thesis using sres_done [OF lfr_fr [OF f(1)] f(2) slots_rel_fr [OF f(1) Suc.prems(2)]] x(2) by simp
  qed
  show ?case
  proof (cases es)
    case Nil
    then show ?thesis using punct Suc.prems(9) by simp
  next
    case (Cons v vs)
    let ?X = "(if vs = [] then [] else 0x2C # commas (map json_text vs)) @ 0x5D # post"
    have v: "pv_text b pv k v" "json_ok v" "\<not> is_array v" using Suc.prems(8) Cons by simp_all
    have vs: "\<forall>v \<in> set vs. pv_text b pv k v \<and> json_ok v \<and> \<not> is_array v" using Suc.prems(8) Cons by simp
    show ?thesis
    proof (cases "txt_of b cx = 0x2C # commas (map json_text es) @ 0x5D # post")
      case True
      obtain pos cx1 where r: "jread cx = Some (ucast (0x2C :: u8), pos, cx1)" "at_text b cx cx1 (commas (map json_text es) @ 0x5D # post)"
          "utf8_doc b cx1" "cpos cx1 = Suc (cpos cx)"
        by (rule read_one [OF u True]) simp_all
      have f: "fr b cx cx1" "txt_of b cx1 = commas (map json_text es) @ 0x5D # post" using txt_of_fr_ahead [OF r(2) Suc.prems(1)] by simp_all
      obtain p where p: "jpos cx1 = Some p" using jpos_doc [OF r(3)] by blast
      have pos: "length els \<le> cpos cx1" "length b - cpos cx1 < n" "length b - cpos cx1 \<le> k"
        using r(4) Suc.prems(3,5,6) cpos_le [OF r(3)] by linarith+
      have "sres b cx1 a els (reps b) RBRACKET post es (array_loop pv n cx1 a)"
        by (rule Suc.IH [OF fr_jok [OF f(1)] slots_rel_fr [OF f(1) Suc.prems(2)] pos(1) Suc.prems(4) pos(2,3) Suc.prems(7,8)])
           (use f(2) in simp)
      moreover have "array_loop pv (Suc n) cx a = array_loop pv n cx1 a" using r(1) p Suc.prems(7) by (simp add: punct_ok_def)
      ultimately show ?thesis using sres_trans [OF lfr_fr [OF f(1)]] by simp
    next
      case False
      then have x: "txt_of b cx = hd (json_text v) # tl (json_text v) @ ?X"
        using Suc.prems(9) Cons json_text_hd [OF v(2)] by (auto simp: commas_Cons split: if_splits)
      obtain pos cx1 where r: "jread cx = Some (ucast (hd (json_text v)), pos, cx1)" "at_text b cx cx1 (tl (json_text v) @ ?X)"
          "utf8_doc b cx1" "unat pos = cpos cx" "cpos cx1 = Suc (cpos cx)"
        by (rule read_one [OF u x]) (use json_text_hd [OF v(2)] in simp_all)
      have f1: "fr b cx cx1" using txt_of_fr_ahead [OF r(2) Suc.prems(1)] by simp
      have cur: "cur b cx1 (hd (json_text v)) pos (tl (json_text v) @ ?X)" using x r(3-5) by (simp add: cur_def txt_of_def)
      have k1: "length b - cpos cx1 < k" "length b - cpos cx1 < n" using r(5) Suc.prems(5,6) cpos_le [OF r(3)] by linarith+
      have e: "ends v ?X" "jscalar v \<Longrightarrow> hd ?X = 0x2C \<or> hd ?X = 0x5D" by (auto simp: ends_def num_end_def)
      obtain q jv c' cx2 where p: "pv cx1 (ucast (hd (json_text v))) pos = Some (q, jv, c', cx2)" "fr b cx1 cx2"
          "out_of_memory q \<or> q = JSON_OK \<and> reps b jv v \<and> c' = last_symbol v ?X \<and> txt_of b cx2 = left v ?X"
        by (rule pv_textD [OF v(1) fr_jok [OF f1] cur k1(1) e(1)]) blast
      have f2: "fr b cx cx2" by (rule fr_trans [OF f1 p(2)])
      have j2: "jok b cx2" "cpos cx1 \<le> cpos cx2" using p(2) by (simp_all add: fr_def)
      obtain pp where pp: "jpos cx2 = Some pp" using jpos_ok [OF j2(1)] by blast
      have z: "(ucast (hd (json_text v)) :: u32) \<noteq> 0" using json_text_hd [OF v(2)] by (simp add: ucast_num)
      show ?thesis
      proof (cases "out_of_memory q")
        case True
        then have "array_loop pv (Suc n) cx a = Some (JSON_MEMORY_ERROR, a, c', perr pp cx2)" using r(1) p(1) pp z by (simp add: out_of_memory_def)
        then show ?thesis using sres_memory [of b cx a "perr pp cx2" a] lfr_fr [OF f2, of a] True by (simp add: out_of_memory_def)
      next
        case False
        then have q: "q = JSON_OK" "reps b jv v" "c' = last_symbol v ?X" "txt_of b cx2 = left v ?X" using p(3) by simp_all
        note ae = array_value_end_reps [OF q(2,3) v(3) e]
        have l2: "length els < cpos cx2" using r(5) j2(2) Suc.prems(3) by linarith
        have s2: "slots_rel cx2 a els" by (rule slots_rel_fr [OF f2 Suc.prems(2)])
        obtain m a3 es3 cx3 where d: "add_slot alloc_slots sizeof_json_value a jv cx2 = Some (m, a3, cx3)" "lfr b cx2 a cx3 a3"
            "slots_rel cx3 a3 es3" "length es3 \<le> cpos cx3" "cpos cx3 = cpos cx2" "m \<noteq> None \<Longrightarrow> \<exists>x. es3 = els @ [(x, jv)]" "p_htc cx3 = p_htc cx2"
            "m = None \<Longrightarrow> \<not> granting"
          by (rule add_value_step [OF j2(1) s2 l2 Suc.prems(4) disjI1 [OF refl], of jv]) blast
        have f3: "lfr b cx a cx3 a3" by (rule lfr_trans [OF lfr_fr [OF f2] d(2)])
        have add: "add_array_value a jv cx2 = Some (m, a3, cx3)" using d(1) by (simp add: add_array_value_def alloc_array_values_def [abs_def])
        have t3: "txt_of b cx3 = left v ?X" using q(4) d(7) by (simp add: txt_of_def cpos_def hc_def)
        show ?thesis
        proof (cases "m = None")
          case True
          then have "array_loop pv (Suc n) cx a = Some (JSON_MEMORY_ERROR, a3, c', cx3)" using r(1) p(1) pp z q(1) ae add by simp
          then show ?thesis using sres_memory [OF f3] d(8) True by simp
        next
          case False
          then obtain x mm where es3: "es3 = els @ [(x, jv)]" and m: "m = Some mm" using d(6) by blast
          have rr: "sres b cx3 a3 es3 (reps b) RBRACKET post vs (if c' = RBRACKET then Some (JSON_OK, a3, c', cx3) else array_loop pv n cx3 a3)"
          proof (cases "c' = RBRACKET")
            case True
            then have "vs = []" "left v ?X = post" using ae(3) by (auto simp: left_def split: if_splits)
            moreover have "lfr b cx3 a3 cx3 a3" using d(2) by (simp add: lfr_def keeps_refl)
            ultimately show ?thesis using True sres_done [of b cx3 a3 cx3 a3 post es3] t3 d(3) by simp
          next
            case False
            have j3: "jok b cx3" "length b - cpos cx3 < n" "length b - cpos cx3 \<le> k"
              using d(2,5) j2(2) k1 by (simp_all add: lfr_def)
            have "left v ?X = commas (map json_text vs) @ 0x5D # post \<or> left v ?X = ?X"
              using False ae(3) by (auto simp: left_def)
            then have "sres b cx3 a3 es3 (reps b) RBRACKET post vs (array_loop pv n cx3 a3)"
              using Suc.IH [OF j3(1) d(3,4) Suc.prems(4) j3(2,3) Suc.prems(7) vs] t3 by simp
            then show ?thesis using False by simp
          qed
          have st: "array_loop pv (Suc n) cx a = (if c' = RBRACKET then Some (JSON_OK, a3, c', cx3) else array_loop pv n cx3 a3)"
            using r(1) p(1) pp z q(1) ae(1,2) add m by simp
          show ?thesis unfolding Cons st by (rule sres_trans [OF f3 sres_Cons [OF rr [unfolded es3] q(2)]])
        qed
      qed
    qed
  qed
qed simp
text \<open>Objects.\<close>

lemma pair_value_end_reps:
  assumes "reps b jv v" "c = last_symbol v ys" "ends v ys" "jscalar v \<Longrightarrow> hd ys = 0x2C \<or> hd ys = 0x7D"
  shows "jv \<noteq> JSON_NONE" "pair_value_end jv c" "scalar jv = jscalar v" "jscalar v \<Longrightarrow> c = ucast (hd ys)"
  using assms by (cases rule: reps.cases; auto simp: last_symbol_def pair_value_end_def quote_def jscalar_def scalar_def)+

text \<open>From the colon on.\<close>

lemma pair_value_text:
  assumes j: "jok b cx" and s: "slots_rel cx ob els" and len: "length els < cpos cx" and sz: "length b < 2 ^ 28"
    and pv: "pv_text b pv k v" "json_ok v" "str_rep b name nm" and k: "length b - cpos cx \<le> k"
    and x: "txt_of b cx = json_text v @ ys" "ends v ys" "jscalar v \<Longrightarrow> hd ys = 0x2C \<or> hd ys = 0x7D"
    and fin: "jscalar v \<Longrightarrow> hd ys = 0x7D \<Longrightarrow> vs = [] \<and> tl ys = post"
    and kk1: "\<And>cx1 ob1 es1. jscalar v \<Longrightarrow> hd ys \<noteq> 0x7D \<Longrightarrow> jok b cx1 \<Longrightarrow> slots_rel cx1 ob1 es1 \<Longrightarrow> length es1 \<le> cpos cx1 \<Longrightarrow> cpos cx < cpos cx1 \<Longrightarrow>
      txt_of b cx1 = tl ys \<Longrightarrow> sres b cx1 ob1 es1 (pair_rep b) RBRACE post vs (kk cx1 ob1 False False js_zero)"
    and kk2: "\<And>cx1 ob1 es1. \<not> jscalar v \<Longrightarrow> jok b cx1 \<Longrightarrow> slots_rel cx1 ob1 es1 \<Longrightarrow> length es1 \<le> cpos cx1 \<Longrightarrow> cpos cx < cpos cx1 \<Longrightarrow>
      txt_of b cx1 = ys \<Longrightarrow> sres b cx1 ob1 es1 (pair_rep b) RBRACE post vs (kk cx1 ob1 True True js_zero)"
  shows "sres b cx ob els (pair_rep b) RBRACE post ((nm, v) # vs) (pair_value pv kk cx ob name)"
proof -
  note u = jok_doc [OF j]
  have x1: "txt_of b cx = hd (json_text v) # tl (json_text v) @ ys" using x(1) json_text_hd [OF pv(2)] by (cases "json_text v") auto
  obtain pos cx1 where r: "jread cx = Some (ucast (hd (json_text v)), pos, cx1)" "at_text b cx cx1 (tl (json_text v) @ ys)"
      "utf8_doc b cx1" "unat pos = cpos cx" "cpos cx1 = Suc (cpos cx)"
    by (rule read_one [OF u x1]) (use json_text_hd [OF pv(2)] in simp_all)
  have f1: "fr b cx cx1" using txt_of_fr_ahead [OF r(2) j] by simp
  have cur: "cur b cx1 (hd (json_text v)) pos (tl (json_text v) @ ys)" using x1 r(3-5) by (simp add: cur_def txt_of_def)
  have k1: "length b - cpos cx1 < k" using r(5) k cpos_le [OF r(3)] by linarith
  obtain q jv c' cx2 where p: "pv cx1 (ucast (hd (json_text v))) pos = Some (q, jv, c', cx2)" "fr b cx1 cx2"
      "out_of_memory q \<or> q = JSON_OK \<and> reps b jv v \<and> c' = last_symbol v ys \<and> txt_of b cx2 = left v ys"
    by (rule pv_textD [OF pv(1) fr_jok [OF f1] cur k1 x(2)]) blast
  have f2: "fr b cx cx2" by (rule fr_trans [OF f1 p(2)])
  have j2: "jok b cx2" "cpos cx1 \<le> cpos cx2" using p(2) by (simp_all add: fr_def)
  obtain pp where pp: "jpos cx2 = Some pp" using jpos_ok [OF j2(1)] by blast
  show ?thesis
  proof (cases "out_of_memory q")
    case True
    then have "pair_value pv kk cx ob name = Some (JSON_MEMORY_ERROR, ob, c', cx2)" using r(1) p(1) pp by (simp add: pair_value_def out_of_memory_def)
    then show ?thesis using sres_memory [OF lfr_fr [OF f2]] True by (simp add: out_of_memory_def)
  next
    case False
    then have q: "q = JSON_OK" "reps b jv v" "c' = last_symbol v ys" "txt_of b cx2 = left v ys" using p(3) by simp_all
    note pe = pair_value_end_reps [OF q(2,3) x(2,3)]
    have l2: "length els < cpos cx2" using r(5) j2(2) len by linarith
    have s2: "slots_rel cx2 ob els" by (rule slots_rel_fr [OF f2 s])
    obtain m ob3 es3 cx3 where d: "add_slot alloc_slots sizeof_json_pair ob (name, jv) cx2 = Some (m, ob3, cx3)" "lfr b cx2 ob cx3 ob3"
        "slots_rel cx3 ob3 es3" "length es3 \<le> cpos cx3" "cpos cx3 = cpos cx2" "m \<noteq> None \<Longrightarrow> \<exists>a. es3 = els @ [(a, name, jv)]" "p_htc cx3 = p_htc cx2"
        "m = None \<Longrightarrow> \<not> granting"
      by (rule add_value_step [OF j2(1) s2 l2 sz disjI2 [OF refl], of "(name, jv)"]) blast
    have f3: "lfr b cx ob cx3 ob3" by (rule lfr_trans [OF lfr_fr [OF f2] d(2)])
    have add: "add_object_pair ob (name, jv) cx2 = Some (m, ob3, cx3)" using d(1) by (simp add: add_object_pair_def alloc_object_pairs_def [abs_def])
    have t3: "txt_of b cx3 = left v ys" using q(4) d(7) by (simp add: txt_of_def cpos_def hc_def)
    have j3: "jok b cx3" "cpos cx < cpos cx3" using d(2,5) j2(2) r(5) by (simp_all add: lfr_def)
    show ?thesis
    proof (cases m)
      case None
      then have "pair_value pv kk cx ob name = Some (JSON_MEMORY_ERROR, ob3, c', cx3)" using r(1) p(1) pp q(1) pe(1,2) add by (simp add: pair_value_def)
      then show ?thesis using sres_memory [OF f3] d(8) None by simp
    next
      case (Some mm)
      then obtain a where es3: "es3 = els @ [(a, name, jv)]" using d(6) by blast
      let ?m = "if jscalar v \<and> c' = RBRACE then Some (JSON_OK, ob3, c', cx3)
          else if jscalar v \<and> c' = COMMA then kk cx3 ob3 False False js_zero else kk cx3 ob3 True True js_zero"
      have rr: "sres b cx3 ob3 es3 (pair_rep b) RBRACE post vs ?m"
      proof (cases "jscalar v")
        case False
        then show ?thesis using kk2 [OF _ j3(1) d(3,4) j3(2)] t3 by (simp add: left_def)
      next
        case True
        show ?thesis
        proof (cases "hd ys = 0x7D")
          case True
          have "c' = RBRACE" using pe(4) \<open>jscalar v\<close> True by simp
          moreover have "vs = []" "left v ys = post" using fin \<open>jscalar v\<close> True by (simp_all add: left_def)
          moreover have "lfr b cx3 ob3 cx3 ob3" using j3(1) by (simp add: lfr_refl)
          ultimately show ?thesis using \<open>jscalar v\<close> sres_done [of b cx3 ob3 cx3 ob3 post es3] t3 d(3) by simp
        next
          case False
          then have "c' = COMMA" using pe(4) \<open>jscalar v\<close> x(3) by auto
          then show ?thesis using kk1 [OF \<open>jscalar v\<close> False j3(1) d(3,4) j3(2)] t3 \<open>jscalar v\<close> by (simp add: left_def)
        qed
      qed
      have st: "pair_value pv kk cx ob name = ?m" using r(1) p(1) pp q(1) pe(1-3) add Some by (simp add: pair_value_def)
      have "pair_rep b (name, jv) (nm, v)" using q(2) pv(3) by (simp add: pair_rep_def)
      then show ?thesis unfolding st using sres_trans [OF f3 sres_Cons [OF rr [unfolded es3]]] by blast
    qed
  qed
qed
definition pair_ok :: "u8 list \<Rightarrow> 'a value_parser \<Rightarrow> nat \<Rightarrow> u8 list \<times> json \<Rightarrow> bool" where
  "pair_ok b pv k p \<longleftrightarrow> name_ok (fst p) \<and> pv_text b pv k (snd p) \<and> json_ok (snd p)"

lemma object_loop_text:
  "jok b cx \<Longrightarrow> slots_rel cx ob els \<Longrightarrow> length els \<le> cpos cx \<Longrightarrow> length b < 2 ^ 28 \<Longrightarrow> length b - cpos cx < n \<Longrightarrow>
     length b - cpos cx \<le> k \<Longrightarrow> \<forall>p \<in> set ps. pair_ok b pv k p \<Longrightarrow>
     txt_of b cx = (if f \<and> ps \<noteq> [] then [0x2C] else []) @ commas (pairs_text ps) @ 0x7D # post \<Longrightarrow>
     sres b cx ob els (pair_rep b) RBRACE post ps (object_loop pv n cx ob f f js_zero)"
proof (induction n arbitrary: cx ob els ps f rule: less_induct)
  case (less n)
  note u = jok_doc [OF less.prems(1)]
  obtain n1 where n: "n = Suc n1" using less.prems(5) by (cases n) auto
  show ?case
  proof (cases ps)
    case Nil
    then have x: "txt_of b cx = 0x7D # post" using less.prems(8) by (simp add: pairs_text_def)
    obtain pos cx1 where r: "jread cx = Some (ucast (0x7D :: u8), pos, cx1)" "at_text b cx cx1 post" "utf8_doc b cx1"
      by (rule read_one [OF u x]) simp_all
    have g: "fr b cx cx1" "txt_of b cx1 = post" using txt_of_fr_ahead [OF r(2) less.prems(1)] by simp_all
    have "object_loop pv n cx ob f f js_zero = Some (JSON_OK, ob, RBRACE, cx1)"
      using r(1) n by (cases f) (simp_all add: quote_def upper_def lower_def blank_def)
    then show ?thesis using sres_done [OF lfr_fr [OF g(1)] g(2) slots_rel_fr [OF g(1) less.prems(2)]] Nil by simp
  next
    case (Cons p vs)
    obtain nm v where p: "p = (nm, v)" by (cases p)
    show ?thesis
    proof (cases f)
      case True
      then have x: "txt_of b cx = 0x2C # commas (pairs_text ps) @ 0x7D # post" using less.prems(8) Cons by simp
      obtain pos cx1 where r: "jread cx = Some (ucast (0x2C :: u8), pos, cx1)" "at_text b cx cx1 (commas (pairs_text ps) @ 0x7D # post)"
          "utf8_doc b cx1" "cpos cx1 = Suc (cpos cx)"
        by (rule read_one [OF u x]) simp_all
      have g: "fr b cx cx1" "txt_of b cx1 = commas (pairs_text ps) @ 0x7D # post" using txt_of_fr_ahead [OF r(2) less.prems(1)] by simp_all
      have pos: "length els \<le> cpos cx1" "length b - cpos cx1 < n1" "length b - cpos cx1 \<le> k" "n1 < n"
        using r(4) less.prems(3,5,6) cpos_le [OF r(3)] n by linarith+
      have "sres b cx1 ob els (pair_rep b) RBRACE post ps (object_loop pv n1 cx1 ob False False js_zero)"
        by (rule less.IH [OF pos(4) fr_jok [OF g(1)] slots_rel_fr [OF g(1) less.prems(2)] pos(1) less.prems(4) pos(2,3) less.prems(7)])
           (use g(2) in simp)
      moreover have "object_loop pv n cx ob f f js_zero = object_loop pv n1 cx1 ob False False js_zero" using r(1) n True by simp
      ultimately show ?thesis using sres_trans [OF lfr_fr [OF g(1)]] by simp
    next
      case False
      let ?X = "(if vs = [] then [] else 0x2C # commas (pairs_text vs)) @ 0x7D # post"
      have v: "name_ok nm" "pv_text b pv k v" "json_ok v" using less.prems(7) Cons p by (auto simp: pair_ok_def)
      have vs: "\<forall>p \<in> set vs. pair_ok b pv k p" using less.prems(7) Cons by simp
      have x: "txt_of b cx = 0x22 # nm @ 0x22 # 0x3A # json_text v @ ?X"
        using less.prems(8) False Cons p by (simp add: pairs_text_def commas_Cons pair_text_def)
      obtain pos cx1 where r: "jread cx = Some (ucast (0x22 :: u8), pos, cx1)" "at_text b cx cx1 (nm @ 0x22 # 0x3A # json_text v @ ?X)"
          "utf8_doc b cx1" "unat pos = cpos cx" "cpos cx1 = Suc (cpos cx)"
        by (rule read_one [OF u x]) simp_all
      have f1: "fr b cx cx1" using txt_of_fr_ahead [OF r(2) less.prems(1)] by simp
      have cur: "cur b cx1 0x22 pos (nm @ 0x22 # 0x3A # json_text v @ ?X)" using x r(3-5) by (simp add: cur_def txt_of_def)
      have tl: "length b = cpos cx + length (txt_of b cx)" using cpos_le [OF u] by (simp add: txt_of_def)
      then have ln: "length nm < n1" "1 < n1" using less.prems(5) n unfolding x by simp_all
      obtain str cx2 where st: "parse_string_name n1 cx1 js_zero QUOTE pos = Some (JSON_OK, str, QUOTE, cx2)" "str_rep b str nm"
          "at_text b cx1 cx2 (0x3A # json_text v @ ?X)"
        by (rule parse_string_name_text [OF cur v(1) ln(1)]) blast
      have f2: "fr b cx1 cx2" "txt_of b cx2 = 0x3A # json_text v @ ?X" using txt_of_fr_ahead [OF st(3) fr_jok [OF f1]] by simp_all
      note u2 = jok_doc [OF fr_jok [OF f2(1)]]
      obtain pos3 cx3 where r3: "jread cx2 = Some (ucast (0x3A :: u8), pos3, cx3)" "at_text b cx2 cx3 (json_text v @ ?X)"
          "utf8_doc b cx3" "cpos cx3 = Suc (cpos cx2)"
        by (rule read_one [OF u2 f2(2)]) simp_all
      have f3: "fr b cx2 cx3" "txt_of b cx3 = json_text v @ ?X" using txt_of_fr_ahead [OF r3(2) fr_jok [OF f2(1)]] by simp_all
      have f: "fr b cx cx3" by (rule fr_trans [OF fr_trans [OF f1 f2(1)] f3(1)])
      obtain n2 where n2: "n1 = Suc n2" using ln(2) by (cases n1) auto
      have pos: "cpos cx < cpos cx3" "length els < cpos cx3" "length b - cpos cx3 \<le> k" "length b - cpos cx3 < n2"
        using f2(1) r(5) r3(4) less.prems(3,5,6) cpos_le [OF r3(3)] n n2 by (auto simp: fr_def)
      have ih: "sres b cx4 ob4 es4 (pair_rep b) RBRACE post vs (object_loop pv n2 cx4 ob4 g g js_zero)"
        if "jok b cx4" "slots_rel cx4 ob4 es4" "length es4 \<le> cpos cx4" "cpos cx3 < cpos cx4"
          "txt_of b cx4 = (if g \<and> vs \<noteq> [] then [0x2C] else []) @ commas (pairs_text vs) @ 0x7D # post" for cx4 ob4 es4 g
      proof -
        have "n2 < n" "length b - cpos cx4 < n2" "length b - cpos cx4 \<le> k" using that(4) pos n n2 by linarith+
        from less.IH [OF this(1) that(1-3) less.prems(4) this(2,3) vs that(5)] show ?thesis .
      qed
      have e: "ends v ?X" "jscalar v \<Longrightarrow> hd ?X = 0x2C \<or> hd ?X = 0x7D" by (auto simp: ends_def num_end_def)
      have "sres b cx3 ob els (pair_rep b) RBRACE post ((nm, v) # vs) (pair_value pv (object_loop pv n2) cx3 ob str)"
        by (rule pair_value_text [OF fr_jok [OF f] slots_rel_fr [OF f less.prems(2)] pos(2) less.prems(4) v(2,3) st(2) pos(3) f3(2) e])
           (use ih [of _ _ _ False] ih [of _ _ _ True] in \<open>auto split: if_splits simp: pairs_text_def\<close>)
      moreover have "object_loop pv n cx ob f f js_zero = pair_value pv (object_loop pv n2) cx3 ob str"
        using r(1) st(1) r3(1) n n2 False by (simp add: quote_def)
      ultimately show ?thesis using sres_trans [OF lfr_fr [OF f]] Cons p by simp
    qed
  qed
qed
lemma elems_rel: "slots_rel cx s es \<Longrightarrow> elems s = map snd es"
proof (cases s)
  case (Slots pp xs)
  assume "slots_rel cx s es"
  then obtain m where "xs = map Some es @ replicate m None" using Slots by (auto simp: slots_rel_def)
  then show ?thesis using Slots by (simp add: elems_def comp_def)
qed

lemma punct_value: "punct_ok (parse_value (Suc n))"
  by (auto simp: punct_ok_def quote_def digit_def lower_def)

text \<open>The result of a step of \<open>parse_value\<close>.\<close>

definition vres :: "u8 list \<Rightarrow> 'a json_context \<Rightarrow> json \<Rightarrow> u8 list \<Rightarrow> (json_err \<times> json_value \<times> u32 \<times> 'a json_context) option \<Rightarrow> bool" where
  "vres b cx v ys m \<longleftrightarrow> (\<exists>r jv c' cx'. m = Some (r, jv, c', cx') \<and> fr b cx cx' \<and>
     (out_of_memory r \<or> r = JSON_OK \<and> reps b jv v \<and> c' = last_symbol v ys \<and> txt_of b cx' = left v ys))"

lemma vres_ok: "fr b cx cx' \<Longrightarrow> reps b jv v \<Longrightarrow> c' = last_symbol v ys \<Longrightarrow> txt_of b cx' = left v ys \<Longrightarrow> vres b cx v ys (Some (JSON_OK, jv, c', cx'))"
  by (simp add: vres_def)

lemma pv_textI:
  assumes "\<And>cx pos ys. jok b cx \<Longrightarrow> cur b cx (hd (json_text v)) pos (tl (json_text v) @ ys) \<Longrightarrow> length b - cpos cx < k \<Longrightarrow> ends v ys \<Longrightarrow>
    vres b cx v ys (pv cx (ucast (hd (json_text v))) pos)"
  shows "pv_text b pv k v"
  using assms unfolding pv_text_def vres_def by blast

lemma cur_pieces:
  assumes "cur b cx y pos ys" "jok b cx"
  shows "txt_of b cx = ys" "length ys = length b - cpos cx" "\<exists>p. jpos cx = Some p"
  using cur_txt [OF assms(1)] jpos_doc [OF jok_doc [OF assms(2)]] by (auto simp: txt_of_def)

lemma const_value:
  assumes "json_text v = const_text jv" "jv = JSON_TRUE \<or> jv = JSON_FALSE \<or> jv = JSON_NULL" "reps b jv v" "jscalar v" "is_const v"
    and "jok b cx" "cur b cx (hd (json_text v)) pos (tl (json_text v) @ ys)" "length b - cpos cx < k" "ends v ys" "k + 2 \<le> Suc m"
  shows "vres b cx v ys (parse_value (Suc m) cx (ucast (hd (json_text v))) pos)"
proof -
  obtain z zs where z: "ys = z # zs" "num_end z" using assms(4,9) by (cases ys) (auto simp: ends_def)
  have "length (json_text v) < m" using cur_pieces(2) [OF assms(7,6)] assms(8,10) z(1) by (simp add: less_diff_conv)
  then obtain cx' where c: "parse_const m cx JSON_NONE (ucast (hd (json_text v))) pos = Some (JSON_OK, jv, ucast z, cx')" "at_text b cx cx' zs"
    using parse_const_text [OF assms(2) assms(1), of b cx pos z zs m] assms(7) z by auto
  have "hd (json_text v) = 0x74 \<or> hd (json_text v) = 0x66 \<or> hd (json_text v) = 0x6E" using assms(1,2) by (auto simp: const_text_def)
  then have "parse_value (Suc m) cx (ucast (hd (json_text v))) pos = parse_const m cx JSON_NONE (ucast (hd (json_text v))) pos"
    by (elim disjE) (simp_all add: quote_def digit_def lower_def)
  then show ?thesis using c txt_of_fr_ahead [OF c(2) assms(6)] vres_ok [of b cx cx' jv v _ ys] assms(3,4,5) z(1)
    by (simp add: left_def last_symbol_const)
qed

lemma parse_value_text:
  "length b < 2 ^ 28 \<Longrightarrow> json_ok v \<Longrightarrow> k + 2 \<le> n \<Longrightarrow> pv_text b (parse_value n) k v"
proof (induction v arbitrary: k n)
  case (JString t)
  obtain m where m: "n = Suc m" using JString.prems(3) by (cases n) auto
  show ?case
  proof (rule pv_textI)
    fix cx pos ys assume a: "jok b cx" "cur b cx (hd (json_text (JString t))) pos (tl (json_text (JString t)) @ ys)" "length b - cpos cx < k"
    have c: "cur b cx 0x22 pos (t @ 0x22 # ys)" using a(2) by simp
    have l: "length t < m" using cur_pieces(2) [OF c a(1)] a(3) JString.prems(3) m by simp
    obtain str cx' where s: "parse_string_value m cx js_zero QUOTE = Some (JSON_OK, str, QUOTE, cx')" "str_rep b str t" "at_text b cx cx' ys"
      by (rule parse_string_value_text [OF c _ l]) (use JString.prems(2) in auto)
    show "vres b cx (JString t) ys (parse_value n cx (ucast (hd (json_text (JString t)))) pos)"
      using s(1) m txt_of_fr_ahead [OF s(3) a(1)] vres_ok [OF _ rep_string [OF s(2)], of cx cx' QUOTE ys]
      by (simp add: quote_def last_symbol_def left_def jscalar_def)
  qed
next
  case (JNumber t)
  obtain m where m: "n = Suc m" using JNumber.prems(3) by (cases n) auto
  show ?case
  proof (rule pv_textI)
    fix cx pos ys assume a: "jok b cx" "cur b cx (hd (json_text (JNumber t))) pos (tl (json_text (JNumber t)) @ ys)" "length b - cpos cx < k" "ends (JNumber t) ys"
    obtain z zs where z: "ys = z # zs" "num_end z" using a(4) by (cases ys) (auto simp: ends_def jscalar_def)
    have t: "t \<noteq> []" "hd t = 0x2D \<or> hd t = 0x2B \<or> cdigit (hd t)" using JNumber.prems(2) by (auto simp: number_ok_def Let_def split: if_splits)
    have c: "cur b cx (hd t) pos (tl t @ z # zs)" using a(2) z(1) by simp
    have l: "length t < m" using cur_pieces(2) [OF c a(1)] a(3) JNumber.prems(3) m t(1) by (cases t) auto
    obtain str cx' where s: "parse_number m cx js_zero (ucast (hd t)) pos = Some (JSON_OK, str, ucast z, cx')" "str_rep b str t" "at_text b cx cx' zs"
      by (rule parse_number_text [OF c _ z(2) l]) (use JNumber.prems(2) in auto)
    have "hd t \<noteq> 0x22" "hd t \<noteq> 0x27" "hd t \<noteq> 0x5B" "hd t \<noteq> 0x7B" using t(2) by (auto simp: cdigit_def)
    then have "parse_value n cx (ucast (hd t)) pos = Some (JSON_OK, JSON_NUMBER str, ucast z, cx')"
      using s(1) m t(2) by (auto simp: quote_def ucast_num digit_ucast)
    then show "vres b cx (JNumber t) ys (parse_value n cx (ucast (hd (json_text (JNumber t)))) pos)"
      using txt_of_fr_ahead [OF s(3) a(1)] vres_ok [OF _ rep_number [OF s(2)], of cx cx' "ucast z" ys] z(1)
      by (simp add: last_symbol_def left_def jscalar_def)
  qed
next
  case (JObject ps)
  obtain m where m: "n = Suc m" using JObject.prems(3) by (cases n) auto
  show ?case
  proof (rule pv_textI)
    fix cx pos ys assume a: "jok b cx" "cur b cx (hd (json_text (JObject ps))) pos (tl (json_text (JObject ps)) @ ys)" "length b - cpos cx < k"
    let ?k = "length b - cpos cx"
    have x: "txt_of b cx = commas (pairs_text ps) @ 0x7D # ys" using cur_txt [OF a(2)] by (simp add: pairs_text_def split_def comp_def)
    have ok: "\<forall>p \<in> set ps. pair_ok b (parse_value m) ?k p"
    proof
      fix p assume p: "p \<in> set ps"
      have o: "name_ok (fst p)" "json_ok (snd p)" using JObject.prems(2) p by (simp_all add: list_all_iff split_def)
      have "?k + 2 \<le> m" using a(3) JObject.prems(3) m by simp
      from JObject.IH [OF p _ JObject.prems(1) o(2) this] have "pv_text b (parse_value m) ?k (snd p)" by (cases p) simp
      then show "pair_ok b (parse_value m) ?k p" using o by (simp add: pair_ok_def)
    qed
    have l: "?k < m" using a(3) JObject.prems(3) m by simp
    have "sres b cx (Slots None []) [] (pair_rep b) RBRACE ys ps (object_loop (parse_value m) m cx (Slots None []) False False js_zero)"
      by (rule object_loop_text [OF a(1) slots_rel_empty _ JObject.prems(1) l order_refl ok]) (use x in simp_all)
    then obtain r ob c' cx' where o: "object_loop (parse_value m) m cx (Slots None []) False False js_zero = Some (r, ob, c', cx')"
        "lfr b cx (Slots None [] :: json_object) cx' ob"
        "out_of_memory r \<or> r = JSON_OK \<and> c' = RBRACE \<and> txt_of b cx' = ys \<and>
         (\<exists>es1. slots_rel cx' ob ([] @ es1) \<and> list_all2 (\<lambda>x v. pair_rep b (snd x) v) es1 ps)"
      unfolding sres_def by blast
    have f: "fr b cx cx'" using o(2) keeps_live [of cx "[]" cx' ob] by (simp add: lfr_def fr_def)
    obtain p where p: "jpos cx = Some p" using jpos_ok [OF a(1)] by blast
    have st: "parse_value n cx (ucast (hd (json_text (JObject ps)))) pos = Some (r, JSON_OBJECT ob, c', cx')"
      using o(1) p m by (simp add: quote_def parse_object_def)
    have "out_of_memory r \<or> r = JSON_OK \<and> reps b (JSON_OBJECT ob) (JObject ps) \<and> c' = RBRACE \<and> txt_of b cx' = ys"
      using o(3) by (auto intro!: rep_object simp: elems_rel list_all2_map1 pair_rep_def)
    then show "vres b cx (JObject ps) ys (parse_value n cx (ucast (hd (json_text (JObject ps)))) pos)"
      unfolding vres_def st using f by (simp add: last_symbol_def left_def jscalar_def)
  qed
next
  case (JArray es)
  obtain m where m: "n = Suc m" using JArray.prems(3) by (cases n) auto
  show ?case
  proof (rule pv_textI)
    fix cx pos ys assume a: "jok b cx" "cur b cx (hd (json_text (JArray es))) pos (tl (json_text (JArray es)) @ ys)" "length b - cpos cx < k"
    let ?k = "length b - cpos cx"
    have x: "txt_of b cx = commas (map json_text es) @ 0x5D # ys" using cur_txt [OF a(2)] by simp
    have km: "?k + 2 \<le> m" "?k < m" using a(3) JArray.prems(3) m by simp_all
    have ok: "\<forall>v \<in> set es. pv_text b (parse_value m) ?k v \<and> json_ok v \<and> \<not> is_array v"
      using JArray.IH [OF _ JArray.prems(1) _ km(1)] JArray.prems(2) by (auto simp: list_all_iff)
    obtain m1 where m1: "m = Suc m1" using km(2) by (cases m) auto
    have "sres b cx (Slots None []) [] (reps b) RBRACKET ys es (array_loop (parse_value m) m cx (Slots None []))"
      by (rule array_loop_text [OF a(1) slots_rel_empty _ JArray.prems(1) km(2) order_refl _ ok])
         (use x punct_value [of m1] m1 in simp_all)
    then obtain r ar c' cx' where o: "array_loop (parse_value m) m cx (Slots None []) = Some (r, ar, c', cx')"
        "lfr b cx (Slots None [] :: json_array) cx' ar"
        "out_of_memory r \<or> r = JSON_OK \<and> c' = RBRACKET \<and> txt_of b cx' = ys \<and>
         (\<exists>es1. slots_rel cx' ar ([] @ es1) \<and> list_all2 (\<lambda>x v. reps b (snd x) v) es1 es)"
      unfolding sres_def by blast
    have f: "fr b cx cx'" using o(2) keeps_live [of cx "[]" cx' ar] by (simp add: lfr_def fr_def)
    obtain p where p: "jpos cx = Some p" using jpos_ok [OF a(1)] by blast
    have st: "parse_value n cx (ucast (hd (json_text (JArray es)))) pos = Some (r, JSON_ARRAY ar, c', cx')"
      using o(1) p m by (simp add: quote_def parse_array_def)
    have "out_of_memory r \<or> r = JSON_OK \<and> reps b (JSON_ARRAY ar) (JArray es) \<and> c' = RBRACKET \<and> txt_of b cx' = ys"
      using o(3) by (auto intro!: rep_array simp: elems_rel list_all2_map1)
    then show "vres b cx (JArray es) ys (parse_value n cx (ucast (hd (json_text (JArray es)))) pos)"
      unfolding vres_def st using f by (simp add: last_symbol_def left_def jscalar_def)
  qed
next
  case JTrue
  then obtain m where m: "n = Suc m" by (cases n) auto
  show ?case unfolding m
    by (rule pv_textI, rule const_value [of _ JSON_TRUE]) (use JTrue m in \<open>auto simp: const_text_def jscalar_def is_const_def intro: rep_true\<close>)
next
  case JFalse
  then obtain m where m: "n = Suc m" by (cases n) auto
  show ?case unfolding m
    by (rule pv_textI, rule const_value [of _ JSON_FALSE]) (use JFalse m in \<open>auto simp: const_text_def jscalar_def is_const_def intro: rep_false\<close>)
next
  case JNull
  then obtain m where m: "n = Suc m" by (cases n) auto
  show ?case unfolding m
    by (rule pv_textI, rule const_value [of _ JSON_NULL]) (use JNull m in \<open>auto simp: const_text_def jscalar_def is_const_def intro: rep_null\<close>)
qed
text \<open>The parser of documents. The opening bracket of the object is read by its loop.\<close>

lemma json_parse_object:
  assumes "fresh cx" "b = json_text (JObject ps)" "json_ok (JObject ps)" "unat sz = length b" "length b < 2 ^ 28" "length b + 3 \<le> n"
  obtains r cx' where "json_parse n cx (Some b) sz = Some (r, cx')" "jok b cx'" "out_of_memory r \<or> r = JSON_OK \<and> reps b (JSON_OBJECT (root cx')) (JObject ps)"
proof -
  have tx: "b = 0x7B # commas (pairs_text ps) @ 0x7D # []" using assms(2) by (simp add: pairs_text_def split_def comp_def)
  have ut: "utf8_text b" unfolding tx utf8_text_def by (cases "commas (pairs_text ps)") auto
  have st: "start_of b = 0" unfolding start_of_def tx by simp
  obtain cx0 where 0: "\<And>n. json_parse n cx (Some b) sz = do {
      (r, ob, c, cx') \<leftarrow> parse_object (parse_value n) n cx0 (Slots None []) LBRACE; Some (r, cx'\<lparr>root := ob\<rparr>) }"
      "jok b cx0" "cpos cx0 = 0"
    using json_init [OF assms(1,4) ut] st by metis
  obtain m where m: "n = Suc m" using assms(6) by (cases n) auto
  have x: "txt_of b cx0 = 0x7B # commas (pairs_text ps) @ 0x7D # []" using tx 0(3) by (simp add: txt_of_def)
  obtain pos cx1 where r: "jread cx0 = Some (ucast (0x7B :: u8), pos, cx1)" "at_text b cx0 cx1 (commas (pairs_text ps) @ 0x7D # [])"
    by (rule read_one [OF jok_doc [OF 0(2)] x]) simp_all
  have f1: "fr b cx0 cx1" "txt_of b cx1 = commas (pairs_text ps) @ 0x7D # []" using txt_of_fr_ahead [OF r(2) 0(2)] by simp_all
  have ok: "\<forall>p \<in> set ps. pair_ok b (parse_value n) (length b) p"
  proof
    fix p assume p: "p \<in> set ps"
    have o: "name_ok (fst p)" "json_ok (snd p)" using assms(3) p by (simp_all add: list_all_iff split_def)
    have "length b + 2 \<le> n" using assms(6) by simp
    from parse_value_text [OF assms(5) o(2) this] show "pair_ok b (parse_value n) (length b) p" using o by (simp add: pair_ok_def)
  qed
  have l: "length b - cpos cx1 < m" "length b - cpos cx1 \<le> length b" using assms(6) m by simp_all
  have "sres b cx1 (Slots None []) [] (pair_rep b) RBRACE [] ps (object_loop (parse_value n) m cx1 (Slots None []) False False js_zero)"
    by (rule object_loop_text [OF fr_jok [OF f1(1)] slots_rel_empty _ assms(5) l(1,2) ok]) (use f1(2) in simp_all)
  then obtain q ob c' cx' where o: "object_loop (parse_value n) m cx1 (Slots None []) False False js_zero = Some (q, ob, c', cx')"
      "lfr b cx1 (Slots None [] :: json_object) cx' ob"
      "out_of_memory q \<or> q = JSON_OK \<and> c' = RBRACE \<and> txt_of b cx' = [] \<and>
       (\<exists>es1. slots_rel cx' ob ([] @ es1) \<and> list_all2 (\<lambda>x v. pair_rep b (snd x) v) es1 ps)"
    unfolding sres_def by blast
  obtain p where p: "jpos cx0 = Some p" using jpos_ok [OF 0(2)] by blast
  have "object_loop (parse_value n) n cx0 (Slots None []) False False js_zero = Some (q, ob, c', cx')"
    using r(1) o(1) m by (simp add: quote_def upper_def lower_def)
  then have "json_parse n cx (Some b) sz = Some (q, cx'\<lparr>root := ob\<rparr>)" using 0(1) p by (simp add: parse_object_def)
  moreover have "jok b (cx'\<lparr>root := ob\<rparr>)" using o(2) by (simp add: lfr_def jok_root)
  moreover have "out_of_memory q \<or> q = JSON_OK \<and> reps b (JSON_OBJECT (root (cx'\<lparr>root := ob\<rparr>))) (JObject ps)"
    using o(3) by (auto intro!: rep_object simp: elems_rel list_all2_map1 pair_rep_def)
  ultimately show ?thesis by (rule that)
qed

end

section \<open>Selecting\<close>

text \<open>The value under a path of names.\<close>

fun jlookup :: "json \<Rightarrow> u8 list list \<Rightarrow> json option" where
  "jlookup v [] = Some v"
| "jlookup (JObject ps) (nm # nms) = (case map_of ps nm of None \<Rightarrow> None | Some w \<Rightarrow> jlookup w nms)"
| "jlookup _ (nm # nms) = None"

fun path_text :: "u8 list list \<Rightarrow> u8 list" where
  "path_text [] = []"
| "path_text [nm] = nm"
| "path_text (nm # nm2 # nms) = nm @ 0x2E # path_text (nm2 # nms)"

definition path_name :: "u8 list \<Rightarrow> bool" where
  "path_name nm \<longleftrightarrow> nm \<noteq> [] \<and> (\<forall>y \<in> set nm. name_char y \<or> cdigit y)"

text \<open>Comparing two strings of bytes.\<close>

lemma cmp_loop_bytes:
  "(\<And>j. j < length xs \<Longrightarrow> deref h p1 (i + j) = Some (xs ! j) \<and> deref h p2 (i + j) = Some (ys ! j)) \<Longrightarrow> length ys = length xs \<Longrightarrow>
     \<exists>r. cmp_loop h E_UTF_8 p1 E_UTF_8 p2 i (length xs) c1 c2 = Some r \<and> (r = 0 \<longleftrightarrow> xs = ys)"
proof (induction xs arbitrary: ys i c1 c2)
  case (Cons x xs)
  obtain y ys' where ys: "ys = y # ys'" using Cons.prems(2) by (cases ys) auto
  have d: "deref h p1 i = Some x" "deref h p2 i = Some y" using Cons.prems(1) [of 0] ys by simp_all
  have rest: "deref h p1 (Suc i + j) = Some (xs ! j) \<and> deref h p2 (Suc i + j) = Some (ys' ! j)" if "j < length xs" for j
    using Cons.prems(1) [of "Suc j"] that ys by simp
  show ?case
  proof (cases "ucast x - ucast y = (0 :: u32)")
    case True
    then have "x = y" by (rule ucast_inj)
    then show ?thesis using True d ys Cons.IH [OF rest, of "ucast x" "ucast y"] Cons.prems(2) by (simp add: cmp_symbol_utf8)
  next
    case False
    then have "x \<noteq> y" by auto
    then show ?thesis using False d ys by (simp add: cmp_symbol_utf8)
  qed
qed simp

lemma jcompare_name:
  assumes "utf8_doc b cx" "take (length t) (drop p b) = t" "p + length t < length b"
    "take (length nm) (drop j bk) = nm" "j + length nm \<le> length bk" "length nm = length t" "length t < 2 ^ 32"
  shows "\<exists>r. jcompare cx (Doc p) (Ext bk j) (of_nat (length t)) = Some r \<and> (r = 0 \<longleftrightarrow> t = nm)"
proof -
  obtain a x where x: "p_htc cx = Some (a, x)" "utf8_content b (ht_content x)" using assms(1) by (auto simp: utf8_doc_def)
  have "unat (of_nat (length t) :: u32) = length t" using assms(7) by (intro unat_of_nat_small) simp
  moreover have "\<exists>r. cmp_loop (ht_content x) E_UTF_8 (Doc p) E_UTF_8 (Ext bk j) 0 (length t) 0 0 = Some r \<and> (r = 0 \<longleftrightarrow> t = nm)"
  proof (rule cmp_loop_bytes)
    fix k assume k: "k < length t"
    have "b ! (p + k) = t ! k" using arg_cong [OF assms(2), of "\<lambda>l. l ! k"] k assms(3) by simp
    moreover have "bk ! (j + k) = nm ! k" using arg_cong [OF assms(4), of "\<lambda>l. l ! k"] k assms(5,6) by simp
    ultimately show "deref (ht_content x) (Doc p) (0 + k) = Some (t ! k) \<and> deref (ht_content x) (Ext bk j) (0 + k) = Some (nm ! k)"
      using x(2) k assms(3,5,6) by (simp add: deref_def hbyte_doc rd_def)
  qed (use assms(6) in simp)
  ultimately show ?thesis using x by (simp add: jcompare_def ht_compare_def encoding_utf8 Let_def)
qed

lemma pair_by_name_text:
  assumes "utf8_doc b cx" "length b < 2 ^ 32" "take (length nm) (drop j bk) = nm" "j + length nm \<le> length bk" "length nm < 2 ^ 32"
  shows "list_all2 (pair_rep b) (map (\<lambda>x. snd (the x)) (filter (\<lambda>x. x \<noteq> None) xs)) ps \<Longrightarrow>
    \<exists>r. pair_by_name cx xs (Ext bk j) (of_nat (length nm)) = Some r \<and>
      (case map_of ps nm of None \<Rightarrow> r = None | Some w \<Rightarrow> \<exists>v. r = Some v \<and> reps b v w)"
proof (induction xs arbitrary: ps)
  case (Cons x xs)
  show ?case
  proof (cases x)
    case None
    then show ?thesis using Cons by simp
  next
    case (Some y)
    obtain a n v where y: "y = (a, n, v)" by (cases y) auto
    obtain t w ps' where ps: "ps = (t, w) # ps'" "pair_rep b (n, v) (t, w)"
        "list_all2 (pair_rep b) (map (\<lambda>x. snd (the x)) (filter (\<lambda>x. x \<noteq> None) xs)) ps'"
      using Cons.prems Some y by (cases ps) auto
    obtain p where n: "js_size n = of_nat (length t)" "js_data n = Some (Doc p)" "p + length t < length b" "take (length t) (drop p b) = t"
      using ps(2) by (auto simp: pair_rep_def str_rep_def)
    have lt: "length t < 2 ^ 32" using n(3) assms(2) by simp
    have sz: "(of_nat (length t) :: u32) = of_nat (length nm) \<longleftrightarrow> length t = length nm"
    proof -
      have "unat (of_nat (length t) :: u32) = length t" "unat (of_nat (length nm) :: u32) = length nm"
        by (rule unat_of_nat_small, use lt assms(5) in simp)+
      then show ?thesis by metis
    qed
    show ?thesis
    proof (cases "length t = length nm")
      case True
      then obtain r where "jcompare cx (Doc p) (Ext bk j) (of_nat (length t)) = Some r" "r = 0 \<longleftrightarrow> t = nm"
        using jcompare_name [OF assms(1) n(4,3) assms(3,4)] lt by auto
      then show ?thesis using Some y ps n(1,2) True Cons.IH [OF ps(3)] by (auto simp: pair_rep_def)
    next
      case False
      then show ?thesis using Some y ps n(1,2) sz Cons.IH [OF ps(3)] by auto
    qed
  qed
qed simp

text \<open>The loop over the path: it takes in a name, and selects at a dot and at the end.\<close>

lemma path_char: "name_char y \<or> cdigit y \<Longrightarrow> y \<noteq> 0x2E \<and> y \<noteq> 0x2F \<and> y \<noteq> 0 \<and> y \<noteq> 0x5B \<and> y \<noteq> 0x5D \<and> \<not> (y < 0x20 \<or> 0x80 \<le> y)"
  by (auto simp: name_char_def cdigit_def small_def word_le_nat_alt word_less_nat_alt)

lemma select_name:
  "\<forall>y \<in> set nm. name_char y \<or> cdigit y \<Longrightarrow> drop i bk = nm @ rest \<Longrightarrow>
     select_loop cx bk (length nm + k) i ob tmp str sz =
     select_loop cx bk k (i + length nm) ob tmp (if nm = [] then str else if str = None then Some i else str) (sz + of_nat (length nm))"
proof (induction nm arbitrary: i str sz)
  case (Cons y nm)
  have "i < length bk" using Cons.prems(2) by (metis append_Cons drop_eq_Nil2 list.distinct(1) not_less)
  then have b: "rd bk i = Some y" "drop (Suc i) bk = nm @ rest" using Cons.prems(2) by (simp_all add: rd_def Cons_nth_drop_Suc [symmetric])
  note y = path_char [of y]
  have "select_loop cx bk (length (y # nm) + k) i ob tmp str sz =
      select_loop cx bk (length nm + k) (Suc i) ob tmp (if str = None then Some i else str) (sz + 1)"
    using b(1) y Cons.prems(1) by simp
  also have "\<dots> = select_loop cx bk k (Suc i + length nm) ob tmp (if str = None then Some i else str) (sz + 1 + of_nat (length nm))"
    using Cons.IH [OF _ b(2), of "if str = None then Some i else str" "sz + 1"] Cons.prems(1) by auto
  finally show ?case by (simp add: add.assoc)
qed simp

lemma select_dot:
  assumes "rd bk i = Some 0x2E" "pair_by_name cx (sl_items ob) (Ext bk st) sz = Some (Some v)"
  shows "select_loop cx bk (Suc k) i ob tmp (Some st) sz =
    select_loop cx bk k (Suc i) (case v of JSON_OBJECT ob' \<Rightarrow> ob' | _ \<Rightarrow> ob) (Some v) None 0"
  using assms by (simp add: object_pair_by_name_def)

lemma select_path:
  assumes "utf8_doc b cx" "length b < 2 ^ 32"
  shows "\<forall>nm \<in> set nms. path_name nm \<Longrightarrow> nms \<noteq> [] \<Longrightarrow> drop i bk = path_text nms @ [0] \<Longrightarrow> length bk < 2 ^ 32 \<Longrightarrow>
    reps b (JSON_OBJECT ob) (JObject ps) \<Longrightarrow> jlookup (JObject ps) nms = Some w \<Longrightarrow>
    \<exists>v. select_loop cx bk (Suc (length (path_text nms))) i ob tmp None 0 = Some (Some v) \<and> reps b v w"
proof (induction nms arbitrary: i ob ps tmp)
  case (Cons nm nms)
  have nm: "path_name nm" "nm \<noteq> []" "\<forall>y \<in> set nm. name_char y \<or> cdigit y" using Cons.prems(1) by (auto simp: path_name_def)
  obtain z rest where t: "path_text (nm # nms) @ [0] = nm @ z # rest" "nms = [] \<Longrightarrow> z = 0" "nms \<noteq> [] \<Longrightarrow> z = 0x2E \<and> rest = path_text nms @ [0]"
    by (cases nms) auto
  have d: "drop i bk = nm @ z # rest" using Cons.prems(3) t(1) by simp
  have "length (drop i bk) = length nm + Suc (length rest)" unfolding d by simp
  then have l: "i + length nm < length bk" by simp
  have z: "rd bk (i + length nm) = Some z"
    using arg_cong [OF d, of "\<lambda>l. l ! length nm"] l by (simp add: rd_def)
  have len: "length (path_text (nm # nms)) = length nm + length rest" using arg_cong [OF t(1), of length] by simp
  have "list_all2 (pair_rep b) (elems ob) ps" using Cons.prems(5) by (cases rule: reps.cases) (simp add: pair_rep_def [abs_def])
  then obtain r where r: "pair_by_name cx (sl_items ob) (Ext bk i) (of_nat (length nm)) = Some r"
      "case map_of ps nm of None \<Rightarrow> r = None | Some w \<Rightarrow> \<exists>v. r = Some v \<and> reps b v w"
    using pair_by_name_text [OF assms, of nm i bk "sl_items ob" ps] d l Cons.prems(4) by (auto simp: elems_def)
  obtain x where x: "map_of ps nm = Some x" "jlookup x nms = Some w" using Cons.prems(6) by (auto split: option.splits)
  obtain v where v: "r = Some v" "reps b v x" using r(2) x(1) by auto
  have sel: "object_pair_by_name cx ob (Ext bk i) (of_nat (length nm)) = Some (Some v)" using r(1) v(1) by (simp add: object_pair_by_name_def)
  have st: "select_loop cx bk (Suc (length (path_text (nm # nms)))) i ob tmp None 0 =
      select_loop cx bk (Suc (length rest)) (i + length nm) ob tmp (Some i) (of_nat (length nm))"
    using select_name [OF nm(3) d, of cx "Suc (length rest)" ob tmp None 0] nm(2) len by simp
  show ?case
  proof (cases nms)
    case Nil
    then show ?thesis unfolding st using z t(2) sel v(2) x(2) by simp
  next
    case (Cons nm2 nms2)
    obtain ps2 where x2: "x = JObject ps2" using x(2) Cons by (cases x) auto
    obtain ob2 where v2: "v = JSON_OBJECT ob2" using v(2) x2 by (cases rule: reps.cases) auto
    have rest: "z = 0x2E" "rest = path_text nms @ [0]" using t(3) Cons by auto
    have "drop (Suc (i + length nm)) bk = rest" using arg_cong [OF d, of "drop (Suc (length nm))"] by (simp add: add.commute)
    then have "drop (Suc (i + length nm)) bk = path_text nms @ [0]" using rest(2) by simp
    from Cons.IH [OF _ _ this Cons.prems(4), of ob2 ps2 "Some v"]
    obtain v' where "select_loop cx bk (Suc (length (path_text nms))) (Suc (i + length nm)) ob2 (Some v) None 0 = Some (Some v')" "reps b v' w"
      using Cons.prems(1) Cons v(2) v2 x(2) x2 by auto
    moreover have "select_loop cx bk (Suc (length rest)) (i + length nm) ob tmp (Some i) (of_nat (length nm)) =
        select_loop cx bk (length rest) (Suc (i + length nm)) ob2 (Some v) None 0"
      using z rest(1) sel v2 by simp
    ultimately show ?thesis unfolding st using rest(2) by simp
  qed
qed simp

section \<open>cJSON and its heap\<close>

definition cJSON_ok :: "cJSON \<Rightarrow> bool" where
  "cJSON_ok c \<longleftrightarrow> (\<exists>z. cj_heap c = Some z \<and> cZoneHeap_ok z)"

definition cJSON_live :: "cJSON \<Rightarrow> addr \<rightharpoonup> u32" where
  "cJSON_live c = (case cj_heap c of None \<Rightarrow> Map.empty | Some z \<Rightarrow> cZoneHeap_live z)"

interpretation cj: json_memory cJSON_alloc cJSON_free cJSON_live cJSON_ok align zone_fits
proof (unfold_locales, goal_cases)
  case (1 u sz)
  then obtain z where z: "cj_heap u = Some z" "cZoneHeap_ok z" by (auto simp: cJSON_ok_def)
  from cZoneHeap_alloc_rel [OF z(2) 1(2)] z(1) show ?case by (auto simp: cJSON_alloc_def)
next
  case (2 u sz a u')
  then obtain z where z: "cj_heap u = Some z" "cZoneHeap_ok z" by (auto simp: cJSON_ok_def)
  with 2 cZoneHeap_alloc_Some [OF z(2), of sz a] show ?case
    by (auto simp: cJSON_ok_def cJSON_live_def cJSON_alloc_def bind_Some_iff)
next
  case (3 u sz u')
  then obtain z where z: "cj_heap u = Some z" "cZoneHeap_ok z" by (auto simp: cJSON_ok_def)
  with 3 cZoneHeap_alloc_None [OF z(2), of sz] show ?case
    by (auto simp: cJSON_ok_def cJSON_live_def cJSON_alloc_def bind_Some_iff)
next
  case (4 u a sz)
  then obtain z where z: "cj_heap u = Some z" "cZoneHeap_ok z" "cZoneHeap_live z a = Some (align sz)"
    by (auto simp: cJSON_ok_def cJSON_live_def)
  from cZoneHeap_free_rel [OF z(2,3), of False] z(1) show ?case
    by (auto simp: cJSON_ok_def cJSON_live_def cJSON_free_def)
next
  case (5 sz)
  then show ?case by (simp add: zone_fits_def)
qed

text \<open>A context as \<open>create_context\<close> makes it.\<close>

definition json_new :: "(u32 \<Rightarrow> 'u \<Rightarrow> (ptr \<times> 'u) option) \<Rightarrow> (addr \<Rightarrow> u32 \<Rightarrow> 'u \<Rightarrow> 'u option) \<Rightarrow> addr \<Rightarrow> 'u \<Rightarrow> 'u json_context" where
  "json_new al fr h u = \<lparr>p_htc = Some (h, \<lparr>ht_content = zero_content, pf_mem_alloc = Some al, pf_mem_free = Some fr, pf_read = None\<rparr>),
     root = Slots None [], err_pos = 0, j_udata = u\<rparr>"

lemma create_new: "cJSON_create_context c = Some (Some (a, cx), c') \<Longrightarrow> \<exists>h. cx = json_new cJSON_alloc cJSON_free h c'"
  by (auto simp: cJSON_create_context_def json_create_context_def ht_create_context_def json_new_def bind_Some_iff split: option.splits)

context json_memory
begin

lemma fresh_new: "ok u \<Longrightarrow> fresh (json_new alloc free h u)"
  by (simp add: fresh_def json_new_def)

lemma parse_granted_doc:
  assumes "\<And>sz u u'. ok u \<Longrightarrow> alloc sz u \<noteq> Some (None, u')" "ok u" "json_ok (JObject ps)"
    "b = json_text (JObject ps)" "length b < 2 ^ 28" "length b + 3 \<le> n"
  shows "\<exists>cx'. json_parse n (json_new alloc free h u) (Some b) (of_nat (length b)) = Some (JSON_OK, cx') \<and>
    reps b (JSON_OBJECT (root cx')) (JObject ps) \<and> utf8_doc b cx'"
proof -
  have g: "granting" using assms(1) by (simp add: granting_def)
  have l: "unat (of_nat (length b) :: u64) = length b" using assms(5) by (intro unat_of_nat_small) simp
  obtain r cx' where "json_parse n (json_new alloc free h u) (Some b) (of_nat (length b)) = Some (r, cx')" "jok b cx'"
      "out_of_memory r \<or> r = JSON_OK \<and> reps b (JSON_OBJECT (root cx')) (JObject ps)"
    using json_parse_object [OF fresh_new [OF assms(2)] assms(4,3) l assms(5,6)] .
  then show ?thesis using g jok_doc by (auto simp: out_of_memory_def)
qed

lemma parse_granted:
  assumes "\<And>sz u u'. ok u \<Longrightarrow> alloc sz u \<noteq> Some (None, u')" "ok u" "json_ok (JObject ps)"
    "b = json_text (JObject ps)" "length b < 2 ^ 28" "length b + 3 \<le> n"
  shows "\<exists>cx'. json_parse n (json_new alloc free h u) (Some b) (of_nat (length b)) = Some (JSON_OK, cx') \<and>
    reps b (JSON_OBJECT (root cx')) (JObject ps)"
  using parse_granted_doc [OF assms] by blast

end

text \<open>An allocator that counts and never runs out, and checks what it takes back.\<close>

type_synonym counter = "nat \<times> (addr \<rightharpoonup> u32)"

definition count_alloc :: "u32 \<Rightarrow> counter \<Rightarrow> (ptr \<times> counter) option" where
  "count_alloc sz u = Some (Some (fst u), (Suc (fst u), (snd u)(fst u \<mapsto> sz)))"

definition count_free :: "addr \<Rightarrow> u32 \<Rightarrow> counter \<Rightarrow> counter option" where
  "count_free a sz u = (if snd u a = Some sz then Some (fst u, (snd u)(a := None)) else None)"

definition count_ok :: "counter \<Rightarrow> bool" where
  "count_ok u \<longleftrightarrow> (\<forall>a \<ge> fst u. snd u a = None)"

interpretation ca: json_memory count_alloc count_free snd count_ok "\<lambda>sz. sz" "\<lambda>_. True"
  by unfold_locales (auto simp: count_alloc_def count_free_def count_ok_def)

lemma count_ok_0: "count_ok (0, Map.empty)"
  by (simp add: count_ok_def)

section \<open>Properties\<close>

text \<open>C25: \<open>cJSON::parse\<close> of a fresh context returns for every document in UTF-8 and whatever the heap grants: it
  ends, reads nothing outside the document, leaves the heap in order and every block that was in use as it
  was.\<close>

theorem json_parse_returns:
  assumes "cJSON_ok c" "unat sz = length b" "utf8_text b" "length b < 2 ^ 28" "length b + 2 \<le> n"
  shows "\<exists>r cx'. cJSON_parse n (json_new cJSON_alloc cJSON_free h c) (Some b) sz = Some (r, cx') \<and> cpos cx' \<le> length b \<and>
    cJSON_ok (j_udata cx') \<and> cJSON_live c \<subseteq>\<^sub>m cJSON_live (j_udata cx')"
proof -
  let ?cx = "json_new cJSON_alloc cJSON_free h c"
  obtain r cx' where p: "json_parse n ?cx (Some b) sz = Some (r, cx')" "cj.jok b cx'" "cj.jlive ?cx \<subseteq>\<^sub>m cj.jlive cx'"
    using cj.json_parse_rel [OF cj.fresh_new [OF assms(1)] assms(2-5)] .
  then have "cpos cx' \<le> length b" using cpos_le [OF cj.jok_doc] by blast
  then show ?thesis using p by (simp add: cJSON_parse_def cj.jok_def cj.jlive_def json_new_def)
qed

definition cJSON_1 :: cJSON where "cJSON_1 = \<lparr>cj_heap = Some zheap_1\<rparr>"

lemma cJSON_1_ok: "cJSON_ok cJSON_1"
  using zheap_1_ok by (simp add: cJSON_ok_def cJSON_1_def)

definition doc_1 :: "u8 list" where "doc_1 = [0x7B, 0x61, 0x3A, 0x5B, 0x5B, 0xE2, 0x82]"

theorem json_parse_returns_witness:
  "\<exists>r cx'. cJSON_parse 9 (json_new cJSON_alloc cJSON_free 8 cJSON_1) (Some doc_1) 7 = Some (r, cx') \<and>
    cpos cx' \<le> length doc_1 \<and> cJSON_ok (j_udata cx') \<and> cJSON_live cJSON_1 \<subseteq>\<^sub>m cJSON_live (j_udata cx')"
  by (rule json_parse_returns [OF cJSON_1_ok]) (simp_all add: utf8_text_def doc_1_def)

text \<open>C5: Printing and parsing is a round trip: with an allocator that never runs out of memory, \<open>json_parse\<close> of the
  text of an object (plain strings, names, decimal numbers, constants, objects, and arrays that hold no array
  directly) succeeds, and the values under the root represent the object, in order.\<close>

theorem json_parse_text:
  assumes "json_memory al fr lv ok rnd fits" "\<And>sz u u'. ok u \<Longrightarrow> al sz u \<noteq> Some (None, u')" "ok u" "json_ok (JObject ps)"
    "b = json_text (JObject ps)" "length b < 2 ^ 28" "length b + 3 \<le> n"
  shows "\<exists>cx'. json_parse n (json_new al fr h u) (Some b) (of_nat (length b)) = Some (JSON_OK, cx') \<and>
    reps b (JSON_OBJECT (root cx')) (JObject ps)"
  by (rule json_memory.parse_granted [OF assms(1-4)]) (use assms(5-7) in auto)

definition object_1 :: "(u8 list \<times> json) list" where
  "object_1 = [([0x61], JArray [JString [0x78], JNumber [0x31, 0x32]]), ([0x62], JObject [([0x63], JTrue)])]"

lemma object_1_ok: "json_ok (JObject object_1)"
  by (simp add: object_1_def name_ok_def name_char_def small_def plain_def number_ok_def cdigit_def is_array_def)

definition text_1 :: "u8 list" where "text_1 = json_text (JObject object_1)"

lemma length_text_1: "length text_1 < 100"
  by (simp add: text_1_def object_1_def pair_text_def)

theorem json_parse_text_witness:
  "\<exists>cx'. json_parse 103 (json_new count_alloc count_free 8 (0, Map.empty)) (Some text_1) (of_nat (length text_1)) = Some (JSON_OK, cx') \<and>
    reps text_1 (JSON_OBJECT (root cx')) (JObject object_1)"
  by (rule json_parse_text [OF ca.json_memory_axioms _ count_ok_0 object_1_ok])
     (use length_text_1 in \<open>simp_all add: count_alloc_def text_1_def\<close>)

text \<open>C13: \<open>json_select\<close> finds what the text says: after parsing the text of an object, the path of names joined by dots
  selects a value that represents the one under these names in the object.\<close>

theorem json_parse_select:
  assumes "json_memory al fr lv ok rnd fits" "\<And>sz u u'. ok u \<Longrightarrow> al sz u \<noteq> Some (None, u')" "ok u" "json_ok (JObject ps)"
    "b = json_text (JObject ps)" "length b < 2 ^ 28" "length b + 3 \<le> n"
    "\<forall>nm \<in> set nms. path_name nm" "nms \<noteq> []" "length (path_text nms) + 1 < 2 ^ 32" "jlookup (JObject ps) nms = Some w"
  shows "\<exists>cx' v. json_parse n (json_new al fr h u) (Some b) (of_nat (length b)) = Some (JSON_OK, cx') \<and>
    json_select cx' (path_text nms) None = Some (Some v) \<and> reps b v w"
proof -
  obtain cx' where p: "json_parse n (json_new al fr h u) (Some b) (of_nat (length b)) = Some (JSON_OK, cx')"
      "reps b (JSON_OBJECT (root cx')) (JObject ps)" "utf8_doc b cx'"
    using json_memory.parse_granted_doc [OF assms(1-4)] assms(5-7) by blast
  have "length b < 2 ^ 32" using assms(6) by simp
  from select_path [OF p(3) this assms(8,9), of 0 "path_text nms @ [0]" "root cx'" ps w None]
  show ?thesis using p(1,2) assms(10,11) by (auto simp: json_select_def)
qed

theorem json_parse_select_witness:
  "\<exists>cx' v. json_parse 103 (json_new count_alloc count_free 8 (0, Map.empty)) (Some text_1) (of_nat (length text_1)) = Some (JSON_OK, cx') \<and>
    json_select cx' (path_text [[0x62], [0x63]]) None = Some (Some v) \<and> reps text_1 v JTrue"
  by (rule json_parse_select [OF ca.json_memory_axioms _ count_ok_0 object_1_ok])
     (use length_text_1 in \<open>simp_all add: count_alloc_def text_1_def path_name_def name_char_def small_def object_1_def\<close>)

text \<open>A path that goes on behind a value that is no object is not refused: the next name is looked up in the same
  object, so \<open>a.b\<close> selects the sibling \<open>b\<close> of a string, number, constant or array \<open>a\<close>.\<close>

theorem json_select_sibling:
  assumes "utf8_doc b cx" "length b < 2 ^ 32" "reps b (JSON_OBJECT (root cx)) (JObject ps)" "path_name nm1" "path_name nm2"
    "length (path_text [nm1, nm2]) + 1 < 2 ^ 32" "map_of ps nm1 = Some x" "\<And>qs. x \<noteq> JObject qs" "map_of ps nm2 = Some w"
  shows "\<exists>v. json_select cx (path_text [nm1, nm2]) None = Some (Some v) \<and> reps b v w"
proof -
  let ?bk = "path_text [nm1, nm2] @ [0]"
  have n1: "nm1 \<noteq> []" "\<forall>y \<in> set nm1. name_char y \<or> cdigit y" using assms(4) by (simp_all add: path_name_def)
  have d: "drop 0 ?bk = nm1 @ 0x2E # nm2 @ [0]" by simp
  have "list_all2 (pair_rep b) (elems (root cx)) ps" using assms(3) by (cases rule: reps.cases) (simp add: pair_rep_def [abs_def])
  then obtain r where r: "pair_by_name cx (sl_items (root cx)) (Ext ?bk 0) (of_nat (length nm1)) = Some r"
      "case map_of ps nm1 of None \<Rightarrow> r = None | Some w \<Rightarrow> \<exists>v. r = Some v \<and> reps b v w"
    using pair_by_name_text [OF assms(1,2), of nm1 0 ?bk "sl_items (root cx)" ps] assms(6) by (auto simp: elems_def)
  obtain v where v: "r = Some v" "reps b v x" using r(2) assms(7) by auto
  have nv: "\<And>ob. v \<noteq> JSON_OBJECT ob" using v(2) assms(8) by (cases rule: reps.cases) auto
  have o: "(case v of JSON_OBJECT ob \<Rightarrow> ob | _ \<Rightarrow> root cx) = root cx" by (simp split: json_value.split add: nv)
  have z: "rd ?bk (length nm1) = Some 0x2E" by (simp add: rd_def nth_append)
  have "json_select cx (path_text [nm1, nm2]) None = select_loop cx ?bk (length nm1 + (length nm2 + 2)) 0 (root cx) None None 0"
    by (simp add: json_select_def)
  also have "\<dots> = select_loop cx ?bk (Suc (Suc (length nm2))) (length nm1) (root cx) None (Some 0) (of_nat (length nm1))"
    using select_name [OF n1(2) d, of cx "length nm2 + 2" "root cx" None None 0] n1(1) by simp
  also have "\<dots> = select_loop cx ?bk (Suc (length nm2)) (Suc (length nm1)) (root cx) (Some v) None 0"
    using select_dot [OF z, of cx "root cx" 0 _ v] r(1) v(1) o by simp
  finally show ?thesis using select_path [OF assms(1,2), of "[nm2]" "Suc (length nm1)" ?bk "root cx" ps w "Some v"] assms(3,5,6,9) by simp
qed

theorem json_select_sibling_witness:
  "\<exists>cx v. json_parse 103 (json_new count_alloc count_free 8 (0, Map.empty)) (Some text_1) (of_nat (length text_1)) = Some (JSON_OK, cx) \<and>
    json_select cx (path_text [[0x61], [0x62]]) None = Some (Some v) \<and> reps text_1 v (JObject [([0x63], JTrue)])"
proof -
  have l: "length text_1 < 2 ^ 28" "length text_1 + 3 \<le> 103" "length text_1 < 2 ^ 32" using length_text_1 by simp_all
  obtain cx where p: "json_parse 103 (json_new count_alloc count_free 8 (0, Map.empty)) (Some text_1) (of_nat (length text_1)) = Some (JSON_OK, cx)"
      "reps text_1 (JSON_OBJECT (root cx)) (JObject object_1)" "utf8_doc text_1 cx"
    using ca.parse_granted_doc [OF _ count_ok_0 object_1_ok text_1_def l(1,2)] by (auto simp: count_alloc_def)
  have "\<exists>v. json_select cx (path_text [[0x61], [0x62]]) None = Some (Some v) \<and> reps text_1 v (JObject [([0x63], JTrue)])"
    by (rule json_select_sibling [OF p(3) l(3) p(2), where x = "JArray [JString [0x78], JNumber [0x31, 0x32]]"])
       (simp_all add: path_name_def name_char_def small_def object_1_def)
  with p(1) show ?thesis by blast
qed

text \<open>The constants need not be written out: any non-empty first part of \<open>true\<close>, \<open>false\<close> or \<open>null\<close>, such as
  \<open>t\<close> or \<open>fal\<close>, is parsed as the constant.\<close>

theorem json_const_prefix:
  assumes "v = JSON_TRUE \<or> v = JSON_FALSE \<or> v = JSON_NULL" "w = take k (const_text v)" "0 < k"
    "utf8_doc b cx" "drop (unat pos) b = w @ z # ys" "num_end z" "cpos cx = Suc (unat pos)" "length w < n"
  shows "\<exists>cx'. parse_const n cx JSON_NONE (ucast (hd w)) pos = Some (JSON_OK, v, ucast z, cx') \<and> txt_of b cx' = ys"
proof -
  have "w \<noteq> []" using const_prefix_cases [OF assms(1-3)] by auto
  then have "cur b cx (hd w) pos (tl w @ z # ys)" using assms(4,5,7) by (simp add: cur_def)
  from parse_const_prefix [OF assms(1-3) this assms(6,8)] show ?thesis by (auto simp: at_text_def)
qed

definition tr_context :: "unit json_context" where
  "tr_context = \<lparr>p_htc = Some (0, \<lparr>ht_content = \<lparr>p_content = Some [0x74, 0x72, 0x2C], sz_content = 3, c_pos = 1, encoding = E_UTF_8,
     machine_order = MACHINE_ORDER_LE\<rparr>, pf_mem_alloc = None, pf_mem_free = None, pf_read = Some read_utf8\<rparr>),
     root = Slots None [], err_pos = 0, j_udata = ()\<rparr>"

theorem json_const_prefix_witness:
  "\<exists>cx'. parse_const 5 tr_context JSON_NONE (ucast (hd [0x74 :: u8])) 0 = Some (JSON_OK, JSON_TRUE, ucast (0x2C :: u8), cx') \<and>
    txt_of [0x74, 0x72, 0x2C] cx' = []"
  using json_const_prefix [of JSON_TRUE "[0x74, 0x72]" 2 "[0x74, 0x72, 0x2C]" tr_context 0 "0x2C" "[]" 5]
  by (simp add: const_text_def utf8_doc_def utf8_content_def tr_context_def cpos_def hc_def num_end_def)

definition nested_doc :: "u8 list" where
  "nested_doc = [0x7B, 0x22, 0x61, 0x22, 0x3A, 0x5B, 0x5B, 0x31, 0x5D, 0x2C, 0x32, 0x5D, 0x7D]"

definition json_0 :: "counter json_context" where "json_0 = json_new count_alloc count_free 0 (1, Map.empty)"

text \<open>An array directly inside an array ends both: the closing bracket of the inner one is taken for the end of the
  outer one, and what follows is refused. \<open>{"a":[[1],2]}\<close> does not parse.\<close>

theorem json_nested_array:
  "map_option fst (json_parse 20 json_0 (Some nested_doc) 13) = Some JSON_PARSE_ERROR"
  by code_simp

definition small_doc :: "u8 list" where "small_doc = [0x7B, 0x61, 0x3A, 0x31, 0x7D]"

text \<open>A context parses once. A second \<open>json_parse\<close> appends to the pairs of the first document, whose blocks it has
  released, and destroying the context then releases them again.\<close>

theorem json_parse_again:
  "\<exists>cx1 cx2. json_parse 20 json_0 (Some small_doc) 5 = Some (JSON_OK, cx1) \<and> json_parse 20 cx1 (Some small_doc) 5 = Some (JSON_OK, cx2) \<and>
    length (elems (root cx2)) = 2 \<and> destroy_object (root cx1) cx1 \<noteq> None \<and> destroy_object (root cx2) cx2 = None"
proof -
  have "case json_parse 20 json_0 (Some small_doc) 5 of None \<Rightarrow> False | Some (r1, cx1) \<Rightarrow>
     r1 = JSON_OK \<and> destroy_object (root cx1) cx1 \<noteq> None \<and>
     (case json_parse 20 cx1 (Some small_doc) 5 of None \<Rightarrow> False | Some (r2, cx2) \<Rightarrow>
       r2 = JSON_OK \<and> length (elems (root cx2)) = 2 \<and> destroy_object (root cx2) cx2 = None)"
    by code_simp
  then show ?thesis by (auto split: option.splits prod.splits)
qed

end
