(* ===== verification/Contexts.thy ===== *)
theory Contexts
  imports LinkMap Llist
begin

text \<open>
  What the repository keeps beside the registry: the storage of dynamic contexts (core/repository-2/dcs.cpp),
  the users of each entry (users.cpp) and the monitoring records (monitoring.cpp). Each is a global list or
  map of the classes of Llist and Maps.
\<close>

declare set_concat [simp del] mset_concat [simp del] concat_eq_Nil_conv [simp del]

section \<open>Flags and states\<close>

definition ST_INITIALIZED :: u8 where "ST_INITIALIZED = 1"
definition ST_PENDING :: u8 where "ST_PENDING = 4"

section \<open>Dynamic contexts\<close>

text \<open>A record of the storage is a copy of an original object, so it has the virtual methods of that
  object, and the byte behind it holds the state of the context. The address of the copy is the one of
  the user area, behind the header of the record.\<close>

record cx_object =
  cx_class :: iBase
  cx_state :: u8

type_synonym dcs = "cx_object linked_list"

definition sizeof_hdr :: addr where "sizeof_hdr = 29"

definition cx_find :: "dcs \<Rightarrow> iBase \<Rightarrow> cx_object option" where
  "cx_find l p = (if sizeof_hdr \<le> p then map_option it_data (heap l (p - sizeof_hdr)) else None)"

definition cx_put :: "dcs \<Rightarrow> iBase \<Rightarrow> u8 \<Rightarrow> dcs option" where
  "cx_put l p st =
     (if sizeof_hdr \<le> p then do {
        it \<leftarrow> heap l (p - sizeof_hdr);
        Some (l\<lparr>heap := (heap l)(p - sizeof_hdr \<mapsto> it\<lparr>it_data := (it_data it)\<lparr>cx_state := st\<rparr>\<rparr>)\<rparr>) }
      else None)"

text \<open>The object whose virtual methods answer at an address.\<close>

definition class_of :: "dcs \<Rightarrow> iBase \<Rightarrow> iBase" where
  "class_of l p = (case cx_find l p of Some x \<Rightarrow> cx_class x | None \<Rightarrow> p)"

definition dcs_lock :: "dcs \<Rightarrow> u64 \<Rightarrow> (u64 \<times> dcs) option" where
  "dcs_lock l hlock = linked_list_lock l hlock"

definition dcs_unlock :: "dcs \<Rightarrow> u64 \<Rightarrow> dcs option" where
  "dcs_unlock l hlock = linked_list_unlock l hlock"

text \<open>\<open>st0\<close> is the byte that the copy takes from behind the original.\<close>

definition dcs_create_context :: "(iBase \<Rightarrow> object_info) \<Rightarrow> base_entry \<Rightarrow> u8 \<Rightarrow> u64 \<Rightarrow> u8 \<Rightarrow> dcs \<Rightarrow> (iBase \<times> dcs) option" where
  "dcs_create_context info e flags hlock st0 l = (
     let oi = info (pi_base e)
     in if (oi_flags oi AND flags) AND RF_CLONE \<noteq> 0 then do {
          (hm, l) \<leftarrow> dcs_lock l hlock;
          (r, l) \<leftarrow> linked_list_add l \<lparr>cx_class = pi_base e, cx_state = st0\<rparr> (oi_size oi + 1) hm;
          (p, l) \<leftarrow> (case r of
              None \<Rightarrow> Some (0, l)
            | Some a \<Rightarrow> do { l \<leftarrow> cx_put l (a + sizeof_hdr) 0; Some (a + sizeof_hdr, l) });
          l \<leftarrow> dcs_unlock l hm;
          Some (p, l) }
        else Some (0, l))"

definition dcs_get_context_state :: "iBase \<Rightarrow> dcs \<Rightarrow> u8 option" where
  "dcs_get_context_state p l = map_option cx_state (cx_find l p)"

definition dcs_set_context_state :: "iBase \<Rightarrow> u8 \<Rightarrow> dcs \<Rightarrow> dcs option" where
  "dcs_set_context_state p st l = cx_put l p st"

definition dcs_remove_context :: "iBase \<Rightarrow> u64 \<Rightarrow> dcs \<Rightarrow> (bool \<times> dcs) option" where
  "dcs_remove_context p hlock l = do {
     (hm, l) \<leftarrow> dcs_lock l hlock;
     (r, l) \<leftarrow> linked_list_sel l (p - sizeof_hdr) hm;
     l \<leftarrow> (if r then map_option snd (linked_list_del l hm) else Some l);
     l \<leftarrow> dcs_unlock l hm;
     Some (r, l) }"

definition dcs_destroy_storage :: "dcs \<Rightarrow> (unit \<times> dcs) option" where
  "dcs_destroy_storage l = linked_list_destroy l"

section \<open>Sets of objects\<close>

text \<open>A \<open>std::unordered_set\<close> of objects is the list of its elements in the order of iteration; where a new
  element comes to stand is up to the library, the function \<open>place\<close>. An iterator is the element it
  points to, or \<open>None\<close> for \<open>end()\<close>. The node of an element that is erased goes back to \<open>zfree\<close>, which
  leaves its link as it is.\<close>

definition set_insert :: "(iBase \<Rightarrow> iBase list \<Rightarrow> iBase list) \<Rightarrow> iBase \<Rightarrow> iBase list \<Rightarrow> iBase list" where
  "set_insert place x xs = (if x \<in> set xs then xs else place x xs)"

definition set_erase :: "iBase \<Rightarrow> iBase list \<Rightarrow> iBase list" where
  "set_erase x xs = remove1 x xs"

definition set_begin :: "iBase list \<Rightarrow> iBase option" where
  "set_begin xs = (case xs of [] \<Rightarrow> None | x # _ \<Rightarrow> Some x)"

fun set_next :: "iBase \<Rightarrow> iBase list \<Rightarrow> iBase option option" where
  "set_next x [] = None"
| "set_next x (y # ys) = (if y = x then Some (set_begin ys) else set_next x ys)"

datatype set_op = SET_CONTINUE | SET_BREAK | SET_DELETE | SET_CURRENT

section \<open>Users\<close>

record object_users =
  ou_entry :: addr
  s_users :: "iBase list"

definition sizeof_object_users :: u32 where "sizeof_object_users = 64"

text \<open>A pointer into the map is the address of the record; writing through it changes the data.\<close>

definition put_record :: "addr \<Rightarrow> ('a \<Rightarrow> 'a) \<Rightarrow> 'a hash_map \<Rightarrow> 'a hash_map option" where
  "put_record p f m =
     (case record_data m p of
        None \<Rightarrow> None
      | Some _ \<Rightarrow> Some (m\<lparr>hm_context := (hm_context m)\<lparr>pp_list :=
          map_option (\<lambda>(a, bs). (a, map (map (\<lambda>r. if mr_addr r = p then r\<lparr>mr_data := f (mr_data r)\<rparr> else r)) bs))
            (pp_list (hm_context m))\<rparr>\<rparr>))"

definition users_add_object :: "addr \<Rightarrow> object_users hash_map \<Rightarrow> object_users hash_map option" where
  "users_add_object e m = do {
     (r, m) \<leftarrow> hash_map_get m (pointer_bytes e) 0;
     (case r of
        None \<Rightarrow> map_option snd (hash_map_add m (pointer_bytes e) \<lparr>ou_entry = e, s_users = []\<rparr> sizeof_object_users 0)
      | Some _ \<Rightarrow> Some m) }"

definition users_remove_object :: "addr \<Rightarrow> object_users hash_map \<Rightarrow> object_users hash_map option" where
  "users_remove_object e m = do {
     (r, m) \<leftarrow> hash_map_get m (pointer_bytes e) 0;
     (case r of
        None \<Rightarrow> Some m
      | Some (p, sz) \<Rightarrow> do {
          m \<leftarrow> put_record p (s_users_update (\<lambda>_. [])) m;
          map_option snd (hash_map_del m (pointer_bytes e) 0) }) }"

definition users_add_object_user :: "(iBase \<Rightarrow> iBase list \<Rightarrow> iBase list) \<Rightarrow> addr \<Rightarrow> iBase \<Rightarrow> object_users hash_map \<Rightarrow> object_users hash_map option" where
  "users_add_object_user place e user m = do {
     (r, m) \<leftarrow> hash_map_get m (pointer_bytes e) 0;
     (q, m) \<leftarrow> (case r of
         None \<Rightarrow> hash_map_add m (pointer_bytes e) \<lparr>ou_entry = e, s_users = []\<rparr> sizeof_object_users 0
       | Some (p, sz) \<Rightarrow> Some (Some p, m));
     (case q of
        None \<Rightarrow> Some m
      | Some p \<Rightarrow> put_record p (s_users_update (set_insert place user)) m) }"

definition users_remove_object_user :: "addr \<Rightarrow> iBase \<Rightarrow> object_users hash_map \<Rightarrow> object_users hash_map option" where
  "users_remove_object_user e user m = do {
     (r, m) \<leftarrow> hash_map_get m (pointer_bytes e) 0;
     (case r of
        None \<Rightarrow> Some m
      | Some (p, sz) \<Rightarrow> put_record p (s_users_update (set_erase user)) m) }"

definition get_object_users :: "addr \<Rightarrow> object_users hash_map \<Rightarrow> (ptr \<times> object_users hash_map) option" where
  "get_object_users e m = do {
     (r, m) \<leftarrow> hash_map_get m (pointer_bytes e) 0;
     Some (map_option fst r, m) }"

text \<open>The loop of \<open>users_enum\<close> over the set behind the record \<open>p\<close>; the callback works on a state that
  holds the map (read by \<open>get\<close>, written by \<open>put\<close>), and \<open>n\<close> bounds the rounds.\<close>

fun users_enum_loop :: "('s \<Rightarrow> object_users hash_map) \<Rightarrow> (object_users hash_map \<Rightarrow> 's \<Rightarrow> 's) \<Rightarrow> (iBase \<Rightarrow> 's \<Rightarrow> (set_op \<times> 's) option) \<Rightarrow>
    nat \<Rightarrow> addr \<Rightarrow> iBase option \<Rightarrow> 's \<Rightarrow> 's option" where
  "users_enum_loop get put pcb n p None s = Some s"
| "users_enum_loop get put pcb 0 p (Some x) s = None"
| "users_enum_loop get put pcb (Suc n) p (Some x) s = do {
     (op, s) \<leftarrow> pcb x s;
     (case op of
        SET_BREAK \<Rightarrow> Some s
      | SET_CURRENT \<Rightarrow> users_enum_loop get put pcb n p (Some x) s
      | _ \<Rightarrow> do {
          u \<leftarrow> record_data (get s) p;
          it \<leftarrow> set_next x (s_users u);
          s \<leftarrow> (if op = SET_DELETE then do { m \<leftarrow> put_record p (s_users_update (set_erase x)) (get s); Some (put m s) } else Some s);
          users_enum_loop get put pcb n p it s }) }"

definition users_enum :: "('s \<Rightarrow> object_users hash_map) \<Rightarrow> (object_users hash_map \<Rightarrow> 's \<Rightarrow> 's) \<Rightarrow> (iBase \<Rightarrow> 's \<Rightarrow> (set_op \<times> 's) option) \<Rightarrow>
    nat \<Rightarrow> addr \<Rightarrow> 's \<Rightarrow> 's option" where
  "users_enum get put pcb n e s = do {
     (r, m) \<leftarrow> get_object_users e (get s);
     (case r of
        None \<Rightarrow> Some (put m s)
      | Some p \<Rightarrow> do {
          u \<leftarrow> record_data m p;
          users_enum_loop get put pcb n p (set_begin (s_users u)) (put m s) }) }"

text \<open>The destructor of a set frees its nodes.\<close>

definition destroy_users_storage :: "nat \<Rightarrow> object_users hash_map \<Rightarrow> (unit \<times> object_users hash_map) option" where
  "destroy_users_storage n m = do {
     (hlock, m) \<leftarrow> hash_map_lock m 0;
     (_, m) \<leftarrow> hash_map_enm n m (\<lambda>u sz s. (MAP_ENUM_CONTINUE, s)) () hlock;
     m \<leftarrow> hash_map_unlock m hlock;
     hash_map_destroy m 0 }"

section \<open>Monitoring\<close>

record mon_rec =
  mo_iname :: "u8 list"
  mo_cname :: "u8 list"
  mo_handler :: iBase

definition sizeof_mon_rec :: u32 where "sizeof_mon_rec = 136"

definition mon_bytes :: "mon_rec \<Rightarrow> u8 list" where
  "mon_bytes r = mo_iname r @ mo_cname r @ pointer_bytes (mo_handler r)"

definition mon_name :: "nat \<Rightarrow> u8 list option \<Rightarrow> u8 list" where
  "mon_name n s = (case s of None \<Rightarrow> replicate n 0 | Some s \<Rightarrow> if length s > 0 then name_field n s else replicate n 0)"

definition add_monitoring :: "u8 list option \<Rightarrow> u8 list option \<Rightarrow> iBase \<Rightarrow> mon_rec hash_map \<Rightarrow> mon_rec hash_map option" where
  "add_monitoring iname cname handler m = (
     let r = \<lparr>mo_iname = mon_name MAX_INAME iname, mo_cname = mon_name MAX_CNAME cname, mo_handler = handler\<rparr>
     in map_option snd (hash_map_add m (mon_bytes r) r sizeof_mon_rec 0))"

definition remove_monitoring :: "nat \<Rightarrow> iBase \<Rightarrow> mon_rec hash_map \<Rightarrow> mon_rec hash_map option" where
  "remove_monitoring n handler m =
     map_option snd (hash_map_enm n m (\<lambda>r sz s. (if mo_handler r = handler then MAP_ENUM_DELETE else MAP_ENUM_CONTINUE, s)) () 0)"

definition enum_monitoring :: "nat \<Rightarrow> iBase \<Rightarrow> (u8 list \<Rightarrow> u8 list \<Rightarrow> 's \<Rightarrow> 's) \<Rightarrow> 's \<Rightarrow> mon_rec hash_map \<Rightarrow> ('s \<times> mon_rec hash_map) option" where
  "enum_monitoring n handler pcb s m =
     hash_map_enm n m (\<lambda>r sz s. (MAP_ENUM_CONTINUE, if handler = mo_handler r then pcb (mo_iname r) (mo_cname r) s else s)) s 0"

definition destroy_monitoring_storage :: "mon_rec hash_map \<Rightarrow> (unit \<times> mon_rec hash_map) option" where
  "destroy_monitoring_storage m = hash_map_clr m 0"

end
