(* ===== verification/Exts.thy ===== *)
theory Exts
  imports Contexts
begin

text \<open>
  The extensions of the repository: core/repository-2/extension.cpp. An extension is a shared library whose
  array of entries joins the registry; the loaded ones are kept in a map under their alias. The dynamic
  loader of the system is a parameter.
\<close>

section \<open>Data\<close>

datatype err = ERR_NONE | ERR_UNKNOWN | ERR_MISSING | ERR_BUSY | ERR_DUPLICATED | ERR_LOADEXT | ERR_MEMORY

text \<open>The loader: \<open>dlopen\<close> gives a handle, \<open>sym_init\<close> tells whether the library has the symbol \<open>init\<close>,
  \<open>sym_array\<close> gives what its function \<open>get_base_array\<close> returns (the array, its count and its limit) when it
  has one, and \<open>dlclose\<close> whether it returned 0.\<close>

record dl =
  dlopen :: "u8 list \<Rightarrow> nat option"
  sym_init :: "nat \<Rightarrow> bool"
  sym_array :: "nat \<Rightarrow> (ptr \<times> u32 \<times> u32) option"
  dlclose :: "nat \<Rightarrow> bool"

definition MAX_ALIAS_LEN :: nat where "MAX_ALIAS_LEN = 64"
definition MAX_FILE_PATH :: nat where "MAX_FILE_PATH = 256"

text \<open>Names are C strings without their end.\<close>

record extension =
  m_alias :: "u8 list"
  m_file :: "u8 list"
  m_handle :: "nat option"
  m_get_base_array :: "(ptr \<times> u32 \<times> u32) option"
  m_init :: bool

definition sizeof_extension :: u32 where "sizeof_extension = 344"

definition extension_0 :: extension where
  "extension_0 = \<lparr>m_alias = [], m_file = [], m_handle = None, m_get_base_array = None, m_init = False\<rparr>"

text \<open>\<open>basename\<close>: the part behind the last slash.\<close>

definition basename :: "u8 list \<Rightarrow> u8 list" where
  "basename s = rev (takeWhile (\<lambda>c. c \<noteq> 0x2F) (rev s))"

definition alias_of :: "u8 list option \<Rightarrow> u8 list \<Rightarrow> u8 list" where
  "alias_of al file = (case al of Some a \<Rightarrow> if a \<noteq> [] then a else basename file | None \<Rightarrow> basename file)"

section \<open>One extension\<close>

definition ext_load :: "dl \<Rightarrow> u8 list \<Rightarrow> u8 list option \<Rightarrow> extension \<Rightarrow> err \<times> extension" where
  "ext_load d file al x =
     (case dlopen d file of
        None \<Rightarrow> (ERR_LOADEXT, x\<lparr>m_handle := None\<rparr>)
      | Some h \<Rightarrow>
          let x = x\<lparr>m_handle := Some h, m_init := sym_init d h, m_get_base_array := sym_array d h\<rparr>
          in if m_init x then
               (ERR_NONE, x\<lparr>m_file := take (MAX_FILE_PATH - 1) file, m_alias := take (MAX_ALIAS_LEN - 1) (alias_of al file)\<rparr>)
             else (ERR_UNKNOWN, x\<lparr>m_handle := None\<rparr>))"

definition ext_unload :: "dl \<Rightarrow> extension \<Rightarrow> err \<times> extension" where
  "ext_unload d x =
     (case m_handle x of
        None \<Rightarrow> (ERR_UNKNOWN, x)
      | Some h \<Rightarrow> if dlclose d h then (ERR_NONE, x\<lparr>m_handle := None\<rparr>) else (ERR_UNKNOWN, x))"

text \<open>The array; count and limit stay 0 when there is none.\<close>

definition ext_array :: "extension \<Rightarrow> ptr \<times> u32 \<times> u32" where
  "ext_array x =
     (case (m_handle x, m_get_base_array x) of
        (Some _, Some r) \<Rightarrow> r
      | _ \<Rightarrow> (None, 0, 0))"

text \<open>\<open>call\<close> is the function \<open>init\<close> of the library behind a handle.\<close>

definition ext_init :: "(nat \<Rightarrow> 's \<Rightarrow> (err \<times> 's) option) \<Rightarrow> extension \<Rightarrow> 's \<Rightarrow> (err \<times> 's) option" where
  "ext_init call x s =
     (case m_handle x of
        None \<Rightarrow> Some (ERR_UNKNOWN, s)
      | Some h \<Rightarrow> if m_init x then call h s else Some (ERR_UNKNOWN, s))"

section \<open>The map of extensions\<close>

type_synonym ext_map = "extension hash_map"

definition lock_extensions :: "ext_map \<Rightarrow> (u64 \<times> ext_map) option" where
  "lock_extensions m = hash_map_lock m 0"

definition unlock_extensions :: "u64 \<Rightarrow> ext_map \<Rightarrow> ext_map option" where
  "unlock_extensions hlock m = hash_map_unlock m hlock"

definition enum_extensions :: "nat \<Rightarrow> (extension \<Rightarrow> 's \<Rightarrow> enum_op \<times> 's) \<Rightarrow> 's \<Rightarrow> u64 \<Rightarrow> ext_map \<Rightarrow> ('s \<times> ext_map) option" where
  "enum_extensions n cb s hlock m = hash_map_enm n m (\<lambda>x sz s. cb x s) s hlock"

definition load_extension :: "dl \<Rightarrow> nat \<Rightarrow> u8 list \<Rightarrow> u8 list option \<Rightarrow> u64 \<Rightarrow> ext_map \<Rightarrow> ((err \<times> ptr) \<times> ext_map) option" where
  "load_extension d n file al hlock m = (
     let a = alias_of al file
     in do {
       (e, m) \<leftarrow> enum_extensions n
          (\<lambda>x e. if file = m_file x \<or> a = m_alias x then (MAP_ENUM_BREAK, ERR_DUPLICATED) else (MAP_ENUM_CONTINUE, e)) ERR_NONE hlock m;
       if e = ERR_NONE then
         (case ext_load d file (Some a) extension_0 of
            (r, x) \<Rightarrow>
              if r = ERR_NONE then do {
                (p, m) \<leftarrow> hash_map_add m (m_alias x) x sizeof_extension hlock;
                Some ((r, p), m) }
              else Some ((r, None), m))
       else Some ((e, None), m) })"

definition unload_extension :: "dl \<Rightarrow> u8 list \<Rightarrow> u64 \<Rightarrow> ext_map \<Rightarrow> (err \<times> ext_map) option" where
  "unload_extension d al hlock m = do {
     (r, m) \<leftarrow> hash_map_get m al hlock;
     (case r of
        None \<Rightarrow> Some (ERR_MISSING, m)
      | Some (p, sz) \<Rightarrow> do {
          x \<leftarrow> record_data m p;
          m \<leftarrow> put_record p (\<lambda>_. snd (ext_unload d x)) m;
          if fst (ext_unload d x) = ERR_NONE then do { (_, m) \<leftarrow> hash_map_del m al hlock; Some (ERR_NONE, m) }
          else Some (fst (ext_unload d x), m) }) }"

definition unload_extensions :: "dl \<Rightarrow> nat \<Rightarrow> u64 \<Rightarrow> ext_map \<Rightarrow> ext_map option" where
  "unload_extensions d n hlock m =
     map_option snd (enum_extensions n
       (\<lambda>x s. (if fst (ext_unload d x) = ERR_NONE then MAP_ENUM_DELETE else MAP_ENUM_CONTINUE, s)) () hlock m)"

definition find_extension :: "u8 list \<Rightarrow> u64 \<Rightarrow> ext_map \<Rightarrow> (ptr \<times> ext_map) option" where
  "find_extension al hlock m = do { (r, m) \<leftarrow> hash_map_get m al hlock; Some (map_option fst r, m) }"

definition init_extension :: "(nat \<Rightarrow> ext_map \<Rightarrow> (err \<times> ext_map) option) \<Rightarrow> u8 list \<Rightarrow> u64 \<Rightarrow> ext_map \<Rightarrow> (err \<times> ext_map) option" where
  "init_extension call al hlock m = do {
     (r, m) \<leftarrow> find_extension al hlock m;
     (case r of
        None \<Rightarrow> Some (ERR_MISSING, m)
      | Some p \<Rightarrow> do { x \<leftarrow> record_data m p; ext_init call x m }) }"

definition extension_array :: "u8 list \<Rightarrow> u64 \<Rightarrow> ext_map \<Rightarrow> ((ptr \<times> u32 \<times> u32) \<times> ext_map) option" where
  "extension_array al hlock m = do {
     (r, m) \<leftarrow> find_extension al hlock m;
     (case r of
        None \<Rightarrow> Some ((None, 0, 0), m)
      | Some p \<Rightarrow> do { x \<leftarrow> record_data m p; Some (ext_array x, m) }) }"

definition destroy_extensions_storage :: "dl \<Rightarrow> nat \<Rightarrow> u64 \<Rightarrow> ext_map \<Rightarrow> (unit \<times> ext_map) option" where
  "destroy_extensions_storage d n hlock m = do {
     m \<leftarrow> unload_extensions d n hlock m;
     hash_map_destroy m hlock }"

end
