(* ===== verification/Repository.thy ===== *)
theory Repository
  imports Exts
begin

text \<open>
  The repository: core/repository-2/repository.cpp, the life cycle of objects. An object is requested by a
  name, its links are filled by further requests, and it is initialised; a clone lives in the storage of
  dynamic contexts. Requests and releases call each other through the link maps: each call takes one
  from the fuel \<open>n\<close>, and running out of it is \<open>None\<close>.
\<close>

section \<open>The state\<close>

text \<open>Each storage carries the allocator it was built with. \<open>repo_zalloc\<close> is the allocator for \<open>zinit\<close> and
  \<open>zdestroy\<close>, \<open>objs\<close> what the objects themselves keep.\<close>

record 'x repo =
  base_map :: "addr hash_map"
  base_entries :: entries
  gl_dcs :: dcs
  users_map :: "object_users hash_map"
  ext_map :: ext_map
  m_ext_dir :: "u8 list option"
  ms_pending :: "iBase list"
  ms_it_pending :: "iBase option"
  mpi_tasks :: iBase
  repo_zalloc :: zalloc_state
  objs :: 'x

type_synonym 'x rstate = "'x repo lm_state"

text \<open>What the repository calls: the virtual methods of the objects by the object they belong to (a clone has
  those of its original), the task maker, the destructors, the array of the core, the loader and the \<open>init\<close>
  of a loaded library; \<open>place\<close> is where a set puts an element, \<open>copied\<close> the byte a copy takes along.\<close>

record 'x env =
  v_info :: "iBase \<Rightarrow> object_info"
  v_link :: "iBase \<Rightarrow> iBase \<Rightarrow> 'x repo link_info list option"
  v_ctl :: "octl \<Rightarrow> iBase \<Rightarrow> 'x rstate \<Rightarrow> (bool \<times> 'x rstate) option"
  v_start :: "iBase \<Rightarrow> iBase \<Rightarrow> 'x rstate \<Rightarrow> 'x rstate option"
  v_stop :: "iBase \<Rightarrow> iBase \<Rightarrow> 'x rstate \<Rightarrow> 'x rstate option"
  v_destructor :: "iBase \<Rightarrow> 'x rstate \<Rightarrow> 'x rstate option"
  core_array :: "ptr \<times> u32 \<times> u32"
  loader :: dl
  lib_init :: "nat \<Rightarrow> 'x rstate \<Rightarrow> (err \<times> 'x rstate) option"
  place :: "iBase \<Rightarrow> iBase list \<Rightarrow> iBase list"
  copied :: "iBase \<Rightarrow> u8"

definition upd :: "('x repo \<Rightarrow> 'x repo) \<Rightarrow> 'x rstate \<Rightarrow> 'x rstate" where
  "upd f s = s\<lparr>world := f (world s)\<rparr>"

definition info_at :: "'x env \<Rightarrow> 'x rstate \<Rightarrow> iBase \<Rightarrow> object_info" where
  "info_at env s b = v_info env (class_of (gl_dcs (world s)) b)"

definition link_at :: "'x env \<Rightarrow> 'x rstate \<Rightarrow> iBase \<Rightarrow> 'x repo link_info list option" where
  "link_at env s b = v_link env (class_of (gl_dcs (world s)) b) b"

definition I_TASK_MAKER :: "u8 list" where
  "I_TASK_MAKER = [0x69, 0x54, 0x61, 0x73, 0x6B, 0x4D, 0x61, 0x6B, 0x65, 0x72]"
definition I_HEAP :: "u8 list" where
  "I_HEAP = [0x69, 0x48, 0x65, 0x61, 0x70]"

section \<open>Entries and states\<close>

definition find_by :: "(addr hash_map \<Rightarrow> (ptr \<times> addr hash_map) option) \<Rightarrow> 'x rstate \<Rightarrow> (ptr \<times> 'x rstate) option" where
  "find_by f s = do { (r, m) \<leftarrow> f (base_map (world s)); Some (r, upd (base_map_update (\<lambda>_. m)) s) }"

definition is_original :: "iBase \<Rightarrow> 'x rstate \<Rightarrow> (bool \<times> 'x rstate) option" where
  "is_original b s = do { (e, s) \<leftarrow> find_by (find_object_by_pointer b) s; Some (e \<noteq> None, s) }"

definition put_entry :: "addr \<Rightarrow> (base_entry \<Rightarrow> base_entry) \<Rightarrow> 'x rstate \<Rightarrow> 'x rstate option" where
  "put_entry p f s = do {
     e \<leftarrow> base_entries (world s) p;
     Some (upd (base_entries_update (\<lambda>E. E(p \<mapsto> f e))) s) }"

definition get_context_state :: "iBase \<Rightarrow> 'x rstate \<Rightarrow> (u8 \<times> 'x rstate) option" where
  "get_context_state b s =
     (if b = 0 then Some (0, s)
      else do {
        (r, s) \<leftarrow> find_by (find_object_by_pointer b) s;
        (case r of
           Some p \<Rightarrow> do { e \<leftarrow> base_entries (world s) p; Some (be_state e, s) }
         | None \<Rightarrow> do { st \<leftarrow> dcs_get_context_state b (gl_dcs (world s)); Some (st, s) }) })"

definition set_context_state :: "iBase \<Rightarrow> u8 \<Rightarrow> 'x rstate \<Rightarrow> 'x rstate option" where
  "set_context_state b st s =
     (if b = 0 then Some s
      else do {
        (r, s) \<leftarrow> find_by (find_object_by_pointer b) s;
        (case r of
           Some p \<Rightarrow> put_entry p (be_state_update (\<lambda>_. st)) s
         | None \<Rightarrow> do {
             l \<leftarrow> dcs_set_context_state b st (gl_dcs (world s));
             Some (upd (gl_dcs_update (\<lambda>_. l)) s) }) })"

definition find_object_entry :: "'x env \<Rightarrow> iBase \<Rightarrow> 'x rstate \<Rightarrow> (ptr \<times> 'x rstate) option" where
  "find_object_entry env b s = do {
     (r, s) \<leftarrow> find_by (find_object_by_pointer b) s;
     (case r of
        Some p \<Rightarrow> Some (Some p, s)
      | None \<Rightarrow> find_by (find_object_by_cname (oi_cname (info_at env s b))) s) }"

section \<open>Enumeration\<close>

text \<open>The extensions in the order of the map; their arrays do not change while they are visited.\<close>

definition extensions :: "nat \<Rightarrow> 'x rstate \<Rightarrow> (extension list \<times> 'x rstate) option" where
  "extensions n s = do {
     (xs, m) \<leftarrow> enum_extensions n (\<lambda>x xs. (MAP_ENUM_CONTINUE, xs @ [x])) [] 0 (ext_map (world s));
     Some (xs, upd (ext_map_update (\<lambda>_. m)) s) }"

fun visit_all :: "('a \<Rightarrow> 's \<Rightarrow> 's option) \<Rightarrow> 'a list \<Rightarrow> 's \<Rightarrow> 's option" where
  "visit_all f [] s = Some s"
| "visit_all f (x # xs) s = do { s \<leftarrow> f x s; visit_all f xs s }"

text \<open>The callback gets the file, the alias, the array, its count and its limit.\<close>

definition extension_enum :: "'x env \<Rightarrow> nat \<Rightarrow> (u8 list \<Rightarrow> u8 list \<Rightarrow> ptr \<times> u32 \<times> u32 \<Rightarrow> 'x rstate \<Rightarrow> 'x rstate option) \<Rightarrow> 'x rstate \<Rightarrow> 'x rstate option" where
  "extension_enum env n pcb s = do {
     s \<leftarrow> pcb [] [0x63, 0x6F, 0x72, 0x65] (core_array env) s;
     (xs, s) \<leftarrow> extensions n s;
     visit_all (\<lambda>x. pcb (m_file x) (m_alias x) (ext_array x)) xs s }"

fun each_entry :: "(addr \<Rightarrow> 's \<Rightarrow> 's option) \<Rightarrow> addr \<Rightarrow> nat \<Rightarrow> 's \<Rightarrow> 's option" where
  "each_entry f p 0 s = Some s"
| "each_entry f p (Suc k) s = do { s \<leftarrow> f p s; each_entry f (p + sizeof_base_entry) k s }"

definition array_entries :: "(addr \<Rightarrow> 's \<Rightarrow> 's option) \<Rightarrow> ptr \<times> u32 \<times> u32 \<Rightarrow> 's \<Rightarrow> 's option" where
  "array_entries f arr s = (case arr of (Some p, cnt, lim) \<Rightarrow> each_entry f p (unat cnt) s
     | (None, cnt, lim) \<Rightarrow> if cnt = 0 then Some s else None)"

definition enum_base_array :: "'x env \<Rightarrow> nat \<Rightarrow> (addr \<Rightarrow> 'x rstate \<Rightarrow> 'x rstate option) \<Rightarrow> 'x rstate \<Rightarrow> 'x rstate option" where
  "enum_base_array env n f s = extension_enum env n (\<lambda>file al arr. array_entries f arr) s"

text \<open>The loop over the pending objects, whose iterator is a member of the class.\<close>

fun pending_loop :: "(iBase \<Rightarrow> 'x rstate \<Rightarrow> (set_op \<times> 'x rstate) option) \<Rightarrow> nat \<Rightarrow> 'x rstate \<Rightarrow> 'x rstate option" where
  "pending_loop pcb 0 s = None"
| "pending_loop pcb (Suc n) s =
     (case ms_it_pending (world s) of
        None \<Rightarrow> Some s
      | Some x \<Rightarrow> do {
          (op, s) \<leftarrow> pcb x s;
          if op = SET_BREAK then Some s
          else do {
            it \<leftarrow> ms_it_pending (world s);
            nx \<leftarrow> set_next it (ms_pending (world s));
            let s = upd (ms_it_pending_update (\<lambda>_. nx)) s;
            pending_loop pcb n (if op = SET_DELETE then upd (ms_pending_update (set_erase it)) s else s) } })"

definition enum_pending :: "(iBase \<Rightarrow> 'x rstate \<Rightarrow> (set_op \<times> 'x rstate) option) \<Rightarrow> nat \<Rightarrow> 'x rstate \<Rightarrow> 'x rstate option" where
  "enum_pending pcb n s = pending_loop pcb n (upd (\<lambda>w. w\<lparr>ms_it_pending := set_begin (ms_pending w)\<rparr>) s)"

section \<open>Users of an object\<close>

definition add_user :: "'x env \<Rightarrow> addr \<Rightarrow> iBase \<Rightarrow> 'x rstate \<Rightarrow> 'x rstate option" where
  "add_user env e b s = do {
     m \<leftarrow> users_add_object_user (place env) e b (users_map (world s));
     Some (upd (users_map_update (\<lambda>_. m)) s) }"

definition link_names :: "'x repo link_info \<Rightarrow> object_info \<Rightarrow> bool" where
  "link_names l oi \<longleftrightarrow> li_cname l = Some (oi_cname oi) \<or> li_iname l = Some (oi_iname oi)"

definition update_link :: "'x env \<Rightarrow> nat \<Rightarrow> iBase \<Rightarrow> 'x repo link_info \<Rightarrow> 'x rstate \<Rightarrow> 'x rstate option" where
  "update_link env n b l s =
     (case ppi_base l of
        Some a \<Rightarrow>
          if slot_of s a \<noteq> 0 then do {
            (e, s) \<leftarrow> find_object_entry env (slot_of s a) s;
            (case e of None \<Rightarrow> Some s | Some e \<Rightarrow> add_user env e b s) }
          else Some s
      | None \<Rightarrow>
          enum_base_array env n (\<lambda>p s. do {
            e \<leftarrow> base_entries (world s) p;
            if link_names l (info_at env s (pi_base e)) then add_user env p b s else Some s }) s)"

definition update_users :: "'x env \<Rightarrow> nat \<Rightarrow> iBase \<Rightarrow> 'x rstate \<Rightarrow> 'x rstate option" where
  "update_users env n b s =
     (case link_at env s b of None \<Rightarrow> Some s | Some pl \<Rightarrow> visit_all (update_link env n b) pl s)"

text \<open>The callback of \<open>uninit_object\<close> for links that only carry information.\<close>

definition remove_user :: "'x env \<Rightarrow> nat \<Rightarrow> 'x repo link_info \<Rightarrow> iBase \<Rightarrow> 'x rstate \<Rightarrow> 'x rstate option" where
  "remove_user env n l b s =
     enum_base_array env n (\<lambda>p s. do {
       e \<leftarrow> base_entries (world s) p;
       if link_names l (info_at env s (pi_base e)) then do {
         s \<leftarrow> info_ctl l RCTL_UNLOAD (info_at env s (pi_base e)) s;
         m \<leftarrow> users_remove_object_user p b (users_map (world s));
         Some (upd (users_map_update (\<lambda>_. m)) s) }
       else Some s }) s"

section \<open>Requests\<close>

definition RQ_NAME :: u8 where "RQ_NAME = 1"
definition RQ_INTERFACE :: u8 where "RQ_INTERFACE = 2"

record object_request =
  rq_flags :: u8
  rq_cname :: "u8 list option"
  rq_iname :: "u8 list option"

type_synonym 'x by_handle = "addr \<Rightarrow> u8 \<Rightarrow> 'x rstate \<Rightarrow> (iBase \<times> 'x rstate) option"
type_synonym 'x releaser = "iBase \<Rightarrow> 'x rstate \<Rightarrow> 'x rstate option"

text \<open>\<open>obh\<close> is \<open>object_by_handle\<close>, \<open>rel\<close> is \<open>object_release\<close>.\<close>

definition object_request :: "'x by_handle \<Rightarrow> object_request \<Rightarrow> u8 \<Rightarrow> 'x rstate \<Rightarrow> (iBase \<times> 'x rstate) option" where
  "object_request obh req flags s = do {
     (e, s) \<leftarrow> (case (if rq_flags req AND RQ_NAME \<noteq> 0 then rq_cname req else None) of
         Some c \<Rightarrow> find_by (find_object_by_cname c) s
       | None \<Rightarrow>
           (case (if rq_flags req AND RQ_INTERFACE \<noteq> 0 then rq_iname req else None) of
              Some i \<Rightarrow> find_by (find_object_by_iname i) s
            | None \<Rightarrow> Some (None, s)));
     (case e of None \<Rightarrow> Some (0, s) | Some p \<Rightarrow> obh p flags s) }"

definition object_by_cname :: "'x by_handle \<Rightarrow> u8 list \<Rightarrow> u8 \<Rightarrow> 'x rstate \<Rightarrow> (iBase \<times> 'x rstate) option" where
  "object_by_cname obh cname flags s = object_request obh \<lparr>rq_flags = RQ_NAME, rq_cname = Some cname, rq_iname = None\<rparr> flags s"

definition object_by_iname :: "'x by_handle \<Rightarrow> u8 list \<Rightarrow> u8 \<Rightarrow> 'x rstate \<Rightarrow> (iBase \<times> 'x rstate) option" where
  "object_by_iname obh iname flags s = object_request obh \<lparr>rq_flags = RQ_INTERFACE, rq_cname = None, rq_iname = Some iname\<rparr> flags s"

definition handle_by_iname :: "u8 list \<Rightarrow> 'x rstate \<Rightarrow> (ptr \<times> 'x rstate) option" where
  "handle_by_iname iname s = find_by (find_object_by_iname iname) s"

definition handle_by_cname :: "u8 list \<Rightarrow> 'x rstate \<Rightarrow> (ptr \<times> 'x rstate) option" where
  "handle_by_cname cname s = find_by (find_object_by_cname cname) s"

text \<open>The request for a link, the callback of \<open>lm_init\<close>.\<close>

definition link_request :: "'x by_handle \<Rightarrow> 'x repo link_info \<Rightarrow> 'x rstate \<Rightarrow> (iBase \<times> 'x rstate) option" where
  "link_request obh l s = object_request obh
     \<lparr>rq_flags = (if li_iname l \<noteq> None then RQ_INTERFACE else 0) OR (if li_cname l \<noteq> None then RQ_NAME else 0),
      rq_cname = li_cname l, rq_iname = li_iname l\<rparr> (li_flags l) s"

definition get_task_maker :: "'x by_handle \<Rightarrow> 'x rstate \<Rightarrow> (iBase \<times> 'x rstate) option" where
  "get_task_maker obh s =
     (if mpi_tasks (world s) = 0 then do {
        (p, s) \<leftarrow> object_by_iname obh I_TASK_MAKER RF_ORIGINAL s;
        Some (p, upd (mpi_tasks_update (\<lambda>_. p)) s) }
      else Some (mpi_tasks (world s), s))"

section \<open>Initialisation of an object\<close>

definition start_task :: "'x env \<Rightarrow> 'x by_handle \<Rightarrow> iBase \<Rightarrow> 'x rstate \<Rightarrow> 'x rstate option" where
  "start_task env obh b s =
     (if oi_flags (info_at env s b) AND RF_TASK \<noteq> 0 then do {
        (t, s) \<leftarrow> get_task_maker obh s;
        if t \<noteq> 0 then v_start env t b s else Some s }
      else Some s)"

definition init_object :: "'x env \<Rightarrow> 'x by_handle \<Rightarrow> nat \<Rightarrow> iBase \<Rightarrow> 'x rstate \<Rightarrow> (bool \<times> 'x rstate) option" where
  "init_object env obh n b s = do {
     (st, s) \<leftarrow> get_context_state b s;
     if st AND ST_INITIALIZED \<noteq> 0 then Some (True, s)
     else do {
       let s = lm_clean (link_at env s) b s;
       (lmr, s) \<leftarrow> lm_init (link_at env s) b (link_request obh) s;
       if lmr AND PLMR_READY \<noteq> 0 then do {
         (r, s) \<leftarrow> v_ctl env OCTL_INIT b s;
         if r then do {
           let keep = (lmr AND PLMR_KEEP_PENDING \<noteq> 0);
           let st = (st OR ST_INITIALIZED) OR (if keep then ST_PENDING else 0);
           let s = (if keep then upd (ms_pending_update (set_insert (place env) b)) s else s);
           s \<leftarrow> set_context_state b st s;
           s \<leftarrow> update_users env n b s;
           s \<leftarrow> start_task env obh b s;
           Some (True, s) }
         else Some (False, s) }
       else Some (False, s) } }"

definition excluded :: "(addr \<times> u32) option \<Rightarrow> addr \<Rightarrow> bool" where
  "excluded arr p = (case arr of None \<Rightarrow> False | Some (a, cnt) \<Rightarrow> \<exists>i \<in> set [0..<unat cnt]. p = a + i * sizeof_base_entry)"

definition scan_base_array :: "'x env \<Rightarrow> 'x by_handle \<Rightarrow> nat \<Rightarrow> iBase \<Rightarrow> (addr \<times> u32) option \<Rightarrow> 'x rstate \<Rightarrow> 'x rstate option" where
  "scan_base_array env obh n b exclude s =
     enum_base_array env n (\<lambda>p s.
       if excluded exclude p then Some s
       else do {
         e \<leftarrow> base_entries (world s) p;
         (lmr, s) \<leftarrow> lm_post_init_entry (info_at env s) (link_at env s) b e (obh p) s;
         if lmr AND PLMR_READY \<noteq> 0 then update_users env n b s else Some s }) s"

section \<open>End of an object\<close>

definition uninit_object :: "'x env \<Rightarrow> 'x by_handle \<Rightarrow> 'x releaser \<Rightarrow> nat \<Rightarrow> iBase \<Rightarrow> 'x rstate \<Rightarrow> (bool \<times> 'x rstate) option" where
  "uninit_object env obh rel n b s = do {
     (st, s) \<leftarrow> get_context_state b s;
     if st AND ST_INITIALIZED \<noteq> 0 then do {
       s \<leftarrow> (if oi_flags (info_at env s b) AND RF_TASK \<noteq> 0 then do {
               (t, s) \<leftarrow> get_task_maker obh s;
               if t \<noteq> 0 then v_stop env t b s else Some s }
             else Some s);
       (_, s) \<leftarrow> lm_pre_uninit (link_at env s) b rel (remove_user env n) s;
       (r, s) \<leftarrow> v_ctl env OCTL_UNINIT b s;
       if r then do {
         (_, s) \<leftarrow> lm_uninit (link_at env s) b rel s;
         let s = upd (ms_pending_update (set_erase b)) s;
         (st, s) \<leftarrow> get_context_state b s;
         s \<leftarrow> set_context_state b (st AND NOT (ST_PENDING OR ST_INITIALIZED)) s;
         Some (True, s) }
       else Some (False, s) }
     else Some (True, s) }"

section \<open>Handles and releases\<close>

definition remove_context :: "iBase \<Rightarrow> 'x rstate \<Rightarrow> 'x rstate option" where
  "remove_context b s = do { (_, l) \<leftarrow> dcs_remove_context b 0 (gl_dcs (world s)); Some (upd (gl_dcs_update (\<lambda>_. l)) s) }"

definition create_context :: "'x env \<Rightarrow> base_entry \<Rightarrow> u8 \<Rightarrow> 'x rstate \<Rightarrow> (iBase \<times> 'x rstate) option" where
  "create_context env e flags s = do {
     (r, l) \<leftarrow> dcs_create_context (v_info env) e flags 0 (copied env (pi_base e)) (gl_dcs (world s));
     Some (r, upd (gl_dcs_update (\<lambda>_. l)) s) }"

definition inc_ref :: "addr \<Rightarrow> 'x rstate \<Rightarrow> 'x rstate option" where
  "inc_ref p s = put_entry p (ref_cnt_update (\<lambda>c. c + 1)) s"

fun object_by_handle :: "'x env \<Rightarrow> nat \<Rightarrow> addr \<Rightarrow> u8 \<Rightarrow> 'x rstate \<Rightarrow> (iBase \<times> 'x rstate) option"
  and object_release :: "'x env \<Rightarrow> nat \<Rightarrow> iBase \<Rightarrow> 'x rstate \<Rightarrow> 'x rstate option" where
  "object_by_handle env 0 p flags s = None"
| "object_by_handle env (Suc n) p flags s = do {
     e \<leftarrow> base_entries (world s) p;
     let f = oi_flags (v_info env (pi_base e)) AND flags;
     if f AND RF_CLONE \<noteq> 0 then do {
       (r, s) \<leftarrow> create_context env e flags s;
       if r \<noteq> 0 then do {
         (ok, s) \<leftarrow> init_object env (object_by_handle env n) n r s;
         if ok then do {
           s \<leftarrow> inc_ref p s;
           st \<leftarrow> dcs_get_context_state r (gl_dcs (world s));
           s \<leftarrow> (if st AND ST_PENDING \<noteq> 0 then scan_base_array env (object_by_handle env n) n r None s else Some s);
           Some (r, s) }
         else do {
           (_, s) \<leftarrow> uninit_object env (object_by_handle env n) (object_release env n) n r s;
           s \<leftarrow> remove_context r s;
           Some (0, s) } }
       else Some (0, s) }
     else if f AND RF_ORIGINAL \<noteq> 0 then do {
       (ok, s) \<leftarrow> init_object env (object_by_handle env n) n (pi_base e) s;
       if ok then do { s \<leftarrow> inc_ref p s; Some (pi_base e, s) } else Some (0, s) }
     else Some (0, s) }"
| "object_release env 0 b s = None"
| "object_release env (Suc n) b s =
     (if b = 0 then Some s
      else do {
        (r, s) \<leftarrow> find_object_entry env b s;
        (case r of
           None \<Rightarrow> Some s
         | Some p \<Rightarrow> do {
             e \<leftarrow> base_entries (world s) p;
             (unref, s) \<leftarrow>
               (if pi_base e \<noteq> b then do {
                  (u, s) \<leftarrow> uninit_object env (object_by_handle env n) (object_release env n) n b s;
                  if u then do { s \<leftarrow> v_destructor env b s; s \<leftarrow> remove_context b s; Some (True, s) } else Some (False, s) }
                else Some (True, s));
             e \<leftarrow> base_entries (world s) p;
             if ref_cnt e \<noteq> 0 \<and> unref then put_entry p (ref_cnt_update (\<lambda>c. c - 1)) s else Some s }) })"

definition repo_object_info :: "'x env \<Rightarrow> ptr \<Rightarrow> 'x rstate \<Rightarrow> object_info option option" where
  "repo_object_info env h s =
     (case h of
        None \<Rightarrow> Some None
      | Some p \<Rightarrow> do { e \<leftarrow> base_entries (world s) p; Some (if pi_base e \<noteq> 0 then Some (v_info env (pi_base e)) else None) })"

section \<open>Pending objects\<close>

text \<open>The variant without an entry asks for the links again. The state of an object that is no longer pending
  is computed with \<open>state &= ST_PENDING\<close>.\<close>

definition process_pending :: "'x env \<Rightarrow> 'x by_handle \<Rightarrow> nat \<Rightarrow> iBase \<Rightarrow> 'x rstate \<Rightarrow> (set_op \<times> 'x rstate) option" where
  "process_pending env obh n b s = do {
     (lmr, s) \<leftarrow> lm_post_init (link_at env s) b (link_request obh) s;
     if lmr AND PLMR_READY \<noteq> 0 then do {
       (st, s) \<leftarrow> get_context_state b s;
       (st, s) \<leftarrow>
         (if st AND ST_INITIALIZED = 0 then do {
            (r, s) \<leftarrow> v_ctl env OCTL_INIT b s;
            if r then do { s \<leftarrow> update_users env n b s; Some (st OR ST_INITIALIZED, s) } else Some (st, s) }
          else Some (st, s));
       let del = (lmr AND PLMR_KEEP_PENDING = 0);
       s \<leftarrow> set_context_state b (if del then st AND ST_PENDING else st) s;
       s \<leftarrow> update_users env n b s;
       Some (if del then SET_DELETE else SET_CONTINUE, s) }
     else Some (SET_CONTINUE, s) }"

definition process_pending_list :: "'x env \<Rightarrow> nat \<Rightarrow> 'x rstate \<Rightarrow> 'x rstate option" where
  "process_pending_list env n s = enum_pending (process_pending env (object_by_handle env n) n) n s"

definition process_pending_entry :: "'x env \<Rightarrow> 'x by_handle \<Rightarrow> nat \<Rightarrow> addr \<Rightarrow> iBase \<Rightarrow> 'x rstate \<Rightarrow> (set_op \<times> 'x rstate) option" where
  "process_pending_entry env obh n p b s = do {
     e \<leftarrow> base_entries (world s) p;
     (lmr, s) \<leftarrow> lm_post_init_entry (info_at env s) (link_at env s) b e (obh p) s;
     if lmr AND PLMR_READY \<noteq> 0 then do {
       (op, s) \<leftarrow>
         (if lmr AND PLMR_KEEP_PENDING = 0 then do {
            (st, s) \<leftarrow> get_context_state b s;
            s \<leftarrow> set_context_state b (st AND NOT ST_PENDING) s;
            Some (SET_DELETE, s) }
          else Some (SET_CONTINUE, s));
       s \<leftarrow> update_users env n b s;
       Some (op, s) }
     else Some (SET_CONTINUE, s) }"

definition process_pending_list_entry :: "'x env \<Rightarrow> nat \<Rightarrow> addr \<Rightarrow> 'x rstate \<Rightarrow> 'x rstate option" where
  "process_pending_list_entry env n p s = enum_pending (process_pending_entry env (object_by_handle env n) n p) n s"

section \<open>Arrays of entries\<close>

definition init_entry :: "'x env \<Rightarrow> nat \<Rightarrow> addr \<times> u32 \<Rightarrow> addr \<Rightarrow> 'x rstate \<Rightarrow> 'x rstate option" where
  "init_entry env n arr p s = do {
     e \<leftarrow> base_entries (world s) p;
     (post, s) \<leftarrow>
       (if oi_flags (info_at env s (pi_base e)) AND RF_ORIGINAL \<noteq> 0 \<and> be_state e AND ST_INITIALIZED = 0 then do {
          (r, s) \<leftarrow> init_object env (object_by_handle env n) n (pi_base e) s;
          s \<leftarrow> (if r then scan_base_array env (object_by_handle env n) n (pi_base e) (Some arr) s else Some s);
          Some (r, s) }
        else Some (True, s));
     if post then process_pending_list_entry env n p s else Some s }"

definition init_base_array :: "'x env \<Rightarrow> nat \<Rightarrow> addr \<Rightarrow> u32 \<Rightarrow> 'x rstate \<Rightarrow> 'x rstate option" where
  "init_base_array env n p cnt s = each_entry (init_entry env n (p, cnt)) p (unat cnt) s"

definition uninit_user :: "'x env \<Rightarrow> nat \<Rightarrow> addr \<Rightarrow> iBase \<Rightarrow> 'x rstate \<Rightarrow> (set_op \<times> 'x rstate) option" where
  "uninit_user env n p b s = do {
     e \<leftarrow> base_entries (world s) p;
     (lmr, s) \<leftarrow> lm_remove (info_at env s) (link_at env s) b e (object_release env n) s;
     if lmr AND PLMR_UNINIT \<noteq> 0 then do {
       (_, s) \<leftarrow> uninit_object env (object_by_handle env n) (object_release env n) n b s;
       Some (SET_CONTINUE, s) }
     else if lmr AND PLMR_KEEP_PENDING = 0 then do {
       let s = upd (ms_pending_update (set_erase b)) s;
       (st, s) \<leftarrow> get_context_state b s;
       s \<leftarrow> set_context_state b (st AND NOT ST_PENDING) s;
       Some (SET_CONTINUE, s) }
     else Some (SET_CONTINUE, s) }"

definition uninit_entry :: "'x env \<Rightarrow> nat \<Rightarrow> addr \<Rightarrow> 'x rstate \<Rightarrow> 'x rstate option" where
  "uninit_entry env n p s = do {
     s \<leftarrow> users_enum (\<lambda>s. users_map (world s)) (\<lambda>m. upd (users_map_update (\<lambda>_. m))) (uninit_user env n p) n p s;
     e \<leftarrow> base_entries (world s) p;
     if be_state e AND ST_INITIALIZED \<noteq> 0 then
       map_option snd (uninit_object env (object_by_handle env n) (object_release env n) n (pi_base e) s)
     else Some s }"

definition uninit_base_array :: "'x env \<Rightarrow> nat \<Rightarrow> addr \<Rightarrow> nat \<Rightarrow> 'x rstate \<Rightarrow> 'x rstate option" where
  "uninit_base_array env n p cnt s = each_entry (uninit_entry env n) p cnt s"

definition register_array :: "'x env \<Rightarrow> addr \<Rightarrow> u32 \<Rightarrow> 'x rstate \<Rightarrow> 'x rstate option" where
  "register_array env p cnt s = do {
     m \<leftarrow> add_base_array (v_info env) (base_entries (world s)) p (unat cnt) (base_map (world s));
     Some (upd (base_map_update (\<lambda>_. m)) s) }"

definition init_array :: "'x env \<Rightarrow> nat \<Rightarrow> addr \<Rightarrow> u32 \<Rightarrow> 'x rstate \<Rightarrow> 'x rstate option" where
  "init_array env n p cnt s = do { s \<leftarrow> register_array env p cnt s; init_base_array env n p cnt s }"

section \<open>Extensions\<close>

definition set_extension_dir :: "u8 list option \<Rightarrow> 'x rstate \<Rightarrow> 'x rstate" where
  "set_extension_dir d s = upd (m_ext_dir_update (\<lambda>_. d)) s"

definition get_extension_dir :: "'x rstate \<Rightarrow> u8 list option" where
  "get_extension_dir s = m_ext_dir (world s)"

text \<open>The path has room for 1024 bytes with its end; a path that is longer, and a directory that is not set, are
  errors of the model.\<close>

definition extension_path :: "u8 list \<Rightarrow> 'x rstate \<Rightarrow> u8 list option" where
  "extension_path file s = do {
     d \<leftarrow> m_ext_dir (world s);
     if length (d @ 0x2F # file) < 1024 then Some (d @ 0x2F # file) else None }"

definition repo_extension_load :: "'x env \<Rightarrow> nat \<Rightarrow> u8 list \<Rightarrow> u8 list option \<Rightarrow> 'x rstate \<Rightarrow> (err \<times> 'x rstate) option" where
  "repo_extension_load env n file al s = do {
     path \<leftarrow> extension_path file s;
     ((r, p), m) \<leftarrow> load_extension (loader env) n path al 0 (ext_map (world s));
     let s = upd (ext_map_update (\<lambda>_. m)) s;
     if r = ERR_NONE then do {
       p \<leftarrow> p;
       x \<leftarrow> record_data (ext_map (world s)) p;
       (r, s) \<leftarrow> ext_init (lib_init env) x s;
       if r = ERR_NONE then do {
         x \<leftarrow> record_data (ext_map (world s)) p;
         (case ext_array x of
            (Some a, cnt, lim) \<Rightarrow> do { s \<leftarrow> init_array env n a cnt s; Some (r, s) }
          | (None, cnt, lim) \<Rightarrow> do {
              m \<leftarrow> put_record p (\<lambda>x. snd (ext_unload (loader env) x)) (ext_map (world s));
              Some (ERR_UNKNOWN, upd (ext_map_update (\<lambda>_. m)) s) }) }
       else Some (r, s) }
     else Some (r, s) }"

definition repo_extension_unload :: "'x env \<Rightarrow> nat \<Rightarrow> u8 list \<Rightarrow> 'x rstate \<Rightarrow> (err \<times> 'x rstate) option" where
  "repo_extension_unload env n al s = do {
     (p, m) \<leftarrow> find_extension al 0 (ext_map (world s));
     let s = upd (ext_map_update (\<lambda>_. m)) s;
     (case p of
        None \<Rightarrow> Some (ERR_UNKNOWN, s)
      | Some p \<Rightarrow> do {
          x \<leftarrow> record_data (ext_map (world s)) p;
          s \<leftarrow> (case ext_array x of
              (Some a, cnt, lim) \<Rightarrow> do {
                s \<leftarrow> uninit_base_array env n a (unat cnt) s;
                m \<leftarrow> remove_base_array (v_info env) (base_entries (world s)) a (unat cnt) (base_map (world s));
                Some (upd (base_map_update (\<lambda>_. m)) s) }
            | (None, cnt, lim) \<Rightarrow> Some s);
          (r, m) \<leftarrow> unload_extension (loader env) al 0 (ext_map (world s));
          Some (r, upd (ext_map_update (\<lambda>_. m)) s) }) }"

section \<open>The repository object\<close>

definition repo_destroy :: "'x env \<Rightarrow> nat \<Rightarrow> 'x rstate \<Rightarrow> 'x rstate option" where
  "repo_destroy env n s = do {
     (xs, s) \<leftarrow> extensions n s;
     s \<leftarrow> visit_all (\<lambda>x. array_entries (uninit_entry env n) (ext_array x)) xs s;
     (h, s) \<leftarrow> object_by_iname (object_by_handle env n) I_HEAP RF_ORIGINAL s;
     s \<leftarrow> (if h \<noteq> 0 then map_option snd (v_ctl env OCTL_UNINIT h s) else Some s);
     (_, x) \<leftarrow> destroy_extensions_storage (loader env) n 0 (ext_map (world s));
     (_, u) \<leftarrow> destroy_users_storage n (users_map (world s));
     (_, b) \<leftarrow> destroy_base_array_storage (base_map (world s));
     (_, l) \<leftarrow> dcs_destroy_storage (gl_dcs (world s));
     z \<leftarrow> zdestroy (repo_zalloc (world s));
     Some (upd (\<lambda>w. w\<lparr>ext_map := x, users_map := u, base_map := b, gl_dcs := l, repo_zalloc := z\<rparr>) s) }"

definition repo_object_ctl :: "'x env \<Rightarrow> nat \<Rightarrow> octl \<Rightarrow> 'x rstate \<Rightarrow> (bool \<times> 'x rstate) option" where
  "repo_object_ctl env n cmd s =
     (case cmd of
        OCTL_INIT \<Rightarrow> do {
          (_, z) \<leftarrow> zinit (repo_zalloc (world s));
          Some (True, upd (\<lambda>w. w\<lparr>mpi_tasks := 0, repo_zalloc := z\<rparr>) s) }
      | OCTL_UNINIT \<Rightarrow> do { s \<leftarrow> repo_destroy env n s; Some (True, s) }
      | _ \<Rightarrow> Some (True, s))"

end
