(* ===== verification/LlSession.thy ===== *)
theory LlSession
  imports Llist
begin

text \<open>
  Clients that hold the lock of a list over several calls, and clients that write the contents of a record
  through its pointer.
\<close>

section \<open>Holding the lock over several calls\<close>

context ll_callbacks
begin

lemma session:
  assumes "ll_rel c A" "ready (p_udata c) 0"
  obtains hm u1 where "lock 0 (p_udata c) = Some (hm, u1)" "ll_rel (c\<lparr>p_udata := u1\<rparr>) A" "ready u1 hm"
    "\<And>c' A'. ll_rel c' A' \<Longrightarrow> same_cxt (c\<lparr>p_udata := u1\<rparr>) c' \<Longrightarrow>
       \<exists>u2. unlock hm (p_udata c') = Some u2 \<and> ll_rel (c'\<lparr>p_udata := u2\<rparr>) A' \<and> ready u2 0"
proof -
  have none: "owner (p_udata c) = None" using assms(2) owner_pos [of "p_udata c" 0] by (auto simp: ready_def)
  obtain hm u1 where u1: "lock 0 (p_udata c) = Some (hm, u1)" "ok u1" "owner u1 = Some (hm, 1)"
    using enter [OF assms(2)] none by auto
  have rel: "ll_rel (c\<lparr>p_udata := u1\<rparr>) A" using assms(1) u1(2) lock_live [OF u1(1)] by (simp add: ll_rel_def wired_def)
  have "\<exists>u2. unlock hm (p_udata c') = Some u2 \<and> ll_rel (c'\<lparr>p_udata := u2\<rparr>) A' \<and> ready u2 0"
    if c': "ll_rel c' A'" "same_cxt (c\<lparr>p_udata := u1\<rparr>) c'" for c' A'
  proof -
    have "ok (p_udata c')" "owner (p_udata c') = Some (hm, 1)" using c' u1(3) by (simp_all add: ll_rel_def same_cxt_def)
    then obtain u2 where u2: "unlock hm (p_udata c') = Some u2" "ok u2" "owner u2 = None" using unlock_owner by fastforce
    then show ?thesis using c'(1) unlock_live [OF u2(1)] by (auto simp: ll_rel_def wired_def ready_def)
  qed
  then show ?thesis using that u1 rel by (simp add: ready_def)
qed

text \<open>Writing the contents of a record.\<close>

lemma write_rel:
  assumes "ll_rel c A" "k < width A" "a \<in> set (cols A k)" "heap c a = Some it"
  shows "ll_rel (c\<lparr>heap := (heap c)(a \<mapsto> it\<lparr>it_data := d\<rparr>)\<rparr>) (A\<lparr>dat := (dat A)(a \<mapsto> (it_size it, d))\<rparr>) \<and>
    same_cxt c (c\<lparr>heap := (heap c)(a \<mapsto> it\<lparr>it_data := d\<rparr>)\<rparr>)"
proof -
  let ?c = "c\<lparr>heap := (heap c)(a \<mapsto> it\<lparr>it_data := d\<rparr>)\<rparr>"
  let ?A = "A\<lparr>dat := (dat A)(a \<mapsto> (it_size it, d))\<rparr>"
  have inv: "ll_inv rnd c (live (p_udata c)) A" using assms(1) by (simp add: ll_rel_def)
  have seg: "dseg (heap ?c) None (cols ?A j) None = dseg (heap c) None (cols A j) None" for j
    using dseg_same_links [of "heap c" a it "it\<lparr>it_data := d\<rparr>" None "cols A j" None] assms(4) by simp
  have items: "items_ok rnd ?c (live (p_udata ?c)) ?A j" if "j < width A" for j
    unfolding items_ok_def
  proof
    fix b assume b: "b \<in> set (cols ?A j)"
    have "items_ok rnd c (live (p_udata c)) A j" using ll_inv_col [OF inv that] by blast
    then obtain it' where it': "heap c b = Some it'" "it_cxt it' = Some (self c)" "it_col it' = of_nat j"
        "dat A b = Some (it_size it', it_data it')" "live (p_udata c) b = Some (rnd (it_size it' + sizeof_ll_item_hdr))" "state_addr c \<noteq> Some b"
      using b unfolding items_ok_def by auto
    then show "\<exists>it. heap ?c b = Some it \<and> it_cxt it = Some (self ?c) \<and> it_col it = of_nat j \<and> dat ?A b = Some (it_size it, it_data it) \<and>
        live (p_udata ?c) b = Some (rnd (it_size it + sizeof_ll_item_hdr)) \<and> state_addr ?c \<noteq> Some b"
      using assms(4) by (cases "b = a") (simp_all add: state_addr_def)
  qed
  have "ll_inv rnd ?c (live (p_udata ?c)) ?A"
    using inv seg items unfolding ll_inv_def by (auto simp: ll_shape_def state_addr_def get_st_def)
  then show ?thesis using assms(1) by (simp add: ll_rel_def wired_def same_cxt_def state_addr_def)
qed

lemma rel_live: "ll_rel c A \<Longrightarrow> k < width A \<Longrightarrow> a \<in> set (cols A k) \<Longrightarrow> live (p_udata c) a \<noteq> None"
proof -
  assume c: "ll_rel c A" "k < width A" "a \<in> set (cols A k)"
  then have "items_ok rnd c (live (p_udata c)) A k" using ll_inv_col [of rnd c "live (p_udata c)" A k] by (auto simp: ll_rel_def)
  then show ?thesis using c(3) unfolding items_ok_def by fastforce
qed

end

end
