(* ===== verification/CxSpec.thy ===== *)
theory CxSpec
  imports Repository LlSession
begin

text \<open>
  The storage of dynamic contexts as a list of contexts: creating one appends a record with the class of its
  original and a state of 0, removing one takes its record out, and the state of a context is written in place.
\<close>

declare set_concat [simp del] mset_concat [simp del] concat_eq_Nil_conv [simp del]

section \<open>The storage as a list of contexts\<close>

definition dcs_rel :: "dcs \<Rightarrow> cx_object ll_abs \<Rightarrow> bool" where
  "dcs_rel l A \<longleftrightarrow> list_rel l A \<and> list_ready l 0"

definition contexts :: "cx_object ll_abs \<Rightarrow> iBase \<Rightarrow> cx_object option" where
  "contexts A p = (if sizeof_hdr \<le> p \<and> p - sizeof_hdr \<in> set (scol A) then map_option snd (dat A (p - sizeof_hdr)) else None)"

lemma contexts_write:
  assumes "sizeof_hdr \<le> p" "p - sizeof_hdr \<in> set (scol A)" "dat A (p - sizeof_hdr) = Some (sz, x)"
  shows "contexts (A\<lparr>dat := (dat A)(p - sizeof_hdr \<mapsto> (sz, y))\<rparr>) = (contexts A)(p \<mapsto> y)"
proof
  fix q
  have "q = p" if "sizeof_hdr \<le> q" "q - sizeof_hdr = p - sizeof_hdr" using that assms(1) by simp
  then show "contexts (A\<lparr>dat := (dat A)(p - sizeof_hdr \<mapsto> (sz, y))\<rparr>) q = ((contexts A)(p \<mapsto> y)) q"
    using assms by (cases "q = p") (auto simp: contexts_def scol_def)
qed

lemma scol_in: "list_rel l A \<Longrightarrow> sel A < width A"
  using ll_invD by (auto simp: list_rel_def ll.ll_rel_def ll_inv_def ll_shape_def)

lemma scol_item:
  assumes "list_rel l A" "a \<in> set (scol A)"
  shows "\<exists>it. heap l a = Some it \<and> dat A a = Some (it_size it, it_data it)"
proof -
  have "ll_inv align l (list_live (p_udata l)) A" using assms(1) by (simp add: list_rel_def ll.ll_rel_def)
  from ll_inv_col [OF this scol_in [OF assms(1)]] have "items_ok align l (list_live (p_udata l)) A (sel A)" by blast
  then show ?thesis using assms(2) unfolding items_ok_def scol_def by blast
qed

lemma contexts_find:
  assumes "dcs_rel l A" "contexts A p = Some x"
  shows "cx_find l p = Some x"
  using assms scol_item [of l A "p - sizeof_hdr"] by (auto simp: dcs_rel_def contexts_def cx_find_def split: if_splits)

lemma scol_distinct: "list_rel l A \<Longrightarrow> distinct (scol A)"
  using ll.ll_rel_distinct by (simp add: list_rel_def)

lemma cx_put_rel:
  assumes "list_rel l A" "a \<in> set (scol A)" "dat A a = Some (sz, x)"
  shows "\<exists>l'. cx_put l (a + sizeof_hdr) st = Some l' \<and> list_rel l' (A\<lparr>dat := (dat A)(a \<mapsto> (sz, x\<lparr>cx_state := st\<rparr>))\<rparr>) \<and>
    ll.same_cxt l l' \<and> p_udata l' = p_udata l"
proof -
  obtain it where it: "heap l a = Some it" "dat A a = Some (it_size it, it_data it)" using scol_item [OF assms(1,2)] by blast
  have "a \<in> set (cols A (sel A))" using assms(2) by (simp add: scol_def)
  from ll.write_rel [OF assms(1) [unfolded list_rel_def] scol_in [OF assms(1)] this it(1), of "(it_data it)\<lparr>cx_state := st\<rparr>"]
  show ?thesis using it assms(3) by (simp add: cx_put_def list_rel_def sizeof_hdr_def)
qed

lemma dcs_state_rel:
  assumes "dcs_rel l A" "contexts A p = Some x"
  shows "\<exists>l' A'. dcs_set_context_state p st l = Some l' \<and> dcs_rel l' A' \<and> contexts A' = (contexts A)(p \<mapsto> x\<lparr>cx_state := st\<rparr>) \<and>
      scol A' = scol A \<and> sel A' = sel A"
    and "dcs_get_context_state p l = Some (cx_state x)"
proof -
  from assms(2) obtain sz where p: "sizeof_hdr \<le> p" "p - sizeof_hdr \<in> set (scol A)" "dat A (p - sizeof_hdr) = Some (sz, x)"
    by (auto simp: contexts_def split: if_splits)
  have l: "list_rel l A" "list_ready l 0" using assms(1) by (simp_all add: dcs_rel_def)
  obtain l' where "cx_put l p st = Some l'" "list_rel l' (A\<lparr>dat := (dat A)(p - sizeof_hdr \<mapsto> (sz, x\<lparr>cx_state := st\<rparr>))\<rparr>)"
      "p_udata l' = p_udata l"
    using cx_put_rel [OF l(1) p(2,3), of st] p(1) by auto
  then show "\<exists>l' A'. dcs_set_context_state p st l = Some l' \<and> dcs_rel l' A' \<and> contexts A' = (contexts A)(p \<mapsto> x\<lparr>cx_state := st\<rparr>) \<and>
      scol A' = scol A \<and> sel A' = sel A"
    using l contexts_write [OF p, of "x\<lparr>cx_state := st\<rparr>"]
    by (intro exI [of _ l'] exI [of _ "A\<lparr>dat := (dat A)(p - sizeof_hdr \<mapsto> (sz, x\<lparr>cx_state := st\<rparr>))\<rparr>"])
       (simp add: dcs_set_context_state_def dcs_rel_def list_ready_def scol_def)
  show "dcs_get_context_state p l = Some (cx_state x)"
    using contexts_find [OF assms] by (simp add: dcs_get_context_state_def)
qed

lemma dcs_create_rel:
  assumes "dcs_rel l A" "(oi_flags (info (pi_base e)) AND flags) AND RF_CLONE \<noteq> 0" "length (scol A) + 1 < 2 ^ 32"
    "zone_fits (oi_size (info (pi_base e)) + 1 + sizeof_ll_item_hdr)"
  shows "\<exists>r l' A'. dcs_create_context info e flags 0 st0 l = Some (r, l') \<and> dcs_rel l' A' \<and> sel A' = sel A \<and>
    (if r = 0 then A' = A
     else contexts A r = None \<and> contexts A' = (contexts A)(r \<mapsto> \<lparr>cx_class = pi_base e, cx_state = 0\<rparr>) \<and>
       scol A' = scol A @ [r - sizeof_hdr] \<and> sizeof_hdr \<le> r)"
proof -
  have l: "ll.ll_rel l A" "ll.ready (p_udata l) 0" using assms(1) by (simp_all add: dcs_rel_def list_rel_def list_ready_def)
  obtain hm u1 where u1: "list_lock 0 (p_udata l) = Some (hm, u1)" "ll.ll_rel (l\<lparr>p_udata := u1\<rparr>) A" "ll.ready u1 hm"
      "\<And>c' A'. ll.ll_rel c' A' \<Longrightarrow> ll.same_cxt (l\<lparr>p_udata := u1\<rparr>) c' \<Longrightarrow>
         \<exists>u2. list_unlock hm (p_udata c') = Some u2 \<and> ll.ll_rel (c'\<lparr>p_udata := u2\<rparr>) A' \<and> ll.ready u2 0"
    using ll.session [OF l] by blast
  let ?l = "l\<lparr>p_udata := u1\<rparr>" let ?sz = "oi_size (info (pi_base e)) + 1"
  let ?d = "\<lparr>cx_class = pi_base e, cx_state = st0\<rparr>"
  have lk: "dcs_lock l 0 = Some (hm, ?l)" using u1(1) by (simp add: dcs_lock_def linked_list_lock_def)
  have un: "\<exists>l2. dcs_unlock c' hm = Some l2 \<and> dcs_rel l2 A'"
    if c': "list_rel c' A'" "ll.same_cxt ?l c'" for c' A'
    using u1(4) [OF c' [unfolded list_rel_def]] by (auto simp: dcs_unlock_def linked_list_unlock_def dcs_rel_def list_rel_def list_ready_def)
  have rdy: "ll.ready (p_udata ?l) hm" using u1(3) by simp
  consider c where "linked_list_add ?l ?d ?sz hm = Some (None, c)" "list_rel c A" "ll.same_cxt ?l c"
    | a c where "linked_list_add ?l ?d ?sz hm = Some (Some a, c)" "list_live u1 a = None" "list_rel c (a_append A a ?sz ?d)" "ll.same_cxt ?l c"
    using ll.ll_append_rel [OF u1(2) rdy assms(3,4), of ?d] by (auto simp: linked_list_add_def ll_add_def list_rel_def)
  then show ?thesis
  proof cases
    case (1 c)
    obtain l2 where "dcs_unlock c hm = Some l2" "dcs_rel l2 A" using un [OF 1(2,3)] by blast
    then show ?thesis using lk 1(1) assms(2) by (auto simp: dcs_create_context_def Let_def)
  next
    case (2 a c)
    let ?A = "a_append A a ?sz ?d"
    have in_a: "a \<in> set (scol ?A)" "dat ?A a = Some (?sz, ?d)" "sel ?A = sel A" by (simp_all add: a_append_def scol_def)
    have sel: "sel A < width A" using scol_in [of ?l A] u1(2) by (simp add: list_rel_def)
    have new: "a \<notin> set (scol A)" using ll.rel_live [OF u1(2) sel, of a] 2(2) by (auto simp: scol_def)
    let ?A2 = "?A\<lparr>dat := (dat ?A)(a \<mapsto> (?sz, ?d\<lparr>cx_state := 0\<rparr>))\<rparr>"
    obtain c2 where c2: "cx_put c (a + sizeof_hdr) 0 = Some c2" "list_rel c2 ?A2" "ll.same_cxt c c2"
      using cx_put_rel [OF 2(3) in_a(1,2), of 0] by blast
    obtain l2 where "dcs_unlock c2 hm = Some l2" "dcs_rel l2 ?A2"
      using un [OF c2(2) ll.same_cxt_trans [OF 2(4) c2(3)]] by blast
    moreover have "contexts ?A2 = (contexts A)(a + sizeof_hdr \<mapsto> \<lparr>cx_class = pi_base e, cx_state = 0\<rparr>)"
      by (rule ext) (auto simp: contexts_def a_append_def scol_def sizeof_hdr_def)
    moreover have "contexts A (a + sizeof_hdr) = None" "scol ?A2 = scol A @ [a]" "sel ?A2 = sel A"
      using new by (simp_all add: contexts_def a_append_def scol_def)
    moreover have "dcs_create_context info e flags 0 st0 l = Some (a + sizeof_hdr, l2)"
      using lk 2(1) c2(1) calculation(1) assms(2) by (simp add: dcs_create_context_def Let_def)
    ultimately show ?thesis
      by (intro exI [of _ "a + sizeof_hdr"] exI [of _ l2] exI [of _ ?A2]) (simp add: sizeof_hdr_def)
  qed
qed

lemma dcs_remove_rel:
  assumes "dcs_rel l A" "contexts A p = Some x"
  shows "\<exists>l' A'. dcs_remove_context p 0 l = Some (True, l') \<and> dcs_rel l' A' \<and> contexts A' = (contexts A)(p := None) \<and>
    scol A' = remove1 (p - sizeof_hdr) (scol A) \<and> sel A' = sel A"
proof -
  let ?a = "p - sizeof_hdr"
  from assms(2) have p: "sizeof_hdr \<le> p" "?a \<in> set (scol A)" by (auto simp: contexts_def split: if_splits)
  have l: "ll.ll_rel l A" "ll.ready (p_udata l) 0" using assms(1) by (simp_all add: dcs_rel_def list_rel_def list_ready_def)
  obtain hm u1 where u1: "list_lock 0 (p_udata l) = Some (hm, u1)" "ll.ll_rel (l\<lparr>p_udata := u1\<rparr>) A" "ll.ready u1 hm"
      "\<And>c' A'. ll.ll_rel c' A' \<Longrightarrow> ll.same_cxt (l\<lparr>p_udata := u1\<rparr>) c' \<Longrightarrow>
         \<exists>u2. list_unlock hm (p_udata c') = Some u2 \<and> ll.ll_rel (c'\<lparr>p_udata := u2\<rparr>) A' \<and> ll.ready u2 0"
    using ll.session [OF l] by blast
  let ?l = "l\<lparr>p_udata := u1\<rparr>"
  have lk: "dcs_lock l 0 = Some (hm, ?l)" using u1(1) by (simp add: dcs_lock_def linked_list_lock_def)
  have rdy: "ll.ready (p_udata ?l) hm" using u1(3) by simp
  have sel: "sel A < width A" "?a \<in> set (cols A (sel A))" using scol_in [of l A] l(1) p(2) by (simp_all add: list_rel_def scol_def)
  obtain c1 where c1: "ll_sel ?l ?a hm = Some (True, c1)" "ll.ll_rel c1 (cursor A (Some ?a))" "ll.same_cxt ?l c1"
    using ll.ll_sel_rel [OF u1(2) rdy sel] by auto
  have rdy1: "ll.ready (p_udata c1) hm" using ll.ready_same [OF c1(3,2) rdy] .
  obtain c2 where c2: "ll_del c1 hm = Some ((), c2)" "ll.ll_rel c2 (a_del (cursor A (Some ?a)))" "ll.same_cxt c1 c2"
    using ll.ll_del_rel [OF c1(2) rdy1] by blast
  obtain u2 where u2: "list_unlock hm (p_udata c2) = Some u2" "ll.ll_rel (c2\<lparr>p_udata := u2\<rparr>) (a_del (cursor A (Some ?a)))" "ll.ready u2 0"
    using u1(4) [OF c2(2) ll.same_cxt_trans [OF c1(3) c2(3)]] by blast
  let ?A = "a_del (cursor A (Some ?a))"
  have s: "scol ?A = remove1 ?a (scol A)" "sel ?A = sel A" by (simp_all add: a_del_def cursor_def scol_def)
  have d: "set (remove1 ?a (scol A)) = set (scol A) - {?a}" using scol_distinct [of l A] l(1) by (simp add: list_rel_def)
  have "contexts ?A = (contexts A)(p := None)"
    using p(1) unfolding contexts_def s(1) d by (auto simp: a_del_def cursor_def scol_def fun_eq_iff)
  moreover have "dcs_remove_context p 0 l = Some (True, c2\<lparr>p_udata := u2\<rparr>)"
    using lk c1(1) c2(1) u2(1)
    by (simp add: dcs_remove_context_def linked_list_sel_def linked_list_del_def dcs_unlock_def linked_list_unlock_def)
  ultimately show ?thesis using u2(2,3) s by (auto simp: dcs_rel_def list_rel_def list_ready_def)
qed

end
