(* ===== verification/RepoSpec.thy ===== *)
theory RepoSpec
  imports CxSpec
begin

text \<open>
  The life cycle of objects, proved on the model of Repository. Reading a map needs its table and its lock,
  not its allocator: \<open>reads\<close> says what a map holds, and lookups and writes through a found pointer keep it.
\<close>

declare set_concat [simp del] mset_concat [simp del] concat_eq_Nil_conv [simp del]

section \<open>Reading a map\<close>

definition reads :: "'a hash_map \<Rightarrow> (u8 list \<rightharpoonup> 'a map_rec_hdr) \<Rightarrow> bool" where
  "reads m M \<longleftrightarrow> hash_map_ready m 0 \<and> pf_hash (hm_context m) = Some map_hash \<and>
     (\<exists>a bs. pp_list (hm_context m) = Some (a, bs) \<and> buckets_ok bs (capacity (hm_context m)) \<and>
        distinct (map mr_addr (concat bs)) \<and> M = mget bs)"

lemma rel_reads: "hash_map_rel m M \<Longrightarrow> hash_map_ready m 0 \<Longrightarrow> reads m M"
proof -
  assume m: "hash_map_rel m M" "hash_map_ready m 0"
  then obtain bs where bs: "hm.map_rel (hm_context m) bs" "M = mget bs" "pf_hash (hm_context m) = Some map_hash"
    by (auto simp: hash_map_rel_def)
  obtain la where la: "pp_list (hm_context m) = Some (la, bs)" "distinct (blocks_of la bs)" using bs(1) by (rule hm.map_relE)
  then show ?thesis using m bs unfolding reads_def blocks_of_def hm.map_rel_def by auto
qed

lemma reads_get:
  assumes "reads m M" "key \<noteq> []"
  shows "\<exists>m'. hash_map_get m key 0 = Some (found (M (map_hash key)), m') \<and> reads m' M \<and> hm_context m' = hm_context m"
proof -
  obtain a bs where bs: "pp_list (hm_context m) = Some (a, bs)" "buckets_ok bs (capacity (hm_context m))" "M = mget bs"
      "pf_hash (hm_context m) = Some map_hash"
    using assms(1) by (auto simp: reads_def)
  have "map_get (hm_context m) key = found (M (map_hash key))"
    using bs find_bucket [OF bs(2)] assms(2) by (simp add: map_get_def get_record_def key_digest_map_hash Let_def found_def)
  moreover have "hash_map_ready m 0" using assms(1) by (simp add: reads_def)
  ultimately obtain m' where "hash_map_get m key 0 = Some (found (M (map_hash key)), m')" "hm_context m' = hm_context m"
      "hash_map_ready m' 0"
    using hm_locked_ok [of m 0 "\<lambda>c. Some (map_get c key, c)"] by (auto simp: hash_map_get_def)
  then show ?thesis using assms(1) by (auto simp: reads_def)
qed

lemma reads_data:
  assumes "reads m M" "M d = Some r"
  shows "record_data m (mr_addr r) = Some (mr_data r)"
proof -
  obtain a bs where bs: "pp_list (hm_context m) = Some (a, bs)" "buckets_ok bs (capacity (hm_context m))" "M = mget bs"
      "distinct (map mr_addr (concat bs))"
    using assms(1) by (auto simp: reads_def)
  have "r \<in> set (concat bs)" using bs assms(2) mget_Some_iff [of bs d r] by (auto simp: buckets_ok_def)
  then have "find (\<lambda>q. mr_addr q = mr_addr r) (concat bs) = Some r" using bs(4) by (intro find_unique) auto
  then show ?thesis using bs(1) by (simp add: record_data_def)
qed

lemma image_if:
  assumes "r \<in> set xs" "\<And>x. x \<in> set xs \<Longrightarrow> P x = P r \<Longrightarrow> x = r"
  shows "x \<in> set (map (\<lambda>x. if P x = P r then g x else x) xs) \<longleftrightarrow> x = g r \<or> x \<in> set xs \<and> x \<noteq> r"
proof -
  have "(if P y = P r then g y else y) = (if y = r then g r else y)" if "y \<in> set xs" for y using assms(2) [OF that] by auto
  then have "map (\<lambda>x. if P x = P r then g x else x) xs = map (\<lambda>x. if x = r then g r else x) xs" by simp
  then show ?thesis using assms(1) by auto
qed

lemma mget_update:
  assumes "distinct (map mr_key (concat bs))" "distinct (map mr_addr (concat bs))" "mget bs d = Some r" "\<And>x. mr_key (g x) = mr_key x"
  shows "mget (map (map (\<lambda>x. if mr_addr x = mr_addr r then g x else x)) bs) = (mget bs)(d \<mapsto> g r)"
proof -
  let ?g = "\<lambda>x. if mr_addr x = mr_addr r then g x else x"
  have c: "concat (map (map ?g) bs) = map ?g (concat bs)" by (induction bs) auto
  have key: "mr_key \<circ> ?g = mr_key" using assms(4) by auto
  have dist: "distinct (map mr_key (concat (map (map ?g) bs)))" using assms(1) by (simp add: c key)
  have r: "r \<in> set (concat bs)" "mr_key r = d" using mget_Some_iff [OF assms(1)] assms(3) by auto
  have other: "mr_addr x = mr_addr r \<Longrightarrow> x = r" if "x \<in> set (concat bs)" for x
    using that r(1) assms(2) by (auto simp: distinct_map inj_on_def)
  show ?thesis
  proof
    fix e
    show "mget (map (map ?g) bs) e = ((mget bs)(d \<mapsto> g r)) e"
    proof (rule mget_eqI [OF assms(1) dist])
      fix x
      have i: "x \<in> set (concat (map (map ?g) bs)) \<longleftrightarrow> x = g r \<or> x \<in> set (concat bs) \<and> x \<noteq> r"
        unfolding c by (rule image_if [OF r(1)]) (rule other)
      have k: "mr_key (g r) = d" using assms(4) r(2) by simp
      have u: "x = r" if "x \<in> set (concat bs)" "mr_key x = d" using that r assms(1) by (auto simp: distinct_map inj_on_def)
      show "x \<in> set (concat (map (map ?g) bs)) \<and> mr_key x = e \<longleftrightarrow> ((mget bs)(d \<mapsto> g r)) e = Some x"
      proof (cases "e = d")
        case True
        then show ?thesis unfolding i using k u by auto
      next
        case False
        then have "((mget bs)(d \<mapsto> g r)) e = Some x \<longleftrightarrow> x \<in> set (concat bs) \<and> mr_key x = e"
          using mget_Some_iff [OF assms(1), of e x] by simp
        then show ?thesis unfolding i using k r(2) False by auto
      qed
    qed
  qed
qed

lemma reads_put:
  assumes "reads m M" "M d = Some r"
  shows "\<exists>m'. put_record (mr_addr r) f m = Some m' \<and> reads m' (M(d \<mapsto> r\<lparr>mr_data := f (mr_data r)\<rparr>))"
proof -
  obtain a bs where bs: "pp_list (hm_context m) = Some (a, bs)" "buckets_ok bs (capacity (hm_context m))" "M = mget bs"
      "distinct (map mr_addr (concat bs))" "hash_map_ready m 0" "pf_hash (hm_context m) = Some map_hash"
    using assms(1) by (auto simp: reads_def)
  let ?g = "\<lambda>x. if mr_addr x = mr_addr r then x\<lparr>mr_data := f (mr_data x)\<rparr> else x"
  let ?bs = "map (map ?g) bs"
  have c: "concat ?bs = map ?g (concat bs)" by (induction bs) auto
  have k: "mr_key \<circ> ?g = mr_key" "mr_addr \<circ> ?g = mr_addr" by auto
  have "buckets_ok ?bs (capacity (hm_context m))" using bs(2) unfolding buckets_ok_def c map_map k by auto
  moreover have "distinct (map mr_addr (concat ?bs))" using bs(4) unfolding c map_map k .
  moreover have "mget ?bs = M(d \<mapsto> r\<lparr>mr_data := f (mr_data r)\<rparr>)"
    using mget_update [of bs d r "\<lambda>x. x\<lparr>mr_data := f (mr_data x)\<rparr>"] bs assms(2) by (simp add: buckets_ok_def)
  ultimately show ?thesis using bs reads_data [OF assms] by (auto simp: put_record_def reads_def hash_map_ready_def)
qed

section \<open>Reading the registry\<close>

definition registers :: "addr hash_map \<Rightarrow> (u8 list \<rightharpoonup> addr) \<Rightarrow> bool" where
  "registers m R \<longleftrightarrow> (\<exists>M. reads m M \<and> R = (\<lambda>d. map_option mr_data (M d)))"

lemma reg_rel_registers: "reg_rel n m R \<Longrightarrow> registers m R"
  unfolding reg_rel_def registers_def using rel_reads by blast

lemma registers_find:
  assumes "registers m R"
  shows "\<exists>m'. find_object k m = Some (R (digest k), m') \<and> registers m' R"
proof -
  obtain M where M: "reads m M" "R = (\<lambda>d. map_option mr_data (M d))" using assms by (auto simp: registers_def)
  obtain m' where g: "hash_map_get m (key_bytes k) 0 = Some (found (M (digest k)), m')" "reads m' M"
    using reads_get [OF M(1) key_bytes_nonempty [of k]] unfolding digest_def by blast
  show ?thesis using g M(2) reads_data [OF g(2)]
    by (cases "M (digest k)") (auto simp: find_object_def found_def registers_def)
qed

text \<open>A state with another registry map that reads the same.\<close>

definition reread :: "'x rstate \<Rightarrow> 'x rstate \<Rightarrow> bool" where
  "reread s s' \<longleftrightarrow> (\<exists>m. s' = upd (base_map_update (\<lambda>_. m)) s)"

lemma reread_refl [simp]: "reread s s"
  unfolding reread_def by (rule exI [of _ "base_map (world s)"]) (simp add: upd_def)

lemma reread_trans: "reread s s' \<Longrightarrow> reread s' s'' \<Longrightarrow> reread s s''"
  by (auto simp: reread_def upd_def)

lemma reread_fields:
  assumes "reread s s'"
  shows "base_entries (world s') = base_entries (world s)" "gl_dcs (world s') = gl_dcs (world s)" "slot_of s' = slot_of s"
    "users_map (world s') = users_map (world s)" "ext_map (world s') = ext_map (world s)" "m_ext_dir (world s') = m_ext_dir (world s)"
    "ms_pending (world s') = ms_pending (world s)" "ms_it_pending (world s') = ms_it_pending (world s)"
    "mpi_tasks (world s') = mpi_tasks (world s)" "repo_zalloc (world s') = repo_zalloc (world s)" "objs (world s') = objs (world s)"
    "info_at env s' b = info_at env s b" "link_at env s' b = link_at env s b"
  using assms by (auto simp: reread_def upd_def info_at_def link_at_def)

definition at_registry :: "(u8 list \<rightharpoonup> addr) \<Rightarrow> 'x rstate \<Rightarrow> bool" where
  "at_registry R s \<longleftrightarrow> registers (base_map (world s)) R"

lemma find_by_at:
  assumes "at_registry R s"
  shows "\<exists>s'. find_by (find_object_by_cname c) s = Some (R (digest (cname_key c)), s') \<and> at_registry R s' \<and> reread s s'"
    and "\<exists>s'. find_by (find_object_by_iname c) s = Some (R (digest (iname_key c)), s') \<and> at_registry R s' \<and> reread s s'"
    and "\<exists>s'. find_by (find_object_by_pointer b) s = Some (R (digest (pointer_key b)), s') \<and> at_registry R s' \<and> reread s s'"
proof -
  note r = assms [unfolded at_registry_def]
  show "\<exists>s'. find_by (find_object_by_cname c) s = Some (R (digest (cname_key c)), s') \<and> at_registry R s' \<and> reread s s'"
    using registers_find [OF r, of "cname_key c"]
    by (auto simp: find_by_def find_object_by_cname_def at_registry_def reread_def upd_def)
  show "\<exists>s'. find_by (find_object_by_iname c) s = Some (R (digest (iname_key c)), s') \<and> at_registry R s' \<and> reread s s'"
    using registers_find [OF r, of "iname_key c"]
    by (auto simp: find_by_def find_object_by_iname_def at_registry_def reread_def upd_def)
  show "\<exists>s'. find_by (find_object_by_pointer b) s = Some (R (digest (pointer_key b)), s') \<and> at_registry R s' \<and> reread s s'"
    using registers_find [OF r, of "pointer_key b"]
    by (auto simp: find_by_def find_object_by_pointer_def at_registry_def reread_def upd_def)
qed

section \<open>Originals\<close>

text \<open>A state that differs in the registry map and the entries only.\<close>

definition touched :: "entries \<Rightarrow> 'x rstate \<Rightarrow> 'x rstate \<Rightarrow> bool" where
  "touched E s s' \<longleftrightarrow> (\<exists>m. s' = upd (\<lambda>w. w\<lparr>base_map := m, base_entries := E\<rparr>) s)"

lemma reread_touched: "reread s s' \<Longrightarrow> touched (base_entries (world s)) s s'"
  by (auto simp: reread_def touched_def upd_def)

lemma touched_reread: "touched E s s' \<Longrightarrow> reread s' s'' \<Longrightarrow> touched E s s''"
proof -
  assume "touched E s s'" "reread s' s''"
  then obtain m m' where "s' = upd (\<lambda>w. w\<lparr>base_map := m, base_entries := E\<rparr>) s" "s'' = upd (base_map_update (\<lambda>_. m')) s'"
    by (auto simp: reread_def touched_def)
  then have "s'' = upd (\<lambda>w. w\<lparr>base_map := m', base_entries := E\<rparr>) s" by (simp add: upd_def)
  then show ?thesis unfolding touched_def by blast
qed

lemma reread_touch: "reread s s' \<Longrightarrow> touched E s' s'' \<Longrightarrow> touched E s s''"
  by (auto simp: reread_def touched_def upd_def)

lemma touched_trans: "touched E s s' \<Longrightarrow> touched E' s' s'' \<Longrightarrow> touched E' s s''"
  by (auto simp: touched_def upd_def)

lemma touched_same: "touched (base_entries (world s)) s s' \<Longrightarrow> reread s s'"
  by (auto simp: reread_def touched_def upd_def)

lemma touched_fields:
  assumes "touched E s s'"
  shows "base_entries (world s') = E" "gl_dcs (world s') = gl_dcs (world s)" "slot_of s' = slot_of s"
    "users_map (world s') = users_map (world s)" "ext_map (world s') = ext_map (world s)" "ms_pending (world s') = ms_pending (world s)"
    "mpi_tasks (world s') = mpi_tasks (world s)" "objs (world s') = objs (world s)"
    "info_at env s' b = info_at env s b" "link_at env s' b = link_at env s b"
  using assms by (auto simp: touched_def upd_def info_at_def link_at_def)

lemma put_entry_at:
  assumes "base_entries (world s) p = Some e" "at_registry R s"
  shows "\<exists>s'. put_entry p f s = Some s' \<and> at_registry R s' \<and> touched ((base_entries (world s))(p \<mapsto> f e)) s s'"
  using assms by (auto simp: put_entry_def at_registry_def touched_def upd_def intro: exI [of _ "base_map (world s)"])

text \<open>An entry whose object is found by its address, and whose class offers what is asked for.\<close>

definition original :: "(u8 list \<rightharpoonup> addr) \<Rightarrow> 'x rstate \<Rightarrow> addr \<Rightarrow> base_entry \<Rightarrow> bool" where
  "original R s p e \<longleftrightarrow> base_entries (world s) p = Some e \<and> pi_base e \<noteq> 0 \<and> R (digest (pointer_key (pi_base e))) = Some p"

definition offers :: "'x env \<Rightarrow> base_entry \<Rightarrow> u8 \<Rightarrow> bool" where
  "offers env e flags \<longleftrightarrow> (oi_flags (v_info env (pi_base e)) AND flags) AND RF_CLONE = 0 \<and>
     (oi_flags (v_info env (pi_base e)) AND flags) AND RF_ORIGINAL \<noteq> 0"

lemma original_reread: "original R s p e \<Longrightarrow> reread s s' \<Longrightarrow> original R s' p e"
  by (simp add: original_def reread_fields)

lemma original_state:
  assumes "at_registry R s" "original R s p e"
  shows "\<exists>s'. get_context_state (pi_base e) s = Some (be_state e, s') \<and> at_registry R s' \<and> reread s s'"
proof -
  obtain s1 where s1: "find_by (find_object_by_pointer (pi_base e)) s = Some (R (digest (pointer_key (pi_base e))), s1)"
      "at_registry R s1" "reread s s1"
    using find_by_at(3) [OF assms(1)] by blast
  then show ?thesis using assms(2) by (auto simp: get_context_state_def original_def reread_fields)
qed

lemma original_entry:
  assumes "at_registry R s" "original R s p e"
  shows "\<exists>s'. find_object_entry env (pi_base e) s = Some (Some p, s') \<and> at_registry R s' \<and> reread s s'"
  using find_by_at(3) [OF assms(1), of "pi_base e"] assms(2) by (auto simp: find_object_entry_def original_def)

text \<open>A request for an original that is initialised counts one more reference.\<close>

definition ref_up :: "base_entry \<Rightarrow> base_entry" where "ref_up e = e\<lparr>ref_cnt := ref_cnt e + 1\<rparr>"
definition ref_down :: "base_entry \<Rightarrow> base_entry" where
  "ref_down e = e\<lparr>ref_cnt := (if ref_cnt e = 0 then 0 else ref_cnt e - 1)\<rparr>"

lemma ref_updates:
  "ref_cnt_update (\<lambda>c. c + 1) e = ref_up e" "ref_cnt e \<noteq> 0 \<Longrightarrow> ref_cnt_update (\<lambda>c. c - 1) e = ref_down e"
  "ref_cnt e = 0 \<Longrightarrow> ref_down e = e" "ref_cnt e + 1 \<noteq> 0 \<Longrightarrow> ref_down (ref_up e) = e"
  by (cases e; simp add: ref_up_def ref_down_def)+

lemma ref_fields [simp]:
  "pi_base (ref_up e) = pi_base e" "be_state (ref_up e) = be_state e" "pi_base (ref_down e) = pi_base e" "be_state (ref_down e) = be_state e"
  by (simp_all add: ref_up_def ref_down_def)

lemma handle_initialised:
  assumes "at_registry R s" "original R s p e" "offers env e flags" "be_state e AND ST_INITIALIZED \<noteq> 0"
  shows "\<exists>s'. object_by_handle env (Suc n) p flags s = Some (pi_base e, s') \<and> at_registry R s' \<and>
    touched ((base_entries (world s))(p \<mapsto> ref_up e)) s s'"
proof -
  obtain s1 where s1: "get_context_state (pi_base e) s = Some (be_state e, s1)" "at_registry R s1" "reread s s1"
    using original_state [OF assms(1,2)] by blast
  have e: "base_entries (world s) p = Some e" "base_entries (world s1) p = Some e"
    using assms(2) s1(3) by (simp_all add: original_def reread_fields)
  obtain s2 where s2: "inc_ref p s1 = Some s2" "at_registry R s2" "touched ((base_entries (world s1))(p \<mapsto> ref_up e)) s1 s2"
    using put_entry_at [OF e(2) s1(2), of "ref_cnt_update (\<lambda>c. c + 1)"] by (auto simp: inc_ref_def ref_updates)
  have "init_object env (object_by_handle env n) n (pi_base e) s = Some (True, s1)"
    using s1(1) assms(4) by (simp add: init_object_def)
  then have "object_by_handle env (Suc n) p flags s = Some (pi_base e, s2)"
    using e(1) assms(3) s2(1) by (simp add: offers_def Let_def)
  then show ?thesis using s2 reread_touch [OF s1(3)] s1(3) by (auto simp: reread_fields)
qed

lemma request_cname:
  assumes "at_registry R s" "R (digest (cname_key c)) = Some p"
  shows "\<exists>s1. object_by_cname obh c flags s = obh p flags s1 \<and> at_registry R s1 \<and> reread s s1"
  using find_by_at(1) [OF assms(1), of c] assms(2) by (auto simp: object_by_cname_def object_request_def RQ_NAME_def)

lemma request_iname:
  assumes "at_registry R s" "R (digest (iname_key c)) = Some p"
  shows "\<exists>s1. object_by_iname obh c flags s = obh p flags s1 \<and> at_registry R s1 \<and> reread s s1"
  using find_by_at(2) [OF assms(1), of c] assms(2) by (auto simp: object_by_iname_def object_request_def RQ_NAME_def RQ_INTERFACE_def)

text \<open>What a link asks for: the name of the class when it has one, and the interface otherwise.\<close>

definition link_target :: "(u8 list \<rightharpoonup> addr) \<Rightarrow> 'x repo link_info \<Rightarrow> addr option" where
  "link_target R l =
     (case li_cname l of Some c \<Rightarrow> R (digest (cname_key c))
      | None \<Rightarrow> (case li_iname l of Some i \<Rightarrow> R (digest (iname_key i)) | None \<Rightarrow> None))"

lemma link_request_at:
  assumes "at_registry R s"
  shows "\<exists>s1. link_request obh l s = (case link_target R l of None \<Rightarrow> Some (0, s1) | Some p \<Rightarrow> obh p (li_flags l) s1) \<and>
    at_registry R s1 \<and> reread s s1"
  using find_by_at(1) [OF assms, of "the (li_cname l)"] find_by_at(2) [OF assms, of "the (li_iname l)"] assms
  by (cases "li_cname l"; cases "li_iname l")
     (auto simp: link_request_def object_request_def link_target_def RQ_NAME_def RQ_INTERFACE_def split: option.split)

lemma release_original:
  assumes "at_registry R s" "original R s p e"
  shows "\<exists>s'. object_release env (Suc n) (pi_base e) s = Some s' \<and> at_registry R s' \<and>
    touched ((base_entries (world s))(p \<mapsto> ref_down e)) s s'"
proof -
  obtain s1 where s1: "find_object_entry env (pi_base e) s = Some (Some p, s1)" "at_registry R s1" "reread s s1"
    using original_entry [OF assms] by blast
  have e: "base_entries (world s1) p = Some e" "pi_base e \<noteq> 0" "base_entries (world s1) = base_entries (world s)"
    using assms(2) s1(3) by (simp_all add: original_def reread_fields)
  show ?thesis
  proof (cases "ref_cnt e = 0")
    case True
    moreover have "(base_entries (world s))(p \<mapsto> e) = base_entries (world s)" using e by auto
    ultimately show ?thesis using s1 e reread_touched [OF s1(3)] by (simp add: ref_updates del: fun_upd_apply)
  next
    case False
    obtain s2 where "put_entry p (ref_cnt_update (\<lambda>c. c - 1)) s1 = Some s2" "at_registry R s2"
        "touched ((base_entries (world s1))(p \<mapsto> ref_down e)) s1 s2"
      using put_entry_at [OF e(1) s1(2), of "ref_cnt_update (\<lambda>c. c - 1)"] False by (auto simp: ref_updates)
    then show ?thesis using s1 e False reread_touch [OF s1(3)] by simp
  qed
qed

section \<open>Contexts\<close>

text \<open>Objects whose control method only works on what the objects keep, and does not refuse to end.\<close>

definition obeys :: "'x env \<Rightarrow> bool" where
  "obeys env \<longleftrightarrow> (\<forall>cmd b s. \<exists>r x. v_ctl env cmd b s = Some (r, upd (objs_update (\<lambda>_. x)) s) \<and> (cmd = OCTL_UNINIT \<longrightarrow> r)) \<and>
     (\<forall>b s. \<exists>x. v_destructor env b s = Some (upd (objs_update (\<lambda>_. x)) s))"

text \<open>A class with neither links nor a task.\<close>

definition plain_class :: "'x env \<Rightarrow> iBase \<Rightarrow> bool" where
  "plain_class env c \<longleftrightarrow> (\<forall>b. v_link env c b = None) \<and> oi_flags (v_info env c) AND RF_TASK = 0"

definition at_dcs :: "cx_object ll_abs \<Rightarrow> 'x rstate \<Rightarrow> bool" where
  "at_dcs A s \<longleftrightarrow> dcs_rel (gl_dcs (world s)) A"

text \<open>A state that differs in the registry map, the contexts and the objects' own part.\<close>

definition moved :: "'x rstate \<Rightarrow> 'x rstate \<Rightarrow> bool" where
  "moved s s' \<longleftrightarrow> (\<exists>m l x. s' = upd (\<lambda>w. w\<lparr>base_map := m, gl_dcs := l, objs := x\<rparr>) s)"

lemma moved_entries: "moved s s' \<Longrightarrow> base_entries (world s') = base_entries (world s)"
  by (auto simp: moved_def upd_def)

lemma moved_trans: "moved s s' \<Longrightarrow> moved s' s'' \<Longrightarrow> moved s s''"
proof -
  assume "moved s s'" "moved s' s''"
  then obtain m l x m' l' x' where "s' = upd (\<lambda>w. w\<lparr>base_map := m, gl_dcs := l, objs := x\<rparr>) s"
      "s'' = upd (\<lambda>w. w\<lparr>base_map := m', gl_dcs := l', objs := x'\<rparr>) s'"
    by (auto simp: moved_def)
  then have "s'' = upd (\<lambda>w. w\<lparr>base_map := m', gl_dcs := l', objs := x'\<rparr>) s" by (simp add: upd_def)
  then show ?thesis unfolding moved_def by blast
qed

lemma reread_moved: "reread s s' \<Longrightarrow> moved s s'"
proof -
  assume "reread s s'"
  then obtain m where "s' = upd (base_map_update (\<lambda>_. m)) s" by (auto simp: reread_def)
  then have "s' = upd (\<lambda>w. w\<lparr>base_map := m, gl_dcs := gl_dcs (world s), objs := objs (world s)\<rparr>) s" by (simp add: upd_def)
  then show ?thesis unfolding moved_def by blast
qed

lemma dcs_moved: "moved s (upd (gl_dcs_update (\<lambda>_. l)) s)"
proof -
  have "upd (gl_dcs_update (\<lambda>_. l)) s = upd (\<lambda>w. w\<lparr>base_map := base_map (world s), gl_dcs := l, objs := objs (world s)\<rparr>) s"
    by (simp add: upd_def)
  then show ?thesis unfolding moved_def by blast
qed

lemma objs_moved: "moved s (upd (objs_update (\<lambda>_. x)) s)"
proof -
  have "upd (objs_update (\<lambda>_. x)) s = upd (\<lambda>w. w\<lparr>base_map := base_map (world s), gl_dcs := gl_dcs (world s), objs := x\<rparr>) s"
    by (simp add: upd_def)
  then show ?thesis unfolding moved_def by blast
qed

lemma at_upd [simp]:
  "at_registry R (upd (objs_update f) s) = at_registry R s" "at_dcs A (upd (objs_update f) s) = at_dcs A s"
  "at_registry R (upd (gl_dcs_update g) s) = at_registry R s" "at_dcs A (upd (gl_dcs_update (\<lambda>_. l)) s) = dcs_rel l A"
  by (simp_all add: at_registry_def at_dcs_def upd_def)

lemma at_dcs_reread: "at_dcs A s \<Longrightarrow> reread s s' \<Longrightarrow> at_dcs A s'"
  by (simp add: at_dcs_def reread_fields)

lemma class_of_context: "at_dcs A s \<Longrightarrow> contexts A b = Some x \<Longrightarrow> class_of (gl_dcs (world s)) b = cx_class x"
  using contexts_find by (simp add: at_dcs_def class_of_def)

lemma context_state:
  assumes "at_registry R s" "at_dcs A s" "contexts A b = Some x" "b \<noteq> 0" "R (digest (pointer_key b)) = None"
  shows "\<exists>s'. get_context_state b s = Some (cx_state x, s') \<and> at_registry R s' \<and> at_dcs A s' \<and> reread s s'"
    and "\<exists>s' A'. set_context_state b st s = Some s' \<and> at_registry R s' \<and> at_dcs A' s' \<and> moved s s' \<and>
      contexts A' = (contexts A)(b \<mapsto> x\<lparr>cx_state := st\<rparr>) \<and> scol A' = scol A"
proof -
  obtain s1 where s1: "find_by (find_object_by_pointer b) s = Some (None, s1)" "at_registry R s1" "reread s s1"
    using find_by_at(3) [OF assms(1), of b] assms(5) by auto
  have d: "at_dcs A s1" "dcs_rel (gl_dcs (world s1)) A" using at_dcs_reread [OF assms(2) s1(3)] by (simp_all add: at_dcs_def)
  show "\<exists>s'. get_context_state b s = Some (cx_state x, s') \<and> at_registry R s' \<and> at_dcs A s' \<and> reread s s'"
    using s1 d(1) dcs_state_rel(2) [OF d(2) assms(3)] assms(4) by (auto simp: get_context_state_def)
  obtain l' A' where l': "dcs_set_context_state b st (gl_dcs (world s1)) = Some l'" "dcs_rel l' A'"
      "contexts A' = (contexts A)(b \<mapsto> x\<lparr>cx_state := st\<rparr>)" "scol A' = scol A"
    using dcs_state_rel(1) [OF d(2) assms(3), of st] by blast
  then have "set_context_state b st s = Some (upd (gl_dcs_update (\<lambda>_. l')) s1)"
    using s1(1) assms(4) by (simp add: set_context_state_def)
  then show "\<exists>s' A'. set_context_state b st s = Some s' \<and> at_registry R s' \<and> at_dcs A' s' \<and> moved s s' \<and>
      contexts A' = (contexts A)(b \<mapsto> x\<lparr>cx_state := st\<rparr>) \<and> scol A' = scol A"
    using s1(2) l' moved_trans [OF reread_moved [OF s1(3)] dcs_moved] by auto
qed

lemma init_context:
  assumes "at_registry R s" "at_dcs A s" "contexts A b = Some x" "b \<noteq> 0" "R (digest (pointer_key b)) = None"
    and "cx_state x = 0" "plain_class env (cx_class x)" "obeys env"
  shows "\<exists>ok s' A'. init_object env obh n b s = Some (ok, s') \<and> at_registry R s' \<and> at_dcs A' s' \<and> moved s s' \<and>
    contexts A' = (if ok then (contexts A)(b \<mapsto> x\<lparr>cx_state := ST_INITIALIZED\<rparr>) else contexts A) \<and> scol A' = scol A"
proof -
  obtain s1 where s1: "get_context_state b s = Some (0, s1)" "at_registry R s1" "at_dcs A s1" "reread s s1"
    using context_state(1) [OF assms(1-5)] assms(6) by auto
  have none: "link_at env t b = None" "oi_flags (info_at env t b) AND RF_TASK = 0" if "class_of (gl_dcs (world t)) b = cx_class x" for t
    using assms(7) that by (simp_all add: link_at_def info_at_def plain_class_def)
  have c1: "class_of (gl_dcs (world s1)) b = cx_class x" using class_of_context [OF s1(3) assms(3)] .
  obtain ok y where c: "v_ctl env OCTL_INIT b s1 = Some (ok, upd (objs_update (\<lambda>_. y)) s1)" using assms(8) unfolding obeys_def by meson
  let ?s2 = "upd (objs_update (\<lambda>_. y)) s1"
  have s2: "at_registry R ?s2" "at_dcs A ?s2" "moved s ?s2" using s1 moved_trans [OF reread_moved [OF s1(4)] objs_moved] by simp_all
  have lm: "lm_clean (link_at env s1) b s1 = s1" "lm_init (link_at env s1) b (link_request obh) s1 = Some (PLMR_READY, s1)"
    using none(1) [OF c1] by (simp_all add: lm_clean_def lm_init_def)
  have bits: "PLMR_READY AND PLMR_READY \<noteq> 0" "PLMR_READY AND PLMR_KEEP_PENDING = 0" by (simp_all add: PLMR_READY_def PLMR_KEEP_PENDING_def)
  show ?thesis
  proof (cases ok)
    case False
    then show ?thesis using s1(1) lm c bits s2 by (auto simp: init_object_def)
  next
    case True
    obtain s3 A3 where s3: "set_context_state b ST_INITIALIZED ?s2 = Some s3" "at_registry R s3" "at_dcs A3 s3" "moved ?s2 s3"
        "contexts A3 = (contexts A)(b \<mapsto> x\<lparr>cx_state := ST_INITIALIZED\<rparr>)" "scol A3 = scol A"
      using context_state(2) [OF s2(1,2) assms(3-5), of ST_INITIALIZED] by blast
    have c3: "class_of (gl_dcs (world s3)) b = cx_class x" using class_of_context [OF s3(3), of b] s3(5) by simp
    have "update_users env n b s3 = Some s3" "start_task env obh b s3 = Some s3"
      using none [OF c3] by (simp_all add: update_users_def start_task_def)
    then have "init_object env obh n b s = Some (True, s3)"
      using s1(1) lm c bits s3(1) True by (simp add: init_object_def Let_def)
    then show ?thesis using s3 moved_trans [OF s2(3) s3(4)] by auto
  qed
qed

lemma uninit_context:
  assumes "at_registry R s" "at_dcs A s" "contexts A b = Some x" "b \<noteq> 0" "R (digest (pointer_key b)) = None"
    and "plain_class env (cx_class x)" "obeys env" "b \<notin> set (ms_pending (world s))"
  shows "\<exists>s' A' y. uninit_object env obh rel n b s = Some (True, s') \<and> at_registry R s' \<and> at_dcs A' s' \<and> moved s s' \<and>
    contexts A' = (contexts A)(b \<mapsto> y) \<and> scol A' = scol A \<and> cx_class y = cx_class x"
proof -
  obtain s1 where s1: "get_context_state b s = Some (cx_state x, s1)" "at_registry R s1" "at_dcs A s1" "reread s s1"
    using context_state(1) [OF assms(1-5)] by auto
  show ?thesis
  proof (cases "cx_state x AND ST_INITIALIZED = 0")
    case True
    have "(contexts A)(b \<mapsto> x) = contexts A" using assms(3) by auto
    then show ?thesis using s1 True reread_moved [OF s1(4)]
      by (intro exI [of _ s1] exI [of _ A] exI [of _ x]) (simp add: uninit_object_def)
  next
    case False
    have none: "link_at env t b = None" "oi_flags (info_at env t b) AND RF_TASK = 0" if "class_of (gl_dcs (world t)) b = cx_class x" for t
      using assms(6) that by (simp_all add: link_at_def info_at_def plain_class_def)
    have c1: "class_of (gl_dcs (world s1)) b = cx_class x" using class_of_context [OF s1(3) assms(3)] .
    obtain y where c: "v_ctl env OCTL_UNINIT b s1 = Some (True, upd (objs_update (\<lambda>_. y)) s1)" using assms(7) unfolding obeys_def by metis
    let ?s2 = "upd (objs_update (\<lambda>_. y)) s1"
    have s2: "at_registry R ?s2" "at_dcs A ?s2" "moved s ?s2" using s1 moved_trans [OF reread_moved [OF s1(4)] objs_moved] by simp_all
    have "set_erase b (ms_pending (world ?s2)) = ms_pending (world ?s2)"
      using assms(8) s1(4) by (simp add: set_erase_def remove1_idem upd_def reread_fields)
    then have p: "upd (ms_pending_update (set_erase b)) ?s2 = ?s2" by (simp add: upd_def)
    have c2: "class_of (gl_dcs (world ?s2)) b = cx_class x" using class_of_context [OF s2(2) assms(3)] .
    obtain s3 where s3: "get_context_state b ?s2 = Some (cx_state x, s3)" "at_registry R s3" "at_dcs A s3" "reread ?s2 s3"
      using context_state(1) [OF s2(1,2) assms(3-5)] by auto
    let ?st = "cx_state x AND NOT (ST_PENDING OR ST_INITIALIZED)"
    obtain s4 A4 where s4: "set_context_state b ?st s3 = Some s4" "at_registry R s4" "at_dcs A4 s4" "moved s3 s4"
        "contexts A4 = (contexts A)(b \<mapsto> x\<lparr>cx_state := ?st\<rparr>)" "scol A4 = scol A"
      using context_state(2) [OF s3(2,3) assms(3-5), of ?st] by blast
    have "uninit_object env obh rel n b s = Some (True, s4)"
      using s1(1) False none [OF c1] none [OF c2] c p s3(1) s4(1) by (simp add: uninit_object_def lm_pre_uninit_def lm_uninit_def Let_def)
    then show ?thesis using s4 moved_trans [OF s2(3) moved_trans [OF reread_moved [OF s3(4)] s4(4)]]
      by (intro exI [of _ s4] exI [of _ A4] exI [of _ "x\<lparr>cx_state := ?st\<rparr>"]) simp
  qed
qed

section \<open>Clones\<close>

lemma remove_context_at:
  assumes "at_registry R s" "at_dcs A s" "contexts A b = Some x"
  shows "\<exists>s' A'. remove_context b s = Some s' \<and> at_registry R s' \<and> at_dcs A' s' \<and> moved s s' \<and> contexts A' = (contexts A)(b := None)"
proof -
  obtain l' A' where "dcs_remove_context b 0 (gl_dcs (world s)) = Some (True, l')" "dcs_rel l' A'" "contexts A' = (contexts A)(b := None)"
    using dcs_remove_rel [OF assms(2) [unfolded at_dcs_def] assms(3)] by blast
  then show ?thesis using assms(1) dcs_moved by (auto simp: remove_context_def)
qed

text \<open>The state after entry \<open>p\<close> was changed to \<open>e\<close>, up to what \<open>moved\<close> allows.\<close>

definition counted :: "addr \<Rightarrow> base_entry \<Rightarrow> 'x rstate \<Rightarrow> 'x rstate \<Rightarrow> bool" where
  "counted p e s s' \<longleftrightarrow> base_entries (world s') = (base_entries (world s))(p \<mapsto> e) \<and> slot_of s' = slot_of s \<and>
     ms_pending (world s') = ms_pending (world s)"

lemma moved_counted: "moved s s' \<Longrightarrow> base_entries (world s) p = Some e \<Longrightarrow> counted p e s s'"
  by (auto simp: moved_def upd_def counted_def)

lemma touched_counted: "touched ((base_entries (world s))(p \<mapsto> e)) s s' \<Longrightarrow> counted p e s s'"
  by (auto simp: touched_def upd_def counted_def)

lemma counted_trans: "counted p e s s' \<Longrightarrow> counted p e' s' s'' \<Longrightarrow> counted p e' s s''"
  by (simp add: counted_def)

lemma at_dcs_touched: "at_dcs A s \<Longrightarrow> touched E s s' \<Longrightarrow> at_dcs A s'"
  by (simp add: at_dcs_def touched_fields)

lemma release_context:
  assumes "at_registry R s" "at_dcs A s" "contexts A b = Some x" "b \<noteq> 0" "R (digest (pointer_key b)) = None"
    and "plain_class env (cx_class x)" "obeys env" "b \<notin> set (ms_pending (world s))"
    and "base_entries (world s) p = Some e" "pi_base e \<noteq> b" "R (digest (cname_key (oi_cname (v_info env (cx_class x))))) = Some p"
  shows "\<exists>s' A'. object_release env (Suc n) b s = Some s' \<and> at_registry R s' \<and> at_dcs A' s' \<and> counted p (ref_down e) s s' \<and>
    contexts A' = (contexts A)(b := None)"
proof -
  obtain s1 where s1: "find_by (find_object_by_pointer b) s = Some (None, s1)" "at_registry R s1" "reread s s1"
    using find_by_at(3) [OF assms(1), of b] assms(5) by auto
  have "oi_cname (info_at env s1 b) = oi_cname (v_info env (cx_class x))"
    using class_of_context [OF assms(2,3)] s1(3) by (simp add: info_at_def reread_fields)
  then obtain s2 where s2: "find_object_entry env b s = Some (Some p, s2)" "at_registry R s2" "reread s1 s2"
    using find_by_at(1) [OF s1(2), of "oi_cname (v_info env (cx_class x))"] s1(1) assms(11) by (auto simp: find_object_entry_def)
  have r2: "reread s s2" using reread_trans [OF s1(3) s2(3)] .
  have d2: "at_dcs A s2" "b \<notin> set (ms_pending (world s2))" using at_dcs_reread [OF assms(2) r2] assms(8) r2 by (simp_all add: reread_fields)
  obtain s3 A3 y where s3: "uninit_object env (object_by_handle env n) (object_release env n) n b s2 = Some (True, s3)"
      "at_registry R s3" "at_dcs A3 s3" "moved s2 s3" "contexts A3 = (contexts A)(b \<mapsto> y)"
    using uninit_context [OF s2(2) d2(1) assms(3-7) d2(2)] by blast
  obtain z where z: "v_destructor env b s3 = Some (upd (objs_update (\<lambda>_. z)) s3)" using assms(7) unfolding obeys_def by blast
  let ?s4 = "upd (objs_update (\<lambda>_. z)) s3"
  have s4: "at_registry R ?s4" "at_dcs A3 ?s4" "contexts A3 b = Some y" using s3 by simp_all
  obtain s5 A5 where s5: "remove_context b ?s4 = Some s5" "at_registry R s5" "at_dcs A5 s5" "moved ?s4 s5" "contexts A5 = (contexts A3)(b := None)"
    using remove_context_at [OF s4] by blast
  have m: "moved s s5" using moved_trans [OF reread_moved [OF r2] moved_trans [OF s3(4) moved_trans [OF objs_moved s5(4)]]] .
  have e: "base_entries (world s5) p = Some e" "base_entries (world s2) p = Some e"
    using assms(9) moved_entries [OF m] r2 by (simp_all add: reread_fields)
  have c: "contexts A5 = (contexts A)(b := None)" using s3(5) s5(5) by simp
  show ?thesis
  proof (cases "ref_cnt e = 0")
    case True
    then have "counted p (ref_down e) s s5" using moved_counted [OF m assms(9)] by (simp add: ref_updates)
    then show ?thesis using s2(1) s3(1) z s5 e c True assms(4,10) by auto
  next
    case False
    obtain s6 where s6: "put_entry p (ref_cnt_update (\<lambda>c. c - 1)) s5 = Some s6" "at_registry R s6"
        "touched ((base_entries (world s5))(p \<mapsto> ref_down e)) s5 s6"
      using put_entry_at [OF e(1) s5(2), of "ref_cnt_update (\<lambda>c. c - 1)"] False by (auto simp: ref_updates)
    have "counted p (ref_down e) s s6" using counted_trans [OF moved_counted [OF m assms(9)] touched_counted [OF s6(3)]] .
    then show ?thesis using s2(1) s3(1) z s5 s6(1,2) at_dcs_touched [OF s5(3) s6(3)] e c False assms(4,10) by auto
  qed
qed

text \<open>A request for a clone: no memory, a refusal of the object, or a new initialised context.\<close>

lemma handle_clone:
  assumes "at_registry R s" "at_dcs A s" "base_entries (world s) p = Some e"
    and "(oi_flags (v_info env (pi_base e)) AND flags) AND RF_CLONE \<noteq> 0" "plain_class env (pi_base e)" "obeys env"
    and "length (scol A) + 1 < 2 ^ 32" "zone_fits (oi_size (v_info env (pi_base e)) + 1 + sizeof_ll_item_hdr)"
    and "\<forall>b \<in> set (ms_pending (world s)). contexts A b \<noteq> None \<or> R (digest (pointer_key b)) \<noteq> None"
  obtains b l where "dcs_create_context (v_info env) e flags 0 (copied env (pi_base e)) (gl_dcs (world s)) = Some (b, l)"
    "R (digest (pointer_key b)) = None \<Longrightarrow>
     \<exists>r s1 A1. object_by_handle env (Suc n) p flags s = Some (r, s1) \<and> at_registry R s1 \<and> at_dcs A1 s1 \<and>
       (if r = 0 then counted p e s s1 \<and> contexts A1 = contexts A
        else r = b \<and> counted p (ref_up e) s s1 \<and> contexts A r = None \<and> r \<notin> set (ms_pending (world s)) \<and>
          contexts A1 = (contexts A)(r \<mapsto> \<lparr>cx_class = pi_base e, cx_state = ST_INITIALIZED\<rparr>))"
proof -
  obtain b l A1 where l: "dcs_create_context (v_info env) e flags 0 (copied env (pi_base e)) (gl_dcs (world s)) = Some (b, l)"
      "dcs_rel l A1" "if b = 0 then A1 = A else contexts A b = None \<and>
         contexts A1 = (contexts A)(b \<mapsto> \<lparr>cx_class = pi_base e, cx_state = 0\<rparr>) \<and> scol A1 = scol A @ [b - sizeof_hdr] \<and> sizeof_hdr \<le> b"
    using dcs_create_rel [where info = "v_info env" and e = e and ?st0.0 = "copied env (pi_base e)", OF assms(2) [unfolded at_dcs_def] assms(4,7,8)] by metis
  let ?s1 = "upd (gl_dcs_update (\<lambda>_. l)) s"
  have cr: "create_context env e flags s = Some (b, ?s1)" using l(1) by (simp add: create_context_def)
  have s1: "at_registry R ?s1" "at_dcs A1 ?s1" "moved s ?s1" using assms(1) l(2) dcs_moved by simp_all
  have "\<exists>r s1 A1. object_by_handle env (Suc n) p flags s = Some (r, s1) \<and> at_registry R s1 \<and> at_dcs A1 s1 \<and>
       (if r = 0 then counted p e s s1 \<and> contexts A1 = contexts A
        else r = b \<and> counted p (ref_up e) s s1 \<and> contexts A r = None \<and> r \<notin> set (ms_pending (world s)) \<and>
          contexts A1 = (contexts A)(r \<mapsto> \<lparr>cx_class = pi_base e, cx_state = ST_INITIALIZED\<rparr>))"
    if free: "R (digest (pointer_key b)) = None"
  proof (cases "b = 0")
    case True
    then have "object_by_handle env (Suc n) p flags s = Some (0, ?s1)" using cr assms(3,4) by (simp add: Let_def)
    then show ?thesis using s1 l(3) True moved_counted [OF s1(3) assms(3)] by auto
  next
    case False
    then have b: "contexts A b = None" "contexts A1 = (contexts A)(b \<mapsto> \<lparr>cx_class = pi_base e, cx_state = 0\<rparr>)" using l(3) by simp_all
    have np: "b \<notin> set (ms_pending (world s))" using assms(9) b(1) free by auto
    have x: "contexts A1 b = Some \<lparr>cx_class = pi_base e, cx_state = 0\<rparr>" using b(2) by simp
    obtain ok s2 A2 where s2: "init_object env (object_by_handle env n) n b ?s1 = Some (ok, s2)" "at_registry R s2" "at_dcs A2 s2" "moved ?s1 s2"
        "contexts A2 = (if ok then (contexts A1)(b \<mapsto> \<lparr>cx_class = pi_base e, cx_state = ST_INITIALIZED\<rparr>) else contexts A1)"
      using init_context [OF s1(1,2) x False free _ _ assms(6)] assms(5) by fastforce
    have m2: "moved s s2" using moved_trans [OF s1(3) s2(4)] .
    have e2: "base_entries (world s2) p = Some e" using moved_entries [OF m2] assms(3) by simp
    show ?thesis
    proof (cases ok)
      case True
      then have c2: "contexts A2 = (contexts A)(b \<mapsto> \<lparr>cx_class = pi_base e, cx_state = ST_INITIALIZED\<rparr>)" using s2(5) b(2) by simp
      obtain s3 where s3: "inc_ref p s2 = Some s3" "at_registry R s3" "touched ((base_entries (world s2))(p \<mapsto> ref_up e)) s2 s3"
        using put_entry_at [OF e2 s2(2), of "ref_cnt_update (\<lambda>c. c + 1)"] by (auto simp: inc_ref_def ref_updates)
      have d3: "at_dcs A2 s3" using at_dcs_touched [OF s2(3) s3(3)] .
      have "dcs_get_context_state b (gl_dcs (world s3)) = Some ST_INITIALIZED"
        using dcs_state_rel(2) [OF d3 [unfolded at_dcs_def], of b] c2 by simp
      then have "object_by_handle env (Suc n) p flags s = Some (b, s3)"
        using cr assms(3,4) False s2(1) True s3(1) by (simp add: Let_def ST_INITIALIZED_def ST_PENDING_def)
      then show ?thesis
        using s3(2) d3 c2 b(1) np False counted_trans [OF moved_counted [OF m2 assms(3)] touched_counted [OF s3(3)]] by auto
    next
      case no: False
      have d2: "contexts A2 b = Some \<lparr>cx_class = pi_base e, cx_state = 0\<rparr>" "b \<notin> set (ms_pending (world s2))"
        using s2(5) no x np m2 by (auto simp: moved_def upd_def)
      have st: "at_registry R s2 \<Longrightarrow> \<exists>s3. get_context_state b s2 = Some (0, s3) \<and> at_registry R s3 \<and> at_dcs A2 s3 \<and> reread s2 s3"
        using context_state(1) [OF s2(2,3) d2(1) False free] by simp
      then obtain s3 where s3: "get_context_state b s2 = Some (0, s3)" "at_registry R s3" "at_dcs A2 s3" "reread s2 s3" using s2(2) by blast
      have un: "uninit_object env (object_by_handle env n) (object_release env n) n b s2 = Some (True, s3)"
        using s3(1) by (simp add: uninit_object_def)
      obtain s4 A4 where s4: "remove_context b s3 = Some s4" "at_registry R s4" "at_dcs A4 s4" "moved s3 s4" "contexts A4 = (contexts A2)(b := None)"
        using remove_context_at [OF s3(2,3) d2(1)] by blast
      have m4: "moved s s4" using moved_trans [OF m2 moved_trans [OF reread_moved [OF s3(4)] s4(4)]] .
      have "object_by_handle env (Suc n) p flags s = Some (0, s4)"
        using cr assms(3,4) False s2(1) no un s4(1) by (simp add: Let_def)
      moreover have "contexts A4 = contexts A" using s4(5) s2(5) no b by (simp add: fun_upd_idem)
      ultimately show ?thesis using s4(2,3) moved_counted [OF m4 assms(3)] by auto
    qed
  qed
  then show ?thesis by (rule that [OF l(1)])
qed

end
