(* ===== verification/RepoProps.thy ===== *)
theory RepoProps
  imports RepoSpec
begin

text \<open>
  What the repository promises and what it does not: requests and releases of originals balance, a clone
  ends with its release, links in a circle recurse forever, and an initialisation that fails keeps the
  references it already took.
\<close>

declare set_concat [simp del] mset_concat [simp del] concat_eq_Nil_conv [simp del]

section \<open>A repository at work\<close>

text \<open>A registry that holds one entry under some digests.\<close>

definition table :: "u8 list list \<Rightarrow> addr \<Rightarrow> addr hash_map" where
  "table ds p = hash_map_1\<lparr>hm_context := (hm_context hash_map_1)\<lparr>capacity := 1,
     pp_list := Some (0x10, [map (\<lambda>i. \<lparr>mr_addr = i, sz_rec = 9, mr_key = remdups ds ! i, mr_data = p\<rparr>) [0..<length (remdups ds)]])\<rparr>\<rparr>"

definition under :: "u8 list list \<Rightarrow> addr \<Rightarrow> (u8 list \<rightharpoonup> addr)" where
  "under ds p = (\<lambda>d. if d \<in> set ds then Some p else None)"

lemma table_registers: "registers (table ds p) (under ds p)"
proof -
  let ?rows = "map (\<lambda>i. \<lparr>mr_addr = i, sz_rec = 9, mr_key = remdups ds ! i, mr_data = p\<rparr>) [0..<length (remdups ds)]"
  have keys: "map mr_key ?rows = remdups ds" by (simp add: comp_def map_nth)
  have in_keys: "d \<in> set ds \<longleftrightarrow> (\<exists>r \<in> set ?rows. mr_key r = d)" for d
  proof -
    have "set ds = mr_key ` set ?rows" using arg_cong [OF keys, of set] unfolding set_map [of mr_key] set_remdups by (rule sym)
    then have "d \<in> set ds \<longleftrightarrow> d \<in> mr_key ` set ?rows" by (rule arg_cong)
    then show ?thesis unfolding image_iff by blast
  qed
  have addrs: "map mr_addr ?rows = [0..<length (remdups ds)]" by (simp add: comp_def)
  have "bucket d 1 = 0" for d using bucket_less [of 1 d] by simp
  then have b: "buckets_ok [?rows] 1" using keys by (simp add: buckets_ok_def)
  have r: "reads (table ds p) (mget [?rows])"
    using reg_rel_1(1) b addrs by (auto simp: reads_def table_def reg_rel_def hash_map_rel_def hash_map_ready_def)
  have "map_option mr_data (mget [?rows] d) = under ds p d" for d
  proof (cases "mget [?rows] d")
    case None
    then have "\<forall>r \<in> set ?rows. mr_key r \<noteq> d" unfolding mget_None_iff by simp
    then have "d \<notin> set ds" unfolding in_keys by blast
    then show ?thesis using None by (simp add: under_def)
  next
    case (Some x)
    then have x: "x \<in> set ?rows" "mr_key x = d" using mget_Some_iff [of "[?rows]" d x] b by (simp_all add: buckets_ok_def)
    then have "d \<in> set ds" unfolding in_keys by blast
    then show ?thesis using x Some by (auto simp: under_def)
  qed
  then show ?thesis using r unfolding registers_def by (intro exI [of _ "mget [?rows]"]) auto
qed

definition dcs_1 :: dcs where
  "dcs_1 = snd (the (linked_list_new 0x3000 list_user_1))"

lemma dcs_1_rel: "dcs_rel dcs_1 (ll_empty 2)" "contexts (ll_empty 2) = Map.empty"
  using linked_list_new_1 [where ?'a = cx_object] by (auto simp: dcs_1_def dcs_rel_def contexts_def scol_def ll_empty_def)

text \<open>One entry at \<open>0x100\<close> for the object at \<open>0x5000\<close>, found under its name and its address.\<close>

definition keys_1 :: "u8 list list" where
  "keys_1 = [digest (cname_key [0x63]), digest (pointer_key 0x5000)]"

definition empty_map :: "'a hash_map" where
  "empty_map = \<lparr>hm_context = hash_map_context zalloc_1, hm_mutex = mutex_new 0x2000\<rparr>"

definition dl_1 :: dl where
  "dl_1 = \<lparr>dlopen = (\<lambda>f. None), sym_init = (\<lambda>h. False), sym_array = (\<lambda>h. None), dlclose = (\<lambda>h. True)\<rparr>"

definition repo_1 :: "u8 \<Rightarrow> dcs \<Rightarrow> u8 list list \<Rightarrow> unit rstate" where
  "repo_1 st l ds = \<lparr>slot_of = (\<lambda>a. 0), world = \<lparr>base_map = table ds 0x100,
     base_entries = [0x100 \<mapsto> \<lparr>pi_base = 0x5000, ref_cnt = 0, be_state = st\<rparr>], gl_dcs = l, users_map = empty_map, ext_map = empty_map,
     m_ext_dir = None, ms_pending = [], ms_it_pending = None, mpi_tasks = 0, repo_zalloc = zalloc_1, objs = ()\<rparr>\<rparr>"

definition env_1 :: "u8 \<Rightarrow> unit repo link_info list option \<Rightarrow> unit env" where
  "env_1 flags ls = \<lparr>v_info = (\<lambda>b. (info_1 b)\<lparr>oi_flags := flags\<rparr>), v_link = (\<lambda>c b. ls), v_ctl = (\<lambda>cmd b s. Some (True, s)),
     v_start = (\<lambda>t b s. Some s), v_stop = (\<lambda>t b s. Some s), v_destructor = (\<lambda>b s. Some s), core_array = (None, 0, 0),
     loader = dl_1, lib_init = (\<lambda>h s. Some (ERR_NONE, s)), place = (#), copied = (\<lambda>b. 0)\<rparr>"

lemma repo_1_at:
  "at_registry (under ds 0x100) (repo_1 st l ds)"
  "base_entries (world (repo_1 st l ds)) = [0x100 \<mapsto> \<lparr>pi_base = 0x5000, ref_cnt = 0, be_state = st\<rparr>]"
  "at_dcs (ll_empty 2) (repo_1 st dcs_1 ds)" "ms_pending (world (repo_1 st l ds)) = []"
  using table_registers dcs_1_rel by (simp_all add: at_registry_def at_dcs_def repo_1_def)

lemma original_1: "original (under keys_1 0x100) (repo_1 st l ds) 0x100 \<lparr>pi_base = 0x5000, ref_cnt = 0, be_state = st\<rparr>"
  by (simp add: original_def repo_1_at under_def keys_1_def)

lemma obeys_1: "obeys (env_1 flags ls)"
proof -
  have "upd (objs_update (\<lambda>_. ())) s = s" for s :: "unit rstate" by (cases s; cases "world s") (simp add: upd_def)
  then show ?thesis unfolding obeys_def env_1_def by auto
qed

section \<open>Properties\<close>

text \<open>C4: A request for an original that is initialised hands out its object and counts one reference; the
  release of that object counts it back and leaves every entry, context, user and link as it was. Both return.\<close>

theorem request_release_balanced:
  assumes "at_registry R s" "original R s p e" "offers env e flags" "be_state e AND ST_INITIALIZED \<noteq> 0"
    and "R (digest (cname_key c)) = Some p" "ref_cnt e + 1 \<noteq> 0"
  shows "\<exists>s1 s2. object_by_cname (object_by_handle env (Suc n)) c flags s = Some (pi_base e, s1) \<and>
    base_entries (world s1) = (base_entries (world s))(p \<mapsto> e\<lparr>ref_cnt := ref_cnt e + 1\<rparr>) \<and>
    object_release env (Suc n) (pi_base e) s1 = Some s2 \<and> at_registry R s2 \<and> reread s s2"
proof -
  obtain s0 where s0: "object_by_cname (object_by_handle env (Suc n)) c flags s = object_by_handle env (Suc n) p flags s0"
      "at_registry R s0" "reread s s0"
    using request_cname [OF assms(1,5)] by blast
  obtain s1 where s1: "object_by_handle env (Suc n) p flags s0 = Some (pi_base e, s1)" "at_registry R s1"
      "touched ((base_entries (world s0))(p \<mapsto> ref_up e)) s0 s1"
    using handle_initialised [OF s0(2) original_reread [OF assms(2) s0(3)] assms(3,4)] by blast
  have t: "touched ((base_entries (world s))(p \<mapsto> ref_up e)) s s1" using reread_touch [OF s0(3) s1(3)] s0(3) by (simp add: reread_fields)
  have o: "original R s1 p (ref_up e)" using assms(2) t by (simp add: original_def touched_fields)
  obtain s2 where s2: "object_release env (Suc n) (pi_base e) s1 = Some s2" "at_registry R s2"
      "touched ((base_entries (world s1))(p \<mapsto> ref_down (ref_up e))) s1 s2"
    using release_original [OF s1(2) o, of env n] by auto
  have "(base_entries (world s1))(p \<mapsto> ref_down (ref_up e)) = base_entries (world s)"
    using t assms(2,6) by (auto simp: touched_fields ref_updates original_def)
  then have "reread s s2" using touched_same touched_trans [OF t s2(3)] by simp
  then show ?thesis using s0(1) s1(1) t s2 by (auto simp: touched_fields ref_up_def)
qed

theorem request_release_balanced_witness:
  "let s = repo_1 1 dcs_1 keys_1; e = \<lparr>pi_base = 0x5000, ref_cnt = 0, be_state = 1\<rparr>; env = env_1 2 None
   in \<exists>s1 s2. object_by_cname (object_by_handle env (Suc 0)) [0x63] RF_ORIGINAL s = Some (0x5000, s1) \<and>
     base_entries (world s1) = [0x100 \<mapsto> e\<lparr>ref_cnt := 1\<rparr>] \<and>
     object_release env (Suc 0) 0x5000 s1 = Some s2 \<and> at_registry (under keys_1 0x100) s2 \<and> reread s s2"
  using request_release_balanced [where c = "[0x63]" and n = 0 and env = "env_1 2 None" and flags = RF_ORIGINAL, OF repo_1_at(1) original_1, of 1 dcs_1]
  by (simp add: repo_1_at under_def keys_1_def env_1_def offers_def info_1_def RF_ORIGINAL_def RF_CLONE_def ST_INITIALIZED_def)

text \<open>C3: A clone lives from its request to its release. A request for a clone of a class without links and tasks
  either hands out nothing and changes no entry and no context, or it hands out a new context, initialised, and
  counts one reference; the release of that context removes it and counts the reference back. The address of the
  context is assumed to share its SHA-1 with no registered key.\<close>

theorem clone_life_cycle:
  assumes "at_registry R s" "at_dcs A s" "original R s p e" "R (digest (cname_key (oi_cname (v_info env (pi_base e))))) = Some p"
    and "(oi_flags (v_info env (pi_base e)) AND flags) AND RF_CLONE \<noteq> 0" "plain_class env (pi_base e)" "obeys env"
    and "length (scol A) + 1 < 2 ^ 32" "zone_fits (oi_size (v_info env (pi_base e)) + 1 + sizeof_ll_item_hdr)"
    and "ms_pending (world s) = []" "ref_cnt e + 1 \<noteq> 0"
  shows "\<exists>b l. dcs_create_context (v_info env) e flags 0 (copied env (pi_base e)) (gl_dcs (world s)) = Some (b, l) \<and>
    (case R (digest (pointer_key b)) of Some q \<Rightarrow> True
     | None \<Rightarrow> \<exists>r s1 A1. object_by_handle env (Suc n) p flags s = Some (r, s1) \<and> at_dcs A1 s1 \<and>
         (if r = 0 then base_entries (world s1) = base_entries (world s) \<and> contexts A1 = contexts A
          else contexts A r = None \<and> contexts A1 = (contexts A)(r \<mapsto> \<lparr>cx_class = pi_base e, cx_state = ST_INITIALIZED\<rparr>) \<and>
            base_entries (world s1) = (base_entries (world s))(p \<mapsto> e\<lparr>ref_cnt := ref_cnt e + 1\<rparr>) \<and>
            (\<exists>s2 A2. object_release env (Suc n) r s1 = Some s2 \<and> at_dcs A2 s2 \<and> contexts A2 = contexts A \<and>
               base_entries (world s2) = base_entries (world s))))"
proof -
  have p: "base_entries (world s) p = Some e" using assms(3) by (simp add: original_def)
  have same: "(base_entries (world s))(p \<mapsto> e) = base_entries (world s)" using p by auto
  obtain b l where c: "dcs_create_context (v_info env) e flags 0 (copied env (pi_base e)) (gl_dcs (world s)) = Some (b, l)"
      "R (digest (pointer_key b)) = None \<Longrightarrow>
       \<exists>r s1 A1. object_by_handle env (Suc n) p flags s = Some (r, s1) \<and> at_registry R s1 \<and> at_dcs A1 s1 \<and>
         (if r = 0 then counted p e s s1 \<and> contexts A1 = contexts A
          else r = b \<and> counted p (ref_up e) s s1 \<and> contexts A r = None \<and> r \<notin> set (ms_pending (world s)) \<and>
            contexts A1 = (contexts A)(r \<mapsto> \<lparr>cx_class = pi_base e, cx_state = ST_INITIALIZED\<rparr>))"
    by (rule handle_clone [OF assms(1,2) p assms(5-9), where n = n]) (simp_all add: assms(10))
  show ?thesis
  proof (cases "R (digest (pointer_key b))")
    case (Some q)
    then show ?thesis using c(1) by (intro exI [of _ b] exI [of _ l]) simp
  next
    case None
    obtain r s1 A1 where h: "object_by_handle env (Suc n) p flags s = Some (r, s1)" "at_registry R s1" "at_dcs A1 s1"
        "if r = 0 then counted p e s s1 \<and> contexts A1 = contexts A
          else r = b \<and> counted p (ref_up e) s s1 \<and> contexts A r = None \<and> r \<notin> set (ms_pending (world s)) \<and>
            contexts A1 = (contexts A)(r \<mapsto> \<lparr>cx_class = pi_base e, cx_state = ST_INITIALIZED\<rparr>)"
      using c(2) [OF None] by blast
    show ?thesis
    proof (cases "r = 0")
      case True
      then show ?thesis using c(1) None h same by (auto simp: counted_def)
    next
      case False
      let ?x = "\<lparr>cx_class = pi_base e, cx_state = ST_INITIALIZED\<rparr>"
      have r: "r = b" "counted p (ref_up e) s s1" "contexts A r = None" "contexts A1 = (contexts A)(r \<mapsto> ?x)" using h(4) False by auto
      have x: "contexts A1 r = Some ?x" "R (digest (pointer_key r)) = None" using r None by simp_all
      have e1: "base_entries (world s1) p = Some (ref_up e)" "r \<notin> set (ms_pending (world s1))" using r(2) assms(10) by (simp_all add: counted_def)
      have nb: "pi_base (ref_up e) \<noteq> r" using assms(3) x(2) by (auto simp: original_def)
      obtain s2 A2 where s2: "object_release env (Suc n) r s1 = Some s2" "at_dcs A2 s2" "counted p (ref_down (ref_up e)) s1 s2"
          "contexts A2 = (contexts A1)(r := None)"
        using release_context [OF h(2,3) x(1) False x(2) _ assms(7) e1(2,1) nb, of n] assms(4,6) by auto
      have "contexts A2 = contexts A" using s2(4) r(3,4) by (simp add: fun_upd_idem)
      moreover have "base_entries (world s2) = base_entries (world s)"
        using counted_trans [OF r(2) s2(3)] assms(11) same by (simp add: counted_def ref_updates)
      ultimately show ?thesis using c(1) None h(1,3) False r s2(1,2)
        by (intro exI [of _ b] exI [of _ l]) (auto simp: counted_def ref_up_def)
    qed
  qed
qed

theorem clone_life_cycle_witness:
  "let s = repo_1 0 dcs_1 keys_1; A = ll_empty 2; e = \<lparr>pi_base = 0x5000, ref_cnt = 0, be_state = 0\<rparr>; env = env_1 1 None; R = under keys_1 0x100
   in \<exists>b l. dcs_create_context (v_info env) e RF_CLONE 0 0 dcs_1 = Some (b, l) \<and>
    (case R (digest (pointer_key b)) of Some q \<Rightarrow> True
     | None \<Rightarrow> \<exists>r s1 A1. object_by_handle env (Suc 0) 0x100 RF_CLONE s = Some (r, s1) \<and> at_dcs A1 s1 \<and>
         (if r = 0 then base_entries (world s1) = base_entries (world s) \<and> contexts A1 = contexts A
          else contexts A r = None \<and> contexts A1 = (contexts A)(r \<mapsto> \<lparr>cx_class = 0x5000, cx_state = ST_INITIALIZED\<rparr>) \<and>
            base_entries (world s1) = (base_entries (world s))(0x100 \<mapsto> e\<lparr>ref_cnt := 1\<rparr>) \<and>
            (\<exists>s2 A2. object_release env (Suc 0) r s1 = Some s2 \<and> at_dcs A2 s2 \<and> contexts A2 = contexts A \<and>
               base_entries (world s2) = base_entries (world s))))"
proof -
  let ?e = "\<lparr>pi_base = 0x5000, ref_cnt = 0, be_state = 0\<rparr>"
  have i: "v_info (env_1 1 None) b = (info_1 b)\<lparr>oi_flags := 1\<rparr>" "copied (env_1 1 None) b = 0" "v_link (env_1 1 None) c b = None" for b c
    by (simp_all add: env_1_def)
  have c: "under keys_1 0x100 (digest (cname_key (oi_cname (v_info (env_1 1 None) (pi_base ?e))))) = Some 0x100"
    by (simp add: i info_1_def under_def keys_1_def)
  have f: "(oi_flags (v_info (env_1 1 None) (pi_base ?e)) AND RF_CLONE) AND RF_CLONE \<noteq> 0" "plain_class (env_1 1 None) (pi_base ?e)"
    by (simp_all add: i RF_CLONE_def RF_TASK_def plain_class_def)
  have z: "length (scol (ll_empty 2 :: cx_object ll_abs)) + 1 < 2 ^ 32" "zone_fits (oi_size (v_info (env_1 1 None) (pi_base ?e)) + 1 + sizeof_ll_item_hdr)"
    by (simp_all add: i info_1_def scol_def ll_empty_def zone_fits_def sizeof_ll_item_hdr_def)
  have d: "gl_dcs (world (repo_1 0 dcs_1 keys_1)) = dcs_1" by (simp add: repo_1_def)
  have e: "ref_cnt ?e + 1 \<noteq> 0" "pi_base ?e = 0x5000" "?e\<lparr>ref_cnt := ref_cnt ?e + 1\<rparr> = ?e\<lparr>ref_cnt := 1\<rparr>" by simp_all
  show ?thesis
    using clone_life_cycle [OF repo_1_at(1,3) original_1 c f obeys_1 z repo_1_at(4) e(1), where n = 0] unfolding Let_def d i(2) e(2,3) .
qed

text \<open>Classes that need each other: each has a first link that must be there at once and names a class of the set.\<close>

definition circular :: "(u8 list \<rightharpoonup> addr) \<Rightarrow> 'x env \<Rightarrow> 'x rstate \<Rightarrow> addr set \<Rightarrow> bool" where
  "circular R env s S \<longleftrightarrow> (\<forall>p \<in> S. \<exists>e l ls a q e'. original R s p e \<and> be_state e AND ST_INITIALIZED = 0 \<and>
     link_at env s (pi_base e) = Some (l # ls) \<and> ppi_base l = Some a \<and> \<not> has l RF_POST_INIT \<and>
     link_target R l = Some q \<and> q \<in> S \<and> base_entries (world s) q = Some e' \<and> offers env e' (li_flags l))"

lemma circular_world: "world s' = world s \<Longrightarrow> circular R env s' S = circular R env s S"
  by (simp add: circular_def original_def link_at_def)

lemma circular_reread: "circular R env s S \<Longrightarrow> reread s s' \<Longrightarrow> circular R env s' S"
  by (simp add: circular_def original_def reread_fields)

text \<open>C19: Classes that need each other cannot be requested. Where every class of a set is registered, not initialised,
  and its first link asks at once for an original of the set, a request for any of them returns with no amount of
  fuel: the calls of \<open>object_by_handle\<close> and \<open>init_object\<close> never end, since an object counts as initialised only
  after its links are filled.\<close>

theorem circular_links_hang:
  assumes "at_registry R s" "circular R env s S" "p \<in> S" "base_entries (world s) p = Some e" "offers env e flags"
  shows "object_by_handle env n p flags s = None"
  using assms
proof (induction n arbitrary: s p e flags)
  case (Suc n)
  obtain l ls a q e' where o: "original R s p e" "be_state e AND ST_INITIALIZED = 0" "link_at env s (pi_base e) = Some (l # ls)"
      "ppi_base l = Some a" "\<not> has l RF_POST_INIT" "link_target R l = Some q" "q \<in> S" "base_entries (world s) q = Some e'"
      "offers env e' (li_flags l)"
    using Suc.prems(2-4) unfolding circular_def original_def by fastforce
  obtain s1 where s1: "get_context_state (pi_base e) s = Some (be_state e, s1)" "at_registry R s1" "reread s s1"
    using original_state [OF Suc.prems(1) o(1)] by blast
  let ?s2 = "lm_clean (link_at env s1) (pi_base e) s1"
  have l1: "link_at env s1 (pi_base e) = Some (l # ls)" using o(3) s1(3) by (simp add: reread_fields)
  have s2: "world ?s2 = world s1" "slot_of ?s2 a = 0" using l1 o(4) lm_clean_loop_slots [of "l # ls" s1] by (simp_all add: lm_clean_def)
  have l2: "link_at env ?s2 (pi_base e) = Some (l # ls)" using l1 s2(1) by (simp add: link_at_def)
  have r2: "at_registry R ?s2" using s1(2) s2(1) by (simp add: at_registry_def)
  obtain s3 where s3: "link_request (object_by_handle env n) l ?s2 = object_by_handle env n q (li_flags l) s3"
      "at_registry R s3" "reread ?s2 s3"
    using link_request_at [OF r2, of "object_by_handle env n" l] o(6) by auto
  have c: "circular R env s3 S" using circular_reread [OF _ s3(3)] circular_world [OF s2(1)] circular_reread [OF Suc.prems(2) s1(3)] by blast
  have "base_entries (world s3) q = Some e'" using o(8) s1(3) s2(1) s3(3) by (simp add: reread_fields)
  then have "object_by_handle env n q (li_flags l) s3 = None" using Suc.IH [OF s3(2) c o(7) _ o(9)] by blast
  then have "lm_init (link_at env ?s2) (pi_base e) (link_request (object_by_handle env n)) ?s2 = None"
    using l2 s2(2) s3(1) o(4,5) by (simp add: lm_init_def)
  then have "init_object env (object_by_handle env n) n (pi_base e) s = None" using s1(1) o(2) by (simp add: init_object_def Let_def)
  then show ?case using Suc.prems(4,5) by (simp add: offers_def Let_def)
qed simp

definition link_1 :: "unit repo link_info" where
  "link_1 = \<lparr>ppi_base = Some 0x5010, li_iname = None, li_cname = Some [0x63], li_flags = RF_ORIGINAL, p_ref_ctl = None, p_info_ctl = None\<rparr>"

theorem circular_links_hang_witness:
  "\<forall>n. object_by_handle (env_1 2 (Some [link_1])) n 0x100 RF_ORIGINAL (repo_1 0 dcs_1 keys_1) = None"
proof (rule allI, rule circular_links_hang [OF repo_1_at(1)])
  let ?e = "\<lparr>pi_base = 0x5000, ref_cnt = 0, be_state = 0\<rparr>"
  have o: "offers (env_1 2 (Some [link_1])) ?e RF_ORIGINAL" by (simp add: offers_def env_1_def info_1_def RF_ORIGINAL_def RF_CLONE_def)
  have t: "link_target (under keys_1 0x100) link_1 = Some 0x100" by (simp add: link_target_def link_1_def under_def keys_1_def)
  have l: "link_at (env_1 2 (Some [link_1])) (repo_1 0 dcs_1 keys_1) b = Some [link_1]" for b by (simp add: link_at_def env_1_def)
  have f: "\<not> has link_1 RF_POST_INIT" "li_flags link_1 = RF_ORIGINAL" "ppi_base link_1 = Some 0x5010"
    by (simp_all add: has_def link_1_def RF_ORIGINAL_def RF_POST_INIT_def)
  show "circular (under keys_1 0x100) (env_1 2 (Some [link_1])) (repo_1 0 dcs_1 keys_1) {0x100}"
    unfolding circular_def using original_1 [of 0 dcs_1] o t l f
    by (auto simp: repo_1_at intro!: exI [of _ ?e] exI [of _ link_1])
  show "base_entries (world (repo_1 0 dcs_1 keys_1)) 0x100 = Some ?e" by (simp add: repo_1_at)
  show "offers (env_1 2 (Some [link_1])) ?e RF_ORIGINAL" by (rule o)
qed simp

text \<open>The entries after each entry was requested once for every target in the list that it is.\<close>

definition raised :: "addr option list \<Rightarrow> entries \<Rightarrow> entries" where
  "raised ts E = (\<lambda>q. map_option (\<lambda>e. e\<lparr>ref_cnt := ref_cnt e + of_nat (count_list ts (Some q))\<rparr>) (E q))"

lemma raised_Nil: "raised [] E = E"
proof
  fix q
  show "raised [] E q = E q" by (cases "E q") (simp_all add: raised_def)
qed

lemma raised_Cons:
  assumes "E q = Some e"
  shows "raised (Some q # ts) E = raised ts (E(q \<mapsto> ref_up e))"
proof
  fix r
  show "raised (Some q # ts) E r = raised ts (E(q \<mapsto> ref_up e)) r"
    using assms by (cases "r = q"; cases "E r") (simp_all add: raised_def ref_up_def ac_simps)
qed

text \<open>A link that asks at once for an original that is already initialised.\<close>

definition supplied :: "(u8 list \<rightharpoonup> addr) \<Rightarrow> 'x env \<Rightarrow> entries \<Rightarrow> 'x repo link_info \<Rightarrow> bool" where
  "supplied R env E l \<longleftrightarrow> ppi_base l \<noteq> None \<and> \<not> has l RF_POST_INIT \<and> p_ref_ctl l = None \<and>
     (\<exists>q e. link_target R l = Some q \<and> E q = Some e \<and> pi_base e \<noteq> 0 \<and> R (digest (pointer_key (pi_base e))) = Some q \<and>
       offers env e (li_flags l) \<and> be_state e AND ST_INITIALIZED \<noteq> 0)"

lemma supplied_up: "supplied R env E l \<Longrightarrow> E q = Some e \<Longrightarrow> supplied R env (E(q \<mapsto> ref_up e)) l"
  by (fastforce simp: supplied_def offers_def)

text \<open>A state that differs in the registry map, the entries and the links.\<close>

definition linked :: "entries \<Rightarrow> 'x rstate \<Rightarrow> 'x rstate \<Rightarrow> bool" where
  "linked E s s' \<longleftrightarrow> (\<exists>m f. s' = (upd (\<lambda>w. w\<lparr>base_map := m, base_entries := E\<rparr>) s)\<lparr>slot_of := f\<rparr>)"

lemma linked_step: "touched E s s1 \<Longrightarrow> linked E' (set_slot a b s1) s' \<Longrightarrow> linked E' s s'"
proof -
  assume "touched E s s1" "linked E' (set_slot a b s1) s'"
  then obtain m f where "s' = (upd (\<lambda>w. w\<lparr>base_map := m, base_entries := E'\<rparr>) s)\<lparr>slot_of := f\<rparr>"
    by (auto simp: linked_def touched_def upd_def set_slot_def)
  then show ?thesis unfolding linked_def by blast
qed

lemma linked_fields:
  assumes "linked E s s'"
  shows "base_entries (world s') = E" "gl_dcs (world s') = gl_dcs (world s)" "ms_pending (world s') = ms_pending (world s)"
    "link_at env s' b = link_at env s b"
  using assms by (auto simp: linked_def upd_def link_at_def)

lemma lm_init_supplied:
  assumes "at_registry R s" "\<forall>k \<in> set ls. supplied R env (base_entries (world s)) k" "distinct (addrs ls)"
    and "\<forall>a \<in> set (addrs ls). slot_of s a = 0"
  shows "\<exists>r' s'. lm_init_loop (link_request (object_by_handle env (Suc n))) (ls @ rest) r s =
      lm_init_loop (link_request (object_by_handle env (Suc n))) rest r' s' \<and> at_registry R s' \<and>
      linked (raised (map (link_target R) ls) (base_entries (world s))) s s' \<and>
      (\<forall>a. a \<notin> set (addrs ls) \<longrightarrow> slot_of s' a = slot_of s a)"
  using assms
proof (induction ls arbitrary: r s)
  case Nil
  have "linked (base_entries (world s)) s s"
    unfolding linked_def by (rule exI [of _ "base_map (world s)"], rule exI [of _ "slot_of s"]) (simp add: upd_def)
  then show ?case using Nil.prems(1) by (auto simp: raised_Nil)
next
  case (Cons l ls)
  let ?obh = "object_by_handle env (Suc n)"
  obtain a q e where l: "ppi_base l = Some a" "\<not> has l RF_POST_INIT" "p_ref_ctl l = None" "link_target R l = Some q"
      "base_entries (world s) q = Some e" "pi_base e \<noteq> 0" "R (digest (pointer_key (pi_base e))) = Some q"
      "offers env e (li_flags l)" "be_state e AND ST_INITIALIZED \<noteq> 0"
    using Cons.prems(2) by (auto simp: supplied_def)
  let ?E = "(base_entries (world s))(q \<mapsto> ref_up e)"
  obtain s1 where s1: "link_request ?obh l s = ?obh q (li_flags l) s1" "at_registry R s1" "reread s s1"
    using link_request_at [OF Cons.prems(1), of ?obh l] l(4) by auto
  have o: "original R s1 q e" using l(5-7) s1(3) by (simp add: original_def reread_fields)
  obtain s2 where s2: "?obh q (li_flags l) s1 = Some (pi_base e, s2)" "at_registry R s2" "touched ((base_entries (world s1))(q \<mapsto> ref_up e)) s1 s2"
    using handle_initialised [OF s1(2) o l(8,9)] by blast
  have t: "touched ?E s s2" using reread_touch [OF s1(3) s2(3)] s1(3) by (simp add: reread_fields)
  let ?s3 = "set_slot a (pi_base e) s2"
  have s3: "at_registry R ?s3" "base_entries (world ?s3) = ?E" "slot_of ?s3 = (slot_of s)(a := pi_base e)"
    using s2(2) t by (simp_all add: at_registry_def set_slot_def touched_fields)
  have d: "a \<notin> set (addrs ls)" "distinct (addrs ls)" "slot_of s a = 0" using Cons.prems(3,4) l(1) by auto
  define r1 where "r1 = (if has l RF_KEEP_PENDING then r OR PLMR_KEEP_PENDING else r)"
  have "\<forall>k \<in> set ls. supplied R env (base_entries (world ?s3)) k" "\<forall>b \<in> set (addrs ls). slot_of ?s3 b = 0"
    using Cons.prems(2,4) supplied_up [where E = "base_entries (world s)" and q = q and e = e, OF _ l(5)] l(1) d(1) by (auto simp: s3(2,3))
  then obtain r' s' where s': "lm_init_loop (link_request ?obh) (ls @ rest) r1 ?s3 = lm_init_loop (link_request ?obh) rest r' s'"
      "at_registry R s'" "linked (raised (map (link_target R) ls) ?E) ?s3 s'" "\<forall>b. b \<notin> set (addrs ls) \<longrightarrow> slot_of s' b = slot_of ?s3 b"
    using Cons.IH [OF s3(1) _ d(2), of r1] unfolding s3(2) by blast
  have "lm_init_loop (link_request ?obh) ((l # ls) @ rest) r s = lm_init_loop (link_request ?obh) (ls @ rest) r1 ?s3"
    using l(1-3,6) d(3) s1(1) s2(1) by (simp add: r1_def [symmetric] Let_def ref_ctl_def del: object_by_handle.simps)
  then show ?case using s' linked_step [OF t s'(3)] raised_Cons [where E = "base_entries (world s)" and q = q and e = e, OF l(5)] s3(3) l(1,4)
    by (intro exI [of _ r'] exI [of _ s']) (simp del: object_by_handle.simps)
qed

text \<open>Links of which the first ones are supplied and the next one must be there but names nobody; \<open>ts\<close> is what the
  first ones name.\<close>

definition broken :: "(u8 list \<rightharpoonup> addr) \<Rightarrow> 'x env \<Rightarrow> entries \<Rightarrow> addr option list \<Rightarrow> 'x repo link_info list \<Rightarrow> bool" where
  "broken R env E ts ls \<longleftrightarrow> (\<exists>pre l post. ls = pre @ l # post \<and> distinct (addrs (pre @ [l])) \<and> (\<forall>k \<in> set pre. supplied R env E k) \<and>
     ppi_base l \<noteq> None \<and> critical l \<and> link_target R l = None \<and> ts = map (link_target R) pre)"

lemma addrs_append: "addrs (xs @ ys) = addrs xs @ addrs ys"
  by (induction xs) (auto split: option.split)

lemma lm_init_broken:
  assumes "at_registry R s" "broken R env (base_entries (world s)) ts ls" "link_at env s b = Some ls"
  shows "\<exists>s'. lm_init (link_at env s) b (link_request (object_by_handle env (Suc n))) (lm_clean (link_at env s) b s) = Some (PLMR_FAILED, s') \<and>
    at_registry R s' \<and> linked (raised ts (base_entries (world s))) s s'"
proof -
  let ?obh = "object_by_handle env (Suc n)"
  obtain pre l post where ls: "ls = pre @ l # post" "distinct (addrs (pre @ [l]))" "\<forall>k \<in> set pre. supplied R env (base_entries (world s)) k"
      "ppi_base l \<noteq> None" "critical l" "link_target R l = None" "ts = map (link_target R) pre"
    using assms(2) unfolding broken_def by blast
  then obtain a where a: "ppi_base l = Some a" "a \<notin> set (addrs pre)" "distinct (addrs pre)" by (auto simp: addrs_append)
  let ?s = "lm_clean_loop ls s"
  have c: "world ?s = world s" "slot_of ?s = (\<lambda>a. if a \<in> set (addrs ls) then 0 else slot_of s a)" using lm_clean_loop_slots [of ls s] by simp_all
  have z: "\<forall>b \<in> set (addrs pre). slot_of ?s b = 0" "slot_of ?s a = 0" using ls(1) a(1) unfolding c by (simp_all add: addrs_append)
  have "at_registry R ?s" "\<forall>k \<in> set pre. supplied R env (base_entries (world ?s)) k" using assms(1) ls(3) by (simp_all add: at_registry_def c)
  then obtain r1 s1 where s1: "lm_init_loop (link_request ?obh) (pre @ l # post) PLMR_READY ?s = lm_init_loop (link_request ?obh) (l # post) r1 s1"
      "at_registry R s1" "linked (raised ts (base_entries (world s))) ?s s1" "slot_of s1 a = 0"
    using lm_init_supplied [OF _ _ a(3) z(1), where n = n and rest = "l # post"] z(2) a(2) unfolding c(1) ls(7) by metis
  obtain s2 where s2: "link_request ?obh l s1 = Some (0, s2)" "at_registry R s2" "reread s1 s2"
    using link_request_at [OF s1(2), of ?obh l] ls(6) by auto
  let ?s3 = "set_slot a 0 s2"
  have "lm_init_loop (link_request ?obh) (l # post) r1 s1 = Some (PLMR_FAILED, ?s3)"
    using a(1) s1(4) s2(1) ls(5) by (simp add: Let_def critical_def del: object_by_handle.simps)
  moreover have "linked (raised ts (base_entries (world s))) s ?s3"
  proof -
    obtain m f where "s1 = (upd (\<lambda>w. w\<lparr>base_map := m, base_entries := raised ts (base_entries (world s))\<rparr>) ?s)\<lparr>slot_of := f\<rparr>"
      using s1(3) by (auto simp: linked_def)
    moreover obtain m' where "s2 = upd (base_map_update (\<lambda>_. m')) s1" using s2(3) by (auto simp: reread_def)
    ultimately have "?s3 = (upd (\<lambda>w. w\<lparr>base_map := m', base_entries := raised ts (base_entries (world s))\<rparr>) s)\<lparr>slot_of := f(a := 0)\<rparr>"
      using c(1) by (simp add: upd_def set_slot_def)
    then show ?thesis unfolding linked_def by blast
  qed
  moreover have "at_registry R ?s3" using s2(2) by (simp add: at_registry_def set_slot_def)
  ultimately show ?thesis using assms(3) ls(1) s1(1) by (auto simp: lm_init_def lm_clean_def simp del: object_by_handle.simps)
qed

text \<open>C31: A clone that cannot be initialised keeps the references it took. Where the first links of a class name
  originals that are initialised and the next one must be there but names nobody, a request for a clone gives 0 and
  leaves every context as it was, but each original that the first links name keeps one reference for each of them:
  \<open>uninit_object\<close> does nothing for an object that never was initialised. (The address of the clone is assumed to
  share its SHA-1 with no registered key; without memory for it nothing changes.)\<close>

theorem failed_clone_keeps_references:
  assumes "at_registry R s" "at_dcs A s" "base_entries (world s) p = Some e"
    and "(oi_flags (v_info env (pi_base e)) AND flags) AND RF_CLONE \<noteq> 0"
    and "length (scol A) + 1 < 2 ^ 32" "zone_fits (oi_size (v_info env (pi_base e)) + 1 + sizeof_ll_item_hdr)"
    and "\<forall>b. \<exists>ls. v_link env (pi_base e) b = Some ls \<and> broken R env (base_entries (world s)) ts ls"
  shows "\<exists>b l. dcs_create_context (v_info env) e flags 0 (copied env (pi_base e)) (gl_dcs (world s)) = Some (b, l) \<and>
    (case R (digest (pointer_key b)) of Some q \<Rightarrow> True
     | None \<Rightarrow> \<exists>s' A'. object_by_handle env (Suc (Suc n)) p flags s = Some (0, s') \<and> at_dcs A' s' \<and> contexts A' = contexts A \<and>
         base_entries (world s') = (if b = 0 then base_entries (world s) else raised ts (base_entries (world s))))"
proof -
  let ?E = "base_entries (world s)"
  obtain b l A1 where l: "dcs_create_context (v_info env) e flags 0 (copied env (pi_base e)) (gl_dcs (world s)) = Some (b, l)"
      "dcs_rel l A1" "if b = 0 then A1 = A else contexts A b = None \<and>
         contexts A1 = (contexts A)(b \<mapsto> \<lparr>cx_class = pi_base e, cx_state = 0\<rparr>) \<and> scol A1 = scol A @ [b - sizeof_hdr] \<and> sizeof_hdr \<le> b"
    using dcs_create_rel [where info = "v_info env" and e = e and ?st0.0 = "copied env (pi_base e)", OF assms(2) [unfolded at_dcs_def] assms(4-6)] by metis
  let ?s1 = "upd (gl_dcs_update (\<lambda>_. l)) s"
  have cr: "create_context env e flags s = Some (b, ?s1)" using l(1) by (simp add: create_context_def)
  have s1: "at_registry R ?s1" "at_dcs A1 ?s1" using assms(1) l(2) by simp_all
  have E1: "base_entries (world ?s1) = ?E" by (simp add: upd_def)
  have "\<exists>s' A'. object_by_handle env (Suc (Suc n)) p flags s = Some (0, s') \<and> at_dcs A' s' \<and> contexts A' = contexts A \<and>
      base_entries (world s') = (if b = 0 then ?E else raised ts ?E)" if free: "R (digest (pointer_key b)) = None"
  proof (cases "b = 0")
    case True
    then have "object_by_handle env (Suc (Suc n)) p flags s = Some (0, ?s1)" using cr assms(3,4) by (simp add: Let_def)
    then show ?thesis using s1 E1 l(3) True by auto
  next
    case False
    let ?x = "\<lparr>cx_class = pi_base e, cx_state = 0\<rparr>" let ?obh = "object_by_handle env (Suc n)"
    have c1: "contexts A1 b = Some ?x" "contexts A b = None" "contexts A1 = (contexts A)(b \<mapsto> ?x)" using l(3) False by simp_all
    obtain s2 where s2: "get_context_state b ?s1 = Some (0, s2)" "at_registry R s2" "at_dcs A1 s2" "reread ?s1 s2"
      using context_state(1) [OF s1(1,2) c1(1) False free] by auto
    have e2: "base_entries (world s2) = ?E" using s2(4) E1 by (simp add: reread_fields)
    obtain ls where ls: "v_link env (pi_base e) b = Some ls" "broken R env (base_entries (world s2)) ts ls" using assms(7) unfolding e2 by blast
    have "link_at env s2 b = Some ls" using ls(1) class_of_context [OF s2(3) c1(1)] by (simp add: link_at_def)
    from lm_init_broken [OF s2(2) ls(2) this, of n] obtain s3 where
      s3: "lm_init (link_at env s2) b (link_request ?obh) (lm_clean (link_at env s2) b s2) = Some (PLMR_FAILED, s3)" "at_registry R s3"
        "linked (raised ts ?E) s2 s3"
      unfolding e2 by blast
    have "link_at env (lm_clean (link_at env s2) b s2) = link_at env s2"
      using \<open>link_at env s2 b = Some ls\<close> lm_clean_loop_slots [of ls s2] by (simp add: link_at_def lm_clean_def fun_eq_iff)
    then have i: "init_object env ?obh (Suc n) b ?s1 = Some (False, s3)"
      using s2(1) s3(1) by (simp add: init_object_def Let_def PLMR_FAILED_def PLMR_READY_def del: object_by_handle.simps)
    have d3: "at_dcs A1 s3" using s2(3) linked_fields(2) [OF s3(3)] by (simp add: at_dcs_def)
    obtain s4 where s4: "get_context_state b s3 = Some (0, s4)" "at_registry R s4" "at_dcs A1 s4" "reread s3 s4"
      using context_state(1) [OF s3(2) d3 c1(1) False free] by auto
    have u: "uninit_object env ?obh (object_release env (Suc n)) (Suc n) b s3 = Some (True, s4)"
      using s4(1) by (simp add: uninit_object_def)
    obtain s5 A5 where s5: "remove_context b s4 = Some s5" "at_dcs A5 s5" "moved s4 s5" "contexts A5 = (contexts A1)(b := None)"
      using remove_context_at [OF s4(2,3) c1(1)] by blast
    have "object_by_handle env (Suc (Suc n)) p flags s = Some (0, s5)"
      using cr assms(3,4) False i u s5(1) by (simp add: Let_def del: object_by_handle.simps(2) add: object_by_handle.simps(2) [of env "Suc n"])
    moreover have "contexts A5 = contexts A" using s5(4) c1(2,3) by (simp add: fun_upd_idem)
    moreover have "base_entries (world s5) = raised ts ?E"
      using moved_entries [OF s5(3)] s4(4) linked_fields(1) [OF s3(3)] by (simp add: reread_fields)
    ultimately show ?thesis using s5(2) False by auto
  qed
  then show ?thesis using l(1) by (intro exI [of _ b] exI [of _ l]) (auto split: option.split)
qed

definition link_0 :: "unit repo link_info" where
  "link_0 = \<lparr>ppi_base = Some 0x5020, li_iname = None, li_cname = None, li_flags = RF_ORIGINAL, p_ref_ctl = None, p_info_ctl = None\<rparr>"

definition class_2 :: base_entry where
  "class_2 = \<lparr>pi_base = 0x6000, ref_cnt = 0, be_state = 0\<rparr>"

definition repo_2 :: "unit rstate" where
  "repo_2 = upd (base_entries_update (\<lambda>E. E(0x200 \<mapsto> class_2))) (repo_1 1 dcs_1 keys_1)"

theorem failed_clone_keeps_references_witness:
  "let env = env_1 3 (Some [link_1, link_0]); R = under keys_1 0x100; s = repo_2
   in \<exists>b l. dcs_create_context (v_info env) class_2 RF_CLONE 0 0 dcs_1 = Some (b, l) \<and>
    (case R (digest (pointer_key b)) of Some q \<Rightarrow> True
     | None \<Rightarrow> \<exists>s' A'. object_by_handle env (Suc (Suc 0)) 0x200 RF_CLONE s = Some (0, s') \<and> at_dcs A' s' \<and> contexts A' = contexts (ll_empty 2) \<and>
         base_entries (world s') = (if b = 0 then base_entries (world s) else raised [Some 0x100] (base_entries (world s))))"
proof -
  let ?env = "env_1 3 (Some [link_1, link_0])" and ?R = "under keys_1 0x100"
  have r: "at_registry ?R repo_2" "at_dcs (ll_empty 2) repo_2"
    using repo_1_at(1,3) by (simp_all add: repo_2_def at_registry_def at_dcs_def upd_def)
  have e: "base_entries (world repo_2) 0x200 = Some class_2"
    "base_entries (world repo_2) 0x100 = Some \<lparr>pi_base = 0x5000, ref_cnt = 0, be_state = 1\<rparr>" by (simp_all add: repo_2_def upd_def repo_1_at)
  have f: "(oi_flags (v_info ?env (pi_base class_2)) AND RF_CLONE) AND RF_CLONE \<noteq> 0" by (simp add: env_1_def RF_CLONE_def)
  have z: "length (scol (ll_empty 2 :: cx_object ll_abs)) + 1 < 2 ^ 32" "zone_fits (oi_size (v_info ?env (pi_base class_2)) + 1 + sizeof_ll_item_hdr)"
    by (simp_all add: env_1_def info_1_def scol_def ll_empty_def zone_fits_def sizeof_ll_item_hdr_def)
  have t: "link_target ?R link_1 = Some 0x100" "link_target ?R link_0 = None"
    by (simp_all add: link_target_def link_1_def link_0_def under_def keys_1_def)
  have "supplied ?R ?env (base_entries (world repo_2)) link_1"
    unfolding supplied_def using t(1) e(2)
    by (auto simp: link_1_def has_def RF_POST_INIT_def RF_ORIGINAL_def RF_CLONE_def offers_def env_1_def under_def keys_1_def ST_INITIALIZED_def)
  then have "broken ?R ?env (base_entries (world repo_2)) [Some 0x100] [link_1, link_0]"
    unfolding broken_def using t
    by (intro exI [of _ "[link_1]"] exI [of _ link_0] exI [of _ "[]"])
       (simp add: link_1_def link_0_def critical_def has_def RF_POST_INIT_def RF_ORIGINAL_def RF_NOCRITICAL_def)
  then have b: "\<forall>b. \<exists>ls. v_link ?env (pi_base class_2) b = Some ls \<and> broken ?R ?env (base_entries (world repo_2)) [Some 0x100] ls"
    by (simp add: env_1_def)
  have d: "gl_dcs (world repo_2) = dcs_1" "copied ?env (pi_base class_2) = 0" by (simp_all add: repo_2_def repo_1_def upd_def env_1_def)
  show ?thesis using failed_clone_keeps_references [OF r e(1) f z b, where n = 0] unfolding Let_def d .
qed

end
