(* ===== verification/ExtSpec.thy ===== *)
theory ExtSpec
  imports RepoSpec
begin

text \<open>
  Loading, finding and unloading extensions, and the users of an entry: what the maps behind extension.cpp and
  users.cpp hold after each operation.
\<close>

declare set_concat [simp del] mset_concat [simp del] concat_eq_Nil_conv [simp del]

section \<open>Writing a record of a map\<close>

lemma put_record_rel:
  assumes "hash_map_rel m M" "hash_map_ready m h" "M d = Some r"
  shows "\<exists>m'. put_record (mr_addr r) f m = Some m' \<and> hash_map_rel m' (M(d \<mapsto> r\<lparr>mr_data := f (mr_data r)\<rparr>)) \<and> hash_map_ready m' h"
proof -
  obtain bs where bs: "hm.map_rel (hm_context m) bs" "M = mget bs" "pf_hash (hm_context m) = Some map_hash"
    using assms(1) by (auto simp: hash_map_rel_def)
  obtain la where la: "pp_list (hm_context m) = Some (la, bs)" "distinct (blocks_of la bs)"
    using bs(1) by (rule hm.map_relE)
  let ?g = "\<lambda>x. if mr_addr x = mr_addr r then x\<lparr>mr_data := f (mr_data x)\<rparr> else x"
  let ?bs = "map (map ?g) bs" let ?c = "(hm_context m)\<lparr>pp_list := Some (la, ?bs)\<rparr>"
  have c: "concat ?bs = map ?g (concat bs)" by (induction bs) auto
  have k: "mr_key \<circ> ?g = mr_key" "mr_addr \<circ> ?g = mr_addr" by auto
  have b: "buckets_ok bs (capacity (hm_context m))" "distinct (map mr_addr (concat bs))"
    using bs(1) la(2) by (simp_all add: hm.map_rel_def blocks_of_def)
  have "buckets_ok ?bs (capacity (hm_context m))" using b(1) unfolding buckets_ok_def c map_map k by auto
  moreover have "blocks_of la ?bs = blocks_of la bs" unfolding blocks_of_def c map_map k ..
  moreover have "list_all (hm.rec_live (udata (hm_context m))) (concat ?bs)"
  proof -
    have "list_all (hm.rec_live (udata (hm_context m))) (concat bs)" using bs(1) by (simp add: hm.map_rel_def)
    then show ?thesis unfolding c by (auto simp: list_all_iff hm.rec_live_def)
  qed
  ultimately have rel: "hm.map_rel ?c ?bs" using bs(1) la unfolding hm.map_rel_def by (simp add: c del: map_map)
  have "mget ?bs = M(d \<mapsto> r\<lparr>mr_data := f (mr_data r)\<rparr>)"
    using mget_update [of bs d r "\<lambda>x. x\<lparr>mr_data := f (mr_data x)\<rparr>"] b bs(2) assms(3) by (simp add: buckets_ok_def)
  then have "hash_map_rel (m\<lparr>hm_context := ?c\<rparr>) (M(d \<mapsto> r\<lparr>mr_data := f (mr_data r)\<rparr>))"
    unfolding hash_map_rel_def using rel bs(3) by (auto intro: exI [of _ ?bs])
  moreover have "put_record (mr_addr r) f m = Some (m\<lparr>hm_context := ?c\<rparr>)"
    using record_data_rel [OF assms(1,3)] la(1) by (simp add: put_record_def)
  ultimately show ?thesis using assms(2) by (auto simp: hash_map_ready_def)
qed

section \<open>Extensions\<close>

text \<open>An extension with that file or that alias is in the map.\<close>

definition taken :: "u8 list \<Rightarrow> u8 list \<Rightarrow> (u8 list \<rightharpoonup> extension map_rec_hdr) \<Rightarrow> bool" where
  "taken file al M \<longleftrightarrow> (\<exists>r \<in> ran M. m_file (mr_data r) = file \<or> m_alias (mr_data r) = al)"

lemma visit_search:
  "visit (\<lambda>x sz e. if P x then (MAP_ENUM_BREAK, b) else (MAP_ENUM_CONTINUE, e)) rs e = (if \<exists>r \<in> set rs. P (mr_data r) then b else e)"
  by (induction rs) auto

lemma search_taken:
  assumes "hash_map_rel m M" "card (dom M) \<le> n"
  shows "enum_extensions n (\<lambda>x e. if fl = m_file x \<or> al = m_alias x then (MAP_ENUM_BREAK, ERR_DUPLICATED) else (MAP_ENUM_CONTINUE, e)) ERR_NONE h m =
    Some (if taken fl al M then ERR_DUPLICATED else ERR_NONE, m)"
proof -
  let ?cb = "\<lambda>x (sz :: u32) e. if fl = m_file x \<or> al = m_alias x then (MAP_ENUM_BREAK, ERR_DUPLICATED) else (MAP_ENUM_CONTINUE, e)"
  have nodel: "fst (?cb x sz s) \<noteq> MAP_ENUM_DELETE" for x sz s by simp
  obtain rs where "set rs = ran M" "hash_map_enm n m ?cb ERR_NONE h = Some (visit ?cb rs ERR_NONE, m)"
    using hash_map_enm_rel [where cb = ?cb and s = ERR_NONE and hlock = h, OF assms(1) nodel assms(2)] by blast
  then show ?thesis unfolding enum_extensions_def visit_search by (auto simp: taken_def)
qed

text \<open>The record that \<open>ext_load\<close> makes.\<close>

definition loaded :: "dl \<Rightarrow> nat \<Rightarrow> u8 list \<Rightarrow> u8 list \<Rightarrow> extension" where
  "loaded d h file al = \<lparr>m_alias = take (MAX_ALIAS_LEN - 1) al, m_file = take (MAX_FILE_PATH - 1) file,
     m_handle = Some h, m_get_base_array = sym_array d h, m_init = True\<rparr>"

definition ext_key :: "u8 list \<Rightarrow> u8 list" where
  "ext_key al = map_hash (take (MAX_ALIAS_LEN - 1) al)"

lemma ext_load_cases:
  assumes "al \<noteq> []"
  shows "(case dlopen d file of None \<Rightarrow> fst (ext_load d file (Some al) extension_0) = ERR_LOADEXT
    | Some h \<Rightarrow> if sym_init d h then ext_load d file (Some al) extension_0 = (ERR_NONE, loaded d h file al)
        else fst (ext_load d file (Some al) extension_0) = ERR_UNKNOWN)"
  using assms by (auto simp: ext_load_def loaded_def extension_0_def alias_of_def split: option.split)

lemma rec_fits_extension: "hm.rec_fits sizeof_extension"
  by (simp add: hm.rec_fits_def rec_size_ok_def sizeof_extension_def sizeof_map_rec_hdr_def zone_fits_def)

text \<open>Loading.\<close>

lemma load_extension_rel:
  assumes "hash_map_rel m M" "hash_map_ready m 0" "hm.has_room (hm_context m)" "card (dom M) \<le> n" "alias_of al file \<noteq> []"
  shows "\<exists>e p m'. load_extension d n file al 0 m = Some ((e, p), m') \<and> hash_map_ready m' 0 \<and>
    (if taken file (alias_of al file) M then e = ERR_DUPLICATED \<and> p = None \<and> m' = m
     else case dlopen d file of
       None \<Rightarrow> e = ERR_LOADEXT \<and> p = None \<and> m' = m
     | Some h \<Rightarrow>
         if \<not> sym_init d h then e = ERR_UNKNOWN \<and> p = None \<and> m' = m
         else e = ERR_NONE \<and>
           (case M (ext_key (alias_of al file)) of
              Some r \<Rightarrow> p = Some (mr_addr r) \<and> hash_map_rel m' M
            | None \<Rightarrow> hash_map_rel m' (stored p (ext_key (alias_of al file)) (loaded d h file (alias_of al file)) sizeof_extension M) \<and>
                (\<exists>u. zalloc (sizeof_map_rec_hdr + (sizeof_extension + 1)) (udata (hm_context m)) = Some (p, u))))"
proof -
  let ?a = "alias_of al file"
  note s = search_taken [where fl = "file" and al = ?a and h = 0, OF assms(1,4)]
  note x = ext_load_cases [OF assms(5), of d "file"]
  show ?thesis
  proof (cases "taken file ?a M")
    case True
    then show ?thesis using s assms(2) by (simp add: load_extension_def Let_def)
  next
    case free: False
    show ?thesis
    proof (cases "dlopen d file")
      case None
      then show ?thesis using s x free assms(2) by (auto simp: load_extension_def Let_def split: prod.split)
    next
      case (Some h)
      show ?thesis
      proof (cases "sym_init d h")
        case False
        then show ?thesis using s x free Some assms(2) by (auto simp: load_extension_def Let_def split: prod.split)
      next
        case True
        let ?x = "loaded d h file ?a"
        have k: "m_alias ?x \<noteq> []" "map_hash (m_alias ?x) = ext_key ?a"
          using assms(5) by (simp_all add: loaded_def ext_key_def MAX_ALIAS_LEN_def)
        obtain p m' where "hash_map_add m (m_alias ?x) ?x sizeof_extension 0 = Some (p, m')" "hash_map_ready m' 0"
            "case M (ext_key ?a) of Some r \<Rightarrow> p = Some (mr_addr r) \<and> hash_map_rel m' M
             | None \<Rightarrow> hash_map_rel m' (stored p (ext_key ?a) ?x sizeof_extension M) \<and>
                 (\<exists>u. zalloc (sizeof_map_rec_hdr + (sizeof_extension + 1)) (udata (hm_context m)) = Some (p, u))"
          using hash_map_add_rel [OF assms(1-3) k(1) rec_fits_extension, of ?x] unfolding k(2) by (auto split: option.splits)
        moreover have "ext_load d file (Some ?a) extension_0 = (ERR_NONE, ?x)" using x Some True by simp
        ultimately show ?thesis using s free Some True by (simp add: load_extension_def Let_def)
      qed
    qed
  qed
qed

text \<open>Unloading.\<close>

lemma unload_extension_rel:
  assumes "hash_map_rel m M" "hash_map_ready m 0" "al \<noteq> []"
  shows "\<exists>e m'. unload_extension d al 0 m = Some (e, m') \<and> hash_map_ready m' 0 \<and>
    (case M (map_hash al) of
       None \<Rightarrow> e = ERR_MISSING \<and> hash_map_rel m' M
     | Some r \<Rightarrow>
         (case m_handle (mr_data r) of
            None \<Rightarrow> e = ERR_UNKNOWN \<and> hash_map_rel m' M
          | Some h \<Rightarrow>
              if dlclose d h then e = ERR_NONE \<and> hash_map_rel m' (M(map_hash al := None))
              else e = ERR_UNKNOWN \<and> hash_map_rel m' M))"
proof -
  obtain m1 where m1: "hash_map_get m al 0 = Some (found (M (map_hash al)), m1)" "hash_map_rel m1 M" "hash_map_ready m1 0"
    using hash_map_get_rel [OF assms] by blast
  show ?thesis
  proof (cases "M (map_hash al)")
    case None
    then show ?thesis using m1 by (simp add: unload_extension_def found_def)
  next
    case (Some r)
    let ?x = "mr_data r" let ?f = "\<lambda>_. snd (ext_unload d ?x)"
    obtain m2 where m2: "put_record (mr_addr r) ?f m1 = Some m2" "hash_map_ready m2 0"
        "hash_map_rel m2 (M(map_hash al \<mapsto> r\<lparr>mr_data := snd (ext_unload d ?x)\<rparr>))"
      using put_record_rel [OF m1(2,3) Some, of ?f] by blast
    have start: "unload_extension d al 0 m =
        (if fst (ext_unload d ?x) = ERR_NONE then do { (_, m) \<leftarrow> hash_map_del m2 al 0; Some (ERR_NONE, m) } else Some (fst (ext_unload d ?x), m2))"
      using m1(1) Some record_data_rel [OF m1(2) Some] m2(1) by (simp add: unload_extension_def found_def)
    show ?thesis
    proof (cases "fst (ext_unload d ?x) = ERR_NONE")
      case True
      obtain m3 where "hash_map_del m2 al 0 = Some ((), m3)" "hash_map_ready m3 0" "hash_map_rel m3 (M(map_hash al := None))"
        using hash_map_del_rel [OF m2(3,2) assms(3)] by auto
      then show ?thesis using start True Some by (auto simp: ext_unload_def split: option.splits if_splits)
    next
      case False
      then have "snd (ext_unload d ?x) = ?x" by (auto simp: ext_unload_def split: option.splits if_splits)
      then have "hash_map_rel m2 M" using m2(3) Some by (metis fun_upd_triv map_rec_hdr.surjective map_rec_hdr.update_convs(4))
      then show ?thesis using start False m2(2) Some by (auto simp: ext_unload_def split: option.splits if_splits)
    qed
  qed
qed

section \<open>Extensions at work\<close>

definition exts_1 :: ext_map where
  "exts_1 = the (hash_map_new 0x2000 (zalloc_0 0x1000 409600))"

definition loader_1 :: dl where
  "loader_1 = \<lparr>dlopen = (\<lambda>f. Some 7), sym_init = (\<lambda>h. True), sym_array = (\<lambda>h. Some (Some 0x100, 1, 1)), dlclose = (\<lambda>h. True)\<rparr>"

lemma exts_1_rel: "hash_map_rel exts_1 Map.empty" "hash_map_ready exts_1 0" "hm.has_room (hm_context exts_1)"
  "\<exists>a g. zalloc (sizeof_map_rec_hdr + (sizeof_extension + 1)) (udata (hm_context exts_1)) = Some (Some a, g)"
proof -
  have f: "fresh_map exts_1" using hash_map_new_fresh [where ?'a = extension] by (auto simp: exts_1_def)
  then show "hash_map_rel exts_1 Map.empty" "hash_map_ready exts_1 0" "hm.has_room (hm_context exts_1)" by (simp_all add: fresh_map_def)
  obtain a where "zalloc 1016 zalloc_1 = Some (Some a, udata (hm_context exts_1))" using f by (auto simp: fresh_map_def)
  then show "\<exists>a g. zalloc (sizeof_map_rec_hdr + (sizeof_extension + 1)) (udata (hm_context exts_1)) = Some (Some a, g)"
    using zalloc_1_alloc_record by (auto simp: bind_Some_iff sizeof_map_rec_hdr_def sizeof_extension_def)
qed

section \<open>Properties\<close>

text \<open>C32: Loading a library: a file or an alias that is already loaded is refused, a file that the loader does not
  open gives \<open>ERR_LOADEXT\<close> and a library without \<open>init\<close> gives \<open>ERR_UNKNOWN\<close>, and none of the three changes the map of
  extensions. Otherwise the result is \<open>ERR_NONE\<close>. Then, when an extension already has the first 63 bytes of the alias as
  its key, the caller gets the record of that other extension; when none has, the caller gets exactly what the allocator
  of the map answers to the request for the record: its address, at which the library is recorded under these 63 bytes,
  or NULL when there is no memory, and then nothing is recorded although the load succeeds.\<close>

theorem load_extension_results:
  assumes "hash_map_rel m M" "hash_map_ready m 0" "hm.has_room (hm_context m)" "card (dom M) \<le> n" "alias_of al file \<noteq> []"
  shows "\<exists>e p m'. load_extension d n file al 0 m = Some ((e, p), m') \<and> hash_map_ready m' 0 \<and>
    (if taken file (alias_of al file) M then e = ERR_DUPLICATED \<and> p = None \<and> m' = m
     else case dlopen d file of
       None \<Rightarrow> e = ERR_LOADEXT \<and> p = None \<and> m' = m
     | Some h \<Rightarrow>
         if \<not> sym_init d h then e = ERR_UNKNOWN \<and> p = None \<and> m' = m
         else e = ERR_NONE \<and>
           (case M (ext_key (alias_of al file)) of
              Some r \<Rightarrow> p = Some (mr_addr r) \<and> hash_map_rel m' M
            | None \<Rightarrow> hash_map_rel m' (stored p (ext_key (alias_of al file)) (loaded d h file (alias_of al file)) sizeof_extension M) \<and>
                (\<exists>u. zalloc (sizeof_map_rec_hdr + (sizeof_extension + 1)) (udata (hm_context m)) = Some (p, u))))"
  using assms by (rule load_extension_rel)

theorem load_extension_results_witness:
  "let f = [0x65]; a = alias_of None f
   in \<exists>p m'. load_extension loader_1 0 f None 0 exts_1 = Some ((ERR_NONE, Some p), m') \<and> hash_map_ready m' 0 \<and>
    hash_map_rel m' (Map.empty(ext_key a \<mapsto>
      \<lparr>mr_addr = p, sz_rec = sizeof_extension + 1, mr_key = ext_key a, mr_data = loaded loader_1 7 f a\<rparr>))"
proof -
  let ?f = "[0x65]" let ?a = "alias_of None ?f"
  obtain q g where "zalloc (sizeof_map_rec_hdr + (sizeof_extension + 1)) (udata (hm_context exts_1)) = Some (Some q, g)"
    using exts_1_rel(4) by blast
  moreover from load_extension_results [OF exts_1_rel(1-3), of 0 None ?f loader_1] obtain p m' where
    "load_extension loader_1 0 ?f None 0 exts_1 = Some ((ERR_NONE, p), m')" "hash_map_ready m' 0"
    "hash_map_rel m' (stored p (ext_key ?a) (loaded loader_1 7 ?f ?a) sizeof_extension Map.empty)"
    "\<exists>u. zalloc (sizeof_map_rec_hdr + (sizeof_extension + 1)) (udata (hm_context exts_1)) = Some (p, u)"
    by (auto simp: alias_of_def basename_def taken_def loader_1_def)
  ultimately show ?thesis unfolding Let_def by (auto simp: stored_def)
qed

text \<open>C18: An extension lives from its load to its unload. A load that recorded its library is found under the first 63
  bytes of its alias; the same file cannot be loaded a second time; and, when the loader closes the library, the
  unload under that name leaves the map of extensions as it was before the load and the name unknown.\<close>

theorem extension_life_cycle:
  assumes "hash_map_rel m M" "hash_map_ready m 0" "hm.has_room (hm_context m)" "card (dom M) < n" "alias_of al file \<noteq> []"
    and "load_extension d n file al 0 m = Some ((ERR_NONE, Some p), m1)" "M (ext_key (alias_of al file)) = None" "finite (dom M)"
    and "length file < MAX_FILE_PATH" "dlopen d file = Some h" "dlclose d h"
  shows "\<exists>m2 m3 m4 m5. find_extension (take (MAX_ALIAS_LEN - 1) (alias_of al file)) 0 m1 = Some (Some p, m2) \<and>
    load_extension d n file al' 0 m2 = Some ((ERR_DUPLICATED, None), m3) \<and>
    unload_extension d (take (MAX_ALIAS_LEN - 1) (alias_of al file)) 0 m3 = Some (ERR_NONE, m4) \<and> hash_map_rel m4 M \<and>
    find_extension (take (MAX_ALIAS_LEN - 1) (alias_of al file)) 0 m4 = Some (None, m5)"
proof -
  let ?a = "alias_of al file" let ?k = "take (MAX_ALIAS_LEN - 1) ?a" let ?x = "loaded d h file ?a"
  let ?r = "\<lparr>mr_addr = p, sz_rec = sizeof_extension + 1, mr_key = ext_key ?a, mr_data = ?x\<rparr>"
  let ?M = "M(ext_key ?a \<mapsto> ?r)"
  have k: "?k \<noteq> []" "map_hash ?k = ext_key ?a" using assms(5) by (simp_all add: MAX_ALIAS_LEN_def ext_key_def)
  have m1: "hash_map_rel m1 ?M" "hash_map_ready m1 0"
    using load_extension_rel [OF assms(1-3) less_imp_le [OF assms(4)] assms(5), of d] assms(6,7,10)
    by (auto simp: stored_def split: if_splits)
  obtain m2 where g2: "hash_map_get m1 ?k 0 = Some (found (?M (map_hash ?k)), m2)" "hash_map_rel m2 ?M" "hash_map_ready m2 0"
    using hash_map_get_rel [OF m1 k(1)] by blast
  have f2: "find_extension ?k 0 m1 = Some (Some p, m2)" using g2(1) k(2) by (simp add: find_extension_def found_def)
  have "card (dom ?M) \<le> n" using assms(4,8) by (simp add: card_insert_if)
  moreover have "taken file a' ?M" for a'
    unfolding taken_def using assms(9) by (intro bexI [of _ ?r]) (auto simp: loaded_def MAX_FILE_PATH_def ran_def)
  ultimately have l3: "load_extension d n file al' 0 m2 = Some ((ERR_DUPLICATED, None), m2)"
    using search_taken [where fl = "file" and al = "alias_of al' file" and h = 0 and n = n, OF g2(2)] by (simp add: load_extension_def Let_def)
  have "M(ext_key ?a := None) = M" using assms(7) by auto
  then obtain m4 where m4: "unload_extension d ?k 0 m2 = Some (ERR_NONE, m4)" "hash_map_rel m4 M" "hash_map_ready m4 0"
    using unload_extension_rel [OF g2(2,3) k(1), of d] assms(11) k(2) by (auto simp: loaded_def)
  obtain m5 where "hash_map_get m4 ?k 0 = Some (found (M (map_hash ?k)), m5)" using hash_map_get_rel [OF m4(2,3) k(1)] by blast
  then have "find_extension ?k 0 m4 = Some (None, m5)" using k(2) assms(7) by (simp add: find_extension_def found_def)
  then show ?thesis using f2 l3 m4 by blast
qed

theorem extension_life_cycle_witness:
  "\<exists>p m1 m2 m3 m4 m5. load_extension loader_1 1 [0x65] None 0 exts_1 = Some ((ERR_NONE, Some p), m1) \<and>
    find_extension [0x65] 0 m1 = Some (Some p, m2) \<and>
    load_extension loader_1 1 [0x65] None 0 m2 = Some ((ERR_DUPLICATED, None), m3) \<and>
    unload_extension loader_1 [0x65] 0 m3 = Some (ERR_NONE, m4) \<and> hash_map_rel m4 Map.empty \<and>
    find_extension [0x65] 0 m4 = Some (None, m5)"
proof -
  have a: "alias_of None [0x65] = [0x65]" by (simp add: alias_of_def basename_def)
  obtain p m1 where l: "load_extension loader_1 1 [0x65] None 0 exts_1 = Some ((ERR_NONE, p), m1)"
    using load_extension_rel [OF exts_1_rel(1-3), of 1 None "[0x65]" loader_1] a by (auto simp: taken_def loader_1_def)
  have x: "ext_load loader_1 [0x65] (Some [0x65]) extension_0 = (ERR_NONE, loaded loader_1 7 [0x65] [0x65])"
    using ext_load_cases [of "[0x65]" loader_1 "[0x65]"] by (simp add: loader_1_def)
  let ?x = "loaded loader_1 7 [0x65] [0x65]"
  have k: "m_alias ?x = [0x65]" by (simp add: loaded_def MAX_ALIAS_LEN_def)
  have "hash_map_add exts_1 [0x65] ?x sizeof_extension 0 = Some (p, m1)"
    using l a x k search_taken [where fl = "[0x65]" and al = "[0x65]" and h = 0 and n = 1, OF exts_1_rel(1)]
    by (auto simp: load_extension_def taken_def Let_def bind_Some_iff)
  moreover have "[0x65] \<noteq> ([] :: u8 list)" by simp
  ultimately obtain q where p: "p = Some q"
    using hash_map_add_rel [OF exts_1_rel(1-3) _ rec_fits_extension, of "[0x65]" ?x] exts_1_rel(4) by auto
  have "\<exists>m2 m3 m4 m5. find_extension (take (MAX_ALIAS_LEN - 1) (alias_of None [0x65])) 0 m1 = Some (Some q, m2) \<and>
    load_extension loader_1 1 [0x65] None 0 m2 = Some ((ERR_DUPLICATED, None), m3) \<and>
    unload_extension loader_1 (take (MAX_ALIAS_LEN - 1) (alias_of None [0x65])) 0 m3 = Some (ERR_NONE, m4) \<and> hash_map_rel m4 Map.empty \<and>
    find_extension (take (MAX_ALIAS_LEN - 1) (alias_of None [0x65])) 0 m4 = Some (None, m5)"
    by (rule extension_life_cycle [OF exts_1_rel(1-3) _ _ l [unfolded p], where h = 7])
       (simp_all add: a loader_1_def MAX_FILE_PATH_def)
  moreover have "take (MAX_ALIAS_LEN - 1) [0x65] = [0x65 :: u8]" by (simp add: MAX_ALIAS_LEN_def)
  ultimately show ?thesis using l [unfolded p] unfolding a by metis
qed

end
