(* ===== verification/LlLive.thy ===== *)
theory LlLive
  imports LlSession
begin

text \<open>
  The blocks that are in use after an operation of a list: moving and selecting change none, appending adds
  the one that the allocator answers with.
\<close>

section \<open>The blocks in use after an operation\<close>

text \<open>Steps that change neither the user data nor the callbacks.\<close>

definition undisturbed :: "('a, 'u) ll_context \<Rightarrow> ('a, 'u) ll_context \<Rightarrow> bool" where
  "undisturbed c c' \<longleftrightarrow> p_udata c' = p_udata c \<and> p_unlock c' = p_unlock c"

lemma undisturbed_intros [simp]:
  "undisturbed c c" "undisturbed c (put_st c' k s) = undisturbed c c'" "undisturbed c (c'\<lparr>heap := h\<rparr>) = undisturbed c c'" "undisturbed c (c'\<lparr>ccol := k\<rparr>) = undisturbed c c'"
  by (auto simp: undisturbed_def)

lemma undisturbed_trans: "undisturbed c c' \<Longrightarrow> undisturbed c' d \<Longrightarrow> undisturbed c d"
  by (simp add: undisturbed_def)

lemma set_next_undisturbed: "set_next c a v = Some c' \<Longrightarrow> undisturbed d c' = undisturbed d c"
  by (auto simp: set_next_def bind_Some_iff)

lemma set_prev_undisturbed: "set_prev c a v = Some c' \<Longrightarrow> undisturbed d c' = undisturbed d c"
  by (auto simp: set_prev_def bind_Some_iff)

lemmas link_undisturbed = set_next_undisturbed set_prev_undisturbed

lemma ll_mov_unlink_undisturbed: "ll_mov_unlink c a hdr = Some c' \<Longrightarrow> undisturbed c c'"
proof -
  assume "ll_mov_unlink c a hdr = Some c'"
  then obtain c1 c2 where "(case it_prev hdr of None \<Rightarrow> Some c | Some q \<Rightarrow> set_next c q (it_next hdr)) = Some c1"
    "(case it_next hdr of None \<Rightarrow> Some c1 | Some q \<Rightarrow> set_prev c1 q (it_prev hdr)) = Some c2" "undisturbed c c' = undisturbed c c2"
    unfolding ll_mov_unlink_def Let_def by (auto simp: bind_Some_iff)
  then show "undisturbed c c'" by (auto simp: link_undisturbed split: option.splits)
qed

lemma ll_mov_link_undisturbed: "ll_mov_link c a k = Some (r, c') \<Longrightarrow> undisturbed c c'"
  by (auto simp: ll_mov_link_def bind_Some_iff Let_def link_undisturbed split: option.splits if_splits)

context ll_callbacks
begin

text \<open>What the lock and the unlock keep, a bracket around an undisturbed body keeps.\<close>

definition kept :: "('u \<Rightarrow> 'b) \<Rightarrow> bool" where
  "kept g \<longleftrightarrow> (\<forall>h u hm u'. lock h u = Some (hm, u') \<longrightarrow> g u' = g u) \<and> (\<forall>h u u'. unlock h u = Some u' \<longrightarrow> g u' = g u)"

lemma kept_live: "kept live"
  using lock_live unlock_live by (auto simp: kept_def)

lemma bracket_keeps:
  assumes g: "kept g" and wired: "wired c" and run: "ll_locked c h body = Some (r, c')"
    and body: "\<And>c1 r c2. body c1 = Some (r, c2) \<Longrightarrow> undisturbed c1 c2"
  shows "g (p_udata c') = g (p_udata c)"
proof -
  from wired run obtain hm u1 c2 u2 where u: "lock h (p_udata c) = Some (hm, u1)" "body (c\<lparr>p_udata := u1\<rparr>) = Some (r, c2)"
    "(case p_unlock c2 of None \<Rightarrow> Some c2 | Some f \<Rightarrow> do { u \<leftarrow> f hm (p_udata c2); Some (c2\<lparr>p_udata := u\<rparr>) }) = Some c'"
    by (auto simp: ll_locked_def ll_lock_def ll_unlock_def bind_Some_iff wired_def)
  have k: "p_udata c2 = u1" "p_unlock c2 = Some unlock" using body [OF u(2)] wired by (simp_all add: undisturbed_def wired_def)
  then obtain u2 where "unlock hm u1 = Some u2" "c' = c2\<lparr>p_udata := u2\<rparr>" using u(3) by (auto simp: bind_Some_iff)
  then show ?thesis using g u(1) by (simp add: kept_def)
qed

lemmas bracket_live = bracket_keeps [OF kept_live]

lemma ll_mov_live: "wired c \<Longrightarrow> ll_mov c a k h = Some (r, c') \<Longrightarrow> live (p_udata c') = live (p_udata c)"
  unfolding ll_mov_def
  by (erule (1) bracket_live)
     (auto simp: bind_Some_iff split: if_splits dest!: ll_mov_unlink_undisturbed ll_mov_link_undisturbed intro: undisturbed_trans)

lemma ll_col_keeps: "kept g \<Longrightarrow> wired c \<Longrightarrow> ll_col c k h = Some (r, c') \<Longrightarrow> g (p_udata c') = g (p_udata c)"
  unfolding ll_col_def by (auto split: if_splits elim: bracket_keeps)

lemma ll_first_keeps: "kept g \<Longrightarrow> wired c \<Longrightarrow> ll_first c h = Some (r, c') \<Longrightarrow> g (p_udata c') = g (p_udata c)"
  unfolding ll_first_def by (erule (2) bracket_keeps) (clarsimp simp: bind_Some_iff Let_def)

lemmas ll_first_live = ll_first_keeps [OF kept_live]

lemma ll_current_live: "wired c \<Longrightarrow> ll_current c h = Some (r, c') \<Longrightarrow> live (p_udata c') = live (p_udata c)"
  unfolding ll_current_def by (erule (1) bracket_live) (auto simp: bind_Some_iff)

text \<open>What \<open>ll_append\<close> returns is what the allocator answers.\<close>

lemma ll_append_answer:
  assumes "wired c" "ll_append c d sz h = Some (r, c')"
  shows "\<exists>u. alloc (sz + sizeof_ll_item_hdr) (addr_limit c) (p_udata c) = Some (r, u) \<and> live (p_udata c') = live u"
proof -
  from assms obtain q u where q: "alloc (sz + sizeof_ll_item_hdr) (addr_limit c) (p_udata c) = Some (q, u)"
    by (auto simp: ll_append_def alloc_item_def bind_Some_iff wired_def)
  show ?thesis
  proof (cases q)
    case None
    then show ?thesis using assms q by (auto simp: ll_append_def alloc_item_def wired_def)
  next
    case (Some a)
    let ?c = "c\<lparr>p_udata := u, heap := (heap c)(a \<mapsto> new_item c sz d None)\<rparr>"
    have "alloc_item c d sz = Some (Some a, ?c)" using q Some assms(1) by (simp add: alloc_item_def wired_def new_item_def)
    then obtain body where b: "ll_locked ?c h body = Some (r, c')"
      and body: "body = (\<lambda>c. do {
          s \<leftarrow> get_st c (ccol c);
          c \<leftarrow> (case p_last s of None \<Rightarrow> Some c | Some l \<Rightarrow> set_next c l (Some a));
          c \<leftarrow> set_prev c a (p_last s);
          c \<leftarrow> set_next c a (if mode c = LL_MODE_RING then p_first s else None);
          Some (Some a, put_st c (ccol c) (s\<lparr>
            p_last := Some a, p_current := Some a,
            p_first := (if p_first s = None then Some a else p_first s),
            st_current := st_count s, st_count := st_count s + 1\<rparr>)) })"
      using assms(2) by (simp add: ll_append_def)
    have k: "fst x = Some a \<and> undisturbed c1 (snd x)" if "body c1 = Some x" for c1 x
      using that unfolding body by (auto simp: bind_Some_iff link_undisturbed split: option.splits)
    then have "r = Some a" using b by (fastforce simp: ll_locked_def bind_Some_iff)
    moreover have "live (p_udata c') = live (p_udata ?c)" using bracket_live [OF _ b] k assms(1) by (fastforce simp: wired_def)
    ultimately show ?thesis using q Some by simp
  qed
qed

lemma ll_append_live:
  assumes "wired c" "ok (p_udata c)" "ll_append c d sz h = Some (r, c')"
  shows "live (p_udata c') = (case r of None \<Rightarrow> live (p_udata c) | Some a \<Rightarrow> (live (p_udata c))(a \<mapsto> rnd (sz + sizeof_ll_item_hdr)))"
proof -
  obtain u where u: "alloc (sz + sizeof_ll_item_hdr) (addr_limit c) (p_udata c) = Some (r, u)" "live (p_udata c') = live u"
    using ll_append_answer [OF assms(1,3)] by blast
  then show ?thesis using alloc_None [OF assms(2)] alloc_Some [OF assms(2)] by (cases r) auto
qed

lemma rel_wired: "ll_rel c A \<Longrightarrow> wired c" "ll_rel c A \<Longrightarrow> ok (p_udata c)"
  by (simp_all add: ll_rel_def)

end

end
