(* ===== verification/Pools.thy ===== *)
theory Pools
  imports LlLive
begin

text \<open>
  Objects that keep records or buffers in the columns of a list: core/mem/pool.cpp and core/mem/bmap.cpp over
  cLlist. The list and the buffers come from one heap object, which is the one in the state of the list. A handle is
  the address of a record.
\<close>

definition put_item :: "'a cLlist \<Rightarrow> addr \<Rightarrow> 'a \<Rightarrow> 'a cLlist option" where
  "put_item l a d = do { it \<leftarrow> heap l a; Some (l\<lparr>heap := (heap l)(a \<mapsto> it\<lparr>it_data := d\<rparr>)\<rparr>) }"

section \<open>cPool\<close>

datatype pool_op = POOL_OP_NEW | POOL_OP_BUSY | POOL_OP_FREE | POOL_OP_DELETE

definition COL_FREE :: u8 where "COL_FREE = 0"
definition COL_BUSY :: u8 where "COL_BUSY = 1"

text \<open>The callback works on the contents of the record and on what \<open>mp_udata\<close> points to.\<close>

record ('a, 's) cPool =
  mpi_list :: "'a cLlist option"
  m_data_size :: u32
  mp_cb :: "(pool_op \<Rightarrow> addr \<Rightarrow> 'a \<times> 's \<Rightarrow> 'a \<times> 's) option"
  mp_udata :: 's

definition pool_cb :: "pool_op \<Rightarrow> addr \<Rightarrow> ('a, 's) cPool \<Rightarrow> 'a cLlist \<Rightarrow> (('a, 's) cPool \<times> 'a cLlist) option" where
  "pool_cb op a p l =
     (case mp_cb p of
        None \<Rightarrow> Some (p, l)
      | Some f \<Rightarrow> do {
          it \<leftarrow> heap l a;
          (case f op a (it_data it, mp_udata p) of (d, s) \<Rightarrow> do { l \<leftarrow> put_item l a d; Some (p\<lparr>mp_udata := s\<rparr>, l) }) })"

text \<open>The bracket of \<open>mpi_list->lock(h)\<close> and \<open>mpi_list->unlock(hm)\<close>; no list is a call on NULL.\<close>

definition pool_locked :: "u64 \<Rightarrow> (u64 \<Rightarrow> ('a, 's) cPool \<Rightarrow> 'a cLlist \<Rightarrow> ('r \<times> ('a, 's) cPool \<times> 'a cLlist) option) \<Rightarrow>
    ('a, 's) cPool \<Rightarrow> ('r \<times> ('a, 's) cPool) option" where
  "pool_locked h f p = do {
     l \<leftarrow> mpi_list p;
     (hm, u) \<leftarrow> cLlist_lock h (p_udata l);
     (r, p, l) \<leftarrow> f hm p (l\<lparr>p_udata := u\<rparr>);
     u \<leftarrow> cLlist_unlock hm (p_udata l);
     Some (r, p\<lparr>mpi_list := Some (l\<lparr>p_udata := u\<rparr>)\<rparr>) }"

fun free_all_loop :: "nat \<Rightarrow> u64 \<Rightarrow> ('a, 's) cPool \<Rightarrow> 'a cLlist \<Rightarrow> (unit \<times> ('a, 's) cPool \<times> 'a cLlist) option" where
  "free_all_loop 0 hm p l = None"
| "free_all_loop (Suc n) hm p l = do {
     (r, l) \<leftarrow> cLlist_first l hm;
     (case r of
        None \<Rightarrow> Some ((), p, l)
      | Some (a, sz) \<Rightarrow> do {
          (p, l) \<leftarrow> pool_cb POOL_OP_FREE a p l;
          (_, l) \<leftarrow> cLlist_mov l a COL_FREE hm;
          free_all_loop n hm p l }) }"

definition pool_free_all_at :: "nat \<Rightarrow> u64 \<Rightarrow> ('a, 's) cPool \<Rightarrow> (unit \<times> ('a, 's) cPool) option" where
  "pool_free_all_at n h p = pool_locked h (\<lambda>hm p l. do { (_, l) \<leftarrow> cLlist_col l COL_BUSY hm; free_all_loop n hm p l }) p"

definition pool_free_all :: "nat \<Rightarrow> ('a, 's) cPool \<Rightarrow> (unit \<times> ('a, 's) cPool) option" where
  "pool_free_all n p = pool_free_all_at n 0 p"

fun clear_loop :: "nat \<Rightarrow> u64 \<Rightarrow> ('a, 's) cPool \<Rightarrow> 'a cLlist \<Rightarrow> (unit \<times> ('a, 's) cPool \<times> 'a cLlist) option" where
  "clear_loop 0 hm p l = None"
| "clear_loop (Suc n) hm p l = do {
     (r, l) \<leftarrow> cLlist_first l hm;
     (case r of
        None \<Rightarrow> Some ((), p, l)
      | Some (a, sz) \<Rightarrow> do {
          (p, l) \<leftarrow> pool_cb POOL_OP_DELETE a p l;
          (_, l) \<leftarrow> cLlist_del l hm;
          clear_loop n hm p l }) }"

text \<open>\<open>_free_all(hm)\<close> inside the bracket.\<close>

definition free_all_inside :: "nat \<Rightarrow> u64 \<Rightarrow> ('a, 's) cPool \<Rightarrow> 'a cLlist \<Rightarrow> (('a, 's) cPool \<times> 'a cLlist) option" where
  "free_all_inside n hm p l = do {
     (_, p) \<leftarrow> pool_free_all_at n hm (p\<lparr>mpi_list := Some l\<rparr>);
     l \<leftarrow> mpi_list p;
     Some (p, l) }"

definition pool_clear :: "nat \<Rightarrow> ('a, 's) cPool \<Rightarrow> (unit \<times> ('a, 's) cPool) option" where
  "pool_clear n p = pool_locked 0 (\<lambda>hm p l. do {
     (p, l) \<leftarrow> free_all_inside n hm p l;
     (_, l) \<leftarrow> cLlist_col l COL_FREE hm;
     clear_loop n hm p l }) p"

fun delete_loop :: "nat \<Rightarrow> u64 \<Rightarrow> (addr \<times> u32) option \<Rightarrow> ('a, 's) cPool \<Rightarrow> 'a cLlist \<Rightarrow> (unit \<times> ('a, 's) cPool \<times> 'a cLlist) option" where
  "delete_loop n hm None p l = Some ((), p, l)"
| "delete_loop 0 hm (Some r) p l = None"
| "delete_loop (Suc n) hm (Some (a, sz)) p l = do {
     (p, l) \<leftarrow> pool_cb POOL_OP_DELETE a p l;
     (r, l) \<leftarrow> cLlist_next l hm;
     delete_loop n hm r p l }"

text \<open>After the bracket the list goes back to the repository.\<close>

definition pool_destroy :: "nat \<Rightarrow> ('a, 's) cPool \<Rightarrow> (unit \<times> ('a, 's) cPool) option" where
  "pool_destroy n p = pool_locked 0 (\<lambda>hm p l. do {
     (p, l) \<leftarrow> free_all_inside n hm p l;
     if mp_cb p \<noteq> None then do {
       (_, l) \<leftarrow> cLlist_col l COL_FREE hm;
       (r, l) \<leftarrow> cLlist_first l hm;
       delete_loop n hm r p l }
     else Some ((), p, l) }) p"

definition pool_object_ctl :: "nat \<Rightarrow> octl \<Rightarrow> ('a, 's) cPool \<Rightarrow> (bool \<times> ('a, 's) cPool) option" where
  "pool_object_ctl n cmd p =
     (case cmd of
        OCTL_INIT \<Rightarrow> Some (True, p\<lparr>m_data_size := 0, mpi_list := None\<rparr>)
      | OCTL_UNINIT \<Rightarrow> do { (_, p) \<leftarrow> pool_destroy n p; Some (True, p) }
      | _ \<Rightarrow> Some (False, p))"

text \<open>\<open>got\<close> is the list that the repository hands out, \<open>repo_heap\<close> its heap.\<close>

definition pool_init :: "u32 \<Rightarrow> (pool_op \<Rightarrow> addr \<Rightarrow> 'a \<times> 's \<Rightarrow> 'a \<times> 's) option \<Rightarrow> 's \<Rightarrow> cZoneHeap option \<Rightarrow> 'a cLlist option \<Rightarrow>
    cZoneHeap option \<Rightarrow> ('a, 's) cPool \<Rightarrow> (bool \<times> ('a, 's) cPool) option" where
  "pool_init sz cb ud pi_heap got repo_heap p =
     (case got of
        None \<Rightarrow> Some (False, p\<lparr>mpi_list := None\<rparr>)
      | Some l \<Rightarrow> do {
          (r, l) \<leftarrow> cLlist_init l LL_MODE_VECTOR 2 pi_heap repo_heap;
          Some (r, p\<lparr>mpi_list := Some l, m_data_size := sz, mp_cb := cb, mp_udata := ud\<rparr>) })"

definition pool_size :: "('a, 's) cPool \<Rightarrow> u32" where
  "pool_size p = m_data_size p"

text \<open>\<open>z\<close> is a record of zero bytes.\<close>

definition pool_alloc :: "'a \<Rightarrow> ('a, 's) cPool \<Rightarrow> (ptr \<times> ('a, 's) cPool) option" where
  "pool_alloc z p = pool_locked 0 (\<lambda>hm p l. do {
     (_, l) \<leftarrow> cLlist_col l COL_FREE hm;
     (r, l) \<leftarrow> cLlist_first l hm;
     (case r of
        Some (a, sz) \<Rightarrow> do {
          (p, l) \<leftarrow> pool_cb POOL_OP_BUSY a p l;
          (_, l) \<leftarrow> cLlist_mov l a COL_BUSY hm;
          Some (Some a, p, l) }
      | None \<Rightarrow> do {
          (_, l) \<leftarrow> cLlist_col l COL_BUSY hm;
          (q, l) \<leftarrow> cLlist_add_new z l (m_data_size p) hm;
          (case q of
             None \<Rightarrow> Some (None, p, l)
           | Some a \<Rightarrow> do {
               l \<leftarrow> put_item l a z;
               (p, l) \<leftarrow> pool_cb POOL_OP_NEW a p l;
               Some (Some a, p, l) }) }) }) p"

text \<open>The failed assertion is \<open>None\<close>.\<close>

definition pool_free :: "addr \<Rightarrow> ('a, 's) cPool \<Rightarrow> (unit \<times> ('a, 's) cPool) option" where
  "pool_free a p = pool_locked 0 (\<lambda>hm p l. do {
     (_, l) \<leftarrow> cLlist_col l COL_BUSY hm;
     (r, l) \<leftarrow> cLlist_sel l a hm;
     if r then do {
       (p, l) \<leftarrow> pool_cb POOL_OP_FREE a p l;
       (_, l) \<leftarrow> cLlist_mov l a COL_FREE hm;
       Some ((), p, l) }
     else None }) p"

definition pool_verify :: "addr \<Rightarrow> ('a, 's) cPool \<Rightarrow> (bool \<times> ('a, 's) cPool) option" where
  "pool_verify a p = pool_locked 0 (\<lambda>hm p l. do {
     (_, l) \<leftarrow> cLlist_col l COL_BUSY hm;
     (r, l) \<leftarrow> cLlist_sel l a hm;
     Some (r, p, l) }) p"

definition pool_num :: "u8 \<Rightarrow> ('a, 's) cPool \<Rightarrow> (u32 \<times> ('a, 's) cPool) option" where
  "pool_num k p = pool_locked 0 (\<lambda>hm p l. do {
     (_, l) \<leftarrow> cLlist_col l k hm;
     (r, l) \<leftarrow> cLlist_cnt l hm;
     Some (r, p, l) }) p"

definition num_busy :: "('a, 's) cPool \<Rightarrow> (u32 \<times> ('a, 's) cPool) option" where
  "num_busy p = pool_num COL_BUSY p"

definition num_free :: "('a, 's) cPool \<Rightarrow> (u32 \<times> ('a, 's) cPool) option" where
  "num_free p = pool_num COL_FREE p"

text \<open>The enumeration callback returns whether it cancels, and works on a state of its own.\<close>

fun enum_loop :: "(addr \<Rightarrow> u32 \<Rightarrow> 't \<Rightarrow> bool \<times> 't) \<Rightarrow> nat \<Rightarrow> u64 \<Rightarrow> (addr \<times> u32) option \<Rightarrow> 't \<Rightarrow> 'a cLlist \<Rightarrow> ('t \<times> 'a cLlist) option" where
  "enum_loop cb n hm None t l = Some (t, l)"
| "enum_loop cb 0 hm (Some r) t l = None"
| "enum_loop cb (Suc n) hm (Some (a, sz)) t l =
     (case cb a sz t of (cancel, t) \<Rightarrow>
        if cancel then Some (t, l) else do { (r, l) \<leftarrow> cLlist_next l hm; enum_loop cb n hm r t l })"

definition pool_enum :: "u8 \<Rightarrow> (addr \<Rightarrow> u32 \<Rightarrow> 't \<Rightarrow> bool \<times> 't) \<Rightarrow> nat \<Rightarrow> 't \<Rightarrow> ('a, 's) cPool \<Rightarrow> ('t \<times> ('a, 's) cPool) option" where
  "pool_enum k cb n t p = pool_locked 0 (\<lambda>hm p l. do {
     (_, l) \<leftarrow> cLlist_col l k hm;
     (r, l) \<leftarrow> cLlist_first l hm;
     (t, l) \<leftarrow> enum_loop cb n hm r t l;
     Some (t, p, l) }) p"

definition enum_busy :: "(addr \<Rightarrow> u32 \<Rightarrow> 't \<Rightarrow> bool \<times> 't) \<Rightarrow> nat \<Rightarrow> 't \<Rightarrow> ('a, 's) cPool \<Rightarrow> ('t \<times> ('a, 's) cPool) option" where
  "enum_busy cb n t p = pool_enum COL_BUSY cb n t p"

definition enum_free :: "(addr \<Rightarrow> u32 \<Rightarrow> 't \<Rightarrow> bool \<times> 't) \<Rightarrow> nat \<Rightarrow> 't \<Rightarrow> ('a, 's) cPool \<Rightarrow> ('t \<times> ('a, 's) cPool) option" where
  "enum_free cb n t p = pool_enum COL_FREE cb n t p"

section \<open>A pool as two columns of records\<close>

lemma cLlist_init_rel:
  fixes l :: "'a cLlist"
  assumes "mpi_mutex (p_udata l) = Some m" "cMutex_ok m" "cMutex_owner m = None" "cZoneHeap_ok z"
    and n: "0 < n" "n < 2 ^ 8" and ft: "zone_fits (ucast (of_nat n :: u8) * sizeof_ll_state)"
  shows "\<exists>r l'. cLlist_init l LL_MODE_VECTOR (of_nat n) (Some z) rh = Some (r, l') \<and>
    (r \<longrightarrow> cll.ll_rel l' (ll_empty n) \<and> cll.ready (p_udata l') 0)"
proof -
  let ?c = "l\<lparr>mode := LL_MODE_VECTOR, ccol := 0, ncol := of_nat n, state := None, p_alloc := Some mem_alloc,
     p_free := Some mem_free, p_lock := Some cLlist_lock, p_unlock := Some cLlist_unlock,
     addr_limit := 0xffffffffffffffff, p_udata := (p_udata l)\<lparr>mpi_heap := Some z\<rparr>\<rparr>"
  have u: "llist_ok (p_udata ?c)" "llist_owner (p_udata ?c) = None" using assms(1-4) by (auto simp: llist_user_defs)
  have "cll.wired ?c" "cll.ready (p_udata ?c) 0" using u by (simp_all add: cll.wired_def cll.ready_def)
  from cll.ll_init_rel [OF this _ n ft, of "0xffffffffffffffff"] obtain r and l' :: "'a cLlist" where
    l': "ll_init ?c LL_MODE_VECTOR (of_nat n) 0xffffffffffffffff = Some (r, l')" "cll.wired l'" "llist_ok (p_udata l')"
      "llist_owner (p_udata l') = llist_owner (p_udata ?c)"
      "if r then ll_inv align l' (llist_live (p_udata l')) (ll_empty n)
       else state l' = None \<and> llist_live (p_udata l') = llist_live (p_udata ?c)" by auto
  have "cLlist_init l LL_MODE_VECTOR (of_nat n) (Some z) rh = Some (r, l')" using l'(1) by (simp add: cLlist_init_def Let_def)
  moreover have "r \<longrightarrow> cll.ll_rel l' (ll_empty n) \<and> cll.ready (p_udata l') 0"
    using l' u(2) by (simp add: cll.ll_rel_def cll.ready_def)
  ultimately show ?thesis by blast
qed

definition pool_rel :: "('a, 's) cPool \<Rightarrow> 'a ll_abs \<Rightarrow> bool" where
  "pool_rel p A \<longleftrightarrow> width A = 2 \<and> (case mpi_list p of None \<Rightarrow> False | Some l \<Rightarrow> cll.ll_rel l A \<and> cll.ready (p_udata l) 0)"

definition busy_recs :: "'a ll_abs \<Rightarrow> addr list" where "busy_recs A = cols A 1"
definition free_recs :: "'a ll_abs \<Rightarrow> addr list" where "free_recs A = cols A 0"

lemmas recs_defs = busy_recs_def free_recs_def

lemma col_of_nat: "COL_FREE = of_nat 0" "COL_BUSY = of_nat 1"
  by (simp_all add: COL_FREE_def COL_BUSY_def)

text \<open>The heap of the list, and what it answers to the request for a record of \<open>sz\<close> bytes.\<close>

definition pool_heap :: "('a, 's) cPool \<Rightarrow> cZoneHeap option" where
  "pool_heap p = do { l \<leftarrow> mpi_list p; mpi_heap (p_udata l) }"

definition heap_answer :: "u32 \<Rightarrow> cZoneHeap option \<Rightarrow> ptr option" where
  "heap_answer sz h = do { z \<leftarrow> h; (r, _) \<leftarrow> cZoneHeap_alloc (sz + sizeof_ll_item_hdr) z; Some r }"

lemma kept_heap: "cll.kept mpi_heap"
  unfolding cll.kept_def by (auto simp: cLlist_lock_def cLlist_unlock_def bind_Some_iff split: option.splits)

lemmas col_keeps_heap = cll.ll_col_keeps [OF kept_heap]
lemmas first_keeps_heap = cll.ll_first_keeps [OF kept_heap]

lemma append_heap_answer:
  assumes "cll.ll_rel l A" "ll_append l z sz hm = Some (r, l')"
  shows "heap_answer sz (mpi_heap (p_udata l)) = Some r"
proof -
  obtain u where "mem_alloc (sz + sizeof_ll_item_hdr) (addr_limit l) (p_udata l) = Some (r, u)"
    using cll.ll_append_answer [OF cll.rel_wired(1) [OF assms(1)] assms(2)] by blast
  moreover obtain h where "mpi_heap (p_udata l) = Some h" using cll.rel_wired(2) [OF assms(1)] by (auto simp: llist_ok_def)
  ultimately show ?thesis by (auto simp: mem_alloc_def heap_answer_def bind_Some_iff)
qed

text \<open>The bracket: \<open>Q\<close> does not look at the list itself.\<close>

lemma pool_bracket_heap:
  assumes rel: "pool_rel p A"
    and body: "\<And>hm l. cll.ll_rel l A \<Longrightarrow> cll.ready (p_udata l) hm \<Longrightarrow> mpi_heap (p_udata l) = pool_heap p \<Longrightarrow>
      \<exists>r p' l' A'. f hm p l = Some (r, p', l') \<and> cll.ll_rel l' A' \<and> cll.same_cxt l l' \<and> width A' = width A \<and> Q r p' A'"
    and Q: "\<And>r p' A' l. Q r p' A' \<Longrightarrow> Q r (p'\<lparr>mpi_list := l\<rparr>) A'"
  shows "\<exists>r p' A'. pool_locked 0 f p = Some (r, p') \<and> pool_rel p' A' \<and> Q r p' A'"
proof -
  obtain l where l: "mpi_list p = Some l" "cll.ll_rel l A" "cll.ready (p_udata l) 0" "width A = 2"
    using rel by (auto simp: pool_rel_def split: option.splits)
  obtain hm u1 where u: "cLlist_lock 0 (p_udata l) = Some (hm, u1)" "cll.ll_rel (l\<lparr>p_udata := u1\<rparr>) A" "cll.ready u1 hm"
    and close: "\<And>c' A'. cll.ll_rel c' A' \<Longrightarrow> cll.same_cxt (l\<lparr>p_udata := u1\<rparr>) c' \<Longrightarrow>
       \<exists>u2. cLlist_unlock hm (p_udata c') = Some u2 \<and> cll.ll_rel (c'\<lparr>p_udata := u2\<rparr>) A' \<and> cll.ready u2 0"
    using cll.session [OF l(2,3)] by metis
  have "cll.ready (p_udata (l\<lparr>p_udata := u1\<rparr>)) hm" using u(3) by simp
  moreover have "mpi_heap (p_udata (l\<lparr>p_udata := u1\<rparr>)) = pool_heap p"
    using kept_heap u(1) l(1) by (simp add: cll.kept_def pool_heap_def)
  ultimately obtain r p' l' A' where b: "f hm p (l\<lparr>p_udata := u1\<rparr>) = Some (r, p', l')" "cll.ll_rel l' A'"
    "cll.same_cxt (l\<lparr>p_udata := u1\<rparr>) l'" "width A' = width A" "Q r p' A'" using body [OF u(2)] by blast
  from close [OF b(2,3)] obtain u2 where u2: "cLlist_unlock hm (p_udata l') = Some u2"
    "cll.ll_rel (l'\<lparr>p_udata := u2\<rparr>) A'" "cll.ready u2 0" by blast
  let ?p = "p'\<lparr>mpi_list := Some (l'\<lparr>p_udata := u2\<rparr>)\<rparr>"
  have "pool_locked 0 f p = Some (r, ?p)" using l(1) u(1) b(1) u2(1) by (simp add: pool_locked_def)
  moreover have "pool_rel ?p A'" using u2 b(4) l(4) by (simp add: pool_rel_def)
  ultimately show ?thesis using Q [OF b(5)] by blast
qed

lemma pool_bracket:
  assumes "pool_rel p A"
    and "\<And>hm l. cll.ll_rel l A \<Longrightarrow> cll.ready (p_udata l) hm \<Longrightarrow>
      \<exists>r p' l' A'. f hm p l = Some (r, p', l') \<and> cll.ll_rel l' A' \<and> cll.same_cxt l l' \<and> width A' = width A \<and> Q r p' A'"
    and "\<And>r p' A' l. Q r p' A' \<Longrightarrow> Q r (p'\<lparr>mpi_list := l\<rparr>) A'"
  shows "\<exists>r p' A'. pool_locked 0 f p = Some (r, p') \<and> pool_rel p' A' \<and> Q r p' A'"
  using assms by (rule pool_bracket_heap)

text \<open>The callback changes the contents of one record, and what \<open>mp_udata\<close> points to.\<close>

definition called_back :: "('a, 's) cPool \<Rightarrow> pool_op \<Rightarrow> addr \<Rightarrow> 'a ll_abs \<Rightarrow> 'a ll_abs \<times> 's" where
  "called_back p op a A = (case (mp_cb p, dat A a) of
     (Some f, Some (sz, d)) \<Rightarrow> (case f op a (d, mp_udata p) of (d, s) \<Rightarrow> (A\<lparr>dat := (dat A)(a \<mapsto> (sz, d))\<rparr>, s))
   | _ \<Rightarrow> (A, mp_udata p))"

lemma called_back_fields [simp]:
  "cols (fst (called_back p op a A)) = cols A" "cur (fst (called_back p op a A)) = cur A" "sel (fst (called_back p op a A)) = sel A"
  "width (fst (called_back p op a A)) = width A" "scol (fst (called_back p op a A)) = scol A"
  "b \<noteq> a \<Longrightarrow> dat (fst (called_back p op a A)) b = dat A b"
  by (auto simp: called_back_def scol_def split: option.splits prod.splits)

lemma rel_item:
  assumes "cll.ll_rel l A" "k < width A" "a \<in> set (cols A k)"
  shows "\<exists>it. heap l a = Some it \<and> dat A a = Some (it_size it, it_data it)"
proof -
  have "ll_inv align l (llist_live (p_udata l)) A" using assms(1) by (simp add: cll.ll_rel_def)
  from ll_inv_col [OF this assms(2)] have "items_ok align l (llist_live (p_udata l)) A k" by blast
  then show ?thesis using assms(3) unfolding items_ok_def by blast
qed

lemma pool_cb_rel:
  assumes "cll.ll_rel l A" "k < width A" "a \<in> set (cols A k)"
  shows "\<exists>l'. pool_cb op a p l = Some (p\<lparr>mp_udata := snd (called_back p op a A)\<rparr>, l') \<and>
    cll.ll_rel l' (fst (called_back p op a A)) \<and> cll.same_cxt l l'"
proof (cases "mp_cb p")
  case None
  then show ?thesis using assms(1) by (simp add: pool_cb_def called_back_def)
next
  case (Some f)
  obtain it where it: "heap l a = Some it" "dat A a = Some (it_size it, it_data it)" using rel_item [OF assms] by blast
  obtain d s where d: "f op a (it_data it, mp_udata p) = (d, s)" by fastforce
  from cll.write_rel [OF assms it(1), of d] show ?thesis
    using Some it d by (simp add: pool_cb_def put_item_def called_back_def)
qed

lemma cols_apart:
  assumes "cll.ll_rel l A" "j < width A" "k < width A" "a \<in> set (cols A j)" "a \<in> set (cols A k)"
  shows "j = k"
proof -
  have inv: "ll_inv align l (llist_live (p_udata l)) A" using assms(1) by (simp add: cll.ll_rel_def)
  have "items_ok align l (llist_live (p_udata l)) A j" "items_ok align l (llist_live (p_udata l)) A k"
    using ll_inv_col [OF inv assms(2)] ll_inv_col [OF inv assms(3)] by blast+
  then have "(of_nat j :: u8) = of_nat k" using assms(4,5) unfolding items_ok_def by fastforce
  then show ?thesis using assms(2,3) ll_invD(2) [OF inv] by (simp add: u8_of_nat_eq_iff)
qed

lemma cols_distinct: "cll.ll_rel l A \<Longrightarrow> k < width A \<Longrightarrow> distinct (cols A k)"
  by (auto simp: cll.ll_rel_def ll_inv_def ll_shape_def)

text \<open>What \<open>alloc\<close> leaves behind when it returns \<open>r\<close> and the heap answers \<open>q\<close> to the request for a new record.\<close>

definition allocated :: "ptr option \<Rightarrow> ptr \<Rightarrow> 'a ll_abs \<Rightarrow> 'a ll_abs \<Rightarrow> bool" where
  "allocated q r A A' \<longleftrightarrow> free_recs A' = tl (free_recs A) \<and> (\<forall>b. r \<noteq> Some b \<longrightarrow> dat A' b = dat A b) \<and>
     (case r of
        None \<Rightarrow> free_recs A = [] \<and> q = Some None \<and> busy_recs A' = busy_recs A
      | Some a \<Rightarrow> a \<notin> set (busy_recs A) \<and> busy_recs A' = busy_recs A @ [a] \<and>
          (if free_recs A = [] then q = Some (Some a) else a = hd (free_recs A)))"

text \<open>The steps that the operations share: select a column and take its first record, call the callback and move the
  record, append a record of zero bytes.\<close>

lemma col_first_rel:
  assumes "cll.ll_rel l A" "cll.ready (p_udata l) hm" "k < width A"
  shows "\<exists>l1 l2. cLlist_col l (of_nat k) hm = Some ((), l1) \<and> cLlist_first l1 hm = Some (sized A (hdp (cols A k) None), l2) \<and>
    cll.ll_rel l2 (a_first (A\<lparr>sel := k\<rparr>)) \<and> cll.same_cxt l l2 \<and> mpi_heap (p_udata l2) = mpi_heap (p_udata l)"
proof -
  from cll.ll_col_rel [OF assms] obtain l1 where l1: "ll_col l (of_nat k) hm = Some ((), l1)"
    "cll.ll_rel l1 (A\<lparr>sel := k\<rparr>)" "cll.same_cxt l l1" by auto
  from cll.ll_first_rel [OF l1(2) cll.ready_same [OF l1(3,2) assms(2)]] obtain l2 where
    "ll_first l1 hm = Some (sized A (hdp (cols A k) None), l2)"
      "cll.ll_rel l2 (a_first (A\<lparr>sel := k\<rparr>))" "cll.same_cxt l1 l2" by (auto simp: scol_def sized_def)
  moreover from this have "mpi_heap (p_udata l2) = mpi_heap (p_udata l)"
    using first_keeps_heap [OF cll.rel_wired(1) [OF l1(2)]] col_keeps_heap [OF cll.rel_wired(1) [OF assms(1)] l1(1)] by simp
  ultimately show ?thesis using l1(1,3) cll.same_cxt_trans by (fastforce simp: cLlist_col_def cLlist_first_def)
qed

lemma cb_mov_rel:
  assumes rel: "cll.ll_rel l A" "cll.ready (p_udata l) hm" and j: "j < width A" "a \<in> set (cols A j)"
    and k: "k < width A" "k \<noteq> j" "length (cols A k) + 1 < 2 ^ 32"
  shows "\<exists>l3 l4. pool_cb op a p l = Some (p\<lparr>mp_udata := snd (called_back p op a A)\<rparr>, l3) \<and>
    cLlist_mov l3 a (of_nat k) hm = Some (True, l4) \<and> cll.ll_rel l4 (a_mov (fst (called_back p op a A)) a j k) \<and> cll.same_cxt l l4"
proof -
  let ?A = "fst (called_back p op a A)"
  from pool_cb_rel [OF rel(1) j, of op p] obtain l3 where
    l3: "pool_cb op a p l = Some (p\<lparr>mp_udata := snd (called_back p op a A)\<rparr>, l3)" "cll.ll_rel l3 ?A" "cll.same_cxt l l3" by blast
  have "j < width ?A" "a \<in> set (cols ?A j)" "k < width ?A" "k \<noteq> j" "length (cols ?A k) + 1 < 2 ^ 32"
    using j k by simp_all
  from cll.ll_mov_rel [OF l3(2) cll.ready_same [OF l3(3,2) rel(2)] this] obtain l4 where
    "ll_mov l3 a (of_nat k) hm = Some (True, l4)" "cll.ll_rel l4 (a_mov ?A a j k)" "cll.same_cxt l3 l4" by blast
  then show ?thesis using l3(1,3) cll.same_cxt_trans by (fastforce simp: cLlist_mov_def)
qed

lemma add_new_rel:
  assumes rel: "cll.ll_rel l A" "cll.ready (p_udata l) hm" and k: "k < width A" "length (cols A k) + 1 < 2 ^ 32"
    and ft: "zone_fits (sz + sizeof_ll_item_hdr)"
  shows "\<exists>l1. cLlist_col l (of_nat k) hm = Some ((), l1) \<and>
    ((\<exists>l2. cLlist_add_new z l1 sz hm = Some (None, l2) \<and> heap_answer sz (mpi_heap (p_udata l)) = Some None \<and>
        cll.ll_rel l2 (A\<lparr>sel := k\<rparr>) \<and> cll.same_cxt l l2) \<or>
     (\<exists>a l2 l3. cLlist_add_new z l1 sz hm = Some (Some a, l2) \<and> heap_answer sz (mpi_heap (p_udata l)) = Some (Some a) \<and>
        put_item l2 a z = Some l3 \<and>
        (\<forall>j < width A. a \<notin> set (cols A j)) \<and> cll.ll_rel l3 (a_append (A\<lparr>sel := k\<rparr>) a sz z) \<and> cll.same_cxt l l3))"
proof -
  from cll.ll_col_rel [OF rel k(1)] obtain l1 where l1: "ll_col l (of_nat k) hm = Some ((), l1)"
    "cll.ll_rel l1 (A\<lparr>sel := k\<rparr>)" "cll.same_cxt l l1" by auto
  have room: "length (scol (A\<lparr>sel := k\<rparr>)) + 1 < 2 ^ 32" using k by (simp add: scol_def)
  have ans: "heap_answer sz (mpi_heap (p_udata l)) = Some r" if "ll_append l1 z sz hm = Some (r, l')" for r l'
    using append_heap_answer [OF l1(2) that] col_keeps_heap [OF cll.rel_wired(1) [OF rel(1)] l1(1)] by simp
  from cll.ll_append_rel [OF l1(2) cll.ready_same [OF l1(3,2) rel(2)] room ft, of z] consider
      (none) l2 where "ll_append l1 z sz hm = Some (None, l2)" "cll.ll_rel l2 (A\<lparr>sel := k\<rparr>)" "cll.same_cxt l1 l2"
    | (new) a l2 where "ll_append l1 z sz hm = Some (Some a, l2)" "llist_live (p_udata l1) a = None"
        "cll.ll_rel l2 (a_append (A\<lparr>sel := k\<rparr>) a sz z)" "cll.same_cxt l1 l2" by blast
  then show ?thesis
  proof cases
    case none
    then show ?thesis using l1(1,3) ans [OF none(1)] cll.same_cxt_trans
      unfolding cLlist_col_def cLlist_add_new_def ll_new_def by blast
  next
    case new
    let ?A = "a_append (A\<lparr>sel := k\<rparr>) a sz z"
    have a: "k < width ?A" "a \<in> set (cols ?A k)" using k by (simp_all add: a_append_def)
    obtain it where it: "heap l2 a = Some it" "dat ?A a = Some (it_size it, it_data it)" using rel_item [OF new(3) a] by blast
    let ?l3 = "l2\<lparr>heap := (heap l2)(a \<mapsto> it\<lparr>it_data := z\<rparr>)\<rparr>"
    have same: "?A\<lparr>dat := (dat ?A)(a \<mapsto> (it_size it, z))\<rparr> = ?A" using it(2) by (simp add: a_append_def)
    have "cll.ll_rel ?l3 ?A" "cll.same_cxt l2 ?l3" using cll.write_rel [OF new(3) a it(1), of z] unfolding same by blast+
    moreover have "cll.same_cxt l l2" using l1(3) new(4) cll.same_cxt_trans by blast
    moreover have "\<forall>j < width A. a \<notin> set (cols A j)" using cll.rel_live [OF l1(2)] new(2) by fastforce
    moreover have "put_item l2 a z = Some ?l3" using it(1) by (simp add: put_item_def)
    ultimately show ?thesis using l1(1) new(1) ans [OF new(1)] cll.same_cxt_trans
      unfolding cLlist_col_def cLlist_add_new_def ll_new_def by blast
  qed
qed

lemma pool_alloc_rel:
  assumes rel: "pool_rel p A" and room: "length (busy_recs A) + 1 < 2 ^ 32"
    and ft: "zone_fits (m_data_size p + sizeof_ll_item_hdr)"
  shows "\<exists>r p' A'. pool_alloc z p = Some (r, p') \<and> pool_rel p' A' \<and>
    (m_data_size p' = m_data_size p \<and> mp_cb p' = mp_cb p \<and> allocated (heap_answer (m_data_size p) (pool_heap p)) r A A')"
  unfolding pool_alloc_def
proof (rule pool_bracket_heap [OF rel], goal_cases)
  case (1 hm l)
  have w: "0 < width A" "1 < width A" using rel by (simp_all add: pool_rel_def)
  let ?A = "a_first (A\<lparr>sel := 0\<rparr>)" and ?q = "heap_answer (m_data_size p) (pool_heap p)"
  from col_first_rel [OF 1(1,2) w(1)] obtain l1 l2 where l2: "cLlist_col l COL_FREE hm = Some ((), l1)"
    "cLlist_first l1 hm = Some (sized A (hdp (cols A 0) None), l2)" "cll.ll_rel l2 ?A" "cll.same_cxt l l2"
    "mpi_heap (p_udata l2) = pool_heap p" unfolding col_of_nat 1(3) by blast
  note r2 = cll.ready_same [OF l2(4,3) 1(2)]
  have cA: "cols ?A = cols A" "width ?A = width A" "dat ?A = dat A" by (simp_all add: a_first_def cursor_def)
  have room': "length (cols A 1) + 1 < 2 ^ 32" using room by (simp add: recs_defs)
  show ?case
  proof (cases "cols A 0")
    case (Cons a xs)
    then have "a \<in> set (cols ?A 0)" using cA by simp
    from cb_mov_rel [OF l2(3) r2 _ this, of 1 POOL_OP_BUSY p] w room' obtain l3 l4 where
      l4: "pool_cb POOL_OP_BUSY a p l2 = Some (p\<lparr>mp_udata := snd (called_back p POOL_OP_BUSY a ?A)\<rparr>, l3)"
        "cLlist_mov l3 a COL_BUSY hm = Some (True, l4)"
        "cll.ll_rel l4 (a_mov (fst (called_back p POOL_OP_BUSY a ?A)) a 0 1)" "cll.same_cxt l2 l4"
      unfolding cA col_of_nat by auto
    let ?A4 = "a_mov (fst (called_back p POOL_OP_BUSY a ?A)) a 0 1"
    have no: "a \<notin> set (cols A 1)" using cols_apart [OF 1(1) w, of a] Cons by auto
    then have al: "allocated ?q (Some a) A ?A4" "width ?A4 = width A"
      using Cons no cA by (simp_all add: allocated_def recs_defs a_mov_def a_unlink_def)
    have "cll.same_cxt l l4" using l2(4) l4(4) cll.same_cxt_trans by blast
    then show ?thesis using l2(1,2) l4(1-3) al Cons
      by (intro exI [of _ "Some a"] exI [of _ l4] exI [of _ ?A4] exI [of _ "p\<lparr>mp_udata := snd (called_back p POOL_OP_BUSY a ?A)\<rparr>"])
         (simp add: sized_def)
  next
    case Nil
    have w': "1 < width ?A" "length (cols ?A 1) + 1 < 2 ^ 32" using w room' cA by simp_all
    note add = add_new_rel [OF l2(3) r2 w' ft, of z, unfolded l2(5)]
    from add obtain l3 where
      l3: "cLlist_col l2 COL_BUSY hm = Some ((), l3)" unfolding col_of_nat by blast
    from add l3 consider
        (none) l4 where "cLlist_add_new z l3 (m_data_size p) hm = Some (None, l4)" "?q = Some None"
          "cll.ll_rel l4 (?A\<lparr>sel := 1\<rparr>)" "cll.same_cxt l2 l4"
      | (new) a l4 l5 where "cLlist_add_new z l3 (m_data_size p) hm = Some (Some a, l4)" "?q = Some (Some a)" "put_item l4 a z = Some l5"
          "\<forall>j < width A. a \<notin> set (cols A j)" "cll.ll_rel l5 (a_append (?A\<lparr>sel := 1\<rparr>) a (m_data_size p) z)" "cll.same_cxt l2 l5"
      unfolding col_of_nat cA by auto
    then show ?thesis
    proof cases
      case none
      have "cll.same_cxt l l4" using l2(4) none(4) cll.same_cxt_trans by blast
      moreover have "allocated ?q None A (?A\<lparr>sel := 1\<rparr>)" "width (?A\<lparr>sel := 1\<rparr>) = width A"
        using Nil cA none(2) by (simp_all add: allocated_def recs_defs)
      ultimately show ?thesis using l2(1,2) l3 none(1,3) Nil
        by (intro exI [of _ None] exI [of _ p] exI [of _ l4] exI [of _ "?A\<lparr>sel := 1\<rparr>"]) (simp add: sized_def)
    next
      case new
      let ?A5 = "a_append (?A\<lparr>sel := 1\<rparr>) a (m_data_size p) z"
      have "1 < width ?A5" "a \<in> set (cols ?A5 1)" using w cA by (simp_all add: a_append_def)
      from pool_cb_rel [OF new(5) this, of POOL_OP_NEW p] obtain l6 where
        l6: "pool_cb POOL_OP_NEW a p l5 = Some (p\<lparr>mp_udata := snd (called_back p POOL_OP_NEW a ?A5)\<rparr>, l6)"
          "cll.ll_rel l6 (fst (called_back p POOL_OP_NEW a ?A5))" "cll.same_cxt l5 l6" by blast
      let ?A6 = "fst (called_back p POOL_OP_NEW a ?A5)"
      have no: "a \<notin> set (cols A 1)" using new(4) w by blast
      then have al: "allocated ?q (Some a) A ?A6" "width ?A6 = width A"
        using Nil no cA new(2) by (simp_all add: allocated_def recs_defs a_append_def scol_def)
      have "cll.same_cxt l l6" using l2(4) new(6) l6(3) cll.same_cxt_trans by blast
      then show ?thesis using l2(1,2) l3 new(1,3) l6(1,2) al Nil
        by (intro exI [of _ "Some a"] exI [of _ l6] exI [of _ ?A6] exI [of _ "p\<lparr>mp_udata := snd (called_back p POOL_OP_NEW a ?A5)\<rparr>"])
           (simp add: sized_def)
    qed
  qed
qed simp

text \<open>Selecting the busy column and looking for a record that the pool has.\<close>

lemma col_sel_rel:
  assumes "cll.ll_rel l A" "cll.ready (p_udata l) hm" "i < width A" "k < width A" "a \<in> set (cols A k)"
  shows "\<exists>l1 l2 A2. cLlist_col l (of_nat i) hm = Some ((), l1) \<and> cLlist_sel l1 a hm = Some (k = i, l2) \<and>
    cll.ll_rel l2 A2 \<and> cols A2 = cols A \<and> dat A2 = dat A \<and> width A2 = width A \<and> cll.same_cxt l l2"
proof -
  from cll.ll_col_rel [OF assms(1-3)] obtain l1 where l1: "ll_col l (of_nat i) hm = Some ((), l1)"
    "cll.ll_rel l1 (A\<lparr>sel := i\<rparr>)" "cll.same_cxt l l1" by auto
  have "k < width (A\<lparr>sel := i\<rparr>)" "a \<in> set (cols (A\<lparr>sel := i\<rparr>) k)" using assms(4,5) by simp_all
  from cll.ll_sel_rel [OF l1(2) cll.ready_same [OF l1(3,2) assms(2)] this] obtain l2 where
    "ll_sel l1 a hm = Some (k = i, l2)"
      "cll.ll_rel l2 (if k = i then cursor (A\<lparr>sel := i\<rparr>) (Some a) else A\<lparr>sel := i\<rparr>)" "cll.same_cxt l1 l2" by auto
  moreover have "cll.same_cxt l l2" using l1(3) calculation(3) cll.same_cxt_trans by blast
  ultimately show ?thesis using l1(1) unfolding cLlist_col_def cLlist_sel_def
    by (intro exI [of _ l1] exI [of _ l2] exI [of _ "if k = i then cursor (A\<lparr>sel := i\<rparr>) (Some a) else A\<lparr>sel := i\<rparr>"])
       (simp add: cursor_def)
qed

lemma pool_free_rel:
  assumes rel: "pool_rel p A" and room: "length (free_recs A) + 1 < 2 ^ 32" and a: "a \<in> set (busy_recs A)"
  shows "\<exists>r p' A'. pool_free a p = Some (r, p') \<and> pool_rel p' A' \<and>
    (m_data_size p' = m_data_size p \<and> mp_cb p' = mp_cb p \<and> busy_recs A' = remove1 a (busy_recs A) \<and>
     free_recs A' = free_recs A @ [a] \<and> (\<forall>b. b \<noteq> a \<longrightarrow> dat A' b = dat A b))"
  unfolding pool_free_def
proof (rule pool_bracket [OF rel], goal_cases)
  case (1 hm l)
  have w: "0 < width A" "1 < width A" using rel by (simp_all add: pool_rel_def)
  from col_sel_rel [OF 1 w(2,2) a [unfolded busy_recs_def]] obtain l1 l2 A2 where
    l2: "cLlist_col l COL_BUSY hm = Some ((), l1)" "cLlist_sel l1 a hm = Some (True, l2)" "cll.ll_rel l2 A2"
      "cols A2 = cols A" "dat A2 = dat A" "width A2 = width A" "cll.same_cxt l l2" unfolding col_of_nat by auto
  from cb_mov_rel [OF l2(3) cll.ready_same [OF l2(7,3) 1(2)], of 1 a 0 POOL_OP_FREE p] w room a obtain l3 l4 where
    l4: "pool_cb POOL_OP_FREE a p l2 = Some (p\<lparr>mp_udata := snd (called_back p POOL_OP_FREE a A2)\<rparr>, l3)"
      "cLlist_mov l3 a COL_FREE hm = Some (True, l4)" "cll.ll_rel l4 (a_mov (fst (called_back p POOL_OP_FREE a A2)) a 1 0)"
      "cll.same_cxt l2 l4" unfolding col_of_nat l2(4,6) recs_defs by auto
  have "cll.same_cxt l l4" using l2(7) l4(4) cll.same_cxt_trans by blast
  then show ?case using l2(1,2,4-6) l4(1-3)
    by (intro exI [of _ "()"] exI [of _ l4] exI [of _ "a_mov (fst (called_back p POOL_OP_FREE a A2)) a 1 0"]
          exI [of _ "p\<lparr>mp_udata := snd (called_back p POOL_OP_FREE a A2)\<rparr>"])
       (simp add: recs_defs a_mov_def a_unlink_def)
qed simp

text \<open>The assertion stops a record that is released twice.\<close>

lemma pool_free_twice_rel:
  assumes rel: "pool_rel p A" and a: "a \<in> set (free_recs A)"
  shows "pool_free a p = None"
proof -
  have w: "0 < width A" "1 < width A" using rel by (simp_all add: pool_rel_def)
  obtain l where l: "mpi_list p = Some l" "cll.ll_rel l A" "cll.ready (p_udata l) 0"
    using rel by (auto simp: pool_rel_def split: option.splits)
  obtain hm u1 where u: "cLlist_lock 0 (p_udata l) = Some (hm, u1)" "cll.ll_rel (l\<lparr>p_udata := u1\<rparr>) A" "cll.ready u1 hm"
    using cll.session [OF l(2,3)] by metis
  have "cll.ready (p_udata (l\<lparr>p_udata := u1\<rparr>)) hm" using u(3) by simp
  from col_sel_rel [OF u(2) this w(2,1) a [unfolded free_recs_def]] show ?thesis
    using l(1) u(1) unfolding col_of_nat by (auto simp: pool_free_def pool_locked_def col_of_nat)
qed

lemma free_all_loop_rel:
  assumes "cll.ll_rel l A" "cll.ready (p_udata l) hm" "width A = 2" "sel A = 1"
    "length (cols A 1) < n" "length (cols A 0) + length (cols A 1) < 2 ^ 32"
  shows "\<exists>p' l' A'. free_all_loop n hm p l = Some ((), p', l') \<and> cll.ll_rel l' A' \<and> cll.same_cxt l l' \<and> width A' = width A \<and>
    (m_data_size p' = m_data_size p \<and> mp_cb p' = mp_cb p \<and> busy_recs A' = [] \<and> free_recs A' = free_recs A @ busy_recs A)"
  using assms
proof (induction n arbitrary: l A p)
  case 0
  then show ?case by simp
next
  case (Suc n)
  from cll.ll_first_rel [OF Suc.prems(1,2)] obtain l1 where
    l1: "cLlist_first l hm = Some (sized A (hdp (cols A 1) None), l1)" "cll.ll_rel l1 (a_first A)" "cll.same_cxt l l1"
    using Suc.prems(4) by (auto simp: scol_def cLlist_first_def)
  show ?case
  proof (cases "cols A 1")
    case Nil
    then have "a_first A = A" using Suc.prems(4) by (simp add: a_first_def scol_def)
    then show ?thesis using l1 Nil
      by (intro exI [of _ p] exI [of _ l1] exI [of _ A]) (simp add: sized_def recs_defs)
  next
    case (Cons a xs)
    let ?A = "a_first A"
    have cA: "cols ?A = cols A" "width ?A = width A" "sel ?A = sel A" by (simp_all add: a_first_def cursor_def)
    from cb_mov_rel [OF l1(2) cll.ready_same [OF l1(3,2) Suc.prems(2)], of 1 a 0 POOL_OP_FREE p] Cons Suc.prems(3,6) obtain l2 l3 where
      l3: "pool_cb POOL_OP_FREE a p l1 = Some (p\<lparr>mp_udata := snd (called_back p POOL_OP_FREE a ?A)\<rparr>, l2)"
        "cLlist_mov l2 a COL_FREE hm = Some (True, l3)" "cll.ll_rel l3 (a_mov (fst (called_back p POOL_OP_FREE a ?A)) a 1 0)"
        "cll.same_cxt l1 l3" unfolding cA col_of_nat by auto
    let ?A3 = "a_mov (fst (called_back p POOL_OP_FREE a ?A)) a 1 0"
    have A3: "cols ?A3 1 = xs" "cols ?A3 0 = cols A 0 @ [a]" "width ?A3 = width A" "sel ?A3 = sel A"
      using Cons cA by (simp_all add: a_mov_def a_unlink_def)
    have s3: "cll.same_cxt l l3" using l1(3) l3(4) cll.same_cxt_trans by blast
    from Suc.IH [OF l3(3) cll.ready_same [OF s3 l3(3) Suc.prems(2)], of "p\<lparr>mp_udata := snd (called_back p POOL_OP_FREE a ?A)\<rparr>"]
      A3 Suc.prems(3-6) Cons obtain p' l' A' where IH: "free_all_loop n hm (p\<lparr>mp_udata := snd (called_back p POOL_OP_FREE a ?A)\<rparr>) l3 = Some ((), p', l')"
        "cll.ll_rel l' A'" "cll.same_cxt l3 l'" "width A' = width A" "m_data_size p' = m_data_size p" "mp_cb p' = mp_cb p"
        "busy_recs A' = []" "free_recs A' = free_recs A @ busy_recs A"
      by (auto simp: recs_defs)
    have "cll.same_cxt l l'" using s3 IH(3) cll.same_cxt_trans by blast
    then show ?thesis using l1(1) l3(1,2) IH Cons
      by (intro exI [of _ p'] exI [of _ l'] exI [of _ A']) (simp add: sized_def)
  qed
qed

lemma pool_free_all_rel:
  assumes rel: "pool_rel p A" and n: "length (busy_recs A) < n" and room: "length (free_recs A) + length (busy_recs A) < 2 ^ 32"
  shows "\<exists>r p' A'. pool_free_all n p = Some (r, p') \<and> pool_rel p' A' \<and>
    (m_data_size p' = m_data_size p \<and> mp_cb p' = mp_cb p \<and> busy_recs A' = [] \<and> free_recs A' = free_recs A @ busy_recs A)"
  unfolding pool_free_all_def pool_free_all_at_def
proof (rule pool_bracket [OF rel], goal_cases)
  case (1 hm l)
  have w: "width A = 2" using rel by (simp add: pool_rel_def)
  from cll.ll_col_rel [OF 1, of 1] w obtain l1 where l1: "ll_col l (of_nat 1) hm = Some ((), l1)"
    "cll.ll_rel l1 (A\<lparr>sel := 1\<rparr>)" "cll.same_cxt l l1" by auto
  from free_all_loop_rel [OF l1(2) cll.ready_same [OF l1(3,2) 1(2)], of n p] w n room
  obtain p' l' A' where "free_all_loop n hm p l1 = Some ((), p', l')" "cll.ll_rel l' A'" "cll.same_cxt l1 l'" "width A' = width A"
    "m_data_size p' = m_data_size p \<and> mp_cb p' = mp_cb p \<and> busy_recs A' = [] \<and> free_recs A' = free_recs A @ busy_recs A"
    by (auto simp: recs_defs)
  moreover from this have "cll.same_cxt l l'" using l1(3) cll.same_cxt_trans by blast
  ultimately show ?case using l1(1)
    by (intro exI [of _ "()"] exI [of _ p'] exI [of _ l'] exI [of _ A']) (simp add: cLlist_col_def col_of_nat)
qed simp

section \<open>Properties\<close>

text \<open>C14: \<open>alloc\<close> of a pool returns, and never hands out a record that is in use: it takes the first free record, or,
  when none is free, exactly what the heap answers to the request for a record; it adds that record to the ones in use
  and leaves the contents of all others as they are. It gives NULL only when no record is free and the heap has answered
  NULL.\<close>

theorem pool_alloc_exclusive:
  assumes "pool_rel p A" "length (busy_recs A) + 1 < 2 ^ 32" "zone_fits (m_data_size p + sizeof_ll_item_hdr)"
  shows "\<exists>r p' A'. pool_alloc z p = Some (r, p') \<and> pool_rel p' A' \<and>
    (m_data_size p' = m_data_size p \<and> mp_cb p' = mp_cb p \<and> allocated (heap_answer (m_data_size p) (pool_heap p)) r A A')"
  by (rule pool_alloc_rel [OF assms])

text \<open>C40: \<open>free\<close> of a pool gives a record in use back: it goes to the end of the free records, all other records keep
  their contents, and releasing it a second time stops at the assertion.\<close>

theorem pool_free_gives_back:
  assumes "pool_rel p A" "length (free_recs A) + 1 < 2 ^ 32" "a \<in> set (busy_recs A)"
  shows "\<exists>p' A'. pool_free a p = Some ((), p') \<and> pool_rel p' A' \<and> busy_recs A' = remove1 a (busy_recs A) \<and>
     free_recs A' = free_recs A @ [a] \<and> (\<forall>b. b \<noteq> a \<longrightarrow> dat A' b = dat A b) \<and> pool_free a p' = None"
proof -
  from pool_free_rel [OF assms] obtain p' A' where "pool_free a p = Some ((), p')" "pool_rel p' A'"
    "busy_recs A' = remove1 a (busy_recs A)" "free_recs A' = free_recs A @ [a]" "\<forall>b. b \<noteq> a \<longrightarrow> dat A' b = dat A b" by auto
  moreover have "pool_free a p' = None" using pool_free_twice_rel [OF calculation(2), of a] calculation(4) by simp
  ultimately show ?thesis by blast
qed

section \<open>A pool at work\<close>

definition cLlist_1 :: "'a cLlist" where
  "cLlist_1 = \<lparr>self = 0x5000, mode = 0, p_alloc = None, p_free = None, p_lock = None, p_unlock = None,
     p_udata = \<lparr>mpi_mutex = Some \<lparr>cm_self = 0x4000, m_spinlock = \<lparr>status = False\<rparr>, cm_lcount = 0, cm_hcount = 0\<rparr>,
       mpi_heap = None, m_my_heap = False\<rparr>,
     addr_limit = 0, ccol = 0, ncol = 0, state = None, heap = Map.empty\<rparr>"

text \<open>A pool of counters: the callback clears a record that is given back and counts the calls.\<close>

definition pool_1 :: "(nat, nat) cPool" where
  "pool_1 = snd (the (pool_init 8 (Some (\<lambda>op a (d, n). (if op = POOL_OP_FREE then 0 else d, n + 1))) 0 (Some zheap_1)
     (Some cLlist_1) None \<lparr>mpi_list = None, m_data_size = 0, mp_cb = None, mp_udata = 0\<rparr>))"

text \<open>The heap after the states of the columns have been allocated.\<close>

definition zheap_2 :: cZoneHeap where
  "zheap_2 = zheap_1\<lparr>zones := Some (65536, (replicate 512 [])[7 := [\<lparr>zp_addr = 69648, zp_objects = 1, zp_object_size = 64,
       zp_array = clear_entry\<lparr>bitmap := [0x8000000000000000, 0, 0, 0], ze_data := 73760, ze_objects := 1\<rparr> # replicate 62 clear_entry\<rparr>]]),
     user_data := \<lparr>m_sync = False, m_libc = \<lparr>brk = 77872, room = 397312, blocks = [65536 \<mapsto> 4096, 69648 \<mapsto> 4096, 73760 \<mapsto> 4096]\<rparr>\<rparr>\<rparr>"

lemma zone_page_of_37: "zone_page_of 37 = Some (Some 7, 64)"
proof -
  have "bit_number 64 = Some 7" using bit_number_unique [of 64 6] by simp
  moreover have "align 37 = 64" by code_simp
  ultimately show ?thesis by (simp add: zone_page_of_def ZONE_MAX_ZONES_def)
qed

lemma replicate_eval: "replicate 63 x = x # replicate 62 x" "replicate 4 (0 :: u64) = [0, 0, 0, 0]"
  by (simp_all add: numeral_eq_Suc)

lemma unit_mask_eval: "unit_mask 0 = 0x8000000000000000" "unit_mask (Suc 0) = 0x4000000000000000"
  by (simp_all add: unit_mask_def ZONE_BITMAP_UNIT_BITS_def push_bit_eq_mult drop_bit_eq_div)

lemma second_bit: "entry_seek [0x8000000000000000, 0, 0, 0] 64 0 0 0 = Some (1, 0, 1)"
  by (subst entry_seek.simps, subst entry_seek.simps) (simp add: ZONE_BITMAP_UNIT_BITS_def unit_mask_eval)

lemma zheap_1_alloc_64: "cZoneHeap_alloc 64 zheap_1 = Some (Some 73760, zheap_2)"
  apply (simp add: zheap_1_def zheap_2_def zh_init_eval malloc_eval cZoneHeap_alloc_def zone_alloc_def zone_page_of_64
      get_chain_def ZONE_MAX_ZONES_def)
  apply (simp add: zone_lock_def zh_lock_def zone_unlock_def zh_unlock_def set_chain_def)
  apply (simp add: zone_page_alloc_def zone_lock_def zh_lock_def get_chain_def)
  apply (simp add: zone_page_eval malloc_eval zh_page_alloc_def)
  apply (simp add: clear_entry_def entry_seek_clear malloc_eval zh_page_alloc_def Let_def)
  apply (simp add: zone_unlock_def zh_unlock_def set_chain_def replicate_eval unit_mask_eval)
  done

lemma zheap_2_alloc_37: "\<exists>a z. cZoneHeap_alloc 37 zheap_2 = Some (Some a, z)"
  apply (simp add: zheap_1_def zheap_2_def zh_init_eval malloc_eval cZoneHeap_alloc_def zone_alloc_def zone_page_of_37
      get_chain_def ZONE_MAX_ZONES_def)
  apply (simp add: zone_page_alloc_def get_chain_def zone_lock_def zh_lock_def ZONE_PAGE_SIZE_def ZONE_MAX_ENTRIES_def)
  apply (simp add: zone_page_alloc_in_def zone_entry_alloc_def Let_def)
  apply (simp add: clear_entry_def ZONE_PAGE_SIZE_def second_bit)
  apply (simp add: set_chain_def zone_unlock_def zh_unlock_def)
  done

lemmas session_eval = cLlist_lock_def cMutex_lock_def GET_HANDLE_def make_handle_def spinlock_lock_def spinlock_unlock_def
  cLlist_unlock_def cMutex_unlock_def ll_locked_def ll_lock_def ll_unlock_def

lemma pool_1_alloc: "\<exists>a p. pool_alloc 0 pool_1 = Some (Some a, p)"
  apply (simp add: pool_1_def pool_init_def cLlist_init_def cLlist_1_def ll_init_def session_eval mem_alloc_def
      sizeof_ll_state_def zheap_1_alloc_64)
  apply (simp add: pool_alloc_def pool_locked_def session_eval)
  apply (simp add: COL_FREE_def COL_BUSY_def cLlist_col_def ll_col_def session_eval)
  apply (simp add: cLlist_first_def ll_first_def session_eval get_st_def zero_state_def with_size_def)
  apply (simp add: COL_FREE_def COL_BUSY_def cLlist_col_def ll_col_def session_eval)
  apply (insert zheap_2_alloc_37)
  apply (elim exE)
  apply (simp add: cLlist_add_new_def ll_new_def ll_append_def alloc_item_def mem_alloc_def sizeof_ll_item_hdr_def)
  apply (simp add: session_eval get_st_def put_st_def zero_state_def set_next_def set_prev_def)
  apply (simp add: LL_MODE_VECTOR_def LL_MODE_RING_def put_item_def pool_cb_def)
  apply (simp add: session_eval)
  done

lemma pool_1_rel: "pool_rel pool_1 (ll_empty 2)" "m_data_size pool_1 = 8"
proof -
  let ?l = "cLlist_1 :: nat cLlist"
  let ?m = "\<lparr>cm_self = 0x4000, m_spinlock = \<lparr>status = False\<rparr>, cm_lcount = 0, cm_hcount = 0\<rparr>"
  have "mpi_mutex (p_udata ?l) = Some ?m" "cMutex_ok ?m" "cMutex_owner ?m = None" "zone_fits (ucast (of_nat 2 :: u8) * sizeof_ll_state)"
    by (simp_all add: cLlist_1_def cMutex_ok_def cMutex_owner_def zone_fits_def sizeof_ll_state_def)
  from cLlist_init_rel [OF this(1-3) zheap_1_ok _ _ this(4), of None] obtain r and l :: "nat cLlist" where
    l: "cLlist_init ?l LL_MODE_VECTOR 2 (Some zheap_1) None = Some (r, l)"
      "r \<longrightarrow> cll.ll_rel l (ll_empty 2) \<and> cll.ready (p_udata l) 0" by auto
  have "r = True" using l(1)
    by (simp add: zheap_1_alloc_64 cLlist_init_def cLlist_1_def ll_init_def ll_locked_def ll_lock_def cLlist_lock_def cMutex_lock_def
      GET_HANDLE_def make_handle_def spinlock_lock_def mem_alloc_def sizeof_ll_state_def bind_Some_iff Let_def split: if_splits)
  then show "pool_rel pool_1 (ll_empty 2)" "m_data_size pool_1 = 8"
    using l by (simp_all add: pool_1_def pool_init_def pool_rel_def ll_empty_def)
qed

text \<open>The heap has memory: the pool of counters gets a new record, which is the only one in use.\<close>

theorem pool_alloc_exclusive_witness:
  "\<exists>a p' A'. pool_alloc 0 pool_1 = Some (Some a, p') \<and> pool_rel p' A' \<and> heap_answer 8 (pool_heap pool_1) = Some (Some a) \<and>
    busy_recs A' = [a] \<and> free_recs A' = []"
proof -
  obtain a p1 where a: "pool_alloc 0 pool_1 = Some (Some a, p1)" using pool_1_alloc by blast
  have "length (busy_recs (ll_empty 2)) + 1 < 2 ^ 32" "zone_fits (m_data_size pool_1 + sizeof_ll_item_hdr)"
    by (simp_all add: ll_empty_def busy_recs_def pool_1_rel(2) zone_fits_def sizeof_ll_item_hdr_def)
  from pool_alloc_exclusive [OF pool_1_rel(1) this, of 0] a obtain A where
    "pool_rel p1 A" "allocated (heap_answer 8 (pool_heap pool_1)) (Some a) (ll_empty 2) A" by (auto simp: pool_1_rel(2))
  then show ?thesis using a by (auto simp: allocated_def recs_defs ll_empty_def)
qed

theorem pool_free_gives_back_witness:
  "\<exists>a p1 p2. pool_alloc 0 pool_1 = Some (Some a, p1) \<and> pool_free a p1 = Some ((), p2) \<and> pool_free a p2 = None"
proof -
  obtain a p1 where p1: "pool_alloc 0 pool_1 = Some (Some a, p1)" using pool_1_alloc by blast
  have "length (busy_recs (ll_empty 2)) + 1 < 2 ^ 32" "zone_fits (m_data_size pool_1 + sizeof_ll_item_hdr)"
    by (simp_all add: ll_empty_def busy_recs_def pool_1_rel(2) zone_fits_def sizeof_ll_item_hdr_def)
  from pool_alloc_rel [OF pool_1_rel(1) this, of 0] p1 obtain A where
    A: "pool_rel p1 A" "allocated (heap_answer (m_data_size pool_1) (pool_heap pool_1)) (Some a) (ll_empty 2) A" by auto
  have "length (free_recs A) + 1 < 2 ^ 32" "a \<in> set (busy_recs A)"
    using A(2) by (simp_all add: allocated_def recs_defs ll_empty_def)
  from pool_free_gives_back [OF A(1) this] show ?thesis using p1 by blast
qed

end
