(* ===== verification/Buffers.thy ===== *)
theory Buffers
  imports Pools LlLive
begin

text \<open>
  Buffer maps: core/mem/bmap.cpp. A buffer is a record in one of three columns of a list, and a block of the same heap.
  A handle is the address of the record. What the callback and the bytes of the blocks are is the state \<open>b_io\<close>.
\<close>

section \<open>cBufferMap\<close>

datatype bio_op = BIO_INIT | BIO_READ | BIO_WRITE | BIO_UNINIT

definition BFREE :: u8 where "BFREE = 0"
definition BBUSY :: u8 where "BBUSY = 1"
definition BDIRTY :: u8 where "BDIRTY = 2"
definition MAX_UDATA64_INDEX :: u8 where "MAX_UDATA64_INDEX = 3"
definition sizeof_buffer :: u32 where "sizeof_buffer = 41"

text \<open>\<open>state\<close>, \<open>ptr\<close>, \<open>udata\<close> and \<open>udata64\<close> of \<open>_buffer_t\<close>.\<close>

record 'd buffer =
  b_state :: u8
  b_ptr :: addr
  b_udata :: 'd
  b_udata64 :: "u64 list"

record ('d, 's) cBufferMap =
  b_list :: "'d buffer cLlist option"
  m_bsize :: u32
  m_pcb_bio :: "(bio_op \<Rightarrow> addr \<Rightarrow> u32 \<Rightarrow> 'd \<Rightarrow> 's \<Rightarrow> 's) option"
  b_io :: 's

definition get_buffer :: "'d buffer cLlist \<Rightarrow> addr \<Rightarrow> 'd buffer option" where
  "get_buffer l a = do { it \<leftarrow> heap l a; Some (it_data it) }"

definition pcb_bio :: "bio_op \<Rightarrow> 'd buffer \<Rightarrow> ('d, 's) cBufferMap \<Rightarrow> ('d, 's) cBufferMap" where
  "pcb_bio op b m = (case m_pcb_bio m of None \<Rightarrow> m | Some f \<Rightarrow> m\<lparr>b_io := f op (b_ptr b) (m_bsize m) (b_udata b) (b_io m)\<rparr>)"

text \<open>\<open>mpi_heap->alloc\<close> and \<open>mpi_heap->free\<close>: the heap that the list has, too.\<close>

definition heap_alloc :: "'d buffer cLlist \<Rightarrow> u32 \<Rightarrow> (ptr \<times> 'd buffer cLlist) option" where
  "heap_alloc l sz = do {
     z \<leftarrow> mpi_heap (p_udata l);
     (p, z) \<leftarrow> cZoneHeap_alloc sz z;
     Some (p, l\<lparr>p_udata := (p_udata l)\<lparr>mpi_heap := Some z\<rparr>\<rparr>) }"

definition heap_free :: "'d buffer cLlist \<Rightarrow> addr \<Rightarrow> u32 \<Rightarrow> 'd buffer cLlist option" where
  "heap_free l p sz = do {
     z \<leftarrow> mpi_heap (p_udata l);
     z \<leftarrow> cZoneHeap_free False p sz z;
     Some (l\<lparr>p_udata := (p_udata l)\<lparr>mpi_heap := Some z\<rparr>\<rparr>) }"

definition bmap_locked :: "(u64 \<Rightarrow> ('d, 's) cBufferMap \<Rightarrow> 'd buffer cLlist \<Rightarrow> ('r \<times> ('d, 's) cBufferMap \<times> 'd buffer cLlist) option) \<Rightarrow>
    ('d, 's) cBufferMap \<Rightarrow> ('r \<times> ('d, 's) cBufferMap) option" where
  "bmap_locked f m = do {
     l \<leftarrow> b_list m;
     (hm, u) \<leftarrow> cLlist_lock 0 (p_udata l);
     (r, m, l) \<leftarrow> f hm m (l\<lparr>p_udata := u\<rparr>);
     u \<leftarrow> cLlist_unlock hm (p_udata l);
     Some (r, m\<lparr>b_list := Some (l\<lparr>p_udata := u\<rparr>)\<rparr>) }"

fun uninit_loop :: "nat \<Rightarrow> u64 \<Rightarrow> (addr \<times> u32) option \<Rightarrow> ('d, 's) cBufferMap \<Rightarrow> 'd buffer cLlist \<Rightarrow>
    (('d, 's) cBufferMap \<times> 'd buffer cLlist) option" where
  "uninit_loop n hm None m l = Some (m, l)"
| "uninit_loop 0 hm (Some r) m l = None"
| "uninit_loop (Suc n) hm (Some (a, sz)) m l = do {
     b \<leftarrow> get_buffer l a;
     let m = pcb_bio BIO_UNINIT b m;
     l \<leftarrow> heap_free l (b_ptr b) (m_bsize m);
     (_, l) \<leftarrow> cLlist_del l hm;
     (r, l) \<leftarrow> cLlist_current l hm;
     uninit_loop n hm r m l }"

definition uninit_llist :: "nat \<Rightarrow> u8 \<Rightarrow> u64 \<Rightarrow> ('d, 's) cBufferMap \<Rightarrow> 'd buffer cLlist \<Rightarrow>
    (('d, 's) cBufferMap \<times> 'd buffer cLlist) option" where
  "uninit_llist n k hm m l = do {
     (_, l) \<leftarrow> cLlist_col l k hm;
     (r, l) \<leftarrow> cLlist_first l hm;
     uninit_loop n hm r m l }"

text \<open>\<open>got\<close> is the list that the repository hands out; \<open>pi_heap\<close> the heap given, or else the one of the repository.
  A null heap is left to the list's own lookup.\<close>

definition bmap_init :: "u32 \<Rightarrow> (bio_op \<Rightarrow> addr \<Rightarrow> u32 \<Rightarrow> 'd \<Rightarrow> 's \<Rightarrow> 's) option \<Rightarrow> cZoneHeap option \<Rightarrow> 'd buffer cLlist option \<Rightarrow>
    cZoneHeap option \<Rightarrow> ('d, 's) cBufferMap \<Rightarrow> ('d, 's) cBufferMap option" where
  "bmap_init sz cb pi_heap got repo_heap m =
     (if m_bsize m = 0 then do {
        l \<leftarrow> (case got of
               None \<Rightarrow> Some None
             | Some l \<Rightarrow> do {
                 (_, l) \<leftarrow> cLlist_init l LL_MODE_VECTOR 3 (if pi_heap = None then repo_heap else pi_heap) repo_heap;
                 Some (Some l) });
        Some (m\<lparr>b_list := l, m_bsize := sz, m_pcb_bio := cb\<rparr>) }
      else Some m)"

definition bmap_uninit :: "nat \<Rightarrow> ('d, 's) cBufferMap \<Rightarrow> (unit \<times> ('d, 's) cBufferMap) option" where
  "bmap_uninit n m =
     (if m_bsize m \<noteq> 0 then
        bmap_locked (\<lambda>hm m l. do {
          (m, l) \<leftarrow> uninit_llist n BFREE hm m l;
          (m, l) \<leftarrow> uninit_llist n BBUSY hm m l;
          (m, l) \<leftarrow> uninit_llist n BDIRTY hm m l;
          Some ((), m\<lparr>m_bsize := 0, m_pcb_bio := None\<rparr>, l) }) m
      else Some ((), m))"

definition bmap_object_ctl :: "nat \<Rightarrow> octl \<Rightarrow> ('d, 's) cBufferMap \<Rightarrow> (bool \<times> ('d, 's) cBufferMap) option" where
  "bmap_object_ctl n cmd m =
     (case cmd of
        OCTL_INIT \<Rightarrow> Some (True, m\<lparr>m_bsize := 0, m_pcb_bio := None, b_list := None\<rparr>)
      | OCTL_UNINIT \<Rightarrow> do { (_, m) \<leftarrow> bmap_uninit n m; Some (True, m\<lparr>b_list := None\<rparr>) }
      | _ \<Rightarrow> Some (False, m))"

text \<open>\<open>junk\<close> is what the array of a new buffer holds: the local variable is not initialised.\<close>

definition bmap_alloc :: "u64 list \<Rightarrow> 'd \<Rightarrow> ('d, 's) cBufferMap \<Rightarrow> (ptr \<times> ('d, 's) cBufferMap) option" where
  "bmap_alloc junk ud m = bmap_locked (\<lambda>hm m l.
     if m_bsize m \<noteq> 0 then do {
       (_, l) \<leftarrow> cLlist_col l BFREE hm;
       (r, l) \<leftarrow> cLlist_first l hm;
       (case r of
          Some (a, sz) \<Rightarrow> do {
            (moved, l) \<leftarrow> cLlist_mov l a BBUSY hm;
            if moved then do {
              b \<leftarrow> get_buffer l a;
              let b = b\<lparr>b_udata := ud, b_state := BBUSY\<rparr>;
              l \<leftarrow> put_item l a b;
              Some (Some a, pcb_bio BIO_INIT b m, l) }
            else Some (None, m, l) }
        | None \<Rightarrow> do {
            (p, l) \<leftarrow> heap_alloc l (m_bsize m);
            (case p of
               None \<Rightarrow> Some (None, m, l)
             | Some p \<Rightarrow> do {
                 let b = \<lparr>b_state = BBUSY, b_ptr = p, b_udata = ud, b_udata64 = junk\<rparr>;
                 (_, l) \<leftarrow> cLlist_col l BBUSY hm;
                 (r, l) \<leftarrow> cLlist_add l b sizeof_buffer hm;
                 Some (r, pcb_bio BIO_INIT b m, l) }) }) }
     else Some (None, m, l)) m"

definition bmap_free :: "ptr \<Rightarrow> ('d, 's) cBufferMap \<Rightarrow> (unit \<times> ('d, 's) cBufferMap) option" where
  "bmap_free hb m =
     (case hb of
        None \<Rightarrow> Some ((), m)
      | Some a \<Rightarrow>
          if b_list m = None then Some ((), m)
          else bmap_locked (\<lambda>hm m l.
            if m_bsize m \<noteq> 0 then do {
              b \<leftarrow> get_buffer l a;
              let m = (if b_state b = BDIRTY then pcb_bio BIO_WRITE b m else m);
              let m = pcb_bio BIO_UNINIT b m;
              (moved, l) \<leftarrow> cLlist_mov l a BFREE hm;
              if moved then do { b \<leftarrow> get_buffer l a; l \<leftarrow> put_item l a (b\<lparr>b_state := BFREE\<rparr>); Some ((), m, l) }
              else Some ((), m, l) }
            else Some ((), m, l)) m)"

definition bmap_ptr :: "ptr \<Rightarrow> ('d, 's) cBufferMap \<Rightarrow> ptr option" where
  "bmap_ptr hb m = (case hb of None \<Rightarrow> Some None
     | Some a \<Rightarrow> do { l \<leftarrow> b_list m; b \<leftarrow> get_buffer l a; Some (Some (b_ptr b)) })"

definition bmap_dirty :: "ptr \<Rightarrow> ('d, 's) cBufferMap \<Rightarrow> (unit \<times> ('d, 's) cBufferMap) option" where
  "bmap_dirty hb m =
     (case hb of
        None \<Rightarrow> Some ((), m)
      | Some a \<Rightarrow>
          if b_list m = None then Some ((), m)
          else bmap_locked (\<lambda>hm m l.
            if m_bsize m \<noteq> 0 then do {
              (moved, l) \<leftarrow> cLlist_mov l a BDIRTY hm;
              if moved then do { b \<leftarrow> get_buffer l a; l \<leftarrow> put_item l a (b\<lparr>b_state := BDIRTY\<rparr>); Some ((), m, l) }
              else Some ((), m, l) }
            else Some ((), m, l)) m)"

text \<open>The accessors work on the record without the lock.\<close>

definition on_buffer :: "addr \<Rightarrow> ('d buffer \<Rightarrow> 'd buffer) \<Rightarrow> ('d, 's) cBufferMap \<Rightarrow> ('d, 's) cBufferMap option" where
  "on_buffer a f m = do { l \<leftarrow> b_list m; b \<leftarrow> get_buffer l a; l \<leftarrow> put_item l a (f b); Some (m\<lparr>b_list := Some l\<rparr>) }"

definition get_udata :: "ptr \<Rightarrow> ('d, 's) cBufferMap \<Rightarrow> 'd option option" where
  "get_udata hb m = (case hb of None \<Rightarrow> Some None
     | Some a \<Rightarrow> do { l \<leftarrow> b_list m; b \<leftarrow> get_buffer l a; Some (Some (b_udata b)) })"

definition set_udata :: "ptr \<Rightarrow> 'd \<Rightarrow> ('d, 's) cBufferMap \<Rightarrow> ('d, 's) cBufferMap option" where
  "set_udata hb ud m = (case hb of None \<Rightarrow> Some m | Some a \<Rightarrow> on_buffer a (\<lambda>b. b\<lparr>b_udata := ud\<rparr>) m)"

definition set_udata64 :: "addr \<Rightarrow> u64 \<Rightarrow> u8 \<Rightarrow> ('d, 's) cBufferMap \<Rightarrow> ('d, 's) cBufferMap option" where
  "set_udata64 a v i m =
     (if i < MAX_UDATA64_INDEX then on_buffer a (\<lambda>b. b\<lparr>b_udata64 := (b_udata64 b)[unat i := v]\<rparr>) m else Some m)"

definition get_udata64 :: "addr \<Rightarrow> u8 \<Rightarrow> ('d, 's) cBufferMap \<Rightarrow> u64 option" where
  "get_udata64 a i m =
     (if i < MAX_UDATA64_INDEX then do { l \<leftarrow> b_list m; b \<leftarrow> get_buffer l a; Some (b_udata64 b ! unat i) } else Some 0)"

definition bmap_size :: "('d, 's) cBufferMap \<Rightarrow> u32" where
  "bmap_size m = m_bsize m"

text \<open>\<open>reset\<close> and \<open>flush\<close> differ in the operation only.\<close>

definition sync_one :: "bio_op \<Rightarrow> addr \<Rightarrow> u64 \<Rightarrow> ('d, 's) cBufferMap \<Rightarrow> 'd buffer cLlist \<Rightarrow>
    (unit \<times> ('d, 's) cBufferMap \<times> 'd buffer cLlist) option" where
  "sync_one op a hm m l = do {
     b \<leftarrow> get_buffer l a;
     let m = (if b_state b \<noteq> BFREE then pcb_bio op b m else m);
     if b_state b = BDIRTY then do {
       (moved, l) \<leftarrow> cLlist_mov l a BBUSY hm;
       if moved then do { b \<leftarrow> get_buffer l a; l \<leftarrow> put_item l a (b\<lparr>b_state := BBUSY\<rparr>); Some ((), m, l) }
       else Some ((), m, l) }
     else Some ((), m, l) }"

fun sync_loop :: "bio_op \<Rightarrow> nat \<Rightarrow> u64 \<Rightarrow> (addr \<times> u32) option \<Rightarrow> ('d, 's) cBufferMap \<Rightarrow> 'd buffer cLlist \<Rightarrow>
    (unit \<times> ('d, 's) cBufferMap \<times> 'd buffer cLlist) option" where
  "sync_loop op n hm None m l = Some ((), m, l)"
| "sync_loop op 0 hm (Some r) m l = None"
| "sync_loop op (Suc n) hm (Some (a, sz)) m l = do {
     b \<leftarrow> get_buffer l a;
     let m = pcb_bio op b m;
     (moved, l) \<leftarrow> cLlist_mov l a BBUSY hm;
     (r, l) \<leftarrow> (if moved then do {
                 b \<leftarrow> get_buffer l a;
                 l \<leftarrow> put_item l a (b\<lparr>b_state := BBUSY\<rparr>);
                 cLlist_current l hm }
               else cLlist_next l hm);
     sync_loop op n hm r m l }"

definition bmap_sync :: "bio_op \<Rightarrow> nat \<Rightarrow> ptr \<Rightarrow> ('d, 's) cBufferMap \<Rightarrow> (unit \<times> ('d, 's) cBufferMap) option" where
  "bmap_sync op n hb m = bmap_locked (\<lambda>hm m l.
     if m_bsize m \<noteq> 0 then
       (case hb of
          Some a \<Rightarrow> sync_one op a hm m l
        | None \<Rightarrow> do {
            (_, l) \<leftarrow> cLlist_col l BDIRTY hm;
            (r, l) \<leftarrow> cLlist_first l hm;
            sync_loop op n hm r m l })
     else Some ((), m, l)) m"

definition bmap_reset :: "nat \<Rightarrow> ptr \<Rightarrow> ('d, 's) cBufferMap \<Rightarrow> (unit \<times> ('d, 's) cBufferMap) option" where
  "bmap_reset n hb m = bmap_sync BIO_READ n hb m"

definition bmap_flush :: "nat \<Rightarrow> ptr \<Rightarrow> ('d, 's) cBufferMap \<Rightarrow> (unit \<times> ('d, 's) cBufferMap) option" where
  "bmap_flush n hb m = bmap_sync BIO_WRITE n hb m"

record bmap_status_t =
  b_size :: u32
  b_all :: u32
  b_free :: u32
  b_busy :: u32
  b_dirty :: u32

definition bmap_count :: "u8 \<Rightarrow> u64 \<Rightarrow> 'd buffer cLlist \<Rightarrow> (u32 \<times> 'd buffer cLlist) option" where
  "bmap_count k hm l = do { (_, l) \<leftarrow> cLlist_col l k hm; cLlist_cnt l hm }"

definition bmap_status :: "('d, 's) cBufferMap \<Rightarrow> (bmap_status_t \<times> ('d, 's) cBufferMap) option" where
  "bmap_status m = bmap_locked (\<lambda>hm m l. do {
     (f, l) \<leftarrow> bmap_count BFREE hm l;
     (b, l) \<leftarrow> bmap_count BBUSY hm l;
     (d, l) \<leftarrow> bmap_count BDIRTY hm l;
     Some (\<lparr>b_size = bmap_size m, b_all = f + b + d, b_free = f, b_busy = b, b_dirty = d\<rparr>, m, l) }) m"

section \<open>A buffer map as three columns\<close>

definition buffer_of :: "'d buffer ll_abs \<Rightarrow> addr \<Rightarrow> 'd buffer" where
  "buffer_of A a = snd (the (dat A a))"

definition in_state :: "'d buffer ll_abs \<Rightarrow> nat \<Rightarrow> addr \<Rightarrow> bool" where
  "in_state A k a \<longleftrightarrow> dat A a \<noteq> None \<and> b_state (buffer_of A a) = of_nat k"

text \<open>Every buffer has a block of its own, which is neither a record nor the states of the columns.\<close>

definition recs :: "'d buffer ll_abs \<Rightarrow> addr set" where
  "recs A = (\<Union>k < 3. set (cols A k))"

lemma recs_eq: "recs A = set (cols A 0) \<union> set (cols A 1) \<union> set (cols A 2)"
  by (auto simp: recs_def lessThan_Suc numeral_3_eq_3 numeral_2_eq_2)

definition block :: "'d buffer ll_abs \<Rightarrow> addr \<Rightarrow> addr" where
  "block A a = b_ptr (buffer_of A a)"

definition blocks_ok :: "'d buffer cLlist \<Rightarrow> 'd buffer ll_abs \<Rightarrow> u32 \<Rightarrow> bool" where
  "blocks_ok l A sz \<longleftrightarrow> inj_on (block A) (recs A) \<and>
     (\<forall>a \<in> recs A. llist_live (p_udata l) (block A a) = Some (align sz) \<and> block A a \<notin> recs A \<and> state_addr l \<noteq> Some (block A a))"

definition bufs_ok :: "'d buffer cLlist \<Rightarrow> 'd buffer ll_abs \<Rightarrow> u32 \<Rightarrow> bool" where
  "bufs_ok l A sz \<longleftrightarrow> cll.ll_rel l A \<and> width A = 3 \<and> (\<forall>k < 3. \<forall>a \<in> set (cols A k). in_state A k a) \<and> blocks_ok l A sz"

definition bmap_rel :: "('d, 's) cBufferMap \<Rightarrow> 'd buffer ll_abs \<Rightarrow> bool" where
  "bmap_rel m A \<longleftrightarrow> (case b_list m of None \<Rightarrow> False | Some l \<Rightarrow> bufs_ok l A (m_bsize m) \<and> cll.ready (p_udata l) 0)"

lemma blocks_ok_same:
  assumes "blocks_ok l A sz" "recs A' = recs A" "\<And>a. a \<in> recs A \<Longrightarrow> block A' a = block A a"
    and "llist_live (p_udata l') = llist_live (p_udata l)" "state_addr l' = state_addr l"
  shows "blocks_ok l' A' sz"
  using assms inj_on_cong [of "recs A" "block A'" "block A"] unfolding blocks_ok_def by simp

lemma recs_shift:
  assumes "j < 3" "k < 3" "j \<noteq> k" "a \<in> set (cols A j)"
  shows "recs (a_mov A a j k) = recs A"
proof -
  have "x \<in> recs (a_mov A a j k) \<longleftrightarrow> x \<in> recs A" for x
  proof (cases "x = a")
    case True
    then show ?thesis using assms by (auto simp: recs_def a_mov_def a_unlink_def)
  next
    case False
    then have "x \<in> set (cols (a_mov A a j k) i) \<longleftrightarrow> x \<in> set (cols A i)" for i
      using assms(3) by (cases "i = k"; cases "i = j") (simp_all add: a_mov_def a_unlink_def)
    then show ?thesis by (simp add: recs_def)
  qed
  then show ?thesis by blast
qed

lemma bcol_of_nat: "BFREE = of_nat 0" "BBUSY = of_nat 1" "BDIRTY = of_nat 2"
  by (simp_all add: BFREE_def BBUSY_def BDIRTY_def)

text \<open>The effect of one call of the callback on a buffer.\<close>

definition bio_effect :: "('d, 's) cBufferMap \<Rightarrow> bio_op \<Rightarrow> 'd buffer \<Rightarrow> 's \<Rightarrow> 's" where
  "bio_effect m op b s = (case m_pcb_bio m of None \<Rightarrow> s | Some f \<Rightarrow> f op (b_ptr b) (m_bsize m) (b_udata b) s)"

lemma pcb_bio_eq: "pcb_bio op b m = m\<lparr>b_io := bio_effect m op b (b_io m)\<rparr>"
  by (simp add: pcb_bio_def bio_effect_def split: option.splits)

lemma bio_effect_fields [simp]:
  "bio_effect (m\<lparr>b_io := s\<rparr>) = bio_effect m" "bio_effect (m\<lparr>b_list := l\<rparr>) = bio_effect m"
  by (simp_all add: bio_effect_def fun_eq_iff split: option.splits)

lemma bmap_bracket:
  assumes rel: "bmap_rel m A"
    and body: "\<And>hm l. bufs_ok l A (m_bsize m) \<Longrightarrow> cll.ready (p_udata l) hm \<Longrightarrow>
      \<exists>r m' l' A'. f hm m l = Some (r, m', l') \<and> bufs_ok l' A' (m_bsize m') \<and> cll.same_cxt l l' \<and> Q r m' A'"
    and Q: "\<And>r m' A' l. Q r m' A' \<Longrightarrow> Q r (m'\<lparr>b_list := l\<rparr>) A'"
  shows "\<exists>r m' A'. bmap_locked f m = Some (r, m') \<and> bmap_rel m' A' \<and> Q r m' A'"
proof -
  obtain l where l: "b_list m = Some l" "bufs_ok l A (m_bsize m)" "cll.ready (p_udata l) 0"
    using rel by (auto simp: bmap_rel_def split: option.splits)
  then have "cll.ll_rel l A" by (simp add: bufs_ok_def)
  from cll.session [OF this l(3)] obtain hm u1 where
      u: "cLlist_lock 0 (p_udata l) = Some (hm, u1)" "cll.ll_rel (l\<lparr>p_udata := u1\<rparr>) A" "cll.ready u1 hm"
    and close: "\<And>c' A'. cll.ll_rel c' A' \<Longrightarrow> cll.same_cxt (l\<lparr>p_udata := u1\<rparr>) c' \<Longrightarrow>
       \<exists>u2. cLlist_unlock hm (p_udata c') = Some u2 \<and> cll.ll_rel (c'\<lparr>p_udata := u2\<rparr>) A' \<and> cll.ready u2 0"
    by metis
  have "llist_live u1 = llist_live (p_udata l)" using cll.lock_live [OF u(1)] .
  then have "blocks_ok (l\<lparr>p_udata := u1\<rparr>) A (m_bsize m)"
    using l(2) blocks_ok_same [of l A "m_bsize m" A "l\<lparr>p_udata := u1\<rparr>"] by (simp add: bufs_ok_def)
  then have "bufs_ok (l\<lparr>p_udata := u1\<rparr>) A (m_bsize m)" "cll.ready (p_udata (l\<lparr>p_udata := u1\<rparr>)) hm"
    using l(2) u(2,3) by (simp_all add: bufs_ok_def)
  from body [OF this] obtain r m' l' A' where b: "f hm m (l\<lparr>p_udata := u1\<rparr>) = Some (r, m', l')" "bufs_ok l' A' (m_bsize m')"
    "cll.same_cxt (l\<lparr>p_udata := u1\<rparr>) l'" "Q r m' A'" by blast
  have "cll.ll_rel l' A'" using b(2) by (simp add: bufs_ok_def)
  from close [OF this b(3)] obtain u2 where u2: "cLlist_unlock hm (p_udata l') = Some u2"
    "cll.ll_rel (l'\<lparr>p_udata := u2\<rparr>) A'" "cll.ready u2 0" by blast
  have "llist_live u2 = llist_live (p_udata l')" using cll.unlock_live [OF u2(1)] .
  then have "blocks_ok (l'\<lparr>p_udata := u2\<rparr>) A' (m_bsize m')"
    using b(2) blocks_ok_same [of l' A' "m_bsize m'" A' "l'\<lparr>p_udata := u2\<rparr>"] by (simp add: bufs_ok_def)
  then have "bufs_ok (l'\<lparr>p_udata := u2\<rparr>) A' (m_bsize m')" using b(2) u2(2) by (simp add: bufs_ok_def)
  moreover have "bmap_locked f m = Some (r, m'\<lparr>b_list := Some (l'\<lparr>p_udata := u2\<rparr>)\<rparr>)"
    using l(1) u(1) b(1) u2(1) by (simp add: bmap_locked_def)
  ultimately show ?thesis using u2(3) Q [OF b(4)]
    by (intro exI [of _ r] exI [of _ "m'\<lparr>b_list := Some (l'\<lparr>p_udata := u2\<rparr>)\<rparr>"] exI [of _ A']) (simp add: bmap_rel_def)
qed

text \<open>Moving a buffer to another column and setting its state accordingly.\<close>

definition a_shift :: "'d buffer ll_abs \<Rightarrow> addr \<Rightarrow> nat \<Rightarrow> nat \<Rightarrow> ('d buffer \<Rightarrow> 'd buffer) \<Rightarrow> 'd buffer ll_abs" where
  "a_shift A a j k f = (a_mov A a j k)\<lparr>dat := (dat A)(a := map_option (map_prod id (\<lambda>b. (f b)\<lparr>b_state := of_nat k\<rparr>)) (dat A a))\<rparr>"

lemma a_shift_fields:
  assumes "j \<noteq> k"
  shows "width (a_shift A a j k f) = width A" "sel (a_shift A a j k f) = sel A"
    "cols (a_shift A a j k f) k = cols A k @ [a]" "cols (a_shift A a j k f) j = remove1 a (cols A j)"
    "i \<noteq> j \<Longrightarrow> i \<noteq> k \<Longrightarrow> cols (a_shift A a j k f) i = cols A i" "b \<noteq> a \<Longrightarrow> dat (a_shift A a j k f) b = dat A b"
    "cur (a_shift A a j k f) j = (if cur A j = Some a then neighbour (cols A j) a else cur A j)"
  using assms by (simp_all add: a_shift_def a_mov_def a_unlink_def)

lemma shift_rel:
  assumes rel: "cll.ll_rel l A" "cll.ready (p_udata l) hm" and j: "j < width A" "a \<in> set (cols A j)"
    and k: "k < width A" "k \<noteq> j" "length (cols A k) + 1 < 2 ^ 32"
  shows "\<exists>l1 l2 sz b. cLlist_mov l a (of_nat k) hm = Some (True, l1) \<and> dat A a = Some (sz, b) \<and> get_buffer l a = Some b \<and>
    get_buffer l1 a = Some b \<and> put_item l1 a ((f b)\<lparr>b_state := of_nat k\<rparr>) = Some l2 \<and>
    cll.ll_rel l2 (a_shift A a j k f) \<and> cll.same_cxt l l2 \<and> llist_live (p_udata l2) = llist_live (p_udata l)"
proof -
  from cll.ll_mov_rel [OF rel j k] obtain l1 where
    l1: "ll_mov l a (of_nat k) hm = Some (True, l1)" "cll.ll_rel l1 (a_mov A a j k)" "cll.same_cxt l l1" by blast
  have a: "k < width (a_mov A a j k)" "a \<in> set (cols (a_mov A a j k) k)" using k by (simp_all add: a_mov_def a_unlink_def)
  obtain i where i: "heap l a = Some i" "dat A a = Some (it_size i, it_data i)" using rel_item [OF rel(1) j] by blast
  obtain it where it: "heap l1 a = Some it" "dat (a_mov A a j k) a = Some (it_size it, it_data it)"
    using rel_item [OF l1(2) a] by blast
  have same: "it_size it = it_size i" "it_data it = it_data i" using i(2) it(2) by (simp_all add: a_mov_def a_unlink_def)
  let ?d = "(f (it_data it))\<lparr>b_state := of_nat k\<rparr>"
  have "(a_mov A a j k)\<lparr>dat := (dat (a_mov A a j k))(a \<mapsto> (it_size it, ?d))\<rparr> = a_shift A a j k f"
    using i(2) same by (simp add: a_shift_def a_mov_def a_unlink_def)
  with cll.write_rel [OF l1(2) a it(1), of ?d] have "cll.ll_rel (l1\<lparr>heap := (heap l1)(a \<mapsto> it\<lparr>it_data := ?d\<rparr>)\<rparr>) (a_shift A a j k f)"
    "cll.same_cxt l1 (l1\<lparr>heap := (heap l1)(a \<mapsto> it\<lparr>it_data := ?d\<rparr>)\<rparr>)" by simp_all
  moreover have "llist_live (p_udata l1) = llist_live (p_udata l)" using cll.ll_mov_live [OF cll.rel_wired(1) [OF rel(1)] l1(1)] .
  ultimately show ?thesis using l1(1,3) i it(1) same cll.same_cxt_trans
    by (fastforce simp: cLlist_mov_def get_buffer_def put_item_def)
qed

lemma shift_states:
  assumes st: "\<forall>k < 3. \<forall>a \<in> set (cols A k). in_state A k a" and a: "a \<in> set (cols A j)" "j < 3"
    and k: "k < 3" "k \<noteq> j" and one: "distinct (cols A j)" "\<forall>i < 3. i \<noteq> j \<longrightarrow> a \<notin> set (cols A i)"
  shows "\<forall>i < 3. \<forall>b \<in> set (cols (a_shift A a j k f) i). in_state (a_shift A a j k f) i b"
proof (intro allI impI ballI)
  fix i b assume i: "i < (3 :: nat)" and b: "b \<in> set (cols (a_shift A a j k f) i)"
  show "in_state (a_shift A a j k f) i b"
  proof (cases "b = a")
    case True
    then have "i = k" using b i one by (cases "i = k"; cases "i = j") (auto simp: a_shift_def a_mov_def a_unlink_def)
    moreover have "in_state A j a" using st a by blast
    ultimately show ?thesis using True by (auto simp: in_state_def buffer_of_def a_shift_def)
  next
    case False
    then have "b \<in> set (cols A i)" using b by (auto simp: a_shift_def a_mov_def a_unlink_def split: if_splits dest: notin_set_remove1)
    then show ?thesis using st i False by (auto simp: in_state_def buffer_of_def a_shift_def)
  qed
qed

text \<open>The same for the whole invariant.\<close>

lemma shift_bufs:
  assumes ok: "bufs_ok l A sz" "cll.ready (p_udata l) hm" and j: "j < 3" "a \<in> set (cols A j)"
    and k: "k < 3" "k \<noteq> j" "length (cols A k) + 1 < 2 ^ 32" and f: "\<And>b. b_ptr (f b) = b_ptr b"
  shows "\<exists>l1 l2 n b. cLlist_mov l a (of_nat k) hm = Some (True, l1) \<and> dat A a = Some (n, b) \<and> get_buffer l a = Some b \<and>
    get_buffer l1 a = Some b \<and> put_item l1 a ((f b)\<lparr>b_state := of_nat k\<rparr>) = Some l2 \<and>
    bufs_ok l2 (a_shift A a j k f) sz \<and> cll.same_cxt l l2"
proof -
  have rel: "cll.ll_rel l A" and w: "width A = 3" using ok(1) by (simp_all add: bufs_ok_def)
  from shift_rel [OF rel ok(2), of j a k f] j k w obtain l1 l2 n b where
    l2: "cLlist_mov l a (of_nat k) hm = Some (True, l1)" "dat A a = Some (n, b)" "get_buffer l a = Some b"
      "get_buffer l1 a = Some b" "put_item l1 a ((f b)\<lparr>b_state := of_nat k\<rparr>) = Some l2"
      "cll.ll_rel l2 (a_shift A a j k f)" "cll.same_cxt l l2" "llist_live (p_udata l2) = llist_live (p_udata l)" by auto
  have "distinct (cols A j)" using cols_distinct [OF rel] j w by simp
  moreover have "\<forall>i < 3. i \<noteq> j \<longrightarrow> a \<notin> set (cols A i)" using cols_apart [OF rel] j w by fastforce
  ultimately have st: "\<forall>i < 3. \<forall>b \<in> set (cols (a_shift A a j k f) i). in_state (a_shift A a j k f) i b"
    using shift_states [of A a j k f] ok(1) j k by (simp add: bufs_ok_def)
  have "recs (a_shift A a j k f) = recs A"
    using recs_shift [of j k a A] j k by (simp add: a_shift_def recs_def)
  moreover have "block (a_shift A a j k f) c = block A c" if "c \<in> recs A" for c
    using l2(2) f by (auto simp: block_def buffer_of_def a_shift_def)
  moreover have "state_addr l2 = state_addr l" using l2(7) by (simp add: cll.same_cxt_def)
  ultimately have "blocks_ok l2 (a_shift A a j k f) sz"
    using ok(1) l2(8) blocks_ok_same [of l A sz "a_shift A a j k f" l2] by (simp add: bufs_ok_def)
  then have "bufs_ok l2 (a_shift A a j k f) sz" using l2(6) st w k by (simp add: bufs_ok_def a_shift_fields)
  then show ?thesis using l2(1-5,7) by blast
qed

lemma same_bufs:
  assumes "bufs_ok l A sz" "cll.ll_rel l' A'" "cols A' = cols A" "dat A' = dat A" "width A' = width A"
    "cll.same_cxt l l'" "llist_live (p_udata l') = llist_live (p_udata l)"
  shows "bufs_ok l' A' sz"
proof -
  have "recs A' = recs A" "block A' = block A" using assms(3,4) by (simp_all add: recs_def block_def buffer_of_def fun_eq_iff)
  moreover have "state_addr l' = state_addr l" using assms(6) by (simp add: cll.same_cxt_def)
  ultimately show ?thesis using assms blocks_ok_same [of l A sz A' l'] by (simp add: bufs_ok_def in_state_def buffer_of_def)
qed

lemma col_first_bufs:
  assumes ok: "bufs_ok l A sz" "cll.ready (p_udata l) hm" and k: "k < 3"
  shows "\<exists>l1 l2. cLlist_col l (of_nat k) hm = Some ((), l1) \<and> cLlist_first l1 hm = Some (sized A (hdp (cols A k) None), l2) \<and>
    bufs_ok l2 (a_first (A\<lparr>sel := k\<rparr>)) sz \<and> cll.same_cxt l l2"
proof -
  have rel: "cll.ll_rel l A" and w: "width A = 3" using ok(1) by (simp_all add: bufs_ok_def)
  from cll.ll_col_rel [OF rel ok(2), of k] k w obtain l1 where l1: "ll_col l (of_nat k) hm = Some ((), l1)"
    "cll.ll_rel l1 (A\<lparr>sel := k\<rparr>)" "cll.same_cxt l l1" "llist_live (p_udata l1) = llist_live (p_udata l)" by auto
  from cll.ll_first_rel [OF l1(2) cll.ready_same [OF l1(3,2) ok(2)]] obtain l2 where
    l2: "ll_first l1 hm = Some (sized A (hdp (cols A k) None), l2)"
      "cll.ll_rel l2 (a_first (A\<lparr>sel := k\<rparr>))" "cll.same_cxt l1 l2" by (auto simp: scol_def sized_def)
  have "llist_live (p_udata l2) = llist_live (p_udata l)"
    using cll.ll_first_live [OF cll.rel_wired(1) [OF l1(2)] l2(1)] l1(4) by simp
  moreover have s2: "cll.same_cxt l l2" using l1(3) l2(3) cll.same_cxt_trans by blast
  ultimately have "bufs_ok l2 (a_first (A\<lparr>sel := k\<rparr>)) sz"
    using same_bufs [OF ok(1) l2(2)] by (simp add: a_first_def cursor_def)
  then show ?thesis using l1(1) l2(1) s2 by (auto simp: cLlist_col_def cLlist_first_def)
qed

section \<open>Writing the dirty buffers\<close>

definition cleaned :: "addr list \<Rightarrow> 'd buffer ll_abs \<Rightarrow> 'd buffer ll_abs \<Rightarrow> bool" where
  "cleaned xs A A' \<longleftrightarrow> cols A' 2 = [] \<and> cols A' 1 = cols A 1 @ xs \<and> cols A' 0 = cols A 0 \<and>
     (\<forall>a. dat A' a = (if a \<in> set xs then map_option (map_prod id (\<lambda>b. b\<lparr>b_state := BBUSY\<rparr>)) (dat A a) else dat A a))"

lemma cleaned_step:
  assumes "cols A 2 = a # xs" "a \<notin> set xs" "cleaned xs (a_shift A a 2 1 (\<lambda>b. b)) A'"
  shows "cleaned (a # xs) A A'"
proof -
  have "dat A' b = (if b \<in> set (a # xs) then map_option (map_prod id (\<lambda>b. b\<lparr>b_state := BBUSY\<rparr>)) (dat A b) else dat A b)" for b
    using assms unfolding cleaned_def by (cases "b = a") (simp_all add: a_shift_def BBUSY_def)
  then show ?thesis using assms by (simp add: cleaned_def a_shift_fields)
qed

lemma sync_loop_rel:
  assumes "bufs_ok l A sz" "cll.ready (p_udata l) hm" "sel A = 2" "cur A 2 = hdp (cols A 2) None"
    "length (cols A 2) \<le> n" "length (cols A 1) + length (cols A 2) < 2 ^ 32"
  shows "\<exists>l' A'. sync_loop op n hm (sized A (hdp (cols A 2) None)) m l =
      Some ((), m\<lparr>b_io := fold (\<lambda>a. bio_effect m op (buffer_of A a)) (cols A 2) (b_io m)\<rparr>, l') \<and>
    bufs_ok l' A' sz \<and> cll.same_cxt l l' \<and> cleaned (cols A 2) A A'"
  using assms
proof (induction n arbitrary: l A m)
  case 0
  then show ?case by (intro exI [of _ l] exI [of _ A]) (simp add: sized_def cleaned_def)
next
  case (Suc n)
  note rel = Suc.prems(1) [unfolded bufs_ok_def]
  show ?case
  proof (cases "cols A 2")
    case Nil
    then show ?thesis using Suc.prems by (intro exI [of _ l] exI [of _ A]) (simp add: sized_def cleaned_def)
  next
    case (Cons a xs)
    have dist: "distinct (a # xs)" using cols_distinct [of l A 2] rel Cons by simp
    from shift_bufs [OF Suc.prems(1,2), of 2 a 1 "\<lambda>b. b"] Cons Suc.prems(6) obtain l1 l2 n' b where
      l2: "cLlist_mov l a BBUSY hm = Some (True, l1)" "dat A a = Some (n', b)" "get_buffer l a = Some b" "get_buffer l1 a = Some b"
        "put_item l1 a (b\<lparr>b_state := BBUSY\<rparr>) = Some l2" "bufs_ok l2 (a_shift A a 2 1 (\<lambda>b. b)) sz" "cll.same_cxt l l2"
      unfolding bcol_of_nat by auto
    let ?A = "a_shift A a 2 1 (\<lambda>b. b)"
    have rel2: "cll.ll_rel l2 ?A" using l2(6) by (simp add: bufs_ok_def)
    note r2 = cll.ready_same [OF l2(7) rel2 Suc.prems(2)]
    have A: "sel ?A = 2" "cols ?A 2 = xs" "cols ?A 1 = cols A 1 @ [a]" "cols ?A 0 = cols A 0" "cur ?A 2 = hdp xs None"
      using Cons Suc.prems(3,4) dist by (simp_all add: a_shift_fields neighbour_def after_def before_def)
    from cll.ll_current_rel [OF rel2 r2] A obtain l3 where
      l3: "ll_current l2 hm = Some (sized ?A (hdp xs None), l3)" "cll.ll_rel l3 ?A" "cll.same_cxt l2 l3" by auto
    have ok3: "bufs_ok l3 ?A sz"
      using same_bufs [OF l2(6) l3(2) _ _ _ l3(3) cll.ll_current_live [OF cll.rel_wired(1) [OF rel2] l3(1)]] by simp
    have s3: "cll.same_cxt l l3" using l2(7) l3(3) cll.same_cxt_trans by blast
    let ?m = "pcb_bio op b m"
    from Suc.IH [OF ok3 cll.ready_same [OF s3 l3(2) Suc.prems(2)] A(1), of ?m] A Suc.prems(5,6) Cons obtain l' A' where
      IH: "sync_loop op n hm (sized ?A (hdp xs None)) ?m l3 =
          Some ((), ?m\<lparr>b_io := fold (\<lambda>c. bio_effect ?m op (buffer_of ?A c)) xs (b_io ?m)\<rparr>, l')"
        "bufs_ok l' A' sz" "cll.same_cxt l3 l'" "cleaned xs ?A A'" by auto
    have eff: "fold (\<lambda>c. bio_effect ?m op (buffer_of ?A c)) xs s = fold (\<lambda>c. bio_effect m op (buffer_of A c)) xs s" for s
      using dist by (intro fold_cong) (auto simp: pcb_bio_eq buffer_of_def a_shift_def)
    have "b = buffer_of A a" using l2(2) by (simp add: buffer_of_def)
    then have res: "?m\<lparr>b_io := fold (\<lambda>c. bio_effect ?m op (buffer_of ?A c)) xs (b_io ?m)\<rparr> =
        m\<lparr>b_io := fold (\<lambda>c. bio_effect m op (buffer_of A c)) (a # xs) (b_io m)\<rparr>"
      unfolding eff by (simp add: pcb_bio_eq)
    have "cll.same_cxt l l'" using s3 IH(3) cll.same_cxt_trans by blast
    moreover have "cleaned (a # xs) A A'" using cleaned_step [OF Cons _ IH(4)] dist by simp
    ultimately show ?thesis using l2(1,3,4,5) l3(1) IH(1,2) Cons unfolding res
      by (intro exI [of _ l'] exI [of _ A']) (simp add: sized_def cLlist_current_def)
  qed
qed

lemma first_current:
  assumes "cll.ll_rel l A" "k < width A"
  shows "cur (a_first (A\<lparr>sel := k\<rparr>)) k = hdp (cols A k) None"
proof (cases "cols A k")
  case Nil
  have "ll_inv align l (llist_live (p_udata l)) A" using assms(1) by (simp add: cll.ll_rel_def)
  from ll_inv_col [OF this assms(2)] obtain s where "col_ok s (cols A k) (cur A k)" by metis
  then show ?thesis using Nil by (auto simp: a_first_def scol_def col_ok_def split: option.splits)
qed (simp add: a_first_def scol_def cursor_def)

lemma bmap_sync_rel:
  assumes rel: "bmap_rel m A" and sz: "m_bsize m \<noteq> 0" and n: "length (cols A 2) \<le> n"
    and room: "length (cols A 1) + length (cols A 2) < 2 ^ 32"
  shows "\<exists>r m' A'. bmap_sync op n None m = Some (r, m') \<and> bmap_rel m' A' \<and>
    (cleaned (cols A 2) A A' \<and> b_io m' = fold (\<lambda>a. bio_effect m op (buffer_of A a)) (cols A 2) (b_io m) \<and>
     m_bsize m' = m_bsize m \<and> m_pcb_bio m' = m_pcb_bio m)"
  unfolding bmap_sync_def
proof (rule bmap_bracket [OF rel], goal_cases)
  case (1 hm l)
  let ?A = "a_first (A\<lparr>sel := 2\<rparr>)"
  from col_first_bufs [OF 1, of 2] obtain l1 l2 where l2: "cLlist_col l BDIRTY hm = Some ((), l1)"
    "cLlist_first l1 hm = Some (sized A (hdp (cols A 2) None), l2)" "bufs_ok l2 ?A (m_bsize m)" "cll.same_cxt l l2"
    unfolding bcol_of_nat by auto
  have A: "cols ?A = cols A" "dat ?A = dat A" "sel ?A = 2" by (simp_all add: a_first_def cursor_def)
  have cur: "cur ?A 2 = hdp (cols A 2) None" using first_current [of l A 2] 1(1) by (simp add: bufs_ok_def)
  have "cll.ll_rel l2 ?A" using l2(3) by (simp add: bufs_ok_def)
  from sync_loop_rel [OF l2(3) cll.ready_same [OF l2(4) this 1(2)] A(3), of n op m] cur A n room obtain l' A' where
    l': "sync_loop op n hm (sized A (hdp (cols A 2) None)) m l2 =
        Some ((), m\<lparr>b_io := fold (\<lambda>a. bio_effect m op (buffer_of ?A a)) (cols A 2) (b_io m)\<rparr>, l')"
      "bufs_ok l' A' (m_bsize m)" "cll.same_cxt l2 l'" "cleaned (cols A 2) ?A A'" by (auto simp: sized_def)
  have "cll.same_cxt l l'" using l2(4) l'(3) cll.same_cxt_trans by blast
  moreover have "cleaned (cols A 2) A A'" "buffer_of ?A = buffer_of A"
    using l'(4) A by (simp_all add: cleaned_def buffer_of_def fun_eq_iff)
  ultimately show ?case using l2(1,2) l'(1,2) sz
    by (intro exI [of _ "()"] exI [of _ l'] exI [of _ A'] exI [of _ "m\<lparr>b_io := fold (\<lambda>a. bio_effect m op (buffer_of A a)) (cols A 2) (b_io m)\<rparr>"]) simp
qed simp

section \<open>Handing out buffers\<close>

lemma cZoneHeap_apart:
  assumes "cZoneHeap_ok z" "cZoneHeap_live z a = Some n" "cZoneHeap_live z b = Some m" "a \<noteq> b"
  shows "a + unat n \<le> b \<or> b + unat m \<le> a"
proof -
  obtain zs where "zh.zone_rel z zs" using assms(1) by (auto simp: cZoneHeap_ok_def)
  then show ?thesis using zh.zone_rel_apart [of z zs] cZoneHeap_live_rel [of z zs] assms(2-4) by (metis linorder_neqE_nat)
qed

lemma heap_alloc_rel:
  assumes ok: "bufs_ok l A sz" and ft: "zone_fits n"
  shows "\<exists>p l'. heap_alloc l n = Some (p, l') \<and> bufs_ok l' A sz \<and> cll.same_cxt l l' \<and>
    (case p of None \<Rightarrow> llist_live (p_udata l') = llist_live (p_udata l)
     | Some q \<Rightarrow> llist_live (p_udata l) q = None \<and> llist_live (p_udata l') = (llist_live (p_udata l))(q \<mapsto> align n))"
proof -
  have rel: "cll.ll_rel l A" using ok by (simp add: bufs_ok_def)
  then have u: "llist_ok (p_udata l)" and inv: "ll_inv align l (llist_live (p_udata l)) A" and wd: "cll.wired l"
    by (simp_all add: cll.ll_rel_def)
  obtain p u' where pu: "mem_alloc n 0 (p_udata l) = Some (p, u')" using cll.alloc_returns [OF u ft] by metis
  have ha: "heap_alloc l n = Some (p, l\<lparr>p_udata := u'\<rparr>)"
    using pu u by (auto simp: heap_alloc_def mem_alloc_def llist_ok_def bind_Some_iff)
  show ?thesis
  proof (cases p)
    case None
    then have u': "llist_live u' = llist_live (p_udata l)" "llist_ok u'" "llist_owner u' = llist_owner (p_udata l)"
      using cll.alloc_None [OF u] pu by blast+
    then have "cll.ll_rel (l\<lparr>p_udata := u'\<rparr>) A" using inv wd by (simp add: cll.ll_rel_def cll.wired_def)
    then have "bufs_ok (l\<lparr>p_udata := u'\<rparr>) A sz" using same_bufs [OF ok] u' by (simp add: cll.same_cxt_def)
    then show ?thesis using ha None u' by (auto simp: cll.same_cxt_def)
  next
    case (Some q)
    then have u': "llist_live (p_udata l) q = None" "llist_live u' = (llist_live (p_udata l))(q \<mapsto> align n)" "llist_ok u'"
      "llist_owner u' = llist_owner (p_udata l)" using cll.alloc_Some [OF u] pu by blast+
    have "ll_inv align (l\<lparr>heap := (heap l)(q := heap l q)\<rparr>) (llist_live u') A"
      unfolding u'(2) by (rule ll_inv_extend [OF inv u'(1)])
    then have rel': "cll.ll_rel (l\<lparr>p_udata := u'\<rparr>) A" using wd u'(3) by (simp add: cll.ll_rel_def cll.wired_def)
    have "blocks_ok (l\<lparr>p_udata := u'\<rparr>) A sz"
      using ok u'(1,2) unfolding bufs_ok_def blocks_ok_def by (auto simp: state_addr_def)
    then have "bufs_ok (l\<lparr>p_udata := u'\<rparr>) A sz" using ok rel' by (simp add: bufs_ok_def)
    then show ?thesis using ha Some u' by (auto simp: cll.same_cxt_def)
  qed
qed

lemma add_buffer_rel:
  assumes ok: "bufs_ok l A sz" "cll.ready (p_udata l) hm" and room: "length (cols A 1) + 1 < 2 ^ 32"
    and q: "llist_live (p_udata l) q = Some (align sz)" "q \<notin> recs A" "state_addr l \<noteq> Some q" "\<forall>a \<in> recs A. block A a \<noteq> q"
    and b: "b_ptr b = q" "b_state b = BBUSY"
  shows "\<exists>l1 r l2 A2. cLlist_col l BBUSY hm = Some ((), l1) \<and> cLlist_add l1 b sizeof_buffer hm = Some (r, l2) \<and>
    bufs_ok l2 A2 sz \<and> cll.same_cxt l l2 \<and>
    (case r of None \<Rightarrow> A2 = A\<lparr>sel := 1\<rparr> | Some a \<Rightarrow> a \<notin> recs A \<and> A2 = a_append (A\<lparr>sel := 1\<rparr>) a sizeof_buffer b)"
proof -
  have rel: "cll.ll_rel l A" and w: "width A = 3" using ok(1) by (simp_all add: bufs_ok_def)
  from cll.ll_col_rel [OF rel ok(2), of 1] w obtain l1 where l1: "ll_col l BBUSY hm = Some ((), l1)"
    "cll.ll_rel l1 (A\<lparr>sel := 1\<rparr>)" "cll.same_cxt l l1" "llist_live (p_udata l1) = llist_live (p_udata l)"
    by (auto simp: bcol_of_nat)
  have ok1: "bufs_ok l1 (A\<lparr>sel := 1\<rparr>) sz" using same_bufs [OF ok(1) l1(2) _ _ _ l1(3,4)] by simp
  have room1: "length (scol (A\<lparr>sel := 1\<rparr>)) + 1 < 2 ^ 32" using room by (simp add: scol_def)
  have ft: "zone_fits (sizeof_buffer + sizeof_ll_item_hdr)" by (simp add: zone_fits_def sizeof_buffer_def sizeof_ll_item_hdr_def)
  from cll.ll_append_rel [OF l1(2) cll.ready_same [OF l1(3,2) ok(2)] room1 ft, of b] consider
      (none) l2 where "ll_append l1 b sizeof_buffer hm = Some (None, l2)" "cll.ll_rel l2 (A\<lparr>sel := 1\<rparr>)" "cll.same_cxt l1 l2"
    | (new) a l2 where "ll_append l1 b sizeof_buffer hm = Some (Some a, l2)" "llist_live (p_udata l1) a = None"
        "cll.ll_rel l2 (a_append (A\<lparr>sel := 1\<rparr>) a sizeof_buffer b)" "cll.same_cxt l1 l2" by blast
  then show ?thesis
  proof cases
    case none
    have "llist_live (p_udata l2) = llist_live (p_udata l1)"
      using cll.ll_append_live [OF cll.rel_wired [OF l1(2)] none(1)] by simp
    then have "bufs_ok l2 (A\<lparr>sel := 1\<rparr>) sz" using same_bufs [OF ok1 none(2) _ _ _ none(3)] by simp
    then show ?thesis using l1(1,3) none(1,3) cll.same_cxt_trans
      by (intro exI [of _ l1] exI [of _ None] exI [of _ l2] exI [of _ "A\<lparr>sel := 1\<rparr>"]) (auto simp: cLlist_col_def cLlist_add_def ll_add_def)
  next
    case new
    let ?A = "a_append (A\<lparr>sel := 1\<rparr>) a sizeof_buffer b"
    have lv: "llist_live (p_udata l2) = (llist_live (p_udata l))(a \<mapsto> align (sizeof_buffer + sizeof_ll_item_hdr))"
      using cll.ll_append_live [OF cll.rel_wired [OF l1(2)] new(1)] l1(4) by simp
    have na: "a \<notin> recs A" using cll.rel_live [OF l1(2)] new(2) w by (fastforce simp: recs_def)
    have recs: "recs ?A = insert a (recs A)" by (simp add: recs_eq a_append_def scol_def insert_commute)
    have bl: "block ?A a = q" "c \<noteq> a \<Longrightarrow> block ?A c = block A c" for c
      using b by (simp_all add: block_def buffer_of_def a_append_def)
    have "a \<noteq> q" using q(1) new(2) l1(4) by auto
    have s2: "cll.same_cxt l l2" using l1(3) new(4) cll.same_cxt_trans by blast
    then have sa: "state_addr l2 = state_addr l" by (simp add: cll.same_cxt_def)
    have old: "block ?A c = block A c" "block A c \<noteq> a" if "c \<in> recs A" for c
    proof -
      have "llist_live (p_udata l) (block A c) \<noteq> None" using ok(1) that by (auto simp: bufs_ok_def blocks_ok_def)
      then show "block A c \<noteq> a" using new(2) l1(4) by auto
      show "block ?A c = block A c" using bl(2) [of c] na that by blast
    qed
    have bok: "blocks_ok l A sz" using ok(1) by (simp add: bufs_ok_def)
    have "inj_on (block ?A) (insert a (recs A))"
      using bok q(4) bl(1) old(1) na inj_on_cong [of "recs A" "block ?A" "block A"] unfolding blocks_ok_def by auto
    moreover have "llist_live (p_udata l2) (block ?A c) = Some (align sz) \<and> block ?A c \<notin> insert a (recs A) \<and>
        state_addr l2 \<noteq> Some (block ?A c)" if "c \<in> insert a (recs A)" for c
      using that bok q(1-3) bl(1) old \<open>a \<noteq> q\<close> lv sa unfolding blocks_ok_def by (cases "c = a") auto
    ultimately have "blocks_ok l2 ?A sz" unfolding blocks_ok_def recs by blast
    moreover have "in_state ?A k c" if k: "k < 3" "c \<in> set (cols ?A k)" for k c
    proof (cases "c = a")
      case True
      then have "k = 1" using k na by (auto simp: recs_def a_append_def scol_def split: if_splits)
      then show ?thesis using True b(2) by (simp add: in_state_def buffer_of_def a_append_def BBUSY_def)
    next
      case False
      then have "c \<in> set (cols A k)" using k(2) by (auto simp: a_append_def scol_def split: if_splits)
      then have "in_state A k c" using ok(1) k(1) by (simp add: bufs_ok_def)
      then show ?thesis using False by (simp add: in_state_def buffer_of_def a_append_def)
    qed
    ultimately have "bufs_ok l2 ?A sz" using new(3) w by (simp add: bufs_ok_def a_append_def)
    then show ?thesis using l1(1) new(1) s2 na
      by (intro exI [of _ l1] exI [of _ "Some a"] exI [of _ l2] exI [of _ ?A]) (simp add: cLlist_col_def cLlist_add_def ll_add_def)
  qed
qed

text \<open>What \<open>alloc\<close> leaves behind when it returns \<open>r\<close>.\<close>

definition handed_out :: "ptr \<Rightarrow> 'd \<Rightarrow> ('d, 's) cBufferMap \<Rightarrow> 'd buffer ll_abs \<Rightarrow> ('d, 's) cBufferMap \<Rightarrow> 'd buffer ll_abs \<Rightarrow> bool" where
  "handed_out r ud m A m' A' \<longleftrightarrow> m_bsize m' = m_bsize m \<and> m_pcb_bio m' = m_pcb_bio m \<and> cols A' 0 = tl (cols A 0) \<and>
     cols A' 2 = cols A 2 \<and> (\<forall>c \<in> set (cols A 1) \<union> set (cols A 2). dat A' c = dat A c) \<and>
     (case r of
        None \<Rightarrow> cols A 0 = [] \<and> cols A' 1 = cols A 1
      | Some a \<Rightarrow> a \<notin> set (cols A 1) \<union> set (cols A 2) \<and> cols A' 1 = cols A 1 @ [a] \<and> b_udata (buffer_of A' a) = ud \<and>
          b_io m' = bio_effect m BIO_INIT (buffer_of A' a) (b_io m))"

lemma bmap_alloc_rel:
  assumes rel: "bmap_rel m A" and sz: "m_bsize m \<noteq> 0" "zone_fits (m_bsize m)" and room: "length (cols A 1) + 1 < 2 ^ 32"
  shows "\<exists>r m' A'. bmap_alloc junk ud m = Some (r, m') \<and> bmap_rel m' A' \<and> handed_out r ud m A m' A'"
  unfolding bmap_alloc_def
proof (rule bmap_bracket [OF rel], goal_cases)
  case (1 hm l)
  let ?A = "a_first (A\<lparr>sel := 0\<rparr>)"
  from col_first_bufs [OF 1, of 0] obtain l1 l2 where l2: "cLlist_col l BFREE hm = Some ((), l1)"
    "cLlist_first l1 hm = Some (sized A (hdp (cols A 0) None), l2)" "bufs_ok l2 ?A (m_bsize m)" "cll.same_cxt l l2"
    unfolding bcol_of_nat by auto
  have rel2: "cll.ll_rel l2 ?A" "width ?A = 3" using l2(3) by (simp_all add: bufs_ok_def)
  note r2 = cll.ready_same [OF l2(4) rel2(1) 1(2)]
  have A: "cols ?A = cols A" "dat ?A = dat A" by (simp_all add: a_first_def cursor_def)
  show ?case
  proof (cases "cols A 0")
    case (Cons a xs)
    let ?f = "\<lambda>b. b\<lparr>b_udata := ud\<rparr>"
    let ?S = "a_shift ?A a 0 1 ?f"
    from shift_bufs [OF l2(3) r2, of 0 a 1 ?f] Cons room A obtain l3 l4 n b where
      l4: "cLlist_mov l2 a BBUSY hm = Some (True, l3)" "dat A a = Some (n, b)" "get_buffer l3 a = Some b"
        "put_item l3 a ((?f b)\<lparr>b_state := BBUSY\<rparr>) = Some l4" "bufs_ok l4 ?S (m_bsize m)" "cll.same_cxt l2 l4"
      unfolding bcol_of_nat by auto
    let ?b = "(?f b)\<lparr>b_state := BBUSY\<rparr>"
    have no: "a \<notin> set (cols A 1) \<union> set (cols A 2)"
      using cols_apart [OF rel2(1), of 0 1 a] cols_apart [OF rel2(1), of 0 2 a] rel2(2) A Cons by auto
    have "buffer_of ?S a = ?b" using l4(2) A by (simp add: buffer_of_def a_shift_def bcol_of_nat)
    moreover have "dat ?S c = dat A c" if "c \<in> set (cols A 1) \<union> set (cols A 2)" for c
      using that no A by (auto simp: a_shift_def)
    ultimately have h: "handed_out (Some a) ud m A (pcb_bio BIO_INIT ?b m) ?S"
      using Cons A no by (simp add: handed_out_def a_shift_fields pcb_bio_eq)
    have "cll.same_cxt l l4" using l2(4) l4(6) cll.same_cxt_trans by blast
    then show ?thesis using l2(1,2) l4(1,3,4,5) h sz(1) Cons
      by (intro exI [of _ "Some a"] exI [of _ "pcb_bio BIO_INIT ?b m"] exI [of _ l4] exI [of _ ?S]) (simp add: sized_def pcb_bio_eq Let_def)
  next
    case Nil
    from heap_alloc_rel [OF l2(3) sz(2)] obtain p l3 where
      l3: "heap_alloc l2 (m_bsize m) = Some (p, l3)" "bufs_ok l3 ?A (m_bsize m)" "cll.same_cxt l2 l3"
        "case p of None \<Rightarrow> llist_live (p_udata l3) = llist_live (p_udata l2)
         | Some q \<Rightarrow> llist_live (p_udata l2) q = None \<and> llist_live (p_udata l3) = (llist_live (p_udata l2))(q \<mapsto> align (m_bsize m))"
      by blast
    have s3: "cll.same_cxt l l3" using l2(4) l3(3) cll.same_cxt_trans by blast
    show ?thesis
    proof (cases p)
      case None
      have "handed_out None ud m A m ?A" using Nil A by (simp add: handed_out_def)
      then show ?thesis using l2(1,2) l3(1,2) s3 sz(1) Nil None
        by (intro exI [of _ None] exI [of _ m] exI [of _ l3] exI [of _ ?A]) (simp add: sized_def)
    next
      case (Some q)
      let ?b = "\<lparr>b_state = BBUSY, b_ptr = q, b_udata = ud, b_udata64 = junk\<rparr>"
      have rel3: "cll.ll_rel l3 ?A" using l3(2) by (simp add: bufs_ok_def)
      have inv2: "ll_inv align l2 (llist_live (p_udata l2)) ?A" using rel2(1) by (simp add: cll.ll_rel_def)
      have q: "llist_live (p_udata l3) q = Some (align (m_bsize m))" "llist_live (p_udata l2) q = None" using l3(4) Some by simp_all
      have q': "q \<notin> recs ?A" "state_addr l3 \<noteq> Some q"
        using ll_inv_fresh [OF inv2 q(2)] rel2(2) l3(3) by (auto simp: recs_def cll.same_cxt_def)
      have q'': "\<forall>a \<in> recs ?A. block ?A a \<noteq> q" using l2(3) q(2) by (auto simp: bufs_ok_def blocks_ok_def)
      have "length (cols ?A 1) + 1 < 2 ^ 32" using room A by simp
      from add_buffer_rel [OF l3(2) cll.ready_same [OF s3 rel3 1(2)] this q(1) q' q'', of ?b] obtain l4 r l5 A5 where
        l5: "cLlist_col l3 BBUSY hm = Some ((), l4)" "cLlist_add l4 ?b sizeof_buffer hm = Some (r, l5)" "bufs_ok l5 A5 (m_bsize m)"
          "cll.same_cxt l3 l5" "case r of None \<Rightarrow> A5 = ?A\<lparr>sel := 1\<rparr>
            | Some a \<Rightarrow> a \<notin> recs ?A \<and> A5 = a_append (?A\<lparr>sel := 1\<rparr>) a sizeof_buffer ?b" by auto
      have "handed_out r ud m A (pcb_bio BIO_INIT ?b m) A5"
        using l5(5) Nil A by (cases r) (auto simp: handed_out_def pcb_bio_eq recs_eq a_append_def scol_def buffer_of_def)
      moreover have "cll.same_cxt l l5" using s3 l5(4) cll.same_cxt_trans by blast
      ultimately show ?thesis using l2(1,2) l3(1) l5(1-3) sz(1) Nil Some
        by (intro exI [of _ r] exI [of _ "pcb_bio BIO_INIT ?b m"] exI [of _ l5] exI [of _ A5]) (simp add: sized_def pcb_bio_eq)
    qed
  qed
qed (simp add: handed_out_def split: option.splits)

lemma bmap_dirty_rel:
  assumes rel: "bmap_rel m A" and sz: "m_bsize m \<noteq> 0" and a: "a \<in> set (cols A 1)" and room: "length (cols A 2) + 1 < 2 ^ 32"
  shows "\<exists>r m' A'. bmap_dirty (Some a) m = Some (r, m') \<and> bmap_rel m' A' \<and>
    (m_bsize m' = m_bsize m \<and> m_pcb_bio m' = m_pcb_bio m \<and> b_io m' = b_io m \<and> cols A' 0 = cols A 0 \<and>
     cols A' 1 = remove1 a (cols A 1) \<and> cols A' 2 = cols A 2 @ [a] \<and>
     buffer_of A' a = (buffer_of A a)\<lparr>b_state := BDIRTY\<rparr> \<and> (\<forall>c. c \<noteq> a \<longrightarrow> dat A' c = dat A c))"
proof -
  have some: "b_list m \<noteq> None" using rel by (auto simp: bmap_rel_def split: option.splits)
  show ?thesis
    unfolding bmap_dirty_def option.case if_not_P [OF some]
  proof (intro bmap_bracket [OF rel], goal_cases)
    case (1 hm l)
    let ?S = "a_shift A a 1 2 (\<lambda>b. b)"
    from shift_bufs [OF 1, of 1 a 2 "\<lambda>b. b"] a room obtain l1 l2 n b where
      l2: "cLlist_mov l a BDIRTY hm = Some (True, l1)" "dat A a = Some (n, b)" "get_buffer l1 a = Some b"
        "put_item l1 a (b\<lparr>b_state := BDIRTY\<rparr>) = Some l2" "bufs_ok l2 ?S (m_bsize m)" "cll.same_cxt l l2"
      unfolding bcol_of_nat by auto
    have "buffer_of ?S a = (buffer_of A a)\<lparr>b_state := BDIRTY\<rparr>" using l2(2) by (simp add: buffer_of_def a_shift_def BDIRTY_def)
    then show ?case using l2(1,3-6) sz
      by (intro exI [of _ "()"] exI [of _ m] exI [of _ l2] exI [of _ ?S]) (simp add: a_shift_fields)
  qed simp
qed

lemma bmap_blocks_apart:
  assumes "bmap_rel m A" "zone_fits (m_bsize m)" "a \<in> recs A" "c \<in> recs A" "a \<noteq> c"
  shows "block A a + unat (m_bsize m) \<le> block A c \<or> block A c + unat (m_bsize m) \<le> block A a"
proof -
  obtain l where l: "cll.ll_rel l A" "blocks_ok l A (m_bsize m)" using assms(1) by (auto simp: bmap_rel_def bufs_ok_def split: option.splits)
  then obtain z where z: "mpi_heap (p_udata l) = Some z" "cZoneHeap_ok z" by (auto simp: cll.ll_rel_def llist_ok_def)
  have "cZoneHeap_live z (block A a) = Some (align (m_bsize m))" "cZoneHeap_live z (block A c) = Some (align (m_bsize m))"
    "block A a \<noteq> block A c" using l(2) z(1) assms(3-5) by (auto simp: blocks_ok_def llist_live_def inj_on_def)
  from cZoneHeap_apart [OF z(2) this] zone_fits_align(2) [OF assms(2)] show ?thesis by linarith
qed

section \<open>Properties\<close>

text \<open>C15: \<open>alloc\<close> of a buffer map returns, and never hands out a buffer that is busy or dirty: it takes the first free
  buffer or makes a new one, calls the callback for it with \<open>BIO_INIT\<close>, and leaves the other buffers as they are. The
  state byte of every buffer agrees with its column, and the blocks of two buffers never overlap.\<close>

theorem bmap_alloc_apart:
  assumes "bmap_rel m A" "m_bsize m \<noteq> 0" "zone_fits (m_bsize m)" "length (cols A 1) + 1 < 2 ^ 32"
  shows "\<exists>r m' A'. bmap_alloc junk ud m = Some (r, m') \<and> bmap_rel m' A' \<and> handed_out r ud m A m' A' \<and>
    (\<forall>a \<in> recs A'. \<forall>c \<in> recs A' - {a}.
       block A' a + unat (m_bsize m) \<le> block A' c \<or> block A' c + unat (m_bsize m) \<le> block A' a)"
proof -
  from bmap_alloc_rel [OF assms] obtain r m' A' where
    r: "bmap_alloc junk ud m = Some (r, m')" "bmap_rel m' A'" "handed_out r ud m A m' A'" by blast
  have "m_bsize m' = m_bsize m" using r(3) by (simp add: handed_out_def)
  with bmap_blocks_apart [OF r(2)] assms(3) r show ?thesis
    by (intro exI [of _ r] exI [of _ m'] exI [of _ A']) auto
qed

text \<open>C16: \<open>flush\<close> of a whole buffer map ends, calls the callback with \<open>BIO_WRITE\<close> exactly once for every dirty buffer,
  in the order in which they became dirty, and for no other buffer; afterwards they are busy and none is dirty.\<close>

theorem bmap_flush_writes_dirty:
  assumes "bmap_rel m A" "m_bsize m \<noteq> 0" "length (cols A 2) \<le> n" "length (cols A 1) + length (cols A 2) < 2 ^ 32"
  shows "\<exists>m' A'. bmap_flush n None m = Some ((), m') \<and> bmap_rel m' A' \<and> cleaned (cols A 2) A A' \<and>
    b_io m' = fold (\<lambda>a. bio_effect m BIO_WRITE (buffer_of A a)) (cols A 2) (b_io m)"
  using bmap_sync_rel [OF assms, of BIO_WRITE] unfolding bmap_flush_def by auto

section \<open>A buffer map at work\<close>

text \<open>The callback records its calls.\<close>

definition bmap_1 :: "(nat, (bio_op \<times> nat) list) cBufferMap" where
  "bmap_1 = the (bmap_init 100 (Some (\<lambda>op p sz ud s. s @ [(op, ud)])) (Some zheap_1) (Some cLlist_1) None
     \<lparr>b_list = None, m_bsize = 0, m_pcb_bio = None, b_io = []\<rparr>)"

lemma bmap_1_init:
  "\<exists>r l. cLlist_init (cLlist_1 :: nat buffer cLlist) LL_MODE_VECTOR 3 (Some zheap_1) None = Some (r, l) \<and>
    (r \<longrightarrow> cll.ll_rel l (ll_empty 3) \<and> cll.ready (p_udata l) 0)"
proof -
  let ?l = "cLlist_1 :: nat buffer cLlist"
  let ?m = "\<lparr>cm_self = 0x4000, m_spinlock = \<lparr>status = False\<rparr>, cm_lcount = 0, cm_hcount = 0\<rparr>"
  have "mpi_mutex (p_udata ?l) = Some ?m" "cMutex_ok ?m" "cMutex_owner ?m = None" "zone_fits (ucast (of_nat 3 :: u8) * sizeof_ll_state)"
    by (simp_all add: cLlist_1_def cMutex_ok_def cMutex_owner_def zone_fits_def sizeof_ll_state_def)
  from cLlist_init_rel [OF this(1-3) zheap_1_ok _ _ this(4), of None] show ?thesis by simp
qed

text \<open>The heap with \<open>n\<close> objects of 128 bytes in its first page.\<close>

definition zheap_128 :: "u32 \<Rightarrow> u64 \<Rightarrow> cZoneHeap" where
  "zheap_128 n bm = zheap_1\<lparr>zones := Some (65536, (replicate 512 [])[8 := [\<lparr>zp_addr = 69648, zp_objects = n, zp_object_size = 128,
       zp_array = clear_entry\<lparr>bitmap := [bm, 0, 0, 0], ze_data := 73760, ze_objects := n\<rparr> # replicate 62 clear_entry\<rparr>]]),
     user_data := \<lparr>m_sync = False, m_libc = \<lparr>brk = 77872, room = 397312, blocks = [65536 \<mapsto> 4096, 69648 \<mapsto> 4096, 73760 \<mapsto> 4096]\<rparr>\<rparr>\<rparr>"

lemma zone_page_of_128: "zone_page_of 96 = Some (Some 8, 128)" "zone_page_of 100 = Some (Some 8, 128)" "zone_page_of 70 = Some (Some 8, 128)"
proof -
  have "bit_number 128 = Some 8" using bit_number_unique [of 128 7] by simp
  moreover have "align 96 = 128" "align 100 = 128" "align 70 = 128" by code_simp+
  ultimately show "zone_page_of 96 = Some (Some 8, 128)" "zone_page_of 100 = Some (Some 8, 128)" "zone_page_of 70 = Some (Some 8, 128)"
    by (simp_all add: zone_page_of_def ZONE_MAX_ZONES_def)
qed

lemma more_masks: "unit_mask 2 = 0x2000000000000000"
  by (simp add: unit_mask_def ZONE_BITMAP_UNIT_BITS_def push_bit_eq_mult drop_bit_eq_div)

lemma next_bits:
  "entry_seek [0x8000000000000000, 0, 0, 0] 32 0 0 0 = Some (1, 0, 1)"
  "entry_seek [0xC000000000000000, 0, 0, 0] 32 0 0 0 = Some (2, 0, 2)"
  by (subst entry_seek.simps, subst entry_seek.simps, simp add: ZONE_BITMAP_UNIT_BITS_def unit_mask_eval,
      subst entry_seek.simps, subst entry_seek.simps, subst entry_seek.simps,
      simp add: ZONE_BITMAP_UNIT_BITS_def unit_mask_eval more_masks numeral_2_eq_2 [symmetric])

lemma zheap_1_alloc_96: "cZoneHeap_alloc 96 zheap_1 = Some (Some 73760, zheap_128 1 0x8000000000000000)"
  apply (simp add: zheap_1_def zheap_128_def zh_init_eval malloc_eval cZoneHeap_alloc_def zone_alloc_def zone_page_of_128
      get_chain_def ZONE_MAX_ZONES_def)
  apply (simp add: zone_lock_def zh_lock_def zone_unlock_def zh_unlock_def set_chain_def)
  apply (simp add: zone_page_alloc_def zone_lock_def zh_lock_def get_chain_def)
  apply (simp add: zone_page_eval malloc_eval zh_page_alloc_def)
  apply (simp add: clear_entry_def entry_seek_clear malloc_eval zh_page_alloc_def Let_def)
  apply (simp add: zone_unlock_def zh_unlock_def set_chain_def replicate_eval unit_mask_eval)
  done

lemma zheap_128_next: "cZoneHeap_alloc 100 (zheap_128 1 0x8000000000000000) = Some (Some 73888, zheap_128 2 0xC000000000000000)"
  "\<exists>a z. cZoneHeap_alloc 70 (zheap_128 2 0xC000000000000000) = Some (Some a, z)"
   apply (simp_all add: zheap_1_def zheap_128_def zh_init_eval malloc_eval cZoneHeap_alloc_def zone_alloc_def zone_page_of_128
      get_chain_def ZONE_MAX_ZONES_def)
   apply (simp_all add: zone_page_alloc_def get_chain_def zone_lock_def zh_lock_def ZONE_PAGE_SIZE_def ZONE_MAX_ENTRIES_def)
   apply (simp_all add: zone_page_alloc_in_def zone_entry_alloc_def Let_def)
   apply (simp_all add: clear_entry_def ZONE_PAGE_SIZE_def next_bits unit_mask_eval more_masks)
   apply (simp_all add: set_chain_def zone_unlock_def zh_unlock_def)
  done

lemma bmap_1_rel: "bmap_rel bmap_1 (ll_empty 3)" "m_bsize bmap_1 = 100" "b_io bmap_1 = []"
    "m_pcb_bio bmap_1 = Some (\<lambda>op p sz ud s. s @ [(op, ud)])"
proof -
  from bmap_1_init obtain r and l :: "nat buffer cLlist" where
    l: "cLlist_init cLlist_1 LL_MODE_VECTOR 3 (Some zheap_1) None = Some (r, l)"
      "r \<longrightarrow> cll.ll_rel l (ll_empty 3) \<and> cll.ready (p_udata l) 0" by blast
  have "r = True" using l(1)
    by (simp add: zheap_1_alloc_96 cLlist_init_def cLlist_1_def ll_init_def ll_locked_def ll_lock_def cLlist_lock_def cMutex_lock_def
      GET_HANDLE_def make_handle_def spinlock_lock_def mem_alloc_def sizeof_ll_state_def bind_Some_iff Let_def split: if_splits)
  then show "bmap_rel bmap_1 (ll_empty 3)" "m_bsize bmap_1 = 100" "b_io bmap_1 = []"
      "m_pcb_bio bmap_1 = Some (\<lambda>op p sz ud s. s @ [(op, ud)])"
    using l by (simp_all add: bmap_1_def bmap_init_def bmap_rel_def bufs_ok_def blocks_ok_def recs_def ll_empty_def)
qed

lemma bmap_1_alloc: "\<exists>a m. bmap_alloc [0, 0, 0] 7 bmap_1 = Some (Some a, m)"
  apply (simp add: bmap_1_def bmap_init_def cLlist_init_def cLlist_1_def ll_init_def session_eval mem_alloc_def
      sizeof_ll_state_def zheap_1_alloc_96)
  apply (simp add: bmap_alloc_def bmap_locked_def session_eval)
  apply (simp add: BFREE_def BBUSY_def cLlist_col_def ll_col_def session_eval)
  apply (simp add: cLlist_first_def ll_first_def session_eval get_st_def zero_state_def with_size_def)
  apply (simp add: heap_alloc_def zheap_128_next)
  apply (simp add: BBUSY_def cLlist_col_def ll_col_def session_eval Let_def)
  apply (insert zheap_128_next(2))
  apply (elim exE)
  apply (simp add: cLlist_add_def ll_add_def ll_append_def alloc_item_def mem_alloc_def sizeof_ll_item_hdr_def sizeof_buffer_def)
  apply (simp add: session_eval get_st_def put_st_def zero_state_def set_next_def set_prev_def)
  done

theorem bmap_alloc_apart_witness:
  "\<exists>a m' A'. bmap_alloc [0, 0, 0] 7 bmap_1 = Some (Some a, m') \<and> bmap_rel m' A' \<and> handed_out (Some a) 7 bmap_1 (ll_empty 3) m' A'"
proof -
  have "m_bsize bmap_1 \<noteq> 0" "zone_fits (m_bsize bmap_1)" "length (cols (ll_empty 3) 1) + 1 < 2 ^ 32"
    by (simp_all add: bmap_1_rel(2) zone_fits_def ll_empty_def)
  from bmap_alloc_apart [OF bmap_1_rel(1) this, of "[0, 0, 0]" 7] bmap_1_alloc show ?thesis by auto
qed

text \<open>A buffer is handed out, becomes dirty and is written.\<close>

theorem bmap_flush_writes_dirty_witness:
  "\<exists>a m1 m2 m3. bmap_alloc [0, 0, 0] 7 bmap_1 = Some (Some a, m1) \<and> bmap_dirty (Some a) m1 = Some ((), m2) \<and>
     bmap_flush 1 None m2 = Some ((), m3) \<and> b_io m3 = [(BIO_INIT, 7), (BIO_WRITE, 7)]"
proof -
  have sz: "m_bsize bmap_1 \<noteq> 0" "zone_fits (m_bsize bmap_1)" "length (cols (ll_empty 3) 1) + 1 < 2 ^ 32"
    by (simp_all add: bmap_1_rel(2) zone_fits_def ll_empty_def)
  from bmap_1_alloc obtain a m1 where m1: "bmap_alloc [0, 0, 0] 7 bmap_1 = Some (Some a, m1)" by blast
  with bmap_alloc_rel [OF bmap_1_rel(1) sz, of "[0, 0, 0]" 7] obtain A1 where
    A1: "bmap_rel m1 A1" "handed_out (Some a) 7 bmap_1 (ll_empty 3) m1 A1" by auto
  note cb = bmap_1_rel(4)
  have c1: "cols A1 1 = [a]" "cols A1 2 = []" "m_bsize m1 = 100" "m_pcb_bio m1 = m_pcb_bio bmap_1" "b_udata (buffer_of A1 a) = 7"
    "b_io m1 = [(BIO_INIT, 7)]"
    using A1(2) cb by (auto simp: handed_out_def ll_empty_def bmap_1_rel bio_effect_def)
  have "m_bsize m1 \<noteq> 0" "a \<in> set (cols A1 1)" "length (cols A1 2) + 1 < 2 ^ 32" using c1 by simp_all
  from bmap_dirty_rel [OF A1(1) this] c1 obtain m2 A2 where
    m2: "bmap_dirty (Some a) m1 = Some ((), m2)" "bmap_rel m2 A2" "m_bsize m2 = 100" "m_pcb_bio m2 = m_pcb_bio bmap_1"
      "b_io m2 = [(BIO_INIT, 7)]" "cols A2 2 = [a]" "cols A2 1 = []" "b_udata (buffer_of A2 a) = 7" by auto
  have "m_bsize m2 \<noteq> 0" "length (cols A2 2) \<le> 1" "length (cols A2 1) + length (cols A2 2) < 2 ^ 32" using m2 by simp_all
  from bmap_flush_writes_dirty [OF m2(2) this] m1 m2 cb show ?thesis by (auto simp: bio_effect_def)
qed

end
