(* ===== verification/HttpServer.thy ===== *)
theory HttpServer
  imports Llist Maps Str UrlCodec
begin

text \<open>
  Server side of an HTTP connection: io/libnet/http_server_connection.cpp. The request and response variables are map
  objects, the cookies a list object. The socket, the buffer map, the clock and the formatting of times are interfaces,
  collected in \<open>http_env\<close>; a buffer is its handle and its bytes, of which the connection is the only user.
  A C string is its bytes up to the NUL.
\<close>

section \<open>The C library\<close>

definition ascii :: "string \<Rightarrow> u8 list" where "ascii s = map of_char s"

definition crlf :: "u8 list" where "crlf = [13, 10]"

definition c_string :: "u8 list \<Rightarrow> u8 list" where "c_string s = takeWhile (\<lambda>b. b \<noteq> 0) s"

definition c_strncpy :: "nat \<Rightarrow> u8 list \<Rightarrow> u8 list" where
  "c_strncpy n s = take n (c_string s @ replicate n 0)"

fun decimal :: "nat \<Rightarrow> u8 list" where
  "decimal n = (if n < 10 then [of_nat n + 0x30] else decimal (n div 10) @ [of_nat (n mod 10) + 0x30])"

declare decimal.simps [simp del]

text \<open>\<open>snprintf\<close> of a text into \<open>sz\<close> bytes from \<open>p\<close> on: the length of the whole text, and the text cut to the
  room, with its NUL.\<close>

definition c_snprintf :: "u8 list \<Rightarrow> nat \<Rightarrow> nat \<Rightarrow> u8 list \<Rightarrow> (u32 \<times> u8 list) option" where
  "c_snprintf buf p sz s =
     (if sz = 0 then Some (of_nat (length s), buf)
      else let w = take (sz - 1) s @ [0]
           in if p + length w \<le> length buf then Some (of_nat (length s), write_at buf p w) else None)"

definition c_isspace :: "u8 \<Rightarrow> bool" where "c_isspace c \<longleftrightarrow> c = 0x20 \<or> (9 \<le> c \<and> c \<le> 13)"

definition c_isdigit :: "u8 \<Rightarrow> bool" where "c_isdigit c \<longleftrightarrow> 0x30 \<le> c \<and> c \<le> 0x39"

definition c_atoi :: "u8 list \<Rightarrow> int" where
  "c_atoi s =
     (let s = dropWhile c_isspace s;
          neg = (s \<noteq> [] \<and> hd s = 0x2D);
          s = (if s \<noteq> [] \<and> (hd s = 0x2D \<or> hd s = 0x2B) then tl s else s);
          v = fold (\<lambda>d v. v * 10 + (uint d - 0x30)) (takeWhile c_isdigit s) 0
      in if neg then - v else v)"

definition c_strcasecmp :: "u8 list \<Rightarrow> u8 list \<Rightarrow> bool" where
  "c_strcasecmp a b \<longleftrightarrow> map toupper a = map toupper b"

section \<open>Constants\<close>

definition HTTPC_RECEIVE_HEADER :: u16 where "HTTPC_RECEIVE_HEADER = 1"
definition HTTPC_COMPLETE_HEADER :: u16 where "HTTPC_COMPLETE_HEADER = 2"
definition HTTPC_PARSE_HEADER :: u16 where "HTTPC_PARSE_HEADER = 3"
definition HTTPC_RECEIVE_CONTENT :: u16 where "HTTPC_RECEIVE_CONTENT = 4"
definition HTTPC_SEND_HEADER :: u16 where "HTTPC_SEND_HEADER = 5"
definition HTTPC_SEND_CONTENT :: u16 where "HTTPC_SEND_CONTENT = 6"
definition HTTPC_CLOSE :: u16 where "HTTPC_CLOSE = 7"

lemmas httpc_state = HTTPC_RECEIVE_HEADER_def HTTPC_COMPLETE_HEADER_def HTTPC_PARSE_HEADER_def HTTPC_RECEIVE_CONTENT_def
  HTTPC_SEND_HEADER_def HTTPC_SEND_CONTENT_def HTTPC_CLOSE_def

text \<open>Events, response codes and methods by their numbers in io/interface/iNet.h.\<close>

definition HTTP_ON_OPEN :: u8 where "HTTP_ON_OPEN = 1"
definition HTTP_ON_REQUEST :: u8 where "HTTP_ON_REQUEST = 2"
definition HTTP_ON_REQUEST_DATA :: u8 where "HTTP_ON_REQUEST_DATA = 3"
definition HTTP_ON_RESPONSE_DATA :: u8 where "HTTP_ON_RESPONSE_DATA = 4"
definition HTTP_ON_ERROR :: u8 where "HTTP_ON_ERROR = 5"
definition HTTP_ON_CLOSE_DOCUMENT :: u8 where "HTTP_ON_CLOSE_DOCUMENT = 6"

definition HTTPRC_BAD_REQUEST :: u16 where "HTTPRC_BAD_REQUEST = 400"
definition HTTPRC_REQUEST_TIMEOUT :: u16 where "HTTPRC_REQUEST_TIMEOUT = 408"

definition http_resp_text :: "(u16 \<times> string) list" where
  "http_resp_text =
     [(100, ''Continue''), (101, ''Switching Protocols''), (200, ''OK''), (201, ''Created''), (202, ''Accepted''),
      (203, ''Non-Authoritative Information''), (204, ''No Content''), (205, ''Reset Content''), (206, ''Partial Content''),
      (300, ''Multiple Choices''), (301, ''Moved Permanently''), (302, ''Found''), (303, ''See Other''),
      (304, ''Not Modified''), (305, ''Use proxy''), (307, ''Temporary redirect''), (400, ''Bad Request''),
      (401, ''Unauthorized''), (402, ''Payment Required''), (403, ''Forbidden''), (404, ''Not Found''),
      (405, ''Method Not Allowed''), (406, ''Not Acceptable''), (407, ''Proxy Authentication Required''),
      (408, ''Request Time-out''), (409, ''Conflict''), (410, ''Gone''), (411, ''Length Required''),
      (412, ''Precondition Failed''), (413, ''Request Entity Too Large''), (414, ''Request-URI Too Large''),
      (415, ''Unsupported Media Type''), (417, ''Expectation Failed''), (500, ''Internal Server Error''),
      (501, ''Not Implemented''), (502, ''Bad Gateway''), (503, ''Service Unavailable''), (504, ''Gateway Time-out''),
      (505, ''HTTP Version not supported'')]"

definition method_map :: "(u8 \<times> string) list" where
  "method_map = [(1, ''GET''), (2, ''HEAD''), (3, ''POST''), (4, ''PUT''), (5, ''DELETE''), (6, ''CONNECT''),
     (7, ''OPTIONS''), (8, ''TRACE'')]"

definition VAR_REQ_METHOD :: "u8 list" where "VAR_REQ_METHOD = ascii ''req-Method''"
definition VAR_REQ_HEADER :: "u8 list" where "VAR_REQ_HEADER = ascii ''req-Header''"
definition VAR_REQ_URI :: "u8 list" where "VAR_REQ_URI = ascii ''req-URI''"
definition VAR_REQ_URL :: "u8 list" where "VAR_REQ_URL = ascii ''req-URL''"
definition VAR_REQ_URN :: "u8 list" where "VAR_REQ_URN = ascii ''req-URN''"
definition VAR_REQ_PROTOCOL :: "u8 list" where "VAR_REQ_PROTOCOL = ascii ''req-Protocol''"

section \<open>The connection\<close>

text \<open>What the connection calls: \<open>cSocketIO\<close>, the buffer map, \<open>time\<close>, \<open>strftime\<close>, and the two bytes of a local variable
  that are not initialised.\<close>

record ('n, 'b) http_env =
  e_alive :: "'n \<Rightarrow> bool"
  e_read :: "u32 \<Rightarrow> 'n \<Rightarrow> u8 list \<times> 'n"
  e_write :: "u8 list \<Rightarrow> 'n \<Rightarrow> u32 \<times> 'n"
  e_blocking :: "bool \<Rightarrow> 'n \<Rightarrow> 'n"
  e_peer_ip :: "'n \<Rightarrow> u32"
  e_peer_name :: "u32 \<Rightarrow> 'n \<Rightarrow> bool \<times> u8 list"
  e_alloc :: "'b \<Rightarrow> ((addr \<times> u8 list) option \<times> 'b) option"
  e_free :: "addr \<Rightarrow> u8 list \<Rightarrow> 'b \<Rightarrow> 'b option"
  e_bsize :: u32
  e_now :: int
  e_mtime :: "int \<Rightarrow> u8 list"
  e_stack :: "u8 \<times> u8"

record ('n, 'b) conn =
  mp_sio :: "'n option"
  mpi_bmap :: "'b option"
  mpi_req_map :: "u8 list cMap option"
  mpi_res_map :: "u8 list cMap option"
  mpi_cookie_list :: "u8 list cLlist option"
  m_ibuffer :: "(addr \<times> u8 list) option"
  m_oheader :: "(addr \<times> u8 list) option"
  m_obuffer :: "(addr \<times> u8 list) option"
  m_ibuffer_offset :: u32
  m_oheader_offset :: u32
  m_obuffer_offset :: u32
  m_oheader_sent :: u32
  m_obuffer_sent :: u32
  m_header_len :: u32
  m_res_content_len :: u64
  m_req_content_len :: u32
  m_req_content_rcv :: u32
  m_content_sent :: u64
  m_error_code :: u16
  m_response_code :: u16
  m_state :: u16
  m_stime :: int
  m_timeout :: u32
  m_udata :: "u64 list"
  m_res_protocol :: "u8 list"
  m_req_data :: bool
  m_content_type :: "u8 list option"
  mp_doc :: "u8 list option"
  m_res_hdr_prepared :: bool

section \<open>Buffers and socket\<close>

definition alloc_buffer :: "('n, 'b) http_env \<Rightarrow> ('n, 'b) conn \<Rightarrow> ((addr \<times> u8 list) option \<times> ('n, 'b) conn) option" where
  "alloc_buffer E c = do {
     b \<leftarrow> mpi_bmap c;
     (r, b) \<leftarrow> e_alloc E b;
     Some (r, c\<lparr>mpi_bmap := Some b\<rparr>) }"

definition free_buffer :: "('n, 'b) http_env \<Rightarrow> (addr \<times> u8 list) option \<Rightarrow> ('n, 'b) conn \<Rightarrow> ('n, 'b) conn option" where
  "free_buffer E hb c =
     (case hb of
        None \<Rightarrow> Some c
      | Some (h, bs) \<Rightarrow> do { b \<leftarrow> mpi_bmap c; b \<leftarrow> e_free E h bs b; Some (c\<lparr>mpi_bmap := Some b\<rparr>) })"

definition release_buffers :: "('n, 'b) http_env \<Rightarrow> ('n, 'b) conn \<Rightarrow> ('n, 'b) conn option" where
  "release_buffers E c = do {
     c \<leftarrow> free_buffer E (m_ibuffer c) c;
     c \<leftarrow> Some (c\<lparr>m_ibuffer := None\<rparr>);
     c \<leftarrow> free_buffer E (m_oheader c) c;
     c \<leftarrow> Some (c\<lparr>m_oheader := None\<rparr>);
     c \<leftarrow> free_buffer E (m_obuffer c) c;
     Some (c\<lparr>m_obuffer := None\<rparr>) }"

definition clean_members :: "('n, 'b) http_env \<Rightarrow> ('n, 'b) conn \<Rightarrow> ('n, 'b) conn option" where
  "clean_members E c = do {
     c \<leftarrow> release_buffers E (c\<lparr>m_state := 0\<rparr>);
     let c = c\<lparr>m_ibuffer_offset := 0, m_oheader_offset := 0, m_obuffer_offset := 0, m_response_code := 0, m_error_code := 0,
               m_res_content_len := 0, m_req_content_len := 0, m_req_content_rcv := 0, m_oheader_sent := 0, m_obuffer_sent := 0,
               m_content_sent := 0, m_header_len := 0, m_content_type := None, mp_doc := None, m_req_data := False,
               m_res_hdr_prepared := False, m_stime := e_now E, m_res_protocol := c_strncpy 15 (ascii ''HTTP/1.1'')\<rparr>;
     q \<leftarrow> mpi_req_map c;
     (_, q) \<leftarrow> cMap_clr q 0;
     s \<leftarrow> mpi_res_map c;
     (_, s) \<leftarrow> cMap_clr s 0;
     l \<leftarrow> mpi_cookie_list c;
     (_, l) \<leftarrow> cLlist_clr l 0;
     Some (c\<lparr>mpi_req_map := Some q, mpi_res_map := Some s, mpi_cookie_list := Some l\<rparr>) }"

definition conn_close :: "('n, 'b) http_env \<Rightarrow> ('n, 'b) conn \<Rightarrow> ('n, 'b) conn option" where
  "conn_close E c = release_buffers E (c\<lparr>mp_sio := None\<rparr>)"

text \<open>\<open>object_ctl\<close>: the maps and the list that the repository hands out, and the heap it hands to each of them.\<close>

definition conn_object_ctl :: "('n, 'b) http_env \<Rightarrow> octl \<Rightarrow> bool \<Rightarrow> u8 list cMap option \<Rightarrow> u8 list cMap option \<Rightarrow> u8 list cLlist option \<Rightarrow>
    cZoneHeap option \<Rightarrow> ('n, 'b) conn \<Rightarrow> (bool \<times> ('n, 'b) conn) option" where
  "conn_object_ctl E cmd str_ok req res cookies repo_heap c =
     (case cmd of
        OCTL_INIT \<Rightarrow>
          (let c = c\<lparr>mp_sio := None, mpi_bmap := None, m_udata := replicate 8 0, m_ibuffer := None, m_oheader := None, m_obuffer := None,
                     mpi_req_map := req, mpi_res_map := res, mpi_cookie_list := cookies\<rparr>
           in case (str_ok, req, res, cookies) of
                (True, Some q, Some s, Some l) \<Rightarrow> do {
                  (r1, q) \<leftarrow> cMap_init q 31 None repo_heap;
                  (r2, s) \<leftarrow> cMap_init s 31 None repo_heap;
                  (r3, l) \<leftarrow> cLlist_init l LL_MODE_VECTOR 1 None repo_heap;
                  c \<leftarrow> clean_members E (c\<lparr>mpi_req_map := Some q, mpi_res_map := Some s, mpi_cookie_list := Some l\<rparr>);
                  Some (r1 \<and> r2 \<and> r3, c) }
              | _ \<Rightarrow> Some (False, c))
      | OCTL_UNINIT \<Rightarrow> do { c \<leftarrow> conn_close E c; Some (True, c) }
      | _ \<Rightarrow> Some (False, c))"

definition conn_init :: "('n, 'b) http_env \<Rightarrow> 'n option \<Rightarrow> 'b \<Rightarrow> u32 \<Rightarrow> ('n, 'b) conn \<Rightarrow> (bool \<times> ('n, 'b) conn) option" where
  "conn_init E sio bmap timeout c =
     (case sio of
        Some s \<Rightarrow>
          if mp_sio c = None \<and> e_alive E s then do {
            c \<leftarrow> clean_members E c;
            Some (True, c\<lparr>mp_sio := Some (e_blocking E False s), mpi_bmap := Some bmap, m_timeout := timeout\<rparr>) }
          else Some (False, c)
      | None \<Rightarrow> Some (False, c))"

definition conn_alive :: "('n, 'b) http_env \<Rightarrow> ('n, 'b) conn \<Rightarrow> bool" where
  "conn_alive E c = (case mp_sio c of None \<Rightarrow> False | Some s \<Rightarrow> e_alive E s)"

definition peer_ip :: "('n, 'b) http_env \<Rightarrow> ('n, 'b) conn \<Rightarrow> u32" where
  "peer_ip E c = (case mp_sio c of None \<Rightarrow> 0 | Some s \<Rightarrow> e_peer_ip E s)"

definition peer_name :: "('n, 'b) http_env \<Rightarrow> u32 \<Rightarrow> ('n, 'b) conn \<Rightarrow> bool \<times> u8 list" where
  "peer_name E n c = (case mp_sio c of None \<Rightarrow> (False, []) | Some s \<Rightarrow> e_peer_name E n s)"

definition get_rc_text :: "u16 \<Rightarrow> u8 list" where
  "get_rc_text rc = (case map_of http_resp_text rc of Some t \<Rightarrow> ascii t | None \<Rightarrow> ascii ''...'')"

text \<open>\<open>read\<close> puts the bytes at the end of what is in the buffer.\<close>

definition receive :: "('n, 'b) http_env \<Rightarrow> ('n, 'b) conn \<Rightarrow> (u32 \<times> ('n, 'b) conn) option" where
  "receive E c =
     (if conn_alive E c then do {
        c \<leftarrow> (if m_ibuffer c = None then do { (h, c) \<leftarrow> alloc_buffer E c; Some (c\<lparr>m_ibuffer := h\<rparr>) } else Some c);
        (case m_ibuffer c of
           None \<Rightarrow> Some (0, c)
         | Some (h, buf) \<Rightarrow> do {
             s \<leftarrow> mp_sio c;
             let (d, s) = e_read E (e_bsize E - m_ibuffer_offset c) s;
             let p = unat (m_ibuffer_offset c);
             if p + length d \<le> length buf
             then Some (of_nat (length d), c\<lparr>mp_sio := Some s, m_ibuffer := Some (h, write_at buf p d),
                                             m_ibuffer_offset := m_ibuffer_offset c + of_nat (length d)\<rparr>)
             else None }) }
      else Some (0, c))"

section \<open>Request variables\<close>

text \<open>A value is given by its position in a block of bytes.\<close>

definition bytes_in :: "u8 list \<Rightarrow> nat \<Rightarrow> nat \<Rightarrow> u8 list option" where
  "bytes_in mem p n = (if p + n \<le> length mem then Some (bytes_at p n mem) else None)"

definition req_add :: "u8 list \<Rightarrow> u8 list \<Rightarrow> ('n, 'b) conn \<Rightarrow> (bool \<times> ('n, 'b) conn) option" where
  "req_add name v c = do {
     q \<leftarrow> mpi_req_map c;
     (r, q) \<leftarrow> cMap_add q name v (of_nat (length v)) 0;
     Some (r \<noteq> None, c\<lparr>mpi_req_map := Some q\<rparr>) }"

definition add_req_variable :: "u8 list \<Rightarrow> u8 list \<Rightarrow> nat \<Rightarrow> nat \<Rightarrow> ('n, 'b) conn \<Rightarrow> (bool \<times> ('n, 'b) conn) option" where
  "add_req_variable name mem p sz c = do {
     n \<leftarrow> (if sz \<noteq> 0 then Some sz else str_len p mem);
     v \<leftarrow> bytes_in mem p n;
     req_add name v c }"

definition var_data :: "'a cMap \<Rightarrow> addr \<Rightarrow> 'a option" where
  "var_data m a = (case pp_list (map_cxt m) of
     None \<Rightarrow> None
   | Some (_, bs) \<Rightarrow> map_option mr_data (find (\<lambda>r. mr_addr r = a) (concat bs)))"

definition req_var :: "u8 list \<Rightarrow> ('n, 'b) conn \<Rightarrow> (u8 list option \<times> ('n, 'b) conn) option" where
  "req_var name c = do {
     q \<leftarrow> mpi_req_map c;
     (r, q) \<leftarrow> cMap_get q name 0;
     v \<leftarrow> (case r of None \<Rightarrow> Some None | Some (a, sz) \<Rightarrow> do { d \<leftarrow> var_data q a; Some (Some (c_string d)) });
     Some (v, c\<lparr>mpi_req_map := Some q\<rparr>) }"

definition req_header :: "('n, 'b) conn \<Rightarrow> (u8 list option \<times> ('n, 'b) conn) option" where
  "req_header c = req_var VAR_REQ_HEADER c"

definition req_uri :: "('n, 'b) conn \<Rightarrow> (u8 list option \<times> ('n, 'b) conn) option" where
  "req_uri c = req_var VAR_REQ_URI c"

definition req_url :: "('n, 'b) conn \<Rightarrow> (u8 list option \<times> ('n, 'b) conn) option" where
  "req_url c = req_var VAR_REQ_URL c"

definition req_urn :: "('n, 'b) conn \<Rightarrow> (u8 list option \<times> ('n, 'b) conn) option" where
  "req_urn c = req_var VAR_REQ_URN c"

definition req_protocol :: "('n, 'b) conn \<Rightarrow> (u8 list option \<times> ('n, 'b) conn) option" where
  "req_protocol c = req_var VAR_REQ_PROTOCOL c"

definition method_of :: "u8 list \<Rightarrow> u8" where
  "method_of sm = (case find (\<lambda>(im, m). ascii m = sm) method_map of None \<Rightarrow> 0 | Some (im, m) \<Rightarrow> im)"

definition req_method :: "('n, 'b) conn \<Rightarrow> (u8 \<times> ('n, 'b) conn) option" where
  "req_method c = do {
     (sm, c) \<leftarrow> req_var VAR_REQ_METHOD c;
     Some (case sm of None \<Rightarrow> 0 | Some m \<Rightarrow> method_of m, c) }"

definition req_data :: "('n, 'b) conn \<Rightarrow> (u8 list \<times> u32) option" where
  "req_data c = (if m_req_data c then map_option (\<lambda>(h, buf). (buf, m_ibuffer_offset c)) (m_ibuffer c) else None)"

section \<open>Parsing a request\<close>

text \<open>The end of the header is looked for in the whole buffer, not only in the bytes received. The pattern is a string
  constant somewhere else in memory, here behind the buffer.\<close>

definition complete_req_header :: "('n, 'b) http_env \<Rightarrow> ('n, 'b) conn \<Rightarrow> (bool \<times> ('n, 'b) conn) option" where
  "complete_req_header E c =
     (if m_ibuffer_offset c \<noteq> 0 then
        (case m_ibuffer c of
           None \<Rightarrow> Some (False, c)
         | Some (h, buf) \<Rightarrow> do {
             hl \<leftarrow> nfind_string 0 (unat (e_bsize E)) (length buf) (buf @ crlf @ crlf @ [0]);
             if hl \<noteq> -1 then do {
               (_, c) \<leftarrow> add_req_variable VAR_REQ_HEADER buf 0 (nat hl) c;
               Some (True, c\<lparr>m_header_len := of_int hl + 4\<rparr>) }
             else Some (False, c\<lparr>m_header_len := 0\<rparr>) })
      else Some (False, c))"

text \<open>The state of the loop over \<open>name=value\<close> pairs: start and length of name and value.\<close>

record pair_state =
  p_name :: "nat option"
  p_sz_name :: nat
  p_value :: "nat option"
  p_sz_value :: nat

definition no_pair :: pair_state where "no_pair = \<lparr>p_name = None, p_sz_name = 0, p_value = None, p_sz_value = 0\<rparr>"

definition add_pair :: "u8 list \<Rightarrow> pair_state \<Rightarrow> ('n, 'b) conn \<Rightarrow> ('n, 'b) conn option" where
  "add_pair dec s c =
     (case (p_name s, p_value s) of
        (Some n, Some v) \<Rightarrow>
          if p_sz_name s \<noteq> 0 \<and> p_sz_value s \<noteq> 0 then do {
            name \<leftarrow> bytes_in dec n (p_sz_name s);
            val \<leftarrow> bytes_in dec v (p_sz_value s);
            (_, c) \<leftarrow> req_add name val c;
            Some c }
          else Some c
      | _ \<Rightarrow> Some c)"

definition pair_char :: "nat \<Rightarrow> pair_state \<Rightarrow> pair_state" where
  "pair_char i s =
     (if p_value s \<noteq> None then s\<lparr>p_sz_value := p_sz_value s + 1\<rparr>
      else if p_name s \<noteq> None then s\<lparr>p_sz_name := p_sz_name s + 1\<rparr>
      else s\<lparr>p_name := Some i, p_sz_name := 1\<rparr>)"

fun pair_loop :: "nat \<Rightarrow> nat \<Rightarrow> u8 list \<Rightarrow> pair_state \<Rightarrow> ('n, 'b) conn \<Rightarrow> ('n, 'b) conn option" where
  "pair_loop 0 i dec s c = add_pair dec s c"
| "pair_loop (Suc n) i dec s c = do {
     b \<leftarrow> rd dec i;
     if b = 0x3D then pair_loop n (i + 1) dec (s\<lparr>p_value := Some (i + 1)\<rparr>) c
     else if b = 0x26 then do { c \<leftarrow> add_pair dec s c; pair_loop n (i + 1) dec no_pair c }
     else pair_loop n (i + 1) dec (pair_char i s) c }"

text \<open>The number of bytes before a \<open>?\<close>, at most \<open>n\<close>.\<close>

fun url_part :: "nat \<Rightarrow> nat \<Rightarrow> u8 list \<Rightarrow> nat option" where
  "url_part 0 i dec = Some i"
| "url_part (Suc n) i dec = do { b \<leftarrow> rd dec i; if b = 0x3F then Some i else url_part n (i + 1) dec }"

definition parse_url :: "('n, 'b) http_env \<Rightarrow> u8 list \<Rightarrow> nat \<Rightarrow> nat \<Rightarrow> ('n, 'b) conn \<Rightarrow> ('n, 'b) conn option" where
  "parse_url E mem url sz_max c = do {
     (hburl, c) \<leftarrow> alloc_buffer E c;
     (case hburl of
        None \<Rightarrow> Some c
      | Some (h, decoded) \<Rightarrow> do {
          (sz_decoded, decoded) \<leftarrow> UrlDecode (drop url mem) sz_max decoded (unat (e_bsize E));
          (_, c) \<leftarrow> add_req_variable VAR_REQ_URI decoded 0 sz_decoded c;
          i \<leftarrow> url_part sz_decoded 0 decoded;
          (_, c) \<leftarrow> add_req_variable VAR_REQ_URL decoded 0 i c;
          c \<leftarrow> (if i < sz_decoded then do {
                 (_, c) \<leftarrow> add_req_variable VAR_REQ_URN decoded (i + 1) (sz_decoded - (i + 1)) c;
                 pair_loop (sz_decoded - (i + 1)) (i + 1) decoded no_pair c }
               else Some c);
          free_buffer E (Some (h, decoded)) c }) }"

text \<open>The loops over the request line and over a line of the header, as functions of the bytes: \<open>i\<close> is the field,
  \<open>n\<close> the length counted so far, \<open>cc\<close> the byte before. The result is the number of bytes taken, with starts and lengths of
  the fields.\<close>

type_synonym fields = "(nat \<rightharpoonup> nat) \<times> (nat \<Rightarrow> nat)"

fun line_loop :: "nat \<Rightarrow> u8 list \<Rightarrow> nat \<Rightarrow> nat \<Rightarrow> nat \<Rightarrow> nat \<Rightarrow> u8 \<Rightarrow> fields \<Rightarrow> (nat \<times> fields) option" where
  "line_loop 0 mem req r i n cc (fld, sz) = Some (r, fld, sz)"
| "line_loop (Suc k) mem req r i n cc (fld, sz) =
     (if i < 3 then do {
        b \<leftarrow> rd mem (req + r);
        if b = 0x20 then
          (if b \<noteq> cc then line_loop k mem req (r + 1) i 0 b (fld, sz(i := n)) else line_loop k mem req (r + 1) i n b (fld, sz))
        else if b = 13 then line_loop k mem req (r + 1) i 0 b (fld, sz(i := n))
        else if b = 10 then line_loop k mem req (r + 1) (if cc = 13 then 3 else i) n b (fld, sz)
        else if cc = 0x20 then line_loop k mem req (r + 1) (i + 1) 1 b (fld(i + 1 \<mapsto> req + r), sz)
        else line_loop k mem req (r + 1) i (n + 1) b (fld, sz) }
      else Some (r, fld, sz))"

definition parse_request_line :: "('n, 'b) http_env \<Rightarrow> u8 list \<Rightarrow> nat \<Rightarrow> nat \<Rightarrow> ('n, 'b) conn \<Rightarrow> (nat \<times> ('n, 'b) conn) option" where
  "parse_request_line E mem req sz_max c = do {
     (r, fld, sz) \<leftarrow> line_loop sz_max mem req 0 0 0 0 ([0 \<mapsto> req], \<lambda>_. 0);
     c \<leftarrow> (case fld 0 of
            Some p \<Rightarrow> if sz 0 \<noteq> 0 \<and> sz 0 < sz_max then map_option snd (add_req_variable VAR_REQ_METHOD mem p (sz 0) c) else Some c
          | None \<Rightarrow> Some c);
     c \<leftarrow> (case fld 1 of
            Some p \<Rightarrow> if sz 1 \<noteq> 0 \<and> sz 1 < sz_max then parse_url E mem p (sz 1) c else Some c
          | None \<Rightarrow> Some c);
     c \<leftarrow> (case fld 2 of
            Some p \<Rightarrow> if sz 2 \<noteq> 0 \<and> sz 2 < sz_max then map_option snd (add_req_variable VAR_REQ_PROTOCOL mem p (sz 2) c) else Some c
          | None \<Rightarrow> Some c);
     Some (r, c) }"

fun var_loop :: "nat \<Rightarrow> u8 list \<Rightarrow> nat \<Rightarrow> nat \<Rightarrow> nat \<Rightarrow> nat \<Rightarrow> u8 \<Rightarrow> bool \<Rightarrow> fields \<Rightarrow> (nat \<times> fields) option" where
  "var_loop 0 mem var r i n cc val (fld, sz) = Some (r, fld, sz)"
| "var_loop (Suc k) mem var r i n cc val (fld, sz) =
     (if i < 2 then do {
        b \<leftarrow> rd mem (var + r);
        if b = 0x20 then var_loop k mem var (r + 1) i (if cc \<noteq> 0x3A \<and> i \<noteq> 0 then n + 1 else n) b val (fld, sz)
        else if b = 0x3A then
          (if i = 0 then var_loop k mem var (r + 1) (i + 1) 0 b val (fld, sz(i := n))
           else var_loop k mem var (r + 1) i (n + 1) b val (fld, sz))
        else if b = 13 then var_loop k mem var (r + 1) i n b val (fld, if i \<noteq> 0 then sz(i := n) else sz)
        else if b = 10 then var_loop k mem var (r + 1) (if cc = 13 then 2 else i) n b val (fld, sz)
        else if \<not> val \<and> i \<noteq> 0 \<and> cc = 0x20 then var_loop k mem var (r + 1) i 1 b True (fld(i \<mapsto> var + r), sz)
        else var_loop k mem var (r + 1) i (n + 1) b val (fld, sz) }
      else Some (r, fld, sz))"

definition parse_var_line :: "u8 list \<Rightarrow> nat \<Rightarrow> nat \<Rightarrow> ('n, 'b) conn \<Rightarrow> (nat \<times> ('n, 'b) conn) option" where
  "parse_var_line mem var sz_max c = do {
     (r, fld, sz) \<leftarrow> var_loop sz_max mem var 0 0 0 0 False ([0 \<mapsto> var], \<lambda>_. 0);
     c \<leftarrow> (case (fld 0, fld 1) of
            (Some p, Some q) \<Rightarrow>
              if sz 0 \<noteq> 0 \<and> sz 1 \<noteq> 0 \<and> sz 0 < sz_max \<and> sz 1 < sz_max then do {
                name \<leftarrow> bytes_in mem p (sz 0);
                v \<leftarrow> bytes_in mem q (sz 1);
                (_, c) \<leftarrow> req_add name v c;
                Some c }
              else Some c
          | _ \<Rightarrow> Some c);
     Some (r, c) }"

text \<open>\<open>while(offset && offset < m_header_len)\<close>: every line takes at least one byte, or ends the loop.\<close>

fun header_loop :: "nat \<Rightarrow> u8 list \<Rightarrow> nat \<Rightarrow> nat \<Rightarrow> ('n, 'b) conn \<Rightarrow> (nat \<times> ('n, 'b) conn) option" where
  "header_loop 0 hdr offset len c = (if offset \<noteq> 0 \<and> offset < len then None else Some (offset, c))"
| "header_loop (Suc k) hdr offset len c =
     (if offset \<noteq> 0 \<and> offset < len then do {
        (n, c) \<leftarrow> parse_var_line hdr offset (len - offset) c;
        header_loop k hdr (if n \<noteq> 0 then offset + n else 0) len c }
      else Some (offset, c))"

definition parse_req_header :: "('n, 'b) http_env \<Rightarrow> ('n, 'b) conn \<Rightarrow> (bool \<times> ('n, 'b) conn) option" where
  "parse_req_header E c =
     (case m_ibuffer c of
        Some (h, hdr) \<Rightarrow>
          if m_ibuffer_offset c \<noteq> 0 then do {
            let len = unat (m_header_len c);
            (offset, c) \<leftarrow> parse_request_line E hdr 0 len c;
            (offset, c) \<leftarrow> header_loop len hdr offset len c;
            if offset = len then do {
              c \<leftarrow> (if m_ibuffer_offset c > m_header_len c then do {
                     let n = m_ibuffer_offset c - m_header_len c;
                     hdr \<leftarrow> mem_cpy 0 len (unat n) hdr;
                     hdr \<leftarrow> wr hdr (unat n) 0;
                     Some (c\<lparr>m_ibuffer := Some (h, hdr), m_ibuffer_offset := n, m_req_data := True\<rparr>) }
                   else Some (c\<lparr>m_ibuffer_offset := 0, m_req_data := False\<rparr>));
              (cl, c) \<leftarrow> req_var (ascii ''Content-Length'') (c\<lparr>m_header_len := 0\<rparr>);
              let c = (case cl of None \<Rightarrow> c | Some v \<Rightarrow> c\<lparr>m_req_content_len := of_int (c_atoi v)\<rparr>);
              Some (True, c\<lparr>m_req_content_rcv := m_ibuffer_offset c\<rparr>) }
            else Some (False, c) }
          else Some (False, c)
      | None \<Rightarrow> Some (False, c))"

definition req_parse_content :: "('n, 'b) http_env \<Rightarrow> ('n, 'b) conn \<Rightarrow> (bool \<times> ('n, 'b) conn) option" where
  "req_parse_content E c =
     (case req_data c of
        Some (data, sz) \<Rightarrow>
          if sz \<noteq> 0 then do {
            (hb, c) \<leftarrow> alloc_buffer E c;
            (case hb of
               None \<Rightarrow> Some (False, c)
             | Some (h, decoded) \<Rightarrow> do {
                 (sz_decoded, decoded) \<leftarrow> UrlDecode data (unat sz) decoded (unat (e_bsize E));
                 c \<leftarrow> pair_loop sz_decoded 0 decoded no_pair c;
                 c \<leftarrow> free_buffer E (Some (h, decoded)) c;
                 Some (True, c) }) }
          else Some (False, c)
      | None \<Rightarrow> Some (False, c))"

section \<open>The response\<close>

text \<open>The result type of \<open>res_remainder\<close> is wider than the variable that holds it.\<close>

definition res_remainder :: "('n, 'b) conn \<Rightarrow> u64" where
  "res_remainder c =
     (if m_content_sent c < m_res_content_len c then ucast (ucast (m_res_content_len c - m_content_sent c) :: u32) else 0)"

definition clear_ibuffer :: "('n, 'b) http_env \<Rightarrow> ('n, 'b) conn \<Rightarrow> ('n, 'b) conn option" where
  "clear_ibuffer E c =
     (case m_ibuffer c of
        None \<Rightarrow> Some c
      | Some (h, buf) \<Rightarrow> do {
          buf \<leftarrow> mem_set 0 0 (unat (e_bsize E)) buf;
          Some (c\<lparr>m_ibuffer := Some (h, buf), m_ibuffer_offset := 0\<rparr>) })"

text \<open>\<open>_http_res_var_t\<close>: 128 bytes for the name and 384 for the value; \<open>strncpy\<close> does not write the last byte of either.\<close>

definition res_var_bytes :: "u8 \<times> u8 \<Rightarrow> u8 list \<Rightarrow> u8 list \<Rightarrow> u8 list" where
  "res_var_bytes junk name val = c_strncpy 127 name @ [fst junk] @ c_strncpy 383 val @ [snd junk]"

definition res_var :: "('n, 'b) http_env \<Rightarrow> u8 list \<Rightarrow> u8 list \<Rightarrow> ('n, 'b) conn \<Rightarrow> (bool \<times> ('n, 'b) conn) option" where
  "res_var E name val c =
     (case mpi_res_map c of
        None \<Rightarrow> Some (False, c)
      | Some m \<Rightarrow> do {
          (r, m) \<leftarrow> cMap_set m (c_string name) (res_var_bytes (e_stack E) name val) 512 0;
          Some (r \<noteq> None, c\<lparr>mpi_res_map := Some m\<rparr>) })"

definition res_protocol :: "u8 list \<Rightarrow> ('n, 'b) conn \<Rightarrow> ('n, 'b) conn" where
  "res_protocol protocol c = c\<lparr>m_res_protocol := c_strncpy 15 protocol\<rparr>"

definition res_code :: "u16 \<Rightarrow> ('n, 'b) conn \<Rightarrow> ('n, 'b) conn" where
  "res_code rc c = c\<lparr>m_error_code := rc, m_response_code := rc\<rparr>"

definition set_res_content_len :: "u64 \<Rightarrow> ('n, 'b) conn \<Rightarrow> bool \<times> ('n, 'b) conn" where
  "set_res_content_len n c = (True, c\<lparr>m_res_content_len := n\<rparr>)"

definition res_content_type :: "u8 list option \<Rightarrow> ('n, 'b) conn \<Rightarrow> ('n, 'b) conn" where
  "res_content_type t c = c\<lparr>m_content_type := t\<rparr>"

definition res_content :: "u8 list option \<Rightarrow> u64 \<Rightarrow> ('n, 'b) conn \<Rightarrow> ('n, 'b) conn" where
  "res_content doc n c = c\<lparr>mp_doc := doc, m_res_content_len := n\<rparr>"

definition set_conn_udata :: "u64 \<Rightarrow> u8 \<Rightarrow> ('n, 'b) conn \<Rightarrow> ('n, 'b) conn" where
  "set_conn_udata v i c = (if i < 8 then c\<lparr>m_udata := (m_udata c)[unat i := v]\<rparr> else c)"

definition get_conn_udata :: "u8 \<Rightarrow> ('n, 'b) conn \<Rightarrow> u64" where
  "get_conn_udata i c = (if i < 8 then m_udata c ! unat i else 0)"

text \<open>One more piece of a cookie: \<open>n\<close> may run past the array, and then there is no room left.\<close>

definition cookie_add :: "u8 list \<Rightarrow> u32 \<times> u8 list \<Rightarrow> (u32 \<times> u8 list) option" where
  "cookie_add s x = (case x of (n, val) \<Rightarrow>
     if unat n \<le> 4096 then do { (k, val) \<leftarrow> c_snprintf val (unat n) (4096 - unat n) s; Some (n + k, val) } else None)"

definition cookie_opt :: "string \<Rightarrow> u8 list option \<Rightarrow> u32 \<times> u8 list \<Rightarrow> (u32 \<times> u8 list) option" where
  "cookie_opt name v x = (case v of None \<Rightarrow> Some x | Some v \<Rightarrow> cookie_add (ascii name @ c_string v) x)"

definition cookie_flag :: "u8 \<Rightarrow> nat \<Rightarrow> string \<Rightarrow> u32 \<times> u8 list \<Rightarrow> (u32 \<times> u8 list) option" where
  "cookie_flag flags b name x = (if bit flags b then cookie_add (ascii name) x else Some x)"

definition res_cookie :: "u8 list \<Rightarrow> u8 list \<Rightarrow> u8 \<Rightarrow> u8 list option \<Rightarrow> u8 list option \<Rightarrow> u8 list option \<Rightarrow> u8 list option \<Rightarrow>
    ('n, 'b) conn \<Rightarrow> ('n, 'b) conn option" where
  "res_cookie name val flags expires max_age path domain c = do {
     x \<leftarrow> cookie_add (c_string name @ [0x3D] @ c_string val) (0, replicate 4096 0);
     x \<leftarrow> cookie_flag flags 0 ''; Secure'' x;
     x \<leftarrow> cookie_flag flags 1 ''; HttpOnly'' x;
     x \<leftarrow> cookie_flag flags 2 ''; SameSite=Strict'' x;
     x \<leftarrow> cookie_flag flags 3 ''; SameSite=Lax'' x;
     x \<leftarrow> cookie_opt ''; Expires='' expires x;
     x \<leftarrow> cookie_opt ''; Max-Age='' max_age x;
     x \<leftarrow> cookie_opt ''; Path='' path x;
     (n, v) \<leftarrow> cookie_opt ''; Domain='' domain x;
     v \<leftarrow> bytes_in v 0 (unat (n + 1));
     l \<leftarrow> mpi_cookie_list c;
     (_, l) \<leftarrow> cLlist_add l v (n + 1) 0;
     Some (c\<lparr>mpi_cookie_list := Some l\<rparr>) }"

definition res_mtime :: "('n, 'b) http_env \<Rightarrow> int \<Rightarrow> ('n, 'b) conn \<Rightarrow> (bool \<times> ('n, 'b) conn) option" where
  "res_mtime E t c = res_var E (ascii ''Last-Modified'') (e_mtime E t) c"

text \<open>The callback of the enumeration of the response variables works on the bytes and the offset of the header buffer.\<close>

definition header_line :: "u8 list \<Rightarrow> u8 list \<Rightarrow> u8 list" where
  "header_line name val = name @ [0x3A, 0x20] @ val @ crlf"

definition put_res_var :: "u32 \<Rightarrow> u8 list \<Rightarrow> u8 list \<times> u32 \<Rightarrow> (u8 list \<times> u32) option" where
  "put_res_var sz rv x = (case x of (buf, off) \<Rightarrow> do {
     n \<leftarrow> str_len 0 (rv @ [0]);
     v \<leftarrow> str_len 128 (rv @ [0]);
     let sz_data = (of_nat (v + n + 4) :: u32);
     let rem = (if sz > off then sz - off else 0);
     if rem > sz_data then do {
       (k, buf) \<leftarrow> c_snprintf buf (unat off) (unat rem) (header_line (bytes_at 0 n rv) (bytes_at 128 v rv));
       Some (buf, off + k) }
     else Some (buf, off) })"

definition put_res_var_cb :: "u32 \<Rightarrow> u8 list \<Rightarrow> u32 \<Rightarrow> (u8 list \<times> u32) option \<Rightarrow> enum_op \<times> (u8 list \<times> u32) option" where
  "put_res_var_cb bsz rv n x = (MAP_ENUM_CONTINUE, x \<bind> put_res_var bsz rv)"

fun cookie_loop :: "('n, 'b) http_env \<Rightarrow> nat \<Rightarrow> (addr \<times> u32) option \<Rightarrow> ('n, 'b) conn \<Rightarrow> ('n, 'b) conn option" where
  "cookie_loop E k None c = Some c"
| "cookie_loop E 0 (Some r) c = None"
| "cookie_loop E (Suc k) (Some (a, sz)) c = do {
     l \<leftarrow> mpi_cookie_list c;
     it \<leftarrow> heap l a;
     (_, c) \<leftarrow> res_var E (ascii ''Set-Cookie'') (it_data it) c;
     (r, l) \<leftarrow> cLlist_next l 0;
     cookie_loop E k r (c\<lparr>mpi_cookie_list := Some l\<rparr>) }"

definition put_cookies :: "('n, 'b) http_env \<Rightarrow> nat \<Rightarrow> ('n, 'b) conn \<Rightarrow> ('n, 'b) conn option" where
  "put_cookies E k c = do {
     l \<leftarrow> mpi_cookie_list c;
     (n, l) \<leftarrow> cLlist_cnt l 0;
     if n \<noteq> 0 then do {
       (r, l) \<leftarrow> cLlist_first l 0;
       c \<leftarrow> cookie_loop E k r (c\<lparr>mpi_cookie_list := Some l\<rparr>);
       l \<leftarrow> mpi_cookie_list c;
       (_, l) \<leftarrow> cLlist_clr l 0;
       Some (c\<lparr>mpi_cookie_list := Some l\<rparr>) }
     else Some (c\<lparr>mpi_cookie_list := Some l\<rparr>) }"

text \<open>\<open>k\<close> bounds the number of cookies and of response variables.\<close>

definition prepare_res_header :: "('n, 'b) http_env \<Rightarrow> nat \<Rightarrow> ('n, 'b) conn \<Rightarrow> ('n, 'b) conn option" where
  "prepare_res_header E k c = do {
     c \<leftarrow> (case m_content_type c of
            None \<Rightarrow> Some c
          | Some t \<Rightarrow> map_option snd (res_var E (ascii ''Content-Type'') t c));
     c \<leftarrow> (if m_res_content_len c \<noteq> 0
          then map_option snd (res_var E (ascii ''Content-Length'') (decimal (unat (m_res_content_len c))) c) else Some c);
     c \<leftarrow> put_cookies E k c;
     c \<leftarrow> (if m_oheader c = None then do { (h, c) \<leftarrow> alloc_buffer E c; Some (c\<lparr>m_oheader := h\<rparr>) } else Some c);
     (case m_oheader c of
        None \<Rightarrow> Some c
      | Some (h, buf) \<Rightarrow> do {
          m \<leftarrow> mpi_res_map c;
          (x, m) \<leftarrow> cMap_enumerate k m (put_res_var_cb (e_bsize E)) (Some (buf, m_oheader_offset c)) 0;
          (buf, off) \<leftarrow> x;
          Some (c\<lparr>mpi_res_map := Some m, m_oheader := Some (h, buf), m_oheader_offset := off, m_res_hdr_prepared := True\<rparr>) }) }"

definition sio_write :: "('n, 'b) http_env \<Rightarrow> u8 list \<Rightarrow> ('n, 'b) conn \<Rightarrow> (u32 \<times> ('n, 'b) conn) option" where
  "sio_write E d c = do { s \<leftarrow> mp_sio c; Some (case e_write E d s of (r, s) \<Rightarrow> (r, c\<lparr>mp_sio := Some s\<rparr>)) }"

definition sio_blocking :: "('n, 'b) http_env \<Rightarrow> bool \<Rightarrow> ('n, 'b) conn \<Rightarrow> ('n, 'b) conn option" where
  "sio_blocking E b c = do { s \<leftarrow> mp_sio c; Some (c\<lparr>mp_sio := Some (e_blocking E b s)\<rparr>) }"

definition status_line :: "('n, 'b) conn \<Rightarrow> u8 list" where
  "status_line c = c_string (m_res_protocol c) @ [0x20] @ decimal (unat (m_response_code c)) @ [0x20] @ get_rc_text (m_response_code c) @ crlf"

definition send_header :: "('n, 'b) http_env \<Rightarrow> nat \<Rightarrow> ('n, 'b) conn \<Rightarrow> (u32 \<times> ('n, 'b) conn) option" where
  "send_header E k c =
     (if m_response_code c \<noteq> 0 then do {
        c \<leftarrow> (if \<not> m_res_hdr_prepared c then prepare_res_header E k c else Some c);
        c \<leftarrow> sio_blocking E True c;
        c \<leftarrow> (if m_oheader_sent c = 0 then do {
               (n, rs) \<leftarrow> c_snprintf (replicate 128 0) 0 128 (status_line c);
               d \<leftarrow> bytes_in rs 0 (unat n);
               map_option snd (sio_write E d c) }
             else Some c);
        (r, c) \<leftarrow> (if m_oheader_offset c \<noteq> 0 then
               (case m_oheader c of
                  None \<Rightarrow> Some (0, c)
                | Some (h, buf) \<Rightarrow> do {
                    d \<leftarrow> bytes_in buf (unat (m_oheader_sent c)) (unat (m_oheader_offset c - m_oheader_sent c));
                    (r, c) \<leftarrow> sio_write E d c;
                    Some (r, c\<lparr>m_oheader_sent := m_oheader_sent c + r\<rparr>) })
             else Some (0, c));
        c \<leftarrow> (if m_oheader_sent c = m_oheader_offset c then do {
               (_, c) \<leftarrow> sio_write E crlf c;
               Some (c\<lparr>m_oheader_sent := r, m_res_hdr_prepared := False\<rparr>) }
             else Some c);
        c \<leftarrow> sio_blocking E False c;
        Some (r, c) }
      else Some (0, c))"

definition receive_content :: "('n, 'b) http_env \<Rightarrow> ('n, 'b) conn \<Rightarrow> (u32 \<times> ('n, 'b) conn) option" where
  "receive_content E c = do {
     (r, c) \<leftarrow> receive E c;
     Some (r, c\<lparr>m_req_content_rcv := m_req_content_rcv c + r\<rparr>) }"

text \<open>The lengths of the document and of its rest are longs, the size of a write is not.\<close>

definition send_content :: "('n, 'b) http_env \<Rightarrow> ('n, 'b) conn \<Rightarrow> (u32 \<times> ('n, 'b) conn) option" where
  "send_content E c =
     (if m_res_content_len c \<noteq> 0 \<and> m_content_sent c < m_res_content_len c then
        (case mp_doc c of
           Some doc \<Rightarrow> do {
             let len = (ucast (m_res_content_len c - m_content_sent c) :: u32);
             c \<leftarrow> sio_blocking E True c;
             d \<leftarrow> bytes_in doc (unat (m_content_sent c)) (unat len);
             (r, c) \<leftarrow> sio_write E d c;
             c \<leftarrow> sio_blocking E False (c\<lparr>m_content_sent := m_content_sent c + ucast r\<rparr>);
             Some (r, c) }
         | None \<Rightarrow>
             (case m_obuffer c of
                Some (h, buf) \<Rightarrow>
                  if m_obuffer_offset c \<noteq> 0 then do {
                    c \<leftarrow> sio_blocking E True c;
                    d \<leftarrow> bytes_in buf (unat (m_obuffer_sent c)) (unat (m_obuffer_offset c - m_obuffer_sent c));
                    (r, c) \<leftarrow> sio_write E d c;
                    c \<leftarrow> sio_blocking E False (c\<lparr>m_obuffer_sent := m_obuffer_sent c + r, m_content_sent := m_content_sent c + ucast r\<rparr>);
                    Some (r, c) }
                  else Some (0, c)
              | None \<Rightarrow> Some (0, c)))
      else Some (0, c))"

definition res_write :: "('n, 'b) http_env \<Rightarrow> u8 list \<Rightarrow> ('n, 'b) conn \<Rightarrow> (u32 \<times> ('n, 'b) conn) option" where
  "res_write E data c = do {
     c \<leftarrow> (if m_obuffer c = None then do { (h, c) \<leftarrow> alloc_buffer E c; Some (c\<lparr>m_obuffer := h\<rparr>) } else Some c);
     (case m_obuffer c of
        None \<Rightarrow> Some (0, c)
      | Some (h, buf) \<Rightarrow> do {
          let brem = e_bsize E - m_obuffer_offset c;
          let r = (if of_nat (length data) < brem then of_nat (length data) else brem);
          let p = unat (m_obuffer_offset c);
          if r \<noteq> 0 then
            if p + unat r \<le> length buf
            then Some (r, c\<lparr>m_obuffer := Some (h, write_at buf p (take (unat r) data)), m_obuffer_offset := m_obuffer_offset c + r\<rparr>)
            else None
          else Some (r, c) }) }"

definition res_write_string :: "('n, 'b) http_env \<Rightarrow> u8 list \<Rightarrow> ('n, 'b) conn \<Rightarrow> (u32 \<times> ('n, 'b) conn) option" where
  "res_write_string E s c = res_write E (c_string s) c"

section \<open>The state machine\<close>

definition req_complete :: "('n, 'b) conn \<Rightarrow> (bool \<times> ('n, 'b) conn) option" where
  "req_complete c = do {
     (u, c) \<leftarrow> req_url c;
     if u \<noteq> None then do { (m, c) \<leftarrow> req_method c; Some (m \<noteq> 0, c) } else Some (False, c) }"

text \<open>One function per state; the result is the event.\<close>

definition on_receive_header :: "('n, 'b) http_env \<Rightarrow> ('n, 'b) conn \<Rightarrow> (u8 \<times> ('n, 'b) conn) option" where
  "on_receive_header E c = do {
     (n, c) \<leftarrow> receive E c;
     Some (0, if n = 0 then c\<lparr>m_state := (if conn_alive E c then HTTPC_COMPLETE_HEADER else HTTPC_CLOSE)\<rparr> else c) }"

definition on_complete_header :: "('n, 'b) http_env \<Rightarrow> ('n, 'b) conn \<Rightarrow> (u8 \<times> ('n, 'b) conn) option" where
  "on_complete_header E c = do {
     (r, c) \<leftarrow> complete_req_header E c;
     Some (if r then (0, c\<lparr>m_state := HTTPC_PARSE_HEADER\<rparr>)
           else if e_now E - m_stime c > uint (m_timeout c)
           then (HTTP_ON_ERROR, c\<lparr>m_state := HTTPC_SEND_HEADER, m_error_code := HTTPRC_REQUEST_TIMEOUT\<rparr>)
           else (0, c\<lparr>m_state := HTTPC_RECEIVE_HEADER\<rparr>)) }"

definition bad_request :: "('n, 'b) conn \<Rightarrow> u8 \<times> ('n, 'b) conn" where
  "bad_request c = (HTTP_ON_ERROR, c\<lparr>m_error_code := HTTPRC_BAD_REQUEST, m_state := HTTPC_SEND_HEADER\<rparr>)"

definition on_parse_header :: "('n, 'b) http_env \<Rightarrow> ('n, 'b) conn \<Rightarrow> (u8 \<times> ('n, 'b) conn) option" where
  "on_parse_header E c = do {
     (r, c) \<leftarrow> parse_req_header E c;
     if r then do {
       (ok, c) \<leftarrow> req_complete c;
       Some (if ok then (HTTP_ON_REQUEST, c\<lparr>m_state := HTTPC_RECEIVE_CONTENT\<rparr>) else bad_request c) }
     else Some (bad_request c) }"

definition on_receive_content :: "('n, 'b) http_env \<Rightarrow> ('n, 'b) conn \<Rightarrow> (u8 \<times> ('n, 'b) conn) option" where
  "on_receive_content E c = do {
     c \<leftarrow> clear_ibuffer E c;
     (n, c) \<leftarrow> receive_content E c;
     Some (if n \<noteq> 0 then (HTTP_ON_REQUEST_DATA, c\<lparr>m_req_data := True\<rparr>)
           else (0, (if conn_alive E c
                     then if m_req_content_rcv c \<ge> m_req_content_len c then c\<lparr>m_state := HTTPC_SEND_HEADER\<rparr> else c
                     else c\<lparr>m_state := HTTPC_CLOSE\<rparr>)\<lparr>m_req_data := False\<rparr>)) }"

definition on_send_header :: "('n, 'b) http_env \<Rightarrow> nat \<Rightarrow> ('n, 'b) conn \<Rightarrow> (u8 \<times> ('n, 'b) conn) option" where
  "on_send_header E k c = do {
     c \<leftarrow> clear_ibuffer E c;
     (n, c) \<leftarrow> receive_content E c;
     if n = 0 then do {
       c \<leftarrow> (if conn_alive E c \<and> m_response_code c \<noteq> 0 then do {
              (_, c) \<leftarrow> send_header E k c;
              Some (if m_oheader_sent c = m_oheader_offset c then c\<lparr>m_state := HTTPC_SEND_CONTENT\<rparr> else c) }
            else Some (c\<lparr>m_state := HTTPC_CLOSE\<rparr>));
       Some (0, c\<lparr>m_req_data := False\<rparr>) }
     else Some (HTTP_ON_REQUEST_DATA, c\<lparr>m_req_data := True\<rparr>) }"

definition content_sent :: "('n, 'b) http_env \<Rightarrow> ('n, 'b) conn \<Rightarrow> (u8 \<times> ('n, 'b) conn) option" where
  "content_sent E c =
     (if m_content_sent c < m_res_content_len c then
        Some (if mp_doc c = None \<and> m_obuffer_sent c \<ge> m_obuffer_offset c
              then (HTTP_ON_RESPONSE_DATA, c\<lparr>m_obuffer_sent := 0, m_obuffer_offset := 0\<rparr>) else (0, c))
      else do {
        (ctype, c) \<leftarrow> req_var (ascii ''Connection'') c;
        (case ctype of
           None \<Rightarrow> Some (0, c\<lparr>m_state := HTTPC_CLOSE\<rparr>)
         | Some t \<Rightarrow>
             if c_strcasecmp t (ascii ''keep-alive'') then do {
               c \<leftarrow> clean_members E c;
               Some (HTTP_ON_CLOSE_DOCUMENT, c\<lparr>m_state := HTTPC_RECEIVE_HEADER\<rparr>) }
             else Some (0, c\<lparr>m_state := HTTPC_CLOSE\<rparr>)) })"

definition on_send_content :: "('n, 'b) http_env \<Rightarrow> ('n, 'b) conn \<Rightarrow> (u8 \<times> ('n, 'b) conn) option" where
  "on_send_content E c = do {
     c \<leftarrow> clear_ibuffer E c;
     (n, c) \<leftarrow> receive_content E c;
     if n \<noteq> 0 then Some (HTTP_ON_REQUEST_DATA, c\<lparr>m_req_data := True\<rparr>)
     else do {
       (r, c) \<leftarrow> (if conn_alive E c then do { (_, c) \<leftarrow> send_content E c; content_sent E c }
                 else Some (0, c\<lparr>m_state := HTTPC_CLOSE\<rparr>));
       Some (r, c\<lparr>m_req_data := False\<rparr>) } }"

definition conn_process :: "('n, 'b) http_env \<Rightarrow> nat \<Rightarrow> ('n, 'b) conn \<Rightarrow> (u8 \<times> ('n, 'b) conn) option" where
  "conn_process E k c =
     (if m_state c = 0 then Some (HTTP_ON_OPEN, c\<lparr>m_state := HTTPC_RECEIVE_HEADER\<rparr>)
      else if m_state c = HTTPC_RECEIVE_HEADER then on_receive_header E c
      else if m_state c = HTTPC_COMPLETE_HEADER then on_complete_header E c
      else if m_state c = HTTPC_PARSE_HEADER then on_parse_header E c
      else if m_state c = HTTPC_RECEIVE_CONTENT then on_receive_content E c
      else if m_state c = HTTPC_SEND_HEADER then on_send_header E k c
      else if m_state c = HTTPC_SEND_CONTENT then on_send_content E c
      else if m_state c = HTTPC_CLOSE then do { c \<leftarrow> conn_close E c; Some (0, c) }
      else Some (0, c))"

end
