(* ===== verification/HttpSpec.thy ===== *)
theory HttpSpec
  imports HttpServer
begin

text \<open>
  The parser of requests finds the fields of a well-formed header, and the content of a response reaches the socket.
\<close>

section \<open>Bytes at a position\<close>

fun at :: "u8 list \<Rightarrow> nat \<Rightarrow> u8 list \<Rightarrow> bool" where
  "at mem p [] = True"
| "at mem p (b # bs) = (rd mem p = Some b \<and> at mem (Suc p) bs)"

lemma at_append: "at mem p (xs @ ys) \<longleftrightarrow> at mem p xs \<and> at mem (p + length xs) ys"
  by (induction xs arbitrary: p) auto

lemma at_bytes_in: "at mem p s \<Longrightarrow> s \<noteq> [] \<Longrightarrow> bytes_in mem p (length s) = Some s"
proof (induction s arbitrary: p)
  case (Cons b s)
  have b: "p < length mem" "mem ! p = b" using Cons.prems(1) by (auto simp: rd_def split: if_splits)
  show ?case
  proof (cases "s = []")
    case True
    then show ?thesis using b by (simp add: bytes_in_def bytes_at_def Cons_nth_drop_Suc [symmetric])
  next
    case False
    then have "bytes_in mem (Suc p) (length s) = Some s" using Cons by simp
    then show ?thesis using b by (auto simp: bytes_in_def bytes_at_def Cons_nth_drop_Suc [symmetric] split: if_splits)
  qed
qed simp

lemma at_prefix: "at (s @ rest) 0 s"
proof -
  have "at (pre @ s @ rest) (length pre) s" for pre
  proof (induction s arbitrary: pre)
    case (Cons b s)
    from Cons [of "pre @ [b]"] show ?case by (simp add: rd_def)
  qed simp
  from this [of "[]"] show ?thesis by simp
qed

section \<open>The request line\<close>

definition plain :: "u8 \<Rightarrow> bool" where "plain b \<longleftrightarrow> b \<noteq> 0x20 \<and> b \<noteq> 13 \<and> b \<noteq> 10"

definition token :: "u8 list \<Rightarrow> bool" where "token s \<longleftrightarrow> s \<noteq> [] \<and> (\<forall>b \<in> set s. plain b)"

lemma line_loop_plain:
  assumes "\<forall>b \<in> set s. plain b" "cc \<noteq> 0x20" "i < 3" "at mem (req + r) s"
  shows "line_loop (length s + k) mem req r i n cc (fld, sz) =
    line_loop k mem req (r + length s) i (n + length s) (last (cc # s)) (fld, sz)"
  using assms
proof (induction s arbitrary: r n cc)
  case (Cons b s)
  have b: "rd mem (req + r) = Some b" "b \<noteq> 0x20" "b \<noteq> 13" "b \<noteq> 10" using Cons.prems by (auto simp: plain_def)
  have "line_loop (length (b # s) + k) mem req r i n cc (fld, sz) =
      line_loop (length s + k) mem req (r + 1) i (n + 1) b (fld, sz)"
    using b Cons.prems(2,3) by simp
  also have "\<dots> = line_loop k mem req (r + 1 + length s) i (n + 1 + length s) (last (b # s)) (fld, sz)"
    using Cons.IH [of b "r + 1" "n + 1"] Cons.prems b by simp
  finally show ?case by simp
qed simp

lemma line_loop_field:
  assumes "token s" "i < 2" "at mem (req + r) s"
  shows "line_loop (length s + k) mem req r i n 0x20 (fld, sz) =
    line_loop k mem req (r + length s) (i + 1) (length s) (last s) (fld(i + 1 \<mapsto> req + r), sz)"
proof -
  obtain b t where s: "s = b # t" using assms(1) by (cases s) (auto simp: token_def)
  have b: "rd mem (req + r) = Some b" "b \<noteq> 0x20" "b \<noteq> 13" "b \<noteq> 10" using assms s by (auto simp: plain_def token_def)
  have "line_loop (length s + k) mem req r i n 0x20 (fld, sz) =
      line_loop (length t + k) mem req (r + 1) (i + 1) 1 b (fld(i + 1 \<mapsto> req + r), sz)"
    using b assms(2) s by simp
  also have "\<dots> = line_loop k mem req (r + 1 + length t) (i + 1) (1 + length t) (last (b # t)) (fld(i + 1 \<mapsto> req + r), sz)"
    using assms s b by (intro line_loop_plain) (auto simp: token_def)
  finally show ?thesis using s by simp
qed

definition request_line :: "u8 list \<Rightarrow> u8 list \<Rightarrow> u8 list \<Rightarrow> u8 list" where
  "request_line m u v = m @ [0x20] @ u @ [0x20] @ v @ crlf"

lemma line_loop_space:
  assumes "rd mem (req + r) = Some 0x20" "cc \<noteq> 0x20" "i < 3"
  shows "line_loop (Suc k) mem req r i n cc (fld, sz) = line_loop k mem req (r + 1) i 0 0x20 (fld, sz(i := n))"
  using assms by simp

lemma line_loop_end:
  assumes "rd mem (req + r) = Some 13" "rd mem (req + (r + 1)) = Some 10" "i < 3"
  shows "line_loop (Suc (Suc k)) mem req r i n cc (fld, sz) = Some (r + 2, fld, sz(i := n))"
proof -
  have "line_loop k mem req r 3 n cc x = Some (r, x)" for k r n cc x by (cases k; cases x) simp_all
  then show ?thesis using assms by simp
qed

lemma request_line_at:
  assumes "at mem req (request_line m u v)"
  shows "at mem (req + 0) m" "rd mem (req + length m) = Some 0x20" "at mem (req + (length m + 1)) u"
    "rd mem (req + (length m + 1 + length u)) = Some 0x20" "at mem (req + (length m + length u + 2)) v"
    "rd mem (req + (length m + length u + 2 + length v)) = Some 13"
    "rd mem (req + (length m + length u + 2 + length v + 1)) = Some 10"
  using assms by (simp_all add: request_line_def crlf_def at_append add_ac)

lemma token_last: "token s \<Longrightarrow> last s \<noteq> 0x20" using last_in_set by (auto simp: token_def plain_def)

lemma line_loop_request:
  assumes "token m" "token u" "token v" "at mem req (request_line m u v)"
  shows "line_loop (length (request_line m u v) + k) mem req 0 0 0 0 ([0 \<mapsto> req], \<lambda>_. 0) =
    Some (length (request_line m u v),
      [0 \<mapsto> req, 1 \<mapsto> req + (length m + 1), 2 \<mapsto> req + (length m + length u + 2)],
      (\<lambda>_. 0)(0 := length m, 1 := length u, 2 := length v))"
proof -
  note at = request_line_at [OF assms(4)]
  let ?f0 = "[0 \<mapsto> req] :: nat \<rightharpoonup> nat" and ?s0 = "(\<lambda>_. 0) :: nat \<Rightarrow> nat"
  let ?k2 = "Suc (Suc k)" let ?k1 = "Suc (length v + ?k2)" let ?k0 = "Suc (length u + ?k1)"
  let ?f1 = "?f0(1 \<mapsto> req + (length m + 1))" and ?s1 = "?s0(0 := length m)"
  let ?f2 = "?f1(2 \<mapsto> req + (length m + length u + 2))" and ?s2 = "?s1(1 := length u)"
  have m: "m \<noteq> []" "\<forall>b \<in> set m. plain b" using assms(1) by (auto simp: token_def)
  have "length (request_line m u v) + k = length m + ?k0" by (simp add: request_line_def crlf_def)
  then have "line_loop (length (request_line m u v) + k) mem req 0 0 0 0 (?f0, ?s0) =
      line_loop (length m + ?k0) mem req 0 0 0 0 (?f0, ?s0)" by (rule arg_cong)
  also have "\<dots> = line_loop ?k0 mem req (length m) 0 (length m) (last m) (?f0, ?s0)"
    using line_loop_plain [of m 0 0 mem req 0 ?k0 0 ?f0 ?s0] m at(1) by simp
  also have "\<dots> = line_loop (length u + ?k1) mem req (length m + 1) 0 0 0x20 (?f0, ?s1)"
    by (rule line_loop_space [OF at(2) token_last [OF assms(1)]]) simp
  also have "\<dots> = line_loop ?k1 mem req (length m + 1 + length u) (0 + 1) (length u) (last u)
      (?f0(0 + 1 \<mapsto> req + (length m + 1)), ?s1)"
    by (rule line_loop_field [OF assms(2) _ at(3)]) simp
  also have "\<dots> = line_loop ?k1 mem req (length m + 1 + length u) 1 (length u) (last u) (?f1, ?s1)" by simp
  also have "\<dots> = line_loop (length v + ?k2) mem req (length m + 1 + length u + 1) 1 0 0x20 (?f1, ?s2)"
    by (rule line_loop_space [OF at(4) token_last [OF assms(2)]]) simp
  also have "\<dots> = line_loop (length v + ?k2) mem req (length m + length u + 2) 1 0 0x20 (?f1, ?s2)" by simp
  also have "\<dots> = line_loop ?k2 mem req (length m + length u + 2 + length v) (1 + 1) (length v) (last v)
      (?f1(1 + 1 \<mapsto> req + (length m + length u + 2)), ?s2)"
    by (rule line_loop_field [OF assms(3) _ at(5)]) simp
  also have "\<dots> = line_loop ?k2 mem req (length m + length u + 2 + length v) 2 (length v) (last v) (?f2, ?s2)" by (simp add: numeral_2_eq_2)
  also have "\<dots> = Some (length m + length u + 2 + length v + 2, ?f2, ?s2(2 := length v))"
    by (rule line_loop_end [OF at(6,7)]) simp
  also have "length m + length u + 2 + length v + 2 = length (request_line m u v)" by (simp add: request_line_def crlf_def)
  finally show ?thesis .
qed

section \<open>The fields of the header\<close>

text \<open>Names have no space, colon or line end; values begin with such a byte, and hold no line end and no colon followed by
  a space.\<close>

fun value_rest :: "u8 \<Rightarrow> u8 list \<Rightarrow> bool" where
  "value_rest cc [] = True"
| "value_rest cc (b # s) = (b \<noteq> 13 \<and> b \<noteq> 10 \<and> \<not> (cc = 0x3A \<and> b = 0x20) \<and> value_rest b s)"

definition field_ok :: "u8 list \<times> u8 list \<Rightarrow> bool" where
  "field_ok f \<longleftrightarrow> token (fst f) \<and> 0x3A \<notin> set (fst f) \<and>
     (case snd f of [] \<Rightarrow> False | b # s \<Rightarrow> plain b \<and> b \<noteq> 0x3A \<and> value_rest b s)"

definition field_line :: "u8 list \<times> u8 list \<Rightarrow> u8 list" where
  "field_line f = fst f @ [0x3A, 0x20] @ snd f @ crlf"

lemma var_loop_name:
  assumes "\<forall>b \<in> set s. plain b \<and> b \<noteq> 0x3A" "at mem (var + r) s"
  shows "var_loop (length s + k) mem var r 0 n cc False x = var_loop k mem var (r + length s) 0 (n + length s) (last (cc # s)) False x"
  using assms
proof (induction s arbitrary: r n cc)
  case (Cons b s)
  have b: "rd mem (var + r) = Some b" "b \<noteq> 0x20" "b \<noteq> 13" "b \<noteq> 10" "b \<noteq> 0x3A" using Cons.prems by (auto simp: plain_def)
  have "var_loop (length (b # s) + k) mem var r 0 n cc False x = var_loop (length s + k) mem var (r + 1) 0 (n + 1) b False x"
    using b by (cases x) simp
  also have "\<dots> = var_loop k mem var (r + 1 + length s) 0 (n + 1 + length s) (last (b # s)) False x"
    using Cons.IH [of "r + 1" "n + 1" b] Cons.prems b by simp
  finally show ?case by simp
qed simp

lemma var_loop_value:
  assumes "value_rest cc s" "at mem (var + r) s"
  shows "var_loop (length s + k) mem var r 1 n cc True x = var_loop k mem var (r + length s) 1 (n + length s) (last (cc # s)) True x"
  using assms
proof (induction s arbitrary: r n cc)
  case (Cons b s)
  have b: "rd mem (var + r) = Some b" "b \<noteq> 13" "b \<noteq> 10" "\<not> (cc = 0x3A \<and> b = 0x20)" using Cons.prems by auto
  have "var_loop (length (b # s) + k) mem var r 1 n cc True x = var_loop (length s + k) mem var (r + 1) 1 (n + 1) b True x"
    using b by (cases x) auto
  also have "\<dots> = var_loop k mem var (r + 1 + length s) 1 (n + 1 + length s) (last (b # s)) True x"
    using Cons.IH [of b "r + 1" "n + 1"] Cons.prems b by simp
  finally show ?case by simp
qed simp

lemma var_loop_colon:
  assumes "rd mem (var + r) = Some 0x3A" "rd mem (var + (r + 1)) = Some 0x20" "rd mem (var + (r + 2)) = Some b" "plain b" "b \<noteq> 0x3A"
  shows "var_loop (Suc (Suc (Suc k))) mem var r 0 n cc False (fld, sz) =
    var_loop k mem var (r + 3) 1 1 b True (fld(1 \<mapsto> var + (r + 2)), sz(0 := n))"
proof -
  have b: "rd mem (var + (r + 1 + 1)) = Some b" using assms(3) by (simp flip: numeral_2_eq_2)
  have "var_loop (Suc (Suc (Suc k))) mem var r 0 n cc False (fld, sz) = var_loop (Suc (Suc k)) mem var (r + 1) 1 0 0x3A False (fld, sz(0 := n))"
    using assms(1) by simp
  also have "\<dots> = var_loop (Suc k) mem var (r + 1 + 1) 1 0 0x20 False (fld, sz(0 := n))" using assms(2) by simp
  also have "\<dots> = var_loop k mem var (r + 1 + 1 + 1) 1 1 b True (fld(1 \<mapsto> var + (r + 1 + 1)), sz(0 := n))"
    using b assms(4,5) by (simp add: plain_def)
  finally show ?thesis by (simp add: numeral_2_eq_2 numeral_3_eq_3)
qed

lemma var_loop_end:
  assumes "rd mem (var + r) = Some 13" "rd mem (var + (r + 1)) = Some 10" "i < 2"
  shows "var_loop (Suc (Suc k)) mem var r i n cc val (fld, sz) = Some (r + 2, fld, if i \<noteq> 0 then sz(i := n) else sz)"
proof -
  have "var_loop k mem var r 2 n cc val x = Some (r, x)" for k r n cc x by (cases k; cases x) simp_all
  then show ?thesis using assms by simp
qed

lemma field_line_at:
  assumes "at mem var (field_line (name, b # s))"
  shows "at mem (var + 0) name" "rd mem (var + length name) = Some 0x3A" "rd mem (var + (length name + 1)) = Some 0x20"
    "rd mem (var + (length name + 2)) = Some b" "at mem (var + (length name + 3)) s"
    "rd mem (var + (length name + 3 + length s)) = Some 13" "rd mem (var + (length name + 3 + length s + 1)) = Some 10"
    "at mem (var + (length name + 2)) (b # s)"
  using assms by (simp_all add: field_line_def crlf_def at_append add_ac numeral_3_eq_3)

lemma var_loop_field:
  assumes "field_ok (name, b # s)" "at mem var (field_line (name, b # s))"
  shows "var_loop (length (field_line (name, b # s)) + k) mem var 0 0 0 0 False ([0 \<mapsto> var], \<lambda>_. 0) =
    Some (length (field_line (name, b # s)), [0 \<mapsto> var, 1 \<mapsto> var + (length name + 2)], (\<lambda>_. 0)(0 := length name, 1 := length (b # s)))"
proof -
  note at = field_line_at [OF assms(2)]
  let ?f0 = "[0 \<mapsto> var] :: nat \<rightharpoonup> nat" and ?s0 = "(\<lambda>_. 0) :: nat \<Rightarrow> nat"
  let ?k2 = "Suc (Suc k)"
  have ok: "\<forall>b \<in> set name. plain b \<and> b \<noteq> 0x3A" "plain b" "b \<noteq> 0x3A" "value_rest b s"
    using assms(1) by (auto simp: field_ok_def token_def)
  have "length (field_line (name, b # s)) + k = length name + Suc (Suc (Suc (length s + ?k2)))" by (simp add: field_line_def crlf_def)
  then have "var_loop (length (field_line (name, b # s)) + k) mem var 0 0 0 0 False (?f0, ?s0) =
      var_loop (length name + Suc (Suc (Suc (length s + ?k2)))) mem var 0 0 0 0 False (?f0, ?s0)" by (rule arg_cong)
  also have "\<dots> = var_loop (Suc (Suc (Suc (length s + ?k2)))) mem var (0 + length name) 0 (0 + length name) (last (0 # name)) False (?f0, ?s0)"
    by (rule var_loop_name [OF ok(1) at(1)])
  also have "\<dots> = var_loop (length s + ?k2) mem var (length name + 3) 1 1 b True (?f0(1 \<mapsto> var + (length name + 2)), ?s0(0 := length name))"
    unfolding add_0 by (rule var_loop_colon [OF at(2-4) ok(2,3)])
  also have "\<dots> = var_loop ?k2 mem var (length name + 3 + length s) 1 (1 + length s) (last (b # s)) True
      (?f0(1 \<mapsto> var + (length name + 2)), ?s0(0 := length name))"
    by (rule var_loop_value [OF ok(4) at(5)])
  also have "\<dots> = Some (length name + 3 + length s + 2, ?f0(1 \<mapsto> var + (length name + 2)), ?s0(0 := length name, 1 := 1 + length s))"
    by (subst var_loop_end [OF at(6,7)]) simp_all
  finally show ?thesis by (simp add: field_line_def crlf_def)
qed

text \<open>What the request map is given.\<close>

fun add_fields :: "(u8 list \<times> u8 list) list \<Rightarrow> ('n, 'b) conn \<Rightarrow> ('n, 'b) conn option" where
  "add_fields [] c = Some c"
| "add_fields (f # fs) c = do { (_, c) \<leftarrow> req_add (fst f) (snd f) c; add_fields fs c }"

lemma parse_var_line_field:
  assumes "field_ok f" "at mem var (field_line f)"
  shows "parse_var_line mem var (length (field_line f) + k) c =
    do { (_, c) \<leftarrow> req_add (fst f) (snd f) c; Some (length (field_line f), c) }"
proof -
  obtain name b s where f: "f = (name, b # s)" using assms(1) by (cases f; cases "snd f") (auto simp: field_ok_def)
  have "name \<noteq> []" using assms(1) f by (simp add: field_ok_def token_def)
  then have "bytes_in mem var (length name) = Some name" "bytes_in mem (var + (length name + 2)) (length (b # s)) = Some (b # s)"
    using at_bytes_in [of mem var name] at_bytes_in [of mem "var + (length name + 2)" "b # s"] field_line_at(1,8) [of mem var name b s] assms(2) f
    by simp_all
  then show ?thesis using \<open>name \<noteq> []\<close> unfolding parse_var_line_def f var_loop_field [OF assms(1,2) [unfolded f]]
    by (simp add: field_line_def crlf_def bind_assoc split_def)
qed

lemma parse_var_line_blank:
  assumes "at mem var crlf"
  shows "parse_var_line mem var 2 c = Some (2, c)"
proof -
  have "var_loop (Suc (Suc 0)) mem var 0 0 0 0 False ([0 \<mapsto> var], \<lambda>_. 0) = Some (0 + 2, [0 \<mapsto> var], \<lambda>_. 0)"
    using assms by (subst var_loop_end) (simp_all add: crlf_def)
  then show ?thesis by (simp add: parse_var_line_def numeral_2_eq_2)
qed

definition header_lines :: "(u8 list \<times> u8 list) list \<Rightarrow> u8 list" where
  "header_lines fs = concat (map field_line fs) @ crlf"

lemma header_loop_fields:
  fixes c :: "('n, 'b) conn"
  assumes "list_all field_ok fs" "at hdr offset (header_lines fs)" "offset \<noteq> 0" "len = offset + length (header_lines fs)"
    "length fs < k"
  shows "header_loop k hdr offset len c = map_option (Pair len) (add_fields fs c)"
  using assms
proof (induction fs arbitrary: offset k c)
  case Nil
  obtain j where k: "k = Suc j" using Nil.prems(5) by (cases k) auto
  have "parse_var_line hdr offset 2 c = Some (2, c)" using parse_var_line_blank Nil.prems(2) by (simp add: header_lines_def)
  then have "header_loop k hdr offset len c = header_loop j hdr len len c"
    using Nil.prems(3,4) k by (simp add: header_lines_def crlf_def)
  then show ?case by (cases j) simp_all
next
  case (Cons f fs)
  obtain j where k: "k = Suc j" "length fs < j" using Cons.prems(5) by (cases k) auto
  have a: "at hdr offset (field_line f)" "at hdr (offset + length (field_line f)) (header_lines fs)"
    using Cons.prems(2) by (simp_all add: header_lines_def at_append)
  have l: "len - offset = length (field_line f) + length (header_lines fs)" "offset < len" "length (field_line f) \<noteq> 0"
    "len = offset + length (field_line f) + length (header_lines fs)"
    using Cons.prems(4) by (simp_all add: header_lines_def field_line_def crlf_def)
  have IH: "header_loop j hdr (offset + length (field_line f)) len c = map_option (Pair len) (add_fields fs c)" for c :: "('n, 'b) conn"
    using Cons.IH [OF _ a(2) _ l(4) k(2)] Cons.prems(1,3) by simp
  have "header_loop k hdr offset len c =
      do { (n, c) \<leftarrow> parse_var_line hdr offset (length (field_line f) + length (header_lines fs)) c;
           header_loop j hdr (if n \<noteq> 0 then offset + n else 0) len c }"
    using l Cons.prems(3) k(1) by simp
  also have "\<dots> = do { (_, c) \<leftarrow> req_add (fst f) (snd f) c; header_loop j hdr (offset + length (field_line f)) len c }"
    using parse_var_line_field [OF _ a(1), of "length (header_lines fs)" c] Cons.prems(1) l(3) by (simp add: bind_assoc split_def)
  finally show ?case using IH by (cases "req_add (fst f) (snd f) c") (auto simp: split_def)
qed

section \<open>The variables of a URL\<close>

definition word_ok :: "u8 list \<Rightarrow> bool" where "word_ok s \<longleftrightarrow> s \<noteq> [] \<and> 0x3D \<notin> set s \<and> 0x26 \<notin> set s"

definition pair_ok :: "u8 list \<times> u8 list \<Rightarrow> bool" where "pair_ok p \<longleftrightarrow> word_ok (fst p) \<and> word_ok (snd p)"

definition pair_text :: "u8 list \<times> u8 list \<Rightarrow> u8 list" where "pair_text p = fst p @ [0x3D] @ snd p"

fun query_text :: "(u8 list \<times> u8 list) list \<Rightarrow> u8 list" where
  "query_text [] = []"
| "query_text [p] = pair_text p"
| "query_text (p # ps) = pair_text p @ [0x26] @ query_text ps"

lemma pair_loop_name:
  assumes "0x3D \<notin> set n" "0x26 \<notin> set n" "at dec i n" "p_name s \<noteq> None" "p_value s = None"
  shows "pair_loop (length n + k) i dec s c = pair_loop k (i + length n) dec (s\<lparr>p_sz_name := p_sz_name s + length n\<rparr>) c"
  using assms by (induction n arbitrary: i s) (auto simp: pair_char_def)

lemma pair_loop_value:
  assumes "0x3D \<notin> set n" "0x26 \<notin> set n" "at dec i n" "p_value s \<noteq> None"
  shows "pair_loop (length n + k) i dec s c = pair_loop k (i + length n) dec (s\<lparr>p_sz_value := p_sz_value s + length n\<rparr>) c"
  using assms by (induction n arbitrary: i s) (auto simp: pair_char_def)

lemma pair_loop_step:
  "rd dec i = Some 0x3D \<Longrightarrow> pair_loop (Suc k) i dec s c = pair_loop k (i + 1) dec (s\<lparr>p_value := Some (i + 1)\<rparr>) c"
  "rd dec i = Some 0x26 \<Longrightarrow> pair_loop (Suc k) i dec s c = add_pair dec s c \<bind> pair_loop k (i + 1) dec no_pair"
  "rd dec i = Some b \<Longrightarrow> b \<noteq> 0x3D \<Longrightarrow> b \<noteq> 0x26 \<Longrightarrow> pair_loop (Suc k) i dec s c = pair_loop k (i + 1) dec (pair_char i s) c"
  by simp_all

declare pair_loop.simps [simp del]

lemma pair_loop_pair:
  assumes "pair_ok p" "at dec i (pair_text p)"
  shows "pair_loop (length (pair_text p) + k) i dec no_pair c = pair_loop k (i + length (pair_text p)) dec
    \<lparr>p_name = Some i, p_sz_name = length (fst p), p_value = Some (i + length (fst p) + 1), p_sz_value = length (snd p)\<rparr> c"
proof -
  obtain b n v where p: "p = (b # n, v)" using assms(1) by (cases p; cases "fst p") (auto simp: pair_ok_def word_ok_def)
  have ok: "b \<noteq> 0x3D" "b \<noteq> 0x26" "0x3D \<notin> set n" "0x26 \<notin> set n" "0x3D \<notin> set v" "0x26 \<notin> set v"
    using assms(1) p by (auto simp: pair_ok_def word_ok_def)
  have at: "rd dec i = Some b" "at dec (i + 1) n" "rd dec (i + 1 + length n) = Some 0x3D" "at dec (i + 1 + length n + 1) v"
    using assms(2) by (simp_all add: p pair_text_def at_append add_ac)
  have "length (pair_text p) + k = Suc (length n + Suc (length v + k))" by (simp add: p pair_text_def)
  then have "pair_loop (length (pair_text p) + k) i dec no_pair c = pair_loop (Suc (length n + Suc (length v + k))) i dec no_pair c"
    by (rule arg_cong)
  also have "\<dots> = pair_loop (length n + Suc (length v + k)) (i + 1) dec (no_pair\<lparr>p_name := Some i, p_sz_name := 1\<rparr>) c"
    using pair_loop_step(3) [OF at(1) ok(1,2), of _ no_pair c] by (simp add: pair_char_def no_pair_def)
  also have "\<dots> = pair_loop (Suc (length v + k)) (i + 1 + length n) dec (no_pair\<lparr>p_name := Some i, p_sz_name := 1 + length n\<rparr>) c"
    using pair_loop_name [OF ok(3,4) at(2), of "no_pair\<lparr>p_name := Some i, p_sz_name := 1\<rparr>" "Suc (length v + k)" c] by (simp add: no_pair_def)
  also have "\<dots> = pair_loop (length v + k) (i + 1 + length n + 1) dec
      (no_pair\<lparr>p_name := Some i, p_sz_name := 1 + length n, p_value := Some (i + 1 + length n + 1)\<rparr>) c"
    using pair_loop_step(1) [OF at(3), of _ "no_pair\<lparr>p_name := Some i, p_sz_name := 1 + length n\<rparr>" c] by (simp add: no_pair_def)
  also have "\<dots> = pair_loop k (i + 1 + length n + 1 + length v) dec
      (no_pair\<lparr>p_name := Some i, p_sz_name := 1 + length n, p_value := Some (i + 1 + length n + 1), p_sz_value := length v\<rparr>) c"
    using pair_loop_value [OF ok(5,6) at(4),
        of "no_pair\<lparr>p_name := Some i, p_sz_name := 1 + length n, p_value := Some (i + 1 + length n + 1)\<rparr>" k c] by (simp add: no_pair_def)
  finally show ?thesis by (simp add: p pair_text_def no_pair_def add_ac)
qed

lemma add_pair_pair:
  assumes "pair_ok p" "at dec i (pair_text p)"
  shows "add_pair dec \<lparr>p_name = Some i, p_sz_name = length (fst p), p_value = Some (i + length (fst p) + 1), p_sz_value = length (snd p)\<rparr> c =
    map_option snd (req_add (fst p) (snd p) c)"
proof -
  have ne: "fst p \<noteq> []" "snd p \<noteq> []" using assms(1) by (auto simp: pair_ok_def word_ok_def)
  have "at dec i (fst p)" "at dec (i + length (fst p) + 1) (snd p)" using assms(2) by (simp_all add: pair_text_def at_append)
  then have "bytes_in dec i (length (fst p)) = Some (fst p)" "bytes_in dec (i + length (fst p) + 1) (length (snd p)) = Some (snd p)"
    using at_bytes_in ne by blast+
  then show ?thesis using ne by (cases "req_add (fst p) (snd p) c") (auto simp: add_pair_def)
qed

lemma pair_loop_query:
  assumes "list_all pair_ok ps" "ps \<noteq> []" "at dec i (query_text ps)"
  shows "pair_loop (length (query_text ps)) i dec no_pair c = add_fields ps c"
  using assms
proof (induction ps arbitrary: i c rule: query_text.induct)
  case (2 p)
  then show ?case using pair_loop_pair [of p dec i 0 c] add_pair_pair [of p dec i c]
    by (cases "req_add (fst p) (snd p) c") (auto simp: pair_loop.simps(1))
next
  case (3 p q ps)
  have at: "at dec i (pair_text p)" "rd dec (i + length (pair_text p)) = Some 0x26" "at dec (i + length (pair_text p) + 1) (query_text (q # ps))"
    using 3(4) by (simp_all add: at_append)
  have IH: "pair_loop (length (query_text (q # ps))) (i + length (pair_text p) + 1) dec no_pair c = add_fields (q # ps) c" for c :: "('a, 'b) conn"
    using "3.IH" [of "i + length (pair_text p) + 1" c] 3(2) at(3) by simp
  have p: "pair_ok p" using 3(2) by simp
  have "length (query_text (p # q # ps)) = length (pair_text p) + Suc (length (query_text (q # ps)))" by simp
  then have "pair_loop (length (query_text (p # q # ps))) i dec no_pair c =
      pair_loop (length (pair_text p) + Suc (length (query_text (q # ps)))) i dec no_pair c" by (rule arg_cong)
  also have "\<dots> = map_option snd (req_add (fst p) (snd p) c) \<bind>
      pair_loop (length (query_text (q # ps))) (i + length (pair_text p) + 1) dec no_pair"
    unfolding pair_loop_pair [OF p at(1)] using pair_loop_step(2) [OF at(2), where c = c] add_pair_pair [OF p at(1), of c] by (simp del: query_text.simps)
  finally show ?case using IH by (cases "req_add (fst p) (snd p) c") (auto simp del: query_text.simps)
qed simp

lemma at_src_at: "at mem p s \<Longrightarrow> 0 \<notin> set s \<Longrightarrow> p + length s < length mem \<Longrightarrow> src_at (drop p mem) (length s) 0 s"
  using at_bytes_in [of mem p s] by (cases "s = []") (auto simp: src_at_def bytes_in_def bytes_at_def split: if_splits)

lemma url_part_path:
  assumes "0x3F \<notin> set p" "at dec i p" "rd dec (i + length p) = Some 0x3F"
  shows "url_part (length p + Suc k) i dec = Some (i + length p)"
  using assms by (induction p arbitrary: i) auto

text \<open>What \<open>parse_url\<close> adds for the decoded text \<open>path?query\<close>.\<close>

lemma parse_url_query:
  fixes E :: "('n, 'b) http_env" and c :: "('n, 'b) conn"
  assumes "mpi_bmap c = Some b" "e_alloc E b = Some (Some (h, buf), b')"
    "at mem url u" "0 \<notin> set u" "url + length u < length mem" "url_decoded u = Some t" "t = path @ [0x3F] @ query_text ps"
    "path \<noteq> []" "0x3F \<notin> set path" "ps \<noteq> []" "list_all pair_ok ps" "length t < unat (e_bsize E)" "unat (e_bsize E) \<le> length buf"
  shows "parse_url E mem url (length u) c = do {
     (_, c) \<leftarrow> req_add VAR_REQ_URI t (c\<lparr>mpi_bmap := Some b'\<rparr>);
     (_, c) \<leftarrow> req_add VAR_REQ_URL path c;
     (_, c) \<leftarrow> req_add VAR_REQ_URN (query_text ps) c;
     c \<leftarrow> add_fields ps c;
     free_buffer E (Some (h, write_at buf 0 (t @ [0]))) c }"
proof -
  let ?q = "query_text ps"
  let ?dec = "write_at buf 0 (t @ [0])"
  have q: "?q \<noteq> []" using assms(10,11) by (cases ps rule: query_text.cases) (auto simp: pair_text_def)
  have d: "UrlDecode (drop url mem) (length u) buf (unat (e_bsize E)) = Some (length t, ?dec)"
    unfolding UrlDecode_def using url_decode_loop_spec [OF at_src_at [OF assms(3-5)] assms(6), of 0 "unat (e_bsize E)" buf] assms(12,13) by simp
  have "at ?dec 0 t" unfolding write_at_def by (simp add: at_prefix)
  then have at: "at ?dec 0 path" "rd ?dec (0 + length path) = Some 0x3F" "at ?dec (length path + 1) ?q" "at ?dec 0 t"
    by (simp_all add: assms(7) at_append)
  have bi: "bytes_in ?dec 0 (length t) = Some t" "bytes_in ?dec 0 (length path) = Some path"
      "bytes_in ?dec (length path + 1) (length ?q) = Some ?q"
    using at_bytes_in [OF at(4)] at_bytes_in [OF at(1) assms(8)] at_bytes_in [OF at(3) q] assms(7) by simp_all
  have i: "url_part (length t) 0 ?dec = Some (length path)" using url_part_path [OF assms(9) at(1,2), of "length ?q"] assms(7) by simp
  have l: "length path < length t" "length t - (length path + 1) = length ?q" "length t \<noteq> 0" using assms(7) by simp_all
  note p = pair_loop_query [OF assms(11,10) at(3)]
  show ?thesis
    using assms(8) q l unfolding parse_url_def alloc_buffer_def
    by (simp add: assms(1,2) d i add_req_variable_def bi [unfolded One_nat_def, simplified] bi p [unfolded One_nat_def, simplified] split_def)
qed

lemma url_decode_bad:
  assumes "drop i src = p @ 0x25 # x # y # rest" "\<forall>b \<in> set p. b \<noteq> 0 \<and> b \<noteq> 0x25" "hex_digit_order x = -1 \<or> hex_digit_order y = -1"
    "i + length p < srclen" "di + length p < dstlen" "dstlen \<le> length dest"
  shows "\<exists>d. url_decode_loop src srclen dstlen i di dest = Some (URL_DECODE_ERR, d) \<and> length d = length dest"
  using assms
proof (induction p arbitrary: i di dest)
  case Nil
  have i: "i + 2 < length src" using arg_cong [OF Nil.prems(1), of length] by simp
  have "src ! i = 0x25" "src ! (i + 1) = x" "src ! (i + 2) = y"
    using arg_cong [OF Nil.prems(1), of "\<lambda>l. l ! 0"] arg_cong [OF Nil.prems(1), of "\<lambda>l. l ! 1"] arg_cong [OF Nil.prems(1), of "\<lambda>l. l ! 2"] i
    by simp_all
  then show ?case using i Nil.prems(3-5) by (subst url_decode_loop.simps) (auto simp: rd_def)
next
  case (Cons b p)
  have i: "i < length src" using arg_cong [OF Cons.prems(1), of length] by simp
  have b: "src ! i = b" "b \<noteq> 0" "b \<noteq> 0x25" using arg_cong [OF Cons.prems(1), of "\<lambda>l. l ! 0"] i Cons.prems(2) by simp_all
  let ?b = "if b = 0x2B then 0x20 else b"
  have "drop (i + 1) src = tl (drop i src)" by (simp add: tl_drop drop_Suc)
  then have n: "drop (i + 1) src = p @ 0x25 # x # y # rest" using Cons.prems(1) by simp
  have "url_decode_loop src srclen dstlen i di dest = url_decode_loop src srclen dstlen (i + 1) (di + 1) (write_at dest di [?b])"
    using b i Cons.prems(4-6) by (subst url_decode_loop.simps) (simp add: wr_write_at)
  moreover have "\<exists>d. url_decode_loop src srclen dstlen (i + 1) (di + 1) (write_at dest di [?b]) = Some (URL_DECODE_ERR, d) \<and>
      length d = length (write_at dest di [?b])"
    using Cons.IH [OF n, of "di + 1" "write_at dest di [?b]"] Cons.prems by simp
  ultimately show ?case using Cons.prems(5,6) by simp
qed

lemma parse_url_bad:
  assumes "mpi_bmap c = Some b" "e_alloc E b = Some (Some (h, buf), b')" "drop url mem = p @ 0x25 # x # y # rest"
    "\<forall>b \<in> set p. b \<noteq> 0 \<and> b \<noteq> 0x25" "hex_digit_order x = -1 \<or> hex_digit_order y = -1" "length p < n"
    "length p < unat (e_bsize E)" "unat (e_bsize E) \<le> length buf" "length buf < 65535"
  shows "parse_url E mem url n c = None"
proof -
  obtain d where d: "UrlDecode (drop url mem) n buf (unat (e_bsize E)) = Some (URL_DECODE_ERR, d)" "length d = length buf"
    using url_decode_bad [of 0 "drop url mem" p x y rest n 0 "unat (e_bsize E)" buf] assms by (auto simp: UrlDecode_def)
  have "add_req_variable VAR_REQ_URI d 0 URL_DECODE_ERR (c\<lparr>mpi_bmap := Some b'\<rparr>) = None"
    using d(2) assms(9) by (simp add: add_req_variable_def bytes_in_def URL_DECODE_ERR_def)
  then show ?thesis by (simp add: parse_url_def alloc_buffer_def assms(1,2) d(1))
qed

end
