(* ===== verification/HttpProps.thy ===== *)
theory HttpProps
  imports HttpSpec
begin

text \<open>
  The server side of a connection: what \<open>parse_req_header\<close> makes of a request, and what reaches the socket of a response.
\<close>

section \<open>A request\<close>

definition header_text :: "u8 list \<Rightarrow> u8 list \<Rightarrow> u8 list \<Rightarrow> (u8 list \<times> u8 list) list \<Rightarrow> u8 list" where
  "header_text m u v fs = request_line m u v @ header_lines fs"

text \<open>The variables of a request in the order in which they are added.\<close>

definition request_vars :: "('n, 'b) http_env \<Rightarrow> u8 list \<Rightarrow> u8 list \<Rightarrow> u8 list \<Rightarrow> u8 list \<Rightarrow> (u8 list \<times> u8 list) list \<Rightarrow>
    ('n, 'b) conn \<Rightarrow> ('n, 'b) conn option" where
  "request_vars E hdr m u v fs c = do {
     (_, c) \<leftarrow> req_add VAR_REQ_METHOD m c;
     c \<leftarrow> parse_url E hdr (length m + 1) (length u) c;
     (_, c) \<leftarrow> req_add VAR_REQ_PROTOCOL v c;
     add_fields fs c }"

definition keeps_input :: "('n, 'b) conn \<Rightarrow> ('n, 'b) conn \<Rightarrow> bool" where
  "keeps_input c c' \<longleftrightarrow> m_ibuffer c' = m_ibuffer c \<and> m_ibuffer_offset c' = m_ibuffer_offset c \<and> m_header_len c' = m_header_len c"

lemma keeps_input_refl [simp]: "keeps_input c c" by (simp add: keeps_input_def)

lemma keeps_input_trans: "keeps_input a b \<Longrightarrow> keeps_input b c \<Longrightarrow> keeps_input a c" by (simp add: keeps_input_def)

lemma req_add_keeps: "req_add name v c = Some (r, c') \<Longrightarrow> keeps_input c c'"
  by (auto simp: req_add_def keeps_input_def bind_eq_Some_conv split: prod.splits)

lemma add_req_variable_keeps: "add_req_variable name mem p sz c = Some (r, c') \<Longrightarrow> keeps_input c c'"
  by (auto simp: add_req_variable_def bind_eq_Some_conv dest: req_add_keeps)

lemma add_fields_keeps: "add_fields fs c = Some c' \<Longrightarrow> keeps_input c c'"
proof (induction fs arbitrary: c)
  case (Cons f fs)
  then obtain r c1 where "req_add (fst f) (snd f) c = Some (r, c1)" "add_fields fs c1 = Some c'" by (auto simp: bind_eq_Some_conv)
  then show ?case using Cons.IH req_add_keeps keeps_input_trans by blast
qed simp

lemma add_pair_keeps: "add_pair dec s c = Some c' \<Longrightarrow> keeps_input c c'"
  by (auto simp: add_pair_def bind_eq_Some_conv split: option.splits if_splits dest: req_add_keeps)

lemma pair_loop_keeps: "pair_loop n i dec s c = Some c' \<Longrightarrow> keeps_input c c'"
proof (induction n arbitrary: i s c)
  case 0
  then show ?case using add_pair_keeps by (auto simp: pair_loop.simps)
next
  case (Suc n)
  then show ?case using add_pair_keeps keeps_input_trans
    by (auto simp: pair_loop.simps bind_eq_Some_conv split: if_splits) blast+
qed

lemma buffers_keep:
  "alloc_buffer E c = Some (r, c') \<Longrightarrow> keeps_input c c'" "free_buffer E hb c = Some c' \<Longrightarrow> keeps_input c c'"
  by (auto simp: alloc_buffer_def free_buffer_def keeps_input_def bind_eq_Some_conv split: prod.splits option.splits)

lemma parse_url_keeps:
  assumes "parse_url E mem url n c = Some c'"
  shows "keeps_input c c'"
proof -
  obtain hb c1 where a: "alloc_buffer E c = Some (hb, c1)" using assms by (auto simp: parse_url_def bind_eq_Some_conv)
  show ?thesis
  proof (cases hb)
    case None
    then show ?thesis using assms a buffers_keep(1) by (auto simp: parse_url_def)
  next
    case (Some hd)
    obtain h buf where hd: "hd = (h, buf)" by (cases hd)
    obtain sz d r2 c2 i r3 c3 c4 where s: "add_req_variable VAR_REQ_URI d 0 sz c1 = Some (r2, c2)"
      "add_req_variable VAR_REQ_URL d 0 i c2 = Some (r3, c3)" "free_buffer E (Some (h, d)) c4 = Some c'"
      "(if i < sz then do { (_, c) \<leftarrow> add_req_variable VAR_REQ_URN d (i + 1) (sz - (i + 1)) c3;
                            pair_loop (sz - (i + 1)) (i + 1) d no_pair c } else Some c3) = Some c4"
      using assms a Some hd by (auto simp: parse_url_def bind_eq_Some_conv)
    have "keeps_input c3 c4" using s(4) add_req_variable_keeps pair_loop_keeps keeps_input_trans
      by (auto simp: bind_eq_Some_conv split: if_splits) blast+
    then show ?thesis using buffers_keep(1) [OF a] buffers_keep(2) [OF s(3)]
        add_req_variable_keeps [OF s(1)] add_req_variable_keeps [OF s(2)] by (meson keeps_input_trans)
  qed
qed

lemma request_vars_keeps:
  assumes "request_vars E hdr m u v fs c = Some c'"
  shows "keeps_input c c'"
proof -
  obtain r1 c1 c2 r3 c3 where "req_add VAR_REQ_METHOD m c = Some (r1, c1)" "parse_url E hdr (length m + 1) (length u) c1 = Some c2"
    "req_add VAR_REQ_PROTOCOL v c2 = Some (r3, c3)" "add_fields fs c3 = Some c'"
    using assms by (auto simp: request_vars_def bind_eq_Some_conv)
  then show ?thesis using req_add_keeps parse_url_keeps add_fields_keeps by (meson keeps_input_trans)
qed

lemma parse_request_line_vars:
  assumes "token m" "token u" "token v" "at hdr 0 (request_line m u v)"
  shows "parse_request_line E hdr 0 (length (request_line m u v) + k) c = do {
     (_, c) \<leftarrow> req_add VAR_REQ_METHOD m c;
     c \<leftarrow> parse_url E hdr (length m + 1) (length u) c;
     (_, c) \<leftarrow> req_add VAR_REQ_PROTOCOL v c;
     Some (length (request_line m u v), c) }"
proof -
  note at = request_line_at [OF assms(4)]
  have ne: "m \<noteq> []" "u \<noteq> []" "v \<noteq> []" using assms(1-3) by (auto simp: token_def)
  have b: "bytes_in hdr 0 (length m) = Some m" "bytes_in hdr (length m + length u + 2) (length v) = Some v"
    using at_bytes_in [of hdr 0 m] at_bytes_in [of hdr "length m + length u + 2" v] at ne by simp_all
  have a: "add_req_variable VAR_REQ_METHOD hdr 0 (length m) c = req_add VAR_REQ_METHOD m c"
    "add_req_variable VAR_REQ_PROTOCOL hdr (length m + length u + 2) (length v) c = req_add VAR_REQ_PROTOCOL v c" for c :: "('a, 'b) conn"
    using b ne by (simp_all add: add_req_variable_def)
  have l: "length (request_line m u v) = length m + length u + length v + 4" by (simp add: request_line_def crlf_def)
  show ?thesis unfolding parse_request_line_def line_loop_request [OF assms]
    using ne a [unfolded numeral_2_eq_2, simplified] a by (simp add: l split_def bind_map_option bind_assoc comp_def)
qed

lemma parse_header_vars:
  fixes c :: "('n, 'b) conn"
  assumes "token m" "token u" "token v" "list_all field_ok fs" "at hdr 0 (header_text m u v fs)" "len = length (header_text m u v fs)"
  shows "do { (offset, c) \<leftarrow> parse_request_line E hdr 0 len c; header_loop len hdr offset len c } =
    map_option (Pair len) (request_vars E hdr m u v fs c)"
proof -
  let ?l = "length (request_line m u v)"
  have at: "at hdr 0 (request_line m u v)" "at hdr ?l (header_lines fs)" using assms(5) by (simp_all add: header_text_def at_append)
  have l: "len = ?l + length (header_lines fs)" "?l \<noteq> 0" using assms(6) by (simp_all add: header_text_def request_line_def)
  have "length fs \<le> length (concat (map field_line fs))" by (induction fs) (auto simp: field_line_def crlf_def)
  then have k: "length fs < len" using l(1) by (simp add: header_lines_def crlf_def)
  have h: "header_loop len hdr ?l len c = map_option (Pair len) (add_fields fs c)" for c :: "('n, 'b) conn"
    by (rule header_loop_fields [OF assms(4) at(2) l(2,1) k])
  show ?thesis unfolding request_vars_def l(1) parse_request_line_vars [OF assms(1-3) at(1)]
    unfolding l(1) [symmetric] by (simp add: bind_assoc split_def h map_option_bind comp_def)
qed

text \<open>The state after the header: what follows it in the buffer is the first part of the content.\<close>

definition body_left :: "addr \<Rightarrow> u8 list \<Rightarrow> u8 list \<Rightarrow> ('n, 'b) conn \<Rightarrow> ('n, 'b) conn" where
  "body_left h hdr body c =
     (if body = [] then c\<lparr>m_ibuffer_offset := 0, m_req_data := False, m_header_len := 0\<rparr>
      else c\<lparr>m_ibuffer := Some (h, write_at hdr 0 (body @ [0])), m_ibuffer_offset := of_nat (length body), m_req_data := True,
             m_header_len := 0\<rparr>)"

definition content_length :: "u8 list option \<Rightarrow> ('n, 'b) conn \<Rightarrow> ('n, 'b) conn" where
  "content_length cl c = (case cl of None \<Rightarrow> c | Some v \<Rightarrow> c\<lparr>m_req_content_len := of_int (c_atoi v)\<rparr>)"

lemma parse_req_header_rel:
  assumes "token m" "token u" "token v" "list_all field_ok fs" "hdr = header_text m u v fs @ body @ junk" "junk \<noteq> []"
    "m_ibuffer c = Some (h, hdr)" "unat (m_header_len c) = length (header_text m u v fs)"
    "unat (m_ibuffer_offset c) = length (header_text m u v fs) + length body"
  shows "parse_req_header E c = do {
     c \<leftarrow> request_vars E hdr m u v fs c;
     (cl, c) \<leftarrow> req_var (ascii ''Content-Length'') (body_left h hdr body c);
     let c = content_length cl c;
     Some (True, c\<lparr>m_req_content_rcv := m_ibuffer_offset c\<rparr>) }"
proof -
  let ?len = "length (header_text m u v fs)"
  have off: "m_ibuffer_offset c \<noteq> 0" using assms(9) by (auto simp: header_text_def request_line_def)
  have at: "at hdr 0 (header_text m u v fs)" using assms(5) by (simp add: at_prefix)
  have lb: "length body < length hdr" "?len + length body \<le> length hdr" using assms(5,6) by (auto simp: header_text_def request_line_def)
  let ?tail = "\<lambda>(offset, c). if offset = ?len then do {
      c \<leftarrow> (if m_ibuffer_offset c > m_header_len c then do {
             let n = m_ibuffer_offset c - m_header_len c;
             hdr \<leftarrow> mem_cpy 0 ?len (unat n) hdr;
             hdr \<leftarrow> wr hdr (unat n) 0;
             Some (c\<lparr>m_ibuffer := Some (h, hdr), m_ibuffer_offset := n, m_req_data := True\<rparr>) }
           else Some (c\<lparr>m_ibuffer_offset := 0, m_req_data := False\<rparr>));
      (cl, c) \<leftarrow> req_var (ascii ''Content-Length'') (c\<lparr>m_header_len := 0\<rparr>);
      let c = content_length cl c;
      Some (True, c\<lparr>m_req_content_rcv := m_ibuffer_offset c\<rparr>) } else Some (False, c)"
  have "parse_req_header E c = do { (offset, c) \<leftarrow> parse_request_line E hdr 0 ?len c; header_loop ?len hdr offset ?len c } \<bind> ?tail"
    unfolding parse_req_header_def assms(7,8) option.case prod.case if_P [OF off] Let_def content_length_def bind_assoc split_def fst_conv snd_conv
    by (rule refl)
  also have "\<dots> = request_vars E hdr m u v fs c \<bind> (\<lambda>c. ?tail (?len, c))"
    unfolding parse_header_vars [OF assms(1-4) at refl] by (simp add: bind_map_option comp_def)
  also have "\<dots> = request_vars E hdr m u v fs c \<bind> (\<lambda>c. do {
      (cl, c) \<leftarrow> req_var (ascii ''Content-Length'') (body_left h hdr body c);
      let c = content_length cl c;
      Some (True, c\<lparr>m_req_content_rcv := m_ibuffer_offset c\<rparr>) })"
  proof (rule Option.bind_cong [OF refl])
    fix c' assume "request_vars E hdr m u v fs c = Some c'"
    then have k: "m_ibuffer_offset c' = m_ibuffer_offset c" "m_header_len c' = m_header_len c"
      using request_vars_keeps keeps_input_def by blast+
    have n: "unat (m_ibuffer_offset c' - m_header_len c') = length body" "m_ibuffer_offset c' > m_header_len c' \<longleftrightarrow> body \<noteq> []"
      using k assms(8,9) by (auto simp: unat_sub word_le_nat_alt word_less_nat_alt)
    then have o: "m_ibuffer_offset c' - m_header_len c' = of_nat (length body)" unfolding n(1) [symmetric] by simp
    have cp: "mem_cpy 0 ?len (length body) hdr = Some (write_at hdr 0 body)"
      using mem_cpy_copies [of ?len "length body" hdr 0] lb assms(5) by (simp add: bytes_at_def)
    have w: "wr (write_at hdr 0 body) (length body) 0 = Some (write_at hdr 0 (body @ [0]))"
      using lb write_at_append [of 0 body "[0]" hdr] by (simp add: wr_write_at)
    show "?tail (?len, c') = do {
      (cl, c) \<leftarrow> req_var (ascii ''Content-Length'') (body_left h hdr body c');
      let c = content_length cl c;
      Some (True, c\<lparr>m_req_content_rcv := m_ibuffer_offset c\<rparr>) }"
      using n o cp w by (simp add: body_left_def Let_def)
  qed
  finally show ?thesis .
qed

section \<open>A response\<close>

text \<open>A socket whose writes accept at least one byte, and give to \<open>out\<close> what they accept.\<close>

definition takes_some :: "('n, 'b) http_env \<Rightarrow> ('n \<Rightarrow> u8 list) \<Rightarrow> bool" where
  "takes_some E out \<longleftrightarrow> (\<forall>b s. out (e_blocking E b s) = out s) \<and>
     (\<forall>d s. d \<noteq> [] \<longrightarrow> (case e_write E d s of (r, s') \<Rightarrow> r \<noteq> 0 \<and> unat r \<le> length d \<and> out s' = out s @ take (unat r) d))"

text \<open>A socket that takes everything at once.\<close>

definition takes_all :: "('n, 'b) http_env \<Rightarrow> ('n \<Rightarrow> u8 list) \<Rightarrow> bool" where
  "takes_all E out \<longleftrightarrow> (\<forall>b s. out (e_blocking E b s) = out s) \<and>
     (\<forall>d s. case e_write E d s of (r, s') \<Rightarrow> r = of_nat (length d) \<and> out s' = out s @ d)"

fun send_times :: "('n, 'b) http_env \<Rightarrow> nat \<Rightarrow> ('n, 'b) conn \<Rightarrow> ('n, 'b) conn option" where
  "send_times E 0 c = Some c"
| "send_times E (Suc n) c = do { (_, c) \<leftarrow> send_content E c; send_times E n c }"

lemma send_content_step:
  assumes "takes_some E out" "mp_sio c = Some s" "mp_doc c = Some doc" "m_res_content_len c = of_nat (length doc)"
    "length doc < 2 ^ 32" "unat (m_content_sent c) < length doc"
  shows "\<exists>r s' c'. send_content E c = Some (r, c') \<and> r \<noteq> 0 \<and> mp_sio c' = Some s' \<and> mp_doc c' = Some doc \<and>
    m_res_content_len c' = m_res_content_len c \<and> unat (m_content_sent c') = unat (m_content_sent c) + unat r \<and>
    unat (m_content_sent c) + unat r \<le> length doc \<and>
    out s' = out s @ take (unat r) (drop (unat (m_content_sent c)) doc)"
proof -
  let ?k = "unat (m_content_sent c)"
  let ?d = "drop ?k doc"
  have L: "unat (m_res_content_len c) = length doc" using assms(4,5) by (simp add: unat_of_nat_small)
  then have lt: "m_content_sent c < m_res_content_len c" "m_res_content_len c \<noteq> 0"
    using assms(6) by (auto simp: word_less_nat_alt)
  have "unat (m_res_content_len c - m_content_sent c) = length doc - ?k" using lt(1) L by (simp add: unat_sub word_le_nat_alt word_less_nat_alt)
  then have len: "unat (ucast (m_res_content_len c - m_content_sent c) :: u32) = length ?d" using assms(5) by (simp add: unsigned_ucast_eq take_bit_nat_eq_self)
  have b: "bytes_in doc ?k (length ?d) = Some ?d" using assms(6) by (simp add: bytes_in_def bytes_at_def)
  obtain r s1 where w: "e_write E ?d (e_blocking E True s) = (r, s1)" by (cases "e_write E ?d (e_blocking E True s)")
  have "?d \<noteq> []" using assms(6) by simp
  then have ok: "r \<noteq> 0" "unat r \<le> length ?d" "out s1 = out s @ take (unat r) ?d" "\<And>b s. out (e_blocking E b s) = out s"
    using assms(1) [unfolded takes_some_def, THEN conjunct2, THEN spec, THEN spec, of ?d "e_blocking E True s"]
      assms(1) [unfolded takes_some_def, THEN conjunct1] w by (simp_all del: length_drop)
  have rk: "?k + unat r \<le> length doc" using ok(2) assms(6) by simp
  have "unat r < 2 ^ 64" using unsigned_less [of r, where ?'a = nat] by simp
  then have "unat (ucast r :: u64) = unat r" by (simp add: unsigned_ucast_eq take_bit_nat_eq_self)
  then have u: "unat (m_content_sent c + ucast r) = ?k + unat r"
    using rk assms(5) by (simp add: unat_word_ariths)
  show ?thesis
    unfolding send_content_def using assms(2,3) lt len b w ok u rk
    by (simp add: sio_blocking_def sio_write_def Let_def del: length_drop)
qed

lemma send_times_rest:
  assumes "takes_some E out" "mp_sio c = Some s" "mp_doc c = Some doc" "m_res_content_len c = of_nat (length doc)"
    "length doc < 2 ^ 32" "unat (m_content_sent c) \<le> length doc"
  shows "\<exists>n c' s'. n \<le> length doc - unat (m_content_sent c) \<and> send_times E n c = Some c' \<and> mp_sio c' = Some s' \<and>
    m_content_sent c' = m_res_content_len c \<and> m_res_content_len c' = m_res_content_len c \<and>
    out s' = out s @ drop (unat (m_content_sent c)) doc"
  using assms
proof (induction "length doc - unat (m_content_sent c)" arbitrary: c s rule: less_induct)
  case less
  let ?k = "unat (m_content_sent c)"
  show ?case
  proof (cases "?k = length doc")
    case True
    then have "m_content_sent c = m_res_content_len c" using less.prems(4,5) by (simp add: word_unat_eq_iff unat_of_nat_small)
    then show ?thesis using True less.prems(2) by (intro exI [of _ 0] exI [of _ c] exI [of _ s]) simp
  next
    case False
    then have lt: "?k < length doc" using less.prems(6) by simp
    obtain r s1 c1 where s: "send_content E c = Some (r, c1)" "r \<noteq> 0" "mp_sio c1 = Some s1" "mp_doc c1 = Some doc"
      "m_res_content_len c1 = m_res_content_len c" "unat (m_content_sent c1) = ?k + unat r" "?k + unat r \<le> length doc"
      "out s1 = out s @ take (unat r) (drop ?k doc)"
      using send_content_step [OF less.prems(1-5) lt] by blast
    have r: "unat r \<noteq> 0" using s(2) by (simp add: unat_eq_zero)
    obtain n c' s' where n: "n \<le> length doc - unat (m_content_sent c1)" "send_times E n c1 = Some c'" "mp_sio c' = Some s'"
      "m_content_sent c' = m_res_content_len c1" "m_res_content_len c' = m_res_content_len c1"
      "out s' = out s1 @ drop (unat (m_content_sent c1)) doc"
    proof -
      have "length doc - unat (m_content_sent c1) < length doc - ?k" "unat (m_content_sent c1) \<le> length doc" using s(6,7) r lt by simp_all
      moreover have "m_res_content_len c1 = of_nat (length doc)" using s(5) less.prems(4) by simp
      ultimately show thesis using less.hyps [OF _ less.prems(1) s(3,4) _ less.prems(5)] that by blast
    qed
    have "drop ?k doc = take (unat r) (drop ?k doc) @ drop (?k + unat r) doc" by (metis append_take_drop_id drop_drop add.commute)
    moreover have "Suc n \<le> length doc - ?k" using n(1) s(6,7) r by simp
    ultimately show ?thesis using n s(1,5,6,8) by (intro exI [of _ "Suc n"] exI [of _ c'] exI [of _ s']) simp
  qed
qed

text \<open>The rest of a header that is prepared, from \<open>m_oheader_sent\<close> on.\<close>

lemma send_header_rest:
  assumes "takes_all E out" "mp_sio c = Some s" "m_response_code c \<noteq> 0" "m_res_hdr_prepared c" "m_oheader c = Some (h, buf)"
    "m_oheader_offset c \<noteq> 0" "unat (m_oheader_offset c) \<le> length buf" "m_oheader_sent c < m_oheader_offset c"
    "length (status_line c) < 128"
  shows "\<exists>c' s'. send_header E k c = Some (m_oheader_offset c - m_oheader_sent c, c') \<and> mp_sio c' = Some s' \<and>
    out s' = out s @ (if m_oheader_sent c = 0 then status_line c else []) @
      drop (unat (m_oheader_sent c)) (take (unat (m_oheader_offset c)) buf) @ crlf \<and>
    m_oheader_offset c' = m_oheader_offset c \<and> m_oheader_sent c' = m_oheader_offset c - m_oheader_sent c \<and> \<not> m_res_hdr_prepared c'"
proof -
  let ?p = "unat (m_oheader_sent c)" and ?n = "unat (m_oheader_offset c)"
  let ?d = "drop ?p (take ?n buf)"
  have w: "fst (e_write E d s) = of_nat (length d)" "out (snd (e_write E d s)) = out s @ d" "out (e_blocking E b s) = out s" for b d s
  proof -
    obtain r s1 where e: "e_write E d s = (r, s1)" by (cases "e_write E d s")
    have a: "case e_write E d s of (r, s') \<Rightarrow> r = of_nat (length d) \<and> out s' = out s @ d" "out (e_blocking E b s) = out s"
      using assms(1) [unfolded takes_all_def, THEN conjunct2, THEN spec, THEN spec, of d s]
        assms(1) [unfolded takes_all_def, THEN conjunct1] by simp_all
    show "fst (e_write E d s) = of_nat (length d)" "out (snd (e_write E d s)) = out s @ d" "out (e_blocking E b s) = out s"
      using a e by simp_all
  qed
  have lt: "?p < ?n" using assms(8) by (simp add: word_less_nat_alt)
  then have n: "unat (m_oheader_offset c - m_oheader_sent c) = ?n - ?p" by (simp add: unat_sub word_le_nat_alt)
  have d: "bytes_in buf ?p (?n - ?p) = Some ?d" "length ?d = ?n - ?p" using lt assms(7) by (simp_all add: bytes_in_def bytes_at_def drop_take)
  have r: "of_nat (length ?d) = m_oheader_offset c - m_oheader_sent c" unfolding d(2) n [symmetric] by simp
  have sl: "c_snprintf (replicate 128 0) 0 128 (status_line c) =
      Some (of_nat (length (status_line c)), write_at (replicate 128 0) 0 (status_line c @ [0]))"
    using assms(9) by (simp add: c_snprintf_def Let_def)
  have su: "unat (of_nat (length (status_line c)) :: u32) = length (status_line c)" using assms(9) by (simp add: unat_of_nat_small)
  have sb: "bytes_in (write_at (replicate 128 0) 0 (status_line c @ [0])) 0 (length (status_line c)) = Some (status_line c)"
    using assms(9) by (simp add: bytes_in_def bytes_at_def write_at_def)
  have b0: "sio_blocking E b c = Some (c\<lparr>mp_sio := Some (e_blocking E b s)\<rparr>)" if "mp_sio c = Some s" for b s and c :: "('a, 'b) conn"
    using that by (simp add: sio_blocking_def)
  have w0: "sio_write E d c = Some (of_nat (length d), c\<lparr>mp_sio := Some (snd (e_write E d s))\<rparr>)" if "mp_sio c = Some s" for d s and c :: "('a, 'b) conn"
    using that w(1) by (simp add: sio_write_def split_def)
  have st: "status_line (c\<lparr>mp_sio := x\<rparr>) = status_line c" for x by (simp add: status_line_def)
  show ?thesis
  proof (cases "m_oheader_sent c = 0")
    case True
    show ?thesis using assms(2-6) True n d r sl su sb
      by (simp add: send_header_def b0 w0 st w(2,3))
  next
    case False
    show ?thesis using assms(2-6) False n d r
      by (simp add: send_header_def b0 w0 w(2,3))
  qed
qed

section \<open>A connection at work\<close>

text \<open>A socket that collects what it takes, \<open>acc n\<close> of \<open>n\<close> bytes, and buffers of 64 bytes.\<close>

definition env_1 :: "(nat \<Rightarrow> nat) \<Rightarrow> (u8 list, unit) http_env" where
  "env_1 acc = \<lparr>e_alive = (\<lambda>_. True), e_read = (\<lambda>_ s. ([], s)),
     e_write = (\<lambda>d s. (of_nat (acc (length d)), s @ take (acc (length d)) d)),
     e_blocking = (\<lambda>_ s. s), e_peer_ip = (\<lambda>_. 0), e_peer_name = (\<lambda>_ _. (False, [])),
     e_alloc = (\<lambda>_. Some (Some (0x1000, replicate 64 0), ())), e_free = (\<lambda>_ _ _. Some ()), e_bsize = 64, e_now = 0,
     e_mtime = (\<lambda>_. []), e_stack = (0, 0)\<rparr>"

definition conn_1 :: "u8 list cMap option \<Rightarrow> (u8 list, unit) conn" where
  "conn_1 q = \<lparr>mp_sio = Some [], mpi_bmap = Some (), mpi_req_map = q, mpi_res_map = None, mpi_cookie_list = None,
     m_ibuffer = None, m_oheader = None, m_obuffer = None, m_ibuffer_offset = 0, m_oheader_offset = 0, m_obuffer_offset = 0,
     m_oheader_sent = 0, m_obuffer_sent = 0, m_header_len = 0, m_res_content_len = 0, m_req_content_len = 0,
     m_req_content_rcv = 0, m_content_sent = 0, m_error_code = 0, m_response_code = 200, m_state = 1, m_stime = 0, m_timeout = 5,
     m_udata = replicate 8 0, m_res_protocol = ascii ''HTTP/1.1'', m_req_data = False, m_content_type = None, mp_doc = None,
     m_res_hdr_prepared = False\<rparr>"

lemma takes_some_1: "takes_some (env_1 (min 3)) id"
  by (simp add: takes_some_def env_1_def unat_of_nat_small unat_eq_zero flip: unat_eq_zero)

lemma takes_all_1: "takes_all (env_1 id) id" by (simp add: takes_all_def env_1_def)

definition request_1 :: "u8 list" where
  "request_1 = header_text (ascii ''GET'') (ascii ''/a'') (ascii ''HTTP/1.1'') [(ascii ''Host'', ascii ''b c'')]"

section \<open>Properties\<close>

text \<open>C9: A well-formed request is parsed as it is written: \<open>parse_req_header\<close> adds method, URL, protocol and then every
  field of the header, in the order of the text and each with exactly its bytes; it ends at the end of the header, moves
  what follows to the front of the buffer, and takes the length of the content from the field of that name.\<close>

theorem parse_req_header_fields:
  assumes "token m" "token u" "token v" "list_all field_ok fs" "hdr = header_text m u v fs @ body @ junk" "junk \<noteq> []"
    "m_ibuffer c = Some (h, hdr)" "unat (m_header_len c) = length (header_text m u v fs)"
    "unat (m_ibuffer_offset c) = length (header_text m u v fs) + length body"
  shows "parse_req_header E c = do {
     c \<leftarrow> request_vars E hdr m u v fs c;
     (cl, c) \<leftarrow> req_var (ascii ''Content-Length'') (body_left h hdr body c);
     let c = content_length cl c;
     Some (True, c\<lparr>m_req_content_rcv := m_ibuffer_offset c\<rparr>) }"
  using parse_req_header_rel [OF assms] .

theorem parse_req_header_fields_witness:
  "\<forall>q. parse_req_header (env_1 id) (conn_1 q \<lparr>m_ibuffer := Some (0x2000, request_1 @ [7, 8] @ [0]), m_header_len := 30,
       m_ibuffer_offset := 32\<rparr>) = do {
     c \<leftarrow> request_vars (env_1 id) (request_1 @ [7, 8] @ [0]) (ascii ''GET'') (ascii ''/a'') (ascii ''HTTP/1.1'')
            [(ascii ''Host'', ascii ''b c'')]
            (conn_1 q \<lparr>m_ibuffer := Some (0x2000, request_1 @ [7, 8] @ [0]), m_header_len := 30, m_ibuffer_offset := 32\<rparr>);
     (cl, c) \<leftarrow> req_var (ascii ''Content-Length'') (body_left 0x2000 (request_1 @ [7, 8] @ [0]) [7, 8] c);
     let c = content_length cl c;
     Some (True, c\<lparr>m_req_content_rcv := m_ibuffer_offset c\<rparr>) }"
proof -
  have ok: "token (ascii ''GET'')" "token (ascii ''/a'')" "token (ascii ''HTTP/1.1'')"
    "list_all field_ok [(ascii ''Host'', ascii ''b c'')]" "length request_1 = 30"
    by code_simp+
  show ?thesis
    by (intro allI parse_req_header_fields [OF ok(1-4)]) (use ok(5) in \<open>auto simp: request_1_def\<close>)
qed

text \<open>C20: The variables of a URL: for a URL that decodes to a path, a question mark and \<open>name=value\<close> pairs joined by
  \<open>&\<close>, \<open>parse_url\<close> adds the decoded text, the path and the query, and then every pair, in order and each with exactly its bytes.\<close>

theorem parse_url_variables:
  assumes "mpi_bmap c = Some b" "e_alloc E b = Some (Some (h, buf), b')"
    "at mem url u" "0 \<notin> set u" "url + length u < length mem" "url_decoded u = Some t" "t = path @ [0x3F] @ query_text ps"
    "path \<noteq> []" "0x3F \<notin> set path" "ps \<noteq> []" "list_all pair_ok ps" "length t < unat (e_bsize E)" "unat (e_bsize E) \<le> length buf"
  shows "parse_url E mem url (length u) c = do {
     (_, c) \<leftarrow> req_add VAR_REQ_URI t (c\<lparr>mpi_bmap := Some b'\<rparr>);
     (_, c) \<leftarrow> req_add VAR_REQ_URL path c;
     (_, c) \<leftarrow> req_add VAR_REQ_URN (query_text ps) c;
     c \<leftarrow> add_fields ps c;
     free_buffer E (Some (h, write_at buf 0 (t @ [0]))) c }"
  using parse_url_query [OF assms] .

theorem parse_url_variables_witness:
  "\<forall>q. parse_url (env_1 id) (ascii ''/a%20?x=1&y=2 '') 0 (length (ascii ''/a%20?x=1&y=2'')) (conn_1 q) = do {
     (_, c) \<leftarrow> req_add VAR_REQ_URI (ascii ''/a ?x=1&y=2'') (conn_1 q \<lparr>mpi_bmap := Some ()\<rparr>);
     (_, c) \<leftarrow> req_add VAR_REQ_URL (ascii ''/a '') c;
     (_, c) \<leftarrow> req_add VAR_REQ_URN (query_text [(ascii ''x'', ascii ''1''), (ascii ''y'', ascii ''2'')]) c;
     c \<leftarrow> add_fields [(ascii ''x'', ascii ''1''), (ascii ''y'', ascii ''2'')] c;
     free_buffer (env_1 id) (Some (0x1000, write_at (replicate 64 0) 0 (ascii ''/a ?x=1&y=2'' @ [0]))) c }"
proof -
  let ?u = "ascii ''/a%20?x=1&y=2''" and ?p = "ascii ''/a ''" and ?ps = "[(ascii ''x'', ascii ''1''), (ascii ''y'', ascii ''2'')]"
  have ok: "at (ascii ''/a%20?x=1&y=2 '') 0 ?u" "0 \<notin> set ?u" "0 + length ?u < length (ascii ''/a%20?x=1&y=2 '')"
    "url_decoded ?u = Some (ascii ''/a ?x=1&y=2'')" "ascii ''/a ?x=1&y=2'' = ?p @ [0x3F] @ query_text ?ps" "?p \<noteq> []" "0x3F \<notin> set ?p"
    "?ps \<noteq> []" "list_all pair_ok ?ps" "length (ascii ''/a ?x=1&y=2'') < 64"
    by code_simp+
  show ?thesis
    by (intro allI parse_url_variables [OF _ _ ok(1-9)]) (use ok(10) in \<open>simp_all add: env_1_def conn_1_def\<close>)
qed

text \<open>C22: A \<open>%\<close> in a URL that is not followed by two hexadecimal digits makes \<open>parse_url\<close> read outside the buffer:
  the error code of \<open>UrlDecode\<close> is taken as the length of the decoded text.\<close>

theorem parse_url_malformed:
  assumes "mpi_bmap c = Some b" "e_alloc E b = Some (Some (h, buf), b')" "drop url mem = p @ 0x25 # x # y # rest"
    "\<forall>b \<in> set p. b \<noteq> 0 \<and> b \<noteq> 0x25" "hex_digit_order x = -1 \<or> hex_digit_order y = -1" "length p < n"
    "length p < unat (e_bsize E)" "unat (e_bsize E) \<le> length buf" "length buf < 65535"
  shows "parse_url E mem url n c = None"
  using parse_url_bad [OF assms] .

theorem parse_url_malformed_witness: "\<forall>q. parse_url (env_1 id) (ascii ''/a%zz '') 0 5 (conn_1 q) = None"
proof -
  have ok: "drop 0 (ascii ''/a%zz '') = ascii ''/a'' @ 0x25 # 0x7A # 0x7A # [0x20]" "\<forall>b \<in> set (ascii ''/a''). b \<noteq> 0 \<and> b \<noteq> 0x25"
    "hex_digit_order 0x7A = -1 \<or> hex_digit_order 0x7A = -1" "length (ascii ''/a'') < 5" "length (ascii ''/a'') < 64"
    by code_simp+
  show ?thesis
    by (intro allI parse_url_malformed [OF _ _ ok(1-4)]) (use ok(5) in \<open>auto simp: env_1_def conn_1_def\<close>)
qed

text \<open>C10: The content of a response: however little of it the socket takes at a time, calls of \<open>send_content\<close>, at most one
  per byte, put the document on the socket, every byte once and in order, and leave \<open>m_content_sent\<close> at its length.\<close>

theorem send_content_delivers:
  assumes "takes_some E out" "mp_sio c = Some s" "mp_doc c = Some doc" "m_res_content_len c = of_nat (length doc)"
    "length doc < 2 ^ 32" "m_content_sent c = 0"
  shows "\<exists>n c' s'. n \<le> length doc \<and> send_times E n c = Some c' \<and> mp_sio c' = Some s' \<and>
    m_content_sent c' = m_res_content_len c' \<and> out s' = out s @ doc"
  using send_times_rest [OF assms(1-5)] assms(6) by fastforce

theorem send_content_delivers_witness:
  "\<exists>n c' s'. n \<le> length (ascii ''abcdefgh'') \<and> send_times (env_1 (min 3)) n
      (conn_1 None \<lparr>m_res_content_len := 8, mp_doc := Some (ascii ''abcdefgh'')\<rparr>) = Some c' \<and> mp_sio c' = Some s' \<and>
    m_content_sent c' = m_res_content_len c' \<and> id s' = id [] @ ascii ''abcdefgh''"
proof -
  have "length (ascii ''abcdefgh'') = 8" by code_simp
  then show ?thesis by (intro send_content_delivers [OF takes_some_1]) (simp_all add: conn_1_def)
qed

text \<open>C21: When the rest of a prepared header is accepted, \<open>send_header\<close> has put the header and the empty line that ends it on
  the socket, but it sets \<open>m_oheader_sent\<close> to the size of the last write: the state machine takes the header as sent only if it
  went out in one piece; otherwise the next call appends the fields a second time and goes on from there.\<close>

theorem send_header_in_pieces:
  assumes "takes_all E out" "mp_sio c = Some s" "m_response_code c \<noteq> 0" "m_res_hdr_prepared c" "m_oheader c = Some (h, buf)"
    "m_oheader_offset c \<noteq> 0" "unat (m_oheader_offset c) \<le> length buf" "m_oheader_sent c < m_oheader_offset c"
    "length (status_line c) < 128"
  shows "\<exists>r c' s'. send_header E k c = Some (r, c') \<and> mp_sio c' = Some s' \<and>
    out s' = out s @ (if m_oheader_sent c = 0 then status_line c else []) @
      drop (unat (m_oheader_sent c)) (take (unat (m_oheader_offset c)) buf) @ crlf \<and>
    (m_oheader_sent c' = m_oheader_offset c' \<longleftrightarrow> m_oheader_sent c = 0)"
  using send_header_rest [OF assms, of k] by auto

theorem send_header_in_pieces_witness:
  "\<exists>r c' s'. send_header (env_1 id) 0 (conn_1 None \<lparr>m_res_hdr_prepared := True, m_oheader := Some (0x1000, ascii ''A: b''),
      m_oheader_offset := 4, m_oheader_sent := 3\<rparr>) = Some (r, c') \<and> mp_sio c' = Some s' \<and>
    id s' = id [] @ [] @ drop 3 (take 4 (ascii ''A: b'')) @ crlf \<and> (m_oheader_sent c' = m_oheader_offset c' \<longleftrightarrow> False)"
proof -
  have "length (status_line (conn_1 None)) < 128" by code_simp
  then have l: "length (status_line (conn_1 None \<lparr>m_res_hdr_prepared := True, m_oheader := Some (0x1000, ascii ''A: b''),
      m_oheader_offset := 4, m_oheader_sent := 3\<rparr>)) < 128" by (simp add: status_line_def)
  have n: "length (ascii ''A: b'') = 4" by code_simp
  show ?thesis
    using send_header_in_pieces [OF takes_all_1 _ _ _ _ _ _ _ l, where s = "[]" and h = "0x1000" and buf = "ascii ''A: b''" and k = 0] n by (simp add: conn_1_def)
qed

end
