(* ===== verification/Spec2Isabelle.thy ===== *)
theory Spec2Isabelle
  imports Llist Mime LinkMap UrlCodec StrFmt RingBuf JsonText RepoProps ExtSpec Buffers LlLive HttpProps
begin

text \<open>
  Verification of the core of the "industrial" component platform (repository agrigomi/industrial).

  The program is a component framework in C and C++. Objects (\<open>iBase\<close>) are registered in a repository
  (core/repository-2) by interface and class name, linked to each other through link maps and cloned on
  demand; extensions (shared libraries) bring further objects. Everything rests on a zone allocator,
  linked lists and hash tables written in C (core/mem), each of which exists twice: as a structure of
  the repository itself, and as an object behind an interface (\<open>cZoneHeap\<close>, \<open>cLlist\<close>, \<open>cMap\<close>). On top of it
  are string routines (core/additions), an HTTP stack (io/libnet) and a web server (gatn).

  Reading guide, from the bottom up. A theory named in brackets holds the properties.

  \<^item> Prelude: words, the option monad (\<open>None\<close> is every way of not returning normally: a wait on a lock
    that is held, an access outside live memory, a failed assertion), generic lemmas, and the collections
    of simplification rules the component proofs use.
  \<^item> Mutex [Mutex]: core/repository-2/mutex.cpp, core/sync/mutex.cpp, core/sync/event.cpp. Both lock classes with
    their handles; the locale \<open>reentrant_lock\<close> states what a lock promises (the first lock gives a handle,
    the handle locks again, the last unlock frees it) and both classes are interpretations. Threads that
    share a lock are an inductive step relation whose reachable states keep mutual exclusion.
  \<^item> Zone, ZoneSpec, Heaps [Heaps]: core/mem/zone.c, core/repository-2/zalloc.cpp, core/mem/zone_heap.cpp. A zone context
    is an array of chains of pages of entries with bitmaps; the page provider is an argument, and the
    locale \<open>zone_callbacks\<close> states what it promises. ZoneSpec has the
    invariant \<open>zone_inv\<close> and the abstraction \<open>zlive\<close>, the map from addresses to sizes of the objects in use;
    allocation and release refine insertion and deletion in that map. Heaps instantiates it with the two
    real page providers.
  \<^item> LlAlg, LlSpec, LlOps, Llist [Llist]: core/mem/ll_alg.c, core/repository-2/list.cpp, core/mem/llist.cpp. Records live in a
    heap of linked nodes in a number of columns (or in a ring); the abstraction of a column is the list of its
    records and a cursor. The locale \<open>ll_callbacks\<close>, which extends \<open>reentrant_lock\<close>, states what a list needs
    from its allocator and lock; Llist interprets it for both classes. Iteration is bounded by the number of records.
  \<^item> LlSession, LlLive, Pools, Buffers [Pools, Buffers]: core/mem/pool.cpp, core/mem/bmap.cpp over \<open>cLlist\<close>. LlSession has what
    several operations under one lock and a write to a record do to a list, LlLive which blocks of the heap a list has. A pool
    (\<open>cPool\<close>) is two columns, free and busy, abstracted by \<open>pool_rel\<close>; what it gives without a free record is the answer of its
    heap (\<open>heap_answer\<close>). A buffer map (\<open>cBufferMap\<close>) is three, free, busy
    and dirty; its invariant says that the state byte of a record is its column and that the blocks of the buffers are
    pairwise apart. The loops over a column (\<open>free_all_loop\<close>, \<open>sync_loop\<close>) have fuel; the number of records is enough, and
    the properties give the result of the operations that contain them. Memory and I/O callbacks of the owner are parameters.
  \<^item> MapAlg, MapSpec, Sha1, Maps [Sha1, Maps]: core/mem/map_alg.c, core/mem/sha1.c, core/repository-2/map.cpp, core/mem/map.cpp. Buckets are
    lists of records; the abstraction is a map from digests to records. The locale \<open>mem_callbacks\<close> (theory
    Memory) states what a client needs from its allocator, the table is proved once for it, and both classes are
    interpretations (\<open>hm\<close>, \<open>cm\<close>) on the models of their allocators. \<open>map_enum\<close> has fuel; as many steps as
    records, and one, are enough (the property on \<open>hash_map_enm\<close> is stated with that bound and gives the
    result). Sha1 is equal to a block-wise specification on padded messages.
  \<^item> RingBuf [RingBuf]: core/mem/rb_alg.c, core/mem/rbuffer.cpp. A ring of messages in one block. As long as the messages fit in
    one lap, the block holds their concatenation (\<open>rb_rel\<close>), and push and pull refine appending to and
    reading from the list of messages; the lemmas are stated for any lock callbacks that return, and used
    with those of the class. The loop that gives up messages is a partial function.
  \<^item> BaseArray, LinkMap [BaseArray, LinkMap]: core/repository-2/base_array.cpp, core/repository-2/link_map.cpp. The registry of classes over
    \<open>hash_map\<close>, abstracted to a map from digests of keys to entries with the invariant that every entry is
    registered under a name of its own; and the loops that fill and clear the pointers of a link map, with
    the callbacks of the repository as parameters.
  \<^item> Contexts, Exts, Repository [RepoProps, ExtSpec]: the rest of core/repository-2. Contexts has dcs.cpp (a clone is a record of a
    list; \<open>class_of\<close> gives the object whose methods it has), users.cpp and monitoring.cpp; Exts has extension.cpp over a
    loader that is a parameter; Repository has repository.cpp: the state is a record of the maps, the list and the
    pending objects, \<open>env\<close> is what the repository calls. Requests fill the links of an object by further requests, so
    \<open>object_by_handle\<close> and \<open>object_release\<close> are mutually recursive with fuel; two levels of it are enough for the requests of the
    properties, and for links in a circle none is (\<open>circular_links_hang\<close>). CxSpec abstracts the storage of
    contexts to a partial map from addresses to contexts, RepoSpec reads the registry through \<open>at_registry\<close> and has the
    effects of requests and releases on entries (\<open>touched\<close>) and contexts (\<open>moved\<close>); ExtSpec has loading and unloading
    of extensions on the abstract map.
  \<^item> Bytes, Str, StrFmt, UrlCodec [Str, StrFmt, UrlCodec]: core/additions/str.c, io/libnet/url-codec.cpp. Strings are positions in a
    block of bytes, so overlapping arguments and reads past the end are part of the model. Loops that walk
    a block end because the block does; an access outside it is \<open>None\<close>.
  \<^item> Mime [Mime]: gatn/libgatn/mime_resolver.cpp, the table of MIME types and the resolver over \<open>cMap\<close>.
  \<^item> HttpServer, HttpSpec, HttpProps [HttpProps]: io/libnet/http_server_connection.cpp over \<open>cMap\<close>, \<open>cLlist\<close>, \<open>UrlDecode\<close> and the
    string routines. The record \<open>conn\<close> is the object; the socket, the buffer map, the clock and the formatting of times are the
    record \<open>http_env\<close>. One definition per method and per state of \<open>process\<close>; the loops of the parsers are functions of
    the bytes. HttpSpec shows what they make of the text of a request line, a field and a query, HttpProps puts this together
    for \<open>parse_req_header\<close> and has the properties of a response for any socket with the stated behaviour
    (\<open>takes_some\<close>, \<open>takes_all\<close>). \<open>header_loop\<close> has the length of the header as fuel, and every line takes at least one byte.
  \<^item> Hypertext, Json, JsonSpec, JsonText [JsonText]: hypertext/libht/context.c, json.c and json.cpp. The reader of documents by
    byte order mark, the recursive JSON parser over an allocator given as callbacks, and the selection of values by
    paths. The fuel \<open>n\<close> of the parser counts steps; the length of the document and 2 or 3 more are enough
    (JsonSpec proves that every parsing function returns with it, for any document and any allocator that keeps the
    locale \<open>json_memory\<close>, which extends \<open>mem_callbacks\<close>). JsonText defines the text of an
    abstract JSON value and the relation \<open>reps\<close> between values of the parser and abstract ones; parsing and
    selecting refine reading the abstract value. \<open>cJSON\<close> over its heap object is an interpretation.

  Conventions. Machine integers are words (\<open>u8\<close>, \<open>u32\<close>, \<open>u64\<close>), with wrap-around where the code has it;
  addresses of blocks are natural numbers. Structures are records, pointers to structures in a linked
  memory are addresses. Virtual methods and callbacks are parameters of the definitions that call them.
  Where a bound appears in a hypothesis (fewer than 2^20 additions to a registry, text lengths below 2^32)
  it keeps counters of the code from wrapping around.

  Not modelled: core/startup and core/additions/str.cpp, which only collect objects and pass arguments on; core/mem/s2.c, an
  allocator to which nothing else refers; the container templates of core/include; argument parsing, log, tasks and
  processes of core/additions, which are streams and threads of the system and variable arguments; the parser of XML in
  hypertext/libht, a second parser over the modelled reader; sockets, the threads of the HTTP server and the HTTP client, the
  file system and its cache, the web server apart from its MIME resolver, the command line, ODBC and the synchronisation
  extension, which are mostly calls of the system. Concurrency is modelled for the locks themselves; every other operation
  runs under its lock and is one step.
\<close>

end
